(* ===== verification/Prelude.thy ===== *)
theory Prelude
  imports Main
begin

text \<open>
  Shared vocabulary of the development.

  Strings.  A Rust \<^verbatim>\<open>String\<close> / \<^verbatim>\<open>&str\<close> is modelled by its UTF-8 bytes, as a
  \<^typ>\<open>string\<close> (a list of 8-bit characters); \<^verbatim>\<open>str::len\<close> counts bytes, so it is
  \<^const>\<open>length\<close>.  All delimiters the program looks for are ASCII, and an ASCII byte
  never occurs inside a multi-byte sequence, so scanning bytes and scanning \<^verbatim>\<open>char\<close>s
  split a line at the same places.  \<^verbatim>\<open>char::is_whitespace\<close> is modelled on ASCII.
  The functions below are the ones of the standard library that the sources call.

  Loops.  A Rust \<^verbatim>\<open>while\<close>/\<^verbatim>\<open>loop\<close> over mutable state is a step function returning
  \<^const>\<open>None\<close> when the loop ends, iterated by \<open>loop\<close> with a bound on the number of
  iterations; the locale \<open>progress\<close> proves once that the bound is enough whenever
  every step decreases a measure, so that no result depends on it.
\<close>

named_theorems str_simps "defining equations of the string functions"
named_theorems pos_simps "how operations move a position or an index"

section \<open>Characters\<close>

abbreviation NL :: char where "NL \<equiv> CHR 0x0A"
abbreviation TAB :: char where "TAB \<equiv> CHR 0x09"
abbreviation CR :: char where "CR \<equiv> CHR 0x0D"
abbreviation SP :: char where "SP \<equiv> CHR 0x20"
abbreviation DQ :: char where "DQ \<equiv> CHR 0x22"
abbreviation SQ :: char where "SQ \<equiv> CHR 0x27"
abbreviation BS :: char where "BS \<equiv> CHR 0x5C"
abbreviation BT :: char where "BT \<equiv> CHR 0x60"
abbreviation DOLLAR :: char where "DOLLAR \<equiv> CHR 0x24"
abbreviation LPAR :: char where "LPAR \<equiv> CHR 0x28"
abbreviation RPAR :: char where "RPAR \<equiv> CHR 0x29"
abbreviation LBRACE :: char where "LBRACE \<equiv> CHR 0x7B"
abbreviation RBRACE :: char where "RBRACE \<equiv> CHR 0x7D"

definition code_of :: "char \<Rightarrow> nat" where
  "code_of c = of_char c"

definition is_ascii_digit :: "char \<Rightarrow> bool" where
  "is_ascii_digit c \<longleftrightarrow> 48 \<le> code_of c \<and> code_of c \<le> 57"

definition is_ascii_alphabetic :: "char \<Rightarrow> bool" where
  "is_ascii_alphabetic c \<longleftrightarrow>
     (65 \<le> code_of c \<and> code_of c \<le> 90) \<or> (97 \<le> code_of c \<and> code_of c \<le> 122)"

definition is_ascii_alphanumeric :: "char \<Rightarrow> bool" where
  "is_ascii_alphanumeric c \<longleftrightarrow> is_ascii_alphabetic c \<or> is_ascii_digit c"

definition is_whitespace :: "char \<Rightarrow> bool" where
  "is_whitespace c \<longleftrightarrow> c = SP \<or> (9 \<le> code_of c \<and> code_of c \<le> 13)"

definition to_ascii_lower_char :: "char \<Rightarrow> char" where
  "to_ascii_lower_char c =
     (if 65 \<le> code_of c \<and> code_of c \<le> 90 then char_of (code_of c + 32) else c)"

definition to_ascii_lowercase :: "string \<Rightarrow> string" where
  "to_ascii_lowercase s = map to_ascii_lower_char s"

section \<open>Strings\<close>

definition starts_with :: "'a list \<Rightarrow> 'a list \<Rightarrow> bool" where
  "starts_with s p \<longleftrightarrow> take (length p) s = p"

definition ends_with :: "'a list \<Rightarrow> 'a list \<Rightarrow> bool" where
  "ends_with s p \<longleftrightarrow> length p \<le> length s \<and> drop (length s - length p) s = p"

definition strip_prefix :: "'a list \<Rightarrow> 'a list \<Rightarrow> 'a list option" where
  "strip_prefix s p = (if starts_with s p then Some (drop (length p) s) else None)"

definition strip_suffix :: "'a list \<Rightarrow> 'a list \<Rightarrow> 'a list option" where
  "strip_suffix s p =
     (if ends_with s p then Some (take (length s - length p) s) else None)"

fun str_contains :: "'a list \<Rightarrow> 'a list \<Rightarrow> bool" where
  "str_contains [] p = (p = [])"
| "str_contains (x # s) p = (starts_with (x # s) p \<or> str_contains s p)"

text \<open>\<^verbatim>\<open>s.contains([..])\<close>: one of the characters occurs.\<close>

definition has_any :: "'a list \<Rightarrow> 'a list \<Rightarrow> bool" where
  "has_any s cs \<longleftrightarrow> list_ex (\<lambda>c. List.member cs c) s"

text \<open>\<^verbatim>\<open>s.find(char)\<close>: the index of the first match.\<close>

fun find_index :: "('a \<Rightarrow> bool) \<Rightarrow> 'a list \<Rightarrow> nat option" where
  "find_index P [] = None"
| "find_index P (x # xs) = (if P x then Some 0 else map_option Suc (find_index P xs))"

text \<open>\<^verbatim>\<open>s.find(&str)\<close>: the index of the first occurrence.\<close>

fun find_str :: "'a list \<Rightarrow> 'a list \<Rightarrow> nat option" where
  "find_str [] p = (if p = [] then Some 0 else None)"
| "find_str (x # s) p =
     (if starts_with (x # s) p then Some 0 else map_option Suc (find_str s p))"

definition split_once :: "string \<Rightarrow> char \<Rightarrow> (string \<times> string) option" where
  "split_once s c =
     map_option (\<lambda>i. (take i s, drop (Suc i) s)) (find_index (\<lambda>d. d = c) s)"

definition split_once_str :: "string \<Rightarrow> string \<Rightarrow> (string \<times> string) option" where
  "split_once_str s p = map_option (\<lambda>i. (take i s, drop (i + length p) s)) (find_str s p)"

text \<open>\<^verbatim>\<open>s.split(c)\<close>: never empty, the pieces between the separators.\<close>

fun split_on :: "char \<Rightarrow> string \<Rightarrow> string list" where
  "split_on c [] = [[]]"
| "split_on c (x # s) =
     (if x = c then [] # split_on c s
      else (case split_on c s of [] \<Rightarrow> [[x]] | p # ps \<Rightarrow> (x # p) # ps))"

fun join_with :: "'a list \<Rightarrow> 'a list list \<Rightarrow> 'a list" where
  "join_with sep [] = []"
| "join_with sep [x] = x"
| "join_with sep (x # y # xs) = x @ sep @ join_with sep (y # xs)"

definition trim_start_matches :: "('a \<Rightarrow> bool) \<Rightarrow> 'a list \<Rightarrow> 'a list" where
  "trim_start_matches P s = dropWhile P s"

definition trim_end_matches :: "('a \<Rightarrow> bool) \<Rightarrow> 'a list \<Rightarrow> 'a list" where
  "trim_end_matches P s = rev (dropWhile P (rev s))"

definition trim :: "string \<Rightarrow> string" where
  "trim s = trim_end_matches is_whitespace (trim_start_matches is_whitespace s)"

text \<open>\<^verbatim>\<open>s.replace(p, r)\<close> for a non-empty pattern: leftmost, non-overlapping.  The first
  argument counts the characters of a match still to be skipped.\<close>

fun replace_from :: "nat \<Rightarrow> string \<Rightarrow> string \<Rightarrow> string \<Rightarrow> string" where
  "replace_from k [] p r = []"
| "replace_from (Suc k) (x # s) p r = replace_from k s p r"
| "replace_from 0 (x # s) p r =
     (if starts_with (x # s) p then r @ replace_from (length p - 1) s p r
      else x # replace_from 0 s p r)"

definition replace_all :: "string \<Rightarrow> string \<Rightarrow> string \<Rightarrow> string" where
  "replace_all s p r = replace_from 0 s p r"

text \<open>Decimal rendering, \<^verbatim>\<open>to_string()\<close> of an integer.\<close>

fun show_nat :: "nat \<Rightarrow> string" where
  "show_nat n =
     (if n < 10 then [char_of (48 + n)] else show_nat (n div 10) @ [char_of (48 + n mod 10)])"

declare show_nat.simps [simp del]

definition show_int :: "int \<Rightarrow> string" where
  "show_int i = (if i < 0 then CHR ''-'' # show_nat (nat (- i)) else show_nat (nat i))"

fun digits_value :: "nat \<Rightarrow> string \<Rightarrow> nat option" where
  "digits_value acc [] = Some acc"
| "digits_value acc (c # s) =
     (if is_ascii_digit c then digits_value (10 * acc + (code_of c - 48)) s else None)"

text \<open>\<^verbatim>\<open>str::parse::<i64>()\<close>: an optional sign and at least one digit, in range.\<close>

definition parse_i64 :: "string \<Rightarrow> int option" where
  "parse_i64 s =
     (let (neg, ds) = (case s of [] \<Rightarrow> (False, [])
                        | c # r \<Rightarrow> if c = CHR ''-'' then (True, r)
                                  else if c = CHR ''+'' then (False, r) else (False, s))
      in if ds = [] then None
         else (case digits_value 0 ds of None \<Rightarrow> None
               | Some n \<Rightarrow>
                   (let v = (if neg then - int n else int n)
                    in if - (2 ^ 63) \<le> v \<and> v < 2 ^ 63 then Some v else None)))"

text \<open>\<^verbatim>\<open>str::parse::<u32>()\<close> and its siblings: an optional plus sign, at least one digit, in
  range of the given width.\<close>

definition parse_uint :: "nat \<Rightarrow> string \<Rightarrow> nat option" where
  "parse_uint bits s =
     (let ds = (case s of c # r \<Rightarrow> if c = CHR ''+'' then r else s | [] \<Rightarrow> [])
      in if ds = [] then None
         else (case digits_value 0 ds of None \<Rightarrow> None | Some n \<Rightarrow> if int n < 2 ^ bits then Some n else None))"

text \<open>\<^verbatim>\<open>s.split(p)\<close> for a predicate on characters, and \<^verbatim>\<open>s.split_whitespace()\<close>.\<close>

fun split_by :: "(char \<Rightarrow> bool) \<Rightarrow> string \<Rightarrow> string list" where
  "split_by P [] = [[]]"
| "split_by P (x # s) =
     (if P x then [] # split_by P s
      else (case split_by P s of [] \<Rightarrow> [[x]] | p # ps \<Rightarrow> (x # p) # ps))"

definition split_whitespace :: "string \<Rightarrow> string list" where
  "split_whitespace s = filter (\<lambda>w. w \<noteq> []) (split_by is_whitespace s)"

text \<open>\<^verbatim>\<open>chars().count()\<close>: the bytes that start a UTF-8 sequence.\<close>

definition is_char_start :: "char \<Rightarrow> bool" where
  "is_char_start c \<longleftrightarrow> \<not> (128 \<le> code_of c \<and> code_of c < 192)"

definition char_count :: "string \<Rightarrow> nat" where
  "char_count s = length (filter is_char_start s)"

text \<open>Saturating arithmetic of \<^verbatim>\<open>u64\<close>.\<close>

definition U64_MAX :: nat where
  "U64_MAX = 18446744073709551615"

definition sat_add :: "nat \<Rightarrow> nat \<Rightarrow> nat" where
  "sat_add a b = min (a + b) U64_MAX"

definition sat_mul :: "nat \<Rightarrow> nat \<Rightarrow> nat" where
  "sat_mul a b = min (a * b) U64_MAX"

text \<open>\<^verbatim>\<open>v.get(i)\<close>.\<close>

definition get :: "'a list \<Rightarrow> nat \<Rightarrow> 'a option" where
  "get xs i = (if i < length xs then Some (xs ! i) else None)"

text \<open>\<^verbatim>\<open>&v[a..b]\<close> for \<open>a \<le> b \<le> length v\<close>.\<close>

definition slice :: "'a list \<Rightarrow> nat \<Rightarrow> nat \<Rightarrow> 'a list" where
  "slice xs a b = take (b - a) (drop a xs)"

definition first_opt :: "'a list \<Rightarrow> 'a option" where
  "first_opt xs = (case xs of [] \<Rightarrow> None | x # _ \<Rightarrow> Some x)"

definition last_opt :: "'a list \<Rightarrow> 'a option" where
  "last_opt xs = (if xs = [] then None else Some (last xs))"

subsection \<open>Lemmas on strings\<close>

lemma get_Some_iff: "get xs i = Some x \<longleftrightarrow> i < length xs \<and> xs ! i = x"
  by (auto simp: get_def)

lemma get_None_iff [simp]: "get xs i = None \<longleftrightarrow> length xs \<le> i"
  by (auto simp: get_def)

lemma get_beyond [simp]: "length xs \<le> i \<Longrightarrow> get xs i = None"
  by simp

lemma get_SomeD: "get xs i = Some x \<Longrightarrow> i < length xs"
  by (simp add: get_Some_iff)

lemma get_append_left: "i < length xs \<Longrightarrow> get (xs @ ys) i = Some (xs ! i)"
  by (simp add: get_def nth_append)

lemma get_append_right: "length xs \<le> i \<Longrightarrow> get (xs @ ys) i = get ys (i - length xs)"
  by (auto simp: get_def nth_append)

lemma length_slice [simp]: "length (slice xs a b) = min (b - a) (length xs - a)"
  by (simp add: slice_def min.commute)

lemma length_slice_le: "length (slice xs a b) \<le> b - a"
  by simp

lemma starts_with_append [simp]: "starts_with (p @ s) p"
  by (simp add: starts_with_def)

lemma starts_with_Nil [simp]: "starts_with s []"
  by (simp add: starts_with_def)

lemma starts_with_iff: "starts_with s p \<longleftrightarrow> (\<exists>t. s = p @ t)"
  by (metis append_take_drop_id starts_with_append starts_with_def)

lemma strip_prefix_Some: "strip_prefix s p = Some t \<longleftrightarrow> s = p @ t"
  by (auto simp: strip_prefix_def starts_with_iff)

lemma strip_prefix_None: "strip_prefix s p = None \<longleftrightarrow> \<not> starts_with s p"
  by (simp add: strip_prefix_def)

lemma split_on_not_Nil [simp]: "split_on c s \<noteq> []"
  by (induction s) (auto split: list.splits)

lemma join_split_on: "join_with [c] (split_on c s) = s"
proof (induction s)
  case (Cons x s)
  then show ?case
    by (cases "split_on c s"; cases "tl (split_on c s)") auto
qed simp

lemma split_on_no_sep: "p \<in> set (split_on c s) \<Longrightarrow> c \<notin> set p"
  by (induction s arbitrary: p) (auto split: list.splits if_splits)

lemma split_on_absent: "c \<notin> set s \<Longrightarrow> split_on c s = [s]"
  by (induction s) auto

lemma split_on_append: "c \<notin> set p \<Longrightarrow> split_on c (p @ c # s) = p # split_on c s"
  by (induction p) auto

lemma split_join: "xs \<noteq> [] \<Longrightarrow> \<forall>x \<in> set xs. c \<notin> set x \<Longrightarrow> split_on c (join_with [c] xs) = xs"
  by (induction "[c]" xs rule: join_with.induct) (auto simp: split_on_absent split_on_append)

lemma find_index_Some:
  "find_index P xs = Some i \<Longrightarrow> i < length xs \<and> P (xs ! i) \<and> (\<forall>j<i. \<not> P (xs ! j))"
proof (induction xs arbitrary: i)
  case (Cons x xs)
  then show ?case by (cases i) (auto split: if_splits simp: less_Suc_eq_0_disj)
qed simp

lemma find_index_None: "find_index P xs = None \<longleftrightarrow> (\<forall>x \<in> set xs. \<not> P x)"
  by (induction xs) auto

lemma split_once_Some: "split_once s c = Some (a, b) \<Longrightarrow> s = a @ c # b \<and> c \<notin> set a"
  unfolding split_once_def
  by (auto dest!: find_index_Some simp: in_set_conv_nth id_take_nth_drop [symmetric])

lemma split_once_None: "split_once s c = None \<longleftrightarrow> c \<notin> set s"
  by (auto simp: split_once_def find_index_None)

subsection \<open>Numbers are read back\<close>

lemma digits_value_append:
  "digits_value acc (xs @ ys) = (case digits_value acc xs of Some a \<Rightarrow> digits_value a ys | None \<Rightarrow> None)"
  by (induction xs arbitrary: acc) auto

lemma digit_code: "d < 10 \<Longrightarrow> code_of (char_of (48 + d)) = 48 + d"
  by (simp add: code_of_def)

lemma digits_value_show: "digits_value 0 (show_nat n) = Some n"
proof (induction n rule: show_nat.induct)
  case (1 n)
  have step: "digits_value a [char_of (48 + d)] = Some (10 * a + d)" if "d < 10" for a d :: nat
    using that by (simp add: is_ascii_digit_def digit_code)
  show ?case
  proof (cases "n < 10")
    case True
    then show ?thesis using step [of n 0] by (subst show_nat.simps) simp
  next
    case False
    then show ?thesis
      using 1 step [of "n mod 10" "n div 10"] by (subst show_nat.simps) (simp add: digits_value_append)
  qed
qed

lemma show_nat_digits: "list_all is_ascii_digit (show_nat n) \<and> show_nat n \<noteq> []"
proof (induction n rule: show_nat.induct)
  case (1 n)
  have "is_ascii_digit (char_of (48 + d))" if "d < 10" for d :: nat
    using that by (simp add: is_ascii_digit_def digit_code)
  with 1 show ?case by (subst (1 2) show_nat.simps) simp
qed

lemma parse_uint_show: "int n < 2 ^ bits \<Longrightarrow> parse_uint bits (show_nat n) = Some n"
proof -
  assume n: "int n < 2 ^ bits"
  obtain c r where cr: "show_nat n = c # r" using show_nat_digits [of n] by (cases "show_nat n") auto
  then have "is_ascii_digit c" using show_nat_digits [of n] by simp
  then have "c \<noteq> CHR ''+''" by (auto simp: is_ascii_digit_def code_of_def)
  with n cr show ?thesis using digits_value_show [of n] by (simp add: parse_uint_def)
qed

lemma trim_id: "\<forall>c \<in> set s. \<not> is_whitespace c \<Longrightarrow> trim s = s"
proof -
  assume a: "\<forall>c \<in> set s. \<not> is_whitespace c"
  then have "dropWhile is_whitespace s = s" by (cases s) auto
  moreover have "dropWhile is_whitespace (rev s) = rev s" using a by (cases "rev s") (auto dest: arg_cong [of _ _ set])
  ultimately show ?thesis by (simp add: trim_def trim_start_matches_def trim_end_matches_def)
qed

section \<open>Loops\<close>

fun loop :: "nat \<Rightarrow> ('s \<Rightarrow> 's option) \<Rightarrow> 's \<Rightarrow> 's" where
  "loop 0 step s = s"
| "loop (Suc n) step s = (case step s of None \<Rightarrow> s | Some s' \<Rightarrow> loop n step s')"

text \<open>What a loop body promises: every iteration makes progress.\<close>

locale progress =
  fixes step :: "'s \<Rightarrow> 's option" and m :: "'s \<Rightarrow> nat"
  assumes decreases: "step s = Some s' \<Longrightarrow> m s' < m s"
begin

lemma loop_enough: "m s < n \<Longrightarrow> m s < k \<Longrightarrow> loop n step s = loop k step s"
proof (induction n arbitrary: k s)
  case (Suc n)
  then obtain k' where "k = Suc k'" by (cases k) auto
  with Suc show ?case
    by (auto split: option.split dest: decreases intro!: Suc.IH)
qed simp

lemma loop_done: "m s < n \<Longrightarrow> step (loop n step s) = None"
proof (induction n arbitrary: s)
  case (Suc n)
  then show ?case by (auto split: option.split dest: decreases)
qed simp

end

lemma loop_invariant:
  assumes "P s" and "\<And>s s'. P s \<Longrightarrow> step s = Some s' \<Longrightarrow> P s'"
  shows "P (loop n step s)"
  using assms(1) by (induction n arbitrary: s) (auto split: option.split intro: assms(2))

lemma loop_stuck: "step s = None \<Longrightarrow> loop n step s = s"
  by (cases n) auto

section \<open>State machines\<close>

text \<open>What a component promises of its step relation: an invariant that holds at the start
  and that no step breaks.\<close>

locale state_machine =
  fixes start :: 's and move :: "'s \<Rightarrow> 's \<Rightarrow> bool" and inv :: "'s \<Rightarrow> bool"
  assumes start_inv: "inv start" and move_inv: "inv s \<Longrightarrow> move s s' \<Longrightarrow> inv s'"
begin

lemma steps_inv: "rtranclp move s s' \<Longrightarrow> inv s \<Longrightarrow> inv s'"
  by (induction rule: rtranclp_induct) (auto intro: move_inv)

lemma reachable_inv: "rtranclp move start s \<Longrightarrow> inv s"
  by (rule steps_inv [OF _ start_inv])

end

lemma map_filter_append: "List.map_filter f (xs @ ys) = List.map_filter f xs @ List.map_filter f ys"
  by (simp add: List.map_filter_def)

end
