(* ===== verification/Scan.thy ===== *)
theory Scan
  imports Prelude
begin

text \<open>
  \<^verbatim>\<open>crates/pacode-risk/src/tokenize/scan.rs\<close> and the index scanners of
  \<^verbatim>\<open>tokenize.rs\<close>: reading ahead without emitting tokens.  The characters of the line
  (\<^verbatim>\<open>Lexer::chars\<close>) never change while it is lexed, so they are the argument \<open>cs\<close>;
  \<^verbatim>\<open>self.at(i)\<close> is \<open>get cs i\<close>.

  \<^verbatim>\<open>matching_paren\<close>, \<^verbatim>\<open>skip_double_quoted\<close> and \<^verbatim>\<open>heredoc_operand\<close> call each other and
  continue from the index the callee returns; they carry a bound on the number of calls.
  \<open>scan_fuel_enough\<close> shows that a bound above the number of characters left never
  changes a result, and the callers pass the length of the line.
\<close>

record heredoc =
  delimiter :: string
  strip_tabs :: bool
  expands :: bool

definition ends_word :: "char \<Rightarrow> bool" where
  "ends_word c \<longleftrightarrow> List.member [SP, TAB, CR, NL, CHR '';'', CHR ''&'', CHR ''|'', RPAR] c"

definition starts_word_after :: "char \<Rightarrow> bool" where
  "starts_word_after c \<longleftrightarrow> ends_word c \<or> c = LPAR"

text \<open>Characters that end the word after \<^verbatim>\<open><<\<close>.\<close>

definition ends_operand :: "char \<Rightarrow> bool" where
  "ends_operand c \<longleftrightarrow> is_whitespace c \<or> List.member '';&|<>()'' c"

text \<open>Index of the first newline at or after \<open>i\<close>, or the end of the text.\<close>

definition line_end :: "string \<Rightarrow> nat \<Rightarrow> nat" where
  "line_end cs i = i + length (takeWhile (\<lambda>c. c \<noteq> NL) (drop i cs))"

definition blank_end :: "string \<Rightarrow> nat \<Rightarrow> nat" where
  "blank_end cs i = i + length (takeWhile (\<lambda>c. c = SP \<or> c = TAB) (drop i cs))"

function skip_until :: "string \<Rightarrow> nat \<Rightarrow> char \<Rightarrow> nat option" where
  "skip_until cs index close =
     (case get cs index of None \<Rightarrow> None
      | Some c \<Rightarrow>
          if c = BS \<and> close \<noteq> SQ then skip_until cs (index + 2) close
          else if c = close then Some index else skip_until cs (index + 1) close)"
  by pat_completeness auto
termination
  by (relation "measure (\<lambda>(cs, index, _). length cs - index)") (auto dest: get_SomeD)

declare skip_until.simps [simp del]

text \<open>The closing quote of \<^verbatim>\<open>$'..'\<close>.\<close>

function ansi_c_end :: "string \<Rightarrow> nat \<Rightarrow> nat option" where
  "ansi_c_end cs index =
     (case get cs index of None \<Rightarrow> None
      | Some c \<Rightarrow>
          if c = BS then ansi_c_end cs (index + 2)
          else if c = SQ then Some index else ansi_c_end cs (index + 1))"
  by pat_completeness auto
termination
  by (relation "measure (\<lambda>(cs, index). length cs - index)") (auto dest: get_SomeD)

declare ansi_c_end.simps [simp del]

lemma line_end_ge: "i \<le> line_end cs i"
  by (simp add: line_end_def)

text \<open>\<^verbatim>\<open>bodies\<close>: the lines up to the delimiter line of each pending here-document.\<close>

function body_loop :: "string \<Rightarrow> heredoc \<Rightarrow> nat \<Rightarrow> string \<Rightarrow> string \<times> nat" where
  "body_loop cs h pos body =
     (if pos < length cs then
        (let e = line_end cs pos;
             pos' = min (e + 1) (length cs);
             line = trim_end_matches (\<lambda>c. c = CR) (slice cs pos e);
             candidate = (if strip_tabs h then trim_start_matches (\<lambda>c. c = TAB) line else line)
         in if candidate = delimiter h then (body, pos')
            else body_loop cs h pos' (body @ line @ [NL]))
      else (body, pos))"
  by pat_completeness auto
termination
proof (relation "measure (\<lambda>(cs, h, pos, body). length cs - pos)", goal_cases)
  case (2 cs h pos body e pos' line candidate)
  have "pos < pos'" using 2 line_end_ge [of pos cs] by simp
  then show ?case using 2(1) by simp
qed simp

declare body_loop.simps [simp del]

fun bodies :: "string \<Rightarrow> nat \<Rightarrow> heredoc list \<Rightarrow> string list \<times> nat" where
  "bodies cs from [] = ([], from)"
| "bodies cs from (h # hs) =
     (let (body, pos) = body_loop cs h from []; (rest, e) = bodies cs pos hs in (body # rest, e))"

text \<open>
  One iteration each of \<^verbatim>\<open>matching_paren\<close> (loop state: depth, index, pending
  here-documents), \<^verbatim>\<open>skip_double_quoted\<close> and the loop of \<^verbatim>\<open>heredoc_operand\<close>
  (delimiter so far, quoted), over the scanners they call and the rest of their own loop.
  The depth never reaches 0 before the matching parenthesis: the scan starts at a
  \<^verbatim>\<open>(\<close>.
\<close>

type_synonym paren_scan = "nat \<Rightarrow> nat \<Rightarrow> nat \<Rightarrow> heredoc list \<Rightarrow> nat option"
type_synonym dquote_scan = "nat \<Rightarrow> nat option"
type_synonym operand_scan = "nat \<Rightarrow> string \<Rightarrow> bool \<Rightarrow> string \<times> bool \<times> nat"

text \<open>\<^verbatim>\<open>heredoc_operand\<close> for a \<^verbatim>\<open><<\<close> before \<open>from\<close>: the here-document, if the
  delimiter is not empty, and the index after it.\<close>

definition heredoc_operand :: "string \<Rightarrow> operand_scan \<Rightarrow> nat \<Rightarrow> heredoc list \<times> nat" where
  "heredoc_operand cs operand from =
     (let tabs = (get cs from = Some (CHR ''-''));
          (delim, quoted, e) = operand (blank_end cs (if tabs then from + 1 else from)) [] False
      in (if delim = [] then []
          else [\<lparr>delimiter = delim, strip_tabs = tabs, expands = \<not> quoted\<rparr>], e))"

definition paren_iter :: "string \<Rightarrow> paren_scan \<Rightarrow> dquote_scan \<Rightarrow> operand_scan \<Rightarrow> paren_scan" where
  "paren_iter cs paren dquote operand op depth index hs =
     (case get cs index of None \<Rightarrow> None
      | Some c \<Rightarrow>
          if c = BS then paren op depth (index + 2) hs
          else if c = SQ then
            (case skip_until cs (index + 1) SQ of None \<Rightarrow> None
             | Some j \<Rightarrow> paren op depth (j + 1) hs)
          else if c = DQ then
            (case dquote (index + 1) of None \<Rightarrow> None
             | Some j \<Rightarrow> paren op depth (j + 1) hs)
          else if c = BT then
            (case skip_until cs (index + 1) BT of None \<Rightarrow> None
             | Some j \<Rightarrow> paren op depth (j + 1) hs)
          else if c = CHR ''#'' \<and> op < index
              \<and> (case get cs (index - 1) of Some d \<Rightarrow> starts_word_after d | None \<Rightarrow> False) then
            paren op depth (line_end cs (index + 1)) hs
          else if c = CHR ''<'' \<and> get cs (index + 1) = Some (CHR ''<'') then
            (if get cs (index + 2) = Some (CHR ''<'') then paren op depth (index + 3) hs
             else (let (h, e) = heredoc_operand cs operand (index + 2) in paren op depth e (hs @ h)))
          else if c = NL \<and> hs \<noteq> [] then
            paren op depth (snd (bodies cs (index + 1) hs)) []
          else if c = LPAR then paren op (depth + 1) (index + 1) hs
          else if c = RPAR then
            (if depth - 1 = 0 then Some index else paren op (depth - 1) (index + 1) hs)
          else paren op depth (index + 1) hs)"

definition dquote_iter :: "string \<Rightarrow> paren_scan \<Rightarrow> dquote_scan \<Rightarrow> dquote_scan" where
  "dquote_iter cs paren dquote index =
     (case get cs index of None \<Rightarrow> None
      | Some c \<Rightarrow>
          if c = BS then dquote (index + 2)
          else if c = DQ then Some index
          else if c = DOLLAR \<and> get cs (index + 1) = Some LPAR then
            (case paren (index + 1) 0 (index + 1) [] of None \<Rightarrow> None
             | Some j \<Rightarrow> dquote (j + 1))
          else if c = BT then
            (case skip_until cs (index + 1) BT of None \<Rightarrow> None
             | Some j \<Rightarrow> dquote (j + 1))
          else dquote (index + 1))"

definition operand_iter :: "string \<Rightarrow> dquote_scan \<Rightarrow> operand_scan \<Rightarrow> operand_scan" where
  "operand_iter cs dquote operand index delim quoted =
     (case get cs index of None \<Rightarrow> (delim, quoted, index)
      | Some c \<Rightarrow>
          if c = SQ \<or> c = DQ then
            (case (if c = SQ then skip_until cs (index + 1) SQ else dquote (index + 1)) of
               None \<Rightarrow> (delim, True, index)
             | Some e \<Rightarrow> operand (e + 1) (delim @ slice cs (index + 1) e) True)
          else if c = BS then
            operand (index + 2)
              (delim @ (case get cs (index + 1) of None \<Rightarrow> [] | Some d \<Rightarrow> [d])) True
          else if ends_operand c then (delim, quoted, index)
          else operand (index + 1) (delim @ [c]) quoted)"

primrec scanners :: "nat \<Rightarrow> string \<Rightarrow> paren_scan \<times> dquote_scan \<times> operand_scan" where
  "scanners 0 cs =
     (\<lambda>_ _ _ _. None, \<lambda>_. None, \<lambda>index delim quoted. (delim, quoted, index))"
| "scanners (Suc f) cs =
     (let (paren, dquote, operand) = scanners f cs
      in (paren_iter cs paren dquote operand, dquote_iter cs paren dquote,
          operand_iter cs dquote operand))"

definition paren_loop :: "nat \<Rightarrow> string \<Rightarrow> paren_scan" where
  "paren_loop f cs = fst (scanners f cs)"

definition dquote_loop :: "nat \<Rightarrow> string \<Rightarrow> dquote_scan" where
  "dquote_loop f cs = fst (snd (scanners f cs))"

definition operand_loop :: "nat \<Rightarrow> string \<Rightarrow> operand_scan" where
  "operand_loop f cs = snd (snd (scanners f cs))"

definition matching_paren :: "string \<Rightarrow> nat \<Rightarrow> nat option" where
  "matching_paren cs op = paren_loop (Suc (length cs)) cs op 0 op []"

definition skip_double_quoted :: "string \<Rightarrow> nat \<Rightarrow> nat option" where
  "skip_double_quoted cs from = dquote_loop (Suc (length cs)) cs from"

definition arithmetic_end :: "string \<Rightarrow> nat \<Rightarrow> nat option" where
  "arithmetic_end cs op =
     (case matching_paren cs op of None \<Rightarrow> None
      | Some outer \<Rightarrow>
          (case matching_paren cs (op + 1) of None \<Rightarrow> None
           | Some inner \<Rightarrow> if outer = inner + 1 then Some outer else None))"

subsection \<open>Scanners move forward\<close>

lemma skip_until_unfold:
  "get cs i = Some d \<Longrightarrow> skip_until cs i c =
     (if d = BS \<and> c \<noteq> SQ then skip_until cs (i + 2) c
      else if d = c then Some i else skip_until cs (i + 1) c)"
  by (subst skip_until.simps) simp

lemma skip_until_end [simp]: "length cs \<le> i \<Longrightarrow> skip_until cs i c = None"
  by (subst skip_until.simps) simp

lemma ansi_c_end_unfold:
  "get cs i = Some d \<Longrightarrow> ansi_c_end cs i =
     (if d = BS then ansi_c_end cs (i + 2) else if d = SQ then Some i else ansi_c_end cs (i + 1))"
  by (subst ansi_c_end.simps) simp

lemma ansi_c_end_end [simp]: "length cs \<le> i \<Longrightarrow> ansi_c_end cs i = None"
  by (subst ansi_c_end.simps) simp

lemma get_cases: obtains "length cs \<le> i" | d where "get cs i = Some d" "i < length cs"
  by (cases "get cs i") (auto dest: get_SomeD)

lemma skip_until_bounds: "skip_until cs i c = Some j \<Longrightarrow> i \<le> j \<and> j < length cs"
proof (induction cs i c rule: skip_until.induct)
  case (1 cs i c)
  show ?case
  proof (cases rule: get_cases [of cs i])
    case (2 d)
    with 1 show ?thesis
      by (cases "d = BS \<and> c \<noteq> SQ"; cases "d = c") (auto simp: skip_until_unfold)
  qed (use 1 in simp)
qed

lemma ansi_c_end_bounds: "ansi_c_end cs i = Some j \<Longrightarrow> i \<le> j \<and> j < length cs"
proof (induction cs i rule: ansi_c_end.induct)
  case (1 cs i)
  show ?case
  proof (cases rule: get_cases [of cs i])
    case (2 d)
    with 1 show ?thesis
      by (cases "d = BS"; cases "d = SQ") (auto simp: ansi_c_end_unfold)
  qed (use 1 in simp)
qed

lemma body_loop_bounds:
  "i \<le> length cs \<Longrightarrow> i \<le> snd (body_loop cs h i body) \<and> snd (body_loop cs h i body) \<le> length cs"
proof (induction "length cs - i" arbitrary: i body rule: less_induct)
  case less
  show ?case
  proof (cases "i < length cs")
    case True
    define p where "p = min (line_end cs i + 1) (length cs)"
    have p: "i < p" "p \<le> length cs" "length cs - p < length cs - i"
      using True line_end_ge [of i cs] by (auto simp: p_def)
    have IH: "p \<le> snd (body_loop cs h p b) \<and> snd (body_loop cs h p b) \<le> length cs" for b
      using less.hyps [OF p(3,2)] .
    have "body_loop cs h i body = (body, p) \<or> (\<exists>b. body_loop cs h i body = body_loop cs h p b)"
      using True by (auto simp: body_loop.simps [of cs h i body] Let_def p_def)
    then show ?thesis
    proof
      assume "\<exists>b. body_loop cs h i body = body_loop cs h p b"
      then obtain b where "body_loop cs h i body = body_loop cs h p b" by blast
      with IH [of b] p show ?thesis by simp
    qed (use p in simp)
  next
    case False
    then have "body_loop cs h i body = (body, i)" by (subst body_loop.simps) simp
    with less.prems show ?thesis by simp
  qed
qed

lemma bodies_bounds:
  "i \<le> length cs \<Longrightarrow> i \<le> snd (bodies cs i hs) \<and> snd (bodies cs i hs) \<le> length cs"
proof (induction hs arbitrary: i)
  case (Cons h hs)
  obtain b p where bp: "body_loop cs h i [] = (b, p)" by fastforce
  with body_loop_bounds [OF Cons.prems, of h "[]"] have "i \<le> p" "p \<le> length cs" by auto
  with Cons.IH [of p] bp show ?case by (auto split: prod.splits)
qed simp

lemma scanners_Suc:
  "paren_loop (Suc f) cs = paren_iter cs (paren_loop f cs) (dquote_loop f cs) (operand_loop f cs)"
  "dquote_loop (Suc f) cs = dquote_iter cs (paren_loop f cs) (dquote_loop f cs)"
  "operand_loop (Suc f) cs = operand_iter cs (dquote_loop f cs) (operand_loop f cs)"
  by (simp_all add: paren_loop_def dquote_loop_def operand_loop_def split: prod.splits)

lemma scanners_0:
  "paren_loop 0 cs op d i hs = None" "dquote_loop 0 cs i = None"
  "operand_loop 0 cs i delim q = (delim, q, i)"
  by (simp_all add: paren_loop_def dquote_loop_def operand_loop_def)

text \<open>The equations the evaluator uses.\<close>

lemma scanners_code [code]:
  "paren_loop 0 cs op d i hs = None"
  "paren_loop (Suc f) cs op d i hs =
     paren_iter cs (paren_loop f cs) (dquote_loop f cs) (operand_loop f cs) op d i hs"
  "dquote_loop 0 cs i = None"
  "dquote_loop (Suc f) cs i = dquote_iter cs (paren_loop f cs) (dquote_loop f cs) i"
  "operand_loop 0 cs i delim q = (delim, q, i)"
  "operand_loop (Suc f) cs i delim q = operand_iter cs (dquote_loop f cs) (operand_loop f cs) i delim q"
  by (simp_all add: scanners_0 scanners_Suc)

lemma scanners_end:
  assumes "length cs \<le> i"
  shows "paren_loop f cs op d i hs = None" "dquote_loop f cs i = None"
    "operand_loop f cs i delim q = (delim, q, i)"
  using assms
  by (cases f; simp add: scanners_0 scanners_Suc paren_iter_def dquote_iter_def operand_iter_def)+

lemma blank_end_ge: "i \<le> blank_end cs i"
  by (simp add: blank_end_def)

text \<open>What the scanners promise each other: they only move forward.\<close>

locale forward_scanners =
  fixes cs :: string and paren :: paren_scan and dquote :: dquote_scan and operand :: operand_scan
  assumes paren_fwd: "paren op d i hs = Some j \<Longrightarrow> i \<le> j \<and> j < length cs"
    and dquote_fwd: "dquote i = Some j \<Longrightarrow> i \<le> j \<and> j < length cs"
    and operand_fwd: "i \<le> snd (snd (operand i delim q))"
begin

lemma heredoc_operand_ge: "i \<le> snd (heredoc_operand cs operand i)"
proof -
  let ?b = "blank_end cs (if get cs i = Some (CHR ''-'') then i + 1 else i)"
  have "i \<le> ?b"
    using blank_end_ge [of i cs] blank_end_ge [of "i + 1" cs] by simp
  also have "\<dots> \<le> snd (snd (operand ?b [] False))" by (rule operand_fwd)
  finally show ?thesis
    unfolding heredoc_operand_def Let_def by (cases "operand ?b [] False") simp
qed

lemma paren_from: "paren op d e hs = Some j \<Longrightarrow> i \<le> e \<Longrightarrow> i \<le> j \<and> j < length cs"
  using paren_fwd [of op d e hs j] by simp

lemma dquote_from: "dquote e = Some j \<Longrightarrow> i \<le> e \<Longrightarrow> i \<le> j \<and> j < length cs"
  using dquote_fwd [of e j] by simp

lemma operand_from: "i \<le> e \<Longrightarrow> i \<le> snd (snd (operand e delim q))"
  using operand_fwd [of e delim q] by simp

lemma paren_iter_fwd:
  assumes "paren_iter cs paren dquote operand op d i hs = Some j"
  shows "i \<le> j \<and> j < length cs"
proof -
  from assms obtain c where c: "get cs i = Some c"
    by (cases "get cs i") (auto simp: paren_iter_def)
  have i: "i < length cs" by (rule get_SomeD [OF c])
  have B: "i \<le> snd (bodies cs (i + 1) hs)" using bodies_bounds [of "i + 1" cs hs] i by simp
  have L: "i \<le> line_end cs (i + 1)" using line_end_ge [of "i + 1" cs] by simp
  have H: "i \<le> snd (heredoc_operand cs operand (i + 2))"
    using heredoc_operand_ge [of "i + 2"] by simp
  have S: "skip_until cs (Suc i) q = Some k \<Longrightarrow> i \<le> Suc k" for q k
    using skip_until_bounds [of cs "Suc i" q k] by simp
  have D: "dquote (Suc i) = Some k \<Longrightarrow> i \<le> Suc k" for k
    using dquote_fwd [of "Suc i" k] by simp
  from assms c i show ?thesis
    unfolding paren_iter_def
    by (simp split: if_splits option.splits prod.splits)
       (use B L H in \<open>auto elim!: paren_from dest: S D\<close>)
qed

lemma dquote_iter_fwd:
  assumes "dquote_iter cs paren dquote i = Some j"
  shows "i \<le> j \<and> j < length cs"
proof -
  from assms obtain c where c: "get cs i = Some c"
    by (cases "get cs i") (auto simp: dquote_iter_def)
  have i: "i < length cs" by (rule get_SomeD [OF c])
  have S: "skip_until cs (Suc i) q = Some k \<Longrightarrow> i \<le> Suc k" for q k
    using skip_until_bounds [of cs "Suc i" q k] by simp
  have P: "paren (Suc i) 0 (Suc i) [] = Some k \<Longrightarrow> i \<le> Suc k" for k
    using paren_fwd [of "Suc i" 0 "Suc i" "[]" k] by simp
  from assms c i show ?thesis
    unfolding dquote_iter_def
    by (simp split: if_splits option.splits) (auto elim!: dquote_from dest: S P)
qed

lemma operand_iter_fwd: "i \<le> snd (snd (operand_iter cs dquote operand i delim q))"
proof (cases "get cs i")
  case (Some c)
  have S: "skip_until cs (Suc i) q = Some k \<Longrightarrow> i \<le> Suc k" for q k
    using skip_until_bounds [of cs "Suc i" q k] by simp
  have D: "dquote (Suc i) = Some k \<Longrightarrow> i \<le> Suc k" for k
    using dquote_fwd [of "Suc i" k] by simp
  from Some show ?thesis
    unfolding operand_iter_def
    by (auto split: option.split intro!: operand_from dest: S D)
qed (simp add: operand_iter_def)

end

lemma forward_scanners_loops:
  "forward_scanners cs (paren_loop f cs) (dquote_loop f cs) (operand_loop f cs)"
proof (induction f)
  case 0
  show ?case by unfold_locales (simp_all add: scanners_0)
next
  case (Suc f)
  show ?case
    unfolding scanners_Suc
    by unfold_locales
       (rule forward_scanners.paren_iter_fwd [OF Suc] forward_scanners.dquote_iter_fwd [OF Suc]
          forward_scanners.operand_iter_fwd [OF Suc]; assumption?)+
qed

interpretation loops: forward_scanners cs "paren_loop f cs" "dquote_loop f cs" "operand_loop f cs"
  for cs f
  by (rule forward_scanners_loops)

subsection \<open>The bound on the number of calls is enough\<close>

context forward_scanners
begin

text \<open>Two families of scanners that agree beyond \<open>i\<close> give the same iteration at \<open>i\<close>.\<close>

lemma heredoc_operand_cong:
  assumes "\<And>k. i \<le> k \<Longrightarrow> operand k = operand' k"
  shows "heredoc_operand cs operand i = heredoc_operand cs operand' i"
proof -
  let ?b = "blank_end cs (if get cs i = Some (CHR ''-'') then i + 1 else i)"
  have "i \<le> ?b" using blank_end_ge [of i cs] blank_end_ge [of "i + 1" cs] by simp
  from assms [OF this] show ?thesis by (simp add: heredoc_operand_def Let_def)
qed

lemma paren_iter_cong:
  assumes P: "\<And>k. i < k \<Longrightarrow> (\<lambda>op d. paren op d k) = (\<lambda>op d. paren' op d k)"
    and D: "\<And>k. i < k \<Longrightarrow> dquote k = dquote' k"
    and O: "\<And>k. i < k \<Longrightarrow> operand k = operand' k"
  shows "paren_iter cs paren dquote operand op d i hs = paren_iter cs paren' dquote' operand' op d i hs"
proof (cases "get cs i")
  case (Some c)
  have P': "paren op d k = paren' op d k" if "i < k" for op d k
    using P [OF that] by (simp add: fun_eq_iff)
  have i: "i < length cs" by (rule get_SomeD [OF Some])
  have B: "i < snd (bodies cs (Suc i) hs)" using bodies_bounds [of "Suc i" cs hs] i by simp
  have L: "i < line_end cs (Suc i)" using line_end_ge [of "Suc i" cs] by simp
  have H: "heredoc_operand cs operand (Suc (Suc i)) = heredoc_operand cs operand' (Suc (Suc i))"
    by (rule heredoc_operand_cong) (rule O, simp)
  have E: "i < snd (heredoc_operand cs operand (Suc (Suc i)))"
    using heredoc_operand_ge [of "Suc (Suc i)"] by simp
  have S: "skip_until cs (Suc i) q = Some k \<Longrightarrow> i < Suc k" for q k
    using skip_until_bounds [of cs "Suc i" q k] by simp
  have Q: "dquote' (Suc i) = Some k \<Longrightarrow> i < Suc k" for k
    using dquote_fwd [of "Suc i" k] D [of "Suc i"] by simp
  have e1: "(case skip_until cs (Suc i) q of None \<Rightarrow> None | Some j \<Rightarrow> paren op d (j + 1) hs) =
      (case skip_until cs (Suc i) q of None \<Rightarrow> None | Some j \<Rightarrow> paren' op d (j + 1) hs)" for q
    by (auto simp: P' split: option.split dest: S)
  have e2: "(case dquote (Suc i) of None \<Rightarrow> None | Some j \<Rightarrow> paren op d (j + 1) hs) =
      (case dquote' (Suc i) of None \<Rightarrow> None | Some j \<Rightarrow> paren' op d (j + 1) hs)"
    by (auto simp: D P' split: option.split dest: Q)
  have e3: "(case heredoc_operand cs operand (Suc (Suc i)) of (h, e) \<Rightarrow> paren op d e (hs @ h)) =
      (case heredoc_operand cs operand' (Suc (Suc i)) of (h, e) \<Rightarrow> paren' op d e (hs @ h))"
    using E by (auto simp: H P' split: prod.split)
  show ?thesis
    using Some B L by (simp add: paren_iter_def P' e1 e2 e3)
qed (simp add: paren_iter_def)

lemma dquote_iter_cong:
  assumes P: "\<And>k. i < k \<Longrightarrow> (\<lambda>op d. paren op d k) = (\<lambda>op d. paren' op d k)"
    and D: "\<And>k. i < k \<Longrightarrow> dquote k = dquote' k"
  shows "dquote_iter cs paren dquote i = dquote_iter cs paren' dquote' i"
proof (cases "get cs i")
  case (Some c)
  have P': "paren op d k = paren' op d k" if "i < k" for op d k
    using P [OF that] by (simp add: fun_eq_iff)
  have S: "skip_until cs (Suc i) q = Some k \<Longrightarrow> i < Suc k" for q k
    using skip_until_bounds [of cs "Suc i" q k] by simp
  have Q: "paren' (Suc i) 0 (Suc i) [] = Some k \<Longrightarrow> i < Suc k" for k
    using paren_fwd [of "Suc i" 0 "Suc i" "[]" k] P' [of "Suc i"] by simp
  show ?thesis
    using Some by (simp add: dquote_iter_def P' D split: option.split) (auto simp: D dest: S Q)
qed (simp add: dquote_iter_def)

lemma operand_iter_cong:
  assumes D: "\<And>k. i < k \<Longrightarrow> dquote k = dquote' k"
    and O: "\<And>k. i < k \<Longrightarrow> operand k = operand' k"
  shows "operand_iter cs dquote operand i delim q = operand_iter cs dquote' operand' i delim q"
proof (cases "get cs i")
  case (Some c)
  have S: "skip_until cs (Suc i) q = Some k \<Longrightarrow> i < Suc k" for q k
    using skip_until_bounds [of cs "Suc i" q k] by simp
  have Q: "dquote' (Suc i) = Some k \<Longrightarrow> i < Suc k" for k
    using dquote_fwd [of "Suc i" k] D [of "Suc i"] by simp
  show ?thesis
    using Some by (simp add: operand_iter_def D O split: option.split) (auto simp: O dest: S Q)
qed (simp add: operand_iter_def)

end

lemma scan_fuel_eq:
  "length cs < f + i \<Longrightarrow> length cs < g + i \<Longrightarrow>
     (\<lambda>op d. paren_loop f cs op d i) = (\<lambda>op d. paren_loop g cs op d i)
     \<and> dquote_loop f cs i = dquote_loop g cs i \<and> operand_loop f cs i = operand_loop g cs i"
proof (induction f arbitrary: g i)
  case 0
  then have "length cs \<le> i" by simp
  then show ?case by (simp add: scanners_end fun_eq_iff)
next
  case (Suc f)
  show ?case
  proof (cases g)
    case 0
    with Suc.prems have "length cs \<le> i" by simp
    then show ?thesis by (simp add: scanners_end fun_eq_iff)
  next
    case (Suc g')
    have IH: "(\<lambda>op d. paren_loop f cs op d k) = (\<lambda>op d. paren_loop g' cs op d k)"
      "dquote_loop f cs k = dquote_loop g' cs k" "operand_loop f cs k = operand_loop g' cs k"
      if "i < k" for k
      using Suc.IH [of k g'] Suc.prems Suc that by auto
    show ?thesis
      unfolding Suc scanners_Suc
      by (auto simp: fun_eq_iff intro!: loops.paren_iter_cong loops.dquote_iter_cong
          loops.operand_iter_cong IH)
  qed
qed

text \<open>\<^verbatim>\<open>matching_paren\<close> and \<^verbatim>\<open>skip_double_quoted\<close> are total and their result does not
  depend on the call bound of the model: any larger bound gives the same answer, and an
  answer is an index of the line at or after the starting index.\<close>

theorem scan_fuel_enough:
  assumes "length cs < f"
  shows "paren_loop f cs op 0 op [] = matching_paren cs op
    \<and> dquote_loop f cs from = skip_double_quoted cs from
    \<and> (\<forall>j. matching_paren cs op = Some j \<longrightarrow> op \<le> j \<and> j < length cs)
    \<and> (\<forall>j. skip_double_quoted cs from = Some j \<longrightarrow> from \<le> j \<and> j < length cs)"
proof -
  have "paren_loop f cs op 0 op [] = matching_paren cs op"
    using scan_fuel_eq [of cs f op "Suc (length cs)"] assms
    by (simp add: matching_paren_def fun_eq_iff)
  moreover have "dquote_loop f cs from = skip_double_quoted cs from"
    using scan_fuel_eq [of cs f "from" "Suc (length cs)"] assms
    by (simp add: skip_double_quoted_def)
  ultimately show ?thesis
    using loops.paren_fwd [of "Suc (length cs)" cs op 0 op "[]"]
      loops.dquote_fwd [of "Suc (length cs)" cs "from"]
    by (auto simp: matching_paren_def skip_double_quoted_def)
qed

theorem scan_fuel_enough_witness:
  "paren_loop 100 ''(a (b) c)'' 0 0 0 [] = matching_paren ''(a (b) c)'' 0"
  using scan_fuel_enough [of "''(a (b) c)''" 100 0 0] by simp

lemma matching_paren_bounds: "matching_paren cs op = Some j \<Longrightarrow> op \<le> j \<and> j < length cs"
  unfolding matching_paren_def by (rule loops.paren_fwd)

lemma skip_double_quoted_bounds: "skip_double_quoted cs i = Some j \<Longrightarrow> i \<le> j \<and> j < length cs"
  unfolding skip_double_quoted_def by (rule loops.dquote_fwd)

subsection \<open>Braces and backticks\<close>

function brace_loop :: "string \<Rightarrow> nat \<Rightarrow> nat \<Rightarrow> nat option" where
  "brace_loop cs depth index =
     (case get cs index of None \<Rightarrow> None
      | Some c \<Rightarrow>
          if c = BS then brace_loop cs depth (index + 2)
          else if c = SQ then
            (case skip_until cs (index + 1) SQ of None \<Rightarrow> None
             | Some j \<Rightarrow> brace_loop cs depth (j + 1))
          else if c = DQ then
            (case skip_double_quoted cs (index + 1) of None \<Rightarrow> None
             | Some j \<Rightarrow> brace_loop cs depth (j + 1))
          else if c = BT then
            (case skip_until cs (index + 1) BT of None \<Rightarrow> None
             | Some j \<Rightarrow> brace_loop cs depth (j + 1))
          else if c = LBRACE then brace_loop cs (depth + 1) (index + 1)
          else if c = RBRACE then
            (if depth - 1 = 0 then Some index else brace_loop cs (depth - 1) (index + 1))
          else brace_loop cs depth (index + 1))"
  by pat_completeness auto
termination
  by (relation "measure (\<lambda>(cs, depth, index). length cs - index)")
     (auto dest: get_SomeD skip_until_bounds skip_double_quoted_bounds)

declare brace_loop.simps [simp del]

definition matching_brace :: "string \<Rightarrow> nat \<Rightarrow> nat option" where
  "matching_brace cs op = brace_loop cs 0 op"

lemma brace_loop_bounds: "brace_loop cs d i = Some j \<Longrightarrow> i \<le> j \<and> j < length cs"
proof (induction cs d i rule: brace_loop.induct)
  case (1 cs d i)
  show ?case
  proof (cases "get cs i")
    case None
    with "1.prems" show ?thesis by (simp add: brace_loop.simps [of cs d i])
  next
    case (Some c)
    note IH = "1.IH" [OF Some]
    have i: "i < length cs" by (rule get_SomeD [OF Some])
    have S: "skip_until cs (Suc i) q = Some k \<Longrightarrow> i \<le> Suc k" for q k
      using skip_until_bounds [of cs "Suc i" q k] by simp
    have D: "skip_double_quoted cs (Suc i) = Some k \<Longrightarrow> i \<le> Suc k" for k
      using skip_double_quoted_bounds [of cs "Suc i" k] by simp
    from "1.prems" Some i IH show ?thesis
      unfolding brace_loop.simps [of cs d i]
      by (simp split: if_splits option.splits) (auto dest: S D)
  qed
qed

text \<open>The body of a backtick substitution, unescaping \<^verbatim>\<open>\`\<close>, \<^verbatim>\<open>\\\<close> and \<^verbatim>\<open>\$\<close>, and the index
  of its closing backtick.\<close>

function backtick_loop :: "string \<Rightarrow> nat \<Rightarrow> string \<Rightarrow> (string \<times> nat) option" where
  "backtick_loop cs index body =
     (case get cs index of None \<Rightarrow> None
      | Some c \<Rightarrow>
          if c = BT then Some (body, index)
          else if c = BS then
            backtick_loop cs (index + 2)
              (body @ (case get cs (index + 1) of None \<Rightarrow> []
                       | Some d \<Rightarrow> if d = BT \<or> d = BS \<or> d = DOLLAR then [d] else [BS, d]))
          else backtick_loop cs (index + 1) (body @ [c]))"
  by pat_completeness auto
termination
  by (relation "measure (\<lambda>(cs, index, body). length cs - index)") (auto dest: get_SomeD)

declare backtick_loop.simps [simp del]

lemma backtick_loop_unfold:
  "get cs i = Some c \<Longrightarrow> backtick_loop cs i body =
     (if c = BT then Some (body, i)
      else if c = BS then
        backtick_loop cs (i + 2)
          (body @ (case get cs (i + 1) of None \<Rightarrow> []
                   | Some d \<Rightarrow> if d = BT \<or> d = BS \<or> d = DOLLAR then [d] else [BS, d]))
      else backtick_loop cs (i + 1) (body @ [c]))"
  by (subst backtick_loop.simps) simp

lemma backtick_loop_bounds:
  "backtick_loop cs i body = Some (b, j) \<Longrightarrow> i \<le> j \<and> j < length cs"
proof (induction cs i body rule: backtick_loop.induct)
  case (1 cs i body)
  show ?case
  proof (cases rule: get_cases [of cs i])
    case 1
    with "1.prems" show ?thesis by (subst (asm) backtick_loop.simps) simp
  next
    case (2 c)
    note IH = "1.IH" [OF 2(1)]
    show ?thesis
    proof (cases "c = BT \<or> c = BS")
      case True
      with 2 IH(1) "1.prems" show ?thesis
        by (cases "c = BT") (auto simp: backtick_loop_unfold)
    next
      case False
      with 2 IH(2) "1.prems" show ?thesis by (simp add: backtick_loop_unfold)
    qed
  qed
qed

end
