(* ===== verification/Tokenize.thy ===== *)
theory Tokenize
  imports Scan
begin

text \<open>
  \<^verbatim>\<open>crates/pacode-risk/src/tokenize.rs\<close>: the shell lexer.  The state of \<^verbatim>\<open>Lexer\<close> is the
  record \<open>lexer\<close> (its constant field \<^verbatim>\<open>chars\<close> is the argument \<open>cs\<close>); every method of
  the source that mutates it is a function returning the new state, and the \<^verbatim>\<open>text\<close>
  it appends to is threaded along.

  \<^verbatim>\<open>substitution\<close> lexes its body, \<^verbatim>\<open>dollar\<close> scans the expansions of its body: both
  are strictly shorter than the line.  The two recursions are the parameters \<open>lx\<close> and
  \<open>sc\<close> of the methods, and are closed at the end (\<open>scan_expansions\<close>, \<open>lex_fuel\<close>).
\<close>

record token =
  tk_text :: string
  is_operator :: bool

definition word_token :: "string \<Rightarrow> token" where
  "word_token s = \<lparr>tk_text = s, is_operator = False\<rparr>"

definition operator_token :: "string \<Rightarrow> token" where
  "operator_token s = \<lparr>tk_text = s, is_operator = True\<rparr>"

definition basename :: "token \<Rightarrow> string" where
  "basename t = last (split_on (CHR ''/'') (tk_text t))"

definition is_flag :: "token \<Rightarrow> bool" where
  "is_flag t \<longleftrightarrow> \<not> is_operator t \<and> starts_with (tk_text t) ''-'' \<and> 1 < length (tk_text t)"

definition is_recursive_flag :: "token \<Rightarrow> bool" where
  "is_recursive_flag t \<longleftrightarrow>
     (if \<not> is_flag t then False
      else if starts_with (tk_text t) ''--'' then tk_text t = ''--recursive''
      else has_any (tk_text t) ''rR'')"

definition UNTERMINATED :: string where
  "UNTERMINATED = ''an unterminated quote or substitution''"

definition GLUED_PAREN :: string where
  "GLUED_PAREN =
     ''a `(` glued to a word (an extended glob, a zsh glob qualifier or a fish substitution)''"

definition CASE_IN_SUBSTITUTION :: string where
  "CASE_IN_SUBSTITUTION = ''a `case` statement inside a command substitution''"

record lexed =
  tokens :: "token list"
  nested :: "string list"
  heredoc_bodies :: "string list"
  lex_unresolved :: "string list"

definition empty_lexed :: lexed where
  "empty_lexed = \<lparr>tokens = [], nested = [], heredoc_bodies = [], lex_unresolved = []\<rparr>"

record lexer =
  pos :: nat
  out :: lexed
  heredocs :: "heredoc list"

definition init_lexer :: lexer where
  "init_lexer = \<lparr>pos = 0, out = empty_lexed, heredocs = []\<rparr>"

definition push_token :: "token \<Rightarrow> lexer \<Rightarrow> lexer" where
  "push_token t s = s\<lparr>out := (out s)\<lparr>tokens := tokens (out s) @ [t]\<rparr>\<rparr>"

definition advance :: "nat \<Rightarrow> lexer \<Rightarrow> lexer" where
  "advance n s = s\<lparr>pos := pos s + n\<rparr>"

definition goto :: "nat \<Rightarrow> lexer \<Rightarrow> lexer" where
  "goto p s = s\<lparr>pos := p\<rparr>"

definition add_unresolved :: "string list \<Rightarrow> lexer \<Rightarrow> lexer" where
  "add_unresolved u s = s\<lparr>out := (out s)\<lparr>lex_unresolved := lex_unresolved (out s) @ u\<rparr>\<rparr>"

definition add_nested :: "string list \<Rightarrow> lexer \<Rightarrow> lexer" where
  "add_nested n s = s\<lparr>out := (out s)\<lparr>nested := nested (out s) @ n\<rparr>\<rparr>"

definition add_body :: "string \<Rightarrow> lexer \<Rightarrow> lexer" where
  "add_body b s = s\<lparr>out := (out s)\<lparr>heredoc_bodies := heredoc_bodies (out s) @ [b]\<rparr>\<rparr>"

definition op_tok :: "string \<Rightarrow> nat \<Rightarrow> lexer \<Rightarrow> lexer" where
  "op_tok t len s = push_token (operator_token t) (advance len s)"

definition unterminated :: "string \<Rightarrow> lexer \<Rightarrow> lexer" where
  "unterminated cs s = goto (length cs) (add_unresolved [UNTERMINATED] s)"

text \<open>\<^verbatim>\<open>sub\<close>-scans of a body: the substitutions found and what stayed unresolved.\<close>

type_synonym scan_fun = "string \<Rightarrow> string list \<times> string list"
type_synonym lex_fun = "string \<Rightarrow> lexed"

definition scan_into :: "scan_fun \<Rightarrow> string \<Rightarrow> lexer \<Rightarrow> lexer" where
  "scan_into sc body s = (let (n, u) = sc body in add_unresolved u (add_nested n s))"

definition mentions_case :: "lexed \<Rightarrow> bool" where
  "mentions_case l \<longleftrightarrow> list_ex (\<lambda>t. \<not> is_operator t \<and> tk_text t = ''case'') (tokens l)"

definition substitution ::
  "lex_fun \<Rightarrow> string \<Rightarrow> char \<Rightarrow> nat \<Rightarrow> lexer \<times> string \<Rightarrow> lexer \<times> string" where
  "substitution lx cs sigil op st = (case st of (s, str) \<Rightarrow>
     (case matching_paren cs op of None \<Rightarrow> (unterminated cs s, str)
      | Some e \<Rightarrow>
          (let body = slice cs (op + 1) e;
               s1 = (if mentions_case (lx body) then add_unresolved [CASE_IN_SUBSTITUTION] s else s)
           in (goto (e + 1) (add_nested [body] s1),
               str @ (if sigil \<noteq> LPAR then [sigil] else []) @ [LPAR] @ body @ [RPAR]))))"

definition backtick :: "string \<Rightarrow> lexer \<times> string \<Rightarrow> lexer \<times> string" where
  "backtick cs st = (case st of (s, str) \<Rightarrow>
     (case backtick_loop cs (pos s + 1) [] of None \<Rightarrow> (unterminated cs s, str)
      | Some (body, e) \<Rightarrow>
          (goto (e + 1) (add_nested [body] s), str @ [BT] @ body @ [BT])))"

definition dollar ::
  "lex_fun \<Rightarrow> scan_fun \<Rightarrow> string \<Rightarrow> bool \<Rightarrow> lexer \<times> string \<Rightarrow> lexer \<times> string" where
  "dollar lx sc cs in_quotes st = (case st of (s, str) \<Rightarrow>
     (let next = get cs (pos s + 1)
      in if next = Some LPAR then
           (case (if get cs (pos s + 2) = Some LPAR then arithmetic_end cs (pos s + 1) else None) of
              Some e \<Rightarrow>
                (let body = slice cs (pos s + 3) (e - 1)
                 in (goto (e + 1) (scan_into sc body s), str @ ''$(('' @ body @ ''))''))
            | None \<Rightarrow> substitution lx cs DOLLAR (pos s + 1) (s, str))
         else if next = Some LBRACE then
           (case matching_brace cs (pos s + 1) of None \<Rightarrow> (unterminated cs s, str)
            | Some e \<Rightarrow>
                (let body = slice cs (pos s + 2) e
                 in (goto (e + 1) (scan_into sc body s), str @ ''${'' @ body @ ''}'')))
         else if next = Some SQ \<and> \<not> in_quotes then
           (case ansi_c_end cs (pos s + 2) of None \<Rightarrow> (unterminated cs s, str)
            | Some e \<Rightarrow> (goto (e + 1) s, str @ slice cs (pos s) (e + 1)))
         else (advance 1 s, str @ [DOLLAR])))"

text \<open>\<^verbatim>\<open>scan_expansions\<close>: the loop over the sub-lexer of \<^verbatim>\<open>text\<close>.\<close>

definition scan_step ::
  "lex_fun \<Rightarrow> scan_fun \<Rightarrow> string \<Rightarrow> lexer \<times> string \<Rightarrow> (lexer \<times> string) option" where
  "scan_step lx sc cs st = (case st of (s, scratch) \<Rightarrow>
     (case get cs (pos s) of None \<Rightarrow> None
      | Some c \<Rightarrow>
          Some (if c = BS then (advance 2 s, scratch)
                else if c = DOLLAR then dollar lx sc cs True (s, scratch)
                else if c = BT then backtick cs (s, scratch)
                else (advance 1 s, scratch))))"

primrec scan_expansions :: "nat \<Rightarrow> lex_fun \<Rightarrow> scan_fun" where
  "scan_expansions 0 lx str = ([], [])"
| "scan_expansions (Suc n) lx str =
     (let sub = fst (loop (Suc (length str)) (scan_step lx (scan_expansions n lx) str) (init_lexer, []))
      in (nested (out sub), lex_unresolved (out sub)))"

text \<open>\<^verbatim>\<open>double_quoted\<close>: the flag is set when the loop returns.\<close>

definition dquoted_step ::
  "lex_fun \<Rightarrow> scan_fun \<Rightarrow> string \<Rightarrow> lexer \<times> string \<times> bool \<Rightarrow> (lexer \<times> string \<times> bool) option" where
  "dquoted_step lx sc cs st = (case st of (s, str, fin) \<Rightarrow>
     if fin then None
     else Some (case get cs (pos s) of None \<Rightarrow> (unterminated cs s, str, True)
       | Some c \<Rightarrow>
           if c = DQ then (advance 1 s, str, True)
           else if c = BS then
             (case get cs (pos s + 1) of None \<Rightarrow> (unterminated cs s, str, True)
              | Some d \<Rightarrow>
                  (advance 2 s,
                   str @ (if d = NL then []
                          else if d = DQ \<or> d = BS \<or> d = DOLLAR \<or> d = BT then [d] else [BS, d]),
                   False))
           else if c = DOLLAR then
             (let (s', str') = dollar lx sc cs True (s, str) in (s', str', False))
           else if c = BT then (let (s', str') = backtick cs (s, str) in (s', str', False))
           else (advance 1 s, str @ [c], False)))"

definition double_quoted :: "lex_fun \<Rightarrow> scan_fun \<Rightarrow> string \<Rightarrow> lexer \<times> string \<Rightarrow> lexer \<times> string" where
  "double_quoted lx sc cs st = (case st of (s, str) \<Rightarrow>
     (let (s', str', fin) =
        loop (length cs + 2) (dquoted_step lx sc cs) (advance 1 s, str, False) in (s', str')))"

text \<open>\<^verbatim>\<open>word\<close>: the loop state is the lexer, the text, whether a part was quoted, and
  whether the word turned out to be the descriptor of a redirection.\<close>

type_synonym word_state = "lexer \<times> string \<times> bool \<times> bool"

definition word_step ::
  "lex_fun \<Rightarrow> scan_fun \<Rightarrow> string \<Rightarrow> word_state \<Rightarrow> word_state option" where
  "word_step lx sc cs st = (case st of (s, str, quoted, redir) \<Rightarrow>
     if redir then None
     else (case get cs (pos s) of None \<Rightarrow> None
       | Some c \<Rightarrow>
           if ends_word c then None
           else if (c = CHR ''<'' \<or> c = CHR ''>'') \<and> get cs (pos s + 1) = Some LPAR then
             (let (s', str') = substitution lx cs c (pos s + 1) (s, str)
              in Some (s', str', quoted, False))
           else if c = CHR ''<'' \<or> c = CHR ''>'' then
             (if \<not> quoted \<and> str \<noteq> [] \<and> list_all is_ascii_digit str
              then Some (s, str, quoted, True) else None)
           else if c = LPAR then
             (if str = [] \<or> get cs (pos s + 1) = Some RPAR then None
              else (let (s', str') =
                      substitution lx cs LPAR (pos s) (add_unresolved [GLUED_PAREN] s, str)
                    in Some (s', str', quoted, False)))
           else if c = SQ then
             (case skip_until cs (pos s + 1) SQ of None \<Rightarrow> Some (unterminated cs s, str, True, False)
              | Some e \<Rightarrow> Some (goto (e + 1) s, str @ slice cs (pos s + 1) e, True, False))
           else if c = DQ then
             (let (s', str') = double_quoted lx sc cs (s, str) in Some (s', str', True, False))
           else if c = BS then
             (case get cs (pos s + 1) of None \<Rightarrow> Some (advance 1 s, str, True, False)
              | Some d \<Rightarrow>
                  Some (advance 2 s, (if d = NL then str else str @ [d]), True, False))
           else if c = DOLLAR then
             (let (s', str') = dollar lx sc cs False (s, str) in Some (s', str', quoted, False))
           else if c = BT then
             (let (s', str') = backtick cs (s, str) in Some (s', str', quoted, False))
           else Some (advance 1 s, str @ [c], quoted, False)))"

definition dup_target :: "char option \<Rightarrow> bool" where
  "dup_target c \<longleftrightarrow> (case c of Some d \<Rightarrow> is_ascii_digit d \<or> d = CHR ''-'' | None \<Rightarrow> False)"

text \<open>\<^verbatim>\<open>redirect\<close>; \<open>delim\<close> is the call of \<^verbatim>\<open>heredoc_delimiter\<close>.\<close>

definition redirect ::
  "(bool \<Rightarrow> lexer \<Rightarrow> lexer) \<Rightarrow> string \<Rightarrow> string \<Rightarrow> lexer \<Rightarrow> lexer" where
  "redirect delim cs fd s =
     (let c = get cs (pos s); next = get cs (pos s + 1); after = get cs (pos s + 2);
          tgt = (case after of Some d \<Rightarrow> [d] | None \<Rightarrow> ''-'')
      in if c = Some (CHR ''>'') then
           (if next = Some (CHR ''>'') then op_tok (fd @ ''>>'') 2 s
            else if next = Some (CHR ''|'') then op_tok (fd @ ''>|'') 2 s
            else if next = Some (CHR ''&'') \<and> dup_target after then op_tok (fd @ ''>&'' @ tgt) 3 s
            else if next = Some (CHR ''&'') then op_tok (fd @ ''>&'') 2 s
            else op_tok (fd @ ''>'') 1 s)
         else if next = Some (CHR ''<'') \<and> after = Some (CHR ''<'') then op_tok (fd @ ''<<<'') 3 s
         else if next = Some (CHR ''<'') then
           (let tabs = (after = Some (CHR ''-''))
            in delim tabs (op_tok (fd @ (if tabs then ''<<-'' else ''<<'')) (if tabs then 3 else 2) s))
         else if next = Some (CHR ''&'') \<and> dup_target after then op_tok (fd @ ''<&'' @ tgt) 3 s
         else if next = Some (CHR ''&'') then op_tok (fd @ ''<&'') 2 s
         else if next = Some (CHR ''>'') then op_tok (fd @ ''<>'') 2 s
         else op_tok (fd @ ''<'') 1 s)"

text \<open>\<^verbatim>\<open>heredoc_delimiter\<close>; \<open>wd\<close> is the call of \<^verbatim>\<open>word\<close>.\<close>

definition heredoc_delimiter ::
  "(lexer \<Rightarrow> lexer \<times> bool) \<Rightarrow> string \<Rightarrow> bool \<Rightarrow> lexer \<Rightarrow> lexer" where
  "heredoc_delimiter wd cs tabs s0 =
     (let s = goto (blank_end cs (pos s0)) s0
      in if (case get cs (pos s) of None \<Rightarrow> True
             | Some c \<Rightarrow> ends_word c \<or> c = CHR ''<'' \<or> c = CHR ''>'') then s
         else
           (let (s1, quoted) = wd s
            in case last_opt (tokens (out s1)) of None \<Rightarrow> s1
               | Some t \<Rightarrow>
                   s1\<lparr>heredocs := heredocs s1 @
                        [\<lparr>delimiter = tk_text t, strip_tabs = tabs, expands = \<not> quoted\<rparr>]\<rparr>))"

primrec lex_word :: "nat \<Rightarrow> lex_fun \<Rightarrow> scan_fun \<Rightarrow> string \<Rightarrow> lexer \<Rightarrow> lexer \<times> bool" where
  "lex_word 0 lx sc cs s = (s, False)"
| "lex_word (Suc n) lx sc cs s =
     (let (s1, str, quoted, redir) =
        loop (length cs + 2) (word_step lx sc cs) (s, [], False, False)
      in if redir then (redirect (heredoc_delimiter (lex_word n lx sc cs) cs) cs str s1, quoted)
         else (push_token (word_token str) s1, quoted))"

definition word :: "lex_fun \<Rightarrow> scan_fun \<Rightarrow> string \<Rightarrow> lexer \<Rightarrow> lexer \<times> bool" where
  "word lx sc cs s = lex_word (Suc (length cs)) lx sc cs s"

definition read_heredoc_bodies :: "scan_fun \<Rightarrow> string \<Rightarrow> lexer \<Rightarrow> lexer" where
  "read_heredoc_bodies sc cs s =
     (let (bs, e) = bodies cs (pos s) (heredocs s)
      in foldl (\<lambda>s (h, body). add_body body (if expands h then scan_into sc body s else s))
           (s\<lparr>pos := e, heredocs := []\<rparr>) (zip (heredocs s) bs))"

definition arithmetic_command :: "scan_fun \<Rightarrow> string \<Rightarrow> nat \<Rightarrow> lexer \<Rightarrow> lexer" where
  "arithmetic_command sc cs e s =
     (let body = slice cs (pos s + 2) (e - 1)
      in push_token (word_token (''(('' @ body @ ''))'')) (goto (e + 1) (scan_into sc body s)))"

definition run_step :: "lex_fun \<Rightarrow> scan_fun \<Rightarrow> string \<Rightarrow> lexer \<Rightarrow> lexer option" where
  "run_step lx sc cs s =
     (case get cs (pos s) of None \<Rightarrow> None
      | Some c \<Rightarrow>
          (let next = get cs (pos s + 1); after = get cs (pos s + 2)
           in Some
             (if c = SP \<or> c = TAB \<or> c = CR then advance 1 s
              else if c = BS \<and> next = Some NL then advance 2 s
              else if c = CHR ''#'' then goto (line_end cs (pos s)) s
              else if c = NL then read_heredoc_bodies sc cs (op_tok [NL] 1 s)
              else if c = CHR '';'' then
                (if next = Some (CHR '';'') \<and> after = Some (CHR ''&'') then op_tok '';;&'' 3 s
                 else if next = Some (CHR '';'') then op_tok '';;'' 2 s
                 else if next = Some (CHR ''&'') then op_tok '';&'' 2 s
                 else op_tok '';'' 1 s)
              else if c = CHR ''&'' then
                (if next = Some (CHR ''&'') then op_tok ''&&'' 2 s
                 else if next = Some (CHR ''>'') \<and> after = Some (CHR ''>'') then op_tok ''&>>'' 3 s
                 else if next = Some (CHR ''>'') then op_tok ''&>'' 2 s
                 else op_tok ''&'' 1 s)
              else if c = CHR ''|'' then
                (if next = Some (CHR ''|'') then op_tok ''||'' 2 s
                 else if next = Some (CHR ''&'') then op_tok ''|&'' 2 s
                 else op_tok ''|'' 1 s)
              else if c = LPAR then
                (case (if next = Some LPAR then arithmetic_end cs (pos s) else None) of
                   Some e \<Rightarrow> arithmetic_command sc cs e s
                 | None \<Rightarrow> op_tok ''('' 1 s)
              else if c = RPAR then op_tok '')'' 1 s
              else if (c = CHR ''<'' \<or> c = CHR ''>'') \<and> next \<noteq> Some LPAR then
                redirect (heredoc_delimiter (word lx sc cs) cs) cs [] s
              else fst (word lx sc cs s))))"

definition run :: "lex_fun \<Rightarrow> string \<Rightarrow> lexer" where
  "run lx cs =
     loop (Suc (length cs)) (run_step lx (scan_expansions (length cs + 2) lx) cs) init_lexer"

primrec lex_fuel :: "nat \<Rightarrow> lex_fun" where
  "lex_fuel 0 src = empty_lexed"
| "lex_fuel (Suc n) src = out (run (lex_fuel n) src)"

definition lex :: "string \<Rightarrow> lexed" where
  "lex src = lex_fuel (Suc (length src)) src"

definition tokenize :: "string \<Rightarrow> token list" where
  "tokenize src = tokens (lex src)"

section \<open>Every step consumes input\<close>

lemma lexer_pos [pos_simps, simp]:
  "pos (push_token t s) = pos s" "pos (advance n s) = pos s + n" "pos (goto p s) = p"
  "pos (add_unresolved u s) = pos s" "pos (add_nested n' s) = pos s" "pos (add_body b s) = pos s"
  "pos (op_tok t' n s) = pos s + n" "pos (unterminated cs s) = length cs"
  "pos (scan_into sc b s) = pos s"
  by (simp_all add: push_token_def advance_def goto_def add_unresolved_def add_nested_def
      add_body_def op_tok_def unterminated_def scan_into_def split: prod.split)

lemma substitution_pos:
  "p < length cs \<Longrightarrow> p \<le> op \<Longrightarrow> p < pos (fst (substitution lx cs c op (s, str)))"
  using matching_paren_bounds [of cs op]
  by (auto simp: substitution_def Let_def split: option.split)

lemma backtick_pos: "p < length cs \<Longrightarrow> p \<le> pos s \<Longrightarrow> p < pos (fst (backtick cs (s, str)))"
  using backtick_loop_bounds [of cs "pos s + 1" "[]"]
  by (fastforce simp: backtick_def split: option.split prod.split)

lemma arithmetic_end_bounds:
  "arithmetic_end cs op = Some e \<Longrightarrow> op + 2 \<le> e \<and> e < length cs"
  using matching_paren_bounds [of cs op] matching_paren_bounds [of cs "op + 1"]
  by (auto simp: arithmetic_end_def split: option.splits if_splits)

lemma matching_brace_bounds: "matching_brace cs op = Some e \<Longrightarrow> op \<le> e \<and> e < length cs"
  unfolding matching_brace_def by (rule brace_loop_bounds)

lemma dollar_pos:
  assumes "p < length cs" "p \<le> pos s"
  shows "p < pos (fst (dollar lx sc cs q (s, str)))"
proof -
  have S: "p < pos (fst (substitution lx cs DOLLAR (pos s + 1) (s, str)))"
    using assms by (intro substitution_pos) auto
  have A: "arithmetic_end cs (pos s + 1) = Some e \<Longrightarrow> p < e + 1" for e
    using arithmetic_end_bounds [of cs "pos s + 1" e] assms by simp
  have B: "matching_brace cs (pos s + 1) = Some e \<Longrightarrow> p < e + 1" for e
    using matching_brace_bounds [of cs "pos s + 1" e] assms by simp
  have C: "ansi_c_end cs (pos s + 2) = Some e \<Longrightarrow> p < e + 1" for e
    using ansi_c_end_bounds [of cs "pos s + 2" e] assms by simp
  show ?thesis
    using assms S A B C by (auto simp: dollar_def Let_def split: option.split)
qed

lemma dquoted_step_pos:
  assumes "p < length cs" "p < pos s" "dquoted_step lx sc cs (s, str, fin) = Some (s', r)"
  shows "p < pos s'"
  using assms dollar_pos [of p cs s lx sc True str] backtick_pos [of p cs s str]
  by (auto simp: dquoted_step_def split: if_splits option.splits prod.splits)

lemma double_quoted_pos:
  assumes "pos s < length cs"
  shows "pos s < pos (fst (double_quoted lx sc cs (s, str)))"
proof -
  let ?st = "loop (length cs + 2) (dquoted_step lx sc cs) (advance 1 s, str, False)"
  have "(\<lambda>(s', _). pos s < pos s') ?st"
    by (rule loop_invariant) (auto intro: dquoted_step_pos [OF assms])
  then show ?thesis by (auto simp: double_quoted_def split: prod.splits)
qed

lemma word_step_pos:
  assumes "word_step lx sc cs (s, str, quoted, redir) = Some (s', str', quoted', redir')"
  shows "\<not> redir \<and> pos s < length cs \<and> (redir' \<and> s' = s \<or> \<not> redir' \<and> pos s < pos s')"
proof -
  from assms have r: "\<not> redir" by (auto simp: word_step_def split: if_splits)
  from assms r obtain c where c: "get cs (pos s) = Some c" "\<not> ends_word c"
    by (auto simp: word_step_def split: option.splits if_splits)
  have p: "pos s < length cs" by (rule get_SomeD [OF c(1)])
  note facts = substitution_pos [OF p] dollar_pos [OF p order_refl] backtick_pos [OF p order_refl]
    double_quoted_pos [OF p]
  have Q: "skip_until cs (Suc (pos s)) SQ = Some e \<Longrightarrow> pos s < Suc e" for e
    using skip_until_bounds [of cs "Suc (pos s)" SQ e] by simp
  from assms r c p show ?thesis
    using facts(1) [of "pos s" lx LPAR "add_unresolved [GLUED_PAREN] s" str]
      facts(1) [of "pos s + 1" lx c s str] facts(2) [of lx sc False str] facts(3) [of str]
      facts(4) [of lx sc str]
    by (auto simp: word_step_def dest: Q split: if_splits option.splits prod.splits)
qed

definition word_left :: "string \<Rightarrow> word_state \<Rightarrow> nat" where
  "word_left cs st = (case st of (s, str, quoted, redir) \<Rightarrow>
     if redir then 0 else Suc (length cs - pos s))"

interpretation word_loop: progress "word_step lx sc cs" "word_left cs" for lx sc cs
proof
  fix st st' assume "word_step lx sc cs st = Some st'"
  then show "word_left cs st' < word_left cs st"
    by (cases st; cases st')
       (use word_step_pos in \<open>fastforce simp: word_left_def\<close>)
qed

lemma word_loop_pos:
  "pos s \<le> pos (fst (loop n (word_step lx sc cs) (s, str, q, r)))"
proof -
  have "(\<lambda>st. pos s \<le> pos (fst st)) (loop n (word_step lx sc cs) (s, str, q, r))"
    by (rule loop_invariant) (auto dest!: word_step_pos)
  then show ?thesis by simp
qed

lemma word_loop_pos_strict:
  assumes "word_step lx sc cs (s, str, q, False) = Some (s', str', q', False)" "0 < n"
  shows "pos s < pos (fst (loop n (word_step lx sc cs) (s, str, q, False)))"
proof -
  obtain k where n: "n = Suc k" using assms(2) by (cases n) auto
  have "pos s < pos s'" using word_step_pos [OF assms(1)] by simp
  also have "\<dots> \<le> pos (fst (loop k (word_step lx sc cs) (s', str', q', False)))"
    by (rule word_loop_pos)
  finally show ?thesis using assms(1) n by simp
qed

lemma heredoc_delimiter_pos:
  assumes "\<And>s. pos s \<le> pos (fst (wd s))"
  shows "pos s \<le> pos (heredoc_delimiter wd cs tabs s)"
proof -
  let ?s = "goto (blank_end cs (pos s)) s"
  have "pos s \<le> pos ?s" by (simp add: blank_end_ge)
  also have "\<dots> \<le> pos (fst (wd ?s))" by (rule assms)
  finally have "pos s \<le> pos (fst (wd ?s))" .
  then show ?thesis
    using blank_end_ge [of "pos s" cs]
    by (auto simp: heredoc_delimiter_def Let_def split: option.split prod.split)
qed

lemma redirect_pos:
  assumes "\<And>b s. pos s \<le> pos (delim b s)"
  shows "pos s < pos (redirect delim cs fd s)"
proof -
  have "pos s < pos (delim b (op_tok t n s))" if "0 < n" for b t n
    using assms [where b = b and s = "op_tok t n s"] that by simp
  then show ?thesis by (simp add: redirect_def Let_def)
qed

lemma lex_word_pos:
  "pos s \<le> pos (fst (lex_word n lx sc cs s))"
proof (induction n arbitrary: s)
  case (Suc n)
  obtain s1 str q r where st: "loop (length cs + 2) (word_step lx sc cs) (s, [], False, False) = (s1, str, q, r)"
    by (metis prod_cases4)
  have le: "pos s \<le> pos s1" using word_loop_pos [of s "length cs + 2" lx sc cs "[]" False False] st by simp
  have "pos s1 < pos (redirect (heredoc_delimiter (lex_word n lx sc cs) cs) cs str s1)"
    by (rule redirect_pos) (rule heredoc_delimiter_pos, rule Suc.IH)
  with le st show ?case by simp
qed simp

lemma word_pos: "pos s \<le> pos (fst (word lx sc cs s))"
  by (simp only: word_def lex_word_pos)

lemma lex_word_strict:
  assumes "word_step lx sc cs (s, [], False, False) = Some (s', str', q', False)"
  shows "pos s < pos (fst (lex_word (Suc n) lx sc cs s))"
proof -
  obtain s1 str q r where st: "loop (length cs + 2) (word_step lx sc cs) (s, [], False, False) = (s1, str, q, r)"
    by (metis prod_cases4)
  have le: "pos s < pos s1" using word_loop_pos_strict [OF assms, of "length cs + 2"] st by simp
  have "pos s1 < pos (redirect (heredoc_delimiter (lex_word n lx sc cs) cs) cs str s1)"
    by (rule redirect_pos) (rule heredoc_delimiter_pos, rule lex_word_pos)
  with le st show ?thesis by simp
qed

lemma read_heredoc_bodies_pos:
  assumes "pos s \<le> length cs"
  shows "pos s \<le> pos (read_heredoc_bodies sc cs s)"
proof -
  have fold: "pos (foldl (\<lambda>s (h, body). add_body body (if expands h then scan_into sc body s else s)) s0 xs) = pos s0"
    for s0 :: lexer and xs :: "(heredoc \<times> string) list"
    by (induction xs arbitrary: s0) (auto split: prod.splits)
  show ?thesis
    using bodies_bounds [OF assms, of "heredocs s"]
    by (auto simp: read_heredoc_bodies_def fold split: prod.splits)
qed

lemma line_end_gt: "get cs i = Some c \<Longrightarrow> c \<noteq> NL \<Longrightarrow> i < line_end cs i"
proof -
  assume c: "get cs i = Some c" "c \<noteq> NL"
  then have "drop i cs = c # drop (Suc i) cs"
    by (metis Cons_nth_drop_Suc get_Some_iff)
  with c(2) show ?thesis by (simp add: line_end_def)
qed

lemma word_step_first:
  assumes "get cs (pos s) = Some c" "\<not> ends_word c" "c \<noteq> LPAR"
    "c = CHR ''<'' \<or> c = CHR ''>'' \<Longrightarrow> get cs (pos s + 1) = Some LPAR"
  shows "\<exists>s' str' q'. word_step lx sc cs (s, [], False, False) = Some (s', str', q', False)"
proof (cases "c = CHR ''<'' \<or> c = CHR ''>''")
  case True
  have "\<exists>q::bool. \<not> q" by blast
  with True assms show ?thesis by (auto simp: word_step_def case_prod_unfold Let_def)
next
  case False
  then have ne: "(c = CHR ''<'') = False" "(c = CHR ''>'') = False" "(c = LPAR) = False"
    using assms(3) by simp_all
  have "(\<exists>q::bool. \<not> q) = True" "(\<exists>q::bool. q) = True" by blast+
  then show ?thesis
    using assms(1,2)
    by (simp add: word_step_def ne case_prod_unfold Let_def split: option.split)
qed

lemma word_pos_strict:
  assumes "get cs (pos s) = Some c" "\<not> ends_word c" "c \<noteq> LPAR"
    "c = CHR ''<'' \<or> c = CHR ''>'' \<Longrightarrow> get cs (pos s + 1) = Some LPAR"
  shows "pos s < pos (fst (word lx sc cs s))"
  using word_step_first [OF assms, of lx sc] lex_word_strict unfolding word_def by blast

lemma run_step_pos:
  assumes "run_step lx sc cs s = Some s'"
  shows "pos s < length cs \<and> pos s < pos s'"
proof -
  from assms obtain c where c: "get cs (pos s) = Some c"
    by (auto simp: run_step_def split: option.splits)
  have p: "pos s < length cs" by (rule get_SomeD [OF c])
  have R: "pos s < pos (redirect (heredoc_delimiter (word lx sc cs) cs) cs [] s)"
    by (rule redirect_pos) (rule heredoc_delimiter_pos, rule word_pos)
  have H: "pos s < pos (read_heredoc_bodies sc cs (op_tok [NL] 1 s))"
    using read_heredoc_bodies_pos [of "op_tok [NL] 1 s" cs sc] p by simp
  have A: "pos s < pos (arithmetic_command sc cs e s)" if "arithmetic_end cs (pos s) = Some e" for e
    using arithmetic_end_bounds [OF that] by (simp add: arithmetic_command_def Let_def)
  have A': "pos s < pos (case (if b then arithmetic_end cs (pos s) else None) of
      Some e \<Rightarrow> arithmetic_command sc cs e s | None \<Rightarrow> op_tok ''('' 1 s)" for b
    using A by (auto split: option.split)
  consider "c = SP \<or> c = TAB \<or> c = CR \<or> c = NL \<or> c = CHR '';'' \<or> c = CHR ''&'' \<or> c = CHR ''|'' \<or> c = RPAR"
    | "c = LPAR" | "c = CHR ''#''" | "c = BS \<and> get cs (pos s + 1) = Some NL"
    | "(c = CHR ''<'' \<or> c = CHR ''>'') \<and> get cs (pos s + 1) \<noteq> Some LPAR"
    | "\<not> ends_word c" "c \<noteq> LPAR" "c \<noteq> CHR ''#''" "\<not> (c = BS \<and> get cs (pos s + 1) = Some NL)"
      "c = CHR ''<'' \<or> c = CHR ''>'' \<Longrightarrow> get cs (pos s + 1) = Some LPAR"
    by (fastforce simp: ends_word_def)
  then have "pos s < pos s'"
  proof cases
    case 1
    with assms c H show ?thesis by (auto simp: run_step_def Let_def)
  next
    case 2
    with assms c A' show ?thesis by (auto simp: run_step_def Let_def)
  next
    case 3
    with assms c line_end_gt [OF c] show ?thesis by (auto simp: run_step_def Let_def)
  next
    case 4
    with assms c show ?thesis by (auto simp: run_step_def Let_def)
  next
    case 5
    with assms c R show ?thesis by (auto simp: run_step_def Let_def)
  next
    case 6
    have ne: "c \<noteq> SP" "c \<noteq> TAB" "c \<noteq> CR" "c \<noteq> NL" "c \<noteq> CHR '';''" "c \<noteq> CHR ''&''" "c \<noteq> CHR ''|''" "c \<noteq> RPAR"
      using 6(1) by (auto simp: ends_word_def)
    have "\<not> ((c = CHR ''<'' \<or> c = CHR ''>'') \<and> get cs (pos s + 1) \<noteq> Some LPAR)"
      using 6(5) by blast
    then have "s' = fst (word lx sc cs s)"
      using assms unfolding run_step_def c Let_def option.case
      by (simp only: ne 6(2,3,4) if_False simp_thms option.inject)
    with word_pos_strict [OF c 6(1,2,5)] show ?thesis by simp
  qed
  with p show ?thesis by simp
qed

interpretation run_loop: progress "run_step lx sc cs" "\<lambda>s. length cs - pos s" for lx sc cs
  by unfold_locales (auto dest!: run_step_pos)

text \<open>The lexer terminates having read the whole line: no suffix of a command line
  escapes the classification, whatever the line is.  The final position is at or past
  the last character and no further step is possible.\<close>

theorem lexer_reads_everything:
  "length cs \<le> pos (run lx cs) \<and>
   run_step lx (scan_expansions (length cs + 2) lx) cs (run lx cs) = None"
proof -
  have "run_step lx (scan_expansions (length cs + 2) lx) cs (run lx cs) = None"
    unfolding run_def by (rule run_loop.loop_done) simp
  moreover have "run_step lx sc cs s = None \<Longrightarrow> length cs \<le> pos s" for sc and s :: lexer
    by (simp add: run_step_def Let_def split: option.splits)
  ultimately show ?thesis by blast
qed

section \<open>The nesting bounds are enough\<close>

text \<open>Two lexers (and scanners) that agree on shorter text agree on a line.\<close>

definition agree_below :: "nat \<Rightarrow> (string \<Rightarrow> 'a) \<Rightarrow> (string \<Rightarrow> 'a) \<Rightarrow> bool" where
  "agree_below n f g \<longleftrightarrow> (\<forall>b. length b < n \<longrightarrow> f b = g b)"

lemma agree_belowD: "agree_below n f g \<Longrightarrow> length b < n \<Longrightarrow> f b = g b"
  by (simp add: agree_below_def)

lemma agree_below_mono: "agree_below n f g \<Longrightarrow> m \<le> n \<Longrightarrow> agree_below m f g"
  by (simp add: agree_below_def)

lemma substitution_cong:
  assumes "agree_below (length cs) lx lx'"
  shows "substitution lx cs = substitution lx' cs"
proof (intro ext)
  fix c op st
  show "substitution lx cs c op st = substitution lx' cs c op st"
  proof (cases "matching_paren cs op")
    case (Some e)
    have "length (slice cs (op + 1) e) < length cs"
      using matching_paren_bounds [OF Some] by auto
    from agree_belowD [OF assms this] Some show ?thesis by (simp add: substitution_def)
  qed (simp add: substitution_def)
qed

lemma dollar_cong:
  assumes lx: "agree_below (length cs) lx lx'" and sc: "agree_below (length cs) sc sc'"
  shows "dollar lx sc cs = dollar lx' sc' cs"
proof (intro ext)
  fix q and st :: "lexer \<times> string"
  obtain s str where st: "st = (s, str)" by fastforce
  have A: "scan_into sc (slice cs (pos s + 3) (e - 1)) s = scan_into sc' (slice cs (pos s + 3) (e - 1)) s"
    if "arithmetic_end cs (pos s + 1) = Some e" for e
  proof -
    have "length (slice cs (pos s + 3) (e - 1)) < length cs"
      using arithmetic_end_bounds [OF that] by auto
    from agree_belowD [OF sc this] show ?thesis by (simp add: scan_into_def)
  qed
  have B: "scan_into sc (slice cs (pos s + 2) e) s = scan_into sc' (slice cs (pos s + 2) e) s"
    if "matching_brace cs (pos s + 1) = Some e" for e
  proof -
    have "length (slice cs (pos s + 2) e) < length cs"
      using matching_brace_bounds [OF that] by auto
    from agree_belowD [OF sc this] show ?thesis by (simp add: scan_into_def)
  qed
  show "dollar lx sc cs q st = dollar lx' sc' cs q st"
    using A B unfolding st dollar_def
    by (auto simp: substitution_cong [OF lx] Let_def split: option.split)
qed

lemma scan_step_cong:
  assumes "agree_below (length cs) lx lx'" "agree_below (length cs) sc sc'"
  shows "scan_step lx sc cs = scan_step lx' sc' cs"
  unfolding scan_step_def fun_eq_iff dollar_cong [OF assms] by simp

lemma scan_expansions_cong:
  "length b < n \<Longrightarrow> length b < k \<Longrightarrow> agree_below (length b) lx lx' \<Longrightarrow>
     scan_expansions n lx b = scan_expansions k lx' b"
proof (induction n arbitrary: k b lx lx')
  case (Suc n)
  then obtain k' where k: "k = Suc k'" by (cases k) auto
  have "scan_step lx (scan_expansions n lx) b = scan_step lx' (scan_expansions k' lx') b"
    using Suc.prems k
    by (intro scan_step_cong) (auto simp: agree_below_def intro!: Suc.IH)
  then show ?case by (simp add: k)
qed simp

lemma scan_expansions_agree:
  assumes "agree_below n lx lx'"
  shows "agree_below (Suc n) (scan_expansions (n + 2) lx) (scan_expansions (n + 2) lx')"
  unfolding agree_below_def
  by (auto intro!: scan_expansions_cong agree_below_mono [OF assms] simp del: scan_expansions.simps)

lemma double_quoted_cong:
  assumes "agree_below (length cs) lx lx'" "agree_below (length cs) sc sc'"
  shows "double_quoted lx sc cs = double_quoted lx' sc' cs"
proof -
  have "dquoted_step lx sc cs = dquoted_step lx' sc' cs"
    unfolding dquoted_step_def fun_eq_iff dollar_cong [OF assms] by simp
  then show ?thesis unfolding double_quoted_def by (simp only:)
qed

lemma word_step_cong:
  assumes "agree_below (length cs) lx lx'" "agree_below (length cs) sc sc'"
  shows "word_step lx sc cs = word_step lx' sc' cs"
  unfolding word_step_def fun_eq_iff dollar_cong [OF assms] double_quoted_cong [OF assms]
    substitution_cong [OF assms(1)] by simp

lemma word_cong:
  assumes "agree_below (length cs) lx lx'" "agree_below (length cs) sc sc'"
  shows "word lx sc cs = word lx' sc' cs"
proof -
  have "lex_word n lx sc cs = lex_word n lx' sc' cs" for n
  proof (induction n)
    case (Suc n)
    show ?case unfolding fun_eq_iff lex_word.simps word_step_cong [OF assms] Suc.IH by simp
  qed (simp add: fun_eq_iff)
  then show ?thesis unfolding word_def fun_eq_iff by simp
qed

lemma line_end_le: "i \<le> length cs \<Longrightarrow> line_end cs i \<le> length cs"
  using length_takeWhile_le [of "\<lambda>c. c \<noteq> NL" "drop i cs"] by (simp add: line_end_def)

lemma length_trim_end: "length (trim_end_matches P xs) \<le> length xs"
  using length_dropWhile_le [of P "rev xs"] by (simp add: trim_end_matches_def)

lemma body_loop_length:
  "i \<le> length cs \<Longrightarrow> length (fst (body_loop cs h i body)) \<le> length body + (length cs - i) + 1"
proof (induction "length cs - i" arbitrary: i body rule: less_induct)
  case less
  show ?case
  proof (cases "i < length cs")
    case True
    define e where "e = line_end cs i"
    define p where "p = min (e + 1) (length cs)"
    define line where "line = trim_end_matches (\<lambda>c. c = CR) (slice cs i e)"
    have e: "i \<le> e" "e \<le> length cs"
      using True line_end_ge [of i cs] line_end_le [of i cs] by (auto simp: e_def)
    have p: "i < p" "p \<le> length cs" "length cs - p < length cs - i" using True e by (auto simp: p_def)
    have line: "length line \<le> e - i"
      using length_trim_end [of "\<lambda>c. c = CR" "slice cs i e"] e by (simp add: line_def)
    have "body_loop cs h i body = (body, p) \<or>
        body_loop cs h i body = body_loop cs h p (body @ line @ [NL])"
      using True by (simp add: body_loop.simps [of cs h i body] Let_def p_def e_def line_def)
    moreover have "length (fst (body_loop cs h p (body @ line @ [NL]))) \<le> length body + (length cs - i) + 1"
    proof (cases "e = length cs")
      case True
      then have "\<not> p < length cs" by (simp add: p_def)
      then have "body_loop cs h p (body @ line @ [NL]) = (body @ line @ [NL], p)"
        by (subst body_loop.simps) simp
      with line True show ?thesis by simp
    next
      case False
      with e have "p = e + 1" by (simp add: p_def)
      with less.hyps [OF p(3,2), of "body @ line @ [NL]"] line p e show ?thesis by simp
    qed
    ultimately show ?thesis by auto
  next
    case False
    then have "body_loop cs h i body = (body, i)" by (subst body_loop.simps) simp
    then show ?thesis by simp
  qed
qed

lemma bodies_length:
  "0 < i \<Longrightarrow> i \<le> length cs \<Longrightarrow> b \<in> set (fst (bodies cs i hs)) \<Longrightarrow> length b \<le> length cs"
proof (induction hs arbitrary: i)
  case (Cons h hs)
  obtain b0 p where bp: "body_loop cs h i [] = (b0, p)" by fastforce
  have "i \<le> p" "p \<le> length cs" using body_loop_bounds [of i cs h "[]"] Cons.prems bp by auto
  moreover have "length b0 \<le> length cs"
    using body_loop_length [of i cs h "[]"] Cons.prems bp by simp
  ultimately show ?case using Cons.IH [of p] Cons.prems bp by (auto split: prod.splits)
qed simp

lemma read_heredoc_bodies_cong:
  assumes sc: "agree_below (Suc (length cs)) sc sc'" and p: "0 < pos s" "pos s \<le> length cs"
  shows "read_heredoc_bodies sc cs s = read_heredoc_bodies sc' cs s"
proof -
  obtain bs e where b: "bodies cs (pos s) (heredocs s) = (bs, e)" by fastforce
  have eq: "scan_into sc body t = scan_into sc' body t" if "body \<in> set bs" for body t
    using bodies_length [OF p, of body "heredocs s"] b that
      agree_belowD [OF sc, of body] by (simp add: scan_into_def)
  show ?thesis
    unfolding read_heredoc_bodies_def b
    by simp (rule foldl_cong, auto simp: eq dest!: set_zip_rightD)
qed

lemma run_step_cong:
  assumes lx: "agree_below (length cs) lx lx'" and sc: "agree_below (Suc (length cs)) sc sc'"
  shows "run_step lx sc cs = run_step lx' sc' cs"
proof
  fix s
  have w: "word lx sc cs = word lx' sc' cs" by (rule word_cong [OF lx agree_below_mono [OF sc]]) simp
  have h: "read_heredoc_bodies sc cs (op_tok [NL] 1 s) = read_heredoc_bodies sc' cs (op_tok [NL] 1 s)"
    if "get cs (pos s) = Some c" for c
    by (rule read_heredoc_bodies_cong [OF sc]) (use get_SomeD [OF that] in auto)
  have a: "arithmetic_command sc cs e s = arithmetic_command sc' cs e s"
    if "arithmetic_end cs (pos s) = Some e" for e
    using arithmetic_end_bounds [OF that]
    by (simp add: arithmetic_command_def scan_into_def agree_belowD [OF sc] Let_def)
  show "run_step lx sc cs s = run_step lx' sc' cs s"
  proof (cases "get cs (pos s)")
    case (Some c)
    have a': "(case (if g then arithmetic_end cs (pos s) else None) of
        Some e \<Rightarrow> arithmetic_command sc cs e s | None \<Rightarrow> op_tok ''('' 1 s) =
      (case (if g then arithmetic_end cs (pos s) else None) of
        Some e \<Rightarrow> arithmetic_command sc' cs e s | None \<Rightarrow> op_tok ''('' 1 s)" for g
      using a by (auto split: option.split)
    show ?thesis unfolding run_step_def Some w h [OF Some] Let_def a' by simp
  qed (simp add: run_step_def)
qed

lemma lex_fuel_eq: "length src < n \<Longrightarrow> length src < k \<Longrightarrow> lex_fuel n src = lex_fuel k src"
proof (induction n arbitrary: k src)
  case (Suc n)
  then obtain k' where k: "k = Suc k'" by (cases k) auto
  have lx: "agree_below (length src) (lex_fuel n) (lex_fuel k')"
    using Suc.IH [where k = k'] Suc.prems k by (auto simp: agree_below_def)
  have "run_step (lex_fuel n) (scan_expansions (length src + 2) (lex_fuel n)) src
      = run_step (lex_fuel k') (scan_expansions (length src + 2) (lex_fuel k')) src"
    by (rule run_step_cong [OF lx]) (rule scan_expansions_agree [OF lx])
  then show ?case by (simp add: k run_def)
qed simp

text \<open>Lexing is well defined although a substitution lexes its own body.  The nesting
  bound of the model is immaterial: every larger bound yields the same tokens,
  substitutions, here-document bodies and unresolved constructs.\<close>

theorem lex_bound_irrelevant: "lex_fuel (Suc (length src) + k) src = lex src"
  unfolding lex_def by (rule lex_fuel_eq) simp_all

lemma lex_eq: "lex src = out (run lex src)"
proof -
  have lx: "agree_below (length src) (lex_fuel (length src)) lex"
    unfolding lex_def agree_below_def by (auto intro: lex_fuel_eq simp del: lex_fuel.simps)
  have "run_step (lex_fuel (length src)) (scan_expansions (length src + 2) (lex_fuel (length src))) src
      = run_step lex (scan_expansions (length src + 2) lex) src"
    by (rule run_step_cong [OF lx]) (rule scan_expansions_agree [OF lx])
  then show ?thesis by (simp add: lex_def [of src] run_def)
qed

end
