(* ===== verification/Shell.thy ===== *)
theory Shell
  imports Tokenize
begin

text \<open>
  \<^verbatim>\<open>crates/pacode-risk/src/shell.rs\<close>: the simple commands a command line runs.

  The mutable \<^verbatim>\<open>Parser\<close> is the record \<open>parser\<close>; each of its methods is a function
  on that record, and \<^verbatim>\<open>run\<close> iterates \<open>parse_step\<close> over the tokens.  A nested
  substitution is a command line of its own, followed to \<open>MAX_NESTING\<close> levels.
  The last section is brace expansion.
\<close>

section \<open>Commands and redirections\<close>

definition MAX_NESTING :: nat where
  "MAX_NESTING = 8"

definition TOO_DEEP :: string where
  "TOO_DEEP = ''substitutions nested too deeply''"

definition UNCLOSED :: string where
  "UNCLOSED = ''an unclosed `case` or `[[`''"

definition COMMAND_PREFIXES :: "string list" where
  "COMMAND_PREFIXES =
     [''{'', ''}'', ''!'', ''if'', ''then'', ''else'', ''elif'', ''fi'', ''do'', ''done'',
      ''while'', ''until'', ''in'', ''and'', ''or'', ''not'', ''begin'', ''end'',
      ''noglob'', ''nocorrect'', ''-'']"

record redirect_rec =
  r_op :: string
  r_target :: "token option"
  heredoc_body :: "string option"

record simple_command =
  assignments :: "token list"
  words :: "token list"
  redirects :: "redirect_rec list"
  receives_pipe :: bool

record script =
  commands :: "simple_command list"
  substitutions :: nat
  unresolved :: "string list"

definition default_command :: simple_command where
  "default_command = \<lparr>assignments = [], words = [], redirects = [], receives_pipe = False\<rparr>"

definition default_script :: script where
  "default_script = \<lparr>commands = [], substitutions = 0, unresolved = []\<rparr>"

definition bare :: "string \<Rightarrow> string" where
  "bare op = trim_start_matches is_ascii_digit op"

definition bare_op :: "redirect_rec \<Rightarrow> string" where
  "bare_op r = bare (r_op r)"

definition fd :: "redirect_rec \<Rightarrow> string" where
  "fd r = take (length (r_op r) - length (bare_op r)) (r_op r)"

definition writes :: "redirect_rec \<Rightarrow> bool" where
  "writes r \<longleftrightarrow> r_target r \<noteq> None \<and> CHR ''>'' \<in> set (bare_op r)"

definition truncates :: "redirect_rec \<Rightarrow> bool" where
  "truncates r \<longleftrightarrow> r_target r \<noteq> None \<and> bare_op r \<in> set [''>'', ''>|'', ''&>'', ''>&'']"

definition reads_stdin :: "redirect_rec \<Rightarrow> bool" where
  "reads_stdin r \<longleftrightarrow>
     fd r \<in> set ['''', ''0''] \<and> bare_op r \<in> set [''<'', ''<<'', ''<<-'', ''<<<'', ''<>'']"

definition is_heredoc :: "redirect_rec \<Rightarrow> bool" where
  "is_heredoc r \<longleftrightarrow> bare_op r \<in> set [''<<'', ''<<-'']"

definition is_here_string :: "redirect_rec \<Rightarrow> bool" where
  "is_here_string r \<longleftrightarrow> bare_op r = ''<<<''"

text \<open>\<^verbatim>\<open>redirection\<close>: \<^term>\<open>Some takes_target\<close> for a redirection operator.\<close>

definition redirection :: "string \<Rightarrow> bool option" where
  "redirection op =
     (let b = bare op
      in if b \<in> set [''&>'', ''&>>''] then Some True
         else if \<not> (starts_with b ''<'' \<or> starts_with b ''>'') then None
         else Some (\<not> ((starts_with b ''>&'' \<or> starts_with b ''<&'') \<and> 2 < length b)))"

definition is_name :: "string \<Rightarrow> bool" where
  "is_name nm \<longleftrightarrow>
     (case nm of [] \<Rightarrow> False
      | c # cs \<Rightarrow> (is_ascii_alphabetic c \<or> c = CHR ''_'') \<and>
                 list_all (\<lambda>c. is_ascii_alphanumeric c \<or> c = CHR ''_'') cs)"

definition is_assignment :: "string \<Rightarrow> bool" where
  "is_assignment w \<longleftrightarrow>
     (case split_once w (CHR ''='') of None \<Rightarrow> False
      | Some (name0, _) \<Rightarrow>
          (let name = (case strip_suffix name0 ''+'' of Some b \<Rightarrow> b | None \<Rightarrow> name0)
           in case split_once name (CHR ''['') of
                Some (base, subscript) \<Rightarrow> ends_with subscript '']'' \<and> is_name base
              | None \<Rightarrow> is_name name))"

section \<open>The parser\<close>

datatype case_part = Patterns | Body

record parser =
  index :: nat
  pscript :: script
  current :: simple_command
  dash_split :: "nat option"
  cases :: "case_part list"
  heredoc_index :: nat

definition skip :: "nat \<Rightarrow> parser \<Rightarrow> parser" where
  "skip n p = p\<lparr>index := index p + n\<rparr>"

definition push_command :: "simple_command \<Rightarrow> parser \<Rightarrow> parser" where
  "push_command c p = p\<lparr>pscript := (pscript p)\<lparr>commands := commands (pscript p) @ [c]\<rparr>\<rparr>"

definition push_unresolved :: "string \<Rightarrow> parser \<Rightarrow> parser" where
  "push_unresolved u p =
     p\<lparr>pscript := (pscript p)\<lparr>unresolved := unresolved (pscript p) @ [u]\<rparr>\<rparr>"

definition peek :: "token list \<Rightarrow> parser \<Rightarrow> nat \<Rightarrow> token option" where
  "peek toks p ahead = get toks (index p + ahead)"

definition peek_word :: "token list \<Rightarrow> parser \<Rightarrow> nat \<Rightarrow> string option" where
  "peek_word toks p ahead =
     (case peek toks p ahead of Some t \<Rightarrow> if is_operator t then None else Some (tk_text t)
      | None \<Rightarrow> None)"

definition is_op :: "string \<Rightarrow> token option \<Rightarrow> bool" where
  "is_op op t \<longleftrightarrow> (case t of Some t \<Rightarrow> is_operator t \<and> tk_text t = op | None \<Rightarrow> False)"

text \<open>\<^verbatim>\<open>while self.peek_word(0).is_some() { self.index += 1 }\<close>\<close>

definition skip_words :: "token list \<Rightarrow> parser \<Rightarrow> parser" where
  "skip_words toks p = skip (length (takeWhile (\<lambda>t. \<not> is_operator t) (drop (index p) toks))) p"

definition finish :: "parser \<Rightarrow> parser" where
  "finish p =
     (let command = current p;
          p1 = p\<lparr>current := default_command, dash_split := None\<rparr>;
          p2 = (case dash_split p of None \<Rightarrow> p1
                | Some sp \<Rightarrow>
                    if sp < length (words command) then
                      (let ws = drop sp (words command);
                           n = length (takeWhile (\<lambda>w. is_assignment (tk_text w)) ws)
                       in push_command \<lparr>assignments = take n ws, words = drop n ws,
                            redirects = [], receives_pipe = False\<rparr> p1)
                    else p1)
      in if words command \<noteq> [] \<or> redirects command \<noteq> [] \<or> assignments command \<noteq> []
         then push_command command p2 else p2)"

definition operator_redirect :: "token list \<Rightarrow> string list \<Rightarrow> string \<Rightarrow> bool \<Rightarrow> parser \<Rightarrow> parser" where
  "operator_redirect toks bds op takes_target p =
     (let target = (case peek toks p 0 of
                      Some t \<Rightarrow> if takes_target \<and> \<not> is_operator t then Some t else None
                    | None \<Rightarrow> None);
          p1 = (if target = None then p else skip 1 p);
          p2 = (if op \<in> set [''&>'', ''&>>''] \<and> dash_split p1 = None
                then p1\<lparr>dash_split := Some (length (words (current p1)))\<rparr> else p1);
          heredoc = bare op \<in> set [''<<'', ''<<-''];
          body = (if heredoc then get bds (heredoc_index p2) else None);
          p3 = (if heredoc then p2\<lparr>heredoc_index := heredoc_index p2 + 1\<rparr> else p2)
      in p3\<lparr>current := (current p3)\<lparr>redirects := redirects (current p3) @
              [\<lparr>r_op = op, r_target = target, heredoc_body = body\<rparr>]\<rparr>\<rparr>)"

definition set_case :: "case_part \<Rightarrow> parser \<Rightarrow> parser" where
  "set_case c p = p\<lparr>cases := butlast (cases p) @ [c]\<rparr>"

definition set_pipe :: "bool \<Rightarrow> parser \<Rightarrow> parser" where
  "set_pipe b p = p\<lparr>current := (current p)\<lparr>receives_pipe := b\<rparr>\<rparr>"

definition operator :: "token list \<Rightarrow> string list \<Rightarrow> string \<Rightarrow> parser \<Rightarrow> parser" where
  "operator toks bds op p0 =
     (let p = skip 1 p0
      in case redirection op of
           Some takes_target \<Rightarrow> operator_redirect toks bds op takes_target p
         | None \<Rightarrow>
             (let p1 = set_pipe (op \<in> set [''|'', ''|&'']) (finish p)
              in case last_opt (cases p1) of None \<Rightarrow> p1
                 | Some c \<Rightarrow>
                     if op \<in> set ['';;'', '';&'', '';;&''] then set_case Patterns p1
                     else if op = '')'' \<and> c = Patterns then set_pipe False (set_case Body p1)
                     else p1))"

definition loop_header :: "token list \<Rightarrow> parser \<Rightarrow> parser" where
  "loop_header toks p =
     (let p1 = (if peek_word toks p 0 \<noteq> None then skip 1 p else p)
      in if peek_word toks p1 0 = Some ''in'' then skip_words toks (skip 1 p1) else p1)"

definition case_header :: "token list \<Rightarrow> parser \<Rightarrow> parser" where
  "case_header toks p =
     (if peek_word toks p 0 \<noteq> None \<and> peek_word toks p 1 = Some ''in''
      then (skip 2 p)\<lparr>cases := cases p @ [Patterns]\<rparr>
      else skip_words toks p)"

text \<open>The loop of \<^verbatim>\<open>test_expression\<close>: how many tokens it passes, and whether it met \<^verbatim>\<open>]]\<close>.\<close>

fun test_scan :: "token list \<Rightarrow> nat \<times> bool" where
  "test_scan [] = (0, False)"
| "test_scan (t # ts) =
     (if \<not> is_operator t \<and> tk_text t = '']]'' then (1, True)
      else if is_operator t \<and> tk_text t \<in> set ['';'', [NL], ''&'', ''|''] then (0, False)
      else (let (n, closed) = test_scan ts in (Suc n, closed)))"

definition test_expression :: "token list \<Rightarrow> parser \<Rightarrow> parser" where
  "test_expression toks p =
     (let (n, closed) = test_scan (drop (index p) toks)
      in if closed then skip n p else push_unresolved UNCLOSED (skip n p))"

definition push_word :: "token \<Rightarrow> parser \<Rightarrow> parser" where
  "push_word t p = p\<lparr>current := (current p)\<lparr>words := words (current p) @ [t]\<rparr>\<rparr>"

definition pop_case :: "parser \<Rightarrow> parser" where
  "pop_case p = p\<lparr>cases := butlast (cases p)\<rparr>"

definition command_word :: "token list \<Rightarrow> token \<Rightarrow> parser \<Rightarrow> parser" where
  "command_word toks token p =
     (let str = tk_text token
      in if str = ''esac'' then pop_case p
         else if str = ''coproc'' then
           (let compound = (case peek toks p 1 of None \<Rightarrow> False
                            | Some t \<Rightarrow> tk_text t = ''{'' \<or> (is_operator t \<and> tk_text t = ''(''))
            in if compound \<and> peek_word toks p 0 \<noteq> None then skip 1 p else p)
         else if str = ''function'' then (if peek_word toks p 0 \<noteq> None then skip 1 p else p)
         else if str = ''repeat'' then skip 1 p
         else if str \<in> set [''for'', ''select'', ''foreach''] then loop_header toks p
         else if str = ''case'' then case_header toks p
         else if str = ''[['' then test_expression toks p
         else if is_op ''('' (peek toks p 0) \<and> is_op '')'' (peek toks p 1) then skip 2 p
         else push_word token p)"

definition parse_word :: "token list \<Rightarrow> token \<Rightarrow> parser \<Rightarrow> parser" where
  "parse_word toks token p0 =
     (let p = skip 1 p0; str = tk_text token
      in if last_opt (cases p) = Some Patterns then (if str = ''esac'' then pop_case p else p)
         else if words (current p) \<noteq> [] then push_word token p
         else if is_assignment str then
           p\<lparr>current := (current p)\<lparr>assignments := assignments (current p) @ [token]\<rparr>\<rparr>
         else if starts_with str ''(('' \<and> ends_with str ''))'' then p
         else if List.member COMMAND_PREFIXES str then p
         else command_word toks token p)"

definition parse_step :: "token list \<Rightarrow> string list \<Rightarrow> parser \<Rightarrow> parser option" where
  "parse_step toks bds p =
     (case peek toks p 0 of None \<Rightarrow> None
      | Some t \<Rightarrow> Some (if is_operator t then operator toks bds (tk_text t) p
                        else parse_word toks t p))"

definition init_parser :: "script \<Rightarrow> parser" where
  "init_parser sc = \<lparr>index = 0, pscript = sc, current = default_command, dash_split = None,
     cases = [], heredoc_index = 0\<rparr>"

text \<open>\<^verbatim>\<open>Parser::run\<close>.\<close>

definition parse_run :: "token list \<Rightarrow> string list \<Rightarrow> script \<Rightarrow> script" where
  "parse_run toks bds sc =
     (let p = finish (loop (Suc (length toks)) (parse_step toks bds) (init_parser sc))
      in pscript (if cases p \<noteq> [] then push_unresolved UNCLOSED p else p))"

function parse_into :: "string \<Rightarrow> nat \<Rightarrow> script \<Rightarrow> script" where
  "parse_into src depth sc =
     (if MAX_NESTING < depth then sc\<lparr>unresolved := unresolved sc @ [TOO_DEEP]\<rparr>
      else
        (let lexed = lex src;
             sc1 = parse_run (tokens lexed) (heredoc_bodies lexed)
                     (sc\<lparr>unresolved := unresolved sc @ lex_unresolved lexed\<rparr>)
         in foldl (\<lambda>sc2 n. parse_into n (depth + 1) (sc2\<lparr>substitutions := substitutions sc2 + 1\<rparr>))
              sc1 (nested lexed)))"
  by pat_completeness auto

termination
  by (relation "measure (\<lambda>(src, depth, sc). Suc MAX_NESTING - depth)") auto

declare parse_into.simps [simp del]

definition parse :: "string \<Rightarrow> script" where
  "parse src = parse_into src 0 default_script"

definition split_segments :: "string \<Rightarrow> token list list" where
  "split_segments command = filter (\<lambda>ws. ws \<noteq> []) (map words (commands (parse command)))"

section \<open>Brace expansion\<close>

text \<open>The scan of \<^verbatim>\<open>first_brace_group\<close> from an opening brace: the index of the matching
  closing brace and the indices of the commas at depth one.\<close>

fun brace_scan :: "string \<Rightarrow> nat \<Rightarrow> nat \<Rightarrow> nat list \<Rightarrow> (nat \<times> nat list) option" where
  "brace_scan [] i depth commas = None"
| "brace_scan (c # cs) i depth commas =
     (if c = LBRACE then brace_scan cs (Suc i) (depth + 1) commas
      else if c = RBRACE then
        (if depth - 1 = 0 then Some (i, commas) else brace_scan cs (Suc i) (depth - 1) commas)
      else if c = CHR '','' \<and> depth = 1 then brace_scan cs (Suc i) depth (commas @ [i])
      else brace_scan cs (Suc i) depth commas)"

definition char_range :: "char \<Rightarrow> char \<Rightarrow> string" where
  "char_range a b = map char_of [code_of a ..< Suc (code_of b)]"

definition range_words :: "string \<Rightarrow> nat \<Rightarrow> string list option" where
  "range_words body cap =
     (case split_once_str body ''..'' of None \<Rightarrow> None
      | Some (from, to) \<Rightarrow>
          (case (parse_i64 from, parse_i64 to) of
             (Some f, Some t) \<Rightarrow>
               Some (map show_int [min f t .. min (max f t) (min f t + int cap)])
           | _ \<Rightarrow>
               (case (from, to) of
                  ([a], [b]) \<Rightarrow>
                    if is_ascii_alphabetic a \<and> is_ascii_alphabetic b then
                      Some (map (\<lambda>c. [c]) (if code_of a \<le> code_of b then char_range a b
                                           else char_range b a))
                    else None
                | _ \<Rightarrow> None)))"

fun split_at_commas :: "string \<Rightarrow> nat \<Rightarrow> nat list \<Rightarrow> string list" where
  "split_at_commas chars from [] = []"
| "split_at_commas chars from (c # cs) = slice chars from c # split_at_commas chars (c + 1) cs"

text \<open>One candidate brace of \<^verbatim>\<open>first_brace_group\<close>.\<close>

definition brace_group_at :: "string \<Rightarrow> nat \<Rightarrow> nat \<Rightarrow> (nat \<times> string list) option" where
  "brace_group_at chars cap op =
     (if 0 < op \<and> chars ! (op - 1) = DOLLAR then None
      else case brace_scan (drop op chars) op 0 [] of None \<Rightarrow> None
        | Some (close, commas) \<Rightarrow>
            if commas \<noteq> [] then Some (close, split_at_commas chars (op + 1) (commas @ [close]))
            else map_option (\<lambda>parts. (close, parts)) (range_words (slice chars (op + 1) close) cap))"

fun brace_candidates :: "nat \<Rightarrow> string \<Rightarrow> nat list" where
  "brace_candidates i [] = []"
| "brace_candidates i (c # cs) =
     (if c = LBRACE then i # brace_candidates (Suc i) cs else brace_candidates (Suc i) cs)"

fun first_group :: "string \<Rightarrow> nat \<Rightarrow> nat list \<Rightarrow> (nat \<times> nat \<times> string list) option" where
  "first_group chars cap [] = None"
| "first_group chars cap (op # ops) =
     (case brace_group_at chars cap op of Some (close, parts) \<Rightarrow> Some (op, close, parts)
      | None \<Rightarrow> first_group chars cap ops)"

definition first_brace_group :: "string \<Rightarrow> nat \<Rightarrow> (nat \<times> nat \<times> string list) option" where
  "first_brace_group chars cap = first_group chars cap (brace_candidates 0 chars)"

text \<open>The two nested loops of \<^verbatim>\<open>expand_braces\<close>: a part that overflows, or the total past
  \<open>cap\<close>, ends the expansion.\<close>

fun expand_parts ::
  "(string \<Rightarrow> string list option) \<Rightarrow> nat \<Rightarrow> string list \<Rightarrow> string list \<Rightarrow> string list option" where
  "expand_parts rec cap [] res = Some res"
| "expand_parts rec cap (w # ws) res =
     (case rec w of None \<Rightarrow> None
      | Some es \<Rightarrow>
          if cap < length (res @ es) then None else expand_parts rec cap ws (res @ es))"

definition group_words :: "string \<Rightarrow> nat \<Rightarrow> nat \<Rightarrow> string list \<Rightarrow> string list" where
  "group_words w op close parts = map (\<lambda>part. take op w @ part @ drop (close + 1) w) parts"

primrec expand_fuel :: "nat \<Rightarrow> nat \<Rightarrow> string \<Rightarrow> string list option" where
  "expand_fuel 0 cap w = None"
| "expand_fuel (Suc n) cap w =
     (case first_brace_group w cap of None \<Rightarrow> Some [w]
      | Some (op, close, parts) \<Rightarrow>
          expand_parts (expand_fuel n cap) cap (group_words w op close parts) [])"

definition braces :: "string \<Rightarrow> nat" where
  "braces w = length (filter (\<lambda>c. c = LBRACE) w)"

definition expand_braces :: "string \<Rightarrow> nat \<Rightarrow> string list option" where
  "expand_braces w cap = expand_fuel (Suc (braces w)) cap w"

section \<open>The parser reads every token\<close>

lemma index_simps [simp]:
  "index (skip n p) = index p + n" "index (push_command c p) = index p"
  "index (push_unresolved u p) = index p" "index (set_case cp p) = index p"
  "index (set_pipe b p) = index p" "index (push_word t p) = index p"
  "index (pop_case p) = index p"
  by (simp_all add: skip_def push_command_def push_unresolved_def set_case_def set_pipe_def
      push_word_def pop_case_def)

lemma index_finish [simp]: "index (finish p) = index p"
  by (simp add: finish_def Let_def split: option.split)

lemma index_operator: "index p < index (operator toks bds op p)"
  by (simp add: operator_def operator_redirect_def Let_def split: option.split)

lemma index_test: "index p \<le> index (test_expression toks p)"
  by (simp add: test_expression_def case_prod_unfold Let_def)

lemma index_command_word: "index p \<le> index (command_word toks t p)"
  using index_test [of p toks]
  by (simp add: command_word_def loop_header_def case_header_def skip_words_def Let_def
      split: option.split)

lemma index_parse_word: "index p < index (parse_word toks t p)"
  using index_command_word [of "skip 1 p" toks t]
  by (simp add: parse_word_def Let_def)

interpretation parse_loop: progress "parse_step toks bds" "\<lambda>p. length toks - index p" for toks bds
proof
  fix p p' assume step: "parse_step toks bds p = Some p'"
  then have "index p < length toks"
    by (auto simp: parse_step_def peek_def split: option.splits dest: get_SomeD)
  moreover have "index p < index p'"
    using step index_operator [of p toks bds] index_parse_word [of p toks]
    by (auto simp: parse_step_def split: option.splits if_splits)
  ultimately show "length toks - index p' < length toks - index p" by simp
qed

lemma parser_reads_every_token:
  "length toks \<le> index (loop (Suc (length toks)) (parse_step toks bds) (init_parser sc))"
proof -
  let ?p = "loop (Suc (length toks)) (parse_step toks bds) (init_parser sc)"
  have "parse_step toks bds ?p = None" by (rule parse_loop.loop_done) simp
  then show ?thesis by (auto simp: parse_step_def peek_def split: option.splits)
qed

section \<open>Parsing appends to the script\<close>

definition append_script :: "script \<Rightarrow> script \<Rightarrow> script" where
  "append_script a b =
     \<lparr>commands = commands a @ commands b, substitutions = substitutions a + substitutions b,
      unresolved = unresolved a @ unresolved b\<rparr>"

lemma append_script_simps [simp]:
  "commands (append_script a b) = commands a @ commands b"
  "substitutions (append_script a b) = substitutions a + substitutions b"
  "unresolved (append_script a b) = unresolved a @ unresolved b"
  by (simp_all add: append_script_def)

lemma append_script_assoc: "append_script (append_script a b) c = append_script a (append_script b c)"
  by (simp add: append_script_def)

lemma append_script_default [simp]:
  "append_script a default_script = a" "append_script default_script a = a"
  by (simp_all add: append_script_def default_script_def)

text \<open>A parser started on a script that already holds something.\<close>

definition based :: "script \<Rightarrow> parser \<Rightarrow> parser" where
  "based sc p = p\<lparr>pscript := append_script sc (pscript p)\<rparr>"

lemma based_simps [simp]:
  "index (based sc p) = index p" "current (based sc p) = current p"
  "dash_split (based sc p) = dash_split p" "cases (based sc p) = cases p"
  "heredoc_index (based sc p) = heredoc_index p"
  "pscript (based sc p) = append_script sc (pscript p)"
  by (simp_all add: based_def)

lemma based_skip [simp]: "skip n (based sc p) = based sc (skip n p)"
  by (simp add: skip_def based_def)

lemma based_push_command [simp]: "push_command c (based sc p) = based sc (push_command c p)"
  by (simp add: push_command_def based_def append_script_def)

lemma based_push_unresolved [simp]:
  "push_unresolved u (based sc p) = based sc (push_unresolved u p)"
  by (simp add: push_unresolved_def based_def append_script_def)

lemma based_updates [simp]:
  "(based sc p)\<lparr>current := c\<rparr> = based sc (p\<lparr>current := c\<rparr>)"
  "(based sc p)\<lparr>dash_split := d\<rparr> = based sc (p\<lparr>dash_split := d\<rparr>)"
  "(based sc p)\<lparr>cases := cs\<rparr> = based sc (p\<lparr>cases := cs\<rparr>)"
  "(based sc p)\<lparr>heredoc_index := i\<rparr> = based sc (p\<lparr>heredoc_index := i\<rparr>)"
  by (simp_all add: based_def)

lemma based_small [simp]:
  "set_case cp (based sc p) = based sc (set_case cp p)"
  "set_pipe b (based sc p) = based sc (set_pipe b p)"
  "push_word t (based sc p) = based sc (push_word t p)"
  "pop_case (based sc p) = based sc (pop_case p)"
  "skip_words toks (based sc p) = based sc (skip_words toks p)"
  "peek toks (based sc p) n = peek toks p n"
  "peek_word toks (based sc p) n = peek_word toks p n"
  by (simp_all add: set_case_def set_pipe_def push_word_def pop_case_def skip_words_def
      peek_def peek_word_def)

lemma based_finish [simp]: "finish (based sc p) = based sc (finish p)"
  by (simp add: finish_def Let_def split: option.split)

lemma based_operator: "operator toks bds op (based sc p) = based sc (operator toks bds op p)"
  by (simp add: operator_def operator_redirect_def Let_def split: option.split)

lemma based_test [simp]: "test_expression toks (based sc p) = based sc (test_expression toks p)"
  by (simp add: test_expression_def case_prod_unfold Let_def)

lemma based_if:
  "f1 = based sc g1 \<Longrightarrow> f2 = based sc g2 \<Longrightarrow>
     (if b then f1 else f2) = based sc (if b then g1 else g2)"
  by simp

lemma based_headers [simp]:
  "loop_header toks (based sc p) = based sc (loop_header toks p)"
  "case_header toks (based sc p) = based sc (case_header toks p)"
  by (simp_all add: loop_header_def case_header_def Let_def)

lemma based_command_word [simp]: "command_word toks t (based sc p) = based sc (command_word toks t p)"
  unfolding command_word_def Let_def based_small
  by (intro based_if) (simp_all only: based_headers based_small based_skip based_test)

lemma based_parse_word: "parse_word toks t (based sc p) = based sc (parse_word toks t p)"
  unfolding parse_word_def Let_def based_simps based_skip
  by (intro based_if) (simp_all only: based_command_word based_small based_updates)

lemma based_step: "parse_step toks bds (based sc p) = map_option (based sc) (parse_step toks bds p)"
  by (simp add: parse_step_def based_operator based_parse_word split: option.split)

lemma based_loop:
  "loop n (parse_step toks bds) (based sc p) = based sc (loop n (parse_step toks bds) p)"
  by (induction n arbitrary: p) (simp_all add: based_step split: option.split)

lemma parse_run_appends:
  "parse_run toks bds sc = append_script sc (parse_run toks bds default_script)"
proof -
  have i: "init_parser sc = based sc (init_parser default_script)"
    by (simp add: init_parser_def based_def)
  show ?thesis
    unfolding parse_run_def i based_loop by (simp add: Let_def)
qed

text \<open>The script of a line at a depth, and that of the substitutions of a line.\<close>

abbreviation parsed :: "string \<Rightarrow> nat \<Rightarrow> script" where
  "parsed src d \<equiv> parse_into src d default_script"

definition one_substitution :: script where
  "one_substitution = \<lparr>commands = [], substitutions = 1, unresolved = []\<rparr>"

fun parsed_nested :: "string list \<Rightarrow> nat \<Rightarrow> script" where
  "parsed_nested [] d = default_script"
| "parsed_nested (n # ns) d =
     append_script (append_script one_substitution (parsed n d)) (parsed_nested ns d)"

lemma foldl_parsed_nested:
  assumes "\<And>n sc. parse_into n d sc = append_script sc (parsed n d)"
  shows "foldl (\<lambda>a n. parse_into n d (a\<lparr>substitutions := substitutions a + 1\<rparr>)) sc ns =
    append_script sc (parsed_nested ns d)"
proof (induction ns arbitrary: sc)
  case (Cons n ns)
  have "sc\<lparr>substitutions := substitutions sc + 1\<rparr> = append_script sc one_substitution"
    by (simp add: append_script_def one_substitution_def)
  then have "parse_into n d (sc\<lparr>substitutions := substitutions sc + 1\<rparr>) =
      append_script sc (append_script one_substitution (parsed n d))"
    by (subst assms) (simp add: append_script_assoc)
  then show ?case by (simp only: foldl.simps Cons.IH parsed_nested.simps append_script_assoc)
qed simp

lemma parse_into_appends: "parse_into src d sc = append_script sc (parsed src d)"
proof (induction "Suc MAX_NESTING - d" arbitrary: src d sc rule: less_induct)
  case less
  show ?case
  proof (cases "MAX_NESTING < d")
    case True
    then show ?thesis by (simp add: parse_into.simps append_script_def default_script_def)
  next
    case False
    have IH: "parse_into n (d + 1) a = append_script a (parsed n (d + 1))" for n a
      by (rule less) (use False in simp)
    have run: "parse_run t b (s\<lparr>unresolved := unresolved s @ u\<rparr>) =
        append_script s (parse_run t b (default_script\<lparr>unresolved := u\<rparr>))" for t b s u
      by (subst (1 2) parse_run_appends) (simp add: append_script_def default_script_def)
    have u: "unresolved default_script = []" by (simp add: default_script_def)
    show ?thesis
      using False
      by (simp only: parse_into.simps [of src d] if_False Let_def foldl_parsed_nested [OF IH]
          run [of _ _ sc] append_script_assoc u append_Nil)
  qed
qed

lemma parsed_unfold:
  assumes "d \<le> MAX_NESTING"
  shows "parsed src d =
    append_script (parse_run (tokens (lex src)) (heredoc_bodies (lex src))
        (default_script\<lparr>unresolved := lex_unresolved (lex src)\<rparr>))
      (parsed_nested (nested (lex src)) (Suc d))"
proof -
  have u: "unresolved default_script = []" by (simp add: default_script_def)
  show ?thesis
    using assms foldl_parsed_nested [of "Suc d", OF parse_into_appends]
    by (simp add: parse_into.simps [of src d] Let_def u)
qed

lemma parsed_too_deep: "MAX_NESTING < d \<Longrightarrow> unresolved (parsed src d) = [TOO_DEEP]"
  by (simp add: parse_into.simps default_script_def)

lemma parsed_nested_mem:
  assumes "n \<in> set ns"
  shows "set (commands (parsed n d)) \<subseteq> set (commands (parsed_nested ns d))"
    "set (unresolved (parsed n d)) \<subseteq> set (unresolved (parsed_nested ns d))"
  using assms by (induction ns) auto

text \<open>A line whose nesting is followed to the end parses alike at every depth above.\<close>

lemma parsed_nested_shallower:
  assumes "\<And>n. TOO_DEEP \<notin> set (unresolved (parsed n d)) \<Longrightarrow> parsed n d' = parsed n d"
    and "TOO_DEEP \<notin> set (unresolved (parsed_nested ns d))"
  shows "parsed_nested ns d' = parsed_nested ns d"
  using assms(2) by (induction ns) (auto simp: assms(1))

lemma parsed_shallower:
  "TOO_DEEP \<notin> set (unresolved (parsed src d)) \<Longrightarrow> d' \<le> d \<Longrightarrow> parsed src d' = parsed src d"
proof (induction "Suc MAX_NESTING - d" arbitrary: src d d' rule: less_induct)
  case less
  have d: "d \<le> MAX_NESTING"
    using less.prems(1) parsed_too_deep [of d src] by (cases "MAX_NESTING < d") auto
  have "TOO_DEEP \<notin> set (unresolved (parsed_nested (nested (lex src)) (Suc d)))"
    using less.prems(1) d by (simp add: parsed_unfold)
  then have "parsed_nested (nested (lex src)) (Suc d') = parsed_nested (nested (lex src)) (Suc d)"
    by (intro parsed_nested_shallower) (use less.hyps [of "Suc d" _ "Suc d'"] less.prems(2) d in simp_all)
  with d less.prems(2) show ?case by (simp only: parsed_unfold [of d] parsed_unfold [of d'] order_trans)
qed

text \<open>C30: no command hides in a substitution.  Every command that a substitution of the
  line would run is a command of the parsed line, and every reason the substitution
  cannot be read is a reason the line cannot be, unless the line is marked as nested
  too deeply.\<close>

theorem substitution_commands_listed:
  assumes "n \<in> set (nested (lex src))" and "TOO_DEEP \<notin> set (unresolved (parse src))"
  shows "set (commands (parse n)) \<subseteq> set (commands (parse src)) \<and>
    set (unresolved (parse n)) \<subseteq> set (unresolved (parse src))"
proof -
  have 0: "(0::nat) \<le> MAX_NESTING" by simp
  have "TOO_DEEP \<notin> set (unresolved (parsed_nested (nested (lex src)) 1))"
    using assms(2) parsed_unfold [OF 0, of src] by (simp add: parse_def)
  with parsed_nested_mem(2) [OF assms(1), of 1] have "TOO_DEEP \<notin> set (unresolved (parsed n 1))"
    by blast
  then have eq: "parsed n 0 = parsed n 1" by (rule parsed_shallower) simp
  show ?thesis
    using parsed_nested_mem [OF assms(1), of 1] parsed_unfold [OF 0, of src]
    by (auto simp: parse_def eq)
qed

theorem substitution_commands_listed_witness:
  "set (commands (parse ''rm -rf x'')) \<subseteq> set (commands (parse ''ls $(rm -rf x)'')) \<and>
    set (unresolved (parse ''rm -rf x'')) \<subseteq> set (unresolved (parse ''ls $(rm -rf x)''))"
proof (rule substitution_commands_listed)
  show "''rm -rf x'' \<in> set (nested (lex ''ls $(rm -rf x)''))" by code_simp
  show "TOO_DEEP \<notin> set (unresolved (parse ''ls $(rm -rf x)''))" by code_simp
qed

text \<open>What the lexer could not read is never lost by the parser.\<close>

lemma parse_keeps_unresolved:
  "set (lex_unresolved (lex src)) \<subseteq> set (unresolved (parse src))"
proof -
  have "set u \<subseteq> set (unresolved (parse_run t b (default_script\<lparr>unresolved := u\<rparr>)))" for t b u
    by (subst parse_run_appends) auto
  then show ?thesis by (auto simp: parse_def parsed_unfold)
qed

section \<open>Brace expansion terminates at stable words\<close>

lemma braces_simps [simp]:
  "braces [] = 0" "braces (x @ y) = braces x + braces y"
  "braces (c # x) = (if c = LBRACE then Suc (braces x) else braces x)"
  by (simp_all add: braces_def)

lemma slice_append:
  assumes "a \<le> b" "b \<le> c"
  shows "slice w a c = slice w a b @ slice w b c"
proof -
  have "take (c - a) (drop a w) = take ((b - a) + (c - b)) (drop a w)" using assms by simp
  also have "\<dots> = slice w a b @ take (c - b) (drop (b - a) (drop a w))"
    by (simp only: take_add slice_def)
  finally show ?thesis using assms(1) by (simp add: slice_def)
qed

lemma braces_slice_mono:
  assumes "a \<le> a'" "b' \<le> b"
  shows "braces (slice w a' b') \<le> braces (slice w a b)"
proof (cases "a' \<le> b'")
  case True
  with assms have "slice w a b = slice w a a' @ slice w a' b' @ slice w b' b"
    using slice_append [of a a' b w] slice_append [of a' b' b w] by simp
  then show ?thesis by simp
qed (simp add: slice_def)

lemma braces_around:
  assumes "op < close" "close < length w" "w ! op = LBRACE"
  shows "braces w = Suc (braces (take op w) + braces (slice w (op + 1) close) + braces (drop close w))"
proof -
  have "w = take op w @ LBRACE # drop (Suc op) w"
    using assms by (metis id_take_nth_drop less_trans)
  moreover have "drop (Suc op) w = slice w (op + 1) close @ drop close w"
    using assms by (simp add: slice_def)
      (metis Suc_leI append_take_drop_id drop_drop le_add_diff_inverse2)
  ultimately have "braces w = braces (take op w @ LBRACE # slice w (op + 1) close @ drop close w)"
    by simp
  then show ?thesis by simp
qed

lemma brace_scan_bounds:
  "brace_scan cs i depth commas = Some (close, commas') \<Longrightarrow>
     i \<le> close \<and> close < i + length cs \<and>
     (\<exists>new. commas' = commas @ new \<and> (\<forall>c \<in> set new. i \<le> c \<and> c < close) \<and> sorted new)"
proof (induction cs i depth commas arbitrary: close commas' rule: brace_scan.induct)
  case (2 c cs i depth commas)
  consider "c = LBRACE" | "c = RBRACE" "depth - 1 = 0" | "c = RBRACE" "depth - 1 \<noteq> 0"
    | "c = CHR '',''" "depth = 1" | "c \<noteq> LBRACE" "c \<noteq> RBRACE" "\<not> (c = CHR '','' \<and> depth = 1)"
    by blast
  then show ?case
  proof cases
    case 1
    with 2(1) [OF 1] 2(5) show ?thesis by fastforce
  next
    case 2
    with \<open>brace_scan (c # cs) i depth commas = Some (close, commas')\<close> show ?thesis by simp
  next
    case 3
    with 2(2) [of close commas'] 2(5) show ?thesis by fastforce
  next
    case 4
    with 2(3) [of close commas'] 2(5) obtain new where
      "Suc i \<le> close" "close < Suc i + length cs" "commas' = (commas @ [i]) @ new"
      "\<forall>c \<in> set new. Suc i \<le> c \<and> c < close" "sorted new"
      by auto
    then show ?thesis by (intro conjI exI [of _ "i # new"]) auto
  next
    case 5
    with 2(4) [of close commas'] 2(5) show ?thesis by fastforce
  qed
qed simp

lemma split_at_commas_braces:
  assumes "part \<in> set (split_at_commas w from cs)" "lo \<le> from" "\<forall>c \<in> set cs. lo \<le> Suc c \<and> c \<le> hi"
  shows "braces part \<le> braces (slice w lo hi)"
  using assms
proof (induction w "from" cs rule: split_at_commas.induct)
  case (2 w "from" c cs)
  then show ?case
    by (cases "part = slice w from c") (auto intro: braces_slice_mono)
qed simp

lemma brace_free: "c \<noteq> LBRACE \<Longrightarrow> braces [c] = 0"
  by simp

lemma show_nat_braces [simp]: "braces (show_nat n) = 0"
proof (induction n rule: show_nat.induct)
  case (1 n)
  have d: "char_of (48 + k) \<noteq> LBRACE" if "k < 10" for k :: nat
  proof
    assume "char_of (48 + k) = LBRACE"
    then have "of_char (char_of (48 + k) :: char) = (123 :: nat)" by simp
    with that show False by simp
  qed
  show ?case
    using 1 d [of n] d [of "n mod 10"] by (subst show_nat.simps) auto
qed

lemma show_int_braces [simp]: "braces (show_int i) = 0"
  by (simp add: show_int_def)

lemma char_range_braces:
  assumes "is_ascii_alphabetic b" "c \<in> set (char_range a b)"
  shows "c \<noteq> LBRACE"
proof
  assume "c = LBRACE"
  with assms(2) obtain n where n: "char_of n = LBRACE" "n \<le> code_of b"
    by (auto simp: char_range_def)
  have "n < 123" using assms(1) n(2) by (auto simp: is_ascii_alphabetic_def)
  moreover have "of_char (char_of n :: char) = (123 :: nat)" using n(1) by simp
  ultimately show False by simp
qed

lemma range_words_braces:
  assumes "range_words body cap = Some parts" "part \<in> set parts"
  shows "braces part = 0"
  using assms char_range_braces [where c = LBRACE]
  by (auto simp: range_words_def split: option.splits list.splits if_splits prod.splits)

lemma brace_candidates_mem:
  "op \<in> set (brace_candidates i cs) \<Longrightarrow> i \<le> op \<and> op < i + length cs \<and> cs ! (op - i) = LBRACE"
proof (induction i cs rule: brace_candidates.induct)
  case (2 i c cs)
  then show ?case
    by (auto simp: nth_Cons diff_Suc split: nat.split nat.splits if_splits)
qed simp

lemma brace_scan_open:
  assumes "op < length w" "w ! op = LBRACE" "brace_scan (drop op w) op 0 [] = Some (close, commas)"
  shows "op < close \<and> close < length w \<and> (\<forall>c \<in> set commas. op < c \<and> c < close)"
proof -
  have "drop op w = LBRACE # drop (Suc op) w"
    using assms(1,2) by (metis Cons_nth_drop_Suc)
  with assms(3) have "brace_scan (drop (Suc op) w) (Suc op) 1 [] = Some (close, commas)" by simp
  from brace_scan_bounds [OF this] assms(1) show ?thesis by auto
qed

lemma brace_group_decreases:
  assumes "op < length w" "w ! op = LBRACE" "brace_group_at w cap op = Some (close, parts)"
    "x \<in> set (group_words w op close parts)"
  shows "braces x < braces w"
proof -
  from assms(3) obtain cl commas where scan: "brace_scan (drop op w) op 0 [] = Some (cl, commas)"
    by (auto simp: brace_group_at_def split: if_splits option.splits)
  note b = brace_scan_open [OF assms(1,2) scan]
  from assms(3) scan have cl: "cl = close"
    by (auto simp: brace_group_at_def split: if_splits)
  from assms(4) obtain part where part: "part \<in> set parts" "x = take op w @ part @ drop (close + 1) w"
    by (auto simp: group_words_def)
  have "braces part \<le> braces (slice w (op + 1) close)"
  proof (cases "commas = []")
    case False
    with assms(3) scan have "parts = split_at_commas w (op + 1) (commas @ [close])"
      by (auto simp: brace_group_at_def split: if_splits)
    with part(1) b cl show ?thesis
      by (intro split_at_commas_braces [of part w "op + 1"]) (auto intro: less_imp_le)
  next
    case True
    with assms(3) scan cl have "range_words (slice w (op + 1) close) cap = Some parts"
      by (auto simp: brace_group_at_def split: if_splits)
    from range_words_braces [OF this part(1)] show ?thesis by simp
  qed
  moreover have "braces (drop (close + 1) w) \<le> braces (drop close w)"
    using braces_slice_mono [of close "close + 1" "length w" "length w" w] by (simp add: slice_def)
  ultimately show ?thesis
    using braces_around [of op close w] b cl assms(2) part(2) by simp
qed

lemma first_group_Some:
  "first_group w cap ops = Some (op, close, parts) \<Longrightarrow>
     op \<in> set ops \<and> brace_group_at w cap op = Some (close, parts)"
  by (induction ops) (auto split: option.splits)

lemma first_brace_group_decreases:
  assumes "first_brace_group w cap = Some (op, close, parts)" "x \<in> set (group_words w op close parts)"
  shows "braces x < braces w"
proof -
  from first_group_Some [OF assms(1) [unfolded first_brace_group_def]]
  have "op \<in> set (brace_candidates 0 w)" "brace_group_at w cap op = Some (close, parts)" by auto
  with brace_candidates_mem [of op 0 w] assms(2) show ?thesis
    by (auto intro: brace_group_decreases)
qed

lemma expand_parts_cong:
  "(\<And>w. w \<in> set ws \<Longrightarrow> f w = g w) \<Longrightarrow> expand_parts f cap ws res = expand_parts g cap ws res"
proof (induction ws arbitrary: res)
  case (Cons w ws)
  have "f w = g w" by (rule Cons.prems) simp
  moreover have "expand_parts f cap ws r = expand_parts g cap ws r" for r
    by (rule Cons.IH) (rule Cons.prems, simp)
  ultimately show ?case by (simp split: option.split)
qed simp

lemma expand_fuel_enough:
  "braces w < n \<Longrightarrow> braces w < k \<Longrightarrow> expand_fuel n cap w = expand_fuel k cap w"
proof (induction n arbitrary: k w)
  case (Suc n)
  then obtain k' where k: "k = Suc k'" by (cases k) auto
  show ?case
  proof (cases "first_brace_group w cap")
    case (Some g)
    obtain op close parts where g: "g = (op, close, parts)" by (metis prod_cases3)
    have "expand_parts (expand_fuel n cap) cap (group_words w op close parts) [] =
        expand_parts (expand_fuel k' cap) cap (group_words w op close parts) []"
    proof (rule expand_parts_cong, rule Suc.IH)
      fix x assume "x \<in> set (group_words w op close parts)"
      with Some g have "braces x < braces w" by (auto intro: first_brace_group_decreases)
      with Suc.prems k show "braces x < n" "braces x < k'" by simp_all
    qed
    with Some g k show ?thesis by simp
  qed (simp add: k)
qed simp

text \<open>Brace expansion follows the recursion of the source and always returns: the
  depth of recursion allowed by \<^const>\<open>expand_braces\<close> never cuts it short, because a group
  leaves fewer opening braces in every word it makes.\<close>

theorem expand_braces_recursion:
  "expand_braces w cap =
     (case first_brace_group w cap of None \<Rightarrow> Some [w]
      | Some (op, close, parts) \<Rightarrow>
          expand_parts (\<lambda>x. expand_braces x cap) cap
            (map (\<lambda>part. take op w @ part @ drop (close + 1) w) parts) [])"
proof (cases "first_brace_group w cap")
  case (Some g)
  obtain op close parts where g: "g = (op, close, parts)" by (metis prod_cases3)
  have "expand_parts (expand_fuel (braces w) cap) cap (group_words w op close parts) [] =
      expand_parts (\<lambda>x. expand_braces x cap) cap (group_words w op close parts) []"
    unfolding expand_braces_def
    by (intro expand_parts_cong expand_fuel_enough)
       (use first_brace_group_decreases [OF Some [unfolded g]] in auto)
  with Some g show ?thesis by (simp add: expand_braces_def [of w] group_words_def)
qed (simp add: expand_braces_def)

lemma expand_parts_all:
  assumes "expand_parts f cap ws res = Some xs" "\<And>w es. w \<in> set ws \<Longrightarrow> f w = Some es \<Longrightarrow> list_all P es"
    "list_all P res"
  shows "list_all P xs"
  using assms
proof (induction ws arbitrary: res)
  case (Cons w ws)
  from Cons.prems(1) obtain es where es: "f w = Some es" "expand_parts f cap ws (res @ es) = Some xs"
    by (auto split: option.splits if_splits)
  have "list_all P (res @ es)" using Cons.prems(2) [of w es] Cons.prems(3) es(1) by simp
  with Cons.IH [OF es(2)] Cons.prems(2) show ?case by (meson list.set_intros(2))
qed simp

lemma expand_parts_cap: "expand_parts f cap ws res = Some xs \<Longrightarrow> length res \<le> cap \<Longrightarrow> length xs \<le> cap"
  by (induction ws arbitrary: res) (auto split: option.splits if_splits)

lemma range_words_cap: "range_words body cap = None \<longleftrightarrow> range_words body cap' = None"
  by (auto simp: range_words_def split: option.splits list.splits if_splits prod.splits)

lemma brace_group_cap: "brace_group_at w cap op = None \<longleftrightarrow> brace_group_at w cap' op = None"
  using range_words_cap by (auto simp: brace_group_at_def split: option.splits if_splits)

lemma first_brace_group_cap: "first_brace_group w cap = None \<longleftrightarrow> first_brace_group w cap' = None"
proof -
  have "first_group w cap ops = None \<longleftrightarrow> first_group w cap' ops = None" for ops
  proof (induction ops)
    case (Cons op ops)
    then show ?case using brace_group_cap [of w cap op cap'] by (auto split: option.splits)
  qed simp
  then show ?thesis by (simp add: first_brace_group_def)
qed

lemma expand_fuel_stable:
  "expand_fuel n cap w = Some xs \<Longrightarrow> list_all (\<lambda>x. first_brace_group x cap = None) xs"
proof (induction n arbitrary: w xs)
  case (Suc n)
  then show ?case
    by (auto split: option.splits intro: expand_parts_all [where f = "expand_fuel n cap"])
qed simp

text \<open>An expansion that succeeds is complete and within its bound: no word of it
  still holds a group (expanding it again, with any bound, gives it back), and it has at
  most \<open>cap\<close> words unless the word had no group at all.\<close>

theorem expand_braces_complete:
  assumes "expand_braces w cap = Some xs"
  shows "(\<forall>x \<in> set xs. expand_braces x cap' = Some [x]) \<and> (length xs \<le> cap \<or> xs = [w])"
proof -
  have "expand_braces x cap' = Some [x]" if "x \<in> set xs" for x
  proof -
    have "first_brace_group x cap = None"
      using expand_fuel_stable [OF assms [unfolded expand_braces_def]] that by (simp add: list_all_iff)
    then have "first_brace_group x cap' = None" using first_brace_group_cap by blast
    then show ?thesis by (simp add: expand_braces_def)
  qed
  moreover have "length xs \<le> cap \<or> xs = [w]"
    using assms by (auto simp: expand_braces_def split: option.splits dest: expand_parts_cap)
  ultimately show ?thesis by blast
qed

theorem expand_braces_complete_witness:
  "map (\<lambda>x. expand_braces x 2) [''a1'', ''a2'', ''bc''] = map (\<lambda>x. Some [x]) [''a1'', ''a2'', ''bc''] \<and>
   (length [''a1'', ''a2'', ''bc''] \<le> 64 \<or> [''a1'', ''a2'', ''bc''] = [''{a{1..2},bc}''])"
proof -
  have "expand_braces ''{a{1..2},bc}'' 64 = Some [''a1'', ''a2'', ''bc'']" by code_simp
  from expand_braces_complete [OF this, of 2] show ?thesis by simp
qed

end
