(* ===== verification/Wrappers.thy ===== *)
theory Wrappers
  imports Shell
begin

text \<open>
  \<^verbatim>\<open>crates/pacode-risk/src/wrappers.rs\<close>: commands that run another command.  The
  option grammar of a wrapper is a record \<open>spec\<close>; \<open>options\<close> reads the options off the
  front of the words as getopt does, an unknown one being an error value; \<open>unwrap\<close>
  says what the wrapper runs.  The index into the words of the source is the
  remaining suffix here.
\<close>

datatype inner =
    Argv "token list"
  | Scripts "string list"
  | Nothing
  | Opaque "token list"
  | Unknown string

record unwrapped =
  w_name :: string
  w_inner :: inner
  w_writes :: "token list"

record spec =
  short_values :: string
  short_optional :: string
  short_flags :: string
  long_values :: "string list"
  long_flags :: "string list"
  operands :: nat
  numeric :: bool

definition NO_OPTIONS :: spec where
  "NO_OPTIONS = \<lparr>short_values = '''', short_optional = '''', short_flags = '''',
     long_values = [], long_flags = [], operands = 0, numeric = False\<rparr>"

definition SHELLS :: "string list" where
  "SHELLS =
     [''sh'', ''bash'', ''zsh'', ''dash'', ''ksh'', ''mksh'', ''ash'', ''yash'', ''fish'',
      ''rbash'', ''tcsh'', ''csh'']"

definition OPAQUE :: "string list" where
  "OPAQUE =
     [''strace'', ''ltrace'', ''taskset'', ''chrt'', ''prlimit'', ''unshare'',
      ''nsenter'', ''firejail'', ''systemd-run'', ''runuser'', ''pkexec'', ''unbuffer'',
      ''flock'', ''valgrind'', ''catchsegv'', ''faketime'', ''script'', ''sg'',
      ''parallel'']"

definition spec_sudo :: spec where
  "spec_sudo = NO_OPTIONS\<lparr>short_values := ''aCcDgpRrTtUu'',
     short_flags := ''ABbEeHhiKklNnPSsVv'',
     long_values := [''auth-type'', ''close-from'', ''chdir'', ''group'', ''host'',
       ''login-class'', ''prompt'', ''chroot'', ''role'', ''type'', ''command-timeout'',
       ''other-user'', ''user''],
     long_flags := [''askpass'', ''background'', ''bell'', ''preserve-env'', ''edit'',
       ''set-home'', ''login'', ''remove-timestamp'', ''reset-timestamp'', ''list'',
       ''non-interactive'', ''preserve-groups'', ''stdin'', ''shell'',
       ''validate'']\<rparr>"

definition spec_doas :: spec where
  "spec_doas = NO_OPTIONS\<lparr>short_values := ''Cu'',
     short_flags := ''Lns''\<rparr>"

definition spec_env :: spec where
  "spec_env = NO_OPTIONS\<lparr>short_values := ''CSu'',
     short_flags := ''iv0'',
     long_values := [''chdir'', ''split-string'', ''unset''],
     long_flags := [''ignore-environment'', ''null'', ''debug'', ''block-signal'',
       ''default-signal'', ''ignore-signal'', ''list-signal-handling'']\<rparr>"

definition spec_nice :: spec where
  "spec_nice = NO_OPTIONS\<lparr>short_values := ''n'',
     long_values := [''adjustment''],
     numeric := True\<rparr>"

definition spec_ionice :: spec where
  "spec_ionice = NO_OPTIONS\<lparr>short_values := ''cnpPu'',
     short_flags := ''t'',
     long_values := [''class'', ''classdata'', ''pid'', ''pgid'', ''uid''],
     long_flags := [''ignore'']\<rparr>"

definition spec_timeout :: spec where
  "spec_timeout = NO_OPTIONS\<lparr>short_values := ''ks'',
     short_flags := ''v'',
     long_values := [''kill-after'', ''signal''],
     long_flags := [''preserve-status'', ''foreground'', ''verbose''],
     operands := 1\<rparr>"

definition spec_setsid :: spec where
  "spec_setsid = NO_OPTIONS\<lparr>short_flags := ''cfw'',
     long_flags := [''ctty'', ''fork'', ''wait'']\<rparr>"

definition spec_stdbuf :: spec where
  "spec_stdbuf = NO_OPTIONS\<lparr>short_values := ''ioe'',
     long_values := [''input'', ''output'', ''error'']\<rparr>"

definition spec_chroot :: spec where
  "spec_chroot = NO_OPTIONS\<lparr>long_values := [''userspec'', ''groups''],
     long_flags := [''skip-chdir''],
     operands := 1\<rparr>"

definition spec_time :: spec where
  "spec_time = NO_OPTIONS\<lparr>short_values := ''fo'',
     short_flags := ''apqvV'',
     long_values := [''format'', ''output''],
     long_flags := [''append'', ''portability'', ''quiet'', ''verbose'']\<rparr>"

definition spec_exec :: spec where
  "spec_exec = NO_OPTIONS\<lparr>short_values := ''a'',
     short_flags := ''cl''\<rparr>"

definition spec_command :: spec where
  "spec_command = NO_OPTIONS\<lparr>short_flags := ''pvV''\<rparr>"

definition spec_xargs :: spec where
  "spec_xargs = NO_OPTIONS\<lparr>short_values := ''adEILnPs'',
     short_optional := ''eil'',
     short_flags := ''0oprtx'',
     long_values := [''arg-file'', ''delimiter'', ''max-args'', ''max-procs'',
       ''max-chars'', ''process-slot-var''],
     long_flags := [''null'', ''eof'', ''replace'', ''max-lines'', ''open-tty'',
       ''interactive'', ''no-run-if-empty'', ''verbose'', ''exit'',
       ''show-limits'']\<rparr>"

definition spec_watch :: spec where
  "spec_watch = NO_OPTIONS\<lparr>short_values := ''n'',
     short_flags := ''bcdegptxwqr'',
     long_values := [''interval''],
     long_flags := [''beep'', ''color'', ''no-color'', ''differences'', ''errexit'',
       ''chgexit'', ''precise'', ''no-title'', ''exec'', ''no-wrap'']\<rparr>"

definition spec_trap :: spec where
  "spec_trap = NO_OPTIONS\<lparr>short_flags := ''lp''\<rparr>"

definition spec_of :: "string \<Rightarrow> spec option" where
  "spec_of name =
     (if name = ''sudo'' then Some spec_sudo
      else if name = ''doas'' then Some spec_doas
      else if name = ''env'' then Some spec_env
      else if name = ''nice'' then Some spec_nice
      else if name = ''ionice'' then Some spec_ionice
      else if name = ''timeout'' then Some spec_timeout
      else if name = ''setsid'' then Some spec_setsid
      else if name = ''stdbuf'' then Some spec_stdbuf
      else if name = ''chroot'' then Some spec_chroot
      else if name = ''time'' then Some spec_time
      else if name = ''exec'' then Some spec_exec
      else if name = ''command'' then Some spec_command
      else if name = ''xargs'' then Some spec_xargs
      else if name = ''watch'' then Some spec_watch
      else if name = ''trap'' then Some spec_trap
      else if List.member [''nohup'', ''builtin'', ''eval'', ''busybox'', ''toybox''] name
        then Some NO_OPTIONS
      else None)"

definition unknown :: "string \<Rightarrow> string \<Rightarrow> inner" where
  "unknown name option =
     Unknown (''`'' @ name @ ''` is given option `'' @ option @
       ''`, which is not known here, so the command it runs cannot be identified'')"

type_synonym option_values = "(string \<times> string option) list"

text \<open>The loop over a bundle of short options: \<^const>\<open>None\<close> for an option the table does
  not know, otherwise the values and whether the next word was taken as one.\<close>

fun short_bundle ::
  "spec \<Rightarrow> token list \<Rightarrow> string \<Rightarrow> option_values \<Rightarrow> (option_values \<times> bool) option" where
  "short_bundle sp ws [] vals = Some (vals, False)"
| "short_bundle sp ws (flag # attached) vals =
     (if List.member (short_values sp) flag then
        (if attached = [] then Some (vals @ [([flag], map_option tk_text (first_opt ws))], True)
         else Some (vals @ [([flag], Some attached)], False))
      else if List.member (short_optional sp) flag then
        Some (vals @ [([flag], Some attached)], False)
      else if \<not> List.member (short_flags sp) flag then None
      else short_bundle sp ws attached (vals @ [([flag], None)]))"

text \<open>\<^verbatim>\<open>options\<close>: the words after the options and the values, or the unknown option.\<close>

fun options :: "spec \<Rightarrow> token list \<Rightarrow> option_values \<Rightarrow> string + (token list \<times> option_values)" where
  "options sp [] vals = Inr ([], vals)"
| "options sp (w # ws) vals =
     (let str = tk_text w
      in if str = ''--'' then Inr (ws, vals)
         else (case strip_prefix str ''--'' of
             Some long \<Rightarrow>
               (let (name, attached) = (case split_once long (CHR ''='') of
                                          Some (n, v) \<Rightarrow> (n, Some v) | None \<Rightarrow> (long, None))
                in if List.member (long_values sp) name then
                     (case attached of
                        Some v \<Rightarrow> options sp ws (vals @ [(name, Some v)])
                      | None \<Rightarrow> options sp (drop 1 ws)
                                 (vals @ [(name, map_option tk_text (first_opt ws))]))
                   else if List.member (long_flags sp) name then
                     options sp ws (vals @ [(name, attached)])
                   else Inl str)
           | None \<Rightarrow>
               (case strip_prefix str ''-'' of
                  None \<Rightarrow> Inr (w # ws, vals)
                | Some bundle \<Rightarrow>
                    if bundle = [] then Inr (w # ws, vals)
                    else if numeric sp \<and> list_all is_ascii_digit bundle then options sp ws vals
                    else (case short_bundle sp ws bundle vals of
                        None \<Rightarrow> Inl str
                      | Some (vals', takes_next) \<Rightarrow>
                          options sp (if takes_next then drop 1 ws else ws) vals'))))"

definition joined :: "token list \<Rightarrow> string" where
  "joined ws = join_with '' '' (map tk_text ws)"

definition has_option :: "option_values \<Rightarrow> string \<Rightarrow> bool" where
  "has_option vals opt \<longleftrightarrow> list_ex (\<lambda>(n, v). n = opt) vals"

definition inner_of :: "string \<Rightarrow> option_values \<Rightarrow> token list \<Rightarrow> inner" where
  "inner_of name vals rest =
     (if List.member [''eval'', ''watch''] name then
        (if rest = [] then Nothing else Scripts [joined rest])
      else if name = ''trap'' then
        (case rest of [] \<Rightarrow> Nothing
         | t # _ \<Rightarrow> if List.member [''-'', ''-p'', ''-l'', ''--''] (tk_text t) then Nothing
                    else Scripts [tk_text t])
      else if name = ''env'' then
        (case Option.bind (find (\<lambda>(n, v). n = ''S'' \<or> n = ''split-string'') vals) snd of
           Some scr \<Rightarrow> Scripts [scr @ '' '' @ joined rest]
         | None \<Rightarrow> if rest = [] then Nothing else Argv rest)
      else if name = ''command'' \<and> (has_option vals ''v'' \<or> has_option vals ''V'') then Nothing
      else if rest = [] then Nothing else Argv rest)"

text \<open>The loop of \<^verbatim>\<open>su\<close>, collecting the command lines.\<close>

fun su_scripts :: "token list \<Rightarrow> string list \<Rightarrow> string list" where
  "su_scripts [] acc = acc"
| "su_scripts (w # ws) acc =
     (let str = tk_text w; next = (case ws of [] \<Rightarrow> [] | t # _ \<Rightarrow> [tk_text t])
      in case (case strip_prefix str ''--command='' of Some v \<Rightarrow> Some v
               | None \<Rightarrow> strip_prefix str ''--session-command='') of
           Some v \<Rightarrow> su_scripts ws (acc @ [v])
         | None \<Rightarrow>
             if str = ''--command'' \<or> str = ''--session-command'' then
               su_scripts (drop 1 ws) (acc @ next)
             else (case strip_prefix str ''-'' of
                 None \<Rightarrow> su_scripts ws acc
               | Some bundle \<Rightarrow>
                   if starts_with bundle ''-'' then su_scripts ws acc
                   else (case find_index (\<lambda>c. c = CHR ''c'') bundle of
                       None \<Rightarrow> su_scripts ws acc
                     | Some at \<Rightarrow>
                         (let attached = drop (at + 1) bundle
                          in if attached = [] then su_scripts (drop 1 ws) (acc @ next)
                             else su_scripts ws (acc @ [attached])))))"

definition su :: "token list \<Rightarrow> inner" where
  "su args = (let scripts = su_scripts args [] in if scripts = [] then Nothing else Scripts scripts)"

definition env_prefix :: "token \<Rightarrow> bool" where
  "env_prefix t \<longleftrightarrow> tk_text t = ''-'' \<or> is_assignment (tk_text t)"

definition time_writes :: "option_values \<Rightarrow> token list" where
  "time_writes vals =
     map (\<lambda>(n, v). word_token (the v))
       (filter (\<lambda>(n, v). (n = ''o'' \<or> n = ''output'') \<and> v \<noteq> None) vals)"

definition unwrap_options :: "string \<Rightarrow> spec \<Rightarrow> token list \<Rightarrow> unwrapped" where
  "unwrap_options name sp args =
     (case options sp args [] of
        Inl opt \<Rightarrow> \<lparr>w_name = name, w_inner = unknown name opt, w_writes = []\<rparr>
      | Inr (rest, vals) \<Rightarrow>
          (let rest1 = (if name = ''env'' then dropWhile env_prefix rest else rest)
           in \<lparr>w_name = name, w_inner = inner_of name vals (drop (operands sp) rest1),
               w_writes = (if name = ''time'' then time_writes vals else [])\<rparr>))"

definition unwrap :: "token list \<Rightarrow> unwrapped option" where
  "unwrap ws =
     (case ws of [] \<Rightarrow> None
      | first # args \<Rightarrow>
          (let name = basename first
           in if List.member SHELLS name then
                Some \<lparr>w_name = name,
                  w_inner = Scripts (map tk_text (filter (\<lambda>t. \<not> is_flag t) args)), w_writes = []\<rparr>
              else if List.member OPAQUE name then
                Some \<lparr>w_name = name, w_inner = Opaque args, w_writes = []\<rparr>
              else if name = ''su'' then Some \<lparr>w_name = name, w_inner = su args, w_writes = []\<rparr>
              else map_option (\<lambda>sp. unwrap_options name sp args) (spec_of name)))"

section \<open>What a wrapper runs is a suffix of its words\<close>

definition is_suffix :: "'a list \<Rightarrow> 'a list \<Rightarrow> bool" where
  "is_suffix ys xs \<longleftrightarrow> (\<exists>n. ys = drop n xs)"

lemma is_suffix_refl [simp]: "is_suffix xs xs"
  unfolding is_suffix_def by (rule exI [of _ 0]) simp

lemma is_suffix_drop [intro]: "is_suffix ys xs \<Longrightarrow> is_suffix (drop n ys) xs"
  unfolding is_suffix_def by (metis drop_drop)

lemma is_suffix_Cons [intro]: "is_suffix ys xs \<Longrightarrow> is_suffix ys (x # xs)"
  unfolding is_suffix_def by (metis drop_Suc_Cons)

lemma is_suffix_dropD: "is_suffix ys (drop n xs) \<Longrightarrow> is_suffix ys xs"
  unfolding is_suffix_def by (metis drop_drop)

lemma is_suffix_dropWhile [intro]: "is_suffix ys xs \<Longrightarrow> is_suffix (dropWhile P ys) xs"
  by (metis dropWhile_eq_drop is_suffix_drop)

lemma is_suffix_length: "is_suffix ys xs \<Longrightarrow> length ys \<le> length xs"
  by (auto simp: is_suffix_def)

lemma is_suffix_set: "is_suffix ys xs \<Longrightarrow> set ys \<subseteq> set xs"
  by (auto simp: is_suffix_def dest: in_set_dropD)

lemma options_suffix: "options sp ws vals = Inr (rest, vals') \<Longrightarrow> is_suffix rest ws"
proof (induction ws arbitrary: vals rule: length_induct)
  case (1 ws)
  show ?case
  proof (cases ws)
    case (Cons w xs)
    have "is_suffix rest ws" if "options sp xs v = Inr (rest, vals')" for v
      using 1(1) that Cons by auto
    moreover have "is_suffix rest ws" if "options sp (drop (Suc 0) xs) v = Inr (rest, vals')" for v
    proof -
      have "length (drop (Suc 0) xs) < length ws" using Cons by simp
      with 1(1) that have "is_suffix rest (drop (Suc 0) xs)" by blast
      with Cons show ?thesis by (auto dest: is_suffix_dropD)
    qed
    ultimately show ?thesis
      using 1(2) Cons by (auto simp: Let_def split: if_splits option.splits prod.splits)
  qed (use 1(2) in simp)
qed

lemma inner_of_Argv: "inner_of name vals rest = Argv xs \<Longrightarrow> xs = rest \<and> rest \<noteq> []"
  by (auto simp: inner_of_def split: if_splits option.splits list.splits)

lemma unwrap_Argv:
  assumes "unwrap ws = Some u" "w_inner u = Argv rest"
  shows "rest \<noteq> [] \<and> length rest < length ws \<and> is_suffix rest ws"
proof -
  from assms obtain first args sp where ws: "ws = first # args"
    and u: "w_inner (unwrap_options (basename first) sp args) = Argv rest"
    by (auto simp: unwrap_def su_def Let_def split: list.splits if_splits option.splits)
  let ?name = "basename first"
  from u obtain r vals where opt: "options sp args [] = Inr (r, vals)"
    and i: "inner_of ?name vals
      (drop (operands sp) (if ?name = ''env'' then dropWhile env_prefix r else r)) = Argv rest"
    by (auto simp: unwrap_options_def unknown_def Let_def split: sum.splits prod.splits)
  have suf: "is_suffix rest args"
    using options_suffix [OF opt] inner_of_Argv [OF i] by auto
  with is_suffix_length [OF suf] inner_of_Argv [OF i] ws show ?thesis by auto
qed

section \<open>Options never hide the command\<close>

text \<open>The ways an option may be spelled, its words, and the value it records.\<close>

datatype spelled =
    ShortFlag char
  | ShortNext char string
  | ShortAttached char string
  | LongFlag string
  | LongNext string string
  | LongEq string string

primrec option_words :: "spelled \<Rightarrow> string list" where
  "option_words (ShortFlag c) = [[CHR ''-'', c]]"
| "option_words (ShortNext c v) = [[CHR ''-'', c], v]"
| "option_words (ShortAttached c v) = [CHR ''-'' # c # v]"
| "option_words (LongFlag n) = [''--'' @ n]"
| "option_words (LongNext n v) = [''--'' @ n, v]"
| "option_words (LongEq n v) = [''--'' @ n @ ''='' @ v]"

primrec option_value :: "spelled \<Rightarrow> string \<times> string option" where
  "option_value (ShortFlag c) = ([c], None)"
| "option_value (ShortNext c v) = ([c], Some v)"
| "option_value (ShortAttached c v) = ([c], Some v)"
| "option_value (LongFlag n) = (n, None)"
| "option_value (LongNext n v) = (n, Some v)"
| "option_value (LongEq n v) = (n, Some v)"

definition short_ok :: "spec \<Rightarrow> char \<Rightarrow> bool" where
  "short_ok sp c \<longleftrightarrow> c \<noteq> CHR ''-'' \<and> \<not> (numeric sp \<and> is_ascii_digit c)"

definition long_ok :: "string \<Rightarrow> bool" where
  "long_ok n \<longleftrightarrow> n \<noteq> [] \<and> CHR ''='' \<notin> set n"

primrec known_option :: "spec \<Rightarrow> spelled \<Rightarrow> bool" where
  "known_option sp (ShortFlag c) \<longleftrightarrow> short_ok sp c \<and> c \<in> set (short_flags sp) \<and>
     c \<notin> set (short_values sp) \<and> c \<notin> set (short_optional sp)"
| "known_option sp (ShortNext c v) \<longleftrightarrow> short_ok sp c \<and> c \<in> set (short_values sp)"
| "known_option sp (ShortAttached c v) \<longleftrightarrow> short_ok sp c \<and> c \<in> set (short_values sp) \<and> v \<noteq> []"
| "known_option sp (LongFlag n) \<longleftrightarrow> long_ok n \<and> n \<in> set (long_flags sp) \<and> n \<notin> set (long_values sp)"
| "known_option sp (LongNext n v) \<longleftrightarrow> long_ok n \<and> n \<in> set (long_values sp)"
| "known_option sp (LongEq n v) \<longleftrightarrow> long_ok n \<and> n \<in> set (long_values sp)"

definition spelled_words :: "spelled list \<Rightarrow> token list" where
  "spelled_words os = map word_token (concat (map option_words os))"

definition operand_first :: "token list \<Rightarrow> bool" where
  "operand_first ws \<longleftrightarrow>
     (case ws of [] \<Rightarrow> True | w # _ \<Rightarrow> tk_text w = ''-'' \<or> \<not> starts_with (tk_text w) ''-'')"

lemma split_once_eq: "CHR ''='' \<notin> set n \<Longrightarrow> split_once (n @ CHR ''='' # v) (CHR ''='') = Some (n, v)"
proof -
  assume n: "CHR ''='' \<notin> set n"
  have "find_index (\<lambda>d. d = c) (n @ c # v) = Some (length n)" if "c \<notin> set n" for c
    using that by (induction n) auto
  with n show ?thesis by (simp add: split_once_def)
qed

lemma strip_dashes:
  "strip_prefix (CHR ''-'' # x) ''-'' = Some x"
  "strip_prefix (CHR ''-'' # CHR ''-'' # x) ''--'' = Some x"
  "c \<noteq> CHR ''-'' \<Longrightarrow> strip_prefix (CHR ''-'' # c # x) ''--'' = None"
  by (simp_all add: strip_prefix_def starts_with_def)

lemma tk_text_word [simp]: "tk_text (word_token s) = s"
  by (simp add: word_token_def)

lemma options_one:
  assumes "known_option sp opt"
  shows "options sp (map word_token (option_words opt) @ ws) vals = options sp ws (vals @ [option_value opt])"
proof (cases opt)
  case (ShortFlag c)
  with assms show ?thesis by (auto simp: strip_dashes short_ok_def)
next
  case (ShortNext c v)
  with assms show ?thesis by (auto simp: strip_dashes short_ok_def first_opt_def)
next
  case (ShortAttached c v)
  with assms show ?thesis by (auto simp: strip_dashes short_ok_def)
next
  case (LongFlag n)
  with assms show ?thesis by (auto simp: strip_dashes long_ok_def split_once_None [THEN iffD2])
next
  case (LongNext n v)
  with assms show ?thesis
    by (auto simp: strip_dashes long_ok_def split_once_None [THEN iffD2] first_opt_def)
next
  case (LongEq n v)
  with assms show ?thesis by (auto simp: strip_dashes long_ok_def split_once_eq)
qed

lemma options_operand: "operand_first ws \<Longrightarrow> options sp ws vals = Inr (ws, vals)"
proof (cases ws)
  case (Cons w xs)
  assume first: "operand_first ws"
  show ?thesis
  proof (cases "tk_text w")
    case Nil
    then show ?thesis by (simp add: Cons strip_prefix_def starts_with_def)
  next
    case (Cons c str)
    with first \<open>ws = w # xs\<close> show ?thesis
      by (cases str) (auto simp: operand_first_def strip_prefix_def starts_with_def Let_def)
  qed
qed simp

text \<open>Reading a wrapper's options inverts spelling them.  Whatever known options
  stand between a wrapper and its command, in whatever spelling (bundled value, next
  word, \<^verbatim>\<open>--name=value\<close>), exactly the command's words remain and every value is the
  one given.\<close>

theorem options_roundtrip:
  assumes "list_all (known_option sp) os" "operand_first cmd"
  shows "options sp (spelled_words os @ cmd) [] = Inr (cmd, map option_value os)"
proof -
  have "options sp (spelled_words os @ cmd) vals = Inr (cmd, vals @ map option_value os)" for vals
    using assms(1)
  proof (induction os arbitrary: vals)
    case Nil
    then show ?case using options_operand [OF assms(2)] by (simp add: spelled_words_def)
  next
    case (Cons opt os)
    then show ?case using options_one [of sp opt "spelled_words os @ cmd" vals]
      by (simp add: spelled_words_def)
  qed
  then show ?thesis by simp
qed

theorem options_roundtrip_witness:
  "options spec_sudo (spelled_words [ShortFlag CHR ''n'', ShortNext CHR ''u'' ''-weird'',
       ShortAttached CHR ''g'' ''wheel'', LongEq ''chdir'' ''/''] @ [word_token ''rm'']) [] =
     Inr ([word_token ''rm''], map option_value [ShortFlag CHR ''n'', ShortNext CHR ''u'' ''-weird'',
       ShortAttached CHR ''g'' ''wheel'', LongEq ''chdir'' ''/''])"
proof (rule options_roundtrip)
  show "list_all (known_option spec_sudo) [ShortFlag CHR ''n'', ShortNext CHR ''u'' ''-weird'',
      ShortAttached CHR ''g'' ''wheel'', LongEq ''chdir'' ''/'']"
    by (simp add: spec_sudo_def NO_OPTIONS_def short_ok_def long_ok_def)
  show "operand_first [word_token ''rm'']" by (simp add: operand_first_def starts_with_def)
qed

end
