(* ===== verification/Writers.thy ===== *)
theory Writers
  imports Wrappers
begin

text \<open>
  Three argument readers of \<^verbatim>\<open>crates/pacode-risk/src\<close>: \<^verbatim>\<open>git.rs\<close> (where the subcommand
  of a \<^verbatim>\<open>git\<close> call is), \<^verbatim>\<open>sinks.rs\<close> (inline interpreter source, destinations of
  writers) and \<^verbatim>\<open>writers.rs\<close> (readers that write or execute through their own
  arguments).  Loops with an index are recursions on the remaining words.
\<close>

section \<open>git\<close>

definition VALUE_OPTIONS :: "string list" where
  "VALUE_OPTIONS =
     [''-C'', ''-c'', ''--git-dir'', ''--work-tree'', ''--namespace'', ''--super-prefix'',
      ''--config-env'', ''--list-cmds'']"

definition FLAG_OPTIONS :: "string list" where
  "FLAG_OPTIONS =
     [''-p'', ''-P'', ''--paginate'', ''--no-pager'', ''--bare'', ''--no-replace-objects'',
      ''--no-lazy-fetch'', ''--no-optional-locks'', ''--no-advice'', ''--literal-pathspecs'',
      ''--glob-pathspecs'', ''--noglob-pathspecs'', ''--icase-pathspecs'', ''--exec-path'',
      ''--html-path'', ''--man-path'', ''--info-path'', ''--version'', ''-v'', ''--help'', ''-h'']"

record git_call =
  globals :: "(string \<times> string option) list"
  subcommand :: "string option"
  git_args :: "string list"
  git_unknown :: "string option"

fun git_parse_from :: "string list \<Rightarrow> (string \<times> string option) list \<Rightarrow> git_call" where
  "git_parse_from [] gl = \<lparr>globals = gl, subcommand = None, git_args = [], git_unknown = None\<rparr>"
| "git_parse_from (w # ws) gl =
     (if \<not> starts_with w ''-'' then
        \<lparr>globals = gl, subcommand = Some w, git_args = ws, git_unknown = None\<rparr>
      else
        (let (name, attached) =
           (case split_once w (CHR ''='') of
              Some (n, v) \<Rightarrow> if starts_with n ''--'' then (n, Some v) else (w, None)
            | None \<Rightarrow> (w, None))
         in if List.member VALUE_OPTIONS name then
              (case attached of
                 Some v \<Rightarrow> git_parse_from ws (gl @ [(name, Some v)])
               | None \<Rightarrow> git_parse_from (drop 1 ws) (gl @ [(name, first_opt ws)]))
            else if List.member FLAG_OPTIONS name then git_parse_from ws (gl @ [(name, attached)])
            else if List.member [''-C'', ''-c''] (take 2 w) \<and> 2 < length w then
              git_parse_from ws (gl @ [(take 2 w, Some (drop 2 w))])
            else \<lparr>globals = gl, subcommand = None, git_args = [], git_unknown = Some w\<rparr>))"

definition git_parse :: "string list \<Rightarrow> git_call" where
  "git_parse ws = git_parse_from ws []"

definition config_overrides :: "git_call \<Rightarrow> string list" where
  "config_overrides call =
     concat (map (\<lambda>(opt, v). if opt = ''-c'' then (case v of Some s \<Rightarrow> [s] | None \<Rightarrow> []) else [])
       (globals call))"

definition only_asks_version :: "git_call \<Rightarrow> bool" where
  "only_asks_version call \<longleftrightarrow>
     subcommand call = None \<and> git_unknown call = None \<and>
     list_ex (\<lambda>(opt, v). List.member [''--version'', ''-v'', ''--help'', ''-h''] opt) (globals call)"

definition command_in_config :: "string \<Rightarrow> string option" where
  "command_in_config setting =
     (case split_once setting (CHR ''='') of None \<Rightarrow> None
      | Some (key0, val) \<Rightarrow>
          (let key = to_ascii_lowercase key0
           in if starts_with key ''alias.'' then strip_prefix val ''!''
              else
                (let lst = last (split_on (CHR ''.'') key)
                 in if List.member
                         [''pager'', ''editor'', ''external'', ''sshcommand'', ''fsmonitor'',
                          ''textconv'', ''command'', ''program'', ''helper'', ''askpass'',
                          ''hookspath'', ''clean'', ''smudge'', ''process'', ''packobjectshook''] lst
                       \<or> starts_with key ''pager.''
                    then Some val else None)))"

section \<open>sinks\<close>

definition INLINE_CODE :: "(string \<times> string list) list" where
  "INLINE_CODE =
     [(''python'', [''-c'']), (''python2'', [''-c'']), (''python3'', [''-c'']),
      (''node'', [''-e'', ''--eval'', ''-p'', ''--print'']),
      (''nodejs'', [''-e'', ''--eval'', ''-p'', ''--print'']),
      (''bun'', [''-e'', ''--eval'']), (''perl'', [''-e'', ''-E'']), (''ruby'', [''-e'']),
      (''php'', [''-r'']), (''lua'', [''-e'']), (''luajit'', [''-e'']), (''Rscript'', [''-e''])]"

definition DESTRUCTIVE_MARKERS :: "string list" where
  "DESTRUCTIVE_MARKERS =
     [''rm -rf'', ''os.system'', ''subprocess'', ''child_process'', ''exec('', ''system('']"

fun attached_code :: "string \<Rightarrow> string list \<Rightarrow> string option" where
  "attached_code str [] = None"
| "attached_code str (flag # flags) =
     (case (if starts_with flag ''--''
            then Option.bind (strip_prefix str flag) (\<lambda>r. strip_prefix r ''='')
            else (case strip_prefix str flag of
                    Some code \<Rightarrow> if code = [] then None else Some code | None \<Rightarrow> None)) of
        Some code \<Rightarrow> Some code
      | None \<Rightarrow> attached_code str flags)"

fun inline_from :: "string list \<Rightarrow> string list \<Rightarrow> string list" where
  "inline_from flags [] = []"
| "inline_from flags (w # ws) =
     (case attached_code w flags of
        Some code \<Rightarrow> code # inline_from flags ws
      | None \<Rightarrow>
          (case ws of [] \<Rightarrow> []
           | next # ws' \<Rightarrow>
               if List.member flags w then next # inline_from flags ws' else inline_from flags ws))"

definition deno_eval :: "token list \<Rightarrow> string list" where
  "deno_eval ws =
     (case dropWhile is_flag (drop 1 ws) of [] \<Rightarrow> []
      | w # rest \<Rightarrow>
          if tk_text w = ''eval'' then
            (case find (\<lambda>t. \<not> is_flag t) rest of Some t \<Rightarrow> [tk_text t] | None \<Rightarrow> [])
          else [])"

definition inline_code :: "string \<Rightarrow> token list \<Rightarrow> string list" where
  "inline_code name ws =
     (if name = ''deno'' then deno_eval ws
      else (case map_of INLINE_CODE name of None \<Rightarrow> []
            | Some flags \<Rightarrow> inline_from flags (map tk_text (drop 1 ws))))"

definition code_is_destructive :: "string \<Rightarrow> bool" where
  "code_is_destructive code \<longleftrightarrow> list_ex (str_contains code) DESTRUCTIVE_MARKERS"

text \<open>\<^verbatim>\<open>sinks::operands\<close>.\<close>

definition operand_words :: "token list \<Rightarrow> string list" where
  "operand_words ws = map tk_text (filter (\<lambda>t. \<not> is_flag t) (drop 1 ws))"

fun target_dir_from :: "token list \<Rightarrow> string option \<Rightarrow> string list" where
  "target_dir_from [] lst = (case lst of Some s \<Rightarrow> [s] | None \<Rightarrow> [])"
| "target_dir_from (w # ws) lst =
     (let str = tk_text w
      in if (str = ''-t'' \<or> str = ''--target-directory'') \<and> ws \<noteq> [] then [tk_text (hd ws)]
         else (case strip_prefix str ''--target-directory='' of Some dir \<Rightarrow> [dir]
           | None \<Rightarrow>
               if starts_with str ''-t'' \<and> 2 < length str then [drop 2 str]
               else target_dir_from ws (if is_flag w then lst else Some str)))"

definition target_dir_or_last :: "token list \<Rightarrow> string list" where
  "target_dir_or_last ws = target_dir_from (drop 1 ws) None"

definition write_destinations :: "string \<Rightarrow> token list \<Rightarrow> string list" where
  "write_destinations name ws =
     (if List.member [''cp'', ''mv'', ''install''] name then target_dir_or_last ws
      else if name = ''rsync'' then
        (case last_opt (operand_words ws) of Some s \<Rightarrow> [s] | None \<Rightarrow> [])
      else if List.member [''ln'', ''tee'', ''sponge''] name then operand_words ws
      else [])"

section \<open>writers\<close>

definition is_short_bundle :: "string \<Rightarrow> bool" where
  "is_short_bundle arg \<longleftrightarrow> 1 < length arg \<and> starts_with arg ''-'' \<and> \<not> starts_with arg ''--''"

fun xxd_scan :: "string list \<Rightarrow> nat \<Rightarrow> bool" where
  "xxd_scan [] ops = (2 \<le> ops)"
| "xxd_scan (arg # args) ops =
     (if arg = ''-r'' \<or> arg = ''-revert'' then True
      else if is_short_bundle arg then
        (if List.member arg (CHR ''r'') then True
         else if List.member ''cgslo'' (last arg) then xxd_scan (drop 1 args) ops
         else xxd_scan args ops)
      else if starts_with arg ''--'' then xxd_scan args ops
      else xxd_scan args (ops + 1))"

definition xxd_writes :: "string list \<Rightarrow> bool" where
  "xxd_writes args = xxd_scan args 0"

text \<open>A bundle in \<^verbatim>\<open>has_short\<close>: \<^term>\<open>Inl ()\<close> when the option is in it, otherwise whether
  the value of its last option is the next word.\<close>

fun bundle_has :: "string \<Rightarrow> char \<Rightarrow> string \<Rightarrow> unit + bool" where
  "bundle_has vals opt [] = Inr False"
| "bundle_has vals opt (flag # rest) =
     (if flag = opt then Inl ()
      else if List.member vals flag then Inr (rest = [])
      else bundle_has vals opt rest)"

fun has_short :: "string list \<Rightarrow> string \<Rightarrow> char \<Rightarrow> bool" where
  "has_short [] vals opt = False"
| "has_short (arg # args) vals opt =
     (if arg = ''--'' then False
      else if \<not> is_short_bundle arg then has_short args vals opt
      else (case bundle_has vals opt (drop 1 arg) of Inl _ \<Rightarrow> True
            | Inr skip_next \<Rightarrow> has_short (if skip_next then drop 1 args else args) vals opt))"

definition has_long :: "string list \<Rightarrow> string \<Rightarrow> nat \<Rightarrow> bool" where
  "has_long args long mn \<longleftrightarrow>
     list_ex (\<lambda>arg. case strip_prefix arg ''--'' of None \<Rightarrow> False
       | Some rest \<Rightarrow>
           (let name = hd (split_on (CHR ''='') rest)
            in mn \<le> length name \<and> starts_with long name)) args"

definition fd_executes :: "string list \<Rightarrow> bool" where
  "fd_executes args \<longleftrightarrow>
     has_short args ''etEdjSco'' (CHR ''x'') \<or> has_short args ''etEdjSco'' (CHR ''X'') \<or>
     list_ex (\<lambda>a. starts_with a ''--exec'') args"

fun uniq_scan :: "string list \<Rightarrow> nat \<Rightarrow> bool \<Rightarrow> bool" where
  "uniq_scan [] ops options_done = (2 \<le> ops)"
| "uniq_scan (arg # args) ops options_done =
     (if options_done \<or> \<not> starts_with arg ''-'' \<or> arg = ''-'' then
        uniq_scan args (ops + 1) options_done
      else if arg = ''--'' then uniq_scan args ops True
      else (case strip_prefix arg ''--'' of
          Some long \<Rightarrow>
            uniq_scan (if List.member [''skip-fields'', ''skip-chars'', ''check-chars''] long
                       then drop 1 args else args) ops options_done
        | None \<Rightarrow>
            (let bundle = drop 1 arg
             in uniq_scan (if (case find_index (\<lambda>c. List.member ''fsw'' c) bundle of
                                 Some at \<Rightarrow> at + 1 = length bundle | None \<Rightarrow> False)
                           then drop 1 args else args) ops options_done)))"

definition uniq_has_output :: "string list \<Rightarrow> bool" where
  "uniq_has_output args = uniq_scan args 0 False"

fun date_scan :: "string list \<Rightarrow> bool" where
  "date_scan [] = False"
| "date_scan (arg # args) =
     (if is_short_bundle arg then
        date_scan (if length arg = 2 \<and> List.member [''d'', ''f'', ''r''] (drop 1 arg)
                   then drop 1 args else args)
      else if starts_with arg ''--'' then
        date_scan (if \<not> List.member arg (CHR ''='') \<and>
                      List.member [''date'', ''file'', ''reference''] (drop 2 arg)
                   then drop 1 args else args)
      else if \<not> starts_with arg ''+'' then True
      else date_scan args)"

definition date_sets_clock :: "string list \<Rightarrow> bool" where
  "date_sets_clock args \<longleftrightarrow>
     has_short args ''dfr'' (CHR ''s'') \<or> has_long args ''set'' 1 \<or> date_scan args"

definition writes_through_own_arguments :: "string \<Rightarrow> token list \<Rightarrow> bool" where
  "writes_through_own_arguments program ws \<longleftrightarrow>
     (let args = map tk_text (drop 1 ws)
      in if program = ''fd'' then fd_executes args
         else if program = ''rg'' then list_ex (\<lambda>a. a = ''--pre'' \<or> starts_with a ''--pre='') args
         else if program = ''sort'' then
           has_short args ''kotTS'' (CHR ''o'') \<or> has_long args ''output'' 1 \<or>
           has_long args ''compress-program'' 2
         else if program = ''uniq'' then uniq_has_output args
         else if program = ''tree'' then list_ex (\<lambda>a. is_short_bundle a \<and> has_any a ''oR'') args
         else if program = ''date'' then date_sets_clock args
         else if program = ''file'' then has_short args ''efFmP'' (CHR ''C'') \<or> has_long args ''compile'' 2
         else if program = ''printenv'' then args = []
         else if program = ''xxd'' then xxd_writes args
         else False)"

subsection \<open>sed\<close>

fun skip_delimited :: "char \<Rightarrow> string \<Rightarrow> string" where
  "skip_delimited delim [] = []"
| "skip_delimited delim (c # cs) =
     (if c = BS then skip_delimited delim (drop 1 cs)
      else if c = delim then cs
      else skip_delimited delim cs)"

lemma skip_delimited_length [termination_simp]: "length (skip_delimited d cs) \<le> length cs"
  by (induction d cs rule: skip_delimited.induct) auto

lemma dropWhile_length [termination_simp]: "length (dropWhile P cs) \<le> length cs"
  by (rule length_dropWhile_le)

text \<open>The flags after \<^verbatim>\<open>s///\<close>: \<^const>\<open>None\<close> when one writes or executes.\<close>

fun sed_flags :: "string \<Rightarrow> string option" where
  "sed_flags [] = Some []"
| "sed_flags (flag # cs) =
     (if List.member ''we'' flag then None
      else if \<not> is_ascii_alphanumeric flag then Some (flag # cs)
      else sed_flags cs)"

lemma sed_flags_length: "sed_flags cs = Some r \<Longrightarrow> length r \<le> length cs"
  by (induction cs) (auto split: if_splits)

lemma sed_flags_le [termination_simp]:
  "sed_flags (skip_delimited d (skip_delimited d rest)) = Some r \<Longrightarrow> length r < Suc (Suc (length rest))"
  using sed_flags_length [of "skip_delimited d (skip_delimited d rest)" r]
    skip_delimited_length [of d "skip_delimited d rest"] skip_delimited_length [of d rest] by linarith

lemma skip_twice_le [termination_simp]:
  "length (skip_delimited d (skip_delimited d rest)) < Suc (Suc (length rest))"
  using skip_delimited_length [of d "skip_delimited d rest"] skip_delimited_length [of d rest] by linarith

lemma dropWhile_lt [termination_simp]: "length (dropWhile P rest) < Suc (length rest)"
  using length_dropWhile_le [of P rest] by linarith

fun sed_script_writes :: "string \<Rightarrow> bool" where
  "sed_script_writes [] = False"
| "sed_script_writes (c # cs) =
     (if is_whitespace c \<or> List.member '';{}!'' c then sed_script_writes cs
      else if is_ascii_digit c \<or> List.member ''$,~+'' c then sed_script_writes cs
      else if c = CHR ''/'' then sed_script_writes (skip_delimited (CHR ''/'') cs)
      else if c = BS then
        (case cs of [] \<Rightarrow> False
         | delim # rest \<Rightarrow> sed_script_writes (skip_delimited delim rest))
      else if c = CHR ''#'' then sed_script_writes (dropWhile (\<lambda>d. d \<noteq> NL) cs)
      else if List.member ''wWe'' c then True
      else if c = CHR ''s'' then
        (case cs of [] \<Rightarrow> False
         | delim # rest \<Rightarrow>
             (case sed_flags (skip_delimited delim (skip_delimited delim rest)) of
                None \<Rightarrow> True | Some r \<Rightarrow> sed_script_writes r))
      else if c = CHR ''y'' then
        (case cs of [] \<Rightarrow> False
         | delim # rest \<Rightarrow> sed_script_writes (skip_delimited delim (skip_delimited delim rest)))
      else if List.member ''aicrR'' c then sed_script_writes (dropWhile (\<lambda>d. d \<noteq> NL) cs)
      else if List.member ''btT:'' c then
        sed_script_writes (dropWhile (\<lambda>d. d \<noteq> CHR '';'' \<and> d \<noteq> NL) cs)
      else sed_script_writes cs)"

text \<open>One round of the argument loop of \<^verbatim>\<open>sed_writes\<close>: \<^const>\<open>None\<close> when the option
  already writes, otherwise how many of the following words it takes, and the scripts
  and operands it adds.\<close>

definition sed_bundle :: "string \<Rightarrow> string list \<Rightarrow> (nat \<times> string list \<times> string list) option" where
  "sed_bundle bundle next =
     (if has_any bundle ''if'' then None
      else (case find_index (\<lambda>c. c = CHR ''e'') bundle of
          None \<Rightarrow> Some (if ends_with bundle ''l'' then 1 else 0, [], [])
        | Some at \<Rightarrow>
            if drop (at + 1) bundle = [] then Some (1, next, [])
            else Some (0, [drop (at + 1) bundle], [])))"

definition sed_arg :: "string \<Rightarrow> string list \<Rightarrow> (nat \<times> string list \<times> string list) option" where
  "sed_arg arg args =
     (let next = take 1 args
      in if starts_with arg ''-i'' \<or> starts_with arg ''--in-place'' then None
         else if arg = ''-f'' \<or> arg = ''--file'' \<or> starts_with arg ''--file='' then None
         else if arg = ''-e'' \<or> arg = ''--expression'' then Some (1, next, [])
         else (case strip_prefix arg ''--expression='' of
             Some s \<Rightarrow> Some (0, [s], [])
           | None \<Rightarrow>
               if arg = ''--line-length'' then Some (1, [], [])
               else if is_short_bundle arg then sed_bundle (drop 1 arg) next
               else if \<not> starts_with arg ''--'' then Some (0, [], [arg])
               else Some (0, [], [])))"

fun sed_args ::
  "string list \<Rightarrow> string list \<Rightarrow> string list \<Rightarrow> (string list \<times> string list) option" where
  "sed_args [] scripts ops = Some (scripts, ops)"
| "sed_args (arg # args) scripts ops =
     (case sed_arg arg args of None \<Rightarrow> None
      | Some (n, s, p) \<Rightarrow> sed_args (drop n args) (scripts @ s) (ops @ p))"

definition sed_writes :: "string list \<Rightarrow> bool" where
  "sed_writes args =
     (case sed_args args [] [] of None \<Rightarrow> True
      | Some (scripts, ops) \<Rightarrow>
          list_ex sed_script_writes (if scripts = [] then take 1 ops else scripts))"

subsection \<open>awk\<close>

fun awk_program :: "string list \<Rightarrow> string option" where
  "awk_program [] = None"
| "awk_program (a # args) =
     (if List.member [''-F'', ''-v'', ''--field-separator'', ''--assign''] a
        then awk_program (drop 1 args)
      else if a = ''--'' then first_opt args
      else if starts_with a ''-F'' \<or> starts_with a ''-v'' \<or> starts_with a ''--field-separator='' \<or>
              starts_with a ''--assign='' then awk_program args
      else if starts_with a ''-'' \<and> 1 < length a then None
      else Some a)"

text \<open>The inner loop of \<^verbatim>\<open>awk_code_only\<close>: what follows a literal closed by \<open>c\<close>.\<close>

fun skip_literal :: "char \<Rightarrow> string \<Rightarrow> string" where
  "skip_literal c [] = []"
| "skip_literal c (inner # cs) =
     (if inner = BS then skip_literal c (drop 1 cs)
      else if inner = c then cs
      else skip_literal c cs)"

lemma skip_literal_length [termination_simp]: "length (skip_literal d cs) < Suc (length cs)"
  by (induction d cs rule: skip_literal.induct) auto

fun awk_code :: "char option \<Rightarrow> string \<Rightarrow> string" where
  "awk_code lst [] = []"
| "awk_code lst (c # cs) =
     (let starts_regex = (c = CHR ''/'' \<and>
        (case lst of None \<Rightarrow> True
         | Some p \<Rightarrow> List.member (''(,{;!~&|=:?'' @ [NL] @ ''}'') p))
      in if c = DQ \<or> starts_regex then [DQ, DQ] @ awk_code (Some DQ) (skip_literal c cs)
         else c # awk_code (if \<not> is_whitespace c \<or> c = NL then Some c else lst) cs)"

definition awk_code_only :: "string \<Rightarrow> string" where
  "awk_code_only program = awk_code None program"

definition awk_program_shells_out :: "string \<Rightarrow> bool" where
  "awk_program_shells_out program \<longleftrightarrow>
     (let code = awk_code_only program
      in has_any code ''|@'' \<or> str_contains code ''system'' \<or> str_contains code ''getline'')"

definition awk_shells_out :: "string list \<Rightarrow> bool" where
  "awk_shells_out args =
     (case awk_program args of None \<Rightarrow> True | Some p \<Rightarrow> awk_program_shells_out p)"

text \<open>The scan of one \<^verbatim>\<open>print\<close> statement for an output redirection.\<close>

fun print_redirects :: "int \<Rightarrow> string \<Rightarrow> bool" where
  "print_redirects depth [] = False"
| "print_redirects depth (c # cs) =
     (if c = LPAR then print_redirects (depth + 1) cs
      else if c = RPAR then print_redirects (depth - 1) cs
      else if c = CHR '';'' \<or> c = RBRACE \<or> c = NL then False
      else if c = CHR ''>'' \<and> depth \<le> 0 then True
      else print_redirects depth cs)"

lemma find_str_Some: "find_str s p = Some i \<Longrightarrow> i + length p \<le> length s"
  by (induction s arbitrary: i) (auto simp: starts_with_iff split: if_splits dest: arg_cong [where f = length])

function any_print_redirects :: "string \<Rightarrow> bool" where
  "any_print_redirects code =
     (case find_str code ''print'' of None \<Rightarrow> False
      | Some found \<Rightarrow>
          print_redirects 0 (drop found code) \<or> any_print_redirects (drop (found + 5) code))"
  by pat_completeness auto

termination
  by (relation "measure length") (auto dest: find_str_Some)

declare any_print_redirects.simps [simp del]

definition awk_program_writes :: "string \<Rightarrow> bool" where
  "awk_program_writes program \<longleftrightarrow>
     awk_program_shells_out program \<or> any_print_redirects (awk_code_only program)"

definition awk_writes :: "string list \<Rightarrow> bool" where
  "awk_writes args = (case awk_program args of None \<Rightarrow> True | Some p \<Rightarrow> awk_program_writes p)"

lemma awk_shells_out_writes: "awk_shells_out args \<Longrightarrow> awk_writes args"
  by (auto simp: awk_shells_out_def awk_writes_def awk_program_writes_def split: option.splits)

section \<open>Global options never hide the git subcommand\<close>

datatype git_spelled = GitNext string string | GitEq string string | GitFlag string

primrec git_words :: "git_spelled \<Rightarrow> string list" where
  "git_words (GitNext n v) = [n, v]"
| "git_words (GitEq n v) = [n @ ''='' @ v]"
| "git_words (GitFlag n) = [n]"

primrec git_value :: "git_spelled \<Rightarrow> string \<times> string option" where
  "git_value (GitNext n v) = (n, Some v)"
| "git_value (GitEq n v) = (n, Some v)"
| "git_value (GitFlag n) = (n, None)"

primrec git_known :: "git_spelled \<Rightarrow> bool" where
  "git_known (GitNext n v) \<longleftrightarrow> n \<in> set VALUE_OPTIONS"
| "git_known (GitEq n v) \<longleftrightarrow> n \<in> set VALUE_OPTIONS \<and> starts_with n ''--''"
| "git_known (GitFlag n) \<longleftrightarrow> n \<in> set FLAG_OPTIONS"

lemma git_tables:
  "list_all (\<lambda>n. starts_with n ''-'' \<and> CHR ''='' \<notin> set n) (VALUE_OPTIONS @ FLAG_OPTIONS)"
  "list_all (\<lambda>n. n \<notin> set VALUE_OPTIONS) FLAG_OPTIONS"
  by (simp_all add: VALUE_OPTIONS_def FLAG_OPTIONS_def starts_with_def)

lemma git_parse_one:
  assumes "git_known opt"
  shows "git_parse_from (git_words opt @ ws) gl = git_parse_from ws (gl @ [git_value opt])"
proof (cases opt)
  case (GitNext n v)
  with assms git_tables(1) have "starts_with n ''-''" "split_once n (CHR ''='') = None"
    by (auto simp: list_all_iff split_once_None)
  with assms GitNext show ?thesis by (simp add: first_opt_def)
next
  case (GitEq n v)
  with assms git_tables(1) have "starts_with n ''-''" "CHR ''='' \<notin> set n"
    by (auto simp: list_all_iff)
  then have "starts_with (n @ CHR ''='' # v) ''-''"
    "split_once (n @ CHR ''='' # v) (CHR ''='') = Some (n, v)"
    by (auto simp: starts_with_iff split_once_eq)
  with assms GitEq show ?thesis by simp
next
  case (GitFlag n)
  with assms git_tables have "starts_with n ''-''" "split_once n (CHR ''='') = None" "n \<notin> set VALUE_OPTIONS"
    by (auto simp: list_all_iff split_once_None)
  with assms GitFlag show ?thesis by simp
qed

text \<open>The subcommand of a \<^verbatim>\<open>git\<close> call is found behind any known global options,
  however their values are spelled: a value such as the \<^verbatim>\<open>log\<close> of
  \<^verbatim>\<open>git -C log commit\<close> is never taken for it, and its arguments are exactly the words
  that follow.\<close>

theorem git_parse_roundtrip:
  assumes "list_all git_known os" "\<not> starts_with sub ''-''"
  shows "git_parse (concat (map git_words os) @ sub # args) =
    \<lparr>globals = map git_value os, subcommand = Some sub, git_args = args, git_unknown = None\<rparr>"
proof -
  have "git_parse_from (concat (map git_words os) @ sub # args) gl =
      \<lparr>globals = gl @ map git_value os, subcommand = Some sub, git_args = args, git_unknown = None\<rparr>" for gl
    using assms(1)
  proof (induction os arbitrary: gl)
    case (Cons opt os)
    then show ?case
      using git_parse_one [of opt "concat (map git_words os) @ sub # args" gl] by simp
  qed (simp add: assms(2))
  then show ?thesis by (simp add: git_parse_def)
qed

theorem git_parse_roundtrip_witness:
  "git_parse (concat (map git_words [GitNext ''-C'' ''log'', GitFlag ''--bare'', GitEq ''--git-dir'' ''x=y'']) @
      ''push'' # [''--force'']) =
    \<lparr>globals = map git_value [GitNext ''-C'' ''log'', GitFlag ''--bare'', GitEq ''--git-dir'' ''x=y''],
     subcommand = Some ''push'', git_args = [''--force''], git_unknown = None\<rparr>"
proof (rule git_parse_roundtrip)
  show "list_all git_known [GitNext ''-C'' ''log'', GitFlag ''--bare'', GitEq ''--git-dir'' ''x=y'']"
    by (simp add: VALUE_OPTIONS_def FLAG_OPTIONS_def starts_with_def)
  show "\<not> starts_with ''push'' ''-''" by (simp add: starts_with_def)
qed

end
