(* ===== verification/Risk_Types.thy ===== *)
theory Risk_Types
  imports Prelude
begin

text \<open>
  The vocabulary of \<^verbatim>\<open>crates/pacode-risk/src/lib.rs\<close> and the risk levels of
  \<^verbatim>\<open>crates/pacode-types/src/state.rs\<close>: levels and their order, findings, assessments.
  The derived order of the Rust enum is the order of its variants.
\<close>

datatype risk_level = Safe | Low | Confirm | Catastrophic

primrec level_rank :: "risk_level \<Rightarrow> nat" where
  "level_rank Safe = 0"
| "level_rank Low = 1"
| "level_rank Confirm = 2"
| "level_rank Catastrophic = 3"

lemma level_rank_inject [simp]: "level_rank a = level_rank b \<longleftrightarrow> a = b"
  by (cases a; cases b) simp_all

lemma level_rank_le_3: "level_rank a \<le> 3"
  by (cases a) simp_all

instantiation risk_level :: linorder
begin

definition less_eq_risk_level :: "risk_level \<Rightarrow> risk_level \<Rightarrow> bool" where
  "a \<le> b \<longleftrightarrow> level_rank a \<le> level_rank b"

definition less_risk_level :: "risk_level \<Rightarrow> risk_level \<Rightarrow> bool" where
  "a < b \<longleftrightarrow> level_rank a < level_rank b"

instance
  by standard (auto simp: less_eq_risk_level_def less_risk_level_def)

end

lemma level_le_simps [simp]:
  "Safe \<le> l" "l \<le> Catastrophic" "Low \<le> Low" "Low \<le> Confirm" "Confirm \<le> Confirm"
  "\<not> Low \<le> Safe" "\<not> Confirm \<le> Safe" "\<not> Confirm \<le> Low"
  "\<not> Catastrophic \<le> Safe" "\<not> Catastrophic \<le> Low" "\<not> Catastrophic \<le> Confirm"
  by (cases l; simp add: less_eq_risk_level_def)+

record risk_finding =
  level :: risk_level
  reason :: string
  target :: "string option"

abbreviation finding :: "risk_level \<Rightarrow> string \<Rightarrow> string option \<Rightarrow> risk_finding" where
  "finding l r t \<equiv> \<lparr>level = l, reason = r, target = t\<rparr>"

record risk_assessment =
  a_level :: risk_level
  findings :: "risk_finding list"

definition safe :: risk_assessment where
  "safe = \<lparr>a_level = Safe, findings = []\<rparr>"

text \<open>\<^verbatim>\<open>iter().map(|f| f.level).max().unwrap_or(Safe)\<close>; \<^verbatim>\<open>Iterator::max\<close> keeps the
  greatest element.\<close>

definition max_level :: "risk_level list \<Rightarrow> risk_level" where
  "max_level ls = foldl max Safe ls"

definition from_findings :: "risk_finding list \<Rightarrow> risk_assessment" where
  "from_findings fs = \<lparr>a_level = max_level (map level fs), findings = fs\<rparr>"

text \<open>\<^verbatim>\<open>max_by_key\<close> returns the last of several maximal elements.\<close>

fun max_by_level :: "risk_finding option \<Rightarrow> risk_finding list \<Rightarrow> risk_finding option" where
  "max_by_level best [] = best"
| "max_by_level None (f # fs) = max_by_level (Some f) fs"
| "max_by_level (Some b) (f # fs) =
     max_by_level (Some (if level b \<le> level f then f else b)) fs"

definition summary :: "risk_assessment \<Rightarrow> string option" where
  "summary a = map_option reason (max_by_level None (findings a))"

definition finding_line :: "risk_finding \<Rightarrow> string" where
  "finding_line f =
     ''- '' @ reason f
     @ (case target f of None \<Rightarrow> '''' | Some t \<Rightarrow> '' (target: '' @ t @ '')'')
     @ [NL]"

definition explanation :: "risk_assessment \<Rightarrow> string" where
  "explanation a = concat (map finding_line (findings a))"

definition runs_immediately :: "risk_assessment \<Rightarrow> bool" where
  "runs_immediately a \<longleftrightarrow> a_level a = Safe \<or> a_level a = Low"

definition is_absolute_deny :: "risk_assessment \<Rightarrow> bool" where
  "is_absolute_deny a \<longleftrightarrow> a_level a = Catastrophic"

subsection \<open>Levels of a list of findings\<close>

lemma foldl_max_ge: "acc \<le> foldl max acc (ls :: risk_level list)"
proof (induction ls arbitrary: acc)
  case (Cons l ls)
  have "acc \<le> max acc l" by simp
  also have "\<dots> \<le> foldl max (max acc l) ls" by (rule Cons.IH)
  finally show ?case by simp
qed simp

lemma foldl_max_member: "l \<in> set ls \<Longrightarrow> l \<le> foldl max acc (ls :: risk_level list)"
proof (induction ls arbitrary: acc)
  case (Cons x ls)
  show ?case
  proof (cases "l = x")
    case True
    have "x \<le> max acc x" by simp
    also have "\<dots> \<le> foldl max (max acc x) ls" by (rule foldl_max_ge)
    finally show ?thesis using True by simp
  next
    case False
    with Cons show ?thesis by simp
  qed
qed simp

lemma foldl_max_cases: "foldl max acc (ls :: risk_level list) = acc \<or> foldl max acc ls \<in> set ls"
proof (induction ls arbitrary: acc)
  case (Cons x ls)
  from Cons [of "max acc x"] show ?case by (auto simp: max_def split: if_splits)
qed simp

lemma max_level_ge: "l \<in> set ls \<Longrightarrow> l \<le> max_level ls"
  by (simp add: max_level_def foldl_max_member)

lemma max_level_mem: "max_level ls \<noteq> Safe \<Longrightarrow> max_level ls \<in> set ls"
  using foldl_max_cases [of Safe ls] by (simp add: max_level_def)

lemma max_level_Nil [simp]: "max_level [] = Safe"
  by (simp add: max_level_def)

lemma max_level_eq: "max_level ls = Max (insert Safe (set ls))"
proof (rule Max_eqI [symmetric])
  show "max_level ls \<in> insert Safe (set ls)"
    using max_level_mem [of ls] by (cases "max_level ls = Safe") auto
qed (auto intro: max_level_ge)

lemma max_level_append [simp]: "max_level (xs @ ys) = max (max_level xs) (max_level ys)"
proof -
  have "insert Safe (set (xs @ ys)) = insert Safe (set xs) \<union> insert Safe (set ys)" by auto
  then show ?thesis unfolding max_level_eq
    by (simp only: Max_Un finite_insert finite_set insert_not_empty not_False_eq_True)
qed

lemma max_level_le_iff: "max_level ls \<le> b \<longleftrightarrow> (\<forall>l \<in> set ls. l \<le> b)"
  by (simp add: max_level_eq)

lemma a_level_from_findings [simp]: "a_level (from_findings fs) = max_level (map level fs)"
  by (simp add: from_findings_def)

lemma findings_from_findings [simp]: "findings (from_findings fs) = fs"
  by (simp add: from_findings_def)

lemma max_by_level_ge:
  "max_by_level b fs = Some r \<Longrightarrow> (\<forall>x. b = Some x \<longrightarrow> level x \<le> level r) \<and> (\<forall>f \<in> set fs. level f \<le> level r)
     \<and> (b = Some r \<or> r \<in> set fs)"
proof (induction b fs arbitrary: r rule: max_by_level.induct)
  case (3 b f fs)
  from "3.IH" [of r] "3.prems" show ?case by (auto split: if_splits intro: order_trans)
qed auto

lemma max_by_level_Some: "max_by_level b fs = None \<longleftrightarrow> b = None \<and> fs = []"
  by (induction b fs rule: max_by_level.induct) auto

end
