(* ===== verification/Paths.thy ===== *)
theory Paths
  imports Risk_Types
begin

text \<open>
  \<^verbatim>\<open>crates/pacode-risk/src/paths.rs\<close>: protected paths and the classification of one
  target by blast radius.  A \<^verbatim>\<open>Path\<close> is its string; \<^verbatim>\<open>std::path\<close> compares, joins and
  splits paths by their components, which the first section models (Unix rules).
  \<^verbatim>\<open>$TMPDIR\<close> is read by \<open>is_temp_path\<close>, so the environment is a parameter there.
\<close>

section \<open>Paths of the standard library\<close>

type_synonym path = string

datatype component = RootDir | CurDir | ParentDir | Normal string

definition is_absolute :: "path \<Rightarrow> bool" where
  "is_absolute p \<longleftrightarrow> starts_with p ''/''"

definition named :: "string \<Rightarrow> component" where
  "named s = (if s = ''..'' then ParentDir else Normal s)"

definition path_parts :: "path \<Rightarrow> string list" where
  "path_parts p = filter (\<lambda>s. s \<noteq> '''') (split_on (CHR ''/'') p)"

abbreviation named_parts :: "string list \<Rightarrow> component list" where
  "named_parts ps \<equiv> map named (filter (\<lambda>s. s \<noteq> ''.'') ps)"

text \<open>\<^verbatim>\<open>Path::components\<close>: repeated separators and inner \<^verbatim>\<open>.\<close> disappear; a leading
  \<^verbatim>\<open>.\<close> of a relative path stays.\<close>

definition components :: "path \<Rightarrow> component list" where
  "components p =
     (if is_absolute p then RootDir # named_parts (path_parts p)
      else (case path_parts p of [] \<Rightarrow> []
            | s # ss \<Rightarrow> if s = ''.'' then CurDir # named_parts ss else named_parts (s # ss)))"

primrec comp_str :: "component \<Rightarrow> string" where
  "comp_str RootDir = ''/''"
| "comp_str CurDir = ''.''"
| "comp_str ParentDir = ''..''"
| "comp_str (Normal s) = s"

definition render :: "component list \<Rightarrow> path" where
  "render cs =
     (case cs of RootDir # r \<Rightarrow> ''/'' @ join_with ''/'' (map comp_str r)
      | _ \<Rightarrow> join_with ''/'' (map comp_str cs))"

definition path_eq :: "path \<Rightarrow> path \<Rightarrow> bool" where
  "path_eq p q \<longleftrightarrow> components p = components q"

definition path_starts_with :: "path \<Rightarrow> path \<Rightarrow> bool" where
  "path_starts_with p q \<longleftrightarrow> starts_with (components p) (components q)"

definition path_join :: "path \<Rightarrow> path \<Rightarrow> path" where
  "path_join p q =
     (if is_absolute q \<or> p = '''' then q
      else if ends_with p ''/'' then p @ q else p @ ''/'' @ q)"

text \<open>\<^verbatim>\<open>Path::parent\<close>, up to redundant separators, which no caller observes.\<close>

definition path_parent :: "path \<Rightarrow> path option" where
  "path_parent p =
     (let cs = components p
      in if cs = [] \<or> last cs = RootDir then None else Some (render (butlast cs)))"

definition file_name :: "path \<Rightarrow> string option" where
  "file_name p =
     (case last_opt (components p) of Some (Normal s) \<Rightarrow> Some s | _ \<Rightarrow> None)"

section \<open>The policy\<close>

definition PROTECTED_CREDENTIAL_SUBPATHS :: "string list" where
  "PROTECTED_CREDENTIAL_SUBPATHS = [''.ssh'', ''.gnupg'', ''.aws'', ''.kube'', ''.docker'']"

definition PROTECTED_STARTUP_FILES :: "string list" where
  "PROTECTED_STARTUP_FILES =
     [''.bashrc'', ''.bash_profile'', ''.bash_login'', ''.bash_logout'', ''.bash_aliases'',
      ''.profile'', ''.zshrc'', ''.zshenv'', ''.zprofile'', ''.zlogin'', ''.zlogout'', ''.kshrc'',
      ''.cshrc'', ''.tcshrc'', ''.login'', ''.logout'', ''.inputrc'']"

definition PROTECTED_HOME_SUBPATHS :: "string list" where
  "PROTECTED_HOME_SUBPATHS =
     [''.config'', ''.local'', ''.local/share'', ''.jcode'', ''.claude'', ''.pacode'',
      ''Documents'', ''Desktop'']"

definition PROTECTED_SYSTEM_PATHS :: "string list" where
  "PROTECTED_SYSTEM_PATHS =
     [''/'', ''/bin'', ''/boot'', ''/dev'', ''/etc'', ''/lib'', ''/lib64'', ''/opt'', ''/proc'',
      ''/root'', ''/sbin'', ''/srv'', ''/sys'', ''/usr'', ''/var'', ''/Applications'', ''/System'',
      ''/Library'', ''/Users'', ''/home'']"

definition SYSTEM_PATHS_PROTECTED_RECURSIVELY :: "string list" where
  "SYSTEM_PATHS_PROTECTED_RECURSIVELY =
     [''/bin'', ''/boot'', ''/dev'', ''/etc'', ''/lib'', ''/lib64'', ''/proc'', ''/root'',
      ''/sbin'', ''/sys'', ''/usr'', ''/var/lib'', ''/System'', ''/Library'']"

definition is_credential_file_name :: "string \<Rightarrow> bool" where
  "is_credential_file_name name =
     (let lower = to_ascii_lowercase name
      in List.member [''.env'', ''credentials.json'', ''client_secret.json'',
           ''service-account.json'', ''service_account.json'', ''id_rsa'', ''id_ed25519'',
           ''id_ecdsa'', ''id_dsa''] lower
         \<or> starts_with lower ''.env.'' \<or> ends_with lower ''.env''
         \<or> starts_with lower ''id_rsa'' \<or> starts_with lower ''id_ed25519''
         \<or> starts_with lower ''id_ecdsa'' \<or> starts_with lower ''id_dsa''
         \<or> ends_with lower ''.pem'' \<or> ends_with lower ''.key''
         \<or> ends_with lower ''.p12'' \<or> ends_with lower ''.pfx''
         \<or> (ends_with lower ''.json''
             \<and> (str_contains lower ''credentials'' \<or> str_contains lower ''client_secret''
                 \<or> str_contains lower ''service_account'' \<or> str_contains lower ''service-account'')))"

definition is_credential_file :: "path \<Rightarrow> bool" where
  "is_credential_file p =
     (case file_name p of Some n \<Rightarrow> is_credential_file_name n | None \<Rightarrow> False)"

text \<open>\<^verbatim>\<open>normalize\<close>: the \<^verbatim>\<open>PathBuf\<close> being built is its component list; \<open>pop_comp\<close> is
  \<^verbatim>\<open>PathBuf::pop\<close>.\<close>

definition pop_comp :: "component list \<Rightarrow> component list" where
  "pop_comp out = (if out \<noteq> [] \<and> last out \<noteq> RootDir then butlast out else out)"

fun norm_step :: "component list \<Rightarrow> component \<Rightarrow> component list" where
  "norm_step out ParentDir = pop_comp out"
| "norm_step out CurDir = out"
| "norm_step out RootDir = [RootDir]"
| "norm_step out (Normal s) = out @ [Normal s]"

definition normalize :: "path \<Rightarrow> path" where
  "normalize p =
     (let out = foldl norm_step [] (components p) in if out = [] then ''/'' else render out)"

definition expand :: "string \<Rightarrow> path \<Rightarrow> path \<Rightarrow> path" where
  "expand raw cwd home =
     (let text =
        (if home \<noteq> '''' then
           (let text = replace_all (replace_all raw ''${HOME}'' home) ''$HOME'' home
            in if text = ''~'' then home
               else (case strip_prefix text ''~/'' of
                       Some rest \<Rightarrow> home @ ''/'' @ rest | None \<Rightarrow> text))
         else raw)
      in if is_absolute text then normalize text
         else if cwd \<noteq> '''' then normalize (path_join cwd text) else text)"

definition is_catastrophic_target :: "path \<Rightarrow> path \<Rightarrow> bool" where
  "is_catastrophic_target p home =
     (let path = normalize p
      in list_ex (path_eq path) PROTECTED_SYSTEM_PATHS
         \<or> list_ex (path_starts_with path) SYSTEM_PATHS_PROTECTED_RECURSIVELY
         \<or> is_credential_file path
         \<or> (home \<noteq> '''' \<and>
             (let home = normalize home
              in path_eq path home
                 \<or> list_ex (\<lambda>sub. path_starts_with path (path_join home sub))
                     PROTECTED_CREDENTIAL_SUBPATHS
                 \<or> list_ex (\<lambda>sub. path_eq path (path_join home sub)) PROTECTED_HOME_SUBPATHS
                 \<or> ((case path_parent path of Some q \<Rightarrow> path_eq q home | None \<Rightarrow> False)
                     \<and> (case file_name path of Some n \<Rightarrow> List.member PROTECTED_STARTUP_FILES n
                         | None \<Rightarrow> False)))))"

definition is_temp_path :: "string option \<Rightarrow> path \<Rightarrow> bool" where
  "is_temp_path tmpdir p \<longleftrightarrow>
     list_ex (path_starts_with p) [''/tmp'', ''/var/tmp'', ''/private/tmp'']
     \<or> (case tmpdir of Some d \<Rightarrow> d \<noteq> '''' \<and> path_starts_with p d | None \<Rightarrow> False)"

definition is_safe_redirect_sink :: "string \<Rightarrow> bool" where
  "is_safe_redirect_sink raw =
     List.member [''/dev/null'', ''/dev/stdout'', ''/dev/stderr'', ''NUL''] raw"

text \<open>\<^verbatim>\<open>classify_target\<close>, branch by branch in the order of the source.\<close>

definition classify_target ::
  "string option \<Rightarrow> string \<Rightarrow> bool \<Rightarrow> path \<Rightarrow> path \<Rightarrow> bool \<Rightarrow> risk_finding option" where
  "classify_target tmpdir raw recursive cwd home is_redirect =
     (let expanded = expand raw cwd home;
          inside_cwd = path_starts_with expanded (normalize cwd)
      in if has_any raw ''*?'' then
           (if (case path_parent expanded of
                  Some parent \<Rightarrow> is_catastrophic_target parent home \<and> file_name expanded = Some ''*''
                | None \<Rightarrow> False)
            then Some (finding Catastrophic
                   ''would destroy the entire contents of a protected directory'' (Some raw))
            else if (case path_parent expanded of
                  Some parent \<Rightarrow> \<not> has_any parent ''*?''
                    \<and> (path_starts_with parent (normalize cwd) \<or> is_temp_path tmpdir parent)
                | None \<Rightarrow> False)
            then Some (finding Low
                   ''glob is bounded to the working or temporary directory'' (Some raw))
            else Some (finding Confirm
                   (''target contains an unquoted glob outside cwd, so the exact set of ''
                     @ ''affected files is not known before execution'') (Some raw)))
         else if is_catastrophic_target expanded home then
           Some (finding Catastrophic
             (''targets a protected system, home, or credentials path that must never ''
               @ ''be destroyed'') (Some expanded))
         else if has_any raw [DOLLAR, BT] then
           Some (finding Confirm
             (''target is computed at runtime (variable or command substitution), so ''
               @ ''its value cannot be checked in advance'') (Some raw))
         else if path_starts_with expanded ''/dev'' \<and> \<not> is_safe_redirect_sink raw then
           Some (finding Catastrophic
             ''writes directly to a device node, which can destroy a filesystem or disk''
             (Some expanded))
         else if str_contains raw ''..'' \<and> \<not> inside_cwd then
           Some (finding Confirm
             (''relative path containing '' @ [SQ] @ ''..'' @ [SQ] @ '' leaves the working directory'')
             (Some raw))
         else if inside_cwd then
           Some (finding Low
             (if recursive then ''recursive delete inside the working directory''
              else ''delete inside the working directory'') (Some expanded))
         else if is_temp_path tmpdir expanded then
           (if is_redirect then None
            else Some (finding Low ''destructive operation in temporary directory''
                   (Some expanded)))
         else Some (finding Low
             (''destructive operation targets a concrete path outside the working ''
               @ ''directory'') (Some expanded)))"

section \<open>Canonical form of normalised paths\<close>

definition valid_name :: "string \<Rightarrow> bool" where
  "valid_name s \<longleftrightarrow> s \<noteq> '''' \<and> s \<noteq> ''.'' \<and> s \<noteq> ''..'' \<and> CHR ''/'' \<notin> set s"

definition norm_form :: "component list \<Rightarrow> bool" where
  "norm_form cs \<longleftrightarrow>
     (\<exists>ns. list_all valid_name ns \<and> (cs = map Normal ns \<or> cs = RootDir # map Normal ns))"

definition norm_comps :: "path \<Rightarrow> component list" where
  "norm_comps p = foldl norm_step [] (components p)"

definition root_if_empty :: "component list \<Rightarrow> component list" where
  "root_if_empty cs = (if cs = [] then [RootDir] else cs)"

lemma split_on_append_sep: "split_on c (a @ c # b) = split_on c a @ split_on c b"
  by (induction a) (auto split: list.splits)

lemma path_parts_sep [simp]: "path_parts (a @ CHR ''/'' # b) = path_parts a @ path_parts b"
  by (simp add: path_parts_def split_on_append_sep)

lemma path_parts_Nil: "path_parts [] = []"
  by (simp add: path_parts_def)

lemma path_parts_ok: "s \<in> set (path_parts p) \<Longrightarrow> s \<noteq> '''' \<and> CHR ''/'' \<notin> set s"
  by (auto simp: path_parts_def dest: split_on_no_sep)

lemma path_parts_name: "s \<noteq> '''' \<Longrightarrow> CHR ''/'' \<notin> set s \<Longrightarrow> path_parts s = [s]"
  by (simp add: path_parts_def split_on_absent)

text \<open>\<open>CurDir\<close> is skipped, so absolute and relative paths normalise the same way.\<close>

lemma norm_comps_eq:
  "norm_comps p =
     foldl norm_step (if is_absolute p then [RootDir] else []) (named_parts (path_parts p))"
  by (auto simp: norm_comps_def components_def split: list.split)

lemma norm_formE:
  assumes "norm_form cs"
  obtains ns where "list_all valid_name ns" "cs = map Normal ns"
  | ns where "list_all valid_name ns" "cs = RootDir # map Normal ns"
  using assms by (auto simp: norm_form_def)

lemma norm_form_rel [intro]: "list_all valid_name ns \<Longrightarrow> norm_form (map Normal ns)"
  by (auto simp: norm_form_def)

lemma norm_form_abs [intro]: "list_all valid_name ns \<Longrightarrow> norm_form (RootDir # map Normal ns)"
  by (auto simp: norm_form_def)

lemma list_all_butlast: "list_all P ns \<Longrightarrow> list_all P (butlast ns)"
  by (auto simp: list_all_iff dest: in_set_butlastD)

lemma norm_form_pop: "norm_form cs \<Longrightarrow> norm_form (pop_comp cs)"
proof (erule norm_formE)
  fix ns assume ns: "list_all valid_name ns" "cs = map Normal ns"
  then show ?thesis
    using norm_form_rel [OF list_all_butlast [OF ns(1)]] norm_form_rel [OF ns(1)]
    by (simp add: pop_comp_def map_butlast)
next
  fix ns assume ns: "list_all valid_name ns" "cs = RootDir # map Normal ns"
  then show ?thesis
    using norm_form_abs [OF list_all_butlast [OF ns(1)]] norm_form_abs [OF ns(1)]
    by (simp add: pop_comp_def map_butlast)
qed

lemma norm_form_snoc: "norm_form cs \<Longrightarrow> valid_name s \<Longrightarrow> norm_form (cs @ [Normal s])"
proof (erule norm_formE)
  fix ns assume "valid_name s" "list_all valid_name ns" "cs = map Normal ns"
  then show ?thesis using norm_form_rel [of "ns @ [s]"] by simp
next
  fix ns assume "valid_name s" "list_all valid_name ns" "cs = RootDir # map Normal ns"
  then show ?thesis using norm_form_abs [of "ns @ [s]"] by simp
qed

lemma norm_form_fold:
  "norm_form out \<Longrightarrow> \<forall>s \<in> set ps. s \<noteq> '''' \<and> CHR ''/'' \<notin> set s \<Longrightarrow>
     norm_form (foldl norm_step out (named_parts ps))"
proof (induction ps arbitrary: out)
  case (Cons s ps)
  have "norm_form (norm_step out (named s))" if "s \<noteq> ''.''"
    using Cons.prems that
    by (auto simp: named_def valid_name_def intro: norm_form_pop norm_form_snoc)
  with Cons show ?case by simp
qed simp

lemma norm_form_norm_comps: "norm_form (norm_comps p)"
  unfolding norm_comps_eq
  using norm_form_rel [of "[]"] norm_form_abs [of "[]"]
  by (intro norm_form_fold) (auto simp: path_parts_ok)

lemma path_parts_join:
  assumes "list_all valid_name ns"
  shows "path_parts (join_with ''/'' ns) = ns"
proof (cases "ns = []")
  case False
  with assms have "split_on (CHR ''/'') (join_with ''/'' ns) = ns"
    by (intro split_join) (auto simp: list_all_iff valid_name_def)
  then show ?thesis using assms
    by (simp add: path_parts_def list_all_iff valid_name_def)
qed (simp add: path_parts_def)

lemma named_parts_valid: "list_all valid_name ns \<Longrightarrow> named_parts ns = map Normal ns"
  by (induction ns) (auto simp: valid_name_def named_def)

lemma join_with_head: "list_all valid_name ns \<Longrightarrow> \<not> is_absolute (join_with ''/'' ns)"
proof (cases ns)
  case (Cons n ns')
  assume "list_all valid_name ns"
  with Cons show ?thesis
    by (cases n; cases ns') (auto simp: is_absolute_def starts_with_def valid_name_def)
qed (simp add: is_absolute_def starts_with_def)

lemma comp_str_Normal: "map comp_str (map Normal ns) = ns"
  by (induction ns) auto

lemma components_render: "norm_form cs \<Longrightarrow> components (render cs) = cs"
proof (erule norm_formE)
  fix ns assume ns: "list_all valid_name ns" and cs: "cs = map Normal ns"
  have r: "render cs = join_with ''/'' ns"
    using cs comp_str_Normal [of ns] by (cases ns) (auto simp: render_def)
  show ?thesis
    unfolding r components_def using ns cs join_with_head [OF ns]
    by (cases ns) (auto simp: path_parts_join path_parts_Nil named_parts_valid named_def valid_name_def)
next
  fix ns assume ns: "list_all valid_name ns" and cs: "cs = RootDir # map Normal ns"
  have r: "render cs = CHR ''/'' # join_with ''/'' ns"
    using cs comp_str_Normal [of ns] by (simp add: render_def)
  have "path_parts (CHR ''/'' # join_with ''/'' ns) = ns"
    using path_parts_sep [of "[]" "join_with ''/'' ns"] path_parts_join [OF ns]
    by (simp add: path_parts_def)
  then show ?thesis
    unfolding r components_def using ns cs
    by (simp add: is_absolute_def starts_with_def named_parts_valid)
qed

lemma foldl_norm_Normal: "foldl norm_step out (map Normal ns) = out @ map Normal ns"
  by (induction ns arbitrary: out) auto

lemma norm_form_fixed: "norm_form cs \<Longrightarrow> foldl norm_step [] cs = cs"
  by (erule norm_formE) (auto simp: foldl_norm_Normal)

lemma norm_form_root_if_empty: "norm_form cs \<Longrightarrow> norm_form (root_if_empty cs)"
  using norm_form_abs [of "[]"] by (simp add: root_if_empty_def)

lemma normalize_render: "normalize p = render (root_if_empty (norm_comps p))"
  by (simp add: normalize_def norm_comps_def root_if_empty_def Let_def) (simp add: render_def)

lemma components_normalize [simp]: "components (normalize p) = root_if_empty (norm_comps p)"
  by (simp add: normalize_render components_render norm_form_root_if_empty norm_form_norm_comps)

lemma norm_comps_normalize [simp]: "norm_comps (normalize p) = root_if_empty (norm_comps p)"
  using norm_form_fixed [OF norm_form_root_if_empty [OF norm_form_norm_comps]]
  by (simp add: norm_comps_def [of "normalize p"])

lemma normalize_cong: "norm_comps p = norm_comps q \<Longrightarrow> normalize p = normalize q"
  by (simp add: normalize_render)

lemma root_if_empty_idem [simp]: "root_if_empty (root_if_empty cs) = root_if_empty cs"
  by (simp add: root_if_empty_def)

lemma normalize_idem [simp]: "normalize (normalize p) = normalize p"
proof -
  have "normalize (normalize p) = render (root_if_empty (norm_comps (normalize p)))"
    by (rule normalize_render)
  also have "\<dots> = normalize p"
    by (simp only: norm_comps_normalize root_if_empty_idem normalize_render [of p, symmetric])
  finally show ?thesis .
qed

lemma is_catastrophic_target_cong:
  "norm_comps p = norm_comps q \<Longrightarrow> is_catastrophic_target p home = is_catastrophic_target q home"
  by (drule normalize_cong) (simp add: is_catastrophic_target_def)

section \<open>Properties\<close>

text \<open>A normalised path is canonical. It is its own normal form and none of its
  components is \<^verbatim>\<open>.\<close> or \<^verbatim>\<open>..\<close>, so the prefix tests of the policy cannot be
  escaped by climbing out of a directory.\<close>

theorem normalize_canonical:
  "normalize (normalize p) = normalize p \<and>
   CurDir \<notin> set (components (normalize p)) \<and> ParentDir \<notin> set (components (normalize p))"
proof -
  have "norm_form (components (normalize p))"
    by (simp add: norm_form_root_if_empty norm_form_norm_comps)
  then have "CurDir \<notin> set (components (normalize p)) \<and> ParentDir \<notin> set (components (normalize p))"
    by (rule norm_formE) auto
  then show ?thesis by simp
qed

lemma is_absolute_append [simp]: "a \<noteq> '''' \<Longrightarrow> is_absolute (a @ b) = is_absolute a"
  by (cases a) (auto simp: is_absolute_def starts_with_def)

lemma norm_comps_detour:
  assumes a: "a \<noteq> ''''" and x: "valid_name x"
  shows "norm_comps (a @ CHR ''/'' # x @ ''/../'' @ b) = norm_comps (a @ CHR ''/'' # b)"
proof -
  have x': "path_parts x = [x]" "x \<noteq> ''.''" "named x = Normal x" "named ''..'' = ParentDir"
    using x by (auto simp: valid_name_def path_parts_name named_def)
  have parts: "path_parts (a @ CHR ''/'' # x @ ''/../'' @ b) = path_parts a @ [x, ''..''] @ path_parts b"
    using path_parts_sep [of a "x @ ''/../'' @ b"] path_parts_sep [of x "''../'' @ b"]
      path_parts_sep [of "''..''" b] path_parts_name [of "''..''"] x'(1)
    by simp
  show ?thesis
    unfolding norm_comps_eq parts using a x'
    by (simp add: pop_comp_def)
qed

text \<open>How a path is spelled does not change the verdict.  A detour through any
  sub-directory and back (\<^verbatim>\<open>a/x/../b\<close>), a repeated separator (\<^verbatim>\<open>a//b\<close>) or a
  \<^verbatim>\<open>.\<close> component (\<^verbatim>\<open>a/./b\<close>) leaves \<open>is_catastrophic_target\<close> as for \<^verbatim>\<open>a/b\<close>.\<close>

theorem catastrophic_respelling:
  assumes "a \<noteq> ''''" and "valid_name x"
  shows "is_catastrophic_target (a @ ''/'' @ x @ ''/../'' @ b) home = is_catastrophic_target (a @ ''/'' @ b) home
    \<and> is_catastrophic_target (a @ ''//'' @ b) home = is_catastrophic_target (a @ ''/'' @ b) home
    \<and> is_catastrophic_target (a @ ''/./'' @ b) home = is_catastrophic_target (a @ ''/'' @ b) home"
proof -
  have slash: "norm_comps (a @ ''//'' @ b) = norm_comps (a @ CHR ''/'' # b)"
    using assms(1) path_parts_sep [of a "CHR ''/'' # b"] path_parts_sep [of "[]" b]
    by (simp add: norm_comps_eq) (simp add: path_parts_def)
  have dot: "norm_comps (a @ ''/./'' @ b) = norm_comps (a @ CHR ''/'' # b)"
    using assms(1) path_parts_sep [of a "''./'' @ b"] path_parts_sep [of "''.''" b]
      path_parts_name [of "''.''"]
    by (simp add: norm_comps_eq)
  show ?thesis
    using is_catastrophic_target_cong [OF norm_comps_detour [OF assms, of b]]
      is_catastrophic_target_cong [OF slash] is_catastrophic_target_cong [OF dot]
    by simp
qed

theorem catastrophic_respelling_witness:
  "is_catastrophic_target (''/home/u'' @ ''/'' @ ''proj'' @ ''/../'' @ ''.ssh'') ''/home/u''
     = is_catastrophic_target (''/home/u'' @ ''/'' @ ''.ssh'') ''/home/u''"
  using catastrophic_respelling [of "''/home/u''" "''proj''" "''.ssh''" "''/home/u''"]
  by (simp add: valid_name_def)

text \<open>What a \<open>None\<close> or \<open>Low\<close> verdict on a target without wildcards guarantees.
  The expanded path is not protected, nothing in the operand is computed at run time,
  the path is not a device node, and an operand with \<^verbatim>\<open>..\<close> stays inside the working
  directory.  Only a redirection into a temporary directory yields no finding at all.\<close>

theorem classify_target_low_sound:
  assumes "\<not> has_any raw ''*?''"
    and "case classify_target tmpdir raw recursive cwd home is_redirect of
           None \<Rightarrow> True | Some f \<Rightarrow> level f < Confirm"
  shows "\<not> is_catastrophic_target (expand raw cwd home) home \<and> \<not> has_any raw [DOLLAR, BT]
    \<and> (path_starts_with (expand raw cwd home) ''/dev'' \<longrightarrow> is_safe_redirect_sink raw)
    \<and> (str_contains raw ''..'' \<longrightarrow> path_starts_with (expand raw cwd home) (normalize cwd))
    \<and> (classify_target tmpdir raw recursive cwd home is_redirect = None \<longrightarrow>
         is_redirect \<and> is_temp_path tmpdir (expand raw cwd home))"
  using assms unfolding classify_target_def Let_def
  by (simp add: less_risk_level_def split: if_splits)

theorem classify_target_low_sound_witness:
  "\<not> is_catastrophic_target (expand ''build/out.o'' ''/home/u/p'' ''/home/u'') ''/home/u''
    \<and> \<not> has_any ''build/out.o'' [DOLLAR, BT]"
proof -
  have 1: "\<not> has_any ''build/out.o'' ''*?''" by code_simp
  have 2: "case classify_target None ''build/out.o'' False ''/home/u/p'' ''/home/u'' False of
             None \<Rightarrow> True | Some f \<Rightarrow> level f < Confirm"
    by code_simp
  show ?thesis using classify_target_low_sound [OF 1 2] by blast
qed

lemma replace_from_absent: "set p \<inter> - set s \<noteq> {} \<Longrightarrow> k = 0 \<Longrightarrow> replace_from k s p r = s"
proof (induction k s p r rule: replace_from.induct)
  case (3 x s p r)
  have "set p \<subseteq> set (x # s)" if "starts_with (x # s) p"
    using that unfolding starts_with_iff by (metis Un_upper1 set_append)
  with "3.prems"(1) have "\<not> starts_with (x # s) p" by blast
  with 3 show ?case by auto
qed auto

lemma replace_all_absent: "c \<in> set p \<Longrightarrow> c \<notin> set s \<Longrightarrow> replace_all s p r = s"
  unfolding replace_all_def by (rule replace_from_absent) auto

lemma expand_absolute:
  "is_absolute raw \<Longrightarrow> DOLLAR \<notin> set raw \<Longrightarrow> expand raw cwd home = normalize raw"
  by (cases raw)
     (auto simp: expand_def is_absolute_def starts_with_def strip_prefix_def Let_def
       replace_all_absent [of DOLLAR])

lemma foldl_norm_named:
  "''..'' \<notin> set ps \<Longrightarrow> foldl norm_step out (named_parts ps) = out @ map Normal (filter (\<lambda>s. s \<noteq> ''.'') ps)"
  by (induction ps arbitrary: out) (auto simp: named_def)

lemma SYSTEM_PATHS_absolute:
  "p \<in> set SYSTEM_PATHS_PROTECTED_RECURSIVELY \<Longrightarrow>
     is_absolute p \<and> DOLLAR \<notin> set p \<and> \<not> has_any p ''*?'' \<and> ''..'' \<notin> set (path_parts p)"
  unfolding SYSTEM_PATHS_PROTECTED_RECURSIVELY_def
  by (simp only: set_simps insert_iff empty_iff) (elim disjE; simp; code_simp)

text \<open>Everything at or below a recursively protected system directory is out of reach.
  For each such directory and every operand below it that is written without wildcards,
  variables or \<^verbatim>\<open>..\<close>, the verdict is \<open>Catastrophic\<close>, whatever the working directory,
  the home directory and the environment are.\<close>

theorem system_paths_catastrophic:
  assumes p: "p \<in> set SYSTEM_PATHS_PROTECTED_RECURSIVELY"
    and rest: "\<not> has_any rest ''*?''" "DOLLAR \<notin> set rest" "''..'' \<notin> set (path_parts rest)"
  shows "\<exists>f. classify_target tmpdir (p @ ''/'' @ rest) recursive cwd home is_redirect = Some f
    \<and> level f = Catastrophic"
proof -
  let ?raw = "p @ ''/'' @ rest"
  note abs = SYSTEM_PATHS_absolute [OF p]
  then have pne: "p \<noteq> ''''" by (auto simp: is_absolute_def starts_with_def)
  have glob: "\<not> has_any ?raw ''*?''"
    using abs rest(1) by (auto simp: has_any_def)
  have exp: "expand ?raw cwd home = normalize ?raw"
    using abs rest(2) pne by (intro expand_absolute) auto
  have "norm_comps ?raw = norm_comps p @ map Normal (filter (\<lambda>s. s \<noteq> ''.'') (path_parts rest))"
    using abs rest(3) pne by (simp add: norm_comps_eq foldl_norm_named)
  moreover have "norm_comps p = components p"
    using p abs by (simp add: norm_comps_eq foldl_norm_named components_def)
      (auto simp: named_def)
  moreover have "norm_comps ?raw \<noteq> []"
    using calculation abs by (simp add: components_def)
  ultimately have "path_starts_with (normalize ?raw) p"
    by (simp add: path_starts_with_def root_if_empty_def)
  then have "is_catastrophic_target (expand ?raw cwd home) home"
    using p exp by (auto simp: is_catastrophic_target_def Let_def list_ex_iff)
  with glob show ?thesis by (simp add: classify_target_def Let_def)
qed

theorem system_paths_catastrophic_witness:
  "\<exists>f. classify_target None (''/etc'' @ ''/'' @ ''passwd'') True ''/work'' ''/home/u'' False = Some f
    \<and> level f = Catastrophic"
  by (rule system_paths_catastrophic) code_simp+

end
