(* ===== verification/Readonly.thy ===== *)
theory Readonly
  imports Writers Paths
begin

text \<open>
  \<^verbatim>\<open>crates/pacode-risk/src/readonly.rs\<close> (the Plan-mode allowlist) and
  \<^verbatim>\<open>crates/pacode-risk/src/pure.rs\<close> (commands that may run side by side).  Both judge
  the list of commands that \<^const>\<open>parse\<close> finds; the locale \<open>line_check\<close> states once what
  such a judgement promises about a line, and is interpreted for both.
\<close>

section \<open>Protected reads\<close>

definition READONLY_COMMANDS :: "string list" where
  "READONLY_COMMANDS =
     [''ls'', ''cat'', ''head'', ''tail'', ''wc'', ''grep'', ''egrep'', ''fgrep'', ''rg'',
      ''fd'', ''tree'', ''pwd'', ''echo'', ''printf'', ''which'', ''type'', ''printenv'',
      ''stat'', ''file'', ''du'', ''df'', ''date'', ''uname'', ''whoami'', ''id'', ''ps'',
      ''jq'', ''sort'', ''uniq'', ''cut'', ''diff'', ''md5sum'', ''sha256sum'', ''tr'',
      ''rev'', ''nl'', ''tac'', ''fold'', ''comm'', ''join'', ''paste'', ''cmp'',
      ''column'', ''od'', ''hexdump'', ''xxd'', ''strings'', ''base64'', ''seq'', ''fmt'',
      ''sha1sum'', ''sha224sum'', ''sha384sum'', ''sha512sum'', ''b2sum'', ''cksum'',
      ''sum'', ''true'', ''false'', ''test'', ''['', ''dirname'', ''basename'',
      ''realpath'', ''readlink'']"

definition READ_WRAPPERS :: "string list" where
  "READ_WRAPPERS =
     [''env'', ''nice'', ''ionice'', ''time'', ''timeout'', ''nohup'', ''command'',
      ''builtin'', ''exec'', ''xargs'', ''stdbuf'', ''setsid'']"

definition SYSTEM_SECRET_FILES :: "string list" where
  "SYSTEM_SECRET_FILES =
     [''/etc/shadow'', ''/etc/gshadow'', ''/etc/master.passwd'']"

definition SECRET_DOTFILES :: "string list" where
  "SECRET_DOTFILES =
     [''.netrc'', ''.pgpass'']"

definition ENV_TEMPLATES :: "string list" where
  "ENV_TEMPLATES =
     [''.env.example'', ''.env.sample'', ''.env.template'']"

definition MAX_BRACE_WORDS :: nat where
  "MAX_BRACE_WORDS = 64"

definition assignment_runs_code :: "string \<Rightarrow> bool" where
  "assignment_runs_code w =
     (case split_once w (CHR ''='') of None \<Rightarrow> False
      | Some (name, _) \<Rightarrow>
          List.member
        [''PATH'', ''IFS'', ''BASH_ENV'', ''ENV'', ''SHELLOPTS'', ''BASHOPTS'', ''PS4'',
         ''PROMPT_COMMAND'', ''LESSOPEN'', ''LESSCLOSE'', ''VISUAL'', ''NODE_OPTIONS'',
         ''GIT_EXTERNAL_DIFF'', ''GIT_SSH'', ''GIT_SSH_COMMAND'', ''GIT_ASKPASS'',
         ''SSH_ASKPASS'', ''GIT_EXEC_PATH''] name
          \<or> starts_with name ''LD_'' \<or> starts_with name ''DYLD_'' \<or> starts_with name ''GIT_CONFIG''
          \<or> str_contains name ''PAGER'' \<or> str_contains name ''EDITOR'')"

definition assignment_command_value :: "string \<Rightarrow> string option" where
  "assignment_command_value w =
     (case split_once w (CHR ''='') of None \<Rightarrow> None
      | Some (name, val) \<Rightarrow>
          if List.member
        [''PS4'', ''PROMPT_COMMAND'', ''LESSOPEN'', ''LESSCLOSE'', ''VISUAL'',
         ''GIT_EXTERNAL_DIFF'', ''GIT_SSH'', ''GIT_SSH_COMMAND'', ''GIT_ASKPASS'',
         ''SSH_ASKPASS''] name
             \<or> str_contains name ''PAGER'' \<or> str_contains name ''EDITOR''
          then Some val else None)"

definition is_protected_read :: "string \<Rightarrow> bool" where
  "is_protected_read w =
     (if List.member SYSTEM_SECRET_FILES w then True
      else
        (let parts = filter (\<lambda>p. p \<noteq> '''' \<and> p \<noteq> ''.'') (split_on (CHR ''/'') w)
         in if 3 \<le> length parts \<and> parts ! 0 = ''proc'' \<and> parts ! 2 = ''environ'' then True
            else if list_ex (List.member PROTECTED_CREDENTIAL_SUBPATHS) parts then True
            else (case last_opt parts of None \<Rightarrow> False
              | Some name \<Rightarrow>
                  if List.member ENV_TEMPLATES name then False
                  else List.member SECRET_DOTFILES name \<or> is_credential_file_name name)))"

definition expansions :: "string \<Rightarrow> string list" where
  "expansions w = (case expand_braces w MAX_BRACE_WORDS of Some ws \<Rightarrow> ws | None \<Rightarrow> [''..''])"

definition climbs_out :: "string \<Rightarrow> bool" where
  "climbs_out operand \<longleftrightarrow>
     list_ex (\<lambda>w. list_ex (\<lambda>part. part = ''..'') (split_on (CHR ''/'') w)) (expansions operand)"

definition escapes :: "string \<Rightarrow> bool" where
  "escapes tgt \<longleftrightarrow> list_ex is_protected_read (expansions tgt) \<or> climbs_out tgt"

section \<open>Commands that only read\<close>

definition is_version_only :: "string list \<Rightarrow> bool" where
  "is_version_only args \<longleftrightarrow>
     args \<noteq> [] \<and> list_all (List.member [''--version'', ''-V'', ''-v'']) args"

definition is_cargo_read_only :: "string list \<Rightarrow> bool" where
  "is_cargo_read_only args =
     (if list_ex (\<lambda>a. a = ''--config'' \<or> starts_with a ''--config='' \<or> starts_with a ''-Z'') args
        then False
      else if list_ex (List.member [''--version'', ''-V'']) args then True
      else (case find (\<lambda>a. \<not> starts_with a ''-'') args of None \<Rightarrow> False
        | Some subcmd \<Rightarrow>
            List.member [''metadata'', ''tree''] subcmd \<and>
            list_ex (List.member [''--locked'', ''--frozen'']) args))"

definition git_flag :: "string \<Rightarrow> string" where
  "git_flag arg = (if starts_with arg ''-'' then hd (split_on (CHR ''='') arg) else arg)"

definition FILTERS :: "string list" where
  "FILTERS =
     [''--contains'', ''--no-contains'', ''--merged'', ''--no-merged'', ''--points-at'',
      ''--sort'', ''--format'']"

fun ref_scan :: "string list \<Rightarrow> bool \<Rightarrow> bool \<Rightarrow> bool" where
  "ref_scan [] listing names = (\<not> names \<or> listing)"
| "ref_scan (arg # args) listing names =
     (if List.member FILTERS arg \<and> args \<noteq> [] \<and> \<not> starts_with (hd args) ''-'' then
        ref_scan (drop 1 args) listing names
      else if arg = ''-l'' \<or> arg = ''--list'' then ref_scan args True names
      else if \<not> starts_with arg ''-'' then ref_scan args listing True
      else ref_scan args listing names)"

definition is_git_ref_listing :: "string list \<Rightarrow> string list \<Rightarrow> bool" where
  "is_git_ref_listing args writing =
     (if list_ex (\<lambda>a. List.member writing (git_flag a)) args then False
      else ref_scan args False False)"

definition git_subcommand_reads :: "string \<Rightarrow> string list \<Rightarrow> bool" where
  "git_subcommand_reads subcmd args =
     (if List.member
        [''status'', ''log'', ''diff'', ''show'', ''blame'', ''rev-parse'', ''ls-files'',
         ''describe''] subcmd then True
      else if subcmd = ''branch'' then is_git_ref_listing args
        [''-d'', ''-D'', ''-m'', ''-M'', ''--delete'', ''--move'', ''-c'', ''-C'',
         ''--copy'', ''--edit-description'', ''-u'', ''--set-upstream-to'',
         ''--unset-upstream'', ''-f'', ''--force'', ''-t'', ''--track'', ''--no-track'',
         ''--create-reflog'', ''--recurse-submodules'']
      else if subcmd = ''tag'' then is_git_ref_listing args
        [''-d'', ''--delete'', ''-a'', ''--annotate'', ''-m'', ''--message'', ''-F'',
         ''--file'', ''-f'', ''--force'', ''-s'', ''--sign'', ''-u'', ''--local-user'',
         ''--edit'', ''-e'', ''--create-reflog'']
      else if subcmd = ''stash'' then
        (case args of [] \<Rightarrow> False | a # _ \<Rightarrow> List.member [''list'', ''show''] a)
      else if subcmd = ''remote'' then
        \<not> list_ex (List.member
        [''add'', ''remove'', ''rm'', ''set-url'', ''rename'', ''update'', ''prune'',
         ''set-head'', ''set-branches'']) args
      else False)"

definition is_git_read_only :: "string list \<Rightarrow> bool" where
  "is_git_read_only ws =
     (let call = git_parse ws
      in if git_unknown call \<noteq> None then False
         else if only_asks_version call then True
         else if list_ex (\<lambda>(opt, v). List.member [''-c'', ''--config-env'', ''--exec-path''] opt)
                   (globals call) then False
         else (case subcommand call of None \<Rightarrow> False
           | Some subcmd \<Rightarrow>
               if list_ex (\<lambda>a. starts_with a ''--o'' \<and> starts_with ''--output'' (git_flag a))
                    (git_args call) then False
               else git_subcommand_reads subcmd (git_args call)))"

fun path_operands_from :: "token list \<Rightarrow> bool \<Rightarrow> bool \<Rightarrow> string list" where
  "path_operands_from [] want_pattern flag_takes = []"
| "path_operands_from (t # ts) want_pattern flag_takes =
     (if is_flag t then
        path_operands_from ts want_pattern (flag_takes \<or> List.member
         [''-e'', ''--regexp'', ''--glob'', ''--iglob'', ''--pre-glob'', ''-name'',
          ''-iname'', ''-path'', ''-wholename'', ''-iwholename'', ''-regex'', ''-iregex''] (tk_text t))
      else if flag_takes \<or> want_pattern then path_operands_from ts False False
      else tk_text t # path_operands_from ts want_pattern flag_takes)"

definition path_operands :: "string \<Rightarrow> token list \<Rightarrow> string list" where
  "path_operands program ts =
     path_operands_from (drop 1 ts)
       (List.member [''grep'', ''egrep'', ''fgrep'', ''rg'', ''awk'', ''sed''] program) False"

definition reads_escape_workspace :: "string \<Rightarrow> token list \<Rightarrow> bool" where
  "reads_escape_workspace program ts \<longleftrightarrow>
     list_ex (\<lambda>t. \<not> is_flag t \<and> list_ex is_protected_read (expansions (tk_text t))) ts
     \<or> list_ex climbs_out (path_operands program ts)"

text \<open>The checks of \<^verbatim>\<open>words_are_read_only\<close> on a program that is not a wrapper.\<close>

definition program_reads :: "string \<Rightarrow> token list \<Rightarrow> bool" where
  "program_reads name ws =
     (let args = map tk_text (drop 1 ws)
      in if reads_escape_workspace name ws then False
         else if List.member READONLY_COMMANDS name then \<not> writes_through_own_arguments name ws
         else if name = ''find'' then
           \<not> list_ex (List.member
          [''-delete'', ''-exec'', ''-execdir'', ''-ok'', ''-okdir'', ''-fprint'',
           ''-fprint0'', ''-fprintf'', ''-fls'']) args
         else if List.member [''awk'', ''gawk'', ''mawk''] name then \<not> awk_writes args
         else if name = ''sed'' then \<not> sed_writes args
         else if name = ''git'' then is_git_read_only args
         else if name = ''cargo'' then is_cargo_read_only args
         else if List.member [''rustc'', ''python'', ''python3'', ''node'', ''nodejs''] name
           then is_version_only args
         else False)"

function words_are_read_only :: "token list \<Rightarrow> bool" where
  "words_are_read_only ws =
     (case unwrap ws of
        Some u \<Rightarrow>
          if \<not> List.member READ_WRAPPERS (w_name u) \<or> w_writes u \<noteq> [] then False
          else if w_name u = ''env'' \<and> list_ex (\<lambda>w. assignment_runs_code (tk_text w)) ws then False
          else (case w_inner u of
              Argv rest \<Rightarrow> words_are_read_only rest
            | Nothing \<Rightarrow> w_name u \<noteq> ''env''
            | Scripts ss \<Rightarrow> False | Opaque ts \<Rightarrow> False | Unknown r \<Rightarrow> False)
      | None \<Rightarrow>
          (case ws of [] \<Rightarrow> True | program # _ \<Rightarrow> program_reads (basename program) ws))"
  by pat_completeness auto

termination
  by (relation "measure length") (auto dest: unwrap_Argv)

declare words_are_read_only.simps [simp del]

definition redirect_reads :: "redirect_rec \<Rightarrow> bool" where
  "redirect_reads r =
     (case r_target r of None \<Rightarrow> True
      | Some t \<Rightarrow> if writes r then is_safe_redirect_sink (tk_text t) else \<not> escapes (tk_text t))"

definition command_is_read_only :: "simple_command \<Rightarrow> bool" where
  "command_is_read_only c \<longleftrightarrow>
     list_all redirect_reads (redirects c)
     \<and> \<not> list_ex (\<lambda>a. assignment_runs_code (tk_text a)) (assignments c)
     \<and> (words c = [] \<or> words_are_read_only (words c))"

definition read_only_script :: "script \<Rightarrow> bool" where
  "read_only_script sc \<longleftrightarrow>
     commands sc \<noteq> [] \<and> unresolved sc = [] \<and> substitutions sc = 0 \<and>
     list_all command_is_read_only (commands sc)"

definition is_read_only :: "string \<Rightarrow> bool" where
  "is_read_only command = read_only_script (parse command)"

section \<open>Commands that may run side by side\<close>

definition PURE_READERS :: "string list" where
  "PURE_READERS =
     [''cat'', ''head'', ''tail'', ''wc'', ''ls'', ''stat'', ''file'', ''grep'', ''egrep'',
      ''fgrep'', ''rg'', ''fd'', ''find'', ''tree'', ''du'', ''df'', ''pwd'', ''echo'',
      ''printf'', ''which'', ''type'', ''printenv'', ''date'', ''uname'', ''whoami'',
      ''id'', ''ps'', ''jq'', ''sort'', ''uniq'', ''cut'', ''diff'', ''md5sum'',
      ''sha256sum'', ''tr'', ''rev'', ''nl'', ''tac'', ''fold'', ''comm'', ''join'',
      ''paste'', ''cmp'', ''column'', ''od'', ''hexdump'', ''strings'', ''base64'', ''seq'',
      ''fmt'', ''sha1sum'', ''sha224sum'', ''sha384sum'', ''sha512sum'', ''b2sum'',
      ''cksum'', ''sum'', ''true'', ''false'', ''test'', ''['', ''dirname'', ''basename'',
      ''realpath'', ''readlink'', ''git'']"

definition PURE_WRAPPERS :: "string list" where
  "PURE_WRAPPERS =
     [''timeout'', ''nice'', ''time'']"

function pure_words :: "token list \<Rightarrow> bool" where
  "pure_words ws =
     (case ws of [] \<Rightarrow> True
      | program # _ \<Rightarrow>
          (case unwrap ws of
             Some u \<Rightarrow>
               List.member PURE_WRAPPERS (w_name u) \<and>
               (case w_inner u of Argv rest \<Rightarrow> pure_words rest
                | Nothing \<Rightarrow> False | Scripts ss \<Rightarrow> False | Opaque ts \<Rightarrow> False | Unknown r \<Rightarrow> False)
           | None \<Rightarrow> List.member PURE_READERS (basename program)))"
  by pat_completeness auto

termination
  by (relation "measure length") (auto dest: unwrap_Argv)

declare pure_words.simps [simp del]

definition is_side_effect_free :: "string \<Rightarrow> bool" where
  "is_side_effect_free command =
     (let sc = parse command
      in read_only_script sc \<and>
         list_all (\<lambda>c. assignments c = [] \<and> pure_words (words c)) (commands sc))"

section \<open>What an accepted line runs\<close>

text \<open>The programs a command invokes, each wrapper in front of it included.\<close>

inductive invokes :: "token list \<Rightarrow> string \<Rightarrow> bool" where
  first: "invokes (w # ws) (basename w)"
| inner: "unwrap ws = Some u \<Longrightarrow> w_inner u = Argv rest \<Longrightarrow> invokes rest n \<Longrightarrow> invokes ws n"


lemma unwrap_options_name [simp]: "w_name (unwrap_options name sp args) = name"
  by (simp add: unwrap_options_def Let_def split: sum.split prod.split)

lemma unwrap_name: "unwrap ws = Some u \<Longrightarrow> ws \<noteq> [] \<and> w_name u = basename (hd ws)"
  by (auto simp: unwrap_def Let_def split: list.splits if_splits)



lemma pure_invokes: "invokes ws n \<Longrightarrow> pure_words ws \<Longrightarrow> n \<in> set (PURE_READERS @ PURE_WRAPPERS)"
proof (induction rule: invokes.induct)
  case (first w ws)
  then show ?case
    by (subst (asm) pure_words.simps)
       (auto simp: List.member_iff dest: unwrap_name split: option.splits)
next
  case (inner ws u rest n)
  from inner.prems inner.hyps(1,2) have "pure_words rest"
    by (subst (asm) pure_words.simps) (auto split: list.splits dest: unwrap_name)
  then show ?case by (rule inner.IH)
qed

lemma parsed_nested_substitutions: "length ns \<le> substitutions (parsed_nested ns d)"
  by (induction ns) (auto simp: one_substitution_def)

text \<open>A check that accepts a line on the strength of its parsed commands.\<close>

locale line_check =
  fixes accepts :: "string \<Rightarrow> bool" and judge :: "simple_command \<Rightarrow> bool"
    and programs :: "string set"
  assumes readable: "accepts line \<Longrightarrow> unresolved (parse line) = [] \<and> substitutions (parse line) = 0"
    and judged: "accepts line \<Longrightarrow> list_all judge (commands (parse line))"
    and allowed: "judge c \<Longrightarrow> invokes (words c) n \<Longrightarrow> n \<in> programs"
begin

lemma no_substitution: "accepts line \<Longrightarrow> nested (lex line) = []"
proof -
  assume "accepts line"
  from readable [OF this] have "substitutions (parsed_nested (nested (lex line)) 1) = 0"
    by (simp add: parse_def parsed_unfold)
  with parsed_nested_substitutions [of "nested (lex line)" 1] show ?thesis by simp
qed

lemma no_unread_text: "accepts line \<Longrightarrow> lex_unresolved (lex line) = []"
  using readable [of line] parse_keeps_unresolved [of line] by auto

lemma programs_allowed:
  "accepts line \<Longrightarrow> c \<in> set (commands (parse line)) \<Longrightarrow> invokes (words c) n \<Longrightarrow> n \<in> programs"
  using judged [of line] allowed by (auto simp: list_all_iff)

end


definition command_is_pure :: "simple_command \<Rightarrow> bool" where
  "command_is_pure c \<longleftrightarrow> command_is_read_only c \<and> assignments c = [] \<and> pure_words (words c)"


interpretation beside: line_check is_side_effect_free command_is_pure "set (PURE_READERS @ PURE_WRAPPERS)"
proof
  fix line assume "is_side_effect_free line"
  then show "unresolved (parse line) = [] \<and> substitutions (parse line) = 0"
    and "list_all command_is_pure (commands (parse line))"
    by (auto simp: is_side_effect_free_def read_only_script_def command_is_pure_def Let_def list_all_iff)
qed (rule pure_invokes, auto simp: command_is_pure_def)






text \<open>A line that may run beside other calls is a read-only line of plain readers:
  it sets no variable, and every program it invokes is one of the pure readers or one of
  the three wrappers that only bound or time them.\<close>

theorem side_effect_free_sound:
  assumes "is_side_effect_free line"
  shows "is_read_only line \<and> (\<forall>c \<in> set (commands (parse line)).
    assignments c = [] \<and> (\<forall>n. invokes (words c) n \<longrightarrow> n \<in> set (PURE_READERS @ PURE_WRAPPERS)))"
proof (intro conjI ballI allI impI)
  show "is_read_only line"
    using assms by (simp add: is_side_effect_free_def is_read_only_def Let_def)
  fix c assume c: "c \<in> set (commands (parse line))"
  show "assignments c = []"
    using beside.judged [OF assms] c by (simp add: list_all_iff command_is_pure_def)
  show "n \<in> set (PURE_READERS @ PURE_WRAPPERS)" if "invokes (words c) n" for n
    by (rule beside.programs_allowed [OF assms c that])
qed

theorem side_effect_free_sound_witness:
  "is_read_only ''time ls'' \<and>
    {n. \<exists>c \<in> set (commands (parse ''time ls'')). invokes (words c) n} \<subseteq> set (PURE_READERS @ PURE_WRAPPERS)"
proof -
  have "is_side_effect_free ''time ls''" by code_simp
  from side_effect_free_sound [OF this] show ?thesis by blast
qed

end
