(* ===== verification/Assess.thy ===== *)
theory Assess
  imports Readonly
begin

text \<open>
  \<^verbatim>\<open>crates/pacode-risk/src/assess.rs\<close>: the findings of a command line.

  The assessor only ever pushes findings, so every method is a function that returns
  the findings it pushes, in order.  \<open>script\<close> calls itself on inline shells one level
  deeper, to \<open>MAX_DEPTH\<close>: the methods take that call as the argument \<open>rec\<close>.  \<open>words\<close>
  calls itself on expanded words and on the command behind a wrapper; the call is the
  argument \<open>wrec\<close>, closed by \<open>words_fuel\<close>, whose bound is shown to be enough.
  The environment variables the source reads are fields of \<open>env\<close>.
\<close>

section \<open>Tables\<close>

definition DESTRUCTIVE_COMMANDS :: "string list" where
  "DESTRUCTIVE_COMMANDS =
     [''rm'', ''rmdir'', ''shred'', ''unlink'', ''truncate'', ''dd'', ''mkfs'', ''fdisk'',
      ''parted'', ''wipefs'', ''srm'']"

definition CONDITIONALLY_DESTRUCTIVE :: "(string \<times> string list) list" where
  "CONDITIONALLY_DESTRUCTIVE =
     [(''find'', [''-delete'', ''-exec'', ''-execdir'', ''-ok'', ''-okdir'']),
      (''git'', [''clean'']), (''chmod'', [''-R'', ''--recursive'']),
      (''chown'', [''-R'', ''--recursive''])]"

definition ELEVATING :: "string list" where
  "ELEVATING =
     [''sudo'', ''doas'', ''su'', ''pkexec'', ''runuser'']"

definition SECRET_READERS :: "string list" where
  "SECRET_READERS =
     [''cat'', ''head'', ''tail'', ''less'', ''more'', ''od'', ''hexdump'', ''xxd'',
      ''strings'', ''base64'', ''nl'', ''tac'', ''rev'', ''fold'', ''grep'', ''egrep'',
      ''fgrep'', ''rg'', ''cut'', ''wc'', ''diff'', ''cmp'', ''comm'', ''join'', ''paste'',
      ''column'', ''fmt'', ''sort'', ''uniq'', ''jq'', ''sed'', ''awk'', ''gawk'', ''mawk'',
      ''md5sum'', ''sha1sum'', ''sha224sum'', ''sha256sum'', ''sha384sum'', ''sha512sum'',
      ''b2sum'', ''cksum'', ''sum'']"

definition MAX_DEPTH :: nat where
  "MAX_DEPTH = 8"

definition BRACE_WORDS :: nat where
  "BRACE_WORDS = 64"

definition MAX_OPAQUE_STARTS :: nat where
  "MAX_OPAQUE_STARTS = 16"

record env =
  cwd :: path
  home :: path
  tmpdir :: "string option"

record via =
  elevated :: bool
  fed_by :: "string option"

definition confirm :: "string \<Rightarrow> risk_finding" where
  "confirm r = finding Confirm r None"

definition tick :: "string \<Rightarrow> string" where
  "tick s = ''`'' @ s @ ''`''"

section \<open>Programs\<close>

definition is_computed :: "token \<Rightarrow> bool" where
  "is_computed w \<longleftrightarrow>
     (let name = basename w;
          glob_class = (case find_index (\<lambda>c. c = CHR ''['') name of None \<Rightarrow> False
                        | Some op \<Rightarrow> List.member (drop op name) (CHR '']''))
      in starts_with (tk_text w) ''='' \<or> has_any name ''$`*?{'' \<or>
         (glob_class \<and> name \<noteq> ''['' \<and> name \<noteq> ''[[''))"

definition until_terminator :: "token list \<Rightarrow> token list" where
  "until_terminator ws = takeWhile (\<lambda>t. \<not> List.member ['';'', ''+''] (tk_text t)) ws"

function bare_shell :: "token list \<Rightarrow> bool" where
  "bare_shell ws =
     (case unwrap ws of None \<Rightarrow> False
      | Some u \<Rightarrow>
          (case w_inner u of
             Argv rest \<Rightarrow> bare_shell rest
           | Scripts scripts \<Rightarrow> List.member SHELLS (w_name u) \<and> scripts = []
           | Nothing \<Rightarrow> False | Opaque ts \<Rightarrow> False | Unknown r \<Rightarrow> False))"
  by pat_completeness auto

termination
  by (relation "measure length") (auto dest: unwrap_Argv)

declare bare_shell.simps [simp del]

function program :: "token list \<Rightarrow> string option" where
  "program ws =
     (case unwrap ws of None \<Rightarrow> map_option basename (first_opt ws)
      | Some u \<Rightarrow>
          (case w_inner u of
             Argv rest \<Rightarrow> program rest
           | Scripts scripts \<Rightarrow> map_option basename (first_opt ws)
           | Nothing \<Rightarrow> map_option basename (first_opt ws)
           | Opaque ts \<Rightarrow> map_option basename (first_opt ws)
           | Unknown r \<Rightarrow> map_option basename (first_opt ws)))"
  by pat_completeness auto

termination
  by (relation "measure length") (auto dest: unwrap_Argv)

declare program.simps [simp del]

definition inline_code_finding :: "string \<Rightarrow> bool \<Rightarrow> risk_finding" where
  "inline_code_finding name destr =
     (if destr then
        finding Confirm (tick name @ '' runs inline code that contains a destructive payload'') None
      else finding Low (tick name @ '' runs inline code passed on the command line'') None)"

section \<open>Findings of one command\<close>

type_synonym script_rec = "string \<Rightarrow> bool \<Rightarrow> risk_finding list"
type_synonym words_rec = "token list \<Rightarrow> bool \<Rightarrow> via \<Rightarrow> risk_finding list"

definition redirect_target :: "env \<Rightarrow> token \<Rightarrow> bool \<Rightarrow> risk_finding list" where
  "redirect_target e tgt keep_bounded =
     (if is_safe_redirect_sink (tk_text tgt) then []
      else (case classify_target (tmpdir e) (tk_text tgt) False (cwd e) (home e) True of
          None \<Rightarrow> []
        | Some f \<Rightarrow> if keep_bounded \<or> Confirm \<le> level f then [f] else []))"

definition protected_read :: "string \<Rightarrow> risk_finding list" where
  "protected_read raw =
     (if is_protected_read raw then
        [finding Confirm ''reads a credential or secret file into the model's context'' (Some raw)]
      else [])"

definition shell_reads :: "script_rec \<Rightarrow> redirect_rec \<Rightarrow> risk_finding list" where
  "shell_reads rec r =
     (if is_heredoc r then (case heredoc_body r of Some body \<Rightarrow> rec body False | None \<Rightarrow> [])
      else if is_here_string r then
        (case r_target r of None \<Rightarrow> []
         | Some t \<Rightarrow>
             if has_any (tk_text t) ''$`'' then
               [confirm (''a shell runs a here-string computed at runtime, which cannot be '' @
                  ''checked before it runs'')]
             else rec (tk_text t) False)
      else
        [confirm (''a shell runs a script read from its standard input, which cannot be checked '' @
           ''before it runs'')])"

definition assignment :: "script_rec \<Rightarrow> token \<Rightarrow> risk_finding list" where
  "assignment rec a =
     (if \<not> assignment_runs_code (tk_text a) then []
      else
        (let name = (case split_once (tk_text a) (CHR ''='') of Some (n, v) \<Rightarrow> n | None \<Rightarrow> tk_text a)
         in confirm (''sets '' @ tick name @ '', an environment variable that can make a later '' @
              ''command run attacker-chosen code'')
            # (case assignment_command_value (tk_text a) of Some val \<Rightarrow> rec val False | None \<Rightarrow> [])))"

definition triggered :: "string \<Rightarrow> token list \<Rightarrow> bool" where
  "triggered name ws =
     (if List.member DESTRUCTIVE_COMMANDS name \<or> starts_with name ''mkfs.'' then True
      else (case map_of CONDITIONALLY_DESTRUCTIVE name of None \<Rightarrow> False
        | Some flags \<Rightarrow> list_ex (\<lambda>t. List.member flags (tk_text t)) ws))"

definition fed_findings :: "string \<Rightarrow> bool \<Rightarrow> via \<Rightarrow> risk_finding list" where
  "fed_findings name pipe v =
     (case fed_by v of None \<Rightarrow> []
      | Some feeder \<Rightarrow>
          [confirm (if feeder = ''xargs''
             then ''`xargs '' @ name @ ''` executes destructive operations from standard input''
             else ''`'' @ feeder @ '' '' @ name @ ''` runs on paths found at runtime'')])
     @ (if elevated v then
          [confirm (''`sudo` runs destructive command '' @ tick name @ '' with elevated privileges'')]
        else [])
     @ (if pipe then
          [confirm (tick name @ '' deletes paths supplied by a pipe, so the set of '' @
             ''affected files cannot be checked before it runs'')]
        else [])"

definition target_path :: "string \<Rightarrow> string" where
  "target_path str =
     (case split_once str (CHR ''='') of None \<Rightarrow> str
      | Some (key, val) \<Rightarrow>
          if List.member [''of'', ''if'', ''seek'', ''conv''] key then val else str)"

definition destructive :: "env \<Rightarrow> string \<Rightarrow> token list \<Rightarrow> bool \<Rightarrow> via \<Rightarrow> risk_finding list" where
  "destructive e name ws pipe v =
     (if \<not> triggered name ws then []
      else
        (let targets = filter (\<lambda>t. \<not> is_flag t) (drop 1 ws);
             recursive = list_ex is_recursive_flag ws
         in fed_findings name pipe v @
            (if targets = [] then
               [confirm (tick name @ '' is destructive but its target could not be '' @
                  ''determined statically, so its blast radius is unknown'')]
             else
               List.map_filter
                 (\<lambda>t. classify_target (tmpdir e) (target_path (tk_text t)) recursive (cwd e) (home e) False)
                 targets)))"

definition git_findings :: "string list \<Rightarrow> risk_finding list" where
  "git_findings ws =
     (let call = git_parse ws; args = git_args call
      in case git_unknown call of
           Some opt \<Rightarrow>
             [confirm (''`git` is given option '' @ tick opt @ '', which is not known here, so the '' @
                ''subcommand cannot be identified'')]
         | None \<Rightarrow>
             (case subcommand call of None \<Rightarrow> []
              | Some sub \<Rightarrow>
                  if sub = ''push'' \<and>
                     list_ex (List.member [''-f'', ''--force'', ''--force-with-lease'']) args then
                    [confirm ''`git push --force` overwrites remote commit history'']
                  else if sub = ''stash'' \<and> List.member args ''drop'' then
                    [finding Low ''`git stash drop` discards stashed changes'' None]
                  else if sub = ''branch'' \<and> list_ex (List.member [''-D'', ''-d'', ''--delete'']) args then
                    [finding Low ''`git branch -D` deletes a git branch'' None]
                  else if sub = ''clean'' then
                    [finding Low ''`git clean` discards untracked files inside repository'' None]
                  else if sub = ''reset'' \<and> List.member args ''--hard'' then
                    [finding Low ''`git reset --hard` discards uncommitted changes inside repository'' None]
                  else if sub = ''checkout'' \<and> List.member args ''--'' \<and> List.member args ''.'' then
                    [finding Low ''`git checkout -- .` discards uncommitted changes inside repository'' None]
                  else []))"

definition known_tool :: "string \<Rightarrow> token list \<Rightarrow> risk_finding list" where
  "known_tool name ws =
     (let args = map tk_text (drop 1 ws)
      in if name = ''git'' then git_findings args
         else if name = ''cargo'' \<and> List.member args ''clean'' then
           [finding Low ''`cargo clean` deletes all build artifacts'' None]
         else if (name = ''docker'' \<or> name = ''podman'') \<and> List.member args ''prune'' then
           [confirm (''`'' @ name @ '' prune` removes unused containers, images, or volumes'')]
         else if name = ''kill'' then
           (if List.member args ''-1'' \<and>
               list_ex (List.member [''-9'', ''-KILL'', ''-s'', ''KILL'', ''9'']) args then
              [finding Confirm ''`kill -9 -1` terminates all processes accessible to the user''
                 (Some ''-1'')]
            else [])
         else [])"

definition interpreters :: "string \<Rightarrow> token list \<Rightarrow> risk_finding list" where
  "interpreters name ws =
     (if List.member [''awk'', ''gawk'', ''mawk''] name then
        (let args = map tk_text (drop 1 ws)
         in if awk_shells_out args
            then [inline_code_finding name (list_ex code_is_destructive args)] else [])
      else
        (let codes = inline_code name ws
         in if codes = [] then []
            else [inline_code_finding name (list_ex code_is_destructive codes)]))"

definition protected_write :: "env \<Rightarrow> string \<Rightarrow> risk_finding list" where
  "protected_write e dest =
     (if is_safe_redirect_sink dest then []
      else (case classify_target (tmpdir e) dest False (cwd e) (home e) False of None \<Rightarrow> []
        | Some f \<Rightarrow> if Confirm \<le> level f then [f] else []))"

definition protected_writes :: "env \<Rightarrow> string \<Rightarrow> token list \<Rightarrow> risk_finding list" where
  "protected_writes e name ws = concat (map (protected_write e) (write_destinations name ws))"

definition assignments_of :: "script_rec \<Rightarrow> token list \<Rightarrow> risk_finding list" where
  "assignments_of rec ws =
     concat (map (\<lambda>w. if is_assignment (tk_text w) then assignment rec w else []) ws)"

definition exec_env :: "script_rec \<Rightarrow> string \<Rightarrow> token list \<Rightarrow> risk_finding list" where
  "exec_env rec name ws =
     (if List.member [''export'', ''declare'', ''typeset'', ''local''] name
      then assignments_of rec (drop 1 ws) else [])
     @ (if (name = ''source'' \<or> name = ''.'') \<and> list_ex (\<lambda>w. \<not> is_flag w) (drop 1 ws) then
          [confirm (tick name @ '' runs the commands in a file, which cannot be checked before they run'')]
        else [])"

definition reads :: "string \<Rightarrow> token list \<Rightarrow> risk_finding list" where
  "reads name ws =
     (if name = ''printenv'' \<and> \<not> list_ex (\<lambda>w. \<not> is_flag w) (drop 1 ws) then
        [confirm (''`printenv` with no variable prints the whole environment, leaking every secret '' @
           ''in it'')]
      else if List.member SECRET_READERS name then
        concat (map (\<lambda>w. if is_flag w then [] else protected_read (tk_text w)) (drop 1 ws))
      else [])"

fun exec_tails :: "(string \<Rightarrow> bool) \<Rightarrow> token list \<Rightarrow> token list list" where
  "exec_tails P [] = []"
| "exec_tails P (w # ws) = (if P (tk_text w) then [until_terminator ws] else []) @ exec_tails P ws"

definition find_exec :: "string \<Rightarrow> bool" where
  "find_exec str = List.member [''-exec'', ''-execdir'', ''-ok'', ''-okdir''] str"

definition fd_exec :: "string \<Rightarrow> bool" where
  "fd_exec str \<longleftrightarrow>
     (starts_with str ''-'' \<and> \<not> starts_with str ''--'' \<and> (ends_with str ''x'' \<or> ends_with str ''X''))
     \<or> str = ''--exec'' \<or> str = ''--exec-batch''"

definition runners ::
  "script_rec \<Rightarrow> words_rec \<Rightarrow> string \<Rightarrow> token list \<Rightarrow> risk_finding list" where
  "runners rec wrec name ws =
     (let fed = \<lparr>elevated = False,
                 fed_by = Some (if name = ''fd'' then ''fd -x'' else ''find -exec'')\<rparr>
      in if name = ''find'' then
           concat (map (\<lambda>t. wrec t False fed) (exec_tails find_exec ws))
         else if name = ''fd'' \<or> name = ''fdfind'' then
           concat (map (\<lambda>t. wrec t False fed) (exec_tails fd_exec ws))
         else if name = ''git'' then
           concat (map (\<lambda>s. case command_in_config s of Some c \<Rightarrow> rec c False | None \<Rightarrow> [])
             (config_overrides (git_parse (map tk_text (drop 1 ws)))))
         else [])"

definition program_findings ::
  "env \<Rightarrow> script_rec \<Rightarrow> words_rec \<Rightarrow> token \<Rightarrow> token list \<Rightarrow> bool \<Rightarrow> via \<Rightarrow> risk_finding list" where
  "program_findings e rec wrec p ws pipe v =
     (if is_computed p then
        [finding Confirm
           (''runs a program whose name is computed at runtime, so what it does cannot be '' @
            ''checked in advance'') (Some (tk_text p))]
      else
        (let name = basename p
         in known_tool name ws @ runners rec wrec name ws @ destructive e name ws pipe v @
            interpreters name ws @ protected_writes e name ws @ exec_env rec name ws @ reads name ws))"

fun opaque_starts :: "nat \<Rightarrow> token list \<Rightarrow> token list list" where
  "opaque_starts 0 ws = []"
| "opaque_starts (Suc n) [] = []"
| "opaque_starts (Suc n) (w # ws) = (if is_flag w then [] else [w # ws]) @ opaque_starts n ws"

definition inline_flag :: "token \<Rightarrow> bool" where
  "inline_flag w \<longleftrightarrow>
     is_flag w \<and> \<not> starts_with (tk_text w) ''--'' \<and> List.member (tk_text w) (CHR ''c'')"

definition inner_findings ::
  "script_rec \<Rightarrow> words_rec \<Rightarrow> string \<Rightarrow> inner \<Rightarrow> token list \<Rightarrow> bool \<Rightarrow> via \<Rightarrow> risk_finding list" where
  "inner_findings rec wrec name inner ws pipe v =
     (case inner of
        Argv rest \<Rightarrow> wrec rest pipe v
      | Scripts scripts \<Rightarrow>
          (if pipe \<and> List.member SHELLS name \<and> \<not> list_ex inline_flag (drop 1 ws) then
             [confirm (tick name @ '' runs the commands it reads from a pipe, which cannot '' @
                ''be checked before they run'')]
           else [])
          @ concat (map (\<lambda>s. rec s (elevated v)) scripts)
      | Nothing \<Rightarrow>
          if List.member ELEVATING name then
            [confirm (tick name @ '' runs another command that could not be identified statically'')]
          else if name = ''env'' then
            [confirm (''`env` with no command prints the whole environment, leaking every secret '' @
               ''in it'')]
          else []
      | Opaque rest \<Rightarrow> concat (map (\<lambda>t. wrec t pipe v) (opaque_starts MAX_OPAQUE_STARTS rest))
      | Unknown r \<Rightarrow> [confirm r])"

definition unwrapped_findings ::
  "env \<Rightarrow> script_rec \<Rightarrow> words_rec \<Rightarrow> unwrapped \<Rightarrow> token list \<Rightarrow> bool \<Rightarrow> via \<Rightarrow> risk_finding list" where
  "unwrapped_findings e rec wrec u ws pipe v =
     (let name = w_name u;
          inner_via = \<lparr>elevated = elevated v \<or> List.member ELEVATING name,
                       fed_by = (if name = ''xargs'' then Some ''xargs'' else fed_by v)\<rparr>
      in concat (map (\<lambda>f. redirect_target e f True) (w_writes u))
         @ (if name = ''env'' then assignments_of rec (drop 1 ws) else [])
         @ inner_findings rec wrec name (w_inner u) ws pipe inner_via)"

section \<open>Words, commands and scripts\<close>

text \<open>\<^verbatim>\<open>expanded\<close>: the findings pushed and the value returned.\<close>

fun expanded_from :: "token list \<Rightarrow> token list \<Rightarrow> bool \<Rightarrow> risk_finding list \<times> token list option" where
  "expanded_from [] res changed =
     ([], if changed \<and> length res \<le> BRACE_WORDS then Some res else None)"
| "expanded_from (w # ws) res changed =
     (case expand_braces (tk_text w) BRACE_WORDS of
        None \<Rightarrow> ([confirm (tick (tk_text w) @ '' expands to too many words to check'')], Some [])
      | Some parts \<Rightarrow>
          if parts = [tk_text w] then expanded_from ws (res @ [w]) changed
          else expanded_from ws (res @ map word_token parts) True)"

definition expanded :: "token list \<Rightarrow> risk_finding list \<times> token list option" where
  "expanded ws = expanded_from ws [] False"

definition words_body :: "env \<Rightarrow> script_rec \<Rightarrow> words_rec \<Rightarrow> token list \<Rightarrow> bool \<Rightarrow> via \<Rightarrow> risk_finding list" where
  "words_body e rec wrec ws pipe v =
     (case ws of [] \<Rightarrow> []
      | p # _ \<Rightarrow>
          (case expanded ws of
             (fs, Some ws') \<Rightarrow> fs @ wrec ws' pipe v
           | (fs, None) \<Rightarrow>
               fs @ (case unwrap ws of
                 Some u \<Rightarrow> unwrapped_findings e rec wrec u ws pipe v
               | None \<Rightarrow> program_findings e rec wrec p ws pipe v)))"

primrec words_fuel :: "nat \<Rightarrow> env \<Rightarrow> script_rec \<Rightarrow> token list \<Rightarrow> bool \<Rightarrow> via \<Rightarrow> risk_finding list" where
  "words_fuel 0 e rec ws pipe v = []"
| "words_fuel (Suc n) e rec ws pipe v = words_body e rec (words_fuel n e rec) ws pipe v"

definition words_findings :: "env \<Rightarrow> script_rec \<Rightarrow> token list \<Rightarrow> bool \<Rightarrow> via \<Rightarrow> risk_finding list" where
  "words_findings e rec ws pipe v = words_fuel (length ws + Suc BRACE_WORDS) e rec ws pipe v"

definition redirect_findings :: "env \<Rightarrow> script_rec \<Rightarrow> bool \<Rightarrow> redirect_rec \<Rightarrow> risk_finding list" where
  "redirect_findings e rec feeds_shell r =
     (case r_target r of None \<Rightarrow> []
      | Some t \<Rightarrow> if truncates r then redirect_target e t True
                  else if writes r then redirect_target e t False else [])
     @ (if \<not> reads_stdin r then []
        else if feeds_shell then shell_reads rec r
        else (case r_target r of None \<Rightarrow> []
          | Some t \<Rightarrow> if writes r then [] else protected_read (tk_text t)))"

definition command_findings :: "env \<Rightarrow> script_rec \<Rightarrow> via \<Rightarrow> simple_command \<Rightarrow> risk_finding list" where
  "command_findings e rec v c =
     concat (map (redirect_findings e rec (bare_shell (words c))) (redirects c))
     @ concat (map (assignment rec) (assignments c))
     @ words_findings e rec (words c) (receives_pipe c) v"

definition pair_finding :: "simple_command \<times> simple_command \<Rightarrow> risk_finding list" where
  "pair_finding p =
     (case (program (words (fst p)), program (words (snd p))) of
        (Some fetch, Some sh) \<Rightarrow>
          if List.member [''curl'', ''wget'', ''fetch''] fetch \<and> receives_pipe (snd p) \<and>
             List.member SHELLS sh then
            [confirm (''`'' @ fetch @ '' | '' @ sh @
               ''` downloads and executes a remote script directly in the shell'')]
          else []
      | _ \<Rightarrow> [])"

definition download_to_shell :: "simple_command list \<Rightarrow> risk_finding list" where
  "download_to_shell cs = concat (map pair_finding (zip cs (drop 1 cs)))"

definition unresolved_finding :: "string \<Rightarrow> risk_finding" where
  "unresolved_finding r =
     confirm (''the command line contains '' @ r @ '', which cannot be checked statically'')"

text \<open>\<^verbatim>\<open>script\<close>, by the number of levels that may still be followed.\<close>

primrec script_at :: "nat \<Rightarrow> env \<Rightarrow> string \<Rightarrow> bool \<Rightarrow> risk_finding list" where
  "script_at 0 e source el = [confirm ''inline shells are nested too deeply to check'']"
| "script_at (Suc n) e source el =
     (let sc = parse source
      in map unresolved_finding (remdups_adj (unresolved sc))
         @ download_to_shell (commands sc)
         @ concat (map (command_findings e (script_at n e) \<lparr>elevated = el, fed_by = None\<rparr>)
             (commands sc)))"

definition script_findings :: "env \<Rightarrow> string \<Rightarrow> bool \<Rightarrow> nat \<Rightarrow> risk_finding list" where
  "script_findings e source el depth = script_at (Suc MAX_DEPTH - depth) e source el"

section \<open>The words recursion needs no more than its bound\<close>

definition brace_stable :: "token list \<Rightarrow> bool" where
  "brace_stable ws \<longleftrightarrow> (\<forall>w \<in> set ws. expand_braces (tk_text w) BRACE_WORDS = Some [tk_text w])"

definition smaller :: "token list \<Rightarrow> token list \<Rightarrow> bool" where
  "smaller xs ws \<longleftrightarrow> length xs < length ws \<and> set xs \<subseteq> set ws"

lemma stable_subset: "set xs \<subseteq> set ws \<Longrightarrow> brace_stable ws \<Longrightarrow> brace_stable xs"
  by (auto simp: brace_stable_def)

lemma stable_parts:
  assumes "expand_braces (tk_text w) BRACE_WORDS = Some parts"
  shows "brace_stable (map word_token parts)"
proof -
  have "first_brace_group x BRACE_WORDS = None" if "x \<in> set parts" for x
    using expand_fuel_stable [OF assms [unfolded expand_braces_def]] that by (simp add: list_all_iff)
  then show ?thesis by (auto simp: brace_stable_def expand_braces_def)
qed

lemma expanded_from_Some:
  "expanded_from ws res changed = (fs, Some ws') \<Longrightarrow> brace_stable res \<Longrightarrow>
     brace_stable ws' \<and> length ws' \<le> BRACE_WORDS \<and> (changed \<or> \<not> brace_stable ws)"
proof (induction ws res changed rule: expanded_from.induct)
  case (2 w ws res changed)
  show ?case
  proof (cases "expand_braces (tk_text w) BRACE_WORDS")
    case None
    with 2(3) show ?thesis by (auto simp: brace_stable_def)
  next
    case (Some parts)
    have "brace_stable (res @ [w])" if "parts = [tk_text w]"
      using Some that \<open>brace_stable res\<close> by (auto simp: brace_stable_def)
    moreover have "brace_stable (res @ map word_token parts)"
      using stable_parts [OF Some] \<open>brace_stable res\<close> by (auto simp: brace_stable_def)
    moreover have "\<not> brace_stable (w # ws)" if "parts \<noteq> [tk_text w]"
      using Some that by (auto simp: brace_stable_def)
    moreover have "\<not> brace_stable (w # ws)" if "\<not> brace_stable ws"
      using that by (auto simp: brace_stable_def)
    ultimately show ?thesis
      using 2(1) [OF Some] 2(2) [OF Some] 2(3) Some by (auto split: if_splits)
  qed
qed (auto split: if_splits)

lemma expanded_Some:
  assumes "expanded ws = (fs, Some ws')"
  shows "brace_stable ws' \<and> length ws' \<le> BRACE_WORDS \<and> \<not> brace_stable ws"
  using expanded_from_Some [OF assms [unfolded expanded_def]] by (auto simp: brace_stable_def)

lemma expanded_stable: "brace_stable ws \<Longrightarrow> expanded ws = ([], None)"
proof -
  have "brace_stable ws \<Longrightarrow> expanded_from ws res False = ([], None)" for res
    by (induction ws arbitrary: res) (auto simp: brace_stable_def)
  then show "brace_stable ws \<Longrightarrow> expanded ws = ([], None)" by (simp add: expanded_def)
qed

lemma smaller_suffix: "is_suffix xs ws \<Longrightarrow> smaller xs (w # ws)"
  by (auto simp: smaller_def dest: is_suffix_length is_suffix_set)

lemma opaque_starts_suffix: "t \<in> set (opaque_starts n ws) \<Longrightarrow> is_suffix t ws"
  by (induction n ws rule: opaque_starts.induct) (auto split: if_splits)

lemma until_terminator_smaller: "smaller (until_terminator xs) (w # xs)"
  using length_takeWhile_le [of _ xs] by (auto simp: smaller_def until_terminator_def less_Suc_eq_le dest: set_takeWhileD)

lemma smaller_Cons: "smaller xs ws \<Longrightarrow> smaller xs (w # ws)"
  by (auto simp: smaller_def)

lemma exec_tails_smaller: "t \<in> set (exec_tails P ws) \<Longrightarrow> smaller t ws"
  by (induction ws) (auto split: if_splits intro: until_terminator_smaller smaller_Cons)

lemma unwrap_options_not_Opaque: "w_inner (unwrap_options name sp args) \<noteq> Opaque rest"
  by (auto simp: unwrap_options_def inner_of_def unknown_def Let_def
      split: list.splits sum.splits prod.splits option.splits)

lemma unwrap_Opaque:
  assumes "unwrap ws = Some u" "w_inner u = Opaque rest"
  shows "rest = tl ws \<and> ws \<noteq> []"
  using assms
  by (auto simp: unwrap_def unwrap_options_not_Opaque su_def Let_def split: list.splits if_splits)

lemma runners_cong:
  assumes "\<And>t p v. smaller t ws \<Longrightarrow> f t p v = g t p v"
  shows "runners rec f name ws = runners rec g name ws"
proof -
  have "map (\<lambda>t. f t p v) (exec_tails P ws) = map (\<lambda>t. g t p v) (exec_tails P ws)" for P p v
    by (rule map_cong) (auto intro: assms exec_tails_smaller)
  then show ?thesis unfolding runners_def Let_def by (simp only:)
qed

lemma inner_findings_cong:
  assumes "\<And>t p v. smaller t ws \<Longrightarrow> f t p v = g t p v" "unwrap ws = Some u"
  shows "inner_findings rec f name (w_inner u) ws pipe v = inner_findings rec g name (w_inner u) ws pipe v"
proof (cases "w_inner u")
  case (Argv rest)
  from unwrap_Argv [OF assms(2) Argv] have "smaller rest ws"
    by (auto simp: smaller_def dest: is_suffix_set)
  with Argv assms(1) show ?thesis by (simp add: inner_findings_def)
next
  case (Opaque rest)
  from unwrap_Opaque [OF assms(2) Opaque] obtain w where ws: "ws = w # rest" by (cases ws) auto
  have "map (\<lambda>t. f t pipe v) (opaque_starts n rest) = map (\<lambda>t. g t pipe v) (opaque_starts n rest)" for n
    by (rule map_cong) (auto intro!: assms(1) simp: ws dest!: opaque_starts_suffix smaller_suffix [where w = w])
  with Opaque show ?thesis unfolding inner_findings_def by (simp only: inner.case)
qed (simp_all add: inner_findings_def)

lemma words_body_cong:
  assumes "\<And>t p v. smaller t ws \<Longrightarrow> f t p v = g t p v"
    and "\<And>fs t p v. expanded ws = (fs, Some t) \<Longrightarrow> f t p v = g t p v"
  shows "words_body e rec f ws pipe v = words_body e rec g ws pipe v"
proof (cases ws)
  case (Cons w rest)
  note r = runners_cong [of ws f g, OF assms(1)]
  note i = inner_findings_cong [of ws f g, OF assms(1)]
  show ?thesis
    unfolding words_body_def Cons list.case
    using assms(2) r i Cons
    by (auto simp: unwrapped_findings_def program_findings_def Let_def split: option.split prod.split)
qed (simp add: words_body_def)

definition words_need :: "token list \<Rightarrow> nat" where
  "words_need ws = (if brace_stable ws then length ws else length ws + Suc BRACE_WORDS)"

lemma words_fuel_Nil [simp]: "words_fuel n e rec [] pipe v = []"
  by (cases n) (simp_all add: words_body_def)

lemma words_fuel_enough:
  "words_need ws \<le> n \<Longrightarrow> words_need ws \<le> k \<Longrightarrow>
     words_fuel n e rec ws pipe v = words_fuel k e rec ws pipe v"
proof (induction n arbitrary: k ws pipe v)
  case 0
  then have "ws = []" by (simp add: words_need_def split: if_splits)
  then show ?case by simp
next
  case (Suc n)
  show ?case
  proof (cases k)
    case 0
    with Suc.prems have "ws = []" by (simp add: words_need_def split: if_splits)
    then show ?thesis by simp
  next
    case (Suc k')
    have small: "words_need t \<le> n \<and> words_need t \<le> k'" if "smaller t ws" for t
      using Suc.prems Suc that stable_subset [of t ws]
      by (auto simp: words_need_def smaller_def split: if_splits)
    have expd: "words_need t \<le> n \<and> words_need t \<le> k'" if "expanded ws = (fs, Some t)" for fs t
      using Suc.prems Suc expanded_Some [OF that]
      by (auto simp: words_need_def split: if_splits)
    have "words_body e rec (words_fuel n e rec) ws pipe v = words_body e rec (words_fuel k' e rec) ws pipe v"
      by (rule words_body_cong) (use small expd Suc.IH in blast)+
    then show ?thesis using Suc by simp
  qed
qed

lemma words_unfold:
  "words_findings e rec ws pipe v = words_body e rec (words_findings e rec) ws pipe v"
proof -
  have "words_fuel (length ws + Suc BRACE_WORDS) e rec ws pipe v =
      words_fuel (Suc (length ws + Suc BRACE_WORDS)) e rec ws pipe v"
    by (rule words_fuel_enough) (simp_all add: words_need_def)
  also have "\<dots> = words_body e rec (words_findings e rec) ws pipe v"
    unfolding words_fuel.simps words_findings_def
  proof (rule words_body_cong)
    show "words_fuel (length ws + Suc BRACE_WORDS) e rec t p v =
        words_fuel (length t + Suc BRACE_WORDS) e rec t p v" if "smaller t ws" for t p v
      using that by (intro words_fuel_enough) (auto simp: words_need_def smaller_def)
    show "words_fuel (length ws + Suc BRACE_WORDS) e rec t p v =
        words_fuel (length t + Suc BRACE_WORDS) e rec t p v" if "expanded ws = (fs, Some t)" for fs t p v
      using expanded_Some [OF that] by (intro words_fuel_enough) (auto simp: words_need_def)
  qed
  finally show ?thesis by (simp add: words_findings_def)
qed

text \<open>The assessment of a command's words follows the recursion of the source and
  always returns: brace expansion happens at most once on the way down and everything
  else shortens the words, so the bound of \<^const>\<open>words_findings\<close> never cuts it short.\<close>

theorem words_recursion:
  "words_findings e rec ws pipe v = words_body e rec (words_findings e rec) ws pipe v"
  by (rule words_unfold)

section \<open>The level of a list of findings\<close>

abbreviation worst :: "risk_finding list \<Rightarrow> risk_level" where
  "worst fs \<equiv> max_level (map level fs)"

lemma worst_append_mono: "worst a \<le> worst b \<Longrightarrow> worst c \<le> worst d \<Longrightarrow> worst (a @ c) \<le> worst (b @ d)"
  by (auto simp: le_max_iff_disj)

lemma worst_concat_mono:
  "(\<And>x. x \<in> set xs \<Longrightarrow> worst (f x) \<le> worst (g x)) \<Longrightarrow>
     worst (concat (map f xs)) \<le> worst (concat (map g xs))"
proof (induction xs)
  case (Cons x xs)
  have "worst (f x @ concat (map f xs)) \<le> worst (g x @ concat (map g xs))"
    by (intro worst_append_mono Cons.IH Cons.prems) simp_all
  then show ?case by simp
qed simp

lemma worst_mem: "f \<in> set fs \<Longrightarrow> level f \<le> worst fs"
  by (rule max_level_ge) simp

lemma worst_subset: "set xs \<subseteq> set ys \<Longrightarrow> worst xs \<le> worst ys"
  by (auto simp: max_level_le_iff intro: worst_mem)

lemma worst_if_mono:
  "worst a \<le> worst a' \<Longrightarrow> worst b \<le> worst b' \<Longrightarrow>
     worst (if c then a else b) \<le> worst (if c then a' else b')"
  by simp

lemma level_confirm [simp]: "level (confirm r) = Confirm"
  by (simp add: confirm_def)

section \<open>Privileges and feeders never lower the level\<close>

definition via_le :: "via \<Rightarrow> via \<Rightarrow> bool" where
  "via_le v v' \<longleftrightarrow> (elevated v \<longrightarrow> elevated v') \<and> (fed_by v \<noteq> None \<longrightarrow> fed_by v' \<noteq> None)"

text \<open>What a script judgement promises to the commands that run one: elevation only adds.\<close>

text \<open>The words a command is judged as: what brace expansion makes of them, and the command that the
  wrappers around it run, any number deep.\<close>

inductive judged_as :: "token list \<Rightarrow> token list \<Rightarrow> bool" where
  itself: "judged_as ws ws"
| braces: "expanded ws = (fs, Some ws') \<Longrightarrow> judged_as ws' ws'' \<Longrightarrow> judged_as ws ws''"
| behind: "snd (expanded ws) = None \<Longrightarrow> unwrap ws = Some u \<Longrightarrow> w_inner u = Argv rest \<Longrightarrow> judged_as rest ws'' \<Longrightarrow>
    judged_as ws ws''"

locale script_judge =
  fixes rec :: script_rec
  assumes elevation: "worst (rec s False) \<le> worst (rec s True)"
begin

lemma elevation_le: "(a \<longrightarrow> b) \<Longrightarrow> worst (rec s a) \<le> worst (rec s b)"
  using elevation by (cases a; cases b) auto

lemma fed_findings_mono:
  "via_le v v' \<Longrightarrow> worst (fed_findings name pipe v) \<le> worst (fed_findings name pipe v')"
  by (auto simp: fed_findings_def via_le_def max_level_def max_def split: option.split)

lemma destructive_mono:
  assumes "via_le v v'"
  shows "worst (destructive e name ws pipe v) \<le> worst (destructive e name ws pipe v')"
  unfolding destructive_def Let_def
  by (intro worst_if_mono worst_append_mono order_refl fed_findings_mono assms)

lemma inner_findings_mono:
  assumes "via_le v v'" "\<And>ws p. worst (f ws p v) \<le> worst (f ws p v')"
  shows "worst (inner_findings rec f name i ws pipe v) \<le> worst (inner_findings rec f name i ws pipe v')"
proof (cases i)
  case (Scripts scripts)
  have "worst (concat (map (\<lambda>s. rec s (elevated v)) scripts)) \<le>
      worst (concat (map (\<lambda>s. rec s (elevated v')) scripts))"
    by (rule worst_concat_mono) (rule elevation_le, use assms(1) in \<open>simp add: via_le_def\<close>)
  with Scripts show ?thesis
    unfolding inner_findings_def by (simp only: inner.case) (rule worst_append_mono, simp_all)
qed (use assms(2) in \<open>auto simp: inner_findings_def intro!: worst_concat_mono\<close>)

lemma words_fuel_mono:
  "via_le v v' \<Longrightarrow> worst (words_fuel n e rec ws pipe v) \<le> worst (words_fuel n e rec ws pipe v')"
proof (induction n arbitrary: ws pipe v v')
  case (Suc n)
  have unw: "worst (unwrapped_findings e rec (words_fuel n e rec) u xs pipe v) \<le>
      worst (unwrapped_findings e rec (words_fuel n e rec) u xs pipe v')" for u xs
    unfolding unwrapped_findings_def Let_def
    by (intro worst_append_mono order_refl inner_findings_mono Suc.IH)
       (use Suc.prems in \<open>auto simp: via_le_def\<close>)
  have prog: "worst (program_findings e rec (words_fuel n e rec) p xs pipe v) \<le>
      worst (program_findings e rec (words_fuel n e rec) p xs pipe v')" for p xs
    unfolding program_findings_def Let_def
    by (intro worst_if_mono order_refl worst_append_mono destructive_mono Suc.prems)
  show ?case
  proof (cases ws)
    case (Cons p xs)
    obtain fs r where ex: "expanded ws = (fs, r)" by fastforce
    show ?thesis
      unfolding words_fuel.simps words_body_def Cons list.case ex [unfolded Cons] prod.case
      by (cases r; cases "unwrap (p # xs)")
         (simp_all only: option.case, auto intro!: worst_append_mono unw prog Suc.IH Suc.prems
          simp del: map_append)
  qed (simp add: words_body_def)
qed simp

lemma words_mono:
  "via_le v v' \<Longrightarrow> worst (words_findings e rec ws pipe v) \<le> worst (words_findings e rec ws pipe v')"
  unfolding words_findings_def by (rule words_fuel_mono)

lemma command_mono:
  "via_le v v' \<Longrightarrow> worst (command_findings e rec v c) \<le> worst (command_findings e rec v' c)"
  unfolding command_findings_def by (intro worst_append_mono order_refl words_mono)

text \<open>A wrapper adds to what its command would be judged on its own, and so does a brace pattern.\<close>

lemma wrapped_part:
  assumes "snd (expanded ws) = None" "unwrap ws = Some u" "w_inner u = Argv rest"
  shows "\<exists>v'. via_le v v' \<and> set (words_findings e rec rest pipe v') \<subseteq> set (words_findings e rec ws pipe v)"
proof -
  let ?v = "\<lparr>elevated = elevated v \<or> List.member ELEVATING (w_name u),
      fed_by = (if w_name u = ''xargs'' then Some ''xargs'' else fed_by v)\<rparr>"
  obtain w ws' where ws: "ws = w # ws'" using unwrap_name [OF assms(2)] by (cases ws) auto
  obtain fs where ex: "expanded ws = (fs, None)" using assms(1) by (cases "expanded ws") auto
  have "set (words_findings e rec rest pipe ?v) \<subseteq> set (unwrapped_findings e rec (words_findings e rec) u ws pipe v)"
    by (auto simp: unwrapped_findings_def inner_findings_def assms(3) Let_def)
  also have "\<dots> \<subseteq> set (words_findings e rec ws pipe v)"
    using ex assms(2) ws by (subst words_unfold [of e rec ws pipe v]) (simp add: words_body_def)
  finally show ?thesis by (intro exI [of _ ?v]) (simp add: via_le_def)
qed

lemma judged_part:
  "judged_as ws ws' \<Longrightarrow>
     \<exists>v'. via_le v v' \<and> set (words_findings e rec ws' pipe v') \<subseteq> set (words_findings e rec ws pipe v)"
proof (induction arbitrary: v rule: judged_as.induct)
  case (itself ws)
  then show ?case by (intro exI [of _ v]) (simp add: via_le_def)
next
  case (braces ws fs ws' ws'')
  obtain w ws1 where "ws = w # ws1" using braces(1) by (cases ws) (auto simp: expanded_def)
  then have "set (words_findings e rec ws' pipe v) \<subseteq> set (words_findings e rec ws pipe v)"
    using braces(1) by (subst words_unfold [of e rec ws pipe v]) (simp add: words_body_def)
  then show ?case using braces.IH [of v] by blast
next
  case (behind ws u rest ws'')
  obtain v1 where v1: "via_le v v1" "set (words_findings e rec rest pipe v1) \<subseteq> set (words_findings e rec ws pipe v)"
    using wrapped_part [OF behind(1-3)] by blast
  obtain v2 where "via_le v1 v2" "set (words_findings e rec ws'' pipe v2) \<subseteq> set (words_findings e rec rest pipe v1)"
    using behind.IH [of v1] by blast
  then show ?case using v1 by (intro exI [of _ v2]) (auto simp: via_le_def)
qed

lemma judged_le:
  assumes "judged_as ws ws'"
  shows "worst (words_findings e rec ws' pipe v) \<le> worst (words_findings e rec ws pipe v)"
proof -
  obtain v' where v': "via_le v v'" "set (words_findings e rec ws' pipe v') \<subseteq> set (words_findings e rec ws pipe v)"
    using judged_part [OF assms] by blast
  have "worst (words_findings e rec ws' pipe v) \<le> worst (words_findings e rec ws' pipe v')" by (rule words_mono [OF v'(1)])
  also have "\<dots> \<le> worst (words_findings e rec ws pipe v)" by (rule worst_subset [OF v'(2)])
  finally show ?thesis .
qed

end

lemma script_at_elevation: "worst (script_at n e s False) \<le> worst (script_at n e s True)"
proof (induction n arbitrary: s)
  case (Suc n)
  have judge: "script_judge (script_at n e)" by (rule script_judge.intro) (rule Suc.IH)
  show ?case
    unfolding script_at.simps Let_def
    by (intro worst_append_mono order_refl worst_concat_mono script_judge.command_mono [OF judge])
       (simp add: via_le_def)
qed simp

interpretation scripts: script_judge "script_at n e" for n e
  by unfold_locales (rule script_at_elevation)

text \<open>The limit of both: one word with more than \<open>BRACE_WORDS\<close> expansions is a finding of its own, at
  the level \<open>Confirm\<close>, and the other words of the command are not looked at any more.\<close>

lemma expanded_from_wide:
  "w \<in> set ws \<Longrightarrow> expand_braces (tk_text w) BRACE_WORDS = None \<Longrightarrow>
     \<exists>r. expanded_from ws res changed = ([confirm r], Some [])"
  by (induction ws res changed rule: expanded_from.induct) (auto split: option.split)

lemma word_too_wide:
  assumes "w \<in> set ws" "expand_braces (tk_text w) BRACE_WORDS = None"
  shows "\<exists>r. words_findings e rec ws pipe v = [confirm r]"
proof -
  obtain r where r: "expanded ws = ([confirm r], Some [])" using expanded_from_wide [OF assms] by (auto simp: expanded_def)
  obtain w ws1 where "ws = w # ws1" using assms(1) by (cases ws) auto
  moreover have "words_findings e rec [] pipe v = []" by (subst words_unfold) (simp add: words_body_def)
  ultimately have "words_findings e rec ws pipe v = [confirm r]"
    using r by (subst words_unfold [of e rec ws pipe v]) (simp add: words_body_def)
  then show ?thesis by blast
qed

end
