(* ===== verification/Gate.thy ===== *)
theory Gate
  imports Assess
begin

text \<open>
  \<^verbatim>\<open>crates/pacode-risk/src/gate.rs\<close>: classification of a line and the reflection gate.
  The environment (\<^verbatim>\<open>HOME\<close>, \<^verbatim>\<open>TMPDIR\<close>) is an argument.  Lower-casing and trimming of a
  justification are those of ASCII text.
\<close>

datatype gate_outcome = Allow | Reflect string | Deny string

type_synonym justification = "string option"

definition MIN_JUSTIFICATION_LEN :: nat where
  "MIN_JUSTIFICATION_LEN = 25"

definition EMPTY_AFFIRMATIONS :: "string list" where
  "EMPTY_AFFIRMATIONS =
     [''yes'', ''ok'', ''okay'', ''sure'', ''confirmed'', ''proceed'', ''do it'', ''continue'',
      ''y'', ''approved'', ''go ahead'']"

definition is_substantive :: "justification \<Rightarrow> bool" where
  "is_substantive j =
     (case j of None \<Rightarrow> False
      | Some raw \<Rightarrow>
          (let str = trim raw
           in if length str < MIN_JUSTIFICATION_LEN then False
              else
                (let stripped = trim (trim_end_matches (\<lambda>c. List.member ''.!?'' c) (to_ascii_lowercase str))
                 in \<not> List.member EMPTY_AFFIRMATIONS stripped)))"

definition reflection_prompt :: "risk_assessment \<Rightarrow> string" where
  "reflection_prompt a =
     ''This command was not run. It is irreversible:'' @ [NL, NL] @ explanation a @ [NL] @
     ''Before it can proceed, stop and check it against the user's actual request:'' @ [NL] @
     ''- Which specific thing the user asked for requires deleting this?'' @ [NL] @
     ''- Did the user name this path, or did you infer it?'' @ [NL] @
     ''- If you inferred it, is a narrower target enough?'' @ [NL] @
     ''- If this is wrong, nothing here can be recovered.'' @ [NL, NL] @
     ''If it is genuinely what the user asked for, re-issue the same call with a '' @
     ''`justification` field explaining which request it serves. If you are not sure, '' @
     ''ask the user instead: that costs one message, and being wrong costs their data.''"

definition deny_reason :: "risk_assessment \<Rightarrow> string" where
  "deny_reason a =
     ''This command is blocked and cannot be confirmed.'' @ [NL, NL] @ explanation a @ [NL] @
     ''If the user genuinely wants this, they must run it themselves outside the agent.''"

definition gate :: "risk_assessment \<Rightarrow> justification \<Rightarrow> gate_outcome" where
  "gate a j =
     (case a_level a of
        Safe \<Rightarrow> Allow
      | Low \<Rightarrow> Allow
      | Catastrophic \<Rightarrow> Deny (deny_reason a)
      | Confirm \<Rightarrow> if is_substantive j then Allow else Reflect (reflection_prompt a))"

definition classify_with_home :: "env \<Rightarrow> string \<Rightarrow> risk_assessment" where
  "classify_with_home e command =
     (let fs = script_findings e command False 0 in if fs = [] then safe else from_findings fs)"

text \<open>\<^verbatim>\<open>classify\<close>: an unset or empty \<^verbatim>\<open>HOME\<close> is the root directory.\<close>

definition classify :: "string option \<Rightarrow> string option \<Rightarrow> string \<Rightarrow> path \<Rightarrow> risk_assessment" where
  "classify home_var tmpdir_var command dir =
     (let h = (case home_var of None \<Rightarrow> ''/'' | Some s \<Rightarrow> if s = '''' then ''/'' else s)
      in classify_with_home \<lparr>cwd = dir, home = h, tmpdir = tmpdir_var\<rparr> command)"

section \<open>The level of a line is its worst finding\<close>

lemma classify_level [simp]: "a_level (classify_with_home e line) = worst (script_findings e line False 0)"
  by (simp add: classify_with_home_def safe_def Let_def)

lemma script_findings_0:
  "script_findings e line el 0 =
     map unresolved_finding (remdups_adj (unresolved (parse line)))
     @ download_to_shell (commands (parse line))
     @ concat (map (command_findings e (script_at MAX_DEPTH e) \<lparr>elevated = el, fed_by = None\<rparr>)
         (commands (parse line)))"
  by (simp add: script_findings_def Let_def)

text \<open>The gate decides by the findings alone: a command runs at once exactly when no
  finding exceeds \<^const>\<open>Low\<close>, it runs with a substantive justification exactly when none
  is catastrophic, and a catastrophic finding is refused whatever the justification.\<close>

theorem gate_decision:
  "(gate (classify_with_home e line) j = Allow \<longleftrightarrow>
      (\<forall>f \<in> set (script_findings e line False 0). level f \<le> Low) \<or>
      is_substantive j \<and> (\<forall>f \<in> set (script_findings e line False 0). level f \<le> Confirm)) \<and>
   ((\<exists>r. gate (classify_with_home e line) j = Deny r) \<longleftrightarrow>
      (\<exists>f \<in> set (script_findings e line False 0). level f = Catastrophic))"
proof -
  let ?l = "worst (script_findings e line False 0)"
  have low: "?l \<le> b \<longleftrightarrow> (\<forall>f \<in> set (script_findings e line False 0). level f \<le> b)" for b
    by (simp add: max_level_le_iff)
  have cat: "?l = Catastrophic \<longleftrightarrow> (\<exists>f \<in> set (script_findings e line False 0). level f = Catastrophic)"
  proof
    assume l: "?l = Catastrophic"
    then have "?l \<in> set (map level (script_findings e line False 0))" by (intro max_level_mem) simp
    with l have "Catastrophic \<in> level ` set (script_findings e line False 0)" by simp
    then show "\<exists>f \<in> set (script_findings e line False 0). level f = Catastrophic" by (metis imageE)
  next
    assume "\<exists>f \<in> set (script_findings e line False 0). level f = Catastrophic"
    then have "Catastrophic \<le> ?l" by (auto dest: worst_mem)
    then show "?l = Catastrophic" by (cases ?l) simp_all
  qed
  show ?thesis
    unfolding low [symmetric] cat [symmetric]
    by (cases ?l) (auto simp: gate_def)
qed

theorem gate_decision_witness:
  "(gate (classify_with_home \<lparr>cwd = ''/w'', home = ''/h'', tmpdir = None\<rparr> ''rm /'') None = Allow \<longleftrightarrow>
      (\<forall>f \<in> set (script_findings \<lparr>cwd = ''/w'', home = ''/h'', tmpdir = None\<rparr> ''rm /'' False 0). level f \<le> Low) \<or>
      is_substantive None \<and>
      (\<forall>f \<in> set (script_findings \<lparr>cwd = ''/w'', home = ''/h'', tmpdir = None\<rparr> ''rm /'' False 0). level f \<le> Confirm)) \<and>
   ((\<exists>r. gate (classify_with_home \<lparr>cwd = ''/w'', home = ''/h'', tmpdir = None\<rparr> ''rm /'') None = Deny r) \<longleftrightarrow>
      (\<exists>f \<in> set (script_findings \<lparr>cwd = ''/w'', home = ''/h'', tmpdir = None\<rparr> ''rm /'' False 0).
         level f = Catastrophic))"
  by (rule gate_decision)

text \<open>C1: the gate fails closed.  A line with any part that could not be read statically
  (an unterminated quote, grammar the parser cannot follow, substitutions nested too
  deeply) never runs without a substantive justification, and says so in a finding.\<close>

theorem gate_fails_closed:
  assumes "unresolved (parse line) \<noteq> []"
  shows "Confirm \<le> a_level (classify_with_home e line) \<and>
    (gate (classify_with_home e line) j = Allow \<longrightarrow> is_substantive j) \<and>
    (\<forall>r \<in> set (unresolved (parse line)). unresolved_finding r \<in> set (findings (classify_with_home e line)))"
proof -
  have mem: "unresolved_finding r \<in> set (script_findings e line False 0)"
    if "r \<in> set (unresolved (parse line))" for r
    using that by (simp add: script_findings_0)
  obtain r where "r \<in> set (unresolved (parse line))" using assms by (cases "unresolved (parse line)") auto
  from worst_mem [OF mem [OF this]] have lev: "Confirm \<le> a_level (classify_with_home e line)"
    by (simp add: unresolved_finding_def)
  moreover have "gate (classify_with_home e line) j = Allow \<longrightarrow> is_substantive j"
    using lev by (cases "a_level (classify_with_home e line)") (auto simp: gate_def)
  moreover have "set (script_findings e line False 0) = set (findings (classify_with_home e line))"
    by (simp add: classify_with_home_def safe_def Let_def)
  ultimately show ?thesis using mem by blast
qed

theorem gate_fails_closed_witness:
  "Confirm \<le> a_level (classify_with_home \<lparr>cwd = ''/w'', home = ''/h'', tmpdir = None\<rparr> [DQ]) \<and>
    gate (classify_with_home \<lparr>cwd = ''/w'', home = ''/h'', tmpdir = None\<rparr> [DQ]) (Some ''ok'') \<noteq> Allow \<and>
    unresolved_finding UNTERMINATED \<in> set (findings (classify_with_home \<lparr>cwd = ''/w'', home = ''/h'', tmpdir = None\<rparr> [DQ]))"
proof -
  have u: "unresolved (parse [DQ]) = [UNTERMINATED]" by code_simp
  have "\<not> is_substantive (Some ''ok'')" by code_simp
  with gate_fails_closed [of "[DQ]" "\<lparr>cwd = ''/w'', home = ''/h'', tmpdir = None\<rparr>" "Some ''ok''"] u
  show ?thesis by simp
qed

section \<open>What a destructive command names is always judged\<close>

lemma destructive_target_found:
  assumes "snd (expanded (p # args)) = None" "unwrap (p # args) = None" "\<not> is_computed p"
    "triggered (basename p) (p # args)" "t \<in> set args" "\<not> is_flag t"
    "classify_target (tmpdir e) (target_path (tk_text t)) (list_ex is_recursive_flag (p # args))
       (cwd e) (home e) False = Some f"
  shows "f \<in> set (words_findings e rec (p # args) pipe v)"
proof -
  have "filter (\<lambda>t. \<not> is_flag t) args \<noteq> []" using assms(5,6) by (auto simp: filter_empty_conv)
  then have "f \<in> set (destructive e (basename p) (p # args) pipe v)"
    using assms(4-7) unfolding destructive_def Let_def by (auto simp: map_filter_def image_iff intro: bexI [of _ t])
  then show ?thesis
    using assms(1-3) by (cases "expanded (p # args)") (auto simp: words_unfold [of e rec "p # args"] words_body_def program_findings_def Let_def)
qed

lemma command_in_script:
  assumes "c \<in> set (commands (parse line))"
  shows "set (words_findings e (script_at MAX_DEPTH e) (words c) (receives_pipe c) \<lparr>elevated = el, fed_by = None\<rparr>)
    \<subseteq> set (script_findings e line el 0)"
  using assms by (auto simp: script_findings_0 command_findings_def)

text \<open>C2: a protected target is refused wherever the command stands: on the line, behind the
  wrappers in front of it, or in words that come out of brace patterns (\<open>judged_as\<close>).  When such a
  command destroys data, names no computed program and names a target that is catastrophic, the
  gate denies the line, whatever else is on it and whatever justification is given.  The words
  must be within the expansion limit: a command with one word of more than 64 expansions is a
  \<open>Confirm\<close> on the strength of that word alone (lemma \<open>word_too_wide\<close>).\<close>

theorem catastrophic_target_denied:
  assumes "c \<in> set (commands (parse line))" "judged_as (words c) (p # args)"
    "snd (expanded (p # args)) = None" "unwrap (p # args) = None" "\<not> is_computed p"
    "triggered (basename p) (p # args)" "t \<in> set args" "\<not> is_flag t"
    "classify_target (tmpdir e) (target_path (tk_text t)) (list_ex is_recursive_flag (p # args))
       (cwd e) (home e) False = Some f" "level f = Catastrophic"
  shows "\<exists>r. gate (classify_with_home e line) j = Deny r"
proof -
  have "f \<in> set (words_findings e (script_at MAX_DEPTH e) (p # args) (receives_pipe c) v)" for v
    using assms(3-9) by (rule destructive_target_found)
  then have "f \<in> set (script_findings e line False 0)"
    using scripts.judged_part [OF assms(2)] command_in_script [OF assms(1), of e False] by blast
  then have "Catastrophic \<le> a_level (classify_with_home e line)"
    using worst_mem assms(10) by fastforce
  then show ?thesis by (cases "a_level (classify_with_home e line)") (auto simp: gate_def)
qed

theorem catastrophic_target_denied_witness:
  "\<exists>r. gate (classify_with_home \<lparr>cwd = ''/w'', home = ''/h'', tmpdir = None\<rparr> ''ls;sudo rm {/,x}'') (Some ''x'') = Deny r"
proof (rule catastrophic_target_denied [where
      c = "default_command\<lparr>words := [word_token ''sudo'', word_token ''rm'', word_token ''{/,x}'']\<rparr>"
      and p = "word_token ''rm''" and args = "[word_token ''/'', word_token ''x'']" and t = "word_token ''/''" and
      f = "finding Catastrophic (''targets a protected system, home, or credentials path that must never '' @
        ''be destroyed'') (Some ''/'')"])
  show "default_command\<lparr>words := [word_token ''sudo'', word_token ''rm'', word_token ''{/,x}'']\<rparr> \<in> set (commands (parse ''ls;sudo rm {/,x}''))"
    by code_simp
  have "judged_as [word_token ''rm'', word_token ''/'', word_token ''x''] [word_token ''rm'', word_token ''/'', word_token ''x'']"
    by (rule judged_as.itself)
  moreover have "snd (expanded [word_token ''sudo'', word_token ''rm'', word_token ''/'', word_token ''x'']) = None" by code_simp
  moreover have "unwrap [word_token ''sudo'', word_token ''rm'', word_token ''/'', word_token ''x''] =
      Some \<lparr>w_name = ''sudo'', w_inner = Argv [word_token ''rm'', word_token ''/'', word_token ''x''], w_writes = []\<rparr>" by code_simp
  moreover have "expanded [word_token ''sudo'', word_token ''rm'', word_token ''{/,x}''] =
      ([], Some [word_token ''sudo'', word_token ''rm'', word_token ''/'', word_token ''x''])" by code_simp
  ultimately have "judged_as [word_token ''sudo'', word_token ''rm'', word_token ''{/,x}''] [word_token ''rm'', word_token ''/'', word_token ''x'']"
    by (blast intro: judged_as.braces judged_as.behind unwrapped.select_convs)
  then show "judged_as (words (default_command\<lparr>words := [word_token ''sudo'', word_token ''rm'', word_token ''{/,x}'']\<rparr>))
      [word_token ''rm'', word_token ''/'', word_token ''x'']" by simp
  show "snd (expanded [word_token ''rm'', word_token ''/'', word_token ''x'']) = None" by code_simp
  show "unwrap [word_token ''rm'', word_token ''/'', word_token ''x''] = None" by code_simp
  show "\<not> is_computed (word_token ''rm'')" by code_simp
  show "triggered (basename (word_token ''rm'')) [word_token ''rm'', word_token ''/'', word_token ''x'']" by code_simp
  show "\<not> is_flag (word_token ''/'')" by code_simp
  show "classify_target (tmpdir \<lparr>cwd = ''/w'', home = ''/h'', tmpdir = None\<rparr>)
      (target_path (tk_text (word_token ''/''))) (list_ex is_recursive_flag [word_token ''rm'', word_token ''/'', word_token ''x''])
      (cwd \<lparr>cwd = ''/w'', home = ''/h'', tmpdir = None\<rparr>) (home \<lparr>cwd = ''/w'', home = ''/h'', tmpdir = None\<rparr>) False =
    Some (finding Catastrophic (''targets a protected system, home, or credentials path that must never '' @
        ''be destroyed'') (Some ''/''))"
    by code_simp
qed simp_all

text \<open>C31: a wrapper never hides or softens the command it runs.  Whatever the words of a command
  come to by expanding their brace patterns and by taking off wrappers such as \<^verbatim>\<open>sudo X\<close>,
  \<^verbatim>\<open>env A=1 X\<close>, \<^verbatim>\<open>timeout 5 X\<close> or \<^verbatim>\<open>xargs X\<close>, in any number and order, they are judged at least as
  risky as what they come to, at every nesting depth.  Expansion stops at 64 words: a single
  word of more is judged \<open>Confirm\<close>, and with it the command (lemma \<open>word_too_wide\<close>).\<close>

theorem wrapper_never_hides:
  assumes "judged_as ws ws'"
  shows "worst (words_findings e (script_at n e) ws' pipe v) \<le> worst (words_findings e (script_at n e) ws pipe v)"
  by (rule scripts.judged_le [OF assms])

theorem wrapper_never_hides_witness:
  "worst (words_findings \<lparr>cwd = ''/w'', home = ''/h'', tmpdir = None\<rparr>
      (script_at 1 \<lparr>cwd = ''/w'', home = ''/h'', tmpdir = None\<rparr>) [word_token ''rm'', word_token ''/'']
      False \<lparr>elevated = False, fed_by = None\<rparr>) \<le>
   worst (words_findings \<lparr>cwd = ''/w'', home = ''/h'', tmpdir = None\<rparr>
      (script_at 1 \<lparr>cwd = ''/w'', home = ''/h'', tmpdir = None\<rparr>)
      [word_token ''nohup'', word_token ''rm'', word_token ''/''] False \<lparr>elevated = False, fed_by = None\<rparr>)"
proof (rule wrapper_never_hides)
  have "snd (expanded [word_token ''nohup'', word_token ''rm'', word_token ''/'']) = None" by code_simp
  moreover have "unwrap [word_token ''nohup'', word_token ''rm'', word_token ''/''] =
      Some \<lparr>w_name = ''nohup'', w_inner = Argv [word_token ''rm'', word_token ''/''], w_writes = []\<rparr>"
    by code_simp
  ultimately show "judged_as [word_token ''nohup'', word_token ''rm'', word_token ''/''] [word_token ''rm'', word_token ''/'']"
    by (blast intro: judged_as.behind judged_as.itself unwrapped.select_convs)
qed

section \<open>Substitutions\<close>

lemma parsed_nested_infix:
  "n \<in> set ns \<Longrightarrow> \<exists>xs ys. commands (parsed_nested ns d) = xs @ commands (parsed n d) @ ys"
proof (induction ns)
  case (Cons m ns)
  have head: "commands (parsed_nested (m # ns) d) = commands (parsed m d) @ commands (parsed_nested ns d)"
    by (simp add: one_substitution_def)
  show ?case
  proof (cases "n = m")
    case True
    with head show ?thesis by (metis append_Nil)
  next
    case False
    with Cons obtain xs ys where "commands (parsed_nested ns d) = xs @ commands (parsed n d) @ ys" by auto
    with head show ?thesis by (metis append.assoc)
  qed
qed simp

lemma parse_nested:
  assumes "n \<in> set (nested (lex src))" and "TOO_DEEP \<notin> set (unresolved (parse src))"
  shows "(\<exists>xs ys. commands (parse src) = xs @ commands (parse n) @ ys) \<and>
    set (unresolved (parse n)) \<subseteq> set (unresolved (parse src))"
proof -
  have src: "parse src = append_script (parse_run (tokens (lex src)) (heredoc_bodies (lex src))
        (default_script\<lparr>unresolved := lex_unresolved (lex src)\<rparr>)) (parsed_nested (nested (lex src)) 1)"
    using parsed_unfold [of 0 src] by (simp add: parse_def)
  have "TOO_DEEP \<notin> set (unresolved (parsed n 1))"
    using assms(2) src parsed_nested_mem(2) [OF assms(1), of 1] by auto
  then have eq: "parsed n 0 = parsed n 1" by (rule parsed_shallower) simp
  from parsed_nested_infix [OF assms(1), of 1] obtain xs ys where
    "commands (parsed_nested (nested (lex src)) 1) = xs @ commands (parse n) @ ys"
    by (auto simp: parse_def eq)
  moreover have "set (unresolved (parse n)) \<subseteq> set (unresolved (parse src))"
    using parsed_nested_mem(2) [OF assms(1), of 1] src by (auto simp: parse_def [of n] eq)
  ultimately show ?thesis using src by (metis append.assoc append_script_simps(1))
qed

lemma download_infix: "set (download_to_shell cs) \<subseteq> set (download_to_shell (xs @ cs @ ys))"
proof -
  have "set (zip cs (drop 1 cs)) \<subseteq> set (zip (xs @ cs @ ys) (drop 1 (xs @ cs @ ys)))"
  proof
    fix q assume "q \<in> set (zip cs (drop 1 cs))"
    then obtain i where "zip cs (drop 1 cs) ! i = q" "i < length (zip cs (drop 1 cs))"
      by (auto simp: in_set_conv_nth)
    then have "fst q = cs ! i" "snd q = cs ! Suc i" "Suc i < length cs" by auto
    moreover define ds where "ds = xs @ cs @ ys"
    ultimately have "ds ! (length xs + i) = fst q" "ds ! Suc (length xs + i) = snd q"
      "Suc (length xs + i) < length ds"
      by (auto simp: nth_append simp flip: add_Suc_right)
    then have "q \<in> set (zip ds (drop 1 ds))"
      by (auto simp: in_set_zip intro!: exI [of _ "length xs + i"])
    then show "q \<in> set (zip (xs @ cs @ ys) (drop 1 (xs @ cs @ ys)))" by (simp only: ds_def)
  qed
  then show ?thesis by (auto simp: download_to_shell_def)
qed

text \<open>A substitution never lowers the level: a line is at least as risky as any line
  inside its \<^verbatim>\<open>$(..)\<close>, backticks or \<^verbatim>\<open><(..)\<close>, downloads piped into a shell included.\<close>

theorem substitution_never_lowers:
  assumes "n \<in> set (nested (lex line))" "TOO_DEEP \<notin> set (unresolved (parse line))"
  shows "a_level (classify_with_home e n) \<le> a_level (classify_with_home e line)"
proof -
  from parse_nested [OF assms] obtain xs ys where
    cs: "commands (parse line) = xs @ commands (parse n) @ ys"
    and un: "set (unresolved (parse n)) \<subseteq> set (unresolved (parse line))" by auto
  have "set (script_findings e n False 0) \<subseteq> set (script_findings e line False 0)"
    using download_infix [of "commands (parse n)" xs ys] un unfolding script_findings_0 cs by auto
  then show ?thesis by (simp add: worst_subset)
qed

theorem substitution_never_lowers_witness:
  "a_level (classify_with_home \<lparr>cwd = ''/w'', home = ''/h'', tmpdir = None\<rparr> ''rm /'') \<le>
   a_level (classify_with_home \<lparr>cwd = ''/w'', home = ''/h'', tmpdir = None\<rparr> ''ls $(rm /)'')"
proof (rule substitution_never_lowers)
  show "''rm /'' \<in> set (nested (lex ''ls $(rm /)''))" by code_simp
  show "TOO_DEEP \<notin> set (unresolved (parse ''ls $(rm /)''))" by code_simp
qed

section \<open>Two gaps\<close>

text \<open>A glob hides a computed directory.  The tiers of \<^verbatim>\<open>lib.rs\<close> put a target that
  cannot be determined statically at \<^const>\<open>Confirm\<close>, and \<^verbatim>\<open>rm -rf $X\<close> is; but the glob
  check comes before the check for \<^verbatim>\<open>$\<close> and backticks, so \<^verbatim>\<open>rm -rf $X/*\<close> counts as a glob
  inside the working directory and runs at once.\<close>

theorem glob_hides_variable:
  "map (\<lambda>w. map_option level (classify_target None w True ''/w'' ''/h'' False)) [''$X'', ''$X/*''] =
     [Some Confirm, Some Low]"
  by code_simp

text \<open>Many words switch brace expansion off.  A pattern of more than 64 words is a
  finding, but a command of more than 64 words after expansion is judged unexpanded:
  the protected directory inside \<^verbatim>\<open>{/etc,x}\<close> is then a file name in the working
  directory, so \<^verbatim>\<open>rm -rf {/etc,x} {1..61}\<close> is \<^const>\<open>Low\<close> where \<^verbatim>\<open>rm -rf {/etc,x}\<close> is
  \<^const>\<open>Catastrophic\<close>.\<close>

theorem many_words_hide_targets:
  "expanded (map word_token [''rm'', ''-rf'', ''{/etc,x}'', ''{1..61}'']) = ([], None) \<and>
   map (\<lambda>ws. worst (words_findings \<lparr>cwd = ''/w'', home = ''/h'', tmpdir = None\<rparr> (\<lambda>s el. [])
       (map word_token ws) False \<lparr>elevated = False, fed_by = None\<rparr>))
     [[''rm'', ''-rf'', ''{/etc,x}'', ''{1..61}''], [''rm'', ''-rf'', ''{/etc,x}'']] = [Low, Catastrophic]"
  by code_simp

end
