(* ===== verification/Permissions.thy ===== *)
theory Permissions
  imports Gate "HOL-Library.AList"
begin

text \<open>
  \<^verbatim>\<open>crates/pacode-core/src/permissions.rs\<close> and the permission flow of a tool call in
  \<^verbatim>\<open>crates/pacode-core/src/host/permission.rs\<close>.

  The matrix, the zero-data-retention policy and the session key are functions.  The
  store under the mutex is a record; its hash map from request id to request is an
  association list (only lookup, insertion, removal and the number of entries are used).
  The sending half of a request's one-shot channel lives in the store, the receiving half
  with the waiting call: a send is the message returned beside the new store.  The step
  relation \<open>pstep\<close> interleaves calls, answers of the client, interrupts of agents and
  cancelled turns.  Events, transcript items, hooks and agent status are not modelled.
\<close>

section \<open>The matrix\<close>

datatype mode = Build | Auto | Plan | Bypass

datatype tool_kind = ReadOnly | Edit | Exec | Network | Control

datatype permission_decision = AllowOnce | AllowSession | DenyP

datatype gate_decision = GateAllow | GateAsk | GateDeny string

definition perm_gate :: "mode \<Rightarrow> tool_kind \<Rightarrow> risk_level option \<Rightarrow> bool \<Rightarrow> gate_decision" where
  "perm_gate m kind risk allow_catastrophic =
     (case kind of
        ReadOnly \<Rightarrow> GateAllow | Control \<Rightarrow> GateAllow | Network \<Rightarrow> GateAllow
      | Edit \<Rightarrow>
          (case m of Build \<Rightarrow> GateAsk | Auto \<Rightarrow> GateAllow
           | Plan \<Rightarrow> GateDeny ''file edits are not permitted in plan mode'' | Bypass \<Rightarrow> GateAllow)
      | Exec \<Rightarrow>
          (case (case risk of Some r \<Rightarrow> r | None \<Rightarrow> Confirm) of
             Catastrophic \<Rightarrow>
               if m = Bypass \<and> allow_catastrophic then GateAllow
               else GateDeny ''catastrophic operations are denied by policy''
           | Safe \<Rightarrow> GateAllow
           | Low \<Rightarrow>
               (case m of Build \<Rightarrow> GateAsk | Auto \<Rightarrow> GateAllow
                | Plan \<Rightarrow> GateDeny ''exec operations are not permitted in plan mode''
                | Bypass \<Rightarrow> GateAllow)
           | Confirm \<Rightarrow>
               (case m of Build \<Rightarrow> GateAsk | Auto \<Rightarrow> GateAsk
                | Plan \<Rightarrow> GateDeny ''exec operations are not permitted in plan mode''
                | Bypass \<Rightarrow> GateAllow)))"

definition ZDR_BLOCKED :: string where
  "ZDR_BLOCKED = ''zdr_blocked''"

text \<open>What the flow reads of the session: the retention flag, the flags of a route, the
  mode, the configuration and the registered tools.\<close>

record session =
  zdr_active :: bool
  zdr_capable :: "string \<Rightarrow> bool"
  s_mode :: mode
  allow_catastrophic :: bool
  tool_kinds :: "string \<Rightarrow> tool_kind option"

definition zdr_route_violation :: "session \<Rightarrow> string \<Rightarrow> string option" where
  "zdr_route_violation s route =
     (if \<not> zdr_active s \<or> zdr_capable s route then None
      else Some (ZDR_BLOCKED @ '': '' @ route @ '' is not flagged zdr_capable; '' @
             ''mark it in the model picker or disable ZDR''))"

definition zdr_tool_violation :: "session \<Rightarrow> string \<Rightarrow> tool_kind \<Rightarrow> string option" where
  "zdr_tool_violation s name kind =
     (if \<not> zdr_active s then None
      else if kind = Network \<or> str_contains name ''__'' then
        Some (ZDR_BLOCKED @ '': '' @ name @ '' is disabled while zero-data-retention is active'')
      else None)"

definition session_key :: "string \<Rightarrow> string \<Rightarrow> string" where
  "session_key tool tgt = tool @ '':'' @ trim tgt"

section \<open>The store\<close>

type_synonym perm_id = string
type_synonym agent_id = string
type_synonym resolution = "permission_decision \<times> string option"

record request =
  q_id :: perm_id
  q_agent :: agent_id
  q_agent_name :: string
  q_call :: string
  q_tool :: string
  q_title :: string
  q_detail :: string
  q_risk :: "risk_level option"
  q_created :: nat

definition CANCELLED_BY_AGENT_REASON :: string where
  "CANCELLED_BY_AGENT_REASON = CHR 0x00 # ''pacode-permission-cancelled''"

definition MAX_PENDING :: nat where
  "MAX_PENDING = 8"

record store =
  allowed :: "string set"
  pending :: "(perm_id \<times> request) list"

definition empty_store :: store where
  "empty_store = \<lparr>allowed = {}, pending = []\<rparr>"

datatype registration = Granted | Pending | QueueFull

definition insert_pending :: "request \<Rightarrow> store \<Rightarrow> store option" where
  "insert_pending req st =
     (if MAX_PENDING \<le> length (pending st) then None
      else Some (st\<lparr>pending := AList.update (q_id req) req (pending st)\<rparr>))"

definition is_allowed_for_session :: "string \<Rightarrow> store \<Rightarrow> bool" where
  "is_allowed_for_session key st \<longleftrightarrow> key \<in> allowed st"

definition allow_for_session :: "string \<Rightarrow> store \<Rightarrow> store" where
  "allow_for_session key st = st\<lparr>allowed := insert key (allowed st)\<rparr>"

definition register_or_cached :: "request \<Rightarrow> string \<Rightarrow> store \<Rightarrow> store \<times> registration" where
  "register_or_cached req key st =
     (if key \<in> allowed st then (st, Granted)
      else (case insert_pending req st of Some st' \<Rightarrow> (st', Pending) | None \<Rightarrow> (st, QueueFull)))"

definition register_request :: "request \<Rightarrow> store \<Rightarrow> store option" where
  "register_request req st = insert_pending req st"

definition remove_pending :: "perm_id \<Rightarrow> store \<Rightarrow> store" where
  "remove_pending i st = st\<lparr>pending := AList.delete i (pending st)\<rparr>"

text \<open>\<^verbatim>\<open>resolve\<close>: the message it sends, and what it returns (the send fails when the call
  that waited is gone).\<close>

definition resolve ::
  "(perm_id \<Rightarrow> bool) \<Rightarrow> perm_id \<Rightarrow> permission_decision \<Rightarrow> string option \<Rightarrow> store \<Rightarrow>
     store \<times> (perm_id \<times> resolution) list \<times> bool" where
  "resolve receiving i d r st =
     (case map_of (pending st) i of
        Some _ \<Rightarrow> (remove_pending i st, [(i, (d, r))], receiving i)
      | None \<Rightarrow> (st, [], False))"

definition pending_requests :: "store \<Rightarrow> request list" where
  "pending_requests st = map snd (pending st)"

definition get_request :: "perm_id \<Rightarrow> store \<Rightarrow> request option" where
  "get_request i st = map_of (pending st) i"

definition cancel :: "perm_id \<Rightarrow> store \<Rightarrow> store \<times> bool" where
  "cancel i st = (remove_pending i st, map_of (pending st) i \<noteq> None)"

definition reassign_agent :: "agent_id \<Rightarrow> agent_id \<Rightarrow> store \<Rightarrow> store" where
  "reassign_agent from to st =
     st\<lparr>pending := map (\<lambda>(i, q). (i, if q_agent q = from then q\<lparr>q_agent := to\<rparr> else q)) (pending st)\<rparr>"

definition cancel_for_agent :: "agent_id \<Rightarrow> store \<Rightarrow> store \<times> (perm_id \<times> resolution) list \<times> request list" where
  "cancel_for_agent agent st =
     (let mine = filter (\<lambda>(i, q). q_agent q = agent) (pending st)
      in (st\<lparr>pending := filter (\<lambda>(i, q). q_agent q \<noteq> agent) (pending st)\<rparr>,
          map (\<lambda>(i, q). (i, (DenyP, Some CANCELLED_BY_AGENT_REASON))) mine,
          map snd mine))"

section \<open>The flow of a call\<close>

definition permission_target :: "string \<Rightarrow> string \<Rightarrow> string \<Rightarrow> string" where
  "permission_target tool title0 detail =
     (if \<not> List.member [''write'', ''edit'', ''multi_edit''] tool then trim detail
      else
        (let title = trim title0;
             whole = (case split_once title SP of Some (_, t) \<Rightarrow> trim t | None \<Rightarrow> title);
             tgt = trim (case strip_suffix whole '' (outside workspace)'' of Some t \<Rightarrow> t | None \<Rightarrow> whole)
         in if tgt = [] then trim detail else tgt))"

record draft =
  d_agent_name :: string
  d_call :: string
  d_title :: string
  d_detail :: string
  d_risk :: "risk_level option"
  d_tool_name :: "string option"
  d_tool_kind :: "tool_kind option"

definition title_prefix :: "string \<Rightarrow> string" where
  "title_prefix title =
     to_ascii_lowercase (takeWhile (\<lambda>c. \<not> (c = CHR '':'' \<or> is_whitespace c)) title)"

definition draft_name :: "session \<Rightarrow> draft \<Rightarrow> string" where
  "draft_name s d =
     (case d_tool_name d of Some n \<Rightarrow> n
      | None \<Rightarrow>
          (let prefix = title_prefix (d_title d)
           in if tool_kinds s prefix \<noteq> None then prefix
              else if d_risk d \<noteq> None then ''bash'' else prefix))"

definition draft_kind :: "session \<Rightarrow> draft \<Rightarrow> tool_kind" where
  "draft_kind s d =
     (let name = draft_name s d
      in case d_tool_kind d of Some k \<Rightarrow> k
         | None \<Rightarrow>
             if d_risk d \<noteq> None then Exec
             else (case tool_kinds s name of Some k \<Rightarrow> k
               | None \<Rightarrow>
                   if name = ''bash'' then Exec
                   else if List.member [''write'', ''edit'', ''multi_edit''] name then Edit
                   else Exec))"

definition draft_key :: "session \<Rightarrow> draft \<Rightarrow> string" where
  "draft_key s d =
     session_key (draft_name s d) (permission_target (draft_name s d) (d_title d) (d_detail d))"

datatype outcome = Decided permission_decision "string option" | Waits request

text \<open>\<^verbatim>\<open>request_permission_inner\<close> up to the wait: the owner of the prompt, the generated id
  and the clock are arguments.\<close>

definition request_permission ::
  "session \<Rightarrow> bool \<Rightarrow> agent_id \<Rightarrow> string \<Rightarrow> perm_id \<Rightarrow> nat \<Rightarrow> draft \<Rightarrow> store \<Rightarrow> store \<times> outcome" where
  "request_permission s force_ask owner owner_name i now d st =
     (let name = draft_name s d; kind = draft_kind s d
      in case zdr_tool_violation s name kind of
           Some why \<Rightarrow> (st, Decided DenyP (Some why))
         | None \<Rightarrow>
             (case (if force_ask then GateAsk
                    else perm_gate (s_mode s) kind (d_risk d) (allow_catastrophic s)) of
                GateAllow \<Rightarrow> (st, Decided AllowOnce None)
              | GateDeny why \<Rightarrow> (st, Decided DenyP (Some why))
              | GateAsk \<Rightarrow>
                  (let req = \<lparr>q_id = i, q_agent = owner, q_agent_name = owner_name, q_call = d_call d,
                              q_tool = name, q_title = d_title d, q_detail = d_detail d,
                              q_risk = d_risk d, q_created = now\<rparr>
                   in case register_or_cached req (draft_key s d) st of
                        (st', Granted) \<Rightarrow> (st', Decided AllowSession None)
                      | (st', QueueFull) \<Rightarrow>
                          (st', Decided DenyP (Some (''permission queue is full (maximum '' @
                                  show_nat MAX_PENDING @ '')'')))
                      | (st', Pending) \<Rightarrow> (st', Waits req))))"

text \<open>The end of the wait.  \<open>Reply\<close> is what the channel gives: a message, or \<^const>\<open>None\<close>
  when its sender is gone; \<open>CancelledFirst\<close> is the cancelled turn, with what \<^verbatim>\<open>cancel\<close>
  returned and what was in the channel.\<close>

datatype wait_end = Reply "resolution option" bool | CancelledFirst bool "resolution option"

definition normalize_reply :: "resolution \<Rightarrow> permission_decision \<times> string option \<times> bool" where
  "normalize_reply res =
     (if snd res = Some CANCELLED_BY_AGENT_REASON then (DenyP, Some ''interrupted'', False)
      else (fst res, snd res, True))"

fun wait_result :: "wait_end \<Rightarrow> permission_decision \<times> string option \<times> bool" where
  "wait_result (Reply (Some res) token_cancelled) = normalize_reply res"
| "wait_result (Reply None token_cancelled) =
     (if token_cancelled then (DenyP, Some ''interrupted'', False)
      else (DenyP, Some ''permission request aborted'', True))"
| "wait_result (CancelledFirst True msg) = (DenyP, Some ''interrupted'', True)"
| "wait_result (CancelledFirst False (Some res)) = normalize_reply res"
| "wait_result (CancelledFirst False None) = (DenyP, Some ''interrupted'', False)"

definition finish_wait :: "string \<Rightarrow> wait_end \<Rightarrow> store \<Rightarrow> store \<times> permission_decision \<times> string option" where
  "finish_wait key w st =
     (let (d, r, emit) = wait_result w
      in (if d = AllowSession then allow_for_session key st else st, d, r))"

section \<open>The matrix never softens\<close>

primrec strictness :: "gate_decision \<Rightarrow> nat" where
  "strictness GateAllow = 0"
| "strictness GateAsk = 1"
| "strictness (GateDeny r) = 2"

text \<open>The matrix is monotone in the risk, for every mode, tool and configuration: a
  riskier command is never treated more leniently, a command of unknown risk is treated
  like one that needs confirmation, and a catastrophic one runs only in Bypass mode with
  the explicit permission of the configuration.\<close>

theorem matrix_monotone:
  "strictness (perm_gate m kind (Some (min a b)) ac) \<le> strictness (perm_gate m kind (Some (max a b)) ac) \<and>
   perm_gate m kind None ac = perm_gate m kind (Some Confirm) ac \<and>
   (perm_gate m Exec (Some Catastrophic) ac = GateAllow) = (m = Bypass \<and> ac) \<and>
   strictness (perm_gate m Exec (Some Catastrophic) ac) \<noteq> strictness GateAsk"
proof -
  have "strictness (perm_gate m kind (Some a) ac) \<le> strictness (perm_gate m kind (Some b) ac)"
    if "a \<le> b" for a b
    using that by (cases kind; cases m; cases a; cases b) (simp_all add: perm_gate_def)
  then have "strictness (perm_gate m kind (Some (min a b)) ac) \<le> strictness (perm_gate m kind (Some (max a b)) ac)"
    by (simp add: min_def max_def)
  moreover have "perm_gate m kind None ac = perm_gate m kind (Some Confirm) ac"
    by (cases kind) (simp_all add: perm_gate_def)
  moreover have "(perm_gate m Exec (Some Catastrophic) ac = GateAllow) = (m = Bypass \<and> ac)"
    "strictness (perm_gate m Exec (Some Catastrophic) ac) \<noteq> strictness GateAsk"
    by (simp_all add: perm_gate_def)
  ultimately show ?thesis by blast
qed

text \<open>A line the risk classifier cannot read never runs unasked.  Outside Bypass mode
  the matrix asks or refuses; in Plan mode it refuses.\<close>

theorem unreadable_line_not_allowed:
  assumes "unresolved (parse line) \<noteq> []" "m \<noteq> Bypass"
  shows "perm_gate m Exec (Some (a_level (classify_with_home e line))) ac \<noteq> GateAllow \<and>
    (m = Plan \<longrightarrow> (\<exists>r. perm_gate m Exec (Some (a_level (classify_with_home e line))) ac = GateDeny r))"
proof -
  obtain r where "r \<in> set (unresolved (parse line))" using assms(1) by (cases "unresolved (parse line)") auto
  then have "unresolved_finding r \<in> set (script_findings e line False 0)" by (simp add: script_findings_0)
  from worst_mem [OF this] have "Confirm \<le> a_level (classify_with_home e line)"
    by (simp add: unresolved_finding_def)
  then show ?thesis
    using assms(2) by (cases "a_level (classify_with_home e line)"; cases m) (simp_all add: perm_gate_def)
qed

theorem unreadable_line_not_allowed_witness:
  "\<exists>r. perm_gate Plan Exec (Some (a_level (classify_with_home \<lparr>cwd = ''/w'', home = ''/h'', tmpdir = None\<rparr> [DQ]))) True
     = GateDeny r"
proof -
  have "unresolved (parse [DQ]) \<noteq> []" by code_simp
  from unreadable_line_not_allowed [OF this, of Plan] show ?thesis by simp
qed

text \<open>Zero-data-retention cannot be asked around.  While it is active a network tool
  or an MCP tool is refused with the policy reason, in every mode, whether or not the
  prompt is forced and whatever was granted for the session, and nothing is queued.\<close>

theorem zdr_refuses:
  assumes "zdr_active s" "draft_kind s d = Network \<or> str_contains (draft_name s d) ''__''"
  shows "\<exists>r. request_permission s force_ask owner owner_name i now d st = (st, Decided DenyP (Some r)) \<and>
    starts_with r ZDR_BLOCKED"
  using assms by (auto simp: request_permission_def zdr_tool_violation_def Let_def)

theorem zdr_refuses_witness:
  "\<exists>r. request_permission
      \<lparr>zdr_active = True, zdr_capable = (\<lambda>_. False), s_mode = Bypass, allow_catastrophic = True, tool_kinds = (\<lambda>_. None)\<rparr>
      True ''main'' ''Main'' ''perm_1'' 0
      \<lparr>d_agent_name = ''Main'', d_call = ''c'', d_title = ''srv__tool: x'', d_detail = ''x'', d_risk = None,
       d_tool_name = Some ''srv__tool'', d_tool_kind = None\<rparr> empty_store =
      (empty_store, Decided DenyP (Some r)) \<and> starts_with r ZDR_BLOCKED"
  by (rule zdr_refuses) (simp_all add: draft_name_def starts_with_def)

lemma split_first:
  assumes "c \<notin> set a" "c \<notin> set b" "a @ c # x = b @ c # y"
  shows "a = b \<and> x = y"
  using assms
proof (induction a arbitrary: b)
  case Nil
  then show ?case by (cases b) auto
next
  case (Cons z a)
  then show ?case by (cases b) auto
qed

text \<open>A session grant covers one tool and one target: the keys of two prompts are equal
  only for the same tool and the same target, up to surrounding white space (no tool name
  contains a colon).\<close>

theorem session_key_injective:
  assumes "CHR '':'' \<notin> set t1" "CHR '':'' \<notin> set t2" "session_key t1 x1 = session_key t2 x2"
  shows "t1 = t2 \<and> trim x1 = trim x2"
  using assms split_first [of "CHR '':''" t1 t2 "trim x1" "trim x2"] by (simp add: session_key_def)

theorem session_key_injective_witness: "''bash'' = ''bash'' \<and> trim '' ls '' = trim ''ls''"
  by (rule session_key_injective) code_simp+

section \<open>Prompts, answers and interrupts together\<close>

text \<open>The system of prompts.  \<open>waits\<close> holds the calls that wait, each with its session key,
  and \<open>sent\<close> the messages in the one-shot channels.  \<open>asked\<close> (the key of every prompt ever
  raised), \<open>answers\<close> (the answers of the client that reached a prompt) and \<open>plog\<close> (the
  outcome of every finished wait) only record what happened.\<close>

record psys =
  pstore :: store
  waits :: "perm_id \<Rightarrow> string option"
  sent :: "perm_id \<Rightarrow> resolution option"
  asked :: "perm_id \<Rightarrow> string option"
  answers :: "perm_id \<Rightarrow> permission_decision option"
  plog :: "(perm_id \<times> string \<times> permission_decision) list"

definition new_psys :: psys where
  "new_psys = \<lparr>pstore = empty_store, waits = Map.empty, sent = Map.empty, asked = Map.empty,
     answers = Map.empty, plog = []\<rparr>"

definition ended :: "perm_id \<Rightarrow> string \<Rightarrow> store \<times> permission_decision \<times> string option \<Rightarrow> psys \<Rightarrow> psys" where
  "ended i key res p =
     p\<lparr>pstore := fst res, waits := (waits p)(i := None), sent := (sent p)(i := None),
       plog := (i, key, fst (snd res)) # plog p\<rparr>"

text \<open>Each lock region of the store is one step.  A call generates a fresh id; the session
  it reads (mode, tools, retention) may differ from call to call.  \<open>abandoned\<close> is the
  future of a call dropped while it waits.\<close>

inductive pstep :: "psys \<Rightarrow> psys \<Rightarrow> bool" where
  asks: "asked p i = None \<Longrightarrow>
    request_permission s force_ask owner owner_name i now d (pstore p) = (st, Waits req) \<Longrightarrow>
    pstep p (p\<lparr>pstore := st, waits := (waits p)(i \<mapsto> draft_key s d), asked := (asked p)(i \<mapsto> draft_key s d)\<rparr>)"
| decides: "asked p i = None \<Longrightarrow>
    request_permission s force_ask owner owner_name i now d (pstore p) = (st, Decided dec r) \<Longrightarrow>
    pstep p (p\<lparr>pstore := st\<rparr>)"
| answered: "resolve (\<lambda>j. waits p j \<noteq> None) i dec r (pstore p) = (st, msgs, ok) \<Longrightarrow>
    pstep p (p\<lparr>pstore := st, sent := sent p ++ map_of msgs,
      answers := answers p ++ map_of (map (\<lambda>(j, res). (j, fst res)) msgs)\<rparr>)"
| interrupted: "cancel_for_agent agent (pstore p) = (st, msgs, reqs) \<Longrightarrow>
    pstep p (p\<lparr>pstore := st, sent := sent p ++ map_of msgs\<rparr>)"
| reassigned: "pstep p (p\<lparr>pstore := reassign_agent a b (pstore p)\<rparr>)"
| received: "waits p i = Some key \<Longrightarrow> sent p i = Some res \<Longrightarrow>
    pstep p (ended i key (finish_wait key (Reply (Some res) tc) (pstore p)) p)"
| turn_cancelled: "waits p i = Some key \<Longrightarrow> cancel i (pstore p) = (st, was_pending) \<Longrightarrow>
    pstep p (ended i key (finish_wait key (CancelledFirst was_pending (sent p i)) st) p)"
| channel_closed: "waits p i = Some key \<Longrightarrow> sent p i = None \<Longrightarrow> map_of (pending (pstore p)) i = None \<Longrightarrow>
    pstep p (ended i key (finish_wait key (Reply None tc) (pstore p)) p)"
| abandoned: "waits p i = Some key \<Longrightarrow>
    pstep p (p\<lparr>waits := (waits p)(i := None), sent := (sent p)(i := None)\<rparr>)"

abbreviation pids :: "store \<Rightarrow> perm_id set" where
  "pids st \<equiv> fst ` set (pending st)"

subsection \<open>The invariant\<close>

definition store_ok :: "store \<Rightarrow> bool" where
  "store_ok st \<longleftrightarrow> distinct (map fst (pending st)) \<and> length (pending st) \<le> MAX_PENDING"

text \<open>Who may still be answered: a waiting call is in the queue or has its message; a
  message is sent once, and only after its request left the queue.\<close>

definition chans :: "perm_id set \<Rightarrow> perm_id set \<Rightarrow> perm_id set \<Rightarrow> perm_id set \<Rightarrow> perm_id set \<Rightarrow> perm_id set \<Rightarrow> bool" where
  "chans queued waiting msgs replied done known \<longleftrightarrow>
     waiting \<subseteq> queued \<union> msgs \<and> msgs \<inter> queued = {} \<and> replied \<inter> queued = {} \<and>
     queued \<union> msgs \<union> replied \<union> done \<subseteq> known"

abbreviation channels_ok :: "psys \<Rightarrow> bool" where
  "channels_ok p \<equiv> chans (pids (pstore p)) (dom (waits p)) (dom (sent p)) (dom (answers p))
     (fst ` set (plog p)) (dom (asked p))"

text \<open>Where permissions come from: the client.\<close>

definition origins_ok :: "psys \<Rightarrow> bool" where
  "origins_ok p \<longleftrightarrow>
     (\<forall>i res. sent p i = Some res \<longrightarrow> res = (DenyP, Some CANCELLED_BY_AGENT_REASON) \<or> answers p i = Some (fst res)) \<and>
     (\<forall>i key. waits p i = Some key \<longrightarrow> asked p i = Some key) \<and>
     (\<forall>key \<in> allowed (pstore p). \<exists>i. asked p i = Some key \<and> answers p i = Some AllowSession) \<and>
     (\<forall>i key d. (i, key, d) \<in> set (plog p) \<longrightarrow> asked p i = Some key \<and> (d = DenyP \<or> answers p i = Some d))"

definition log_ok :: "psys \<Rightarrow> bool" where
  "log_ok p \<longleftrightarrow> distinct (map fst (plog p)) \<and> fst ` set (plog p) \<inter> dom (waits p) = {}"

definition psys_ok :: "psys \<Rightarrow> bool" where
  "psys_ok p \<longleftrightarrow> store_ok (pstore p) \<and> channels_ok p \<and> origins_ok p \<and> log_ok p"

lemma chans_ask: "chans P W M A L K \<Longrightarrow> i \<notin> K \<Longrightarrow> chans (insert i P) (insert i W) M A L (insert i K)"
  by (auto simp: chans_def)

lemma chans_fresh: "chans P W M A L K \<Longrightarrow> i \<notin> K \<Longrightarrow> i \<notin> P \<and> i \<notin> M \<and> i \<notin> A \<and> i \<notin> L"
  by (auto simp: chans_def)

lemma chans_send: "chans P W M A L K \<Longrightarrow> i \<in> P \<Longrightarrow> chans (P - {i}) W (insert i M) (insert i A) L K"
  by (auto simp: chans_def)

lemma chans_cancel: "chans P W M A L K \<Longrightarrow> C \<subseteq> P \<Longrightarrow> chans (P - C) W (M \<union> C) A L K"
  by (auto simp: chans_def)

lemma chans_end: "chans P W M A L K \<Longrightarrow> P' \<subseteq> P \<Longrightarrow> P - {i} \<subseteq> P' \<Longrightarrow> i \<in> K \<Longrightarrow>
    chans P' (W - {i}) (M - {i}) A (insert i L) K"
  by (auto simp: chans_def)

lemma chans_drop: "chans P W M A L K \<Longrightarrow> chans P (W - {i}) (M - {i}) A L K"
  by (auto simp: chans_def)

lemma psys_ok_start: "psys_ok new_psys"
  by (simp add: psys_ok_def new_psys_def empty_store_def store_ok_def chans_def origins_ok_def log_ok_def)

lemma request_waits:
  assumes "request_permission s force_ask owner owner_name i now d st = (st', Waits req)"
  shows "st' = st\<lparr>pending := AList.update i req (pending st)\<rparr> \<and> length (pending st) < MAX_PENDING \<and>
    draft_key s d \<notin> allowed st"
  using assms
  by (auto simp: request_permission_def register_or_cached_def insert_pending_def Let_def
      split: option.splits gate_decision.splits if_splits)

lemma request_decided:
  assumes "request_permission s force_ask owner owner_name i now d st = (st', Decided dec r)"
  shows "st' = st \<and> (dec = AllowSession \<longrightarrow> draft_key s d \<in> allowed st) \<and>
    (dec = AllowOnce \<longrightarrow> \<not> force_ask \<and>
       perm_gate (s_mode s) (draft_kind s d) (d_risk d) (allow_catastrophic s) = GateAllow)"
  using assms
  by (auto simp: request_permission_def register_or_cached_def insert_pending_def Let_def
      split: option.splits gate_decision.splits if_splits)

lemma finish_wait_pending [simp]: "pending (fst (finish_wait key w st)) = pending st"
  by (simp add: finish_wait_def allow_for_session_def split: prod.splits)

lemma finish_wait_allowed:
  "allowed (fst (finish_wait key w st)) =
     (if fst (snd (finish_wait key w st)) = AllowSession then insert key (allowed st) else allowed st)"
  by (simp add: finish_wait_def allow_for_session_def split: prod.splits)

lemma finish_wait_decision: "fst (snd (finish_wait key w st)) = fst (wait_result w)"
  by (simp add: finish_wait_def split: prod.splits)

text \<open>However a wait ends, what it allows was in the channel.\<close>

lemma wait_result_sent:
  "fst (wait_result (Reply m tc)) = DenyP \<or> (\<exists>res. m = Some res \<and> fst (wait_result (Reply m tc)) = fst res)"
  by (cases m) (simp_all add: normalize_reply_def)

lemma cancelled_result_sent:
  "fst (wait_result (CancelledFirst b m)) = DenyP \<or>
     (\<exists>res. m = Some res \<and> fst (wait_result (CancelledFirst b m)) = fst res)"
  by (cases b; cases m) (simp_all add: normalize_reply_def)

lemma ended_ok:
  assumes "psys_ok p" "waits p i = Some key" "store_ok st" "allowed st = allowed (pstore p)"
    "pids st \<subseteq> pids (pstore p)" "pids (pstore p) - {i} \<subseteq> pids st"
    "fst (wait_result w) = DenyP \<or> (\<exists>res. sent p i = Some res \<and> fst (wait_result w) = fst res)"
  shows "psys_ok (ended i key (finish_wait key w st) p)"
proof -
  let ?f = "finish_wait key w st"
  let ?d = "fst (wait_result w)"
  have c: "channels_ok p" and o: "origins_ok p" and l: "log_ok p" using assms(1) by (simp_all add: psys_ok_def)
  have a: "asked p i = Some key" using o assms(2) by (simp add: origins_ok_def)
  have d: "?d = DenyP \<or> answers p i = Some ?d" using o assms(7) unfolding origins_ok_def by fastforce
  have "store_ok (fst ?f)" using assms(3) by (simp add: store_ok_def)
  moreover have "channels_ok (ended i key ?f p)"
    using chans_end [OF c assms(5,6)] a by (simp add: ended_def domI)
  moreover have "origins_ok (ended i key ?f p)"
  proof -
    have "\<forall>k \<in> allowed (fst ?f). \<exists>j. asked p j = Some k \<and> answers p j = Some AllowSession"
      using o a d assms(4) unfolding finish_wait_allowed finish_wait_decision origins_ok_def by auto
    with o a d show ?thesis
      unfolding origins_ok_def ended_def finish_wait_decision by auto
  qed
  moreover have "log_ok (ended i key ?f p)"
    using l assms(2) unfolding log_ok_def ended_def by auto
  ultimately show ?thesis by (simp add: psys_ok_def ended_def)
qed

lemma update_fresh: "i \<notin> fst ` set xs \<Longrightarrow> AList.update i q xs = xs @ [(i, q)]"
  by (induction xs) auto

lemma asks_ok:
  assumes "psys_ok p" "asked p i = None"
    "request_permission s force_ask owner owner_name i now d (pstore p) = (st, Waits req)"
  shows "psys_ok (p\<lparr>pstore := st, waits := (waits p)(i \<mapsto> key), asked := (asked p)(i \<mapsto> key)\<rparr>)"
proof -
  have c: "channels_ok p" and o: "origins_ok p" and l: "log_ok p" and so: "store_ok (pstore p)"
    using assms(1) by (simp_all add: psys_ok_def)
  note st = request_waits [OF assms(3)]
  have fresh: "i \<notin> pids (pstore p)" "i \<notin> dom (sent p)" "i \<notin> dom (answers p)" "i \<notin> fst ` set (plog p)"
    using chans_fresh [OF c, of i] assms(2) by auto
  have "pids st = insert i (pids (pstore p))" using st by (simp add: dom_update)
  then have "channels_ok (p\<lparr>pstore := st, waits := (waits p)(i \<mapsto> key), asked := (asked p)(i \<mapsto> key)\<rparr>)"
    using chans_ask [OF c, of i] assms(2) by (simp add: domIff)
  moreover have "store_ok st" using so st fresh(1) by (simp add: store_ok_def update_fresh)
  moreover have "log_ok (p\<lparr>pstore := st, waits := (waits p)(i \<mapsto> key), asked := (asked p)(i \<mapsto> key)\<rparr>)"
    using l fresh unfolding log_ok_def by simp
  moreover have "origins_ok (p\<lparr>pstore := st, waits := (waits p)(i \<mapsto> key), asked := (asked p)(i \<mapsto> key)\<rparr>)"
    using o st assms(2) unfolding origins_ok_def by simp (metis option.distinct(1))
  ultimately show ?thesis by (simp add: psys_ok_def)
qed

lemma answered_ok:
  assumes "psys_ok p" "resolve rc i dec r (pstore p) = (st, msgs, ok)"
  shows "psys_ok (p\<lparr>pstore := st, sent := sent p ++ map_of msgs,
      answers := answers p ++ map_of (map (\<lambda>(j, res). (j, fst res)) msgs)\<rparr>)"
proof (cases "map_of (pending (pstore p)) i")
  case None
  then have "st = pstore p" "msgs = []" using assms(2) by (simp_all add: resolve_def)
  with assms(1) show ?thesis by simp
next
  case (Some q)
  then have i: "i \<in> pids (pstore p)" by (metis domI dom_map_of_conv_image_fst)
  have st: "st = remove_pending i (pstore p)" "msgs = [(i, (dec, r))]" using assms(2) Some by (simp_all add: resolve_def)
  have c: "channels_ok p" and o: "origins_ok p" and l: "log_ok p" and so: "store_ok (pstore p)"
    using assms(1) by (simp_all add: psys_ok_def)
  have ids: "pids (remove_pending i (pstore p)) = pids (pstore p) - {i}"
    by (simp add: remove_pending_def delete_keys flip: set_map)
  have na: "answers p i = None" using c i unfolding chans_def by blast
  let ?p = "p\<lparr>pstore := remove_pending i (pstore p), sent := (sent p)(i \<mapsto> (dec, r)), answers := (answers p)(i \<mapsto> dec)\<rparr>"
  have "store_ok (remove_pending i (pstore p))"
    using so by (simp add: store_ok_def remove_pending_def distinct_delete le_trans [OF length_delete_le])
  moreover have "channels_ok ?p" using chans_send [OF c i] ids by simp
  moreover have "origins_ok ?p"
    using o na unfolding origins_ok_def by (simp add: remove_pending_def) (metis option.distinct(1))
  moreover have "log_ok ?p" using l by (simp add: log_ok_def)
  ultimately show ?thesis by (simp add: psys_ok_def st)
qed

lemma interrupted_ok:
  assumes "psys_ok p" "cancel_for_agent agent (pstore p) = (st, msgs, reqs)"
  shows "psys_ok (p\<lparr>pstore := st, sent := sent p ++ map_of msgs\<rparr>)"
proof -
  have c: "channels_ok p" and o: "origins_ok p" and l: "log_ok p" and so: "store_ok (pstore p)"
    using assms(1) by (simp_all add: psys_ok_def)
  have dist: "distinct (map fst (pending (pstore p)))" using so by (simp add: store_ok_def)
  let ?C = "fst ` set (filter (\<lambda>(i, q). q_agent q = agent) (pending (pstore p)))"
  have st: "st = (pstore p)\<lparr>pending := filter (\<lambda>(i, q). q_agent q \<noteq> agent) (pending (pstore p))\<rparr>"
    and msgs: "msgs = map (\<lambda>(i, q). (i, (DenyP, Some CANCELLED_BY_AGENT_REASON)))
        (filter (\<lambda>(i, q). q_agent q = agent) (pending (pstore p)))"
    using assms(2) by (auto simp: cancel_for_agent_def Let_def)
  have "pids st = pids (pstore p) - ?C"
    unfolding st using dist by (auto simp: image_iff dest: eq_key_imp_eq_value)
  moreover have "dom (map_of msgs) = ?C"
    unfolding msgs by (simp add: dom_map_of_conv_image_fst image_image case_prod_beta)
  moreover have "?C \<subseteq> pids (pstore p)" by auto
  ultimately have "channels_ok (p\<lparr>pstore := st, sent := sent p ++ map_of msgs\<rparr>)"
    using chans_cancel [OF c, of ?C] by (simp add: dom_map_add Un_commute)
  moreover have "store_ok st"
    using so unfolding st store_ok_def by (simp add: distinct_map_filter le_trans [OF length_filter_le])
  moreover have m: "res = (DenyP, Some CANCELLED_BY_AGENT_REASON)" if "map_of msgs i = Some res" for i res
    using map_of_SomeD [OF that] unfolding msgs by auto
  have "origins_ok (p\<lparr>pstore := st, sent := sent p ++ map_of msgs\<rparr>)"
    using o m unfolding origins_ok_def st by (simp add: map_add_Some_iff)
  moreover have "log_ok (p\<lparr>pstore := st, sent := sent p ++ map_of msgs\<rparr>)" using l by (simp add: log_ok_def)
  ultimately show ?thesis by (simp add: psys_ok_def)
qed

lemma reassigned_ids: "map fst (pending (reassign_agent a b st)) = map fst (pending st)"
  by (simp add: reassign_agent_def comp_def case_prod_beta)

lemma reassigned_ok:
  assumes "psys_ok p"
  shows "psys_ok (p\<lparr>pstore := reassign_agent a b (pstore p)\<rparr>)"
proof -
  have "pids (reassign_agent a b (pstore p)) = pids (pstore p)"
    using arg_cong [OF reassigned_ids [of a b "pstore p"], of set] by simp
  moreover have "length (pending (reassign_agent a b (pstore p))) = length (pending (pstore p))"
    by (simp add: reassign_agent_def)
  moreover have "allowed (reassign_agent a b (pstore p)) = allowed (pstore p)" by (simp add: reassign_agent_def)
  ultimately show ?thesis
    using assms by (simp add: psys_ok_def store_ok_def reassigned_ids origins_ok_def log_ok_def)
qed

lemma abandoned_ok:
  assumes "psys_ok p"
  shows "psys_ok (p\<lparr>waits := (waits p)(i := None), sent := (sent p)(i := None)\<rparr>)"
proof -
  have "chans (pids (pstore p)) (dom (waits p) - {i}) (dom (sent p) - {i}) (dom (answers p))
     (fst ` set (plog p)) (dom (asked p))"
    using assms chans_drop by (simp add: psys_ok_def)
  then show ?thesis using assms by (auto simp: psys_ok_def origins_ok_def log_ok_def)
qed

lemma cancel_frame:
  assumes "store_ok st" "cancel i st = (st', b)"
  shows "store_ok st'" "allowed st' = allowed st" "pids st' \<subseteq> pids st" "pids st - {i} \<subseteq> pids st'"
proof -
  have st: "st' = remove_pending i st" using assms(2) by (simp add: cancel_def)
  show "store_ok st'"
    using assms(1) by (simp add: st store_ok_def remove_pending_def distinct_delete le_trans [OF length_delete_le])
  have "pids st' = pids st - {i}" by (simp add: st remove_pending_def delete_keys flip: set_map)
  then show "pids st' \<subseteq> pids st" "pids st - {i} \<subseteq> pids st'" by auto
qed (use assms(2) in \<open>auto simp: cancel_def remove_pending_def\<close>)

lemma pstep_ok:
  assumes "pstep p p'" "psys_ok p"
  shows "psys_ok p'"
  using assms(1)
proof cases
  case (asks i s force_ask owner owner_name now d st req)
  then show ?thesis using asks_ok [OF assms(2)] by simp
next
  case (decides i s force_ask owner owner_name now d st dec r)
  then show ?thesis using request_decided assms(2) by fastforce
next
  case (answered i dec r st msgs ok)
  then show ?thesis using answered_ok [OF assms(2)] by simp
next
  case (interrupted agent st msgs reqs)
  then show ?thesis using interrupted_ok [OF assms(2)] by simp
next
  case (reassigned a b)
  then show ?thesis using reassigned_ok [OF assms(2)] by simp
next
  case (received i key res tc)
  show ?thesis unfolding received(1)
    by (rule ended_ok [OF assms(2) received(2)])
       (use assms(2) received(3) wait_result_sent [of "Some res" tc] in \<open>auto simp: psys_ok_def\<close>)
next
  case (turn_cancelled i key st was_pending)
  have "store_ok (pstore p)" using assms(2) by (simp add: psys_ok_def)
  note f = cancel_frame [OF this turn_cancelled(3)]
  show ?thesis unfolding turn_cancelled(1)
    by (rule ended_ok [OF assms(2) turn_cancelled(2) f]) (rule cancelled_result_sent)
next
  case (channel_closed i key tc)
  show ?thesis unfolding channel_closed(1)
    by (rule ended_ok [OF assms(2) channel_closed(2)]) (use assms(2) in \<open>auto simp: psys_ok_def\<close>)
next
  case (abandoned i key)
  then show ?thesis using abandoned_ok [OF assms(2)] by simp
qed

interpretation prompts: state_machine new_psys pstep psys_ok
  by unfold_locales (auto intro: psys_ok_start pstep_ok)

abbreviation reached :: "psys \<Rightarrow> bool" where
  "reached p \<equiv> rtranclp pstep new_psys p"

subsection \<open>What the prompts guarantee\<close>

text \<open>A run: an edit in Build mode asks, the user allows it for the session, the call goes on.\<close>

definition sample_session :: session where
  "sample_session = \<lparr>zdr_active = False, zdr_capable = (\<lambda>_. False), s_mode = Build,
     allow_catastrophic = False, tool_kinds = (\<lambda>_. None)\<rparr>"

definition sample_draft :: draft where
  "sample_draft = \<lparr>d_agent_name = ''Main'', d_call = ''c1'', d_title = ''edit /w/a.txt'', d_detail = ''-x'',
     d_risk = None, d_tool_name = Some ''edit'', d_tool_kind = Some Edit\<rparr>"

definition sample_request :: request where
  "sample_request = \<lparr>q_id = ''p1'', q_agent = ''main'', q_agent_name = ''Main'', q_call = ''c1'', q_tool = ''edit'',
     q_title = ''edit /w/a.txt'', q_detail = ''-x'', q_risk = None, q_created = 0\<rparr>"

definition sample_asked :: psys where
  "sample_asked = new_psys\<lparr>pstore := empty_store\<lparr>pending := [(''p1'', sample_request)]\<rparr>,
     waits := [''p1'' \<mapsto> ''edit:/w/a.txt''], asked := [''p1'' \<mapsto> ''edit:/w/a.txt'']\<rparr>"

definition sample_done :: psys where
  "sample_done = \<lparr>pstore = \<lparr>allowed = {''edit:/w/a.txt''}, pending = []\<rparr>, waits = Map.empty, sent = Map.empty,
     asked = [''p1'' \<mapsto> ''edit:/w/a.txt''], answers = [''p1'' \<mapsto> AllowSession],
     plog = [(''p1'', ''edit:/w/a.txt'', AllowSession)]\<rparr>"

lemma sample_key: "draft_key sample_session sample_draft = ''edit:/w/a.txt''"
  by code_simp

lemma reached_sample_asked: "reached sample_asked"
proof -
  have "request_permission sample_session False ''main'' ''Main'' ''p1'' 0 sample_draft empty_store =
      (empty_store\<lparr>pending := [(''p1'', sample_request)]\<rparr>, Waits sample_request)"
    by (simp add: request_permission_def draft_name_def draft_kind_def zdr_tool_violation_def sample_session_def
        sample_draft_def sample_request_def perm_gate_def register_or_cached_def insert_pending_def empty_store_def
        MAX_PENDING_def Let_def)
  then have "pstep new_psys sample_asked"
    using pstep.asks [of new_psys "''p1''" sample_session False "''main''" "''Main''" 0 sample_draft]
    by (simp add: new_psys_def sample_asked_def sample_key)
  then show ?thesis by blast
qed

lemma reached_sample_done: "reached sample_done"
proof -
  let ?q = "sample_asked\<lparr>pstore := empty_store, sent := [''p1'' \<mapsto> (AllowSession, None)], answers := [''p1'' \<mapsto> AllowSession]\<rparr>"
  have "resolve (\<lambda>j. waits sample_asked j \<noteq> None) ''p1'' AllowSession None (pstore sample_asked) =
      (empty_store, [(''p1'', (AllowSession, None))], True)"
    by (simp add: resolve_def sample_asked_def new_psys_def empty_store_def remove_pending_def)
  from pstep.answered [OF this] have s1: "pstep sample_asked ?q"
    by (simp add: sample_asked_def new_psys_def map_add_def)
  have s2: "pstep ?q (ended ''p1'' ''edit:/w/a.txt''
      (finish_wait ''edit:/w/a.txt'' (Reply (Some (AllowSession, None)) False) (pstore ?q)) ?q)"
    by (rule pstep.received) (simp_all add: sample_asked_def)
  have "ended ''p1'' ''edit:/w/a.txt''
      (finish_wait ''edit:/w/a.txt'' (Reply (Some (AllowSession, None)) False) (pstore ?q)) ?q = sample_done"
    by (simp add: ended_def finish_wait_def normalize_reply_def allow_for_session_def sample_done_def sample_asked_def
        new_psys_def empty_store_def fun_eq_iff)
  with reached_sample_asked s1 s2 show ?thesis by (metis rtranclp.rtrancl_into_rtrancl)
qed

text \<open>C5: prompts are bounded and no call is stranded.  However calls, answers, interrupts,
  hand-overs, cancelled turns and dropped calls interleave, at most \<^const>\<open>MAX_PENDING\<close>
  prompts wait for the user, every waiting call is still in the queue or has its message
  (so its channel is never closed under it), and no prompt is in the queue after its
  answer was sent.\<close>

theorem prompts_bounded_none_stranded:
  assumes "reached p"
  shows "length (pending_requests (pstore p)) \<le> MAX_PENDING \<and>
    (\<forall>i key. waits p i = Some key \<longrightarrow> (get_request i (pstore p) \<noteq> None) = (sent p i = None)) \<and>
    distinct (map fst (plog p))"
proof -
  have ok: "psys_ok p" by (rule prompts.reachable_inv [OF assms])
  then have c: "channels_ok p" by (simp add: psys_ok_def)
  have "(get_request i (pstore p) \<noteq> None) = (sent p i = None)" if "waits p i = Some key" for i key
  proof -
    have "get_request i (pstore p) \<noteq> None \<longleftrightarrow> i \<in> pids (pstore p)"
      by (simp add: get_request_def map_of_eq_None_iff)
    moreover have "i \<in> pids (pstore p) \<union> dom (sent p)" "dom (sent p) \<inter> pids (pstore p) = {}"
      using c domI [of "waits p", OF that] unfolding chans_def by blast+
    ultimately show ?thesis by blast
  qed
  with ok show ?thesis by (simp add: psys_ok_def store_ok_def log_ok_def pending_requests_def)
qed

theorem prompts_bounded_none_stranded_witness:
  "length (pending_requests (pstore sample_asked)) \<le> MAX_PENDING \<and>
    waits sample_asked ''p1'' = Some ''edit:/w/a.txt'' \<and>
    (get_request ''p1'' (pstore sample_asked) \<noteq> None) = (sent sample_asked ''p1'' = None)"
proof -
  have "waits sample_asked ''p1'' = Some ''edit:/w/a.txt''" by (simp add: sample_asked_def)
  with prompts_bounded_none_stranded [OF reached_sample_asked] show ?thesis by blast
qed

text \<open>C4: only the user permits.  Every prompt that ended with a permission was answered
  with exactly that decision by the client; a call that runs from the session cache has
  the key of a prompt the user answered with \<^const>\<open>AllowSession\<close>; and a call that runs
  with neither was let through by the matrix.\<close>

theorem only_the_user_permits:
  assumes "reached p"
  shows "(\<forall>i key d. (i, key, d) \<in> set (plog p) \<and> d \<noteq> DenyP \<longrightarrow> answers p i = Some d) \<and>
    (\<forall>s force_ask owner owner_name i now d st dec r.
       request_permission s force_ask owner owner_name i now d (pstore p) = (st, Decided dec r) \<longrightarrow>
         dec = DenyP \<or>
         dec = AllowSession \<and> (\<exists>j. asked p j = Some (draft_key s d) \<and> answers p j = Some AllowSession) \<or>
         dec = AllowOnce \<and> \<not> force_ask \<and>
           perm_gate (s_mode s) (draft_kind s d) (d_risk d) (allow_catastrophic s) = GateAllow)"
proof -
  have "psys_ok p" by (rule prompts.reachable_inv [OF assms])
  then have o: "origins_ok p" by (simp add: psys_ok_def)
  have "dec = DenyP \<or>
         dec = AllowSession \<and> (\<exists>j. asked p j = Some (draft_key s d) \<and> answers p j = Some AllowSession) \<or>
         dec = AllowOnce \<and> \<not> force_ask \<and>
           perm_gate (s_mode s) (draft_kind s d) (d_risk d) (allow_catastrophic s) = GateAllow"
    if "request_permission s force_ask owner owner_name i now d (pstore p) = (st, Decided dec r)"
    for s force_ask owner owner_name i now d st dec r
    using request_decided [OF that] o unfolding origins_ok_def by (cases dec) auto
  moreover have "answers p i = Some d" if "(i, key, d) \<in> set (plog p)" "d \<noteq> DenyP" for i key d
    using o that unfolding origins_ok_def by blast
  ultimately show ?thesis by blast
qed

theorem only_the_user_permits_witness:
  "\<exists>st j. request_permission sample_session True ''main'' ''Main'' ''p2'' 1 sample_draft (pstore sample_done) =
      (st, Decided AllowSession None) \<and>
    asked sample_done j = Some (draft_key sample_session sample_draft) \<and> answers sample_done j = Some AllowSession"
proof -
  have "zdr_tool_violation sample_session n k = None" for n k
    by (simp add: zdr_tool_violation_def sample_session_def)
  then have "request_permission sample_session True ''main'' ''Main'' ''p2'' 1 sample_draft (pstore sample_done) =
      (pstore sample_done, Decided AllowSession None)"
    by (simp add: request_permission_def register_or_cached_def sample_done_def sample_key Let_def)
  then show ?thesis using only_the_user_permits [OF reached_sample_done] by blast
qed

text \<open>An answer is final.  Once the client's answer reached a prompt, no later step
  changes it, and a second answer, or an interrupt of the agent, sends nothing more.\<close>

theorem answer_is_final:
  assumes "reached p" "answers p i = Some d" "rtranclp pstep p p'"
  shows "answers p' i = Some d \<and> resolve rc i d2 r (pstore p') = (pstore p', [], False) \<and>
    i \<notin> fst ` set (fst (snd (cancel_for_agent agent (pstore p'))))"
proof -
  have step: "answers q' i = Some d" if "psys_ok q" "answers q i = Some d" "pstep q q'" for q q'
    using that(3)
  proof cases
    case (answered j dec r st msgs ok)
    have "i \<notin> pids (pstore q)" using that(1,2) unfolding psys_ok_def chans_def by blast
    then have "map_of (pending (pstore q)) i = None" by (simp add: map_of_eq_None_iff)
    with answered(2) have "i \<notin> fst ` set msgs" by (auto simp: resolve_def split: option.splits)
    then have "map_of (map (\<lambda>(j, res). (j, fst res)) msgs) i = None"
      by (force simp: map_of_eq_None_iff)
    then show ?thesis using answered(1) that(2) by (simp add: map_add_def)
  qed (use that(2) in \<open>auto simp: ended_def\<close>)
  have ok: "psys_ok p" by (rule prompts.reachable_inv [OF assms(1)])
  have "psys_ok p' \<and> answers p' i = Some d"
    using assms(3) by (induction rule: rtranclp_induct) (use ok assms(2) step pstep_ok in blast)+
  moreover from this have "i \<notin> pids (pstore p')" unfolding psys_ok_def chans_def by blast
  ultimately show ?thesis
    by (auto simp: resolve_def cancel_for_agent_def Let_def map_of_eq_None_iff image_iff split: option.splits dest: map_of_SomeD)
qed

theorem answer_is_final_witness:
  "answers sample_done ''p1'' = Some AllowSession \<and>
    resolve (\<lambda>_. True) ''p1'' DenyP None (pstore sample_done) = (pstore sample_done, [], False) \<and>
    ''p1'' \<notin> fst ` set (fst (snd (cancel_for_agent ''main'' (pstore sample_done))))"
  by (rule answer_is_final [OF reached_sample_done]) (simp_all add: sample_done_def)

end
