(* ===== verification/Admission.thy ===== *)
theory Admission
  imports Prelude
begin

text \<open>
  \<^verbatim>\<open>crates/pacode-exec/src/admission.rs\<close>: the queue in front of the running processes.

  The state under the mutex is the record \<open>admission\<close>; \<open>release_slot\<close>, \<open>try_acquire\<close>,
  the entry and the loop of \<open>acquire\<close> and the drop of a ticket guard are functions on
  it.  Between two lock regions anything may happen, so the whole component is the step
  relation \<open>step\<close> over \<open>pool\<close>: the live permits, the waiters that are about to check and
  those parked on their \<^verbatim>\<open>Notify\<close>, the wake-ups decided under the lock and not yet sent,
  and the wake-ups stored.  Cancelling and dropping a waiting future are the same step,
  possible at any moment.  A ticket (\<^verbatim>\<open>u64\<close>, one per queued call) is a natural number.
\<close>

section \<open>The state under the lock\<close>

definition MAX_QUEUED :: nat where
  "MAX_QUEUED = 1024"

record limits =
  max_active :: nat
  max_queued :: nat

definition with_queue_cap :: "nat \<Rightarrow> nat \<Rightarrow> limits" where
  "with_queue_cap ma mq = \<lparr>max_active = max ma 1, max_queued = mq\<rparr>"

definition new_limits :: "nat \<Rightarrow> limits" where
  "new_limits ma = with_queue_cap ma MAX_QUEUED"

record admission =
  active :: nat
  next_ticket :: nat
  waiters :: "nat list"
  granted :: "nat set"

definition new_admission :: admission where
  "new_admission = \<lparr>active = 0, next_ticket = 0, waiters = [], granted = {}\<rparr>"

text \<open>The state after giving one slot back, and the waiter to wake.\<close>

definition release_slot :: "admission \<Rightarrow> admission \<times> nat list" where
  "release_slot st =
     (case waiters st of
        t # ws \<Rightarrow> (st\<lparr>waiters := ws, granted := insert t (granted st)\<rparr>, [t])
      | [] \<Rightarrow> (st\<lparr>active := active st - 1\<rparr>, []))"

definition try_acquire :: "limits \<Rightarrow> admission \<Rightarrow> admission option" where
  "try_acquire lim st =
     (if waiters st = [] \<and> active st < max_active lim
      then Some (st\<lparr>active := active st + 1\<rparr>) else None)"

datatype entry = Cancelled | Admitted admission | Queued nat admission | TooManyTasks nat

text \<open>\<^verbatim>\<open>acquire\<close> up to its loop.\<close>

definition acquire_enter :: "limits \<Rightarrow> bool \<Rightarrow> admission \<Rightarrow> entry" where
  "acquire_enter lim cancelled st =
     (if cancelled then Cancelled
      else if waiters st = [] \<and> active st < max_active lim then
        Admitted (st\<lparr>active := active st + 1\<rparr>)
      else if max_queued lim \<le> length (waiters st) then TooManyTasks (max_queued lim)
      else Queued (next_ticket st)
             (st\<lparr>next_ticket := next_ticket st + 1, waiters := waiters st @ [next_ticket st]\<rparr>))"

text \<open>One round of the loop of \<^verbatim>\<open>acquire\<close>: the slot picked up, or \<^const>\<open>None\<close> to wait.\<close>

definition acquire_check :: "nat \<Rightarrow> admission \<Rightarrow> admission option" where
  "acquire_check t st =
     (if t \<in> granted st then Some (st\<lparr>granted := granted st - {t}\<rparr>) else None)"

text \<open>The drop of an armed \<^verbatim>\<open>TicketGuard\<close>.\<close>

definition guard_drop :: "nat \<Rightarrow> admission \<Rightarrow> admission \<times> nat list" where
  "guard_drop t st =
     (if t \<in> granted st then release_slot (st\<lparr>granted := granted st - {t}\<rparr>)
      else (st\<lparr>waiters := filter (\<lambda>w. w \<noteq> t) (waiters st)\<rparr>, []))"

section \<open>The component as a state machine\<close>

record pool =
  adm :: admission
  permits :: nat
  ready :: "nat set"
  parked :: "nat set"
  waking :: "nat set"
  stored :: "nat set"

definition new_pool :: pool where
  "new_pool = \<lparr>adm = new_admission, permits = 0, ready = {}, parked = {}, waking = {}, stored = {}\<rparr>"

inductive step :: "limits \<Rightarrow> pool \<Rightarrow> pool \<Rightarrow> bool" for lim where
  try_ok: "try_acquire lim (adm p) = Some st \<Longrightarrow> step lim p (p\<lparr>adm := st, permits := permits p + 1\<rparr>)"
| enter_now: "acquire_enter lim False (adm p) = Admitted st \<Longrightarrow>
    step lim p (p\<lparr>adm := st, permits := permits p + 1\<rparr>)"
| enter_queue: "acquire_enter lim False (adm p) = Queued t st \<Longrightarrow>
    step lim p (p\<lparr>adm := st, ready := insert t (ready p)\<rparr>)"
| check_ok: "t \<in> ready p \<Longrightarrow> acquire_check t (adm p) = Some st \<Longrightarrow>
    step lim p (p\<lparr>adm := st, ready := ready p - {t}, permits := permits p + 1\<rparr>)"
| check_wait: "t \<in> ready p \<Longrightarrow> acquire_check t (adm p) = None \<Longrightarrow>
    step lim p (p\<lparr>ready := ready p - {t}, parked := insert t (parked p)\<rparr>)"
| wake: "t \<in> parked p \<Longrightarrow> t \<in> stored p \<Longrightarrow>
    step lim p (p\<lparr>parked := parked p - {t}, ready := insert t (ready p), stored := stored p - {t}\<rparr>)"
| leave: "t \<in> ready p \<union> parked p \<Longrightarrow> guard_drop t (adm p) = (st, ws) \<Longrightarrow>
    step lim p (p\<lparr>adm := st, ready := ready p - {t}, parked := parked p - {t},
      waking := waking p \<union> set ws\<rparr>)"
| permit_drop: "0 < permits p \<Longrightarrow> release_slot (adm p) = (st, ws) \<Longrightarrow>
    step lim p (p\<lparr>adm := st, permits := permits p - 1, waking := waking p \<union> set ws\<rparr>)"
| notify: "t \<in> waking p \<Longrightarrow>
    step lim p (p\<lparr>waking := waking p - {t}, stored := insert t (stored p)\<rparr>)"

section \<open>The invariant\<close>

definition adm_ok :: "limits \<Rightarrow> admission \<Rightarrow> bool" where
  "adm_ok lim st \<longleftrightarrow>
     finite (granted st) \<and> active st \<le> max_active lim \<and>
     (waiters st \<noteq> [] \<longrightarrow> active st = max_active lim) \<and>
     length (waiters st) \<le> max_queued lim \<and> sorted_wrt (<) (waiters st) \<and>
     (\<forall>w \<in> set (waiters st). w < next_ticket st) \<and>
     (\<forall>g \<in> granted st. g < next_ticket st \<and> (\<forall>w \<in> set (waiters st). g < w))"

definition pool_ok :: "limits \<Rightarrow> pool \<Rightarrow> bool" where
  "pool_ok lim p \<longleftrightarrow>
     adm_ok lim (adm p) \<and>
     active (adm p) = permits p + card (granted (adm p)) \<and>
     ready p \<union> parked p = set (waiters (adm p)) \<union> granted (adm p) \<and>
     ready p \<inter> parked p = {} \<and>
     granted (adm p) \<inter> parked p \<subseteq> waking p \<union> stored p"

lemma adm_okD:
  assumes "adm_ok lim st"
  shows "finite (granted st)" "active st \<le> max_active lim"
    "waiters st \<noteq> [] \<Longrightarrow> active st = max_active lim"
    "length (waiters st) \<le> max_queued lim" "sorted_wrt (<) (waiters st)"
    "w \<in> set (waiters st) \<Longrightarrow> w < next_ticket st" "g \<in> granted st \<Longrightarrow> g < next_ticket st"
    "g \<in> granted st \<Longrightarrow> w \<in> set (waiters st) \<Longrightarrow> g < w"
  using assms unfolding adm_ok_def by blast+

lemma adm_ok_disjoint: "adm_ok lim st \<Longrightarrow> granted st \<inter> set (waiters st) = {}"
  using adm_okD(8) [of lim st] by fastforce

lemma pool_okD:
  assumes "pool_ok lim p"
  shows "adm_ok lim (adm p)" "active (adm p) = permits p + card (granted (adm p))"
    "ready p \<union> parked p = set (waiters (adm p)) \<union> granted (adm p)" "ready p \<inter> parked p = {}"
    "granted (adm p) \<inter> parked p \<subseteq> waking p \<union> stored p"
  using assms unfolding pool_ok_def by blast+

text \<open>Giving back a slot that is counted keeps the order of the queue.\<close>

lemma release_slot_ok:
  assumes "adm_ok lim st" "0 < active st" "release_slot st = (st', ws)"
  shows "adm_ok lim st'" "set (waiters st') \<union> granted st' = set (waiters st) \<union> granted st"
    "active st + card (granted st') = Suc (active st' + card (granted st))"
    "granted st' = granted st \<union> set ws" "set ws \<subseteq> set (waiters st)"
proof -
  have "adm_ok lim st' \<and> set (waiters st') \<union> granted st' = set (waiters st) \<union> granted st \<and>
    active st + card (granted st') = Suc (active st' + card (granted st)) \<and>
    granted st' = granted st \<union> set ws \<and> set ws \<subseteq> set (waiters st)"
  proof (cases "waiters st")
    case Nil
    with assms(3) have st': "st' = st\<lparr>active := active st - 1\<rparr>" "ws = []"
      by (simp_all add: release_slot_def)
    have "adm_ok lim st'" using assms(1) Nil by (auto simp: adm_ok_def st')
    with assms(2) show ?thesis by (simp add: st')
  next
    case (Cons t rest)
    note d = adm_okD [OF assms(1)]
    have st': "st' = st\<lparr>waiters := rest, granted := insert t (granted st)\<rparr>" "ws = [t]"
      using assms(3) Cons by (simp_all add: release_slot_def)
    have "t \<notin> granted st" using adm_ok_disjoint [OF assms(1)] Cons by auto
    moreover have "adm_ok lim st'"
      unfolding adm_ok_def st' using d(1-5) d(6) [of t] d(6-8) Cons by simp
    ultimately show ?thesis using Cons d(1) by (simp add: st')
  qed
  then show "adm_ok lim st'" "set (waiters st') \<union> granted st' = set (waiters st) \<union> granted st"
    "active st + card (granted st') = Suc (active st' + card (granted st))"
    "granted st' = granted st \<union> set ws" "set ws \<subseteq> set (waiters st)"
    by blast+
qed

lemma guard_drop_ok:
  assumes "adm_ok lim st" "card (granted st) \<le> active st" "guard_drop t st = (st', ws)"
  shows "adm_ok lim st'" "set (waiters st') \<union> granted st' = set (waiters st) \<union> granted st - {t}"
    "active st + card (granted st') = active st' + card (granted st)"
    "granted st' \<subseteq> granted st \<union> set ws"
proof -
  have "adm_ok lim st' \<and> set (waiters st') \<union> granted st' = set (waiters st) \<union> granted st - {t} \<and>
    active st + card (granted st') = active st' + card (granted st) \<and> granted st' \<subseteq> granted st \<union> set ws"
  proof (cases "t \<in> granted st")
    case True
    let ?st = "st\<lparr>granted := granted st - {t}\<rparr>"
    have ok: "adm_ok lim ?st" using assms(1) by (simp add: adm_ok_def)
    have card: "card (granted st) = Suc (card (granted ?st))"
      using card_Suc_Diff1 [OF adm_okD(1) [OF assms(1)] True] by simp
    have out: "t \<notin> set (waiters st)" using adm_ok_disjoint [OF assms(1)] True by blast
    have rel: "release_slot ?st = (st', ws)" using assms(3) True by (simp add: guard_drop_def)
    have "0 < active ?st" using card assms(2) by simp
    note r = release_slot_ok [OF ok this rel]
    show ?thesis using r card out by (intro conjI) auto
  next
    case False
    with assms(3) have st': "st' = st\<lparr>waiters := filter (\<lambda>w. w \<noteq> t) (waiters st)\<rparr>" "ws = []"
      by (simp_all add: guard_drop_def)
    note d = adm_okD [OF assms(1)]
    have "filter (\<lambda>w. w \<noteq> t) (waiters st) \<noteq> [] \<Longrightarrow> active st = max_active lim"
      by (rule d(3)) auto
    then have "adm_ok lim st'"
      unfolding adm_ok_def st'
      using d(1,2) d(6-8) sorted_wrt_filter [OF d(5)] order_trans [OF length_filter_le d(4)]
      by simp
    with False show ?thesis by (auto simp: st')
  qed
  then show "adm_ok lim st'" "set (waiters st') \<union> granted st' = set (waiters st) \<union> granted st - {t}"
    "active st + card (granted st') = active st' + card (granted st)"
    "granted st' \<subseteq> granted st \<union> set ws"
    by blast+
qed

lemma pool_ok_start: "pool_ok lim new_pool"
  by (simp add: pool_ok_def adm_ok_def new_pool_def new_admission_def)

lemma acquired_ok:
  assumes "pool_ok lim p" "waiters (adm p) = []" "active (adm p) < max_active lim"
  shows "pool_ok lim (p\<lparr>adm := (adm p)\<lparr>active := active (adm p) + 1\<rparr>, permits := permits p + 1\<rparr>)"
  using assms by (simp add: pool_ok_def adm_ok_def)

lemma queued_ok:
  assumes "pool_ok lim p" "acquire_enter lim False (adm p) = Queued t st"
  shows "pool_ok lim (p\<lparr>adm := st, ready := insert t (ready p)\<rparr>)"
proof -
  have st: "t = next_ticket (adm p)"
      "st = (adm p)\<lparr>next_ticket := Suc t, waiters := waiters (adm p) @ [t]\<rparr>"
      "\<not> (waiters (adm p) = [] \<and> active (adm p) < max_active lim)" "length (waiters (adm p)) < max_queued lim"
    using assms(2) by (auto simp: acquire_enter_def split: if_splits)
  have ok: "adm_ok lim (adm p)" and live: "ready p \<union> parked p = set (waiters (adm p)) \<union> granted (adm p)"
    using assms(1) by (simp_all add: pool_ok_def)
  have "adm_ok lim st"
    using ok st(3,4) unfolding adm_ok_def st(2) by (auto simp: st(1) sorted_wrt_append less_Suc_eq)
  moreover have "t \<notin> parked p"
  proof
    assume "t \<in> parked p"
    with live have "t \<in> set (waiters (adm p)) \<union> granted (adm p)" by blast
    with ok st(1) show False by (auto simp: adm_ok_def)
  qed
  ultimately show ?thesis using assms(1) by (auto simp: pool_ok_def st(2))
qed

lemma picked_up_ok:
  assumes "pool_ok lim p" "t \<in> ready p" "t \<in> granted (adm p)"
  shows "pool_ok lim (p\<lparr>adm := (adm p)\<lparr>granted := granted (adm p) - {t}\<rparr>, ready := ready p - {t},
    permits := permits p + 1\<rparr>)"
proof -
  have ok: "adm_ok lim (adm p)" using assms(1) by (simp add: pool_ok_def)
  then have "t \<notin> set (waiters (adm p))" using assms(3) by (auto simp: adm_ok_def)
  moreover have "card (granted (adm p)) = Suc (card (granted (adm p) - {t}))"
    using card_Suc_Diff1 [OF adm_okD(1) [OF ok] assms(3)] by simp
  moreover have "adm_ok lim ((adm p)\<lparr>granted := granted (adm p) - {t}\<rparr>)"
    using ok by (auto simp: adm_ok_def)
  ultimately show ?thesis using assms by (auto simp: pool_ok_def)
qed

lemma left_ok:
  assumes "pool_ok lim p" "guard_drop t (adm p) = (st, ws)"
  shows "pool_ok lim (p\<lparr>adm := st, ready := ready p - {t}, parked := parked p - {t}, waking := waking p \<union> set ws\<rparr>)"
proof -
  note d = pool_okD [OF assms(1)]
  have "card (granted (adm p)) \<le> active (adm p)" using d(2) by simp
  note g = guard_drop_ok [OF d(1) this assms(2)]
  have "ready p - {t} \<union> (parked p - {t}) = set (waiters st) \<union> granted st" using d(3) g(2) by blast
  moreover have "granted st \<inter> (parked p - {t}) \<subseteq> waking p \<union> set ws \<union> stored p" using d(5) g(4) by blast
  moreover have "active st = permits p + card (granted st)" using d(2) g(3) by simp
  ultimately show ?thesis unfolding pool_ok_def using g(1) d(4) by simp blast
qed

lemma released_ok:
  assumes "pool_ok lim p" "0 < permits p" "release_slot (adm p) = (st, ws)"
  shows "pool_ok lim (p\<lparr>adm := st, permits := permits p - 1, waking := waking p \<union> set ws\<rparr>)"
proof -
  note d = pool_okD [OF assms(1)]
  have "0 < active (adm p)" using d(2) assms(2) by simp
  note r = release_slot_ok [OF d(1) this assms(3)]
  have "granted st \<inter> parked p \<subseteq> waking p \<union> set ws \<union> stored p" using d(5) r(4) by blast
  moreover have "active st = permits p - 1 + card (granted st)" using d(2) r(3) assms(2) by simp
  moreover have "ready p \<union> parked p = set (waiters st) \<union> granted st" using d(3) r(2) by blast
  ultimately show ?thesis unfolding pool_ok_def using r(1) d(4) by simp
qed

lemma step_ok:
  assumes "step lim p p'" "pool_ok lim p"
  shows "pool_ok lim p'"
  using assms(1)
proof (cases rule: step.cases)
  case (try_ok st)
  then show ?thesis using acquired_ok [OF assms(2)] by (simp add: try_acquire_def split: if_splits)
next
  case (enter_now st)
  then show ?thesis using acquired_ok [OF assms(2)] by (simp add: acquire_enter_def split: if_splits)
next
  case (enter_queue t st)
  then show ?thesis using queued_ok [OF assms(2)] by simp
next
  case (check_ok t st)
  then show ?thesis using picked_up_ok [OF assms(2), of t] by (auto simp: acquire_check_def split: if_splits)
next
  case (check_wait t)
  then have t: "t \<notin> granted (adm p)" by (simp add: acquire_check_def split: if_splits)
  note d = pool_okD [OF assms(2)]
  show ?thesis unfolding check_wait(1) pool_ok_def using d t check_wait(2) by simp blast
next
  case (wake t)
  note d = pool_okD [OF assms(2)]
  show ?thesis unfolding wake(1) pool_ok_def using d wake(2) by simp blast
next
  case (leave t st ws)
  then show ?thesis using left_ok [OF assms(2)] by simp
next
  case (permit_drop st ws)
  then show ?thesis using released_ok [OF assms(2)] by simp
next
  case (notify t)
  note d = pool_okD [OF assms(2)]
  show ?thesis unfolding notify(1) pool_ok_def using d by simp blast
qed

interpretation slots: state_machine new_pool "step lim" "pool_ok lim" for lim
  by unfold_locales (auto intro: pool_ok_start step_ok)

abbreviation reachable :: "limits \<Rightarrow> pool \<Rightarrow> bool" where
  "reachable lim p \<equiv> rtranclp (step lim) new_pool p"

section \<open>What the queue guarantees\<close>

text \<open>C6: the limits hold at every moment, for every interleaving of callers, cancels and
  drops.  Running processes and slots handed over together are exactly the counted slots
  and never exceed the limit, the queue never exceeds its own, a slot is never idle while
  someone waits, and once nobody runs or waits no slot is lost.\<close>

theorem admission_safe:
  assumes "reachable lim p"
  shows "active (adm p) = permits p + card (granted (adm p)) \<and> active (adm p) \<le> max_active lim \<and>
    length (waiters (adm p)) \<le> max_queued lim \<and>
    (waiters (adm p) \<noteq> [] \<longrightarrow> active (adm p) = max_active lim) \<and>
    (permits p = 0 \<and> ready p = {} \<and> parked p = {} \<longrightarrow> active (adm p) = 0)"
proof -
  have ok: "pool_ok lim p" by (rule slots.reachable_inv [OF assms])
  note d = pool_okD [OF ok]
  have "granted (adm p) = {}" if "ready p = {}" "parked p = {}" using d(3) that by blast
  then show ?thesis using d(2) adm_okD(2-4) [OF d(1)] by auto
qed

lemma reach_two: "reachable (new_limits 1)
  (new_pool\<lparr>adm := new_admission\<lparr>active := 1, next_ticket := 1, waiters := [0]\<rparr>, permits := 1, ready := {0}\<rparr>)"
proof -
  let ?p = "new_pool\<lparr>adm := new_admission\<lparr>active := 1\<rparr>, permits := 1\<rparr>"
  have "step (new_limits 1) new_pool (new_pool\<lparr>adm := new_admission\<lparr>active := 1\<rparr>, permits := permits new_pool + 1\<rparr>)"
    by (rule step.enter_now) (simp add: acquire_enter_def new_pool_def new_admission_def new_limits_def with_queue_cap_def)
  then have one: "step (new_limits 1) new_pool ?p" by (simp add: new_pool_def)
  have "step (new_limits 1) ?p (?p\<lparr>adm := new_admission\<lparr>active := 1, next_ticket := 1, waiters := [0]\<rparr>,
      ready := insert 0 (ready ?p)\<rparr>)"
    by (rule step.enter_queue)
       (simp add: acquire_enter_def new_pool_def new_admission_def new_limits_def with_queue_cap_def MAX_QUEUED_def)
  with one show ?thesis by (simp add: new_pool_def)
qed

theorem admission_safe_witness:
  "active (adm (new_pool\<lparr>adm := new_admission\<lparr>active := 1, next_ticket := 1, waiters := [0]\<rparr>, permits := 1, ready := {0}\<rparr>))
      = permits (new_pool\<lparr>adm := new_admission\<lparr>active := 1, next_ticket := 1, waiters := [0]\<rparr>, permits := 1, ready := {0}\<rparr>)
        + card (granted (adm (new_pool\<lparr>adm := new_admission\<lparr>active := 1, next_ticket := 1, waiters := [0]\<rparr>, permits := 1, ready := {0}\<rparr>)))
    \<and> length (waiters (adm (new_pool\<lparr>adm := new_admission\<lparr>active := 1, next_ticket := 1, waiters := [0]\<rparr>, permits := 1, ready := {0}\<rparr>)))
      \<le> max_queued (new_limits 1)"
  using admission_safe [OF reach_two] by blast

text \<open>The queue is first in, first out.  A step hands a slot only to the head of the
  queue, which has the smallest ticket; a caller that does not wait gets a slot only when
  nobody waits; and every ticket handed a slot is older than every ticket still waiting.\<close>

theorem admission_fifo:
  assumes "reachable lim p" "step lim p p'"
  shows "(\<forall>t \<in> granted (adm p') - granted (adm p).
      waiters (adm p) \<noteq> [] \<and> t = hd (waiters (adm p)) \<and> (\<forall>w \<in> set (waiters (adm p)). t \<le> w)) \<and>
    (waiters (adm p) \<noteq> [] \<and> permits p < permits p' \<longrightarrow> (\<exists>t \<in> granted (adm p). t \<in> ready p \<and> t \<notin> granted (adm p'))) \<and>
    (\<forall>g \<in> granted (adm p'). \<forall>w \<in> set (waiters (adm p')). g < w)"
proof -
  have ok: "pool_ok lim p" by (rule slots.reachable_inv [OF assms(1)])
  note d = pool_okD [OF ok]
  have sorted: "sorted_wrt (<) (waiters (adm p))" by (rule adm_okD(5) [OF d(1)])
  have head: "waiters st \<noteq> [] \<and> t = hd (waiters st)"
    if "release_slot st = (st', ws)" "t \<in> granted st' - granted st" for st st' ws t
    using that by (auto simp: release_slot_def split: list.splits)
  have "waiters (adm p) \<noteq> [] \<and> t = hd (waiters (adm p))" if "t \<in> granted (adm p') - granted (adm p)" for t
    using assms(2) that
  proof (cases rule: step.cases)
    case (leave u st ws)
    then show ?thesis
      using that head [of "(adm p)\<lparr>granted := granted (adm p) - {u}\<rparr>" st ws t]
      by (auto simp: guard_drop_def split: if_splits)
  next
    case (permit_drop st ws)
    then show ?thesis using that head [of "adm p" st ws t] by simp
  qed (auto simp: try_acquire_def acquire_enter_def acquire_check_def split: if_splits)
  moreover have "hd (waiters (adm p)) \<le> w" if "w \<in> set (waiters (adm p))" for w
    using sorted that by (cases "waiters (adm p)") auto
  moreover have "\<exists>t \<in> granted (adm p). t \<in> ready p \<and> t \<notin> granted (adm p')"
    if "waiters (adm p) \<noteq> []" "permits p < permits p'"
    using assms(2) that
    by (cases rule: step.cases)
       (auto simp: try_acquire_def acquire_enter_def acquire_check_def split: if_splits)
  moreover have "\<forall>g \<in> granted (adm p'). \<forall>w \<in> set (waiters (adm p')). g < w"
    using adm_okD(8) [OF pool_okD(1) [OF step_ok [OF assms(2) ok]]] by blast
  ultimately show ?thesis by blast
qed

theorem admission_fifo_witness:
  "\<exists>p p'. reachable (new_limits 1) p \<and> step (new_limits 1) p p' \<and> granted (adm p') = {0} \<and>
    (\<forall>t \<in> granted (adm p') - granted (adm p).
      waiters (adm p) \<noteq> [] \<and> t = hd (waiters (adm p)) \<and> (\<forall>w \<in> set (waiters (adm p)). t \<le> w))"
proof -
  let ?p = "new_pool\<lparr>adm := new_admission\<lparr>active := 1, next_ticket := 1, waiters := [0]\<rparr>, permits := 1, ready := {0}\<rparr>"
  let ?st = "new_admission\<lparr>active := 1, next_ticket := 1, waiters := [], granted := {0}\<rparr>"
  let ?q = "?p\<lparr>adm := ?st, permits := permits ?p - 1, waking := waking ?p \<union> set [0]\<rparr>"
  have s: "step (new_limits 1) ?p ?q"
    by (rule step.permit_drop) (simp_all add: release_slot_def new_admission_def)
  have "granted (adm ?q) = {0}" by simp
  with admission_fifo [OF reach_two s] reach_two s show ?thesis by blast
qed

text \<open>The waiter has turned the slot handed to it into a permit, and nothing else changed.\<close>

definition took :: "nat \<Rightarrow> pool \<Rightarrow> pool \<Rightarrow> bool" where
  "took t p p' \<longleftrightarrow> permits p' = Suc (permits p) \<and> granted (adm p') = granted (adm p) - {t} \<and>
     t \<notin> ready p' \<union> parked p' \<and> waiters (adm p') = waiters (adm p)"

lemma took_same: "adm q = adm p \<Longrightarrow> permits q = permits p \<Longrightarrow> took t q p' = took t p p'"
  by (simp add: took_def)

lemma take_ready:
  assumes "t \<in> ready q" "t \<in> granted (adm q)" "t \<notin> parked q"
  shows "\<exists>p'. step lim q p' \<and> took t q p'"
proof (intro exI conjI)
  show "step lim q (q\<lparr>adm := (adm q)\<lparr>granted := granted (adm q) - {t}\<rparr>, ready := ready q - {t}, permits := permits q + 1\<rparr>)"
    by (rule step.check_ok [OF assms(1)]) (simp add: acquire_check_def assms(2))
qed (use assms in \<open>simp add: took_def\<close>)

lemma take_woken:
  assumes "t \<in> parked q" "t \<in> stored q" "t \<in> granted (adm q)"
  shows "\<exists>p'. rtranclp (step lim) q p' \<and> took t q p'"
proof -
  let ?q = "q\<lparr>parked := parked q - {t}, ready := insert t (ready q), stored := stored q - {t}\<rparr>"
  have s: "step lim q ?q" using assms(1,2) by (rule step.wake)
  obtain p' where "step lim ?q p'" "took t ?q p'" using take_ready [of t ?q lim] assms(3) by auto
  then show ?thesis
    using s took_same [of ?q q t p'] by (auto intro: converse_rtranclp_into_rtranclp)
qed

text \<open>No wake-up is lost and no slot leaks on the way.  From every reachable state,
  a waiter that was handed a slot can go on by itself to hold it, whatever the others do
  not do: it is about to look, or its wake-up is stored, or is about to be sent.\<close>

theorem handed_slot_is_taken:
  assumes "reachable lim p" "t \<in> granted (adm p)"
  shows "\<exists>p'. rtranclp (step lim) p p' \<and> took t p p'"
proof -
  have ok: "pool_ok lim p" by (rule slots.reachable_inv [OF assms(1)])
  note d = pool_okD [OF ok]
  consider "t \<in> ready p" "t \<notin> parked p" | "t \<in> parked p" "t \<in> stored p" | "t \<in> parked p" "t \<in> waking p"
    using d(3,4,5) assms(2) by blast
  then show ?thesis
  proof cases
    case 1
    with take_ready [of t p] assms(2) show ?thesis by blast
  next
    case 2
    with take_woken [of t p] assms(2) show ?thesis by blast
  next
    case 3
    let ?q = "p\<lparr>waking := waking p - {t}, stored := insert t (stored p)\<rparr>"
    have s: "step lim p ?q" using 3(2) by (rule step.notify)
    obtain p' where "rtranclp (step lim) ?q p'" "took t ?q p'"
      using take_woken [of t ?q lim] 3(1) assms(2) by auto
    with s took_same [of ?q p t p'] show ?thesis by (auto intro: converse_rtranclp_into_rtranclp)
  qed
qed

lemma reach_handed: "reachable (new_limits 1)
  (new_pool\<lparr>adm := new_admission\<lparr>active := 1, next_ticket := 1, waiters := [], granted := {0}\<rparr>,
     permits := 0, ready := {0}, waking := {0}\<rparr>)"
proof -
  let ?p = "new_pool\<lparr>adm := new_admission\<lparr>active := 1, next_ticket := 1, waiters := [0]\<rparr>, permits := 1, ready := {0}\<rparr>"
  let ?st = "new_admission\<lparr>active := 1, next_ticket := 1, waiters := [], granted := {0}\<rparr>"
  have "step (new_limits 1) ?p (?p\<lparr>adm := ?st, permits := permits ?p - 1, waking := waking ?p \<union> set [0]\<rparr>)"
    by (rule step.permit_drop) (simp_all add: release_slot_def new_admission_def)
  with reach_two show ?thesis by (auto intro: rtranclp.rtrancl_into_rtrancl simp: new_pool_def)
qed

theorem handed_slot_is_taken_witness:
  "\<exists>p'. rtranclp (step (new_limits 1))
      (new_pool\<lparr>adm := new_admission\<lparr>active := 1, next_ticket := 1, waiters := [], granted := {0}\<rparr>,
         permits := 0, ready := {0}, waking := {0}\<rparr>) p' \<and>
    took 0 (new_pool\<lparr>adm := new_admission\<lparr>active := 1, next_ticket := 1, waiters := [], granted := {0}\<rparr>,
         permits := 0, ready := {0}, waking := {0}\<rparr>) p'"
  by (rule handed_slot_is_taken [OF reach_handed]) simp

end
