(* ===== verification/Hashline.thy ===== *)
theory Hashline
  imports Prelude "HOL-Library.Word" "HOL-Library.Product_Lexorder"
begin

text \<open>
  \<^verbatim>\<open>crates/pacode-tools/src/hashline/\<close>: \<^verbatim>\<open>hash.rs\<close>, \<^verbatim>\<open>anchor.rs\<close>, \<^verbatim>\<open>lines.rs\<close>, \<^verbatim>\<open>render.rs\<close> and
  \<^verbatim>\<open>stale.rs\<close>, the anchors \<^verbatim>\<open>LINE#HASH\<close> by which the model names lines of a file.  The hash
  is computed on 64-bit words, where the multiplication wraps; codes are 16-bit words.
  A file's content is its bytes; the number of characters of a long line is counted by the
  bytes that start a UTF-8 sequence.
\<close>

unbundle bit_operations_syntax

section \<open>Hashes\<close>

definition HASH_LEN :: nat where
  "HASH_LEN = 2"

definition ALPHABET :: string where
  "ALPHABET = ''0123456789abcdefghjkmnpqrstvwxyz''"

definition trim_end :: "string \<Rightarrow> string" where
  "trim_end s = trim_end_matches is_whitespace s"

definition hash_step :: "64 word \<Rightarrow> char \<Rightarrow> 64 word" where
  "hash_step h b = (h XOR of_nat (code_of b)) * 0x100000001b3"

definition hash_code :: "string \<Rightarrow> 16 word" where
  "hash_code line =
     (let h = foldl hash_step 0xcbf29ce484222325 (trim_end line);
          h = h XOR drop_bit 32 h;
          h = h XOR drop_bit 17 h;
          v = h AND 0x3ff
      in if v \<le> 0xffff then ucast v else 0)"

definition symbol :: "16 word \<Rightarrow> char" where
  "symbol index = (case get ALPHABET (unat (index AND 31)) of Some b \<Rightarrow> b | None \<Rightarrow> CHR ''0'')"

definition encode :: "16 word \<Rightarrow> string" where
  "encode code = [symbol (drop_bit 5 code), symbol code]"

definition decode_symbol :: "char \<Rightarrow> 16 word option" where
  "decode_symbol c = map_option of_nat (find_index (\<lambda>b. b = to_ascii_lower_char c) ALPHABET)"

definition decode :: "string \<Rightarrow> 16 word option" where
  "decode s =
     (case s of
        a # r \<Rightarrow>
          (case decode_symbol a of None \<Rightarrow> None
           | Some hi \<Rightarrow>
               (case r of
                  b # r' \<Rightarrow>
                    (case decode_symbol b of None \<Rightarrow> None
                     | Some lo \<Rightarrow> if r' = [] then Some (push_bit 5 hi OR lo) else None)
                | [] \<Rightarrow> None))
      | [] \<Rightarrow> None)"

definition line_hash :: "string \<Rightarrow> string" where
  "line_hash line = encode (hash_code line)"

definition strip_anchor_prefix :: "string \<Rightarrow> string option" where
  "strip_anchor_prefix line =
     (case split_once line (CHR ''#'') of None \<Rightarrow> None
      | Some (num, rest) \<Rightarrow>
          if num = [] \<or> \<not> list_all is_ascii_digit num then None
          else (case split_once rest (CHR ''|'') of None \<Rightarrow> None
            | Some (hash, txt) \<Rightarrow>
                (case decode hash of None \<Rightarrow> None
                 | Some _ \<Rightarrow> Some (case strip_prefix txt [SP] of Some t \<Rightarrow> t | None \<Rightarrow> txt))))"

section \<open>Anchors, operations, errors\<close>

datatype anchor = Bof | Eof | LineA nat string

datatype edit_op =
    Replace anchor "anchor option" "string list"
  | InsertAfter anchor "string list"
  | InsertBefore anchor "string list"
  | DeleteOp anchor "anchor option"

record stale_anchor =
  sa_op :: nat
  sa_role :: string
  sa_anchor :: string
  sa_reason :: string

datatype edit_error =
    NoOps
  | InvalidAnchor string
  | NotALineAnchor nat string
  | ReversedRange nat nat nat
  | EmptyInsert nat
  | Overlap nat nat string
  | Stale "stale_anchor list" string

definition eq_ignore_ascii_case :: "string \<Rightarrow> string \<Rightarrow> bool" where
  "eq_ignore_ascii_case a b \<longleftrightarrow> to_ascii_lowercase a = to_ascii_lowercase b"

definition anchor_parse :: "string \<Rightarrow> edit_error + anchor" where
  "anchor_parse s =
     (let head = trim (hd (split_on (CHR ''|'') s))
      in if eq_ignore_ascii_case head ''bof'' then Inr Bof
         else if eq_ignore_ascii_case head ''eof'' then Inr Eof
         else (case split_once head (CHR ''#'') of None \<Rightarrow> Inl (InvalidAnchor s)
           | Some (num, hash) \<Rightarrow>
               (case parse_uint 64 (trim num) of None \<Rightarrow> Inl (InvalidAnchor s)
                | Some line \<Rightarrow>
                    (case decode (trim hash) of None \<Rightarrow> Inl (InvalidAnchor s)
                     | Some code \<Rightarrow>
                         if line = 0 then Inl (InvalidAnchor s) else Inr (LineA line (encode code))))))"

definition for_line :: "nat \<Rightarrow> string \<Rightarrow> anchor" where
  "for_line line txt = LineA line (encode (hash_code txt))"

fun display_anchor :: "anchor \<Rightarrow> string" where
  "display_anchor Bof = ''BOF''"
| "display_anchor Eof = ''EOF''"
| "display_anchor (LineA line hash) = show_nat line @ ''#'' @ hash"

section \<open>Lines with their terminators\<close>

record line =
  l_text :: string
  l_eol :: string

fun split_inclusive :: "string \<Rightarrow> string list" where
  "split_inclusive [] = []"
| "split_inclusive (x # s) =
     (if x = NL then [x] # split_inclusive s
      else (case split_inclusive s of [] \<Rightarrow> [[x]] | p # ps \<Rightarrow> (x # p) # ps))"

definition to_line :: "string \<Rightarrow> line" where
  "to_line seg =
     (case strip_suffix seg [CR, NL] of Some t \<Rightarrow> \<lparr>l_text = t, l_eol = [CR, NL]\<rparr>
      | None \<Rightarrow>
          (case strip_suffix seg [NL] of Some t \<Rightarrow> \<lparr>l_text = t, l_eol = [NL]\<rparr>
           | None \<Rightarrow> \<lparr>l_text = seg, l_eol = []\<rparr>))"

definition split_lines :: "string \<Rightarrow> line list" where
  "split_lines content = map to_line (split_inclusive content)"

definition dominant_eol :: "line list \<Rightarrow> string" where
  "dominant_eol lines =
     (let crlf = length (filter (\<lambda>l. l_eol l = [CR, NL]) lines);
          lf = length (filter (\<lambda>l. l_eol l = [NL]) lines)
      in if lf < crlf then [CR, NL] else [NL])"

section \<open>Display\<close>

definition MAX_DISPLAY_CHARS :: nat where
  "MAX_DISPLAY_CHARS = 2000"

definition CONTEXT_LINES :: nat where
  "CONTEXT_LINES = 3"

definition MAX_CONTEXT_LINES :: nat where
  "MAX_CONTEXT_LINES = 60"

text \<open>\<^verbatim>\<open>char_indices().nth(k)\<close> on UTF-8 bytes.\<close>

fun nth_char :: "nat \<Rightarrow> string \<Rightarrow> nat option" where
  "nth_char k [] = None"
| "nth_char k (c # s) =
     (if \<not> is_char_start c then map_option Suc (nth_char k s)
      else if k = 0 then Some 0 else map_option Suc (nth_char (k - 1) s))"

definition annotated_line :: "nat \<Rightarrow> string \<Rightarrow> string" where
  "annotated_line number txt =
     (case nth_char MAX_DISPLAY_CHARS txt of
        Some k \<Rightarrow>
          show_nat number @ ''#'' @ line_hash txt @ ''| '' @ take k txt @ ''...['' @
            show_nat (char_count txt - MAX_DISPLAY_CHARS) @ '' more chars]''
      | None \<Rightarrow> show_nat number @ ''#'' @ line_hash txt @ ''| '' @ txt)"

definition annotate_lines :: "string list \<Rightarrow> nat \<Rightarrow> string" where
  "annotate_lines lines start_line =
     join_with [NL] (map (\<lambda>(k, txt). annotated_line (start_line + k) txt) (enumerate 0 lines))"

definition annotate :: "string \<Rightarrow> nat \<Rightarrow> string" where
  "annotate content start_line = annotate_lines (map l_text (split_lines content)) start_line"

fun merge_windows :: "nat \<times> nat \<Rightarrow> (nat \<times> nat) list \<Rightarrow> (nat \<times> nat) list" where
  "merge_windows prev [] = [prev]"
| "merge_windows prev ((a, b) # ws) =
     (if a \<le> snd prev then merge_windows (fst prev, max (snd prev) b) ws
      else prev # merge_windows (a, b) ws)"

definition merged_windows :: "(nat \<times> nat) list \<Rightarrow> (nat \<times> nat) list" where
  "merged_windows ws = (case ws of [] \<Rightarrow> [] | w # r \<Rightarrow> merge_windows w r)"

definition focus_window :: "nat \<Rightarrow> nat \<Rightarrow> nat \<times> nat \<Rightarrow> nat \<times> nat" where
  "focus_window n context r =
     (let start = min (fst r) (n - 1); stop = min (max (snd r) (start + 1)) n
      in (start - context, min (stop + context) n))"

definition in_focus :: "nat \<Rightarrow> (nat \<times> nat) list \<Rightarrow> nat \<Rightarrow> bool" where
  "in_focus n focus i =
     list_ex (\<lambda>r. fst r \<le> i \<and> i < snd r \<or> snd r \<le> fst r \<and> min (fst r) (n - 1) = i) focus"

definition snippet_row :: "line list \<Rightarrow> (nat \<times> nat) list \<Rightarrow> bool \<Rightarrow> nat \<Rightarrow> string" where
  "snippet_row lines focus mark i =
     (let row = annotated_line (i + 1) (l_text (lines ! i))
      in if mark then (if in_focus (length lines) focus i then ''> '' else ''  '') @ row else row)"

text \<open>The rows so far and the number of rows left out, over the lines of a window.\<close>

fun window_rows :: "(nat \<Rightarrow> string) \<Rightarrow> nat \<Rightarrow> nat list \<Rightarrow> string list \<times> nat \<Rightarrow> string list \<times> nat" where
  "window_rows row max_lines [] st = st"
| "window_rows row max_lines (i # is) (rows, hidden) =
     window_rows row max_lines is
       (if max_lines \<le> length rows then (rows, hidden + 1) else (rows @ [row i], hidden))"

fun snippet_windows ::
  "(nat \<Rightarrow> string) \<Rightarrow> nat \<Rightarrow> nat \<Rightarrow> (nat \<times> nat) list \<Rightarrow> string list \<times> nat \<Rightarrow> string list \<times> nat" where
  "snippet_windows row max_lines w [] st = st"
| "snippet_windows row max_lines w ((a, b) # ws) (rows, hidden) =
     snippet_windows row max_lines (w + 1) ws
       (window_rows row max_lines [a..<b]
         (if 0 < w \<and> length rows < max_lines then (rows @ [''...''], hidden) else (rows, hidden)))"

definition snippet :: "string \<Rightarrow> (nat \<times> nat) list \<Rightarrow> nat \<Rightarrow> nat \<Rightarrow> bool \<Rightarrow> string" where
  "snippet content focus context max_lines mark =
     (let lines = split_lines content; n = length lines
      in if n = 0 then ''(file is empty)''
         else
           (let windows = merged_windows (sort (map (focus_window n context) focus));
                (rows, hidden) = snippet_windows (snippet_row lines focus mark) max_lines 0 windows ([], 0);
                rows = (if 0 < hidden then rows @ [''... ('' @ show_nat hidden @ '' more lines not shown)''] else rows)
            in join_with [NL] rows))"

section \<open>The rejection message\<close>

record stale_hit =
  sh_info :: stale_anchor
  sh_focus :: nat

definition stale_line :: "stale_hit \<Rightarrow> string" where
  "stale_line h =
     ''- op '' @ show_nat (sa_op (sh_info h)) @ '' '' @ sa_role (sh_info h) @ '' `'' @
       sa_anchor (sh_info h) @ ''`: '' @ sa_reason (sh_info h) @ [NL]"

definition stale_message :: "string \<Rightarrow> stale_hit list \<Rightarrow> string" where
  "stale_message content hits =
     ''Edit rejected, nothing written: '' @ show_nat (length hits) @
       '' stale anchor(s); the file changed since it was read.'' @ [NL] @
     concat (map stale_line hits) @
     ''Current lines (`>` = stale anchor position); retry using these anchors:'' @ [NL] @
     snippet content (map (\<lambda>h. (sh_focus h, sh_focus h + 1)) hits) CONTEXT_LINES MAX_CONTEXT_LINES True"

section \<open>Codes are read back\<close>

lemma find_index_nth: "distinct xs \<Longrightarrow> j < length xs \<Longrightarrow> find_index (\<lambda>b. b = xs ! j) xs = Some j"
proof (induction xs arbitrary: j)
  case (Cons x xs)
  then show ?case by (cases j) (auto simp: nth_eq_iff_index_eq in_set_conv_nth)
qed simp

lemma alphabet_facts:
  "distinct ALPHABET" "length ALPHABET = 32" "list_all (\<lambda>c. to_ascii_lower_char c = c) ALPHABET"
  "list_all is_ascii_alphanumeric ALPHABET"
  by code_simp+

lemma low_five: "(k :: 16 word) AND 31 = take_bit 5 k"
  by (simp add: take_bit_eq_mask mask_numeral)

lemma low_five_bound: "unat (take_bit 5 (k :: 16 word)) < 32"
  by (simp add: unsigned_take_bit_eq take_bit_nat_def)

lemma symbol_nth: "symbol k = ALPHABET ! unat (take_bit 5 k)"
  using low_five_bound [of k] by (simp add: symbol_def low_five get_def alphabet_facts)

lemma symbol_in_alphabet: "symbol k \<in> set ALPHABET"
  using low_five_bound [of k] by (simp add: symbol_nth alphabet_facts)

lemma decode_symbol_symbol: "decode_symbol (symbol k) = Some (take_bit 5 k)"
proof -
  have "to_ascii_lower_char (symbol k) = symbol k"
    using alphabet_facts(3) symbol_in_alphabet [of k] by (simp add: list_all_iff)
  then show ?thesis
    using find_index_nth [OF alphabet_facts(1), of "unat (take_bit 5 k)"] low_five_bound [of k]
    by (simp add: decode_symbol_def symbol_nth alphabet_facts)
qed

lemma split_ten_bits: "push_bit 5 (take_bit 5 (drop_bit 5 c)) OR take_bit 5 c = take_bit 10 (c :: 16 word)"
  by (rule bit_word_eqI) (auto simp: bit_simps)

lemma decode_encode: "take_bit 10 c = c \<Longrightarrow> decode (encode c) = Some c"
  by (simp add: encode_def decode_def decode_symbol_symbol split_ten_bits)

lemma hash_code_ten_bits: "take_bit 10 (hash_code line) = hash_code line"
proof -
  have "take_bit 10 (ucast (take_bit 10 h) :: 16 word) = ucast (take_bit 10 h)" for h :: "64 word"
    by (rule bit_word_eqI) (auto simp: bit_simps)
  moreover have "h AND 0x3ff = take_bit 10 h" for h :: "64 word"
    by (simp add: take_bit_eq_mask mask_numeral)
  ultimately have "take_bit 10 (if h AND 0x3ff \<le> 0xffff then ucast (h AND 0x3ff) else 0 :: 16 word) =
      (if h AND 0x3ff \<le> 0xffff then ucast (h AND 0x3ff) else 0)" for h :: "64 word"
    by simp
  then show ?thesis unfolding hash_code_def Let_def .
qed

lemma decode_line_hash: "decode (line_hash line) = Some (hash_code line)"
  by (simp add: line_hash_def decode_encode hash_code_ten_bits)

lemma digit_not_special:
  "is_ascii_digit c \<or> is_ascii_alphanumeric c \<Longrightarrow>
     c \<noteq> CHR ''#'' \<and> c \<noteq> CHR ''|'' \<and> \<not> is_whitespace c"
  by (auto simp: is_ascii_digit_def is_ascii_alphanumeric_def is_ascii_alphabetic_def is_whitespace_def code_of_def)

lemma line_hash_chars: "c \<in> set (line_hash t) \<Longrightarrow> is_ascii_alphanumeric c"
  using alphabet_facts(4) symbol_in_alphabet by (auto simp: line_hash_def encode_def list_all_iff)

lemma split_once_append: "c \<notin> set a \<Longrightarrow> split_once (a @ c # b) c = Some (a, b)"
proof -
  assume "c \<notin> set a"
  then have "find_index (\<lambda>d. d = c) (a @ c # b) = Some (length a)" by (induction a) auto
  then show ?thesis by (simp add: split_once_def)
qed

lemma head_of_row: "c \<notin> set h \<Longrightarrow> hd (split_on c (h @ c # r)) = h"
  by (simp add: split_on_append)

lemma parse_line_head:
  assumes "0 < n" "int n < 2 ^ 64" "trim (hd (split_on (CHR ''|'') s)) = show_nat n @ CHR ''#'' # line_hash t"
  shows "anchor_parse s = Inr (for_line n t)"
proof -
  obtain c r where cr: "show_nat n = c # r" using show_nat_digits [of n] by (cases "show_nat n") auto
  then have "is_ascii_digit c" using show_nat_digits [of n] by simp
  then have "to_ascii_lower_char c \<noteq> CHR ''b'' \<and> to_ascii_lower_char c \<noteq> CHR ''e''"
    by (auto simp: to_ascii_lower_char_def is_ascii_digit_def code_of_def)
  moreover have "to_ascii_lower_char (CHR ''b'') = CHR ''b''" "to_ascii_lower_char (CHR ''e'') = CHR ''e''"
    by (simp_all add: to_ascii_lower_char_def code_of_def)
  ultimately have "\<not> eq_ignore_ascii_case (show_nat n @ x) ''bof''" "\<not> eq_ignore_ascii_case (show_nat n @ x) ''eof''" for x
    by (simp_all add: eq_ignore_ascii_case_def to_ascii_lowercase_def cr)
  moreover have d: "\<forall>c \<in> set (show_nat n). is_ascii_digit c" using show_nat_digits [of n] by (simp add: list_all_iff)
  then have "CHR ''#'' \<notin> set (show_nat n)" using digit_not_special by blast
  then have "split_once (show_nat n @ CHR ''#'' # line_hash t) (CHR ''#'') = Some (show_nat n, line_hash t)"
    by (rule split_once_append)
  moreover have "trim (show_nat n) = show_nat n" by (rule trim_id) (use d digit_not_special in blast)
  moreover have "trim (line_hash t) = line_hash t" by (rule trim_id) (use line_hash_chars digit_not_special in blast)
  ultimately show ?thesis
    using assms parse_uint_show [OF assms(2)] decode_line_hash [of t]
    by (simp add: anchor_parse_def for_line_def line_hash_def)
qed

lemma trim_visible_ends: "s \<noteq> [] \<Longrightarrow> \<not> is_whitespace (hd s) \<Longrightarrow> \<not> is_whitespace (last s) \<Longrightarrow> trim s = s"
proof -
  assume a: "s \<noteq> []" "\<not> is_whitespace (hd s)" "\<not> is_whitespace (last s)"
  then have "dropWhile is_whitespace s = s" by (cases s) auto
  moreover have "dropWhile is_whitespace (rev s) = rev s" using a by (cases "rev s") (auto simp: hd_rev [symmetric])
  ultimately show ?thesis by (simp add: trim_def trim_start_matches_def trim_end_matches_def)
qed

lemma trim_indented [simp]: "trim (CHR '' '' # s) = trim s"
  by (simp add: trim_def trim_start_matches_def is_whitespace_def)

lemma marker_not_space: "\<not> is_whitespace (CHR ''>'')"
  by (simp add: is_whitespace_def code_of_def)

text \<open>A head that begins like a marked row is no anchor.\<close>

lemma marked_head_refused:
  assumes "trim (hd (split_on (CHR ''|'') s)) = (''> '' @ num) @ CHR ''#'' # hash"
    and num: "num \<noteq> []" "\<forall>c \<in> set num. is_ascii_digit c"
  shows "anchor_parse s = Inl (InvalidAnchor s)"
proof -
  have low: "to_ascii_lower_char (CHR ''>'') = CHR ''>''" "to_ascii_lower_char (CHR ''b'') = CHR ''b''"
    "to_ascii_lower_char (CHR ''e'') = CHR ''e''"
    by (simp_all add: to_ascii_lower_char_def code_of_def)
  have other: "\<not> eq_ignore_ascii_case ((''> '' @ num) @ x) ''bof''" "\<not> eq_ignore_ascii_case ((''> '' @ num) @ x) ''eof''" for x
    using low by (simp_all add: eq_ignore_ascii_case_def to_ascii_lowercase_def)
  have "CHR ''#'' \<notin> set (''> '' @ num)" using num(2) digit_not_special by auto
  then have split: "split_once ((''> '' @ num) @ CHR ''#'' # hash) (CHR ''#'') = Some (''> '' @ num, hash)" by (rule split_once_append)
  have "\<not> is_whitespace (last num)" using num digit_not_special last_in_set by blast
  then have "trim (''> '' @ num) = ''> '' @ num" using num(1) by (intro trim_visible_ends) (simp_all add: marker_not_space)
  moreover have "parse_uint 64 (''> '' @ num) = None"
    by (simp add: parse_uint_def is_ascii_digit_def code_of_def)
  ultimately show ?thesis using other [of "CHR ''#'' # hash"] split assms(1) by (simp only: anchor_parse_def Let_def) simp
qed

text \<open>C40: where the program shows an anchor, and what \<^verbatim>\<open>anchor_parse\<close> makes of it, for every line
  number a 64-bit machine has.  A row that \<^verbatim>\<open>read\<close> displayed, cut or not and whatever its
  text holds, and the short form \<^verbatim>\<open>LINE#HASH\<close> of error messages parse to the anchor of that
  line.  So does a row of a snippet, unless it is one of the rows that a marked snippet - the
  one of a rejected edit - marks as in focus: that row as a whole, with its \<^verbatim>\<open>>\<close>, is refused as
  no anchor.\<close>

theorem anchor_roundtrip:
  assumes "0 < n" "int n < 2 ^ 64"
  shows "anchor_parse (annotated_line n t) = Inr (for_line n t) \<and>
    anchor_parse (display_anchor (for_line n t)) = Inr (for_line n t) \<and>
    anchor_parse (snippet_row lines focus mark (n - 1)) =
      (if mark \<and> in_focus (length lines) focus (n - 1)
       then Inl (InvalidAnchor (snippet_row lines focus mark (n - 1)))
       else Inr (for_line n (l_text (lines ! (n - 1)))))"
proof -
  have d: "\<forall>c \<in> set (show_nat n). is_ascii_digit c" using show_nat_digits [of n] by (simp add: list_all_iff)
  have ok: "c \<noteq> CHR ''|'' \<and> \<not> is_whitespace c" if "c \<in> set (show_nat n @ CHR ''#'' # line_hash t)" for c t
    using that d line_hash_chars [of c t] digit_not_special [of c] by (auto simp: is_whitespace_def code_of_def)
  then have bar: "CHR ''|'' \<notin> set (show_nat n @ CHR ''#'' # line_hash t)" and tr: "trim (show_nat n @ CHR ''#'' # line_hash t) = show_nat n @ CHR ''#'' # line_hash t" for t
    by (blast, blast intro: trim_id)
  have row: "\<exists>r. annotated_line n t = (show_nat n @ CHR ''#'' # line_hash t) @ CHR ''|'' # r" for t
    by (cases "nth_char MAX_DISPLAY_CHARS t") (simp_all add: annotated_line_def)
  have plain: "anchor_parse (annotated_line n t) = Inr (for_line n t)" for t
    by (rule parse_line_head [OF assms]) (use row [of t] head_of_row [OF bar] tr in auto)
  have "anchor_parse (display_anchor (for_line n t)) = Inr (for_line n t)"
    by (rule parse_line_head [OF assms])
       (use tr split_on_absent [OF bar] in \<open>simp add: for_line_def line_hash_def\<close>)
  moreover have "anchor_parse (''  '' @ annotated_line n t) = Inr (for_line n t)" for t
  proof (rule parse_line_head [OF assms])
    obtain r where "annotated_line n t = (show_nat n @ CHR ''#'' # line_hash t) @ CHR ''|'' # r" using row by blast
    then have "hd (split_on (CHR ''|'') (''  '' @ annotated_line n t)) = ''  '' @ show_nat n @ CHR ''#'' # line_hash t"
      using head_of_row [of "CHR ''|''" "''  '' @ show_nat n @ CHR ''#'' # line_hash t" r] bar [of t] by simp
    then show "trim (hd (split_on (CHR ''|'') (''  '' @ annotated_line n t))) = show_nat n @ CHR ''#'' # line_hash t"
      using tr [of t] by simp
  qed
  moreover have "anchor_parse (''> '' @ annotated_line n t) = Inl (InvalidAnchor (''> '' @ annotated_line n t))" for t
  proof (rule marked_head_refused)
    let ?h = "(''> '' @ show_nat n) @ CHR ''#'' # line_hash t"
    obtain r where "annotated_line n t = (show_nat n @ CHR ''#'' # line_hash t) @ CHR ''|'' # r" using row by blast
    then have "hd (split_on (CHR ''|'') (''> '' @ annotated_line n t)) = ?h"
      using head_of_row [of "CHR ''|''" ?h r] bar [of t] by simp
    moreover have "last ?h = last (show_nat n @ CHR ''#'' # line_hash t)" by simp
    then have "\<not> is_whitespace (last ?h)" using ok [of "last ?h" t] by (metis append_is_Nil_conv last_in_set list.distinct(1))
    then have "trim ?h = ?h" by (intro trim_visible_ends) (simp_all add: marker_not_space)
    ultimately show "trim (hd (split_on (CHR ''|'') (''> '' @ annotated_line n t))) = ?h" by simp
    show "show_nat n \<noteq> []" using show_nat_digits [of n] by simp
  qed (rule d)
  ultimately show ?thesis using plain assms(1) by (simp add: snippet_row_def Let_def)
qed

theorem anchor_roundtrip_witness:
  "anchor_parse (annotated_line 12 ''a | b'') = Inr (for_line 12 ''a | b'') \<and>
    anchor_parse (display_anchor (for_line 12 ''a | b'')) = Inr (for_line 12 ''a | b'') \<and>
    anchor_parse (snippet_row [\<lparr>l_text = ''x'', l_eol = []\<rparr>] [(0, 1)] False 0) = Inr (for_line 1 ''x'') \<and>
    anchor_parse (snippet_row [\<lparr>l_text = ''x'', l_eol = []\<rparr>] [(0, 1)] True 0) =
      Inl (InvalidAnchor (snippet_row [\<lparr>l_text = ''x'', l_eol = []\<rparr>] [(0, 1)] True 0))"
proof -
  have "in_focus (length [\<lparr>l_text = ''x'', l_eol = []\<rparr>]) [(0, 1)] 0" by (simp add: in_focus_def)
  then show ?thesis
    using anchor_roundtrip [of 12 "''a | b''"] anchor_roundtrip [of 1 "[]" "[\<lparr>l_text = ''x'', l_eol = []\<rparr>]" "[(0, 1)]"] by simp
qed

section \<open>Lines keep their bytes\<close>

lemma concat_split_inclusive: "concat (split_inclusive s) = s"
  by (induction s) (auto split: list.splits)

lemma to_line_bytes: "l_text (to_line seg) @ l_eol (to_line seg) = seg"
proof -
  have "t @ p = s" if "strip_suffix s p = Some t" for s t p :: string
    using that by (auto simp: strip_suffix_def ends_with_def split: if_splits) (metis append_take_drop_id)
  then show ?thesis by (auto simp: to_line_def split: option.splits)
qed

text \<open>Every line but the last has a terminator.\<close>

lemma split_inclusive_terminated: "\<forall>seg \<in> set (butlast (split_inclusive s)). ends_with seg [NL]"
proof (induction s)
  case (Cons x s)
  show ?case
  proof (cases "split_inclusive s")
    case (Cons p ps)
    then have "ends_with (y # p) [NL]" if "ps \<noteq> []" for y
      using Cons.IH that by (cases p) (auto simp: ends_with_def)
    then show ?thesis using Cons Cons.IH by (auto simp: ends_with_def)
  qed (simp add: ends_with_def)
qed simp

lemma split_lines_bytes: "concat (map (\<lambda>l. l_text l @ l_eol l) (split_lines s)) = s"
  by (simp add: split_lines_def to_line_bytes comp_def concat_split_inclusive)

lemma split_lines_terminated: "l \<in> set (butlast (split_lines s)) \<Longrightarrow> l_eol l \<noteq> []"
proof -
  assume "l \<in> set (butlast (split_lines s))"
  then obtain seg where "seg \<in> set (butlast (split_inclusive s))" "l = to_line seg"
    by (auto simp: split_lines_def map_butlast [symmetric])
  with split_inclusive_terminated [of s] show ?thesis
    by (auto simp: to_line_def strip_suffix_def split: option.splits if_splits)
qed

end
