(* ===== verification/Edits.thy ===== *)
theory Edits
  imports Hashline
begin

text \<open>
  \<^verbatim>\<open>crates/pacode-tools/src/hashline/apply.rs\<close>: the applier of anchored edits.

  The resolver is a record passed through; \<open>resolve_ops\<close> is the loop over the operations,
  with every early return of the source as an \<^const>\<open>Inl\<close>.  The sorted vector of indices
  into the spans is the sorted list of spans itself.  The abstract meaning of a list of
  disjoint spans is to apply them to the lines one by one from the last to the first
  (\<open>apply_span\<close>); the one-pass \<open>assemble\<close> is proved to do that.
\<close>

section \<open>Definitions\<close>

definition RELOCATE_WINDOW :: nat where
  "RELOCATE_WINDOW = 20"

record relocation =
  rl_op :: nat
  rl_role :: string
  rl_from :: nat
  rl_to :: nat

record applied =
  ap_content :: string
  ap_relocations :: "relocation list"
  ap_added :: nat
  ap_removed :: nat
  ap_changed :: "(nat \<times> nat) list"

definition first_changed_line :: "applied \<Rightarrow> nat option" where
  "first_changed_line a = map_option (\<lambda>r. fst r + 1) (first_opt (ap_changed a))"

record span =
  sp_start :: nat
  sp_end :: nat
  sp_lines :: "string list"
  sp_op :: nat

definition span_describe :: "span \<Rightarrow> string" where
  "span_describe s =
     (if sp_start s = sp_end s
      then ''op '' @ show_nat (sp_op s) @ '': insertion at line '' @ show_nat (sp_start s + 1)
      else ''op '' @ show_nat (sp_op s) @ '': lines '' @ show_nat (sp_start s + 1) @ ''-'' @ show_nat (sp_end s))"

datatype seg = Orig nat | New string

record resolver =
  rz_lines :: "line list"
  rz_stale :: "stale_hit list"
  rz_relocations :: "relocation list"

definition U16_MAX :: "16 word" where
  "U16_MAX = 0xffff"

text \<open>The lines other than \<open>idx\<close> within the window that carry the code.\<close>

definition candidates :: "line list \<Rightarrow> nat \<Rightarrow> 16 word \<Rightarrow> nat list" where
  "candidates lines idx code =
     filter (\<lambda>i. hash_code (l_text (lines ! i)) = code)
       (filter (\<lambda>i. i \<noteq> idx) [idx - RELOCATE_WINDOW..<min (idx + (RELOCATE_WINDOW + 1)) (length lines)])"

definition stale_reason :: "line list \<Rightarrow> nat \<Rightarrow> nat list \<Rightarrow> string" where
  "stale_reason lines line found =
     (let now = (case get lines (line - 1) of
            Some l \<Rightarrow> ''line '' @ show_nat line @ '' is now `'' @ show_nat line @ ''#'' @ line_hash (l_text l) @ ''`''
          | None \<Rightarrow> ''line '' @ show_nat line @ '' does not exist (file has '' @ show_nat (length lines) @ '' lines)'');
          why = (if found = [] then ''hash not found within '' @ show_nat RELOCATE_WINDOW @ '' lines''
            else ''hash appears on '' @ show_nat (length found) @ '' lines within '' @
              show_nat RELOCATE_WINDOW @ '' lines (ambiguous)'')
      in now @ ''; '' @ why)"

fun resolve_line :: "nat \<Rightarrow> string \<Rightarrow> anchor \<Rightarrow> resolver \<Rightarrow> resolver \<times> nat option" where
  "resolve_line no role (LineA line hash) rz =
     (let code = (case decode hash of Some c \<Rightarrow> c | None \<Rightarrow> U16_MAX);
          lines = rz_lines rz; n = length lines; idx = line - 1;
          found = candidates lines idx code
      in if idx < n \<and> hash_code (l_text (lines ! idx)) = code then (rz, Some idx)
         else (case found of
             [only] \<Rightarrow>
               (rz\<lparr>rz_relocations := rz_relocations rz @
                  [\<lparr>rl_op = no, rl_role = role, rl_from = line, rl_to = only + 1\<rparr>]\<rparr>, Some only)
           | _ \<Rightarrow>
               (rz\<lparr>rz_stale := rz_stale rz @
                  [\<lparr>sh_info = \<lparr>sa_op = no, sa_role = role, sa_anchor = display_anchor (LineA line hash),
                      sa_reason = stale_reason lines line found\<rparr>,
                    sh_focus = min idx (n - 1)\<rparr>]\<rparr>, None)))"
| "resolve_line no role a rz = (rz, None)"

definition strip_nl :: "char \<Rightarrow> string \<Rightarrow> string" where
  "strip_nl c s = (case strip_suffix s [c] of Some t \<Rightarrow> t | None \<Rightarrow> s)"

definition normalize_lines :: "string list \<Rightarrow> string list" where
  "normalize_lines raw =
     (let out = concat (map (\<lambda>s. map (strip_nl CR) (split_on NL (strip_nl NL s))) raw);
          cleaned = those (map strip_anchor_prefix out)
      in case cleaned of Some c \<Rightarrow> if c \<noteq> [] then c else out | None \<Rightarrow> out)"

fun require_line :: "nat \<Rightarrow> string \<Rightarrow> anchor \<Rightarrow> edit_error option" where
  "require_line no role (LineA _ _) = None"
| "require_line no role _ = Some (NotALineAnchor no role)"

definition validate_range :: "nat \<Rightarrow> anchor \<Rightarrow> anchor option \<Rightarrow> edit_error option" where
  "validate_range no start stop =
     (case require_line no ''start'' start of Some e \<Rightarrow> Some e
      | None \<Rightarrow> (case stop of Some a \<Rightarrow> require_line no ''end'' a | None \<Rightarrow> None))"

fun validate :: "nat \<Rightarrow> edit_op \<Rightarrow> edit_error option" where
  "validate no (Replace start stop lines) = validate_range no start stop"
| "validate no (DeleteOp start stop) = validate_range no start stop"
| "validate no (InsertAfter at lines) = (if lines = [] then Some (EmptyInsert no) else None)"
| "validate no (InsertBefore at lines) = (if lines = [] then Some (EmptyInsert no) else None)"

fun validate_all :: "nat \<Rightarrow> edit_op list \<Rightarrow> edit_error option" where
  "validate_all no [] = None"
| "validate_all no (x # xs) = (case validate no x of Some e \<Rightarrow> Some e | None \<Rightarrow> validate_all (no + 1) xs)"

definition resolve_range ::
  "nat \<Rightarrow> anchor \<Rightarrow> anchor option \<Rightarrow> resolver \<Rightarrow> edit_error + (resolver \<times> (nat \<times> nat) option)" where
  "resolve_range no start stop rz =
     (let (rz1, s) = resolve_line no ''start'' start rz;
          (rz2, e) = (case stop of Some a \<Rightarrow> resolve_line no ''end'' a rz1 | None \<Rightarrow> (rz1, s))
      in case (s, e) of
           (Some s, Some e) \<Rightarrow>
             if e < s then Inl (ReversedRange no (s + 1) (e + 1)) else Inr (rz2, Some (s, e))
         | _ \<Rightarrow> Inr (rz2, None))"

definition resolve_gap :: "nat \<Rightarrow> anchor \<Rightarrow> nat \<Rightarrow> resolver \<Rightarrow> resolver \<times> nat option" where
  "resolve_gap no at shift rz =
     (case at of Bof \<Rightarrow> (rz, Some 0) | Eof \<Rightarrow> (rz, Some (length (rz_lines rz)))
      | LineA _ _ \<Rightarrow> (case resolve_line no ''at'' at rz of (rz', k) \<Rightarrow> (rz', map_option (\<lambda>k. k + shift) k)))"

text \<open>One operation: the resolver and the span it gives, if its anchors are found.\<close>

fun resolve_op :: "nat \<Rightarrow> edit_op \<Rightarrow> resolver \<Rightarrow> edit_error + (resolver \<times> span option)" where
  "resolve_op no (Replace start stop new) rz =
     (case resolve_range no start stop rz of Inl e \<Rightarrow> Inl e
      | Inr (rz', r) \<Rightarrow>
          Inr (rz', map_option (\<lambda>(s, e). \<lparr>sp_start = s, sp_end = e + 1, sp_lines = normalize_lines new, sp_op = no\<rparr>) r))"
| "resolve_op no (DeleteOp start stop) rz =
     (case resolve_range no start stop rz of Inl e \<Rightarrow> Inl e
      | Inr (rz', r) \<Rightarrow>
          Inr (rz', map_option (\<lambda>(s, e). \<lparr>sp_start = s, sp_end = e + 1, sp_lines = [], sp_op = no\<rparr>) r))"
| "resolve_op no (InsertAfter at new) rz =
     (case resolve_gap no at 1 rz of (rz', g) \<Rightarrow>
        Inr (rz', map_option (\<lambda>p. \<lparr>sp_start = p, sp_end = p, sp_lines = normalize_lines new, sp_op = no\<rparr>) g))"
| "resolve_op no (InsertBefore at new) rz =
     (case resolve_gap no at 0 rz of (rz', g) \<Rightarrow>
        Inr (rz', map_option (\<lambda>p. \<lparr>sp_start = p, sp_end = p, sp_lines = normalize_lines new, sp_op = no\<rparr>) g))"

fun resolve_ops :: "nat \<Rightarrow> edit_op list \<Rightarrow> resolver \<Rightarrow> edit_error + (resolver \<times> span list)" where
  "resolve_ops no [] rz = Inr (rz, [])"
| "resolve_ops no (x # xs) rz =
     (case resolve_op no x rz of Inl e \<Rightarrow> Inl e
      | Inr (rz', sp) \<Rightarrow>
          (case resolve_ops (no + 1) xs rz' of Inl e \<Rightarrow> Inl e
           | Inr (rz'', sps) \<Rightarrow> Inr (rz'', (case sp of Some s \<Rightarrow> [s] | None \<Rightarrow> []) @ sps)))"

definition span_key :: "span \<Rightarrow> nat \<times> nat \<times> nat" where
  "span_key s = (sp_start s, sp_end s, sp_op s)"

definition ordered :: "span list \<Rightarrow> span list" where
  "ordered spans = sort_key span_key spans"

fun check_overlap :: "span option \<Rightarrow> span list \<Rightarrow> edit_error option" where
  "check_overlap widest [] = None"
| "check_overlap None (sp # sps) = check_overlap (Some sp) sps"
| "check_overlap (Some prev) (sp # sps) =
     (if sp_start sp < sp_end prev then
        Some (Overlap (min (sp_op prev) (sp_op sp)) (max (sp_op prev) (sp_op sp))
          (span_describe prev @ '' vs '' @ span_describe sp))
      else check_overlap (Some (if sp_end prev \<le> sp_end sp then sp else prev)) sps)"

record asm =
  am_segs :: "seg list"
  am_changed :: "(nat \<times> nat) list"
  am_added :: nat
  am_removed :: nat
  am_cursor :: nat

definition asm_step :: "span \<Rightarrow> asm \<Rightarrow> asm" where
  "asm_step sp st =
     (let segs = am_segs st @ map Orig [am_cursor st..<sp_start sp]; first = length segs;
          segs = segs @ map New (sp_lines sp)
      in st\<lparr>am_segs := segs, am_changed := am_changed st @ [(first, length segs)],
            am_added := am_added st + length (sp_lines sp), am_removed := am_removed st + (sp_end sp - sp_start sp),
            am_cursor := max (am_cursor st) (sp_end sp)\<rparr>)"

text \<open>The text of a piece, and the terminator it had.\<close>

fun seg_parts :: "line list \<Rightarrow> seg \<Rightarrow> string \<times> string" where
  "seg_parts lines (Orig i) = (case get lines i of Some l \<Rightarrow> (l_text l, l_eol l) | None \<Rightarrow> ([], []))"
| "seg_parts lines (New t) = (t, [])"

definition own_or :: "string \<Rightarrow> string \<Rightarrow> string" where
  "own_or dflt eol = (if eol = [] then dflt else eol)"

fun render_segs :: "line list \<Rightarrow> string \<Rightarrow> bool \<Rightarrow> seg list \<Rightarrow> string" where
  "render_segs lines dflt no_final [] = []"
| "render_segs lines dflt no_final (s # ss) =
     (case seg_parts lines s of (t, eol) \<Rightarrow>
        t @ (if ss = [] \<and> no_final then [] else own_or dflt eol) @ render_segs lines dflt no_final ss)"

definition no_final_newline :: "line list \<Rightarrow> bool" where
  "no_final_newline lines = (case last_opt lines of Some l \<Rightarrow> l_eol l = [] | None \<Rightarrow> False)"

definition assemble :: "line list \<Rightarrow> span list \<Rightarrow> relocation list \<Rightarrow> applied" where
  "assemble lines order relocations =
     (let st = fold asm_step order \<lparr>am_segs = [], am_changed = [], am_added = 0, am_removed = 0, am_cursor = 0\<rparr>;
          segs = am_segs st @ map Orig [am_cursor st..<length lines]
      in \<lparr>ap_content = render_segs lines (dominant_eol lines) (no_final_newline lines) segs,
          ap_relocations = relocations, ap_added = am_added st, ap_removed = am_removed st,
          ap_changed = am_changed st\<rparr>)"

definition apply_ops :: "string \<Rightarrow> edit_op list \<Rightarrow> edit_error + applied" where
  "apply_ops content ops =
     (if ops = [] then Inl NoOps
      else (case validate_all 1 ops of Some e \<Rightarrow> Inl e
        | None \<Rightarrow>
            (let lines = split_lines content
             in case resolve_ops 1 ops \<lparr>rz_lines = lines, rz_stale = [], rz_relocations = []\<rparr> of
                  Inl e \<Rightarrow> Inl e
                | Inr (rz, spans) \<Rightarrow>
                    if rz_stale rz \<noteq> [] then
                      Inl (Stale (map sh_info (rz_stale rz)) (stale_message content (rz_stale rz)))
                    else (case check_overlap None (ordered spans) of Some e \<Rightarrow> Inl e
                      | None \<Rightarrow> Inr (assemble lines (ordered spans) (rz_relocations rz))))))"

section \<open>One pass does what the spans say one by one\<close>

definition apply_span :: "span \<Rightarrow> seg list \<Rightarrow> seg list" where
  "apply_span sp xs = take (sp_start sp) xs @ map New (sp_lines sp) @ drop (sp_end sp) xs"

text \<open>Spans in order from line \<open>c\<close> on, none reaching into the next, all within the file.\<close>

fun chained :: "nat \<Rightarrow> span list \<Rightarrow> nat \<Rightarrow> bool" where
  "chained c [] n = (c \<le> n)"
| "chained c (s # ss) n = (c \<le> sp_start s \<and> sp_start s \<le> sp_end s \<and> chained (sp_end s) ss n)"

fun pieces :: "nat \<Rightarrow> span list \<Rightarrow> nat \<Rightarrow> seg list" where
  "pieces c [] n = map Orig [c..<n]"
| "pieces c (s # ss) n = map Orig [c..<sp_start s] @ map New (sp_lines s) @ pieces (sp_end s) ss n"

lemma chained_le: "chained c ss n \<Longrightarrow> c \<le> n"
  by (induction ss arbitrary: c) fastforce+

lemma check_overlap_chained:
  assumes "check_overlap (Some prev) sps = None" "\<forall>s \<in> set sps. sp_start s \<le> sp_end s \<and> sp_end s \<le> n" "sp_end prev \<le> n"
  shows "chained (sp_end prev) sps n"
  using assms
proof (induction sps arbitrary: prev)
  case (Cons s sps)
  then have "sp_end prev \<le> sp_start s" "check_overlap (Some s) sps = None"
    by (auto split: if_splits)
  with Cons show ?case by simp
qed simp

lemma check_overlap_start:
  assumes "check_overlap None sps = None" "\<forall>s \<in> set sps. sp_start s \<le> sp_end s \<and> sp_end s \<le> n"
  shows "chained 0 sps n"
proof (cases sps)
  case (Cons s ss)
  then show ?thesis using assms check_overlap_chained [of s ss n] by simp
qed simp

lemma apply_span_pieces:
  "chained c ss n \<Longrightarrow> foldr apply_span ss (map Orig [0..<n]) = map Orig [0..<c] @ pieces c ss n"
proof (induction ss arbitrary: c)
  case Nil
  then show ?case using upt_add_eq_append [of 0 c "n - c"] by (simp flip: map_append)
next
  case (Cons s ss)
  then have "[0..<sp_start s] = [0..<c] @ [c..<sp_start s]"
    using upt_add_eq_append [of 0 c "sp_start s - c"] by simp
  moreover have "foldr apply_span ss (map Orig [0..<n]) = map Orig [0..<sp_end s] @ pieces (sp_end s) ss n"
    using Cons by simp
  moreover have "apply_span s (map Orig [0..<sp_end s] @ rest) = map Orig [0..<sp_start s] @ map New (sp_lines s) @ rest" for rest
    using Cons.prems by (simp add: apply_span_def take_map)
  ultimately show ?case by simp
qed

lemma fold_asm_pieces:
  assumes "chained (am_cursor st) ss n" "st' = fold asm_step ss st"
  shows "am_segs st' @ map Orig [am_cursor st'..<n] = am_segs st @ pieces (am_cursor st) ss n \<and>
    am_added st' = am_added st + sum_list (map (\<lambda>s. length (sp_lines s)) ss) \<and>
    am_removed st' = am_removed st + sum_list (map (\<lambda>s. sp_end s - sp_start s) ss)"
  using assms
proof (induction ss arbitrary: st)
  case (Cons s ss)
  have "am_cursor (asm_step s st) = sp_end s" using Cons.prems(1) by (simp add: asm_step_def Let_def)
  with Cons.IH [of "asm_step s st"] Cons.prems show ?case by (simp add: asm_step_def Let_def)
qed simp

lemma assemble_spec:
  assumes "chained 0 ss (length lines)"
  shows "ap_content (assemble lines ss rl) = render_segs lines (dominant_eol lines) (no_final_newline lines)
      (foldr apply_span ss (map Orig [0..<length lines])) \<and>
    ap_added (assemble lines ss rl) = sum_list (map (\<lambda>s. length (sp_lines s)) ss) \<and>
    ap_removed (assemble lines ss rl) = sum_list (map (\<lambda>s. sp_end s - sp_start s) ss)"
  using fold_asm_pieces [of "\<lparr>am_segs = [], am_changed = [], am_added = 0, am_removed = 0, am_cursor = 0\<rparr>" ss "length lines"]
    apply_span_pieces [OF assms] assms
  by (simp add: assemble_def Let_def)

text \<open>Lines that no span touches are written back byte by byte.\<close>

lemma render_untouched_from:
  assumes "lines = split_lines content" "k \<le> length lines"
  shows "render_segs lines d (no_final_newline lines) (map Orig [k..<length lines]) =
    concat (map (\<lambda>l. l_text l @ l_eol l) (drop k lines))"
  using assms(2)
proof (induction rule: inc_induct)
  case (step k)
  have last: "own_or d (l_eol (lines ! k)) = l_eol (lines ! k)" if "Suc k < length lines \<or> \<not> no_final_newline lines"
  proof -
    have "l_eol (lines ! k) \<noteq> []"
    proof (cases "Suc k < length lines")
      case True
      then have "lines ! k \<in> set (butlast lines)" by (metis length_butlast less_diff_conv nth_butlast nth_mem add.commute plus_1_eq_Suc)
      then show ?thesis using split_lines_terminated assms(1) by blast
    next
      case False
      with step.hyps have "k = length lines - 1" "lines \<noteq> []" by auto
      with that False show ?thesis by (simp add: no_final_newline_def last_opt_def last_conv_nth)
    qed
    then show ?thesis by (simp add: own_or_def)
  qed
  have "l_eol (lines ! k) = []" if "\<not> Suc k < length lines" "no_final_newline lines"
  proof -
    from step.hyps that have "k = length lines - 1" "lines \<noteq> []" by auto
    with that show ?thesis by (simp add: no_final_newline_def last_opt_def last_conv_nth split: if_splits)
  qed
  then have "(if [Suc k..<length lines] = [] \<and> no_final_newline lines then [] else own_or d (l_eol (lines ! k))) =
      l_eol (lines ! k)"
    using last step.hyps by (cases "Suc k < length lines") auto
  with step show ?case
    by (simp add: upt_conv_Cons get_def Cons_nth_drop_Suc [symmetric] del: upt_eq_Nil_conv)
qed simp

lemma render_untouched:
  "render_segs (split_lines content) d (no_final_newline (split_lines content)) (map Orig [0..<length (split_lines content)]) = content"
  using render_untouched_from [OF refl, of 0 content d] by (simp add: split_lines_bytes)

section \<open>Only lines that were read are touched\<close>

text \<open>\<open>k\<close> is the line an anchor names: it has the hash the anchor carries, and it is where
  the anchor says or the only such line within the window around it.\<close>

definition near :: "nat \<Rightarrow> nat \<Rightarrow> bool" where
  "near line j \<longleftrightarrow> j \<le> line - 1 + RELOCATE_WINDOW \<and> line - 1 \<le> j + RELOCATE_WINDOW"

fun designates :: "line list \<Rightarrow> anchor \<Rightarrow> nat \<Rightarrow> bool" where
  "designates lines (LineA line hash) k \<longleftrightarrow>
     k < length lines \<and> decode hash = Some (hash_code (l_text (lines ! k))) \<and>
     (k = line - 1 \<or>
      near line k \<and> (\<forall>j < length lines. near line j \<and>
        hash_code (l_text (lines ! j)) = hash_code (l_text (lines ! k)) \<longrightarrow> j = k))"
| "designates lines a k \<longleftrightarrow> False"

definition fits_range :: "line list \<Rightarrow> anchor \<Rightarrow> anchor option \<Rightarrow> span \<Rightarrow> bool" where
  "fits_range lines start stop sp \<longleftrightarrow>
     designates lines start (sp_start sp) \<and> sp_start sp < sp_end sp \<and>
     (case stop of None \<Rightarrow> sp_end sp = sp_start sp + 1 | Some a \<Rightarrow> designates lines a (sp_end sp - 1))"

fun fits_gap :: "line list \<Rightarrow> anchor \<Rightarrow> nat \<Rightarrow> span \<Rightarrow> bool" where
  "fits_gap lines Bof shift sp \<longleftrightarrow> sp_start sp = 0 \<and> sp_end sp = 0"
| "fits_gap lines Eof shift sp \<longleftrightarrow> sp_start sp = length lines \<and> sp_end sp = length lines"
| "fits_gap lines a shift sp \<longleftrightarrow>
     (\<exists>k. designates lines a k \<and> sp_start sp = k + shift \<and> sp_end sp = k + shift)"

fun fits :: "line list \<Rightarrow> edit_op \<Rightarrow> span \<Rightarrow> bool" where
  "fits lines (Replace start stop new) sp \<longleftrightarrow> fits_range lines start stop sp \<and> sp_lines sp = normalize_lines new"
| "fits lines (DeleteOp start stop) sp \<longleftrightarrow> fits_range lines start stop sp \<and> sp_lines sp = []"
| "fits lines (InsertAfter at new) sp \<longleftrightarrow> fits_gap lines at 1 sp \<and> sp_lines sp = normalize_lines new"
| "fits lines (InsertBefore at new) sp \<longleftrightarrow> fits_gap lines at 0 sp \<and> sp_lines sp = normalize_lines new"

lemma hash_code_not_max: "hash_code t \<noteq> U16_MAX"
proof
  assume "hash_code t = U16_MAX"
  with hash_code_ten_bits [of t] have "take_bit 10 U16_MAX = U16_MAX" by simp
  then show False by (simp add: U16_MAX_def)
qed

lemma candidates_iff:
  "j \<in> set (candidates lines (line - 1) code) \<longleftrightarrow>
     j < length lines \<and> near line j \<and> j \<noteq> line - 1 \<and> hash_code (l_text (lines ! j)) = code"
  by (auto simp: candidates_def near_def RELOCATE_WINDOW_def)

text \<open>Whatever happens, the resolver keeps the lines and only adds stale anchors; an anchor
  that gave no line added one.\<close>

lemma resolve_line_frame:
  assumes "resolve_line no role a rz = (rz', r)"
  shows "rz_lines rz' = rz_lines rz \<and> (\<exists>xs. rz_stale rz' = rz_stale rz @ xs \<and> (r = None \<and> a \<noteq> Bof \<and> a \<noteq> Eof \<longrightarrow> xs \<noteq> []))"
  using assms by (cases a) (auto simp: Let_def split: if_splits list.splits)

lemma resolve_line_sound:
  assumes "resolve_line no role a rz = (rz', Some k)"
  shows "designates (rz_lines rz) a k"
proof (cases a)
  case (LineA line hash)
  let ?lines = "rz_lines rz" and ?code = "case decode hash of Some c \<Rightarrow> c | None \<Rightarrow> U16_MAX"
  have dec: "decode hash = Some (hash_code t)" if "hash_code t = ?code" for t
    using that hash_code_not_max [of t] by (auto split: option.splits)
  show ?thesis
  proof (cases "line - 1 < length ?lines \<and> hash_code (l_text (?lines ! (line - 1))) = ?code")
    case True
    with assms LineA have "k = line - 1" by (simp add: Let_def)
    moreover have "decode hash = Some (hash_code (l_text (?lines ! (line - 1))))" using True dec by blast
    ultimately show ?thesis using True LineA by simp
  next
    case False
    with assms LineA have found: "candidates ?lines (line - 1) ?code = [k]"
      by (auto simp: Let_def split: list.splits)
    then have k: "k < length ?lines" "near line k" "hash_code (l_text (?lines ! k)) = ?code"
      using candidates_iff [of k ?lines line ?code] by simp_all
    have "j = k" if "j < length ?lines" "near line j" "hash_code (l_text (?lines ! j)) = ?code" for j
      using that False found candidates_iff [of j ?lines line ?code] by auto
    moreover have "decode hash = Some (hash_code (l_text (?lines ! k)))" using dec k(3) by blast
    ultimately show ?thesis using k unfolding LineA designates.simps by metis
  qed
qed (use assms in auto)

lemma resolve_range_sound:
  assumes "resolve_range no start stop rz = Inr (rz', r)" "validate_range no start stop = None"
  shows "rz_lines rz' = rz_lines rz" "\<exists>xs. rz_stale rz' = rz_stale rz @ xs \<and> (r = None \<longrightarrow> xs \<noteq> [])"
    "r = Some (s, e) \<Longrightarrow> designates (rz_lines rz) start s \<and> s \<le> e \<and>
       (case stop of None \<Rightarrow> e = s | Some a \<Rightarrow> designates (rz_lines rz) a e)"
proof -
  have lines: "start \<noteq> Bof" "start \<noteq> Eof" "stop \<noteq> Some Bof" "stop \<noteq> Some Eof"
    using assms(2) by (auto simp: validate_range_def split: option.splits)
  obtain rz1 x where s1: "resolve_line no ''start'' start rz = (rz1, x)" by force
  note f1 = resolve_line_frame [OF s1]
  obtain rz2 y where s2: "(case stop of Some a \<Rightarrow> resolve_line no ''end'' a rz1 | None \<Rightarrow> (rz1, x)) = (rz2, y)" by force
  have f2: "rz_lines rz2 = rz_lines rz1 \<and> (\<exists>xs. rz_stale rz2 = rz_stale rz1 @ xs \<and>
      (y = None \<and> stop \<noteq> None \<longrightarrow> xs \<noteq> []))" "stop = None \<Longrightarrow> y = x"
    using s2 lines resolve_line_frame [of no "''end''" _ rz1 rz2 y] by (auto split: option.splits)
  have r: "rz' = rz2" "r = None \<longleftrightarrow> x = None \<or> y = None" "r = Some (s, e) \<Longrightarrow> x = Some s \<and> y = Some e \<and> s \<le> e"
    using assms(1) s1 s2 by (auto simp: resolve_range_def split: option.splits if_splits)
  show "rz_lines rz' = rz_lines rz" using f1 f2 r by simp
  show "\<exists>xs. rz_stale rz' = rz_stale rz @ xs \<and> (r = None \<longrightarrow> xs \<noteq> [])"
    using f1 f2 r lines by (cases stop) auto
  assume "r = Some (s, e)"
  with r(3) have xy: "x = Some s" "y = Some e" "s \<le> e" by auto
  have "designates (rz_lines rz) start s" using resolve_line_sound s1 xy by blast
  moreover have "designates (rz_lines rz) a e" if "stop = Some a" for a
    using resolve_line_sound [of no "''end''" a rz1 rz2 e] s2 that xy f1 by simp
  ultimately show "designates (rz_lines rz) start s \<and> s \<le> e \<and>
       (case stop of None \<Rightarrow> e = s | Some a \<Rightarrow> designates (rz_lines rz) a e)"
    using xy f2(2) by (auto split: option.split)
qed

lemma resolve_gap_sound:
  assumes "resolve_gap no at shift rz = (rz', g)"
  shows "rz_lines rz' = rz_lines rz" "\<exists>xs. rz_stale rz' = rz_stale rz @ xs \<and> (g = None \<longrightarrow> xs \<noteq> [])"
    "g = Some p \<Longrightarrow> fits_gap (rz_lines rz) at shift \<lparr>sp_start = p, sp_end = p, sp_lines = l, sp_op = i\<rparr>"
proof -
  show "rz_lines rz' = rz_lines rz" "\<exists>xs. rz_stale rz' = rz_stale rz @ xs \<and> (g = None \<longrightarrow> xs \<noteq> [])"
    using assms resolve_line_frame [of no "''at''" at rz]
    by (auto simp: resolve_gap_def simp del: resolve_line.simps split: anchor.splits prod.splits)
  assume "g = Some p"
  then show "fits_gap (rz_lines rz) at shift \<lparr>sp_start = p, sp_end = p, sp_lines = l, sp_op = i\<rparr>"
    using assms resolve_line_sound [of no "''at''" at rz]
    by (fastforce simp: resolve_gap_def simp del: resolve_line.simps designates.simps split: anchor.splits prod.splits)
qed

lemma resolve_op_sound:
  assumes "resolve_op no x rz = Inr (rz', sp)" "validate no x = None"
  shows "rz_lines rz' = rz_lines rz" "\<exists>xs. rz_stale rz' = rz_stale rz @ xs \<and> (sp = None \<longrightarrow> xs \<noteq> [])"
    "sp = Some s \<Longrightarrow> fits (rz_lines rz) x s"
proof -
  have "rz_lines rz' = rz_lines rz \<and> (\<exists>xs. rz_stale rz' = rz_stale rz @ xs \<and> (sp = None \<longrightarrow> xs \<noteq> [])) \<and>
    (\<forall>s. sp = Some s \<longrightarrow> fits (rz_lines rz) x s)"
  proof (cases x)
    case (Replace start stop new)
    then obtain r where "resolve_range no start stop rz = Inr (rz', r)"
      using assms(1) by (auto split: sum.splits)
    with resolve_range_sound [OF this] assms Replace show ?thesis
      by (auto simp: fits_range_def split: option.splits)
  next
    case (DeleteOp start stop)
    then obtain r where "resolve_range no start stop rz = Inr (rz', r)"
      using assms(1) by (auto split: sum.splits)
    with resolve_range_sound [OF this] assms DeleteOp show ?thesis
      by (auto simp: fits_range_def split: option.splits)
  next
    case (InsertAfter at new)
    then obtain g where "resolve_gap no at 1 rz = (rz', g)" using assms(1) by (auto split: prod.splits)
    with resolve_gap_sound [OF this] assms InsertAfter show ?thesis by auto
  next
    case (InsertBefore at new)
    then obtain g where "resolve_gap no at 0 rz = (rz', g)" using assms(1) by (auto split: prod.splits)
    with resolve_gap_sound [OF this] assms InsertBefore show ?thesis by auto
  qed
  then show "rz_lines rz' = rz_lines rz" "\<exists>xs. rz_stale rz' = rz_stale rz @ xs \<and> (sp = None \<longrightarrow> xs \<noteq> [])"
    "sp = Some s \<Longrightarrow> fits (rz_lines rz) x s" by blast+
qed

lemma resolve_ops_sound:
  assumes "resolve_ops no ops rz = Inr (rz', spans)" "validate_all no ops = None" "rz_stale rz' = []"
  shows "rz_stale rz = [] \<and> list_all2 (fits (rz_lines rz)) ops spans"
  using assms
proof (induction ops arbitrary: no rz spans)
  case (Cons x xs)
  from Cons.prems(1) obtain rz1 sp sps where s: "resolve_op no x rz = Inr (rz1, sp)"
    "resolve_ops (no + 1) xs rz1 = Inr (rz', sps)" "spans = (case sp of Some s \<Rightarrow> [s] | None \<Rightarrow> []) @ sps"
    by (auto split: sum.splits)
  have v: "validate no x = None" "validate_all (no + 1) xs = None" using Cons.prems(2) by (auto split: option.splits)
  note o = resolve_op_sound [OF s(1) v(1)]
  have ih: "rz_stale rz1 = [] \<and> list_all2 (fits (rz_lines rz1)) xs sps" using Cons.IH s(2) v(2) Cons.prems(3) by simp
  then obtain sp' where "sp = Some sp'" using o(2) by (cases sp) auto
  with o ih s(3) show ?case by auto
qed auto

lemma designates_bound: "designates lines a k \<Longrightarrow> k < length lines"
  by (cases a) auto

lemma fits_bounds: "fits lines x sp \<Longrightarrow> sp_start sp \<le> sp_end sp \<and> sp_end sp \<le> length lines"
proof (cases x)
  case (Replace start stop new)
  assume "fits lines x sp"
  then show ?thesis using Replace by (cases stop) (auto simp: fits_range_def dest: designates_bound)
next
  case (DeleteOp start stop)
  assume "fits lines x sp"
  then show ?thesis using DeleteOp by (cases stop) (auto simp: fits_range_def dest: designates_bound)
next
  case (InsertAfter at new)
  assume "fits lines x sp"
  then show ?thesis using InsertAfter by (cases at) (auto simp del: designates.simps dest: designates_bound)
next
  case (InsertBefore at new)
  assume "fits lines x sp"
  then show ?thesis using InsertBefore by (cases at) (auto simp del: designates.simps dest: designates_bound)
qed

lemma list_all2_fits_bounds:
  "list_all2 (fits lines) ops spans \<Longrightarrow> \<forall>s \<in> set spans. sp_start s \<le> sp_end s \<and> sp_end s \<le> length lines"
  by (induction rule: list_all2_induct) (simp_all add: fits_bounds)

lemma set_ordered [simp]: "set (ordered spans) = set spans"
  by (simp add: ordered_def)

text \<open>The lines that are kept are those inside no span.\<close>

lemma chained_starts: "chained c ss n \<Longrightarrow> s \<in> set ss \<Longrightarrow> c \<le> sp_start s"
  by (induction ss arbitrary: c) fastforce+

lemma orig_pieces:
  "chained c ss n \<Longrightarrow> Orig i \<in> set (pieces c ss n) \<longleftrightarrow>
     c \<le> i \<and> i < n \<and> (\<forall>s \<in> set ss. i < sp_start s \<or> sp_end s \<le> i)"
proof (induction ss arbitrary: c)
  case (Cons s ss)
  have later: "sp_end s \<le> sp_start s'" if "s' \<in> set ss" for s' using Cons.prems chained_starts that by auto
  have "sp_end s \<le> n" using Cons.prems chained_le by auto
  then show ?case using Cons later by (fastforce simp: image_iff)
qed auto

text \<open>A piece with its terminator, as it is written when it is not the last one.\<close>

definition render_row :: "line list \<Rightarrow> string \<Rightarrow> seg \<Rightarrow> string" where
  "render_row lines dflt s = (case seg_parts lines s of (t, eol) \<Rightarrow> t @ own_or dflt eol)"

lemma render_split:
  "ys \<noteq> [] \<Longrightarrow> render_segs lines d nf (xs @ ys) = concat (map (render_row lines d) xs) @ render_segs lines d nf ys"
  by (induction xs) (auto simp: render_row_def split: prod.split)

lemma kept_line_written:
  assumes "lines = split_lines content" "Suc i < length lines" "ys \<noteq> []"
  shows "render_segs lines d nf (xs @ Orig i # ys) =
    concat (map (render_row lines d) xs) @ l_text (lines ! i) @ l_eol (lines ! i) @ render_segs lines d nf ys"
proof -
  have "lines ! i \<in> set (butlast lines)" using assms(2) by (metis length_butlast less_diff_conv nth_butlast nth_mem add.commute plus_1_eq_Suc)
  then have "l_eol (lines ! i) \<noteq> []" using split_lines_terminated assms(1) by blast
  then show ?thesis using assms(2,3) by (simp add: render_split get_def own_or_def)
qed

text \<open>C39: an edit touches only the lines it names, and all of them or none.  When the applier
  accepts a list of operations, each of them has a span whose first and last line carry
  the hashes of its anchors; sorted, the spans do not overlap; and the new content is what
  comes out of applying them one by one, from the last to the first, to the lines of the
  file.  A line is kept exactly when no span contains it, and a kept line is written back byte by
  byte, text and terminator, except at the end: the terminator of the file's last line, and the
  one of a kept line that has become the last, follow whether the file ended with one.  With no
  span at all the file is written back as it was.\<close>

theorem edit_touches_named_lines:
  assumes "apply_ops content ops = Inr a"
  shows "\<exists>spans segs. list_all2 (fits (split_lines content)) ops spans \<and>
    chained 0 (ordered spans) (length (split_lines content)) \<and>
    segs = foldr apply_span (ordered spans) (map Orig [0..<length (split_lines content)]) \<and>
    ap_content a = render_segs (split_lines content) (dominant_eol (split_lines content))
      (no_final_newline (split_lines content)) segs \<and>
    (\<forall>i < length (split_lines content). Orig i \<in> set segs \<longleftrightarrow> (\<forall>s \<in> set spans. i < sp_start s \<or> sp_end s \<le> i)) \<and>
    (\<forall>xs i ys. segs = xs @ Orig i # ys \<and> ys \<noteq> [] \<and> Suc i < length (split_lines content) \<longrightarrow>
      ap_content a = concat (map (render_row (split_lines content) (dominant_eol (split_lines content))) xs) @
        l_text (split_lines content ! i) @ l_eol (split_lines content ! i) @
        render_segs (split_lines content) (dominant_eol (split_lines content)) (no_final_newline (split_lines content)) ys) \<and>
    render_segs (split_lines content) (dominant_eol (split_lines content)) (no_final_newline (split_lines content))
      (map Orig [0..<length (split_lines content)]) = content \<and>
    ap_added a = sum_list (map (\<lambda>s. length (sp_lines s)) (ordered spans)) \<and>
    ap_removed a = sum_list (map (\<lambda>s. sp_end s - sp_start s) (ordered spans))"
proof -
  let ?lines = "split_lines content"
  let ?rz = "\<lparr>rz_lines = ?lines, rz_stale = [], rz_relocations = []\<rparr>"
  from assms obtain rz spans where r: "validate_all 1 ops = None" "resolve_ops 1 ops ?rz = Inr (rz, spans)"
    "rz_stale rz = []" "check_overlap None (ordered spans) = None" "a = assemble ?lines (ordered spans) (rz_relocations rz)"
    by (auto simp: apply_ops_def Let_def split: if_splits option.splits sum.splits)
  have f: "list_all2 (fits ?lines) ops spans" using resolve_ops_sound [OF r(2,1,3)] by simp
  then have ch: "chained 0 (ordered spans) (length ?lines)"
    using check_overlap_start [OF r(4)] list_all2_fits_bounds by simp
  let ?segs = "foldr apply_span (ordered spans) (map Orig [0..<length ?lines])"
  note spec = assemble_spec [OF ch, of "rz_relocations rz", folded r(5)]
  have kept: "Orig i \<in> set ?segs \<longleftrightarrow> (\<forall>s \<in> set spans. i < sp_start s \<or> sp_end s \<le> i)" if "i < length ?lines" for i
    using orig_pieces [OF ch, of i] that by (simp add: apply_span_pieces [OF ch])
  have written: "ap_content a = concat (map (render_row ?lines (dominant_eol ?lines)) xs) @ l_text (?lines ! i) @ l_eol (?lines ! i) @
      render_segs ?lines (dominant_eol ?lines) (no_final_newline ?lines) ys"
    if "?segs = xs @ Orig i # ys \<and> ys \<noteq> [] \<and> Suc i < length ?lines" for xs i ys
    using kept_line_written [OF refl, of i content ys] that spec by simp
  show ?thesis
    by (rule exI [of _ spans], rule exI [of _ ?segs]) (use f ch spec kept written render_untouched in blast)
qed

lemma resolve_fresh:
  assumes "k < length (rz_lines rz)"
  shows "resolve_line no role (for_line (Suc k) (l_text (rz_lines rz ! k))) rz = (rz, Some k)"
  using assms decode_line_hash [of "l_text (rz_lines rz ! k)"] by (simp add: for_line_def line_hash_def)

text \<open>Fresh anchors are accepted.  Replacing a range by its anchors as \<^verbatim>\<open>read\<close> shows them
  always succeeds, moves no anchor, and gives the lines before the range, the new lines
  and the lines after it.\<close>

theorem fresh_edit_applies:
  assumes "s \<le> e" "e < length (split_lines content)"
  shows "\<exists>a. apply_ops content
      [Replace (for_line (Suc s) (l_text (split_lines content ! s)))
         (Some (for_line (Suc e) (l_text (split_lines content ! e)))) new] = Inr a \<and>
    ap_content a = render_segs (split_lines content) (dominant_eol (split_lines content))
      (no_final_newline (split_lines content))
      (map Orig [0..<s] @ map New (normalize_lines new) @ map Orig [Suc e..<length (split_lines content)]) \<and>
    ap_relocations a = [] \<and> ap_removed a = Suc e - s \<and> ap_changed a = [(s, s + length (normalize_lines new))]"
proof -
  let ?lines = "split_lines content"
  let ?rz = "\<lparr>rz_lines = ?lines, rz_stale = [], rz_relocations = []\<rparr>"
  let ?a = "for_line (Suc s) (l_text (?lines ! s))" and ?b = "for_line (Suc e) (l_text (?lines ! e))"
  let ?sp = "\<lparr>sp_start = s, sp_end = e + 1, sp_lines = normalize_lines new, sp_op = 1\<rparr>"
  have v: "validate_all 1 [Replace ?a (Some ?b) new] = None"
    by (simp add: validate_range_def for_line_def)
  have "resolve_line 1 ''start'' ?a ?rz = (?rz, Some s)" "resolve_line 1 ''end'' ?b ?rz = (?rz, Some e)"
    using resolve_fresh [of s ?rz] resolve_fresh [of e ?rz] assms by simp_all
  then have "resolve_range 1 ?a (Some ?b) ?rz = Inr (?rz, Some (s, e))"
    using assms(1) by (simp add: resolve_range_def del: resolve_line.simps)
  then have "resolve_ops 1 [Replace ?a (Some ?b) new] ?rz = Inr (?rz, [?sp])" by simp
  moreover have "ordered [?sp] = [?sp]" "check_overlap None [?sp] = None" by (simp_all add: ordered_def)
  ultimately have "apply_ops content [Replace ?a (Some ?b) new] = Inr (assemble ?lines [?sp] [])"
    unfolding apply_ops_def using v by simp
  then show ?thesis using assms by (simp add: assemble_def asm_step_def Let_def)
qed

text \<open>A two-line file whose second line has no terminator.\<close>

definition sample_file :: string where
  "sample_file = ''let a;'' @ [NL] @ ''let b;''"

theorem fresh_edit_applies_witness:
  "\<exists>a. apply_ops sample_file
      [Replace (for_line (Suc 1) (l_text (split_lines sample_file ! 1)))
         (Some (for_line (Suc 1) (l_text (split_lines sample_file ! 1)))) [''x'', ''y'']] = Inr a \<and>
    ap_content a = ''let a;'' @ [NL] @ ''x'' @ [NL] @ ''y''"
proof -
  have n: "(1::nat) \<le> 1" "1 < length (split_lines sample_file)" by code_simp+
  have "render_segs (split_lines sample_file) (dominant_eol (split_lines sample_file)) (no_final_newline (split_lines sample_file))
      (map Orig [0..<1] @ map New (normalize_lines [''x'', ''y'']) @ map Orig [Suc 1..<length (split_lines sample_file)]) =
    ''let a;'' @ [NL] @ ''x'' @ [NL] @ ''y''" by code_simp
  with fresh_edit_applies [OF n, of "[''x'', ''y'']"] show ?thesis by metis
qed

theorem edit_touches_named_lines_witness:
  "\<exists>a spans. apply_ops sample_file [InsertBefore Bof [''x'']] = Inr a \<and>
    list_all2 (fits (split_lines sample_file)) [InsertBefore Bof [''x'']] spans \<and>
    chained 0 (ordered spans) (length (split_lines sample_file))"
proof -
  obtain a where "apply_ops sample_file [InsertBefore Bof [''x'']] = Inr a"
    by (simp add: apply_ops_def resolve_gap_def ordered_def Let_def)
  with edit_touches_named_lines [OF this] show ?thesis by blast
qed

lemma only_element: "set xs = {j} \<Longrightarrow> distinct xs \<Longrightarrow> xs = [j]"
  by (cases xs; cases "tl xs") auto

text \<open>An anchor is found exactly when it names a line, and a stale one is reported.  A
  line is returned if and only if it is the one the anchor designates; if there is none,
  the anchor is added to the list that makes the whole edit fail, with the number of its
  operation and its role.\<close>

theorem stale_anchor_reported:
  "(snd (resolve_line no role (LineA line hash) rz) = Some k) = designates (rz_lines rz) (LineA line hash) k \<and>
   ((\<exists>j. designates (rz_lines rz) (LineA line hash) j) \<or>
     (\<exists>reason focus. rz_stale (fst (resolve_line no role (LineA line hash) rz)) = rz_stale rz @
       [\<lparr>sh_info = \<lparr>sa_op = no, sa_role = role, sa_anchor = show_nat line @ ''#'' @ hash, sa_reason = reason\<rparr>,
         sh_focus = focus\<rparr>]))"
proof -
  let ?lines = "rz_lines rz" and ?r = "resolve_line no role (LineA line hash) rz"
  have only: "snd ?r = Some j" if "designates ?lines (LineA line hash) j" for j
  proof (cases "j = line - 1")
    case True
    with that show ?thesis by (simp add: Let_def)
  next
    case False
    define code where "code = hash_code (l_text (?lines ! j))"
    have d: "j < length ?lines" "decode hash = Some code" "near line j"
      and u: "\<And>i. i < length ?lines \<Longrightarrow> near line i \<Longrightarrow> hash_code (l_text (?lines ! i)) = code \<Longrightarrow> i = j"
      using that False by (auto simp: code_def)
    have idx: "\<not> (line - 1 < length ?lines \<and> hash_code (l_text (?lines ! (line - 1))) = code)"
      using u [of "line - 1"] False by (auto simp: near_def)
    have "set (candidates ?lines (line - 1) code) = {j}"
    proof (intro equalityI subsetI)
      show "i \<in> {j}" if "i \<in> set (candidates ?lines (line - 1) code)" for i
        using u [of i] that unfolding candidates_iff by blast
      show "i \<in> set (candidates ?lines (line - 1) code)" if "i \<in> {j}" for i
        using d False that unfolding candidates_iff code_def by blast
    qed
    moreover have "distinct (candidates ?lines (line - 1) code)" by (simp add: candidates_def)
    ultimately have "candidates ?lines (line - 1) code = [j]" by (rule only_element)
    then show ?thesis using d(2) idx by (auto simp: Let_def)
  qed
  have found: "(snd ?r = Some k) = designates ?lines (LineA line hash) k"
    using only [of k] resolve_line_sound [of no role "LineA line hash" rz "fst ?r" k] by (metis prod.collapse)
  have reported: "\<exists>reason focus. rz_stale (fst ?r) = rz_stale rz @
       [\<lparr>sh_info = \<lparr>sa_op = no, sa_role = role, sa_anchor = show_nat line @ ''#'' @ hash, sa_reason = reason\<rparr>,
         sh_focus = focus\<rparr>]" if "snd ?r = None"
    using that by (auto simp: Let_def split: if_splits list.splits)
  have "snd ?r = None" if "\<not> (\<exists>j. designates ?lines (LineA line hash) j)"
    using that resolve_line_sound [of no role "LineA line hash" rz "fst ?r"] by (metis not_Some_eq prod.collapse)
  with reported have "(\<exists>j. designates ?lines (LineA line hash) j) \<or> (\<exists>reason focus. rz_stale (fst ?r) = rz_stale rz @
       [\<lparr>sh_info = \<lparr>sa_op = no, sa_role = role, sa_anchor = show_nat line @ ''#'' @ hash, sa_reason = reason\<rparr>,
         sh_focus = focus\<rparr>])"
    by (cases "\<exists>j. designates ?lines (LineA line hash) j") simp_all
  with found show ?thesis by (rule conjI)
qed

end
