(* ===== verification/Cron.thy ===== *)
theory Cron
  imports Prelude "HOL-Library.Word"
begin

text \<open>
  \<^verbatim>\<open>crates/pacode-types/src/cron_expr.rs\<close>: five-field cron expressions in UTC.

  Calendar arithmetic is on \<^typ>\<open>int\<close> with the truncating division of \<^verbatim>\<open>i64\<close>; the values it
  meets are far from the end of the range.  The stepping loop of a field is on 32-bit
  words, where the addition wraps, as in the release profile.  The search loop jumps over
  months, days and hours; that every jump goes forward is a theorem about the calendar,
  which the termination of \<open>search\<close> uses.
\<close>

section \<open>The calendar\<close>

text \<open>Division and remainder of Rust's signed integers, rounding towards zero.\<close>

definition quot :: "int \<Rightarrow> int \<Rightarrow> int" where
  "quot a b = (if 0 \<le> a then a div b else - (- a div b))"

definition remain :: "int \<Rightarrow> int \<Rightarrow> int" where
  "remain a b = a - b * quot a b"

record date =
  year :: int
  month :: nat
  day :: nat
  day_of_week :: nat

record tod =
  hour :: nat
  min_of :: nat

definition is_leap :: "int \<Rightarrow> bool" where
  "is_leap y \<longleftrightarrow> (remain y 4 = 0 \<and> remain y 100 \<noteq> 0) \<or> remain y 400 = 0"

definition days_in_month :: "int \<Rightarrow> nat \<Rightarrow> nat" where
  "days_in_month y m =
     (if List.member [1, 3, 5, 7, 8, 10, 12] m then 31
      else if List.member [4, 6, 9, 11] m then 30
      else if m = 2 then (if is_leap y then 29 else 28)
      else 30)"

definition days_from_civil :: "int \<Rightarrow> nat \<Rightarrow> nat \<Rightarrow> int" where
  "days_from_civil year0 month0 day0 =
     (let y = (if month0 \<le> 2 then year0 - 1 else year0);
          era = quot (if 0 \<le> y then y else y - 399) 400;
          yoe = y - era * 400;
          m = int month0; d = int day0;
          doy = quot (153 * (if m > 2 then m - 3 else m + 9) + 2) 5 + d - 1;
          doe = yoe * 365 + quot yoe 4 - quot yoe 100 + doy
      in era * 146097 + doe - 719468)"

definition civil_from_days :: "int \<Rightarrow> int \<times> nat \<times> nat" where
  "civil_from_days days =
     (let z = days + 719468;
          era = quot (if 0 \<le> z then z else z - 146096) 146097;
          doe = z - era * 146097;
          yoe = quot (doe - quot doe 1460 + quot doe 36524 - quot doe 146096) 365;
          y = yoe + era * 400;
          doy = doe - (365 * yoe + quot yoe 4 - quot yoe 100);
          mp = quot (5 * doy + 2) 153;
          d = nat (doy - quot (153 * mp + 2) 5 + 1);
          m = nat (if mp < 10 then mp + 3 else mp - 9)
      in (if m \<le> 2 then y + 1 else y, m, d))"

definition weekday :: "int \<Rightarrow> nat" where
  "weekday days = nat (remain (remain days 7 + 7 + 4) 7)"

definition civil_from_minutes :: "nat \<Rightarrow> date \<times> tod" where
  "civil_from_minutes minutes =
     (let days = int (minutes div 1440); rem = minutes mod 1440;
          (y, m, d) = civil_from_days days
      in (\<lparr>year = y, month = m, day = d, day_of_week = weekday days\<rparr>,
          \<lparr>hour = rem div 60, min_of = rem mod 60\<rparr>))"

definition minutes_from_civil :: "date \<Rightarrow> tod \<Rightarrow> nat" where
  "minutes_from_civil dt t =
     nat (max (days_from_civil (year dt) (month dt) (day dt)) 0) * 1440 + hour t * 60 + min_of t"

definition next_day :: "date \<Rightarrow> date" where
  "next_day dt =
     (let days = days_from_civil (year dt) (month dt) (day dt) + 1; (y, m, d) = civil_from_days days
      in \<lparr>year = y, month = m, day = d, day_of_week = weekday days\<rparr>)"

definition next_month :: "date \<Rightarrow> date" where
  "next_month dt =
     (let (y, m) = (if month dt = 12 then (year dt + 1, 1) else (year dt, month dt + 1));
          d = min 1 (days_in_month y m); days = days_from_civil y m d
      in \<lparr>year = y, month = m, day = d, day_of_week = weekday days\<rparr>)"

section \<open>The calendar is a bijection\<close>

text \<open>Years of an era start in March: \<open>year_start k\<close> is the first day of year \<open>k\<close>, \<open>mon_start k\<close>
  the first day of the \<open>k\<close>-th month of such a year.\<close>

definition year_start :: "int \<Rightarrow> int" where
  "year_start k = 365 * k + k div 4 - k div 100"

definition year_end :: "int \<Rightarrow> int" where
  "year_end k = (if k = 399 then 146097 else year_start (k + 1))"

definition mon_start :: "int \<Rightarrow> int" where
  "mon_start k = (153 * k + 2) div 5"

definition mon_of :: "int \<Rightarrow> int" where
  "mon_of doy = (5 * doy + 2) div 153"

definition year_num :: "int \<Rightarrow> int" where
  "year_num doe = doe - doe div 1460 + doe div 36524 - doe div 146096"

lemma quarter_step: "q \<le> q' \<Longrightarrow> q' \<le> q + 1 \<Longrightarrow> q' div 4 - q div 4 \<le> q' - (q::int)"
  by presburger

lemma div_step: "0 < k \<Longrightarrow> n div k \<le> (n + 1) div k \<and> (n + 1) div k \<le> n div k + (1::int)"
  using zdiv_mono1 [of n "n + 1" k] zdiv_mono1 [of "n + 1" "n + k" k] by (simp add: div_add_self2)

lemma year_num_step: "year_num n \<le> year_num (n + 1)"
proof -
  have "n div 36524 \<le> (n + 1) div 36524" "(n + 1) div 36524 \<le> n div 36524 + 1"
    using div_step [of 36524 n] by simp_all
  from quarter_step [OF this] have "(n + 1) div 146096 - n div 146096 \<le> (n + 1) div 36524 - n div 36524"
    by (simp flip: zdiv_zmult2_eq)
  moreover have "(n + 1) div 1460 \<le> n div 1460 + 1" using div_step [of 1460 n] by simp
  ultimately show ?thesis by (simp add: year_num_def)
qed

lemma year_num_mono: "a \<le> b \<Longrightarrow> year_num a \<le> year_num b"
proof (induction rule: int_ge_induct)
  case (step i)
  then show ?case using year_num_step [of i] by simp
qed simp

lemma year_bounds:
  "list_all (\<lambda>k. 365 * k \<le> year_num (year_start k) \<and> year_num (year_end k - 1) < 365 * k + 365 \<and>
     365 \<le> year_end k - year_start k \<and> year_end k - year_start k \<le> 366 \<and> 0 \<le> year_start k \<and> year_end k \<le> 146097) [0..399]"
  by code_simp

lemma month_bounds:
  "list_all (\<lambda>d. mon_start (mon_of d) \<le> d \<and> 0 \<le> mon_of d \<and> mon_of d < 12 \<and> d - mon_start (mon_of d) < 31 \<and>
     (mon_of d < 11 \<longrightarrow> d < mon_start (mon_of d + 1))) [0..365]"
  by code_simp

lemma year_num_exact:
  assumes "0 \<le> k" "k \<le> 399" "year_start k \<le> doe" "doe < year_end k"
  shows "year_num doe div 365 = k"
proof -
  have "k \<in> set [0..399]" using assms(1,2) by simp
  with year_bounds have "365 * k \<le> year_num (year_start k)" "year_num (year_end k - 1) < 365 * k + 365"
    unfolding list_all_iff by blast+
  moreover have "year_num (year_start k) \<le> year_num doe" "year_num doe \<le> year_num (year_end k - 1)"
    using assms by (simp_all add: year_num_mono)
  ultimately have "year_num doe = 365 * k + (year_num doe - 365 * k)" "0 \<le> year_num doe - 365 * k"
    "year_num doe - 365 * k < 365" by linarith+
  then show ?thesis by (metis div_mult_self4 add.commute div_pos_pos_trivial add_0 zero_neq_numeral)
qed

text \<open>The years of an era cover its days without a gap.\<close>

lemma year_exists:
  assumes "0 \<le> doe" "doe < 146097"
  shows "\<exists>k. 0 \<le> k \<and> k \<le> 399 \<and> year_start k \<le> doe \<and> doe < year_end k"
proof -
  have "\<exists>k. 0 \<le> k \<and> k \<le> 399 \<and> year_start k \<le> doe \<and> doe < year_end k" if "doe < year_end n" "0 \<le> n" "n \<le> 399" for n
    using that(2,1,3)
  proof (induction rule: int_ge_induct)
    case base
    then show ?case using assms(1) by (intro exI [of _ 0]) (simp add: year_start_def)
  next
    case (step i)
    show ?case
    proof (cases "doe < year_start (i + 1)")
      case True
      with step have "doe < year_end i" by (simp add: year_end_def)
      with step show ?thesis by simp
    next
      case False
      with step show ?thesis by (intro exI [of _ "i + 1"]) simp
    qed
  qed
  from this [of 399] show ?thesis using assms(2) by (simp add: year_end_def)
qed

lemma year_bound:
  assumes "0 \<le> k" "k \<le> 399"
  shows "365 \<le> year_end k - year_start k" "year_end k - year_start k \<le> 366" "0 \<le> year_start k" "year_end k \<le> 146097"
proof -
  have "k \<in> set [0..399]" using assms by simp
  with year_bounds show "365 \<le> year_end k - year_start k" "year_end k - year_start k \<le> 366" "0 \<le> year_start k"
    "year_end k \<le> 146097" unfolding list_all_iff by blast+
qed

lemma month_bound:
  assumes "0 \<le> d" "d \<le> 365"
  shows "mon_start (mon_of d) \<le> d" "0 \<le> mon_of d" "mon_of d < 12" "d - mon_start (mon_of d) < 31"
    "mon_of d < 11 \<Longrightarrow> d < mon_start (mon_of d + 1)"
proof -
  have "d \<in> set [0..365]" using assms by simp
  with month_bounds show "mon_start (mon_of d) \<le> d" "0 \<le> mon_of d" "mon_of d < 12" "d - mon_start (mon_of d) < 31"
    "mon_of d < 11 \<Longrightarrow> d < mon_start (mon_of d + 1)" unfolding list_all_iff by blast+
qed

lemma mon_start_mono: "a \<le> b \<Longrightarrow> mon_start a \<le> mon_start b"
  by (simp add: mon_start_def zdiv_mono1)

lemma quot_nonneg [simp]: "0 \<le> a \<Longrightarrow> quot a b = a div b"
  by (simp add: quot_def)

lemma quot_floor: "0 < b \<Longrightarrow> c = b - 1 \<Longrightarrow> quot (if 0 \<le> a then a else a - c) b = a div b"
proof (cases "0 \<le> a")
  case False
  assume b: "0 < b" and c: "c = b - 1"
  have "b - 1 - a = (b - 1 - a mod b) + b * (- (a div b))" using div_mult_mod_eq [of a b] by (simp add: algebra_simps)
  moreover have "0 \<le> b - 1 - a mod b" "b - 1 - a mod b < b" using b pos_mod_bound [of b a] pos_mod_sign [of b a] by linarith+
  ultimately have "(b - 1 - a) div b = - (a div b)" by (intro int_div_pos_eq [of _ b _ "b - 1 - a mod b"]) simp_all
  then show ?thesis using False b c by (simp add: quot_def)
qed simp

text \<open>A day by its era, its year in the era and its position in the year.\<close>

lemma civil_eq:
  assumes "0 \<le> k" "k \<le> 399" "year_start k \<le> doe" "doe < year_end k" "mp = mon_of (doe - year_start k)"
  shows "civil_from_days (era * 146097 + doe - 719468) =
    (if mp < 10 then k + era * 400 else k + era * 400 + 1, nat (if mp < 10 then mp + 3 else mp - 9),
     nat (doe - year_start k - mon_start mp + 1))"
proof -
  note yb = year_bound [OF assms(1,2)]
  have doe: "0 \<le> doe" "doe < 146097" using assms yb by linarith+
  have doy: "0 \<le> doe - year_start k" "doe - year_start k \<le> 365" using assms yb by linarith+
  note mb = month_bound [OF doy, folded assms(5)]
  have era: "quot (if 0 \<le> era * 146097 + doe then era * 146097 + doe else era * 146097 + doe - 146096) 146097 = era"
    using quot_floor [of 146097 146096 "era * 146097 + doe"] doe by simp
  have yoe: "quot (doe - quot doe 1460 + quot doe 36524 - quot doe 146096) 365 = k"
  proof -
    have "365 * k \<le> year_num doe" using year_num_exact [OF assms(1-4)] by (simp add: mult.commute minus_mod_eq_mult_div [symmetric])
    then have "0 \<le> year_num doe" using assms(1) by simp
    with year_num_exact [OF assms(1-4)] doe show ?thesis by (simp add: year_num_def)
  qed
  have ys: "365 * k + quot k 4 - quot k 100 = year_start k" using assms(1) by (simp add: year_start_def)
  have mp: "quot (5 * (doe - year_start k) + 2) 153 = mp" using doy assms(5) by (simp add: mon_of_def)
  have ms: "quot (153 * mp + 2) 5 = mon_start mp" using mb(2) by (simp add: mon_start_def)
  have "nat (if mp < 10 then mp + 3 else mp - 9) \<le> 2 \<longleftrightarrow> \<not> mp < 10" using mb(2,3) by auto
  moreover have "era * 146097 + doe - 719468 + 719468 = era * 146097 + doe" "era * 146097 + doe - era * 146097 = doe" by simp_all
  ultimately show ?thesis
    by (simp only: civil_from_days_def Let_def era yoe ys mp ms if_not_P if_P split: if_split) simp
qed

lemma days_eq:
  assumes "0 \<le> k" "k \<le> 399" "0 \<le> mp" "mp < 12"
  shows "days_from_civil (if mp < 10 then k + era * 400 else k + era * 400 + 1)
      (nat (if mp < 10 then mp + 3 else mp - 9)) d = era * 146097 + (year_start k + mon_start mp + int d - 1) - 719468"
proof -
  have era: "quot (if 0 \<le> k + era * 400 then k + era * 400 else k + era * 400 - 399) 400 = era"
    using quot_floor [of 400 399 "k + era * 400"] assms(1,2) by simp
  have m: "int (nat (if mp < 10 then mp + 3 else mp - 9)) = (if mp < 10 then mp + 3 else mp - 9)" using assms by simp
  have y: "(if nat (if mp < 10 then mp + 3 else mp - 9) \<le> 2 then (if mp < 10 then k + era * 400 else k + era * 400 + 1) - 1
      else (if mp < 10 then k + era * 400 else k + era * 400 + 1)) = k + era * 400" using assms by auto
  have ms: "quot (153 * (if (if mp < 10 then mp + 3 else mp - 9) > 2 then (if mp < 10 then mp + 3 else mp - 9) - 3
      else (if mp < 10 then mp + 3 else mp - 9) + 9) + 2) 5 = mon_start mp" using assms by (auto simp: mon_start_def)
  show ?thesis
    unfolding days_from_civil_def Let_def y m era ms using assms by (simp add: year_start_def)
qed

lemma day_decomposition:
  obtains era k doe where "z = era * 146097 + doe - 719468" "0 \<le> k" "k \<le> 399" "year_start k \<le> doe" "doe < year_end k"
proof -
  let ?w = "z + 719468"
  have "0 \<le> ?w mod 146097" "?w mod 146097 < 146097" by simp_all
  from year_exists [OF this] obtain k where k: "0 \<le> k" "k \<le> 399" "year_start k \<le> ?w mod 146097" "?w mod 146097 < year_end k" by blast
  have "z = ?w div 146097 * 146097 + ?w mod 146097 - 719468" using div_mult_mod_eq [of ?w 146097] by simp
  then show thesis using k by (rule that)
qed

text \<open>The calendar is exact for every day, before and after the epoch.  The date of a day
  number is a date (month, and day within 31), and the day number of that date is the
  number it came from.\<close>

theorem calendar_roundtrip:
  "case civil_from_days z of (y, m, d) \<Rightarrow>
     days_from_civil y m d = z \<and> 1 \<le> m \<and> m \<le> 12 \<and> 1 \<le> d \<and> d \<le> 31"
proof -
  obtain era k doe where z: "z = era * 146097 + doe - 719468" and k: "0 \<le> k" "k \<le> 399" "year_start k \<le> doe" "doe < year_end k"
    by (rule day_decomposition)
  define mp where "mp = mon_of (doe - year_start k)"
  have "0 \<le> doe - year_start k" "doe - year_start k \<le> 365" using k year_bound [OF k(1,2)] by linarith+
  note mb = month_bound [OF this, folded mp_def]
  define m where "m = nat (if mp < 10 then mp + 3 else mp - 9)"
  define d where "d = nat (doe - year_start k - mon_start mp + 1)"
  have c: "civil_from_days z = (if mp < 10 then k + era * 400 else k + era * 400 + 1, m, d)"
    unfolding z m_def d_def by (rule civil_eq [OF k mp_def])
  have "int d = doe - year_start k - mon_start mp + 1" using mb(1) by (simp add: d_def)
  then have "days_from_civil (if mp < 10 then k + era * 400 else k + era * 400 + 1) m d = z"
    unfolding m_def using days_eq [OF k(1,2) mb(2,3), of era d] z by simp
  moreover have "1 \<le> m" "m \<le> 12" using mb(2,3) by (auto simp: m_def)
  moreover have "1 \<le> d" "d \<le> 31" using mb(1,4) by (simp_all add: d_def)
  ultimately show ?thesis by (simp add: c)
qed

section \<open>Jumps of the search go forward and skip nothing\<close>

text \<open>The first day of the month after the one of a day.\<close>

definition month_end :: "int \<Rightarrow> int" where
  "month_end z =
     (case civil_from_days z of (y, m, d) \<Rightarrow>
        days_from_civil (if m = 12 then y + 1 else y) (if m = 12 then 1 else m + 1) 1)"

lemma month_end_eq:
  assumes "0 \<le> k" "k \<le> 399" "year_start k \<le> doe" "doe < year_end k" "mp = mon_of (doe - year_start k)"
  shows "month_end (era * 146097 + doe - 719468) =
    era * 146097 + (if mp < 11 then year_start k + mon_start (mp + 1) else year_end k) - 719468"
proof -
  have "0 \<le> doe - year_start k" "doe - year_start k \<le> 365" using assms year_bound [OF assms(1,2)] by linarith+
  note mb = month_bound [OF this, folded assms(5)]
  let ?m = "nat (if mp < 10 then mp + 3 else mp - 9)"
  let ?y = "if mp < 10 then k + era * 400 else k + era * 400 + 1"
  have e: "month_end (era * 146097 + doe - 719468) =
      days_from_civil (if ?m = 12 then ?y + 1 else ?y) (if ?m = 12 then 1 else ?m + 1) 1"
    unfolding month_end_def civil_eq [OF assms] by simp
  show ?thesis
  proof (cases "mp < 11")
    case True
    have "(if ?m = 12 then ?y + 1 else ?y) = (if mp + 1 < 10 then k + era * 400 else k + era * 400 + 1)"
      "(if ?m = 12 then 1 else ?m + 1) = nat (if mp + 1 < 10 then mp + 1 + 3 else mp + 1 - 9)"
      using True mb(2) by (auto simp: nat_add_distrib eq_nat_nat_iff nat_eq_iff)
    then show ?thesis using e True days_eq [OF assms(1,2), of "mp + 1" era 1] mb(2) by simp
  next
    case False
    with mb(3) have mp: "mp = 11" by simp
    show ?thesis
    proof (cases "k = 399")
      case True
      then show ?thesis
        using e mp days_eq [of 0 0 "era + 1" 1]
        by (simp add: year_start_def mon_start_def year_end_def algebra_simps numeral_3_eq_3)
    next
      case False
      then show ?thesis
        using e mp days_eq [of "k + 1" 0 era 1] assms(1,2)
        by (simp add: mon_start_def year_end_def algebra_simps numeral_3_eq_3)
    qed
  qed
qed

lemma month_constant:
  assumes "z \<le> z'" "z' < month_end z"
  shows "fst (snd (civil_from_days z')) = fst (snd (civil_from_days z))"
proof -
  obtain era k doe where z: "z = era * 146097 + doe - 719468" and k: "0 \<le> k" "k \<le> 399" "year_start k \<le> doe" "doe < year_end k"
    by (rule day_decomposition)
  note yb = year_bound [OF k(1,2)]
  define mp where "mp = mon_of (doe - year_start k)"
  have doy: "0 \<le> doe - year_start k" "doe - year_start k \<le> 365" using k yb by linarith+
  note mb = month_bound [OF doy, folded mp_def]
  define doe' where "doe' = z' + 719468 - era * 146097"
  have z': "z' = era * 146097 + doe' - 719468" by (simp add: doe'_def)
  have bound: "doe' < (if mp < 11 then year_start k + mon_start (mp + 1) else year_end k)"
    using assms(2) month_end_eq [OF k mp_def, of era] by (simp add: z z')
  have "mon_start (mp + 1) \<le> 365" if "mp < 11" using mon_start_mono [of "mp + 1" 11] that by (simp add: mon_start_def)
  then have k': "year_start k \<le> doe'" "doe' < year_end k" using bound yb(1) k(3) assms(1) by (auto simp: z z' split: if_splits)
  have doy': "0 \<le> doe' - year_start k" "doe' - year_start k \<le> 365" using k' yb by linarith+
  note mb' = month_bound [OF doy']
  have "mp \<le> mon_of (doe' - year_start k)"
    unfolding mp_def mon_of_def by (rule zdiv_mono1) (use assms(1) in \<open>simp_all add: z z'\<close>)
  moreover have "\<not> mp < mon_of (doe' - year_start k)"
  proof
    assume lt: "mp < mon_of (doe' - year_start k)"
    then have "mp < 11" using mb'(3) by simp
    moreover have "mon_start (mp + 1) \<le> doe' - year_start k"
      using mon_start_mono [of "mp + 1" "mon_of (doe' - year_start k)"] mb'(1) lt by simp
    ultimately show False using bound by simp
  qed
  ultimately have "mon_of (doe' - year_start k) = mp" by simp
  then show ?thesis unfolding z z' civil_eq [OF k mp_def] civil_eq [OF k(1,2) k' refl] by simp
qed

lemma month_end_later: "z < month_end z"
proof -
  obtain era k doe where z: "z = era * 146097 + doe - 719468" and k: "0 \<le> k" "k \<le> 399" "year_start k \<le> doe" "doe < year_end k"
    by (rule day_decomposition)
  have "0 \<le> doe - year_start k" "doe - year_start k \<le> 365" using k year_bound [OF k(1,2)] by linarith+
  from month_bound(5) [OF this] show ?thesis
    unfolding z month_end_eq [OF k refl] using k(4) by (cases "mon_of (doe - year_start k) < 11") auto
qed

abbreviation midnight :: tod where
  "midnight \<equiv> \<lparr>hour = 0, min_of = 0\<rparr>"

lemma days_in_month_pos: "1 \<le> days_in_month y m"
  by (simp add: days_in_month_def)

lemma jump_month:
  "minutes_from_civil (next_month (fst (civil_from_minutes t))) midnight = nat (month_end (int (t div 1440))) * 1440"
proof -
  obtain y m d where c: "civil_from_days (int (t div 1440)) = (y, m, d)" by (metis prod_cases3)
  have "min 1 (days_in_month a b) = 1" for a b using days_in_month_pos [of a b] by simp
  moreover have "0 \<le> month_end (int (t div 1440))" using month_end_later [of "int (t div 1440)"] by linarith
  ultimately show ?thesis
    by (cases "m = 12")
       (simp_all add: minutes_from_civil_def next_month_def civil_from_minutes_def c month_end_def Let_def max_def)
qed

lemma jump_month_later: "t < nat (month_end (int (t div 1440))) * 1440"
proof -
  have "Suc (t div 1440) \<le> nat (month_end (int (t div 1440)))" using month_end_later [of "int (t div 1440)"] by linarith
  then have "Suc (t div 1440) * 1440 \<le> nat (month_end (int (t div 1440))) * 1440" by (rule mult_le_mono1)
  moreover have "t < Suc (t div 1440) * 1440" by (simp add: dividend_less_div_times)
  ultimately show ?thesis by linarith
qed

lemma calendar_inverse: "civil_from_days z = (y, m, d) \<Longrightarrow> days_from_civil y m d = z"
proof -
  assume c: "civil_from_days z = (y, m, d)"
  obtain era k doe where z: "z = era * 146097 + doe - 719468" and k: "0 \<le> k" "k \<le> 399" "year_start k \<le> doe" "doe < year_end k"
    by (rule day_decomposition)
  have "0 \<le> doe - year_start k" "doe - year_start k \<le> 365" using k year_bound [OF k(1,2)] by linarith+
  note mb = month_bound [OF this]
  show ?thesis
    using c unfolding z civil_eq [OF k refl]
    using days_eq [OF k(1,2) mb(2,3), of era d] mb(1) by auto
qed

lemma jump_day:
  "minutes_from_civil (next_day (fst (civil_from_minutes t))) midnight = Suc (t div 1440) * 1440"
proof -
  obtain y m d where c: "civil_from_days (int (t div 1440)) = (y, m, d)" by (metis prod_cases3)
  obtain y' m' d' where c': "civil_from_days (int (t div 1440) + 1) = (y', m', d')" by (metis prod_cases3)
  show ?thesis
    using calendar_inverse [OF c] calendar_inverse [OF c']
    by (simp add: minutes_from_civil_def next_day_def civil_from_minutes_def c c' Let_def nat_add_distrib)
qed

lemma jump_day_later: "t < Suc (t div 1440) * 1440"
  by (simp add: dividend_less_div_times)

section \<open>Expressions\<close>

definition SEARCH_LIMIT_DAYS :: nat where
  "SEARCH_LIMIT_DAYS = 366 * 5"

datatype cron_error = FieldCount nat | FieldError string string | Unsatisfiable

definition cron_error_text :: "cron_error \<Rightarrow> string" where
  "cron_error_text e =
     (case e of FieldCount n \<Rightarrow> ''a cron expression needs 5 fields, got '' @ show_nat n
      | FieldError field val \<Rightarrow> ''invalid '' @ field @ '' field: '' @ val
      | Unsatisfiable \<Rightarrow> ''no run time within '' @ show_nat SEARCH_LIMIT_DAYS @ '' days matches this expression'')"

record cron_expr =
  minutes :: "nat list"
  hours :: "nat list"
  days_of_month :: "nat list"
  months :: "nat list"
  days_of_week :: "nat list"
  dom_restricted :: bool
  dow_restricted :: bool

text \<open>\<^verbatim>\<open>while v <= hi { out.push(v); v += step; }\<close>\<close>

definition value_step :: "32 word \<Rightarrow> 32 word \<Rightarrow> nat list \<times> 32 word \<Rightarrow> (nat list \<times> 32 word) option" where
  "value_step hi stp st = (case st of (out, v) \<Rightarrow> if v \<le> hi then Some (out @ [unat v], v + stp) else None)"

definition field_values :: "nat \<Rightarrow> nat \<Rightarrow> nat \<Rightarrow> nat list" where
  "field_values lo hi stp =
     fst (loop (Suc (Suc hi)) (value_step (of_nat hi) (of_nat stp)) ([], of_nat lo))"

text \<open>One part of a comma list: its bounds and step, \<^const>\<open>None\<close> when it is malformed.\<close>

definition field_step :: "string \<Rightarrow> (string \<times> nat) option" where
  "field_step part =
     (case split_once part (CHR ''/'') of
        Some (range_text, step_text) \<Rightarrow>
          (case parse_uint 32 step_text of None \<Rightarrow> None
           | Some stp \<Rightarrow> if stp = 0 then None else Some (range_text, stp))
      | None \<Rightarrow> Some (part, 1))"

definition field_range :: "string \<Rightarrow> nat \<Rightarrow> nat \<Rightarrow> (nat \<times> nat) option" where
  "field_range range_text lowest highest =
     (if range_text = ''*'' then Some (lowest, highest)
      else (case split_once range_text (CHR ''-'') of
          Some (lo_text, hi_text) \<Rightarrow>
            (case parse_uint 32 lo_text of None \<Rightarrow> None
             | Some lo \<Rightarrow> (case parse_uint 32 hi_text of None \<Rightarrow> None
                | Some hi \<Rightarrow> if hi < lo then None else Some (lo, hi)))
        | None \<Rightarrow> (case parse_uint 32 range_text of None \<Rightarrow> None | Some v \<Rightarrow> Some (v, v))))"

definition field_part :: "nat \<Rightarrow> nat \<Rightarrow> string \<Rightarrow> nat list option" where
  "field_part lowest highest part0 =
     (let part = trim part0
      in if part = [] then None
         else (case field_step part of None \<Rightarrow> None
           | Some (range_text, stp) \<Rightarrow>
               (case field_range range_text lowest highest of None \<Rightarrow> None
                | Some (lo, hi) \<Rightarrow>
                    if lo < lowest \<or> highest < hi then None else Some (field_values lo hi stp))))"

definition sort_dedup :: "nat list \<Rightarrow> nat list" where
  "sort_dedup xs = remdups_adj (sort xs)"

definition parse_field :: "string \<Rightarrow> nat \<Rightarrow> nat \<Rightarrow> string \<Rightarrow> cron_error + nat list" where
  "parse_field txt lowest highest field =
     (case those (map (field_part lowest highest) (split_on (CHR '','') txt)) of
        None \<Rightarrow> Inl (FieldError field txt)
      | Some parts \<Rightarrow>
          (let out = sort_dedup (concat parts)
           in if out = [] then Inl (FieldError field txt) else Inr out))"

definition parse_dow :: "string \<Rightarrow> cron_error + nat list" where
  "parse_dow txt =
     (case parse_field txt 0 7 ''day-of-week'' of Inl e \<Rightarrow> Inl e
      | Inr days \<Rightarrow> Inr (sort_dedup (map (\<lambda>d. if d = 7 then 0 else d) days)))"

definition cron_parse :: "string \<Rightarrow> cron_error + cron_expr" where
  "cron_parse expr =
     (case split_whitespace expr of
        [f0, f1, f2, f3, f4] \<Rightarrow>
          (case parse_field f0 0 59 ''minute'' of Inl e \<Rightarrow> Inl e
           | Inr mi \<Rightarrow> (case parse_field f1 0 23 ''hour'' of Inl e \<Rightarrow> Inl e
              | Inr h \<Rightarrow> (case parse_field f2 1 31 ''day-of-month'' of Inl e \<Rightarrow> Inl e
                 | Inr dm \<Rightarrow> (case parse_field f3 1 12 ''month'' of Inl e \<Rightarrow> Inl e
                    | Inr mo \<Rightarrow> (case parse_dow f4 of Inl e \<Rightarrow> Inl e
                       | Inr dow \<Rightarrow>
                           Inr \<lparr>minutes = mi, hours = h, days_of_month = dm, months = mo, days_of_week = dow,
                                dom_restricted = f2 \<noteq> ''*'', dow_restricted = f4 \<noteq> ''*''\<rparr>)))))
      | fs \<Rightarrow> Inl (FieldCount (length fs)))"

definition matches_day :: "cron_expr \<Rightarrow> date \<Rightarrow> bool" where
  "matches_day e dt =
     (let dm = List.member (days_of_month e) (day dt); dw = List.member (days_of_week e) (day_of_week dt)
      in case (dom_restricted e, dow_restricted e) of
           (True, True) \<Rightarrow> dm \<or> dw | (True, False) \<Rightarrow> dm | (False, True) \<Rightarrow> dw | (False, False) \<Rightarrow> True)"

text \<open>The search from minute \<open>t\<close> of the epoch.\<close>

function search :: "cron_expr \<Rightarrow> nat \<Rightarrow> nat \<Rightarrow> nat option" where
  "search e limit t =
     (if t < limit then
        (let dt = fst (civil_from_minutes t); td = snd (civil_from_minutes t)
         in if \<not> List.member (months e) (month dt) then
              search e limit (minutes_from_civil (next_month dt) midnight)
            else if \<not> matches_day e dt then search e limit (minutes_from_civil (next_day dt) midnight)
            else if \<not> List.member (hours e) (hour td) then search e limit (t + (60 - min_of td))
            else if \<not> List.member (minutes e) (min_of td) then search e limit (t + 1)
            else Some t)
      else None)"
  by pat_completeness auto

lemma min_of_lt: "min_of (snd (civil_from_minutes t)) = t mod 60"
  by (simp add: civil_from_minutes_def Let_def mod_mod_cancel split: prod.splits)

termination search
proof (relation "measure (\<lambda>(e, limit, t). limit - t)", goal_cases)
  case (2 e limit t)
  then show ?case using jump_month_later [of t] by (simp add: jump_month)
next
  case (3 e limit t)
  then show ?case using jump_day_later [of t] by (simp add: jump_day)
next
  case (4 e limit t)
  have "t mod 60 < 60" by simp
  then have "t < t + (60 - t mod 60)" by linarith
  then show ?case using 4 by (auto simp: min_of_lt)
qed auto

declare search.simps [simp del]

definition next_after_ms :: "cron_expr \<Rightarrow> nat \<Rightarrow> cron_error + nat" where
  "next_after_ms e after_ms =
     (let start_min = after_ms div 60000 + 1; limit_min = start_min + SEARCH_LIMIT_DAYS * 24 * 60
      in case search e limit_min start_min of Some t \<Rightarrow> Inr (t * 60000) | None \<Rightarrow> Inl Unsatisfiable)"

section \<open>The search finds the first run\<close>

text \<open>What an expression says of a minute of the epoch.\<close>

definition fires :: "cron_expr \<Rightarrow> nat \<Rightarrow> bool" where
  "fires e t \<longleftrightarrow>
     (let dt = fst (civil_from_minutes t); td = snd (civil_from_minutes t)
      in List.member (months e) (month dt) \<and> matches_day e dt \<and> List.member (hours e) (hour td) \<and>
         List.member (minutes e) (min_of td))"

lemma civil_month: "month (fst (civil_from_minutes t)) = fst (snd (civil_from_days (int (t div 1440))))"
  by (simp add: civil_from_minutes_def Let_def split: prod.splits)

lemma same_day: "v div 1440 = t div 1440 \<Longrightarrow> fst (civil_from_minutes v) = fst (civil_from_minutes t)"
  by (simp add: civil_from_minutes_def Let_def split: prod.splits)

lemma same_hour:
  assumes "v div 60 = t div 60"
  shows "fst (civil_from_minutes v) = fst (civil_from_minutes t)" "hour (snd (civil_from_minutes v)) = hour (snd (civil_from_minutes t))"
proof -
  have "v div 60 div 24 = t div 60 div 24" using assms by simp
  then have "v div 1440 = t div 1440" by (simp flip: div_mult2_eq)
  then show "fst (civil_from_minutes v) = fst (civil_from_minutes t)" by (rule same_day)
  have "hour (snd (civil_from_minutes u)) = u div 60 mod 24" for u
    using mod_mult2_eq [of u 60 24] by (simp add: civil_from_minutes_def Let_def split: prod.splits)
  then show "hour (snd (civil_from_minutes v)) = hour (snd (civil_from_minutes t))" using assms by simp
qed

lemma skip_month:
  assumes "\<not> List.member (months e) (month (fst (civil_from_minutes t)))" "t \<le> v"
    "v < minutes_from_civil (next_month (fst (civil_from_minutes t))) midnight"
  shows "\<not> fires e v"
proof -
  have "v div 1440 < nat (month_end (int (t div 1440)))"
    using assms(3) unfolding jump_month by (simp add: less_mult_imp_div_less)
  then have "int (v div 1440) < month_end (int (t div 1440))" by linarith
  moreover have "int (t div 1440) \<le> int (v div 1440)" using assms(2) by (simp add: div_le_mono)
  ultimately have "fst (snd (civil_from_days (int (v div 1440)))) = fst (snd (civil_from_days (int (t div 1440))))"
    by (intro month_constant)
  with assms(1) show ?thesis by (simp add: fires_def civil_month Let_def)
qed

lemma skip_day:
  assumes "\<not> matches_day e (fst (civil_from_minutes t))" "t \<le> v"
    "v < minutes_from_civil (next_day (fst (civil_from_minutes t))) midnight"
  shows "\<not> fires e v"
proof -
  have "v div 1440 < Suc (t div 1440)" using assms(3) unfolding jump_day by (rule less_mult_imp_div_less)
  moreover have "t div 1440 \<le> v div 1440" using assms(2) by (rule div_le_mono)
  ultimately have "v div 1440 = t div 1440" by linarith
  from same_day [OF this] assms(1) show ?thesis by (simp add: fires_def Let_def)
qed

lemma skip_hour:
  assumes "\<not> List.member (hours e) (hour (snd (civil_from_minutes t)))" "t \<le> v" "v < t + (60 - min_of (snd (civil_from_minutes t)))"
  shows "\<not> fires e v"
proof -
  have "v < t + (60 - t mod 60)" "t mod 60 < 60" using assms(3) by (simp_all add: min_of_lt)
  then have "v < Suc (t div 60) * 60" using div_mult_mod_eq [of t 60] by (simp only: mult_Suc)
  then have "v div 60 < Suc (t div 60)" by (rule less_mult_imp_div_less)
  moreover have "t div 60 \<le> v div 60" using assms(2) by (rule div_le_mono)
  ultimately have "v div 60 = t div 60" by linarith
  from same_hour(2) [OF this] assms(1) show ?thesis by (simp add: fires_def Let_def)
qed

lemma search_spec:
  "case search e limit t of
     Some u \<Rightarrow> t \<le> u \<and> u < limit \<and> fires e u \<and> (\<forall>v. t \<le> v \<and> v < u \<longrightarrow> \<not> fires e v)
   | None \<Rightarrow> \<forall>v. t \<le> v \<and> v < limit \<longrightarrow> \<not> fires e v"
proof (induction e limit t rule: search.induct)
  case (1 e limit t)
  let ?dt = "fst (civil_from_minutes t)" and ?td = "snd (civil_from_minutes t)"
  have jump: ?case if "search e limit t = search e limit t'" "t \<le> t'" "\<And>v. t \<le> v \<Longrightarrow> v < t' \<Longrightarrow> \<not> fires e v"
    and "case search e limit t' of Some u \<Rightarrow> t' \<le> u \<and> u < limit \<and> fires e u \<and> (\<forall>v. t' \<le> v \<and> v < u \<longrightarrow> \<not> fires e v)
      | None \<Rightarrow> \<forall>v. t' \<le> v \<and> v < limit \<longrightarrow> \<not> fires e v" for t'
    using that(4) unfolding that(1) using that(2,3) by (auto split: option.splits) (meson le_less_linear)+
  show ?case
  proof (cases "t < limit")
    case False
    then show ?thesis by (auto simp: search.simps)
  next
    case lt: True
    note eq = search.simps [of e limit t, unfolded Let_def]
    consider (month) "\<not> List.member (months e) (month ?dt)"
      | (day) "List.member (months e) (month ?dt)" "\<not> matches_day e ?dt"
      | (hour) "List.member (months e) (month ?dt)" "matches_day e ?dt" "\<not> List.member (hours e) (hour ?td)"
      | (minute) "List.member (months e) (month ?dt)" "matches_day e ?dt" "List.member (hours e) (hour ?td)"
          "\<not> List.member (minutes e) (min_of ?td)"
      | (hit) "fires e t" by (auto simp: fires_def Let_def)
    then show ?thesis
    proof cases
      case month
      have "t \<le> minutes_from_civil (next_month ?dt) midnight" using jump_month_later [of t] by (simp add: jump_month)
      moreover have "search e limit t = search e limit (minutes_from_civil (next_month ?dt) midnight)" using lt month eq by simp
      ultimately show ?thesis using 1(1) [OF lt refl refl month] skip_month [OF month] by (intro jump) simp_all
    next
      case day
      have "t \<le> minutes_from_civil (next_day ?dt) midnight" using jump_day_later [of t] by (simp add: jump_day)
      moreover have "search e limit t = search e limit (minutes_from_civil (next_day ?dt) midnight)" using lt day eq by simp
      ultimately show ?thesis using 1(2) [OF lt refl refl] day skip_day [OF day(2)] by (intro jump) simp_all
    next
      case hour
      have "search e limit t = search e limit (t + (60 - min_of ?td))" using lt hour eq by simp
      then show ?thesis using 1(3) [OF lt refl refl] hour skip_hour [OF hour(3)] by (intro jump) simp_all
    next
      case minute
      have "search e limit t = search e limit (t + 1)" using lt minute eq by simp
      moreover have "\<not> fires e v" if "t \<le> v" "v < t + 1" for v
        using minute that by (cases "v = t") (simp_all add: fires_def Let_def)
      moreover have "t \<le> t + 1" by simp
      ultimately show ?thesis using 1(4) [OF lt refl refl] minute by (intro jump) blast+
    next
      case hit
      then have "search e limit t = Some t" using lt eq by (simp add: fires_def Let_def)
      then show ?thesis using lt hit by auto
    qed
  qed
qed

lemma minute_after: "after_ms div 60000 + 1 \<le> v \<longleftrightarrow> after_ms < v * (60000::nat)"
  by (metis Suc_eq_plus1 Suc_le_eq div_less_iff_less_mult zero_less_numeral)

text \<open>C32: a cron expression runs at its first match.  The instant returned is a whole minute
  strictly after the given one that the expression matches, and no earlier minute after
  the given instant matches; the expression is called unsatisfiable only when no minute
  of the following 1830 days matches.  The jumps over months, days and hours miss nothing.\<close>

theorem next_run_is_first:
  "case next_after_ms e after_ms of
     Inr r \<Rightarrow> after_ms < r \<and> r \<le> after_ms + SEARCH_LIMIT_DAYS * 86400000 \<and> r mod 60000 = 0 \<and> fires e (r div 60000) \<and>
       (\<forall>v. after_ms < v * 60000 \<and> v * 60000 < r \<longrightarrow> \<not> fires e v)
   | Inl err \<Rightarrow> err = Unsatisfiable \<and>
       (\<forall>v. after_ms < v * 60000 \<and> v * 60000 \<le> after_ms + SEARCH_LIMIT_DAYS * 86400000 \<longrightarrow> \<not> fires e v)"
proof -
  let ?start = "after_ms div 60000 + 1" and ?limit = "after_ms div 60000 + 1 + SEARCH_LIMIT_DAYS * 24 * 60"
  have upper: "v < ?limit \<longleftrightarrow> v * 60000 \<le> after_ms + SEARCH_LIMIT_DAYS * 86400000" for v
  proof -
    have "v < ?limit \<longleftrightarrow> v \<le> after_ms div 60000 + SEARCH_LIMIT_DAYS * 1440"
      by (simp add: mult.commute less_Suc_eq_le)
    also have "after_ms div 60000 + SEARCH_LIMIT_DAYS * 1440 = (after_ms + SEARCH_LIMIT_DAYS * 86400000) div 60000"
      by (simp add: SEARCH_LIMIT_DAYS_def)
    also have "v \<le> (after_ms + SEARCH_LIMIT_DAYS * 86400000) div 60000 \<longleftrightarrow> v * 60000 \<le> after_ms + SEARCH_LIMIT_DAYS * 86400000"
      by (simp add: less_eq_div_iff_mult_less_eq)
    finally show ?thesis .
  qed
  note spec = search_spec [where e = e and limit = ?limit and t = ?start]
  show ?thesis
  proof (cases "search e ?limit ?start")
    case None
    from spec [unfolded None option.case] have "\<forall>v. ?start \<le> v \<and> v < ?limit \<longrightarrow> \<not> fires e v" .
    then have "\<forall>v. after_ms < v * 60000 \<and> v * 60000 \<le> after_ms + SEARCH_LIMIT_DAYS * 86400000 \<longrightarrow> \<not> fires e v"
      unfolding minute_after upper .
    moreover have "next_after_ms e after_ms = Inl Unsatisfiable" using None by (simp only: next_after_ms_def Let_def option.case)
    ultimately show ?thesis by simp
  next
    case (Some u)
    from spec [unfolded Some option.case]
    have "?start \<le> u \<and> u < ?limit \<and> fires e u \<and> (\<forall>v. ?start \<le> v \<and> v < u \<longrightarrow> \<not> fires e v)" .
    then have "after_ms < u * 60000 \<and> u * 60000 \<le> after_ms + SEARCH_LIMIT_DAYS * 86400000 \<and> fires e u \<and>
        (\<forall>v. after_ms < v * 60000 \<and> v < u \<longrightarrow> \<not> fires e v)"
      unfolding minute_after upper .
    moreover have "next_after_ms e after_ms = Inr (u * 60000)" using Some by (simp only: next_after_ms_def Let_def option.case)
    ultimately show ?thesis by simp
  qed
qed

text \<open>Half past three on the second of January.\<close>

definition sample_expr :: cron_expr where
  "sample_expr = \<lparr>minutes = [30], hours = [3], days_of_month = [2], months = [1], days_of_week = [0],
     dom_restricted = True, dow_restricted = False\<rparr>"

theorem next_run_is_first_witness:
  "next_after_ms sample_expr 86399999 = Inr 99000000 \<and> fires sample_expr (99000000 div 60000)"
proof -
  have c: "civil_from_days 1 = (1970, 1, 2)" by code_simp
  have d: "civil_from_minutes t = (\<lparr>year = 1970, month = 1, day = 2, day_of_week = weekday 1\<rparr>, \<lparr>hour = t mod 1440 div 60, min_of = t mod 60\<rparr>)"
    if "t div 1440 = 1" for t
    using that by (simp add: civil_from_minutes_def c Let_def mod_mod_cancel)
  have s: "search sample_expr (1440 + SEARCH_LIMIT_DAYS * 24 * 60) 1440 = Some 1650"
    by (subst search.simps, simp add: d SEARCH_LIMIT_DAYS_def sample_expr_def matches_day_def)+
  then have "next_after_ms sample_expr 86399999 = Inr 99000000" by (simp add: next_after_ms_def)
  with next_run_is_first [where e = sample_expr and after_ms = 86399999] show ?thesis by simp
qed

text \<open>The twenty-ninth of February is the last day of a March year of 366 days.\<close>

lemma leap_days_of_century:
  "list_all (\<lambda>k. \<not> (35064 \<le> year_start k + 365 \<and> year_start k + 365 \<le> 35064 + 1830 \<and> year_start k + 365 < year_end k)) [0..399]"
  by code_simp

lemma no_leap_day:
  assumes "46081 \<le> z" "z \<le> 46081 + 1830"
  shows "\<not> (fst (snd (civil_from_days z)) = 2 \<and> snd (snd (civil_from_days z)) = 29)"
proof
  assume feb: "fst (snd (civil_from_days z)) = 2 \<and> snd (snd (civil_from_days z)) = 29"
  obtain era k doe where z: "z = era * 146097 + doe - 719468" and k: "0 \<le> k" "k \<le> 399" "year_start k \<le> doe" "doe < year_end k"
    by (rule day_decomposition)
  have "0 \<le> doe" "doe < 146097" using k year_bound [OF k(1,2)] by linarith+
  then have "era = 5" using z assms by linarith
  then have doe: "35064 \<le> doe" "doe \<le> 35064 + 1830" using z assms by linarith+
  have "0 \<le> doe - year_start k" "doe - year_start k \<le> 365" using k year_bound [OF k(1,2)] by linarith+
  note mb = month_bound [OF this]
  have "mon_of (doe - year_start k) = 11" "doe - year_start k - mon_start (mon_of (doe - year_start k)) + 1 = 29"
    using feb mb(1-3) unfolding z civil_eq [OF k refl] by (auto split: if_splits)
  then have "doe = year_start k + 365" by (simp add: mon_start_def)
  moreover have "k \<in> set [0..399]" using k by simp
  ultimately show False using leap_days_of_century doe k(4) unfolding list_all_iff by blast
qed

definition leap_day_expr :: cron_expr where
  "leap_day_expr = \<lparr>minutes = [0], hours = [0], days_of_month = [29], months = [2],
     days_of_week = [0, 1, 2, 3, 4, 5, 6], dom_restricted = True, dow_restricted = False\<rparr>"

lemma leap_day_parse: "cron_parse ''0 0 29 2 *'' = Inr leap_day_expr"
  unfolding leap_day_expr_def by code_simp

lemma leap_day_fires:
  "fires leap_day_expr v \<longleftrightarrow> fst (snd (civil_from_days (int (v div 1440)))) = 2 \<and>
     snd (snd (civil_from_days (int (v div 1440)))) = 29 \<and> v mod 1440 = 0"
proof -
  have "v mod 1440 div 60 = 0 \<and> v mod 1440 mod 60 = 0 \<longleftrightarrow> v mod 1440 = 0" by (metis div_mult_mod_eq add_0 mult_0 div_0 mod_0)
  then show ?thesis
    by (auto simp: leap_day_expr_def fires_def civil_from_minutes_def matches_day_def Let_def split: prod.splits)
qed

lemma leap_day_last: "next_after_ms leap_day_expr (46080 * 86400000) = Inl Unsatisfiable"
proof -
  let ?start = "46080 * 86400000 div 60000 + 1 :: nat"
  let ?limit = "46080 * 86400000 div 60000 + 1 + SEARCH_LIMIT_DAYS * 24 * 60"
  have none: "\<not> fires leap_day_expr v" if "?start \<le> v" "v < ?limit" for v
  proof
    assume "fires leap_day_expr v"
    then have f: "fst (snd (civil_from_days (int (v div 1440)))) = 2 \<and> snd (snd (civil_from_days (int (v div 1440)))) = 29" "v mod 1440 = 0"
      by (simp_all add: leap_day_fires)
    have "46080 * 1440 < v" "v < 46080 * 1440 + 1 + 1830 * 1440" using that by (simp_all add: SEARCH_LIMIT_DAYS_def)
    moreover from f(2) have "v = v div 1440 * 1440" by (metis add_0_right div_mult_mod_eq)
    ultimately have "46081 \<le> v div 1440" "v div 1440 \<le> 46081 + 1830" by linarith+
    with no_leap_day [of "int (v div 1440)"] f(1) show False by linarith
  qed
  show ?thesis
  proof (cases "search leap_day_expr ?limit ?start")
    case None
    then show ?thesis by (simp only: next_after_ms_def Let_def option.case)
  next
    case (Some u)
    from search_spec [where e = leap_day_expr and limit = ?limit and t = ?start, unfolded Some option.case] none [of u]
    show ?thesis by blast
  qed
qed

text \<open>Five years are not enough for the leap day.  The limit of the search is said to
  cover every leap-year cycle a calendar expression can depend on; but 2100 is no leap
  year, so after its run of 29 February 2096 the expression \<^verbatim>\<open>0 0 29 2 *\<close> is called
  unsatisfiable, although it runs on 29 February 2104.\<close>

theorem leap_day_called_unsatisfiable:
  "cron_parse ''0 0 29 2 *'' = Inr leap_day_expr \<and>
   civil_from_days 46080 = (2096, 2, 29) \<and> fires leap_day_expr (46080 * 1440) \<and>
   next_after_ms leap_day_expr (46080 * 86400000) = Inl Unsatisfiable \<and>
   civil_from_days 49001 = (2104, 2, 29) \<and> fires leap_day_expr (49001 * 1440)"
proof -
  have c: "civil_from_days 46080 = (2096, 2, 29)" "civil_from_days 49001 = (2104, 2, 29)" by code_simp+
  then have "fires leap_day_expr (46080 * 1440)" "fires leap_day_expr (49001 * 1440)" by (simp_all add: leap_day_fires)
  then show ?thesis using c leap_day_parse leap_day_last by blast
qed

section \<open>Fields\<close>

text \<open>The bound of the stepping loop is enough for every step, also when the addition wraps:
  a small step climbs, and one close to \<open>2 ^ 32\<close> goes down by the rest.\<close>

definition value_rank :: "32 word \<Rightarrow> 32 word \<Rightarrow> nat list \<times> 32 word \<Rightarrow> nat" where
  "value_rank hi stp st =
     (if hi < snd st then 0
      else if unat stp < 2 ^ 31 then unat hi + 1 - unat (snd st) else unat (snd st) + 1)"

lemma value_step_progress:
  assumes "unat hi < 60" "stp \<noteq> 0" "value_step hi stp st = Some st'"
  shows "value_rank hi stp st' < value_rank hi stp st"
proof -
  obtain out v where st: "st = (out, v)" by (cases st)
  have v: "unat v \<le> unat hi" and st': "st' = (out @ [unat v], v + stp)"
    using assms(3) by (auto simp: value_step_def st word_le_nat_alt split: if_splits)
  have pos: "0 < unat stp" using assms(2) by (simp add: unat_gt_0)
  have b: "unat stp < 2 ^ 32" using unsigned_less [of stp] by simp
  have s: "unat (v + stp) = (unat v + unat stp) mod 2 ^ 32" by (simp add: unat_word_ariths)
  show ?thesis
  proof (cases "unat stp < 2 ^ 31")
    case True
    then have "unat (v + stp) = unat v + unat stp" using s v assms(1) by simp
    then show ?thesis using True pos v by (auto simp: value_rank_def st st' word_less_nat_alt)
  next
    case False
    show ?thesis
    proof (cases "unat v + unat stp < 2 ^ 32")
      case True
      then have "unat (v + stp) = unat v + unat stp" using s by simp
      then show ?thesis using False v assms(1) by (simp add: value_rank_def st st' word_less_nat_alt)
    next
      case wrap: False
      then have "unat (v + stp) = unat v + unat stp - 2 ^ 32"
        using s v assms(1) b by (simp add: mod_if)
      then have "unat (v + stp) < unat v" using b v wrap by linarith
      then show ?thesis using False v by (simp add: value_rank_def st st' word_less_nat_alt)
    qed
  qed
qed

lemma field_values_done:
  assumes "hi < 60" "0 < stp" "stp < 2 ^ 32" "lo \<le> hi"
  shows "value_step (of_nat hi) (of_nat stp) (loop (Suc (Suc hi)) (value_step (of_nat hi) (of_nat stp)) ([], of_nat lo)) = None"
proof -
  have u: "unat (of_nat hi :: 32 word) = hi" "unat (of_nat lo :: 32 word) = lo" "unat (of_nat stp :: 32 word) = stp"
    using assms by (simp_all add: unat_of_nat)
  then have "(of_nat stp :: 32 word) \<noteq> 0" using assms(2) by (metis unat_0 less_irrefl)
  then have p: "progress (value_step (of_nat hi) (of_nat stp)) (value_rank (of_nat hi) (of_nat stp))"
    using assms(1) u by (intro progress.intro value_step_progress) simp_all
  have "value_rank (of_nat hi) (of_nat stp) ([], of_nat lo) < Suc (Suc hi)"
    using u assms(4) by (auto simp: value_rank_def)
  with progress.loop_done [OF p] show ?thesis by blast
qed

text \<open>A step that does not fit wraps around.  The step of a field is only checked to be a
  non-zero 32-bit number, and the loop adds it without a check: \<^verbatim>\<open>5/4294967295\<close> in the
  minute field runs in the minutes 0 to 5 (and panics where overflow is checked) instead
  of minute 5 only, while any step up to 4294967290 gives minute 5.\<close>

theorem large_step_wraps:
  "parse_field ''5/4294967295'' 0 59 ''minute'' = Inr [0, 1, 2, 3, 4, 5] \<and>
   parse_field ''5/4294967290'' 0 59 ''minute'' = Inr [5]"
proof -
  have p: "parse_uint 32 ''4294967295'' = Some 4294967295" "parse_uint 32 ''4294967290'' = Some 4294967290"
    "parse_uint 32 ''5'' = Some 5"
    by (simp_all add: parse_uint_def is_ascii_digit_def code_of_def)
  have s: "split_on (CHR '','') ''5/4294967295'' = [''5/4294967295'']" "split_on (CHR '','') ''5/4294967290'' = [''5/4294967290'']"
    "split_once ''5/4294967295'' (CHR ''/'') = Some (''5'', ''4294967295'')"
    "split_once ''5/4294967290'' (CHR ''/'') = Some (''5'', ''4294967290'')" "split_once ''5'' (CHR ''-'') = None"
    "trim ''5/4294967295'' = ''5/4294967295''" "trim ''5/4294967290'' = ''5/4294967290''"
    by code_simp+
  have seven: "(7::nat) = Suc (Suc (Suc (Suc (Suc (Suc (Suc 0))))))" by simp
  have "field_values 5 5 4294967295 = [5, 4, 3, 2, 1, 0]" "field_values 5 5 4294967290 = [5]"
    by (simp_all add: field_values_def value_step_def seven)
  then show ?thesis
    by (simp add: parse_field_def field_part_def field_step_def field_range_def p s sort_dedup_def)
qed

end
