(* ===== verification/Schedule.thy ===== *)
theory Schedule
  imports Cron "HOL-Library.Sublist"
begin

text \<open>
  \<^verbatim>\<open>crates/pacode-types/src/schedule.rs\<close>, the scheduler of
  \<^verbatim>\<open>crates/pacode-core/src/schedule/mod.rs\<close> and the monitor table of \<^verbatim>\<open>schedule/monitor.rs\<close>.

  Times are \<^verbatim>\<open>u64\<close> milliseconds, modelled by \<^typ>\<open>nat\<close> with the saturation of the sources
  written out.  The vectors and the cancellation table behind the scheduler's mutexes are
  the record \<open>scheduler\<close>; the operations are functions on it, and \<open>sched_step\<close> interleaves
  them.  Generated ids and the clock are arguments; the outcome of a condition check, of
  the store and of submitting a message are arguments too.
\<close>

section \<open>Limits\<close>

datatype limit_unit = Chars | Bytes | Items | Seconds

record limit_error =
  le_field :: string
  le_actual :: nat
  le_limit :: nat
  le_unit :: limit_unit

definition check_chars :: "string \<Rightarrow> string \<Rightarrow> nat \<Rightarrow> limit_error option" where
  "check_chars field val mx =
     (let actual = char_count val
      in if mx < actual then Some \<lparr>le_field = field, le_actual = actual, le_limit = mx, le_unit = Chars\<rparr> else None)"

definition check_bytes :: "string \<Rightarrow> string \<Rightarrow> nat \<Rightarrow> limit_error option" where
  "check_bytes field val mx =
     (let actual = length val
      in if mx < actual then Some \<lparr>le_field = field, le_actual = actual, le_limit = mx, le_unit = Bytes\<rparr> else None)"

definition ID_MAX_CHARS :: nat where "ID_MAX_CHARS = 128"
definition NAME_MAX_CHARS :: nat where "NAME_MAX_CHARS = 120"
definition TEXT_MAX_CHARS :: nat where "TEXT_MAX_CHARS = 4000"
definition MAX_CRON_JOBS :: nat where "MAX_CRON_JOBS = 64"
definition MAX_MONITORS :: nat where "MAX_MONITORS = 32"
definition MIN_MONITOR_POLL_SECS :: nat where "MIN_MONITOR_POLL_SECS = 1"
definition DEFAULT_MONITOR_POLL_SECS :: nat where "DEFAULT_MONITOR_POLL_SECS = 5"
definition MAX_MONITOR_POLL_SECS :: nat where "MAX_MONITOR_POLL_SECS = 86400"
definition MAX_TIMESTAMP_MS :: nat where "MAX_TIMESTAMP_MS = 253402300799999"
definition CRON_EXPR_MAX_CHARS :: nat where "CRON_EXPR_MAX_CHARS = 200"
definition CRON_STATUS_MAX_CHARS :: nat where "CRON_STATUS_MAX_CHARS = 200"
definition MONITOR_LABEL_MAX_CHARS :: nat where "MONITOR_LABEL_MAX_CHARS = 120"
definition MONITOR_COMMAND_MAX_CHARS :: nat where "MONITOR_COMMAND_MAX_CHARS = 4000"
definition MONITOR_PATTERN_MAX_CHARS :: nat where "MONITOR_PATTERN_MAX_CHARS = 1000"
definition MONITOR_PATH_MAX_CHARS :: nat where "MONITOR_PATH_MAX_CHARS = 4000"

text \<open>\<^verbatim>\<open>a?; b\<close>: the first error.\<close>

fun or_else :: "'e option \<Rightarrow> 'e option \<Rightarrow> 'e option" where
  "or_else (Some e) r = Some e"
| "or_else None r = r"

section \<open>Schedules\<close>

definition ms_from_secs :: "nat \<Rightarrow> nat" where
  "ms_from_secs secs = sat_mul secs 1000"

datatype cron_schedule = Every nat | CronAt string

definition every :: "nat \<Rightarrow> cron_schedule" where
  "every secs = Every (max secs 1)"

datatype interval_unit = SecondsU | MinutesU | HoursU | DaysU

definition unit_parse :: "char \<Rightarrow> interval_unit option" where
  "unit_parse c =
     (if c = CHR ''s'' then Some SecondsU else if c = CHR ''m'' then Some MinutesU
      else if c = CHR ''h'' then Some HoursU else if c = CHR ''d'' then Some DaysU else None)"

fun unit_seconds :: "interval_unit \<Rightarrow> nat" where
  "unit_seconds SecondsU = 1"
| "unit_seconds MinutesU = 60"
| "unit_seconds HoursU = 3600"
| "unit_seconds DaysU = 86400"

definition parse_interval :: "string \<Rightarrow> nat option" where
  "parse_interval raw =
     (let txt = trim raw
      in if txt = [] then None
         else
           (let (digits, unit) = (case unit_parse (last txt) of
                  Some u \<Rightarrow> (trim (butlast txt), u) | None \<Rightarrow> (txt, SecondsU))
            in case parse_uint 64 digits of None \<Rightarrow> None
               | Some v \<Rightarrow> Some (max (sat_mul v (unit_seconds unit)) 1)))"

definition format_interval :: "nat \<Rightarrow> string" where
  "format_interval secs =
     (if 86400 \<le> secs \<and> secs mod 86400 = 0 then show_nat (secs div 86400) @ ''d''
      else if 3600 \<le> secs \<and> secs mod 3600 = 0 then show_nat (secs div 3600) @ ''h''
      else if 60 \<le> secs \<and> secs mod 60 = 0 then show_nat (secs div 60) @ ''m''
      else show_nat secs @ ''s'')"

definition schedule_parse :: "string \<Rightarrow> cron_schedule option" where
  "schedule_parse raw =
     (let txt = trim raw
      in if txt = [] \<or> CRON_EXPR_MAX_CHARS < char_count txt then None
         else
           (let lower = to_ascii_lowercase txt;
                stripped = (case strip_prefix lower ''@every'' of Some b \<Rightarrow> Some b | None \<Rightarrow> strip_prefix lower ''every'');
                body = map_option (trim_start_matches is_whitespace) stripped
            in case body of
                 Some (c # b) \<Rightarrow> map_option every (parse_interval (c # b))
               | _ \<Rightarrow> if 5 \<le> length (split_whitespace txt) then Some (CronAt txt) else None))"

fun interval_secs :: "cron_schedule \<Rightarrow> nat option" where
  "interval_secs (Every secs) = Some secs"
| "interval_secs (CronAt e) = None"

fun next_run_ms :: "cron_schedule \<Rightarrow> nat \<Rightarrow> cron_error + nat" where
  "next_run_ms (Every secs) after_ms =
     Inr (sat_add (min after_ms MAX_TIMESTAMP_MS) (ms_from_secs (max secs 1)))"
| "next_run_ms (CronAt expr) after_ms =
     (case cron_parse expr of Inl e \<Rightarrow> Inl e
      | Inr ce \<Rightarrow> next_after_ms ce (min after_ms MAX_TIMESTAMP_MS))"

fun schedule_validate :: "cron_schedule \<Rightarrow> cron_error option" where
  "schedule_validate (Every secs) = None"
| "schedule_validate (CronAt expr) = (case cron_parse expr of Inl e \<Rightarrow> Some e | Inr _ \<Rightarrow> None)"

fun schedule_check_size :: "cron_schedule \<Rightarrow> limit_error option" where
  "schedule_check_size (Every secs) = None"
| "schedule_check_size (CronAt expr) = check_chars ''cron expression'' expr CRON_EXPR_MAX_CHARS"

fun schedule_display :: "cron_schedule \<Rightarrow> string" where
  "schedule_display (Every secs) = ''every '' @ format_interval secs"
| "schedule_display (CronAt expr) = expr"

section \<open>Jobs and monitors\<close>

type_synonym job_id = string
type_synonym monitor_id = string

record cron_job =
  j_id :: job_id
  j_name :: string
  j_schedule :: cron_schedule
  j_prompt :: string
  j_enabled :: bool
  j_created :: nat
  j_last_run :: "nat option"
  j_next_run :: "nat option"
  j_status :: "string option"

text \<open>\<^verbatim>\<open>reschedule\<close> leaves the job as it is when it fails.\<close>

definition reschedule :: "nat \<Rightarrow> cron_job \<Rightarrow> cron_error + cron_job" where
  "reschedule now job =
     (if \<not> j_enabled job then Inr (job\<lparr>j_next_run := None\<rparr>)
      else
        (let from = max (case j_last_run job of Some t \<Rightarrow> t | None \<Rightarrow> now) (now - 1)
         in case next_run_ms (j_schedule job) from of Inl e \<Rightarrow> Inl e
            | Inr t \<Rightarrow> Inr (job\<lparr>j_next_run := Some t\<rparr>)))"

definition due_in_ms :: "nat \<Rightarrow> cron_job \<Rightarrow> nat option" where
  "due_in_ms now job = (if \<not> j_enabled job then None else map_option (\<lambda>t. t - now) (j_next_run job))"

definition job_validate :: "cron_job \<Rightarrow> limit_error option" where
  "job_validate job =
     or_else (check_chars ''cron id'' (j_id job) ID_MAX_CHARS)
       (or_else (check_chars ''cron name'' (j_name job) NAME_MAX_CHARS)
         (or_else (check_bytes ''cron prompt'' (j_prompt job) TEXT_MAX_CHARS)
           (or_else (check_chars ''cron last status'' (case j_status job of Some s \<Rightarrow> s | None \<Rightarrow> []) CRON_STATUS_MAX_CHARS)
             (schedule_check_size (j_schedule job)))))"

datatype monitor_condition =
    CommandSucceeds string | ProcessGone string | FileExists string | FileMatches string string

definition from_parts :: "string \<Rightarrow> string option \<Rightarrow> string option \<Rightarrow> string option \<Rightarrow> monitor_condition option" where
  "from_parts kind command pattern path =
     (if kind = ''command_succeeds'' then map_option (\<lambda>c. CommandSucceeds (trim c)) command
      else if kind = ''process_gone'' then map_option (\<lambda>p. ProcessGone (trim p)) pattern
      else if kind = ''file_exists'' then map_option (\<lambda>p. FileExists (trim p)) path
      else if kind = ''file_matches'' then
        (case path of None \<Rightarrow> None | Some p \<Rightarrow> map_option (\<lambda>q. FileMatches (trim p) (trim q)) pattern)
      else None)"

fun condition_kind :: "monitor_condition \<Rightarrow> string" where
  "condition_kind (CommandSucceeds _) = ''command_succeeds''"
| "condition_kind (ProcessGone _) = ''process_gone''"
| "condition_kind (FileExists _) = ''file_exists''"
| "condition_kind (FileMatches _ _) = ''file_matches''"

fun condition_describe :: "monitor_condition \<Rightarrow> string" where
  "condition_describe (CommandSucceeds c) = ''`'' @ c @ ''` exits 0''"
| "condition_describe (ProcessGone p) = ''no process matches '' @ p"
| "condition_describe (FileExists p) = p @ '' exists''"
| "condition_describe (FileMatches p q) = p @ '' matches '' @ q"

fun needs_exec :: "monitor_condition \<Rightarrow> bool" where
  "needs_exec (CommandSucceeds _) = True"
| "needs_exec (ProcessGone _) = True"
| "needs_exec (FileExists _) = False"
| "needs_exec (FileMatches _ _) = False"

fun condition_check_size :: "monitor_condition \<Rightarrow> limit_error option" where
  "condition_check_size (CommandSucceeds c) = check_chars ''monitor command'' c MONITOR_COMMAND_MAX_CHARS"
| "condition_check_size (ProcessGone p) = check_chars ''monitor pattern'' p MONITOR_PATTERN_MAX_CHARS"
| "condition_check_size (FileExists p) = check_chars ''monitor path'' p MONITOR_PATH_MAX_CHARS"
| "condition_check_size (FileMatches p q) =
     or_else (check_chars ''monitor path'' p MONITOR_PATH_MAX_CHARS)
       (check_chars ''monitor pattern'' q MONITOR_PATTERN_MAX_CHARS)"

datatype monitor_status = Watching | Fired | Stopped | Failed

definition is_live :: "monitor_status \<Rightarrow> bool" where
  "is_live s \<longleftrightarrow> s = Watching"

definition is_terminal :: "monitor_status \<Rightarrow> bool" where
  "is_terminal s \<longleftrightarrow> \<not> is_live s"

record monitor =
  m_id :: monitor_id
  m_label :: string
  m_condition :: monitor_condition
  m_poll :: nat
  m_started :: nat
  m_status :: monitor_status
  m_last_check :: "nat option"
  m_fired_at :: "nat option"

definition next_check_at_ms :: "monitor \<Rightarrow> nat option" where
  "next_check_at_ms m =
     (if \<not> is_live (m_status m) then None
      else (case m_last_check m of None \<Rightarrow> Some (m_started m)
        | Some t \<Rightarrow> Some (sat_add t (ms_from_secs (m_poll m)))))"

definition next_check_in_ms :: "nat \<Rightarrow> monitor \<Rightarrow> nat option" where
  "next_check_in_ms now m = map_option (\<lambda>t. t - now) (next_check_at_ms m)"

definition normalize_poll_interval :: "nat option \<Rightarrow> nat" where
  "normalize_poll_interval requested =
     (let secs = (case requested of Some s \<Rightarrow> if 0 < s then s else DEFAULT_MONITOR_POLL_SECS
                  | None \<Rightarrow> DEFAULT_MONITOR_POLL_SECS)
      in min (max secs MIN_MONITOR_POLL_SECS) MAX_MONITOR_POLL_SECS)"

definition monitor_validate :: "monitor \<Rightarrow> limit_error option" where
  "monitor_validate m =
     or_else (check_chars ''monitor id'' (m_id m) ID_MAX_CHARS)
       (or_else (check_chars ''monitor label'' (m_label m) MONITOR_LABEL_MAX_CHARS)
         (if is_live (m_status m) \<and> MAX_MONITOR_POLL_SECS < m_poll m then
            Some \<lparr>le_field = ''monitor poll interval'', le_actual = m_poll m, le_limit = MAX_MONITOR_POLL_SECS,
                  le_unit = Seconds\<rparr>
          else condition_check_size (m_condition m)))"

section \<open>The scheduler\<close>

datatype schedule_error =
    TooManyJobs | TooManyMonitors | UnknownJob job_id | UnknownMonitor monitor_id | BadSchedule cron_error

definition MIN_POLL_SECS :: nat where "MIN_POLL_SECS = 1"
definition TERMINAL_MONITOR_RETENTION :: nat where "TERMINAL_MONITOR_RETENTION = MAX_MONITORS"

record scheduler =
  sc_jobs :: "cron_job list"
  sc_monitors :: "monitor list"
  sc_cancels :: "monitor_id set"

definition new_scheduler :: scheduler where
  "new_scheduler = \<lparr>sc_jobs = [], sc_monitors = [], sc_cancels = {}\<rparr>"

definition disabled_by :: "cron_error \<Rightarrow> cron_job \<Rightarrow> cron_job" where
  "disabled_by e job = job\<lparr>j_enabled := False, j_status := Some (''disabled: '' @ cron_error_text e)\<rparr>"

definition load_jobs :: "cron_job list \<Rightarrow> nat \<Rightarrow> scheduler \<Rightarrow> scheduler" where
  "load_jobs js now s =
     s\<lparr>sc_jobs := map (\<lambda>job. case reschedule now job of Inr j \<Rightarrow> j | Inl e \<Rightarrow> disabled_by e job) (take MAX_CRON_JOBS js)\<rparr>"

definition add_job ::
  "job_id \<Rightarrow> string \<Rightarrow> cron_schedule \<Rightarrow> string \<Rightarrow> nat \<Rightarrow> scheduler \<Rightarrow> schedule_error + (scheduler \<times> cron_job)" where
  "add_job i name sched prompt now s =
     (case schedule_validate sched of Some e \<Rightarrow> Inl (BadSchedule e)
      | None \<Rightarrow>
          if MAX_CRON_JOBS \<le> length (sc_jobs s) then Inl TooManyJobs
          else
            (case reschedule now \<lparr>j_id = i, j_name = name, j_schedule = sched, j_prompt = prompt, j_enabled = True,
                    j_created = now, j_last_run = None, j_next_run = None, j_status = None\<rparr> of
               Inl e \<Rightarrow> Inl (BadSchedule e)
             | Inr job \<Rightarrow> Inr (s\<lparr>sc_jobs := sc_jobs s @ [job]\<rparr>, job)))"

definition remove_job :: "job_id \<Rightarrow> scheduler \<Rightarrow> schedule_error + scheduler" where
  "remove_job i s =
     (let kept = filter (\<lambda>j. j_id j \<noteq> i) (sc_jobs s)
      in if length kept = length (sc_jobs s) then Inl (UnknownJob i) else Inr (s\<lparr>sc_jobs := kept\<rparr>))"

text \<open>\<^verbatim>\<open>iter_mut().find(..)\<close>: the index of the first entry, which is then updated in place.\<close>

definition job_index :: "job_id \<Rightarrow> scheduler \<Rightarrow> nat option" where
  "job_index i s = find_index (\<lambda>j. j_id j = i) (sc_jobs s)"

definition put_job :: "nat \<Rightarrow> cron_job \<Rightarrow> scheduler \<Rightarrow> scheduler" where
  "put_job k job s = s\<lparr>sc_jobs := (sc_jobs s)[k := job]\<rparr>"

text \<open>\<^verbatim>\<open>set_enabled\<close>: the flag is already set when \<^verbatim>\<open>reschedule\<close> fails.\<close>

definition set_enabled :: "job_id \<Rightarrow> bool \<Rightarrow> nat \<Rightarrow> scheduler \<Rightarrow> scheduler \<times> (schedule_error + cron_job)" where
  "set_enabled i on now s =
     (case job_index i s of None \<Rightarrow> (s, Inl (UnknownJob i))
      | Some k \<Rightarrow>
          (let job = (sc_jobs s ! k)\<lparr>j_enabled := on\<rparr>
           in case reschedule now job of Inl e \<Rightarrow> (put_job k job s, Inl (BadSchedule e))
              | Inr job' \<Rightarrow> (put_job k job' s, Inr job')))"

definition run_now :: "job_id \<Rightarrow> nat \<Rightarrow> scheduler \<Rightarrow> scheduler \<times> (schedule_error + cron_job)" where
  "run_now i now s =
     (case job_index i s of None \<Rightarrow> (s, Inl (UnknownJob i))
      | Some k \<Rightarrow> (let job = (sc_jobs s ! k)\<lparr>j_next_run := Some now\<rparr> in (put_job k job s, Inr job)))"

text \<open>\<^verbatim>\<open>retain_terminal\<close>: the oldest terminal monitors go, one per excess, except the protected
  one.\<close>

fun drop_terminal :: "nat \<Rightarrow> monitor_id option \<Rightarrow> monitor list \<Rightarrow> monitor list" where
  "drop_terminal excess keep [] = []"
| "drop_terminal excess keep (m # ms) =
     (if 0 < excess \<and> is_terminal (m_status m) \<and> keep \<noteq> Some (m_id m) then drop_terminal (excess - 1) keep ms
      else m # drop_terminal excess keep ms)"

definition retain_terminal :: "monitor_id option \<Rightarrow> monitor list \<Rightarrow> monitor list" where
  "retain_terminal keep ms =
     (let excess = length (filter (\<lambda>m. is_terminal (m_status m)) ms) - TERMINAL_MONITOR_RETENTION
      in if excess = 0 then ms else drop_terminal excess keep ms)"

definition add_monitor ::
  "monitor_id \<Rightarrow> string \<Rightarrow> monitor_condition \<Rightarrow> nat option \<Rightarrow> nat \<Rightarrow> scheduler \<Rightarrow> schedule_error + (scheduler \<times> monitor)" where
  "add_monitor i label cond poll now s =
     (if MAX_MONITORS \<le> length (filter (\<lambda>m. is_live (m_status m)) (sc_monitors s)) then Inl TooManyMonitors
      else
        (let info = \<lparr>m_id = i, m_label = label, m_condition = cond,
               m_poll = max (normalize_poll_interval poll) MIN_POLL_SECS, m_started = now, m_status = Watching,
               m_last_check = None, m_fired_at = None\<rparr>
         in Inr (s\<lparr>sc_cancels := insert i (sc_cancels s),
                   sc_monitors := retain_terminal None (sc_monitors s @ [info])\<rparr>, info)))"

definition monitor_index :: "monitor_id \<Rightarrow> scheduler \<Rightarrow> nat option" where
  "monitor_index i s = find_index (\<lambda>m. m_id m = i) (sc_monitors s)"

definition put_monitor :: "nat \<Rightarrow> monitor \<Rightarrow> scheduler \<Rightarrow> scheduler" where
  "put_monitor k m s = s\<lparr>sc_monitors := (sc_monitors s)[k := m]\<rparr>"

definition cancel_token :: "monitor_id \<Rightarrow> scheduler \<Rightarrow> scheduler" where
  "cancel_token i s = s\<lparr>sc_cancels := sc_cancels s - {i}\<rparr>"

text \<open>A monitor ends: under the lock of the monitors its entry is replaced and old terminal
  ones are dropped; then its token goes, under a lock of its own.\<close>

definition end_region :: "nat \<Rightarrow> monitor \<Rightarrow> scheduler \<Rightarrow> scheduler" where
  "end_region k m s = s\<lparr>sc_monitors := retain_terminal (Some (m_id m)) ((sc_monitors s)[k := m])\<rparr>"

definition end_monitor :: "nat \<Rightarrow> monitor \<Rightarrow> scheduler \<Rightarrow> scheduler" where
  "end_monitor k m s = cancel_token (m_id m) (end_region k m s)"

definition stop_monitor :: "monitor_id \<Rightarrow> scheduler \<Rightarrow> schedule_error + (scheduler \<times> monitor)" where
  "stop_monitor i s =
     (case monitor_index i s of None \<Rightarrow> Inl (UnknownMonitor i)
      | Some k \<Rightarrow> (let m = (sc_monitors s ! k)\<lparr>m_status := Stopped\<rparr> in Inr (end_monitor k m s, m)))"

definition min_opt :: "nat list \<Rightarrow> nat option" where
  "min_opt xs = (case xs of [] \<Rightarrow> None | x # r \<Rightarrow> Some (fold min r x))"

definition next_deadline_ms :: "scheduler \<Rightarrow> nat option" where
  "next_deadline_ms s =
     (let job_next = min_opt (List.map_filter j_next_run (filter j_enabled (sc_jobs s)));
          monitor_next = min_opt (List.map_filter next_check_at_ms (filter (\<lambda>m. is_live (m_status m)) (sc_monitors s)))
      in case (job_next, monitor_next) of
           (Some a, Some b) \<Rightarrow> Some (min a b) | (Some a, None) \<Rightarrow> Some a | (None, Some b) \<Rightarrow> Some b | (None, None) \<Rightarrow> None)"

text \<open>\<^verbatim>\<open>take_due_jobs\<close>, entry by entry: the job afterwards, and the job to fire.\<close>

definition take_due_job :: "nat \<Rightarrow> cron_job \<Rightarrow> cron_job \<times> cron_job option" where
  "take_due_job now job =
     (if \<not> j_enabled job then (job, None)
      else (case j_next_run job of None \<Rightarrow> (job, None)
        | Some t \<Rightarrow>
            if now < t then (job, None)
            else
              (let job = job\<lparr>j_last_run := Some now\<rparr>
               in case reschedule now job of Inl e \<Rightarrow> (disabled_by e job, None)
                  | Inr job' \<Rightarrow> (job', Some job'))))"

definition take_due_jobs :: "nat \<Rightarrow> scheduler \<Rightarrow> scheduler \<times> cron_job list" where
  "take_due_jobs now s =
     (let rs = map (take_due_job now) (sc_jobs s)
      in (s\<lparr>sc_jobs := map fst rs\<rparr>, List.map_filter snd rs))"

definition record_job_status :: "job_id \<Rightarrow> string \<Rightarrow> scheduler \<Rightarrow> scheduler \<times> cron_job option" where
  "record_job_status i status s =
     (case job_index i s of None \<Rightarrow> (s, None)
      | Some k \<Rightarrow> (let job = (sc_jobs s ! k)\<lparr>j_status := Some status\<rparr> in (put_job k job s, Some job)))"

definition due_checks :: "nat \<Rightarrow> scheduler \<Rightarrow> scheduler \<times> monitor list" where
  "due_checks now s =
     (let due = filter (\<lambda>m. is_live (m_status m) \<and>
            (case next_check_at_ms m of None \<Rightarrow> True | Some t \<Rightarrow> t \<le> now)) (sc_monitors s)
      in (s\<lparr>sc_cancels := sc_cancels s \<union> set (map m_id due)\<rparr>, due))"

definition record_check :: "monitor_id \<Rightarrow> nat \<Rightarrow> bool \<Rightarrow> scheduler \<Rightarrow> scheduler \<times> monitor option" where
  "record_check i now fired s =
     (case monitor_index i s of None \<Rightarrow> (s, None)
      | Some k \<Rightarrow>
          (let m = sc_monitors s ! k
           in if \<not> is_live (m_status m) then (s, None)
              else
                (let m = m\<lparr>m_last_check := Some now\<rparr>
                 in if fired then (let m = m\<lparr>m_status := Fired, m_fired_at := Some now\<rparr> in (end_monitor k m s, Some m))
                    else (put_monitor k m s, Some m))))"

definition record_failure :: "monitor_id \<Rightarrow> nat \<Rightarrow> scheduler \<Rightarrow> scheduler \<times> monitor option" where
  "record_failure i now s =
     (case monitor_index i s of None \<Rightarrow> (s, None)
      | Some k \<Rightarrow>
          (let m = sc_monitors s ! k
           in if \<not> is_live (m_status m) then (s, None)
              else (let m = m\<lparr>m_last_check := Some now, m_status := Failed\<rparr> in (end_monitor k m s, Some m))))"

text \<open>\<^verbatim>\<open>monitor::fire\<close>: nothing when the check was cancelled first; otherwise by its outcome, an
  error being \<^const>\<open>None\<close>.\<close>

definition fire_monitor :: "monitor \<Rightarrow> bool \<Rightarrow> bool option \<Rightarrow> nat \<Rightarrow> scheduler \<Rightarrow> scheduler \<times> monitor option" where
  "fire_monitor info cancelled outcome now s =
     (if cancelled then (s, None)
      else (case outcome of Some fired \<Rightarrow> record_check (m_id info) now fired s | None \<Rightarrow> record_failure (m_id info) now s))"

text \<open>\<^verbatim>\<open>fire_job\<close>: the errors of the store and of submitting the prompt are arguments.\<close>

definition fire_job :: "cron_job \<Rightarrow> string option \<Rightarrow> string option \<Rightarrow> scheduler \<Rightarrow> scheduler \<times> bool" where
  "fire_job job store_error submit_error s =
     (case store_error of
        Some e \<Rightarrow> (fst (record_job_status (j_id job) (''failed to admit: '' @ e) s), False)
      | None \<Rightarrow>
          (fst (record_job_status (j_id job)
              (case submit_error of None \<Rightarrow> ''sent'' | Some e \<Rightarrow> ''failed: '' @ e) s), submit_error = None))"

text \<open>\<^verbatim>\<open>fire_due\<close>: the due jobs are taken, the due checks started, and everything is driven to its
  end.  The futures finish in an order of their own: \<open>complete\<close> gives, for the taken jobs and
  checks, the completions in that order with their outcomes.\<close>

datatype due_work = DueJob cron_job "string option" "string option" | DueMonitor monitor bool "bool option" nat

fun fire_work :: "due_work \<Rightarrow> scheduler \<Rightarrow> scheduler" where
  "fire_work (DueJob job store_error submit_error) s = fst (fire_job job store_error submit_error s)"
| "fire_work (DueMonitor info cancelled outcome now) s = fst (fire_monitor info cancelled outcome now s)"

definition fire_due :: "(cron_job list \<Rightarrow> monitor list \<Rightarrow> due_work list) \<Rightarrow> nat \<Rightarrow> scheduler \<Rightarrow> scheduler" where
  "fire_due complete now s =
     (case take_due_jobs now s of (s1, jobs) \<Rightarrow>
      case due_checks now s1 of (s2, checks) \<Rightarrow> fold fire_work (complete jobs checks) s2)"

definition cron_fire_id :: "cron_job \<Rightarrow> nat \<Rightarrow> string" where
  "cron_fire_id job occurrence_ms = ''cron-'' @ j_id job @ ''-'' @ show_nat occurrence_ms"


section \<open>The tables stay bounded\<close>

text \<open>The interleaving of the operations.  The two regions of ending a monitor may be apart,
  so they are steps of their own besides the whole operations; a generated monitor id is
  fresh.\<close>

inductive sched_step :: "scheduler \<Rightarrow> scheduler \<Rightarrow> bool" where
  load: "sched_step s (load_jobs js now s)"
| add: "add_job i name sched prompt now s = Inr (s', job) \<Longrightarrow> sched_step s s'"
| remove: "remove_job i s = Inr s' \<Longrightarrow> sched_step s s'"
| enable: "sched_step s (fst (set_enabled i on now s))"
| run: "sched_step s (fst (run_now i now s))"
| take: "sched_step s (fst (take_due_jobs now s))"
| fired: "sched_step s (fst (fire_job job store_error submit_error s))"
| watch: "add_monitor i label cond poll now s = Inr (s', m) \<Longrightarrow> i \<notin> m_id ` set (sc_monitors s) \<Longrightarrow> sched_step s s'"
| stop: "stop_monitor i s = Inr (s', m) \<Longrightarrow> sched_step s s'"
| checks: "sched_step s (fst (due_checks now s))"
| checked: "sched_step s (fst (fire_monitor info cancelled outcome now s))"
| ending: "k < length (sc_monitors s) \<Longrightarrow> m = (sc_monitors s ! k)\<lparr>m_status := st, m_last_check := c, m_fired_at := f\<rparr> \<Longrightarrow>
    is_terminal st \<Longrightarrow> sched_step s (end_region k m s)"
| cancelling: "\<forall>m \<in> set (sc_monitors s). m_id m = i \<longrightarrow> is_terminal (m_status m) \<Longrightarrow> sched_step s (cancel_token i s)"

definition live_count :: "monitor list \<Rightarrow> nat" where
  "live_count ms = length (filter (\<lambda>m. is_live (m_status m)) ms)"

definition terminal_count :: "monitor list \<Rightarrow> nat" where
  "terminal_count ms = length (filter (\<lambda>m. is_terminal (m_status m)) ms)"

definition monitor_ok :: "monitor \<Rightarrow> bool" where
  "monitor_ok m \<longleftrightarrow> MIN_POLL_SECS \<le> m_poll m \<and> m_poll m \<le> MAX_MONITOR_POLL_SECS"

definition monitors_ok :: "monitor list \<Rightarrow> monitor_id set \<Rightarrow> bool" where
  "monitors_ok ms cs \<longleftrightarrow> live_count ms \<le> MAX_MONITORS \<and> terminal_count ms \<le> TERMINAL_MONITOR_RETENTION \<and>
     distinct (map m_id ms) \<and> list_all monitor_ok ms \<and>
     list_all (\<lambda>m. is_live (m_status m) \<longrightarrow> m_id m \<in> cs) ms"

definition sched_ok :: "scheduler \<Rightarrow> bool" where
  "sched_ok s \<longleftrightarrow> length (sc_jobs s) \<le> MAX_CRON_JOBS \<and> monitors_ok (sc_monitors s) (sc_cancels s)"

lemma live_terminal: "live_count ms + terminal_count ms = length ms"
  unfolding live_count_def terminal_count_def is_terminal_def by (rule sum_length_filter_compl)

lemma drop_terminal_live: "live_count (drop_terminal n keep ms) = live_count ms"
  by (induction n keep ms rule: drop_terminal.induct) (auto simp: live_count_def is_terminal_def)

lemma drop_terminal_subseq: "subseq (drop_terminal n keep ms) ms"
  by (induction n keep ms rule: drop_terminal.induct) auto

lemma drop_terminal_count:
  "n \<le> length (filter (\<lambda>m. is_terminal (m_status m) \<and> keep \<noteq> Some (m_id m)) ms) \<Longrightarrow>
   terminal_count (drop_terminal n keep ms) = terminal_count ms - n"
proof (induction n keep ms rule: drop_terminal.induct)
  case (2 n keep m ms)
  have le: "length (filter (\<lambda>m. is_terminal (m_status m) \<and> keep \<noteq> Some (m_id m)) ms) \<le> terminal_count ms"
    unfolding terminal_count_def by (induction ms) auto
  show ?case using 2 le by (auto simp: terminal_count_def)
qed (simp add: terminal_count_def)

lemma unprotected_count:
  "distinct (map m_id ms) \<Longrightarrow>
   terminal_count ms \<le> Suc (length (filter (\<lambda>m. is_terminal (m_status m) \<and> keep \<noteq> Some (m_id m)) ms))"
proof (induction ms)
  case (Cons m ms)
  show ?case
  proof (cases "keep = Some (m_id m)")
    case True
    with Cons.prems have "filter (\<lambda>m. is_terminal (m_status m) \<and> keep \<noteq> Some (m_id m)) ms = filter (\<lambda>m. is_terminal (m_status m)) ms"
      by (intro filter_cong) auto
    with True show ?thesis by (simp add: terminal_count_def)
  next
    case False
    with Cons show ?thesis by (auto simp: terminal_count_def)
  qed
qed (simp add: terminal_count_def)

lemma retain_terminal_count:
  assumes "distinct (map m_id ms)"
  shows "terminal_count (retain_terminal keep ms) \<le> TERMINAL_MONITOR_RETENTION"
proof -
  have pos: "0 < TERMINAL_MONITOR_RETENTION" by (simp add: TERMINAL_MONITOR_RETENTION_def MAX_MONITORS_def)
  let ?n = "terminal_count ms - TERMINAL_MONITOR_RETENTION"
  show ?thesis
  proof (cases "?n = 0")
    case True
    then show ?thesis by (simp add: retain_terminal_def terminal_count_def)
  next
    case False
    have "?n \<le> length (filter (\<lambda>m. is_terminal (m_status m) \<and> keep \<noteq> Some (m_id m)) ms)"
      using unprotected_count [OF assms, of keep] pos by linarith
    from drop_terminal_count [OF this] False show ?thesis
      by (simp add: retain_terminal_def terminal_count_def [symmetric])
  qed
qed

lemma retain_terminal_live: "live_count (retain_terminal keep ms) = live_count ms"
  by (simp add: retain_terminal_def drop_terminal_live Let_def)

lemma retain_terminal_subseq: "subseq (retain_terminal keep ms) ms"
  by (simp add: retain_terminal_def drop_terminal_subseq Let_def)

lemma subseq_set: "subseq xs ys \<Longrightarrow> set xs \<subseteq> set ys"
  by (induction rule: list_emb.induct) auto

lemma subseq_distinct_map: "subseq xs ys \<Longrightarrow> distinct (map f ys) \<Longrightarrow> distinct (map f xs)"
  by (induction rule: list_emb.induct) (auto dest: subseq_set)

lemma subseq_list_all: "subseq xs ys \<Longrightarrow> list_all P ys \<Longrightarrow> list_all P xs"
  by (auto simp: list_all_iff dest: subseq_set)

lemmas subseq_kept = subseq_distinct_map subseq_list_all

lemma retain_ok:
  assumes "distinct (map m_id ms)" "live_count ms \<le> MAX_MONITORS" "list_all monitor_ok ms"
    "list_all (\<lambda>m. is_live (m_status m) \<longrightarrow> m_id m \<in> cs) ms"
  shows "monitors_ok (retain_terminal keep ms) cs"
  unfolding monitors_ok_def
  using assms by (simp add: retain_terminal_count retain_terminal_live subseq_kept [OF retain_terminal_subseq])


lemma list_all_update: "list_all P xs \<Longrightarrow> P y \<Longrightarrow> list_all P (xs[k := y])"
  by (auto simp: list_all_iff dest: set_update_subset_insert [THEN subsetD])

lemma map_update_same: "f y = f (xs ! k) \<Longrightarrow> map f (xs[k := y]) = map f xs"
  by (metis list_update_id map_update)

lemma live_count_update:
  "k < length ms \<Longrightarrow> (is_live (m_status m) \<Longrightarrow> is_live (m_status (ms ! k))) \<Longrightarrow> live_count (ms[k := m]) \<le> live_count ms"
proof (induction ms arbitrary: k)
  case (Cons a ms)
  then show ?case by (cases k) (auto simp: live_count_def)
qed simp

lemma end_region_ok:
  assumes ok: "monitors_ok (sc_monitors s) cs" and k: "k < length (sc_monitors s)"
    and m: "m_id m = m_id (sc_monitors s ! k)" "m_poll m = m_poll (sc_monitors s ! k)" "is_terminal (m_status m)"
  shows "monitors_ok (sc_monitors (end_region k m s)) cs"
proof -
  let ?ms = "sc_monitors s"
  have o: "distinct (map m_id ?ms)" "live_count ?ms \<le> MAX_MONITORS" "list_all monitor_ok ?ms"
    "list_all (\<lambda>m. is_live (m_status m) \<longrightarrow> m_id m \<in> cs) ?ms"
    using ok by (simp_all add: monitors_ok_def)
  have "monitor_ok m" using o(3) k m(2) by (simp add: list_all_length monitor_ok_def)
  moreover have "\<not> is_live (m_status m)" using m(3) by (simp add: is_terminal_def)
  moreover have "live_count (?ms[k := m]) \<le> MAX_MONITORS" using live_count_update [OF k, of m] o(2) calculation by simp
  ultimately show ?thesis unfolding end_region_def
    using o by (simp add: retain_ok list_all_update map_update_same [where f = m_id, OF m(1)])
qed

lemma cancel_ok:
  "monitors_ok ms cs \<Longrightarrow> \<forall>m \<in> set ms. m_id m = i \<longrightarrow> is_terminal (m_status m) \<Longrightarrow> monitors_ok ms (cs - {i})"
  by (auto simp: monitors_ok_def list_all_iff is_terminal_def)

text \<open>The ended monitor is the only one with its id, so its token can go.\<close>

lemma end_monitor_ok:
  assumes ok: "sched_ok s" and k: "k < length (sc_monitors s)"
    and m: "m_id m = m_id (sc_monitors s ! k)" "m_poll m = m_poll (sc_monitors s ! k)" "is_terminal (m_status m)"
  shows "sched_ok (end_monitor k m s)"
proof -
  let ?ms = "sc_monitors s"
  have d: "distinct (map m_id ?ms)" using ok by (simp add: sched_ok_def monitors_ok_def)
  have only: "\<forall>x \<in> set (?ms[k := m]). m_id x = m_id m \<longrightarrow> is_terminal (m_status x)"
  proof (intro ballI impI)
    fix x assume x: "x \<in> set (?ms[k := m])" "m_id x = m_id m"
    then obtain j where j: "j < length ?ms" "?ms[k := m] ! j = x" by (auto simp: in_set_conv_nth)
    have "j = k"
    proof (rule ccontr)
      assume "j \<noteq> k"
      with j x m(1) have "map m_id ?ms ! j = map m_id ?ms ! k" by (simp add: k)
      with d j(1) k \<open>j \<noteq> k\<close> show False by (simp add: nth_eq_iff_index_eq del: nth_map)
    qed
    with j k m(3) show "is_terminal (m_status x)" by simp
  qed
  have "set (sc_monitors (end_region k m s)) \<subseteq> set (?ms[k := m])"
    unfolding end_region_def using subseq_set [OF retain_terminal_subseq] by simp
  with only have "\<forall>x \<in> set (sc_monitors (end_region k m s)). m_id x = m_id m \<longrightarrow> is_terminal (m_status x)" by blast
  moreover have "monitors_ok (sc_monitors (end_region k m s)) (sc_cancels s)"
    using ok k m by (intro end_region_ok) (simp_all add: sched_ok_def)
  moreover have "sc_jobs (end_region k m s) = sc_jobs s" "sc_cancels (end_region k m s) = sc_cancels s"
    by (simp_all add: end_region_def)
  ultimately show ?thesis using ok cancel_ok by (simp add: sched_ok_def end_monitor_def cancel_token_def)
qed

lemma put_live_ok:
  assumes ok: "sched_ok s" and k: "k < length (sc_monitors s)" and live: "is_live (m_status (sc_monitors s ! k))"
  shows "sched_ok (put_monitor k ((sc_monitors s ! k)\<lparr>m_last_check := c\<rparr>) s)"
proof -
  let ?ms = "sc_monitors s" and ?m = "(sc_monitors s ! k)\<lparr>m_last_check := c\<rparr>"
  have same: "map f (?ms[k := ?m]) = map f ?ms" if "f ?m = f (?ms ! k)" for f :: "monitor \<Rightarrow> 'b"
    using that by (rule map_update_same)
  have counts: "live_count ms = length (filter is_live (map m_status ms))" "terminal_count ms = length (filter is_terminal (map m_status ms))"
    for ms by (simp_all add: live_count_def terminal_count_def filter_map o_def)
  have "list_all monitor_ok (?ms[k := ?m])" "list_all (\<lambda>m. is_live (m_status m) \<longrightarrow> m_id m \<in> sc_cancels s) (?ms[k := ?m])"
    using ok k by (simp_all add: sched_ok_def monitors_ok_def list_all_length monitor_ok_def nth_list_update)
  then show ?thesis
    using ok by (simp add: sched_ok_def monitors_ok_def put_monitor_def counts same)
qed

lemma record_check_ok: "sched_ok s \<Longrightarrow> sched_ok (fst (record_check i now fired s))"
  unfolding record_check_def monitor_index_def
  by (auto simp: Let_def is_terminal_def is_live_def dest!: find_index_Some split: option.split intro!: end_monitor_ok put_live_ok)

lemma record_failure_ok: "sched_ok s \<Longrightarrow> sched_ok (fst (record_failure i now s))"
  unfolding record_failure_def monitor_index_def
  by (auto simp: Let_def is_terminal_def is_live_def dest!: find_index_Some split: option.split intro!: end_monitor_ok)

lemma stop_monitor_ok: "sched_ok s \<Longrightarrow> stop_monitor i s = Inr (s', m) \<Longrightarrow> sched_ok s'"
  unfolding stop_monitor_def monitor_index_def
  by (auto simp: Let_def is_terminal_def is_live_def dest!: find_index_Some split: option.splits intro!: end_monitor_ok)

lemma add_monitor_ok:
  assumes ok: "sched_ok s" and new: "add_monitor i label cond poll now s = Inr (s', m)" and fresh: "i \<notin> m_id ` set (sc_monitors s)"
  shows "sched_ok s'"
proof -
  have live: "live_count (sc_monitors s) < MAX_MONITORS" and m: "m_id m = i" "m_status m = Watching"
    and p: "m_poll m = max (normalize_poll_interval poll) MIN_POLL_SECS"
    and s': "s' = s\<lparr>sc_cancels := insert i (sc_cancels s), sc_monitors := retain_terminal None (sc_monitors s @ [m])\<rparr>"
    using new by (auto simp: add_monitor_def live_count_def Let_def split: if_splits)
  have "monitor_ok m"
    by (simp add: monitor_ok_def p normalize_poll_interval_def Let_def MIN_POLL_SECS_def MAX_MONITOR_POLL_SECS_def)
  then have "monitors_ok (retain_terminal None (sc_monitors s @ [m])) (insert i (sc_cancels s))"
    using ok live fresh m by (intro retain_ok) (auto simp: sched_ok_def monitors_ok_def live_count_def list_all_iff)
  with ok show ?thesis by (simp add: s' sched_ok_def)
qed

lemma due_checks_ok: "sched_ok s \<Longrightarrow> sched_ok (fst (due_checks now s))"
  by (auto simp: due_checks_def sched_ok_def monitors_ok_def list_all_iff Let_def)

lemmas job_operation_defs = load_jobs_def add_job_def remove_job_def set_enabled_def run_now_def take_due_jobs_def
  record_job_status_def fire_job_def put_job_def

text \<open>An operation on jobs leaves the monitors alone.\<close>

lemma jobs_only: "monitors_ok (sc_monitors s') (sc_cancels s') \<Longrightarrow> length (sc_jobs s') \<le> MAX_CRON_JOBS \<Longrightarrow> sched_ok s'"
  by (simp add: sched_ok_def)

lemma sched_step_ok:
  assumes ok: "sched_ok s" and step: "sched_step s s'"
  shows "sched_ok s'"
  using step
proof cases
  case (ending k m st c f)
  then show ?thesis
    using ok end_region_ok [of s "sc_cancels s" k m] by (simp add: sched_ok_def) (simp add: end_region_def)
next
  case (cancelling i)
  then show ?thesis using ok by (simp add: sched_ok_def cancel_token_def cancel_ok)
next
  case (remove i)
  then show ?thesis
    using ok by (auto simp: sched_ok_def remove_job_def Let_def split: if_splits intro: order_trans [OF length_filter_le])
next
  case (checked info cancelled outcome now)
  then show ?thesis using ok by (simp add: fire_monitor_def record_check_ok record_failure_ok split: option.split)
next
  case watch
  then show ?thesis using ok add_monitor_ok by blast
next
  case stop
  then show ?thesis using ok stop_monitor_ok by blast
next
  case checks
  then show ?thesis using ok due_checks_ok by simp
qed (use ok in \<open>auto simp: sched_ok_def job_operation_defs Let_def split: option.splits sum.splits if_splits\<close>)

interpretation schedules: state_machine new_scheduler sched_step sched_ok
proof
  show "sched_ok new_scheduler"
    by (simp add: sched_ok_def monitors_ok_def new_scheduler_def live_count_def terminal_count_def)
qed (rule sched_step_ok)

text \<open>The tables of the scheduler stay bounded.  Whatever order jobs and monitors are added,
  changed, fired and stopped in, a session holds at most 64 jobs, 32 live monitors and 32
  ended ones; no two monitors share an id, every poll interval lies between a second and
  a day, and every live monitor has its cancellation token.\<close>

theorem scheduler_bounded:
  assumes "sched_step\<^sup>*\<^sup>* new_scheduler s"
  shows "length (sc_jobs s) \<le> 64 \<and> length (filter (\<lambda>m. is_live (m_status m)) (sc_monitors s)) \<le> 32 \<and>
    length (filter (\<lambda>m. is_terminal (m_status m)) (sc_monitors s)) \<le> 32 \<and> distinct (map m_id (sc_monitors s)) \<and>
    list_all (\<lambda>m. 1 \<le> m_poll m \<and> m_poll m \<le> 86400) (sc_monitors s) \<and>
    m_id ` {m \<in> set (sc_monitors s). is_live (m_status m)} \<subseteq> sc_cancels s"
proof -
  have ok: "sched_ok s" using assms by (rule schedules.reachable_inv)
  then have "list_all (\<lambda>m. 1 \<le> m_poll m \<and> m_poll m \<le> 86400) (sc_monitors s)"
    by (simp add: sched_ok_def monitors_ok_def monitor_ok_def list_all_iff MIN_POLL_SECS_def MAX_MONITOR_POLL_SECS_def)
  moreover have "m_id ` {m \<in> set (sc_monitors s). is_live (m_status m)} \<subseteq> sc_cancels s"
    using ok by (auto simp: sched_ok_def monitors_ok_def list_all_iff)
  ultimately show ?thesis
    using ok by (simp add: sched_ok_def monitors_ok_def live_count_def terminal_count_def MAX_CRON_JOBS_def
        MAX_MONITORS_def TERMINAL_MONITOR_RETENTION_def)
qed

text \<open>One monitor, polled as fast as allowed.\<close>

definition sample_monitor :: monitor where
  "sample_monitor = \<lparr>m_id = ''m1'', m_label = ''build'', m_condition = FileExists ''out'', m_poll = 1, m_started = 7,
     m_status = Watching, m_last_check = None, m_fired_at = None\<rparr>"

definition sample_scheduler :: scheduler where
  "sample_scheduler = \<lparr>sc_jobs = [], sc_monitors = [sample_monitor], sc_cancels = {''m1''}\<rparr>"

lemma sample_reached: "sched_step\<^sup>*\<^sup>* new_scheduler sample_scheduler"
proof -
  have "add_monitor ''m1'' ''build'' (FileExists ''out'') (Some 1) 7 new_scheduler = Inr (sample_scheduler, sample_monitor)"
    by (simp add: add_monitor_def new_scheduler_def sample_scheduler_def sample_monitor_def normalize_poll_interval_def
        retain_terminal_def MAX_MONITORS_def MIN_POLL_SECS_def MIN_MONITOR_POLL_SECS_def MAX_MONITOR_POLL_SECS_def
        is_terminal_def is_live_def Let_def)
  then have "sched_step new_scheduler sample_scheduler" by (rule watch) (simp add: new_scheduler_def)
  then show ?thesis by (rule r_into_rtranclp)
qed

theorem scheduler_bounded_witness: "''m1'' \<in> sc_cancels sample_scheduler \<and> is_live (m_status sample_monitor) \<and>
    distinct (map m_id (sc_monitors sample_scheduler)) \<and> length (sc_jobs sample_scheduler) \<le> 64"
  using scheduler_bounded [OF sample_reached] by (auto simp: sample_scheduler_def sample_monitor_def is_live_def)

section \<open>A due job fires once\<close>

lemma next_after_later: "next_after_ms e t = Inr r \<Longrightarrow> t < r"
proof -
  assume r: "next_after_ms e t = Inr r"
  let ?start = "t div 60000 + 1" and ?limit = "t div 60000 + 1 + SEARCH_LIMIT_DAYS * 24 * 60"
  from r obtain u where u: "search e ?limit ?start = Some u" "r = u * 60000"
    by (auto simp: next_after_ms_def Let_def split: option.splits)
  from search_spec [where e = e and limit = ?limit and t = ?start, unfolded u(1) option.case]
  have "?start \<le> u" by blast
  then show ?thesis unfolding u(2) minute_after .
qed

lemma next_run_later: "next_run_ms sched t = Inr n \<Longrightarrow> t \<le> MAX_TIMESTAMP_MS \<Longrightarrow> t < n"
  by (cases sched) (auto simp: ms_from_secs_def sat_add_def sat_mul_def U64_MAX_def MAX_TIMESTAMP_MS_def
      dest: next_after_later split: sum.splits)

definition due_at :: "nat \<Rightarrow> cron_job \<Rightarrow> bool" where
  "due_at now j \<longleftrightarrow> j_enabled j \<and> (case j_next_run j of None \<Rightarrow> False | Some t \<Rightarrow> t \<le> now)"

lemma take_not_due: "\<not> due_at now j \<Longrightarrow> take_due_job now j = (j, None)"
  by (auto simp: take_due_job_def due_at_def split: option.splits)

lemma take_due:
  assumes "due_at now j"
  shows "take_due_job now j = (case next_run_ms (j_schedule j) now of
      Inl e \<Rightarrow> (disabled_by e (j\<lparr>j_last_run := Some now\<rparr>), None)
    | Inr n \<Rightarrow> (j\<lparr>j_last_run := Some now, j_next_run := Some n\<rparr>, Some (j\<lparr>j_last_run := Some now, j_next_run := Some n\<rparr>)))"
  using assms by (auto simp: take_due_job_def due_at_def reschedule_def Let_def split: option.splits sum.splits)

lemma taken_not_due: "now \<le> MAX_TIMESTAMP_MS \<Longrightarrow> \<not> due_at now (fst (take_due_job now j))"
  by (cases "due_at now j")
    (auto simp: take_not_due take_due disabled_by_def due_at_def dest: next_run_later split: sum.splits)

lemma nothing_due: "\<forall>j \<in> set (sc_jobs s). \<not> due_at now j \<Longrightarrow> snd (take_due_jobs now s) = []"
  by (simp add: take_due_jobs_def Let_def List.map_filter_def take_not_due filter_empty_conv)

lemma fired_jobs:
  "snd (take_due_jobs now s) =
     map (fst \<circ> take_due_job now) (filter (\<lambda>j. due_at now j \<and> \<not> isl (next_run_ms (j_schedule j) now)) (sc_jobs s))"
proof -
  have one: "(case snd (take_due_job now j) of Some j' \<Rightarrow> [j'] | None \<Rightarrow> []) =
      (if due_at now j \<and> \<not> isl (next_run_ms (j_schedule j) now) then [fst (take_due_job now j)] else [])" for j
    by (cases "due_at now j") (auto simp: take_not_due take_due split: sum.splits)
  have "List.map_filter snd (map (take_due_job now) js) = map (fst \<circ> take_due_job now) (filter (\<lambda>j. due_at now j \<and> \<not> isl (next_run_ms (j_schedule j) now)) js)" for js
  proof (induction js)
    case (Cons j js)
    then show ?case using one [of j] by (auto simp: List.map_filter_simps split: option.splits if_splits)
  qed (simp add: List.map_filter_simps)
  then show ?thesis by (simp add: take_due_jobs_def Let_def)
qed

text \<open>A due job fires once, and every due job fires.  A wake at \<open>now\<close> fires, in the order of
  the table, exactly the enabled jobs whose time has come and whose schedule has a further
  run; each is marked as run at \<open>now\<close> and its next run lies after \<open>now\<close>, so a second wake at
  the same instant fires nothing.\<close>

theorem due_jobs_fire_once:
  assumes "now \<le> MAX_TIMESTAMP_MS"
  shows "map j_id (snd (take_due_jobs now s)) =
      map j_id (filter (\<lambda>j. due_at now j \<and> \<not> isl (next_run_ms (j_schedule j) now)) (sc_jobs s)) \<and>
    list_all (\<lambda>j. j_last_run j = Some now \<and> (case j_next_run j of None \<Rightarrow> False | Some n \<Rightarrow> now < n)) (snd (take_due_jobs now s)) \<and>
    snd (take_due_jobs now (fst (take_due_jobs now s))) = []"
proof (intro conjI)
  have ident: "j_id (fst (take_due_job now j)) = j_id j" for j
    by (cases "due_at now j") (auto simp: take_not_due take_due disabled_by_def split: sum.splits)
  show "map j_id (snd (take_due_jobs now s)) =
      map j_id (filter (\<lambda>j. due_at now j \<and> \<not> isl (next_run_ms (j_schedule j) now)) (sc_jobs s))"
    by (simp add: fired_jobs ident)
  show "list_all (\<lambda>j. j_last_run j = Some now \<and> (case j_next_run j of None \<Rightarrow> False | Some n \<Rightarrow> now < n)) (snd (take_due_jobs now s))"
    using assms by (auto simp: fired_jobs list_all_iff take_due dest: next_run_later split: sum.splits)
  show "snd (take_due_jobs now (fst (take_due_jobs now s))) = []"
    using assms taken_not_due by (intro nothing_due) (auto simp: take_due_jobs_def Let_def)
qed

definition sample_job :: "cron_schedule \<Rightarrow> nat \<Rightarrow> cron_job" where
  "sample_job sched next = \<lparr>j_id = ''c1'', j_name = ''nightly'', j_schedule = sched, j_prompt = ''go'', j_enabled = True,
     j_created = 0, j_last_run = None, j_next_run = Some next, j_status = None\<rparr>"

theorem due_jobs_fire_once_witness:
  "map j_id (snd (take_due_jobs 70000 (new_scheduler\<lparr>sc_jobs := [sample_job (Every 60) 60000, sample_job (Every 60) 90000]\<rparr>))) = [''c1'']"
proof -
  have "filter (\<lambda>j. due_at 70000 j \<and> \<not> isl (next_run_ms (j_schedule j) 70000)) [sample_job (Every 60) 60000, sample_job (Every 60) 90000]
      = [sample_job (Every 60) 60000]"
    by (simp add: due_at_def sample_job_def)
  with due_jobs_fire_once [of 70000 "new_scheduler\<lparr>sc_jobs := [sample_job (Every 60) 60000, sample_job (Every 60) 90000]\<rparr>"]
  show ?thesis by (simp add: MAX_TIMESTAMP_MS_def) (simp add: sample_job_def)
qed

lemma take_one:
  "take_due_job now j = (j', r) \<Longrightarrow>
   take_due_jobs now (new_scheduler\<lparr>sc_jobs := [j]\<rparr>) =
     (new_scheduler\<lparr>sc_jobs := [j']\<rparr>, case r of None \<Rightarrow> [] | Some x \<Rightarrow> [x])"
  by (simp add: take_due_jobs_def List.map_filter_simps split: option.split)

text \<open>The last run of a job is lost.  When the schedule of a due job has no further run, the
  job is disabled and does not fire at all, although its time has come: the job of the
  twenty-ninth of February, due in 2096, is dropped at that instant.\<close>

theorem last_due_run_lost:
  "let now = 46080 * 86400000; job = sample_job (CronAt ''0 0 29 2 *'') now
   in due_at now job \<and>
      take_due_jobs now (new_scheduler\<lparr>sc_jobs := [job]\<rparr>) =
        (new_scheduler\<lparr>sc_jobs := [disabled_by Unsatisfiable (job\<lparr>j_last_run := Some now\<rparr>)]\<rparr>, [])"
proof -
  let ?now = "46080 * 86400000" and ?job = "sample_job (CronAt ''0 0 29 2 *'') (46080 * 86400000)"
  have due: "due_at ?now ?job" by (simp add: due_at_def sample_job_def)
  have "min ?now MAX_TIMESTAMP_MS = ?now" by (simp add: MAX_TIMESTAMP_MS_def)
  then have "next_run_ms (CronAt ''0 0 29 2 *'') ?now = Inl Unsatisfiable"
    by (simp only: next_run_ms.simps leap_day_parse sum.case leap_day_last)
  then have "next_run_ms (j_schedule ?job) ?now = Inl Unsatisfiable" by (simp only: sample_job_def cron_job.select_convs)
  with take_due [OF due] have "take_due_job ?now ?job = (disabled_by Unsatisfiable (?job\<lparr>j_last_run := Some ?now\<rparr>), None)"
    by (simp only: sum.case)
  then show ?thesis unfolding Let_def using due by (simp only: take_one option.case simp_thms)
qed

section \<open>A wake passes its deadline\<close>

definition later :: "nat \<Rightarrow> monitor \<Rightarrow> bool" where
  "later now m \<longleftrightarrow> (case next_check_at_ms m of None \<Rightarrow> True | Some t \<Rightarrow> now < t)"

lemma min_opt_Some: "min_opt xs = Some a \<Longrightarrow> a \<in> set xs \<and> (\<forall>x \<in> set xs. a \<le> x)"
proof -
  have "fold min r x \<in> insert x (set r) \<and> (\<forall>y \<in> insert x (set r). fold min r x \<le> y)" for x :: nat and r
  proof (induction r arbitrary: x)
    case (Cons a r)
    from this [of "min a x"] show ?case by (cases "a \<le> x") (auto simp: min_def)
  qed simp
  then show "min_opt xs = Some a \<Longrightarrow> a \<in> set xs \<and> (\<forall>x \<in> set xs. a \<le> x)" by (auto simp: min_opt_def split: list.splits)
qed

lemma min_opt_None: "min_opt xs = None \<longleftrightarrow> xs = []"
  by (simp add: min_opt_def split: list.split)

lemma deadline_later:
  assumes "\<forall>j \<in> set (sc_jobs s). \<not> due_at now j" "\<forall>m \<in> set (sc_monitors s). later now m" "next_deadline_ms s = Some d"
  shows "now < d"
proof -
  let ?a = "List.map_filter j_next_run (filter j_enabled (sc_jobs s))"
  let ?b = "List.map_filter next_check_at_ms (filter (\<lambda>m. is_live (m_status m)) (sc_monitors s))"
  have a: "\<forall>t \<in> set ?a. now < t" using assms(1) by (force simp: List.map_filter_def due_at_def split: option.splits)
  have b: "\<forall>t \<in> set ?b. now < t" using assms(2) by (force simp: List.map_filter_def later_def split: option.splits)
  show ?thesis using assms(3) a b min_opt_Some [of ?a] min_opt_Some [of ?b]
    by (auto simp: next_deadline_ms_def Let_def min_def split: option.splits if_splits)
qed

lemma record_status_kept:
  "map (\<lambda>j. (j_enabled j, j_next_run j)) (sc_jobs (fst (record_job_status i st s))) = map (\<lambda>j. (j_enabled j, j_next_run j)) (sc_jobs s)"
  by (simp add: record_job_status_def put_job_def Let_def map_update_same [where f = "\<lambda>j. (j_enabled j, j_next_run j)"] split: option.split)

lemma due_same:
  assumes "map (\<lambda>j. (j_enabled j, j_next_run j)) js = map (\<lambda>j. (j_enabled j, j_next_run j)) js'"
  shows "(\<forall>j \<in> set js. \<not> due_at now j) \<longleftrightarrow> (\<forall>j \<in> set js'. \<not> due_at now j)"
proof -
  have "list_all (\<lambda>(on, n). \<not> (on \<and> (case n of None \<Rightarrow> False | Some t \<Rightarrow> t \<le> now))) (map (\<lambda>j. (j_enabled j, j_next_run j)) js)
      \<longleftrightarrow> (\<forall>j \<in> set js. \<not> due_at now j)" for js
    by (simp add: list_all_iff due_at_def)
  from this [of js] this [of js'] show ?thesis unfolding assms by blast
qed

definition pending :: "due_work list \<Rightarrow> monitor_id \<Rightarrow> bool" where
  "pending ws i \<longleftrightarrow> (\<exists>w \<in> set ws. case w of DueMonitor m c out t \<Rightarrow> m_id m = i \<and> \<not> c | DueJob _ _ _ \<Rightarrow> False)"

definition passing :: "nat \<Rightarrow> due_work list \<Rightarrow> scheduler \<Rightarrow> bool" where
  "passing now ws s \<longleftrightarrow> sched_ok s \<and> (\<forall>j \<in> set (sc_jobs s). \<not> due_at now j) \<and>
     (\<forall>m \<in> set (sc_monitors s). later now m \<or> pending ws (m_id m))"

definition timely :: "nat \<Rightarrow> due_work \<Rightarrow> bool" where
  "timely now w \<longleftrightarrow> (case w of DueMonitor m c out t \<Rightarrow> now \<le> t | DueJob _ _ _ \<Rightarrow> True)"

lemma later_terminal: "is_terminal (m_status m) \<Longrightarrow> later now m"
  by (simp add: later_def next_check_at_ms_def is_terminal_def)

lemma later_checked:
  assumes "monitor_ok m" "now \<le> t" "now \<le> MAX_TIMESTAMP_MS"
  shows "later now (m\<lparr>m_last_check := Some t\<rparr>)"
proof -
  have "now < sat_add t (ms_from_secs (m_poll m))"
    using assms unfolding monitor_ok_def sat_add_def ms_from_secs_def sat_mul_def U64_MAX_def MIN_POLL_SECS_def MAX_TIMESTAMP_MS_def
    by (simp only: min_def split: if_split) linarith
  then show ?thesis by (simp add: later_def next_check_at_ms_def)
qed

text \<open>Replacing the entry of the completed check settles it; the others have other ids.\<close>

lemma passing_settled:
  assumes p: "passing now (DueMonitor info False out t # ws) s"
    and k: "k < length (sc_monitors s)" "m_id (sc_monitors s ! k) = m_id info"
    and s': "sched_ok s'" "sc_jobs s' = sc_jobs s" "set (sc_monitors s') \<subseteq> set ((sc_monitors s)[k := m])" "later now m"
  shows "passing now ws s'"
proof -
  have d: "distinct (map m_id (sc_monitors s))" using p by (simp add: passing_def sched_ok_def monitors_ok_def)
  have "later now x \<or> pending ws (m_id x)" if "x \<in> set (sc_monitors s')" for x
  proof -
    from that s'(3) obtain j where j: "j < length (sc_monitors s)" "(sc_monitors s)[k := m] ! j = x"
      by (metis in_set_conv_nth length_list_update subsetD)
    show ?thesis
    proof (cases "j = k")
      case False
      with j have x: "x = sc_monitors s ! j" by simp
      with d j(1) k False have "m_id x \<noteq> m_id info" by (metis distinct_conv_nth length_map nth_map)
      moreover have "later now x \<or> pending (DueMonitor info False out t # ws) (m_id x)" using p j(1) x by (simp add: passing_def)
      ultimately show ?thesis by (simp add: pending_def)
    qed (use j k s'(4) in simp)
  qed
  with p s' show ?thesis by (simp add: passing_def)
qed

lemma passing_job: "passing now (DueJob job se su # ws) s \<Longrightarrow> passing now ws (fire_work (DueJob job se su) s)"
proof -
  assume p: "passing now (DueJob job se su # ws) s"
  let ?s = "fire_work (DueJob job se su) s"
  have "sched_ok ?s" using p sched_step.fired [of s job se su] sched_step_ok unfolding passing_def fire_work.simps by blast
  moreover have "map (\<lambda>j. (j_enabled j, j_next_run j)) (sc_jobs ?s) = map (\<lambda>j. (j_enabled j, j_next_run j)) (sc_jobs s)"
    by (simp add: fire_job_def record_status_kept split: option.split)
  moreover have "sc_monitors ?s = sc_monitors s"
    by (simp add: fire_job_def record_job_status_def put_job_def Let_def split: option.split)
  moreover note due_same [OF calculation(2), of now]
  ultimately show ?thesis using p unfolding passing_def by (simp add: pending_def)
qed

lemma passing_idle:
  "passing now (DueMonitor info c out t # ws) s \<Longrightarrow> c \<or> (\<forall>m \<in> set (sc_monitors s). m_id m = m_id info \<longrightarrow> \<not> is_live (m_status m)) \<Longrightarrow>
   passing now ws s"
  by (auto simp: passing_def pending_def later_terminal is_terminal_def)

lemma passing_monitor:
  assumes p: "passing now (DueMonitor info c out t # ws) s" and t: "now \<le> t" "now \<le> MAX_TIMESTAMP_MS"
  shows "passing now ws (fire_work (DueMonitor info c out t) s)"
proof -
  have ok: "sched_ok s" using p by (simp add: passing_def)
  then have d: "distinct (map m_id (sc_monitors s))" by (simp add: sched_ok_def monitors_ok_def)
  have ok': "sched_ok (fire_work (DueMonitor info c out t) s)"
    using ok by (simp add: fire_monitor_def record_check_ok record_failure_ok split: option.split)
  show ?thesis
  proof (cases "monitor_index (m_id info) s")
    case None
    then have "fire_work (DueMonitor info c out t) s = s"
      by (simp add: fire_monitor_def record_check_def record_failure_def split: option.split)
    moreover have "\<forall>m \<in> set (sc_monitors s). m_id m \<noteq> m_id info" using None by (simp add: monitor_index_def find_index_None)
    ultimately show ?thesis using passing_idle [OF p] by simp
  next
    case (Some k)
    then have k: "k < length (sc_monitors s)" "m_id (sc_monitors s ! k) = m_id info" by (auto simp: monitor_index_def dest: find_index_Some)
    let ?m = "sc_monitors s ! k"
    have only: "\<forall>m \<in> set (sc_monitors s). m_id m = m_id info \<longrightarrow> m = ?m"
      using d k unfolding distinct_map by (metis inj_onD nth_mem)
    have ends: "set (sc_monitors (end_monitor k m s)) \<subseteq> set ((sc_monitors s)[k := m])" "sc_jobs (end_monitor k m s) = sc_jobs s" for m
      using subseq_set [OF retain_terminal_subseq] by (simp_all add: end_monitor_def end_region_def cancel_token_def)
    show ?thesis
    proof (cases "c \<or> \<not> is_live (m_status ?m)")
      case True
      then have "fire_work (DueMonitor info c out t) s = s"
        using Some by (auto simp: fire_monitor_def record_check_def record_failure_def split: option.split)
      moreover have "c \<or> (\<forall>m \<in> set (sc_monitors s). m_id m = m_id info \<longrightarrow> \<not> is_live (m_status m))" using True only by metis
      ultimately show ?thesis using passing_idle [OF p] by simp
    next
      case False
      have good: "monitor_ok ?m" using ok k(1) by (simp add: sched_ok_def monitors_ok_def list_all_length)
      have p': "passing now (DueMonitor info False out t # ws) s" using p False by simp
      note settled = passing_settled [OF p' k ok']
      show ?thesis
      proof (cases "out = Some False")
        case True
        then have "fire_work (DueMonitor info c out t) s = put_monitor k (?m\<lparr>m_last_check := Some t\<rparr>) s"
          using Some False by (simp add: fire_monitor_def record_check_def Let_def)
        then show ?thesis using later_checked [OF good t] settled [of "?m\<lparr>m_last_check := Some t\<rparr>"] by (simp add: put_monitor_def)
      next
        case ended: False
        define m where "m = (if out = None then ?m\<lparr>m_last_check := Some t, m_status := Failed\<rparr>
            else ?m\<lparr>m_last_check := Some t, m_status := Fired, m_fired_at := Some t\<rparr>)"
        have "is_terminal (m_status m)" by (simp add: m_def is_terminal_def is_live_def)
        moreover have "fire_work (DueMonitor info c out t) s = end_monitor k m s"
          using ended Some False by (cases out) (simp_all add: m_def fire_monitor_def record_check_def record_failure_def Let_def)
        ultimately show ?thesis using settled [of m] ends later_terminal by simp
      qed
    qed
  qed
qed

lemma passing_fold:
  "passing now ws s \<Longrightarrow> list_all (timely now) ws \<Longrightarrow> now \<le> MAX_TIMESTAMP_MS \<Longrightarrow> passing now [] (fold fire_work ws s)"
proof (induction ws arbitrary: s)
  case (Cons w ws)
  then show ?case by (cases w) (simp_all add: passing_job passing_monitor timely_def del: fire_work.simps)
qed simp

text \<open>A wake passes its deadline.  When every due check comes back, in any order and with any
  outcome, the next deadline after firing everything due at \<open>now\<close> lies after \<open>now\<close>: the driving
  loop always sleeps before it fires again and cannot spin.\<close>

theorem wake_passes_deadline:
  assumes "sched_step\<^sup>*\<^sup>* new_scheduler s" "now \<le> MAX_TIMESTAMP_MS"
    and "\<And>jobs checks. list_all (\<lambda>m. pending (complete jobs checks) (m_id m)) checks"
    and "\<And>jobs checks. list_all (timely now) (complete jobs checks)"
  shows "case next_deadline_ms (fire_due complete now s) of None \<Rightarrow> True | Some d \<Rightarrow> now < d"
proof -
  obtain s1 jobs where s1: "take_due_jobs now s = (s1, jobs)" by (cases "take_due_jobs now s")
  obtain s2 checks where s2: "due_checks now s1 = (s2, checks)" by (cases "due_checks now s1")
  have "sched_ok s2"
    using schedules.reachable_inv [OF assms(1)] sched_step_ok sched_step.take [of s now] due_checks_ok [of s1 now] s1 s2 by simp
  moreover have "\<forall>j \<in> set (sc_jobs s2). \<not> due_at now j"
    using s1 s2 taken_not_due [OF assms(2)] by (auto simp: take_due_jobs_def due_checks_def Let_def)
  moreover have "later now m \<or> pending (complete jobs checks) (m_id m)" if "m \<in> set (sc_monitors s2)" for m
  proof (cases "m \<in> set checks")
    case True
    then show ?thesis using assms(3) [of jobs checks] by (simp add: list_all_iff)
  next
    case False
    with that s2 show ?thesis
      by (auto simp: due_checks_def Let_def later_def is_terminal_def next_check_at_ms_def split: option.splits)
  qed
  ultimately have "passing now (complete jobs checks) s2" by (simp add: passing_def)
  from passing_fold [OF this assms(4) assms(2)] have "passing now [] (fire_due complete now s)" by (simp add: fire_due_def s1 s2)
  then show ?thesis using deadline_later [of "fire_due complete now s" now]
    by (auto simp: passing_def pending_def split: option.split)
qed

definition sample_complete :: "nat \<Rightarrow> cron_job list \<Rightarrow> monitor list \<Rightarrow> due_work list" where
  "sample_complete t jobs checks = map (\<lambda>j. DueJob j None None) jobs @ map (\<lambda>m. DueMonitor m False (Some False) t) checks"

theorem wake_passes_deadline_witness:
  "next_deadline_ms (fire_due (sample_complete 20) 10 sample_scheduler) = Some 1020 \<and>
   (case next_deadline_ms (fire_due (sample_complete 20) 10 sample_scheduler) of None \<Rightarrow> True | Some d \<Rightarrow> 10 < d)"
proof
  note sample_reached
  then show "case next_deadline_ms (fire_due (sample_complete 20) 10 sample_scheduler) of None \<Rightarrow> True | Some d \<Rightarrow> 10 < d"
    by (rule wake_passes_deadline)
      (auto simp: MAX_TIMESTAMP_MS_def sample_complete_def pending_def timely_def list_all_iff split: due_work.splits)
  show "next_deadline_ms (fire_due (sample_complete 20) 10 sample_scheduler) = Some 1020"
    by (simp add: fire_due_def take_due_jobs_def due_checks_def sample_scheduler_def sample_monitor_def sample_complete_def
        fire_monitor_def record_check_def monitor_index_def put_monitor_def next_deadline_ms_def next_check_at_ms_def
        is_live_def min_opt_def sat_add_def sat_mul_def ms_from_secs_def U64_MAX_def List.map_filter_simps Let_def)
qed

section \<open>Intervals are read back\<close>

lemma digit_plain:
  assumes "is_ascii_digit c"
  shows "\<not> is_whitespace c" "to_ascii_lower_char c = c" "is_char_start c"
  using assms by (auto simp: is_ascii_digit_def is_whitespace_def to_ascii_lower_char_def is_char_start_def code_of_def)

lemma length_show_nat: "n < 10 ^ k \<Longrightarrow> 0 < k \<Longrightarrow> length (show_nat n) \<le> k"
proof (induction k arbitrary: n)
  case (Suc k)
  show ?case
  proof (cases "n < 10")
    case True
    then show ?thesis by (subst show_nat.simps) simp
  next
    case False
    then have "0 < k" using Suc.prems by (cases k) auto
    moreover have "n div 10 < 10 ^ k" using Suc.prems by (simp add: div_less_iff_less_mult mult.commute)
    ultimately show ?thesis using Suc.IH False by (subst show_nat.simps) simp
  qed
qed simp

text \<open>A unit letter and its seconds.\<close>

lemma parse_interval_digits:
  assumes n: "n \<le> U64_MAX" and u: "unit_parse c = Some un" "\<not> is_whitespace c" and fits: "n * unit_seconds un \<le> U64_MAX"
  shows "parse_interval (show_nat n @ [c]) = Some (max (n * unit_seconds un) 1)"
proof -
  have d: "\<forall>c \<in> set (show_nat n). \<not> is_whitespace c" using show_nat_digits [of n] digit_plain by (auto simp: list_all_iff)
  then have "trim (show_nat n @ [c]) = show_nat n @ [c]" using u(2) by (intro trim_id) auto
  moreover have "trim (show_nat n) = show_nat n" using d by (rule trim_id)
  moreover have "parse_uint 64 (show_nat n) = Some n" using n by (intro parse_uint_show) (simp add: U64_MAX_def)
  ultimately show ?thesis using u(1) fits by (simp add: parse_interval_def sat_mul_def min_def Let_def)
qed

lemma parse_format_interval:
  assumes "1 \<le> secs" "secs \<le> U64_MAX"
  shows "parse_interval (format_interval secs) = Some secs"
proof -
  have unit: "parse_interval (show_nat (secs div unit_seconds un) @ [c]) = Some secs"
    if "secs mod unit_seconds un = 0" "unit_parse c = Some un" "\<not> is_whitespace c" for un c
  proof -
    have "secs div unit_seconds un * unit_seconds un = secs" using that(1) by (metis add.right_neutral div_mult_mod_eq)
    moreover have "secs div unit_seconds un \<le> U64_MAX" using assms(2) by (meson div_le_dividend order_trans)
    ultimately show ?thesis using parse_interval_digits [OF _ that(2,3), of "secs div unit_seconds un"] assms by simp
  qed
  show ?thesis
    using unit [of DaysU "CHR ''d''"] unit [of HoursU "CHR ''h''"] unit [of MinutesU "CHR ''m''"] unit [of SecondsU "CHR ''s''"]
    by (auto simp: format_interval_def unit_parse_def is_whitespace_def code_of_def)
qed

lemma format_interval_shape:
  obtains n c where "format_interval secs = show_nat n @ [c]" "n \<le> secs" "c \<in> set ''dhms''"
  by (cases "86400 \<le> secs \<and> secs mod 86400 = 0"; cases "3600 \<le> secs \<and> secs mod 3600 = 0"; cases "60 \<le> secs \<and> secs mod 60 = 0")
    (auto simp: format_interval_def)

lemma trim_ends: "s \<noteq> [] \<Longrightarrow> \<not> is_whitespace (hd s) \<Longrightarrow> \<not> is_whitespace (last s) \<Longrightarrow> trim s = s"
proof -
  assume s: "s \<noteq> []" "\<not> is_whitespace (hd s)" "\<not> is_whitespace (last s)"
  then have "dropWhile is_whitespace s = s" by (cases s) auto
  moreover have "dropWhile is_whitespace (rev s) = rev s" using s by (cases s rule: rev_cases) auto
  ultimately show ?thesis by (simp add: trim_def trim_start_matches_def trim_end_matches_def)
qed

lemma parse_every:
  assumes "parse_interval f = Some v" "f \<noteq> []" "\<forall>c \<in> set f. \<not> is_whitespace c \<and> to_ascii_lower_char c = c" "length f \<le> 100"
  shows "schedule_parse (''every '' @ f) = Some (every v)"
proof -
  obtain c r where f: "f = c # r" using assms(2) by (cases f) auto
  have "trim (''every '' @ f) = ''every '' @ f"
    using assms(2,3) by (intro trim_ends) (simp_all add: is_whitespace_def code_of_def)
  moreover have "char_count (''every '' @ f) \<le> CRON_EXPR_MAX_CHARS"
    using assms(4) length_filter_le [of is_char_start "''every '' @ f"] by (simp add: char_count_def CRON_EXPR_MAX_CHARS_def del: filter_append)
  moreover have "map to_ascii_lower_char f = f" using assms(3) by (simp add: map_idI)
  then have "to_ascii_lowercase (''every '' @ f) = ''every '' @ f"
    by (simp add: to_ascii_lowercase_def to_ascii_lower_char_def code_of_def)
  moreover have "strip_prefix (''every '' @ f) ''@every'' = None" "strip_prefix (''every '' @ f) ''every'' = Some (SP # f)"
    by (simp_all add: strip_prefix_None strip_prefix_Some starts_with_iff)
  moreover have "trim_start_matches is_whitespace (SP # f) = f"
    using assms(3) by (simp add: trim_start_matches_def f is_whitespace_def)
  ultimately show ?thesis using assms(1) f by (simp add: schedule_parse_def)
qed

text \<open>An interval survives being shown.  Displaying an interval schedule and parsing the
  text gives the schedule back, for every number of seconds a \<^verbatim>\<open>u64\<close> can hold: the unit
  chosen divides the seconds, and multiplying it back neither rounds nor saturates.\<close>

theorem schedule_roundtrip:
  assumes "1 \<le> secs" "secs \<le> U64_MAX"
  shows "schedule_parse (schedule_display (Every secs)) = Some (Every secs)"
proof -
  obtain n c where f: "format_interval secs = show_nat n @ [c]" "n \<le> secs" "c \<in> set ''dhms''" by (rule format_interval_shape)
  have "n < 10 ^ 20" using f(2) assms(2) by (simp add: U64_MAX_def)
  then have len: "length (format_interval secs) \<le> 100" using length_show_nat [of n 20] by (simp add: f(1))
  have "\<forall>c \<in> set (format_interval secs). \<not> is_whitespace c \<and> to_ascii_lower_char c = c"
    using show_nat_digits [of n] f(3) digit_plain
    by (auto simp: f(1) list_all_iff is_whitespace_def to_ascii_lower_char_def code_of_def)
  from parse_every [OF parse_format_interval [OF assms] _ this len] show ?thesis
    using assms(1) by (simp add: f(1) every_def)
qed

theorem schedule_roundtrip_witness: "schedule_parse (schedule_display (Every 5400)) = Some (Every 5400)"
  using schedule_roundtrip [of 5400] by (simp add: U64_MAX_def)
end
