(* ===== verification/Ranges.thy ===== *)
theory Ranges
  imports Prelude
begin

text \<open>
  \<^verbatim>\<open>crates/pacode-core/src/ledger/ranges.rs\<close>: the capped set of line ranges the edit
  ledger keeps of what an agent has read.  A half-open range is a pair, a
  \<^verbatim>\<open>LineRanges\<close> its list of spans.  The abstract value of a list of spans is the set of
  lines it covers; the representation invariant is that spans are non-empty, sorted and
  neither overlapping nor adjacent.  The locale \<open>line_set\<close> is what the ledger relies on.
\<close>

type_synonym range = "nat \<times> nat"

definition MAX_INTERVALS :: nat where
  "MAX_INTERVALS = 64"

definition line_count :: "range list \<Rightarrow> nat" where
  "line_count spans = sum_list (map (\<lambda>(a, b). b - a) spans)"

text \<open>The loop of \<^verbatim>\<open>insert\<close> over the old spans: the range merged so far and whether it
  was placed; the result is the new list.\<close>

fun insert_loop :: "range list \<Rightarrow> range \<Rightarrow> bool \<Rightarrow> range list" where
  "insert_loop [] merged placed = (if placed then [] else [merged])"
| "insert_loop (s # spans) merged placed =
     (if snd s < fst merged then s # insert_loop spans merged placed
      else if snd merged < fst s then
        (if placed then [] else [merged]) @ s # insert_loop spans merged True
      else insert_loop spans (min (fst merged) (fst s), max (snd merged) (snd s)) placed)"

text \<open>\<^verbatim>\<open>min_by_key\<close> over the enumerated spans: the first of the shortest.\<close>

definition shorter :: "nat \<Rightarrow> range \<Rightarrow> (nat \<times> nat) option \<Rightarrow> (nat \<times> nat) option" where
  "shorter i s best =
     (case best of Some (j, l) \<Rightarrow> if snd s - fst s < l then Some (i, snd s - fst s) else best
      | None \<Rightarrow> Some (i, snd s - fst s))"

fun smallest :: "nat \<Rightarrow> range list \<Rightarrow> (nat \<times> nat) option \<Rightarrow> nat option" where
  "smallest i [] best = map_option fst best"
| "smallest i (s # spans) best = smallest (Suc i) spans (shorter i s best)"

definition remove_at :: "nat \<Rightarrow> 'a list \<Rightarrow> 'a list" where
  "remove_at i xs = take i xs @ drop (Suc i) xs"

definition cap_step :: "range list \<Rightarrow> range list option" where
  "cap_step spans =
     (if MAX_INTERVALS < length spans then
        (case smallest 0 spans None of Some i \<Rightarrow> Some (remove_at i spans) | None \<Rightarrow> None)
      else None)"

definition insert_range :: "range \<Rightarrow> range list \<Rightarrow> range list" where
  "insert_range r spans =
     (if snd r \<le> fst r then spans
      else (let out = insert_loop spans r False in loop (Suc (length out)) cap_step out))"

definition covers :: "range list \<Rightarrow> range \<Rightarrow> bool" where
  "covers spans r \<longleftrightarrow>
     (if snd r \<le> fst r then True
      else list_ex (\<lambda>s. fst s \<le> fst r \<and> snd r \<le> snd s) spans)"

definition range_empty :: "range \<Rightarrow> bool" where
  "range_empty r \<longleftrightarrow> \<not> fst r < snd r"

definition overlaps :: "range \<Rightarrow> range \<Rightarrow> bool" where
  "overlaps a b =
     (if \<not> range_empty a \<and> \<not> range_empty b then fst a < snd b \<and> fst b < snd a
      else if range_empty a \<and> \<not> range_empty b then fst b \<le> fst a \<and> fst a \<le> snd b
      else if \<not> range_empty a \<and> range_empty b then fst a \<le> fst b \<and> fst b \<le> snd a
      else fst a = fst b)"

definition visible :: "range \<Rightarrow> nat \<Rightarrow> range" where
  "visible r n =
     (if fst r < snd r \<or> n = 0 then r else (let p = min (fst r) (n - 1) in (p, p + 1)))"

definition describe :: "range \<Rightarrow> string \<Rightarrow> string" where
  "describe r prefix =
     (let first = fst r + 1; lst = max (snd r) (fst r + 1)
      in if lst = first then prefix @ show_nat first
         else prefix @ show_nat first @ ''-'' @ prefix @ show_nat lst)"

section \<open>The lines of a list of spans\<close>

definition lines_of :: "range list \<Rightarrow> nat set" where
  "lines_of spans = (\<Union>s \<in> set spans. {fst s ..< snd s})"

definition range_lines :: "range \<Rightarrow> nat set" where
  "range_lines r = {fst r ..< snd r}"

fun wf_spans :: "range list \<Rightarrow> bool" where
  "wf_spans [] = True"
| "wf_spans (s # spans) \<longleftrightarrow>
     fst s < snd s \<and> (\<forall>t \<in> set spans. snd s < fst t) \<and> wf_spans spans"

lemma lines_of_simps [simp]:
  "lines_of [] = {}" "lines_of (s # spans) = range_lines s \<union> lines_of spans"
  "lines_of (xs @ ys) = lines_of xs \<union> lines_of ys"
  by (auto simp: lines_of_def range_lines_def)

lemma wf_append:
  "wf_spans (xs @ ys) \<longleftrightarrow> wf_spans xs \<and> wf_spans ys \<and> (\<forall>x \<in> set xs. \<forall>y \<in> set ys. snd x < fst y)"
  by (induction xs) auto

lemma insert_loop_placed: "\<forall>s \<in> set spans. snd m < fst s \<Longrightarrow> fst m \<le> snd m \<Longrightarrow> wf_spans spans \<Longrightarrow>
  insert_loop spans m True = spans"
  by (induction spans) (auto simp: not_less)

lemma insert_loop_starts:
  assumes "\<forall>s \<in> set spans. x < fst s" "x < fst m"
  shows "\<forall>s \<in> set (insert_loop spans m placed). x < fst s"
  using assms by (induction spans m placed rule: insert_loop.induct) auto

lemma insert_loop_spec:
  assumes "wf_spans spans" "fst m < snd m"
  shows "wf_spans (insert_loop spans m False) \<and> lines_of (insert_loop spans m False) = range_lines m \<union> lines_of spans"
  using assms
proof (induction spans arbitrary: m)
  case (Cons s spans)
  let ?u = "(min (fst m) (fst s), max (snd m) (snd s))"
  consider (before) "snd s < fst m" | (after) "\<not> snd s < fst m" "snd m < fst s"
    | (touch) "\<not> snd s < fst m" "\<not> snd m < fst s" by blast
  then show ?case
  proof cases
    case before
    from Cons.prems before have "\<forall>t \<in> set (insert_loop spans m False). snd s < fst t"
      by (intro insert_loop_starts) auto
    with before Cons.prems Cons.IH [of m] show ?thesis by auto
  next
    case after
    have "insert_loop spans m True = spans"
      by (rule insert_loop_placed) (use after Cons.prems in \<open>fastforce\<close>)+
    with after Cons.prems show ?thesis by fastforce
  next
    case touch
    then have "range_lines ?u = range_lines m \<union> range_lines s"
      using Cons.prems by (auto simp: range_lines_def)
    with touch Cons.prems Cons.IH [of ?u] show ?thesis by auto
  qed
qed auto

section \<open>The cap\<close>

lemma smallest_bound:
  "smallest i spans best = Some k \<Longrightarrow> (\<forall>j l. best = Some (j, l) \<longrightarrow> j < i) \<Longrightarrow> k < i + length spans"
proof (induction i spans best rule: smallest.induct)
  case (2 i s spans best)
  have "\<forall>j l. shorter i s best = Some (j, l) \<longrightarrow> j < Suc i"
    using 2(3) by (auto simp: shorter_def split: option.splits if_splits dest: less_SucI)
  with 2(1,2) show ?case by simp
qed auto

lemma remove_at_split:
  "i < length xs \<Longrightarrow> \<exists>a x b. xs = a @ x # b \<and> remove_at i xs = a @ b"
  by (intro exI [of _ "take i xs"] exI [of _ "xs ! i"] exI [of _ "drop (Suc i) xs"])
     (simp add: remove_at_def id_take_nth_drop)

lemma cap_step_split:
  assumes "cap_step spans = Some spans'"
  shows "\<exists>a x b. spans = a @ x # b \<and> spans' = a @ b \<and> MAX_INTERVALS \<le> length spans'"
proof -
  from assms obtain i where i: "smallest 0 spans None = Some i" "spans' = remove_at i spans"
    "MAX_INTERVALS < length spans"
    by (auto simp: cap_step_def split: if_splits option.splits)
  from smallest_bound [OF i(1)] have "i < length spans" by simp
  from remove_at_split [OF this] i(2,3) show ?thesis by fastforce
qed

interpretation capping: progress cap_step length
  by unfold_locales (auto dest!: cap_step_split)

lemma smallest_Some: "spans \<noteq> [] \<or> best \<noteq> None \<Longrightarrow> smallest i spans best \<noteq> None"
  by (induction i spans best rule: smallest.induct) (auto simp: shorter_def split: option.splits)

lemma cap_step_None: "cap_step spans = None \<longleftrightarrow> length spans \<le> MAX_INTERVALS"
  using smallest_Some [of spans None 0]
  by (cases spans) (auto simp: cap_step_def split: option.splits)

lemma capped:
  assumes "wf_spans out"
  shows "wf_spans (loop (Suc (length out)) cap_step out) \<and>
    lines_of (loop (Suc (length out)) cap_step out) \<subseteq> lines_of out \<and>
    length (loop (Suc (length out)) cap_step out) \<le> MAX_INTERVALS"
proof -
  have "cap_step (loop (Suc (length out)) cap_step out) = None" by (rule capping.loop_done) simp
  then have len: "length (loop (Suc (length out)) cap_step out) \<le> MAX_INTERVALS" by (simp add: cap_step_None)
  have "(\<lambda>s. wf_spans s \<and> lines_of s \<subseteq> lines_of out) (loop (Suc (length out)) cap_step out)"
    by (rule loop_invariant) (use assms in \<open>auto dest!: cap_step_split simp: wf_append\<close>)
  with len show ?thesis by blast
qed

section \<open>The contract\<close>

text \<open>What the ledger relies on: a set of lines that may forget, never invent.\<close>

locale line_set =
  fixes inv :: "'s \<Rightarrow> bool" and lines :: "'s \<Rightarrow> nat set" and empty :: 's
    and add :: "range \<Rightarrow> 's \<Rightarrow> 's" and has :: "'s \<Rightarrow> range \<Rightarrow> bool" and small :: "'s \<Rightarrow> bool"
  assumes empty_ok: "inv empty \<and> lines empty = {}"
    and add_inv: "inv s \<Longrightarrow> inv (add r s)"
    and add_sound: "inv s \<Longrightarrow> lines (add r s) \<subseteq> range_lines r \<union> lines s"
    and add_complete: "inv s \<Longrightarrow> small s \<Longrightarrow> range_lines r \<union> lines s \<subseteq> lines (add r s)"
    and has_iff: "inv s \<Longrightarrow> has s r \<longleftrightarrow> range_lines r \<subseteq> lines s"
begin

definition recorded :: "range list \<Rightarrow> 's" where
  "recorded rs = fold add rs empty"

lemma recorded_from: "inv s \<Longrightarrow> inv (fold add rs s) \<and> lines (fold add rs s) \<subseteq> lines s \<union> (\<Union>r \<in> set rs. range_lines r)"
proof (induction rs arbitrary: s)
  case (Cons r rs)
  from Cons.IH [OF add_inv [OF Cons.prems, of r]] add_sound [OF Cons.prems, of r] show ?case by auto
qed simp

lemma recorded_sound: "has (recorded rs) r \<Longrightarrow> range_lines r \<subseteq> (\<Union>q \<in> set rs. range_lines q)"
  using recorded_from [of empty rs] empty_ok has_iff [of "recorded rs" r] by (auto simp: recorded_def)

lemma add_has: "inv s \<Longrightarrow> small s \<Longrightarrow> has (add r s) r"
  using add_complete [of s r] add_inv [of s r] by (simp add: has_iff)

end

lemma interval_in_span:
  assumes "wf_spans spans" "{a ..< b} \<subseteq> lines_of spans" "a < b"
  shows "\<exists>s \<in> set spans. fst s \<le> a \<and> b \<le> snd s"
  using assms
proof (induction spans)
  case (Cons s spans)
  show ?case
  proof (cases "a < snd s")
    case True
    have gap: "snd s \<notin> lines_of (s # spans)"
      using Cons.prems(1) by (fastforce simp: lines_of_def range_lines_def)
    have "b \<le> snd s"
    proof (rule ccontr)
      assume "\<not> b \<le> snd s"
      with True have "snd s \<in> {a ..< b}" by simp
      with Cons.prems(2) gap show False by blast
    qed
    moreover have "fst s \<le> a"
    proof -
      have "a \<in> lines_of (s # spans)" using Cons.prems by auto
      with True Cons.prems(1) show ?thesis by (fastforce simp: lines_of_def range_lines_def)
    qed
    ultimately show ?thesis by auto
  next
    case False
    have "{a ..< b} \<subseteq> lines_of spans"
    proof
      fix x assume "x \<in> {a ..< b}"
      with False Cons.prems(2) show "x \<in> lines_of spans" by (force simp: range_lines_def)
    qed
    with Cons show ?thesis by auto
  qed
qed simp

lemma covers_iff: "wf_spans spans \<Longrightarrow> covers spans r \<longleftrightarrow> range_lines r \<subseteq> lines_of spans"
  using interval_in_span [of spans "fst r" "snd r"]
  by (force simp: covers_def list_ex_iff range_lines_def lines_of_def)

lemma insert_loop_length: "length (insert_loop spans m placed) \<le> Suc (length spans)"
proof -
  have "length (insert_loop spans m placed) \<le> length spans + (if placed then 0 else 1)"
    by (induction spans m placed rule: insert_loop.induct) auto
  then show ?thesis by (simp split: if_splits)
qed

lemma insert_range_spec:
  assumes "wf_spans spans"
  shows "wf_spans (insert_range r spans)" (is ?wf)
    and "lines_of (insert_range r spans) \<subseteq> range_lines r \<union> lines_of spans" (is ?sound)
    and "length spans < MAX_INTERVALS \<Longrightarrow> range_lines r \<union> lines_of spans \<subseteq> lines_of (insert_range r spans)"
proof -
  let ?out = "insert_loop spans r False"
  have spec: "wf_spans ?out \<and> lines_of ?out = range_lines r \<union> lines_of spans" if "fst r < snd r"
    by (rule insert_loop_spec [OF assms that])
  show ?wf ?sound
    using spec capped [of ?out] assms by (auto simp: insert_range_def Let_def not_le)
  assume "length spans < MAX_INTERVALS"
  then have "cap_step ?out = None"
    using insert_loop_length [of spans r False] by (simp add: cap_step_None)
  then show "range_lines r \<union> lines_of spans \<subseteq> lines_of (insert_range r spans)"
    using spec by (auto simp: insert_range_def Let_def loop_stuck range_lines_def not_le)
qed

lemma insert_range_length:
  assumes "wf_spans spans" "length spans \<le> MAX_INTERVALS"
  shows "length (insert_range r spans) \<le> MAX_INTERVALS"
  using capped [of "insert_loop spans r False"] insert_loop_spec [OF assms(1), of r] assms(2)
  by (auto simp: insert_range_def Let_def not_le)

interpretation spans: line_set wf_spans lines_of "[]" insert_range covers
  "\<lambda>spans. length spans < MAX_INTERVALS"
  by unfold_locales (auto simp: insert_range_spec covers_iff dest: insert_range_spec(2,3) [THEN subsetD])

text \<open>C38: the capped ranges refine a set of lines.  The representation stays sorted,
  disjoint and non-adjacent and within 64 spans; inserting adds exactly the range while
  there is room and otherwise only forgets, never inventing a line; and \<^verbatim>\<open>covers\<close> answers
  membership of every line of a range by looking at single spans.\<close>

theorem line_ranges_refine:
  assumes "wf_spans spans" "length spans \<le> MAX_INTERVALS"
  shows "wf_spans (insert_range r spans) \<and> length (insert_range r spans) \<le> MAX_INTERVALS \<and>
    lines_of (insert_range r spans) \<subseteq> range_lines r \<union> lines_of spans \<and>
    (length spans < MAX_INTERVALS \<longrightarrow> lines_of (insert_range r spans) = range_lines r \<union> lines_of spans) \<and>
    (covers spans q \<longleftrightarrow> range_lines q \<subseteq> lines_of spans)"
  using insert_range_spec [OF assms(1), of r] insert_range_length [OF assms, of r] covers_iff [OF assms(1), of q]
  by auto

theorem line_ranges_refine_witness:
  "wf_spans (insert_range (3, 5) [(1, 3), (5, 9), (12, 13)]) \<and>
    length (insert_range (3, 5) [(1, 3), (5, 9), (12, 13)]) \<le> MAX_INTERVALS \<and>
    lines_of (insert_range (3, 5) [(1, 3), (5, 9), (12, 13)]) \<subseteq> range_lines (3, 5) \<union> lines_of [(1, 3), (5, 9), (12, 13)] \<and>
    lines_of (insert_range (3, 5) [(1, 3), (5, 9), (12, 13)]) = range_lines (3, 5) \<union> lines_of [(1, 3), (5, 9), (12, 13)] \<and>
    (covers [(1, 3), (5, 9), (12, 13)] (2, 3) \<longleftrightarrow> range_lines (2, 3) \<subseteq> lines_of [(1, 3), (5, 9), (12, 13)])"
proof -
  let ?s = "[(1, 3), (5, 9), (12, 13)] :: range list"
  have "wf_spans ?s" "length ?s \<le> MAX_INTERVALS" "length ?s < MAX_INTERVALS" by (simp_all add: MAX_INTERVALS_def)
  with line_ranges_refine [of ?s "(3, 5)" "(2, 3)"] show ?thesis by simp
qed

text \<open>A read that the ledger reports as covered was made: whatever sequence of ranges
  an agent read, a range is covered only if every line of it lies in one of them, the
  cap notwithstanding.\<close>

theorem covered_was_read:
  assumes "covers (fold insert_range rs []) r"
  shows "range_lines r \<subseteq> (\<Union>q \<in> set rs. range_lines q)"
  using spans.recorded_sound [of rs r] assms by (simp add: spans.recorded_def)

theorem covered_was_read_witness:
  "range_lines (2, 6) \<subseteq> (\<Union>q \<in> set [(1, 4), (4, 7)]. range_lines q)"
  by (rule covered_was_read) code_simp

section \<open>Collisions and display\<close>

text \<open>Two changes collide exactly when they share a line, or one is a point (an
  insertion or deletion between lines) in or at the border of the other; the rule is
  symmetric.\<close>

theorem overlaps_iff:
  "overlaps a b = overlaps b a \<and>
   overlaps a b =
     (if fst a < snd a \<and> fst b < snd b then range_lines a \<inter> range_lines b \<noteq> {}
      else if fst b < snd b then fst a \<in> {fst b .. snd b}
      else if fst a < snd a then fst b \<in> {fst a .. snd a}
      else fst a = fst b)"
proof -
  have "range_lines a \<inter> range_lines b \<noteq> {} \<longleftrightarrow> fst a < snd b \<and> fst b < snd a"
    if "fst a < snd a" "fst b < snd b"
  proof -
    have "max (fst a) (fst b) \<in> range_lines a \<inter> range_lines b" if "fst a < snd b" "fst b < snd a"
      using that \<open>fst a < snd a\<close> \<open>fst b < snd b\<close> by (simp add: range_lines_def)
    then show ?thesis by (auto simp: range_lines_def)
  qed
  then show ?thesis by (auto simp: overlaps_def range_empty_def)
qed

lemma visible_in_file: "fst r \<le> n \<Longrightarrow> snd r \<le> n \<Longrightarrow> 0 < n \<Longrightarrow> visible r n \<noteq> (0, 0) \<and> snd (visible r n) \<le> n \<and> fst (visible r n) < snd (visible r n)"
  by (auto simp: visible_def Let_def)

end
