(* ===== verification/Snapshots.thy ===== *)
theory Snapshots
  imports Ranges Hashline
begin

text \<open>
  \<^verbatim>\<open>crates/pacode-core/src/ledger/snapshot.rs\<close>, \<^verbatim>\<open>diff_memo.rs\<close> and \<^verbatim>\<open>partial.rs\<close>: versions of a
  file as hashes, the line diff between two versions with its memo, and what an agent saw
  of a file too large to hash.

  The hash of bytes (the standard library's \<^verbatim>\<open>DefaultHasher\<close>, whose algorithm is not
  specified) and the diff algorithm of the crate \<^verbatim>\<open>similar\<close> are the record \<open>engine\<close>, an argument.
  What the ledger relies on of the latter is \<open>tiles\<close>: its operations cover both sequences in
  order, and an \<^verbatim>\<open>Equal\<close> stretch is equal.  No hash is assumed to be free of collisions.
\<close>

section \<open>Versions\<close>

type_synonym hash = "64 word"

text \<open>\<^verbatim>\<open>similar::DiffOp\<close>: the index and length on the old side, the index and length on the new
  side.\<close>

datatype diff_op = EqualOp nat nat nat | DeleteOp nat nat nat | InsertOp nat nat nat | ReplaceOp nat nat nat nat

record engine =
  hash_bytes :: "string \<Rightarrow> hash"
  myers :: "hash list \<Rightarrow> hash list \<Rightarrow> diff_op list"

fun old_range :: "diff_op \<Rightarrow> range" where
  "old_range (EqualOp i j n) = (i, i + n)"
| "old_range (DeleteOp i n j) = (i, i + n)"
| "old_range (InsertOp i j n) = (i, i)"
| "old_range (ReplaceOp i m j n) = (i, i + m)"

fun new_range :: "diff_op \<Rightarrow> range" where
  "new_range (EqualOp i j n) = (j, j + n)"
| "new_range (DeleteOp i n j) = (j, j)"
| "new_range (InsertOp i j n) = (j, j + n)"
| "new_range (ReplaceOp i m j n) = (j, j + n)"

fun is_equal_op :: "diff_op \<Rightarrow> bool" where
  "is_equal_op (EqualOp _ _ _) = True"
| "is_equal_op _ = False"

definition MAX_LINE_SNAPSHOT_BYTES :: nat where
  "MAX_LINE_SNAPSHOT_BYTES = 8 * 1024 * 1024"

record snapshot =
  s_hash :: hash
  s_lines :: "hash list"
  s_whole :: bool
  s_total :: nat

definition hash_line :: "engine \<Rightarrow> string \<Rightarrow> hash" where
  "hash_line g txt = hash_bytes g (case strip_suffix txt [CR] of Some t \<Rightarrow> t | None \<Rightarrow> txt)"

definition line_hashes :: "engine \<Rightarrow> string \<Rightarrow> hash list" where
  "line_hashes g content =
     map (\<lambda>seg. hash_line g (case strip_suffix seg [NL] of Some t \<Rightarrow> t | None \<Rightarrow> seg)) (split_inclusive content)"

definition count_newlines :: "string \<Rightarrow> nat" where
  "count_newlines s = length (filter (\<lambda>b. b = NL) s)"

definition snapshot_of :: "engine \<Rightarrow> string \<Rightarrow> snapshot" where
  "snapshot_of g content =
     (let h = hash_bytes g content
      in if MAX_LINE_SNAPSHOT_BYTES < length content then
           \<lparr>s_hash = h, s_lines = [], s_whole = True,
            s_total = count_newlines content + (if ends_with content [NL] then 0 else 1)\<rparr>
         else
           (let ls = line_hashes g content in \<lparr>s_hash = h, s_lines = ls, s_whole = False, s_total = length ls\<rparr>))"

definition unknown_snapshot :: snapshot where
  "unknown_snapshot = \<lparr>s_hash = 0, s_lines = [], s_whole = True, s_total = 0\<rparr>"

text \<open>What holds of every version that was hashed.\<close>

definition snap_wf :: "snapshot \<Rightarrow> bool" where
  "snap_wf s \<longleftrightarrow> s_whole s \<or> s_total s = length (s_lines s)"

text \<open>\<^verbatim>\<open>short\<close>: \<^verbatim>\<open>{:08x}\<close> of the upper half.\<close>

definition hex_digit :: "nat \<Rightarrow> char" where
  "hex_digit d = ''0123456789abcdef'' ! d"

definition hex8 :: "nat \<Rightarrow> string" where
  "hex8 n = map (\<lambda>i. hex_digit (n div 16 ^ i mod 16)) (rev [0..<8])"

definition snapshot_short :: "snapshot \<Rightarrow> string" where
  "snapshot_short s = hex8 (unat (drop_bit 32 (s_hash s)))"

record stat =
  st_len :: nat
  st_mtime :: "nat option"

record change =
  c_old :: range
  c_new :: range

definition change_size :: "change \<Rightarrow> nat" where
  "change_size c = max (snd (c_old c) - fst (c_old c)) (snd (c_new c) - fst (c_new c))"

text \<open>\<^verbatim>\<open>diff\<close>: the operations that are not equal, adjacent ones joined; \<^verbatim>\<open>out.last_mut()\<close> is the head
  of the list built in reverse.\<close>

definition diff_step :: "diff_op \<Rightarrow> change list \<Rightarrow> change list" where
  "diff_step opn out =
     (if is_equal_op opn then out
      else
        (let o' = old_range opn; n' = new_range opn
         in case out of
              prev # rest \<Rightarrow>
                if snd (c_old prev) = fst o' \<and> snd (c_new prev) = fst n'
                then \<lparr>c_old = (fst (c_old prev), snd o'), c_new = (fst (c_new prev), snd n')\<rparr> # rest
                else \<lparr>c_old = o', c_new = n'\<rparr> # out
            | [] \<Rightarrow> [\<lparr>c_old = o', c_new = n'\<rparr>]))"

definition changes_of :: "diff_op list \<Rightarrow> change list" where
  "changes_of ops = rev (fold diff_step ops [])"

definition line_diff :: "engine \<Rightarrow> hash list \<Rightarrow> hash list \<Rightarrow> change list" where
  "line_diff g old new = changes_of (myers g old new)"

definition diff_snapshots :: "engine \<Rightarrow> snapshot \<Rightarrow> snapshot \<Rightarrow> change list" where
  "diff_snapshots g old new =
     (if s_hash old = s_hash new then []
      else if s_whole old \<or> s_whole new then [\<lparr>c_old = (0, s_total old), c_new = (0, s_total new)\<rparr>]
      else line_diff g (s_lines old) (s_lines new))"

text \<open>\<^verbatim>\<open>iter().zip(..).take_while(a == b).count()\<close>.\<close>

fun common_length :: "'a list \<Rightarrow> 'a list \<Rightarrow> nat" where
  "common_length (a # xs) (b # ys) = (if a = b then Suc (common_length xs ys) else 0)"
| "common_length _ _ = 0"

text \<open>\<^verbatim>\<open>rposition\<close> of a newline, plus one; zero when there is none.\<close>

definition after_last_newline :: "string \<Rightarrow> nat" where
  "after_last_newline s = (case find_index (\<lambda>b. b = NL) (rev s) of Some i \<Rightarrow> length s - i | None \<Rightarrow> 0)"

definition coarse_prefix :: "string \<Rightarrow> string \<Rightarrow> nat" where
  "coarse_prefix c p = after_last_newline (take (common_length c p) c)"

definition coarse_suffix :: "string \<Rightarrow> string \<Rightarrow> nat" where
  "coarse_suffix c p =
     (let room = min (length c) (length p) - coarse_prefix c p;
          shared = common_length (take room (rev c)) (take room (rev p));
          tail = drop (length c - shared) c
      in case find_index (\<lambda>b. b = NL) tail of Some i \<Rightarrow> shared - (i + 1) | None \<Rightarrow> 0)"

definition touched_coarse :: "string \<Rightarrow> string \<Rightarrow> range list" where
  "touched_coarse c p =
     (if c = p then []
      else
        (let prefix = coarse_prefix c p; suffix = coarse_suffix c p;
             start = count_newlines (take prefix c);
             end0 = count_newlines (take (length c - suffix) c);
             end1 = (if suffix = 0 \<and> \<not> ends_with c [NL] \<and> c \<noteq> [] then end0 + 1 else end0)
         in [(start, max end1 start)]))"

definition touched :: "engine \<Rightarrow> string \<Rightarrow> string \<Rightarrow> range list" where
  "touched g current proposed =
     (if MAX_LINE_SNAPSHOT_BYTES < max (length current) (length proposed) then touched_coarse current proposed
      else map c_old (line_diff g (line_hashes g current) (line_hashes g proposed)))"

section \<open>The memo of diffs\<close>

definition DIFF_MEMO_CAP :: nat where
  "DIFF_MEMO_CAP = 64"

text \<open>The map and the order of insertion as one list, oldest first: a key is inserted only when
  it is absent, and the oldest keys go while the list is too long.\<close>

type_synonym memo = "((hash \<times> hash) \<times> change list) list"

definition memo_get :: "memo \<Rightarrow> snapshot \<Rightarrow> snapshot \<Rightarrow> change list option" where
  "memo_get mm old new = map_of mm (s_hash old, s_hash new)"

definition memo_insert :: "hash \<times> hash \<Rightarrow> change list \<Rightarrow> memo \<Rightarrow> memo" where
  "memo_insert key cs mm =
     (if map_of mm key = None then (let mm' = mm @ [(key, cs)] in drop (length mm' - DIFF_MEMO_CAP) mm')
      else map (\<lambda>(k, v). if k = key then (k, cs) else (k, v)) mm)"

definition memo_diff :: "engine \<Rightarrow> memo \<Rightarrow> snapshot \<Rightarrow> snapshot \<Rightarrow> memo \<times> change list" where
  "memo_diff g mm old new =
     (case memo_get mm old new of Some hit \<Rightarrow> (mm, hit)
      | None \<Rightarrow> (let cs = diff_snapshots g old new in (memo_insert (s_hash old, s_hash new) cs mm, cs)))"

section \<open>Ranged reads of large files\<close>

definition MAX_SEGMENTS :: nat where "MAX_SEGMENTS = 8"
definition MAX_PARTIAL_LINES :: nat where "MAX_PARTIAL_LINES = 20000"

definition same_stat :: "stat \<Rightarrow> stat \<Rightarrow> bool" where
  "same_stat a b \<longleftrightarrow> st_len a = st_len b \<and> st_mtime a \<noteq> None \<and> st_mtime a = st_mtime b"

record segment =
  g_start :: nat
  g_hashes :: "hash list"

datatype read_resolution = Unchanged | CoversR | StaleR

record partial_read =
  p_stat :: stat
  p_segments :: "segment list"

definition seg_end :: "segment \<Rightarrow> nat" where
  "seg_end s = g_start s + length (g_hashes s)"

definition segments_excess :: "segment list \<Rightarrow> bool" where
  "segments_excess segs \<longleftrightarrow> MAX_SEGMENTS < length segs \<or>
     (1 < length segs \<and> MAX_PARTIAL_LINES < sum_list (map (\<lambda>s. length (g_hashes s)) segs))"

fun trim_segments :: "segment list \<Rightarrow> segment list" where
  "trim_segments [] = []"
| "trim_segments (s # segs) = (if segments_excess (s # segs) then trim_segments segs else s # segs)"

definition merged_partial :: "partial_read option \<Rightarrow> stat \<Rightarrow> nat \<Rightarrow> hash list \<Rightarrow> partial_read" where
  "merged_partial prev st start hs =
     (let segs = (case prev of Some p \<Rightarrow> if same_stat (p_stat p) st then p_segments p else [] | None \<Rightarrow> [])
      in \<lparr>p_stat = st, p_segments = trim_segments (segs @ [\<lparr>g_start = start, g_hashes = hs\<rparr>])\<rparr>)"

definition partial_ranges :: "partial_read \<Rightarrow> range list" where
  "partial_ranges p = fold (\<lambda>s. insert_range (g_start s, seg_end s)) (p_segments p) []"

text \<open>\<^verbatim>\<open>line_hashes_upto\<close>: the end of the \<open>n\<close>-th line, or of the text.\<close>

fun nth_newline_end :: "nat \<Rightarrow> string \<Rightarrow> nat" where
  "nth_newline_end k [] = 0"
| "nth_newline_end k (x # s) =
     (if x = NL then (case k of 0 \<Rightarrow> 1 | Suc k' \<Rightarrow> Suc (nth_newline_end k' s)) else Suc (nth_newline_end k s))"

definition line_hashes_upto :: "engine \<Rightarrow> string \<Rightarrow> nat \<Rightarrow> hash list" where
  "line_hashes_upto g txt n = (if n = 0 then [] else line_hashes g (take (nth_newline_end (n - 1) txt) txt))"

text \<open>The runs of a segment: the start of the open run and the ranges so far.\<close>

definition run_seg :: "hash list \<Rightarrow> nat \<Rightarrow> hash \<times> nat \<Rightarrow> nat option \<times> range list \<Rightarrow> nat option \<times> range list" where
  "run_seg hs start ih s =
     (let i = snd ih; same = (get hs (start + i) = Some (fst ih))
      in case (same, fst s) of
           (True, None) \<Rightarrow> (Some (start + i), snd s)
         | (False, Some from) \<Rightarrow> (None, insert_range (from, start + i) (snd s))
         | _ \<Rightarrow> s)"

definition verified_segment :: "hash list \<Rightarrow> segment \<Rightarrow> range list \<Rightarrow> range list" where
  "verified_segment hs s out =
     (case fold (run_seg hs (g_start s)) (zip (g_hashes s) [0..<length (g_hashes s)]) (None, out) of
        (Some from, out') \<Rightarrow> insert_range (from, seg_end s) out'
      | (None, out') \<Rightarrow> out')"

definition verified :: "engine \<Rightarrow> partial_read \<Rightarrow> string \<Rightarrow> range list" where
  "verified g p txt =
     (let lst = foldr (\<lambda>s m. max (seg_end s) m) (p_segments p) 0; hs = line_hashes_upto g txt lst
      in fold (verified_segment hs) (p_segments p) [])"

definition partial_resolve :: "engine \<Rightarrow> partial_read \<Rightarrow> stat \<Rightarrow> string \<Rightarrow> nat \<Rightarrow> range list option \<Rightarrow> read_resolution" where
  "partial_resolve g p now txt lines tch =
     (if same_stat (p_stat p) now then Unchanged
      else (case tch of None \<Rightarrow> StaleR
        | Some rs \<Rightarrow>
            (let v = verified g p txt
             in if list_all (\<lambda>r. covers v (if range_empty r then (fst r - 1, min (fst r + 1) lines) else r)) rs
                then CoversR else StaleR)))"


section \<open>A diff leaves equal lines alone\<close>

lemma snap_wf_versions: "snap_wf (snapshot_of g content)" "snap_wf unknown_snapshot"
  by (simp_all add: snap_wf_def snapshot_of_def unknown_snapshot_def Let_def)

fun tiling :: "nat \<Rightarrow> nat \<Rightarrow> 'a list \<Rightarrow> 'a list \<Rightarrow> diff_op list \<Rightarrow> bool" where
  "tiling i j old new [] \<longleftrightarrow> i = length old \<and> j = length new"
| "tiling i j old new (opn # ops) \<longleftrightarrow> fst (old_range opn) = i \<and> fst (new_range opn) = j \<and>
     snd (old_range opn) \<le> length old \<and> snd (new_range opn) \<le> length new \<and>
     (is_equal_op opn \<longrightarrow> (\<forall>k < snd (new_range opn) - j. old ! (i + k) = new ! (j + k))) \<and>
     tiling (snd (old_range opn)) (snd (new_range opn)) old new ops"

lemma op_ranges: "fst (old_range opn) \<le> snd (old_range opn)" "fst (new_range opn) \<le> snd (new_range opn)"
  "is_equal_op opn \<Longrightarrow> snd (old_range opn) - fst (old_range opn) = snd (new_range opn) - fst (new_range opn)"
  by (cases opn; simp)+

lemma diff_step_lines:
  assumes "\<forall>c \<in> set out. fst (c_new c) \<le> snd (c_new c)"
  shows "(\<forall>c \<in> set (diff_step opn out). fst (c_new c) \<le> snd (c_new c)) \<and>
    lines_of (map c_new (diff_step opn out)) = lines_of (map c_new out) \<union> (if is_equal_op opn then {} else range_lines (new_range opn))"
  using assms op_ranges(2) [of opn]
  by (auto simp: diff_step_def Let_def range_lines_def split: list.splits)

lemma changes_lines:
  "lines_of (map c_new (changes_of ops)) = (\<Union>opn \<in> {opn \<in> set ops. \<not> is_equal_op opn}. range_lines (new_range opn))"
proof -
  have "(\<forall>c \<in> set out. fst (c_new c) \<le> snd (c_new c)) \<Longrightarrow> lines_of (map c_new (fold diff_step ops out)) =
      lines_of (map c_new out) \<union> (\<Union>opn \<in> {opn \<in> set ops. \<not> is_equal_op opn}. range_lines (new_range opn))" for out
  proof (induction ops arbitrary: out)
    case (Cons opn ops)
    from diff_step_lines [OF Cons.prems, of opn] have step: "\<forall>c \<in> set (diff_step opn out). fst (c_new c) \<le> snd (c_new c)"
      "lines_of (map c_new (diff_step opn out)) = lines_of (map c_new out) \<union> (if is_equal_op opn then {} else range_lines (new_range opn))"
      by blast+
    from Cons.IH [OF step(1)] show ?case by (auto simp: step(2))
  qed simp
  from this [of "[]"] show ?thesis by (simp add: changes_of_def lines_of_def)
qed

lemma tiling_kept:
  "tiling i j old new ops \<Longrightarrow> j \<le> k \<Longrightarrow> k < length new \<Longrightarrow>
   k \<notin> (\<Union>opn \<in> {opn \<in> set ops. \<not> is_equal_op opn}. range_lines (new_range opn)) \<Longrightarrow> new ! k \<in> set old"
proof (induction ops arbitrary: i j)
  case (Cons opn ops)
  show ?case
  proof (cases "k < snd (new_range opn)")
    case True
    with Cons.prems have "is_equal_op opn" by (auto simp: range_lines_def)
    moreover have "k - j < snd (new_range opn) - j" using True Cons.prems(2) by linarith
    ultimately have "old ! (i + (k - j)) = new ! k" using Cons.prems(1,2) by auto
    moreover have "i + (k - j) < length old"
      using Cons.prems(1) op_ranges [of opn] \<open>is_equal_op opn\<close> \<open>k - j < snd (new_range opn) - j\<close> by simp linarith
    ultimately show ?thesis by (metis nth_mem)
  next
    case False
    then have "snd (new_range opn) \<le> k" by simp
    moreover have "tiling (snd (old_range opn)) (snd (new_range opn)) old new ops" using Cons.prems(1) by simp
    ultimately show ?thesis using Cons.prems(3,4) Cons.IH by (metis (mono_tags, lifting) UN_iff list.set_intros(2) mem_Collect_eq)
  qed
qed simp

text \<open>A line of the new version outside every change is a line of the old one.\<close>

lemma diff_sound:
  assumes "tiling 0 0 old new (myers g old new)" "k < length new" "\<forall>c \<in> set (line_diff g old new). k \<notin> range_lines (c_new c)"
  shows "new ! k \<in> set old"
proof (rule tiling_kept [OF assms(1) _ assms(2)])
  have "k \<notin> lines_of (map c_new (changes_of (myers g old new)))" using assms(3) by (simp add: lines_of_def line_diff_def range_lines_def)
  then show "k \<notin> (\<Union>opn \<in> {opn \<in> set (myers g old new). \<not> is_equal_op opn}. range_lines (new_range opn))"
    unfolding changes_lines .
qed simp

section \<open>The memo is transparent\<close>

text \<open>Every remembered diff is the diff of two versions with the hashes of its key.\<close>

definition memo_ok :: "engine \<Rightarrow> snapshot set \<Rightarrow> memo \<Rightarrow> bool" where
  "memo_ok g V mm \<longleftrightarrow> distinct (map fst mm) \<and> length mm \<le> DIFF_MEMO_CAP \<and>
     (\<forall>(key, cs) \<in> set mm. \<exists>u \<in> V. \<exists>v \<in> V. key = (s_hash u, s_hash v) \<and> cs = diff_snapshots g u v)"

lemma memo_transparent:
  assumes ok: "memo_ok g V mm" and uv: "u \<in> V" "v \<in> V" and inj: "inj_on s_hash V"
  shows "snd (memo_diff g mm u v) = diff_snapshots g u v \<and> memo_ok g V (fst (memo_diff g mm u v))"
proof (cases "map_of mm (s_hash u, s_hash v)")
  case None
  define mm' where "mm' = mm @ [((s_hash u, s_hash v), diff_snapshots g u v)]"
  have "memo_insert (s_hash u, s_hash v) (diff_snapshots g u v) mm = drop (length mm' - DIFF_MEMO_CAP) mm'"
    using None by (simp add: memo_insert_def Let_def mm'_def)
  moreover have "distinct (map fst mm')" using ok None by (auto simp: memo_ok_def map_of_eq_None_iff mm'_def)
  then have "distinct (map fst (drop n mm'))" for n by (metis distinct_drop drop_map)
  moreover have "\<forall>(key, cs) \<in> set mm'. \<exists>u \<in> V. \<exists>v \<in> V. key = (s_hash u, s_hash v) \<and> cs = diff_snapshots g u v"
    using ok uv by (auto simp: memo_ok_def mm'_def)
  then have "\<forall>(key, cs) \<in> set (drop n mm'). \<exists>u \<in> V. \<exists>v \<in> V. key = (s_hash u, s_hash v) \<and> cs = diff_snapshots g u v" for n
    by (meson in_set_dropD)
  ultimately show ?thesis using None by (simp add: memo_diff_def memo_get_def memo_ok_def Let_def)
next
  case (Some cs)
  then have "((s_hash u, s_hash v), cs) \<in> set mm" by (rule map_of_SomeD)
  with ok obtain x y where "x \<in> V" "y \<in> V" "s_hash x = s_hash u" "s_hash y = s_hash v" "cs = diff_snapshots g x y"
    unfolding memo_ok_def by fastforce
  with inj uv have "cs = diff_snapshots g u v" by (metis inj_onD)
  with ok Some show ?thesis by (simp add: memo_diff_def memo_get_def)
qed

section \<open>The coarse answer is a superset\<close>

lemma split_inclusive_append: "xs = [] \<or> last xs = NL \<Longrightarrow> split_inclusive (xs @ ys) = split_inclusive xs @ split_inclusive ys"
proof (induction xs)
  case (Cons x xs)
  show ?case
  proof (cases "xs = []")
    case False
    with Cons have IH: "split_inclusive (xs @ ys) = split_inclusive xs @ split_inclusive ys" by simp
    moreover have "split_inclusive xs \<noteq> []" using False by (cases xs) (auto split: list.splits)
    ultimately show ?thesis by (auto split: list.splits)
  qed (use Cons.prems in auto)
qed simp

lemma count_lines: "xs = [] \<or> last xs = NL \<Longrightarrow> length (split_inclusive xs) = count_newlines xs"
proof (induction xs)
  case (Cons x xs)
  show ?case
  proof (cases "xs = []")
    case False
    with Cons have IH: "length (split_inclusive xs) = count_newlines xs" by simp
    moreover have "split_inclusive xs \<noteq> []" using False by (cases xs) (auto split: list.splits)
    ultimately show ?thesis by (auto simp: count_newlines_def split: list.splits)
  qed (use Cons.prems in \<open>auto simp: count_newlines_def\<close>)
qed (simp add: count_newlines_def)

lemma length_split_inclusive_le: "length (split_inclusive xs) \<le> Suc (count_newlines xs)"
proof (induction xs)
  case (Cons x xs)
  then show ?case
    by (cases "split_inclusive xs"; cases xs) (auto simp: count_newlines_def split: list.splits if_splits)
qed (simp add: count_newlines_def)

lemma common_length_take: "take (common_length xs ys) xs = take (common_length xs ys) ys" "common_length xs ys \<le> length xs" "common_length xs ys \<le> length ys"
  by (induction xs ys rule: common_length.induct) auto

lemma after_last_newline_spec:
  "after_last_newline s \<le> length s" "take (after_last_newline s) s = [] \<or> last (take (after_last_newline s) s) = NL"
proof -
  show "after_last_newline s \<le> length s" by (auto simp: after_last_newline_def dest: find_index_Some split: option.split)
  show "take (after_last_newline s) s = [] \<or> last (take (after_last_newline s) s) = NL"
  proof (cases "find_index (\<lambda>b. b = NL) (rev s)")
    case (Some i)
    then have i: "i < length s" "rev s ! i = NL" by (auto dest: find_index_Some)
    then have "s ! (length s - Suc i) = NL" by (simp add: rev_nth)
    moreover have "last (take (length s - i) s) = s ! (length s - Suc i)" using i(1) by (subst last_conv_nth) auto
    ultimately show ?thesis using Some by (simp add: after_last_newline_def)
  qed (simp add: after_last_newline_def)
qed

lemma prefix_spec:
  "coarse_prefix c p \<le> min (length c) (length p)" "take (coarse_prefix c p) c = take (coarse_prefix c p) p"
  "take (coarse_prefix c p) c = [] \<or> last (take (coarse_prefix c p) c) = NL"
proof -
  let ?n = "common_length c p" and ?k = "coarse_prefix c p"
  have k: "?k \<le> ?n" using after_last_newline_spec(1) [of "take ?n c"] by (simp add: coarse_prefix_def)
  then show "?k \<le> min (length c) (length p)" using common_length_take(2,3) [of c p] by linarith
  show "take ?k c = take ?k p" using common_length_take(1) [of c p] k by (metis min.absorb1 take_take)
  show "take ?k c = [] \<or> last (take ?k c) = NL"
    using after_last_newline_spec(2) [of "take ?n c"] k by (simp add: coarse_prefix_def min.absorb1)
qed

lemma last_take: "0 < n \<Longrightarrow> n \<le> length xs \<Longrightarrow> last (take n xs) = xs ! (n - 1)"
  by (subst last_conv_nth) auto

lemma suffix_spec:
  fixes c p :: string
  assumes k_def: "k = coarse_suffix c p"
  shows "coarse_prefix c p + k \<le> min (length c) (length p)" "drop (length c - k) c = drop (length p - k) p"
    "0 < k \<Longrightarrow> last (take (length c - k) c) = NL \<and> last (take (length p - k) p) = NL \<and> 0 < length c - k \<and> 0 < length p - k"
proof -
  define room where "room = min (length c) (length p) - coarse_prefix c p"
  define sh where "sh = common_length (take room (rev c)) (take room (rev p))"
  have sh: "sh \<le> room" using common_length_take(2) [of "take room (rev c)" "take room (rev p)"] by (simp add: sh_def)
  have "take sh (rev c) = take sh (rev p)"
    using common_length_take(1) [of "take room (rev c)" "take room (rev p)"] sh by (simp add: sh_def [symmetric] min.absorb1)
  then have tails: "drop (length c - sh) c = drop (length p - sh) p" by (simp add: take_rev)
  have shc: "sh \<le> length c" "sh \<le> length p" using sh room_def by linarith+
  have cases: "k = 0 \<or> (\<exists>i. k = sh - (i + 1) \<and> i < sh \<and> drop (length c - sh) c ! i = NL)"
  proof (cases "find_index (\<lambda>b. b = NL) (drop (length c - sh) c)")
    case (Some i)
    then have "k = sh - (i + 1)" by (simp add: k_def coarse_suffix_def Let_def room_def [symmetric] sh_def [symmetric])
    moreover have "i < sh" "drop (length c - sh) c ! i = NL" using find_index_Some [OF Some] shc by simp_all
    ultimately show ?thesis by blast
  qed (simp add: k_def coarse_suffix_def Let_def room_def [symmetric] sh_def [symmetric])
  show "coarse_prefix c p + k \<le> min (length c) (length p)" "drop (length c - k) c = drop (length p - k) p"
    "0 < k \<Longrightarrow> last (take (length c - k) c) = NL \<and> last (take (length p - k) p) = NL \<and> 0 < length c - k \<and> 0 < length p - k"
  proof -
    from cases have le: "k \<le> sh" by auto
    then show "coarse_prefix c p + k \<le> min (length c) (length p)" using sh prefix_spec(1) [of c p] room_def by linarith
    have "drop (sh - k) (drop (length c - sh) c) = drop (length c - k) c" "drop (sh - k) (drop (length p - sh) p) = drop (length p - k) p"
      using le shc by simp_all
    then show "drop (length c - k) c = drop (length p - k) p" using tails by simp
    assume "0 < k"
    with cases obtain i where i: "k = sh - (i + 1)" "i < sh" "drop (length c - sh) c ! i = NL" by auto
    have "length c - sh + i = length c - k - 1" "length p - sh + i = length p - k - 1" using i(1) \<open>0 < k\<close> shc by linarith+
    moreover have "drop (length p - sh) p ! i = NL" using i(3) tails by simp
    ultimately have "c ! (length c - k - 1) = NL" "p ! (length p - k - 1) = NL" using i(3) by simp_all
    moreover have pos: "0 < length c - k" "0 < length p - k" using i(1) \<open>0 < k\<close> shc i(2) by linarith+
    ultimately show "last (take (length c - k) c) = NL \<and> last (take (length p - k) p) = NL \<and> 0 < length c - k \<and> 0 < length p - k"
      using last_take [of "length c - k" c] last_take [of "length p - k" p] by simp
  qed
qed

lemma ends_with_last: "ends_with s [b] \<Longrightarrow> last s = b"
  by (metis ends_with_def append_take_drop_id last_snoc)

lemma touched_prefix:
  "split_inclusive x = split_inclusive (take (coarse_prefix c p) c) @ split_inclusive (drop (coarse_prefix c p) x)" if "x = c \<or> x = p"
proof -
  let ?n = "coarse_prefix c p"
  have "x = take ?n c @ drop ?n x" using that prefix_spec(2) [of c p] by (metis append_take_drop_id)
  then show ?thesis using split_inclusive_append [of "take ?n c" "drop ?n x"] prefix_spec(3) [of c p] by metis
qed

lemma touched_suffix:
  assumes "x = c \<or> x = p" "0 < coarse_suffix c p"
  shows "split_inclusive x = split_inclusive (take (length x - coarse_suffix c p) x) @ split_inclusive (drop (length c - coarse_suffix c p) c)"
proof -
  let ?k = "coarse_suffix c p"
  have "drop (length x - ?k) x = drop (length c - ?k) c" "last (take (length x - ?k) x) = NL"
    using assms suffix_spec(2,3) [OF refl, of c p] by auto
  then show ?thesis by (metis append_take_drop_id split_inclusive_append)
qed

text \<open>The coarse answer for large texts is a superset.  Writing \<open>p\<close> over \<open>c\<close> keeps every line of
  \<open>c\<close> before the reported range and every line after it: \<open>p\<close> is these lines with something else
  in between.\<close>

theorem touched_coarse_sound:
  assumes t: "touched_coarse c p = [(s, e)]"
  shows "s \<le> e \<and> (\<exists>mid. split_inclusive p = take s (split_inclusive c) @ mid @ drop e (split_inclusive c))"
proof -
  let ?n = "coarse_prefix c p" and ?k = "coarse_suffix c p"
  let ?P = "split_inclusive (take ?n c)" and ?S = "split_inclusive (drop (length c - ?k) c)"
  let ?e0 = "count_newlines (take (length c - ?k) c)"
  have s: "s = length ?P" using t prefix_spec(3) [of c p] count_lines [of "take ?n c"] by (auto simp: touched_coarse_def Let_def split: if_splits)
  have e: "e = max (if ?k = 0 \<and> \<not> ends_with c [NL] \<and> c \<noteq> [] then ?e0 + 1 else ?e0) s"
    using t by (auto simp: touched_coarse_def Let_def split: if_splits)
  have start: "take s (split_inclusive c) = ?P" using touched_prefix [of c c p] s by simp
  show ?thesis
  proof (cases "?k = 0")
    case True
    have "ends_with c [NL] \<or> c = [] \<Longrightarrow> length (split_inclusive c) = count_newlines c"
      using count_lines [of c] ends_with_last [of c] by blast
    then have "length (split_inclusive c) \<le> e" using e True length_split_inclusive_le [of c] by auto
    then show ?thesis using e start touched_prefix [of p c p] by auto
  next
    case False
    then have k: "0 < ?k" by simp
    note suf = suffix_spec [OF refl, of c p]
    have "?e0 = length (split_inclusive (take (length c - ?k) c))" using suf(3) [OF k] count_lines by metis
    moreover have "split_inclusive (take (length c - ?k) c) = ?P @ split_inclusive (drop ?n (take (length c - ?k) c))"
    proof -
      have "?n \<le> length c - ?k" using suf(1) by linarith
      then have "take ?n (take (length c - ?k) c) = take ?n c" by (simp add: min.absorb1)
      then show ?thesis using split_inclusive_append prefix_spec(3) [of c p] by (metis append_take_drop_id)
    qed
    ultimately have "e = length (split_inclusive (take (length c - ?k) c))" "s \<le> e" using e False s by auto
    then have fin: "drop e (split_inclusive c) = ?S" using touched_suffix [OF _ k, of c] by simp
    have "split_inclusive (take (length p - ?k) p) = ?P @ split_inclusive (drop ?n (take (length p - ?k) p))"
    proof -
      have "?n \<le> length p - ?k" using suf(1) by linarith
      then have "take ?n (take (length p - ?k) p) = take ?n c" using prefix_spec(2) [of c p] by (simp add: min.absorb1)
      then show ?thesis using split_inclusive_append prefix_spec(3) [of c p] by (metis append_take_drop_id)
    qed
    then show ?thesis using touched_suffix [OF _ k, of p] start fin \<open>s \<le> e\<close> by auto
  qed
qed
theorem touched_coarse_sound_witness:
  "touched_coarse [CHR ''a'', NL, CHR ''b'', NL, CHR ''c'', NL, CHR ''d'', NL] [CHR ''a'', NL, CHR ''x'', NL, CHR ''c'', NL, CHR ''d'', NL] = [(1, 2)] \<and>
   (\<exists>mid. split_inclusive [CHR ''a'', NL, CHR ''x'', NL, CHR ''c'', NL, CHR ''d'', NL] = [CHR ''a'', NL] # mid @ [[CHR ''c'', NL], [CHR ''d'', NL]])"
proof
  let ?c = "[CHR ''a'', NL, CHR ''b'', NL, CHR ''c'', NL, CHR ''d'', NL]" and ?p = "[CHR ''a'', NL, CHR ''x'', NL, CHR ''c'', NL, CHR ''d'', NL]"
  show t: "touched_coarse ?c ?p = [(1, 2)]" by code_simp
  from touched_coarse_sound [OF t] show "\<exists>mid. split_inclusive ?p = [CHR ''a'', NL] # mid @ [[CHR ''c'', NL], [CHR ''d'', NL]]"
    by (simp add: numeral_eq_Suc)
qed

end
