(* ===== verification/Ledger.thy ===== *)
theory Ledger
  imports Snapshots "HOL-Library.AList"
begin

text \<open>
  The edit ledger: \<^verbatim>\<open>types.rs\<close>, \<^verbatim>\<open>entry.rs\<close>, \<^verbatim>\<open>state.rs\<close> and \<^verbatim>\<open>render.rs\<close> of
  \<^verbatim>\<open>crates/pacode-core/src/ledger\<close>, and the calls of \<^verbatim>\<open>ledger.rs\<close> that compose them.  The table of
  paths is an association list (every operation finds a path by its key, and eviction takes
  the smallest tick, which the order of a hash map cannot influence); what each agent has
  seen of a path is a map.  A diff comes from the memo, whose answer is \<^const>\<open>diff_snapshots\<close>
  (\<open>memo_transparent\<close> below); file contents, stats and canonical keys are arguments.
\<close>

section \<open>Writers, drift and verdicts\<close>

type_synonym agent = string
type_synonym path = string

datatype writer = AgentW agent string | External

definition writer_describe :: "agent \<Rightarrow> writer \<Rightarrow> string" where
  "writer_describe viewer w =
     (case w of AgentW i name \<Rightarrow> if i = viewer then ''agent '' @ name @ '' (you)'' else ''agent '' @ name
      | External \<Rightarrow> ''external (an editor or a process outside pacode)'')"

record drift =
  d_writers :: "writer list"
  d_changes :: "change list"
  d_lines :: nat
  d_coarse :: bool

datatype verdict = Clean | Disjoint drift | NotRead | Conflict drift

section \<open>Entries\<close>

definition MAX_LOG :: nat where
  "MAX_LOG = 32"

record seen =
  n_base :: snapshot
  n_fresh :: "range list"
  n_fresh_hash :: hash
  n_wrote :: bool
  n_at :: nat
  n_partial :: "partial_read option"

definition at_version :: "snapshot \<Rightarrow> nat \<Rightarrow> seen" where
  "at_version snap tick =
     \<lparr>n_base = snap, n_fresh = [], n_fresh_hash = s_hash snap, n_wrote = False, n_at = tick, n_partial = None\<rparr>"

record path_entry =
  e_current :: snapshot
  e_stat :: stat
  e_last_writer :: "writer option"
  e_log :: "(hash \<times> writer) list"
  e_seen :: "agent \<rightharpoonup> seen"
  e_last_used :: nat
  e_pending :: bool

definition new_entry :: "snapshot \<Rightarrow> stat \<Rightarrow> nat \<Rightarrow> path_entry" where
  "new_entry snap st tick =
     \<lparr>e_current = snap, e_stat = st, e_last_writer = None, e_log = [], e_seen = Map.empty, e_last_used = tick,
      e_pending = False\<rparr>"

definition pending_entry :: "stat \<Rightarrow> nat \<Rightarrow> path_entry" where
  "pending_entry st tick = (new_entry unknown_snapshot st tick)\<lparr>e_pending := True\<rparr>"

definition advance_entry :: "snapshot \<Rightarrow> stat \<Rightarrow> writer \<Rightarrow> path_entry \<Rightarrow> path_entry" where
  "advance_entry snap st w e =
     (let e = e\<lparr>e_stat := st\<rparr>
      in if e_pending e then e\<lparr>e_pending := False, e_current := snap, e_last_writer := Some w\<rparr>
         else if s_hash snap = s_hash (e_current e) then e
         else
           (let log = e_log e @ [(s_hash snap, w)]
            in e\<lparr>e_current := snap, e_log := drop (length log - MAX_LOG) log, e_last_writer := Some w\<rparr>))"

fun distinct_writers :: "writer list \<Rightarrow> writer list \<Rightarrow> writer list" where
  "distinct_writers [] out = out"
| "distinct_writers (w # ws) out = distinct_writers ws (if w \<in> set out then out else out @ [w])"

definition writers_since :: "hash \<Rightarrow> path_entry \<Rightarrow> writer list" where
  "writers_since base e =
     (let start = (case find_index (\<lambda>l. fst l = base) (rev (e_log e)) of Some i \<Rightarrow> length (e_log e) - i | None \<Rightarrow> 0);
          out = distinct_writers (map snd (drop start (e_log e))) []
      in if out = [] then [case e_last_writer e of Some w \<Rightarrow> w | None \<Rightarrow> External] else out)"

definition unacked_changes :: "engine \<Rightarrow> snapshot \<Rightarrow> snapshot \<Rightarrow> range list \<Rightarrow> bool \<Rightarrow> change list" where
  "unacked_changes g base current fresh fresh_now =
     (if s_hash base = s_hash current then []
      else filter (\<lambda>c. \<not> (fresh_now \<and> covers fresh (visible (c_new c) (s_total current)))) (diff_snapshots g base current))"

definition unacked :: "engine \<Rightarrow> path_entry \<Rightarrow> seen \<Rightarrow> change list" where
  "unacked g e s = unacked_changes g (n_base s) (e_current e) (n_fresh s) (n_fresh_hash s = s_hash (e_current e))"

definition drift_of :: "path_entry \<Rightarrow> seen \<Rightarrow> change list \<Rightarrow> drift" where
  "drift_of e s cs =
     \<lparr>d_writers = writers_since (s_hash (n_base s)) e, d_changes = cs, d_lines = s_total (e_current e),
      d_coarse = s_whole (n_base s) \<or> s_whole (e_current e)\<rparr>"

section \<open>The state\<close>

definition MAX_PATHS :: nat where
  "MAX_PATHS = 2048"

record ledger =
  l_entries :: "(path \<times> path_entry) list"
  l_tick :: nat
  l_cap :: nat

definition with_cap :: "nat \<Rightarrow> ledger" where
  "with_cap cap = \<lparr>l_entries = [], l_tick = 0, l_cap = max cap 1\<rparr>"

definition lookup :: "path \<Rightarrow> ledger \<Rightarrow> path_entry option" where
  "lookup p l = map_of (l_entries l) p"

definition put_entry :: "path \<Rightarrow> path_entry \<Rightarrow> ledger \<Rightarrow> ledger" where
  "put_entry p e l = l\<lparr>l_entries := AList.update p e (l_entries l)\<rparr>"

definition peek_base :: "agent \<Rightarrow> path \<Rightarrow> ledger \<Rightarrow> snapshot option" where
  "peek_base a p l = (case lookup p l of None \<Rightarrow> None | Some e \<Rightarrow> map_option n_base (e_seen e a))"

definition peek_partial :: "agent \<Rightarrow> path \<Rightarrow> ledger \<Rightarrow> partial_read option" where
  "peek_partial a p l =
     (case lookup p l of None \<Rightarrow> None | Some e \<Rightarrow> (case e_seen e a of None \<Rightarrow> None | Some s \<Rightarrow> n_partial s))"

definition bump :: "ledger \<Rightarrow> ledger" where
  "bump l = l\<lparr>l_tick := l_tick l + 1\<rparr>"

text \<open>\<^verbatim>\<open>min_by_key\<close> of the tick.\<close>

fun least_used :: "(path \<times> path_entry) list \<Rightarrow> path option" where
  "least_used [] = None"
| "least_used [(p, e)] = Some p"
| "least_used ((p, e) # (q, f) # es) =
     (if e_last_used e \<le> e_last_used f then least_used ((p, e) # es) else least_used ((q, f) # es))"

definition evict_one :: "nat \<Rightarrow> (path \<times> path_entry) list \<Rightarrow> (path \<times> path_entry) list option" where
  "evict_one cap es =
     (if cap \<le> length es then (case least_used es of Some p \<Rightarrow> Some (AList.delete p es) | None \<Rightarrow> None) else None)"

definition evict_for_insert :: "ledger \<Rightarrow> ledger" where
  "evict_for_insert l = l\<lparr>l_entries := loop (Suc (length (l_entries l))) (evict_one (l_cap l)) (l_entries l)\<rparr>"

text \<open>\<^verbatim>\<open>if !contains_key { evict }\<close>, then \<^verbatim>\<open>entry(..).or_insert_with(..)\<close>.\<close>

definition ensure_entry :: "path \<Rightarrow> path_entry \<Rightarrow> ledger \<Rightarrow> ledger" where
  "ensure_entry p fresh_entry l =
     (case lookup p l of Some e \<Rightarrow> l | None \<Rightarrow> put_entry p fresh_entry (evict_for_insert l))"

text \<open>The entry \<^verbatim>\<open>or_insert_with\<close> returns.\<close>

definition entry_or :: "path \<Rightarrow> path_entry \<Rightarrow> ledger \<Rightarrow> path_entry" where
  "entry_or p fresh_entry l = (case lookup p l of Some e \<Rightarrow> e | None \<Rightarrow> fresh_entry)"

definition sync :: "path \<Rightarrow> snapshot \<Rightarrow> stat \<Rightarrow> writer \<Rightarrow> ledger \<Rightarrow> ledger \<times> path_entry \<times> nat" where
  "sync p snap st w l =
     (let l = bump l; tick = l_tick l; fe = new_entry snap st tick;
          e = (advance_entry snap st w (entry_or p fe l))\<lparr>e_last_used := tick\<rparr>
      in (put_entry p e (ensure_entry p fe l), e, tick))"

definition put_seen :: "agent \<Rightarrow> seen \<Rightarrow> path_entry \<Rightarrow> path_entry" where
  "put_seen a s e = e\<lparr>e_seen := (e_seen e)(a \<mapsto> s)\<rparr>"

definition refreshed :: "hash \<Rightarrow> seen \<Rightarrow> seen" where
  "refreshed h s = (if n_fresh_hash s \<noteq> h then s\<lparr>n_fresh := [], n_fresh_hash := h\<rparr> else s)"

definition seen_or_new :: "agent \<Rightarrow> nat \<Rightarrow> path_entry \<Rightarrow> seen" where
  "seen_or_new a tick e = (case e_seen e a of Some s \<Rightarrow> s | None \<Rightarrow> at_version (e_current e) tick)"

definition record_read :: "engine \<Rightarrow> agent \<Rightarrow> path \<Rightarrow> snapshot \<Rightarrow> stat \<Rightarrow> range \<Rightarrow> ledger \<Rightarrow> ledger" where
  "record_read g a p snap st lines l =
     (case sync p snap st External l of (l, e, tick) \<Rightarrow>
        (let current = e_current e;
             whole = (fst lines = 0 \<and> s_total current \<le> snd lines);
             s = refreshed (s_hash current) (seen_or_new a tick e);
             s = s\<lparr>n_fresh := insert_range lines (n_fresh s), n_wrote := False, n_at := tick, n_partial := None\<rparr>;
             s = (if whole \<or> unacked g e s = [] then s\<lparr>n_base := current\<rparr> else s)
         in put_entry p (put_seen a s e) l))"

definition record_read_range :: "engine \<Rightarrow> agent \<Rightarrow> path \<Rightarrow> stat \<Rightarrow> nat \<Rightarrow> hash list \<Rightarrow> ledger \<Rightarrow> ledger" where
  "record_read_range g a p st first hs l =
     (let l = bump l; tick = l_tick l; fe = pending_entry st tick;
          e = (entry_or p fe l)\<lparr>e_last_used := tick\<rparr>;
          current = e_current e;
          s = (seen_or_new a tick e)\<lparr>n_wrote := False, n_at := tick\<rparr>;
          s = (if \<not> e_pending e \<and> same_stat (e_stat e) st then
                 (let s = refreshed (s_hash current) s;
                      s = s\<lparr>n_fresh := insert_range (first, first + length hs) (n_fresh s), n_partial := None\<rparr>
                  in if unacked g e s = [] then s\<lparr>n_base := current\<rparr> else s)
               else s\<lparr>n_partial := Some (merged_partial (n_partial s) st first hs)\<rparr>)
      in put_entry p (put_seen a s e) (ensure_entry p fe l))"

definition apply_partial :: "agent \<Rightarrow> path \<Rightarrow> snapshot \<Rightarrow> stat \<Rightarrow> read_resolution \<Rightarrow> ledger \<Rightarrow> ledger \<times> bool" where
  "apply_partial a p snap st r l =
     (case sync p snap st External l of (l, e, tick) \<Rightarrow>
        (case r of CoversR \<Rightarrow> (l, True) | StaleR \<Rightarrow> (l, False)
         | Unchanged \<Rightarrow>
             (case e_seen e a of None \<Rightarrow> (l, False)
              | Some s \<Rightarrow>
                  (case n_partial s of None \<Rightarrow> (l, False)
                   | Some pr \<Rightarrow>
                       (put_entry p (put_seen a (s\<lparr>n_partial := None, n_base := e_current e, n_fresh_hash := s_hash (e_current e),
                            n_fresh := partial_ranges pr, n_at := tick\<rparr>) e) l, False)))))"

definition ledger_check ::
  "engine \<Rightarrow> agent \<Rightarrow> path \<Rightarrow> (snapshot \<times> stat) option \<Rightarrow> range list option \<Rightarrow> ledger \<Rightarrow> ledger \<times> verdict" where
  "ledger_check g a p current tch l =
     (case current of None \<Rightarrow> (l, Clean)
      | Some (snap, st) \<Rightarrow>
          (case sync p snap st External l of (l, e, tick) \<Rightarrow>
             (case e_seen e a of None \<Rightarrow> (l, NotRead)
              | Some s \<Rightarrow>
                  (let cs = unacked g e s
                   in if cs = [] then (put_entry p (put_seen a (s\<lparr>n_base := e_current e\<rparr>) e) l, Clean)
                      else
                        (let conflict = (case tch of None \<Rightarrow> True
                               | Some rs \<Rightarrow> list_ex (\<lambda>c. list_ex (overlaps (c_new c)) rs) cs);
                             d = drift_of e s cs
                         in (l, if conflict then Conflict d else Disjoint d))))))"

definition ack :: "engine \<Rightarrow> agent \<Rightarrow> path \<Rightarrow> range list \<Rightarrow> ledger \<Rightarrow> ledger" where
  "ack g a p lines l =
     (let l = bump l; tick = l_tick l
      in case lookup p l of None \<Rightarrow> l
         | Some e \<Rightarrow>
             (case e_seen e a of None \<Rightarrow> l
              | Some s \<Rightarrow>
                  (let s = refreshed (s_hash (e_current e)) s;
                       s = s\<lparr>n_fresh := fold insert_range lines (n_fresh s), n_at := tick\<rparr>;
                       s = (if unacked g e s = [] then s\<lparr>n_base := e_current e\<rparr> else s)
                   in put_entry p (put_seen a s e) l)))"

definition record_write :: "engine \<Rightarrow> agent \<Rightarrow> string \<Rightarrow> path \<Rightarrow> snapshot \<Rightarrow> stat \<Rightarrow> ledger \<Rightarrow> ledger" where
  "record_write g a name p snap st l =
     (let w = AgentW a name; before = lookup p l
      in case sync p snap st w l of (l, e, tick) \<Rightarrow>
           (let fresh = (case before of Some prev \<Rightarrow> fold (\<lambda>c. insert_range (c_new c)) (diff_snapshots g (e_current prev) snap) []
                  | None \<Rightarrow> insert_range (0, s_total snap) []);
                e = (if before = None then e\<lparr>e_last_writer := Some w\<rparr> else e)
            in put_entry p (put_seen a \<lparr>n_base = snap, n_fresh = fresh, n_fresh_hash = s_hash snap, n_wrote = True,
                 n_at = tick, n_partial = None\<rparr> e) l))"

definition refresh :: "agent \<Rightarrow> string \<Rightarrow> path \<Rightarrow> snapshot \<Rightarrow> stat \<Rightarrow> ledger \<Rightarrow> ledger \<times> bool" where
  "refresh a name p snap st l =
     (let l = bump l; tick = l_tick l
      in case lookup p l of None \<Rightarrow> (l, False)
         | Some e \<Rightarrow>
             (let e = e\<lparr>e_last_used := tick\<rparr>
              in if s_hash snap = s_hash (e_current e) then (put_entry p (e\<lparr>e_stat := st\<rparr>) l, False)
                 else
                   (let in_sync = (case e_seen e a of Some s \<Rightarrow> s_hash (n_base s) = s_hash (e_current e) | None \<Rightarrow> False);
                        e = advance_entry snap st (AgentW a name) e;
                        e = (case e_seen e a of
                               Some s \<Rightarrow> if in_sync then put_seen a (s\<lparr>n_fresh_hash := s_hash snap, n_fresh := [], n_base := snap, n_at := tick\<rparr>) e
                                         else e
                             | None \<Rightarrow> e)
                    in (put_entry p e l, True))))"

definition refresh_candidates :: "agent \<Rightarrow> nat \<Rightarrow> ledger \<Rightarrow> (path \<times> stat) list" where
  "refresh_candidates a limit l =
     (let rows = filter (\<lambda>(p, e). e_seen e a \<noteq> None \<or> e_last_writer e \<noteq> None) (l_entries l)
      in map (\<lambda>(p, e). (p, e_stat e)) (take limit (rev (sort_key (\<lambda>(p, e). e_last_used e) (rev rows)))))"

definition copy_agent :: "agent \<Rightarrow> agent \<Rightarrow> ledger \<Rightarrow> ledger" where
  "copy_agent from to l =
     l\<lparr>l_entries := map (\<lambda>(p, e). (p, case e_seen e from of Some s \<Rightarrow> put_seen to s e | None \<Rightarrow> e)) (l_entries l)\<rparr>"

text \<open>The sweep after a command.  The stats of the files, their contents, and which of them a
  writer holds at the moment come from outside.\<close>

definition REFRESH_MAX_PATHS :: nat where
  "REFRESH_MAX_PATHS = 256"

definition changed_paths :: "(path \<Rightarrow> stat option) \<Rightarrow> (path \<times> stat) list \<Rightarrow> path list" where
  "changed_paths metadata candidates =
     List.map_filter
       (\<lambda>(p, known). case metadata p of None \<Rightarrow> None | Some now \<Rightarrow> if now \<noteq> known then Some p else None) candidates"

fun refresh_files ::
    "agent \<Rightarrow> string \<Rightarrow> (path \<Rightarrow> bool) \<Rightarrow> (path \<Rightarrow> (snapshot \<times> stat) option) \<Rightarrow> path list \<Rightarrow> ledger \<Rightarrow> ledger" where
  "refresh_files a name locked content [] l = l"
| "refresh_files a name locked content (p # ps) l =
     (if locked p then refresh_files a name locked content ps l
      else case content p of None \<Rightarrow> refresh_files a name locked content ps l
           | Some (snap, st) \<Rightarrow> refresh_files a name locked content ps (fst (refresh a name p snap st l)))"

definition refresh_sweep ::
    "agent \<Rightarrow> string \<Rightarrow> (path \<Rightarrow> stat option) \<Rightarrow> (path \<Rightarrow> bool) \<Rightarrow> (path \<Rightarrow> (snapshot \<times> stat) option) \<Rightarrow> ledger \<Rightarrow>
     ledger" where
  "refresh_sweep a name metadata locked content l =
     (let candidates = refresh_candidates a REFRESH_MAX_PATHS l
      in if candidates = [] then l else refresh_files a name locked content (changed_paths metadata candidates) l)"


section \<open>Messages\<close>

definition CONTEXT :: nat where "CONTEXT = 2"
definition DIGEST_MAX_LINES :: nat where "DIGEST_MAX_LINES = 20"
definition DIGEST_MAX_ROWS :: nat where "DIGEST_MAX_ROWS = DIGEST_MAX_LINES - 3"

datatype write_intent = WriteI | EditI | HashlineI

definition not_read :: "string \<Rightarrow> string" where
  "not_read shw = ''read '' @ shw @ '' first: the file exists but you have not read it (or your read state for it was dropped), and other agents may be editing it. Read it, then retry.''"

definition who :: "drift \<Rightarrow> agent \<Rightarrow> string" where
  "who d viewer = join_with '' and '' (map (writer_describe viewer) (d_writers d))"

definition regions :: "drift \<Rightarrow> range list" where
  "regions d = map (\<lambda>c. visible (c_new c) (d_lines d)) (d_changes d)"

definition list_regions :: "range list \<Rightarrow> string \<Rightarrow> string" where
  "list_regions rs prefix =
     (let parts = map (\<lambda>r. describe r prefix) (filter (\<lambda>r. \<not> range_empty r) rs)
      in if parts = [] then prefix @ ''1'' else join_with '', '' parts)"

definition drift_summary :: "drift \<Rightarrow> nat \<times> string \<times> string" where
  "drift_summary d =
     (sum_list (map change_size (d_changes d)), list_regions (regions d) ''L'', list_regions (regions d) [])"

definition conflict_windows :: "drift \<Rightarrow> range list" where
  "conflict_windows d = fold (\<lambda>r. insert_range (fst r - CONTEXT, min (snd r + CONTEXT) (d_lines d))) (regions d) []"

definition render_conflict :: "string \<Rightarrow> drift \<Rightarrow> agent \<Rightarrow> string \<Rightarrow> write_intent \<Rightarrow> string \<times> range list" where
  "render_conflict shw d viewer content intent =
     (if d_coarse d then
        (shw @ '' was modified by '' @ who d viewer @ '' after you read it (it is too large to say which lines changed). Read the lines you want to change again with `read` (offset/limit) before writing.'', [])
      else
        (case drift_summary d of (n, lat, plain) \<Rightarrow>
           (let msg = shw @ '' was modified by '' @ who d viewer @ '' ('' @ show_nat n @ '' lines changed at '' @ lat @ '') after you read it. Read '' @ shw @ '' lines '' @ plain @ '' again before writing.'';
                msg = msg @ (case intent of
                   WriteI \<Rightarrow> '' A full `write` must not revert those lines; prefer `edit`, which only checks the lines you change.''
                 | EditI \<Rightarrow> [] | HashlineI \<Rightarrow> []);
                windows = conflict_windows d;
                rows = line_count windows + length windows
            in if windows = [] \<or> MAX_CONTEXT_LINES < rows then
                 (msg @ NL # ''Too many lines changed to show them here: read those lines with `read` (offset/limit), then retry.'', [])
               else
                 (msg @ NL # ''Current lines (`>` = changed; anchors are fresh and these lines now count as read, so you can retry right away):'' @ [NL] @
                    snippet content (regions d) CONTEXT MAX_CONTEXT_LINES True, windows))))"

definition partial_note :: "string \<Rightarrow> string" where
  "partial_note shw = ''Note: '' @ shw @ '' changed since your ranged read, but the lines your change touches are as you saw them; your change was applied.''"

definition disjoint_note :: "string \<Rightarrow> drift \<Rightarrow> agent \<Rightarrow> string" where
  "disjoint_note shw d viewer =
     (case drift_summary d of (n, lat, plain) \<Rightarrow>
        ''Note: '' @ shw @ '' was also modified by '' @ who d viewer @ '' since you read it ('' @ show_nat n @ '' lines changed at '' @ lat @ ''); your change did not touch those lines and was applied. Re-read '' @ shw @ '' lines '' @ plain @ '' only if your change depends on them.'')"

text \<open>The digest of an agent's files: what the state hands out under its lock, and the row made of
  it once the diff has run.\<close>

record digest_input =
  di_path :: path
  di_wrote :: bool
  di_read :: "range list"
  di_fresh_now :: bool
  di_base :: snapshot
  di_current :: snapshot
  di_writers :: "writer list"

record digest_row =
  dr_path :: path
  dr_version :: string
  dr_wrote :: bool
  dr_read :: "range list"
  dr_drift :: "drift option"

definition digest_resolve :: "engine \<Rightarrow> digest_input \<Rightarrow> digest_row" where
  "digest_resolve g i =
     (let cs = unacked_changes g (di_base i) (di_current i) (di_read i) (di_fresh_now i)
      in \<lparr>dr_path = di_path i, dr_version = snapshot_short (di_current i), dr_wrote = di_wrote i, dr_read = di_read i,
          dr_drift = (if cs = [] then None
            else Some \<lparr>d_writers = di_writers i, d_changes = cs, d_lines = s_total (di_current i),
              d_coarse = s_whole (di_base i) \<or> s_whole (di_current i)\<rparr>)\<rparr>)"

definition digest_inputs :: "agent \<Rightarrow> nat \<Rightarrow> ledger \<Rightarrow> digest_input list \<times> nat" where
  "digest_inputs a limit l =
     (let rows = List.map_filter (\<lambda>(p, e). map_option (\<lambda>s. (p, e, s)) (e_seen e a)) (l_entries l);
          rows = rev (sort_key (\<lambda>(p, e, s). n_at s) (rev rows));
          input = (\<lambda>(p, e, s).
            (let fresh_now = (n_fresh_hash s = s_hash (e_current e))
             in \<lparr>di_path = p, di_wrote = n_wrote s, di_read = (if fresh_now then n_fresh s else []), di_fresh_now = fresh_now,
                 di_base = n_base s, di_current = e_current e,
                 di_writers = (if s_hash (n_base s) = s_hash (e_current e) then [] else writers_since (s_hash (n_base s)) e)\<rparr>))
      in (map input (take limit rows), length rows - limit))"

definition digest_status :: "agent \<Rightarrow> digest_row \<Rightarrow> string" where
  "digest_status viewer row =
     (case dr_drift row of
        Some d \<Rightarrow> (case drift_summary d of (n, lat, plain) \<Rightarrow>
          ''MODIFIED by '' @ who d viewer @ '' after your read ('' @ show_nat n @ '' lines at '' @ lat @ ''): read lines '' @ plain @ '' again before writing'')
      | None \<Rightarrow>
          if dr_wrote row then ''last written by you; in sync''
          else if dr_read row = [] then ''in sync''
          else
            (let ranges = map (\<lambda>r. describe r ''L'') (take 4 (dr_read row)) @ (if 4 < length (dr_read row) then [''...''] else [])
             in ''read '' @ join_with '', '' ranges @ ''; in sync''))"

definition digest :: "(string \<times> digest_row) list \<Rightarrow> nat \<Rightarrow> agent \<Rightarrow> string option" where
  "digest rows omitted viewer =
     (if rows = [] then None
      else
        (let out = ''## Files you read or wrote (ledger, verbatim)'' @ [NL] @ ''Other agents may be editing these too. Earlier `read` output was compacted away: re-read before a hashline edit. Files not listed must be read before you change them.'' @ [NL];
             out = out @ concat (map (\<lambda>(shw, row). ''- '' @ shw @ '' @'' @ dr_version row @ '': '' @ digest_status viewer row @ [NL]) rows);
             out = out @ (if 0 < omitted then ''- ('' @ show_nat omitted @ '' older files omitted)'' @ [NL] else [])
         in Some (trim_end_matches is_whitespace out)))"

section \<open>The calls of the tools\<close>

text \<open>\<^verbatim>\<open>FileLedger::check\<close>: the key, the content and its stat are arguments, \<^verbatim>\<open>None\<close> for a file that does
  not exist.  A deferred ranged read is settled first; a conflict that shows lines counts
  them as read.\<close>

definition file_check ::
  "engine \<Rightarrow> agent \<Rightarrow> path \<Rightarrow> string \<Rightarrow> write_intent \<Rightarrow> (string \<times> stat) option \<Rightarrow> string option \<Rightarrow> ledger \<Rightarrow>
   ledger \<times> (string + string option)" where
  "file_check g a p shw intent current proposed l =
     (let now = map_option (\<lambda>(txt, st). (snapshot_of g txt, st)) current;
          tch = (case (current, proposed) of (Some (c, _), Some pr) \<Rightarrow> Some (touched g c pr) | _ \<Rightarrow> None);
          txt = (case current of Some (t, _) \<Rightarrow> t | None \<Rightarrow> []);
          settled = (case now of
              Some (snap, st) \<Rightarrow>
                (case (if s_whole snap then peek_partial a p l else None) of
                   Some pr \<Rightarrow> apply_partial a p snap st (partial_resolve g pr st txt (s_total snap) tch) l
                 | None \<Rightarrow> (l, False))
            | None \<Rightarrow> (l, False))
      in if snd settled then (fst settled, Inr (Some (partial_note shw)))
         else
           (case ledger_check g a p now tch (fst settled) of (l, v) \<Rightarrow>
              (case v of
                 Clean \<Rightarrow> (l, Inr None)
               | Disjoint d \<Rightarrow> (l, Inr (Some (disjoint_note shw d a)))
               | NotRead \<Rightarrow> (l, Inl (not_read shw))
               | Conflict d \<Rightarrow>
                   (case render_conflict shw d a txt intent of (msg, lines) \<Rightarrow>
                      (if lines = [] then l else ack g a p lines l, Inl msg)))))"

definition file_record_read :: "engine \<Rightarrow> agent \<Rightarrow> path \<Rightarrow> string \<Rightarrow> stat \<Rightarrow> range \<Rightarrow> ledger \<Rightarrow> ledger" where
  "file_record_read g a p content st lines l = record_read g a p (snapshot_of g content) st lines l"

definition file_record_read_range :: "engine \<Rightarrow> agent \<Rightarrow> path \<Rightarrow> stat \<Rightarrow> nat \<Rightarrow> string list \<Rightarrow> ledger \<Rightarrow> ledger" where
  "file_record_read_range g a p st first lines l =
     (if lines = [] then l else record_read_range g a p st first (map (hash_line g) lines) l)"

definition file_record_write :: "engine \<Rightarrow> agent \<Rightarrow> string \<Rightarrow> path \<Rightarrow> string \<Rightarrow> stat \<Rightarrow> ledger \<Rightarrow> ledger" where
  "file_record_write g a name p content st l = record_write g a name p (snapshot_of g content) st l"

section \<open>What an agent knows\<close>

text \<open>A history of what happened, kept beside the ledger: observations of a version at a stat,
  lines shown to an agent, first contacts, writes, commands and ranged reads of large files.
  A version is named by its hash.\<close>

datatype event =
    Obs path stat hash
  | Shown agent path hash "nat set"
  | Met agent path hash
  | Wrote agent path hash
  | Ran agent path hash hash
  | Ranged agent path hash

definition shown :: "event set \<Rightarrow> agent \<Rightarrow> path \<Rightarrow> hash \<Rightarrow> nat set" where
  "shown H a p h = \<Union>{ls. Shown a p h ls \<in> H}"

text \<open>The versions a file goes through are a set given from outside; a stub whose file has not been
  read yet holds the unknown one.\<close>

type_synonym versions = "path \<Rightarrow> snapshot set"

definition a_version :: "versions \<Rightarrow> path \<Rightarrow> snapshot \<Rightarrow> bool" where
  "a_version V p v \<longleftrightarrow> snap_wf v \<and> v \<in> insert unknown_snapshot (V p)"

lemma unknown_version [simp]: "a_version V p unknown_snapshot"
  by (simp add: a_version_def snap_wf_versions)

lemma any_version: "a_version (\<lambda>q. UNIV) p v \<longleftrightarrow> snap_wf v"
  by (simp add: a_version_def)

text \<open>The versions an agent may take as known: the one it met the file at, one it wrote, one its
  own command made of a known one, one it read whole or (of a large file) in part, and one
  all of whose changes against a known version it was shown.\<close>

inductive aware :: "engine \<Rightarrow> versions \<Rightarrow> event set \<Rightarrow> agent \<Rightarrow> path \<Rightarrow> snapshot \<Rightarrow> bool" for g V H a p where
  met: "a_version V p v \<Longrightarrow> Met a p (s_hash v) \<in> H \<Longrightarrow> aware g V H a p v"
| wrote: "a_version V p v \<Longrightarrow> Wrote a p (s_hash v) \<in> H \<Longrightarrow> aware g V H a p v"
| ran: "a_version V p v \<Longrightarrow> aware g V H a p u \<Longrightarrow> Ran a p (s_hash u) (s_hash v) \<in> H \<Longrightarrow> aware g V H a p v"
| ranged: "a_version V p v \<Longrightarrow> Ranged a p (s_hash v) \<in> H \<Longrightarrow> aware g V H a p v"
| whole: "a_version V p v \<Longrightarrow> Shown a p (s_hash v) ls \<in> H \<Longrightarrow> {0..<s_total v} \<subseteq> shown H a p (s_hash v) \<Longrightarrow> aware g V H a p v"
| caught_up: "a_version V p v \<Longrightarrow> aware g V H a p u \<Longrightarrow>
    \<forall>c \<in> set (diff_snapshots g u v). range_lines (visible (c_new c) (s_total v)) \<subseteq> shown H a p (s_hash v) \<Longrightarrow> aware g V H a p v"

lemma aware_version: "aware g V H a p v \<Longrightarrow> a_version V p v"
  by (cases rule: aware.cases) assumption+

lemma shown_mono: "H \<subseteq> H' \<Longrightarrow> shown H a p h \<subseteq> shown H' a p h"
  by (auto simp: shown_def)

lemma shown_event: "Shown a p h ls \<in> H \<Longrightarrow> ls \<subseteq> shown H a p h"
  by (auto simp: shown_def)

lemma aware_mono: "aware g V H a p v \<Longrightarrow> H \<subseteq> H' \<Longrightarrow> aware g V H' a p v"
proof (induction rule: aware.induct)
  case (caught_up v u)
  then have "\<forall>c \<in> set (diff_snapshots g u v). range_lines (visible (c_new c) (s_total v)) \<subseteq> shown H' a p (s_hash v)"
    using shown_mono [OF caught_up.prems, of a p "s_hash v"] by (meson order_trans)
  with caught_up show ?case by - (rule aware.caught_up [of V p v g H' a u], simp_all)
next
  case (whole v ls)
  then show ?case using shown_mono [OF whole.prems, of a p "s_hash v"] by (intro aware.whole [of V p v a ls]) auto
next
  case (ran v u)
  then show ?case by - (rule aware.ran [of V p v g H' a u], auto)
qed (auto intro: aware.met aware.wrote aware.ranged)

text \<open>An agent that takes over another's identity takes over its history.\<close>

fun retarget :: "agent \<Rightarrow> agent \<Rightarrow> event \<Rightarrow> event set" where
  "retarget from to (Shown a p h ls) = (if a = from then {Shown to p h ls} else {})"
| "retarget from to (Met a p h) = (if a = from then {Met to p h} else {})"
| "retarget from to (Wrote a p h) = (if a = from then {Wrote to p h} else {})"
| "retarget from to (Ran a p h k) = (if a = from then {Ran to p h k} else {})"
| "retarget from to (Ranged a p h) = (if a = from then {Ranged to p h} else {})"
| "retarget from to (Obs p st h) = {}"

definition taken_over :: "agent \<Rightarrow> agent \<Rightarrow> event set \<Rightarrow> event set" where
  "taken_over from to H = H \<union> (\<Union>ev \<in> H. retarget from to ev)"

lemma taken_over_events:
  "H \<subseteq> taken_over from to H"
  "Shown from p h ls \<in> H \<Longrightarrow> Shown to p h ls \<in> taken_over from to H"
  "Met from p h \<in> H \<Longrightarrow> Met to p h \<in> taken_over from to H"
  "Wrote from p h \<in> H \<Longrightarrow> Wrote to p h \<in> taken_over from to H"
  "Ran from p h k \<in> H \<Longrightarrow> Ran to p h k \<in> taken_over from to H"
  "Ranged from p h \<in> H \<Longrightarrow> Ranged to p h \<in> taken_over from to H"
  by (auto simp: taken_over_def intro: rev_bexI)

lemma shown_taken_over: "shown H from p h \<subseteq> shown (taken_over from to H) to p h"
  by (auto simp: shown_def intro: taken_over_events)

lemma aware_taken_over: "aware g V H from p v \<Longrightarrow> aware g V (taken_over from to H) to p v"
proof (induction rule: aware.induct)
  case (caught_up v u)
  then have "\<forall>c \<in> set (diff_snapshots g u v). range_lines (visible (c_new c) (s_total v)) \<subseteq> shown (taken_over from to H) to p (s_hash v)"
    using shown_taken_over [of H "from" p "s_hash v" to] by (meson order_trans)
  with caught_up show ?case by - (rule aware.caught_up [of V p v g _ to u], simp_all)
next
  case (whole v ls)
  then show ?case using shown_taken_over [of H "from" p "s_hash v" to] by (intro aware.whole [of V p v to ls]) (auto intro: taken_over_events)
next
  case (ran v u)
  then show ?case by - (rule aware.ran [of V p v g _ to u], auto intro: taken_over_events)
qed (auto intro: aware.met aware.wrote aware.ranged taken_over_events)

section \<open>The invariant of the ledger\<close>

definition partial_ok :: "event set \<Rightarrow> agent \<Rightarrow> path \<Rightarrow> partial_read \<Rightarrow> bool" where
  "partial_ok H a p pr \<longleftrightarrow> (\<exists>h. Obs p (p_stat pr) h \<in> H \<and> Ranged a p h \<in> H \<and>
     (\<forall>s \<in> set (p_segments pr). {g_start s..<seg_end s} \<subseteq> shown H a p h))"

definition seen_ok :: "engine \<Rightarrow> versions \<Rightarrow> event set \<Rightarrow> agent \<Rightarrow> path \<Rightarrow> seen \<Rightarrow> bool" where
  "seen_ok g V H a p s \<longleftrightarrow> aware g V H a p (n_base s) \<and> wf_spans (n_fresh s) \<and>
     lines_of (n_fresh s) \<subseteq> shown H a p (n_fresh_hash s) \<and>
     (case n_partial s of None \<Rightarrow> True | Some pr \<Rightarrow> partial_ok H a p pr)"

definition entry_ok :: "engine \<Rightarrow> versions \<Rightarrow> event set \<Rightarrow> path \<Rightarrow> path_entry \<Rightarrow> bool" where
  "entry_ok g V H p e \<longleftrightarrow> a_version V p (e_current e) \<and> (\<not> e_pending e \<longrightarrow> Obs p (e_stat e) (s_hash (e_current e)) \<in> H) \<and>
     (\<forall>a s. e_seen e a = Some s \<longrightarrow> seen_ok g V H a p s)"

definition ledger_ok :: "engine \<Rightarrow> versions \<Rightarrow> ledger \<times> event set \<Rightarrow> bool" where
  "ledger_ok g V lH \<longleftrightarrow> (case lH of (l, H) \<Rightarrow> 1 \<le> l_cap l \<and> length (l_entries l) \<le> l_cap l \<and>
     distinct (map fst (l_entries l)) \<and> (\<forall>p e. lookup p l = Some e \<longrightarrow> entry_ok g V H p e))"

lemma partial_ok_mono: "partial_ok H a p pr \<Longrightarrow> H \<subseteq> H' \<Longrightarrow> partial_ok H' a p pr"
  using shown_mono [of H H' a p] unfolding partial_ok_def by (meson order_trans subsetD)

lemma seen_ok_mono: "seen_ok g V H a p s \<Longrightarrow> H \<subseteq> H' \<Longrightarrow> seen_ok g V H' a p s"
  using shown_mono [of H H' a p "n_fresh_hash s"]
  by (auto simp: seen_ok_def intro: aware_mono partial_ok_mono split: option.splits)

lemma entry_ok_mono: "entry_ok g V H p e \<Longrightarrow> H \<subseteq> H' \<Longrightarrow> entry_ok g V H' p e"
  by (auto simp: entry_ok_def intro: seen_ok_mono)

lemma ledger_ok_mono: "ledger_ok g V (l, H) \<Longrightarrow> H \<subseteq> H' \<Longrightarrow> ledger_ok g V (l, H')"
  by (auto simp: ledger_ok_def intro: entry_ok_mono)

lemma ledger_ok_grow: "ledger_ok g V (l, H) \<Longrightarrow> ledger_ok g V (l, H \<union> X)"
  by (erule ledger_ok_mono) simp

lemma lookup_put [simp]: "lookup q (put_entry p e l) = (if q = p then Some e else lookup q l)"
  by (simp add: lookup_def put_entry_def AList.update_conv')

lemma length_alist_update: "length (AList.update k v xs) = (if k \<in> fst ` set xs then length xs else Suc (length xs))"
  by (induction xs) auto

lemma tracked_iff: "lookup p l \<noteq> None \<longleftrightarrow> p \<in> fst ` set (l_entries l)"
  by (simp add: lookup_def map_of_eq_None_iff)

lemma put_entry_shape:
  "l_cap (put_entry p e l) = l_cap l"
  "lookup p l \<noteq> None \<Longrightarrow> length (l_entries (put_entry p e l)) = length (l_entries l)"
  "distinct (map fst (l_entries l)) \<Longrightarrow> distinct (map fst (l_entries (put_entry p e l)))"
  using tracked_iff [of p l] by (simp_all add: put_entry_def length_alist_update distinct_update)

lemma put_entry_ok:
  "ledger_ok g V (l, H) \<Longrightarrow> entry_ok g V H p e \<Longrightarrow> lookup p l \<noteq> None \<Longrightarrow> ledger_ok g V (put_entry p e l, H)"
  by (simp add: ledger_ok_def put_entry_shape del: not_None_eq)

text \<open>Eviction makes room by forgetting, and only what is there is forgotten.\<close>

lemma least_used_mem: "least_used es = Some p \<Longrightarrow> p \<in> fst ` set es"
  by (induction es rule: least_used.induct) (auto split: if_splits)

lemma least_used_None: "least_used es = None \<longleftrightarrow> es = []"
  by (induction es rule: least_used.induct) auto

lemma length_delete_less: "p \<in> fst ` set es \<Longrightarrow> length (AList.delete p es) < length es"
  by (induction es) (auto simp: le_imp_less_Suc AList.length_delete_le)

interpretation eviction: progress "evict_one cap" length for cap
  by unfold_locales (auto simp: evict_one_def split: if_splits option.splits dest: least_used_mem intro: length_delete_less)

lemma evict_ok:
  assumes "ledger_ok g V (l, H)"
  shows "ledger_ok g V (evict_for_insert l, H) \<and> length (l_entries (evict_for_insert l)) < l_cap l \<and>
    l_cap (evict_for_insert l) = l_cap l \<and> (\<forall>p. lookup p l = None \<longrightarrow> lookup p (evict_for_insert l) = None)"
proof -
  let ?es = "loop (Suc (length (l_entries l))) (evict_one (l_cap l)) (l_entries l)"
  let ?P = "\<lambda>es. length es \<le> l_cap l \<and> distinct (map fst es) \<and> (\<forall>p e. map_of es p = Some e \<longrightarrow> entry_ok g V H p e) \<and>
    (\<forall>p. lookup p l = None \<longrightarrow> map_of es p = None)"
  have start: "?P (l_entries l)" using assms by (auto simp: ledger_ok_def lookup_def)
  have step: "?P es'" if es: "?P es" "evict_one (l_cap l) es = Some es'" for es es'
  proof -
    obtain p where p: "es' = AList.delete p es" using es(2) by (auto simp: evict_one_def split: if_splits option.splits)
    have "length es' \<le> l_cap l" using es(1) AList.length_delete_le [of p es] unfolding p by linarith
    moreover have "distinct (map fst es')" using es(1) unfolding p by (simp add: AList.distinct_delete)
    moreover have "map_of es' = (map_of es)(p := None)" unfolding p by (rule AList.delete_conv')
    ultimately show ?thesis using es(1) by simp
  qed
  have "?P ?es" by (rule loop_invariant [of ?P, OF start step])
  moreover have "evict_one (l_cap l) ?es = None" by (rule eviction.loop_done) simp
  then have "length ?es < l_cap l" using assms
    by (auto simp: evict_one_def ledger_ok_def least_used_None split: if_splits option.splits)
  ultimately show ?thesis using assms by (simp add: ledger_ok_def evict_for_insert_def lookup_def)
qed

lemma ensure_ok:
  assumes ok: "ledger_ok g V (l, H)" and e: "entry_ok g V H p fe"
  shows "ledger_ok g V (ensure_entry p fe l, H) \<and> lookup p (ensure_entry p fe l) = Some (entry_or p fe l)"
proof (cases "lookup p l")
  case None
  have ev: "ledger_ok g V (evict_for_insert l, H)" "length (l_entries (evict_for_insert l)) < l_cap (evict_for_insert l)"
    "lookup p (evict_for_insert l) = None"
    using evict_ok [OF ok] None by auto
  then have "p \<notin> fst ` set (l_entries (evict_for_insert l))" using tracked_iff by blast
  with ev e have "ledger_ok g V (put_entry p fe (evict_for_insert l), H)"
    by (auto simp: ledger_ok_def) (auto simp: put_entry_def length_alist_update distinct_update)
  with None show ?thesis by (simp add: ensure_entry_def entry_or_def)
qed (use ok in \<open>simp add: ensure_entry_def entry_or_def\<close>)

lemma bump_simps [simp]: "lookup p (bump l) = lookup p l" "ledger_ok g V (bump l, H) = ledger_ok g V (l, H)"
  by (simp_all add: bump_def lookup_def ledger_ok_def)

lemma advance_facts:
  "s_hash (e_current (advance_entry snap st w e)) = s_hash snap" "\<not> e_pending (advance_entry snap st w e)"
  "e_stat (advance_entry snap st w e) = st" "e_seen (advance_entry snap st w e) = e_seen e"
  by (auto simp: advance_entry_def Let_def)

lemma sync_ok:
  assumes ok: "ledger_ok g V (l, H)" and wf: "a_version V p snap" and obs: "Obs p st (s_hash snap) \<in> H" and sy: "sync p snap st w l = (l', e, tick)"
  shows "ledger_ok g V (l', H)" "lookup p l' = Some e" "entry_ok g V H p e" "s_hash (e_current e) = s_hash snap" "\<not> e_pending e"
    "e_seen e = (case lookup p l of Some e0 \<Rightarrow> e_seen e0 | None \<Rightarrow> Map.empty)" "\<And>q. q \<noteq> p \<Longrightarrow> lookup q l' = lookup q (ensure_entry p (new_entry snap st tick) (bump l))"
proof -
  let ?fe = "new_entry snap st (l_tick (bump l))"
  have e: "e = (advance_entry snap st w (entry_or p ?fe (bump l)))\<lparr>e_last_used := l_tick (bump l)\<rparr>"
    and l': "l' = put_entry p e (ensure_entry p ?fe (bump l))" and t: "tick = l_tick (bump l)"
    using sy by (auto simp: sync_def Let_def)
  show seen: "e_seen e = (case lookup p l of Some e0 \<Rightarrow> e_seen e0 | None \<Rightarrow> Map.empty)"
    by (simp add: e advance_facts entry_or_def new_entry_def split: option.split)
  show cur: "s_hash (e_current e) = s_hash snap" "\<not> e_pending e" by (simp_all add: e advance_facts)
  have "e_stat e = st" by (simp add: e advance_facts)
  moreover have "a_version V p (e_current e)"
    using ok wf by (auto simp: e advance_entry_def entry_or_def new_entry_def ledger_ok_def entry_ok_def Let_def split: option.splits)
  ultimately show eok: "entry_ok g V H p e"
    using ok obs cur by (auto simp: entry_ok_def seen ledger_ok_def split: option.splits)
  have "entry_ok g V H p ?fe" using obs wf by (simp add: entry_ok_def new_entry_def)
  with ok have ens: "ledger_ok g V (ensure_entry p ?fe (bump l), H)" "lookup p (ensure_entry p ?fe (bump l)) \<noteq> None"
    using ensure_ok [of g V "bump l" H p ?fe] by simp_all
  then show "ledger_ok g V (l', H)" unfolding l' using eok by (intro put_entry_ok)
  show "lookup p l' = Some e" "\<And>q. q \<noteq> p \<Longrightarrow> lookup q l' = lookup q (ensure_entry p (new_entry snap st tick) (bump l))"
    by (simp_all add: l' t)
qed

lemma put_seen_ok: "entry_ok g V H p e \<Longrightarrow> seen_ok g V H a p s \<Longrightarrow> entry_ok g V H p (put_seen a s e)"
  by (auto simp: entry_ok_def put_seen_def)

text \<open>Re-read changes make the current version a known one.\<close>

lemma acked_aware:
  assumes s: "seen_ok g V H a p s" and none: "unacked g e s = []" and ver: "a_version V p (e_current e)"
  shows "aware g V H a p (e_current e)"
proof (rule aware.caught_up [where u = "n_base s"])
  show "a_version V p (e_current e)" using ver .
  show "aware g V H a p (n_base s)" using s by (simp add: seen_ok_def)
  show "\<forall>c \<in> set (diff_snapshots g (n_base s) (e_current e)).
      range_lines (visible (c_new c) (s_total (e_current e))) \<subseteq> shown H a p (s_hash (e_current e))"
  proof
    fix c assume c: "c \<in> set (diff_snapshots g (n_base s) (e_current e))"
    then have "s_hash (n_base s) \<noteq> s_hash (e_current e)" by (auto simp: diff_snapshots_def)
    with none c have "n_fresh_hash s = s_hash (e_current e)" "covers (n_fresh s) (visible (c_new c) (s_total (e_current e)))"
      by (auto simp: unacked_def unacked_changes_def filter_empty_conv)
    then show "range_lines (visible (c_new c) (s_total (e_current e))) \<subseteq> shown H a p (s_hash (e_current e))"
      using s covers_iff [of "n_fresh s"] by (auto simp: seen_ok_def)
  qed
qed

lemma refreshed_ok: "seen_ok g V H a p s \<Longrightarrow> seen_ok g V H a p (refreshed h s) \<and> n_fresh_hash (refreshed h s) = h"
  by (auto simp: refreshed_def seen_ok_def)

lemma shown_more_ok:
  assumes "seen_ok g V H a p s" "range_lines r \<subseteq> shown H a p (n_fresh_hash s)"
  shows "seen_ok g V H a p (s\<lparr>n_fresh := insert_range r (n_fresh s)\<rparr>)"
  using assms insert_range_spec(1,2) [of "n_fresh s" r] by (auto simp: seen_ok_def)

lemma shown_all_ok:
  "seen_ok g V H a p s \<Longrightarrow> \<forall>r \<in> set rs. range_lines r \<subseteq> shown H a p (n_fresh_hash s) \<Longrightarrow>
   seen_ok g V H a p (s\<lparr>n_fresh := fold insert_range rs (n_fresh s)\<rparr>)"
proof (induction rs arbitrary: s)
  case (Cons r rs)
  then show ?case using shown_more_ok [OF Cons.prems(1), of r] Cons.IH [of "s\<lparr>n_fresh := insert_range r (n_fresh s)\<rparr>"] by simp
qed simp

lemma seen_ok_updates [simp]:
  "seen_ok g V H a p (s\<lparr>n_wrote := b\<rparr>) = seen_ok g V H a p s" "seen_ok g V H a p (s\<lparr>n_at := t\<rparr>) = seen_ok g V H a p s"
  by (simp_all add: seen_ok_def)

lemma entry_version: "entry_ok g V H p e \<Longrightarrow> a_version V p (e_current e)"
  by (simp add: entry_ok_def)

lemma seen_ok_caught_up:
  "seen_ok g V H a p s \<Longrightarrow> a_version V p (e_current e) \<Longrightarrow> unacked g e s = [] \<or> aware g V H a p (e_current e) \<Longrightarrow> seen_ok g V H a p (s\<lparr>n_base := e_current e\<rparr>)"
  using acked_aware [of g V H a p s e] by (auto simp: seen_ok_def)

section \<open>The ledger under any interleaving\<close>

text \<open>Length and modification time identify a version among those observed: the trust the
  ledger itself places in a stat.\<close>

definition stat_trusted :: "event set \<Rightarrow> path \<Rightarrow> stat \<Rightarrow> hash \<Rightarrow> bool" where
  "stat_trusted H p st h \<longleftrightarrow> (\<forall>st' h'. Obs p st' h' \<in> H \<and> same_stat st' st \<longrightarrow> h' = h)"

definition first_contact :: "agent \<Rightarrow> path \<Rightarrow> ledger \<Rightarrow> hash \<Rightarrow> event set" where
  "first_contact a p l h = (if peek_base a p l = None then {Met a p h} else {})"

definition known_hash :: "path \<Rightarrow> ledger \<Rightarrow> hash" where
  "known_hash p l = (case lookup p l of Some e \<Rightarrow> s_hash (e_current e) | None \<Rightarrow> s_hash unknown_snapshot)"

definition written_lines :: "engine \<Rightarrow> path \<Rightarrow> ledger \<Rightarrow> snapshot \<Rightarrow> nat set" where
  "written_lines g p l snap =
     (case lookup p l of Some e \<Rightarrow> (\<Union>c \<in> set (diff_snapshots g (e_current e) snap). range_lines (c_new c))
      | None \<Rightarrow> {0..<s_total snap})"

inductive lstep :: "engine \<Rightarrow> versions \<Rightarrow> ledger \<times> event set \<Rightarrow> ledger \<times> event set \<Rightarrow> bool" for g V where
  read: "a_version V p snap \<Longrightarrow> stat_trusted H p st (s_hash snap) \<Longrightarrow>
    lstep g V (l, H) (record_read g a p snap st lines l,
      H \<union> {Obs p st (s_hash snap), Shown a p (s_hash snap) (range_lines lines)} \<union> first_contact a p l (s_hash snap))"
| read_range: "stat_trusted H p st h \<Longrightarrow>
    lstep g V (l, H) (record_read_range g a p st first hs l,
      H \<union> {Obs p st h, Ranged a p h, Shown a p h {first..<first + length hs}} \<union> first_contact a p l (known_hash p l))"
| settle: "a_version V p snap \<Longrightarrow> stat_trusted H p st (s_hash snap) \<Longrightarrow> peek_partial a p l = Some pr \<Longrightarrow> r = Unchanged \<longrightarrow> same_stat (p_stat pr) st \<Longrightarrow>
    lstep g V (l, H) (fst (apply_partial a p snap st r l), H \<union> {Obs p st (s_hash snap)})"
| check: "a_version V p snap \<Longrightarrow> stat_trusted H p st (s_hash snap) \<Longrightarrow>
    lstep g V (l, H) (fst (ledger_check g a p (Some (snap, st)) tch l), H \<union> {Obs p st (s_hash snap)})"
| ack: "lookup p l = Some e \<Longrightarrow>
    lstep g V (l, H) (ack g a p lines l, H \<union> {Shown a p (s_hash (e_current e)) (range_lines r) | r. r \<in> set lines})"
| written: "a_version V p snap \<Longrightarrow> stat_trusted H p st (s_hash snap) \<Longrightarrow>
    lstep g V (l, H) (record_write g a name p snap st l,
      H \<union> {Obs p st (s_hash snap), Wrote a p (s_hash snap), Shown a p (s_hash snap) (written_lines g p l snap)})"
| refresh: "a_version V p snap \<Longrightarrow> stat_trusted H p st (s_hash snap) \<Longrightarrow>
    lstep g V (l, H) (fst (refresh a name p snap st l), H \<union> {Obs p st (s_hash snap), Ran a p (known_hash p l) (s_hash snap)})"
| copy: "lstep g V (l, H) (copy_agent from to l, taken_over from to H)"

lemma seen_or_new_ok:
  assumes "entry_ok g V H p e" "e_seen e a = None \<Longrightarrow> Met a p (s_hash (e_current e)) \<in> H"
  shows "seen_ok g V H a p (seen_or_new a t e)"
proof (cases "e_seen e a")
  case None
  then show ?thesis using assms by (simp add: seen_or_new_def at_version_def seen_ok_def entry_ok_def aware.met)
qed (use assms(1) in \<open>simp add: seen_or_new_def entry_ok_def\<close>)

lemma peek_base_None: "peek_base a p l = None \<longleftrightarrow> (case lookup p l of Some e \<Rightarrow> e_seen e a = None | None \<Rightarrow> True)"
  by (simp add: peek_base_def split: option.split)

lemma record_read_ok:
  assumes ok: "ledger_ok g V (l, H)" and wf: "a_version V p snap" and ev: "Obs p st (s_hash snap) \<in> H" "Shown a p (s_hash snap) (range_lines lines) \<in> H"
    "peek_base a p l = None \<Longrightarrow> Met a p (s_hash snap) \<in> H"
  shows "ledger_ok g V (record_read g a p snap st lines l, H)"
proof -
  obtain l' e tick where sy: "sync p snap st External l = (l', e, tick)" by (cases "sync p snap st External l")
  note s = sync_ok [OF ok wf ev(1) sy] and seen_lines = shown_event [OF ev(2)]
  have "seen_ok g V H a p (seen_or_new a tick e)"
    using s(3,4,6) ev(3) by (intro seen_or_new_ok) (auto simp: peek_base_None split: option.splits)
  let ?s = "refreshed (s_hash (e_current e)) (seen_or_new a tick e)"
  from \<open>seen_ok g V H a p (seen_or_new a tick e)\<close> have "seen_ok g V H a p ?s" "n_fresh_hash ?s = s_hash (e_current e)"
    using refreshed_ok by blast+
  then have "seen_ok g V H a p (?s\<lparr>n_fresh := insert_range lines (n_fresh ?s)\<rparr>)" using seen_lines s(4) by (intro shown_more_ok) simp_all
  then have upd: "seen_ok g V H a p (?s\<lparr>n_fresh := insert_range lines (n_fresh ?s), n_wrote := False, n_at := tick, n_partial := None\<rparr>)"
    by (simp add: seen_ok_def)
  have whole: "aware g V H a p (e_current e)" if "fst lines = 0 \<and> s_total (e_current e) \<le> snd lines"
    using that ev(2) seen_lines s(4) by (intro aware.whole [OF entry_version [OF s(3)], of _ "range_lines lines"]) (auto simp: range_lines_def)
  have put: "ledger_ok g V (put_entry p (put_seen a s' e) l', H)" if "seen_ok g V H a p s'" for s'
    using s(1-3) that by (intro put_entry_ok put_seen_ok) simp_all
  show ?thesis unfolding record_read_def sy prod.case Let_def
    using seen_ok_caught_up [OF upd entry_version [OF s(3)]] whole upd by (intro put) auto
qed

lemma trustedD: "stat_trusted H p st h \<Longrightarrow> Obs p st' h' \<in> H \<Longrightarrow> same_stat st' st \<Longrightarrow> h' = h"
  unfolding stat_trusted_def by blast

lemma partial_trusted:
  assumes "partial_ok H a p pr" "stat_trusted H p st h" "same_stat (p_stat pr) st"
  shows "Ranged a p h \<in> H" "\<forall>s \<in> set (p_segments pr). {g_start s..<seg_end s} \<subseteq> shown H a p h"
proof -
  from assms(1) obtain k where k: "Obs p (p_stat pr) k \<in> H" "Ranged a p k \<in> H"
    "\<forall>s \<in> set (p_segments pr). {g_start s..<seg_end s} \<subseteq> shown H a p k"
    unfolding partial_ok_def by blast
  from trustedD [OF assms(2) k(1) assms(3)] k(2,3)
  show "Ranged a p h \<in> H" "\<forall>s \<in> set (p_segments pr). {g_start s..<seg_end s} \<subseteq> shown H a p h" by simp_all
qed

lemma merged_partial_ok:
  assumes "case prev of None \<Rightarrow> True | Some pr \<Rightarrow> partial_ok H a p pr" "stat_trusted H p st h"
    "Obs p st h \<in> H" "Ranged a p h \<in> H" "{first..<first + length hs} \<subseteq> shown H a p h"
  shows "partial_ok H a p (merged_partial prev st first hs)"
proof -
  have trim: "set (trim_segments segs) \<subseteq> set segs" for segs by (induction segs) auto
  let ?segs = "case prev of Some p \<Rightarrow> if same_stat (p_stat p) st then p_segments p else [] | None \<Rightarrow> []"
  have "\<forall>s \<in> set ?segs. {g_start s..<seg_end s} \<subseteq> shown H a p h"
    using assms(1) partial_trusted(2) [OF _ assms(2)] by (simp split: option.splits)
  then have "\<forall>s \<in> set (?segs @ [\<lparr>g_start = first, g_hashes = hs\<rparr>]). {g_start s..<seg_end s} \<subseteq> shown H a p h"
    using assms(5) by (simp add: seg_end_def)
  then have "\<forall>s \<in> set (p_segments (merged_partial prev st first hs)). {g_start s..<seg_end s} \<subseteq> shown H a p h"
    unfolding merged_partial_def Let_def partial_read.select_convs using trim by blast
  moreover have "p_stat (merged_partial prev st first hs) = st" by (simp add: merged_partial_def Let_def)
  ultimately show ?thesis using assms(3,4) unfolding partial_ok_def by metis
qed

lemma put_tracked_ok:
  "ledger_ok g V (l, H) \<Longrightarrow> lookup p l = Some e' \<Longrightarrow> entry_ok g V H p e \<Longrightarrow> ledger_ok g V (put_entry p e l, H)"
  by (rule put_entry_ok) simp_all

lemma entry_found: "ledger_ok g V (l, H) \<Longrightarrow> lookup p l = Some e \<Longrightarrow> entry_ok g V H p e"
  by (simp add: ledger_ok_def)

lemma entry_ok_last_used [simp]: "entry_ok g V H p (e\<lparr>e_last_used := t\<rparr>) = entry_ok g V H p e"
  by (simp add: entry_ok_def)

lemma record_read_range_ok:
  assumes ok: "ledger_ok g V (l, H)" and tr: "stat_trusted H p st h"
    and ev: "Obs p st h \<in> H" "Ranged a p h \<in> H" "{first..<first + length hs} \<subseteq> shown H a p h"
      "peek_base a p l = None \<Longrightarrow> Met a p (known_hash p l) \<in> H"
  shows "ledger_ok g V (record_read_range g a p st first hs l, H)"
proof -
  define tick where "tick = l_tick (bump l)"
  define fe where "fe = pending_entry st tick"
  define e where "e = (entry_or p fe (bump l))\<lparr>e_last_used := tick\<rparr>"
  define s where "s = (seen_or_new a tick e)\<lparr>n_wrote := False, n_at := tick\<rparr>"
  have fe: "entry_ok g V H p fe" by (simp add: fe_def pending_entry_def new_entry_def entry_ok_def)
  have ens: "ledger_ok g V (ensure_entry p fe (bump l), H)" "lookup p (ensure_entry p fe (bump l)) = Some (entry_or p fe (bump l))"
    using ensure_ok [of g V "bump l" H p fe] ok fe by simp_all
  have eok: "entry_ok g V H p e" using entry_found [OF ens] by (simp add: e_def)
  have new: "Met a p (s_hash (e_current e)) \<in> H" if "e_seen e a = None"
    using that ev(4) by (auto simp: e_def entry_or_def fe_def pending_entry_def new_entry_def peek_base_None known_hash_def split: option.splits)
  have s: "seen_ok g V H a p s" using seen_or_new_ok [OF eok new, of tick] by (simp add: s_def)
  let ?r = "refreshed (s_hash (e_current e)) s"
  let ?f = "?r\<lparr>n_fresh := insert_range (first, first + length hs) (n_fresh ?r), n_partial := None\<rparr>"
  have fresh: "seen_ok g V H a p ?f" if "\<not> e_pending e" "same_stat (e_stat e) st"
  proof -
    have "Obs p (e_stat e) (s_hash (e_current e)) \<in> H" using eok that(1) by (simp add: entry_ok_def)
    from trustedD [OF tr this that(2)] have "s_hash (e_current e) = h" .
    then have "seen_ok g V H a p (?r\<lparr>n_fresh := insert_range (first, first + length hs) (n_fresh ?r)\<rparr>)"
      using refreshed_ok [OF s, of "s_hash (e_current e)"] ev(3) by (intro shown_more_ok) (simp_all add: range_lines_def)
    then show ?thesis by (simp add: seen_ok_def)
  qed
  have part: "seen_ok g V H a p (s\<lparr>n_partial := Some (merged_partial (n_partial s) st first hs)\<rparr>)"
    using s merged_partial_ok [OF _ tr ev(1,2,3), of "n_partial s"] by (simp add: seen_ok_def)
  have put: "ledger_ok g V (put_entry p (put_seen a s' e) (ensure_entry p fe (bump l)), H)" if "seen_ok g V H a p s'" for s'
    using that eok by (intro put_tracked_ok [OF ens] put_seen_ok)
  show ?thesis
    unfolding record_read_range_def Let_def tick_def [symmetric] fe_def [symmetric] e_def [symmetric] s_def [symmetric]
    using fresh part seen_ok_caught_up [OF fresh entry_version [OF eok]] by (intro put) auto
qed

lemma ranges_within:
  "wf_spans out \<Longrightarrow> lines_of out \<subseteq> L \<Longrightarrow> \<forall>r \<in> set rs. range_lines r \<subseteq> L \<Longrightarrow>
   wf_spans (fold insert_range rs out) \<and> lines_of (fold insert_range rs out) \<subseteq> L"
proof (induction rs arbitrary: out)
  case (Cons r rs)
  then show ?case using insert_range_spec(1,2) [of out r] Cons.IH [of "insert_range r out"] by auto
qed simp

lemma apply_partial_ok:
  assumes ok: "ledger_ok g V (l, H)" and wf: "a_version V p snap" and tr: "stat_trusted H p st (s_hash snap)" and obs: "Obs p st (s_hash snap) \<in> H"
    and pr: "peek_partial a p l = Some pr" "r = Unchanged \<longrightarrow> same_stat (p_stat pr) st"
  shows "ledger_ok g V (fst (apply_partial a p snap st r l), H)"
proof -
  obtain l' e tick where sy: "sync p snap st External l = (l', e, tick)" by (cases "sync p snap st External l")
  note s = sync_ok [OF ok wf obs sy]
  from pr(1) obtain e0 sn where e0: "lookup p l = Some e0" "e_seen e0 a = Some sn" "n_partial sn = Some pr"
    by (auto simp: peek_partial_def split: option.splits)
  then have sn: "e_seen e a = Some sn" using s(6) by simp
  with s(3) have snok: "seen_ok g V H a p sn" by (simp add: entry_ok_def)
  let ?s = "sn\<lparr>n_partial := None, n_base := e_current e, n_fresh_hash := s_hash (e_current e), n_fresh := partial_ranges pr, n_at := tick\<rparr>"
  have "seen_ok g V H a p ?s" if "r = Unchanged"
  proof -
    have "partial_ok H a p pr" using snok e0(3) by (simp add: seen_ok_def)
    note h = partial_trusted [OF this tr]
    have same: "same_stat (p_stat pr) st" using pr(2) that by simp
    have "partial_ranges pr = fold insert_range (map (\<lambda>s. (g_start s, seg_end s)) (p_segments pr)) []"
      by (simp add: partial_ranges_def fold_map o_def)
    then have "wf_spans (partial_ranges pr) \<and> lines_of (partial_ranges pr) \<subseteq> shown H a p (s_hash snap)"
      using h(2) [OF same] ranges_within [of "[]" "shown H a p (s_hash snap)" "map (\<lambda>s. (g_start s, seg_end s)) (p_segments pr)"]
      by (simp add: range_lines_def)
    moreover have "aware g V H a p (e_current e)" using h(1) [OF same] s(4) by (intro aware.ranged [OF entry_version [OF s(3)]]) simp
    ultimately show ?thesis using s(4) by (simp add: seen_ok_def)
  qed
  then show ?thesis using s(1) put_tracked_ok [OF s(1,2) put_seen_ok [OF s(3), of a ?s]]
    by (cases r) (simp_all add: apply_partial_def sy sn e0(3))
qed

lemma check_ok:
  assumes ok: "ledger_ok g V (l, H)" and wf: "a_version V p snap" and obs: "Obs p st (s_hash snap) \<in> H"
  shows "ledger_ok g V (fst (ledger_check g a p (Some (snap, st)) tch l), H)"
proof -
  obtain l' e tick where sy: "sync p snap st External l = (l', e, tick)" by (cases "sync p snap st External l")
  note s = sync_ok [OF ok wf obs sy]
  have "ledger_ok g V (put_entry p (put_seen a (sn\<lparr>n_base := e_current e\<rparr>) e) l', H)"
    if "e_seen e a = Some sn" "unacked g e sn = []" for sn
    using that s(3) by (intro put_tracked_ok [OF s(1,2)] put_seen_ok seen_ok_caught_up) (simp_all add: entry_ok_def)
  then show ?thesis using s(1) by (simp add: ledger_check_def sy Let_def split: option.split)
qed

lemma ack_ok:
  assumes ok: "ledger_ok g V (l, H)" and e: "lookup p l = Some e"
    and ev: "\<forall>r \<in> set lines. range_lines r \<subseteq> shown H a p (s_hash (e_current e))"
  shows "ledger_ok g V (ack g a p lines l, H)"
proof (cases "e_seen e a")
  case (Some sn)
  have eok: "entry_ok g V H p e" using entry_found [OF ok e] .
  let ?r = "refreshed (s_hash (e_current e)) sn"
  have "seen_ok g V H a p sn" using eok Some by (simp add: entry_ok_def)
  then have "seen_ok g V H a p ?r" "n_fresh_hash ?r = s_hash (e_current e)" using refreshed_ok by blast+
  then have upd: "seen_ok g V H a p (?r\<lparr>n_fresh := fold insert_range lines (n_fresh ?r), n_at := t\<rparr>)" for t
    using shown_all_ok [of g V H a p ?r lines] ev by simp
  have put: "ledger_ok g V (put_entry p (put_seen a s' e) (bump l), H)" if "seen_ok g V H a p s'" for s'
    using that eok ok e by (intro put_tracked_ok [of g V "bump l" H p e] put_seen_ok) simp_all
  show ?thesis using e Some upd seen_ok_caught_up [OF upd entry_version [OF eok]] by (simp add: ack_def Let_def) (auto intro: put)
qed (use ok e in \<open>simp add: ack_def\<close>)

lemma record_write_ok:
  assumes ok: "ledger_ok g V (l, H)" and wf: "a_version V p snap" and ev: "Obs p st (s_hash snap) \<in> H" "Wrote a p (s_hash snap) \<in> H"
    "written_lines g p l snap \<subseteq> shown H a p (s_hash snap)"
  shows "ledger_ok g V (record_write g a name p snap st l, H)"
proof -
  obtain l' e tick where sy: "sync p snap st (AgentW a name) l = (l', e, tick)" by (cases "sync p snap st (AgentW a name) l")
  note s = sync_ok [OF ok wf ev(1) sy]
  let ?rs = "case lookup p l of Some prev \<Rightarrow> map c_new (diff_snapshots g (e_current prev) snap) | None \<Rightarrow> [(0, s_total snap)]"
  let ?fresh = "case lookup p l of Some prev \<Rightarrow> fold (\<lambda>c. insert_range (c_new c)) (diff_snapshots g (e_current prev) snap) []
      | None \<Rightarrow> insert_range (0, s_total snap) []"
  let ?e = "if lookup p l = None then e\<lparr>e_last_writer := Some (AgentW a name)\<rparr> else e"
  have "?fresh = fold insert_range ?rs []" by (simp add: fold_map o_def split: option.split)
  moreover have "\<forall>r \<in> set ?rs. range_lines r \<subseteq> shown H a p (s_hash snap)"
    using ev(3) by (auto simp: written_lines_def range_lines_def split: option.splits)
  ultimately have "wf_spans ?fresh \<and> lines_of ?fresh \<subseteq> shown H a p (s_hash snap)" using ranges_within [of "[]"] by simp
  moreover have "aware g V H a p snap" using wf ev(2) by (rule aware.wrote)
  ultimately have sn: "seen_ok g V H a p \<lparr>n_base = snap, n_fresh = ?fresh, n_fresh_hash = s_hash snap, n_wrote = True, n_at = tick, n_partial = None\<rparr>"
    by (simp add: seen_ok_def)
  have "entry_ok g V H p ?e" using s(3) by (simp add: entry_ok_def)
  from put_seen_ok [OF this sn] show ?thesis
    unfolding record_write_def Let_def sy prod.case by (intro put_tracked_ok [OF s(1,2)])
qed

lemma refresh_ok:
  assumes ok: "ledger_ok g V (l, H)" and wf: "a_version V p snap" and ev: "Obs p st (s_hash snap) \<in> H" "Ran a p (known_hash p l) (s_hash snap) \<in> H"
  shows "ledger_ok g V (fst (refresh a name p snap st l), H)"
proof (cases "lookup p l")
  case (Some e)
  have eok: "entry_ok g V H p e" using entry_found [OF ok Some] .
  have put: "ledger_ok g V (put_entry p e' (bump l), H)" if "entry_ok g V H p e'" for e'
    using that ok Some by (intro put_tracked_ok [of g V "bump l" H p e]) simp_all
  let ?t = "l_tick (bump l)" and ?w = "AgentW a name"
  let ?adv = "advance_entry snap st ?w (e\<lparr>e_last_used := ?t\<rparr>)"
  have adv: "entry_ok g V H p ?adv" using eok ev(1) wf by (auto simp: entry_ok_def advance_facts) (simp_all add: advance_entry_def Let_def)
  have same: "entry_ok g V H p (e\<lparr>e_last_used := ?t, e_stat := st\<rparr>)" if "s_hash snap = s_hash (e_current e)"
    using eok ev(1) that by (simp add: entry_ok_def)
  have sn: "seen_ok g V H a p (sn\<lparr>n_fresh_hash := s_hash snap, n_fresh := [], n_base := snap, n_at := ?t\<rparr>)"
    if "e_seen e a = Some sn" "s_hash (n_base sn) = s_hash (e_current e)" for sn
  proof -
    have sok: "seen_ok g V H a p sn" using eok that(1) by (simp add: entry_ok_def)
    then have "aware g V H a p snap"
      using aware.ran [OF wf, where u = "n_base sn"] ev(2) that(2) Some by (simp add: seen_ok_def known_hash_def)
    with sok show ?thesis by (simp add: seen_ok_def)
  qed
  show ?thesis
    using adv same put sn put_seen_ok [OF adv, of a] Some by (auto simp: refresh_def Let_def advance_facts split: option.split)
qed (use ok in \<open>simp add: refresh_def\<close>)

lemma copy_agent_ok:
  assumes ok: "ledger_ok g V (l, H)"
  shows "ledger_ok g V (copy_agent from to l, taken_over from to H)"
proof -
  let ?H = "taken_over from to H"
  have look: "lookup p (copy_agent from to l) = map_option (\<lambda>e. case e_seen e from of Some s \<Rightarrow> put_seen to s e | None \<Rightarrow> e) (lookup p l)" for p
    by (simp add: copy_agent_def lookup_def map_of_map)
  have keys: "map fst (l_entries (copy_agent from to l)) = map fst (l_entries l)" "l_cap (copy_agent from to l) = l_cap l"
    by (simp_all add: copy_agent_def split_def o_def)
  have part: "partial_ok ?H to p pr" if "partial_ok H from p pr" for p pr
    using that shown_taken_over [of H "from" p _ to] taken_over_events [where H = H] unfolding partial_ok_def by (meson order_trans subsetD)
  have "seen_ok g V ?H to p s" if "seen_ok g V H from p s" for p s
    using that part shown_taken_over [of H "from" p "n_fresh_hash s" to]
    by (auto simp: seen_ok_def intro: aware_taken_over split: option.splits)
  then have "entry_ok g V ?H p (case e_seen e from of Some s \<Rightarrow> put_seen to s e | None \<Rightarrow> e)" if "entry_ok g V H p e" for p e
    using that entry_ok_mono [OF that taken_over_events(1)]
    by (cases "e_seen e from") (simp_all add: put_seen_ok entry_ok_def [of g V H])
  moreover have "length (l_entries (copy_agent from to l)) = length (l_entries l)" using arg_cong [OF keys(1), of length] by simp
  ultimately show ?thesis using ok keys by (auto simp: ledger_ok_def look)
qed

lemma lstep_ok:
  assumes ok: "ledger_ok g V s" and step: "lstep g V s s'"
  shows "ledger_ok g V s'"
  using step
proof cases
  case (read p snap H st l a lines)
  let ?H = "H \<union> {Obs p st (s_hash snap), Shown a p (s_hash snap) (range_lines lines)} \<union> first_contact a p l (s_hash snap)"
  have "ledger_ok g V (l, ?H)" using ok read by (auto intro: ledger_ok_mono)
  then have "ledger_ok g V (record_read g a p snap st lines l, ?H)"
    using read by (intro record_read_ok) (auto simp: first_contact_def intro!: shown_event)
  with read show ?thesis by simp
next
  case (read_range H p st h l a first hs)
  let ?H = "H \<union> {Obs p st h, Ranged a p h, Shown a p h {first..<first + length hs}} \<union> first_contact a p l (known_hash p l)"
  have "ledger_ok g V (l, ?H)" using ok read_range by (auto intro: ledger_ok_mono)
  moreover have "stat_trusted ?H p st h" using read_range by (auto simp: stat_trusted_def first_contact_def)
  ultimately have "ledger_ok g V (record_read_range g a p st first hs l, ?H)"
    by (rule record_read_range_ok) (auto simp: first_contact_def intro!: shown_event)
  with read_range show ?thesis by simp
next
  case (settle p snap H st a l pr r)
  let ?H = "H \<union> {Obs p st (s_hash snap)}"
  have "ledger_ok g V (l, ?H)" using ok settle by (auto intro: ledger_ok_mono)
  moreover have "stat_trusted ?H p st (s_hash snap)" using settle by (auto simp: stat_trusted_def)
  ultimately have "ledger_ok g V (fst (apply_partial a p snap st r l), ?H)"
    using settle by (intro apply_partial_ok) simp_all
  with settle show ?thesis by simp
next
  case (check p snap H st l a tch)
  then have "ledger_ok g V (l, H \<union> {Obs p st (s_hash snap)})" using ok ledger_ok_grow by blast
  from check_ok [OF this check(3)] check show ?thesis by simp
next
  case (ack p l e H a lines)
  let ?H = "H \<union> {Shown a p (s_hash (e_current e)) (range_lines r) | r. r \<in> set lines}"
  have "\<forall>r \<in> set lines. range_lines r \<subseteq> shown ?H a p (s_hash (e_current e))"
    by (intro ballI shown_event) blast
  moreover have "ledger_ok g V (l, ?H)" using ok ack by (auto intro: ledger_ok_mono)
  ultimately have "ledger_ok g V (Ledger.ack g a p lines l, ?H)" using ack by (intro ack_ok)
  with ack show ?thesis by simp
next
  case (written p snap H st l a name)
  let ?H = "H \<union> {Obs p st (s_hash snap), Wrote a p (s_hash snap), Shown a p (s_hash snap) (written_lines g p l snap)}"
  have "ledger_ok g V (l, ?H)" using ok written ledger_ok_grow by blast
  from record_write_ok [OF this written(3)] written show ?thesis by (simp add: shown_event)
next
  case (refresh p snap H st l a name)
  let ?H = "H \<union> {Obs p st (s_hash snap), Ran a p (known_hash p l) (s_hash snap)}"
  have "ledger_ok g V (l, ?H)" using ok refresh ledger_ok_grow by blast
  from refresh_ok [OF this refresh(3)] refresh show ?thesis by simp
next
  case (copy l H "from" to)
  then show ?thesis using ok by (simp add: copy_agent_ok)
qed

interpretation ledgers: state_machine "(with_cap MAX_PATHS, {})" "lstep g V" "ledger_ok g V" for g V
proof
  show "ledger_ok g V (with_cap MAX_PATHS, {})" by (simp add: ledger_ok_def with_cap_def lookup_def)
qed (rule lstep_ok)

text \<open>A sweep is a run of refreshes, so that everything the steps keep holds after it, where the
  stat of a file tells its content; a path that was not found changed keeps its entry.\<close>

lemma refresh_files_steps:
  assumes content: "\<And>p snap st. content p = Some (snap, st) \<Longrightarrow> a_version V p snap \<and> truth p st = s_hash snap"
    and same: "\<And>p st st'. same_stat st' st \<Longrightarrow> truth p st' = truth p st"
  shows "(\<And>p st h. Obs p st h \<in> H \<Longrightarrow> truth p st = h) \<Longrightarrow>
    \<exists>H'. (lstep g V)\<^sup>*\<^sup>* (l, H) (refresh_files a name locked content ps l, H')"
proof (induction ps arbitrary: l H)
  case (Cons p ps)
  show ?case
  proof (cases "locked p \<or> content p = None")
    case True
    then show ?thesis using Cons.IH [of H l] Cons.prems by auto
  next
    case False
    then obtain snap st where c: "content p = Some (snap, st)" by auto
    let ?H = "H \<union> {Obs p st (s_hash snap), Ran a p (known_hash p l) (s_hash snap)}"
    have "stat_trusted H p st (s_hash snap)"
      unfolding stat_trusted_def using Cons.prems same content [OF c] by metis
    then have "lstep g V (l, H) (fst (refresh a name p snap st l), ?H)"
      using content [OF c] by (intro lstep.refresh) blast+
    moreover have "\<And>q st' h. Obs q st' h \<in> ?H \<Longrightarrow> truth q st' = h" using Cons.prems content [OF c] by auto
    then obtain H' where "(lstep g V)\<^sup>*\<^sup>* (fst (refresh a name p snap st l), ?H)
        (refresh_files a name locked content ps (fst (refresh a name p snap st l)), H')"
      using Cons.IH by blast
    ultimately show ?thesis using False c by (auto intro: converse_rtranclp_into_rtranclp)
  qed
qed auto

lemma refresh_other: "q \<noteq> p \<Longrightarrow> lookup q (fst (refresh a name p snap st l)) = lookup q l"
  by (auto simp: refresh_def Let_def bump_def lookup_def put_entry_def AList.update_conv' split: option.splits)

lemma refresh_files_other: "q \<notin> set ps \<Longrightarrow> lookup q (refresh_files a name locked content ps l) = lookup q l"
  by (induction ps arbitrary: l) (auto simp: refresh_other split: option.split)

lemma unchanged_path_untouched:
  assumes "\<And>known. (q, known) \<in> set (refresh_candidates a REFRESH_MAX_PATHS l) \<Longrightarrow> metadata q \<in> {None, Some known}"
  shows "lookup q (refresh_sweep a name metadata locked content l) = lookup q l"
proof -
  have "q \<notin> set (changed_paths metadata (refresh_candidates a REFRESH_MAX_PATHS l))"
    using assms by (auto simp: changed_paths_def List.map_filter_def split: option.splits if_split_asm)
  then show ?thesis by (simp add: refresh_sweep_def Let_def refresh_files_other)
qed

text \<open>The lines outside the unacknowledged changes.\<close>

lemma check_passed:
  assumes ok: "ledger_ok g V (l, H)" and tr: "stat_trusted H p st (s_hash snap)"
    and wf: "a_version V p snap"
    and pass: "snd (ledger_check g a p (Some (snap, st)) (Some rs) l) = v" "v = Clean \<or> (\<exists>d. v = Disjoint d)"
  obtains u cur where "aware g V H a p u" "a_version V p cur" "s_hash cur = s_hash snap"
    "\<And>r c. r \<in> set rs \<Longrightarrow> c \<in> set (diff_snapshots g u cur) \<Longrightarrow> overlaps (c_new c) r \<Longrightarrow>
       range_lines (visible (c_new c) (s_total cur)) \<subseteq> shown H a p (s_hash snap)"
proof -
  let ?H = "H \<union> {Obs p st (s_hash snap)}"
  obtain l' e tick where sy: "sync p snap st External l = (l', e, tick)" by (cases "sync p snap st External l")
  have "ledger_ok g V (l, ?H)" using ok ledger_ok_mono by blast
  note s = sync_ok [OF this wf _ sy, simplified]
  from pass obtain sn where sn: "e_seen e a = Some sn" by (auto simp: ledger_check_def sy split: option.splits)
  from sn s(6) obtain e0 where "lookup p l = Some e0" "e_seen e0 a = Some sn" by (auto split: option.splits)
  with ok have sok: "seen_ok g V H a p sn" by (auto simp: ledger_ok_def entry_ok_def)
  have "range_lines (visible (c_new c) (s_total (e_current e))) \<subseteq> shown H a p (s_hash snap)"
    if c: "r \<in> set rs" "c \<in> set (diff_snapshots g (n_base sn) (e_current e))" "overlaps (c_new c) r" for r c
  proof -
    have "c \<notin> set (unacked g e sn)"
      using pass sn c by (auto simp: ledger_check_def sy Let_def list_ex_iff split: if_splits)
    moreover have "s_hash (n_base sn) \<noteq> s_hash (e_current e)" using c(2) by (auto simp: diff_snapshots_def)
    ultimately have "n_fresh_hash sn = s_hash (e_current e)" "covers (n_fresh sn) (visible (c_new c) (s_total (e_current e)))"
      using c(2) by (auto simp: unacked_def unacked_changes_def)
    then show ?thesis using sok s(4) covers_iff [of "n_fresh sn"] by (auto simp: seen_ok_def)
  qed
  with sok s(3,4) show thesis using that [of "n_base sn" "e_current e"] by (simp add: seen_ok_def entry_ok_def)
qed

text \<open>A line that is as it was in a known version: that version is the current one, or both have
  line hashes and the hash of the line is one of the known version's.\<close>

definition kept_line :: "snapshot \<Rightarrow> snapshot \<Rightarrow> nat \<Rightarrow> bool" where
  "kept_line u cur i \<longleftrightarrow> s_hash u = s_hash cur \<or>
     (\<not> s_whole u \<and> \<not> s_whole cur \<and> (i < length (s_lines cur) \<longrightarrow> s_lines cur ! i \<in> set (s_lines u)))"

lemma shared_line_overlaps: "i \<in> range_lines a \<Longrightarrow> i \<in> range_lines b \<Longrightarrow> overlaps a b \<and> range_lines (visible a n) = range_lines a"
  by (auto simp: range_lines_def overlaps_def range_empty_def visible_def)

lemma untouched_kept:
  assumes "\<forall>old new. tiling 0 0 old new (myers g old new)" "i < s_total cur"
    "\<forall>c \<in> set (diff_snapshots g u cur). i \<notin> range_lines (c_new c)"
  shows "kept_line u cur i"
  using assms diff_sound [of "s_lines u" "s_lines cur" g i]
  by (auto simp: kept_line_def diff_snapshots_def range_lines_def split: if_splits)

text \<open>C7: no write passes over a change its author has not seen.  Whatever agents read, wrote,
  ran and took over before, when a check lets a write of an agent through (as clean or as
  disjoint), there is a version of the file that the agent knows such that every line of the
  current file that the write touches was shown to the agent at the current version or is
  as it was in that known version.  An agent knows a version when it first met the file at it
  (a first read of a few lines is enough), wrote it, made it from a known one by its own
  command, was shown it whole or, of a large file, any range of it, or was shown every line in
  which it differs from a known one.  The diff engine is any whose operations tile both files;
  a hash names one version of the file, and length and modification time are trusted to
  identify a version.\<close>

theorem unseen_changes_protected:
  assumes reach: "(lstep g V)\<^sup>*\<^sup>* (with_cap MAX_PATHS, {}) (l, H)"
    and engine: "\<forall>old new. tiling 0 0 old new (myers g old new)"
    and names: "inj_on s_hash (insert unknown_snapshot (V p))"
    and stat: "stat_trusted H p st (s_hash snap)" and ver: "a_version V p snap"
    and pass: "snd (ledger_check g a p (Some (snap, st)) (Some rs) l) \<in> {Clean} \<union> Disjoint ` UNIV"
  shows "\<exists>u. aware g V H a p u \<and>
    (\<forall>r \<in> set rs. \<forall>i \<in> range_lines r. i < s_total snap \<longrightarrow> i \<in> shown H a p (s_hash snap) \<or> kept_line u snap i)"
proof -
  have ok: "ledger_ok g V (l, H)" using ledgers.reachable_inv [OF reach] .
  obtain u cur where u: "aware g V H a p u" "a_version V p cur" "s_hash cur = s_hash snap" and
    over: "\<And>r c. r \<in> set rs \<Longrightarrow> c \<in> set (diff_snapshots g u cur) \<Longrightarrow> overlaps (c_new c) r \<Longrightarrow>
       range_lines (visible (c_new c) (s_total cur)) \<subseteq> shown H a p (s_hash snap)"
    using check_passed [OF ok stat ver refl, of a rs] pass by blast
  have "cur = snap" using inj_onD [OF names u(3)] u(2) ver by (simp add: a_version_def)
  have "i \<in> shown H a p (s_hash snap) \<or> kept_line u cur i" if i: "r \<in> set rs" "i \<in> range_lines r" "i < s_total cur" for r i
  proof (cases "\<exists>c \<in> set (diff_snapshots g u cur). i \<in> range_lines (c_new c)")
    case True
    then obtain c where "c \<in> set (diff_snapshots g u cur)" "i \<in> range_lines (c_new c)" by blast
    then show ?thesis using over [OF i(1)] shared_line_overlaps [OF _ i(2)] by blast
  qed (use untouched_kept [OF engine i(3)] in blast)
  with u(1) \<open>cur = snap\<close> show ?thesis by blast
qed

text \<open>Two agents, a line-by-line diff, and a change to the second line.\<close>

definition pointwise :: "hash list \<Rightarrow> hash list \<Rightarrow> diff_op list" where
  "pointwise old new =
     (if length old = length new then map (\<lambda>i. if old ! i = new ! i then EqualOp i i 1 else ReplaceOp i 1 i 1) [0..<length new]
      else [ReplaceOp 0 (length old) 0 (length new)])"

definition sample_engine :: engine where
  "sample_engine = \<lparr>hash_bytes = (\<lambda>s. of_nat (length s)), myers = pointwise\<rparr>"

definition sample_version :: "hash \<Rightarrow> hash list \<Rightarrow> snapshot" where
  "sample_version h ls = \<lparr>s_hash = h, s_lines = ls, s_whole = False, s_total = length ls\<rparr>"

definition sample_stat :: "nat \<Rightarrow> stat" where
  "sample_stat t = \<lparr>st_len = 9, st_mtime = Some t\<rparr>"

lemma pointwise_tiles: "tiling 0 0 old new (pointwise old new)"
proof (cases "length old = length new")
  case True
  let ?f = "\<lambda>i. if old ! i = new ! i then EqualOp i i 1 else ReplaceOp i 1 i 1"
  have "tiling i i old new (map ?f [i..<length new])" if "i \<le> length new" for i
    using that
  proof (induction "length new - i" arbitrary: i)
    case 0
    then show ?case using True by simp
  next
    case (Suc d)
    then have "[i..<length new] = i # [Suc i..<length new]" by (simp add: upt_conv_Cons)
    moreover have "tiling (Suc i) (Suc i) old new (map ?f [Suc i..<length new])" using Suc by (intro Suc.hyps(1)) simp_all
    ultimately show ?case using Suc True by (auto simp del: upt.simps)
  qed
  from this [of 0] show ?thesis using True by (simp add: pointwise_def)
qed (simp add: pointwise_def)

definition sample_ledger :: ledger where
  "sample_ledger = record_read sample_engine ''a'' ''f'' (sample_version 1 [10, 20, 30]) (sample_stat 5) (0, 3) (with_cap MAX_PATHS)"

definition sample_history :: "event set" where
  "sample_history = {Obs ''f'' (sample_stat 5) 1, Shown ''a'' ''f'' 1 {0..<3}, Met ''a'' ''f'' 1}"

definition sample_versions :: versions where
  "sample_versions q = {sample_version 1 [10, 20, 30], sample_version 2 [10, 99, 30]}"

lemma sample_ledger_reached:
  assumes "sample_version 1 [10, 20, 30] \<in> V ''f''"
  shows "(lstep sample_engine V)\<^sup>*\<^sup>* (with_cap MAX_PATHS, {}) (sample_ledger, sample_history)"
proof -
  let ?v = "sample_version 1 [10, 20, 30]"
  have "a_version V ''f'' ?v" using assms by (simp add: a_version_def snap_wf_def sample_version_def)
  then have "lstep sample_engine V (with_cap MAX_PATHS, {}) (sample_ledger, sample_history)"
    using lstep.read [of V "''f''" ?v "{}" "sample_stat 5" sample_engine "with_cap MAX_PATHS" "''a''" "(0, 3)"]
    by (simp add: stat_trusted_def sample_ledger_def sample_history_def first_contact_def peek_base_def lookup_def with_cap_def
        range_lines_def sample_version_def insert_commute)
  then show ?thesis by (rule r_into_rtranclp)
qed

text \<open>The third line was not shown at the second version, and is as it was in the first, which is
  the one the agent knows.\<close>

theorem unseen_changes_protected_witness:
  "\<exists>u. aware sample_engine sample_versions sample_history ''a'' ''f'' u \<and>
    (2 \<in> shown sample_history ''a'' ''f'' 2 \<or> kept_line u (sample_version 2 [10, 99, 30]) 2)"
proof -
  let ?w = "sample_version 2 [10, 99, 30]"
  have engine: "\<forall>old new. tiling 0 0 old new (myers sample_engine old new)" by (simp add: sample_engine_def pointwise_tiles)
  have stat: "stat_trusted sample_history ''f'' (sample_stat 7) (s_hash ?w)"
    by (simp add: stat_trusted_def sample_history_def sample_stat_def same_stat_def)
  have "(case snd (ledger_check sample_engine ''a'' ''f'' (Some (?w, sample_stat 7)) (Some [(2, 3)]) sample_ledger) of
      Disjoint _ \<Rightarrow> True | _ \<Rightarrow> False)"
    by code_simp
  then have pass: "snd (ledger_check sample_engine ''a'' ''f'' (Some (?w, sample_stat 7)) (Some [(2, 3)]) sample_ledger) \<in> {Clean} \<union> Disjoint ` UNIV"
    by (auto split: verdict.splits)
  have ver: "a_version sample_versions ''f'' ?w" by (simp add: a_version_def sample_versions_def snap_wf_def sample_version_def)
  have names: "inj_on s_hash (insert unknown_snapshot (sample_versions ''f''))"
    by (simp add: inj_on_def sample_versions_def sample_version_def unknown_snapshot_def)
  have reach: "(lstep sample_engine sample_versions)\<^sup>*\<^sup>* (with_cap MAX_PATHS, {}) (sample_ledger, sample_history)"
    by (rule sample_ledger_reached) (simp add: sample_versions_def)
  show ?thesis
    using unseen_changes_protected [OF reach engine names stat ver pass] by (fastforce simp: range_lines_def sample_version_def)
qed

section \<open>Large files\<close>

definition large_version :: "hash \<Rightarrow> snapshot" where
  "large_version h = \<lparr>s_hash = h, s_lines = [], s_whole = True, s_total = 9\<rparr>"

definition large_read :: ledger where
  "large_read = record_read_range sample_engine ''a'' ''f'' (sample_stat 5) 0 [10, 20] (with_cap MAX_PATHS)"

text \<open>Re-reading a changed large file has the wrong effect.  Agent \<open>a\<close> reads two lines of a large
  file.  When agent \<open>b\<close> writes the file, \<open>a\<close> is told to read the lines it wants to change again;
  but it does so in vain, a write of those lines is still a conflict.  When the file changes
  outside pacode instead, re-reading the first line lets \<open>a\<close> write any line, also one that
  changed and that it was never shown.\<close>

theorem large_file_rereads:
  "(case snd (ledger_check sample_engine ''a'' ''f'' (Some (large_version 2, sample_stat 6)) (Some [(0, 1)])
      (record_read_range sample_engine ''a'' ''f'' (sample_stat 6) 0 [10, 20]
        (record_write sample_engine ''b'' ''reviewer'' ''f'' (large_version 2) (sample_stat 6) large_read))) of
      Conflict d \<Rightarrow> d_coarse d | _ \<Rightarrow> False) \<and>
   (let l = record_read_range sample_engine ''a'' ''f'' (sample_stat 6) 0 [10] large_read;
        r = partial_resolve sample_engine (the (peek_partial ''a'' ''f'' l)) (sample_stat 6) [] 9 (Some [(7, 8)])
    in snd (apply_partial ''a'' ''f'' (large_version 2) (sample_stat 6) r l) = False \<and>
       snd (ledger_check sample_engine ''a'' ''f'' (Some (large_version 2, sample_stat 6)) (Some [(7, 8)])
         (fst (apply_partial ''a'' ''f'' (large_version 2) (sample_stat 6) r l))) = Clean)"
  by code_simp

section \<open>One retry is enough\<close>

lemma insert_range_grows: "length spans < MAX_INTERVALS \<Longrightarrow> length (insert_range r spans) \<le> Suc (length spans)"
proof -
  assume room: "length spans < MAX_INTERVALS"
  have "length (insert_loop spans r False) \<le> Suc (length spans)" by (rule insert_loop_length)
  moreover from this room have "cap_step (insert_loop spans r False) = None" by (simp add: cap_step_None)
  ultimately show ?thesis by (simp add: insert_range_def Let_def loop_stuck)
qed

lemma fold_insert_exact:
  "wf_spans out \<Longrightarrow> length out + length rs \<le> MAX_INTERVALS \<Longrightarrow>
   wf_spans (fold insert_range rs out) \<and> lines_of (fold insert_range rs out) = lines_of out \<union> (\<Union>r \<in> set rs. range_lines r)"
proof (induction rs arbitrary: out)
  case (Cons r rs)
  have room: "length out < MAX_INTERVALS" using Cons.prems by simp
  have "wf_spans (insert_range r out)" "lines_of (insert_range r out) = range_lines r \<union> lines_of out"
    using insert_range_spec [OF Cons.prems(1), of r] room by auto
  moreover have "length (insert_range r out) + length rs \<le> MAX_INTERVALS" using insert_range_grows [OF room, of r] Cons.prems by simp
  ultimately show ?case using Cons.IH [of "insert_range r out"] by auto
qed simp

definition widen :: "nat \<Rightarrow> range \<Rightarrow> range" where
  "widen n r = (fst r - CONTEXT, min (snd r + CONTEXT) n)"

lemma windows_cover:
  assumes "length (d_changes d) \<le> MAX_INTERVALS" "c \<in> set (d_changes d)" "snd (visible (c_new c) (d_lines d)) \<le> d_lines d"
  shows "wf_spans (conflict_windows d)" "range_lines (visible (c_new c) (d_lines d)) \<subseteq> lines_of (conflict_windows d)"
proof -
  have "conflict_windows d = fold insert_range (map (widen (d_lines d)) (regions d)) []"
    unfolding conflict_windows_def fold_map comp_def widen_def ..
  moreover have "length (map (widen (d_lines d)) (regions d)) \<le> MAX_INTERVALS" using assms(1) by (simp add: regions_def)
  ultimately have all: "wf_spans (conflict_windows d)" "lines_of (conflict_windows d) = (\<Union>r \<in> set (map (widen (d_lines d)) (regions d)). range_lines r)"
    using fold_insert_exact [of "[]" "map (widen (d_lines d)) (regions d)"] by simp_all
  then show "wf_spans (conflict_windows d)" by simp
  have "range_lines (visible (c_new c) (d_lines d)) \<subseteq> range_lines (widen (d_lines d) (visible (c_new c) (d_lines d)))"
    using assms(3) by (auto simp: range_lines_def widen_def)
  then show "range_lines (visible (c_new c) (d_lines d)) \<subseteq> lines_of (conflict_windows d)"
    using assms(2) by (auto simp: all(2) regions_def)
qed

lemma tiling_bound: "tiling i j old new ops \<Longrightarrow> opn \<in> set ops \<Longrightarrow> snd (new_range opn) \<le> length new"
  by (induction ops arbitrary: i j) auto

lemma changes_bound:
  assumes "tiling 0 0 old new ops"
  shows "\<forall>c \<in> set (changes_of ops). fst (c_new c) \<le> snd (c_new c) \<and> snd (c_new c) \<le> length new"
proof -
  have "(\<forall>opn \<in> set os. snd (new_range opn) \<le> length new) \<Longrightarrow> (\<forall>c \<in> set out. fst (c_new c) \<le> snd (c_new c) \<and> snd (c_new c) \<le> length new) \<Longrightarrow>
      \<forall>c \<in> set (fold diff_step os out). fst (c_new c) \<le> snd (c_new c) \<and> snd (c_new c) \<le> length new" for os out
  proof (induction os arbitrary: out)
    case (Cons opn os)
    have "\<forall>c \<in> set (diff_step opn out). fst (c_new c) \<le> snd (c_new c) \<and> snd (c_new c) \<le> length new"
      using Cons.prems op_ranges(2) [of opn] by (auto simp: diff_step_def Let_def split: list.splits)
    from Cons.IH [OF _ this] Cons.prems(1) show ?case by simp
  qed simp
  from this [of ops "[]"] show ?thesis using tiling_bound [OF assms] by (simp add: changes_of_def)
qed

lemma change_visible:
  assumes "\<forall>old new. tiling 0 0 old new (myers g old new)" "snap_wf cur" "\<not> s_whole cur"
    "c \<in> set (diff_snapshots g u cur)" "\<not> s_whole u"
  shows "snd (visible (c_new c) (s_total cur)) \<le> s_total cur"
proof -
  have "c \<in> set (changes_of (myers g (s_lines u) (s_lines cur)))"
    using assms(3-5) by (auto simp: diff_snapshots_def line_diff_def split: if_splits)
  then have "fst (c_new c) \<le> snd (c_new c)" "snd (c_new c) \<le> s_total cur"
    using changes_bound [of "s_lines u" "s_lines cur"] assms(1-3) by (auto simp: snap_wf_def)
  then show ?thesis by (auto simp: visible_def Let_def)
qed

text \<open>What an agent has re-read of a version.\<close>

definition reread :: "agent \<Rightarrow> path \<Rightarrow> ledger \<Rightarrow> hash \<Rightarrow> range list" where
  "reread a p l h =
     (case lookup p l of None \<Rightarrow> []
      | Some e \<Rightarrow> (case e_seen e a of None \<Rightarrow> [] | Some s \<Rightarrow> if n_fresh_hash s = h then n_fresh s else []))"

lemma conflict_checked:
  assumes ok: "ledger_ok g V (l, H)" and wf: "a_version V p snap" and c: "ledger_check g a p (Some (snap, st)) tch l = (l', Conflict d)"
  obtains e s where "lookup p l' = Some e" "e_seen e a = Some s" "d = drift_of e s (unacked g e s)" "s_hash (e_current e) = s_hash snap"
    "\<not> e_pending e" "snap_wf (e_current e)" "wf_spans (n_fresh s)" "n_fresh (refreshed (s_hash snap) s) = reread a p l (s_hash snap)"
proof -
  let ?H = "H \<union> {Obs p st (s_hash snap)}"
  obtain l1 e tick where sy: "sync p snap st External l = (l1, e, tick)" by (cases "sync p snap st External l")
  have ok': "ledger_ok g V (l, ?H)" using ok ledger_ok_grow by blast
  note s = sync_ok [OF ok' wf _ sy, simplified]
  from c sy obtain sn where sn: "e_seen e a = Some sn" "l' = l1" "d = drift_of e sn (unacked g e sn)"
    by (auto simp: ledger_check_def Let_def split: option.splits if_splits)
  have "wf_spans (n_fresh sn)" "snap_wf (e_current e)" using s(3) sn(1) by (auto simp: entry_ok_def seen_ok_def a_version_def)
  moreover have "n_fresh (refreshed (s_hash snap) sn) = reread a p l (s_hash snap)"
    using sn(1) s(6) by (auto simp: reread_def refreshed_def split: option.splits)
  ultimately show thesis using that sn s(2,4,5) by blast
qed

lemma known_version_clean:
  assumes "lookup p l = Some e" "\<not> e_pending e" "s_hash (e_current e) = s_hash snap" "e_seen e a = Some s" "s_hash (n_base s) = s_hash snap"
  shows "snd (ledger_check g a p (Some (snap, st)) tch l) = Clean"
  using assms
  by (simp add: ledger_check_def sync_def Let_def entry_or_def advance_entry_def unacked_def unacked_changes_def)

text \<open>C8: one retry is enough.  When a write is rejected because of changes on lines it touches,
  and the rejection shows those lines, the same write passes at once: the shown lines count
  as re-read and bring the agent in sync.  This needs room in the capped set of re-read
  lines for what is shown.  The versions of a file are not restricted here.\<close>

theorem one_retry_is_enough:
  assumes reach: "(lstep g (\<lambda>q. UNIV))\<^sup>*\<^sup>* (with_cap MAX_PATHS, {}) (l, H)"
    and engine: "\<forall>old new. tiling 0 0 old new (myers g old new)" and wf: "snap_wf snap"
    and rejected: "ledger_check g a p (Some (snap, st)) tch l = (l', Conflict d)"
    and shows_lines: "render_conflict shw d a txt intent = (msg, lines)" "lines \<noteq> []"
    and room: "length (d_changes d) \<le> MAX_INTERVALS" "length (reread a p l (s_hash snap)) + length lines \<le> MAX_INTERVALS"
  shows "snd (ledger_check g a p (Some (snap, st)) tch (ack g a p lines l')) = Clean"
proof -
  have ok: "ledger_ok g (\<lambda>q. UNIV) (l, H)" using ledgers.reachable_inv [OF reach] .
  obtain e s where e: "lookup p l' = Some e" "e_seen e a = Some s" "d = drift_of e s (unacked g e s)"
    "s_hash (e_current e) = s_hash snap" "\<not> e_pending e" "snap_wf (e_current e)" "wf_spans (n_fresh s)"
    "n_fresh (refreshed (s_hash snap) s) = reread a p l (s_hash snap)"
    using conflict_checked [OF ok _ rejected] wf any_version by blast
  have lines: "lines = conflict_windows d" "\<not> d_coarse d"
    using shows_lines by (auto simp: render_conflict_def Let_def split: if_splits prod.splits)
  have d: "d_changes d = unacked g e s" "d_lines d = s_total (e_current e)" "\<not> s_whole (n_base s)" "\<not> s_whole (e_current e)"
    using e(3) lines(2) by (simp_all add: drift_of_def)
  let ?r = "refreshed (s_hash snap) s"
  have "wf_spans (n_fresh ?r)" using e(7) by (simp add: refreshed_def)
  then have fresh: "wf_spans (fold insert_range lines (n_fresh ?r))"
    "lines_of lines \<subseteq> lines_of (fold insert_range lines (n_fresh ?r))"
    using fold_insert_exact [of "n_fresh ?r" lines] room(2) e(8) by (auto simp: lines_of_def range_lines_def)
  define s' where "s' = ?r\<lparr>n_fresh := fold insert_range lines (n_fresh ?r), n_at := l_tick (bump l')\<rparr>"
  have same: "n_base s' = n_base s" "n_fresh_hash s' = s_hash snap" "n_fresh s' = fold insert_range lines (n_fresh ?r)"
    by (simp_all add: s'_def refreshed_def)
  have "unacked g e s' = []"
  proof (rule ccontr)
    assume "unacked g e s' \<noteq> []"
    then obtain c where c: "c \<in> set (unacked g e s')" by (cases "unacked g e s'") auto
    then have diff: "c \<in> set (diff_snapshots g (n_base s) (e_current e))" by (auto simp: unacked_def unacked_changes_def same split: if_splits)
    have not: "\<not> covers (n_fresh s') (visible (c_new c) (s_total (e_current e)))"
      using c e(4) by (auto simp: unacked_def unacked_changes_def same split: if_splits)
    show False
    proof (cases "c \<in> set (d_changes d)")
      case True
      have "snd (visible (c_new c) (d_lines d)) \<le> d_lines d" using change_visible [OF engine e(6) d(4) diff d(3)] d(2) by simp
      from windows_cover(2) [OF room(1) True this] fresh not show False by (simp add: covers_iff same lines(1) d(2))
    next
      case False
      have sub: "lines_of (n_fresh ?r) \<subseteq> lines_of (n_fresh s')"
        using fold_insert_exact [OF \<open>wf_spans (n_fresh ?r)\<close>, of lines] room(2) e(8) by (simp add: same)
      have "s_hash (n_base s) \<noteq> s_hash (e_current e)" using diff by (auto simp: diff_snapshots_def)
      with False diff have "n_fresh_hash s = s_hash snap" "covers (n_fresh s) (visible (c_new c) (s_total (e_current e)))"
        unfolding d(1) by (auto simp: unacked_def unacked_changes_def e(4))
      with sub fresh(1) not e(7) show False by (simp add: covers_iff same refreshed_def)
    qed
  qed
  then have "ack g a p lines l' = put_entry p (put_seen a (s'\<lparr>n_base := e_current e\<rparr>) e) (bump l')"
    using e by (simp add: ack_def Let_def s'_def)
  then show ?thesis using e by (intro known_version_clean [where e = "put_seen a (s'\<lparr>n_base := e_current e\<rparr>) e" and s = "s'\<lparr>n_base := e_current e\<rparr>"]) (simp_all add: put_seen_def)
qed

theorem one_retry_is_enough_witness:
  "snd (ledger_check sample_engine ''a'' ''f'' (Some (sample_version 2 [10, 99, 30], sample_stat 7)) (Some [(1, 2)])
     (ack sample_engine ''a'' ''f'' [(0, 3)]
       (fst (ledger_check sample_engine ''a'' ''f'' (Some (sample_version 2 [10, 99, 30], sample_stat 7)) (Some [(1, 2)]) sample_ledger)))) = Clean"
proof -
  let ?w = "sample_version 2 [10, 99, 30]"
  let ?check = "ledger_check sample_engine ''a'' ''f'' (Some (?w, sample_stat 7)) (Some [(1, 2)]) sample_ledger"
  let ?d = "\<lparr>d_writers = [External], d_changes = [\<lparr>c_old = (1, 2), c_new = (1, 2)\<rparr>], d_lines = 3, d_coarse = False\<rparr>"
  have "snd ?check = Conflict ?d" by code_simp
  then have rejected: "?check = (fst ?check, Conflict ?d)" by (metis prod.collapse)
  have shown: "snd (render_conflict ''f'' ?d ''a'' ''x'' EditI) = [(0, 3)]" by code_simp
  then have shows_lines: "render_conflict ''f'' ?d ''a'' ''x'' EditI = (fst (render_conflict ''f'' ?d ''a'' ''x'' EditI), [(0, 3)])"
    by (metis prod.collapse)
  have "reread ''a'' ''f'' sample_ledger (s_hash ?w) = []" by code_simp
  then have room: "length (reread ''a'' ''f'' sample_ledger (s_hash ?w)) + length [(0, 3)] \<le> MAX_INTERVALS" by (simp add: MAX_INTERVALS_def)
  have engine: "\<forall>old new. tiling 0 0 old new (myers sample_engine old new)" by (simp add: sample_engine_def pointwise_tiles)
  have wf: "snap_wf ?w" by (simp add: snap_wf_def sample_version_def)
  from one_retry_is_enough [OF sample_ledger_reached [OF UNIV_I] engine wf rejected shows_lines _ _ room] show ?thesis
    by (simp add: MAX_INTERVALS_def)
qed
end
