(* ===== verification/Buffers.thy ===== *)
theory Buffers
  imports Hashline
begin

text \<open>
  Bounded text.  \<^verbatim>\<open>crates/pacode-exec/src/buffer.rs\<close> keeps the first and the last bytes of
  what a process writes; \<^verbatim>\<open>truncate_head_tail\<close> of \<^verbatim>\<open>crates/pacode-types/src/message.rs\<close> cuts a
  text to a number of characters.  Output is bytes, shown as text by
  \<^verbatim>\<open>String::from_utf8_lossy\<close>, which is modelled with the standard library's rule: every
  maximal prefix of a sequence that cannot be continued becomes one U+FFFD.
\<close>

section \<open>Bytes as text\<close>

definition byte_in :: "nat \<Rightarrow> nat \<Rightarrow> string \<Rightarrow> nat \<Rightarrow> bool" where
  "byte_in lo hi s i \<longleftrightarrow> i < length s \<and> lo \<le> code_of (s ! i) \<and> code_of (s ! i) \<le> hi"

definition continuation :: "string \<Rightarrow> nat \<Rightarrow> bool" where
  "continuation s i \<longleftrightarrow> byte_in 128 191 s i"

text \<open>The second bytes that may follow a first byte of a sequence of three or four.\<close>

definition second_ok :: "nat \<Rightarrow> string \<Rightarrow> bool" where
  "second_ok b s \<longleftrightarrow>
     (if b = 224 then byte_in 160 191 s 1
      else if b = 237 then byte_in 128 159 s 1
      else if b = 240 then byte_in 144 191 s 1
      else if b = 244 then byte_in 128 143 s 1
      else continuation s 1)"

text \<open>Whether a text starts with a whole character, and how many bytes that is; or how many
  bytes one replacement character stands for.\<close>

definition utf8_next :: "string \<Rightarrow> bool \<times> nat" where
  "utf8_next s =
     (let b = code_of (hd s)
      in if b < 128 then (True, 1)
         else if 194 \<le> b \<and> b \<le> 223 then (if continuation s 1 then (True, 2) else (False, 1))
         else if 224 \<le> b \<and> b \<le> 239 then
           (if \<not> second_ok b s then (False, 1)
            else if \<not> continuation s 2 then (False, 2) else (True, 3))
         else if 240 \<le> b \<and> b \<le> 244 then
           (if \<not> second_ok b s then (False, 1)
            else if \<not> continuation s 2 then (False, 2)
            else if \<not> continuation s 3 then (False, 3) else (True, 4))
         else (False, 1))"

definition REPLACEMENT :: string where
  "REPLACEMENT = [CHR 0xEF, CHR 0xBF, CHR 0xBD]"

lemma utf8_next_pos: "0 < snd (utf8_next s)"
  by (simp add: utf8_next_def Let_def)

function from_utf8_lossy :: "string \<Rightarrow> string" where
  "from_utf8_lossy s =
     (if s = [] then []
      else (let (ok, n) = utf8_next s
            in (if ok then take n s else REPLACEMENT) @ from_utf8_lossy (drop n s)))"
  by pat_completeness auto

termination
proof (relation "measure length")
  fix s :: string and x :: "bool \<times> nat" and ok n
  assume "s \<noteq> []" "x = utf8_next s" "(ok, n) = x"
  then show "(drop n s, s) \<in> measure length"
    using utf8_next_pos [of s] by (cases "utf8_next s") simp
qed simp

declare from_utf8_lossy.simps [simp del]

text \<open>\<^verbatim>\<open>s.chars()\<close>, every character as its bytes.\<close>

fun utf8_chars :: "string \<Rightarrow> string list" where
  "utf8_chars [] = []"
| "utf8_chars (b # s) =
     (case utf8_chars s of
        [] \<Rightarrow> [[b]]
      | c # cs \<Rightarrow> if is_char_start (hd c) then [b] # c # cs else (b # c) # cs)"

text \<open>\<^verbatim>\<open>s.lines()\<close>.\<close>

definition str_lines :: "string \<Rightarrow> string list" where
  "str_lines s = map (l_text \<circ> to_line) (split_inclusive s)"

section \<open>Cutting a text\<close>

definition TRUNCATION_MARKER_MIN_CAP :: nat where
  "TRUNCATION_MARKER_MIN_CAP = 64"

definition truncate_head_tail :: "string \<Rightarrow> nat \<Rightarrow> string" where
  "truncate_head_tail txt cap =
     (if cap = 0 then []
      else
        let cs = utf8_chars txt; total = length cs
        in if total \<le> cap then txt
           else
             let head_len = cap * 2 div 3;
                 tail_len = cap - head_len;
                 h = concat (take head_len cs);
                 t = concat (drop (total - tail_len) cs);
                 dropped = total - head_len - tail_len
             in if cap < TRUNCATION_MARKER_MIN_CAP then h @ t
                else h @ [NL, NL] @ ''[... '' @ show_nat dropped @ '' characters truncated ...]'' @
                  [NL, NL] @ t)"

section \<open>The output buffer\<close>

record head_tail_buffer =
  head_cap :: nat
  tail_cap :: nat
  buf_head :: string
  buf_tail :: string
  total_bytes :: nat

definition new_buffer :: "nat \<Rightarrow> nat \<Rightarrow> head_tail_buffer" where
  "new_buffer hc tc =
     \<lparr>head_cap = hc, tail_cap = tc, buf_head = [], buf_tail = [], total_bytes = 0\<rparr>"

definition push_head :: "head_tail_buffer \<Rightarrow> string \<Rightarrow> string \<times> string" where
  "push_head b bytes =
     (if length (buf_head b) < head_cap b then
        (let available = head_cap b - length (buf_head b);
             to_take = min available (length bytes)
         in (buf_head b @ take to_take bytes, drop to_take bytes))
      else (buf_head b, bytes))"

definition push_tail :: "nat \<Rightarrow> string \<Rightarrow> string \<Rightarrow> string" where
  "push_tail cap t remaining =
     (if 0 < cap \<and> remaining \<noteq> [] then
        (if cap \<le> length remaining then drop (length remaining - cap) remaining
         else (let excess = (length t + length remaining) - cap
               in (if 0 < excess then drop excess t else t) @ remaining))
      else t)"

definition push :: "head_tail_buffer \<Rightarrow> string \<Rightarrow> head_tail_buffer" where
  "push b bytes =
     (let (h, remaining) = push_head b bytes
      in b\<lparr>total_bytes := total_bytes b + length bytes, buf_head := h,
           buf_tail := push_tail (tail_cap b) (buf_tail b) remaining\<rparr>)"

definition shown_text :: "head_tail_buffer \<Rightarrow> string" where
  "shown_text b =
     (let head_str = from_utf8_lossy (buf_head b);
          tail_str = from_utf8_lossy (buf_tail b);
          cap = head_cap b + tail_cap b
      in if cap < total_bytes b
         then head_str @ [NL] @ ''[... '' @ show_nat (total_bytes b - cap) @
                '' bytes omitted ...]'' @ [NL] @ tail_str
         else head_str @ tail_str)"

definition render_buffer :: "head_tail_buffer \<Rightarrow> nat \<Rightarrow> string" where
  "render_buffer b max_chars = truncate_head_tail (shown_text b) max_chars"

definition tail_lines :: "head_tail_buffer \<Rightarrow> nat \<Rightarrow> string list" where
  "tail_lines b n =
     (if n = 0 then []
      else
        let cap = head_cap b + tail_cap b;
            txt = (if cap < total_bytes b then from_utf8_lossy (buf_tail b)
                   else from_utf8_lossy (buf_head b @ buf_tail b));
            ls = str_lines txt
        in drop (length ls - n) ls)"

section \<open>What the buffer keeps\<close>

definition last_n :: "nat \<Rightarrow> 'a list \<Rightarrow> 'a list" where
  "last_n n xs = drop (length xs - n) xs"

text \<open>The buffer after a process wrote \<open>s\<close>, whatever the sizes of its writes.\<close>

definition holds :: "head_tail_buffer \<Rightarrow> string \<Rightarrow> bool" where
  "holds b s \<longleftrightarrow>
     buf_head b = take (head_cap b) s \<and>
     buf_tail b = last_n (tail_cap b) (drop (head_cap b) s) \<and> total_bytes b = length s"

lemma last_n_append: "last_n n (last_n n xs @ ys) = last_n n (xs @ ys)"
  by (cases "n \<le> length xs") (auto simp: last_n_def intro: arg_cong2 [where f = drop])

lemma push_tail_last_n: "length t \<le> cap \<Longrightarrow> push_tail cap t r = last_n cap (t @ r)"
  by (auto simp: push_tail_def last_n_def Let_def)

lemma push_caps [simp]:
  "head_cap (push b s) = head_cap b" "tail_cap (push b s) = tail_cap b"
  by (simp_all add: push_def split: prod.splits)

lemma push_head_take:
  assumes "buf_head b = take (head_cap b) s"
  shows "push_head b r = (take (head_cap b) (s @ r), drop (head_cap b - length s) r)"
  using assms by (auto simp: push_head_def Let_def min_def)

lemma holds_push:
  assumes "holds b s"
  shows "holds (push b r) (s @ r)"
proof -
  have h: "buf_head b = take (head_cap b) s" and t: "length (buf_tail b) \<le> tail_cap b"
    using assms by (auto simp: holds_def last_n_def)
  show ?thesis
    using assms push_head_take [OF h, of r] push_tail_last_n [OF t]
    by (simp add: holds_def push_def last_n_append)
qed

lemma holds_foldl: "holds b s \<Longrightarrow> holds (foldl push b cs) (s @ concat cs)"
proof (induction cs arbitrary: b s)
  case (Cons c cs)
  from Cons.IH [OF holds_push [OF Cons.prems]] show ?case by simp
qed simp

lemma holds_new: "holds (new_buffer hc tc) []"
  by (simp add: holds_def new_buffer_def last_n_def)


lemma written_held: "holds (foldl push (new_buffer hc tc) writes) (concat writes)"
  using holds_foldl [OF holds_new] by simp

lemma foldl_push_caps [simp]:
  "head_cap (foldl push b cs) = head_cap b" "tail_cap (foldl push b cs) = tail_cap b"
  by (induction cs arbitrary: b) simp_all

section \<open>Characters\<close>

lemma concat_utf8_chars: "concat (utf8_chars s) = s"
  by (induction s) (auto split: list.splits)

text \<open>A group of \<open>utf8_chars\<close> has no second first byte.\<close>

definition one_char :: "string \<Rightarrow> bool" where
  "one_char c \<longleftrightarrow> c \<noteq> [] \<and> list_all (\<lambda>b. \<not> is_char_start b) (tl c)"

lemma utf8_chars_one: "c \<in> set (utf8_chars s) \<Longrightarrow> one_char c"
proof (induction s arbitrary: c)
  case (Cons b s)
  then show ?case
  proof (cases "utf8_chars s")
    case (Cons d ds)
    then have "one_char d" using Cons.IH [of d] by simp
    then have "one_char (b # d)" if "\<not> is_char_start (hd d)"
      using that by (cases d) (auto simp: one_char_def)
    then show ?thesis
      using Cons Cons.IH [of c] Cons.prems by (auto simp: one_char_def split: if_splits)
  qed (auto simp: one_char_def)
qed simp

lemma utf8_chars_append: "length (utf8_chars (s @ t)) \<le> length (utf8_chars s) + length (utf8_chars t)"
proof (induction s)
  case (Cons b s)
  then show ?case by (cases s) (auto split: list.splits)
qed simp

lemma utf8_chars_group: "one_char c \<Longrightarrow> length (utf8_chars c) = 1"
proof (induction c)
  case (Cons b c)
  then show ?case
  proof (cases c)
    case (Cons d e)
    then have c: "one_char c" "\<not> is_char_start d" using Cons.prems by (auto simp: one_char_def)
    then obtain g where g: "utf8_chars c = [g]" using Cons.IH by (cases "utf8_chars c") auto
    then have "hd g = d" using Cons concat_utf8_chars [of c] by (cases g) auto
    then show ?thesis using c(2) g by simp
  qed simp
qed (simp add: one_char_def)

lemma utf8_chars_concat: "list_all one_char cs \<Longrightarrow> length (utf8_chars (concat cs)) \<le> length cs"
proof (induction cs)
  case (Cons c cs)
  then show ?case using utf8_chars_append [of c "concat cs"] utf8_chars_group [of c] by simp
qed simp

lemma utf8_chars_le: "length (utf8_chars s) \<le> length s"
  by (induction s) (auto split: list.splits)

text \<open>The marker of a cut text is the only thing on top of the cap.\<close>

lemma utf8_chars_marker:
  "length (utf8_chars (h @ m @ t)) \<le> length (utf8_chars h) + length m + length (utf8_chars t)"
  using utf8_chars_append [of h "m @ t"] utf8_chars_append [of m t] utf8_chars_le [of m] by linarith

lemma truncate_bounded:
  "length (utf8_chars (truncate_head_tail txt cap)) \<le>
     cap + (if TRUNCATION_MARKER_MIN_CAP \<le> cap
            then 35 + length (show_nat (length (utf8_chars txt) - cap)) else 0)"
proof (cases "cap = 0 \<or> length (utf8_chars txt) \<le> cap")
  case False
  define cs where "cs = utf8_chars txt"
  define h where "h = concat (take (cap * 2 div 3) cs)"
  define t where "t = concat (drop (length cs - (cap - cap * 2 div 3)) cs)"
  have all: "list_all one_char cs" using utf8_chars_one by (auto simp: cs_def list_all_iff)
  have h: "length (utf8_chars h) \<le> cap * 2 div 3"
    using utf8_chars_concat [of "take (cap * 2 div 3) cs"] all False
    by (auto simp: h_def cs_def list_all_iff dest: in_set_takeD)
  have two: "cap * 2 div 3 \<le> cap" by linarith
  have t: "length (utf8_chars t) \<le> cap - cap * 2 div 3"
    using utf8_chars_concat [of "drop (length cs - (cap - cap * 2 div 3)) cs"] all
    by (fastforce simp: t_def list_all_iff dest: in_set_dropD)
  define mk where "mk = [NL, NL] @ ''[... '' @ show_nat (length cs - cap) @
    '' characters truncated ...]'' @ [NL, NL]"
  have mk: "length mk = 35 + length (show_nat (length cs - cap))" by (simp add: mk_def)
  have "truncate_head_tail txt cap = (if cap < TRUNCATION_MARKER_MIN_CAP then h @ t else h @ mk @ t)"
    using False by (simp add: truncate_head_tail_def Let_def h_def t_def cs_def mk_def)
  moreover have "length (utf8_chars h) + length (utf8_chars t) \<le> cap" using h t two by linarith
  ultimately show ?thesis
    using mk utf8_chars_append [of h t] utf8_chars_marker [of h mk t]
    by (cases "TRUNCATION_MARKER_MIN_CAP \<le> cap") (simp_all add: cs_def)
qed (auto simp: truncate_head_tail_def)

text \<open>The output of a process is kept to its two ends.  However the bytes arrive, the
  buffer holds exactly the first \<open>hc\<close> bytes and the last \<open>tc\<close> of the rest, and knows how
  many there were; its two parts are the whole output exactly as long as nothing had to be
  dropped.  What is shown of it has at most the requested number of characters, beside the
  marker that says how many are missing, which only a cap of 64 or more has room for.\<close>

theorem output_kept:
  "let b = foldl push (new_buffer hc tc) writes; s = concat writes
   in buf_head b = take hc s \<and> buf_tail b = last_n tc (drop hc s) \<and>
      total_bytes b = length s \<and> length (buf_head b @ buf_tail b) \<le> hc + tc \<and>
      (buf_head b @ buf_tail b = s \<longleftrightarrow> length s \<le> hc + tc) \<and>
      length (utf8_chars (render_buffer b m)) \<le>
        m + (if 64 \<le> m then 35 + length (show_nat (length (utf8_chars (shown_text b)) - m)) else 0)"
proof -
  define b where "b = foldl push (new_buffer hc tc) writes"
  define s where "s = concat writes"
  have caps: "head_cap b = hc" "tail_cap b = tc" by (simp_all add: b_def new_buffer_def)
  have "holds b s" unfolding b_def s_def by (rule written_held)
  then have kept: "buf_head b = take hc s" "buf_tail b = last_n tc (drop hc s)" "total_bytes b = length s"
    by (simp_all add: holds_def caps)
  have "take hc s @ last_n tc (drop hc s) = s \<longleftrightarrow> length s \<le> hc + tc"
  proof
    assume "take hc s @ last_n tc (drop hc s) = s"
    then have "length (take hc s @ last_n tc (drop hc s)) = length s" by simp
    then show "length s \<le> hc + tc" by (auto simp: last_n_def)
  qed (simp add: last_n_def)
  then show ?thesis
    using kept truncate_bounded [of "shown_text b" m]
    unfolding Let_def b_def [symmetric] s_def [symmetric]
    by (auto simp: render_buffer_def TRUNCATION_MARKER_MIN_CAP_def last_n_def)
qed

lemma from_utf8_lossy_Nil [simp]: "from_utf8_lossy [] = []"
  by (subst from_utf8_lossy.simps) simp

lemma from_utf8_lossy_ascii:
  "from_utf8_lossy (replicate n CHR ''a'' @ s) = replicate n CHR ''a'' @ from_utf8_lossy s"
proof (induction n)
  case (Suc n)
  then show ?case
    by (subst from_utf8_lossy.simps) (simp add: utf8_next_def code_of_def)
qed simp

lemma lossy_accent:
  "from_utf8_lossy [CHR 0xC3] = REPLACEMENT" "from_utf8_lossy [CHR 0xA9] = REPLACEMENT"
  "from_utf8_lossy [CHR 0xC3, CHR 0xA9] = [CHR 0xC3, CHR 0xA9]"
  by (subst from_utf8_lossy.simps,
      simp add: utf8_next_def continuation_def byte_in_def code_of_def)+

text \<open>A character on the border of the two parts is garbled.  An output of \<open>n\<close> letters
  and one two-byte character fits a buffer with a head of \<open>n + 1\<close> bytes, nothing is omitted
  and the bytes are valid text; still two replacement characters are shown in the place of
  the last one, because each part is decoded on its own.\<close>

theorem straddling_char_garbled:
  "let s = replicate n CHR ''a'' @ [CHR 0xC3, CHR 0xA9]; b = push (new_buffer (n + 1) (tc + 1)) s
   in buf_head b @ buf_tail b = s \<and> from_utf8_lossy s = s \<and>
      shown_text b = replicate n CHR ''a'' @ REPLACEMENT @ REPLACEMENT"
  by (simp add: Let_def push_def push_head_def push_tail_def new_buffer_def shown_text_def
      from_utf8_lossy_ascii lossy_accent)

end
