(* ===== verification/Sse.thy ===== *)
theory Sse
  imports Buffers
begin

text \<open>
  \<^verbatim>\<open>crates/pacode-provider/src/sse.rs\<close>, the incremental parser of server-sent events.  The
  bytes of a response arrive in chunks of any size; the parser keeps what does not yet end
  in a delimiter, and remembers how far it has searched.  The reference is the whole
  response cut at its delimiters (\<open>blocks\<close>): chunks, resumed searches and the drained
  buffer must not be visible in the payloads.
\<close>

datatype provider_error =
    ConfigError string
  | AuthError string
  | RateLimited string
  | HttpError nat string
  | TransportError string
  | IdleTimeout nat
  | Malformed string
  | CancelledError

fun is_retryable :: "provider_error \<Rightarrow> bool" where
  "is_retryable (RateLimited _) = True"
| "is_retryable (TransportError _) = True"
| "is_retryable (IdleTimeout _) = True"
| "is_retryable (HttpError status _) = (500 \<le> status)"
| "is_retryable (ConfigError _) = False"
| "is_retryable (AuthError _) = False"
| "is_retryable (Malformed _) = False"
| "is_retryable CancelledError = False"

section \<open>The parser\<close>

definition MAX_SSE_BUFFER_BYTES :: nat where
  "MAX_SSE_BUFFER_BYTES = 16 * 1024 * 1024"

record sse_parser =
  sse_buffer :: string
  scan_from :: nat
  max_buffer_bytes :: nat

definition with_max_buffer_bytes :: "nat \<Rightarrow> sse_parser" where
  "with_max_buffer_bytes n = \<lparr>sse_buffer = [], scan_from = 0, max_buffer_bytes = n\<rparr>"

definition new_sse_parser :: sse_parser where
  "new_sse_parser = with_max_buffer_bytes MAX_SSE_BUFFER_BYTES"

definition delimiter_at :: "string \<Rightarrow> nat option" where
  "delimiter_at s =
     (if starts_with s [CR, NL, CR, NL] then Some 4
      else if starts_with s [CR, NL, NL] \<or> starts_with s [NL, CR, NL] then Some 3
      else if starts_with s [NL, NL] then Some 2
      else None)"

function find_event_delimiter :: "string \<Rightarrow> nat \<Rightarrow> (nat \<times> nat) option" where
  "find_event_delimiter s i =
     (if i < length s then
        (case delimiter_at (drop i s) of
           Some n \<Rightarrow> Some (i, n)
         | None \<Rightarrow> find_event_delimiter s (i + 1))
      else None)"
  by pat_completeness auto

termination
  by (relation "measure (\<lambda>(s, i). length s - i)") auto

declare find_event_delimiter.simps [simp del]

text \<open>One line of an event: the data it adds.\<close>

definition data_line :: "string \<Rightarrow> string list" where
  "data_line l =
     (if starts_with l '':'' then []
      else (case strip_prefix l ''data:'' of
              Some rest \<Rightarrow> [case strip_prefix rest '' '' of Some v \<Rightarrow> v | None \<Rightarrow> rest]
            | None \<Rightarrow> if l = ''data'' then [[]] else []))"

definition parse_sse_event_block :: "string \<Rightarrow> string option" where
  "parse_sse_event_block event_str =
     (let data_lines = concat (map data_line (str_lines event_str))
      in if data_lines = [] then None else Some (join_with [NL] data_lines))"

lemma delimiter_at_bounds: "delimiter_at s = Some n \<Longrightarrow> 2 \<le> n \<and> n \<le> length s \<and> n \<le> 4"
  by (auto simp: delimiter_at_def starts_with_iff split: if_splits)

lemma find_event_delimiter_bounds:
  "find_event_delimiter s i = Some (j, n) \<Longrightarrow> i \<le> j \<and> 2 \<le> n \<and> j + n \<le> length s"
proof (induction s i rule: find_event_delimiter.induct)
  case (1 s i)
  from "1.prems" have "i < length s" by (subst (asm) find_event_delimiter.simps) (auto split: if_splits)
  then show ?case
    using 1 delimiter_at_bounds [of "drop i s" n]
    by (subst (asm) find_event_delimiter.simps) (fastforce split: option.splits)
qed

function feed_loop :: "string \<Rightarrow> nat \<Rightarrow> nat \<Rightarrow> string list \<Rightarrow> nat \<times> string list" where
  "feed_loop buf cursor resume events =
     (if cursor < length buf then
        (case find_event_delimiter (drop cursor buf) resume of
           Some (offset, delim_len) \<Rightarrow>
             (let event_str = from_utf8_lossy (take offset (drop cursor buf));
                  events' = (case parse_sse_event_block event_str of
                               Some payload \<Rightarrow> events @ [payload] | None \<Rightarrow> events)
              in feed_loop buf (cursor + (offset + delim_len)) 0 events')
         | None \<Rightarrow> (cursor, events))
      else (cursor, events))"
  by pat_completeness auto

termination
proof (relation "measure (\<lambda>(buf, cursor, resume, events). length buf - cursor)")
  fix buf :: string and cursor resume events x offset n and es ev :: "string list" and str
  assume "cursor < length buf" "find_event_delimiter (drop cursor buf) resume = Some x" "(offset, n) = x"
  then show "((buf, cursor + (offset + n), 0, ev), buf, cursor, resume, events)
      \<in> measure (\<lambda>(buf, cursor, resume, events). length buf - cursor)"
    using find_event_delimiter_bounds [of "drop cursor buf" resume offset n] by auto
qed simp

declare feed_loop.simps [simp del]

definition feed_checked :: "sse_parser \<Rightarrow> string \<Rightarrow> sse_parser \<times> (provider_error + string list)" where
  "feed_checked p bytes =
     (if max_buffer_bytes p < length (sse_buffer p) + length bytes then
        (p\<lparr>sse_buffer := [], scan_from := 0\<rparr>,
         Inl (Malformed (''SSE event exceeds '' @ show_nat (max_buffer_bytes p) @
           ''-byte buffer budget'')))
      else
        let buf = sse_buffer p @ bytes;
            (cursor, events) = feed_loop buf 0 (scan_from p - 3) [];
            rest = drop cursor buf
        in (p\<lparr>sse_buffer := rest, scan_from := length rest\<rparr>, Inr events))"

definition feed :: "sse_parser \<Rightarrow> string \<Rightarrow> sse_parser \<times> string list" where
  "feed p bytes =
     (let (p', r) = feed_checked p bytes in (p', case r of Inl _ \<Rightarrow> [] | Inr evs \<Rightarrow> evs))"

text \<open>A response as the stream reads it: up to its first error.\<close>

fun feed_all :: "sse_parser \<Rightarrow> string list \<Rightarrow> sse_parser \<times> (provider_error + string list)" where
  "feed_all p [] = (p, Inr [])"
| "feed_all p (c # cs) =
     (case feed_checked p c of
        (p', Inl e) \<Rightarrow> (p', Inl e)
      | (p', Inr evs) \<Rightarrow>
          (case feed_all p' cs of
             (p'', Inl e) \<Rightarrow> (p'', Inl e)
           | (p'', Inr evs') \<Rightarrow> (p'', Inr (evs @ evs'))))"

section \<open>The reference\<close>

fun first_delim :: "string \<Rightarrow> (nat \<times> nat) option" where
  "first_delim [] = None"
| "first_delim (b # s) =
     (case delimiter_at (b # s) of
        Some n \<Rightarrow> Some (0, n)
      | None \<Rightarrow> map_option (\<lambda>(j, n). (Suc j, n)) (first_delim s))"

lemma first_delim_bounds: "first_delim s = Some (j, n) \<Longrightarrow> 2 \<le> n \<and> j + n \<le> length s"
proof (induction s arbitrary: j)
  case (Cons b s)
  then show ?case
    using delimiter_at_bounds [of "b # s" n] by (auto split: option.splits)
qed simp

text \<open>The events of a whole response and what follows the last of them.\<close>

function blocks :: "string \<Rightarrow> string list \<times> string" where
  "blocks s =
     (case first_delim s of
        None \<Rightarrow> ([], s)
      | Some (j, n) \<Rightarrow> (let (bs, rest) = blocks (drop (j + n) s) in (take j s # bs, rest)))"
  by pat_completeness auto

termination
proof (relation "measure length")
  fix s x j n
  assume "first_delim s = Some x" "(j, n) = x"
  then show "(drop (j + n) s, s) \<in> measure length"
    using first_delim_bounds [of s j n] by auto
qed simp

declare blocks.simps [simp del]

definition payload_of :: "string \<Rightarrow> string list" where
  "payload_of b = (case parse_sse_event_block (from_utf8_lossy b) of Some p \<Rightarrow> [p] | None \<Rightarrow> [])"

definition payloads :: "string \<Rightarrow> string list" where
  "payloads s = concat (map payload_of (fst (blocks s)))"


section \<open>Delimiters in a growing buffer\<close>

text \<open>The delimiters are prefix-free, and one that starts inside another ends with it or
  after it: more bytes never change the first delimiter of a buffer.\<close>

lemma delimiter_at_append: "delimiter_at s = Some n \<Longrightarrow> delimiter_at (s @ t) = Some n"
  by (auto simp: delimiter_at_def starts_with_iff split: if_splits)

lemma delimiter_at_grown:
  "delimiter_at (s @ t) = Some n \<Longrightarrow> n \<le> length s \<Longrightarrow> delimiter_at s = Some n"
  by (auto simp: delimiter_at_def starts_with_def split: if_splits)

lemma delimiter_not_earlier:
  assumes "delimiter_at (b # s) = None" "first_delim s = Some (j, n)"
  shows "delimiter_at (b # s @ t) = None"
proof (rule ccontr)
  assume "delimiter_at (b # s @ t) \<noteq> None"
  then obtain m where m: "delimiter_at ((b # s) @ t) = Some m" by auto
  have "length s < m" using delimiter_at_grown [OF m] assms(1) by fastforce
  moreover have "m \<le> 4" using delimiter_at_bounds [OF m] by simp
  moreover have "2 \<le> n" "j + n \<le> length s" using first_delim_bounds [OF assms(2)] by simp_all
  ultimately obtain c d e where s: "s = [c, d] \<or> s = [c, d, e]"
    by (cases s; cases "tl s"; cases "tl (tl s)"; cases "tl (tl (tl s))") auto
  then show False
    using assms m
    by (auto simp: delimiter_at_def starts_with_def split: if_splits)
qed

lemma first_delim_append: "first_delim s = Some (j, n) \<Longrightarrow> first_delim (s @ t) = Some (j, n)"
proof (induction s arbitrary: j)
  case (Cons b s)
  show ?case
  proof (cases "delimiter_at (b # s)")
    case None
    then obtain i where i: "first_delim s = Some (i, n)" "j = Suc i" using Cons.prems by auto
    then show ?thesis using delimiter_not_earlier [OF None i(1)] Cons.IH [OF i(1)] by simp
  next
    case (Some m)
    then show ?thesis using Cons.prems delimiter_at_append [OF Some] by simp
  qed
qed simp

lemma find_event_delimiter_drop:
  "i \<le> length s \<Longrightarrow> find_event_delimiter s i = map_option (\<lambda>(j, n). (i + j, n)) (first_delim (drop i s))"
proof (induction s i rule: find_event_delimiter.induct)
  case (1 s i)
  show ?case
  proof (cases "i < length s")
    case True
    then have d: "drop i s = s ! i # drop (Suc i) s" by (simp add: Cons_nth_drop_Suc)
    show ?thesis
      using 1 True unfolding d
      by (subst find_event_delimiter.simps)
        (auto simp: d option.map_comp comp_def split: option.splits intro!: option.map_cong0)
  next
    case False
    then show ?thesis using "1.prems" by (subst find_event_delimiter.simps) simp
  qed
qed

text \<open>What was searched need not be searched again, but for the last three bytes.\<close>

lemma first_delim_resume:
  "first_delim s = None \<Longrightarrow>
     first_delim (s @ t) = map_option (\<lambda>(j, n). (length s - 3 + j, n)) (first_delim (drop (length s - 3) s @ t))"
proof (induction s)
  case (Cons b s)
  show ?case
  proof (cases "length s < 3")
    case False
    have none: "delimiter_at (b # s) = None" "first_delim s = None"
      using Cons.prems by (auto split: option.splits)
    have "delimiter_at ((b # s) @ t) = None"
    proof (rule ccontr)
      assume "\<not> ?thesis"
      then obtain m where m: "delimiter_at ((b # s) @ t) = Some m" by auto
      then show False using delimiter_at_grown [OF m] delimiter_at_bounds [OF m] False none(1) by simp
    qed
    moreover obtain k where "length s = k + 3" using False by (metis add.commute le_Suc_ex not_less)
    ultimately show ?thesis
      using Cons.IH [OF none(2)] by (simp add: option.map_comp comp_def split_def)
  qed (auto simp: option.map_ident split_def)
qed (simp add: option.map_ident split_def)

lemma blocks_None: "first_delim s = None \<Longrightarrow> blocks s = ([], s)"
  by (subst blocks.simps) simp

lemma blocks_rest: "blocks s = (bs, rest) \<Longrightarrow> first_delim rest = None"
proof (induction s arbitrary: bs rule: blocks.induct)
  case (1 s)
  then show ?case by (subst (asm) (2) blocks.simps) (auto split: option.splits prod.splits)
qed

lemma blocks_rest_le: "blocks s = (bs, rest) \<Longrightarrow> length rest \<le> length s"
proof (induction s arbitrary: bs rule: blocks.induct)
  case (1 s)
  then show ?case by (subst (asm) (2) blocks.simps) (fastforce split: option.splits prod.splits)
qed

lemma blocks_append:
  "blocks s = (bs, rest) \<Longrightarrow> blocks (rest @ t) = (cs, end) \<Longrightarrow> blocks (s @ t) = (bs @ cs, end)"
proof (induction s arbitrary: bs rule: blocks.induct)
  case (1 s)
  show ?case
  proof (cases "first_delim s")
    case None
    then show ?thesis using 1 blocks_None [OF None] by simp
  next
    case (Some x)
    obtain j n where x: "x = (j, n)" by (cases x)
    obtain bs' where b: "blocks (drop (j + n) s) = (bs', rest)" "bs = take j s # bs'"
      using "1.prems"(1) Some x by (subst (asm) blocks.simps) (auto split: prod.splits)
    have "j + n \<le> length s" using first_delim_bounds Some x by blast
    then show ?thesis
      using "1.IH" [OF Some x [symmetric] b(1) "1.prems"(2)] first_delim_append [of s j n t] Some x b(2)
      by (subst blocks.simps) simp
  qed
qed

lemma feed_loop_blocks:
  "cursor \<le> length buf \<Longrightarrow> resume \<le> length buf - cursor \<Longrightarrow>
     find_event_delimiter (drop cursor buf) resume = first_delim (drop cursor buf) \<Longrightarrow>
     blocks (drop cursor buf) = (bs, rest) \<Longrightarrow>
     \<exists>c. feed_loop buf cursor resume events = (c, events @ concat (map payload_of bs)) \<and> drop c buf = rest"
proof (induction "length buf - cursor" arbitrary: cursor resume events bs rule: less_induct)
  case less
  show ?case
  proof (cases "first_delim (drop cursor buf)")
    case None
    then have "bs = []" "rest = drop cursor buf" using less.prems(4) blocks_None [OF None] by simp_all
    then show ?thesis using None less.prems(3) by (subst feed_loop.simps) simp
  next
    case (Some x)
    obtain j n where x: "x = (j, n)" by (cases x)
    let ?next = "cursor + (j + n)" and ?block = "take j (drop cursor buf)"
    have bound: "2 \<le> n" "j + n \<le> length buf - cursor"
      using first_delim_bounds [of "drop cursor buf" j n] Some x by auto
    then have lt: "cursor < length buf" by simp
    obtain bs' where b: "blocks (drop ?next buf) = (bs', rest)" "bs = ?block # bs'"
      using less.prems(4) Some x
      by (subst (asm) blocks.simps) (auto split: prod.splits simp: add.commute add.left_commute)
    have zero: "find_event_delimiter (drop ?next buf) 0 = first_delim (drop ?next buf)"
      by (subst find_event_delimiter_drop) (simp_all add: split_def option.map_ident)
    have "length buf - ?next < length buf - cursor" "?next \<le> length buf" using bound by linarith+
    then obtain c where c: "feed_loop buf ?next 0 (events @ payload_of ?block) =
        (c, (events @ payload_of ?block) @ concat (map payload_of bs'))" "drop c buf = rest"
      using less.hyps [OF _ _ _ zero b(1), of "events @ payload_of ?block"] by blast
    have "feed_loop buf cursor resume events = feed_loop buf ?next 0 (events @ payload_of ?block)"
      using less.prems(3) Some x bound lt
      by (subst feed_loop.simps) (simp add: payload_of_def split: option.splits)
    then show ?thesis using c b(2) by simp
  qed
qed

section \<open>Chunks do not matter\<close>

text \<open>The parser between two chunks: the buffer was searched and holds no delimiter.\<close>

definition parser_ok :: "sse_parser \<Rightarrow> bool" where
  "parser_ok p \<longleftrightarrow>
     scan_from p = length (sse_buffer p) \<and> first_delim (sse_buffer p) = None \<and>
     length (sse_buffer p) \<le> max_buffer_bytes p"

lemma feed_checked_ok:
  assumes "parser_ok p" "length (sse_buffer p) + length c \<le> max_buffer_bytes p"
    and "blocks (sse_buffer p @ c) = (bs, rest)"
  shows "feed_checked p c =
      (p\<lparr>sse_buffer := rest, scan_from := length rest\<rparr>, Inr (concat (map payload_of bs)))"
    and "parser_ok (p\<lparr>sse_buffer := rest, scan_from := length rest\<rparr>)"
proof -
  let ?buf = "sse_buffer p @ c" and ?r = "scan_from p - 3"
  have r: "?r = length (sse_buffer p) - 3" and none: "first_delim (sse_buffer p) = None"
    using assms(1) by (simp_all add: parser_ok_def)
  have "find_event_delimiter ?buf ?r = first_delim ?buf"
    using first_delim_resume [OF none, of c] r by (subst find_event_delimiter_drop) simp_all
  moreover have "?r \<le> length ?buf - 0" using r by simp
  ultimately obtain cur
    where cur: "feed_loop ?buf 0 ?r [] = (cur, concat (map payload_of bs))" "drop cur ?buf = rest"
    using feed_loop_blocks [of 0 ?buf ?r bs rest "[]"] assms(3) by (metis append_Nil drop0 le0)
  then show "feed_checked p c =
      (p\<lparr>sse_buffer := rest, scan_from := length rest\<rparr>, Inr (concat (map payload_of bs)))"
    using assms(2) by (simp add: feed_checked_def del: drop_append length_drop)
  have "length rest \<le> length ?buf" using cur(2) by auto
  then show "parser_ok (p\<lparr>sse_buffer := rest, scan_from := length rest\<rparr>)"
    using blocks_rest [OF assms(3)] assms(2) by (simp add: parser_ok_def)
qed

lemma feed_all_blocks:
  "parser_ok p \<Longrightarrow> feed_all p cs = (p', Inr evs) \<Longrightarrow> blocks (sse_buffer p @ concat cs) = (bs, rest) \<Longrightarrow>
     parser_ok p' \<and> evs = concat (map payload_of bs) \<and> sse_buffer p' = rest"
proof (induction cs arbitrary: p evs bs)
  case Nil
  then show ?case using blocks_None [of "sse_buffer p"] by (auto simp: parser_ok_def)
next
  case (Cons c cs)
  obtain bs1 r1 where b1: "blocks (sse_buffer p @ c) = (bs1, r1)" by fastforce
  let ?p = "p\<lparr>sse_buffer := r1, scan_from := length r1\<rparr>"
  have fits: "length (sse_buffer p) + length c \<le> max_buffer_bytes p"
    using Cons.prems(2) by (cases "max_buffer_bytes p < length (sse_buffer p) + length c") (auto simp: feed_checked_def)
  note fed = feed_checked_ok [OF Cons.prems(1) fits b1]
  obtain evs2 where e2: "feed_all ?p cs = (p', Inr evs2)" "evs = concat (map payload_of bs1) @ evs2"
    using Cons.prems(2) fed(1) by (auto split: prod.splits sum.splits)
  obtain bs2 r2 where b2: "blocks (r1 @ concat cs) = (bs2, r2)" by fastforce
  have "blocks (sse_buffer p @ concat (c # cs)) = (bs1 @ bs2, r2)"
    using blocks_append [OF b1 b2] by simp
  then have "bs = bs1 @ bs2" "rest = r2" using Cons.prems(3) by simp_all
  then show ?case using Cons.IH [OF fed(2) e2(1)] b2 e2(2) by simp
qed

lemma feed_all_fits:
  "parser_ok p \<Longrightarrow> length (sse_buffer p) + length (concat cs) \<le> max_buffer_bytes p \<Longrightarrow>
     \<exists>p' evs. feed_all p cs = (p', Inr evs)"
proof (induction cs arbitrary: p)
  case (Cons c cs)
  obtain bs rest where b: "blocks (sse_buffer p @ c) = (bs, rest)" by fastforce
  have "length rest \<le> length (sse_buffer p @ c)" by (rule blocks_rest_le [OF b])
  then have small: "length rest + length (concat cs) \<le> max_buffer_bytes p" using Cons.prems(2) by simp
  have fits: "length (sse_buffer p) + length c \<le> max_buffer_bytes p" using Cons.prems(2) by simp
  note fed = feed_checked_ok [OF Cons.prems(1) fits b]
  obtain p' evs where "feed_all (p\<lparr>sse_buffer := rest, scan_from := length rest\<rparr>) cs = (p', Inr evs)"
    using Cons.IH [OF fed(2)] small by auto
  then show ?case using fed(1) by simp
qed simp

lemma feed_checked_max [simp]: "max_buffer_bytes (fst (feed_checked p c)) = max_buffer_bytes p"
  by (auto simp: feed_checked_def Let_def split: prod.splits)

lemma feed_all_max: "max_buffer_bytes (fst (feed_all p cs)) = max_buffer_bytes p"
proof (induction cs arbitrary: p)
  case (Cons c cs)
  obtain q r where "feed_checked p c = (q, r)" by fastforce
  then show ?case
    using Cons.IH [of q] feed_checked_max [of p c]
    by (cases "feed_all q cs") (auto simp del: feed_checked_max split: sum.splits)
qed simp

lemma new_parser_ok: "parser_ok (with_max_buffer_bytes m)"
  by (simp add: parser_ok_def with_max_buffer_bytes_def)

text \<open>C33: The payloads of a response do not depend on how it was cut into chunks.  Fed chunk
  by chunk, the parser yields exactly the payloads of the whole response cut at its
  delimiters, in order, and keeps exactly the bytes after the last delimiter.  A response
  that fits the buffer is never refused.\<close>

theorem chunks_do_not_matter:
  assumes "feed_all (with_max_buffer_bytes m) chunks = (p, r)"
  shows "case r of
           Inr evs \<Rightarrow> evs = payloads (concat chunks) \<and> sse_buffer p = snd (blocks (concat chunks)) \<and>
                      length (sse_buffer p) \<le> m
         | Inl e \<Rightarrow> m < length (concat chunks)"
proof (cases r)
  case (Inl e)
  then show ?thesis
    using feed_all_fits [OF new_parser_ok, of m chunks] assms
    by (fastforce simp: with_max_buffer_bytes_def)
next
  case (Inr evs)
  obtain bs rest where b: "blocks (concat chunks) = (bs, rest)" by fastforce
  then show ?thesis
    using feed_all_blocks [OF new_parser_ok, of m chunks p evs bs rest] assms Inr feed_all_max [of "with_max_buffer_bytes m" chunks]
    by (auto simp: payloads_def parser_ok_def with_max_buffer_bytes_def)
qed

lemma wire_hi:
  "feed_all (with_max_buffer_bytes 64) [''data: a'' @ [CR, NL, CR], [NL] @ ''data: b'', [NL, NL]] =
     (with_max_buffer_bytes 64, Inr [''a'', ''b''])"
  by code_simp

theorem chunks_do_not_matter_witness:
  "[''a'', ''b''] = payloads (''data: a'' @ [CR, NL, CR, NL] @ ''data: b'' @ [NL, NL])"
  using chunks_do_not_matter [OF wire_hi] by simp
end
