(* ===== verification/Provider_Errors.thy ===== *)
theory Provider_Errors
  imports Sse
begin

text \<open>
  What a failed request tells: \<^verbatim>\<open>crates/pacode-provider/src/error_body.rs\<close>, the classification
  of HTTP statuses in \<^verbatim>\<open>post.rs\<close> and of errors inside a stream in \<^verbatim>\<open>sse.rs\<close>, and the pacing
  hints of \<^verbatim>\<open>retry.rs\<close>.  A JSON document is the tree \<^verbatim>\<open>serde_json::Value\<close> has; parsing a text
  to it and printing it are arguments (\<open>parse_json\<close>, \<open>json_text\<close>).  Durations are counted
  in nanoseconds.
\<close>

section \<open>JSON values\<close>

datatype jnumber = PosInt nat | NegInt int | Float string

datatype json =
    JNull
  | JBool bool
  | JNumber jnumber
  | JString string
  | JArray "json list"
  | JObject "(string \<times> json) list"

fun jget :: "json \<Rightarrow> string \<Rightarrow> json option" where
  "jget (JObject obj) k = map_of obj k"
| "jget _ k = None"

fun as_str :: "json \<Rightarrow> string option" where
  "as_str (JString s) = Some s"
| "as_str _ = None"

fun as_u64 :: "json \<Rightarrow> nat option" where
  "as_u64 (JNumber (PosInt n)) = Some n"
| "as_u64 _ = None"

fun as_array :: "json \<Rightarrow> json list option" where
  "as_array (JArray xs) = Some xs"
| "as_array _ = None"

fun as_object :: "json \<Rightarrow> (string \<times> json) list option" where
  "as_object (JObject obj) = Some obj"
| "as_object _ = None"

definition opt_or :: "'a option \<Rightarrow> 'a option \<Rightarrow> 'a option" where
  "opt_or a b = (case a of Some x \<Rightarrow> Some x | None \<Rightarrow> b)"

definition jstr :: "json option \<Rightarrow> string option" where
  "jstr v = Option.bind v as_str"

section \<open>Error bodies\<close>

definition ELLIPSIS :: string where
  "ELLIPSIS = [CHR 0xE2, CHR 0x80, CHR 0xA6]"

definition MAX_ERROR_BODY_CHARS :: nat where
  "MAX_ERROR_BODY_CHARS = 300"

definition truncate_chars :: "string \<Rightarrow> nat \<Rightarrow> string" where
  "truncate_chars input max_chars =
     (case nth_char max_chars input of Some e \<Rightarrow> take e input @ ELLIPSIS | None \<Rightarrow> input)"

definition is_char_boundary :: "string \<Rightarrow> nat \<Rightarrow> bool" where
  "is_char_boundary s i \<longleftrightarrow> i = 0 \<or> i = length s \<or> (i < length s \<and> is_char_start (s ! i))"

text \<open>The loop that moves a byte index back to a character boundary.\<close>

fun boundary_before :: "string \<Rightarrow> nat \<Rightarrow> nat" where
  "boundary_before s 0 = 0"
| "boundary_before s (Suc e) = (if is_char_boundary s (Suc e) then Suc e else boundary_before s e)"

definition truncate_bytes :: "string \<Rightarrow> nat \<Rightarrow> string" where
  "truncate_bytes input max_bytes =
     (if length input \<le> max_bytes then input else take (boundary_before input max_bytes) input)"

definition truncate_on_char_boundary :: "string \<Rightarrow> nat \<Rightarrow> string" where
  "truncate_on_char_boundary input max_bytes =
     (if length input \<le> max_bytes then input
      else take (boundary_before input max_bytes) input @ ELLIPSIS)"

definition append_response_body_chunk :: "string \<Rightarrow> string \<Rightarrow> nat \<Rightarrow> string" where
  "append_response_body_chunk body chunk max_bytes = body @ take (min (length chunk) (max_bytes - length body)) chunk"

text \<open>Reading a body: the chunks that arrive before the time is up, the connection ends or
  fails.\<close>

fun read_body :: "string \<Rightarrow> string list \<Rightarrow> nat \<Rightarrow> string" where
  "read_body body [] max_bytes = body"
| "read_body body (c # cs) max_bytes =
     (if length body < max_bytes then read_body (append_response_body_chunk body c max_bytes) cs max_bytes
      else body)"

definition read_response_body_with_limits :: "string list \<Rightarrow> nat \<Rightarrow> string" where
  "read_response_body_with_limits chunks max_bytes =
     truncate_bytes (from_utf8_lossy (read_body [] chunks max_bytes)) max_bytes"

definition non_empty_str :: "json option \<Rightarrow> string option" where
  "non_empty_str v =
     (case jstr v of Some s \<Rightarrow> if trim s = [] then None else Some (trim s) | None \<Rightarrow> None)"

definition with_prefix :: "string option \<Rightarrow> string \<Rightarrow> string" where
  "with_prefix kind msg =
     (case kind of Some k \<Rightarrow> if k \<noteq> msg then k @ '': '' @ msg else msg | None \<Rightarrow> msg)"

definition extract_from_object :: "(string \<times> json) list \<Rightarrow> string option" where
  "extract_from_object m =
     (let err = Option.bind (map_of m ''error'') as_object;
          in_err = (\<lambda>k. case err of Some e \<Rightarrow> non_empty_str (map_of e k) | None \<Rightarrow> None)
      in case in_err ''message'' of
           Some msg \<Rightarrow> Some (with_prefix (opt_or (in_err ''type'') (in_err ''code'')) msg)
         | None \<Rightarrow>
             (case non_empty_str (map_of m ''message'') of
                Some msg \<Rightarrow> Some msg
              | None \<Rightarrow>
                  (case non_empty_str (map_of m ''error'') of
                     Some msg \<Rightarrow>
                       Some (case non_empty_str (map_of m ''error_description'') of
                               Some d \<Rightarrow> if d \<noteq> msg then msg @ '': '' @ d else msg
                             | None \<Rightarrow> msg)
                   | None \<Rightarrow>
                       opt_or (non_empty_str (map_of m ''detail''))
                         (opt_or (in_err ''description'')
                           (non_empty_str (map_of m ''error_description''))))))"

fun extract_message :: "json \<Rightarrow> string option" where
  "extract_message (JObject m) = extract_from_object m"
| "extract_message (JString s) = (if trim s = [] then None else Some (trim s))"
| "extract_message _ = None"

definition error_body_message :: "(string \<Rightarrow> string + json) \<Rightarrow> string \<Rightarrow> string" where
  "error_body_message parse_json body =
     (let trimmed = trim body
      in if trimmed = [] then ''(empty response body)''
         else (case (case parse_json trimmed of Inr v \<Rightarrow> extract_message v | Inl _ \<Rightarrow> None) of
                 Some extracted \<Rightarrow> truncate_chars extracted MAX_ERROR_BODY_CHARS
               | None \<Rightarrow> truncate_chars trimmed MAX_ERROR_BODY_CHARS))"

section \<open>Classification\<close>

definition classify_http_error :: "(string \<Rightarrow> string + json) \<Rightarrow> nat \<Rightarrow> string \<Rightarrow> provider_error" where
  "classify_http_error parse_json status body =
     (let message = error_body_message parse_json body
      in if status = 401 \<or> status = 403 then AuthError (show_nat status @ '': '' @ message)
         else if status = 429 then RateLimited message
         else if status = 529 then RateLimited (''overloaded: '' @ message)
         else HttpError status message)"

definition MAX_STREAM_ERROR_TEXT_BYTES :: nat where
  "MAX_STREAM_ERROR_TEXT_BYTES = 2000"

definition stream_error_message :: "(json \<Rightarrow> string) \<Rightarrow> json \<Rightarrow> string" where
  "stream_error_message json_text err_val =
     (case jstr (jget err_val ''message'') of
        Some msg \<Rightarrow> msg
      | None \<Rightarrow> (case as_str err_val of Some s \<Rightarrow> s | None \<Rightarrow> json_text err_val))"

definition stream_error_detail :: "(json \<Rightarrow> string) \<Rightarrow> json \<Rightarrow> string \<Rightarrow> string option" where
  "stream_error_detail json_text err_val message =
     (case Option.bind (jget err_val ''metadata'') (\<lambda>m. jget m ''raw'') of
        Some (JString raw) \<Rightarrow>
          (let trimmed = trim raw in if trimmed = [] \<or> trimmed = message then None else Some trimmed)
      | Some (JObject obj) \<Rightarrow> Some (json_text (JObject obj))
      | Some (JArray xs) \<Rightarrow> Some (json_text (JArray xs))
      | _ \<Rightarrow> None)"

definition stream_error_code :: "json \<Rightarrow> nat option" where
  "stream_error_code err_val =
     (case jget err_val ''code'' of
        None \<Rightarrow> None
      | Some v \<Rightarrow> opt_or (as_u64 v) (case as_str v of Some s \<Rightarrow> parse_uint 64 (trim s) | None \<Rightarrow> None))"

definition stream_error_to_provider_error :: "(json \<Rightarrow> string) \<Rightarrow> json \<Rightarrow> provider_error" where
  "stream_error_to_provider_error json_text err_val =
     (let message = stream_error_message json_text err_val;
          txt = truncate_on_char_boundary
                  (case stream_error_detail json_text err_val message of
                     Some raw \<Rightarrow> message @ '': '' @ raw | None \<Rightarrow> message)
                  MAX_STREAM_ERROR_TEXT_BYTES
      in case stream_error_code err_val of
           Some status \<Rightarrow>
             if status = 401 \<or> status = 403 then AuthError (show_nat status @ '': '' @ txt)
             else if status = 429 then RateLimited txt
             else if 400 \<le> status \<and> status \<le> 599 then HttpError status txt
             else Malformed txt
         | None \<Rightarrow> Malformed txt)"

fun is_rate_limit :: "provider_error \<Rightarrow> bool" where
  "is_rate_limit (RateLimited _) = True"
| "is_rate_limit (HttpError status _) = (status = 503)"
| "is_rate_limit _ = False"


section \<open>Pacing hints\<close>

definition NANOS :: nat where
  "NANOS = 1000000000"

definition MAX_RETRY_AFTER :: nat where
  "MAX_RETRY_AFTER = 5 * 60 * NANOS"

definition month_number :: "string \<Rightarrow> nat option" where
  "month_number s =
     map_option Suc (find_index (\<lambda>m. m = s)
       [''Jan'', ''Feb'', ''Mar'', ''Apr'', ''May'', ''Jun'', ''Jul'', ''Aug'', ''Sep'', ''Oct'', ''Nov'', ''Dec''])"

definition http_days_in_month :: "int \<Rightarrow> nat \<Rightarrow> nat" where
  "http_days_in_month year month =
     (if month \<in> {1, 3, 5, 7, 8, 10, 12} then 31
      else if month \<in> {4, 6, 9, 11} then 30
      else if month = 2 then
        (if year mod 4 = 0 \<and> (year mod 100 \<noteq> 0 \<or> year mod 400 = 0) then 29 else 28)
      else 0)"

text \<open>The day number of a date; the year is not negative, so no division truncates.\<close>

definition http_day :: "int \<Rightarrow> nat \<Rightarrow> nat \<Rightarrow> int" where
  "http_day year month day =
     (let adjusted_year = year - (if month \<le> 2 then 1 else 0);
          era = adjusted_year div 400;
          year_of_era = adjusted_year - era * 400;
          shifted_month = int ((month + 9) mod 12);
          day_of_year = (153 * shifted_month + 2) div 5 + int day - 1;
          day_of_era = year_of_era * 365 + year_of_era div 4 - year_of_era div 100 + day_of_year
      in era * 146097 + day_of_era - 719468)"

definition parse_clock :: "string \<Rightarrow> (nat \<times> nat \<times> nat) option" where
  "parse_clock s =
     (case split_on (CHR '':'') s of
        [h, m, sec] \<Rightarrow>
          (case (parse_uint 32 h, parse_uint 32 m, parse_uint 32 sec) of
             (Some h', Some m', Some s') \<Rightarrow> Some (h', m', s')
           | _ \<Rightarrow> None)
      | _ \<Rightarrow> None)"

text \<open>The date of an HTTP header, in seconds since the epoch.\<close>

definition parse_http_date :: "string \<Rightarrow> nat option" where
  "parse_http_date value =
     (case split_whitespace value of
        [p0, p1, p2, p3, p4, p5] \<Rightarrow>
          if \<not> ends_with p0 '','' then None
          else (case (parse_uint 32 p1, month_number p2, parse_i64 p3, parse_clock p4) of
                  (Some day, Some month, Some year, Some (hour, minute, second)) \<Rightarrow>
                    if to_ascii_lowercase p5 \<noteq> ''gmt'' \<or> 23 < hour \<or> 59 < minute \<or> 59 < second \<or>
                       year < 0 \<or> 9999 < year \<or> day = 0 \<or> http_days_in_month year month < day
                    then None
                    else (let seconds = http_day year month day * 86400 +
                                int (hour * 3600 + minute * 60 + second)
                          in if seconds < 0 then None else Some (nat seconds))
                | _ \<Rightarrow> None)
      | _ \<Rightarrow> None)"

definition parse_retry_after :: "string \<Rightarrow> nat \<Rightarrow> nat option" where
  "parse_retry_after value now =
     (let v = trim value
      in if v = [] then None
         else (case parse_uint 64 v of
                 Some seconds \<Rightarrow> Some (min (seconds * NANOS) MAX_RETRY_AFTER)
               | None \<Rightarrow>
                   map_option (\<lambda>target. if now \<le> target * NANOS
                                       then min (target * NANOS - now) MAX_RETRY_AFTER else 0)
                     (parse_http_date v)))"

fun retry_after_value :: "nat \<Rightarrow> json \<Rightarrow> nat option" where
  "retry_after_value now (JString s) = parse_retry_after s now"
| "retry_after_value now (JNumber n) =
     map_option (\<lambda>seconds. min (seconds * NANOS) MAX_RETRY_AFTER) (as_u64 (JNumber n))"
| "retry_after_value now _ = None"

definition retry_after_direct :: "json \<Rightarrow> json option" where
  "retry_after_direct err =
     (let metadata = jget err ''metadata''
      in opt_or (jget err ''retry_after'')
           (opt_or (jget err ''retryAfter'')
             (opt_or (Option.bind metadata (\<lambda>v. jget v ''retry_after''))
               (Option.bind metadata (\<lambda>v. jget v ''retryAfter'')))))"

definition retry_after_headers :: "json \<Rightarrow> (string \<times> json) list option" where
  "retry_after_headers err =
     (let metadata = jget err ''metadata''
      in Option.bind
           (opt_or (jget err ''response_headers'')
             (opt_or (jget err ''responseHeaders'')
               (opt_or (Option.bind metadata (\<lambda>v. jget v ''response_headers''))
                 (Option.bind metadata (\<lambda>v. jget v ''responseHeaders'')))))
           as_object)"

definition retry_after_from_error :: "nat \<Rightarrow> json \<Rightarrow> nat option" where
  "retry_after_from_error now err =
     (case Option.bind (retry_after_direct err) (retry_after_value now) of
        Some delay \<Rightarrow> Some delay
      | None \<Rightarrow>
          Option.bind (retry_after_headers err)
            (\<lambda>hs. Option.bind (List.find (\<lambda>(name, v). to_ascii_lowercase name = ''retry-after'') hs)
                    (\<lambda>(name, v). retry_after_value now v)))"

text \<open>The signal between a stream and its reader: zero is unset, otherwise the milliseconds
  plus one, and the largest delay wins.\<close>

definition signal_set :: "nat \<Rightarrow> nat \<Rightarrow> nat" where
  "signal_set cell delay =
     max cell (min (min delay MAX_RETRY_AFTER div 1000000) (U64_MAX - 1) + 1)"

definition signal_take :: "nat \<Rightarrow> nat \<times> nat option" where
  "signal_take cell = (0, if cell = 0 then None else Some ((cell - 1) * 1000000))"

text \<open>\<^verbatim>\<open>stream_error\<close>: the error and the signal.\<close>

definition stream_error ::
  "(string \<Rightarrow> string + json) \<Rightarrow> nat \<Rightarrow> provider_error \<Rightarrow> string \<Rightarrow> nat \<Rightarrow> provider_error \<times> nat" where
  "stream_error parse_json now err payload cell =
     (case err of
        RateLimited _ \<Rightarrow>
          (case Option.bind (case parse_json payload of Inr v \<Rightarrow> jget v ''error'' | Inl _ \<Rightarrow> None)
                  (retry_after_from_error now) of
             Some delay \<Rightarrow> (err, signal_set cell delay)
           | None \<Rightarrow> (err, cell))
      | Malformed msg \<Rightarrow>
          if starts_with msg ''invalid SSE JSON''
          then (Malformed (msg @ '': '' @ error_body_message parse_json payload), cell)
          else (err, cell)
      | _ \<Rightarrow> (err, cell))"

section \<open>Bounded texts and hints\<close>

lemma boundary_before_le: "boundary_before s e \<le> e"
  by (induction e) (auto intro: le_SucI)

lemma truncate_on_char_boundary_length: "length (truncate_on_char_boundary s m) \<le> m + 3"
proof (cases "length s \<le> m")
  case False
  then show ?thesis
    using boundary_before_le [of s m] by (simp add: truncate_on_char_boundary_def ELLIPSIS_def)
qed (simp add: truncate_on_char_boundary_def)

lemma char_count_append [simp]: "char_count (s @ t) = char_count s + char_count t"
  by (simp add: char_count_def)

lemma char_count_take_nth: "nth_char k s = Some e \<Longrightarrow> char_count (take e s) = k"
proof (induction k s arbitrary: e rule: nth_char.induct)
  case (2 k c s)
  then show ?case by (cases k) (auto simp: char_count_def split: if_splits)
qed simp

lemma char_count_nth_None: "nth_char k s = None \<Longrightarrow> char_count s \<le> k"
proof (induction k s rule: nth_char.induct)
  case (2 k c s)
  then show ?case by (cases k) (auto simp: char_count_def split: if_splits)
qed (simp add: char_count_def)

lemma truncate_chars_count: "char_count (truncate_chars s m) \<le> m + 1"
proof (cases "nth_char m s")
  case (Some e)
  then show ?thesis
    using char_count_take_nth [OF Some]
    by (simp add: truncate_chars_def ELLIPSIS_def char_count_def is_char_start_def code_of_def)
qed (use char_count_nth_None [of m s] in \<open>simp add: truncate_chars_def\<close>)

lemma error_body_message_count: "char_count (error_body_message parse_json body) \<le> 301"
proof -
  have "char_count (truncate_chars s 300) \<le> 301" for s
    using truncate_chars_count [of s 300] by simp
  moreover have "char_count ''(empty response body)'' \<le> 301" by code_simp
  ultimately show ?thesis
    by (simp add: error_body_message_def Let_def MAX_ERROR_BODY_CHARS_def split: option.split)
qed

fun error_text :: "provider_error \<Rightarrow> string" where
  "error_text (ConfigError s) = s"
| "error_text (AuthError s) = s"
| "error_text (RateLimited s) = s"
| "error_text (HttpError _ s) = s"
| "error_text (TransportError s) = s"
| "error_text (IdleTimeout _) = []"
| "error_text (Malformed s) = s"
| "error_text CancelledError = []"

lemma stream_error_text:
  "length (error_text (stream_error_to_provider_error json_text v)) \<le> 2008"
proof -
  define t where "t = (case stream_error_detail json_text v (stream_error_message json_text v) of
      Some raw \<Rightarrow> stream_error_message json_text v @ '': '' @ raw | None \<Rightarrow> stream_error_message json_text v)"
  have "length (truncate_on_char_boundary t 2000) \<le> 2003"
    using truncate_on_char_boundary_length [of t 2000] by simp
  moreover have "length (show_nat 401) = 3" "length (show_nat 403) = 3"
    by (simp_all add: show_nat.simps)
  ultimately show ?thesis
    unfolding stream_error_to_provider_error_def Let_def t_def [symmetric] MAX_STREAM_ERROR_TEXT_BYTES_def
    by (auto split: option.split)
qed

lemma parse_retry_after_le: "parse_retry_after s now = Some d \<Longrightarrow> d \<le> MAX_RETRY_AFTER"
  by (auto simp: parse_retry_after_def Let_def split: if_splits option.splits)

lemma retry_after_value_le: "retry_after_value now v = Some d \<Longrightarrow> d \<le> MAX_RETRY_AFTER"
  by (induction now v rule: retry_after_value.induct) (auto dest: parse_retry_after_le)

lemma retry_after_from_error_le: "retry_after_from_error now v = Some d \<Longrightarrow> d \<le> MAX_RETRY_AFTER"
  by (auto simp: retry_after_from_error_def bind_eq_Some_conv split: option.splits
      dest: retry_after_value_le)

text \<open>What a server says is bounded before it is shown or obeyed.  The message distilled
  from an error body, whatever the body, has at most 300 characters and an ellipsis; the
  text of an error inside a stream at most 2000 bytes, an ellipsis and a status; and no
  pacing hint inside a stream holds a request back for more than five minutes.\<close>

theorem server_text_bounded:
  "char_count (error_body_message parse_json body) \<le> 301 \<and>
   length (error_text (stream_error_to_provider_error json_text v)) \<le> 2000 + 8 \<and>
   (case retry_after_from_error now v of Some d \<Rightarrow> d \<le> 5 * 60 * NANOS | None \<Rightarrow> True)"
  using error_body_message_count stream_error_text [of json_text v] retry_after_from_error_le [of now v]
  by (auto simp: MAX_RETRY_AFTER_def split: option.split)

text \<open>A status inside a stream paces the account as the same status of a response does,
  with one exception.  For every other error status the two classifications agree on
  whether it is a rate limit; an overloaded backend (529) is one when it answers with the
  status and none when the status comes inside a stream.\<close>

theorem stream_status_paces_but_529:
  assumes "stream_error_code v = Some status" "400 \<le> status" "status \<le> 599"
  shows "is_rate_limit (stream_error_to_provider_error json_text v) =
           is_rate_limit (classify_http_error parse_json status body) \<longleftrightarrow> status \<noteq> 529"
  using assms by (auto simp: stream_error_to_provider_error_def classify_http_error_def Let_def)

theorem stream_status_paces_but_529_witness:
  "is_rate_limit (stream_error_to_provider_error (\<lambda>_. []) (JObject [(''code'', JNumber (PosInt 529))])) \<noteq>
     is_rate_limit (classify_http_error Inl 529 [])"
  using stream_status_paces_but_529
    [where v = "JObject [(''code'', JNumber (PosInt 529))]" and status = 529
      and json_text = "\<lambda>_. []" and parse_json = Inl and body = "[]"]
  by (simp add: stream_error_code_def opt_or_def)
end
