(* ===== verification/Chunks.thy ===== *)
theory Chunks
  imports Provider_Errors "HOL-Library.Word" "HOL-Library.AList"
begin

text \<open>
  From payloads to stream events: \<^verbatim>\<open>chunk_to_events\<close> of
  \<^verbatim>\<open>crates/pacode-provider/src/sse.rs\<close>, and the typed path of \<^verbatim>\<open>sse_typed.rs\<close>.  Both paths
  share the bookkeeping of tool calls.  Parsing a payload as a \<^verbatim>\<open>serde_json::Value\<close> and as the
  typed \<^verbatim>\<open>Chunk\<close> are arguments; so is the supply of generated call ids, of which
  \<open>generated\<close> counts the used ones.  Indices of calls are 32-bit words, cut from \<^verbatim>\<open>u64\<close> by
  \<^verbatim>\<open>as u32\<close>.
\<close>

section \<open>Events\<close>

datatype stop_reason = EndTurn | ToolUse | MaxTokens | ContentFilter | OtherStop string

record usage =
  input_tokens :: nat
  output_tokens :: nat
  reasoning_tokens :: nat
  cache_read_tokens :: nat
  cache_write_tokens :: nat

type_synonym call_index = "32 word"

datatype stream_event =
    MessageStart "string option"
  | TextDelta string
  | ReasoningDelta string
  | ReasoningSignature string "string option"
  | ToolCallStart call_index string string
  | ToolCallArgsDelta call_index string
  | UsageEvent usage
  | MessageEnd stop_reason

record pending_call =
  pc_id :: "string option"
  pc_name :: "string option"
  buffered_args :: string

definition empty_pending :: pending_call where
  "empty_pending = \<lparr>pc_id = None, pc_name = None, buffered_args = []\<rparr>"

record chunk_state =
  started_indices :: "call_index set"
  pending_calls :: "(call_index \<times> pending_call) list"
  any_tool_call :: bool
  message_end_emitted :: bool
  generated :: nat

definition new_chunk_state :: chunk_state where
  "new_chunk_state =
     \<lparr>started_indices = {}, pending_calls = [], any_tool_call = False,
      message_end_emitted = False, generated = 0\<rparr>"

definition MAX_PENDING_TOOL_CALLS :: nat where
  "MAX_PENDING_TOOL_CALLS = 256"

definition MAX_BUFFERED_ARGS_BYTES :: nat where
  "MAX_BUFFERED_ARGS_BYTES = 1024 * 1024"

definition finish_stop :: "string \<Rightarrow> stop_reason" where
  "finish_stop finish_reason =
     (if finish_reason = ''stop'' then EndTurn
      else if finish_reason = ''tool_calls'' then ToolUse
      else if finish_reason = ''length'' then MaxTokens
      else if finish_reason = ''content_filter'' then ContentFilter
      else OtherStop finish_reason)"

definition usage_event :: "nat \<Rightarrow> nat \<Rightarrow> nat \<Rightarrow> nat \<Rightarrow> stream_event" where
  "usage_event input output reasoning cache_read =
     UsageEvent \<lparr>input_tokens = input, output_tokens = output, reasoning_tokens = reasoning,
       cache_read_tokens = cache_read, cache_write_tokens = 0\<rparr>"

definition non_empty :: "string option \<Rightarrow> string option" where
  "non_empty s = (case s of Some t \<Rightarrow> if t = [] then None else Some t | None \<Rightarrow> None)"

definition args_delta :: "call_index \<Rightarrow> string option \<Rightarrow> stream_event list" where
  "args_delta index a = (case a of Some d \<Rightarrow> [ToolCallArgsDelta index d] | None \<Rightarrow> [])"

definition call_entry :: "chunk_state \<Rightarrow> call_index \<Rightarrow> pending_call" where
  "call_entry st index =
     (case map_of (pending_calls st) index of Some p \<Rightarrow> p | None \<Rightarrow> empty_pending)"

definition named_pending :: "chunk_state \<Rightarrow> call_index \<Rightarrow> string option \<Rightarrow> string option \<Rightarrow> pending_call" where
  "named_pending st index cid name =
     (let p = call_entry st index
      in p\<lparr>pc_id := opt_or cid (pc_id p), pc_name := opt_or name (pc_name p)\<rparr>)"

definition put_pending :: "call_index \<Rightarrow> pending_call \<Rightarrow> chunk_state \<Rightarrow> chunk_state" where
  "put_pending index p st = st\<lparr>pending_calls := AList.update index p (pending_calls st)\<rparr>"

definition start_call ::
  "(nat \<Rightarrow> string) \<Rightarrow> chunk_state \<Rightarrow> call_index \<Rightarrow> pending_call \<Rightarrow> string \<Rightarrow> string option \<Rightarrow>
   chunk_state \<times> stream_event list" where
  "start_call gen st index p name args =
     (let (call_id, used) = (case pc_id p of Some i \<Rightarrow> (i, generated st)
                               | None \<Rightarrow> (gen (generated st), generated st + 1));
          st' = put_pending index (p\<lparr>buffered_args := []\<rparr>) st
      in (st'\<lparr>started_indices := insert index (started_indices st), any_tool_call := True,
              generated := used\<rparr>,
          [ToolCallStart index call_id name] @
          args_delta index (non_empty (Some (buffered_args p))) @ args_delta index args))"

definition push_tool_call ::
  "(nat \<Rightarrow> string) \<Rightarrow> chunk_state \<Rightarrow> call_index \<Rightarrow> string option \<Rightarrow> string option \<Rightarrow> string option \<Rightarrow>
   chunk_state \<times> stream_event list" where
  "push_tool_call gen st index cid name0 args0 =
     (let name = non_empty name0; args = non_empty args0
      in if index \<in> started_indices st then (st, args_delta index args)
         else if MAX_PENDING_TOOL_CALLS \<le> length (pending_calls st) then (st, [])
         else
           let p = named_pending st index cid name
           in case pc_name p of
                Some tool \<Rightarrow> start_call gen st index p tool args
              | None \<Rightarrow>
                  (case args of
                     Some a \<Rightarrow>
                       if length (buffered_args p) + length a \<le> MAX_BUFFERED_ARGS_BYTES
                       then (put_pending index (p\<lparr>buffered_args := buffered_args p @ a\<rparr>) st, [])
                       else (put_pending index p st, [])
                   | None \<Rightarrow> (put_pending index p st, [])))"

text \<open>The fragments of one delta, in order: index, id, name and arguments.\<close>

type_synonym fragment = "call_index \<times> string option \<times> string option \<times> string option"

fun push_fragments ::
  "(nat \<Rightarrow> string) \<Rightarrow> chunk_state \<Rightarrow> fragment list \<Rightarrow> chunk_state \<times> stream_event list" where
  "push_fragments gen st [] = (st, [])"
| "push_fragments gen st ((index, cid, name, args) # fs) =
     (let (st', evs) = push_tool_call gen st index cid name args;
          (st'', evs') = push_fragments gen st' fs
      in (st'', evs @ evs'))"

section \<open>The untyped path\<close>

definition text_events :: "(string \<Rightarrow> stream_event) \<Rightarrow> string option \<Rightarrow> stream_event list" where
  "text_events mk s = (case non_empty s of Some t \<Rightarrow> [mk t] | None \<Rightarrow> [])"

definition end_events :: "string option \<Rightarrow> chunk_state \<Rightarrow> chunk_state \<times> stream_event list" where
  "end_events finish st =
     (case finish of
        Some reason \<Rightarrow> (st\<lparr>message_end_emitted := True\<rparr>, [MessageEnd (finish_stop reason)])
      | None \<Rightarrow> (st, []))"

definition value_fragment :: "nat \<Rightarrow> json \<Rightarrow> fragment" where
  "value_fragment pos tc =
     (let func = jget tc ''function''
      in (case Option.bind (jget tc ''index'') as_u64 of
            Some i \<Rightarrow> of_nat i | None \<Rightarrow> of_nat pos,
          jstr (jget tc ''id''),
          jstr (Option.bind func (\<lambda>f. jget f ''name'')),
          jstr (Option.bind func (\<lambda>f. jget f ''arguments''))))"

definition value_fragments :: "json \<Rightarrow> fragment list" where
  "value_fragments delta =
     (case Option.bind (jget delta ''tool_calls'') as_array of
        Some tcs \<Rightarrow> map (\<lambda>(pos, tc). value_fragment pos tc) (enumerate 0 tcs)
      | None \<Rightarrow> [])"

definition value_reasoning :: "json \<Rightarrow> string option" where
  "value_reasoning delta =
     jstr (opt_or (jget delta ''reasoning_content'')
            (opt_or (jget delta ''reasoning'') (jget delta ''thinking'')))"

definition delta_events ::
  "(nat \<Rightarrow> string) \<Rightarrow> string option \<Rightarrow> string option \<Rightarrow> fragment list \<Rightarrow> chunk_state \<Rightarrow>
   chunk_state \<times> stream_event list" where
  "delta_events gen content reasoning fs st =
     (let (st', calls) = push_fragments gen st fs
      in (st', text_events TextDelta content @ text_events ReasoningDelta reasoning @ calls))"

definition value_choice ::
  "(nat \<Rightarrow> string) \<Rightarrow> json \<Rightarrow> chunk_state \<Rightarrow> chunk_state \<times> stream_event list" where
  "value_choice gen choice st =
     (let (st1, evs1) =
            (case jget choice ''delta'' of
               Some delta \<Rightarrow>
                 delta_events gen (jstr (jget delta ''content'')) (value_reasoning delta)
                   (value_fragments delta) st
             | None \<Rightarrow> (st, []));
          (st2, evs2) = end_events (jstr (jget choice ''finish_reason'')) st1
      in (st2, evs1 @ evs2))"

definition u64_or_0 :: "json option \<Rightarrow> nat" where
  "u64_or_0 v = (case Option.bind v as_u64 of Some n \<Rightarrow> n | None \<Rightarrow> 0)"

definition value_usage :: "json \<Rightarrow> stream_event list" where
  "value_usage chunk =
     (case jget chunk ''usage'' of
        Some u \<Rightarrow>
          (case as_object u of
             Some _ \<Rightarrow>
               [usage_event (u64_or_0 (jget u ''prompt_tokens'')) (u64_or_0 (jget u ''completion_tokens''))
                 (u64_or_0 (Option.bind (jget u ''completion_tokens_details'') (\<lambda>d. jget d ''reasoning_tokens'')))
                 (u64_or_0 (Option.bind (jget u ''prompt_tokens_details'') (\<lambda>d. jget d ''cached_tokens'')))]
           | None \<Rightarrow> [])
      | None \<Rightarrow> [])"

definition chunk_to_events ::
  "(json \<Rightarrow> string) \<Rightarrow> (nat \<Rightarrow> string) \<Rightarrow> json \<Rightarrow> chunk_state \<Rightarrow>
   chunk_state \<times> (provider_error + stream_event list)" where
  "chunk_to_events json_text gen chunk st =
     (case jget chunk ''error'' of
        Some err_val \<Rightarrow> (st, Inl (stream_error_to_provider_error json_text err_val))
      | None \<Rightarrow>
          (let (st', evs) =
                 (case Option.bind (Option.bind (jget chunk ''choices'') as_array) first_opt of
                    Some first \<Rightarrow> value_choice gen first st
                  | None \<Rightarrow> (st, []))
           in (st', Inr (evs @ value_usage chunk))))"

definition new_model :: "string option \<Rightarrow> string option \<Rightarrow> string option" where
  "new_model m model = (case m of Some name \<Rightarrow> if model \<noteq> Some name then Some name else model | None \<Rightarrow> model)"

definition value_path ::
  "(string \<Rightarrow> string + json) \<Rightarrow> (json \<Rightarrow> string) \<Rightarrow> (nat \<Rightarrow> string) \<Rightarrow> string \<Rightarrow> chunk_state \<Rightarrow>
   string option \<Rightarrow> chunk_state \<times> string option \<times> (provider_error + stream_event list)" where
  "value_path parse_json json_text gen payload st model =
     (case parse_json payload of
        Inl e \<Rightarrow> (st, model, Inl (Malformed (''invalid SSE JSON: '' @ e)))
      | Inr v \<Rightarrow>
          (let (st', r) = chunk_to_events json_text gen v st
           in (st', new_model (jstr (jget v ''model'')) model, r)))"


section \<open>The typed path\<close>

record wire_function =
  wf_name :: "string option"
  wf_arguments :: "string option"

record tool_call_wire =
  tw_index :: "nat option"
  tw_id :: "string option"
  tw_function :: "wire_function option"

record delta =
  d_content :: "string option"
  d_reasoning_content :: "string option"
  d_reasoning :: "string option"
  d_thinking :: "string option"
  d_tool_calls :: "tool_call_wire list option"

record choice =
  c_delta :: "delta option"
  c_finish_reason :: "string option"

record usage_wire =
  uw_prompt_tokens :: "nat option"
  uw_completion_tokens :: "nat option"
  uw_reasoning_tokens :: "nat option option"
  uw_cached_tokens :: "nat option option"

record chunk =
  ch_choices :: "choice list option"
  ch_usage :: "usage_wire option"
  ch_error :: "unit option"
  ch_model :: "string option"

definition wire_fragment :: "nat \<Rightarrow> tool_call_wire \<Rightarrow> fragment" where
  "wire_fragment pos tc =
     (case tw_index tc of Some i \<Rightarrow> of_nat i | None \<Rightarrow> of_nat pos,
      tw_id tc,
      Option.bind (tw_function tc) wf_name,
      Option.bind (tw_function tc) wf_arguments)"

definition wire_fragments :: "delta \<Rightarrow> fragment list" where
  "wire_fragments d =
     (case d_tool_calls d of
        Some tcs \<Rightarrow> map (\<lambda>(pos, tc). wire_fragment pos tc) (enumerate 0 tcs) | None \<Rightarrow> [])"

definition wire_choice ::
  "(nat \<Rightarrow> string) \<Rightarrow> choice \<Rightarrow> chunk_state \<Rightarrow> chunk_state \<times> stream_event list" where
  "wire_choice gen first st =
     (let (st1, evs1) =
            (case c_delta first of
               Some d \<Rightarrow>
                 delta_events gen (d_content d)
                   (opt_or (d_reasoning_content d) (opt_or (d_reasoning d) (d_thinking d)))
                   (wire_fragments d) st
             | None \<Rightarrow> (st, []));
          (st2, evs2) = end_events (c_finish_reason first) st1
      in (st2, evs1 @ evs2))"

definition num_or_0 :: "nat option \<Rightarrow> nat" where
  "num_or_0 v = (case v of Some n \<Rightarrow> n | None \<Rightarrow> 0)"

definition wire_usage :: "chunk \<Rightarrow> stream_event list" where
  "wire_usage c =
     (case ch_usage c of
        Some u \<Rightarrow>
          [usage_event (num_or_0 (uw_prompt_tokens u)) (num_or_0 (uw_completion_tokens u))
            (num_or_0 (Option.bind (uw_reasoning_tokens u) (\<lambda>n. n)))
            (num_or_0 (Option.bind (uw_cached_tokens u) (\<lambda>n. n)))]
      | None \<Rightarrow> [])"

definition chunk_events ::
  "(nat \<Rightarrow> string) \<Rightarrow> chunk \<Rightarrow> chunk_state \<Rightarrow> chunk_state \<times> stream_event list" where
  "chunk_events gen c st =
     (let (st', evs) =
            (case Option.bind (ch_choices c) first_opt of
               Some first \<Rightarrow> wire_choice gen first st | None \<Rightarrow> (st, []))
      in (st', evs @ wire_usage c))"

definition payload_to_events ::
  "(string \<Rightarrow> chunk option) \<Rightarrow> (string \<Rightarrow> string + json) \<Rightarrow> (json \<Rightarrow> string) \<Rightarrow> (nat \<Rightarrow> string) \<Rightarrow>
   string \<Rightarrow> chunk_state \<Rightarrow> string option \<Rightarrow>
   chunk_state \<times> string option \<times> (provider_error + stream_event list)" where
  "payload_to_events parse_chunk parse_json json_text gen payload st model =
     (case parse_chunk payload of
        Some c \<Rightarrow>
          if ch_error c = None then
            (let (st', evs) = chunk_events gen c st
             in (st', new_model (ch_model c) model, Inr evs))
          else value_path parse_json json_text gen payload st model
      | None \<Rightarrow> value_path parse_json json_text gen payload st model)"

section \<open>What a typed chunk is read from\<close>

text \<open>The documented reading of a struct with optional fields from an object: a missing
  field and \<open>null\<close> are absent, unknown fields are ignored, and a field of another type
  refuses the whole value.\<close>

definition opt_field :: "(json \<Rightarrow> 'a option) \<Rightarrow> string \<Rightarrow> json \<Rightarrow> 'a option option" where
  "opt_field read key v =
     (case jget v key of
        None \<Rightarrow> Some None
      | Some w \<Rightarrow> if w = JNull then Some None else map_option Some (read w))"

fun read_all :: "(json \<Rightarrow> 'a option) \<Rightarrow> json list \<Rightarrow> 'a list option" where
  "read_all read [] = Some []"
| "read_all read (v # vs) =
     (case (read v, read_all read vs) of (Some x, Some xs) \<Rightarrow> Some (x # xs) | _ \<Rightarrow> None)"

definition read_list :: "(json \<Rightarrow> 'a option) \<Rightarrow> json \<Rightarrow> 'a list option" where
  "read_list read v = Option.bind (as_array v) (read_all read)"

definition object :: "(json \<Rightarrow> 'a option) \<Rightarrow> json \<Rightarrow> 'a option" where
  "object read v = (case v of JObject _ \<Rightarrow> read v | _ \<Rightarrow> None)"

definition read_function :: "json \<Rightarrow> wire_function option" where
  "read_function = object (\<lambda>v.
     case (opt_field as_str ''name'' v, opt_field as_str ''arguments'' v) of
       (Some n, Some a) \<Rightarrow> Some \<lparr>wf_name = n, wf_arguments = a\<rparr> | _ \<Rightarrow> None)"

definition read_tool_call :: "json \<Rightarrow> tool_call_wire option" where
  "read_tool_call = object (\<lambda>v.
     case (opt_field as_u64 ''index'' v, opt_field as_str ''id'' v, opt_field read_function ''function'' v) of
       (Some i, Some c, Some f) \<Rightarrow> Some \<lparr>tw_index = i, tw_id = c, tw_function = f\<rparr> | _ \<Rightarrow> None)"

definition read_delta :: "json \<Rightarrow> delta option" where
  "read_delta = object (\<lambda>v.
     case (opt_field as_str ''content'' v, opt_field as_str ''reasoning_content'' v,
           opt_field as_str ''reasoning'' v, opt_field as_str ''thinking'' v,
           opt_field (read_list read_tool_call) ''tool_calls'' v) of
       (Some c, Some r, Some r', Some t, Some tcs) \<Rightarrow>
         Some \<lparr>d_content = c, d_reasoning_content = r, d_reasoning = r', d_thinking = t, d_tool_calls = tcs\<rparr>
     | _ \<Rightarrow> None)"

definition read_choice :: "json \<Rightarrow> choice option" where
  "read_choice = object (\<lambda>v.
     case (opt_field read_delta ''delta'' v, opt_field as_str ''finish_reason'' v) of
       (Some d, Some f) \<Rightarrow> Some \<lparr>c_delta = d, c_finish_reason = f\<rparr> | _ \<Rightarrow> None)"

definition read_usage :: "json \<Rightarrow> usage_wire option" where
  "read_usage = object (\<lambda>v.
     case (opt_field as_u64 ''prompt_tokens'' v, opt_field as_u64 ''completion_tokens'' v,
           opt_field (object (opt_field as_u64 ''reasoning_tokens'')) ''completion_tokens_details'' v,
           opt_field (object (opt_field as_u64 ''cached_tokens'')) ''prompt_tokens_details'' v) of
       (Some p, Some c, Some r, Some k) \<Rightarrow>
         Some \<lparr>uw_prompt_tokens = p, uw_completion_tokens = c, uw_reasoning_tokens = r, uw_cached_tokens = k\<rparr>
     | _ \<Rightarrow> None)"

definition read_chunk :: "json \<Rightarrow> chunk option" where
  "read_chunk = object (\<lambda>v.
     case (opt_field (read_list read_choice) ''choices'' v, opt_field read_usage ''usage'' v,
           opt_field (\<lambda>_. Some ()) ''error'' v, opt_field as_str ''model'' v) of
       (Some c, Some u, Some e, Some m) \<Rightarrow>
         Some \<lparr>ch_choices = c, ch_usage = u, ch_error = e, ch_model = m\<rparr>
     | _ \<Rightarrow> None)"

section \<open>The two paths agree\<close>

lemma opt_field_str: "opt_field as_str key v = Some x \<Longrightarrow> jstr (jget v key) = x"
  by (auto simp: opt_field_def jstr_def split: option.splits if_splits)

lemma opt_field_u64: "opt_field as_u64 key v = Some x \<Longrightarrow> Option.bind (jget v key) as_u64 = x"
  by (auto simp: opt_field_def split: option.splits if_splits)

text \<open>A struct field: absent on both sides, or an object and what was read from it.\<close>

lemma opt_field_object:
  assumes "opt_field (object read) key v = Some x"
  obtains "x = None" "jget v key = None \<or> jget v key = Some JNull"
  | obj y where "x = Some y" "jget v key = Some (JObject obj)" "read (JObject obj) = Some y"
  using assms by (auto simp: opt_field_def object_def split: option.splits if_splits json.splits)

lemma opt_field_list:
  assumes "opt_field (read_list read) key v = Some x"
  obtains "x = None" "Option.bind (jget v key) as_array = None"
  | vs ys where "x = Some ys" "Option.bind (jget v key) as_array = Some vs" "read_all read vs = Some ys"
  using assms
  by (auto simp: opt_field_def read_list_def bind_eq_Some_conv split: option.splits if_splits)

lemma read_all_map: "read_all read vs = Some ys \<Longrightarrow> list_all2 (\<lambda>v y. read v = Some y) vs ys"
  by (induction vs arbitrary: ys) (auto split: option.splits)

lemma objectD: "object read v = Some x \<Longrightarrow> read v = Some x"
  by (auto simp: object_def split: json.splits)

lemma read_tool_call_fragment: "read_tool_call v = Some tc \<Longrightarrow> value_fragment pos v = wire_fragment pos tc"
proof -
  assume r: "read_tool_call v = Some tc"
  obtain i c f where f: "opt_field as_u64 ''index'' v = Some i" "opt_field as_str ''id'' v = Some c"
      "opt_field read_function ''function'' v = Some f" and tc: "tc = \<lparr>tw_index = i, tw_id = c, tw_function = f\<rparr>"
    using objectD [OF r [unfolded read_tool_call_def]] by (auto split: option.splits)
  have "jstr (Option.bind (jget v ''function'') (\<lambda>w. jget w ''name'')) = Option.bind f wf_name \<and>
      jstr (Option.bind (jget v ''function'') (\<lambda>w. jget w ''arguments'')) = Option.bind f wf_arguments"
    using f(3) [unfolded read_function_def]
    by (rule opt_field_object) (auto simp: jstr_def dest!: opt_field_str split: option.splits)
  then show ?thesis
    using opt_field_u64 [OF f(1)] opt_field_str [OF f(2)]
    by (simp add: value_fragment_def wire_fragment_def tc Let_def)
qed

lemma enumerate_fragments:
  "list_all2 (\<lambda>v tc. read_tool_call v = Some tc) vs tcs \<Longrightarrow>
     map (\<lambda>(pos, v). value_fragment pos v) (enumerate n vs) =
     map (\<lambda>(pos, tc). wire_fragment pos tc) (enumerate n tcs)"
  by (induction vs tcs arbitrary: n rule: list_all2_induct) (auto simp: read_tool_call_fragment)

definition no_null_reasoning :: "json \<Rightarrow> bool" where
  "no_null_reasoning d \<longleftrightarrow>
     jget d ''reasoning_content'' \<noteq> Some JNull \<and> jget d ''reasoning'' \<noteq> Some JNull"

lemma opt_field_str_cases:
  assumes "opt_field as_str key v = Some x" "jget v key \<noteq> Some JNull"
  shows "jget v key = map_option JString x"
  using assms by (auto simp: opt_field_def split: option.splits if_splits elim!: as_str.elims)

lemma read_delta_events:
  assumes "read_delta v = Some d" "no_null_reasoning v"
  shows "jstr (jget v ''content'') = d_content d"
    and "value_reasoning v = opt_or (d_reasoning_content d) (opt_or (d_reasoning d) (d_thinking d))"
    and "value_fragments v = wire_fragments d"
proof -
  obtain c r r' t tcs where f: "opt_field as_str ''content'' v = Some c"
      "opt_field as_str ''reasoning_content'' v = Some r" "opt_field as_str ''reasoning'' v = Some r'"
      "opt_field as_str ''thinking'' v = Some t" "opt_field (read_list read_tool_call) ''tool_calls'' v = Some tcs"
    and d: "d = \<lparr>d_content = c, d_reasoning_content = r, d_reasoning = r', d_thinking = t, d_tool_calls = tcs\<rparr>"
    using objectD [OF assms(1) [unfolded read_delta_def]] by (auto split: option.splits)
  show "jstr (jget v ''content'') = d_content d" using opt_field_str [OF f(1)] d by simp
  show "value_reasoning v = opt_or (d_reasoning_content d) (opt_or (d_reasoning d) (d_thinking d))"
    using opt_field_str_cases [OF f(2)] opt_field_str_cases [OF f(3)] opt_field_str [OF f(4)] assms(2) d
    by (cases r; cases r') (auto simp: value_reasoning_def no_null_reasoning_def opt_or_def jstr_def)
  show "value_fragments v = wire_fragments d"
    using f(5)
    by (rule opt_field_list)
      (auto simp: value_fragments_def wire_fragments_def d dest!: read_all_map intro: enumerate_fragments)
qed

text \<open>The delta of the first choice, which is the only one read.\<close>

definition first_delta :: "json \<Rightarrow> json option" where
  "first_delta v =
     Option.bind (Option.bind (Option.bind (jget v ''choices'') as_array) first_opt) (\<lambda>c. jget c ''delta'')"

lemma delta_events_nothing: "delta_events gen None None [] st = (st, [])"
  by (simp add: delta_events_def text_events_def non_empty_def)

lemma null_delta:
  "value_fragments JNull = []" "value_reasoning JNull = None" "jstr None = None"
  by (simp_all add: value_fragments_def value_reasoning_def opt_or_def jstr_def)

lemma read_choice_events:
  assumes "read_choice v = Some c"
    and "\<forall>d. jget v ''delta'' = Some d \<longrightarrow> no_null_reasoning d"
  shows "value_choice gen v st = wire_choice gen c st"
proof -
  obtain d f where f: "opt_field read_delta ''delta'' v = Some d" "opt_field as_str ''finish_reason'' v = Some f"
    and c: "c = \<lparr>c_delta = d, c_finish_reason = f\<rparr>"
    using objectD [OF assms(1) [unfolded read_choice_def]] by (auto split: option.splits)
  have "(case jget v ''delta'' of
          Some w \<Rightarrow> delta_events gen (jstr (jget w ''content'')) (value_reasoning w) (value_fragments w) st
        | None \<Rightarrow> (st, [])) =
      (case d of
         Some w \<Rightarrow> delta_events gen (d_content w)
             (opt_or (d_reasoning_content w) (opt_or (d_reasoning w) (d_thinking w))) (wire_fragments w) st
       | None \<Rightarrow> (st, []))"
  proof (cases "jget v ''delta''")
    case (Some w)
    show ?thesis
    proof (cases "w = JNull")
      case True
      then show ?thesis using f(1) Some by (simp add: opt_field_def null_delta delta_events_nothing)
    next
      case False
      then obtain x where "read_delta w = Some x" "d = Some x" using f(1) Some by (auto simp: opt_field_def)
      then show ?thesis using read_delta_events [of w x] assms(2) Some by simp
    qed
  qed (use f(1) in \<open>simp add: opt_field_def\<close>)
  then show ?thesis
    using opt_field_str [OF f(2)] by (simp add: value_choice_def wire_choice_def c)
qed

lemma detail_tokens:
  assumes "opt_field (object (opt_field as_u64 key)) outer v = Some r"
  shows "u64_or_0 (Option.bind (jget v outer) (\<lambda>d. jget d key)) = num_or_0 (Option.bind r (\<lambda>n. n))"
  using assms
  by (rule opt_field_object) (auto simp: u64_or_0_def num_or_0_def dest!: opt_field_u64)

lemma read_usage_events:
  assumes "opt_field read_usage ''usage'' v = Some u"
  shows "value_usage v =
    (case u of Some w \<Rightarrow>
       [usage_event (num_or_0 (uw_prompt_tokens w)) (num_or_0 (uw_completion_tokens w))
         (num_or_0 (Option.bind (uw_reasoning_tokens w) (\<lambda>n. n)))
         (num_or_0 (Option.bind (uw_cached_tokens w) (\<lambda>n. n)))]
     | None \<Rightarrow> [])"
  using assms [unfolded read_usage_def]
proof (rule opt_field_object)
  assume "u = None" "jget v ''usage'' = None \<or> jget v ''usage'' = Some JNull"
  then show ?thesis by (auto simp: value_usage_def)
next
  fix obj w
  assume w: "u = Some w" "jget v ''usage'' = Some (JObject obj)"
    and r: "(case (opt_field as_u64 ''prompt_tokens'' (JObject obj), opt_field as_u64 ''completion_tokens'' (JObject obj),
           opt_field (object (opt_field as_u64 ''reasoning_tokens'')) ''completion_tokens_details'' (JObject obj),
           opt_field (object (opt_field as_u64 ''cached_tokens'')) ''prompt_tokens_details'' (JObject obj)) of
       (Some p, Some c, Some r, Some k) \<Rightarrow>
         Some \<lparr>uw_prompt_tokens = p, uw_completion_tokens = c, uw_reasoning_tokens = r, uw_cached_tokens = k\<rparr>
     | _ \<Rightarrow> None) = Some w"
  from r obtain p c r k where f: "opt_field as_u64 ''prompt_tokens'' (JObject obj) = Some p"
      "opt_field as_u64 ''completion_tokens'' (JObject obj) = Some c"
      "opt_field (object (opt_field as_u64 ''reasoning_tokens'')) ''completion_tokens_details'' (JObject obj) = Some r"
      "opt_field (object (opt_field as_u64 ''cached_tokens'')) ''prompt_tokens_details'' (JObject obj) = Some k"
    and "w = \<lparr>uw_prompt_tokens = p, uw_completion_tokens = c, uw_reasoning_tokens = r, uw_cached_tokens = k\<rparr>"
    by (auto split: option.splits)
  then show ?thesis
    using opt_field_u64 [OF f(1)] opt_field_u64 [OF f(2)] detail_tokens [OF f(3)] detail_tokens [OF f(4)] w
    by (simp add: value_usage_def u64_or_0_def num_or_0_def)
qed

lemma read_chunk_events:
  assumes r: "read_chunk v = Some c" and clean: "\<forall>d. first_delta v = Some d \<longrightarrow> no_null_reasoning d"
    and err: "jget v ''error'' = None"
  shows "chunk_to_events json_text gen v st = map_prod (\<lambda>s. s) Inr (chunk_events gen c st)"
    and "jstr (jget v ''model'') = ch_model c"
proof -
  obtain cs u e m where f: "opt_field (read_list read_choice) ''choices'' v = Some cs"
      "opt_field read_usage ''usage'' v = Some u" "opt_field as_str ''model'' v = Some m"
    and c: "c = \<lparr>ch_choices = cs, ch_usage = u, ch_error = e, ch_model = m\<rparr>"
    using objectD [OF r [unfolded read_chunk_def]] by (auto split: option.splits)
  show "jstr (jget v ''model'') = ch_model c" using opt_field_str [OF f(3)] c by simp
  have "(case Option.bind (Option.bind (jget v ''choices'') as_array) first_opt of
          Some first \<Rightarrow> value_choice gen first st | None \<Rightarrow> (st, [])) =
      (case Option.bind cs first_opt of Some first \<Rightarrow> wire_choice gen first st | None \<Rightarrow> (st, []))"
    using f(1)
  proof (rule opt_field_list)
    fix vs ys
    assume ys: "cs = Some ys" "Option.bind (jget v ''choices'') as_array = Some vs" "read_all read_choice vs = Some ys"
    from read_all_map [OF ys(3)] show ?thesis
      using ys(1,2) clean
      by (cases rule: list.rel_cases)
        (auto simp: first_opt_def first_delta_def intro!: read_choice_events)
  qed simp
  then show "chunk_to_events json_text gen v st = map_prod (\<lambda>s. s) Inr (chunk_events gen c st)"
    using err read_usage_events [OF f(2)]
    by (auto simp: chunk_to_events_def chunk_events_def wire_usage_def c split: prod.splits)
qed

text \<open>The fast path and the untyped path translate a payload alike.  When the typed chunk
  is read from the object the payload holds and no error and no reasoning field of the
  first delta is an explicit \<open>null\<close>, both give the same events, the same tool-call state and
  the same model; the untyped path is also what every other payload gets.\<close>

theorem typed_path_agrees:
  assumes "parse_json payload = Inr v" "parse_chunk payload = read_chunk v"
    and "jget v ''error'' \<noteq> Some JNull"
    and "\<forall>d. first_delta v = Some d \<longrightarrow> no_null_reasoning d"
  shows "payload_to_events parse_chunk parse_json json_text gen payload st model =
           value_path parse_json json_text gen payload st model"
proof (cases "read_chunk v")
  case None
  then show ?thesis using assms(2) by (simp add: payload_to_events_def)
next
  case (Some c)
  show ?thesis
  proof (cases "jget v ''error''")
    case None
    then have "ch_error c = None"
      using objectD [OF Some [unfolded read_chunk_def]]
      by (auto simp: opt_field_def [of _ "''error''"] split: option.splits)
    then show ?thesis
      using read_chunk_events [OF Some assms(4) None] assms(1,2) Some
      by (simp add: payload_to_events_def value_path_def split: prod.splits)
  next
    case (Some w)
    then have "ch_error c \<noteq> None"
      using objectD [OF \<open>read_chunk v = Some c\<close> [unfolded read_chunk_def]] assms(3)
      by (auto simp: opt_field_def [of _ "''error''"] split: option.splits)
    then show ?thesis using assms(2) \<open>read_chunk v = Some c\<close> by (simp add: payload_to_events_def)
  qed
qed

definition hi_chunk :: json where
  "hi_chunk = JObject [(''choices'', JArray [JObject [(''delta'', JObject [(''content'', JString ''hi'')])]])]"

theorem typed_path_agrees_witness:
  "payload_to_events (\<lambda>_. read_chunk hi_chunk) (\<lambda>_. Inr hi_chunk) (\<lambda>_. []) (\<lambda>_. []) ''x'' new_chunk_state None =
     (new_chunk_state, None, Inr [TextDelta ''hi''])"
proof -
  have "value_path (\<lambda>_. Inr hi_chunk) (\<lambda>_. []) (\<lambda>_. []) ''x'' new_chunk_state None =
      (new_chunk_state, None, Inr [TextDelta ''hi''])"
    by code_simp
  moreover have "first_delta hi_chunk = Some (JObject [(''content'', JString ''hi'')])" by code_simp
  moreover have "no_null_reasoning (JObject [(''content'', JString ''hi'')])" by code_simp
  moreover have "jget hi_chunk ''error'' \<noteq> Some JNull" by code_simp
  ultimately show ?thesis
    using typed_path_agrees [where parse_json = "\<lambda>_. Inr hi_chunk" and parse_chunk = "\<lambda>_. read_chunk hi_chunk"
        and v = hi_chunk and payload = "''x''" and json_text = "\<lambda>_. []" and gen = "\<lambda>_. []"
        and st = new_chunk_state and model = None]
    by simp
qed

text \<open>An explicit \<open>null\<close> divides the two paths, although the untyped one is said to be
  the oracle of the other.  Reasoning behind a \<open>null\<close> in the preferred field is shown by
  the typed path and lost by the untyped one; and an \<open>error\<close> of \<open>null\<close> is no error on the
  typed path and fails the whole stream on the untyped one.\<close>

theorem null_divides_paths:
  "let null_reasoning = JObject [(''choices'', JArray [JObject [(''delta'', JObject
         [(''reasoning_content'', JNull), (''reasoning'', JString ''why'')])]])];
       null_error = JObject [(''error'', JNull)];
       typed = (\<lambda>v. snd (snd (payload_to_events (\<lambda>_. read_chunk v) (\<lambda>_. Inr v) (\<lambda>_. ''null'') gen [] new_chunk_state None)));
       untyped = (\<lambda>v. snd (snd (value_path (\<lambda>_. Inr v) (\<lambda>_. ''null'') gen [] new_chunk_state None)))
   in typed null_reasoning = Inr [ReasoningDelta ''why''] \<and> untyped null_reasoning = Inr [] \<and>
      typed null_error = Inr [] \<and> untyped null_error = Inl (Malformed ''null'')"
  by (simp add: Let_def payload_to_events_def value_path_def read_chunk_def object_def opt_field_def
      read_list_def read_choice_def read_delta_def chunk_events_def wire_choice_def wire_usage_def
      delta_events_def wire_fragments_def text_events_def non_empty_def opt_or_def end_events_def
      chunk_to_events_def value_choice_def value_reasoning_def value_fragments_def value_usage_def
      jstr_def first_opt_def new_model_def stream_error_to_provider_error_def stream_error_message_def
      stream_error_detail_def stream_error_code_def truncate_on_char_boundary_def
      MAX_STREAM_ERROR_TEXT_BYTES_def)

section \<open>Fragments of a call\<close>

fun about :: "call_index \<Rightarrow> stream_event \<Rightarrow> bool" where
  "about i (ToolCallStart j _ _) = (i = j)"
| "about i (ToolCallArgsDelta j _) = (i = j)"
| "about i _ = False"

definition opt_str :: "string option \<Rightarrow> string" where
  "opt_str a = (case a of Some s \<Rightarrow> s | None \<Rightarrow> [])"

text \<open>The arguments and the names the fragments give for one index.\<close>

definition frag_args :: "call_index \<Rightarrow> fragment list \<Rightarrow> string" where
  "frag_args i fs = concat (map (\<lambda>(j, _, _, a). if j = i then opt_str a else []) fs)"

definition frag_names :: "call_index \<Rightarrow> fragment list \<Rightarrow> string list" where
  "frag_names i fs =
     concat (map (\<lambda>(j, _, n, _). if j = i then (case non_empty n of Some s \<Rightarrow> [s] | None \<Rightarrow> []) else []) fs)"

definition call_events :: "call_index \<Rightarrow> string \<Rightarrow> string \<Rightarrow> string list \<Rightarrow> stream_event list" where
  "call_events i cid name ds = ToolCallStart i cid name # map (ToolCallArgsDelta i) ds"

text \<open>The state and the events so far account for every fragment so far.\<close>

definition tracks :: "call_index \<Rightarrow> fragment list \<Rightarrow> chunk_state \<Rightarrow> stream_event list \<Rightarrow> bool" where
  "tracks i fs st evs \<longleftrightarrow>
     (case frag_names i fs of
        [] \<Rightarrow> i \<notin> started_indices st \<and> filter (about i) evs = [] \<and>
              pc_name (call_entry st i) = None \<and> buffered_args (call_entry st i) = frag_args i fs
      | n # _ \<Rightarrow> i \<in> started_indices st \<and>
              (\<exists>cid ds. filter (about i) evs = call_events i cid n ds \<and> concat ds = frag_args i fs))"

lemma frag_snoc:
  "frag_args i (fs @ [(j, c, n, a)]) = frag_args i fs @ (if j = i then opt_str a else [])"
  "frag_names i (fs @ [(j, c, n, a)]) =
     frag_names i fs @ (if j = i then (case non_empty n of Some s \<Rightarrow> [s] | None \<Rightarrow> []) else [])"
  by (simp_all add: frag_args_def frag_names_def)

lemma args_delta_about:
  "filter (about i) (args_delta j a) = (if i = j then args_delta j a else [])"
  by (auto simp: args_delta_def split: option.split)

lemma args_delta_deltas: "\<exists>ds. args_delta i (non_empty a) = map (ToolCallArgsDelta i) ds \<and> concat ds = opt_str a"
proof (cases "non_empty a")
  case None
  then show ?thesis
    by (intro exI [of _ "[]"]) (auto simp: args_delta_def non_empty_def opt_str_def split: option.splits if_splits)
next
  case (Some s)
  then show ?thesis
    by (intro exI [of _ "[s]"]) (auto simp: args_delta_def non_empty_def opt_str_def split: option.splits if_splits)
qed

lemma call_entry_put [simp]:
  "call_entry (put_pending j p st) i = (if i = j then p else call_entry st i)"
  by (simp add: call_entry_def put_pending_def update_conv')

lemma call_entry_updates [simp]:
  "call_entry (st\<lparr>started_indices := s, any_tool_call := a, generated := g\<rparr>) i = call_entry st i"
  by (simp add: call_entry_def)

lemma put_pending_started [simp]: "started_indices (put_pending j p st) = started_indices st"
  by (simp add: put_pending_def)

lemma start_call_facts:
  assumes "start_call gen st j p name (non_empty a) = (st', evs)"
  shows "started_indices st' = insert j (started_indices st)"
    and "call_entry st' i = (if i = j then p\<lparr>buffered_args := []\<rparr> else call_entry st i)"
    and "\<exists>cid ds. evs = call_events j cid name ds \<and> concat ds = buffered_args p @ opt_str a"
proof -
  obtain d1 d2 where d: "args_delta j (non_empty (Some (buffered_args p))) = map (ToolCallArgsDelta j) d1"
      "concat d1 = buffered_args p" "args_delta j (non_empty a) = map (ToolCallArgsDelta j) d2" "concat d2 = opt_str a"
    using args_delta_deltas [of j "Some (buffered_args p)"] args_delta_deltas [of j a] by (auto simp: opt_str_def)
  show "started_indices st' = insert j (started_indices st)"
    and "call_entry st' i = (if i = j then p\<lparr>buffered_args := []\<rparr> else call_entry st i)"
    using assms by (auto simp: start_call_def Let_def split: prod.splits)
  obtain cid where "evs = call_events j cid name (d1 @ d2)"
    using assms d by (auto simp: start_call_def Let_def call_events_def split: prod.splits)
  then show "\<exists>cid ds. evs = call_events j cid name ds \<and> concat ds = buffered_args p @ opt_str a"
    using d by (metis concat_append)
qed

lemma call_events_about:
  "filter (about i) (call_events j cid n ds) = (if i = j then call_events j cid n ds else [])"
  by (auto simp: call_events_def filter_empty_conv)

text \<open>A fragment of another call changes nothing for this one.\<close>

lemma push_other:
  assumes "push_tool_call gen st j c n a = (st', evs)" "i \<noteq> j"
  shows "filter (about i) evs = [] \<and> call_entry st' i = call_entry st i \<and>
    (i \<in> started_indices st' \<longleftrightarrow> i \<in> started_indices st)"
proof -
  have started: "filter (about i) evs' = [] \<and> call_entry s' i = call_entry st i \<and>
      (i \<in> started_indices s' \<longleftrightarrow> i \<in> started_indices st)"
    if "start_call gen st j p tool (non_empty a) = (s', evs')" for p tool s' evs'
    using start_call_facts [OF that] assms(2) by (auto simp: call_events_about)
  show ?thesis
    using assms
    by (auto simp: push_tool_call_def Let_def args_delta_about dest: started
        split: if_splits option.splits)
qed

lemma pending_named: "buffered_args (named_pending st j c n) = buffered_args (call_entry st j)"
  "pc_name (named_pending st j c n) = opt_or n (pc_name (call_entry st j))"
  by (simp_all add: named_pending_def Let_def)

lemma non_empty_args: "non_empty a = None \<Longrightarrow> opt_str a = []" "non_empty a = Some s \<Longrightarrow> opt_str a = s"
  by (auto simp: non_empty_def opt_str_def split: option.splits if_splits)

lemma push_tracks:
  assumes t: "tracks i fs st evs" and room: "length (pending_calls st) < MAX_PENDING_TOOL_CALLS"
    and fits: "length (frag_args i (fs @ [(j, c, n, a)])) \<le> MAX_BUFFERED_ARGS_BYTES"
    and p: "push_tool_call gen st j c n a = (st', evs')"
  shows "tracks i (fs @ [(j, c, n, a)]) st' (evs @ evs')"
proof (cases "i = j")
  case False
  then show ?thesis
    using t push_other [OF p False] by (auto simp: tracks_def frag_snoc split: list.splits)
next
  case ij: True
  show ?thesis
  proof (cases "frag_names i fs")
    case (Cons m ms)
    then obtain cid ds where d: "filter (about i) evs = call_events i cid m ds" "concat ds = frag_args i fs"
      and s: "i \<in> started_indices st"
      using t by (auto simp: tracks_def)
    obtain ds' where ds': "args_delta i (non_empty a) = map (ToolCallArgsDelta i) ds'" "concat ds' = opt_str a"
      using args_delta_deltas by blast
    have "st' = st" "evs' = args_delta i (non_empty a)"
      using p s ij by (auto simp: push_tool_call_def Let_def)
    then have "filter (about i) (evs @ evs') = call_events i cid m (ds @ ds')"
      using d(1) ds'(1) by (simp add: args_delta_about call_events_def)
    then show ?thesis
      using Cons ij s d(2) ds'(2) \<open>st' = st\<close>
      by (auto simp: tracks_def frag_snoc intro!: exI [of _ cid] exI [of _ "ds @ ds'"])
  next
    case Nil
    then have old: "i \<notin> started_indices st" "filter (about i) evs = []"
        "pc_name (call_entry st i) = None" "buffered_args (call_entry st i) = frag_args i fs"
      using t by (auto simp: tracks_def)
    show ?thesis
    proof (cases "non_empty n")
      case (Some m)
      then have "start_call gen st i (named_pending st i c (Some m)) m (non_empty a) = (st', evs')"
        using p ij old room by (simp add: push_tool_call_def Let_def pending_named opt_or_def)
      note facts = start_call_facts [OF this]
      obtain cid ds where "evs' = call_events i cid m ds" "concat ds = frag_args i fs @ opt_str a"
        using facts(3) old(4) by (auto simp: pending_named)
      then show ?thesis
        using old Nil Some ij facts(1)
        by (auto simp: tracks_def frag_snoc call_events_about intro!: exI [of _ cid] exI [of _ ds])
    next
      case None
      then show ?thesis
        using p ij old room fits Nil non_empty_args [of a]
        by (auto simp: push_tool_call_def Let_def pending_named opt_or_def tracks_def frag_snoc
            split: option.splits if_splits)
    qed
  qed
qed

lemma push_fragments_snoc:
  "push_fragments gen st (fs @ [f]) =
     (let (st', evs) = push_fragments gen st fs;
          (st'', evs') = push_fragments gen st' [f]
      in (st'', evs @ evs'))"
  by (induction gen st fs rule: push_fragments.induct) (auto split: prod.splits)

text \<open>The table of calls: one entry per index seen, a bounded number, bounded buffers.\<close>

definition calls_ok :: "chunk_state \<Rightarrow> bool" where
  "calls_ok st \<longleftrightarrow>
     distinct (map fst (pending_calls st)) \<and> length (pending_calls st) \<le> MAX_PENDING_TOOL_CALLS \<and>
     (\<forall>(j, p) \<in> set (pending_calls st). length (buffered_args p) \<le> MAX_BUFFERED_ARGS_BYTES)"

lemma call_entry_ok: "calls_ok st \<Longrightarrow> length (buffered_args (call_entry st j)) \<le> MAX_BUFFERED_ARGS_BYTES"
  by (auto simp: calls_ok_def call_entry_def empty_pending_def split: option.split dest!: map_of_SomeD)

lemma set_update_le: "set (AList.update j p xs) \<subseteq> insert (j, p) (set xs)"
  by (induction xs) auto

lemma put_pending_ok:
  assumes "calls_ok st" "length (pending_calls st) < MAX_PENDING_TOOL_CALLS"
    and "length (buffered_args p) \<le> MAX_BUFFERED_ARGS_BYTES"
  shows "calls_ok (put_pending j p st)"
proof -
  have "length (AList.update j p xs) \<le> Suc (length xs)" for xs :: "(call_index \<times> pending_call) list"
    by (induction xs) auto
  then have "length (AList.update j p (pending_calls st)) \<le> MAX_PENDING_TOOL_CALLS"
    using assms(2) by (meson Suc_leI le_trans)
  then show ?thesis
    using assms(1,3) set_update_le [of j p "pending_calls st"]
    by (fastforce simp: calls_ok_def put_pending_def intro: distinct_update)
qed

lemma calls_ok_updates [simp]:
  "calls_ok (st\<lparr>started_indices := s, any_tool_call := a, generated := g\<rparr>) = calls_ok st"
  "calls_ok (st\<lparr>message_end_emitted := b\<rparr>) = calls_ok st"
  by (simp_all add: calls_ok_def)

lemma push_calls_ok:
  assumes "calls_ok st" "push_tool_call gen st j c n a = (st', evs)"
  shows "calls_ok st'"
proof -
  have buf: "length (buffered_args (named_pending st j c m)) \<le> MAX_BUFFERED_ARGS_BYTES" for m
    using call_entry_ok [OF assms(1)] by (simp add: pending_named)
  show ?thesis
    using assms buf
    by (auto simp: push_tool_call_def start_call_def Let_def split: if_splits option.splits prod.splits
        intro!: put_pending_ok)
qed

lemma push_keys:
  assumes "push_tool_call gen st j c n a = (st', evs)"
  shows "fst ` set (pending_calls st') \<subseteq> insert j (fst ` set (pending_calls st))"
  using assms
  by (auto simp: push_tool_call_def start_call_def put_pending_def Let_def
      split: if_splits option.splits prod.splits dest!: subsetD [OF set_update_le])

lemma calls_ok_new: "calls_ok new_chunk_state"
  by (simp add: calls_ok_def new_chunk_state_def)

lemma card_snoc_less: "card (set (map fst (fs @ [f]))) < n \<Longrightarrow> card (set (map fst fs)) < n"
  by (rule le_less_trans [OF card_mono]) auto

lemma fragments_tracked:
  assumes "push_fragments gen new_chunk_state fs = (st, evs)"
    and "card (set (map fst fs)) < MAX_PENDING_TOOL_CALLS"
    and "length (frag_args i fs) \<le> MAX_BUFFERED_ARGS_BYTES"
  shows "calls_ok st \<and> fst ` set (pending_calls st) \<subseteq> set (map fst fs) \<and> tracks i fs st evs"
  using assms
proof (induction fs arbitrary: st evs rule: rev_induct)
  case Nil
  then show ?case
    using calls_ok_new
    by (auto simp: tracks_def frag_names_def frag_args_def new_chunk_state_def call_entry_def empty_pending_def)
next
  case (snoc f fs)
  obtain j c n a where f: "f = (j, c, n, a)" by (cases f)
  obtain st1 evs1 where p1: "push_fragments gen new_chunk_state fs = (st1, evs1)" by fastforce
  obtain evs2 where p2: "push_tool_call gen st1 j c n a = (st, evs2)" and e: "evs = evs1 @ evs2"
    using snoc.prems(1) p1 f by (auto simp: push_fragments_snoc split: prod.splits)
  have card: "card (set (map fst fs)) < MAX_PENDING_TOOL_CALLS" using card_snoc_less [OF snoc.prems(2)] .
  have "length (frag_args i fs) \<le> MAX_BUFFERED_ARGS_BYTES"
    using snoc.prems(3) by (simp add: f frag_snoc)
  from snoc.IH [OF p1 card this]
  have ih: "calls_ok st1" "fst ` set (pending_calls st1) \<subseteq> set (map fst fs)" "tracks i fs st1 evs1" by auto
  have "length (pending_calls st1) = card (fst ` set (pending_calls st1))"
    using ih(1) distinct_card [of "map fst (pending_calls st1)"] by (simp add: calls_ok_def)
  also have "\<dots> \<le> card (set (map fst fs))" using ih(2) by (intro card_mono) auto
  finally have room: "length (pending_calls st1) < MAX_PENDING_TOOL_CALLS" using card by simp
  show ?case
    using push_tracks [OF ih(3) room _ p2] snoc.prems(3) push_calls_ok [OF ih(1) p2] push_keys [OF p2] ih(2) f e
    by auto
qed

text \<open>The arguments of a tool call arrive whole and in order.  For a response of fewer than
  256 calls, and a call whose arguments fit the buffer, the events about the call are its
  start with the first name given, followed by deltas that concatenate to exactly the
  fragments sent, those before the name included; a call that never gets a name has no
  events.  Fragments of other calls may stand anywhere between.\<close>

theorem tool_call_arguments_whole:
  assumes "push_fragments gen new_chunk_state fs = (st, evs)"
    and "card (set (map fst fs)) < 256" "length (frag_args i fs) \<le> 1024 * 1024"
  shows "case frag_names i fs of
           [] \<Rightarrow> filter (about i) evs = []
         | n # _ \<Rightarrow> \<exists>cid ds. filter (about i) evs = call_events i cid n ds \<and> concat ds = frag_args i fs"
proof -
  have "tracks i fs st evs"
    using fragments_tracked [OF assms(1), of i] assms(2,3)
    by (simp add: MAX_PENDING_TOOL_CALLS_def MAX_BUFFERED_ARGS_BYTES_def)
  then show ?thesis by (auto simp: tracks_def split: list.splits)
qed

lemma sample_fragments:
  "push_fragments (\<lambda>_. ''gen'') new_chunk_state
     [(0, None, None, Some ''{a''), (1, None, Some ''ls'', None), (0, Some ''c1'', Some ''read'', Some ''}'')] =
   (new_chunk_state
      \<lparr>started_indices := {0, 1}, any_tool_call := True, generated := 1,
       pending_calls := [(0, \<lparr>pc_id = Some ''c1'', pc_name = Some ''read'', buffered_args = []\<rparr>),
                         (1, \<lparr>pc_id = None, pc_name = Some ''ls'', buffered_args = []\<rparr>)]\<rparr>,
    [ToolCallStart 1 ''gen'' ''ls'', ToolCallStart 0 ''c1'' ''read'', ToolCallArgsDelta 0 ''{a'',
     ToolCallArgsDelta 0 ''}''])"
  by (simp add: push_tool_call_def Let_def non_empty_def new_chunk_state_def named_pending_def
      call_entry_def empty_pending_def opt_or_def put_pending_def start_call_def args_delta_def
      MAX_PENDING_TOOL_CALLS_def MAX_BUFFERED_ARGS_BYTES_def)

theorem tool_call_arguments_whole_witness:
  "\<exists>cid ds. [ToolCallStart 0 ''c1'' ''read'', ToolCallArgsDelta 0 ''{a'', ToolCallArgsDelta 0 ''}''] =
     call_events 0 cid ''read'' ds \<and> concat ds = ''{a}''"
  using tool_call_arguments_whole [OF sample_fragments, of 0]
  by (simp add: frag_names_def frag_args_def non_empty_def opt_str_def card_insert_if)

end
