(* ===== verification/Event_Stream.thy ===== *)
theory Event_Stream
  imports Chunks
begin

text \<open>
  The event stream of \<^verbatim>\<open>crates/pacode-provider/src/sse.rs\<close>: the closure of
  \<^verbatim>\<open>create_event_stream_with_limits\<close> is \<open>poll\<close>, which runs until it yields, ends or has to wait
  for the network.  The network is the list of what is still to arrive.  The reader's view
  is the step relation \<open>sstep\<close>, one step per poll, with everything yielded so far.
\<close>

section \<open>The state and its steps\<close>

text \<open>What the code is given and does not define: parsing, printing, generated ids and the
  clock.\<close>

record wire_env =
  env_chunk :: "string \<Rightarrow> chunk option"
  env_json :: "string \<Rightarrow> string + json"
  env_text :: "json \<Rightarrow> string"
  env_gen :: "nat \<Rightarrow> string"
  env_now :: nat

record read_budget =
  rb_limit :: nat
  rb_used :: nat

definition MAX_SSE_RESPONSE_BYTES :: nat where
  "MAX_SSE_RESPONSE_BYTES = 128 * 1024 * 1024"

definition consume :: "read_budget \<Rightarrow> nat \<Rightarrow> provider_error + read_budget" where
  "consume b bytes =
     (if U64_MAX < rb_used b + bytes then Inl (Malformed ''SSE response byte count overflowed'')
      else if rb_limit b < rb_used b + bytes then
        Inl (Malformed (''SSE response exceeds '' @ show_nat (rb_limit b) @ ''-byte read budget''))
      else Inr (b\<lparr>rb_used := rb_used b + bytes\<rparr>))"

record stream_state =
  ss_parser :: sse_parser
  ss_chunks :: chunk_state
  pending_events :: "stream_event list"
  pending_error :: "provider_error option"
  ss_model :: "string option"
  message_start_emitted :: bool
  stream_ended :: bool
  timeout_secs :: nat
  ss_budget :: read_budget
  retry_cell :: nat

definition new_stream :: "string \<Rightarrow> nat \<Rightarrow> nat \<Rightarrow> stream_state" where
  "new_stream req_model timeout limit =
     \<lparr>ss_parser = new_sse_parser, ss_chunks = new_chunk_state, pending_events = [],
      pending_error = None, ss_model = Some req_model, message_start_emitted = False,
      stream_ended = False, timeout_secs = timeout, ss_budget = \<lparr>rb_limit = limit, rb_used = 0\<rparr>,
      retry_cell = 0\<rparr>"

text \<open>What the byte stream gives: nothing in time, bytes, an error or its end.\<close>

datatype net_item = NetTimeout | NetBytes string | NetError string | NetEnd

definition synthesize_end :: "stream_state \<Rightarrow> stream_state" where
  "synthesize_end st =
     (if message_end_emitted (ss_chunks st) then st
      else st\<lparr>pending_events := pending_events st @
               [MessageEnd (if any_tool_call (ss_chunks st) then ToolUse else EndTurn)],
             ss_chunks := (ss_chunks st)\<lparr>message_end_emitted := True\<rparr>\<rparr>)"

fun is_content :: "stream_event \<Rightarrow> bool" where
  "is_content (TextDelta _) = True"
| "is_content (ReasoningDelta _) = True"
| "is_content (ToolCallStart _ _ _) = True"
| "is_content (ToolCallArgsDelta _ _) = True"
| "is_content _ = False"

definition push_event :: "stream_state \<Rightarrow> stream_event \<Rightarrow> stream_state" where
  "push_event st e =
     (let st' = (if \<not> message_start_emitted st \<and> is_content e
                 then st\<lparr>pending_events := pending_events st @ [MessageStart (ss_model st)],
                         message_start_emitted := True\<rparr>
                 else st)
      in st'\<lparr>pending_events := pending_events st' @ [e]\<rparr>)"

fun stream_payloads :: "wire_env \<Rightarrow> stream_state \<Rightarrow> string list \<Rightarrow> stream_state" where
  "stream_payloads env st [] = st"
| "stream_payloads env st (p # ps) =
     (if trim p = ''[DONE]'' then synthesize_end (st\<lparr>stream_ended := True\<rparr>)
      else
        case payload_to_events (env_chunk env) (env_json env) (env_text env) (env_gen env) p
               (ss_chunks st) (ss_model st) of
          (cs, model, r) \<Rightarrow>
            (let st' = st\<lparr>ss_chunks := cs, ss_model := model\<rparr>
             in case r of
                  Inl err \<Rightarrow>
                    (let (err', cell) = stream_error (env_json env) (env_now env) err p (retry_cell st')
                     in st'\<lparr>stream_ended := True, pending_error := Some err', retry_cell := cell\<rparr>)
                | Inr evs \<Rightarrow> stream_payloads env (foldl push_event st' evs) ps))"

definition on_bytes :: "wire_env \<Rightarrow> stream_state \<Rightarrow> string \<Rightarrow> stream_state" where
  "on_bytes env st bytes =
     (case consume (ss_budget st) (length bytes) of
        Inl e \<Rightarrow> st\<lparr>stream_ended := True, pending_error := Some e\<rparr>
      | Inr b \<Rightarrow>
          (let (p, r) = feed_checked (ss_parser st) bytes;
               st' = st\<lparr>ss_budget := b, ss_parser := p\<rparr>
           in case r of
                Inl e \<Rightarrow> st'\<lparr>stream_ended := True, pending_error := Some e\<rparr>
              | Inr ps \<Rightarrow> stream_payloads env st' ps))"

text \<open>One item: the new state, and the error yielded at once.\<close>

fun on_item :: "wire_env \<Rightarrow> stream_state \<Rightarrow> net_item \<Rightarrow> stream_state \<times> provider_error option" where
  "on_item env st NetTimeout = (st\<lparr>stream_ended := True\<rparr>, Some (IdleTimeout (timeout_secs st)))"
| "on_item env st (NetBytes bytes) = (on_bytes env st bytes, None)"
| "on_item env st (NetError e) = (st\<lparr>stream_ended := True\<rparr>, Some (TransportError e))"
| "on_item env st NetEnd = (synthesize_end (st\<lparr>stream_ended := True\<rparr>), None)"

datatype poll_result = Yielded "provider_error + stream_event" | Finished | Waiting

definition ready :: "stream_state \<Rightarrow> (stream_state \<times> poll_result) option" where
  "ready st =
     (case pending_events st of
        e # es \<Rightarrow> Some (st\<lparr>pending_events := es\<rparr>, Yielded (Inr e))
      | [] \<Rightarrow>
          (case pending_error st of
             Some err \<Rightarrow> Some (st\<lparr>pending_error := None, stream_ended := True\<rparr>, Yielded (Inl err))
           | None \<Rightarrow> if stream_ended st then Some (st, Finished) else None))"

fun poll :: "wire_env \<Rightarrow> stream_state \<Rightarrow> net_item list \<Rightarrow> stream_state \<times> net_item list \<times> poll_result" where
  "poll env st [] = (case ready st of Some (st', r) \<Rightarrow> (st', [], r) | None \<Rightarrow> (st, [], Waiting))"
| "poll env st (i # is) =
     (case ready st of
        Some (st', r) \<Rightarrow> (st', i # is, r)
      | None \<Rightarrow>
          (case on_item env st i of
             (st', Some err) \<Rightarrow> (st', is, Yielded (Inl err))
           | (st', None) \<Rightarrow> poll env st' is))"

section \<open>Polling\<close>

record stream_session =
  se_stream :: stream_state
  se_net :: "net_item list"
  se_outs :: "(provider_error + stream_event) list"

definition yielded :: "poll_result \<Rightarrow> (provider_error + stream_event) list" where
  "yielded r = (case r of Yielded y \<Rightarrow> [y] | _ \<Rightarrow> [])"

inductive sstep :: "wire_env \<Rightarrow> stream_session \<Rightarrow> stream_session \<Rightarrow> bool" for env where
  polled: "poll env (se_stream s) (se_net s) = (st, is, r) \<Longrightarrow>
    sstep env s \<lparr>se_stream = st, se_net = is, se_outs = se_outs s @ yielded r\<rparr>"

definition opened :: "string \<Rightarrow> nat \<Rightarrow> nat \<Rightarrow> net_item list \<Rightarrow> stream_session" where
  "opened req_model timeout limit items =
     \<lparr>se_stream = new_stream req_model timeout limit, se_net = items, se_outs = []\<rparr>"

section \<open>What a stream promises\<close>

definition is_start :: "stream_event \<Rightarrow> bool" where
  "is_start e \<longleftrightarrow> (\<exists>m. e = MessageStart m)"

definition is_end :: "stream_event \<Rightarrow> bool" where
  "is_end e \<longleftrightarrow> (\<exists>s. e = MessageEnd s)"

text \<open>A start comes first, before any content, and once.\<close>

definition well_started :: "bool \<Rightarrow> stream_event list \<Rightarrow> bool" where
  "well_started emitted evs \<longleftrightarrow>
     (case filter (\<lambda>e. is_start e \<or> is_content e) evs of
        [] \<Rightarrow> \<not> emitted
      | e # es \<Rightarrow> emitted \<and> is_start e \<and> list_all (\<lambda>x. \<not> is_start x) es)"

text \<open>The parts of the state that stay within their limits.\<close>

definition within_limits :: "nat \<Rightarrow> stream_state \<Rightarrow> bool" where
  "within_limits lim st \<longleftrightarrow>
     parser_ok (ss_parser st) \<and> max_buffer_bytes (ss_parser st) = MAX_SSE_BUFFER_BYTES \<and>
     calls_ok (ss_chunks st) \<and> rb_limit (ss_budget st) = lim \<and> rb_used (ss_budget st) \<le> lim"

text \<open>The events so far, yielded and pending, and the state.\<close>

definition events_ok :: "stream_event list \<Rightarrow> stream_state \<Rightarrow> bool" where
  "events_ok evs st \<longleftrightarrow>
     well_started (message_start_emitted st) (evs @ pending_events st) \<and>
     (message_end_emitted (ss_chunks st) \<longrightarrow> list_ex is_end (evs @ pending_events st))"

definition ending_ok :: "stream_state \<Rightarrow> bool" where
  "ending_ok st \<longleftrightarrow>
     (stream_ended st \<longrightarrow> pending_error st \<noteq> None \<or> message_end_emitted (ss_chunks st)) \<and>
     (pending_error st \<noteq> None \<longrightarrow> stream_ended st)"

text \<open>The state while items are handled: nothing has failed yet, or the failure is pending;
  and the state once a failure has been yielded.\<close>

definition running_ok :: "nat \<Rightarrow> stream_event list \<Rightarrow> stream_state \<Rightarrow> bool" where
  "running_ok lim evs st \<longleftrightarrow> within_limits lim st \<and> events_ok evs st \<and> ending_ok st"

definition failed_ok :: "nat \<Rightarrow> stream_event list \<Rightarrow> stream_state \<Rightarrow> bool" where
  "failed_ok lim evs st \<longleftrightarrow>
     within_limits lim st \<and> events_ok evs st \<and> stream_ended st \<and>
     pending_events st = [] \<and> pending_error st = None"

definition session_ok :: "nat \<Rightarrow> stream_session \<Rightarrow> bool" where
  "session_ok lim s \<longleftrightarrow>
     (\<exists>evs. se_outs s = map Inr evs \<and> running_ok lim evs (se_stream s) \<or>
           (\<exists>e. se_outs s = map Inr evs @ [Inl e]) \<and> failed_ok lim evs (se_stream s))"

subsection \<open>One payload\<close>

text \<open>What translating a payload keeps, for the state before and the state and events after.\<close>

definition chunk_ok :: "chunk_state \<Rightarrow> chunk_state \<times> stream_event list \<Rightarrow> bool" where
  "chunk_ok st r \<longleftrightarrow>
     (calls_ok st \<longrightarrow> calls_ok (fst r)) \<and> list_all (\<lambda>e. \<not> is_start e) (snd r) \<and>
     (message_end_emitted (fst r) \<longrightarrow> message_end_emitted st \<or> list_ex is_end (snd r))"

named_theorems chunk_oks "operations that keep a chunk state in order"

lemma chunk_ok_same [chunk_oks]: "list_all (\<lambda>e. \<not> is_start e) evs \<Longrightarrow> chunk_ok st (st, evs)"
  by (simp add: chunk_ok_def)

lemma chunk_ok_append:
  "chunk_ok st (st', evs) \<Longrightarrow> chunk_ok st' (st'', evs') \<Longrightarrow> chunk_ok st (st'', evs @ evs')"
  by (auto simp: chunk_ok_def)

lemma chunk_ok_more:
  "chunk_ok st (st', evs) \<Longrightarrow> list_all (\<lambda>e. \<not> is_start e) (pre @ post) \<Longrightarrow> chunk_ok st (st', pre @ evs @ post)"
  by (auto simp: chunk_ok_def)

lemma args_delta_plain: "list_all (\<lambda>e. \<not> is_start e) (args_delta i a)"
  by (simp add: args_delta_def is_start_def split: option.split)

lemma push_tool_call_ok [chunk_oks]: "chunk_ok st (push_tool_call gen st j c n a)"
proof -
  obtain st' evs where p: "push_tool_call gen st j c n a = (st', evs)" by fastforce
  have "list_all (\<lambda>e. \<not> is_start e) evs \<and> message_end_emitted st' = message_end_emitted st"
    using p args_delta_plain
    by (auto simp: push_tool_call_def start_call_def put_pending_def Let_def is_start_def
        split: if_splits option.splits prod.splits)
  then show ?thesis using push_calls_ok [OF _ p] p by (simp add: chunk_ok_def)
qed

lemma push_fragments_ok [chunk_oks]: "chunk_ok st (push_fragments gen st fs)"
proof (induction gen st fs rule: push_fragments.induct)
  case (2 gen st j c n a fs)
  obtain st' evs where p: "push_tool_call gen st j c n a = (st', evs)" by fastforce
  then show ?case
    using 2 chunk_ok_append [OF push_tool_call_ok [of st gen j c n a, unfolded p]]
    by (auto split: prod.splits)
qed (simp add: chunk_oks)

lemma text_events_plain:
  "list_all (\<lambda>e. \<not> is_start e) (text_events TextDelta s)"
  "list_all (\<lambda>e. \<not> is_start e) (text_events ReasoningDelta s)"
  by (simp_all add: text_events_def is_start_def split: option.split)

lemma delta_events_ok [chunk_oks]: "chunk_ok st (delta_events gen c r fs st)"
  using chunk_ok_more [of st _ _ "text_events TextDelta c @ text_events ReasoningDelta r" "[]"]
    push_fragments_ok [of st gen fs] text_events_plain
  by (auto simp: delta_events_def split: prod.splits)

lemma end_events_ok [chunk_oks]: "chunk_ok st (end_events f st)"
  by (simp add: end_events_def chunk_ok_def is_start_def is_end_def split: option.split)

lemma then_ends_ok:
  assumes "chunk_ok st x"
  shows "chunk_ok st (let (st1, evs1) = x; (st2, evs2) = end_events f st1 in (st2, evs1 @ evs2))"
proof -
  obtain st1 evs1 where x: "x = (st1, evs1)" by fastforce
  then show ?thesis
    using assms end_events_ok [of st1 f] by (auto split: prod.splits intro: chunk_ok_append)
qed

lemma choice_ok [chunk_oks]: "chunk_ok st (value_choice gen v st)" "chunk_ok st (wire_choice gen c st)"
  unfolding value_choice_def wire_choice_def
  by (rule then_ends_ok, simp add: chunk_oks split: option.split)+

lemma usage_plain:
  "list_all (\<lambda>e. \<not> is_start e) (value_usage v)" "list_all (\<lambda>e. \<not> is_start e) (wire_usage c)"
  by (simp_all add: value_usage_def wire_usage_def usage_event_def is_start_def split: option.split)

lemma then_more_ok:
  assumes "chunk_ok st x" "list_all (\<lambda>e. \<not> is_start e) post"
  shows "chunk_ok st (let (st', evs) = x in (st', evs @ post))"
  using assms chunk_ok_more [of st _ _ "[]" post] by (auto split: prod.splits)

lemma chunk_events_ok [chunk_oks]: "chunk_ok st (chunk_events gen c st)"
  unfolding chunk_events_def
  by (rule then_more_ok) (simp_all add: chunk_oks usage_plain split: option.split)

definition payload_ok ::
  "chunk_state \<Rightarrow> chunk_state \<times> string option \<times> (provider_error + stream_event list) \<Rightarrow> bool" where
  "payload_ok st x \<longleftrightarrow>
     (case x of (st', _, Inr evs) \<Rightarrow> chunk_ok st (st', evs) | (st', _, Inl _) \<Rightarrow> st' = st)"

lemma chunk_to_events_ok:
  "case chunk_to_events json_text gen v st of (st', Inr evs) \<Rightarrow> chunk_ok st (st', evs) | (st', Inl _) \<Rightarrow> st' = st"
proof (cases "jget v ''error''")
  case None
  let ?x = "case Option.bind (Option.bind (jget v ''choices'') as_array) first_opt of
      Some first \<Rightarrow> value_choice gen first st | None \<Rightarrow> (st, [])"
  have "chunk_ok st (let (st', evs) = ?x in (st', evs @ value_usage v))"
    by (rule then_more_ok) (simp_all add: chunk_oks usage_plain split: option.split)
  then show ?thesis using None by (simp add: chunk_to_events_def split: prod.splits)
qed (simp add: chunk_to_events_def)

lemma value_path_ok: "payload_ok st (value_path parse_json json_text gen p st model)"
proof (cases "parse_json p")
  case (Inr v)
  then show ?thesis
    using chunk_to_events_ok [where json_text = json_text and gen = gen and v = v and st = st]
    by (auto simp: payload_ok_def value_path_def split: prod.splits sum.splits)
qed (simp add: payload_ok_def value_path_def)

lemma payload_to_events_ok: "payload_ok st (payload_to_events parse_chunk parse_json json_text gen p st model)"
proof (cases "parse_chunk p")
  case (Some c)
  then show ?thesis
    using value_path_ok [of st parse_json json_text gen p model] chunk_events_ok [of st gen c]
    by (auto simp: payload_to_events_def payload_ok_def split: prod.splits)
qed (simp add: payload_to_events_def value_path_ok)

subsection \<open>One item of the network\<close>

lemma push_event_fields [simp]:
  "ss_parser (push_event st e) = ss_parser st" "ss_chunks (push_event st e) = ss_chunks st"
  "ss_budget (push_event st e) = ss_budget st" "stream_ended (push_event st e) = stream_ended st"
  "pending_error (push_event st e) = pending_error st" "ss_model (push_event st e) = ss_model st"
  by (simp_all add: push_event_def Let_def)

lemma foldl_push_fields [simp]:
  "ss_parser (foldl push_event st es) = ss_parser st" "ss_chunks (foldl push_event st es) = ss_chunks st"
  "ss_budget (foldl push_event st es) = ss_budget st" "stream_ended (foldl push_event st es) = stream_ended st"
  "pending_error (foldl push_event st es) = pending_error st"
  by (induction es arbitrary: st) simp_all

text \<open>Pending events only grow while an item is handled.\<close>

lemma well_started_snoc:
  "\<not> is_start e \<Longrightarrow> \<not> is_content e \<Longrightarrow> well_started b (xs @ [e]) = well_started b xs"
  "\<not> is_start e \<Longrightarrow> well_started True xs \<Longrightarrow> well_started True (xs @ [e])"
  "is_start e \<Longrightarrow> well_started False xs \<Longrightarrow> well_started True (xs @ [e])"
  by (cases "filter (\<lambda>e. is_start e \<or> is_content e) xs"; simp add: well_started_def)+

lemma push_event_started:
  assumes "well_started (message_start_emitted st) (evs @ pending_events st)" "\<not> is_start e"
  shows "well_started (message_start_emitted (push_event st e)) (evs @ pending_events (push_event st e))"
proof -
  have "is_start (MessageStart m)" for m by (simp add: is_start_def)
  then show ?thesis
    using assms well_started_snoc [where e = e and xs = "evs @ pending_events st"]
      well_started_snoc(2) [where e = e and xs = "evs @ pending_events st @ [MessageStart (ss_model st)]"]
      well_started_snoc(3) [where e = "MessageStart (ss_model st)" and xs = "evs @ pending_events st"]
    by (cases "message_start_emitted st"; cases "is_content e") (simp_all add: push_event_def)
qed

lemma foldl_push_started:
  "well_started (message_start_emitted st) (evs @ pending_events st) \<Longrightarrow> list_all (\<lambda>e. \<not> is_start e) es \<Longrightarrow>
     well_started (message_start_emitted (foldl push_event st es)) (evs @ pending_events (foldl push_event st es))"
  by (induction es arbitrary: st) (auto simp: push_event_started)

lemma foldl_push_pending: "set (pending_events st) \<union> set es \<subseteq> set (pending_events (foldl push_event st es))"
proof (induction es arbitrary: st)
  case (Cons e es)
  have "insert e (set (pending_events st)) \<subseteq> set (pending_events (push_event st e))"
    by (auto simp: push_event_def Let_def)
  then show ?case using Cons [of "push_event st e"] by auto
qed simp

lemma events_ok_ends:
  assumes "events_ok evs st" "set (pending_events st) \<subseteq> set (pending_events st')"
    and "well_started (message_start_emitted st') (evs @ pending_events st')"
    and "message_end_emitted (ss_chunks st') \<Longrightarrow>
           message_end_emitted (ss_chunks st) \<or> list_ex is_end (pending_events st')"
  shows "events_ok evs st'"
  using assms by (fastforce simp: events_ok_def list_ex_iff)

lemma synthesize_end_ok:
  assumes "events_ok evs st"
  shows "events_ok evs (synthesize_end st)" "message_end_emitted (ss_chunks (synthesize_end st))"
  using assms
  by (auto simp: synthesize_end_def events_ok_def well_started_def is_start_def is_end_def split: list.splits)

lemma synthesize_end_fields [simp]:
  "ss_parser (synthesize_end st) = ss_parser st" "ss_budget (synthesize_end st) = ss_budget st"
  "stream_ended (synthesize_end st) = stream_ended st" "pending_error (synthesize_end st) = pending_error st"
  "calls_ok (ss_chunks (synthesize_end st)) = calls_ok (ss_chunks st)"
  by (simp_all add: synthesize_end_def)

lemma events_ok_updates [simp]:
  "events_ok evs (st\<lparr>stream_ended := b\<rparr>) = events_ok evs st"
  "events_ok evs (st\<lparr>stream_ended := b, pending_error := e\<rparr>) = events_ok evs st"
  "events_ok evs (st\<lparr>stream_ended := b, pending_error := e, retry_cell := c\<rparr>) = events_ok evs st"
  "events_ok evs (st\<lparr>ss_budget := g, ss_parser := p\<rparr>) = events_ok evs st"
  by (simp_all add: events_ok_def)

lemma synthesized_running_ok:
  assumes "within_limits lim st" "events_ok evs st" "pending_error st = None"
  shows "running_ok lim evs (synthesize_end (st\<lparr>stream_ended := True\<rparr>))"
  using assms synthesize_end_ok [of evs "st\<lparr>stream_ended := True\<rparr>"]
  by (simp add: running_ok_def within_limits_def ending_ok_def)

lemma foldl_push_ok:
  assumes "events_ok evs st" "chunk_ok (ss_chunks st) (cs, es)"
  shows "events_ok evs (foldl push_event (st\<lparr>ss_chunks := cs, ss_model := m\<rparr>) es)"
proof -
  let ?st = "st\<lparr>ss_chunks := cs, ss_model := m\<rparr>"
  show ?thesis
    using assms foldl_push_started [of ?st evs es] foldl_push_pending [of ?st es]
    by (intro events_ok_ends [OF assms(1)]) (auto simp: events_ok_def chunk_ok_def list_ex_iff)
qed

lemma stream_payloads_ok:
  "within_limits lim st \<Longrightarrow> events_ok evs st \<Longrightarrow> \<not> stream_ended st \<Longrightarrow> pending_error st = None \<Longrightarrow>
     running_ok lim evs (stream_payloads env st ps)"
proof (induction env st ps rule: stream_payloads.induct)
  case (1 env st)
  then show ?case by (simp add: running_ok_def ending_ok_def)
next
  case (2 env st p ps)
  let ?r = "payload_to_events (env_chunk env) (env_json env) (env_text env) (env_gen env) p (ss_chunks st) (ss_model st)"
  obtain cs m r where r: "?r = (cs, m, r)" by (cases ?r) auto
  have ok: "payload_ok (ss_chunks st) (cs, m, r)" using payload_to_events_ok r by metis
  show ?case
  proof (cases "trim p = ''[DONE]''")
    case True
    then show ?thesis using synthesized_running_ok [OF "2.prems"(1,2,4)] by simp
  next
    case False
    show ?thesis
    proof (cases r)
      case (Inl err)
      have "cs = ss_chunks st" using ok Inl by (simp add: payload_ok_def)
      moreover have "events_ok evs (st\<lparr>ss_chunks := ss_chunks st, ss_model := m\<rparr>)"
        using "2.prems"(2) by (simp add: events_ok_def)
      ultimately show ?thesis
        using "2.prems" False r Inl
        by (auto simp: running_ok_def within_limits_def ending_ok_def split: prod.splits)
    next
      case (Inr es)
      have c: "chunk_ok (ss_chunks st) (cs, es)" using ok Inr by (simp add: payload_ok_def)
      have "within_limits lim (foldl push_event (st\<lparr>ss_chunks := cs, ss_model := m\<rparr>) es)"
        using "2.prems"(1) c by (simp add: within_limits_def chunk_ok_def)
      then show ?thesis
        using "2.IH" [OF False r [symmetric] refl refl Inr] foldl_push_ok [OF "2.prems"(2) c] "2.prems" False r Inr
        by simp
    qed
  qed
qed

lemma feed_checked_keeps:
  assumes "parser_ok p" "feed_checked p c = (p', r)"
  shows "parser_ok p' \<and> max_buffer_bytes p' = max_buffer_bytes p"
proof (cases "max_buffer_bytes p < length (sse_buffer p) + length c")
  case True
  then show ?thesis using assms(2) by (auto simp: feed_checked_def parser_ok_def)
next
  case False
  obtain bs rest where b: "blocks (sse_buffer p @ c) = (bs, rest)" by fastforce
  show ?thesis using feed_checked_ok [OF assms(1) _ b] False assms(2) by auto
qed

lemma on_bytes_ok:
  assumes "within_limits lim st" "events_ok evs st" "\<not> stream_ended st" "pending_error st = None"
  shows "running_ok lim evs (on_bytes env st bytes)"
proof (cases "consume (ss_budget st) (length bytes)")
  case (Inl e)
  then show ?thesis
    using assms by (simp add: on_bytes_def running_ok_def within_limits_def ending_ok_def)
next
  case (Inr b)
  obtain p r where p: "feed_checked (ss_parser st) bytes = (p, r)" by fastforce
  let ?st = "st\<lparr>ss_budget := b, ss_parser := p\<rparr>"
  have "rb_limit b = lim \<and> rb_used b \<le> lim"
    using Inr assms(1) by (auto simp: consume_def within_limits_def split: if_splits)
  then have st: "within_limits lim ?st" "events_ok evs ?st"
    using assms feed_checked_keeps [OF _ p] by (auto simp: within_limits_def)
  show ?thesis
  proof (cases r)
    case (Inl e)
    then show ?thesis
      using st assms p Inr by (simp add: on_bytes_def running_ok_def within_limits_def ending_ok_def)
  next
    case (Inr ps)
    then show ?thesis
      using stream_payloads_ok [OF st, of env ps] assms p \<open>consume _ _ = Inr b\<close> by (simp add: on_bytes_def)
  qed
qed

lemma on_item_ok:
  assumes "running_ok lim evs st" "ready st = None" "on_item env st i = (st', r)"
  shows "case r of None \<Rightarrow> running_ok lim evs st' | Some err \<Rightarrow> failed_ok lim evs st'"
proof -
  have st: "pending_events st = []" "pending_error st = None" "\<not> stream_ended st"
    using assms(2) by (auto simp: ready_def split: list.splits option.splits if_splits)
  have ok: "within_limits lim st" "events_ok evs st" using assms(1) by (simp_all add: running_ok_def)
  show ?thesis
    using assms(3) st ok on_bytes_ok [OF ok st(3,2)] synthesized_running_ok [OF ok st(2)]
    by (cases i) (auto simp: failed_ok_def within_limits_def)
qed

text \<open>What a poll does to the state, by its result.\<close>

definition polled_ok :: "nat \<Rightarrow> stream_event list \<Rightarrow> stream_state \<Rightarrow> poll_result \<Rightarrow> bool" where
  "polled_ok lim evs st r \<longleftrightarrow>
     (case r of
        Yielded (Inr e) \<Rightarrow> running_ok lim (evs @ [e]) st
      | Yielded (Inl _) \<Rightarrow> failed_ok lim evs st
      | Finished \<Rightarrow> running_ok lim evs st \<and> failed_ok lim evs st
      | Waiting \<Rightarrow> running_ok lim evs st)"

lemma ready_ok:
  assumes "running_ok lim evs st" "ready st = Some (st', r)"
  shows "polled_ok lim evs st' r"
  using assms
  by (auto simp: ready_def polled_ok_def running_ok_def failed_ok_def within_limits_def events_ok_def
      ending_ok_def split: list.splits option.splits if_splits)

lemma poll_ok: "running_ok lim evs st \<Longrightarrow> poll env st is = (st', is', r) \<Longrightarrow> polled_ok lim evs st' r"
proof (induction env st "is" arbitrary: st' is' r rule: poll.induct)
  case (1 env st)
  then show ?case
    using ready_ok [OF "1.prems"(1)] by (auto simp: polled_ok_def split: option.splits prod.splits)
next
  case (2 env st i rest)
  show ?case
  proof (cases "ready st")
    case None
    obtain st1 r1 where i: "on_item env st i = (st1, r1)" by fastforce
    from on_item_ok [OF "2.prems"(1) None i] show ?thesis
      using "2.IH" [OF None i [symmetric]] "2.prems"(2) None i
      by (cases r1) (auto simp: polled_ok_def)
  next
    case (Some x)
    then show ?thesis using ready_ok [OF "2.prems"(1)] "2.prems"(2) by (cases x) auto
  qed
qed

lemma failed_poll: "failed_ok lim evs st \<Longrightarrow> poll env st is = (st, is, Finished)"
  by (cases "is") (simp_all add: failed_ok_def ready_def)

lemma session_running: "running_ok lim evs (se_stream s) \<Longrightarrow> se_outs s = map Inr evs \<Longrightarrow> session_ok lim s"
  by (auto simp: session_ok_def)

lemma session_failed: "failed_ok lim evs (se_stream s) \<Longrightarrow> se_outs s = map Inr evs @ [Inl e] \<Longrightarrow> session_ok lim s"
  by (auto simp: session_ok_def)

lemma sstep_ok: "session_ok lim s \<Longrightarrow> sstep env s s' \<Longrightarrow> session_ok lim s'"
proof -
  assume ok: "session_ok lim s" and "sstep env s s'"
  then obtain st items r where p: "poll env (se_stream s) (se_net s) = (st, items, r)"
    and s': "s' = \<lparr>se_stream = st, se_net = items, se_outs = se_outs s @ yielded r\<rparr>"
    by (auto elim: sstep.cases)
  from ok obtain evs where
    "se_outs s = map Inr evs \<and> running_ok lim evs (se_stream s) \<or>
     (\<exists>e. se_outs s = map Inr evs @ [Inl e]) \<and> failed_ok lim evs (se_stream s)"
    by (auto simp: session_ok_def)
  then show ?thesis
  proof
    assume run: "se_outs s = map Inr evs \<and> running_ok lim evs (se_stream s)"
    then have "polled_ok lim evs st r" using poll_ok p by blast
    then show ?thesis
      using run s'
      by (auto simp: polled_ok_def yielded_def split: poll_result.splits sum.splits
          intro: session_running [where evs = evs] session_running [where evs = "evs @ [_]"]
            session_failed [where evs = evs])
  next
    assume "(\<exists>e. se_outs s = map Inr evs @ [Inl e]) \<and> failed_ok lim evs (se_stream s)"
    then show ?thesis using failed_poll [of lim evs "se_stream s" env "se_net s"] p s' 
      by (auto simp: session_ok_def yielded_def)
  qed
qed

lemma opened_ok: "session_ok lim (opened m t lim items)"
  by (simp add: session_ok_def opened_def new_stream_def running_ok_def within_limits_def events_ok_def
      ending_ok_def well_started_def new_sse_parser_def new_parser_ok calls_ok_new)
    (simp add: with_max_buffer_bytes_def new_chunk_state_def)

interpretation streams: state_machine "opened m t lim items" "sstep env" "session_ok lim" for m t lim items env
  by unfold_locales (auto intro: opened_ok sstep_ok)

section \<open>Properties of the stream\<close>

lemma session_within: "session_ok lim s \<Longrightarrow> within_limits lim (se_stream s)"
  by (auto simp: session_ok_def running_ok_def failed_ok_def)

text \<open>The memory of a stream is bounded.  Whatever the server sends and however often the
  reader polls, the buffer of the parser holds at most 16 MiB, at most the given number of
  bytes is read, and at most 256 tool calls are kept, each with at most 1 MiB of arguments
  waiting for its name.\<close>

theorem stream_bounded:
  assumes "(sstep env)\<^sup>*\<^sup>* (opened m t lim items) s"
  shows "length (sse_buffer (ss_parser (se_stream s))) \<le> 16 * 1024 * 1024 \<and>
         rb_used (ss_budget (se_stream s)) \<le> lim \<and>
         length (pending_calls (ss_chunks (se_stream s))) \<le> 256 \<and>
         list_all (\<lambda>(_, p). length (buffered_args p) \<le> 1024 * 1024) (pending_calls (ss_chunks (se_stream s)))"
  using session_within [OF streams.reachable_inv [OF assms]]
  by (auto simp: within_limits_def parser_ok_def calls_ok_def MAX_SSE_BUFFER_BYTES_def list_all_iff
      MAX_PENDING_TOOL_CALLS_def MAX_BUFFERED_ARGS_BYTES_def)

text \<open>A message starts before its content and once.\<close>

definition starts_properly :: "stream_event list \<Rightarrow> bool" where
  "starts_properly evs \<longleftrightarrow>
     (case filter (\<lambda>e. is_start e \<or> is_content e) evs of
        [] \<Rightarrow> True | e # es \<Rightarrow> is_start e \<and> list_all (\<lambda>x. \<not> is_start x) es)"

lemma well_started_prefix: "well_started b (evs @ later) \<Longrightarrow> starts_properly evs"
  by (cases "filter (\<lambda>e. is_start e \<or> is_content e) evs") (auto simp: well_started_def starts_properly_def)

lemma events_ok_starts: "events_ok evs st \<Longrightarrow> starts_properly evs"
  by (auto simp: events_ok_def dest: well_started_prefix)

text \<open>What a stream yields is a message.  At every moment the reader has got events that
  start properly, followed by at most one error, which is the last thing it gets; and when
  the stream is over, it ended with that error or the end of the message was among its
  events, be it the server's or one made up for a connection that just closed.\<close>

theorem stream_is_a_message:
  assumes "(sstep env)\<^sup>*\<^sup>* (opened m t lim items) s" "poll env (se_stream s) (se_net s) = (st, rest, r)"
  shows "\<exists>evs. starts_properly evs \<and>
           (se_outs s = map Inr evs \<and> (r = Finished \<longrightarrow> list_ex is_end evs) \<or>
            (\<exists>e. se_outs s = map Inr evs @ [Inl e]) \<and> r = Finished)"
proof -
  obtain evs where
    "se_outs s = map Inr evs \<and> running_ok lim evs (se_stream s) \<or>
     (\<exists>e. se_outs s = map Inr evs @ [Inl e]) \<and> failed_ok lim evs (se_stream s)"
    using streams.reachable_inv [OF assms(1)] by (auto simp: session_ok_def)
  then show ?thesis
  proof
    assume run: "se_outs s = map Inr evs \<and> running_ok lim evs (se_stream s)"
    then have "polled_ok lim evs st r" using poll_ok assms(2) by blast
    then have "list_ex is_end evs" if "r = Finished"
      using that by (auto simp: polled_ok_def running_ok_def failed_ok_def ending_ok_def events_ok_def)
    then show ?thesis using run events_ok_starts [of evs "se_stream s"] by (auto simp: running_ok_def)
  next
    assume fail: "(\<exists>e. se_outs s = map Inr evs @ [Inl e]) \<and> failed_ok lim evs (se_stream s)"
    then have "r = Finished" using failed_poll [of lim evs "se_stream s" env "se_net s"] assms(2) by simp
    then show ?thesis using fail events_ok_starts [of evs "se_stream s"] by (auto simp: failed_ok_def)
  qed
qed

subsection \<open>Every stream ends\<close>

fun ends_stream :: "net_item \<Rightarrow> bool" where
  "ends_stream (NetBytes _) = False"
| "ends_stream _ = True"

definition will_end :: "stream_state \<Rightarrow> net_item list \<Rightarrow> bool" where
  "will_end st items \<longleftrightarrow> stream_ended st \<or> list_ex ends_stream items"

definition weight :: "stream_state \<Rightarrow> nat" where
  "weight st = length (pending_events st) + (if pending_error st = None then 0 else 1)"

lemma ready_will_end:
  assumes "ready st = Some (st', r)" "will_end st items"
  shows "r \<noteq> Waiting \<and> will_end st' items \<and> (r \<noteq> Finished \<longrightarrow> weight st' < weight st)"
  using assms
  by (auto simp: ready_def will_end_def weight_def split: list.splits option.splits if_splits)

lemma on_item_will_end:
  "on_item env st i = (st', r) \<Longrightarrow> will_end st (i # items) \<Longrightarrow> ready st = None \<Longrightarrow> will_end st' items"
  by (cases i) (auto simp: will_end_def ready_def split: list.splits option.splits if_splits)

lemma poll_will_end:
  "will_end st items \<Longrightarrow> poll env st items = (st', items', r) \<Longrightarrow>
     r \<noteq> Waiting \<and> will_end st' items' \<and>
     (r \<noteq> Finished \<longrightarrow> ((st', items'), st, items) \<in> measures [\<lambda>(st, is). length is, \<lambda>(st, is). weight st])"
proof (induction env st items arbitrary: st' items' r rule: poll.induct)
  case (1 env st)
  then have "ready st \<noteq> None" by (auto simp: will_end_def ready_def split: list.splits option.splits)
  then show ?case using 1 ready_will_end [of st _ _ "[]"] by (auto split: option.splits prod.splits)
next
  case (2 env st i rest)
  show ?case
  proof (cases "ready st")
    case None
    obtain st1 r1 where i: "on_item env st i = (st1, r1)" by fastforce
    have end1: "will_end st1 rest" using on_item_will_end [OF i "2.prems"(1) None] .
    show ?thesis
    proof (cases r1)
      case None
      then show ?thesis
        using "2.IH" [OF \<open>ready st = None\<close> i [symmetric] None end1] "2.prems"(2) \<open>ready st = None\<close> i by auto
    next
      case (Some e)
      then show ?thesis using "2.prems"(2) \<open>ready st = None\<close> i end1 by auto
    qed
  next
    case (Some x)
    then show ?thesis using ready_will_end [of st _ _ "i # rest"] "2.prems" by (cases x) auto
  qed
qed

lemma poll_finished: "poll env st items = (st', items', Finished) \<Longrightarrow> stream_ended st' \<and> ready st' = Some (st', Finished)"
proof (induction env st items rule: poll.induct)
  case (1 env st)
  then show ?case by (auto simp: ready_def split: list.splits option.splits if_splits)
next
  case (2 env st i rest)
  then show ?case
    by (cases "ready st") (auto simp: ready_def split: list.splits option.splits if_splits prod.splits)
qed

lemma ends_eventually:
  "will_end (se_stream s) (se_net s) \<Longrightarrow>
     \<exists>s'. (sstep env)\<^sup>*\<^sup>* s s' \<and> poll env (se_stream s') (se_net s') = (se_stream s', se_net s', Finished)"
proof (induction "(se_stream s, se_net s)" arbitrary: s
    rule: wf_induct_rule [OF wf_measures [of "[\<lambda>(st, is). length is, \<lambda>(st, is). weight st]"]])
  case 1
  obtain st items r where p: "poll env (se_stream s) (se_net s) = (st, items, r)" by (cases "poll env (se_stream s) (se_net s)") auto
  note step = sstep.polled [OF p]
  let ?s = "\<lparr>se_stream = st, se_net = items, se_outs = se_outs s @ yielded r\<rparr>"
  show ?case
  proof (cases "r = Finished")
    case True
    have "stream_ended st \<and> ready st = Some (st, Finished)"
      using poll_finished p True by simp
    then have "poll env st items = (st, items, Finished)" by (cases items) simp_all
    then show ?thesis using step by (intro exI [of _ ?s]) auto
  next
    case False
    then obtain s' where "(sstep env)\<^sup>*\<^sup>* ?s s'" "poll env (se_stream s') (se_net s') = (se_stream s', se_net s', Finished)"
      using poll_will_end [OF "1.prems" p] "1.hyps" [of ?s] by auto
    then show ?thesis using step by (meson converse_rtranclp_into_rtranclp)
  qed
qed

text \<open>Every stream comes to its end.  From every state a stream can reach, when the
  connection still ends, fails or times out, the reader only has to go on polling: after
  finitely many polls the stream is finished, and it stays so.\<close>

theorem stream_finishes:
  assumes "(sstep env)\<^sup>*\<^sup>* (opened m t lim items) s"
    and "stream_ended (se_stream s) \<or> list_ex ends_stream (se_net s)"
  shows "\<exists>s'. (sstep env)\<^sup>*\<^sup>* s s' \<and>
           poll env (se_stream s') (se_net s') = (se_stream s', se_net s', Finished)"
  using ends_eventually [of s env] assms(2) by (simp add: will_end_def)

subsection \<open>A stream\<close>

definition sample_env :: wire_env where
  "sample_env =
     \<lparr>env_chunk = (\<lambda>_. read_chunk hi_chunk), env_json = (\<lambda>_. Inr hi_chunk), env_text = (\<lambda>_. []),
      env_gen = (\<lambda>_. []), env_now = 0\<rparr>"

definition sample_net :: "net_item list" where
  "sample_net = [NetBytes (''data: x'' @ [NL, NL]), NetEnd]"

definition sample_session :: stream_session where
  "sample_session = opened ''m'' 60 1000 sample_net"

text \<open>A poll as a function on sessions.\<close>

definition polled_session :: "wire_env \<Rightarrow> stream_session \<Rightarrow> stream_session" where
  "polled_session env s =
     (case poll env (se_stream s) (se_net s) of
        (st, is, r) \<Rightarrow> \<lparr>se_stream = st, se_net = is, se_outs = se_outs s @ yielded r\<rparr>)"

lemma sstep_polled: "sstep env s (polled_session env s)"
  by (cases "poll env (se_stream s) (se_net s)") (auto simp: polled_session_def intro: sstep.polled)

lemma polls_reach: "(sstep env)\<^sup>*\<^sup>* s ((polled_session env ^^ n) s)"
  by (induction n) (auto intro: rtranclp.rtrancl_into_rtrancl sstep_polled)

lemma sample_feed: "feed_checked new_sse_parser (''data: x'' @ [NL, NL]) = (new_sse_parser, Inr [''x''])"
proof -
  have "feed_loop (''data: x'' @ [NL, NL]) 0 0 [] = (9, [''x''])" by code_simp
  then show ?thesis
    by (simp add: feed_checked_def new_sse_parser_def with_max_buffer_bytes_def MAX_SSE_BUFFER_BYTES_def)
qed

lemma sample_payload:
  "payload_to_events (env_chunk sample_env) (env_json sample_env) (env_text sample_env) (env_gen sample_env)
     ''x'' new_chunk_state (Some ''m'') = (new_chunk_state, Some ''m'', Inr [TextDelta ''hi''])"
  by code_simp

lemma sample_trim: "trim ''x'' \<noteq> ''[DONE]''"
  by code_simp

lemma sample_bytes:
  "on_bytes sample_env (new_stream ''m'' 60 1000) (''data: x'' @ [NL, NL]) =
     (new_stream ''m'' 60 1000)\<lparr>ss_budget := \<lparr>rb_limit = 1000, rb_used = 9\<rparr>, message_start_emitted := True,
        pending_events := [MessageStart (Some ''m''), TextDelta ''hi'']\<rparr>"
  using sample_feed sample_payload sample_trim
  by (simp add: on_bytes_def new_stream_def consume_def U64_MAX_def push_event_def)

lemma sample_outs:
  "se_outs ((polled_session sample_env ^^ 3) sample_session) =
     [Inr (MessageStart (Some ''m'')), Inr (TextDelta ''hi''), Inr (MessageEnd EndTurn)]"
  "snd (snd (poll sample_env (se_stream ((polled_session sample_env ^^ 3) sample_session))
     (se_net ((polled_session sample_env ^^ 3) sample_session)))) = Finished"
  using sample_bytes
  by (simp_all add: numeral_3_eq_3 sample_session_def opened_def sample_net_def polled_session_def ready_def
      new_stream_def yielded_def synthesize_end_def new_chunk_state_def)


lemma sample_stream_reached:
  "(sstep sample_env)\<^sup>*\<^sup>* (opened ''m'' 60 1000 sample_net) ((polled_session sample_env ^^ 3) sample_session)"
  using polls_reach [of sample_env sample_session 3] by (simp add: sample_session_def)

theorem stream_bounded_witness:
  "rb_used (ss_budget (se_stream ((polled_session sample_env ^^ 3) sample_session))) \<le> 1000"
  using stream_bounded [OF sample_stream_reached] by simp

theorem stream_is_a_message_witness:
  "\<exists>evs. starts_properly evs \<and> list_ex is_end evs \<and>
     [Inr (MessageStart (Some ''m'')), Inr (TextDelta ''hi''), Inr (MessageEnd EndTurn)] = map Inr evs"
proof -
  let ?s = "(polled_session sample_env ^^ 3) sample_session"
  obtain st rest where "poll sample_env (se_stream ?s) (se_net ?s) = (st, rest, Finished)"
    using sample_outs(2) by (metis prod.collapse)
  from stream_is_a_message [OF sample_stream_reached this] show ?thesis
    unfolding sample_outs(1) by (auto simp: append_eq_Cons_conv Cons_eq_append_conv map_eq_Cons_conv)
qed

theorem stream_finishes_witness:
  "\<exists>s'. (sstep sample_env)\<^sup>*\<^sup>* sample_session s' \<and>
     poll sample_env (se_stream s') (se_net s') = (se_stream s', se_net s', Finished)"
  using stream_finishes [where env = sample_env and s = sample_session and m = "''m''" and t = 60
      and lim = 1000 and items = sample_net]
  by (simp add: sample_session_def opened_def sample_net_def)
end
