(* ===== verification/Governor.thy ===== *)
theory Governor
  imports Prelude
begin

text \<open>
  \<^verbatim>\<open>crates/pacode-provider/src/governor.rs\<close>: how many requests of one account are in flight,
  how many wait, and how the limit adapts.

  The counters and the queue are the record \<open>governor\<close>; every region under the waiter lock
  is one function on it.  The queue holds the sending ends of one-shot channels: a waiter is
  a number, \<open>live\<close> are those whose receiver is open and empty, \<open>granted\<close> those that were sent
  a slot and have not taken it.  Around the regions lies the step relation \<open>gstep\<close> with the
  callers as the counts the program has of them: permits held, callers that reserved queue
  room and wait for a cooldown, callers on the way to take a slot past the queue with the
  limit they have read, and limit changes whose drain of the queue is still to come.
  Refusing or granting queue room is one step: between its counters others can only be
  refused or sent to the queue.  Durations and instants are nanoseconds.
\<close>

section \<open>The state\<close>

definition MIN_LIMIT :: nat where
  "MIN_LIMIT = 2"

definition MIN_EPISODE :: nat where
  "MIN_EPISODE = 250 * 1000000"

definition MAX_EPISODE :: nat where
  "MAX_EPISODE = 5 * 60 * 1000000000"

record provider_limits =
  pl_concurrency :: nat
  pl_queue_items :: nat
  pl_queue_bytes :: nat

record aimd =
  ai_successes :: nat
  episode_until :: "nat option"

record governor =
  max_concurrency :: nat
  effective :: nat
  max_queue_items :: nat
  max_queue_bytes :: nat
  g_active :: nat
  queued_items :: nat
  queued_bytes :: nat
  cooldown_until :: "nat option"
  g_aimd :: aimd
  g_waiters :: "nat list"
  live :: "nat set"
  granted :: "nat set"
  high_water_active :: nat
  high_water_queued :: nat
  admitted :: nat
  queued_admissions :: nat
  refused :: nat
  cooldown_entries :: nat

definition new_governor :: "provider_limits \<Rightarrow> governor" where
  "new_governor l =
     \<lparr>max_concurrency = pl_concurrency l, effective = pl_concurrency l,
      max_queue_items = pl_queue_items l, max_queue_bytes = pl_queue_bytes l,
      g_active = 0, queued_items = 0, queued_bytes = 0, cooldown_until = None,
      g_aimd = \<lparr>ai_successes = 0, episode_until = None\<rparr>, g_waiters = [], live = {}, granted = {},
      high_water_active = 0, high_water_queued = 0, admitted = 0, queued_admissions = 0,
      refused = 0, cooldown_entries = 0\<rparr>"

definition limit :: "governor \<Rightarrow> nat" where
  "limit g = max (min (effective g) (max_concurrency g)) 1"

definition cooldown_remaining :: "nat \<Rightarrow> governor \<Rightarrow> nat" where
  "cooldown_remaining now g = (case cooldown_until g of Some u \<Rightarrow> u - now | None \<Rightarrow> 0)"

definition is_idle :: "nat \<Rightarrow> governor \<Rightarrow> bool" where
  "is_idle now g \<longleftrightarrow> g_active g = 0 \<and> cooldown_remaining now g = 0"

section \<open>Slots and the queue\<close>

definition take_slot :: "governor \<Rightarrow> governor" where
  "take_slot g = g\<lparr>g_active := g_active g + 1, high_water_active := max (high_water_active g) (g_active g + 1)\<rparr>"

text \<open>\<^verbatim>\<open>try_admit\<close> with the limit it read.\<close>

definition try_admit :: "nat \<Rightarrow> governor \<Rightarrow> governor option" where
  "try_admit lim g = (if lim \<le> g_active g then None else Some (take_slot g))"

text \<open>The inner loop of the drain: pop until a waiter takes the slot.\<close>

fun hand_over :: "nat list \<Rightarrow> governor \<Rightarrow> governor \<times> bool" where
  "hand_over [] g = (g\<lparr>g_waiters := []\<rparr>, False)"
| "hand_over (w # ws) g =
     (if w \<in> live g
      then (g\<lparr>g_waiters := ws, live := live g - {w}, granted := insert w (granted g)\<rparr>, True)
      else hand_over ws g)"

definition drain_step :: "governor \<Rightarrow> governor option" where
  "drain_step g =
     (if g_waiters g = [] then None
      else (case try_admit (limit g) g of
              None \<Rightarrow> None
            | Some g1 \<Rightarrow>
                (let (g2, handed) = hand_over (g_waiters g1) g1
                 in Some (if handed then g2 else g2\<lparr>g_active := g_active g2 - 1\<rparr>))))"

definition admit_waiters :: "governor \<Rightarrow> governor" where
  "admit_waiters g = loop (length (g_waiters g) + 1) drain_step g"

text \<open>\<^verbatim>\<open>enqueue\<close> with the number of a new channel: whether a slot was taken at once.\<close>

definition prune :: "governor \<Rightarrow> governor" where
  "prune g =
     (if max (max_queue_items g) 1 \<le> length (g_waiters g)
      then g\<lparr>g_waiters := filter (\<lambda>w. w \<in> live g) (g_waiters g)\<rparr> else g)"

definition enqueue :: "nat \<Rightarrow> governor \<Rightarrow> governor \<times> bool" where
  "enqueue w g =
     (let g1 = admit_waiters (prune g)
      in case (if g_waiters g1 = [] then try_admit (limit g1) g1 else None) of
           Some g2 \<Rightarrow> (g2, True)
         | None \<Rightarrow> (g1\<lparr>g_waiters := g_waiters g1 @ [w], live := insert w (live g1)\<rparr>, False))"

definition release :: "governor \<Rightarrow> governor" where
  "release g =
     (if g_active g = 0 then g else admit_waiters (g\<lparr>g_active := g_active g - 1\<rparr>))"

definition reserve_queue :: "nat \<Rightarrow> governor \<Rightarrow> governor \<times> bool" where
  "reserve_queue bytes g =
     (let items = queued_items g + 1;
          g1 = g\<lparr>high_water_queued := max (high_water_queued g) items,
                 queued_admissions := queued_admissions g + 1\<rparr>
      in if max_queue_items g < items \<or> max_queue_bytes g < queued_bytes g + bytes
         then (g1\<lparr>refused := refused g + 1\<rparr>, False)
         else (g1\<lparr>queued_items := items, queued_bytes := queued_bytes g + bytes\<rparr>, True))"

definition release_room :: "nat \<Rightarrow> governor \<Rightarrow> governor" where
  "release_room bytes g = g\<lparr>queued_items := queued_items g - 1, queued_bytes := queued_bytes g - bytes\<rparr>"

definition grant :: "governor \<Rightarrow> governor" where
  "grant g = g\<lparr>admitted := admitted g + 1\<rparr>"

section \<open>The adaptive limit\<close>

text \<open>The new limits, up to the drain of the queue.\<close>

definition set_limits :: "provider_limits \<Rightarrow> governor \<Rightarrow> governor" where
  "set_limits l g =
     g\<lparr>max_concurrency := pl_concurrency l,
       effective := (if max_concurrency g \<le> effective g then pl_concurrency l
                     else min (effective g) (pl_concurrency l)),
       max_queue_items := pl_queue_items l, max_queue_bytes := pl_queue_bytes l\<rparr>"

definition start_cooldown :: "nat \<Rightarrow> nat \<Rightarrow> governor \<Rightarrow> governor" where
  "start_cooldown now delay g =
     (let until = now + delay
      in g\<lparr>cooldown_entries := cooldown_entries g + 1,
           cooldown_until := (case cooldown_until g of
               Some v \<Rightarrow> if v < until then Some until else Some v | None \<Rightarrow> Some until)\<rparr>)"

definition halved :: "nat \<Rightarrow> nat" where
  "halved current = max (min (max (current div 2) MIN_LIMIT) current) 1"

definition note_rate_limited :: "nat \<Rightarrow> nat \<Rightarrow> governor \<Rightarrow> governor" where
  "note_rate_limited now delay g0 =
     (let g = start_cooldown now delay g0;
          window = min (max delay MIN_EPISODE) MAX_EPISODE;
          fresh = (case episode_until (g_aimd g) of Some u \<Rightarrow> u \<le> now | None \<Rightarrow> True);
          end = (case episode_until (g_aimd g) of Some u \<Rightarrow> max u (now + window) | None \<Rightarrow> now + window);
          a = (g_aimd g)\<lparr>episode_until := Some end\<rparr>
      in if fresh
         then g\<lparr>g_aimd := a\<lparr>ai_successes := 0\<rparr>, effective := halved (min (effective g) (max_concurrency g))\<rparr>
         else g\<lparr>g_aimd := a\<rparr>)"

text \<open>\<^verbatim>\<open>on_success\<close> up to the drain: the state, and whether the queue is to be drained.\<close>

definition on_success :: "nat \<Rightarrow> governor \<Rightarrow> governor \<times> bool" where
  "on_success now g =
     (if max_concurrency g \<le> effective g \<or>
         (case episode_until (g_aimd g) of Some u \<Rightarrow> now < u | None \<Rightarrow> False) then (g, False)
      else
        let n = ai_successes (g_aimd g) + 1
        in if n < max (effective g) MIN_LIMIT
           then (g\<lparr>g_aimd := (g_aimd g)\<lparr>ai_successes := n\<rparr>\<rparr>, False)
           else (g\<lparr>g_aimd := (g_aimd g)\<lparr>ai_successes := 0\<rparr>, effective := effective g + 1\<rparr>, True))"

text \<open>\<^verbatim>\<open>note_failure\<close> of \<^verbatim>\<open>retry.rs\<close>: whether the error is a rate limit and carried a hint.\<close>

definition MIN_429_COOLDOWN :: nat where
  "MIN_429_COOLDOWN = 1000000"

definition note_failure :: "nat \<Rightarrow> bool \<Rightarrow> bool \<Rightarrow> nat \<Rightarrow> governor \<Rightarrow> governor" where
  "note_failure now rate_limit hinted delay g =
     (let d = max delay MIN_429_COOLDOWN
      in if rate_limit then note_rate_limited now d g
         else if hinted then start_cooldown now d g else g)"


section \<open>Draining\<close>

lemma hand_over_True:
  "hand_over ws g = (g', True) \<Longrightarrow>
     \<exists>j < length ws. set (take j ws) \<inter> live g = {} \<and> ws ! j \<in> live g \<and>
       g' = g\<lparr>g_waiters := drop (Suc j) ws, live := live g - {ws ! j}, granted := insert (ws ! j) (granted g)\<rparr>"
proof (induction ws)
  case (Cons w ws)
  show ?case
  proof (cases "w \<in> live g")
    case True
    then show ?thesis using Cons.prems by (intro exI [of _ 0]) auto
  next
    case False
    then obtain j where "j < length ws" "set (take j ws) \<inter> live g = {}" "ws ! j \<in> live g"
      "g' = g\<lparr>g_waiters := drop (Suc j) ws, live := live g - {ws ! j}, granted := insert (ws ! j) (granted g)\<rparr>"
      using Cons by auto
    then show ?thesis using False by (intro exI [of _ "Suc j"]) auto
  qed
qed simp

lemma hand_over_False:
  "hand_over ws g = (g', False) \<Longrightarrow> set ws \<inter> live g = {} \<and> g' = g\<lparr>g_waiters := []\<rparr>"
  by (induction ws) (auto split: if_splits)

text \<open>What a drain does: the first \<open>k\<close> of the queue leave it, and of these the live ones get a
  slot.\<close>

definition served :: "governor \<Rightarrow> nat list \<Rightarrow> nat set \<Rightarrow> nat \<Rightarrow> governor" where
  "served g ws S h =
     g\<lparr>g_waiters := ws, live := live g - S, granted := granted g \<union> S,
       g_active := g_active g + card S, high_water_active := h\<rparr>"

definition drained :: "nat \<Rightarrow> governor \<Rightarrow> governor \<Rightarrow> bool" where
  "drained k g g' \<longleftrightarrow>
     k \<le> length (g_waiters g) \<and>
     (\<exists>h. g' = served g (drop k (g_waiters g)) (live g \<inter> set (take k (g_waiters g))) h)"

lemma serve_one:
  assumes "finite S" "w \<notin> S"
  shows "(take_slot (served g ws S h))\<lparr>g_waiters := ws', live := live g - S - {w},
      granted := insert w (granted g \<union> S)\<rparr> =
    served g ws' (insert w S) (max h (g_active g + card S + 1))"
  using assms by (simp add: served_def take_slot_def Diff_insert [symmetric])

lemma limit_frame [simp]:
  "limit (g\<lparr>g_waiters := ws\<rparr>) = limit g" "limit (g\<lparr>live := l\<rparr>) = limit g" "limit (g\<lparr>granted := l\<rparr>) = limit g"
  "limit (g\<lparr>g_active := n\<rparr>) = limit g" "limit (g\<lparr>high_water_active := n\<rparr>) = limit g"
  "limit (take_slot g) = limit g"
  by (simp_all add: limit_def take_slot_def)

lemma drained_fields:
  assumes "drained k g g'"
  shows "g_waiters g' = drop k (g_waiters g)" "live g' = live g - set (take k (g_waiters g))"
    "granted g' = granted g \<union> (live g \<inter> set (take k (g_waiters g)))"
    "g_active g' = g_active g + card (live g \<inter> set (take k (g_waiters g)))"
    "limit g' = limit g" "queued_items g' = queued_items g" "queued_bytes g' = queued_bytes g"
  using assms by (auto simp: drained_def served_def limit_def)

lemma drain_step_drained:
  assumes d: "drained k g s" and dist: "distinct (g_waiters g)" and st: "drain_step s = Some s'"
  shows "\<exists>k'. drained k' g s' \<and> k < k'"
proof -
  let ?W = "g_waiters g"
  note f = drained_fields [OF d]
  have k: "k \<le> length ?W" using d by (simp add: drained_def)
  obtain g2 handed where h: "hand_over (drop k ?W) (take_slot s) = (g2, handed)" by fastforce
  have s': "s' = (if handed then g2 else g2\<lparr>g_active := g_active g2 - 1\<rparr>)" and ne: "drop k ?W \<noteq> []"
    using st h f(1) by (auto simp: drain_step_def try_admit_def take_slot_def split: if_splits)
  show ?thesis
  proof (cases handed)
    case True
    then obtain j where j: "j < length (drop k ?W)" "set (take j (drop k ?W)) \<inter> live (take_slot s) = {}"
        "drop k ?W ! j \<in> live (take_slot s)"
      and g2: "g2 = (take_slot s)\<lparr>g_waiters := drop (Suc j) (drop k ?W), live := live (take_slot s) - {drop k ?W ! j},
        granted := insert (drop k ?W ! j) (granted (take_slot s))\<rparr>"
      using hand_over_True [of "drop k ?W" "take_slot s" g2] h True by auto
    let ?w = "?W ! (k + j)"
    have w: "drop k ?W ! j = ?w" "k + j < length ?W" using j(1) by simp_all
    have "take (Suc (k + j)) ?W = take k ?W @ take j (drop k ?W) @ [?w]"
      using w by (simp add: take_Suc_conv_app_nth take_add)
    moreover have live: "live (take_slot s) = live g - set (take k ?W)" using f(2) by (simp add: take_slot_def)
    moreover have "?w \<notin> set (take k ?W)" using dist w(2) by (auto simp: in_set_conv_nth distinct_conv_nth)
    moreover have "set (take j (drop k ?W)) \<inter> live g = {}"
      using j(2) live dist set_take_disj_set_drop_if_distinct [of ?W k k] by (auto dest: in_set_takeD)
    ultimately have served_now: "live g \<inter> set (take (Suc (k + j)) ?W) = insert ?w (live g \<inter> set (take k ?W))"
        "?w \<notin> live g \<inter> set (take k ?W)"
      using j(3) w by auto
    obtain h where s: "s = served g (drop k ?W) (live g \<inter> set (take k ?W)) h"
      using d by (auto simp: drained_def)
    have "s' = served g (drop (Suc (k + j)) ?W) (live g \<inter> set (take (Suc (k + j)) ?W))
        (max h (g_active g + card (live g \<inter> set (take k ?W)) + 1))"
      unfolding s' g2 served_now(1) s using True
      by (subst serve_one [symmetric]) (use served_now(2) in \<open>simp_all add: w served_def take_slot_def add.commute\<close>)
    then have "drained (Suc (k + j)) g s'" using w(2) by (auto simp: drained_def)
    then show ?thesis by (intro exI [of _ "Suc (k + j)"]) simp
  next
    case False
    then have none: "set (drop k ?W) \<inter> live (take_slot s) = {}" and g2: "g2 = (take_slot s)\<lparr>g_waiters := []\<rparr>"
      using hand_over_False [of "drop k ?W" "take_slot s" g2] h False by auto
    have "set (drop k ?W) \<inter> live g = {}"
      using none f(2) dist set_take_disj_set_drop_if_distinct [of ?W k k] by (auto simp: take_slot_def)
    then have "live g \<inter> set ?W = live g \<inter> set (take k ?W)"
      by (metis Int_Un_distrib append_take_drop_id inf_commute set_append sup_bot_right)
    moreover obtain h where s: "s = served g (drop k ?W) (live g \<inter> set (take k ?W)) h"
      using d by (auto simp: drained_def)
    ultimately have "s' = served g [] (live g \<inter> set ?W) (max h (g_active g + card (live g \<inter> set ?W) + 1))"
      unfolding s' g2 s using False by (simp add: served_def take_slot_def)
    then have "drained (length ?W) g s'" by (auto simp: drained_def)
    then show ?thesis using ne by (intro exI [of _ "length ?W"]) auto
  qed
qed

lemma drained_0: "drained 0 g g"
  by (auto simp: drained_def served_def intro!: exI [of _ "high_water_active g"])


lemma drain_step_shrinks: "drain_step g = Some g' \<Longrightarrow> length (g_waiters g') < length (g_waiters g)"
proof -
  assume st: "drain_step g = Some g'"
  have pops: "hand_over ws h = (h', b) \<Longrightarrow> length (g_waiters h') \<le> length ws - 1" for ws h h' b
    by (induction ws) (auto split: if_splits)
  obtain g2 b where h: "hand_over (g_waiters g) (take_slot g) = (g2, b)" by fastforce
  have "g_waiters (take_slot g) = g_waiters g" by (simp add: take_slot_def)
  then have "g_waiters g \<noteq> []" "g' = g2 \<or> g' = g2\<lparr>g_active := g_active g2 - 1\<rparr>"
    using st h by (auto simp: drain_step_def try_admit_def split: if_splits)
  then show ?thesis using pops [OF h] by (cases "g_waiters g") auto
qed

interpretation drain: progress drain_step "\<lambda>g. length (g_waiters g)"
  by unfold_locales (rule drain_step_shrinks)

lemma admit_waiters_drained:
  assumes "distinct (g_waiters g)"
  obtains k where "drained k g (admit_waiters g)"
    "g_waiters (admit_waiters g) = [] \<or> limit g \<le> g_active (admit_waiters g)"
proof -
  have "\<exists>k. drained k g (admit_waiters g)"
    unfolding admit_waiters_def
    by (rule loop_invariant [where P = "\<lambda>s. \<exists>k. drained k g s"])
      (auto intro: drained_0 dest: drain_step_drained [OF _ assms])
  then obtain k where k: "drained k g (admit_waiters g)" by blast
  have "drain_step (admit_waiters g) = None"
    unfolding admit_waiters_def by (rule drain.loop_done) simp
  then have "g_waiters (admit_waiters g) = [] \<or> limit g \<le> g_active (admit_waiters g)"
    using drained_fields(5) [OF k] by (auto simp: drain_step_def try_admit_def split: if_splits prod.splits)
  then show ?thesis using that k by blast
qed

section \<open>Callers\<close>

record gsys =
  gov :: governor
  g_now :: nat
  permits :: nat
  reserved :: "nat list"
  tickets :: "(nat \<times> nat) list"
  racers :: "nat list"
  drains :: nat
  next_chan :: nat

definition gstart :: "provider_limits \<Rightarrow> gsys" where
  "gstart l =
     \<lparr>gov = new_governor l, g_now = 0, permits = 0, reserved = [], tickets = [], racers = [],
      drains = 0, next_chan = 0\<rparr>"

definition drop_ticket :: "nat \<Rightarrow> gsys \<Rightarrow> gsys" where
  "drop_ticket w s = s\<lparr>tickets := filter (\<lambda>t. fst t \<noteq> w) (tickets s)\<rparr>"

text \<open>One step of a caller, of the server's answers, of the configuration or of the clock.\<close>

inductive gstep :: "gsys \<Rightarrow> gsys \<Rightarrow> bool" where
  ticked: "gstep s (s\<lparr>g_now := g_now s + d\<rparr>)"
| looked: "queued_items (gov s) = 0 \<Longrightarrow> cooldown_remaining (g_now s) (gov s) = 0 \<Longrightarrow>
    gstep s (s\<lparr>racers := limit (gov s) # racers s\<rparr>)"
| won: "lim \<in> set (racers s) \<Longrightarrow> try_admit lim (gov s) = Some g \<Longrightarrow>
    gstep s (s\<lparr>racers := remove1 lim (racers s), gov := grant g, permits := permits s + 1\<rparr>)"
| again: "lim \<in> set (racers s) \<Longrightarrow>
    gstep s (s\<lparr>racers := limit (gov s) # remove1 lim (racers s)\<rparr>)"
| lost: "lim \<in> set (racers s) \<Longrightarrow> try_admit lim (gov s) = None \<Longrightarrow>
    gstep s (s\<lparr>racers := remove1 lim (racers s)\<rparr>)"
| asked: "reserve_queue bytes (gov s) = (g, ok) \<Longrightarrow>
    gstep s (s\<lparr>gov := g, reserved := (if ok then bytes # reserved s else reserved s)\<rparr>)"
| parked: "bytes \<in> set (reserved s) \<Longrightarrow> cooldown_remaining (g_now s) (gov s) = 0 \<Longrightarrow>
    enqueue (next_chan s) (gov s) = (g, False) \<Longrightarrow>
    gstep s (s\<lparr>gov := g, reserved := remove1 bytes (reserved s),
      tickets := (next_chan s, bytes) # tickets s, next_chan := next_chan s + 1\<rparr>)"
| passed: "bytes \<in> set (reserved s) \<Longrightarrow> cooldown_remaining (g_now s) (gov s) = 0 \<Longrightarrow>
    enqueue (next_chan s) (gov s) = (g, True) \<Longrightarrow>
    gstep s (s\<lparr>gov := release_room bytes (grant g), reserved := remove1 bytes (reserved s),
      permits := permits s + 1\<rparr>)"
| gave_up: "bytes \<in> set (reserved s) \<Longrightarrow>
    gstep s (s\<lparr>gov := release_room bytes (gov s), reserved := remove1 bytes (reserved s)\<rparr>)"
| left: "(w, bytes) \<in> set (tickets s) \<Longrightarrow> w \<in> live (gov s) \<Longrightarrow>
    gstep s (drop_ticket w (s\<lparr>gov := release_room bytes ((gov s)\<lparr>live := live (gov s) - {w}\<rparr>)\<rparr>))"
| returned: "(w, bytes) \<in> set (tickets s) \<Longrightarrow> w \<in> granted (gov s) \<Longrightarrow>
    gstep s (drop_ticket w
      (s\<lparr>gov := release_room bytes (release ((gov s)\<lparr>granted := granted (gov s) - {w}\<rparr>))\<rparr>))"
| taken: "(w, bytes) \<in> set (tickets s) \<Longrightarrow> w \<in> granted (gov s) \<Longrightarrow>
    gstep s (drop_ticket w
      (s\<lparr>gov := release_room bytes (grant ((gov s)\<lparr>granted := granted (gov s) - {w}\<rparr>)),
         permits := permits s + 1\<rparr>))"
| ended: "0 < permits s \<Longrightarrow> gstep s (s\<lparr>gov := release (gov s), permits := permits s - 1\<rparr>)"
| failed: "gstep s (s\<lparr>gov := note_failure (g_now s) rate_limit hinted delay (gov s)\<rparr>)"
| succeeded: "on_success (g_now s) (gov s) = (g, d) \<Longrightarrow>
    gstep s (s\<lparr>gov := g, drains := drains s + (if d then 1 else 0)\<rparr>)"
| configured: "gstep s (s\<lparr>gov := set_limits l (gov s), drains := drains s + 1\<rparr>)"
| drained_now: "0 < drains s \<Longrightarrow> gstep s (s\<lparr>gov := admit_waiters (gov s), drains := drains s - 1\<rparr>)"

section \<open>The invariant\<close>

text \<open>The queue and the channels of one governor.\<close>

definition queue_ok :: "governor \<Rightarrow> bool" where
  "queue_ok g \<longleftrightarrow>
     distinct (g_waiters g) \<and> live g \<subseteq> set (g_waiters g) \<and> granted g \<inter> set (g_waiters g) = {} \<and>
     finite (granted g)"

text \<open>No live waiter is left while a slot is free.\<close>

definition served_ok :: "governor \<Rightarrow> bool" where
  "served_ok g \<longleftrightarrow> live g = {} \<or> limit g \<le> g_active g"

definition gsys_ok :: "gsys \<Rightarrow> bool" where
  "gsys_ok s \<longleftrightarrow>
     queue_ok (gov s) \<and> (served_ok (gov s) \<or> 0 < drains s) \<and>
     g_active (gov s) = permits s + card (granted (gov s)) \<and>
     distinct (map fst (tickets s)) \<and> fst ` set (tickets s) = live (gov s) \<union> granted (gov s) \<and>
     queued_items (gov s) = length (reserved s) + length (tickets s) \<and>
     queued_bytes (gov s) = sum_list (reserved s) + sum_list (map snd (tickets s)) \<and>
     set (g_waiters (gov s)) \<union> granted (gov s) \<subseteq> {..<next_chan s}"


text \<open>Slots, channels and room are moved, none is made up or lost.\<close>

definition moves :: "governor \<Rightarrow> governor \<Rightarrow> bool" where
  "moves g g' \<longleftrightarrow>
     queue_ok g' \<and> g_active g' + card (granted g) = g_active g + card (granted g') \<and>
     live g' \<union> granted g' = live g \<union> granted g \<and>
     set (g_waiters g') \<union> granted g' \<subseteq> set (g_waiters g) \<union> granted g \<and>
     limit g' = limit g \<and> queued_items g' = queued_items g \<and> queued_bytes g' = queued_bytes g"

lemma moves_trans: "moves g g' \<Longrightarrow> moves g' g'' \<Longrightarrow> moves g g''"
  by (auto simp: moves_def)

lemma drained_moves:
  assumes q: "queue_ok g" and d: "drained k g g'"
  shows "moves g g'"
proof -
  let ?T = "set (take k (g_waiters g))" and ?D = "set (drop k (g_waiters g))"
  note f = drained_fields [OF d]
  have W: "set (g_waiters g) = ?T \<union> ?D" by (metis append_take_drop_id set_append)
  have disj: "?T \<inter> ?D = {}" using q set_take_disj_set_drop_if_distinct [of "g_waiters g" k k]
    by (auto simp: queue_ok_def)
  have "card (granted g \<union> (live g \<inter> ?T)) = card (granted g) + card (live g \<inter> ?T)"
    using q W by (intro card_Un_disjoint) (auto simp: queue_ok_def)
  then show ?thesis
    using q f W disj by (auto simp: moves_def queue_ok_def dest: in_set_takeD)
qed

lemma admit_waiters_ok:
  assumes "queue_ok g"
  shows "moves g (admit_waiters g)" "served_ok (admit_waiters g)"
    "g_waiters (admit_waiters g) = [] \<or> limit g \<le> g_active (admit_waiters g)"
proof -
  have "distinct (g_waiters g)" using assms by (simp add: queue_ok_def)
  then obtain k where k: "drained k g (admit_waiters g)"
      "g_waiters (admit_waiters g) = [] \<or> limit g \<le> g_active (admit_waiters g)"
    using admit_waiters_drained by blast
  show m: "moves g (admit_waiters g)" by (rule drained_moves [OF assms k(1)])
  show "g_waiters (admit_waiters g) = [] \<or> limit g \<le> g_active (admit_waiters g)" by (rule k(2))
  with m show "served_ok (admit_waiters g)" by (auto simp: served_ok_def moves_def queue_ok_def)
qed

lemma release_ok:
  assumes "queue_ok g" "0 < g_active g"
  shows "moves (g\<lparr>g_active := g_active g - 1\<rparr>) (release g)" "served_ok (release g)"
  using admit_waiters_ok [of "g\<lparr>g_active := g_active g - 1\<rparr>"] assms
  by (auto simp: release_def queue_ok_def)

lemma prune_ok: "queue_ok g \<Longrightarrow> moves g (prune g)"
  by (auto simp: prune_def moves_def queue_ok_def)

text \<open>Enqueueing: the new channel waits behind a full account, or a slot was free.\<close>

lemma enqueue_ok:
  assumes q: "queue_ok g" and e: "enqueue w g = (g', ok)"
    and new: "w \<notin> set (g_waiters g) \<union> granted g"
  shows "if ok then moves (take_slot g) g' \<and> served_ok g'
         else moves (g\<lparr>g_waiters := g_waiters g @ [w], live := insert w (live g)\<rparr>) g' \<and> served_ok g'"
proof -
  let ?g = "admit_waiters (prune g)"
  have p: "moves g (prune g)" by (rule prune_ok [OF q])
  then have qp: "queue_ok (prune g)" by (simp add: moves_def)
  have m: "moves g ?g" using moves_trans [OF p admit_waiters_ok(1) [OF qp]] .
  note full = admit_waiters_ok(3) [OF qp]
  have lim: "limit (prune g) = limit g" using p by (simp add: moves_def)
  show ?thesis
  proof (cases ok)
    case True
    then have "g_waiters ?g = []" "g' = take_slot ?g"
      using e by (auto simp: enqueue_def Let_def try_admit_def split: if_splits)
    then show ?thesis using m True by (auto simp: moves_def queue_ok_def served_ok_def take_slot_def limit_def)
  next
    case False
    then have g': "g' = ?g\<lparr>g_waiters := g_waiters ?g @ [w], live := insert w (live ?g)\<rparr>"
      and "g_waiters ?g = [] \<Longrightarrow> limit ?g \<le> g_active ?g"
      using e by (auto simp: enqueue_def Let_def try_admit_def split: if_splits)
    then have "limit ?g \<le> g_active ?g" using full lim m by (auto simp: moves_def)
    then show ?thesis using m new False g' by (auto simp: moves_def queue_ok_def served_ok_def limit_def)
  qed
qed


lemma drop_ticket_facts:
  fixes b :: nat
  assumes "distinct (map fst ts)" "(w, b) \<in> set ts"
  shows "length ts = Suc (length (filter (\<lambda>t. fst t \<noteq> w) ts))"
    "sum_list (map snd ts) = b + sum_list (map snd (filter (\<lambda>t. fst t \<noteq> w) ts))"
    "fst ` set (filter (\<lambda>t. fst t \<noteq> w) ts) = fst ` set ts - {w}"
    "distinct (map fst (filter (\<lambda>t. fst t \<noteq> w) ts))"
proof -
  have "length ts = Suc (length (filter (\<lambda>t. fst t \<noteq> w) ts)) \<and>
      sum_list (map snd ts) = b + sum_list (map snd (filter (\<lambda>t. fst t \<noteq> w) ts))"
    using assms
  proof (induction ts)
    case (Cons t ts)
    show ?case
    proof (cases "fst t = w")
      case True
      then have "\<forall>u \<in> set ts. fst u \<noteq> w" using Cons.prems(1) by (metis distinct.simps(2) image_eqI list.simps(9) list.set_map)
      moreover have "t = (w, b)" using calculation Cons.prems(2) by auto
      ultimately show ?thesis by (simp add: filter_True)
    next
      case False
      then show ?thesis using Cons by auto
    qed
  qed simp
  then show "length ts = Suc (length (filter (\<lambda>t. fst t \<noteq> w) ts))"
    "sum_list (map snd ts) = b + sum_list (map snd (filter (\<lambda>t. fst t \<noteq> w) ts))" by auto
  show "fst ` set (filter (\<lambda>t. fst t \<noteq> w) ts) = fst ` set ts - {w}" by auto
  show "distinct (map fst (filter (\<lambda>t. fst t \<noteq> w) ts))" using assms(1) by (simp add: distinct_map_filter)
qed

lemma remove1_facts:
  assumes "(b :: nat) \<in> set rs"
  shows "length rs = Suc (length (remove1 b rs))" "sum_list rs = b + sum_list (remove1 b rs)"
  using assms sum_list_map_remove1 [of b rs "\<lambda>x. x"] length_pos_if_in_set [OF assms]
  by (simp_all add: length_remove1)

text \<open>The invariant without its claim on free slots.\<close>

definition counts_ok :: "gsys \<Rightarrow> bool" where
  "counts_ok s \<longleftrightarrow>
     queue_ok (gov s) \<and> g_active (gov s) = permits s + card (granted (gov s)) \<and>
     distinct (map fst (tickets s)) \<and> fst ` set (tickets s) = live (gov s) \<union> granted (gov s) \<and>
     queued_items (gov s) = length (reserved s) + length (tickets s) \<and>
     queued_bytes (gov s) = sum_list (reserved s) + sum_list (map snd (tickets s)) \<and>
     set (g_waiters (gov s)) \<union> granted (gov s) \<subseteq> {..<next_chan s}"

lemma gsys_ok_iff: "gsys_ok s \<longleftrightarrow> counts_ok s \<and> (served_ok (gov s) \<or> 0 < drains s)"
  by (auto simp: gsys_ok_def counts_ok_def)

lemma moved_counts:
  assumes "counts_ok s" "moves (gov s) g"
  shows "counts_ok (s\<lparr>gov := g\<rparr>)"
  using assms by (auto simp: counts_ok_def moves_def)

text \<open>A governor that differs in its limits and statistics only.\<close>

definition same_slots :: "governor \<Rightarrow> governor \<Rightarrow> bool" where
  "same_slots g g' \<longleftrightarrow>
     g_waiters g' = g_waiters g \<and> live g' = live g \<and> granted g' = granted g \<and> g_active g' = g_active g \<and>
     queued_items g' = queued_items g \<and> queued_bytes g' = queued_bytes g"

lemma same_slots_counts: "counts_ok s \<Longrightarrow> same_slots (gov s) g \<Longrightarrow> counts_ok (s\<lparr>gov := g, drains := n\<rparr>)"
  by (simp add: counts_ok_def same_slots_def queue_ok_def)

lemma same_slots_served: "served_ok g \<Longrightarrow> same_slots g g' \<Longrightarrow> limit g' \<le> limit g \<Longrightarrow> served_ok g'"
  by (auto simp: served_ok_def same_slots_def)

lemma start_cooldown_same: "same_slots g (start_cooldown now d g) \<and> limit (start_cooldown now d g) = limit g"
  by (simp add: start_cooldown_def same_slots_def limit_def Let_def)

lemma halved_small: "c \<le> 1 \<Longrightarrow> halved c = 1"
  by (cases c) (simp_all add: halved_def MIN_LIMIT_def)

lemma halved_big: "2 \<le> c \<Longrightarrow> halved c = max (c div 2) 2"
proof -
  assume "2 \<le> c"
  then have "max (c div 2) 2 \<le> c" by simp
  then show ?thesis by (simp add: halved_def MIN_LIMIT_def min_absorb1)
qed

lemma halved_eq: "1 \<le> c \<Longrightarrow> halved c = max (c div 2) (min 2 c)"
  by (cases "c = 1") (simp_all add: halved_small halved_big)

lemma halved_le: "halved c \<le> max c 1"
  by (cases "c \<le> 1") (simp_all add: halved_small halved_big)

lemma halved_pos: "1 \<le> halved c"
  by (simp add: halved_def)

text \<open>The limit after a rate limit, from the current one.\<close>

lemma halved_limit:
  assumes "c \<le> m"
  shows "max (min (halved c) m) 1 = halved (max c 1)"
proof (cases "c = 0")
  case True
  then show ?thesis by (simp add: halved_small)
next
  case False
  then have "halved c \<le> m" "max c 1 = c" using halved_le [of c] assms by simp_all
  then show ?thesis using halved_pos [of c] by (simp add: min_absorb1)
qed

lemma note_rate_limited_effective:
  "max_concurrency (note_rate_limited now d g) = max_concurrency g"
  "effective (note_rate_limited now d g) =
     (if case episode_until (g_aimd g) of Some u \<Rightarrow> u \<le> now | None \<Rightarrow> True
      then halved (min (effective g) (max_concurrency g)) else effective g)"
  by (simp_all add: note_rate_limited_def start_cooldown_def Let_def)

lemma note_rate_limited_limit:
  "limit (note_rate_limited now d g) =
     (if case episode_until (g_aimd g) of Some u \<Rightarrow> u \<le> now | None \<Rightarrow> True then halved (limit g) else limit g)"
  using halved_limit [of "min (effective g) (max_concurrency g)" "max_concurrency g"]
  by (simp add: limit_def note_rate_limited_effective del: max_min_same)

lemma note_rate_limited_same:
  "same_slots g (note_rate_limited now d g) \<and> limit (note_rate_limited now d g) \<le> limit g"
proof -
  have "1 \<le> limit g" by (simp add: limit_def)
  then have "limit (note_rate_limited now d g) \<le> limit g"
    using halved_le [of "limit g"] by (simp add: note_rate_limited_limit)
  then show ?thesis by (simp add: same_slots_def note_rate_limited_def start_cooldown_def Let_def)
qed

lemma note_failure_same:
  "same_slots g (note_failure now rl h d g) \<and> limit (note_failure now rl h d g) \<le> limit g"
  using start_cooldown_same note_rate_limited_same
  by (auto simp: note_failure_def Let_def same_slots_def)

lemma on_success_same:
  "on_success now g = (g', d) \<Longrightarrow> same_slots g g' \<and> (d \<or> limit g' = limit g)"
  by (auto simp: on_success_def same_slots_def limit_def Let_def split: if_splits)

lemma counts_frame [simp]:
  "counts_ok (s\<lparr>g_now := n\<rparr>) = counts_ok s" "counts_ok (s\<lparr>racers := r\<rparr>) = counts_ok s"
  by (simp_all add: counts_ok_def)

lemma taken_slot_ok:
  assumes "queue_ok g" "served_ok g"
  shows "queue_ok (take_slot g)" "served_ok (take_slot g)"
  using assms by (auto simp: queue_ok_def served_ok_def take_slot_def limit_def)

lemma room_frame [simp]:
  "queue_ok (release_room b g) = queue_ok g" "served_ok (release_room b g) = served_ok g"
  "queue_ok (grant g) = queue_ok g" "served_ok (grant g) = served_ok g"
  "g_active (release_room b g) = g_active g" "g_active (grant g) = g_active g"
  "granted (release_room b g) = granted g" "granted (grant g) = granted g"
  "live (release_room b g) = live g" "live (grant g) = live g"
  "g_waiters (release_room b g) = g_waiters g" "g_waiters (grant g) = g_waiters g"
  "queued_items (release_room b g) = queued_items g - 1" "queued_bytes (release_room b g) = queued_bytes g - b"
  "queued_items (grant g) = queued_items g" "queued_bytes (grant g) = queued_bytes g"
  by (simp_all add: release_room_def grant_def queue_ok_def served_ok_def limit_def)


subsection \<open>The steps keep it\<close>

lemma won_ok:
  assumes "gsys_ok s" "try_admit lim (gov s) = Some g"
  shows "gsys_ok (s\<lparr>racers := r, gov := grant g, permits := permits s + 1\<rparr>)"
proof -
  have g: "g = take_slot (gov s)" using assms(2) by (simp add: try_admit_def split: if_splits)
  have "queue_ok g" using assms(1) by (simp add: g gsys_ok_def queue_ok_def take_slot_def)
  moreover have "served_ok g" if "served_ok (gov s)"
    using that by (auto simp: g served_ok_def take_slot_def)
  ultimately show ?thesis
    using assms(1) by (auto simp: g gsys_ok_def take_slot_def)
qed

lemma reserve_queue_same:
  assumes "reserve_queue bytes g = (g', ok)"
  shows "queue_ok g' = queue_ok g" "served_ok g' = served_ok g" "g_active g' = g_active g"
    "granted g' = granted g" "live g' = live g" "g_waiters g' = g_waiters g"
    "queued_items g' = queued_items g + (if ok then 1 else 0)"
    "queued_bytes g' = queued_bytes g + (if ok then bytes else 0)"
proof -
  have "g' = (if ok
      then g\<lparr>high_water_queued := max (high_water_queued g) (queued_items g + 1),
             queued_admissions := queued_admissions g + 1,
             queued_items := queued_items g + 1, queued_bytes := queued_bytes g + bytes\<rparr>
      else g\<lparr>high_water_queued := max (high_water_queued g) (queued_items g + 1),
             queued_admissions := queued_admissions g + 1, refused := refused g + 1\<rparr>)"
    using assms by (auto simp: reserve_queue_def Let_def split: if_splits)
  then show "queue_ok g' = queue_ok g" "served_ok g' = served_ok g" "g_active g' = g_active g"
    "granted g' = granted g" "live g' = live g" "g_waiters g' = g_waiters g"
    "queued_items g' = queued_items g + (if ok then 1 else 0)"
    "queued_bytes g' = queued_bytes g + (if ok then bytes else 0)"
    by (simp_all add: queue_ok_def served_ok_def limit_def)
qed

lemma asked_ok:
  assumes "gsys_ok s" "reserve_queue bytes (gov s) = (g, ok)"
  shows "gsys_ok (s\<lparr>gov := g, reserved := (if ok then bytes # reserved s else reserved s)\<rparr>)"
  using assms(1) reserve_queue_same [OF assms(2)] by (simp add: gsys_ok_def)

lemma parked_ok:
  assumes ok: "gsys_ok s" and b: "bytes \<in> set (reserved s)"
    and e: "enqueue (next_chan s) (gov s) = (g, False)"
  shows "gsys_ok (s\<lparr>gov := g, reserved := remove1 bytes (reserved s),
      tickets := (next_chan s, bytes) # tickets s, next_chan := next_chan s + 1\<rparr>)"
proof -
  let ?w = "next_chan s" and ?g = "gov s"
  note o = ok [unfolded gsys_ok_def]
  have new: "?w \<notin> set (g_waiters ?g) \<union> granted ?g" using o by blast
  have "moves (?g\<lparr>g_waiters := g_waiters ?g @ [?w], live := insert ?w (live ?g)\<rparr>) g \<and> served_ok g"
    using enqueue_ok [OF _ e new] o by simp
  then have m: "queue_ok g" "g_active g + card (granted ?g) = g_active ?g + card (granted g)"
      "live g \<union> granted g = insert ?w (live ?g \<union> granted ?g)"
      "set (g_waiters g) \<union> granted g \<subseteq> insert ?w (set (g_waiters ?g) \<union> granted ?g)"
      "queued_items g = queued_items ?g" "queued_bytes g = queued_bytes ?g" "served_ok g"
    by (simp_all add: moves_def)
  have "set (g_waiters g) \<union> granted g \<subseteq> {..<?w + 1}" using m(4) o by force
  moreover have "?w \<notin> fst ` set (tickets s)" using o new by (auto simp: queue_ok_def)
  ultimately show ?thesis
    using m o remove1_facts [OF b] by (simp add: gsys_ok_def)
qed

lemma passed_ok:
  assumes ok: "gsys_ok s" and b: "bytes \<in> set (reserved s)"
    and e: "enqueue (next_chan s) (gov s) = (g, True)"
  shows "gsys_ok (s\<lparr>gov := release_room bytes (grant g), reserved := remove1 bytes (reserved s),
      permits := permits s + 1\<rparr>)"
proof -
  have q: "queue_ok (gov s)" and new: "next_chan s \<notin> set (g_waiters (gov s)) \<union> granted (gov s)"
    using ok by (auto simp: gsys_ok_def)
  have "moves (take_slot (gov s)) g \<and> served_ok g" using enqueue_ok [OF q e new] by simp
  then have m: "queue_ok g" "g_active g + card (granted (gov s)) = g_active (gov s) + 1 + card (granted g)"
      "live g \<union> granted g = live (gov s) \<union> granted (gov s)"
      "set (g_waiters g) \<union> granted g \<subseteq> set (g_waiters (gov s)) \<union> granted (gov s)"
      "queued_items g = queued_items (gov s)" "queued_bytes g = queued_bytes (gov s)" "served_ok g"
    by (simp_all add: moves_def take_slot_def)
  have "set (g_waiters g) \<union> granted g \<subseteq> {..<next_chan s}"
    using m(4) ok unfolding gsys_ok_def by blast
  then show ?thesis
    using m ok remove1_facts [OF b] by (simp add: gsys_ok_def)
qed

lemma gave_up_ok:
  assumes "gsys_ok s" "bytes \<in> set (reserved s)"
  shows "gsys_ok (s\<lparr>gov := release_room bytes (gov s), reserved := remove1 bytes (reserved s)\<rparr>)"
  using assms(1) remove1_facts [OF assms(2)] by (auto simp: gsys_ok_def)

lemma g_left_ok:
  assumes ok: "gsys_ok s" and t: "(w, bytes) \<in> set (tickets s)" and l: "w \<in> live (gov s)"
  shows "gsys_ok (drop_ticket w (s\<lparr>gov := release_room bytes ((gov s)\<lparr>live := live (gov s) - {w}\<rparr>)\<rparr>))"
proof -
  have d: "distinct (map fst (tickets s))" and "w \<notin> granted (gov s)"
    using ok l by (auto simp: gsys_ok_def queue_ok_def)
  moreover have "served_ok ((gov s)\<lparr>live := live (gov s) - {w}\<rparr>)" if "served_ok (gov s)"
    using that by (auto simp: served_ok_def)
  moreover have "queue_ok ((gov s)\<lparr>live := live (gov s) - {w}\<rparr>)" using ok by (auto simp: gsys_ok_def queue_ok_def)
  moreover have "live (gov s) \<union> granted (gov s) - {w} = (live (gov s) - {w}) \<union> granted (gov s)"
    using calculation(2) by auto
  ultimately show ?thesis
    using ok drop_ticket_facts [OF d t] by (auto simp: gsys_ok_def drop_ticket_def simp del: set_filter)
qed

lemma g_ended_ok:
  assumes ok: "gsys_ok s" and p: "0 < permits s"
  shows "gsys_ok (s\<lparr>gov := release (gov s), permits := permits s - 1\<rparr>)"
proof -
  have "queue_ok (gov s)" "0 < g_active (gov s)" using ok p by (auto simp: gsys_ok_def)
  from release_ok [OF this]
  have m: "queue_ok (release (gov s))" "served_ok (release (gov s))"
      "g_active (release (gov s)) + card (granted (gov s)) = g_active (gov s) - 1 + card (granted (release (gov s)))"
      "live (release (gov s)) \<union> granted (release (gov s)) = live (gov s) \<union> granted (gov s)"
      "set (g_waiters (release (gov s))) \<union> granted (release (gov s)) \<subseteq> set (g_waiters (gov s)) \<union> granted (gov s)"
      "queued_items (release (gov s)) = queued_items (gov s)" "queued_bytes (release (gov s)) = queued_bytes (gov s)"
    by (simp_all add: moves_def)
  have "set (g_waiters (release (gov s))) \<union> granted (release (gov s)) \<subseteq> {..<next_chan s}"
    using m(5) ok unfolding gsys_ok_def by blast
  then show ?thesis using m ok p by (simp add: gsys_ok_def)
qed

text \<open>A granted slot leaves its channel: to a permit, or back to the account.\<close>

lemma ungranted:
  assumes "gsys_ok s" "(w, bytes) \<in> set (tickets s)" "w \<in> granted (gov s)"
  shows "queue_ok ((gov s)\<lparr>granted := granted (gov s) - {w}\<rparr>)"
    and "card (granted (gov s)) = Suc (card (granted (gov s) - {w}))"
    and "fst ` set (filter (\<lambda>t. fst t \<noteq> w) (tickets s)) = live (gov s) \<union> (granted (gov s) - {w})"
proof -
  have f: "finite (granted (gov s))" "w \<notin> live (gov s)" and d: "distinct (map fst (tickets s))"
    using assms by (auto simp: gsys_ok_def queue_ok_def)
  show "queue_ok ((gov s)\<lparr>granted := granted (gov s) - {w}\<rparr>)"
    using assms(1) by (auto simp: gsys_ok_def queue_ok_def)
  show "card (granted (gov s)) = Suc (card (granted (gov s) - {w}))"
    using card.remove [OF f(1) assms(3)] by simp
  show "fst ` set (filter (\<lambda>t. fst t \<noteq> w) (tickets s)) = live (gov s) \<union> (granted (gov s) - {w})"
    using drop_ticket_facts(3) [OF d assms(2)] assms(1) f(2) by (auto simp: gsys_ok_def)
qed

lemma returned_ok:
  assumes ok: "gsys_ok s" and t: "(w, bytes) \<in> set (tickets s)" and g: "w \<in> granted (gov s)"
  shows "gsys_ok (drop_ticket w
      (s\<lparr>gov := release_room bytes (release ((gov s)\<lparr>granted := granted (gov s) - {w}\<rparr>))\<rparr>))"
proof -
  let ?g = "(gov s)\<lparr>granted := granted (gov s) - {w}\<rparr>"
  note u = ungranted [OF ok t g] and o = ok [unfolded gsys_ok_def]
  have d: "distinct (map fst (tickets s))" using o by simp
  define g' where "g' = release ?g"
  have "0 < g_active ?g" using o u(2) by simp
  then have "moves (?g\<lparr>g_active := g_active ?g - 1\<rparr>) g' \<and> served_ok g'"
    using release_ok [OF u(1)] by (simp add: g'_def)
  then have m: "queue_ok g'" "g_active g' + card (granted (gov s) - {w}) = g_active (gov s) - 1 + card (granted g')"
      "live g' \<union> granted g' = live (gov s) \<union> (granted (gov s) - {w})"
      "set (g_waiters g') \<union> granted g' \<subseteq> set (g_waiters (gov s)) \<union> (granted (gov s) - {w})"
      "queued_items g' = queued_items (gov s)" "queued_bytes g' = queued_bytes (gov s)" "served_ok g'"
    by (simp_all add: moves_def)
  have "set (g_waiters g') \<union> granted g' \<subseteq> {..<next_chan s}" using m(4) o by blast
  then show ?thesis
    using m o u(2,3) drop_ticket_facts [OF d t]
    by (simp add: gsys_ok_def drop_ticket_def g'_def [symmetric] del: set_filter)
qed

lemma taken_ok:
  assumes ok: "gsys_ok s" and t: "(w, bytes) \<in> set (tickets s)" and g: "w \<in> granted (gov s)"
  shows "gsys_ok (drop_ticket w
      (s\<lparr>gov := release_room bytes (grant ((gov s)\<lparr>granted := granted (gov s) - {w}\<rparr>)),
         permits := permits s + 1\<rparr>))"
proof -
  note u = ungranted [OF ok t g] and o = ok [unfolded gsys_ok_def]
  have d: "distinct (map fst (tickets s))" using o by simp
  have "served_ok ((gov s)\<lparr>granted := granted (gov s) - {w}\<rparr>) = served_ok (gov s)"
    by (simp add: served_ok_def)
  moreover have "set (g_waiters (gov s)) \<union> (granted (gov s) - {w}) \<subseteq> {..<next_chan s}" using o by blast
  ultimately show ?thesis
    using o u drop_ticket_facts [OF d t]
    by (simp add: gsys_ok_def drop_ticket_def del: set_filter)
qed

lemma drained_now_ok:
  assumes ok: "gsys_ok s"
  shows "gsys_ok (s\<lparr>gov := admit_waiters (gov s), drains := n\<rparr>)"
proof -
  have q: "queue_ok (gov s)" using ok by (simp add: gsys_ok_def)
  have "counts_ok (s\<lparr>gov := admit_waiters (gov s)\<rparr>)"
    using moved_counts [OF _ admit_waiters_ok(1) [OF q]] ok by (simp add: gsys_ok_iff)
  then show ?thesis using admit_waiters_ok(2) [OF q] by (simp add: gsys_ok_iff counts_ok_def)
qed

lemma failed_ok: "gsys_ok s \<Longrightarrow> gsys_ok (s\<lparr>gov := note_failure now rl h d (gov s)\<rparr>)"
  using note_failure_same [of "gov s" now rl h d] same_slots_counts [of s "note_failure now rl h d (gov s)" "drains s"]
    same_slots_served [of "gov s" "note_failure now rl h d (gov s)"]
  by (auto simp: gsys_ok_iff)

lemma succeeded_ok:
  "gsys_ok s \<Longrightarrow> on_success now (gov s) = (g, d) \<Longrightarrow>
     gsys_ok (s\<lparr>gov := g, drains := drains s + (if d then 1 else 0)\<rparr>)"
  using on_success_same [of now "gov s" g d] same_slots_counts [of s g] same_slots_served [of "gov s" g]
  by (auto simp: gsys_ok_iff)

lemma configured_ok: "gsys_ok s \<Longrightarrow> gsys_ok (s\<lparr>gov := set_limits l (gov s), drains := drains s + 1\<rparr>)"
  using same_slots_counts [of s "set_limits l (gov s)"]
  by (auto simp: gsys_ok_iff set_limits_def same_slots_def)

lemma frame_ok:
  "gsys_ok s \<Longrightarrow> gsys_ok (s\<lparr>g_now := n\<rparr>)" "gsys_ok s \<Longrightarrow> gsys_ok (s\<lparr>racers := r\<rparr>)"
  by (simp_all add: gsys_ok_def)

lemmas steps_ok = won_ok asked_ok parked_ok passed_ok gave_up_ok g_left_ok g_ended_ok returned_ok taken_ok
  drained_now_ok failed_ok succeeded_ok configured_ok frame_ok

lemma gstep_ok: "gstep s s' \<Longrightarrow> gsys_ok s \<Longrightarrow> gsys_ok s'"
  by (induction rule: gstep.induct) (simp_all only: steps_ok)

lemma gstart_ok: "gsys_ok (gstart l)"
  by (simp add: gsys_ok_def gstart_def new_governor_def queue_ok_def served_ok_def)

interpretation governors: state_machine "gstart l" gstep gsys_ok for l
  by unfold_locales (auto intro: gstart_ok gstep_ok)


section \<open>Properties\<close>

text \<open>C37: Slots and queue room are accounted for exactly.  However callers arrive, wait, cancel,
  finish and fail and however the limit moves, the number of active requests is the number
  of permits held plus the slots handed to a waiter that has not taken them yet; the queue
  counts every caller that waits, and its bytes are theirs.  Nothing leaks: when nobody
  holds or waits, all counters are zero.\<close>

theorem governor_accounts:
  assumes "gstep\<^sup>*\<^sup>* (gstart l) s"
  shows "g_active (gov s) = permits s + card (granted (gov s)) \<and>
         queued_items (gov s) = length (reserved s) + card (live (gov s) \<union> granted (gov s)) \<and>
         queued_bytes (gov s) = sum_list (reserved s) + sum_list (map snd (tickets s)) \<and>
         fst ` set (tickets s) = live (gov s) \<union> granted (gov s)"
proof -
  have ok: "gsys_ok s" by (rule governors.reachable_inv [OF assms])
  then have "length (tickets s) = card (live (gov s) \<union> granted (gov s))"
    using distinct_card [of "map fst (tickets s)"] by (simp add: gsys_ok_def)
  then show ?thesis using ok by (simp add: gsys_ok_def)
qed

text \<open>No waiter is stranded.  A caller that waits is in the queue, and as long as no change
  of the limit still has its drain to come, the account is full: at least one slot, and as
  many as the limit allows, are held or on their way to a waiter, so a release will come.\<close>

theorem no_waiter_stranded:
  assumes "gstep\<^sup>*\<^sup>* (gstart l) s" "w \<in> live (gov s)"
  shows "w \<in> set (g_waiters (gov s)) \<and>
         (0 < drains s \<or> 1 \<le> limit (gov s) \<and> limit (gov s) \<le> permits s + card (granted (gov s)))"
  using governors.reachable_inv [OF assms(1)] assms(2)
  by (auto simp: gsys_ok_def queue_ok_def served_ok_def limit_def)

lemma drain_step_active: "drain_step s = Some s' \<Longrightarrow> g_active s' \<le> max (g_active s) (limit s) \<and> limit s' = limit s"
proof -
  assume st: "drain_step s = Some s'"
  obtain g2 b where h: "hand_over (g_waiters s) (take_slot s) = (g2, b)" by fastforce
  have "g_active g2 = g_active s + 1 \<and> limit g2 = limit s"
    using h hand_over_True [of "g_waiters s" "take_slot s" g2] hand_over_False [of "g_waiters s" "take_slot s" g2]
    by (cases b) (auto simp: take_slot_def limit_def)
  moreover have "g_active s < limit s" "s' = (if b then g2 else g2\<lparr>g_active := g_active g2 - 1\<rparr>)"
    using st h by (auto simp: drain_step_def try_admit_def take_slot_def split: if_splits)
  ultimately show ?thesis by auto
qed

lemma admit_waiters_active: "g_active (admit_waiters g) \<le> max (g_active g) (limit g)"
proof -
  have "g_active (admit_waiters g) \<le> max (g_active g) (limit g) \<and> limit (admit_waiters g) = limit g"
    unfolding admit_waiters_def
    by (rule loop_invariant [where P = "\<lambda>s. g_active s \<le> max (g_active g) (limit g) \<and> limit s = limit g"])
      (auto dest!: drain_step_active)
  then show ?thesis by simp
qed

definition oldest :: "governor \<Rightarrow> nat" where
  "oldest g = hd (filter (\<lambda>w. w \<in> live g) (g_waiters g))"

lemma oldest_served:
  assumes "live g \<inter> set (take k (g_waiters g)) \<noteq> {}"
  shows "oldest g \<in> live g \<inter> set (take k (g_waiters g))"
proof -
  let ?f = "filter (\<lambda>w. w \<in> live g)"
  have ne: "?f (take k (g_waiters g)) \<noteq> []" using assms by (auto simp: filter_empty_conv)
  have "?f (g_waiters g) = ?f (take k (g_waiters g)) @ ?f (drop k (g_waiters g))"
    by (metis append_take_drop_id filter_append)
  then have "oldest g = hd (?f (take k (g_waiters g)))" using ne by (simp add: oldest_def)
  moreover have "hd (?f (take k (g_waiters g))) \<in> set (?f (take k (g_waiters g)))" using ne by (rule hd_in_set)
  ultimately show ?thesis by simp
qed

lemma release_hands_over:
  assumes "queue_ok g" "0 < g_active g" "limit g \<le> g_active g" "live g \<noteq> {}"
  shows "if g_active g = limit g
         then granted (release g) = insert (oldest g) (granted g) \<and> live (release g) = live g - {oldest g} \<and>
              g_active (release g) = g_active g
         else limit g < g_active g \<and> granted (release g) = granted g \<and> live (release g) = live g \<and>
              g_active (release g) = g_active g - 1"
proof -
  let ?h = "g\<lparr>g_active := g_active g - 1\<rparr>"
  note pos = assms(2) and full = assms(3)
  have rel: "release g = admit_waiters ?h" using pos by (simp add: release_def)
  have "distinct (g_waiters ?h)" using assms(1) by (simp add: queue_ok_def)
  then obtain k where k: "drained k ?h (release g)" "g_waiters (release g) = [] \<or> limit g \<le> g_active (release g)"
    using admit_waiters_drained [of ?h] rel by auto
  define S where "S = live g \<inter> set (take k (g_waiters g))"
  have f: "g_waiters (release g) = drop k (g_waiters g)" "live (release g) = live g - S"
      "granted (release g) = granted g \<union> S" "g_active (release g) = g_active g - 1 + card S"
    using drained_fields [OF k(1)] by (auto simp: S_def)
  have le: "g_active g - 1 + card S \<le> max (g_active g - 1) (limit g)"
    using admit_waiters_active [of ?h] rel f(4) by simp
  have fin: "finite S" by (simp add: S_def)
  show ?thesis
  proof (cases "g_active g = limit g")
    case True
    have "S \<noteq> {}"
    proof
      assume "S = {}"
      then have "g_waiters (release g) = []" using k(2) f(4) True pos by auto
      then have "take k (g_waiters g) = g_waiters g" using f(1) by simp
      then have "S = live g" using assms(1) by (auto simp: S_def queue_ok_def)
      then show False using \<open>S = {}\<close> assms(4) by simp
    qed
    moreover have "card S \<le> 1" using le True pos by simp
    ultimately have "S = {oldest g}" and "card S = 1"
      using oldest_served [of g k] fin by (auto simp: S_def [symmetric] card_le_Suc0_iff_eq le_antisym card_gt_0_iff Suc_le_eq)
    then show ?thesis using True f pos by simp
  next
    case False
    then have "card S = 0" using le full pos by simp
    then show ?thesis using False full f fin by simp
  qed
qed

text \<open>A slot that comes free goes straight to the oldest waiter.  When a request ends while
  callers wait and the account is at its limit, exactly the oldest of them that has not
  cancelled is handed the slot, and the number of active requests stays; after the limit
  has shrunk, the slot is not handed on until the account is below it again.\<close>

theorem free_slot_to_the_oldest:
  assumes "gstep\<^sup>*\<^sup>* (gstart l) s" "0 < permits s" "drains s = 0" "live (gov s) \<noteq> {}"
  shows "if g_active (gov s) = limit (gov s)
         then granted (release (gov s)) = insert (oldest (gov s)) (granted (gov s)) \<and>
              live (release (gov s)) = live (gov s) - {oldest (gov s)} \<and>
              g_active (release (gov s)) = g_active (gov s)
         else limit (gov s) < g_active (gov s) \<and> granted (release (gov s)) = granted (gov s) \<and>
              live (release (gov s)) = live (gov s) \<and> g_active (release (gov s)) = g_active (gov s) - 1"
  using release_hands_over [of "gov s"] governors.reachable_inv [OF assms(1)] assms(2-4)
  by (simp add: gsys_ok_def queue_ok_def served_ok_def)

lemma limit_bounds: "1 \<le> limit g" "limit g \<le> max 1 (max_concurrency g)"
  by (simp_all add: limit_def)

lemma limit_cong: "effective g = effective h \<Longrightarrow> max_concurrency g = max_concurrency h \<Longrightarrow> limit g = limit h"
  by (simp add: limit_def)

lemma on_success_limit: "limit (fst (on_success t g)) \<le> min (limit g + 1) (max 1 (max_concurrency g))"
proof -
  have "effective (fst (on_success t g)) \<le> effective g + 1" "max_concurrency (fst (on_success t g)) = max_concurrency g"
    by (simp_all add: on_success_def Let_def)
  then have "min (effective (fst (on_success t g))) (max_concurrency g) \<le> min (effective g) (max_concurrency g) + 1"
    by linarith
  then have "min (effective (fst (on_success t g))) (max_concurrency g)
      \<le> max (min (effective g) (max_concurrency g)) 1 + 1"
    by (meson add_le_mono1 le_trans max.cobounded1)
  moreover have "min (effective (fst (on_success t g))) (max_concurrency g) \<le> max 1 (max_concurrency g)"
    by (meson le_trans max.cobounded2 min.cobounded2)
  ultimately show ?thesis
    using \<open>max_concurrency (fst (on_success t g)) = max_concurrency g\<close> unfolding limit_def by simp
qed

text \<open>The limit is halved once per episode and grows back by one.  It always lies between one
  and the ceiling.  A rate limit outside an episode halves it, but not below two; until the
  episode is over, neither further rate limits nor successes move it; and a success moves
  it by at most one, never past the ceiling.\<close>

theorem limit_adapts:
  assumes fresh: "case episode_until (g_aimd g) of Some u \<Rightarrow> u \<le> now | None \<Rightarrow> True"
    and soon: "now \<le> later" "later < now + MIN_EPISODE"
  shows "1 \<le> limit g \<and> limit g \<le> max 1 (max_concurrency g) \<and>
         limit (note_rate_limited now d g) = max (limit g div 2) (min 2 (limit g)) \<and>
         limit (note_rate_limited later d' (note_rate_limited now d g)) = limit (note_rate_limited now d g) \<and>
         fst (on_success later (note_rate_limited now d g)) = note_rate_limited now d g \<and>
         limit (fst (on_success t g)) \<le> min (limit g + 1) (max 1 (max_concurrency g))"
proof -
  let ?r = "note_rate_limited now d g"
  have epi: "\<exists>u. episode_until (g_aimd ?r) = Some u \<and> later < u"
    using soon by (auto simp: note_rate_limited_def start_cooldown_def Let_def MIN_EPISODE_def MAX_EPISODE_def
        split: option.splits)
  have "limit ?r = max (limit g div 2) (min 2 (limit g))"
    using fresh halved_eq [OF limit_bounds(1)] by (simp add: note_rate_limited_limit)
  moreover have "effective (note_rate_limited later d' ?r) = effective ?r"
      "max_concurrency (note_rate_limited later d' ?r) = max_concurrency ?r"
    using epi by (auto simp: note_rate_limited_effective)
  moreover have "fst (on_success later ?r) = ?r" using epi by (auto simp: on_success_def)
  ultimately show ?thesis
    using on_success_limit [of t g] limit_bounds [of g] limit_cong [of "note_rate_limited later d' ?r" ?r] by simp
qed


text \<open>A run in which one request is active, one caller waits and the first request ends.\<close>

definition one_slot :: provider_limits where
  "one_slot = \<lparr>pl_concurrency = 1, pl_queue_items = 4, pl_queue_bytes = 100\<rparr>"

definition waiting_run :: gsys where
  "waiting_run =
     (gstart one_slot)\<lparr>permits := 1, tickets := [(0, 7)], next_chan := 1,
        gov := (new_governor one_slot)\<lparr>g_active := 1, high_water_active := 1, admitted := 1,
          high_water_queued := 1, queued_admissions := 1, queued_items := 1, queued_bytes := 7,
          g_waiters := [0], live := {0}\<rparr>\<rparr>"

lemma waiting_run_reached: "gstep\<^sup>*\<^sup>* (gstart one_slot) waiting_run"
proof -
  let ?g1 = "grant (take_slot (new_governor one_slot))"
  let ?s1 = "(gstart one_slot)\<lparr>racers := [1]\<rparr>"
  let ?s2 = "?s1\<lparr>racers := [], gov := ?g1, permits := 1\<rparr>"
  let ?g3 = "fst (reserve_queue 7 ?g1)"
  let ?s3 = "?s2\<lparr>gov := ?g3, reserved := [7]\<rparr>"
  have "gstep (gstart one_slot) ?s1"
    using gstep.looked [of "gstart one_slot"]
    by (simp add: gstart_def new_governor_def cooldown_remaining_def limit_def one_slot_def)
  moreover have "gstep ?s1 ?s2"
    using gstep.won [of 1 ?s1 "take_slot (new_governor one_slot)"]
    by (simp add: try_admit_def gstart_def new_governor_def)
  moreover have "gstep ?s2 ?s3"
    using gstep.asked [of 7 ?s2 ?g3 True]
    by (simp add: reserve_queue_def Let_def grant_def take_slot_def gstart_def new_governor_def one_slot_def)
  moreover have "gstep ?s3 waiting_run"
    using gstep.parked [of 7 ?s3 "?g3\<lparr>g_waiters := [0], live := {0}\<rparr>"]
    by (simp add: waiting_run_def reserve_queue_def Let_def grant_def take_slot_def gstart_def new_governor_def
        one_slot_def cooldown_remaining_def enqueue_def prune_def admit_waiters_def drain_step_def try_admit_def
        limit_def)
  ultimately show ?thesis by (meson rtranclp.rtrancl_into_rtrancl rtranclp.rtrancl_refl)
qed

theorem governor_accounts_witness: "queued_bytes (gov waiting_run) = sum_list [] + sum_list (map snd [(0 :: nat, 7)])"
  using governor_accounts [OF waiting_run_reached] by (simp add: waiting_run_def gstart_def)

theorem no_waiter_stranded_witness:
  "(0 :: nat) \<in> set (g_waiters (gov waiting_run)) \<and> limit (gov waiting_run) \<le> 1"
  using no_waiter_stranded [OF waiting_run_reached, of 0]
  by (simp add: waiting_run_def gstart_def new_governor_def)

theorem free_slot_to_the_oldest_witness: "granted (release (gov waiting_run)) = {0}"
proof -
  have "g_active (gov waiting_run) = limit (gov waiting_run)" "oldest (gov waiting_run) = 0"
    by (simp_all add: waiting_run_def gstart_def new_governor_def limit_def oldest_def one_slot_def)
  then show ?thesis
    using free_slot_to_the_oldest [OF waiting_run_reached] by (simp add: waiting_run_def gstart_def new_governor_def)
qed

theorem limit_adapts_witness:
  "limit (note_rate_limited 5 1 ((new_governor one_slot)\<lparr>max_concurrency := 8, effective := 8\<rparr>)) = 4"
  using limit_adapts [where g = "(new_governor one_slot)\<lparr>max_concurrency := 8, effective := 8\<rparr>" and now = 5
      and later = 5 and d = 1 and d' = 1 and t = 0]
  by (simp add: new_governor_def MIN_EPISODE_def limit_def)

end
