(* ===== verification/Requests.thy ===== *)
theory Requests
  imports Event_Stream Governor
begin

text \<open>
  \<^verbatim>\<open>crates/pacode-provider/src/retry.rs\<close> and \<^verbatim>\<open>post.rs\<close>: one request to a provider, from the slot
  of the governor to the last event its reader gets.

  A request is in one \<open>phase\<close> at a time: waiting for a slot, waiting for the headers of its
  POST, streaming, or sleeping before the next attempt.  The two loops of the sources,
  \<^verbatim>\<open>post_with_retries\<close> and the unfolding of \<^verbatim>\<open>retrying_transport_stream\<close>, share one budget; an
  error of the inner loop is handed to the outer one once a stream has been open.  The step
  relation \<open>tstep\<close> has one step per suspension, labelled with the calls the request makes to
  its governor.  The answers of the server and the random jitter are what a step is given.
  Many requests on one governor are the relation \<open>cstep\<close>.  Durations are nanoseconds.
\<close>

section \<open>Delays\<close>

definition MAX_BACKOFF_STEPS :: nat where
  "MAX_BACKOFF_STEPS = 5"

definition MAX_BACKOFF_FACTOR :: nat where
  "MAX_BACKOFF_FACTOR = 30"

text \<open>The longest duration: all seconds of a \<^verbatim>\<open>u64\<close> and the nanoseconds below one more.\<close>

definition DURATION_MAX :: nat where
  "DURATION_MAX = U64_MAX * NANOS + (NANOS - 1)"

definition backoff_cap :: "nat \<Rightarrow> nat \<Rightarrow> nat" where
  "backoff_cap attempt base =
     min (min (base * 2 ^ min attempt MAX_BACKOFF_STEPS) DURATION_MAX)
         (min (base * MAX_BACKOFF_FACTOR) DURATION_MAX)"

text \<open>The range the offset is drawn from.\<close>

definition max_jitter :: "nat \<Rightarrow> nat \<Rightarrow> nat" where
  "max_jitter attempt base = min (backoff_cap attempt base div 5) U64_MAX"

type_synonym jitter = "nat \<times> bool"

definition backoff_delay :: "nat \<Rightarrow> nat \<Rightarrow> jitter \<Rightarrow> nat" where
  "backoff_delay attempt base j =
     (let capped = backoff_cap attempt base
      in if capped div 5 = 0 then capped
         else if snd j then min (capped + fst j) DURATION_MAX else capped - fst j)"

definition retry_delay :: "nat \<Rightarrow> nat \<Rightarrow> nat option \<Rightarrow> jitter \<Rightarrow> nat" where
  "retry_delay base attempt retry_after j =
     (let fallback = backoff_delay attempt base j
      in case retry_after of Some d \<Rightarrow> max d fallback | None \<Rightarrow> fallback)"

text \<open>\<^verbatim>\<open>delay_from_headers\<close>: the text of \<^verbatim>\<open>Retry-After\<close> and the durations that the reset headers
  stand for.\<close>

definition delay_from_headers :: "nat \<Rightarrow> string option \<Rightarrow> nat list \<Rightarrow> nat option" where
  "delay_from_headers now header resets =
     (case Option.bind header (\<lambda>v. parse_retry_after v now) of
        Some d \<Rightarrow> Some d
      | None \<Rightarrow>
          (case resets of
             [] \<Rightarrow> None
           | d # ds \<Rightarrow>
               (let m = foldl max d ds in if m = 0 then None else Some (min m MAX_RETRY_AFTER))))"

record retry_budget =
  remaining :: nat
  used :: nat

definition new_budget :: "nat \<Rightarrow> retry_budget" where
  "new_budget max_retries = \<lparr>remaining = max_retries, used = 0\<rparr>"

definition reserve :: "retry_budget \<Rightarrow> retry_budget option" where
  "reserve b =
     (if remaining b = 0 then None
      else Some (b\<lparr>remaining := remaining b - 1, used := min (used b + 1) (2 ^ 32 - 1)\<rparr>))"

section \<open>One POST\<close>

datatype effort = LowEffort | MediumEffort | HighEffort | XHighEffort | MaxEffort

fun idle_timeout_factor :: "effort \<Rightarrow> nat" where
  "idle_timeout_factor LowEffort = 1"
| "idle_timeout_factor MediumEffort = 1"
| "idle_timeout_factor HighEffort = 2"
| "idle_timeout_factor XHighEffort = 3"
| "idle_timeout_factor MaxEffort = 4"

record opener =
  op_model :: string
  op_key :: "string option"
  op_headers :: "(string \<times> string) list"
  stream_idle_secs :: nat
  op_effort :: effort
  backoff_base :: nat

definition wait_secs :: "opener \<Rightarrow> nat" where
  "wait_secs op = sat_mul (stream_idle_secs op) (idle_timeout_factor (op_effort op))"

text \<open>The headers of a request, in the order they are set.\<close>

definition request_headers :: "opener \<Rightarrow> (string \<times> string) list" where
  "request_headers op =
     (if list_ex (\<lambda>(name, _). to_ascii_lowercase name = ''content-type'') (op_headers op) then []
      else [(''Content-Type'', ''application/json'')]) @
     (case op_key op of
        Some key \<Rightarrow> if key = [] then [] else [(''Authorization'', ''Bearer '' @ key)]
      | None \<Rightarrow> []) @
     op_headers op"

definition MAX_ERROR_BODY_BYTES :: nat where
  "MAX_ERROR_BODY_BYTES = 64 * 1024"

text \<open>What comes back: no headers in time, a failure to send, or a response with its status,
  its pacing headers and its body.\<close>

datatype answer =
    NoHeaders
  | SendError string
  | Response nat "string option" "nat list" "net_item list"

fun body_chunks :: "net_item list \<Rightarrow> string list" where
  "body_chunks (NetBytes b # rest) = b # body_chunks rest"
| "body_chunks _ = []"

type_synonym open_failure = "provider_error \<times> nat option"

fun post_once :: "wire_env \<Rightarrow> opener \<Rightarrow> answer \<Rightarrow> open_failure + net_item list" where
  "post_once env op NoHeaders = Inl (IdleTimeout (wait_secs op), None)"
| "post_once env op (SendError message) = Inl (TransportError message, None)"
| "post_once env op (Response status header resets body) =
     (if 200 \<le> status \<and> status < 300 then Inr body
      else Inl (classify_http_error (env_json env) status
                  (read_response_body_with_limits (body_chunks body) MAX_ERROR_BODY_BYTES),
                delay_from_headers (env_now env) header resets))"

section \<open>The request\<close>

text \<open>What a request asks of its governor: it took a slot, reports a failure (whether it
  carried a hint, and the delay), reports a success, or gave the slot back.\<close>

datatype gov_call = Took | Noted provider_error bool nat | Credited | Freed

record held =
  h_session :: stream_session
  h_permit :: bool
  h_credited :: bool

definition hold_permit :: "stream_session \<Rightarrow> held" where
  "hold_permit inner = \<lparr>h_session = inner, h_permit = True, h_credited = False\<rparr>"

fun is_over :: "poll_result \<Rightarrow> bool" where
  "is_over Finished = True"
| "is_over (Yielded (Inl _)) = True"
| "is_over (Yielded (Inr (MessageEnd _))) = True"
| "is_over _ = False"

fun is_event :: "poll_result \<Rightarrow> bool" where
  "is_event (Yielded (Inr _)) = True"
| "is_event _ = False"

definition held_poll :: "wire_env \<Rightarrow> held \<Rightarrow> held \<times> gov_call list \<times> poll_result" where
  "held_poll env h =
     (case poll env (se_stream (h_session h)) (se_net (h_session h)) of
        (st, net, r) \<Rightarrow>
          (let credit = (\<not> h_credited h \<and> is_event r \<and> h_permit h);
               free = (h_permit h \<and> is_over r)
           in (\<lparr>h_session = \<lparr>se_stream = st, se_net = net, se_outs = se_outs (h_session h) @ yielded r\<rparr>,
                h_permit = (h_permit h \<and> \<not> is_over r), h_credited = (h_credited h \<or> credit)\<rparr>,
               (if credit then [Credited] else []) @ (if free then [Freed] else []), r)))"

datatype phase = Opening | Posting | Streaming held | Backoff nat | Closed | Dropped

record transport =
  tr_phase :: phase
  tr_reopen :: bool
  tr_budget :: retry_budget
  tr_committed :: bool
  tr_body :: string
  tr_outs :: "(provider_error + stream_event) list"
  tr_posts :: "string list"

definition new_transport :: "string \<Rightarrow> nat \<Rightarrow> transport" where
  "new_transport body max_retries =
     \<lparr>tr_phase = Opening, tr_reopen = False, tr_budget = new_budget max_retries, tr_committed = False,
      tr_body = body, tr_outs = [], tr_posts = []\<rparr>"

fun is_committing :: "stream_event \<Rightarrow> bool" where
  "is_committing (MessageStart _) = False"
| "is_committing _ = True"

definition give_up :: "provider_error \<Rightarrow> transport \<Rightarrow> transport" where
  "give_up e s = s\<lparr>tr_phase := Closed, tr_outs := tr_outs s @ [Inl e]\<rparr>"

definition retry_or_give_up :: "bool \<Rightarrow> nat \<Rightarrow> provider_error \<Rightarrow> transport \<Rightarrow> transport option" where
  "retry_or_give_up allowed delay e s =
     (if allowed \<and> is_retryable e
      then case reserve (tr_budget s) of
             Some b \<Rightarrow> Some (s\<lparr>tr_phase := Backoff delay, tr_budget := b\<rparr>)
           | None \<Rightarrow> None
      else None)"

text \<open>\<^verbatim>\<open>open_once\<close> failed: in \<^verbatim>\<open>StreamOpener::open\<close> that is the answer, on a reopen the loop of
  the stream decides.\<close>

definition open_failed :: "opener \<Rightarrow> jitter \<Rightarrow> provider_error \<Rightarrow> transport \<Rightarrow> transport" where
  "open_failed op j e s =
     (case retry_or_give_up (tr_reopen s \<and> \<not> tr_committed s)
             (retry_delay (backoff_base op) (used (tr_budget s)) None j) e s of
        Some s' \<Rightarrow> s' | None \<Rightarrow> give_up e s)"

text \<open>\<^verbatim>\<open>post_once\<close> failed: the failure is noted before the slot goes back.\<close>

definition post_failed ::
  "opener \<Rightarrow> jitter \<Rightarrow> jitter \<Rightarrow> open_failure \<Rightarrow> transport \<Rightarrow> transport \<times> gov_call list" where
  "post_failed op j j' f s =
     (let delay = retry_delay (backoff_base op) (used (tr_budget s)) (snd f) j
      in (case retry_or_give_up True delay (fst f) s of
            Some s' \<Rightarrow> s' | None \<Rightarrow> open_failed op j' (fst f) s,
          [Noted (fst f) (snd f \<noteq> None) delay, Freed]))"

text \<open>The stream yielded, failed, ended or has nothing yet.\<close>

definition stream_failed :: "opener \<Rightarrow> jitter \<Rightarrow> provider_error \<Rightarrow> held \<Rightarrow> transport \<Rightarrow> transport \<times> gov_call list" where
  "stream_failed op j e h s =
     (let hint = snd (signal_take (retry_cell (se_stream (h_session h))));
          delay = retry_delay (backoff_base op) (used (tr_budget s)) hint j
      in (case retry_or_give_up (\<not> tr_committed s) delay e s of
            Some s' \<Rightarrow> s' | None \<Rightarrow> give_up e s,
          [Noted e (hint \<noteq> None) delay]))"

fun on_polled :: "opener \<Rightarrow> jitter \<Rightarrow> held \<Rightarrow> poll_result \<Rightarrow> transport \<Rightarrow> transport \<times> gov_call list" where
  "on_polled op j h (Yielded (Inr e)) s =
     (s\<lparr>tr_phase := Streaming h, tr_outs := tr_outs s @ [Inr e],
        tr_committed := tr_committed s \<or> is_committing e,
        tr_body := if \<not> tr_committed s \<and> is_committing e then [] else tr_body s\<rparr>, [])"
| "on_polled op j h (Yielded (Inl e)) s = stream_failed op j e h s"
| "on_polled op j h Finished s = (s\<lparr>tr_phase := Closed\<rparr>, [])"
| "on_polled op j h Waiting s = (s\<lparr>tr_phase := Streaming h\<rparr>, [])"

definition holds_slot :: "transport \<Rightarrow> bool" where
  "holds_slot s \<longleftrightarrow> (case tr_phase s of Posting \<Rightarrow> True | Streaming h \<Rightarrow> h_permit h | _ \<Rightarrow> False)"

definition drawn :: "opener \<Rightarrow> transport \<Rightarrow> jitter \<Rightarrow> bool" where
  "drawn op s j \<longleftrightarrow> fst j \<le> max_jitter (used (tr_budget s)) (backoff_base op)"

text \<open>One step of a request: the queue of the governor is full, a slot is taken and the POST
  sent, it is answered or fails, a delay is over, the reader polls, or the reader drops the
  request wherever it is.\<close>

inductive tstep :: "wire_env \<Rightarrow> opener \<Rightarrow> transport \<Rightarrow> gov_call list \<Rightarrow> transport \<Rightarrow> bool" for env op where
  queue_full: "tr_phase s = Opening \<Longrightarrow> drawn op s j \<Longrightarrow>
    tstep env op s [] (open_failed op j (RateLimited message) s)"
| admitted_to_post: "tr_phase s = Opening \<Longrightarrow>
    tstep env op s [Took] (s\<lparr>tr_phase := Posting, tr_posts := tr_posts s @ [tr_body s]\<rparr>)"
| answered: "tr_phase s = Posting \<Longrightarrow> post_once env op a = Inr body \<Longrightarrow>
    tstep env op s [] (s\<lparr>tr_reopen := True,
      tr_phase := Streaming (hold_permit (opened (op_model op) (wait_secs op) MAX_SSE_RESPONSE_BYTES body))\<rparr>)"
| post_failed: "tr_phase s = Posting \<Longrightarrow> (a = NoHeaders \<longrightarrow> 0 < stream_idle_secs op) \<Longrightarrow>
    post_once env op a = Inl f \<Longrightarrow> drawn op s j \<Longrightarrow> drawn op s j' \<Longrightarrow>
    post_failed op j j' f s = (s', calls) \<Longrightarrow> tstep env op s calls s'"
| slept: "tr_phase s = Backoff d \<Longrightarrow> tstep env op s [] (s\<lparr>tr_phase := Opening\<rparr>)"
| polled_once: "tr_phase s = Streaming h \<Longrightarrow> held_poll env h = (h', calls, r) \<Longrightarrow> drawn op s j \<Longrightarrow>
    on_polled op j h' r s = (s', calls') \<Longrightarrow> tstep env op s (calls @ calls') s'"
| dropped: "tr_phase s \<notin> {Closed, Dropped} \<Longrightarrow>
    tstep env op s (if holds_slot s then [Freed] else []) (s\<lparr>tr_phase := Dropped\<rparr>)"

definition tmove :: "wire_env \<Rightarrow> opener \<Rightarrow> transport \<Rightarrow> transport \<Rightarrow> bool" where
  "tmove env op s s' \<longleftrightarrow> (\<exists>calls. tstep env op s calls s')"

inductive_cases tstepE: "tstep env op s calls s'"

section \<open>Delays are bounded\<close>

lemma max_jitter_le: "5 * max_jitter attempt base \<le> backoff_cap attempt base"
  by (simp add: max_jitter_def)

lemma backoff_cap_le: "backoff_cap attempt base \<le> 30 * base"
  by (simp add: backoff_cap_def MAX_BACKOFF_FACTOR_def min.coboundedI2)

lemma backoff_delay_le:
  assumes "fst j \<le> max_jitter attempt base"
  shows "backoff_delay attempt base j \<le> 36 * base"
proof -
  have "backoff_delay attempt base j \<le> backoff_cap attempt base + fst j"
    by (simp add: backoff_delay_def Let_def trans_le_add1)
  then show ?thesis using assms max_jitter_le [of attempt base] backoff_cap_le [of attempt base] by linarith
qed

lemma backoff_delay_ge:
  assumes "fst j \<le> max_jitter attempt base"
  shows "4 * backoff_cap attempt base \<le> 5 * backoff_delay attempt base j"
proof -
  have "backoff_cap attempt base \<le> DURATION_MAX" by (simp add: backoff_cap_def)
  then have "backoff_cap attempt base - fst j \<le> backoff_delay attempt base j"
    by (auto simp: backoff_delay_def Let_def)
  then show ?thesis using assms max_jitter_le [of attempt base] by linarith
qed

lemma retry_delay_le:
  assumes "fst j \<le> max_jitter attempt base" "\<And>d. hint = Some d \<Longrightarrow> d \<le> MAX_RETRY_AFTER"
  shows "retry_delay base attempt hint j \<le> max MAX_RETRY_AFTER (36 * base)"
  using backoff_delay_le [OF assms(1)] assms(2)
  by (cases hint) (auto simp: retry_delay_def Let_def intro: max.coboundedI1 max.coboundedI2)

lemma header_hint_le: "delay_from_headers now header resets = Some d \<Longrightarrow> d \<le> MAX_RETRY_AFTER"
  by (auto simp: delay_from_headers_def Let_def split: option.splits list.splits if_splits
      dest: parse_retry_after_le split: bind_splits)

lemma post_hint_le: "post_once env op a = Inl f \<Longrightarrow> snd f = Some d \<Longrightarrow> d \<le> MAX_RETRY_AFTER"
  by (cases a) (auto split: if_splits dest: header_hint_le)


subsection \<open>The hint of a stream\<close>

definition cell_ok :: "nat \<Rightarrow> bool" where
  "cell_ok cell \<longleftrightarrow> cell \<le> MAX_RETRY_AFTER div 1000000 + 1"

lemma signal_set_cell: "cell_ok cell \<Longrightarrow> cell_ok (signal_set cell delay)"
proof -
  have "min delay MAX_RETRY_AFTER div 1000000 \<le> MAX_RETRY_AFTER div 1000000" by (intro div_le_mono) simp
  then have "min (min delay MAX_RETRY_AFTER div 1000000) (U64_MAX - 1) \<le> MAX_RETRY_AFTER div 1000000"
    by (rule min.coboundedI1)
  then show "cell_ok cell \<Longrightarrow> cell_ok (signal_set cell delay)" by (simp add: cell_ok_def signal_set_def)
qed

lemma stream_error_cell: "stream_error f now err p cell = (err', cell') \<Longrightarrow> cell_ok cell \<Longrightarrow> cell_ok cell'"
  by (auto simp: stream_error_def split: provider_error.splits option.splits if_splits intro: signal_set_cell)

lemma foldl_push_event_cell [simp]: "retry_cell (foldl push_event st evs) = retry_cell st"
  by (induction evs arbitrary: st) (simp_all add: push_event_def Let_def)

lemma synthesize_end_cell [simp]: "retry_cell (synthesize_end st) = retry_cell st"
  by (simp add: synthesize_end_def)

lemma stream_payloads_cell: "cell_ok (retry_cell st) \<Longrightarrow> cell_ok (retry_cell (stream_payloads env st ps))"
proof (induction env st ps rule: stream_payloads.induct)
  case (2 env st p ps)
  obtain cs model r where
    "payload_to_events (env_chunk env) (env_json env) (env_text env) (env_gen env) p (ss_chunks st) (ss_model st)
       = (cs, model, r)"
    by (metis prod_cases3)
  then show ?case
    using 2 stream_error_cell by (cases r) (auto simp: Let_def split: prod.splits)
qed simp

lemma on_item_cell: "on_item env st i = (st', r) \<Longrightarrow> cell_ok (retry_cell st) \<Longrightarrow> cell_ok (retry_cell st')"
  by (cases i) (auto simp: on_bytes_def Let_def intro: stream_payloads_cell split: sum.splits prod.splits)

lemma ready_cell: "ready st = Some (st', r) \<Longrightarrow> retry_cell st' = retry_cell st"
  by (auto simp: ready_def split: list.splits option.splits if_splits)

lemma poll_cell: "poll env st net = (st', net', r) \<Longrightarrow> cell_ok (retry_cell st) \<Longrightarrow> cell_ok (retry_cell st')"
proof (induction env st net arbitrary: st' net' r rule: poll.induct)
  case (1 env st)
  then show ?case by (auto dest: ready_cell split: option.splits)
next
  case (2 env st i rest)
  obtain st1 r1 where "on_item env st i = (st1, r1)" by fastforce
  then show ?case
    using 2 on_item_cell by (cases "ready st"; cases r1) (auto dest: ready_cell)
qed

definition cell_bounded :: "stream_session \<Rightarrow> bool" where
  "cell_bounded s \<longleftrightarrow> cell_ok (retry_cell (se_stream s))"

interpretation hints: state_machine "opened m t lim items" "sstep env" cell_bounded for m t lim items env
proof
  show "cell_bounded (opened m t lim items)"
    by (simp add: cell_bounded_def opened_def new_stream_def cell_ok_def)
  show "cell_bounded s \<Longrightarrow> sstep env s s' \<Longrightarrow> cell_bounded s'" for s s'
    by (auto simp: cell_bounded_def elim!: sstep.cases intro: poll_cell)
qed

lemma signal_hint_le: "cell_ok cell \<Longrightarrow> snd (signal_take cell) = Some d \<Longrightarrow> d \<le> MAX_RETRY_AFTER"
  by (auto simp: signal_take_def cell_ok_def MAX_RETRY_AFTER_def NANOS_def split: if_splits)


section \<open>The invariant of a request\<close>

text \<open>What the reader has got: starts of failed attempts, the events of one response, and
  what comes after them.\<close>

definition delivers ::
  "wire_env \<Rightarrow> opener \<Rightarrow> transport \<Rightarrow> stream_session \<Rightarrow> stream_event list \<Rightarrow>
   (provider_error + stream_event) list \<Rightarrow> bool" where
  "delivers env op s sess evs rest \<longleftrightarrow>
     (\<exists>starts body. list_all is_start starts \<and>
        (sstep env)\<^sup>*\<^sup>* (opened (op_model op) (wait_secs op) MAX_SSE_RESPONSE_BYTES body) sess \<and>
        se_outs sess = map Inr evs \<and> tr_outs s = map Inr (starts @ evs) @ rest)"

definition delivery_ok :: "wire_env \<Rightarrow> opener \<Rightarrow> transport \<Rightarrow> bool" where
  "delivery_ok env op s \<longleftrightarrow>
     (case tr_phase s of
        Streaming h \<Rightarrow>
          (\<exists>evs. delivers env op s (h_session h) evs [] \<and>
             (tr_committed s \<longleftrightarrow> \<not> list_all is_start evs) \<and> (h_permit h \<longleftrightarrow> \<not> list_ex is_end evs))
      | Closed \<Rightarrow>
          (\<exists>sess evs rest. delivers env op s sess evs rest \<and>
             (rest = [] \<and> list_ex is_end evs \<or> (\<exists>e. rest = [Inl e])))
      | Dropped \<Rightarrow> (\<exists>sess evs. delivers env op s sess evs [])
      | _ \<Rightarrow> \<not> tr_committed s \<and> (\<exists>sess. delivers env op s sess [] []))"

text \<open>The budget, the requests sent and the delays.\<close>

definition between_posts :: "transport \<Rightarrow> bool" where
  "between_posts s \<longleftrightarrow> (case tr_phase s of Opening \<Rightarrow> True | Backoff _ \<Rightarrow> True | _ \<Rightarrow> False)"

definition retries_ok :: "opener \<Rightarrow> string \<Rightarrow> nat \<Rightarrow> transport \<Rightarrow> bool" where
  "retries_ok op body n s \<longleftrightarrow>
     used (tr_budget s) + remaining (tr_budget s) = n \<and>
     length (tr_posts s) \<le> used (tr_budget s) + (if between_posts s then 0 else 1) \<and>
     set (tr_posts s) \<subseteq> {body} \<and> (\<not> tr_committed s \<longrightarrow> tr_body s = body) \<and>
     (\<forall>d. tr_phase s = Backoff d \<longrightarrow> d \<le> max MAX_RETRY_AFTER (36 * backoff_base op))"

definition transport_ok :: "wire_env \<Rightarrow> opener \<Rightarrow> string \<Rightarrow> nat \<Rightarrow> transport \<Rightarrow> bool" where
  "transport_ok env op body n s \<longleftrightarrow> delivery_ok env op s \<and> retries_ok op body n s"

lemma reserve_Some:
  assumes "reserve b = Some b'" "used b + remaining b = n" "n < 2 ^ 32"
  shows "used b' = used b + 1 \<and> used b' + remaining b' = n"
  using assms by (auto simp: reserve_def split: if_splits)

lemma delivers_nothing:
  assumes "delivers env op s sess evs []" "list_all is_start evs"
  shows "\<exists>sess'. delivers env op s sess' [] []"
proof -
  from assms(1) obtain starts where "list_all is_start starts" "tr_outs s = map Inr (starts @ evs)"
    by (auto simp: delivers_def)
  then have "delivers env op s (opened (op_model op) (wait_secs op) MAX_SSE_RESPONSE_BYTES []) [] []"
    unfolding delivers_def using assms(2) by (intro exI [of _ "starts @ evs"] exI [of _ "[]"]) (simp add: opened_def)
  then show ?thesis ..
qed

lemma delivers_cong: "tr_outs s' = tr_outs s @ rest \<Longrightarrow> delivers env op s sess evs [] \<Longrightarrow> delivers env op s' sess evs rest"
  by (auto simp: delivers_def)

lemma delivers_same: "tr_outs s' = tr_outs s \<Longrightarrow> delivers env op s' = delivers env op s"
  by (intro ext) (simp add: delivers_def)

text \<open>An attempt that is over: another one follows, or its error is the last thing the reader
  gets.\<close>

lemma give_up_delivery: "delivers env op s sess evs [] \<Longrightarrow> delivery_ok env op (give_up e s)"
  using delivers_cong [of "give_up e s" s "[Inl e]" env op sess evs]
  by (simp add: delivery_ok_def give_up_def) blast

lemma retry_delivery:
  assumes "retry_or_give_up allowed d e s = Some s'" "delivers env op s sess evs []"
    "\<not> tr_committed s \<Longrightarrow> list_all is_start evs" "allowed \<Longrightarrow> \<not> tr_committed s"
  shows "delivery_ok env op s'"
proof -
  from assms(1) obtain b where s': "s' = s\<lparr>tr_phase := Backoff d, tr_budget := b\<rparr>" and allowed
    by (auto simp: retry_or_give_up_def split: if_splits option.splits)
  then have "\<not> tr_committed s" using assms(4) by simp
  then show ?thesis
    using delivers_nothing [OF assms(2) assms(3)] delivers_same [of s' s] unfolding s'
    by (simp add: delivery_ok_def)
qed

lemma give_up_retries:
  "retries_ok op body n s \<Longrightarrow> retries_ok op body n (give_up e s)"
  by (auto simp: retries_ok_def give_up_def between_posts_def split: if_splits)

lemma retry_retries:
  assumes "retry_or_give_up allowed d e s = Some s'" "retries_ok op body n s" "n < 2 ^ 32"
    "d \<le> max MAX_RETRY_AFTER (36 * backoff_base op)"
  shows "retries_ok op body n s'"
proof -
  from assms(1) obtain b where s': "s' = s\<lparr>tr_phase := Backoff d, tr_budget := b\<rparr>" "reserve (tr_budget s) = Some b"
    by (auto simp: retry_or_give_up_def split: if_splits option.splits)
  have "used b = used (tr_budget s) + 1 \<and> used b + remaining b = n"
    using reserve_Some [OF s'(2)] assms(2,3) by (simp add: retries_ok_def)
  then show ?thesis using assms(2,4) s'(1) by (auto simp: retries_ok_def between_posts_def split: if_splits)
qed


subsection \<open>Every step keeps it\<close>

lemma idle_start: "delivery_ok env op s \<Longrightarrow> between_posts s \<or> tr_phase s = Posting \<Longrightarrow>
    \<not> tr_committed s \<and> (\<exists>sess. delivers env op s sess [] [])"
  by (auto simp: delivery_ok_def between_posts_def split: phase.splits)

lemma drawn_delay_le:
  assumes "drawn op s j" "\<And>d. hint = Some d \<Longrightarrow> d \<le> MAX_RETRY_AFTER"
  shows "retry_delay (backoff_base op) (used (tr_budget s)) hint j \<le> max MAX_RETRY_AFTER (36 * backoff_base op)"
  using retry_delay_le [of j _ _ hint] assms by (simp add: drawn_def)

lemma open_failed_ok:
  assumes "transport_ok env op body n s" "n < 2 ^ 32" "between_posts s \<or> tr_phase s = Posting" "drawn op s j"
  shows "transport_ok env op body n (open_failed op j e s)"
proof -
  let ?r = "retry_or_give_up (tr_reopen s \<and> \<not> tr_committed s)
      (retry_delay (backoff_base op) (used (tr_budget s)) None j) e s"
  obtain sess where d: "delivers env op s sess [] []" "\<not> tr_committed s"
    using idle_start [of env op s] assms(1,3) by (auto simp: transport_ok_def)
  have delay: "retry_delay (backoff_base op) (used (tr_budget s)) None j \<le> max MAX_RETRY_AFTER (36 * backoff_base op)"
    by (rule drawn_delay_le [OF assms(4)]) simp
  have ret: "retries_ok op body n s" using assms(1) by (simp add: transport_ok_def)
  show ?thesis
  proof (cases ?r)
    case None
    then show ?thesis
      using give_up_delivery [OF d(1)] give_up_retries [OF ret] by (simp add: open_failed_def transport_ok_def)
  next
    case (Some s')
    then show ?thesis
      using retry_delivery [OF Some d(1)] retry_retries [OF Some ret assms(2) delay]
      by (simp add: open_failed_def transport_ok_def)
  qed
qed

lemma post_failed_ok:
  assumes "transport_ok env op body n s" "n < 2 ^ 32" "tr_phase s = Posting" "drawn op s j" "drawn op s j'"
    "post_once env op a = Inl f" "post_failed op j j' f s = (s', calls)"
  shows "transport_ok env op body n s'"
proof -
  let ?d = "retry_delay (backoff_base op) (used (tr_budget s)) (snd f) j"
  obtain sess where d: "delivers env op s sess [] []" "\<not> tr_committed s"
    using idle_start [of env op s] assms(1,3) by (auto simp: transport_ok_def)
  have delay: "?d \<le> max MAX_RETRY_AFTER (36 * backoff_base op)"
    by (rule drawn_delay_le [OF assms(4) post_hint_le [OF assms(6)]])
  have ret: "retries_ok op body n s" using assms(1) by (simp add: transport_ok_def)
  show ?thesis
  proof (cases "retry_or_give_up True ?d (fst f) s")
    case None
    then show ?thesis using assms(7) open_failed_ok [OF assms(1,2) _ assms(5)] assms(3)
      by (auto simp: post_failed_def Let_def)
  next
    case (Some s'')
    then show ?thesis
      using retry_delivery [OF Some d(1)] d(2) retry_retries [OF Some ret assms(2) delay] assms(7)
      by (auto simp: post_failed_def transport_ok_def Let_def)
  qed
qed

lemma delivers_poll:
  assumes "delivers env op s sess evs []" "poll env (se_stream sess) (se_net sess) = (st, net, r)"
    "yielded r = map Inr evs'" "tr_outs s' = tr_outs s @ map Inr evs'"
  shows "delivers env op s' \<lparr>se_stream = st, se_net = net, se_outs = se_outs sess @ yielded r\<rparr> (evs @ evs') []"
proof -
  from assms(1) obtain starts body where *: "list_all is_start starts"
    "(sstep env)\<^sup>*\<^sup>* (opened (op_model op) (wait_secs op) MAX_SSE_RESPONSE_BYTES body) sess"
    "se_outs sess = map Inr evs" "tr_outs s = map Inr (starts @ evs)"
    by (auto simp: delivers_def)
  have "(sstep env)\<^sup>*\<^sup>* (opened (op_model op) (wait_secs op) MAX_SSE_RESPONSE_BYTES body)
      \<lparr>se_stream = st, se_net = net, se_outs = se_outs sess @ yielded r\<rparr>"
    by (rule rtranclp.rtrancl_into_rtrancl [OF *(2) sstep.polled [OF assms(2)]])
  then show ?thesis
    unfolding delivers_def using * assms(3,4) by (intro exI [of _ starts] exI [of _ body]) simp
qed

lemma finished_has_end:
  assumes "delivers env op s sess evs rest" "poll env (se_stream sess) (se_net sess) = (st, net, Finished)"
  shows "list_ex is_end evs"
proof -
  from assms(1) obtain body where
    "(sstep env)\<^sup>*\<^sup>* (opened (op_model op) (wait_secs op) MAX_SSE_RESPONSE_BYTES body) sess" "se_outs sess = map Inr evs"
    by (auto simp: delivers_def)
  moreover from this(1) have "session_ok MAX_SSE_RESPONSE_BYTES sess" by (rule streams.reachable_inv)
  moreover have "map Inr evs = map Inr evs' \<Longrightarrow> evs = evs'" for evs' :: "stream_event list"
    by (metis inj_map_eq_map inj_Inr)
  moreover have "map Inr evs \<noteq> map Inr evs' @ [Inl e]" for evs' :: "stream_event list" and e :: provider_error
    by (metis (no_types, lifting) Inl_Inr_False in_set_conv_decomp list.set_map imageE)
  ultimately have "running_ok MAX_SSE_RESPONSE_BYTES evs (se_stream sess)"
    by (fastforce simp: session_ok_def)
  then have "polled_ok MAX_SSE_RESPONSE_BYTES evs st Finished" using poll_ok assms(2) by blast
  then show ?thesis
    by (auto simp: polled_ok_def running_ok_def failed_ok_def ending_ok_def events_ok_def)
qed


lemma stream_failed_ok:
  assumes "delivers env op s sess evs []" "retries_ok op body n s" "n < 2 ^ 32" "drawn op s j"
    "tr_committed s \<longleftrightarrow> \<not> list_all is_start evs" "cell_bounded (h_session h)"
    "stream_failed op j e h s = (s', calls)"
  shows "transport_ok env op body n s'"
proof -
  let ?hint = "snd (signal_take (retry_cell (se_stream (h_session h))))"
  let ?d = "retry_delay (backoff_base op) (used (tr_budget s)) ?hint j"
  have delay: "?d \<le> max MAX_RETRY_AFTER (36 * backoff_base op)"
    by (rule drawn_delay_le [OF assms(4) signal_hint_le]) (use assms(6) in \<open>simp add: cell_bounded_def\<close>)
  show ?thesis
  proof (cases "retry_or_give_up (\<not> tr_committed s) ?d e s")
    case None
    then show ?thesis
      using assms(7) give_up_delivery [OF assms(1)] give_up_retries [OF assms(2)]
      by (auto simp: stream_failed_def transport_ok_def Let_def)
  next
    case (Some s'')
    then show ?thesis
      using retry_delivery [OF Some assms(1)] assms(5,7) retry_retries [OF Some assms(2,3) delay]
      by (auto simp: stream_failed_def transport_ok_def Let_def)
  qed
qed

lemma delivers_cell: "delivers env op s sess evs rest \<Longrightarrow> cell_bounded sess"
  by (auto simp: delivers_def dest: hints.reachable_inv)

lemma is_committing_iff: "is_committing e \<longleftrightarrow> \<not> is_start e"
  by (cases e) (simp_all add: is_start_def)

lemma is_over_event: "is_over (Yielded (Inr e)) \<longleftrightarrow> is_end e"
  by (cases e) (simp_all add: is_end_def)

text \<open>One poll, by its result.\<close>

lemma polled_once_ok:
  assumes ok: "transport_ok env op body n s" and n: "n < 2 ^ 32" and ph: "tr_phase s = Streaming h"
    and p: "held_poll env h = (h', calls, r)" and j: "drawn op s j" and o: "on_polled op j h' r s = (s', calls')"
  shows "transport_ok env op body n s'"
proof -
  obtain st net where poll: "poll env (se_stream (h_session h)) (se_net (h_session h)) = (st, net, r)"
    and sess: "h_session h' = \<lparr>se_stream = st, se_net = net, se_outs = se_outs (h_session h) @ yielded r\<rparr>"
    and permit: "h_permit h' = (h_permit h \<and> \<not> is_over r)"
    using p by (auto simp: held_poll_def Let_def split: prod.splits)
  from ok ph obtain evs where d: "delivers env op s (h_session h) evs []"
    and c: "tr_committed s \<longleftrightarrow> \<not> list_all is_start evs" and hp: "h_permit h \<longleftrightarrow> \<not> list_ex is_end evs"
    and ret: "retries_ok op body n s"
    by (auto simp: transport_ok_def delivery_ok_def)
  have next_d: "delivers env op t (h_session h') (evs @ evs') []"
    if "yielded r = map Inr evs'" "tr_outs t = tr_outs s @ map Inr evs'" for t :: transport and evs'
    using delivers_poll [OF d poll that] sess by simp
  show ?thesis
  proof (cases r)
    case (Yielded y)
    show ?thesis
    proof (cases y)
      case (Inl e)
      have "cell_ok (retry_cell st)"
        using poll_cell [OF poll] delivers_cell [OF d] by (simp add: cell_bounded_def)
      then have "cell_bounded (h_session h')" using sess by (simp add: cell_bounded_def)
      then show ?thesis using stream_failed_ok [OF d ret n j c] o Yielded Inl by simp
    next
      case (Inr e)
      then have s': "s' = s\<lparr>tr_phase := Streaming h', tr_outs := tr_outs s @ [Inr e],
          tr_committed := tr_committed s \<or> is_committing e,
          tr_body := if \<not> tr_committed s \<and> is_committing e then [] else tr_body s\<rparr>"
        using o Yielded by simp
      have "delivers env op s' (h_session h') (evs @ [e]) []"
        using next_d [of "[e]" s'] s' Yielded Inr by (simp add: yielded_def)
      moreover have "tr_committed s' \<longleftrightarrow> \<not> list_all is_start (evs @ [e])"
        using c s' by (auto simp: is_committing_iff)
      moreover have "h_permit h' \<longleftrightarrow> \<not> list_ex is_end (evs @ [e])"
        using permit hp Yielded Inr by (simp add: is_over_event)
      moreover have "retries_ok op body n s'" using ret ph s' by (auto simp: retries_ok_def between_posts_def)
      moreover have "tr_phase s' = Streaming h'" using s' by simp
      ultimately show ?thesis unfolding transport_ok_def delivery_ok_def by auto
    qed
  next
    case Finished
    then have s': "s' = s\<lparr>tr_phase := Closed\<rparr>" using o by simp
    then have "delivers env op s' (h_session h) evs []" using d delivers_same [of s' s] by simp
    moreover have "list_ex is_end evs" using finished_has_end [OF d] poll Finished by simp
    ultimately have "delivery_ok env op s'" using s' by (auto simp: delivery_ok_def)
    then show ?thesis using ret ph s' by (auto simp: transport_ok_def retries_ok_def between_posts_def)
  next
    case Waiting
    then have s': "s' = s\<lparr>tr_phase := Streaming h'\<rparr>" using o by simp
    have "delivers env op s' (h_session h') (evs @ []) []"
      using next_d [of "[]" s'] s' Waiting by (simp add: yielded_def)
    then have "delivery_ok env op s'" using s' c hp permit Waiting by (auto simp: delivery_ok_def)
    then show ?thesis using ret ph s' by (auto simp: transport_ok_def retries_ok_def between_posts_def)
  qed
qed


lemma admitted_to_post_ok:
  assumes "transport_ok env op body n s" "tr_phase s = Opening"
  shows "transport_ok env op body n (s\<lparr>tr_phase := Posting, tr_posts := tr_posts s @ [tr_body s]\<rparr>)"
proof -
  let ?s = "s\<lparr>tr_phase := Posting, tr_posts := tr_posts s @ [tr_body s]\<rparr>"
  have "delivers env op ?s = delivers env op s" by (rule delivers_same) simp
  then show ?thesis
    using assms by (auto simp: transport_ok_def delivery_ok_def retries_ok_def between_posts_def)
qed

lemma stream_answered_ok:
  assumes "transport_ok env op body n s" "tr_phase s = Posting"
  shows "transport_ok env op body n (s\<lparr>tr_reopen := True,
      tr_phase := Streaming (hold_permit (opened (op_model op) (wait_secs op) MAX_SSE_RESPONSE_BYTES items))\<rparr>)"
    (is "transport_ok _ _ _ _ ?s")
proof -
  let ?o = "opened (op_model op) (wait_secs op) MAX_SSE_RESPONSE_BYTES items"
  obtain sess where d: "delivers env op s sess [] []" "\<not> tr_committed s"
    using idle_start [of env op s] assms by (auto simp: transport_ok_def)
  then obtain starts where "list_all is_start starts" "tr_outs s = map Inr starts"
    by (auto simp: delivers_def)
  then have "delivers env op ?s ?o [] []"
    unfolding delivers_def by (intro exI [of _ starts] exI [of _ items]) (simp add: opened_def)
  then have "delivery_ok env op ?s" using d(2)
    by (auto simp: delivery_ok_def hold_permit_def intro!: exI [of _ "[] :: stream_event list"])
  then show ?thesis using assms by (auto simp: transport_ok_def retries_ok_def between_posts_def)
qed

lemma slept_ok:
  assumes "transport_ok env op body n s" "tr_phase s = Backoff d"
  shows "transport_ok env op body n (s\<lparr>tr_phase := Opening\<rparr>)"
  using assms delivers_same [of "s\<lparr>tr_phase := Opening\<rparr>" s]
  by (auto simp: transport_ok_def delivery_ok_def retries_ok_def between_posts_def)

lemma dropped_ok:
  assumes "transport_ok env op body n s" "tr_phase s \<notin> {Closed, Dropped}"
  shows "transport_ok env op body n (s\<lparr>tr_phase := Dropped\<rparr>)"
proof -
  obtain sess evs where "delivers env op s sess evs []"
    using assms by (auto simp: transport_ok_def delivery_ok_def split: phase.splits)
  then have "delivery_ok env op (s\<lparr>tr_phase := Dropped\<rparr>)"
    using delivers_same [of "s\<lparr>tr_phase := Dropped\<rparr>" s] by (auto simp: delivery_ok_def)
  then show ?thesis
    using assms by (auto simp: transport_ok_def retries_ok_def between_posts_def split: if_splits)
qed

lemma tstep_ok: "tstep env op s calls s' \<Longrightarrow> n < 2 ^ 32 \<Longrightarrow> transport_ok env op body n s \<Longrightarrow> transport_ok env op body n s'"
  by (induction rule: tstep.induct)
    (auto intro: polled_once_ok admitted_to_post_ok stream_answered_ok slept_ok dropped_ok post_failed_ok
      open_failed_ok simp: between_posts_def)

lemma new_transport_ok: "transport_ok env op body n (new_transport body n)"
proof -
  have "delivers env op (new_transport body n) (opened (op_model op) (wait_secs op) MAX_SSE_RESPONSE_BYTES []) [] []"
    unfolding delivers_def by (intro exI [of _ "[]"]) (simp add: opened_def new_transport_def)
  then show ?thesis
    by (auto simp: transport_ok_def delivery_ok_def retries_ok_def new_transport_def new_budget_def)
qed

text \<open>The number of retries is a \<^verbatim>\<open>u32\<close>.\<close>

interpretation transports: state_machine "new_transport body (n mod 2 ^ 32)" "tmove env op"
    "transport_ok env op body (n mod 2 ^ 32)" for body n env op
  by unfold_locales (auto simp: tmove_def intro: tstep_ok new_transport_ok)

section \<open>Properties of a request\<close>

text \<open>C34: A reader gets one message, however often the request was sent.  What it has got at
  any moment is the starts of attempts that failed before they had any output, then the
  events of a single response in their order, then at most one error, which is the last
  thing it gets.  When the stream has closed, that error or the end of the message is there.\<close>

theorem one_message:
  assumes "(tmove env op)\<^sup>*\<^sup>* (new_transport body (n mod 2 ^ 32)) s"
  shows "\<exists>starts evs rest items sess.
           tr_outs s = map Inr (starts @ evs) @ rest \<and> list_all is_start starts \<and>
           (sstep env)\<^sup>*\<^sup>* (opened (op_model op) (wait_secs op) MAX_SSE_RESPONSE_BYTES items) sess \<and>
           se_outs sess = map Inr evs \<and>
           (rest = [] \<and> (tr_phase s = Closed \<longrightarrow> list_ex is_end evs) \<or>
            (\<exists>e. rest = [Inl e]) \<and> tr_phase s = Closed)"
proof -
  have "delivery_ok env op s" using transports.reachable_inv [OF assms] by (simp add: transport_ok_def)
  then obtain sess evs rest where "delivers env op s sess evs rest"
    "rest = [] \<and> (tr_phase s = Closed \<longrightarrow> list_ex is_end evs) \<or> (\<exists>e. rest = [Inl e]) \<and> tr_phase s = Closed"
    by (cases "tr_phase s") (auto simp: delivery_ok_def)
  then show ?thesis unfolding delivers_def by blast
qed

lemma committed_posts:
  assumes "tstep env op s calls s'" "transport_ok env op body n s" "tr_committed s"
  shows "tr_posts s' = tr_posts s \<and> tr_committed s'"
  using assms
proof (induction rule: tstep.induct)
  case (polled_once s h h' calls r j s' calls')
  then show ?case
    by (cases r; cases "case r of Yielded y \<Rightarrow> y | _ \<Rightarrow> Inl CancelledError")
      (auto simp: stream_failed_def retry_or_give_up_def give_up_def Let_def)
qed (auto simp: transport_ok_def delivery_ok_def)

lemma retries_ok_bounds:
  assumes "retries_ok op body k s"
  shows "length (tr_posts s) \<le> k + 1" "set (tr_posts s) \<subseteq> {body}"
    "\<forall>d. tr_phase s = Backoff d \<longrightarrow> d \<le> max (300 * 10 ^ 9) (36 * backoff_base op)"
proof -
  have "length (tr_posts s) \<le> used (tr_budget s) + 1"
    using assms unfolding retries_ok_def by (cases "between_posts s") simp_all
  then show "length (tr_posts s) \<le> k + 1" using assms unfolding retries_ok_def by linarith
  show "set (tr_posts s) \<subseteq> {body}" using assms unfolding retries_ok_def by blast
  show "\<forall>d. tr_phase s = Backoff d \<longrightarrow> d \<le> max (300 * 10 ^ 9) (36 * backoff_base op)"
    using assms unfolding retries_ok_def MAX_RETRY_AFTER_def NANOS_def by simp
qed

text \<open>Sending again is bounded.  A request with \<open>n\<close> retries is sent at most \<open>n + 1\<close> times,
  every time with its whole body; before each further attempt it sleeps at most five
  minutes or 36 times the base delay; and once the reader has got anything but a start, it
  is never sent again.\<close>

theorem retries_bounded:
  assumes "(tmove env op)\<^sup>*\<^sup>* (new_transport body (n mod 2 ^ 32)) s"
  shows "length (tr_posts s) \<le> n mod 2 ^ 32 + 1 \<and> set (tr_posts s) \<subseteq> {body} \<and>
         (\<forall>d. tr_phase s = Backoff d \<longrightarrow> d \<le> max (300 * 10 ^ 9) (36 * backoff_base op)) \<and>
         (\<forall>s'. (tmove env op)\<^sup>*\<^sup>* s s' \<and> tr_committed s \<longrightarrow> tr_posts s' = tr_posts s)"
proof -
  let ?ok = "transport_ok env op body (n mod 2 ^ 32)"
  have ok: "?ok s" by (rule transports.reachable_inv [OF assms])
  have "tr_posts s' = tr_posts s \<and> tr_committed s' \<and> ?ok s'" if "(tmove env op)\<^sup>*\<^sup>* s s'" "tr_committed s" for s'
    using that
  proof (induction rule: rtranclp_induct)
    case (step y z)
    then obtain calls where "tstep env op y calls z" by (auto simp: tmove_def)
    then show ?case using step.IH step.prems committed_posts [of env op y calls z] tstep_ok [of env op y calls z] by auto
  qed (use ok in simp)
  moreover note retries_ok_bounds [OF conjunct2 [OF ok [unfolded transport_ok_def]]]
  ultimately show ?thesis by blast
qed


subsection \<open>Every request comes to its end\<close>

definition stream_measures :: "((stream_state \<times> net_item list) \<times> (stream_state \<times> net_item list)) set" where
  "stream_measures = measures [\<lambda>(st, net). length net, \<lambda>(st, net). weight st]"

lemma ready_weight: "ready st = Some (st', Yielded y) \<Longrightarrow> weight st' < weight st"
  by (auto simp: ready_def weight_def split: list.splits option.splits if_splits)

lemma poll_progress: "poll env st net = (st', net', Yielded y) \<Longrightarrow> ((st', net'), st, net) \<in> stream_measures"
proof (induction env st net arbitrary: st' net' rule: poll.induct)
  case (1 env st)
  then show ?case by (auto simp: stream_measures_def dest: ready_weight split: option.splits)
next
  case (2 env st i rest)
  obtain st1 r1 where i: "on_item env st i = (st1, r1)" by fastforce
  show ?case
  proof (cases "ready st")
    case None
    show ?thesis
    proof (cases r1)
      case None
      then have "((st', net'), st1, rest) \<in> stream_measures"
        using "2.IH" [OF \<open>ready st = None\<close> i [symmetric] None] "2.prems" \<open>ready st = None\<close> i by simp
      then show ?thesis by (auto simp: stream_measures_def)
    next
      case (Some e)
      then show ?thesis using "2.prems" None i by (auto simp: stream_measures_def)
    qed
  next
    case (Some x)
    then show ?thesis using 2 by (cases x) (auto simp: stream_measures_def dest: ready_weight)
  qed
qed

definition waits_for_net :: "wire_env \<Rightarrow> transport \<Rightarrow> bool" where
  "waits_for_net env s \<longleftrightarrow>
     (case tr_phase s of
        Streaming h \<Rightarrow> snd (snd (poll env (se_stream (h_session h)) (se_net (h_session h)))) = Waiting
      | _ \<Rightarrow> False)"

fun phase_rank :: "phase \<Rightarrow> nat" where
  "phase_rank (Backoff _) = 4"
| "phase_rank Opening = 3"
| "phase_rank Posting = 2"
| "phase_rank (Streaming _) = 1"
| "phase_rank _ = 0"

definition stream_of :: "transport \<Rightarrow> stream_state \<times> net_item list" where
  "stream_of s =
     (case tr_phase s of
        Streaming h \<Rightarrow> (se_stream (h_session h), se_net (h_session h)) | _ \<Rightarrow> (new_stream [] 0 0, []))"

definition request_order :: "(transport \<times> transport) set" where
  "request_order =
     inv_image (less_than <*lex*> less_than <*lex*> stream_measures)
       (\<lambda>s. (remaining (tr_budget s), phase_rank (tr_phase s), stream_of s))"

lemma wf_request_order: "wf request_order"
  unfolding request_order_def stream_measures_def by (intro wf_inv_image wf_lex_prod wf_less_than wf_measures)

lemma retry_order: "retry_or_give_up allowed d e s = Some s' \<Longrightarrow> (s', s) \<in> request_order"
  by (auto simp: retry_or_give_up_def reserve_def request_order_def split: if_splits option.splits)

lemma give_up_order: "0 < phase_rank (tr_phase s) \<Longrightarrow> (give_up e s, s) \<in> request_order"
  by (simp add: give_up_def request_order_def)

lemma open_failed_order: "0 < phase_rank (tr_phase s) \<Longrightarrow> (open_failed op j e s, s) \<in> request_order"
  by (auto simp: open_failed_def intro: retry_order give_up_order split: option.splits)

lemma tstep_order: "tstep env op s calls s' \<Longrightarrow> \<not> waits_for_net env s \<Longrightarrow> (s', s) \<in> request_order"
proof (induction rule: tstep.induct)
  case (post_failed s a f j j' s' calls)
  then show ?case
    by (auto simp: post_failed_def Let_def intro: retry_order open_failed_order split: option.splits)
next
  case (polled_once s h h' calls r j s' calls')
  from polled_once(2) obtain st net where p: "poll env (se_stream (h_session h)) (se_net (h_session h)) = (st, net, r)"
    and h': "se_stream (h_session h') = st" "se_net (h_session h') = net"
    by (auto simp: held_poll_def Let_def split: prod.splits)
  show ?case
  proof (cases r)
    case (Yielded y)
    then have m: "((st, net), stream_of s) \<in> stream_measures"
      using poll_progress p polled_once(1) by (simp add: stream_of_def)
    show ?thesis
    proof (cases y)
      case (Inl e)
      then show ?thesis
        using polled_once Yielded
        by (auto simp: stream_failed_def Let_def intro: retry_order give_up_order split: option.splits)
    next
      case (Inr e)
      then show ?thesis
        using polled_once Yielded h' m by (auto simp: request_order_def stream_of_def)
    qed
  qed (use polled_once p in \<open>auto simp: request_order_def waits_for_net_def\<close>)
next
  case (dropped s)
  then show ?case by (cases "tr_phase s") (simp_all add: request_order_def)
next
  case (queue_full s j message)
  then show ?case by (simp add: open_failed_order)
qed (simp_all add: request_order_def)

text \<open>C35: A request cannot go on for ever.  However the server answers, delays, breaks off and
  limits the rate, and however the jitter falls, there is no infinite run of a request in
  which it does not wait for the network: the two loops of the retries end.\<close>

theorem request_terminates: "wfP (\<lambda>s' s. \<exists>calls. tstep env op s calls s' \<and> \<not> waits_for_net env s)"
  unfolding wfp_def by (rule wf_subset [OF wf_request_order]) (auto intro: tstep_order)


section \<open>Requests and their governor\<close>

text \<open>How the governor answers a call: a slot is taken by one of the steps that hand out
  permits; the other calls are its operations.\<close>

fun governs :: "gov_call \<Rightarrow> gsys \<Rightarrow> gsys \<Rightarrow> bool" where
  "governs Took g g' = (gstep g g' \<and> permits g' = permits g + 1)"
| "governs (Noted e hinted delay) g g' =
     (g' = g\<lparr>gov := note_failure (g_now g) (is_rate_limit e) hinted delay (gov g)\<rparr>)"
| "governs Credited g g' =
     (case on_success (g_now g) (gov g) of
        (x, d) \<Rightarrow> g' = g\<lparr>gov := x, drains := drains g + (if d then 1 else 0)\<rparr>)"
| "governs Freed g g' = (g' = g\<lparr>gov := release (gov g), permits := permits g - 1\<rparr>)"

inductive replay :: "gov_call list \<Rightarrow> gsys \<Rightarrow> gsys \<Rightarrow> bool" where
  no_call: "replay [] g g"
| next_call: "governs c g g1 \<Longrightarrow> replay cs g1 g2 \<Longrightarrow> replay (c # cs) g g2"

inductive_simps replay_Nil [simp]: "replay [] g g'"
inductive_simps replay_Cons: "replay (c # cs) g g'"

record client =
  cl_gov :: gsys
  cl_requests :: "transport list"

definition new_client :: "provider_limits \<Rightarrow> client" where
  "new_client l = \<lparr>cl_gov = gstart l, cl_requests = []\<rparr>"

text \<open>A request starts, a request steps and the governor answers its calls, or the governor
  steps without handing out or taking back a permit: queueing, the clock, the
  configuration.\<close>

inductive cstep :: "wire_env \<Rightarrow> opener \<Rightarrow> client \<Rightarrow> client \<Rightarrow> bool" for env op where
  begun: "cstep env op c (c\<lparr>cl_requests := cl_requests c @ [new_transport body n]\<rparr>)"
| acted: "i < length (cl_requests c) \<Longrightarrow> tstep env op (cl_requests c ! i) calls t \<Longrightarrow>
    replay calls (cl_gov c) g \<Longrightarrow>
    cstep env op c (c\<lparr>cl_gov := g, cl_requests := (cl_requests c)[i := t]\<rparr>)"
| governed: "gstep (cl_gov c) g \<Longrightarrow> permits g = permits (cl_gov c) \<Longrightarrow> cstep env op c (c\<lparr>cl_gov := g\<rparr>)"

text \<open>What a step does to the slot of a request, and what it tells the governor.\<close>

definition slot_calls :: "bool \<Rightarrow> bool \<Rightarrow> gov_call list \<Rightarrow> bool" where
  "slot_calls before after calls \<longleftrightarrow>
     calls = [Took] \<and> \<not> before \<and> after \<or>
     Took \<notin> set calls \<and> count_list calls Freed = (if before \<and> \<not> after then 1 else 0) \<and> (after \<longrightarrow> before)"

lemma retry_holds: "retry_or_give_up allowed d e s = Some s' \<Longrightarrow> \<not> holds_slot s'"
  by (auto simp: retry_or_give_up_def holds_slot_def split: if_splits option.splits)

lemma give_up_holds [simp]: "\<not> holds_slot (give_up e s)"
  by (simp add: give_up_def holds_slot_def)

lemma open_failed_holds [simp]: "\<not> holds_slot (open_failed op j e s)"
  by (auto simp: open_failed_def dest: retry_holds split: option.splits)

lemma tstep_slots: "tstep env op s calls s' \<Longrightarrow> slot_calls (holds_slot s) (holds_slot s') calls"
proof (induction rule: tstep.induct)
  case (post_failed s a f j j' s' calls)
  then have "\<not> holds_slot s'" "holds_slot s"
    by (auto simp: post_failed_def Let_def holds_slot_def [of s] dest: retry_holds split: option.splits)
  then show ?case using post_failed by (auto simp: post_failed_def Let_def slot_calls_def)
next
  case (polled_once s h h' calls r j s' calls')
  have h: "h_permit h' = (h_permit h \<and> \<not> is_over r)" "Took \<notin> set calls"
    "count_list calls Freed = (if h_permit h \<and> is_over r then 1 else 0)"
    using polled_once(2) by (auto simp: held_poll_def Let_def split: prod.splits)
  have s: "holds_slot s = h_permit h" using polled_once(1) by (simp add: holds_slot_def)
  show ?case
  proof (cases "\<exists>e. r = Yielded (Inl e)")
    case True
    then have "\<not> holds_slot s'" "Took \<notin> set calls'" "count_list calls' Freed = 0"
      using polled_once(4) by (auto simp: stream_failed_def Let_def dest: retry_holds split: option.splits)
    then show ?thesis using True h s by (auto simp: slot_calls_def)
  next
    case False
    then have "calls' = [] \<and> (if r = Finished then \<not> holds_slot s' else holds_slot s' = h_permit h')"
      using polled_once(4) by (cases r; cases "case r of Yielded y \<Rightarrow> y | _ \<Rightarrow> Inl CancelledError") (auto simp: holds_slot_def)
    then show ?thesis using h s by (auto simp: slot_calls_def split: if_splits)
  qed
next
  case (queue_full s j message)
  then show ?case by (simp add: slot_calls_def holds_slot_def [of s])
qed (auto simp: slot_calls_def holds_slot_def hold_permit_def)

lemma answers_steps:
  assumes "governs c g g'" "c = Freed \<Longrightarrow> 0 < permits g"
  shows "gstep g g' \<and> (c \<noteq> Took \<longrightarrow> permits g = permits g' + (if c = Freed then 1 else 0))"
  using assms
proof (cases c)
  case Took
  then show ?thesis using assms by simp
next
  case (Noted e hinted delay)
  then show ?thesis using assms gstep.failed [of g] by auto
next
  case Credited
  then show ?thesis using assms gstep.succeeded [of g] by (auto split: prod.splits)
next
  case Freed
  then show ?thesis using assms gstep.ended [of g] by auto
qed

lemma replay_steps:
  "replay calls g g' \<Longrightarrow> Took \<notin> set calls \<Longrightarrow> count_list calls Freed \<le> permits g \<Longrightarrow>
     gstep\<^sup>*\<^sup>* g g' \<and> permits g = permits g' + count_list calls Freed"
proof (induction rule: replay.induct)
  case (next_call c g g1 cs g2)
  then have "gstep g g1 \<and> permits g = permits g1 + (if c = Freed then 1 else 0)"
    using answers_steps [of c g g1] by (auto split: if_splits)
  then show ?case using next_call by (auto split: if_splits intro: converse_rtranclp_into_rtranclp)
qed simp


lemma filter_update_length:
  "i < length xs \<Longrightarrow>
     length (filter P (xs[i := x])) + (if P (xs ! i) then 1 else 0) = length (filter P xs) + (if P x then 1 else 0)"
proof (induction xs arbitrary: i)
  case (Cons y ys)
  then show ?case by (cases i) (auto split: if_splits)
qed simp

text \<open>Who is to hold a slot: a request that waits for its headers, and one whose response has not
  yet given the end of its message to the reader.\<close>

definition has_message :: "stream_session \<Rightarrow> bool" where
  "has_message sess \<longleftrightarrow> list_ex (\<lambda>out. case out of Inr e \<Rightarrow> is_end e | Inl _ \<Rightarrow> False) (se_outs sess)"

definition needs_slot :: "transport \<Rightarrow> bool" where
  "needs_slot s \<longleftrightarrow>
     (case tr_phase s of Posting \<Rightarrow> True | Streaming h \<Rightarrow> \<not> has_message (h_session h) | _ \<Rightarrow> False)"

definition permit_ok :: "transport \<Rightarrow> bool" where
  "permit_ok s \<longleftrightarrow> (\<forall>h. tr_phase s = Streaming h \<longrightarrow> h_permit h = (\<not> has_message (h_session h)))"

lemma permit_needed: "permit_ok s \<Longrightarrow> holds_slot s = needs_slot s"
  by (auto simp: permit_ok_def holds_slot_def needs_slot_def split: phase.split)

lemma retry_permit: "retry_or_give_up allowed d e s = Some s' \<Longrightarrow> permit_ok s'"
  by (auto simp: retry_or_give_up_def permit_ok_def split: if_splits option.splits)

lemma give_up_permit [simp]: "permit_ok (give_up e s)"
  by (simp add: give_up_def permit_ok_def)

lemma open_failed_permit [simp]: "permit_ok (open_failed op j e s)"
  by (auto simp: open_failed_def dest: retry_permit split: option.splits)

lemma over_events: "is_over (Yielded (Inr e)) \<longleftrightarrow> is_end e"
  by (cases e) (simp_all add: is_end_def)

lemma tstep_permit: "tstep env op s calls s' \<Longrightarrow> permit_ok s \<Longrightarrow> permit_ok s'"
proof (induction rule: tstep.induct)
  case (post_failed s a f j j' s' calls)
  then show ?case by (auto simp: post_failed_def Let_def dest: retry_permit split: option.splits)
next
  case (polled_once s h h' calls r j s' calls')
  have h: "h_permit h = (\<not> has_message (h_session h))" using polled_once(1,5) by (simp add: permit_ok_def)
  have h': "h_permit h' = (h_permit h \<and> \<not> is_over r)" "se_outs (h_session h') = se_outs (h_session h) @ yielded r"
    using polled_once(2) by (auto simp: held_poll_def Let_def split: prod.splits)
  show ?case
  proof (cases r)
    case (Yielded y)
    then show ?thesis using polled_once(4) h h' over_events
      by (cases y) (auto simp: permit_ok_def has_message_def yielded_def stream_failed_def Let_def give_up_def
          dest: retry_permit [unfolded permit_ok_def] split: option.splits)
  qed (use polled_once(4) h h' in \<open>auto simp: permit_ok_def has_message_def yielded_def\<close>)
next
  case (queue_full s j message)
  then show ?case by simp
qed (auto simp: permit_ok_def hold_permit_def has_message_def opened_def)

definition client_ok :: "provider_limits \<Rightarrow> client \<Rightarrow> bool" where
  "client_ok l c \<longleftrightarrow>
     gstep\<^sup>*\<^sup>* (gstart l) (cl_gov c) \<and> permits (cl_gov c) = length (filter holds_slot (cl_requests c)) \<and>
     (\<forall>s \<in> set (cl_requests c). permit_ok s)"

lemma held_counted: "i < length rs \<Longrightarrow> holds_slot (rs ! i) \<Longrightarrow> 0 < length (filter holds_slot rs)"
  by (metis filter_empty_conv length_greater_0_conv nth_mem)

lemma acted_ok:
  assumes ok: "client_ok l c" and i: "i < length (cl_requests c)" and t: "tstep env op (cl_requests c ! i) calls t"
    and r: "replay calls (cl_gov c) g"
  shows "client_ok l (c\<lparr>cl_gov := g, cl_requests := (cl_requests c)[i := t]\<rparr>)"
proof -
  let ?s = "cl_requests c ! i" and ?n = "length (filter holds_slot (cl_requests c))"
  note upd = filter_update_length [OF i, of holds_slot t]
  have p: "permits (cl_gov c) = ?n" using ok by (simp add: client_ok_def)
  have "gstep\<^sup>*\<^sup>* (cl_gov c) g \<and> permits g = length (filter holds_slot ((cl_requests c)[i := t]))"
  proof (cases "calls = [Took]")
    case True
    then have "\<not> holds_slot ?s" "holds_slot t" using tstep_slots [OF t] by (auto simp: slot_calls_def)
    then show ?thesis using True r p upd by (auto simp: replay_Cons)
  next
    case False
    then have c: "Took \<notin> set calls" "count_list calls Freed = (if holds_slot ?s \<and> \<not> holds_slot t then 1 else 0)" "holds_slot t \<longrightarrow> holds_slot ?s"
      using tstep_slots [OF t] by (auto simp: slot_calls_def)
    have "count_list calls Freed \<le> permits (cl_gov c)" using held_counted [OF i] c(2) p by (simp add: Suc_le_eq)
    then have "gstep\<^sup>*\<^sup>* (cl_gov c) g \<and> permits (cl_gov c) = permits g + count_list calls Freed"
      by (rule replay_steps [OF r c(1)])
    then show ?thesis using p c upd by (auto split: if_splits)
  qed
  moreover have "\<forall>s \<in> set ((cl_requests c)[i := t]). permit_ok s"
    using ok tstep_permit [OF t] i by (auto simp: client_ok_def dest!: set_update_subset_insert [THEN subsetD])
  ultimately show ?thesis using ok by (auto simp: client_ok_def)
qed

lemma cstep_ok: "cstep env op c c' \<Longrightarrow> client_ok l c \<Longrightarrow> client_ok l c'"
proof (induction rule: cstep.induct)
  case (acted i c calls t g)
  then show ?case by (intro acted_ok)
qed (auto simp: client_ok_def new_transport_def holds_slot_def permit_ok_def intro: rtranclp.rtrancl_into_rtrancl)

interpretation clients: state_machine "new_client l" "cstep env op" "client_ok l" for l env op
proof
  show "client_ok l (new_client l)" by (simp add: client_ok_def new_client_def gstart_def)
qed (rule cstep_ok)

text \<open>C36: Requests use their governor as it expects.  However many requests run, retry, stream
  and are dropped, what they do to the governor is a run of its own step relation, so that
  everything shown of it holds; and the slots in use are exactly one for every request that
  waits for its headers or streams a response which has not yet given the end of its message
  to the reader, besides the slots on their way to a waiter.  A request that waits for a slot,
  sleeps, has its message, is closed or was dropped holds none.\<close>

theorem slots_are_held:
  assumes "(cstep env op)\<^sup>*\<^sup>* (new_client l) c"
  shows "gstep\<^sup>*\<^sup>* (gstart l) (cl_gov c) \<and>
         g_active (gov (cl_gov c)) =
           length (filter needs_slot (cl_requests c)) + card (granted (gov (cl_gov c)))"
proof -
  have ok: "client_ok l c" by (rule clients.reachable_inv [OF assms])
  then have "filter needs_slot (cl_requests c) = filter holds_slot (cl_requests c)"
    by (intro filter_cong) (simp_all add: client_ok_def permit_needed)
  with ok show ?thesis using governors.reachable_inv [of l "cl_gov c"] by (simp add: client_ok_def gsys_ok_def)
qed

subsection \<open>Rate limits and the slot\<close>

text \<open>A rate limit reported by a response frees the slot only after the limit has shrunk; one
  reported inside a stream is noted after the stream has given its slot back.\<close>

lemma halved_below: "3 \<le> c \<Longrightarrow> halved c < c"
  using halved_big [of c] by auto

text \<open>A rate limit reported inside a stream admits one request more.  On a full account
  with a limit of three or more, outside an episode, a failed response notes the rate limit
  first, and its slot is not handed on; an error inside a stream gives the slot back first,
  so the oldest waiter is admitted before the limit shrinks, and the account stays at the
  old number of active requests.\<close>

theorem stream_rate_limit_admits:
  assumes "gstep\<^sup>*\<^sup>* (gstart l) s" "0 < permits s" "drains s = 0" "live (gov s) \<noteq> {}"
    and full: "g_active (gov s) = limit (gov s)" "3 \<le> limit (gov s)"
    and fresh: "case episode_until (g_aimd (gov s)) of Some u \<Rightarrow> u \<le> g_now s | None \<Rightarrow> True"
    and calls: "replay [Noted (RateLimited m) h d, Freed] s http" "replay [Freed, Noted (RateLimited m) h d] s stream"
  shows "granted (gov http) = granted (gov s) \<and> g_active (gov http) = g_active (gov s) - 1 \<and>
         granted (gov stream) = insert (oldest (gov s)) (granted (gov s)) \<and> g_active (gov stream) = g_active (gov s)"
proof -
  let ?note = "note_failure (g_now s) True h d"
  have q: "queue_ok (gov s)" using governors.reachable_inv [OF assms(1)] by (simp add: gsys_ok_def)
  have http: "gov http = release (?note (gov s))" and stream: "gov stream = ?note (release (gov s))"
    using calls by (auto simp: replay_Cons)
  have same: "same_slots (gov s) (?note (gov s))" "same_slots (release (gov s)) (?note (release (gov s)))"
    using note_failure_same by blast+
  have "limit (?note (gov s)) = halved (limit (gov s))"
    using fresh note_rate_limited_limit [of "g_now s" _ "gov s"] by (simp add: note_failure_def Let_def)
  then have less: "limit (?note (gov s)) < g_active (gov s)" using full halved_below by simp
  have "g_active (?note (gov s)) = g_active (gov s)" "queue_ok (?note (gov s))" "live (?note (gov s)) = live (gov s)"
      "granted (?note (gov s)) = granted (gov s)"
    using same(1) q by (auto simp: same_slots_def queue_ok_def)
  then have "granted (gov http) = granted (gov s) \<and> g_active (gov http) = g_active (gov s) - 1"
    using release_hands_over [of "?note (gov s)"] less assms(4) http by auto
  moreover have "granted (gov stream) = insert (oldest (gov s)) (granted (gov s)) \<and> g_active (gov stream) = g_active (gov s)"
    using release_hands_over [OF q] full assms(4) same(2) stream by (auto simp: same_slots_def)
  ultimately show ?thesis by blast
qed


section \<open>Runs\<close>

text \<open>A request with one retry whose server never answers: it is sent twice.\<close>

definition sample_opener :: opener where
  "sample_opener =
     \<lparr>op_model = ''m'', op_key = None, op_headers = [], stream_idle_secs = 60, op_effort = HighEffort,
      backoff_base = 10 ^ 9\<rparr>"

definition broken_run :: transport where
  "broken_run =
     \<lparr>tr_phase = Closed, tr_reopen = False, tr_budget = \<lparr>remaining = 0, used = 1\<rparr>, tr_committed = False,
      tr_body = ''{}'', tr_outs = [Inl (TransportError ''reset'')], tr_posts = [''{}'', ''{}'']\<rparr>"

lemma cap_positive: "backoff_cap 0 (10 ^ 9) = 10 ^ 9"
  by (simp add: backoff_cap_def DURATION_MAX_def U64_MAX_def NANOS_def MAX_BACKOFF_FACTOR_def MAX_BACKOFF_STEPS_def)

lemma failing_move:
  assumes "tr_phase s = Posting" "a = NoHeaders \<Longrightarrow> 0 < stream_idle_secs op" "post_once env op a = Inl f"
    "fst (post_failed op (0, False) (0, False) f s) = s'"
  shows "tmove env op s s'"
proof -
  have "post_failed op (0, False) (0, False) f s = (s', snd (post_failed op (0, False) (0, False) f s))"
    using assms(4) by (simp add: prod_eq_iff)
  then show ?thesis
    unfolding tmove_def using assms(1-3) tstep.post_failed [of s a op env f "(0, False)" "(0, False)" s'] by (auto simp: drawn_def)
qed

lemma broken_run_reached: "(tmove sample_env sample_opener)\<^sup>*\<^sup>* (new_transport ''{}'' (1 mod 2 ^ 32)) broken_run"
proof -
  let ?t0 = "new_transport ''{}'' 1"
  let ?t1 = "?t0\<lparr>tr_phase := Posting, tr_posts := [''{}'']\<rparr>"
  let ?t2 = "?t1\<lparr>tr_phase := Backoff (10 ^ 9), tr_budget := \<lparr>remaining = 0, used = 1\<rparr>\<rparr>"
  let ?t3 = "?t2\<lparr>tr_phase := Opening\<rparr>"
  let ?t4 = "?t3\<lparr>tr_phase := Posting, tr_posts := [''{}'', ''{}'']\<rparr>"
  note fail = post_failed_def retry_or_give_up_def reserve_def new_transport_def new_budget_def Let_def
  have "tmove sample_env sample_opener ?t0 ?t1"
    unfolding tmove_def using tstep.admitted_to_post [of ?t0] by (auto simp: new_transport_def)
  moreover have "tmove sample_env sample_opener ?t1 ?t2"
    by (rule failing_move [of _ NoHeaders _ _ "(IdleTimeout 120, None)"])
      (simp_all add: fail retry_delay_def backoff_delay_def sample_opener_def cap_positive [simplified]
        wait_secs_def sat_mul_def U64_MAX_def)
  moreover have "tmove sample_env sample_opener ?t2 ?t3"
    unfolding tmove_def using tstep.slept [of ?t2 "10 ^ 9"] by auto
  moreover have "tmove sample_env sample_opener ?t3 ?t4"
    unfolding tmove_def using tstep.admitted_to_post [of ?t3] by (auto simp: new_transport_def)
  moreover have "tmove sample_env sample_opener ?t4 broken_run"
    by (rule failing_move [of _ "SendError ''reset''" _ _ "(TransportError ''reset'', None)"])
      (simp_all add: fail open_failed_def give_up_def broken_run_def)
  ultimately have "(tmove sample_env sample_opener)\<^sup>*\<^sup>* ?t0 broken_run"
    by (meson rtranclp.rtrancl_into_rtrancl rtranclp.rtrancl_refl)
  then show ?thesis by simp
qed

theorem one_message_witness:
  "\<exists>starts evs rest. tr_outs broken_run = map Inr (starts @ evs) @ rest \<and> list_all is_start starts \<and>
     rest = [Inl (TransportError ''reset'')]"
  using one_message [OF broken_run_reached] by (auto simp: broken_run_def)

theorem retries_bounded_witness: "length (tr_posts broken_run) \<le> 1 + 1 \<and> set (tr_posts broken_run) \<subseteq> {''{}''}"
  using retries_bounded [OF broken_run_reached] by simp


text \<open>Three requests on an account with three slots, and one that waits.\<close>

definition three_slots :: provider_limits where
  "three_slots = \<lparr>pl_concurrency = 3, pl_queue_items = 4, pl_queue_bytes = 100\<rparr>"

definition admit_one :: "gsys \<Rightarrow> gsys" where
  "admit_one s = s\<lparr>racers := [], gov := grant (take_slot (gov s)), permits := permits s + 1\<rparr>"

lemma admit_one_reached:
  assumes "racers s = []" "queued_items (gov s) = 0" "cooldown_remaining (g_now s) (gov s) = 0"
    "g_active (gov s) < limit (gov s)"
  shows "gstep\<^sup>*\<^sup>* s (admit_one s)"
proof -
  let ?s = "s\<lparr>racers := [limit (gov s)]\<rparr>"
  have "gstep s ?s" using gstep.looked [of s] assms by simp
  moreover have "gstep ?s (admit_one s)"
    using gstep.won [of "limit (gov s)" ?s "take_slot (gov s)"] assms by (simp add: try_admit_def admit_one_def)
  ultimately show ?thesis by (meson rtranclp.rtrancl_into_rtrancl rtranclp.rtrancl_refl)
qed

definition full_run :: gsys where
  "full_run =
     (let s = admit_one (admit_one (admit_one (gstart three_slots)))
      in s\<lparr>gov := (fst (reserve_queue 7 (gov s)))\<lparr>g_waiters := [0], live := {0}\<rparr>, tickets := [(0, 7)], next_chan := 1\<rparr>)"

lemmas full_run_defs = admit_one_def gstart_def new_governor_def grant_def take_slot_def three_slots_def limit_def
  cooldown_remaining_def

lemma full_run_reached: "gstep\<^sup>*\<^sup>* (gstart three_slots) full_run"
proof -
  let ?s1 = "admit_one (gstart three_slots)"
  let ?s3 = "admit_one (admit_one ?s1)"
  let ?s4 = "?s3\<lparr>gov := fst (reserve_queue 7 (gov ?s3)), reserved := [7]\<rparr>"
  have "gstep\<^sup>*\<^sup>* (gstart three_slots) ?s1" by (rule admit_one_reached) (simp_all add: full_run_defs)
  moreover have "gstep\<^sup>*\<^sup>* ?s1 (admit_one ?s1)" by (rule admit_one_reached) (simp_all add: full_run_defs)
  moreover have "gstep\<^sup>*\<^sup>* (admit_one ?s1) ?s3" by (rule admit_one_reached) (simp_all add: full_run_defs)
  moreover have "gstep ?s3 ?s4"
    using gstep.asked [of 7 ?s3 "fst (reserve_queue 7 (gov ?s3))" True]
    by (simp add: full_run_defs reserve_queue_def Let_def)
  moreover have "gstep ?s4 full_run"
    using gstep.parked [of 7 ?s4 "(gov ?s4)\<lparr>g_waiters := [0], live := {0}\<rparr>"]
    by (simp add: full_run_def full_run_defs reserve_queue_def Let_def enqueue_def prune_def admit_waiters_def
        drain_step_def try_admit_def)
  ultimately show ?thesis by (meson rtranclp.rtrancl_into_rtrancl rtranclp_trans)
qed

lemma full_run_state:
  "permits full_run = 3" "drains full_run = 0" "live (gov full_run) = {0}" "g_active (gov full_run) = 3"
  "limit (gov full_run) = 3" "episode_until (g_aimd (gov full_run)) = None"
  by (simp_all add: full_run_def full_run_defs reserve_queue_def Let_def)

theorem stream_rate_limit_admits_witness:
  "\<exists>http stream. replay [Noted (RateLimited ''slow down'') False 0, Freed] full_run http \<and>
     replay [Freed, Noted (RateLimited ''slow down'') False 0] full_run stream \<and>
     g_active (gov http) = 2 \<and> g_active (gov stream) = 3"
proof -
  obtain http stream where r: "replay [Noted (RateLimited ''slow down'') False 0, Freed] full_run http"
      "replay [Freed, Noted (RateLimited ''slow down'') False 0] full_run stream"
    by (simp add: replay_Cons)
  have "g_active (gov http) = 2 \<and> g_active (gov stream) = 3"
    using stream_rate_limit_admits [OF full_run_reached _ _ _ _ _ _ r] full_run_state by simp
  then show ?thesis using r by blast
qed

text \<open>A request on a fresh account takes the first slot.\<close>

definition first_client :: client where
  "first_client =
     \<lparr>cl_gov = admit_one (gstart three_slots),
      cl_requests = [(new_transport ''{}'' 1)\<lparr>tr_phase := Posting, tr_posts := [''{}'']\<rparr>]\<rparr>"

lemma first_client_reached: "(cstep sample_env sample_opener)\<^sup>*\<^sup>* (new_client three_slots) first_client"
proof -
  let ?g0 = "gstart three_slots" and ?t = "new_transport ''{}'' 1"
  let ?g1 = "?g0\<lparr>racers := [3]\<rparr>"
  let ?c1 = "\<lparr>cl_gov = ?g0, cl_requests = [?t]\<rparr>" and ?c2 = "\<lparr>cl_gov = ?g1, cl_requests = [?t]\<rparr>"
  have "cstep sample_env sample_opener (new_client three_slots) ?c1"
    using cstep.begun [of _ _ "new_client three_slots" "''{}''" 1] by (simp add: new_client_def)
  moreover have "cstep sample_env sample_opener ?c1 ?c2"
    using cstep.governed [of ?c1 ?g1] gstep.looked [of ?g0] by (simp add: full_run_defs)
  moreover have "gstep ?g1 (admit_one ?g0)"
    using gstep.won [of 3 ?g1 "take_slot (gov ?g1)"] by (simp add: full_run_defs try_admit_def)
  then have "cstep sample_env sample_opener ?c2 first_client"
    using cstep.acted [of 0 ?c2 sample_env sample_opener "[Took]" "hd (cl_requests first_client)" "admit_one ?g0"]
      tstep.admitted_to_post [of ?t sample_env sample_opener]
    by (simp add: first_client_def replay_Cons new_transport_def admit_one_def gstart_def)
  ultimately show ?thesis by (meson rtranclp.rtrancl_into_rtrancl rtranclp.rtrancl_refl)
qed

theorem slots_are_held_witness: "g_active (gov (cl_gov first_client)) = 1"
  using slots_are_held [OF first_client_reached]
  by (simp add: first_client_def holds_slot_def full_run_defs)

end
