(* ===== verification/Notices.thy ===== *)
theory Notices
  imports Prelude "HOL-Library.Multiset"
begin

text \<open>
  \<^verbatim>\<open>crates/pacode-core/src/notice_lock.rs\<close>, the queue of \<^verbatim>\<open>inject.rs\<close>, \<^verbatim>\<open>take_due\<close> and
  \<^verbatim>\<open>restore_due\<close> of \<^verbatim>\<open>agent.rs\<close> and \<^verbatim>\<open>turn/drain.rs\<close>: what reaches the model between its steps.

  An agent has a live queue and a lock that parks reports while it is on and lets them out
  one at a time when it is off.  Both are lists, passed and returned; instants are
  nanoseconds.  Of agents and tasks the records hold the fields these modules read.  The
  operations of the lock, in any order and with the clock advancing, are the step relation
  \<open>nstep\<close>, which also counts what was parked, handed out and dropped.
\<close>

section \<open>Injections\<close>

record agent_card =
  ac_id :: string
  ac_name :: string

record task_card =
  ti_id :: string
  ti_label :: string
  ti_exit :: "int option"

datatype send_outcome = DeliveredMsg | AnsweredQuestion | Resumed "string option"

datatype injection =
    UserSteer "string option"
  | TaskFinished task_card string
  | TaskStalled task_card string
  | AgentFinished agent_card string
  | SystemNotice string
  | StatusRequest
  | AgentStatus agent_card string
  | ParentMessage string
  | AgentQuestion string string string string
  | SendLanded string string send_outcome
  | PlanReminder "string list" nat nat

fun is_holdable :: "injection \<Rightarrow> bool" where
  "is_holdable (UserSteer _) = False"
| "is_holdable StatusRequest = False"
| "is_holdable (ParentMessage _) = False"
| "is_holdable (AgentQuestion _ _ _ _) = False"
| "is_holdable (SendLanded _ _ _) = False"
| "is_holdable (PlanReminder _ _ _) = False"
| "is_holdable _ = True"

fun is_parent_message :: "injection \<Rightarrow> bool" where
  "is_parent_message (ParentMessage _) = True"
| "is_parent_message _ = False"

fun is_question :: "injection \<Rightarrow> bool" where
  "is_question (AgentQuestion _ _ _ _) = True"
| "is_question _ = False"

fun is_steer :: "injection \<Rightarrow> bool" where
  "is_steer (UserSteer _) = True"
| "is_steer _ = False"

text \<open>The asker and the call of a question.\<close>

fun question_key :: "injection \<Rightarrow> (string \<times> string) option" where
  "question_key (AgentQuestion agent _ call _) = Some (agent, call)"
| "question_key _ = None"

section \<open>The live queue\<close>

type_synonym injections = "injection list"

definition push_injection :: "injection \<Rightarrow> injections \<Rightarrow> injections" where
  "push_injection i q = q @ [i]"

definition count_matching :: "(injection \<Rightarrow> bool) \<Rightarrow> injections \<Rightarrow> nat" where
  "count_matching counts q = length (filter counts q)"

definition push_limited :: "injection \<Rightarrow> nat \<Rightarrow> (injection \<Rightarrow> bool) \<Rightarrow> injections \<Rightarrow> injections \<times> bool" where
  "push_limited i limit counts q =
     (if limit \<le> count_matching counts q then (q, False) else (q @ [i], True))"

text \<open>\<^verbatim>\<open>restore\<close>: from the last item on, each is put in front.\<close>

definition restore :: "injection list \<Rightarrow> injections \<Rightarrow> injections" where
  "restore items q = foldl (\<lambda>q i. i # q) q (rev items)"

definition has_user_admission :: "injections \<Rightarrow> bool" where
  "has_user_admission q = list_ex (\<lambda>i. case i of UserSteer (Some _) \<Rightarrow> True | _ \<Rightarrow> False) q"

definition has_parent_message :: "injections \<Rightarrow> bool" where
  "has_parent_message q = list_ex is_parent_message q"

definition retract_question :: "string \<Rightarrow> string \<Rightarrow> injections \<Rightarrow> injections" where
  "retract_question agent call q = filter (\<lambda>i. question_key i \<noteq> Some (agent, call)) q"

definition take_where :: "(injection \<Rightarrow> bool) \<Rightarrow> injections \<Rightarrow> injections \<times> injection list" where
  "take_where t q = (filter (\<lambda>i. \<not> t i) q, filter t q)"

definition take_questions :: "injections \<Rightarrow> injections \<times> injection list" where
  "take_questions q = take_where is_question q"

fun finished_of :: "string \<Rightarrow> injection \<Rightarrow> bool" where
  "finished_of agent (AgentFinished a _) = (ac_id a = agent)"
| "finished_of agent _ = False"

definition take_agent_finished :: "string \<Rightarrow> injections \<Rightarrow> injections \<times> injection list" where
  "take_agent_finished agent q = take_where (finished_of agent) q"

section \<open>Notices\<close>

datatype notice_kind = KAgentFinished | KTaskFinished | KTaskStalled | KSubagentReport | KSystemNotice

datatype source = AgentSource string | TaskSource string | SystemSource

datatype notice =
    NAgentFinished string string string
  | NTaskFinished string string int string
  | NTaskStalled string string string
  | NSubagentReport string string
  | NSystemNotice string

fun from_injection :: "injection \<Rightarrow> notice option" where
  "from_injection (TaskFinished task tail) =
     Some (NTaskFinished (ti_id task) (ti_label task) (case ti_exit task of Some c \<Rightarrow> c | None \<Rightarrow> 0) tail)"
| "from_injection (TaskStalled task tail) = Some (NTaskStalled (ti_id task) (ti_label task) tail)"
| "from_injection (AgentFinished agent answer) = Some (NAgentFinished (ac_id agent) (ac_name agent) answer)"
| "from_injection (AgentStatus agent txt) = Some (NSubagentReport (ac_id agent) txt)"
| "from_injection (SystemNotice txt) = Some (NSystemNotice txt)"
| "from_injection _ = None"

fun notice_kind_of :: "notice \<Rightarrow> notice_kind" where
  "notice_kind_of (NAgentFinished _ _ _) = KAgentFinished"
| "notice_kind_of (NTaskFinished _ _ _ _) = KTaskFinished"
| "notice_kind_of (NTaskStalled _ _ _) = KTaskStalled"
| "notice_kind_of (NSubagentReport _ _) = KSubagentReport"
| "notice_kind_of (NSystemNotice _) = KSystemNotice"

fun notice_source :: "notice \<Rightarrow> source" where
  "notice_source (NAgentFinished agent _ _) = AgentSource agent"
| "notice_source (NSubagentReport agent _) = AgentSource agent"
| "notice_source (NTaskFinished task _ _ _) = TaskSource task"
| "notice_source (NTaskStalled task _ _) = TaskSource task"
| "notice_source (NSystemNotice _) = SystemSource"

type_synonym slot = "notice_kind \<times> source \<times> string"

fun notice_slot :: "notice \<Rightarrow> slot" where
  "notice_slot (NAgentFinished agent _ answer) = (KAgentFinished, AgentSource agent, answer)"
| "notice_slot (NTaskFinished task _ _ tail) = (KTaskFinished, TaskSource task, tail)"
| "notice_slot (NTaskStalled task _ tail) = (KTaskStalled, TaskSource task, tail)"
| "notice_slot (NSubagentReport agent txt) = (KSubagentReport, AgentSource agent, txt)"
| "notice_slot (NSystemNotice txt) = (KSystemNotice, SystemSource, txt)"

section \<open>The lock\<close>

definition DRAIN_INTERVAL :: nat where
  "DRAIN_INTERVAL = 250 * 1000000"

definition QUEUE_CAP :: nat where
  "QUEUE_CAP = 64"

definition PER_SOURCE_CAP :: nat where
  "PER_SOURCE_CAP = 8"

record held_notice =
  hn_injection :: injection
  hn_notice :: notice
  hn_count :: nat

record notice_lock =
  nl_locked :: bool
  toggled_at :: "nat option"
  nl_queue :: "held_notice list"
  nl_dropped :: nat
  next_due :: "nat option"

definition new_lock :: notice_lock where
  "new_lock = \<lparr>nl_locked = False, toggled_at = None, nl_queue = [], nl_dropped = 0, next_due = None\<rparr>"

text \<open>The text a multiplicity is written into.\<close>

definition prepend_mark :: "nat \<Rightarrow> string \<Rightarrow> string" where
  "prepend_mark n txt =
     (if starts_with txt ''['' then txt else ''[x'' @ show_nat n @ ''] '' @ txt)"

fun mark_injection :: "nat \<Rightarrow> injection \<Rightarrow> injection" where
  "mark_injection n (TaskFinished t tail) = TaskFinished t (prepend_mark n tail)"
| "mark_injection n (TaskStalled t tail) = TaskStalled t (prepend_mark n tail)"
| "mark_injection n (AgentFinished a answer) = AgentFinished a (prepend_mark n answer)"
| "mark_injection n (AgentStatus a txt) = AgentStatus a (prepend_mark n txt)"
| "mark_injection n (SystemNotice txt) = SystemNotice (prepend_mark n txt)"
| "mark_injection n i = i"

definition held_release :: "held_notice \<Rightarrow> injection" where
  "held_release h = (if hn_count h \<le> 1 then hn_injection h else mark_injection (hn_count h) (hn_injection h))"

definition same_slot :: "notice \<Rightarrow> held_notice \<Rightarrow> bool" where
  "same_slot n h \<longleftrightarrow> notice_slot (hn_notice h) = notice_slot n"

definition same_source :: "notice \<Rightarrow> held_notice \<Rightarrow> bool" where
  "same_source n h \<longleftrightarrow> notice_source (hn_notice h) = fst (snd (notice_slot n))"

fun bump_first :: "(held_notice \<Rightarrow> bool) \<Rightarrow> held_notice list \<Rightarrow> held_notice list" where
  "bump_first P [] = []"
| "bump_first P (h # hs) =
     (if P h then h\<lparr>hn_count := min (hn_count h + 1) (2 ^ 32 - 1)\<rparr> # hs else h # bump_first P hs)"

fun remove_first :: "('a \<Rightarrow> bool) \<Rightarrow> 'a list \<Rightarrow> 'a list" where
  "remove_first P [] = []"
| "remove_first P (x # xs) = (if P x then xs else x # remove_first P xs)"

definition hold :: "injection \<Rightarrow> notice \<Rightarrow> notice_lock \<Rightarrow> notice_lock" where
  "hold i n s =
     (let entry = \<lparr>hn_injection = i, hn_notice = n, hn_count = 1\<rparr>
      in if list_ex (same_slot n) (nl_queue s) then s\<lparr>nl_queue := bump_first (same_slot n) (nl_queue s)\<rparr>
         else if PER_SOURCE_CAP \<le> length (filter (same_source n) (nl_queue s))
         then s\<lparr>nl_queue := remove_first (same_source n) (nl_queue s) @ [entry], nl_dropped := nl_dropped s + 1\<rparr>
         else if QUEUE_CAP \<le> length (nl_queue s) then s\<lparr>nl_dropped := nl_dropped s + 1\<rparr>
         else s\<lparr>nl_queue := nl_queue s @ [entry]\<rparr>)"

definition hold_if_locked :: "injection \<Rightarrow> notice_lock \<Rightarrow> notice_lock \<times> bool" where
  "hold_if_locked i s =
     (if \<not> nl_locked s then (s, False)
      else case from_injection i of None \<Rightarrow> (s, False) | Some n \<Rightarrow> (hold i n s, True))"

definition set_locked :: "bool \<Rightarrow> nat \<Rightarrow> notice_lock \<Rightarrow> notice_lock \<times> bool" where
  "set_locked locked now s =
     (if locked = nl_locked s then (s, False)
      else
        (s\<lparr>nl_locked := locked, toggled_at := (if locked then Some now else None),
           next_due :=
             (if locked then next_due s
              else if nl_queue s = [] then None
              else Some (case next_due s of None \<Rightarrow> now | Some due \<Rightarrow> max due now))\<rparr>, True))"

definition toggle :: "nat \<Rightarrow> notice_lock \<Rightarrow> notice_lock \<times> bool" where
  "toggle now s = (fst (set_locked (\<not> nl_locked s) now s), \<not> nl_locked s)"

definition wants_work :: "notice_lock \<Rightarrow> bool" where
  "wants_work s \<longleftrightarrow> \<not> nl_locked s \<and> nl_queue s \<noteq> []"

definition next_release_in :: "nat \<Rightarrow> notice_lock \<Rightarrow> nat option" where
  "next_release_in now s = map_option (\<lambda>due. due - now) (next_due s)"

definition discard_held :: "notice_lock \<Rightarrow> notice_lock" where
  "discard_held s = s\<lparr>nl_dropped := nl_dropped s + length (nl_queue s), nl_queue := [], next_due := None\<rparr>"

definition take_agent_parked :: "string \<Rightarrow> notice_lock \<Rightarrow> notice_lock \<times> injection list" where
  "take_agent_parked agent s =
     (let kept = filter (\<lambda>h. \<not> finished_of agent (hn_injection h)) (nl_queue s);
          taken = filter (\<lambda>h. finished_of agent (hn_injection h)) (nl_queue s)
      in (s\<lparr>nl_queue := kept, next_due := (if kept = [] then None else next_due s)\<rparr>, map hn_injection taken))"

definition reset_lock :: "notice_lock \<Rightarrow> notice_lock" where
  "reset_lock s = (discard_held s)\<lparr>nl_locked := False, toggled_at := None\<rparr>"

datatype lock_badge = Holding nat nat | Draining nat

definition badge :: "notice_lock \<Rightarrow> lock_badge option" where
  "badge s =
     (if nl_locked s then Some (Holding (length (nl_queue s)) (nl_dropped s))
      else if nl_queue s = [] then None else Some (Draining (length (nl_queue s))))"

definition notices_word :: "nat \<Rightarrow> string" where
  "notices_word n = (if n = 1 then ''notice'' else ''notices'')"

definition stats_line :: "notice_lock \<Rightarrow> string" where
  "stats_line s =
     (case badge s of
        Some (Holding held dropped) \<Rightarrow>
          if 0 < dropped
          then ''notice lock: on, holding '' @ show_nat held @ '' '' @ notices_word held @ '', '' @ show_nat dropped @
            '' dropped''
          else ''notice lock: on, holding '' @ show_nat held @ '' '' @ notices_word held
      | Some (Draining left) \<Rightarrow> ''notice lock: off, draining '' @ show_nat left @ '' '' @ notices_word left
      | None \<Rightarrow> ''notice lock: off'')"

text \<open>The entry, and the deadline before the take.\<close>

definition take_held_due :: "nat \<Rightarrow> notice_lock \<Rightarrow> notice_lock \<times> (held_notice \<times> nat option) option" where
  "take_held_due now s =
     (if nl_locked s then (s, None)
      else if (case next_due s of Some due \<Rightarrow> now < due | None \<Rightarrow> False) then (s, None)
      else case nl_queue s of
             [] \<Rightarrow> (s, None)
           | h # hs \<Rightarrow>
               (s\<lparr>nl_queue := hs, next_due := (if hs = [] then None else Some (now + DRAIN_INTERVAL))\<rparr>,
                Some (h, next_due s)))"

definition restore_held_due :: "held_notice \<Rightarrow> nat option \<Rightarrow> notice_lock \<Rightarrow> notice_lock" where
  "restore_held_due h prev s = s\<lparr>nl_queue := h # nl_queue s, next_due := prev\<rparr>"

section \<open>The inbox of an agent\<close>

record inbox =
  ib_live :: injections
  ib_lock :: notice_lock

text \<open>An item of a batch, with the parked entry it came from, if any.\<close>

record taken_item =
  tk_injection :: injection
  tk_entry :: "held_notice option"

record taken =
  tk_items :: "taken_item list"
  prev_due :: "nat option"

definition queued_item :: "injection \<Rightarrow> taken_item" where
  "queued_item i = \<lparr>tk_injection = i, tk_entry = None\<rparr>"

definition held_item :: "held_notice \<Rightarrow> taken_item" where
  "held_item h = \<lparr>tk_injection = held_release h, tk_entry = Some h\<rparr>"

definition take_due :: "nat \<Rightarrow> inbox \<Rightarrow> inbox \<times> taken option" where
  "take_due now b =
     (case take_held_due now (ib_lock b) of
        (lock, release) \<Rightarrow>
          (let items = (case release of Some (h, _) \<Rightarrow> [held_item h] | None \<Rightarrow> []) @ map queued_item (ib_live b);
               prev = (case release of Some (_, due) \<Rightarrow> due | None \<Rightarrow> None);
               b' = b\<lparr>ib_live := [], ib_lock := lock\<rparr>
           in (b', if items = [] then None else Some \<lparr>tk_items = items, prev_due = prev\<rparr>)))"

text \<open>\<^verbatim>\<open>restore_due\<close> splits the batch from its end.\<close>

definition restore_due :: "taken \<Rightarrow> inbox \<Rightarrow> inbox" where
  "restore_due t b =
     (let items = rev (tk_items t);
          parked = List.map_filter tk_entry items;
          queued = map tk_injection (filter (\<lambda>x. tk_entry x = None) items)
      in b\<lparr>ib_lock := foldl (\<lambda>l h. restore_held_due h (prev_due t) l) (ib_lock b) parked,
           ib_live := restore queued (ib_live b)\<rparr>)"

definition discard_injections :: "inbox \<Rightarrow> inbox \<times> nat" where
  "discard_injections b = (b\<lparr>ib_live := [], ib_lock := discard_held (ib_lock b)\<rparr>, length (ib_live b))"

section \<open>The drain between two steps\<close>

datatype drain_outcome = IdleDrain | ContinueDrain | DeferredAdmission | DrainFailed

fun is_foreign_admission :: "string option \<Rightarrow> injection \<Rightarrow> bool" where
  "is_foreign_admission admission (UserSteer (Some candidate)) = (Some candidate \<noteq> admission)"
| "is_foreign_admission admission _ = False"

text \<open>What a drain did besides: the items put into the history, whose questions are marked as
  delivered, and the items that can never be shown, whose questions end as failed.  Whether
  the store hides the messages of other admissions and keeps the batch is given.\<close>

record drained_batch =
  dr_outcome :: drain_outcome
  dr_delivered :: "injection list"
  dr_undeliverable :: "injection list"

definition drain_injections :: "string option \<Rightarrow> bool \<Rightarrow> nat \<Rightarrow> bool \<Rightarrow> bool \<Rightarrow> inbox \<Rightarrow> inbox \<times> drained_batch" where
  "drain_injections admission defer_admissions now hidden persisted b =
     (let batch = (\<lambda>out d u. \<lparr>dr_outcome = out, dr_delivered = d, dr_undeliverable = u\<rparr>)
      in case take_due now b of
           (b1, None) \<Rightarrow> (b1, batch IdleDrain [] [])
         | (b1, Some t) \<Rightarrow>
             if defer_admissions \<and> list_ex (\<lambda>x. is_foreign_admission admission (tk_injection x)) (tk_items t)
             then (restore_due t b1, batch DeferredAdmission [] [])
             else
               (let deferred = filter (\<lambda>x. is_foreign_admission admission (tk_injection x)) (tk_items t);
                    active = map tk_injection (filter (\<lambda>x. \<not> is_foreign_admission admission (tk_injection x)) (tk_items t));
                    b2 = restore_due (t\<lparr>tk_items := deferred\<rparr>) b1;
                    renderable = filter (\<lambda>i. \<not> is_steer i) active
                in if \<not> hidden then (b2, batch DrainFailed [] active)
                   else if active = [] then (b2, batch IdleDrain [] [])
                   else if renderable = []
                   then (b2, batch (if list_ex is_steer active then ContinueDrain else IdleDrain) [] [])
                   else if \<not> persisted then (b2, batch DrainFailed [] renderable)
                   else (b2, batch ContinueDrain renderable [])))"


section \<open>Taking and restoring\<close>

lemma restore_eq: "restore items q = items @ q"
proof -
  have "foldl (\<lambda>q i. i # q) q xs = rev xs @ q" for xs by (induction xs arbitrary: q) simp_all
  then show ?thesis by (simp add: restore_def)
qed

lemma take_held_due_cases:
  obtains (none) "take_held_due now s = (s, None)"
  | (some) h hs where "nl_queue s = h # hs" "\<not> nl_locked s"
      "take_held_due now s =
        (s\<lparr>nl_queue := hs, next_due := (if hs = [] then None else Some (now + DRAIN_INTERVAL))\<rparr>, Some (h, next_due s))"
proof (cases "nl_locked s \<or> (case next_due s of Some due \<Rightarrow> now < due | None \<Rightarrow> False) \<or> nl_queue s = []")
  case True
  then show thesis by (intro none) (auto simp: take_held_due_def)
next
  case False
  then obtain h hs where "nl_queue s = h # hs" by (cases "nl_queue s") auto
  with False show thesis by (intro some) (simp_all add: take_held_due_def)
qed

lemma restore_held_take:
  "take_held_due now s = (s', Some (h, prev)) \<Longrightarrow> restore_held_due h prev s' = s"
  by (cases now s rule: take_held_due_cases) (auto simp: restore_held_due_def)

lemma map_filter_queued [simp]: "List.map_filter tk_entry (map queued_item is) = []"
  by (induction "is") (simp_all add: queued_item_def List.map_filter_simps)

lemma queued_items [simp]:
  "map tk_injection (filter (\<lambda>x. tk_entry x = None) (map queued_item is)) = is"
  "filter (\<lambda>x. tk_entry x = None) (map queued_item is) = map queued_item is"
  "tk_injection \<circ> queued_item = (\<lambda>i. i)"
  by (induction "is") (auto simp: queued_item_def)

lemma restore_whole:
  assumes "take_due now b = (b', Some t)"
  shows "restore_due t b' = b\<lparr>ib_live := rev (ib_live b)\<rparr>"
proof (cases now "ib_lock b" rule: take_held_due_cases)
  case none
  then have "b' = b\<lparr>ib_live := []\<rparr>" "t = \<lparr>tk_items = map queued_item (ib_live b), prev_due = None\<rparr>"
    using assms by (auto simp: take_due_def split: if_splits)
  then show ?thesis
    by (simp add: restore_due_def restore_eq rev_map)
next
  case (some h hs)
  define l where "l = (ib_lock b)\<lparr>nl_queue := hs, next_due := (if hs = [] then None else Some (now + DRAIN_INTERVAL))\<rparr>"
  have "b' = b\<lparr>ib_live := [], ib_lock := l\<rparr>"
      "t = \<lparr>tk_items = held_item h # map queued_item (ib_live b), prev_due = next_due (ib_lock b)\<rparr>"
    using assms some by (auto simp: take_due_def l_def split: if_splits)
  moreover have "restore_held_due h (next_due (ib_lock b)) l = ib_lock b"
    using restore_held_take [of now "ib_lock b"] some by (simp add: l_def)
  ultimately show ?thesis
    by (simp add: restore_due_def restore_eq rev_map map_filter_append held_item_def List.map_filter_simps)
qed

text \<open>Putting a batch back reverses the live queue.  A caller that takes what is due and
  declines it puts the parked notice and the release deadline back exactly, but the items
  of the live queue come back in the opposite order; only a queue of at most one item, or
  one that reads the same backwards, is left as it was.\<close>

theorem restore_reverses:
  assumes "take_due now b = (b', Some t)"
  shows "restore_due t b' = b\<lparr>ib_live := rev (ib_live b)\<rparr>"
  using assms by (rule restore_whole)


section \<open>What a drain does with a batch\<close>

text \<open>Every parked entry is a holdable injection with its own view.\<close>

definition parked_ok :: "notice_lock \<Rightarrow> bool" where
  "parked_ok l \<longleftrightarrow> list_all (\<lambda>h. from_injection (hn_injection h) = Some (hn_notice h)) (nl_queue l)"

lemma from_injection_holdable: "is_holdable i \<longleftrightarrow> from_injection i \<noteq> None"
  by (cases i) simp_all

lemma mark_holdable [simp]: "is_holdable (mark_injection n i) = is_holdable i"
  by (cases i) simp_all

lemma holdable_no_question: "is_holdable i \<Longrightarrow> \<not> is_question i \<and> \<not> is_steer i"
  by (cases i) simp_all

lemma held_release_holdable: "from_injection (hn_injection h) = Some n \<Longrightarrow> is_holdable (held_release h)"
  using from_injection_holdable [of "hn_injection h"] by (simp add: held_release_def)

lemma take_due_None: "take_due now b = (b', None) \<Longrightarrow> ib_live b = [] \<and> ib_live b' = []"
  by (auto simp: take_due_def Let_def split: if_splits prod.splits)

lemma take_due_batch:
  assumes "take_due now b = (b', Some t)" "parked_ok (ib_lock b)"
  obtains hs where "map tk_injection (tk_items t) = hs @ ib_live b" "list_all is_holdable hs" "ib_live b' = []"
proof (cases now "ib_lock b" rule: take_held_due_cases)
  case none
  then show thesis
    using assms(1) by (intro that [of "[]"]) (auto simp: take_due_def queued_item_def filter_empty_conv o_def split: if_splits)
next
  case (some h hs)
  then have "is_holdable (held_release h)" using assms(2) by (auto simp: parked_ok_def intro: held_release_holdable)
  then show thesis
    using assms(1) some
    by (intro that [of "[held_release h]"])
      (auto simp: take_due_def queued_item_def held_item_def filter_empty_conv o_def split: if_splits)
qed

lemma restore_due_live:
  "ib_live (restore_due t b) = rev (map tk_injection (filter (\<lambda>x. tk_entry x = None) (tk_items t))) @ ib_live b"
  by (simp add: restore_due_def restore_eq Let_def rev_map rev_filter [symmetric])

lemma foreign_not_holdable: "is_foreign_admission a i \<Longrightarrow> \<not> is_holdable i \<and> \<not> is_question i \<and> is_steer i"
  by (cases "(a, i)" rule: is_foreign_admission.cases) simp_all

lemma questions_of_batch:
  assumes "map tk_injection items = hs @ live" "list_all is_holdable hs"
  shows "filter is_question (map tk_injection items) = filter is_question live"
  using assms holdable_no_question by (auto simp: filter_empty_conv list_all_iff)

lemma active_questions:
  "filter is_question (map tk_injection (filter (\<lambda>x. \<not> is_foreign_admission a (tk_injection x)) items)) =
     filter is_question (map tk_injection items)"
  by (induction items) (auto dest: foreign_not_holdable)

lemma deferred_questions:
  "filter is_question (rev (map tk_injection (filter P (filter (\<lambda>x. is_foreign_admission a (tk_injection x)) items)))) = []"
  by (auto simp: filter_empty_conv dest: foreign_not_holdable)

lemma renderable_questions: "filter is_question (filter (\<lambda>i. \<not> is_steer i) is) = filter is_question is"
proof -
  have "is_question i \<Longrightarrow> \<not> is_steer i" for i by (cases i) simp_all
  then show ?thesis by (induction "is") auto
qed

text \<open>No question vanishes in a drain.  Whatever the store does, every question that was in
  the live queue is afterwards still in it, or was put into the history and is marked as
  delivered, or is reported as undeliverable so that its asker goes on; and it is exactly
  one of these.\<close>

theorem drain_keeps_questions:
  assumes "parked_ok (ib_lock b)" "drain_injections admission defer now hidden persisted b = (b', r)"
  shows "mset (filter is_question (ib_live b)) =
           mset (filter is_question (ib_live b')) + mset (filter is_question (dr_delivered r)) +
           mset (filter is_question (dr_undeliverable r))"
proof (cases "take_due now b")
  case (Pair b1 o1)
  show ?thesis
  proof (cases o1)
    case None
    then show ?thesis using take_due_None [of now b b1] assms(2) Pair by (auto simp: drain_injections_def)
  next
    case (Some t)
    then have t: "take_due now b = (b1, Some t)" using Pair by simp
    from take_due_batch [OF t assms(1)] obtain hs where hs: "map tk_injection (tk_items t) = hs @ ib_live b"
      "list_all is_holdable hs" "ib_live b1 = []" by blast
    let ?def = "restore_due (t\<lparr>tk_items := filter (\<lambda>x. is_foreign_admission admission (tk_injection x)) (tk_items t)\<rparr>) b1"
    let ?active = "map tk_injection (filter (\<lambda>x. \<not> is_foreign_admission admission (tk_injection x)) (tk_items t))"
    have none: "filter is_question (ib_live ?def) = []"
      using deferred_questions hs(3) by (simp add: restore_due_live del: filter_filter)
    have act: "filter is_question ?active = filter is_question (ib_live b)"
      by (rule trans [OF active_questions questions_of_batch [OF hs(1,2)]])
    consider (all) "b' = restore_due t b1" "dr_delivered r = []" "dr_undeliverable r = []"
      | (failed) "b' = ?def" "dr_delivered r = []" "dr_undeliverable r \<in> {?active, filter (\<lambda>i. \<not> is_steer i) ?active}"
      | (idle) "b' = ?def" "dr_delivered r = []" "dr_undeliverable r = []" "filter (\<lambda>i. \<not> is_steer i) ?active = []"
      | (shown) "b' = ?def" "dr_delivered r = filter (\<lambda>i. \<not> is_steer i) ?active" "dr_undeliverable r = []"
      using assms(2) t by (auto simp: drain_injections_def Let_def split: if_splits)
    then show ?thesis
    proof cases
      case all
      then have "b' = b\<lparr>ib_live := rev (ib_live b)\<rparr>" using t restore_whole by simp
      then show ?thesis using all by (simp add: rev_filter)
    next
      case failed
      then have "filter is_question (dr_undeliverable r) = filter is_question (ib_live b)"
        using act renderable_questions [of ?active] by auto
      then show ?thesis using none failed by simp
    next
      case idle
      then have "filter is_question (ib_live b) = []" using act renderable_questions [of ?active] by simp
      then show ?thesis using none idle by simp
    next
      case shown
      then have "filter is_question (dr_delivered r) = filter is_question (ib_live b)"
        using act renderable_questions [of ?active] by simp
      then show ?thesis using none shown by simp
    qed
  qed
qed


section \<open>The lock in use\<close>

text \<open>The lock, the clock, the release a turn has in hand, and counts of what was parked or
  refused and of what was handed out.\<close>

record nsys =
  ns_lock :: notice_lock
  ns_now :: nat
  ns_hand :: "(held_notice \<times> nat option) option"
  ns_parked :: nat
  ns_given :: nat

definition nstart :: nsys where
  "nstart = \<lparr>ns_lock = new_lock, ns_now = 0, ns_hand = None, ns_parked = 0, ns_given = 0\<rparr>"

definition merges :: "injection \<Rightarrow> notice_lock \<Rightarrow> bool" where
  "merges i l \<longleftrightarrow> (case from_injection i of Some n \<Rightarrow> list_ex (same_slot n) (nl_queue l) | None \<Rightarrow> False)"

text \<open>Time passes, a report arrives, the switch is set, a turn takes the next release and
  delivers it or puts it back, a resumed agent's reports are taken out, an agent is stopped
  or the session is closed.\<close>

inductive nstep :: "nsys \<Rightarrow> nsys \<Rightarrow> bool" where
  time_passed: "nstep s (s\<lparr>ns_now := ns_now s + d\<rparr>)"
| arrived: "hold_if_locked i (ns_lock s) = (l, kept) \<Longrightarrow>
    nstep s (s\<lparr>ns_lock := l,
      ns_parked := ns_parked s + (if kept \<and> \<not> merges i (ns_lock s) then 1 else 0)\<rparr>)"
| switched: "set_locked b (ns_now s) (ns_lock s) = (l, moved) \<Longrightarrow> nstep s (s\<lparr>ns_lock := l\<rparr>)"
| took: "ns_hand s = None \<Longrightarrow> take_held_due (ns_now s) (ns_lock s) = (l, release) \<Longrightarrow>
    nstep s (s\<lparr>ns_lock := l, ns_hand := release\<rparr>)"
| shown: "ns_hand s = Some x \<Longrightarrow> nstep s (s\<lparr>ns_hand := None, ns_given := ns_given s + 1\<rparr>)"
| put_back: "ns_hand s = Some (h, prev) \<Longrightarrow>
    nstep s (s\<lparr>ns_hand := None, ns_lock := restore_held_due h prev (ns_lock s)\<rparr>)"
| reports_taken: "take_agent_parked agent (ns_lock s) = (l, reports) \<Longrightarrow>
    nstep s (s\<lparr>ns_lock := l, ns_given := ns_given s + length reports\<rparr>)"
| stopped: "nstep s (s\<lparr>ns_lock := discard_held (ns_lock s)\<rparr>)"
| session_closed: "nstep s (s\<lparr>ns_lock := reset_lock (ns_lock s)\<rparr>)"

definition parked_entry_ok :: "held_notice \<Rightarrow> bool" where
  "parked_entry_ok h \<longleftrightarrow> from_injection (hn_injection h) = Some (hn_notice h) \<and> 1 \<le> hn_count h"

definition in_hand :: "nsys \<Rightarrow> held_notice list" where
  "in_hand s = (case ns_hand s of Some (h, _) \<Rightarrow> [h] | None \<Rightarrow> [])"

definition source_count :: "source \<Rightarrow> held_notice list \<Rightarrow> nat" where
  "source_count src hs = length (filter (\<lambda>h. notice_source (hn_notice h) = src) hs)"

text \<open>The caps, with one more for a release that may be put back; the entries; the accounts;
  and a deadline for every backlog that may go out.\<close>

definition nsys_ok :: "nsys \<Rightarrow> bool" where
  "nsys_ok s \<longleftrightarrow>
     list_all parked_entry_ok (in_hand s @ nl_queue (ns_lock s)) \<and>
     length (in_hand s @ nl_queue (ns_lock s)) \<le> QUEUE_CAP + 1 \<and>
     (\<forall>src. source_count src (in_hand s @ nl_queue (ns_lock s)) \<le> PER_SOURCE_CAP + 1) \<and>
     ns_parked s = length (in_hand s @ nl_queue (ns_lock s)) + ns_given s + nl_dropped (ns_lock s) \<and>
     (wants_work (ns_lock s) \<longrightarrow> next_due (ns_lock s) \<noteq> None) \<and>
     (\<forall>h prev. ns_hand s = Some (h, prev) \<longrightarrow> prev \<noteq> None)"

lemma source_count_simps [simp]:
  "source_count src [] = 0"
  "source_count src (h # hs) = (if notice_source (hn_notice h) = src then 1 else 0) + source_count src hs"
  "source_count src (hs @ hs') = source_count src hs + source_count src hs'"
  by (simp_all add: source_count_def)

lemma slot_source [simp]: "fst (snd (notice_slot n)) = notice_source n"
  by (cases n) simp_all

lemma same_source_count: "length (filter (same_source n) hs) = source_count (notice_source n) hs"
  by (induction hs) (simp_all add: same_source_def)

lemma bump_first_facts [simp]:
  "length (bump_first P hs) = length hs" "source_count src (bump_first P hs) = source_count src hs"
  by (induction hs) simp_all

lemma bump_first_ok: "list_all parked_entry_ok hs \<Longrightarrow> list_all parked_entry_ok (bump_first P hs)"
  by (induction hs) (auto simp: parked_entry_ok_def)

lemma remove_first_facts:
  assumes "list_ex P hs"
  shows "length (remove_first P hs) + 1 = length hs" "list_all Q hs \<Longrightarrow> list_all Q (remove_first P hs)"
  using assms by (induction hs) auto

lemma remove_first_source:
  "list_ex (same_source n) hs \<Longrightarrow>
     source_count src (remove_first (same_source n) hs) + (if src = notice_source n then 1 else 0) = source_count src hs"
  by (induction hs) (auto simp: same_source_def)

lemma full_source_exists: "PER_SOURCE_CAP \<le> length (filter (same_source n) hs) \<Longrightarrow> list_ex (same_source n) hs"
  by (cases "filter (same_source n) hs") (auto simp: list_ex_iff PER_SOURCE_CAP_def filter_eq_Cons_iff)


lemma hand_at_most_one: "length (in_hand s) \<le> 1" "source_count src (in_hand s) \<le> 1"
  by (auto simp: in_hand_def split: option.splits)

lemma hold_keeps [simp]: "nl_locked (hold i n l) = nl_locked l" "next_due (hold i n l) = next_due l"
  by (simp_all add: hold_def Let_def)

text \<open>The queue and the dropped count after an arrival, by what became of it.\<close>

lemma hold_cases:
  assumes "from_injection i = Some n" "list_all parked_entry_ok (nl_queue l)"
  obtains (merged) "list_ex (same_slot n) (nl_queue l)" "length (nl_queue (hold i n l)) = length (nl_queue l)"
      "\<And>src. source_count src (nl_queue (hold i n l)) = source_count src (nl_queue l)"
      "nl_dropped (hold i n l) = nl_dropped l" "list_all parked_entry_ok (nl_queue (hold i n l))"
  | (refused) "\<not> list_ex (same_slot n) (nl_queue l)" "length (nl_queue (hold i n l)) = length (nl_queue l)"
      "\<And>src. source_count src (nl_queue (hold i n l)) = source_count src (nl_queue l)"
      "nl_dropped (hold i n l) = nl_dropped l + 1" "list_all parked_entry_ok (nl_queue (hold i n l))"
  | (parked) "\<not> list_ex (same_slot n) (nl_queue l)" "length (nl_queue (hold i n l)) = length (nl_queue l) + 1"
      "length (nl_queue l) < QUEUE_CAP"
      "\<And>src. source_count src (nl_queue (hold i n l)) =
         source_count src (nl_queue l) + (if src = notice_source n then 1 else 0)"
      "source_count (notice_source n) (nl_queue l) < PER_SOURCE_CAP"
      "nl_dropped (hold i n l) = nl_dropped l" "list_all parked_entry_ok (nl_queue (hold i n l))"
proof (cases "list_ex (same_slot n) (nl_queue l)")
  case True
  then show thesis using assms bump_first_ok by (intro merged) (simp_all add: hold_def Let_def)
next
  case False
  let ?full = "PER_SOURCE_CAP \<le> length (filter (same_source n) (nl_queue l))"
  have new: "parked_entry_ok \<lparr>hn_injection = i, hn_notice = n, hn_count = 1\<rparr>" using assms(1) by (simp add: parked_entry_ok_def)
  show thesis
  proof (cases ?full)
    case True
    have ex: "list_ex (same_source n) (nl_queue l)" by (rule full_source_exists [OF True])
    have "source_count src (remove_first (same_source n) (nl_queue l) @
        [\<lparr>hn_injection = i, hn_notice = n, hn_count = 1\<rparr>]) = source_count src (nl_queue l)" for src
      using remove_first_source [OF ex, of src] by (simp split: if_splits)
    then show thesis
      using False True new assms(2) remove_first_facts [OF ex] by (intro refused) (simp_all add: hold_def Let_def)
  next
    case nf: False
    show thesis
    proof (cases "QUEUE_CAP \<le> length (nl_queue l)")
      case True
      then show thesis using False nf assms(2) by (intro refused) (simp_all add: hold_def Let_def)
    next
      case nq: False
      then show thesis
        using False nf new assms(2) by (intro parked) (auto simp: hold_def Let_def same_source_count)
    qed
  qed
qed

lemma arrived_ok:
  assumes ok: "nsys_ok s" and a: "hold_if_locked i (ns_lock s) = (l, kept)"
  shows "nsys_ok (s\<lparr>ns_lock := l,
      ns_parked := ns_parked s + (if kept \<and> \<not> merges i (ns_lock s) then 1 else 0)\<rparr>)"
proof (cases "nl_locked (ns_lock s) \<and> from_injection i \<noteq> None")
  case True
  then obtain n where n: "from_injection i = Some n" by auto
  then have l: "l = hold i n (ns_lock s)" "kept" using a True by (simp_all add: hold_if_locked_def)
  have m: "merges i (ns_lock s) = list_ex (same_slot n) (nl_queue (ns_lock s))" using n by (simp add: merges_def)
  have es: "list_all parked_entry_ok (nl_queue (ns_lock s))" using ok by (simp add: nsys_ok_def)
  have idle: "\<not> wants_work l" using True l by (simp add: wants_work_def)
  have h: "in_hand (s\<lparr>ns_lock := l, ns_parked := k\<rparr>) = in_hand s" for k by (simp add: in_hand_def)
  from n es show ?thesis
  proof (cases rule: hold_cases)
    case merged
    then show ?thesis using ok l m h idle by (simp add: nsys_ok_def)
  next
    case refused
    then show ?thesis using ok l m h idle by (simp add: nsys_ok_def)
  next
    case parked
    have "source_count src (in_hand s) + source_count src (nl_queue l) \<le> PER_SOURCE_CAP + 1" for src
      using ok parked(4,5) hand_at_most_one(2) [of src s] l(1) by (auto simp: nsys_ok_def)
    then show ?thesis using ok l m h idle parked hand_at_most_one(1) [of s] by (simp add: nsys_ok_def)
  qed
next
  case False
  then have "l = ns_lock s" "\<not> kept" using a by (auto simp: hold_if_locked_def split: if_splits)
  then show ?thesis using ok by (simp add: nsys_ok_def in_hand_def)
qed


lemma switched_ok:
  assumes "nsys_ok s" "set_locked b (ns_now s) (ns_lock s) = (l, moved)"
  shows "nsys_ok (s\<lparr>ns_lock := l\<rparr>)"
proof -
  have "nl_queue l = nl_queue (ns_lock s)" "nl_dropped l = nl_dropped (ns_lock s)"
      "wants_work l \<longrightarrow> next_due l \<noteq> None"
    using assms by (auto simp: set_locked_def nsys_ok_def wants_work_def split: if_splits)
  then show ?thesis using assms(1) by (simp add: nsys_ok_def in_hand_def)
qed

lemma took_ok:
  assumes "nsys_ok s" "ns_hand s = None" "take_held_due (ns_now s) (ns_lock s) = (l, release)"
  shows "nsys_ok (s\<lparr>ns_lock := l, ns_hand := release\<rparr>)"
proof (cases "ns_now s" "ns_lock s" rule: take_held_due_cases)
  case none
  then show ?thesis using assms by (simp add: nsys_ok_def in_hand_def)
next
  case (some h hs)
  have "next_due (ns_lock s) \<noteq> None" using assms(1) some by (simp add: nsys_ok_def wants_work_def)
  then show ?thesis using assms some by (auto simp: nsys_ok_def in_hand_def wants_work_def)
qed

lemma put_back_ok:
  assumes "nsys_ok s" "ns_hand s = Some (h, prev)"
  shows "nsys_ok (s\<lparr>ns_hand := None, ns_lock := restore_held_due h prev (ns_lock s)\<rparr>)"
  using assms by (simp add: nsys_ok_def in_hand_def restore_held_due_def)

lemma shown_ok:
  assumes "nsys_ok s" "ns_hand s = Some x"
  shows "nsys_ok (s\<lparr>ns_hand := None, ns_given := ns_given s + 1\<rparr>)"
proof -
  have "source_count src (nl_queue (ns_lock s)) \<le> PER_SOURCE_CAP + 1" for src
    using assms by (cases x) (auto simp: nsys_ok_def in_hand_def dest: spec [of _ src])
  then show ?thesis using assms by (cases x) (simp add: nsys_ok_def in_hand_def)
qed

lemma filter_source_count: "source_count src (filter P hs) \<le> source_count src hs"
  by (induction hs) auto

lemma filter_both_length: "length (filter P hs) + length (filter (\<lambda>h. \<not> P h) hs) = length hs"
  by (induction hs) auto

lemma reports_taken_ok:
  assumes "nsys_ok s" "take_agent_parked agent (ns_lock s) = (l, reports)"
  shows "nsys_ok (s\<lparr>ns_lock := l, ns_given := ns_given s + length reports\<rparr>)"
proof -
  let ?P = "\<lambda>h. finished_of agent (hn_injection h)" and ?q = "nl_queue (ns_lock s)"
  have l: "nl_queue l = filter (\<lambda>h. \<not> ?P h) ?q" "nl_dropped l = nl_dropped (ns_lock s)" "length reports = length (filter ?P ?q)"
      "wants_work l \<longrightarrow> next_due l \<noteq> None"
    using assms by (auto simp: take_agent_parked_def Let_def nsys_ok_def wants_work_def filter_empty_conv split: if_splits)
  have "source_count src (in_hand s) + source_count src (nl_queue l) \<le> PER_SOURCE_CAP + 1" for src
    using assms(1) filter_source_count [of src "\<lambda>h. \<not> ?P h" ?q] l(1) by (simp add: nsys_ok_def) (metis add_left_mono le_trans)
  moreover have "length (nl_queue l) + length reports = length ?q" using filter_both_length [of ?P ?q] l by simp
  moreover have "list_all parked_entry_ok (nl_queue l)" using assms(1) l(1) by (auto simp: nsys_ok_def list_all_iff)
  ultimately show ?thesis using assms(1) l(2,4) by (simp add: nsys_ok_def in_hand_def)
qed

lemma discard_ok:
  assumes "nsys_ok s" "nl_queue l = []" "nl_dropped l = nl_dropped (ns_lock s) + length (nl_queue (ns_lock s))"
  shows "nsys_ok (s\<lparr>ns_lock := l\<rparr>)"
proof -
  have "source_count src (in_hand s) \<le> PER_SOURCE_CAP + 1" for src using hand_at_most_one(2) [of src s] by simp
  then show ?thesis using assms by (simp add: nsys_ok_def in_hand_def wants_work_def)
qed

lemma nstep_ok: "nstep s s' \<Longrightarrow> nsys_ok s \<Longrightarrow> nsys_ok s'"
proof (induction rule: nstep.induct)
  case (time_passed s d)
  then show ?case by (simp add: nsys_ok_def in_hand_def)
next
  case (stopped s)
  then show ?case by (intro discard_ok) (simp_all add: discard_held_def)
next
  case (session_closed s)
  then show ?case by (intro discard_ok) (simp_all add: reset_lock_def discard_held_def)
qed (intro arrived_ok switched_ok took_ok shown_ok put_back_ok reports_taken_ok; assumption)+

interpretation notices: state_machine nstart nstep nsys_ok
proof
  show "nsys_ok nstart" by (simp add: nsys_ok_def nstart_def new_lock_def in_hand_def wants_work_def)
qed (rule nstep_ok)

text \<open>C22: Parked notices are bounded and accounted for.  However reports arrive, the switch
  is set, releases are taken and put back, agents are resumed or stopped, at most 65 notices
  are parked, at most nine of one source, all of them reports that nobody waits for; and
  every notice that was parked or refused, and did not merge into an equal one, is still
  parked or in a turn's hand, was handed out, or is counted as dropped.\<close>

theorem notices_accounted:
  assumes "nstep\<^sup>*\<^sup>* nstart s"
  shows "length (nl_queue (ns_lock s)) \<le> 65 \<and> source_count src (nl_queue (ns_lock s)) \<le> 9 \<and>
         list_all (\<lambda>h. is_holdable (hn_injection h)) (nl_queue (ns_lock s)) \<and>
         ns_parked s = length (nl_queue (ns_lock s)) + length (in_hand s) + ns_given s + nl_dropped (ns_lock s)"
proof -
  have ok: "nsys_ok s" by (rule notices.reachable_inv [OF assms])
  have "source_count src (in_hand s) + source_count src (nl_queue (ns_lock s)) \<le> 9"
    using ok by (simp add: nsys_ok_def PER_SOURCE_CAP_def)
  then show ?thesis
    using ok by (auto simp: nsys_ok_def QUEUE_CAP_def list_all_iff parked_entry_ok_def from_injection_holdable)
qed


subsection \<open>The backlog goes out\<close>

text \<open>Taking a release at \<open>t\<close> and after every further interval.\<close>

fun releases :: "nat \<Rightarrow> nat \<Rightarrow> notice_lock \<Rightarrow> (nat \<times> injection) list" where
  "releases 0 t l = []"
| "releases (Suc k) t l =
     (case take_held_due t l of
        (l', Some (h, _)) \<Rightarrow> (t, held_release h) # releases k (t + DRAIN_INTERVAL) l'
      | (l', None) \<Rightarrow> [])"

lemma releases_all:
  "\<not> nl_locked l \<Longrightarrow> nl_queue l = hs \<Longrightarrow> (case next_due l of Some d \<Rightarrow> d \<le> t | None \<Rightarrow> True) \<Longrightarrow>
     map snd (releases (length hs) t l) = map held_release hs \<and>
     map fst (releases (length hs) t l) = map (\<lambda>k. t + k * DRAIN_INTERVAL) [0..<length hs]"
proof (induction hs arbitrary: t l)
  case (Cons h hs)
  let ?l = "l\<lparr>nl_queue := hs, next_due := (if hs = [] then None else Some (t + DRAIN_INTERVAL))\<rparr>"
  have take: "take_held_due t l = (?l, Some (h, next_due l))"
    using Cons.prems by (auto simp: take_held_due_def split: option.splits)
  have IH: "map snd (releases (length hs) (t + DRAIN_INTERVAL) ?l) = map held_release hs \<and>
      map fst (releases (length hs) (t + DRAIN_INTERVAL) ?l) =
        map (\<lambda>k. t + DRAIN_INTERVAL + k * DRAIN_INTERVAL) [0..<length hs]"
    using Cons.prems by (intro Cons.IH) simp_all
  have "map (\<lambda>k. t + k * DRAIN_INTERVAL) [0..<length (h # hs)] =
      t # map (\<lambda>k. t + DRAIN_INTERVAL + k * DRAIN_INTERVAL) [0..<length hs]"
    by (simp add: upt_conv_Cons map_Suc_upt [symmetric] o_def del: upt_Suc)
  then show ?case using take IH by simp
qed simp

text \<open>A backlog that may go out does.  Whenever the switch is off and notices are parked, a
  deadline is set; nothing goes out before it, and from it on the notices go out one by
  one, the oldest first, each 250 milliseconds after the last, until none is left.\<close>

theorem backlog_goes_out:
  assumes "nstep\<^sup>*\<^sup>* nstart s" "wants_work (ns_lock s)"
  shows "\<exists>due. next_due (ns_lock s) = Some due \<and>
           (\<forall>t < due. take_held_due t (ns_lock s) = (ns_lock s, None)) \<and>
           (\<forall>t \<ge> due. let out = releases (length (nl_queue (ns_lock s))) t (ns_lock s)
              in map snd out = map held_release (nl_queue (ns_lock s)) \<and>
                 map fst out = map (\<lambda>k. t + k * DRAIN_INTERVAL) [0..<length (nl_queue (ns_lock s))])"
proof -
  have "nsys_ok s" by (rule notices.reachable_inv [OF assms(1)])
  then obtain due where d: "next_due (ns_lock s) = Some due" using assms(2) by (auto simp: nsys_ok_def)
  have u: "\<not> nl_locked (ns_lock s)" using assms(2) by (simp add: wants_work_def)
  have "take_held_due t (ns_lock s) = (ns_lock s, None)" if "t < due" for t
    using that d u by (simp add: take_held_due_def)
  moreover have "let out = releases (length (nl_queue (ns_lock s))) t (ns_lock s)
      in map snd out = map held_release (nl_queue (ns_lock s)) \<and>
         map fst out = map (\<lambda>k. t + k * DRAIN_INTERVAL) [0..<length (nl_queue (ns_lock s))]" if "due \<le> t" for t
    using releases_all [OF u refl, of t] that d by (simp add: Let_def)
  ultimately show ?thesis using d by blast
qed

text \<open>A multiplicity is not shown when the text starts with a bracket: two equal notices are
  released as one that looks like a single arrival.\<close>

lemma bracketed_multiplicity_hidden:
  "starts_with txt ''['' \<Longrightarrow>
     held_release \<lparr>hn_injection = SystemNotice txt, hn_notice = NSystemNotice txt, hn_count = n\<rparr> = SystemNotice txt"
  by (simp add: held_release_def prepend_mark_def)

section \<open>A run\<close>

text \<open>Two notices arrive while the switch is on, which is then set off.\<close>

definition two_parked :: nsys where
  "two_parked =
     \<lparr>ns_lock =
        \<lparr>nl_locked = False, toggled_at = None,
         nl_queue =
           [\<lparr>hn_injection = SystemNotice ''a'', hn_notice = NSystemNotice ''a'', hn_count = 1\<rparr>,
            \<lparr>hn_injection = SystemNotice ''b'', hn_notice = NSystemNotice ''b'', hn_count = 1\<rparr>],
         nl_dropped = 0, next_due = Some 0\<rparr>,
      ns_now = 0, ns_hand = None, ns_parked = 2, ns_given = 0\<rparr>"

lemma two_parked_reached: "nstep\<^sup>*\<^sup>* nstart two_parked"
proof -
  let ?lk = "\<lambda>q. new_lock\<lparr>nl_locked := True, toggled_at := Some 0, nl_queue := q\<rparr>"
  let ?h = "\<lambda>txt. \<lparr>hn_injection = SystemNotice txt, hn_notice = NSystemNotice txt, hn_count = 1\<rparr>"
  let ?s1 = "nstart\<lparr>ns_lock := ?lk []\<rparr>"
  let ?s2 = "nstart\<lparr>ns_lock := ?lk [?h ''a''], ns_parked := 1\<rparr>"
  let ?s3 = "nstart\<lparr>ns_lock := ?lk [?h ''a'', ?h ''b''], ns_parked := 2\<rparr>"
  note defs = nstart_def new_lock_def hold_if_locked_def hold_def merges_def same_slot_def QUEUE_CAP_def PER_SOURCE_CAP_def Let_def
  have "nstep nstart ?s1"
    using nstep.switched [of True nstart "?lk []" True] by (simp add: set_locked_def nstart_def new_lock_def)
  moreover have "nstep ?s1 ?s2"
    using nstep.arrived [of "SystemNotice ''a''" ?s1 "?lk [?h ''a'']" True] by (simp add: defs)
  moreover have "nstep ?s2 ?s3"
    using nstep.arrived [of "SystemNotice ''b''" ?s2 "?lk [?h ''a'', ?h ''b'']" True] by (simp add: defs same_source_def numeral_2_eq_2)
  moreover have "nstep ?s3 two_parked"
    using nstep.switched [of False ?s3 "ns_lock two_parked" True]
    by (simp add: set_locked_def nstart_def new_lock_def two_parked_def numeral_2_eq_2)
  ultimately show ?thesis by (meson rtranclp.rtrancl_into_rtrancl rtranclp.rtrancl_refl)
qed

theorem notices_accounted_witness:
  "length (nl_queue (ns_lock two_parked)) \<le> 65 \<and> ns_parked two_parked = 2 + length (in_hand two_parked) + 0 + 0"
  using notices_accounted [OF two_parked_reached] by (simp add: two_parked_def)

theorem backlog_goes_out_witness:
  "map snd (releases 2 5 (ns_lock two_parked)) = [SystemNotice ''a'', SystemNotice ''b'']"
  using backlog_goes_out [OF two_parked_reached]
  by (simp add: two_parked_def wants_work_def held_release_def Let_def numeral_2_eq_2 del: releases.simps)

definition two_live :: inbox where
  "two_live = \<lparr>ib_live = [SystemNotice ''a'', SystemNotice ''b''], ib_lock = new_lock\<rparr>"

theorem restore_reverses_witness:
  "\<exists>b t. take_due 0 two_live = (b, Some t) \<and>
     ib_live (restore_due t b) = [SystemNotice ''b'', SystemNotice ''a'']"
proof -
  obtain b t where bt: "take_due 0 two_live = (b, Some t)"
    by (simp add: take_due_def take_held_due_def two_live_def new_lock_def)
  then show ?thesis using restore_reverses [OF bt] by (simp add: two_live_def)
qed

definition asking :: inbox where
  "asking = \<lparr>ib_live = [AgentQuestion ''a1'' ''n'' ''c'' ''why?'', SystemNotice ''b''], ib_lock = new_lock\<rparr>"

theorem drain_keeps_questions_witness:
  "\<exists>b r. drain_injections None True 0 True False asking = (b, r) \<and>
     {#AgentQuestion ''a1'' ''n'' ''c'' ''why?''#} =
       mset (filter is_question (ib_live b)) + mset (filter is_question (dr_delivered r)) +
       mset (filter is_question (dr_undeliverable r))"
proof -
  obtain b r where br: "drain_injections None True 0 True False asking = (b, r)" by fastforce
  then show ?thesis
    using drain_keeps_questions [OF _ br] by (intro exI [of _ b] exI [of _ r]) (simp add: asking_def parked_ok_def new_lock_def)
qed

end
