(* ===== verification/Mailbox.thy ===== *)
theory Mailbox
  imports Notices
begin

text \<open>
  \<^verbatim>\<open>crates/pacode-core/src/rpc/mailbox.rs\<close> with its callers in \<^verbatim>\<open>rpc.rs\<close>, \<^verbatim>\<open>rpc/ask.rs\<close>,
  \<^verbatim>\<open>rpc/route.rs\<close>, \<^verbatim>\<open>session.rs\<close> and \<^verbatim>\<open>turn/lifecycle.rs\<close>: what an orchestrator and one of its
  subagents say to each other, and who may resume a subagent that was stopped.

  The record \<open>mailbox\<close> is the state under the mailbox lock; \<open>sub\<close> adds what the lock does not
  cover: the turn generation, the stop request, whether a turn runs, and the live queue.
  Every method is one function.  The callers are the step relation \<open>mstep\<close>, one step per
  lock region or atomic access: stops, resumes in their stages, a close, turns that seal,
  questions that are asked, shown, answered, settled, dropped and handed to another
  orchestrator.  The message lock, which excludes some of the interleavings, is left out,
  so the properties do not depend on it.
\<close>

section \<open>The mailbox\<close>

definition MAX_UNANSWERED_IN_ROW :: nat where
  "MAX_UNANSWERED_IN_ROW = 3"

definition MAX_QUEUED_PARENT_MESSAGES :: nat where
  "MAX_QUEUED_PARENT_MESSAGES = 16"

datatype stop_origin = UserStop | OrchestratorStop

fun origin_as_str :: "stop_origin \<Rightarrow> string" where
  "origin_as_str UserStop = ''user''"
| "origin_as_str OrchestratorStop = ''orchestrator''"

definition origin_parse :: "string \<Rightarrow> stop_origin option" where
  "origin_parse stored =
     (if stored = ''user'' then Some UserStop
      else if stored = ''orchestrator'' then Some OrchestratorStop else None)"

datatype consent = Own | Given nat | Absent

definition consent_from :: "nat option \<Rightarrow> consent" where
  "consent_from given = (case given of Some n \<Rightarrow> Given n | None \<Rightarrow> Absent)"

fun consent_covers :: "consent \<Rightarrow> nat \<Rightarrow> bool" where
  "consent_covers Own stop = True"
| "consent_covers (Given given) stop = (given = stop)"
| "consent_covers Absent stop = False"

record open_question =
  oq_injection :: injection
  oq_call :: string
  oq_delivered :: bool

record mailbox =
  mb_question :: "open_question option"
  mb_sealed :: bool
  stopped_by :: "stop_origin option"
  unanswered_in_row :: nat
  mb_stops :: nat

definition new_mailbox :: mailbox where
  "new_mailbox =
     \<lparr>mb_question = None, mb_sealed = False, stopped_by = None, unanswered_in_row = 0, mb_stops = 0\<rparr>"

text \<open>The subagent as its mailbox sees it.\<close>

record sub =
  sb_mail :: mailbox
  turn_generation :: nat
  stop_requested :: bool
  sb_running :: bool
  sb_queue :: injections

definition new_sub :: sub where
  "new_sub =
     \<lparr>sb_mail = new_mailbox, turn_generation = 0, stop_requested = False, sb_running = False, sb_queue = []\<rparr>"

definition request_stop :: "sub \<Rightarrow> sub" where
  "request_stop a = a\<lparr>turn_generation := turn_generation a + 1, stop_requested := True\<rparr>"

definition unseal :: "sub \<Rightarrow> sub" where
  "unseal a = a\<lparr>sb_mail := (sb_mail a)\<lparr>mb_sealed := False\<rparr>\<rparr>"

definition seal_unless_message :: "sub \<Rightarrow> sub \<times> bool" where
  "seal_unless_message a =
     (if has_parent_message (sb_queue a) then (a, False)
      else (a\<lparr>sb_mail := (sb_mail a)\<lparr>mb_sealed := True\<rparr>\<rparr>, True))"

definition note_stop :: "stop_origin \<Rightarrow> sub \<Rightarrow> sub" where
  "note_stop origin a =
     (let m = sb_mail a
      in a\<lparr>sb_mail := m\<lparr>stopped_by := (if stopped_by m = Some UserStop then Some UserStop else Some origin),
                        mb_stops := mb_stops m + 1\<rparr>,
           turn_generation := turn_generation a + 1\<rparr>)"

text \<open>\<^verbatim>\<open>lift_stop\<close> reads the generation, clears the stop request and reads the generation again;
  a close may come in between.\<close>

definition lift_clear :: "nat \<Rightarrow> sub \<Rightarrow> sub option" where
  "lift_clear generation a =
     (if turn_generation a \<noteq> generation then None else Some (a\<lparr>stop_requested := False\<rparr>))"

datatype lift = Lifted "stop_origin option" | Superseded

definition lift_finish :: "nat \<Rightarrow> sub \<Rightarrow> sub \<times> lift" where
  "lift_finish generation a =
     (if turn_generation a \<noteq> generation then (request_stop a, Superseded)
      else (a\<lparr>sb_mail := (sb_mail a)\<lparr>unanswered_in_row := 0, stopped_by := None\<rparr>\<rparr>, Lifted (stopped_by (sb_mail a))))"

definition user_stop :: "mailbox \<Rightarrow> nat option" where
  "user_stop m = (if stopped_by m = Some UserStop then Some (mb_stops m) else None)"

definition held_by_user :: "consent \<Rightarrow> mailbox \<Rightarrow> bool" where
  "held_by_user c m \<longleftrightarrow> stopped_by m = Some UserStop \<and> \<not> consent_covers c (mb_stops m)"

datatype asked_result = NotAQuestion | AlreadyAsking | NotAnswering | Asked

text \<open>\<^verbatim>\<open>open\<close>: the mailbox and the queue of the parent.\<close>

definition open_mail :: "injection \<Rightarrow> mailbox \<Rightarrow> injections \<Rightarrow> mailbox \<times> injections \<times> asked_result" where
  "open_mail q m parent =
     (case question_key q of
        None \<Rightarrow> (m, parent, NotAQuestion)
      | Some (_, call) \<Rightarrow>
          if mb_question m \<noteq> None then (m, parent, AlreadyAsking)
          else if MAX_UNANSWERED_IN_ROW \<le> unanswered_in_row m then (m, parent, NotAnswering)
          else (m\<lparr>mb_question := Some \<lparr>oq_injection = q, oq_call = call, oq_delivered = False\<rparr>\<rparr>,
                push_injection q parent, Asked))"

definition take_question :: "string \<Rightarrow> mailbox \<Rightarrow> mailbox \<times> bool" where
  "take_question call m =
     (case mb_question m of
        Some q \<Rightarrow> if oq_call q = call then (m\<lparr>mb_question := None\<rparr>, True) else (m, False)
      | None \<Rightarrow> (m, False))"

definition mark_delivered :: "string \<Rightarrow> mailbox \<Rightarrow> mailbox" where
  "mark_delivered call m =
     (case mb_question m of
        Some q \<Rightarrow> if oq_call q = call then m\<lparr>mb_question := Some (q\<lparr>oq_delivered := True\<rparr>)\<rparr> else m
      | None \<Rightarrow> m)"

datatype parent_reply = ReplyAnswered string | ReplyUnanswered | ParentFailed | ReplyNotAnswering

text \<open>\<^verbatim>\<open>resolve_if\<close>: the mailbox, and what the asking call is sent.\<close>

definition resolve_if :: "(open_question \<Rightarrow> bool) \<Rightarrow> parent_reply \<Rightarrow> mailbox \<Rightarrow> mailbox \<times> parent_reply option" where
  "resolve_if which reply m =
     (case mb_question m of
        Some q \<Rightarrow>
          if which q
          then (m\<lparr>mb_question := None,
                  unanswered_in_row :=
                    (case reply of
                       ReplyAnswered _ \<Rightarrow> 0
                     | ParentFailed \<Rightarrow> unanswered_in_row m
                     | _ \<Rightarrow> min (unanswered_in_row m + 1) 255)\<rparr>, Some reply)
          else (m, None)
      | None \<Rightarrow> (m, None))"

definition resolve_delivered :: "parent_reply \<Rightarrow> mailbox \<Rightarrow> mailbox \<times> parent_reply option" where
  "resolve_delivered reply m = resolve_if oq_delivered reply m"

definition resolve_call :: "string \<Rightarrow> parent_reply \<Rightarrow> mailbox \<Rightarrow> mailbox \<times> parent_reply option" where
  "resolve_call call reply m = resolve_if (\<lambda>q. oq_call q = call) reply m"

definition undeliver :: "mailbox \<Rightarrow> mailbox \<times> injection option" where
  "undeliver m =
     (case mb_question m of
        Some q \<Rightarrow> (m\<lparr>mb_question := Some (q\<lparr>oq_delivered := False\<rparr>)\<rparr>, Some (oq_injection q))
      | None \<Rightarrow> (m, None))"

datatype offer_result = OfferAnswered string | OfferQueued | QueueFull | StoppedByUser | OfferEnded

text \<open>\<^verbatim>\<open>offer\<close>, given whether the asking call still takes its answer.\<close>

definition offer_running :: "string \<Rightarrow> sub \<Rightarrow> sub \<times> offer_result" where
  "offer_running txt a =
     (if sb_running a \<and> \<not> mb_sealed (sb_mail a) \<and> \<not> stop_requested a
      then case push_limited (ParentMessage txt) MAX_QUEUED_PARENT_MESSAGES is_parent_message (sb_queue a) of
             (q, True) \<Rightarrow> (a\<lparr>sb_queue := q, sb_mail := (sb_mail a)\<lparr>unanswered_in_row := 0\<rparr>\<rparr>, OfferQueued)
           | (q, False) \<Rightarrow> (a, QueueFull)
      else (a, OfferEnded))"

definition offer :: "bool \<Rightarrow> string \<Rightarrow> consent \<Rightarrow> sub \<Rightarrow> sub \<times> offer_result" where
  "offer accepts txt c a =
     (let m = sb_mail a
      in case stopped_by m of
           Some origin \<Rightarrow>
             if origin = UserStop \<and> \<not> consent_covers c (mb_stops m) then (a, StoppedByUser) else (a, OfferEnded)
         | None \<Rightarrow>
             (case mb_question m of
                Some q \<Rightarrow>
                  if accepts
                  then (a\<lparr>sb_mail := m\<lparr>mb_question := None, unanswered_in_row := 0\<rparr>\<rparr>, OfferAnswered (oq_call q))
                  else offer_running txt (a\<lparr>sb_mail := m\<lparr>mb_question := None\<rparr>\<rparr>)
              | None \<Rightarrow> offer_running txt a))"


section \<open>The callers\<close>

text \<open>The calls of agent \<open>me\<close> whose questions are in a batch, and what showing or losing the
  batch does to its mailbox.\<close>

definition my_calls :: "string \<Rightarrow> injection list \<Rightarrow> string list" where
  "my_calls me batch = map snd (filter (\<lambda>k. fst k = me) (List.map_filter question_key batch))"

definition mark_all_delivered :: "string \<Rightarrow> injection list \<Rightarrow> mailbox \<Rightarrow> mailbox" where
  "mark_all_delivered me batch m = fold mark_delivered (my_calls me batch) m"

definition resolve_undeliverable :: "string \<Rightarrow> injection list \<Rightarrow> mailbox \<Rightarrow> mailbox" where
  "resolve_undeliverable me batch m = fold (\<lambda>call m. fst (resolve_call call ParentFailed m)) (my_calls me batch) m"

text \<open>A resume: the consent it comes with, the generation it read, and how far it is.\<close>

datatype stage = GenerationRead | NotClosed | ConsentChecked | Committing

record resume =
  rs_consent :: consent
  rs_generation :: nat
  rs_stage :: stage

record msys =
  ms_sub :: sub
  ms_parent :: injections
  ms_batch :: "injection list"
  ms_closed :: bool
  ms_close_left :: bool
  ms_resumes :: "resume list"
  ms_lifting :: "resume option"
  ms_stopping :: nat
  ms_swept :: bool

definition mstart :: msys where
  "mstart =
     \<lparr>ms_sub = new_sub, ms_parent = [], ms_batch = [], ms_closed = False, ms_close_left = False,
      ms_resumes = [], ms_lifting = None, ms_stopping = 0, ms_swept = False\<rparr>"

abbreviation on_sub :: "(sub \<Rightarrow> sub) \<Rightarrow> msys \<Rightarrow> msys" where
  "on_sub f s \<equiv> s\<lparr>ms_sub := f (ms_sub s)\<rparr>"

abbreviation on_mail :: "(mailbox \<Rightarrow> mailbox) \<Rightarrow> msys \<Rightarrow> msys" where
  "on_mail f s \<equiv> s\<lparr>ms_sub := (ms_sub s)\<lparr>sb_mail := f (sb_mail (ms_sub s))\<rparr>\<rparr>"

abbreviation mail :: "msys \<Rightarrow> mailbox" where
  "mail s \<equiv> sb_mail (ms_sub s)"

definition advance_resume :: "resume \<Rightarrow> stage \<Rightarrow> msys \<Rightarrow> msys" where
  "advance_resume r st s = s\<lparr>ms_resumes := r\<lparr>rs_stage := st\<rparr> # remove1 r (ms_resumes s)\<rparr>"

definition give_up_resume :: "resume \<Rightarrow> msys \<Rightarrow> msys" where
  "give_up_resume r s = s\<lparr>ms_resumes := remove1 r (ms_resumes s)\<rparr>"

text \<open>The agent stops: its stop request is set and its queue is dropped.\<close>

definition land_stop :: "sub \<Rightarrow> sub" where
  "land_stop a = (request_stop a)\<lparr>sb_queue := []\<rparr>"

inductive mstep :: "string \<Rightarrow> msys \<Rightarrow> msys \<Rightarrow> bool" for me where
  stop_noted: "ms_lifting s = None \<Longrightarrow> mstep me s (on_sub (note_stop origin) (s\<lparr>ms_stopping := ms_stopping s + 1\<rparr>))"
| stop_landed: "0 < ms_stopping s \<Longrightarrow> mstep me s (on_sub land_stop (s\<lparr>ms_stopping := ms_stopping s - 1\<rparr>))"
| resume_read: "mstep me s (s\<lparr>ms_resumes :=
    \<lparr>rs_consent = c, rs_generation = turn_generation (ms_sub s), rs_stage = GenerationRead\<rparr> # ms_resumes s\<rparr>)"
| resume_open: "r \<in> set (ms_resumes s) \<Longrightarrow> rs_stage r = GenerationRead \<Longrightarrow> \<not> ms_closed s \<Longrightarrow>
    mstep me s (advance_resume r NotClosed s)"
| resume_allowed: "r \<in> set (ms_resumes s) \<Longrightarrow> rs_stage r = NotClosed \<Longrightarrow> ms_lifting s = None \<Longrightarrow>
    \<not> held_by_user (rs_consent r) (mail s) \<Longrightarrow> mstep me s (advance_resume r ConsentChecked s)"
| resume_committed: "r \<in> set (ms_resumes s) \<Longrightarrow> rs_stage r = ConsentChecked \<Longrightarrow> \<not> ms_closed s \<Longrightarrow>
    mstep me s (advance_resume r Committing s)"
| resume_failed: "r \<in> set (ms_resumes s) \<Longrightarrow> mstep me s (give_up_resume r s)"
| lift_begun: "r \<in> set (ms_resumes s) \<Longrightarrow> rs_stage r = Committing \<Longrightarrow> ms_lifting s = None \<Longrightarrow>
    lift_clear (rs_generation r) (ms_sub s) = Some a \<Longrightarrow>
    mstep me s ((give_up_resume r s)\<lparr>ms_sub := a, ms_lifting := Some r\<rparr>)"
| lift_done: "ms_lifting s = Some r \<Longrightarrow> lift_finish (rs_generation r) (ms_sub s) = (a, result) \<Longrightarrow>
    mstep me s (s\<lparr>ms_sub := a, ms_lifting := None\<rparr>)"
| close_begun: "\<not> ms_closed s \<Longrightarrow> mstep me s (s\<lparr>ms_closed := True, ms_close_left := True\<rparr>)"
| close_landed: "ms_close_left s \<Longrightarrow>
    mstep me s (on_sub land_stop (s\<lparr>ms_close_left := False, ms_parent := [], ms_swept := True\<rparr>))"
| parent_swept: "mstep me s (s\<lparr>ms_parent := [], ms_swept := True\<rparr>)"
| turn_claimed: "\<not> sb_running (ms_sub s) \<Longrightarrow> ms_lifting s = None \<Longrightarrow>
    mstep me s (on_sub (\<lambda>a. unseal (a\<lparr>sb_running := True\<rparr>)) s)"
| turn_sealed: "sb_running (ms_sub s) \<Longrightarrow> \<not> stop_requested (ms_sub s) \<Longrightarrow> ms_lifting s = None \<Longrightarrow>
    seal_unless_message (ms_sub s) = (a, done_now) \<Longrightarrow> mstep me s (s\<lparr>ms_sub := a\<rparr>)"
| turn_ended: "sb_running (ms_sub s) \<Longrightarrow> mstep me s (on_sub (\<lambda>a. a\<lparr>sb_running := False\<rparr>) s)"
| turn_read: "sb_running (ms_sub s) \<Longrightarrow> mstep me s (on_sub (\<lambda>a. a\<lparr>sb_queue := []\<rparr>) s)"
| turn_restored: "sb_running (ms_sub s) \<Longrightarrow> \<not> mb_sealed (mail s) \<Longrightarrow>
    mstep me s (on_sub (\<lambda>a. a\<lparr>sb_queue := restore items (sb_queue a)\<rparr>) s)"
| other_pushed: "\<not> is_parent_message i \<Longrightarrow> mstep me s (on_sub (\<lambda>a. a\<lparr>sb_queue := push_injection i (sb_queue a)\<rparr>) s)"
| question_asked: "ms_lifting s = None \<Longrightarrow>
    open_mail (AgentQuestion me name call question) (mail s) (ms_parent s) = (m, parent, result) \<Longrightarrow>
    mstep me s (on_mail (\<lambda>_. m) (s\<lparr>ms_parent := parent, ms_swept := (if result = Asked then False else ms_swept s)\<rparr>))"
| message_offered: "ms_lifting s = None \<Longrightarrow> offer accepts txt c (ms_sub s) = (a, result) \<Longrightarrow>
    mstep me s (s\<lparr>ms_sub := a,
      ms_parent := (case result of OfferAnswered call \<Rightarrow> retract_question me call (ms_parent s) | _ \<Rightarrow> ms_parent s)\<rparr>)"
| asker_finished: "ms_lifting s = None \<Longrightarrow>
    mstep me s (on_mail (\<lambda>m. fst (take_question call m)) (s\<lparr>ms_parent := retract_question me call (ms_parent s)\<rparr>))"
| parent_drained: "mstep me s (s\<lparr>ms_parent := [], ms_batch := ms_batch s @ ms_parent s\<rparr>)"
| batch_shown: "ms_lifting s = None \<Longrightarrow>
    mstep me s (on_mail (mark_all_delivered me (ms_batch s)) (s\<lparr>ms_batch := []\<rparr>))"
| batch_failed: "ms_lifting s = None \<Longrightarrow>
    mstep me s (on_mail (resolve_undeliverable me (ms_batch s)) (s\<lparr>ms_batch := []\<rparr>))"
| parent_turn_over: "ms_lifting s = None \<Longrightarrow> reply \<in> {ReplyUnanswered, ParentFailed} \<Longrightarrow>
    mstep me s (on_mail (\<lambda>m. fst (resolve_delivered reply m)) s)"
| detached: "ms_lifting s = None \<Longrightarrow> undeliver (mail s) = (m, q) \<Longrightarrow>
    mstep me s (on_mail (\<lambda>_. m) (s\<lparr>ms_parent := (case q of Some i \<Rightarrow> [i] | None \<Rightarrow> [])\<rparr>))"

section \<open>The invariants\<close>

text \<open>A resume that has its consent covers the stop of the user that stands, unless the
  generation has moved on.\<close>

definition covered :: "sub \<Rightarrow> resume \<Rightarrow> bool" where
  "covered a r \<longleftrightarrow>
     (turn_generation a = rs_generation r \<longrightarrow> \<not> held_by_user (rs_consent r) (sb_mail a))"

definition waiting_ok :: "sub \<Rightarrow> resume \<Rightarrow> bool" where
  "waiting_ok a r \<longleftrightarrow>
     rs_generation r \<le> turn_generation a \<and> (rs_stage r \<in> {ConsentChecked, Committing} \<longrightarrow> covered a r)"

definition lifting_ok :: "sub \<Rightarrow> resume \<Rightarrow> bool" where
  "lifting_ok a r \<longleftrightarrow> rs_generation r \<le> turn_generation a \<and> covered a r"

definition consent_ok :: "msys \<Rightarrow> bool" where
  "consent_ok s \<longleftrightarrow>
     list_all (waiting_ok (ms_sub s)) (ms_resumes s) \<and> pred_option (lifting_ok (ms_sub s)) (ms_lifting s)"

text \<open>What a step does to the parts the consent rests on: nothing, or no stop is left, or the
  generation grows.\<close>

definition same_stop :: "sub \<Rightarrow> sub \<Rightarrow> bool" where
  "same_stop a a' \<longleftrightarrow>
     turn_generation a' = turn_generation a \<and>
       (stopped_by (sb_mail a') = stopped_by (sb_mail a) \<and> mb_stops (sb_mail a') = mb_stops (sb_mail a) \<or>
        stopped_by (sb_mail a') = None) \<or>
     turn_generation a < turn_generation a'"

lemma same_stop_ok:
  assumes "same_stop a a'"
  shows "waiting_ok a r \<Longrightarrow> waiting_ok a' r" "lifting_ok a r \<Longrightarrow> lifting_ok a' r"
  using assms by (auto simp: same_stop_def waiting_ok_def lifting_ok_def covered_def held_by_user_def)

lemma consent_frame:
  assumes "consent_ok s" "same_stop (ms_sub s) (ms_sub s')" "set (ms_resumes s') \<subseteq> set (ms_resumes s)"
    "ms_lifting s' = None \<or> ms_lifting s' = ms_lifting s"
  shows "consent_ok s'"
  using assms same_stop_ok [OF assms(2)] by (auto simp: consent_ok_def list_all_iff pred_option_def)

lemma same_stop_refl [simp]: "same_stop a a"
  by (simp add: same_stop_def)

lemma same_stop_mail:
  "stopped_by m = stopped_by (sb_mail a) \<Longrightarrow> mb_stops m = mb_stops (sb_mail a) \<Longrightarrow> same_stop a (a\<lparr>sb_mail := m\<rparr>)"
  by (simp add: same_stop_def)

text \<open>The methods of the mailbox that leave stops alone.\<close>

lemma mark_delivered_stop [simp]:
  "stopped_by (mark_delivered call m) = stopped_by m" "mb_stops (mark_delivered call m) = mb_stops m"
  by (simp_all add: mark_delivered_def split: option.split)

lemma resolve_if_stop [simp]:
  "stopped_by (fst (resolve_if w r m)) = stopped_by m" "mb_stops (fst (resolve_if w r m)) = mb_stops m"
  by (simp_all add: resolve_if_def split: option.split)

lemma mark_all_stop [simp]:
  "stopped_by (fold mark_delivered cs m) = stopped_by m" "mb_stops (fold mark_delivered cs m) = mb_stops m"
  by (induction cs arbitrary: m) simp_all

lemma resolve_all_stop [simp]:
  "stopped_by (fold (\<lambda>call m. fst (resolve_call call ParentFailed m)) cs m) = stopped_by m"
  "mb_stops (fold (\<lambda>call m. fst (resolve_call call ParentFailed m)) cs m) = mb_stops m"
  by (induction cs arbitrary: m) (simp_all add: resolve_call_def)

lemma take_question_stop [simp]:
  "stopped_by (fst (take_question call m)) = stopped_by m" "mb_stops (fst (take_question call m)) = mb_stops m"
  by (simp_all add: take_question_def split: option.split)

lemma open_mail_stop:
  "open_mail q m p = (m', p', r) \<Longrightarrow> stopped_by m' = stopped_by m \<and> mb_stops m' = mb_stops m"
  by (auto simp: open_mail_def split: option.splits if_splits)

lemma undeliver_stop: "undeliver m = (m', q) \<Longrightarrow> stopped_by m' = stopped_by m \<and> mb_stops m' = mb_stops m"
  by (auto simp: undeliver_def split: option.splits)

lemma offer_running_frame:
  "offer_running txt a = (a', r) \<Longrightarrow>
     turn_generation a' = turn_generation a \<and> stopped_by (sb_mail a') = stopped_by (sb_mail a) \<and>
     mb_stops (sb_mail a') = mb_stops (sb_mail a) \<and> stop_requested a' = stop_requested a"
  by (auto simp: offer_running_def push_limited_def split: if_splits)

lemma offer_frame:
  "offer accepts txt c a = (a', r) \<Longrightarrow>
     turn_generation a' = turn_generation a \<and> stopped_by (sb_mail a') = stopped_by (sb_mail a) \<and>
     mb_stops (sb_mail a') = mb_stops (sb_mail a) \<and> stop_requested a' = stop_requested a"
  by (auto simp: offer_def Let_def dest!: offer_running_frame split: option.splits if_splits)

lemmas stop_moves = note_stop_def land_stop_def request_stop_def unseal_def Let_def

lemma advance_ok:
  assumes "consent_ok s" "r \<in> set (ms_resumes s)" "st \<in> {ConsentChecked, Committing} \<Longrightarrow> covered (ms_sub s) r"
  shows "consent_ok (advance_resume r st s)"
proof -
  have "waiting_ok (ms_sub s) (r\<lparr>rs_stage := st\<rparr>)"
    using assms by (auto simp: consent_ok_def list_all_iff waiting_ok_def covered_def)
  then show ?thesis
    using assms(1) set_remove1_subset [of r "ms_resumes s"] by (auto simp: consent_ok_def advance_resume_def list_all_iff)
qed

lemma consent_step: "mstep me s s' \<Longrightarrow> consent_ok s \<Longrightarrow> consent_ok s'"
proof (induction rule: mstep.induct)
  case (resume_read s c)
  then show ?case by (simp add: consent_ok_def waiting_ok_def)
next
  case (resume_open r s)
  then show ?case by (intro advance_ok) simp_all
next
  case (resume_allowed r s)
  then show ?case by (intro advance_ok) (simp_all add: covered_def)
next
  case (resume_committed r s)
  then have "covered (ms_sub s) r" by (auto simp: consent_ok_def list_all_iff waiting_ok_def)
  then show ?case using resume_committed by (intro advance_ok) simp_all
next
  case (lift_begun r s a)
  then have "lifting_ok (ms_sub s) r" by (auto simp: consent_ok_def list_all_iff waiting_ok_def lifting_ok_def)
  moreover have "same_stop (ms_sub s) a" using lift_begun by (auto simp: lift_clear_def same_stop_def split: if_splits)
  ultimately show ?case
    using lift_begun same_stop_ok [of "ms_sub s" a] set_remove1_subset [of r "ms_resumes s"]
    by (auto simp: consent_ok_def give_up_resume_def list_all_iff)
next
  case (lift_done s r a result)
  then have "same_stop (ms_sub s) a" by (auto simp: lift_finish_def request_stop_def same_stop_def split: if_splits)
  then show ?case using consent_frame [of s] lift_done by simp
next
  case (turn_sealed s a done_now)
  then have "same_stop (ms_sub s) a" by (auto simp: seal_unless_message_def same_stop_def split: if_splits)
  then show ?case using consent_frame [of s] turn_sealed by simp
next
  case (question_asked s name call question m parent result)
  then have "same_stop (ms_sub s) ((ms_sub s)\<lparr>sb_mail := m\<rparr>)" using open_mail_stop by (intro same_stop_mail) blast+
  then show ?case using consent_frame [of s] question_asked by simp
next
  case (message_offered s accepts body c a result)
  then have "same_stop (ms_sub s) a" using offer_frame [of accepts body c "ms_sub s" a result] by (simp add: same_stop_def)
  then show ?case using consent_frame [of s] message_offered by simp
next
  case (detached s m q)
  then have "same_stop (ms_sub s) ((ms_sub s)\<lparr>sb_mail := m\<rparr>)" using undeliver_stop by (intro same_stop_mail) blast+
  then show ?case using consent_frame [of s] detached by simp
qed ((rule consent_frame, assumption); simp add: same_stop_def stop_moves give_up_resume_def set_remove1_subset
    mark_all_delivered_def resolve_undeliverable_def resolve_delivered_def)+


subsection \<open>A close\<close>

definition closed_now :: "msys \<Rightarrow> bool" where
  "closed_now s \<longleftrightarrow> ms_closed s \<and> \<not> ms_close_left s"

definition outdated :: "sub \<Rightarrow> resume \<Rightarrow> bool" where
  "outdated a r \<longleftrightarrow> rs_generation r < turn_generation a"

definition close_ok :: "msys \<Rightarrow> bool" where
  "close_ok s \<longleftrightarrow>
     (ms_close_left s \<longrightarrow> ms_closed s) \<and>
     (closed_now s \<longrightarrow>
        list_all (\<lambda>r. rs_stage r = Committing \<longrightarrow> outdated (ms_sub s) r) (ms_resumes s) \<and>
        (stop_requested (ms_sub s) \<or> (\<exists>r. ms_lifting s = Some r \<and> outdated (ms_sub s) r)))"

lemma close_frame:
  assumes "close_ok s" "turn_generation (ms_sub s) \<le> turn_generation (ms_sub s')"
    "stop_requested (ms_sub s) \<Longrightarrow> stop_requested (ms_sub s')" "set (ms_resumes s') \<subseteq> set (ms_resumes s)"
    "ms_lifting s' = ms_lifting s" "ms_closed s' = ms_closed s" "ms_close_left s' = ms_close_left s"
  shows "close_ok s'"
proof -
  have "outdated (ms_sub s') r" if "outdated (ms_sub s) r" for r
    using that assms(2) by (simp add: outdated_def)
  moreover have "closed_now s' = closed_now s" using assms(6,7) by (simp add: closed_now_def)
  ultimately show ?thesis using assms by (auto simp: close_ok_def list_all_iff)
qed

lemma advance_close:
  assumes "close_ok s" "st \<noteq> Committing \<or> \<not> ms_closed s"
  shows "close_ok (advance_resume r st s)"
  using assms set_remove1_subset [of r "ms_resumes s"]
  by (auto simp: close_ok_def advance_resume_def closed_now_def list_all_iff)

lemma offer_generation: "offer accepts body c a = (a', r) \<Longrightarrow> turn_generation a \<le> turn_generation a' \<and> (stop_requested a \<longrightarrow> stop_requested a')"
  using offer_frame by fastforce

lemma close_step: "mstep me s s' \<Longrightarrow> consent_ok s \<Longrightarrow> close_ok s \<Longrightarrow> close_ok s'"
proof (induction rule: mstep.induct)
  case (resume_read s c)
  then show ?case by (simp add: close_ok_def closed_now_def)
next
  case (resume_open r s)
  then show ?case by (intro advance_close) simp_all
next
  case (resume_allowed r s)
  then show ?case by (intro advance_close) simp_all
next
  case (resume_committed r s)
  then show ?case by (intro advance_close) simp_all
next
  case (lift_begun r s a)
  then have gen: "turn_generation (ms_sub s) = rs_generation r" "turn_generation a = turn_generation (ms_sub s)"
    by (auto simp: lift_clear_def split: if_splits)
  then have "\<not> closed_now s" using lift_begun by (auto simp: close_ok_def list_all_iff outdated_def)
  then show ?case using lift_begun by (auto simp: close_ok_def closed_now_def give_up_resume_def)
next
  case (lift_done s r a result)
  then have "turn_generation (ms_sub s) \<le> turn_generation a"
      "closed_now s \<Longrightarrow> stop_requested a"
    by (auto simp: lift_finish_def request_stop_def close_ok_def outdated_def split: if_splits)
  then show ?case using lift_done by (auto simp: close_ok_def closed_now_def list_all_iff outdated_def)
next
  case (close_begun s)
  then show ?case by (simp add: close_ok_def closed_now_def)
next
  case (close_landed s)
  then show ?case
    by (auto simp: close_ok_def closed_now_def land_stop_def request_stop_def list_all_iff outdated_def consent_ok_def
        waiting_ok_def le_imp_less_Suc)
next
  case (turn_sealed s a done_now)
  then have "turn_generation (ms_sub s) \<le> turn_generation a" "stop_requested a = stop_requested (ms_sub s)"
    by (auto simp: seal_unless_message_def split: if_splits)
  then show ?case using close_frame [of s] turn_sealed by simp
next
  case (message_offered s accepts body c a result)
  then show ?case using close_frame [of s] offer_generation [OF message_offered(2)] by simp
qed ((rule close_frame, assumption); simp add: stop_moves give_up_resume_def set_remove1_subset)+

subsection \<open>Messages and questions\<close>

definition seal_ok :: "sub \<Rightarrow> bool" where
  "seal_ok a \<longleftrightarrow> (mb_sealed (sb_mail a) \<longrightarrow> \<not> has_parent_message (sb_queue a))"

lemma open_mail_sealed: "open_mail q m p = (m', p', r) \<Longrightarrow> mb_sealed m' = mb_sealed m"
  by (auto simp: open_mail_def split: option.splits if_splits)

lemma mark_sealed [simp]: "mb_sealed (fold mark_delivered cs m) = mb_sealed m"
  by (induction cs arbitrary: m) (simp_all add: mark_delivered_def split: option.split)

lemma resolve_sealed [simp]:
  "mb_sealed (fst (resolve_if w r m)) = mb_sealed m"
  "mb_sealed (fold (\<lambda>call m. fst (resolve_call call ParentFailed m)) cs m) = mb_sealed m"
proof -
  show one: "mb_sealed (fst (resolve_if w r m)) = mb_sealed m" for w r m by (simp add: resolve_if_def split: option.split)
  show "mb_sealed (fold (\<lambda>call m. fst (resolve_call call ParentFailed m)) cs m) = mb_sealed m"
    by (induction cs arbitrary: m) (simp_all add: resolve_call_def one)
qed

lemma take_question_sealed [simp]: "mb_sealed (fst (take_question call m)) = mb_sealed m"
  by (simp add: take_question_def split: option.split)

lemma offer_running_sealed: "offer_running body a = (a', r) \<Longrightarrow> seal_ok a \<Longrightarrow> seal_ok a'"
  by (auto simp: offer_running_def push_limited_def seal_ok_def split: if_splits)

lemma offer_sealed: "offer accepts body c a = (a', r) \<Longrightarrow> seal_ok a \<Longrightarrow> seal_ok a'"
  using offer_running_sealed [of body "a\<lparr>sb_mail := (sb_mail a)\<lparr>mb_question := None\<rparr>\<rparr>" a' r] offer_running_sealed [of body a a' r]
  by (auto simp: offer_def Let_def seal_ok_def split: option.splits if_splits)

lemma seal_step: "mstep me s s' \<Longrightarrow> seal_ok (ms_sub s) \<Longrightarrow> seal_ok (ms_sub s')"
proof (induction rule: mstep.induct)
  case (question_asked s name call question m parent result)
  then show ?case using open_mail_sealed by (fastforce simp: seal_ok_def)
next
  case (message_offered s accepts body c a result)
  then show ?case using offer_sealed by simp
next
  case (detached s m q)
  then show ?case by (auto simp: seal_ok_def undeliver_def split: option.splits)
next
  case (other_pushed i s)
  then show ?case by (simp add: seal_ok_def push_injection_def has_parent_message_def)
qed (auto simp: seal_ok_def stop_moves advance_resume_def give_up_resume_def lift_clear_def lift_finish_def seal_unless_message_def
    has_parent_message_def mark_all_delivered_def resolve_undeliverable_def resolve_delivered_def split: if_splits)


text \<open>An open question has been shown, or is queued or in the hands of a turn of the
  orchestrator, unless the orchestrator was swept, which stops the asker.\<close>

definition asking_ok :: "string \<Rightarrow> injections \<Rightarrow> injection list \<Rightarrow> bool \<Rightarrow> open_question \<Rightarrow> bool" where
  "asking_ok me parent batch swept q \<longleftrightarrow>
     question_key (oq_injection q) = Some (me, oq_call q) \<and>
     (oq_delivered q \<or> oq_injection q \<in> set parent \<union> set batch \<or> swept)"

definition question_ok :: "string \<Rightarrow> msys \<Rightarrow> bool" where
  "question_ok me s \<longleftrightarrow>
     (case mb_question (mail s) of
        None \<Rightarrow> unanswered_in_row (mail s) \<le> 3
      | Some q \<Rightarrow>
          unanswered_in_row (mail s) \<le> 2 \<and> asking_ok me (ms_parent s) (ms_batch s) (ms_swept s) q)"

lemma mark_all_question:
  "mb_question (fold mark_delivered cs m) =
     map_option (\<lambda>q. if oq_call q \<in> set cs then q\<lparr>oq_delivered := True\<rparr> else q) (mb_question m) \<and>
   unanswered_in_row (fold mark_delivered cs m) = unanswered_in_row m"
  by (induction cs arbitrary: m) (auto simp: mark_delivered_def option.map_ident split: option.split)

lemma resolve_all_question:
  "mb_question (fold (\<lambda>call m. fst (resolve_call call ParentFailed m)) cs m) =
     (case mb_question m of Some q \<Rightarrow> if oq_call q \<in> set cs then None else Some q | None \<Rightarrow> None) \<and>
   unanswered_in_row (fold (\<lambda>call m. fst (resolve_call call ParentFailed m)) cs m) = unanswered_in_row m"
  by (induction cs arbitrary: m) (auto simp: resolve_call_def resolve_if_def split: option.splits)

lemma my_calls_of_batch: "i \<in> set batch \<Longrightarrow> question_key i = Some (me, call) \<Longrightarrow> call \<in> set (my_calls me batch)"
  by (force simp: my_calls_def List.map_filter_def image_iff)

lemma retract_keeps:
  "i \<in> set p \<Longrightarrow> question_key i = Some (me, c) \<Longrightarrow> c \<noteq> call \<Longrightarrow> i \<in> set (retract_question me call p)"
  by (simp add: retract_question_def)

lemma offer_running_question:
  "offer_running body a = (a', r) \<Longrightarrow>
     mb_question (sb_mail a') = mb_question (sb_mail a) \<and> unanswered_in_row (sb_mail a') \<le> unanswered_in_row (sb_mail a) \<and>
     (\<forall>call. r \<noteq> OfferAnswered call)"
  by (auto simp: offer_running_def push_limited_def split: if_splits)

lemma offer_question:
  assumes "offer accepts body c a = (a', r)"
  shows "unanswered_in_row (sb_mail a') \<le> unanswered_in_row (sb_mail a) \<and>
    (mb_question (sb_mail a') = None \<or>
     mb_question (sb_mail a') = mb_question (sb_mail a) \<and> (\<forall>call. r \<noteq> OfferAnswered call))"
  using assms offer_running_question [of body "a\<lparr>sb_mail := (sb_mail a)\<lparr>mb_question := None\<rparr>\<rparr>" a' r]
    offer_running_question [of body a a' r]
  by (auto simp: offer_def Let_def split: option.splits if_splits)

lemma question_frame:
  assumes "question_ok me s" "mb_question (mail s') = mb_question (mail s)"
    "unanswered_in_row (mail s') \<le> unanswered_in_row (mail s)"
    "\<And>q. mb_question (mail s) = Some q \<Longrightarrow> asking_ok me (ms_parent s) (ms_batch s) (ms_swept s) q \<Longrightarrow>
      asking_ok me (ms_parent s') (ms_batch s') (ms_swept s') q"
  shows "question_ok me s'"
  using assms by (auto simp: question_ok_def split: option.splits)

lemma question_gone: "question_ok me s \<Longrightarrow> mb_question (mail s') = None \<Longrightarrow> unanswered_in_row (mail s') \<le> 3 \<Longrightarrow> question_ok me s'"
  by (simp add: question_ok_def)

lemma question_unanswered: "question_ok me s \<Longrightarrow> unanswered_in_row (mail s) \<le> 3"
  by (auto simp: question_ok_def split: option.splits)

lemma question_step: "mstep me s s' \<Longrightarrow> question_ok me s \<Longrightarrow> question_ok me s'"
proof (induction rule: mstep.induct)
  case (question_asked s name call question m parent result)
  then show ?case
    by (auto simp: question_ok_def asking_ok_def open_mail_def push_injection_def MAX_UNANSWERED_IN_ROW_def
        split: option.splits if_splits)
next
  case (message_offered s accepts body c a result)
  from offer_question [OF message_offered(2)] consider "mb_question (sb_mail a) = None"
    | "mb_question (sb_mail a) = mb_question (mail s)" "\<forall>call. result \<noteq> OfferAnswered call" by metis
  then show ?case
  proof cases
    case 1
    then show ?thesis
      using offer_question [OF message_offered(2)] question_unanswered [OF message_offered(3)]
      by (intro question_gone [OF message_offered(3)]) simp_all
  next
    case 2
    then show ?thesis
      using offer_question [OF message_offered(2)]
      by (intro question_frame [OF message_offered(3)]) (auto split: offer_result.splits)
  qed
next
  case (asker_finished s call)
  then show ?case
    by (auto simp: question_ok_def asking_ok_def take_question_def intro: retract_keeps split: option.splits)
next
  case (batch_shown s)
  then show ?case
    using mark_all_question [of "my_calls me (ms_batch s)" "mail s"] my_calls_of_batch
    by (auto simp: question_ok_def asking_ok_def mark_all_delivered_def split: option.splits)
next
  case (batch_failed s)
  then show ?case
    using resolve_all_question [of "my_calls me (ms_batch s)" "mail s"] my_calls_of_batch
    by (auto simp: question_ok_def asking_ok_def resolve_undeliverable_def split: option.splits)
next
  case (parent_turn_over s reply)
  then show ?case
    by (auto simp: question_ok_def resolve_delivered_def resolve_if_def split: option.splits parent_reply.splits)
next
  case (detached s m q)
  then show ?case by (auto simp: question_ok_def asking_ok_def undeliver_def split: option.splits)
qed (auto simp: question_ok_def asking_ok_def stop_moves advance_resume_def give_up_resume_def lift_clear_def lift_finish_def
    seal_unless_message_def split: option.splits if_splits)


definition mail_ok :: "string \<Rightarrow> msys \<Rightarrow> bool" where
  "mail_ok me s \<longleftrightarrow> consent_ok s \<and> close_ok s \<and> seal_ok (ms_sub s) \<and> question_ok me s"

interpretation mailboxes: state_machine mstart "mstep me" "mail_ok me" for me
proof
  show "mail_ok me mstart"
    by (simp add: mail_ok_def mstart_def consent_ok_def close_ok_def closed_now_def seal_ok_def question_ok_def new_sub_def
        new_mailbox_def)
  show "mail_ok me s \<Longrightarrow> mstep me s s' \<Longrightarrow> mail_ok me s'" for s s'
    by (simp add: mail_ok_def consent_step close_step seal_step question_step)
qed

section \<open>Properties\<close>

lemma only_lift_clears:
  "mstep me s s' \<Longrightarrow> stopped_by (mail s) = Some UserStop \<Longrightarrow> stopped_by (mail s') \<noteq> Some UserStop \<Longrightarrow>
     \<exists>r. ms_lifting s = Some r \<and> turn_generation (ms_sub s) = rs_generation r"
proof (induction rule: mstep.induct)
  case (question_asked s name call question m parent result)
  then show ?case using open_mail_stop by fastforce
next
  case (message_offered s accepts body c a result)
  then show ?case using offer_frame by fastforce
next
  case (detached s m q)
  then show ?case using undeliver_stop by fastforce
qed (auto simp: stop_moves advance_resume_def give_up_resume_def lift_clear_def lift_finish_def seal_unless_message_def
    mark_all_delivered_def resolve_undeliverable_def resolve_delivered_def split: if_splits)

text \<open>C20: A stop the user made is only lifted with the user's leave.  However stops, resumes, a
  close, messages and questions interleave, the one step that ends a stop of the user is the
  end of a resume by the user, or by an orchestrator whose leave names that very stop: no
  other stop was recorded since the user was asked.\<close>

theorem user_stop_needs_leave:
  assumes "(mstep me)\<^sup>*\<^sup>* mstart s" "mstep me s s'"
    "stopped_by (mail s) = Some UserStop" "stopped_by (mail s') \<noteq> Some UserStop"
  shows "\<exists>r. ms_lifting s = Some r \<and> (rs_consent r = Own \<or> rs_consent r = Given (mb_stops (mail s)))"
proof -
  obtain r where r: "ms_lifting s = Some r" "turn_generation (ms_sub s) = rs_generation r"
    using only_lift_clears [OF assms(2-4)] by blast
  have "covered (ms_sub s) r"
    using mailboxes.reachable_inv [OF assms(1)] r(1) by (simp add: mail_ok_def consent_ok_def lifting_ok_def)
  then have "consent_covers (rs_consent r) (mb_stops (mail s))"
    using r(2) assms(3) by (simp add: covered_def held_by_user_def)
  then show ?thesis using r(1) by (cases "rs_consent r") auto
qed

text \<open>A close wins over every resume.  Once a session is closed and the close has reached
  the agent, the agent's stop request is set whenever no resume is in the middle of lifting
  a stop, although a resume clears the request without excluding a close.\<close>

theorem close_wins:
  assumes "(mstep me)\<^sup>*\<^sup>* mstart s" "ms_closed s" "\<not> ms_close_left s" "ms_lifting s = None"
  shows "stop_requested (ms_sub s)"
  using mailboxes.reachable_inv [OF assms(1)] assms(2-4) by (simp add: mail_ok_def close_ok_def closed_now_def)

text \<open>C21: No question is stranded.  An open question has been shown to the orchestrator, or is
  queued for it or in the hands of one of its turns, also after a detach, unless everything
  was stopped; and after three questions in a row without an answer none is opened.\<close>

theorem no_question_stranded:
  assumes "(mstep me)\<^sup>*\<^sup>* mstart s" "mb_question (mail s) = Some q"
  shows "(oq_delivered q \<or> oq_injection q \<in> set (ms_parent s) \<union> set (ms_batch s) \<or> ms_swept s) \<and>
         question_key (oq_injection q) = Some (me, oq_call q) \<and> unanswered_in_row (mail s) < 3"
  using mailboxes.reachable_inv [OF assms(1)] assms(2) by (simp add: mail_ok_def question_ok_def asking_ok_def)

lemma queued_message:
  "offer accepts body c a = (a', OfferQueued) \<Longrightarrow>
     ParentMessage body \<in> set (sb_queue a') \<and> sb_running a' \<and> \<not> mb_sealed (sb_mail a')"
  by (auto simp: offer_def offer_running_def push_limited_def Let_def split: option.splits if_splits)

lemma refused_message:
  "stopped_by (sb_mail a) = Some UserStop \<Longrightarrow> \<not> consent_covers c (mb_stops (sb_mail a)) \<Longrightarrow>
     offer accepts body c a = (a, StoppedByUser)"
  by (simp add: offer_def Let_def)

text \<open>A message is not lost in the last moments of a turn.  A message that is reported as
  delivered is in the queue of a turn that has not sealed itself; a turn seals itself only
  when no message is queued, and while it is sealed none gets in.  And a message to an agent
  the user stopped changes nothing without leave.\<close>

theorem message_not_lost:
  assumes "(mstep me)\<^sup>*\<^sup>* mstart s" "offer accepts body c (ms_sub s) = (a, result)"
  shows "(mb_sealed (mail s) \<longrightarrow> \<not> has_parent_message (sb_queue (ms_sub s)) \<and> result \<noteq> OfferQueued) \<and>
         (result = OfferQueued \<longrightarrow>
            ParentMessage body \<in> set (sb_queue a) \<and> sb_running a \<and> snd (seal_unless_message a) = False) \<and>
         (held_by_user c (mail s) \<longrightarrow> a = ms_sub s \<and> result = StoppedByUser)"
proof -
  have "seal_ok (ms_sub s)" using mailboxes.reachable_inv [OF assms(1)] by (simp add: mail_ok_def)
  moreover have "result = OfferQueued \<Longrightarrow> \<not> mb_sealed (mail s)"
    using assms(2) by (auto simp: offer_def offer_running_def Let_def split: option.splits if_splits)
  moreover have "result = OfferQueued \<Longrightarrow>
      ParentMessage body \<in> set (sb_queue a) \<and> sb_running a \<and> snd (seal_unless_message a) = False"
    using queued_message [of accepts body c "ms_sub s" a] assms(2)
    by (auto simp: seal_unless_message_def has_parent_message_def list_ex_iff split: if_splits intro: bexI [of _ "ParentMessage body"])
  moreover have "held_by_user c (mail s) \<Longrightarrow> a = ms_sub s \<and> result = StoppedByUser"
    using refused_message [of "ms_sub s" c accepts body] assms(2) by (auto simp: held_by_user_def)
  ultimately show ?thesis by (auto simp: seal_ok_def)
qed


section \<open>Runs\<close>

lemmas run_defs = mstart_def new_sub_def new_mailbox_def note_stop_def advance_resume_def give_up_resume_def Let_def

text \<open>The user stops an agent and resumes it; the resume is about to take effect.\<close>

definition lifting_run :: msys where
  "lifting_run =
     mstart\<lparr>ms_sub := (note_stop UserStop new_sub)\<lparr>stop_requested := False\<rparr>, ms_stopping := 1,
       ms_lifting := Some \<lparr>rs_consent = Own, rs_generation = 1, rs_stage = Committing\<rparr>\<rparr>"

lemma lifting_run_reached: "(mstep ''a1'')\<^sup>*\<^sup>* mstart lifting_run"
proof -
  let ?r = "\<lambda>st. \<lparr>rs_consent = Own, rs_generation = 1, rs_stage = st\<rparr>"
  let ?s1 = "mstart\<lparr>ms_sub := note_stop UserStop new_sub, ms_stopping := 1\<rparr>"
  let ?s = "\<lambda>st. ?s1\<lparr>ms_resumes := [?r st]\<rparr>"
  have "mstep ''a1'' mstart ?s1" using mstep.stop_noted [of mstart "''a1''" UserStop] by (simp add: mstart_def)
  moreover have "mstep ''a1'' ?s1 (?s GenerationRead)"
    using mstep.resume_read [of "''a1''" ?s1 Own] by (simp add: run_defs)
  moreover have "mstep ''a1'' (?s GenerationRead) (?s NotClosed)"
    using mstep.resume_open [of "?r GenerationRead" "?s GenerationRead" "''a1''"] by (simp add: run_defs)
  moreover have "mstep ''a1'' (?s NotClosed) (?s ConsentChecked)"
    using mstep.resume_allowed [of "?r NotClosed" "?s NotClosed" "''a1''"] by (simp add: run_defs held_by_user_def)
  moreover have "mstep ''a1'' (?s ConsentChecked) (?s Committing)"
    using mstep.resume_committed [of "?r ConsentChecked" "?s ConsentChecked" "''a1''"] by (simp add: run_defs)
  moreover have "mstep ''a1'' (?s Committing) lifting_run"
    using mstep.lift_begun [of "?r Committing" "?s Committing" "(note_stop UserStop new_sub)\<lparr>stop_requested := False\<rparr>" "''a1''"]
    by (simp add: run_defs lift_clear_def lifting_run_def)
  ultimately show ?thesis by (meson rtranclp.rtrancl_into_rtrancl rtranclp.rtrancl_refl)
qed

theorem user_stop_needs_leave_witness:
  "\<exists>r. ms_lifting lifting_run = Some r \<and> (rs_consent r = Own \<or> rs_consent r = Given (mb_stops (mail lifting_run)))"
proof (rule user_stop_needs_leave [OF lifting_run_reached])
  show "mstep ''a1'' lifting_run (lifting_run\<lparr>ms_sub := fst (lift_finish 1 (ms_sub lifting_run)), ms_lifting := None\<rparr>)"
    using mstep.lift_done [of lifting_run "\<lparr>rs_consent = Own, rs_generation = 1, rs_stage = Committing\<rparr>"
        "fst (lift_finish 1 (ms_sub lifting_run))" "snd (lift_finish 1 (ms_sub lifting_run))" "''a1''"]
    by (simp add: lifting_run_def)
qed (simp_all add: lifting_run_def run_defs lift_finish_def)

text \<open>The session is closed.\<close>

definition closed_run :: msys where
  "closed_run = mstart\<lparr>ms_sub := land_stop new_sub, ms_closed := True, ms_close_left := False, ms_swept := True\<rparr>"

lemma closed_run_reached: "(mstep ''a1'')\<^sup>*\<^sup>* mstart closed_run"
proof -
  let ?s = "mstart\<lparr>ms_closed := True, ms_close_left := True\<rparr>"
  have "mstep ''a1'' mstart ?s" using mstep.close_begun [of mstart] by (simp add: mstart_def)
  moreover have "mstep ''a1'' ?s closed_run" using mstep.close_landed [of ?s "''a1''"] by (simp add: mstart_def closed_run_def)
  ultimately show ?thesis by (meson rtranclp.rtrancl_into_rtrancl rtranclp.rtrancl_refl)
qed

theorem close_wins_witness: "stop_requested (ms_sub closed_run)"
  by (rule close_wins [OF closed_run_reached]) (simp_all add: closed_run_def mstart_def)

text \<open>An agent asks its orchestrator.\<close>

definition asked_run :: msys where
  "asked_run =
     (let q = AgentQuestion ''a1'' ''n'' ''c'' ''why?''
      in mstart\<lparr>ms_sub := new_sub\<lparr>sb_mail :=
            new_mailbox\<lparr>mb_question := Some \<lparr>oq_injection = q, oq_call = ''c'', oq_delivered = False\<rparr>\<rparr>\<rparr>,
          ms_parent := [q]\<rparr>)"

lemma asked_run_reached: "(mstep ''a1'')\<^sup>*\<^sup>* mstart asked_run"
proof -
  have "mstep ''a1'' mstart asked_run"
    using mstep.question_asked [of mstart "''a1''" "''n''" "''c''" "''why?''" "mail asked_run" "ms_parent asked_run" Asked]
    by (simp add: asked_run_def run_defs open_mail_def push_injection_def MAX_UNANSWERED_IN_ROW_def)
  then show ?thesis by blast
qed

theorem no_question_stranded_witness:
  "AgentQuestion ''a1'' ''n'' ''c'' ''why?'' \<in> set (ms_parent asked_run) \<union> set (ms_batch asked_run)"
  using no_question_stranded [OF asked_run_reached] by (simp add: asked_run_def run_defs)

text \<open>An agent at work gets a message.\<close>

definition working_run :: msys where
  "working_run = mstart\<lparr>ms_sub := new_sub\<lparr>sb_running := True\<rparr>\<rparr>"

lemma working_run_reached: "(mstep ''a1'')\<^sup>*\<^sup>* mstart working_run"
proof -
  have "mstep ''a1'' mstart working_run"
    using mstep.turn_claimed [of mstart "''a1''"] by (simp add: working_run_def run_defs unseal_def)
  then show ?thesis by blast
qed

theorem message_not_lost_witness:
  "\<exists>a. offer True ''hi'' Absent (ms_sub working_run) = (a, OfferQueued) \<and> ParentMessage ''hi'' \<in> set (sb_queue a)"
proof -
  obtain a where a: "offer True ''hi'' Absent (ms_sub working_run) = (a, OfferQueued)"
    by (simp add: offer_def offer_running_def push_limited_def count_matching_def working_run_def run_defs
        MAX_QUEUED_PARENT_MESSAGES_def)
  then show ?thesis using message_not_lost [OF working_run_reached a] by blast
qed

end
