(* ===== verification/History.thy ===== *)
theory History
  imports Provider_Errors
begin

text \<open>
  The conversation an agent keeps: messages (\<^verbatim>\<open>crates/pacode-types/src/message.rs\<close>), the
  history with its numbered rows, reservations and the pairing repair on the way to the model
  (\<^verbatim>\<open>crates/pacode-core/src/agent.rs\<close>), the callers that put messages into it
  (\<^verbatim>\<open>persist_history_message\<close> of \<^verbatim>\<open>turn.rs\<close>, \<^verbatim>\<open>commit_tool_outcome\<close> and
  \<^verbatim>\<open>stub_dangling_tool_calls\<close> of \<^verbatim>\<open>turn/tools.rs\<close>, \<^verbatim>\<open>submit_user_message_inner\<close> of
  \<^verbatim>\<open>session.rs\<close>) and the ones that hide and restore rows (\<^verbatim>\<open>turn/drain.rs\<close>,
  \<^verbatim>\<open>turn/lifecycle/admission.rs\<close>).

  A reservation is shared and mutable in the code (an \<^verbatim>\<open>Arc\<close> with atomic flags): here it is a
  cell of a list, and its index is its identity.  The store is the set of the numbers of the
  rows written to it.  The text of a JSON value (\<open>jt\<close>) and the clock (\<open>now\<close>) are arguments.
\<close>

section \<open>Messages\<close>

datatype role = System | User | Assistant | Tool

datatype image_source =
    PathImage string
  | BytesImage string string
  | StoredImage string string "string option" "nat option" "nat option"

datatype content_block =
    Text string
  | Reasoning string "string option"
  | ToolUse string string json
  | ToolResult string string bool
  | Image image_source

datatype message_kind = Normal | Injected | CompactionSummary | SystemReminder

record message =
  m_role :: role
  m_content :: "content_block list"
  m_timestamp :: nat
  m_kind :: message_kind
  m_hidden :: bool
  m_token_estimate :: "nat option"

definition new_message :: "nat \<Rightarrow> role \<Rightarrow> content_block list \<Rightarrow> message" where
  "new_message now r bs =
     \<lparr>m_role = r, m_content = bs, m_timestamp = now, m_kind = Normal, m_hidden = False,
      m_token_estimate = None\<rparr>"

definition user_message :: "nat \<Rightarrow> string \<Rightarrow> message" where
  "user_message now text = new_message now User [Text text]"

definition tool_result :: "nat \<Rightarrow> string \<Rightarrow> string \<Rightarrow> bool \<Rightarrow> message" where
  "tool_result now call_id text is_error = new_message now Tool [ToolResult call_id text is_error]"

definition with_kind :: "message \<Rightarrow> message_kind \<Rightarrow> message" where
  "with_kind m k = m\<lparr>m_kind := k\<rparr>"

fun message_text_from :: "string \<Rightarrow> content_block list \<Rightarrow> string" where
  "message_text_from out [] = out"
| "message_text_from out (Text t # bs) =
     message_text_from ((if out = [] then [] else out @ [NL]) @ t) bs"
| "message_text_from out (_ # bs) = message_text_from out bs"

definition message_text :: "message \<Rightarrow> string" where
  "message_text m = message_text_from [] (m_content m)"

fun tool_use_of :: "content_block \<Rightarrow> (string \<times> string \<times> json) option" where
  "tool_use_of (ToolUse i n v) = Some (i, n, v)"
| "tool_use_of _ = None"

definition tool_uses :: "message \<Rightarrow> (string \<times> string \<times> json) list" where
  "tool_uses m = List.map_filter tool_use_of (m_content m)"

definition has_tool_uses :: "message \<Rightarrow> bool" where
  "has_tool_uses m \<longleftrightarrow> tool_uses m \<noteq> []"

definition IMAGE_TOKEN_CAP :: nat where "IMAGE_TOKEN_CAP = 1600"
definition IMAGE_TOKEN_DEFAULT :: nat where "IMAGE_TOKEN_DEFAULT = 1200"
definition IMAGE_ESTIMATE_CHARS :: nat where "IMAGE_ESTIMATE_CHARS = 6000"
definition U32_MAX :: nat where "U32_MAX = 4294967295"

definition sat_add32 :: "nat \<Rightarrow> nat \<Rightarrow> nat" where
  "sat_add32 a b = min (a + b) U32_MAX"

text \<open>\<^verbatim>\<open>x as u32\<close>.\<close>

definition as_u32 :: "nat \<Rightarrow> nat" where
  "as_u32 n = n mod (U32_MAX + 1)"

definition estimate_image_tokens :: "nat option \<Rightarrow> nat option \<Rightarrow> nat" where
  "estimate_image_tokens width height =
     (case (width, height) of
        (Some w, Some h) \<Rightarrow>
          if w > 0 \<and> h > 0 then min (as_u32 (max (w * h div 750) 1)) IMAGE_TOKEN_CAP
          else IMAGE_TOKEN_DEFAULT
      | _ \<Rightarrow> IMAGE_TOKEN_DEFAULT)"

fun estimate_chars :: "image_source \<Rightarrow> nat" where
  "estimate_chars (StoredImage _ _ _ w h) = estimate_image_tokens w h * 4"
| "estimate_chars (PathImage _) = IMAGE_ESTIMATE_CHARS"
| "estimate_chars (BytesImage _ _) = IMAGE_ESTIMATE_CHARS"

fun block_chars :: "(json \<Rightarrow> string) \<Rightarrow> content_block \<Rightarrow> nat" where
  "block_chars jt (Text t) = char_count t"
| "block_chars jt (Reasoning t _) = char_count t"
| "block_chars jt (ToolUse _ n v) = length n + length (jt v)"
| "block_chars jt (ToolResult _ t _) = char_count t"
| "block_chars jt (Image src) = estimate_chars src"

definition char_len :: "(json \<Rightarrow> string) \<Rightarrow> message \<Rightarrow> nat" where
  "char_len jt m = sum_list (map (block_chars jt) (m_content m))"

definition estimate_tokens_for_chars :: "nat \<Rightarrow> nat" where
  "estimate_tokens_for_chars chars = as_u32 ((chars + 3) div 4)"

definition message_tokens :: "(json \<Rightarrow> string) \<Rightarrow> message \<Rightarrow> nat" where
  "message_tokens jt m = estimate_tokens_for_chars (char_len jt m)"

definition estimate_tokens :: "string \<Rightarrow> nat" where
  "estimate_tokens text = estimate_tokens_for_chars (char_count text)"

section \<open>The history and its reservations\<close>

record history =
  h_messages :: "message list"
  message_seqs :: "nat list"
  free_seqs :: "nat set"
  next_seq :: nat
  h_summary :: "string option"
  summary_upto :: nat
  estimated_tokens :: nat

definition empty_history :: history where
  "empty_history =
     \<lparr>h_messages = [], message_seqs = [], free_seqs = {}, next_seq = 0, h_summary = None,
      summary_upto = 0, estimated_tokens = 0\<rparr>"

record reservation =
  r_seq :: nat
  r_message :: message
  r_persisted :: bool
  r_finalized :: bool
  r_admission :: "string option"

definition reserve_row :: "history \<Rightarrow> message \<Rightarrow> history \<times> reservation" where
  "reserve_row h msg =
     (let (seq, h') =
        (if free_seqs h = {} then (next_seq h, h\<lparr>next_seq := sat_add (next_seq h) 1\<rparr>)
         else (Min (free_seqs h), h\<lparr>free_seqs := free_seqs h - {Min (free_seqs h)}\<rparr>))
      in (h', \<lparr>r_seq = seq, r_message = msg, r_persisted = False, r_finalized = False,
               r_admission = None\<rparr>))"

text \<open>\<^verbatim>\<open>binary_search\<close> on the ascending row numbers: the place of a number (\<open>Inr\<close>), or where it
  would be inserted (\<open>Inl\<close>).\<close>

definition binary_search :: "nat list \<Rightarrow> nat \<Rightarrow> nat + nat" where
  "binary_search xs x =
     (let i = length (takeWhile (\<lambda>y. y < x) xs)
      in if i < length xs \<and> xs ! i = x then Inr i else Inl i)"

definition insert_at :: "nat \<Rightarrow> 'a \<Rightarrow> 'a list \<Rightarrow> 'a list" where
  "insert_at i x xs = take i xs @ x # drop i xs"

definition after_last :: "nat list \<Rightarrow> nat \<Rightarrow> bool" where
  "after_last xs x \<longleftrightarrow> (case last_opt xs of None \<Rightarrow> True | Some l \<Rightarrow> l < x)"

definition commit_reserved ::
  "(json \<Rightarrow> string) \<Rightarrow> history \<Rightarrow> reservation \<Rightarrow> history \<times> reservation" where
  "commit_reserved jt h r =
     (if r_finalized r then (h, r)
      else
        let r' = r\<lparr>r_finalized := True\<rparr>; seq = r_seq r; msg = r_message r;
            added = sat_add32 (estimated_tokens h) (message_tokens jt msg)
        in if after_last (message_seqs h) seq then
             (h\<lparr>estimated_tokens := added, message_seqs := message_seqs h @ [seq],
                h_messages := h_messages h @ [msg]\<rparr>, r')
           else
             (case binary_search (message_seqs h) seq of
                Inr i \<Rightarrow>
                  (h\<lparr>h_messages := (h_messages h)[i := msg],
                     estimated_tokens :=
                       sat_add32 (estimated_tokens h - message_tokens jt (h_messages h ! i))
                         (message_tokens jt msg)\<rparr>, r')
              | Inl i \<Rightarrow>
                  (h\<lparr>estimated_tokens := added,
                     message_seqs := insert_at i seq (message_seqs h),
                     h_messages := insert_at i msg (h_messages h)\<rparr>, r')))"

definition push_row :: "(json \<Rightarrow> string) \<Rightarrow> history \<Rightarrow> message \<Rightarrow> history \<times> nat" where
  "push_row jt h msg =
     (let (h', r) = reserve_row h msg in (fst (commit_reserved jt h' r), r_seq r))"

text \<open>The loop of \<^verbatim>\<open>rollback_reserved\<close> that gives back the numbers at the end.\<close>

fun lower_next :: "nat \<Rightarrow> nat set \<Rightarrow> nat \<times> nat set" where
  "lower_next 0 F = (0, F)"
| "lower_next (Suc n) F = (if n \<in> F then lower_next n (F - {n}) else (Suc n, F))"

definition rollback_reserved :: "history \<Rightarrow> reservation \<Rightarrow> history \<times> reservation" where
  "rollback_reserved h r =
     (if r_finalized r then (h, r)
      else
        let r' = r\<lparr>r_finalized := True\<rparr>
        in if r_persisted r \<or> \<not> isl (binary_search (message_seqs h) (r_seq r)) then (h, r')
           else
             let (n, F) = lower_next (next_seq h) (insert (r_seq r) (free_seqs h))
             in (h\<lparr>free_seqs := F, next_seq := n\<rparr>, r'))"

definition restore_row ::
  "(json \<Rightarrow> string) \<Rightarrow> history \<Rightarrow> nat \<Rightarrow> message \<Rightarrow> history" where
  "restore_row jt h seq msg =
     (let h = h\<lparr>free_seqs := free_seqs h - {seq}, next_seq := max (next_seq h) (sat_add seq 1)\<rparr>;
          added = sat_add32 (estimated_tokens h) (message_tokens jt msg)
      in if after_last (message_seqs h) seq then
           h\<lparr>message_seqs := message_seqs h @ [seq], h_messages := h_messages h @ [msg],
             estimated_tokens := added\<rparr>
         else
           (case binary_search (message_seqs h) seq of
              Inr _ \<Rightarrow> h
            | Inl i \<Rightarrow>
                h\<lparr>message_seqs := insert_at i seq (message_seqs h),
                  h_messages := insert_at i msg (h_messages h), estimated_tokens := added\<rparr>))"

definition clear_history :: "history \<Rightarrow> history" where
  "clear_history h =
     h\<lparr>h_messages := [], message_seqs := [], free_seqs := {}, h_summary := None,
       summary_upto := 0, estimated_tokens := 0\<rparr>"

definition history_rows :: "history \<Rightarrow> (nat \<times> message) list" where
  "history_rows h = zip (message_seqs h) (h_messages h)"

section \<open>Pairing calls with results on the way to the model\<close>

definition INTERRUPTED_TOOL_RESULT :: string where
  "INTERRUPTED_TOOL_RESULT = ''[interrupted]''"

fun is_tool_result :: "content_block \<Rightarrow> bool" where
  "is_tool_result (ToolResult _ _ _) = True"
| "is_tool_result _ = False"

definition unmatched_text :: "string \<Rightarrow> string \<Rightarrow> string" where
  "unmatched_text call_id text =
     ''[unmatched tool result (call '' @ call_id @ '')]'' @ [NL] @ text"

fun degrade_block :: "content_block \<Rightarrow> content_block" where
  "degrade_block (ToolResult c t e) = Text (unmatched_text c t)"
| "degrade_block b = b"

definition sanitize_stray_tool_message :: "message \<Rightarrow> message \<times> nat" where
  "sanitize_stray_tool_message m =
     (if m_role m \<noteq> Tool \<or> \<not> list_ex is_tool_result (m_content m) then (m, 0)
      else (m\<lparr>m_content := map degrade_block (m_content m)\<rparr>, 1))"

text \<open>The call ids of the results and of the calls of a message.\<close>

fun result_id_of :: "content_block \<Rightarrow> string option" where
  "result_id_of (ToolResult c _ _) = Some c"
| "result_id_of _ = None"

definition result_ids :: "message \<Rightarrow> string list" where
  "result_ids m = List.map_filter result_id_of (m_content m)"

definition use_ids :: "message \<Rightarrow> string list" where
  "use_ids m = map fst (tool_uses m)"

fun answer_blocks ::
  "string list \<Rightarrow> string list \<Rightarrow> content_block list \<Rightarrow> content_block list \<times> string list" where
  "answer_blocks uses answered [] = ([], answered)"
| "answer_blocks uses answered (ToolResult c t e # bs) =
     (if c \<in> set uses \<and> c \<notin> set answered then
        let (out, answered') = answer_blocks uses (answered @ [c]) bs
        in (ToolResult c t e # out, answered')
      else
        let (out, answered') = answer_blocks uses answered bs
        in (Text (unmatched_text c t) # out, answered'))"
| "answer_blocks uses answered (b # bs) =
     (let (out, answered') = answer_blocks uses answered bs in (b # out, answered'))"

definition sanitize_tool_message_answered ::
  "message \<Rightarrow> string list \<Rightarrow> string list \<Rightarrow> message \<times> string list \<times> nat" where
  "sanitize_tool_message_answered m uses answered =
     (let has_stray = list_ex (\<lambda>c. c \<notin> set uses \<or> c \<in> set answered) (result_ids m)
      in if \<not> has_stray then (m, answered @ result_ids m, 0)
         else
           let (bs, answered') = answer_blocks uses answered (m_content m)
           in (m\<lparr>m_content := bs\<rparr>, answered', 1))"

fun answer_run ::
  "string list \<Rightarrow> string list \<Rightarrow> message list \<Rightarrow> message list \<times> string list \<times> nat" where
  "answer_run uses answered [] = ([], answered, 0)"
| "answer_run uses answered (m # ms) =
     (let (m', answered', k) = sanitize_tool_message_answered m uses answered;
          (out, answered'', k') = answer_run uses answered' ms
      in (m' # out, answered'', k + k'))"

definition is_tool_message :: "message \<Rightarrow> bool" where
  "is_tool_message m \<longleftrightarrow> m_role m = Tool"

definition calls_tools :: "message \<Rightarrow> bool" where
  "calls_tools m \<longleftrightarrow> m_role m = Assistant \<and> has_tool_uses m"

function sanitize_tool_pairing :: "nat \<Rightarrow> message list \<Rightarrow> message list \<times> nat" where
  "sanitize_tool_pairing now [] = ([], 0)"
| "sanitize_tool_pairing now (m # ms) =
     (if \<not> calls_tools m then
        let (m', k) = sanitize_stray_tool_message m;
            (out, k') = sanitize_tool_pairing now ms
        in (m' # out, k + k')
      else
        let uses = use_ids m;
            (run, answered, k) = answer_run uses [] (takeWhile is_tool_message ms);
            missing = filter (\<lambda>c. c \<notin> set answered) uses;
            (out, k') = sanitize_tool_pairing now (dropWhile is_tool_message ms)
        in (m # run @ map (\<lambda>c. tool_result now c INTERRUPTED_TOOL_RESULT True) missing @ out,
            k + length missing + k'))"
  by pat_completeness auto
termination
  by (relation "measure (\<lambda>(now, ms). length ms)") (auto simp: le_imp_less_Suc length_dropWhile_le)

definition for_model :: "nat \<Rightarrow> history \<Rightarrow> message list" where
  "for_model now h =
     (case h_summary h of
        None \<Rightarrow> []
      | Some s \<Rightarrow>
          [with_kind (user_message now (''[Previous conversation summary]'' @ [NL] @ s)) CompactionSummary])
     @ fst (sanitize_tool_pairing now (h_messages h))"

section \<open>What a provider accepts\<close>

text \<open>The contract of \<^verbatim>\<open>sanitize_tool_pairing_into\<close>: the results of an assistant message's calls
  are in the run of tool messages right after it, each call is answered once, and a result
  is nowhere else.\<close>

function paired :: "message list \<Rightarrow> bool" where
  "paired [] \<longleftrightarrow> True"
| "paired (m # ms) \<longleftrightarrow>
     (if calls_tools m then
        let ids = concat (map result_ids (takeWhile is_tool_message ms))
        in result_ids m = [] \<and> distinct ids \<and> set ids = set (use_ids m) \<and>
           paired (dropWhile is_tool_message ms)
      else result_ids m = [] \<and> paired ms)"
  by pat_completeness auto
termination
  by (relation "measure length") (auto simp: le_imp_less_Suc length_dropWhile_le)

text \<open>How the code builds messages: a call id is used once in an assistant message, a tool
  message carries a result at most once, and no other message carries one.\<close>

definition well_built :: "message \<Rightarrow> bool" where
  "well_built m \<longleftrightarrow>
     distinct (use_ids m) \<and> distinct (result_ids m) \<and> (m_role m = Tool \<or> result_ids m = [])"

lemma map_filter_Cons [simp]:
  "List.map_filter f [] = []"
  "List.map_filter f (x # xs) = (case f x of None \<Rightarrow> List.map_filter f xs | Some y \<Rightarrow> y # List.map_filter f xs)"
  by (simp_all add: List.map_filter_def split: option.split)

lemma no_result_ids: "\<not> list_ex is_tool_result (m_content m) \<longleftrightarrow> result_ids m = []"
proof -
  have "\<not> list_ex is_tool_result bs \<longleftrightarrow> List.map_filter result_id_of bs = []" for bs
  proof (induction bs)
    case (Cons b bs)
    then show ?case by (cases b) auto
  qed simp
  then show ?thesis by (simp add: result_ids_def)
qed

lemma degrade_no_results: "List.map_filter result_id_of (map degrade_block bs) = []"
proof (induction bs)
  case (Cons b bs)
  then show ?case by (cases b) auto
qed simp

lemma stray_role [simp]: "m_role (fst (sanitize_stray_tool_message m)) = m_role m"
  by (simp add: sanitize_stray_tool_message_def)

lemma stray_results:
  "m_role m = Tool \<or> result_ids m = [] \<Longrightarrow> result_ids (fst (sanitize_stray_tool_message m)) = []"
  using no_result_ids [of m] degrade_no_results
  by (auto simp: sanitize_stray_tool_message_def result_ids_def)

lemma stray_not_calling: "\<not> calls_tools m \<Longrightarrow> \<not> calls_tools (fst (sanitize_stray_tool_message m))"
  by (auto simp: sanitize_stray_tool_message_def calls_tools_def)

lemma answer_blocks_ids:
  assumes "answer_blocks uses answered bs = (out, answered')"
    and "distinct answered"
  shows "answered' = answered @ List.map_filter result_id_of out \<and> distinct answered' \<and>
         set answered' \<subseteq> set answered \<union> set uses"
  using assms
proof (induction uses answered bs arbitrary: out answered' rule: answer_blocks.induct)
  case (2 uses answered c t e bs)
  show ?case
  proof (cases "c \<in> set uses \<and> c \<notin> set answered")
    case True
    then obtain out1 where o: "answer_blocks uses (answered @ [c]) bs = (out1, answered')"
      "out = ToolResult c t e # out1"
      using 2(3) by (auto split: prod.splits)
    from 2(1) [OF True o(1)] True 2(4) show ?thesis by (auto simp: o(2))
  next
    case False
    then obtain out1 where o: "answer_blocks uses answered bs = (out1, answered')"
      "out = Text (unmatched_text c t) # out1"
      using 2(3) by (auto split: prod.splits)
    from 2(2) [OF False o(1)] 2(4) show ?thesis by (auto simp: o(2))
  qed
qed (auto split: prod.splits)

lemma answered_message:
  assumes "sanitize_tool_message_answered m uses answered = (m', answered', k)"
    and "distinct answered" "distinct (result_ids m)"
  shows "m_role m' = m_role m \<and> answered' = answered @ result_ids m' \<and> distinct answered' \<and>
         set answered' \<subseteq> set answered \<union> set uses"
  using assms answer_blocks_ids [of uses answered "m_content m"]
  by (auto simp: sanitize_tool_message_answered_def Let_def result_ids_def list_ex_iff
      split: prod.splits if_splits)

lemma answered_run:
  assumes "answer_run uses answered ms = (out, answered', k)"
    and "distinct answered" "set answered \<subseteq> set uses" "\<forall>m \<in> set ms. well_built m \<and> is_tool_message m"
  shows "answered' = answered @ concat (map result_ids out) \<and> distinct answered' \<and>
         set answered' \<subseteq> set uses \<and> (\<forall>m \<in> set out. is_tool_message m)"
  using assms
proof (induction uses answered ms arbitrary: out answered' k rule: answer_run.induct)
  case (2 uses answered m ms)
  obtain m' a1 k1 where m: "sanitize_tool_message_answered m uses answered = (m', a1, k1)"
    by (cases "sanitize_tool_message_answered m uses answered") auto
  obtain out1 k2 where r: "answer_run uses a1 ms = (out1, answered', k2)" "out = m' # out1"
    using 2(2) m by (auto split: prod.splits)
  have a: "m_role m' = m_role m" "a1 = answered @ result_ids m'" "distinct a1" "set a1 \<subseteq> set uses"
    using answered_message [OF m 2(3)] 2(4,5) by (auto simp: well_built_def)
  have ms: "\<forall>m \<in> set ms. well_built m \<and> is_tool_message m" using 2(5) by simp
  note ih = 2(1) [OF m [symmetric] refl refl r(1) a(3,4) ms]
  have "is_tool_message m'" using a(1) 2(5) by (simp add: is_tool_message_def)
  then have out: "\<forall>m \<in> set out. is_tool_message m" using ih r(2) by simp
  have "answered' = answered @ concat (map result_ids out)" using ih a(2) r(2) by simp
  with ih out show ?case by blast
qed simp

lemma sanitize_keeps_head:
  "\<exists>m' out. fst (sanitize_tool_pairing now (m # ms)) = m' # out \<and> m_role m' = m_role m"
  using stray_role [of m] by (cases "sanitize_stray_tool_message m") (simp add: Let_def split: prod.splits)

lemma stray_head:
  assumes "ms = [] \<or> \<not> is_tool_message (hd ms)"
  shows "takeWhile is_tool_message (fst (sanitize_tool_pairing now ms)) = []"
    "dropWhile is_tool_message (fst (sanitize_tool_pairing now ms)) = fst (sanitize_tool_pairing now ms)"
proof -
  have "fst (sanitize_tool_pairing now ms) = [] \<or> \<not> is_tool_message (hd (fst (sanitize_tool_pairing now ms)))"
  proof (cases ms)
    case (Cons m ms')
    then show ?thesis using assms sanitize_keeps_head [of now m ms'] by (auto simp: is_tool_message_def)
  qed simp
  then show "takeWhile is_tool_message (fst (sanitize_tool_pairing now ms)) = []"
    "dropWhile is_tool_message (fst (sanitize_tool_pairing now ms)) = fst (sanitize_tool_pairing now ms)"
    by (cases "fst (sanitize_tool_pairing now ms)"; simp)+
qed

lemma synthesized [simp]:
  "is_tool_message (tool_result now c t e)" "result_ids (tool_result now c t e) = [c]"
  by (simp_all add: is_tool_message_def tool_result_def new_message_def result_ids_def)

lemma takeWhile_run:
  assumes "\<forall>x \<in> set xs. P x" "takeWhile P ys = []" "dropWhile P ys = ys"
  shows "takeWhile P (xs @ ys) = xs" "dropWhile P (xs @ ys) = ys"
  using assms by (induction xs) auto

lemma dropWhile_head: "dropWhile P xs = [] \<or> \<not> P (hd (dropWhile P xs))"
  using hd_dropWhile by blast

lemma repaired_is_paired:
  assumes "\<forall>m \<in> set ms. well_built m"
  shows "paired (fst (sanitize_tool_pairing now ms))"
  using assms
proof (induction now ms rule: sanitize_tool_pairing.induct)
  case (2 now m ms)
  show ?case
  proof (cases "calls_tools m")
    case False
    obtain m' k where m': "sanitize_stray_tool_message m = (m', k)" by fastforce
    then have "\<not> calls_tools m'" "result_ids m' = []"
      using stray_not_calling [OF False] stray_results [of m] 2(3) by (auto simp: well_built_def)
    with 2(1) [OF False m' [symmetric]] 2(3) False m' show ?thesis
      by (auto split: prod.splits)
  next
    case True
    define tools rest where "tools = takeWhile is_tool_message ms" and "rest = dropWhile is_tool_message ms"
    obtain run answered k where run: "answer_run (use_ids m) [] tools = (run, answered, k)"
      by (cases "answer_run (use_ids m) [] tools") auto
    define missing where "missing = filter (\<lambda>c. c \<notin> set answered) (use_ids m)"
    define synth where "synth = map (\<lambda>c. tool_result now c INTERRUPTED_TOOL_RESULT True) missing"
    have r: "answered = concat (map result_ids run)" "distinct answered" "set answered \<subseteq> set (use_ids m)"
      "\<forall>x \<in> set run. is_tool_message x"
      using answered_run [OF run] 2(3) by (auto simp: tools_def dest: set_takeWhileD)
    have s: "concat (map result_ids synth) = missing"
      by (simp add: synth_def comp_def)
    have ids: "distinct (answered @ missing)" "set (answered @ missing) = set (use_ids m)"
      using r 2(3) by (auto simp: missing_def well_built_def)
    have rest: "paired (fst (sanitize_tool_pairing now rest))"
      using 2(2) [of _ "(run, answered, k)" run "(answered, k)" answered k] 2(3) True run
      by (auto simp: tools_def rest_def dest: set_dropWhileD)
    have head: "takeWhile is_tool_message (fst (sanitize_tool_pairing now rest)) = []"
      "dropWhile is_tool_message (fst (sanitize_tool_pairing now rest)) = fst (sanitize_tool_pairing now rest)"
      using stray_head [of rest now, OF dropWhile_head [of is_tool_message ms, folded rest_def]] by simp_all
    have tools_all: "\<forall>x \<in> set (run @ synth). is_tool_message x" using r(4) by (auto simp: synth_def)
    have out: "fst (sanitize_tool_pairing now (m # ms)) = m # (run @ synth) @ fst (sanitize_tool_pairing now rest)"
      using True run by (simp add: Let_def tools_def rest_def synth_def missing_def split: prod.splits)
    show ?thesis
      unfolding out using True takeWhile_run [OF tools_all head] rest ids r s 2(3)
      by (auto simp: well_built_def calls_tools_def)
  qed
qed simp

text \<open>C12: Let every message by itself be well built: a call id is used once in an assistant
  message, a tool message carries a result for a call at most once, and no other message
  carries results.  Then whatever is wrong between the messages of a history - calls never
  answered, results that lost their call, results for unknown calls, a call answered by two
  messages - what \<^verbatim>\<open>for_model\<close> sends, the summary included, is paired the way the
  providers demand: every call is answered exactly once, in the run of tool messages right
  after the message that makes it, and no result stands anywhere else.  A message that is not
  well built is not repaired (\<open>twice_in_one_message\<close>).\<close>

theorem sanitized_is_paired:
  assumes "\<forall>m \<in> set (h_messages h). well_built m"
  shows "paired (for_model now h)"
  using repaired_is_paired [OF assms, of now]
  by (simp add: for_model_def calls_tools_def has_tool_uses_def use_ids_def tool_uses_def user_message_def new_message_def
      with_kind_def result_ids_def split: option.split)

lemma sanitized_is_paired_witness:
  "paired (for_model 0 (empty_history\<lparr>h_summary := Some ''so far'', h_messages :=
     [new_message 0 Assistant [ToolUse ''a'' ''read'' JNull, ToolUse ''b'' ''bash'' JNull],
      tool_result 0 ''a'' ''ok'' False, user_message 0 ''hi'', tool_result 0 ''b'' ''late'' False,
      tool_result 0 ''b'' ''again'' False]\<rparr>))"
  by (rule sanitized_is_paired) (simp add: well_built_def new_message_def tool_result_def
      user_message_def use_ids_def tool_uses_def result_ids_def)

text \<open>Two results for one call in one tool message are left as they are: the repair compares a
  message with the results of the earlier ones only.\<close>

lemma twice_in_one_message:
  defines "ms \<equiv> [new_message 0 Assistant [ToolUse ''a'' ''read'' JNull],
      new_message 0 Tool [ToolResult ''a'' ''one'' False, ToolResult ''a'' ''two'' False]]"
  shows "sanitize_tool_pairing 0 ms = (ms, 0) \<and> \<not> paired ms"
  by (simp add: ms_def new_message_def calls_tools_def has_tool_uses_def use_ids_def tool_uses_def result_ids_def
      is_tool_message_def sanitize_tool_message_answered_def Let_def)

lemma unanswered_run:
  assumes "distinct (answered @ concat (map result_ids ms))" "set (concat (map result_ids ms)) \<subseteq> set uses"
  shows "answer_run uses answered ms = (ms, answered @ concat (map result_ids ms), 0)"
  using assms
proof (induction ms arbitrary: answered)
  case (Cons m ms)
  then have "sanitize_tool_message_answered m uses answered = (m, answered @ result_ids m, 0)"
    by (auto simp: sanitize_tool_message_answered_def list_ex_iff)
  moreover have "answer_run uses (answered @ result_ids m) ms =
      (ms, (answered @ result_ids m) @ concat (map result_ids ms), 0)"
    using Cons.prems by (intro Cons.IH) auto
  ultimately show ?case by simp
qed simp

lemma sanitized_paired: "paired ms \<Longrightarrow> sanitize_tool_pairing now ms = (ms, 0)"
proof (induction now ms rule: sanitize_tool_pairing.induct)
  case (2 now m ms)
  show ?case
  proof (cases "calls_tools m")
    case False
    then have "sanitize_stray_tool_message m = (m, 0)"
      using 2(3) no_result_ids [of m] by (auto simp: sanitize_stray_tool_message_def)
    with 2(1) [OF False this [symmetric] refl] 2(3) False show ?thesis by simp
  next
    case True
    let ?run = "takeWhile is_tool_message ms" and ?rest = "dropWhile is_tool_message ms"
    have p: "distinct (concat (map result_ids ?run))" "set (concat (map result_ids ?run)) = set (use_ids m)"
      "paired ?rest"
      using 2(3) True by (simp_all add: Let_def)
    have run: "answer_run (use_ids m) [] ?run = (?run, concat (map result_ids ?run), 0)"
      using unanswered_run [of "[]" ?run "use_ids m"] p by simp
    have missing: "filter (\<lambda>c. c \<notin> set (concat (map result_ids ?run))) (use_ids m) = []"
      unfolding p(2) by simp
    have rest: "sanitize_tool_pairing now ?rest = (?rest, 0)"
      by (rule 2(2) [OF _ refl run [symmetric] refl refl]) (use True p(3) in simp_all)
    show ?thesis using True by (simp add: run missing rest del: filter_empty_conv set_concat)
  qed
qed simp

text \<open>The repair is for broken histories only: one that is already paired reaches the model
  as it is, row by row, and the count of repairs is zero.  With the previous property the
  repair is idempotent.\<close>

theorem paired_untouched: "paired ms \<Longrightarrow> sanitize_tool_pairing now ms = (ms, 0)"
  by (rule sanitized_paired)

lemma paired_untouched_witness:
  "sanitize_tool_pairing 7 [user_message 0 ''go'',
     new_message 0 Assistant [ToolUse ''a'' ''read'' JNull], tool_result 0 ''a'' ''ok'' False] =
   ([user_message 0 ''go'', new_message 0 Assistant [ToolUse ''a'' ''read'' JNull], tool_result 0 ''a'' ''ok'' False], 0)"
  by (rule paired_untouched) (simp add: new_message_def tool_result_def user_message_def
      use_ids_def tool_uses_def result_ids_def is_tool_message_def calls_tools_def has_tool_uses_def)

text \<open>Messages put one after the other are repaired one after the other when the second part
  does not begin with results.\<close>

lemma takeWhile_append_head:
  "ys = [] \<or> \<not> P (hd ys) \<Longrightarrow> takeWhile P (xs @ ys) = takeWhile P xs \<and>
   dropWhile P (xs @ ys) = dropWhile P xs @ ys"
  by (induction xs) (cases ys; auto)+

lemma sanitize_append:
  assumes "ys = [] \<or> \<not> is_tool_message (hd ys)"
  shows "fst (sanitize_tool_pairing now (xs @ ys)) =
         fst (sanitize_tool_pairing now xs) @ fst (sanitize_tool_pairing now ys)"
  using assms
proof (induction now xs rule: sanitize_tool_pairing.induct)
  case (2 now m ms)
  have ap: "takeWhile is_tool_message (ms @ ys) = takeWhile is_tool_message ms"
    "dropWhile is_tool_message (ms @ ys) = dropWhile is_tool_message ms @ ys"
    using takeWhile_append_head [of ys is_tool_message ms, OF 2(3)] by simp_all
  show ?case
  proof (cases "calls_tools m")
    case False
    obtain m' k where m': "sanitize_stray_tool_message m = (m', k)" by fastforce
    from 2(1) [OF False m' [symmetric]] 2(3) False m' show ?thesis by (simp add: case_prod_beta)
  next
    case True
    obtain run answered k where run: "answer_run (use_ids m) [] (takeWhile is_tool_message ms) = (run, answered, k)"
      by (cases "answer_run (use_ids m) [] (takeWhile is_tool_message ms)") auto
    have "fst (sanitize_tool_pairing now (dropWhile is_tool_message ms @ ys)) =
        fst (sanitize_tool_pairing now (dropWhile is_tool_message ms)) @ fst (sanitize_tool_pairing now ys)"
      by (rule 2(2) [OF _ refl run [symmetric] refl refl]) (use True 2(3) in simp_all)
    then show ?thesis using True run by (simp add: ap Let_def case_prod_beta)
  qed
qed simp

section \<open>Messages on their way into the history\<close>

text \<open>\<open>history_tokens\<close> and the last block of \<^verbatim>\<open>run_compaction\<close> in \<^verbatim>\<open>compaction.rs\<close>: rows up to
  \<open>upto_seq\<close> leave the history, shaken rows replace their originals, rows that came in
  meanwhile stay.\<close>

definition history_tokens :: "(json \<Rightarrow> string) \<Rightarrow> string option \<Rightarrow> message list \<Rightarrow> nat" where
  "history_tokens jt summary msgs =
     fold (\<lambda>m n. sat_add32 n (message_tokens jt m)) msgs
       (case summary of None \<Rightarrow> 0 | Some s \<Rightarrow> estimate_tokens s)"

definition apply_compaction ::
  "(json \<Rightarrow> string) \<Rightarrow> string option \<Rightarrow> nat option \<Rightarrow> (nat \<rightharpoonup> message) \<Rightarrow> history \<Rightarrow> history" where
  "apply_compaction jt summary upto_seq rewritten h =
     (let keep = map (\<lambda>(seq, m). (seq, case rewritten seq of None \<Rightarrow> m | Some m' \<Rightarrow> m'))
                   (filter (\<lambda>(seq, m). case upto_seq of None \<Rightarrow> True | Some u \<Rightarrow> seq > u) (history_rows h));
          h' = (case upto_seq of None \<Rightarrow> h
                | Some u \<Rightarrow> h\<lparr>h_summary := summary, summary_upto := max (summary_upto h) u,
                             free_seqs := {}\<rparr>)
      in h'\<lparr>h_messages := map snd keep, message_seqs := map fst keep,
            estimated_tokens := history_tokens jt (h_summary h') (map snd keep)\<rparr>)"

text \<open>The messages of an agent: the history, the reservations, the queue of user messages
  waiting for their turn, the store, and the calls to the store under way.\<close>

record chat =
  c_hist :: history
  c_cells :: "reservation list"
  c_pending :: "nat list"
  c_discarded :: "nat set"
  c_written :: "nat set"
  c_submitting :: "nat set"
  c_persisting :: "nat set"

definition new_chat :: chat where
  "new_chat =
     \<lparr>c_hist = empty_history, c_cells = [], c_pending = [], c_discarded = {}, c_written = {},
      c_submitting = {}, c_persisting = {}\<rparr>"

definition reserve_user_message :: "chat \<Rightarrow> message \<Rightarrow> string option \<Rightarrow> chat" where
  "reserve_user_message c msg admission =
     (let (h, r) = reserve_row (c_hist c) msg
      in c\<lparr>c_hist := h, c_cells := c_cells c @ [r\<lparr>r_admission := admission\<rparr>],
           c_pending := c_pending c @ [length (c_cells c)]\<rparr>)"

definition commit_cell :: "(json \<Rightarrow> string) \<Rightarrow> nat \<Rightarrow> chat \<Rightarrow> chat" where
  "commit_cell jt i c =
     (let (h, r) = commit_reserved jt (c_hist c) (c_cells c ! i)
      in c\<lparr>c_hist := h, c_cells := (c_cells c)[i := r]\<rparr>)"

definition rollback_cell :: "nat \<Rightarrow> chat \<Rightarrow> chat" where
  "rollback_cell i c =
     (let (h, r) = rollback_reserved (c_hist c) (c_cells c ! i)
      in c\<lparr>c_hist := h, c_cells := (c_cells c)[i := r]\<rparr>)"

definition rollback_user_message :: "chat \<Rightarrow> nat \<Rightarrow> chat" where
  "rollback_user_message c i = rollback_cell i (c\<lparr>c_pending := remove1 i (c_pending c)\<rparr>)"

definition commit_pending_user_messages :: "(json \<Rightarrow> string) \<Rightarrow> chat \<Rightarrow> chat \<times> bool" where
  "commit_pending_user_messages jt c =
     (let ready = takeWhile (\<lambda>i. r_persisted (c_cells c ! i)) (c_pending c)
      in if ready = [] then (c, False)
         else (fold (commit_cell jt) ready (c\<lparr>c_pending := drop (length ready) (c_pending c)\<rparr>), True))"

definition discard_pending_user_messages :: "chat \<Rightarrow> chat \<times> string list" where
  "discard_pending_user_messages c =
     (c\<lparr>c_pending := [],
        c_cells := fold (\<lambda>i cs. cs[i := (cs ! i)\<lparr>r_finalized := True\<rparr>]) (c_pending c) (c_cells c),
        c_discarded := c_discarded c \<union> set (map (\<lambda>i. r_seq (c_cells c ! i)) (c_pending c))\<rparr>,
      List.map_filter (\<lambda>i. r_admission (c_cells c ! i)) (c_pending c))"

text \<open>\<^verbatim>\<open>history.next_seq = history.next_seq.max(max_seq.saturating_add(1))\<close>.\<close>

definition sync_next :: "nat option \<Rightarrow> chat \<Rightarrow> chat" where
  "sync_next max_seq c =
     (case max_seq of None \<Rightarrow> c
      | Some m \<Rightarrow> c\<lparr>c_hist := (c_hist c)\<lparr>next_seq := max (next_seq (c_hist c)) (sat_add m 1)\<rparr>\<rparr>)"

text \<open>\<^verbatim>\<open>submit_user_message_inner\<close> around its call to the store.\<close>

datatype append_outcome = Appended | Duplicate | Conflict | StoreError

definition submit_begin :: "nat option \<Rightarrow> message \<Rightarrow> string option \<Rightarrow> chat \<Rightarrow> chat" where
  "submit_begin max_seq msg admission c =
     (let c = reserve_user_message (sync_next max_seq c) msg admission
      in c\<lparr>c_submitting := insert (length (c_cells c) - 1) (c_submitting c)\<rparr>)"

definition submit_end :: "append_outcome \<Rightarrow> nat \<Rightarrow> chat \<Rightarrow> chat" where
  "submit_end outcome i c =
     (let c = c\<lparr>c_submitting := c_submitting c - {i}\<rparr>
      in case outcome of
           Appended \<Rightarrow>
             c\<lparr>c_written := insert (r_seq (c_cells c ! i)) (c_written c),
               c_cells := (c_cells c)[i := (c_cells c ! i)\<lparr>r_persisted := True\<rparr>]\<rparr>
         | _ \<Rightarrow> rollback_user_message c i)"

text \<open>\<^verbatim>\<open>persist_history_message\<close> around its call to the store.\<close>

definition persist_begin :: "message \<Rightarrow> chat \<Rightarrow> chat" where
  "persist_begin msg c =
     (let (h, r) = reserve_row (c_hist c) msg
      in c\<lparr>c_hist := h, c_cells := c_cells c @ [r],
           c_persisting := insert (length (c_cells c)) (c_persisting c)\<rparr>)"

definition persist_end :: "(json \<Rightarrow> string) \<Rightarrow> bool \<Rightarrow> nat \<Rightarrow> chat \<Rightarrow> chat" where
  "persist_end jt ok i c =
     (let c = c\<lparr>c_persisting := c_persisting c - {i}\<rparr>
      in if ok then commit_cell jt i (c\<lparr>c_written := insert (r_seq (c_cells c ! i)) (c_written c)\<rparr>)
         else rollback_cell i c)"

text \<open>A push followed by a write whose failure is ignored.\<close>

definition push_and_append :: "(json \<Rightarrow> string) \<Rightarrow> bool \<Rightarrow> message \<Rightarrow> chat \<Rightarrow> chat" where
  "push_and_append jt ok msg c =
     (let (h, seq) = push_row jt (c_hist c) msg
      in c\<lparr>c_hist := h, c_written := (if ok then insert seq (c_written c) else c_written c)\<rparr>)"

definition commit_tool_outcome :: "(json \<Rightarrow> string) \<Rightarrow> bool \<Rightarrow> message \<Rightarrow> chat \<Rightarrow> chat" where
  "commit_tool_outcome jt ok result c =
     push_and_append jt ok result (fst (commit_pending_user_messages jt c))"



text \<open>\<^verbatim>\<open>hide_other_admission_messages\<close>: \<open>cancelled\<close> and \<open>unresolved\<close> are what the store
  answers.  The sum of the estimates is a \<^verbatim>\<open>u32\<close>, which wraps in a release build.\<close>

definition hidden_seqs :: "string option \<Rightarrow> nat set \<Rightarrow> (string \<times> nat option) list \<Rightarrow> nat set" where
  "hidden_seqs current cancelled unresolved =
     cancelled \<union> set (List.map_filter (\<lambda>(i, s). if current = Some i then None else s) unresolved)"

definition hide_other_admission_messages ::
  "(json \<Rightarrow> string) \<Rightarrow> string option \<Rightarrow> nat set \<Rightarrow> (string \<times> nat option) list \<Rightarrow> chat \<Rightarrow> chat" where
  "hide_other_admission_messages jt current cancelled unresolved c =
     (let seqs = hidden_seqs current cancelled unresolved; h = c_hist c;
          keep = filter (\<lambda>(s, m). s \<notin> seqs) (history_rows h)
      in if seqs = {} then c
         else c\<lparr>c_hist := h\<lparr>message_seqs := map fst keep, h_messages := map snd keep,
                estimated_tokens := as_u32 (sum_list (map (message_tokens jt \<circ> snd) keep))\<rparr>\<rparr>)"

definition restore_admission_message ::
  "(json \<Rightarrow> string) \<Rightarrow> nat option \<Rightarrow> message option \<Rightarrow> chat \<Rightarrow> chat" where
  "restore_admission_message jt message_seq stored c =
     (case message_seq of None \<Rightarrow> c
      | Some seq \<Rightarrow>
          if seq \<in> set (message_seqs (c_hist c)) then c
          else case stored of None \<Rightarrow> c
               | Some m \<Rightarrow> c\<lparr>c_hist := restore_row jt (c_hist c) seq m\<rparr>)"

section \<open>Numbers are never used twice\<close>

definition hist_ok :: "history \<Rightarrow> bool" where
  "hist_ok h \<longleftrightarrow>
     length (h_messages h) = length (message_seqs h) \<and> sorted_wrt (<) (message_seqs h) \<and>
     (\<forall>s \<in> set (message_seqs h). s < next_seq h) \<and> finite (free_seqs h) \<and>
     (\<forall>s \<in> free_seqs h. s < next_seq h) \<and> free_seqs h \<inter> set (message_seqs h) = {}"

lemma length_insert_at [simp]: "length (insert_at i x xs) = Suc (length xs)"
  by (simp add: insert_at_def)

lemma set_insert_at [simp]: "set (insert_at i x xs) = insert x (set xs)"
proof -
  have "set (take i xs) \<union> set (drop i xs) = set xs" by (metis append_take_drop_id set_append)
  then show ?thesis by (auto simp: insert_at_def)
qed

lemma found_at: "binary_search xs x = Inr i \<Longrightarrow> i < length xs \<and> xs ! i = x \<and> x \<in> set xs"
  by (auto simp: binary_search_def Let_def split: if_splits)

lemma sorted_wrt_dropWhile_less:
  "sorted_wrt (<) xs \<Longrightarrow> y \<in> set (dropWhile (\<lambda>y. y < x) xs) \<Longrightarrow> (x::nat) \<le> y"
  by (induction xs) (auto split: if_splits)

lemma insert_at_sorted:
  assumes "sorted_wrt (<) xs" "binary_search xs x = Inl i"
  shows "sorted_wrt (<) (insert_at i x xs)" and "x \<notin> set xs"
proof -
  define a b where "a = takeWhile (\<lambda>y. y < x) xs" and "b = dropWhile (\<lambda>y. y < x) xs"
  have xs: "xs = a @ b" by (simp add: a_def b_def)
  have i: "i = length a" "\<not> (i < length xs \<and> xs ! i = x)"
    using assms(2) by (auto simp: binary_search_def Let_def a_def split: if_splits)
  have ge: "\<forall>y \<in> set b. x \<le> y" using sorted_wrt_dropWhile_less [OF assms(1)] by (simp add: b_def)
  have le: "\<forall>y \<in> set a. y < x" by (auto simp: a_def dest: set_takeWhileD)
  have ab: "sorted_wrt (<) a" "sorted_wrt (<) b" "\<forall>y \<in> set a. \<forall>z \<in> set b. y < z"
    using assms(1) unfolding xs by (simp_all add: sorted_wrt_append)
  have "x \<notin> set b"
  proof (cases b)
    case (Cons y ys)
    then have "y \<noteq> x" using i xs by simp
    with ge ab(2) Cons show ?thesis by fastforce
  qed simp
  then have gt: "\<forall>y \<in> set b. x < y" using ge by (auto simp: nat_less_le)
  have split: "take i xs = a" "drop i xs = b" by (simp_all add: xs i(1))
  show "sorted_wrt (<) (insert_at i x xs)"
    using gt le ab by (simp add: insert_at_def split sorted_wrt_append)
  show "x \<notin> set xs" using gt le by (auto simp: xs)
qed

lemma after_last_sorted:
  assumes "sorted_wrt (<) xs" "after_last xs x"
  shows "sorted_wrt (<) (xs @ [x])"
proof (cases xs rule: rev_cases)
  case (snoc ys y)
  then show ?thesis using assms by (auto simp: after_last_def last_opt_def sorted_wrt_append dest: less_trans)
qed simp

lemma commit_frame:
  "next_seq (fst (commit_reserved jt h r)) = next_seq h"
  "free_seqs (fst (commit_reserved jt h r)) = free_seqs h"
  "snd (commit_reserved jt h r) = r\<lparr>r_finalized := True\<rparr>"
  by (auto simp: commit_reserved_def Let_def split: sum.splits)

lemma commit_flags:
  "fst (commit_reserved jt h (r\<lparr>r_admission := a, r_persisted := p\<rparr>)) = fst (commit_reserved jt h r)"
  by (auto simp: commit_reserved_def Let_def split: sum.split)

lemma commit_hist_ok:
  assumes "hist_ok h" "r_finalized r \<or> r_seq r < next_seq h \<and> r_seq r \<notin> free_seqs h"
  shows "hist_ok (fst (commit_reserved jt h r))"
  using assms after_last_sorted [of "message_seqs h" "r_seq r"] found_at [of "message_seqs h" "r_seq r"]
    insert_at_sorted(1) [of "message_seqs h" "r_seq r"]
  by (auto simp: commit_reserved_def hist_ok_def Let_def split: sum.splits)

lemma commit_rows:
  assumes "hist_ok h" "\<not> r_finalized r"
  shows "set (message_seqs (fst (commit_reserved jt h r))) = insert (r_seq r) (set (message_seqs h))"
  using assms found_at [of "message_seqs h" "r_seq r"]
  by (auto simp: commit_reserved_def hist_ok_def Let_def split: sum.splits)

lemma reserve_fresh:
  assumes "hist_ok h" "next_seq h < U64_MAX"
  shows "hist_ok (fst (reserve_row h m))"
    "r_seq (snd (reserve_row h m)) < next_seq (fst (reserve_row h m))"
    "r_seq (snd (reserve_row h m)) \<notin> free_seqs (fst (reserve_row h m))"
    "r_seq (snd (reserve_row h m)) \<notin> set (message_seqs h)"
    "next_seq h \<le> next_seq (fst (reserve_row h m))"
    "free_seqs (fst (reserve_row h m)) \<subseteq> free_seqs h"
    "r_seq (snd (reserve_row h m)) \<in> free_seqs h \<or> r_seq (snd (reserve_row h m)) = next_seq h"
    "message_seqs (fst (reserve_row h m)) = message_seqs h"
    "h_messages (fst (reserve_row h m)) = h_messages h"
proof -
  have mn: "Min (free_seqs h) \<in> free_seqs h" if "free_seqs h \<noteq> {}"
    using assms(1) that by (intro Min_in) (auto simp: hist_ok_def)
  have nx: "sat_add (next_seq h) (Suc 0) = Suc (next_seq h)" using assms(2) by (simp add: sat_add_def)
  have r: "reserve_row h m =
      (if free_seqs h = {} then
         (h\<lparr>next_seq := Suc (next_seq h)\<rparr>, \<lparr>r_seq = next_seq h, r_message = m, r_persisted = False,
           r_finalized = False, r_admission = None\<rparr>)
       else (h\<lparr>free_seqs := free_seqs h - {Min (free_seqs h)}\<rparr>, \<lparr>r_seq = Min (free_seqs h), r_message = m,
           r_persisted = False, r_finalized = False, r_admission = None\<rparr>))"
    by (simp add: reserve_row_def nx)
  show "hist_ok (fst (reserve_row h m))" using assms(1) by (auto simp: r hist_ok_def less_Suc_eq)
  have free: "Min (free_seqs h) < next_seq h \<and> Min (free_seqs h) \<notin> set (message_seqs h)"
    if "free_seqs h \<noteq> {}"
    using mn [OF that] assms(1) unfolding hist_ok_def by blast
  have nxt: "next_seq h \<notin> set (message_seqs h)" using assms(1) unfolding hist_ok_def by blast
  show "r_seq (snd (reserve_row h m)) < next_seq (fst (reserve_row h m))"
    "r_seq (snd (reserve_row h m)) \<notin> free_seqs (fst (reserve_row h m))"
    "r_seq (snd (reserve_row h m)) \<notin> set (message_seqs h)"
    "r_seq (snd (reserve_row h m)) \<in> free_seqs h \<or> r_seq (snd (reserve_row h m)) = next_seq h"
    using free nxt mn by (simp_all add: r)
  show "next_seq h \<le> next_seq (fst (reserve_row h m))" "free_seqs (fst (reserve_row h m)) \<subseteq> free_seqs h"
    "message_seqs (fst (reserve_row h m)) = message_seqs h" "h_messages (fst (reserve_row h m)) = h_messages h"
    by (auto simp: r)
qed

lemma reserved_cell:
  "r_message (snd (reserve_row h m)) = m" "\<not> r_finalized (snd (reserve_row h m))"
  "\<not> r_persisted (snd (reserve_row h m))"
  by (auto simp: reserve_row_def Let_def)

lemma lower_next_spec:
  assumes "lower_next n F = (n', F')" "\<forall>x \<in> F. x < n"
  shows "n' \<le> n" "F' \<subseteq> F" "\<forall>x \<in> F'. x < n'" "\<forall>x. x < n \<and> x \<notin> F \<longrightarrow> x < n'"
proof -
  have "n' \<le> n \<and> F' \<subseteq> F \<and> (\<forall>x \<in> F'. x < n') \<and> (\<forall>x. x < n \<and> x \<notin> F \<longrightarrow> x < n')"
    using assms
  proof (induction n F rule: lower_next.induct)
    case (2 n F)
    show ?case
    proof (cases "n \<in> F")
      case True
      have "\<forall>x \<in> F - {n}. x < n" using 2(3) by (auto simp: less_Suc_eq)
      with 2(1) [OF True] 2(2) True show ?thesis by (auto simp: less_Suc_eq)
    qed (use 2 in auto)
  qed auto
  then show "n' \<le> n" "F' \<subseteq> F" "\<forall>x \<in> F'. x < n'" "\<forall>x. x < n \<and> x \<notin> F \<longrightarrow> x < n'" by blast+
qed

lemma rollback_hist:
  assumes "hist_ok h" "r_seq r < next_seq h" "rollback_reserved h r = (h', r')"
  shows "hist_ok h'" "r' = r\<lparr>r_finalized := True\<rparr>" "message_seqs h' = message_seqs h"
    "free_seqs h' \<subseteq> insert (r_seq r) (free_seqs h)" "h_messages h' = h_messages h"
    "\<forall>s. s < next_seq h \<and> s \<noteq> r_seq r \<and> s \<notin> free_seqs h \<longrightarrow> s < next_seq h'"
    "r_seq r \<notin> free_seqs h \<Longrightarrow> r_finalized r \<Longrightarrow> h' = h"
proof -
  obtain n F where ln: "lower_next (next_seq h) (insert (r_seq r) (free_seqs h)) = (n, F)" by fastforce
  have all: "\<forall>x \<in> insert (r_seq r) (free_seqs h). x < next_seq h" using assms(1,2) by (simp add: hist_ok_def)
  note l = lower_next_spec [OF ln all]
  have h': "h' = h \<or> h' = h\<lparr>free_seqs := F, next_seq := n\<rparr> \<and> isl (binary_search (message_seqs h) (r_seq r))"
    and r': "r' = r\<lparr>r_finalized := True\<rparr>"
    using assms(3) ln by (auto simp: rollback_reserved_def Let_def split: if_splits)
  have fresh: "isl (binary_search (message_seqs h) (r_seq r)) \<Longrightarrow> r_seq r \<notin> set (message_seqs h)"
    using insert_at_sorted(2) [of "message_seqs h" "r_seq r"] assms(1) by (auto simp: hist_ok_def isl_def)
  have F: "finite F" "F \<inter> set (message_seqs h) = {}" if "isl (binary_search (message_seqs h) (r_seq r))"
    using l(2) fresh [OF that] assms(1) by (auto simp: hist_ok_def intro: finite_subset)
  have rows: "\<forall>s \<in> set (message_seqs h). s < n" if "isl (binary_search (message_seqs h) (r_seq r))"
    using l(4) fresh [OF that] assms(1) by (auto simp: hist_ok_def)
  show "hist_ok h'" using h' F rows l(3) assms(1) by (auto simp: hist_ok_def)
  show "r' = r\<lparr>r_finalized := True\<rparr>" by (rule r')
  show "message_seqs h' = message_seqs h" "h_messages h' = h_messages h" using h' by auto
  show "free_seqs h' \<subseteq> insert (r_seq r) (free_seqs h)" using h' l(2) by auto
  show "\<forall>s. s < next_seq h \<and> s \<noteq> r_seq r \<and> s \<notin> free_seqs h \<longrightarrow> s < next_seq h'" using h' l(4) by auto
  show "r_seq r \<notin> free_seqs h \<Longrightarrow> r_finalized r \<Longrightarrow> h' = h" using assms(3) by (simp add: rollback_reserved_def)
qed

lemma restore_hist:
  assumes "hist_ok h" "s < next_seq h" "s < U64_MAX"
  shows "hist_ok (restore_row jt h s m)" "next_seq (restore_row jt h s m) = next_seq h"
    "free_seqs (restore_row jt h s m) \<subseteq> free_seqs h"
proof -
  have mx: "max (next_seq h) (sat_add s (Suc 0)) = next_seq h" using assms(2) by (simp add: sat_add_def)
  show "hist_ok (restore_row jt h s m)"
    using assms after_last_sorted [of "message_seqs h" s] insert_at_sorted(1) [of "message_seqs h" s]
    by (auto simp: restore_row_def hist_ok_def mx Let_def split: sum.splits)
  show "next_seq (restore_row jt h s m) = next_seq h" "free_seqs (restore_row jt h s m) \<subseteq> free_seqs h"
    by (auto simp: restore_row_def mx Let_def split: sum.splits)
qed

text \<open>A reservation still owns its number while it is open or its write is under way.\<close>

definition in_flight :: "chat \<Rightarrow> nat set" where
  "in_flight c = c_submitting c \<union> c_persisting c"

definition owned :: "chat \<Rightarrow> nat \<Rightarrow> bool" where
  "owned c i \<longleftrightarrow> i < length (c_cells c) \<and> (\<not> r_finalized (c_cells c ! i) \<or> i \<in> in_flight c)"

definition numbered :: "chat \<Rightarrow> bool" where
  "numbered c \<longleftrightarrow>
     hist_ok (c_hist c) \<and> next_seq (c_hist c) \<le> U64_MAX \<and>
     (\<forall>s \<in> c_written c. s < next_seq (c_hist c) \<and> s \<notin> free_seqs (c_hist c)) \<and>
     (\<forall>i. owned c i \<longrightarrow> r_seq (c_cells c ! i) < next_seq (c_hist c) \<and>
                         r_seq (c_cells c ! i) \<notin> free_seqs (c_hist c)) \<and>
     (\<forall>i j. owned c i \<longrightarrow> owned c j \<longrightarrow> r_seq (c_cells c ! i) = r_seq (c_cells c ! j) \<longrightarrow> i = j) \<and>
     (\<forall>i \<in> in_flight c. i < length (c_cells c) \<and> r_seq (c_cells c ! i) \<notin> c_written c) \<and>
     (\<forall>i \<in> set (c_pending c). i < length (c_cells c))"

text \<open>What may happen to the messages of an agent, at the points where the code waits.  The
  store reports rows it holds; a number is taken only below the largest \<^verbatim>\<open>u64\<close>.\<close>

inductive chat_step :: "(json \<Rightarrow> string) \<Rightarrow> chat \<Rightarrow> chat \<Rightarrow> bool" for jt where
  submit_begin: "next_seq (c_hist c) < U64_MAX \<Longrightarrow> set_option max_seq \<subseteq> c_written c \<Longrightarrow>
    chat_step jt c (submit_begin max_seq msg admission c)"
| submit_end: "i \<in> c_submitting c \<Longrightarrow> chat_step jt c (submit_end outcome i c)"
| persist_begin: "next_seq (c_hist c) < U64_MAX \<Longrightarrow> chat_step jt c (persist_begin msg c)"
| persist_end: "i \<in> c_persisting c \<Longrightarrow> chat_step jt c (persist_end jt ok i c)"
| commit: "chat_step jt c (fst (commit_pending_user_messages jt c))"
| discard: "chat_step jt c (fst (discard_pending_user_messages c))"
| outcome: "next_seq (c_hist c) < U64_MAX \<Longrightarrow> chat_step jt c (commit_tool_outcome jt ok msg c)"
| push: "next_seq (c_hist c) < U64_MAX \<Longrightarrow> chat_step jt c (push_and_append jt ok msg c)"
| hide: "chat_step jt c (hide_other_admission_messages jt current cancelled unresolved c)"
| restore: "set_option message_seq \<subseteq> c_written c \<Longrightarrow>
    chat_step jt c (restore_admission_message jt message_seq stored c)"
| sync: "set_option max_seq \<subseteq> c_written c \<Longrightarrow> chat_step jt c (sync_next max_seq c)"
| clear: "chat_step jt c (c\<lparr>c_hist := clear_history (c_hist c)\<rparr>)"
| compact: "chat_step jt c (c\<lparr>c_hist := apply_compaction jt summary upto_seq rewritten (c_hist c)\<rparr>)"

lemma numberedI:
  assumes "hist_ok (c_hist c)" "next_seq (c_hist c) \<le> U64_MAX"
    and "\<And>s. s \<in> c_written c \<Longrightarrow> s < next_seq (c_hist c) \<and> s \<notin> free_seqs (c_hist c)"
    and "\<And>i. owned c i \<Longrightarrow> r_seq (c_cells c ! i) < next_seq (c_hist c) \<and>
                             r_seq (c_cells c ! i) \<notin> free_seqs (c_hist c)"
    and "\<And>i j. owned c i \<Longrightarrow> owned c j \<Longrightarrow> r_seq (c_cells c ! i) = r_seq (c_cells c ! j) \<Longrightarrow> i = j"
    and "\<And>i. i \<in> in_flight c \<Longrightarrow> i < length (c_cells c) \<and> r_seq (c_cells c ! i) \<notin> c_written c"
    and "\<And>i. i \<in> set (c_pending c) \<Longrightarrow> i < length (c_cells c)"
  shows "numbered c"
  using assms unfolding numbered_def by blast

lemma numberedD:
  assumes "numbered c"
  shows "hist_ok (c_hist c)" "next_seq (c_hist c) \<le> U64_MAX"
    and "s \<in> c_written c \<Longrightarrow> s < next_seq (c_hist c) \<and> s \<notin> free_seqs (c_hist c)"
    and "owned c i \<Longrightarrow> r_seq (c_cells c ! i) < next_seq (c_hist c) \<and>
                      r_seq (c_cells c ! i) \<notin> free_seqs (c_hist c)"
    and "owned c i \<Longrightarrow> owned c j \<Longrightarrow> r_seq (c_cells c ! i) = r_seq (c_cells c ! j) \<Longrightarrow> i = j"
    and "i \<in> in_flight c \<Longrightarrow> i < length (c_cells c) \<and> r_seq (c_cells c ! i) \<notin> c_written c"
    and "i \<in> set (c_pending c) \<Longrightarrow> i < length (c_cells c)"
  using assms unfolding numbered_def by blast+

text \<open>Changes that touch the rows only, and changes that only give numbers up.\<close>

lemma numbered_hist:
  assumes "numbered c" "hist_ok h" "next_seq h = next_seq (c_hist c)" "free_seqs h \<subseteq> free_seqs (c_hist c)"
  shows "numbered (c\<lparr>c_hist := h\<rparr>)"
proof -
  have same: "owned (c\<lparr>c_hist := h\<rparr>) i = owned c i" "in_flight (c\<lparr>c_hist := h\<rparr>) = in_flight c" for i
    by (simp_all add: owned_def in_flight_def)
  show ?thesis
    using assms(2,3,4) numberedD [OF assms(1)] by (intro numberedI) (auto simp: same)
qed

lemma numbered_release:
  assumes "numbered c" "c_hist c' = c_hist c" "length (c_cells c') = length (c_cells c)"
    and "\<And>i. i < length (c_cells c) \<Longrightarrow> r_seq (c_cells c' ! i) = r_seq (c_cells c ! i)"
    and "\<And>i. owned c' i \<Longrightarrow> owned c i" "in_flight c' \<subseteq> in_flight c"
    and "c_written c' \<subseteq> c_written c" "set (c_pending c') \<subseteq> set (c_pending c)"
  shows "numbered c'"
proof -
  note n = numberedD [OF assms(1)]
  have seq: "r_seq (c_cells c' ! i) = r_seq (c_cells c ! i)" if "owned c i" for i
    using assms(4) [of i] that by (simp add: owned_def)
  show ?thesis
  proof (rule numberedI)
    show "s < next_seq (c_hist c') \<and> s \<notin> free_seqs (c_hist c')" if "s \<in> c_written c'" for s
      using n(3) assms(2,7) that by auto
    show "r_seq (c_cells c' ! i) < next_seq (c_hist c') \<and> r_seq (c_cells c' ! i) \<notin> free_seqs (c_hist c')"
      if "owned c' i" for i
      using n(4) [OF assms(5) [OF that]] seq [OF assms(5) [OF that]] assms(2) by simp
    show "i = j" if "owned c' i" "owned c' j" "r_seq (c_cells c' ! i) = r_seq (c_cells c' ! j)" for i j
      using n(5) [OF assms(5) [OF that(1)] assms(5) [OF that(2)]] that seq assms(5) by simp
    show "i < length (c_cells c') \<and> r_seq (c_cells c' ! i) \<notin> c_written c'" if "i \<in> in_flight c'" for i
      using n(6) [OF subsetD [OF assms(6) that]] assms(4) [of i] assms(3,7) by auto
    show "i < length (c_cells c')" if "i \<in> set (c_pending c')" for i
      using n(7) [of i] assms(3,8) that by auto
  qed (use n(1,2) assms(2) in simp_all)
qed

lemma sync_same:
  assumes "numbered c" "set_option m \<subseteq> c_written c"
  shows "sync_next m c = c"
proof (cases m)
  case (Some s)
  then have "max (next_seq (c_hist c)) (sat_add s (Suc 0)) = next_seq (c_hist c)"
    using assms by (auto simp: numbered_def sat_add_def)
  with Some show ?thesis by (simp add: sync_next_def)
qed (simp add: sync_next_def)

lemma numbered_finalize:
  assumes "numbered c" "i < length (c_cells c)"
  shows "numbered (c\<lparr>c_cells := (c_cells c)[i := (c_cells c ! i)\<lparr>r_finalized := True\<rparr>]\<rparr>)"
  using assms(2) by (intro numbered_release [OF assms(1)])
    (auto simp: owned_def in_flight_def nth_list_update split: if_splits)

lemma numbered_commit:
  assumes "numbered c" "i < length (c_cells c)"
  shows "numbered (commit_cell jt i c)"
proof -
  let ?r = "c_cells c ! i"
  have "r_finalized ?r \<or> r_seq ?r < next_seq (c_hist c) \<and> r_seq ?r \<notin> free_seqs (c_hist c)"
    using assms by (auto simp: numbered_def owned_def)
  then have "hist_ok (fst (commit_reserved jt (c_hist c) ?r))"
    using assms(1) by (intro commit_hist_ok) (auto simp: numbered_def)
  then have n: "numbered (c\<lparr>c_hist := fst (commit_reserved jt (c_hist c) ?r)\<rparr>)"
    by (intro numbered_hist [OF assms(1)]) (simp_all add: commit_frame)
  have "commit_cell jt i c = (c\<lparr>c_hist := fst (commit_reserved jt (c_hist c) ?r)\<rparr>)
      \<lparr>c_cells := (c_cells c)[i := ?r\<lparr>r_finalized := True\<rparr>]\<rparr>"
    by (simp add: commit_cell_def case_prod_beta commit_frame)
  with numbered_finalize [OF n] assms(2) show ?thesis by simp
qed

lemma commit_cell_frame [simp]:
  "length (c_cells (commit_cell jt i c)) = length (c_cells c)"
  "c_written (commit_cell jt i c) = c_written c" "c_pending (commit_cell jt i c) = c_pending c"
  "in_flight (commit_cell jt i c) = in_flight c"
  "next_seq (c_hist (commit_cell jt i c)) = next_seq (c_hist c)"
  by (simp_all add: commit_cell_def case_prod_beta commit_frame in_flight_def)

lemma numbered_commits:
  assumes "numbered c" "\<forall>i \<in> set is. i < length (c_cells c)"
  shows "numbered (fold (commit_cell jt) is c)" "next_seq (c_hist (fold (commit_cell jt) is c)) = next_seq (c_hist c)"
proof -
  have "numbered (fold (commit_cell jt) is c) \<and> next_seq (c_hist (fold (commit_cell jt) is c)) = next_seq (c_hist c)"
    using assms
  proof (induction "is" arbitrary: c)
    case (Cons i "is")
    then show ?case using Cons.IH [of "commit_cell jt i c"] numbered_commit [of c i jt] by simp
  qed simp
  then show "numbered (fold (commit_cell jt) is c)"
    "next_seq (c_hist (fold (commit_cell jt) is c)) = next_seq (c_hist c)" by simp_all
qed

lemma numbered_pending: "numbered c \<Longrightarrow> set xs \<subseteq> set (c_pending c) \<Longrightarrow> numbered (c\<lparr>c_pending := xs\<rparr>)"
  by (erule numbered_release) (auto simp: owned_def in_flight_def)

lemma numbered_commit_pending:
  assumes "numbered c"
  shows "numbered (fst (commit_pending_user_messages jt c))"
    "next_seq (c_hist (fst (commit_pending_user_messages jt c))) = next_seq (c_hist c)"
proof -
  let ?ready = "takeWhile (\<lambda>i. r_persisted (c_cells c ! i)) (c_pending c)"
  have n: "numbered (c\<lparr>c_pending := drop (length ?ready) (c_pending c)\<rparr>)"
    by (rule numbered_pending [OF assms]) (rule set_drop_subset)
  have b: "\<forall>i \<in> set ?ready. i < length (c_cells (c\<lparr>c_pending := drop (length ?ready) (c_pending c)\<rparr>))"
    using assms by (auto simp: numbered_def dest: set_takeWhileD)
  show "numbered (fst (commit_pending_user_messages jt c))"
    "next_seq (c_hist (fst (commit_pending_user_messages jt c))) = next_seq (c_hist c)"
    using assms numbered_commits [OF n b] by (simp_all add: commit_pending_user_messages_def Let_def)
qed

lemma fresh_number:
  fixes c :: chat and m :: message
  assumes "numbered c" "next_seq (c_hist c) < U64_MAX"
  defines "s \<equiv> r_seq (snd (reserve_row (c_hist c) m))"
  shows "s \<notin> c_written c" "s \<notin> set (message_seqs (c_hist c))" "owned c i \<Longrightarrow> r_seq (c_cells c ! i) \<noteq> s"
proof -
  note n = numberedD [OF assms(1)]
  note r = reserve_fresh [OF n(1) assms(2), of m, folded s_def]
  show "s \<notin> c_written c" using n(3) [of s] r(7) by auto
  show "s \<notin> set (message_seqs (c_hist c))" by (rule r(4))
  show "r_seq (c_cells c ! i) \<noteq> s" if "owned c i" using n(4) [OF that] r(7) by auto
qed

lemma reserve_max: "next_seq h \<le> U64_MAX \<Longrightarrow> next_seq (fst (reserve_row h m)) \<le> U64_MAX"
  by (auto simp: reserve_row_def sat_add_def Let_def)

lemma numbered_reserve:
  assumes "numbered c" "next_seq (c_hist c) < U64_MAX"
    and "c_hist c' = fst (reserve_row (c_hist c) m)" "c_cells c' = c_cells c @ [r]"
    and "r_seq r = r_seq (snd (reserve_row (c_hist c) m))" "c_written c' = c_written c"
    and "in_flight c' \<subseteq> insert (length (c_cells c)) (in_flight c)"
    and "set (c_pending c') \<subseteq> insert (length (c_cells c)) (set (c_pending c))"
  shows "numbered c'"
proof -
  let ?n = "length (c_cells c)"
  note n = numberedD [OF assms(1)]
  note f = reserve_fresh [OF n(1) assms(2), of m]
  note fresh = fresh_number [OF assms(1,2), where m = m]
  have own: "owned c' i \<Longrightarrow> i = ?n \<and> c_cells c' ! i = r \<or> i < ?n \<and> owned c i \<and> c_cells c' ! i = c_cells c ! i" for i
    using assms(4,7) by (auto simp: owned_def nth_append)
  show ?thesis
  proof (rule numberedI)
    show "hist_ok (c_hist c')" "next_seq (c_hist c') \<le> U64_MAX"
      using f(1) reserve_max [OF n(2)] assms(3) by simp_all
    show "s < next_seq (c_hist c') \<and> s \<notin> free_seqs (c_hist c')" if "s \<in> c_written c'" for s
      using n(3) [of s] f(5,6) that assms(3,6) by auto
    show "r_seq (c_cells c' ! i) < next_seq (c_hist c') \<and> r_seq (c_cells c' ! i) \<notin> free_seqs (c_hist c')"
      if "owned c' i" for i
      using own [OF that] n(4) [of i] f(2,3,5,6) assms(3,5) by auto
    show "i = j" if "owned c' i" "owned c' j" "r_seq (c_cells c' ! i) = r_seq (c_cells c' ! j)" for i j
      using own [OF that(1)] own [OF that(2)] that(3) n(5) [of i j] fresh(3) [of i] fresh(3) [of j] assms(5) by auto
    show "i < length (c_cells c') \<and> r_seq (c_cells c' ! i) \<notin> c_written c'" if "i \<in> in_flight c'" for i
    proof (cases "i = ?n")
      case True
      then show ?thesis using assms(4,5,6) fresh(1) by simp
    next
      case False
      then have "i \<in> in_flight c" using assms(7) that by auto
      then show ?thesis using n(6) [of i] assms(4,6) by (simp add: nth_append)
    qed
    show "i < length (c_cells c')" if "i \<in> set (c_pending c')" for i
      using n(7) [of i] assms(4,8) that by auto
  qed
qed

lemma push_split:
  "push_row jt h m = (fst (commit_reserved jt (fst (reserve_row h m)) (snd (reserve_row h m))),
     r_seq (snd (reserve_row h m)))"
  by (simp add: push_row_def case_prod_beta)

lemma numbered_push:
  assumes "numbered c" "next_seq (c_hist c) < U64_MAX"
  shows "numbered (push_and_append jt ok m c)"
proof -
  note n = numberedD [OF assms(1)]
  note f = reserve_fresh [OF n(1) assms(2), of m]
  note fresh = fresh_number [OF assms(1,2), where m = m]
  let ?c = "push_and_append jt ok m c" and ?s = "r_seq (snd (reserve_row (c_hist c) m))"
  have h: "hist_ok (c_hist ?c)" "next_seq (c_hist ?c) = next_seq (fst (reserve_row (c_hist c) m))"
    "free_seqs (c_hist ?c) = free_seqs (fst (reserve_row (c_hist c) m))"
    using commit_hist_ok [OF f(1), of "snd (reserve_row (c_hist c) m)"] f(2,3)
    by (simp_all add: push_and_append_def push_split commit_frame)
  have w: "s \<in> c_written ?c \<Longrightarrow> s = ?s \<or> s \<in> c_written c" for s
    by (auto simp: push_and_append_def push_split split: if_splits)
  have same: "c_cells ?c = c_cells c" "in_flight ?c = in_flight c" "c_pending ?c = c_pending c"
    "owned ?c i = owned c i" for i
    by (simp_all add: push_and_append_def push_split in_flight_def owned_def)
  show ?thesis
  proof (rule numberedI)
    show "next_seq (c_hist ?c) \<le> U64_MAX" using reserve_max [OF n(2)] h(2) by simp
    show "s < next_seq (c_hist ?c) \<and> s \<notin> free_seqs (c_hist ?c)" if "s \<in> c_written ?c" for s
      using w [OF that] n(3) [of s] f(2,3,5,6) h(2,3) by auto
    show "r_seq (c_cells ?c ! i) < next_seq (c_hist ?c) \<and> r_seq (c_cells ?c ! i) \<notin> free_seqs (c_hist ?c)"
      if "owned ?c i" for i
      using n(4) [of i] that f(5,6) h(2,3) by (auto simp: same)
    show "i < length (c_cells ?c) \<and> r_seq (c_cells ?c ! i) \<notin> c_written ?c" if "i \<in> in_flight ?c" for i
    proof -
      have "i \<in> in_flight c" using that by (simp add: same)
      moreover from this have "owned c i" using n(6) [of i] by (simp add: owned_def)
      ultimately show ?thesis using n(6) [of i] fresh(3) [of i] w by (auto simp: same)
    qed
  qed (use n(5,7) h(1) in \<open>simp_all add: same\<close>)
qed

text \<open>The write of reservation \<open>i\<close> ended without a row: the number goes back.\<close>

lemma numbered_rollback:
  assumes "numbered c" "i \<in> in_flight c" "c_hist c' = c_hist c" "c_cells c' = c_cells c"
    and "in_flight c' = in_flight c - {i}" "c_written c' = c_written c"
    and "set (c_pending c') \<subseteq> set (c_pending c)"
  shows "numbered (rollback_cell i c')"
proof -
  note n = numberedD [OF assms(1)]
  let ?r = "c_cells c ! i"
  have i: "i < length (c_cells c)" "r_seq ?r \<notin> c_written c" "owned c i"
    using n(6) [OF assms(2)] assms(2) by (auto simp: owned_def)
  have fl: "i \<notin> in_flight c'" using assms(5) by simp
  obtain h r where rb: "rollback_reserved (c_hist c) ?r = (h, r)" by fastforce
  have seq: "r_seq ?r < next_seq (c_hist c)" "r_seq ?r \<notin> free_seqs (c_hist c)" using n(4) [OF i(3)] by auto
  note h = rollback_hist [OF n(1) seq(1) rb]
  have mx: "next_seq h \<le> U64_MAX"
  proof -
    have "lower_next k F = (k', F') \<Longrightarrow> k' \<le> k" for k F k' F'
      by (induction k F rule: lower_next.induct) (auto split: if_splits)
    then have "next_seq h \<le> next_seq (c_hist c)"
      using rb by (auto simp: rollback_reserved_def Let_def split: if_splits prod.splits)
    with n(2) show ?thesis by simp
  qed
  let ?c = "rollback_cell i c'"
  have c: "c_hist ?c = h" "c_cells ?c = (c_cells c)[i := r]" "c_written ?c = c_written c"
    "in_flight ?c = in_flight c - {i}" "c_pending ?c = c_pending c'"
    using assms rb by (simp_all add: rollback_cell_def in_flight_def)
  have rseq: "r_seq ((c_cells c)[i := r] ! j) = r_seq (c_cells c ! j)" for j
    using h(2) i(1) by (cases "j = i") simp_all
  have own: "owned ?c j \<Longrightarrow> owned c j \<and> j \<noteq> i" for j
    using c h(2) i(1) by (auto simp: owned_def nth_list_update split: if_splits)
  have keep: "s < next_seq h \<and> s \<notin> free_seqs h"
    if "s < next_seq (c_hist c)" "s \<notin> free_seqs (c_hist c)" "s \<noteq> r_seq ?r" for s
    using h(4,6) that by auto
  show ?thesis
  proof (rule numberedI)
    show "hist_ok (c_hist ?c)" "next_seq (c_hist ?c) \<le> U64_MAX" using h(1) mx c(1) by simp_all
    show "s < next_seq (c_hist ?c) \<and> s \<notin> free_seqs (c_hist ?c)" if "s \<in> c_written ?c" for s
      using n(3) [of s] i(2) that keep [of s] c(1,3) by auto
    show "r_seq (c_cells ?c ! j) < next_seq (c_hist ?c) \<and> r_seq (c_cells ?c ! j) \<notin> free_seqs (c_hist ?c)"
      if "owned ?c j" for j
      using own [OF that] n(4) [of j] n(5) [of j i] i(3) keep by (auto simp: c(1,2) rseq)
    show "j = k" if "owned ?c j" "owned ?c k" "r_seq (c_cells ?c ! j) = r_seq (c_cells ?c ! k)" for j k
      using own [OF that(1)] own [OF that(2)] n(5) [of j k] that(3) by (simp add: c(2) rseq)
    show "j < length (c_cells ?c) \<and> r_seq (c_cells ?c ! j) \<notin> c_written ?c" if "j \<in> in_flight ?c" for j
      using n(6) [of j] that by (simp add: c rseq)
    show "j < length (c_cells ?c)" if "j \<in> set (c_pending ?c)" for j
      using n(7) [of j] that assms(7) by (auto simp: c)
  qed
qed

text \<open>The write of reservation \<open>i\<close> ended with a row: the number is the store's.\<close>

lemma numbered_written:
  assumes "numbered c" "i \<in> in_flight c" "c_hist c' = c_hist c"
    and "c_cells c' = c_cells c \<or> c_cells c' = (c_cells c)[i := (c_cells c ! i)\<lparr>r_persisted := True\<rparr>]"
    and "in_flight c' = in_flight c - {i}" "c_written c' = insert (r_seq (c_cells c ! i)) (c_written c)"
    and "c_pending c' = c_pending c"
  shows "numbered c'"
proof -
  note n = numberedD [OF assms(1)]
  have i: "i < length (c_cells c)" "owned c i"
    using n(6) [OF assms(2)] assms(2) by (auto simp: owned_def)
  have len: "length (c_cells c') = length (c_cells c)" using assms(4) by auto
  have rseq: "r_seq (c_cells c' ! j) = r_seq (c_cells c ! j)" "r_finalized (c_cells c' ! j) = r_finalized (c_cells c ! j)" for j
    using assms(4) i(1) by (cases "j = i"; auto)+
  have own: "owned c' j \<Longrightarrow> owned c j" for j using assms(5) by (auto simp: owned_def len rseq)
  show ?thesis
  proof (rule numberedI)
    show "s < next_seq (c_hist c') \<and> s \<notin> free_seqs (c_hist c')" if "s \<in> c_written c'" for s
      using n(3) [of s] n(4) [OF i(2)] that assms(3,6) by auto
    show "r_seq (c_cells c' ! j) < next_seq (c_hist c') \<and> r_seq (c_cells c' ! j) \<notin> free_seqs (c_hist c')"
      if "owned c' j" for j
      using n(4) [OF own [OF that]] assms(3) by (simp add: rseq)
    show "j = k" if "owned c' j" "owned c' k" "r_seq (c_cells c' ! j) = r_seq (c_cells c' ! k)" for j k
      using n(5) [OF own [OF that(1)] own [OF that(2)]] that(3) by (simp add: rseq)
    show "j < length (c_cells c') \<and> r_seq (c_cells c' ! j) \<notin> c_written c'" if "j \<in> in_flight c'" for j
    proof -
      have j: "j \<in> in_flight c" "j \<noteq> i" using that assms(5) by auto
      then have "owned c j" using n(6) [of j] by (simp add: owned_def)
      then have "r_seq (c_cells c ! j) \<noteq> r_seq (c_cells c ! i)" using n(5) [of j i] i(2) j(2) by auto
      then show ?thesis using n(6) [OF j(1)] by (simp add: len rseq assms(6))
    qed
  qed (use n(1,2,7) assms(3,7) len in simp_all)
qed

lemma discard_cells:
  fixes xs :: "nat list" and cs :: "reservation list"
  defines "f \<equiv> fold (\<lambda>i cs. cs[i := (cs ! i)\<lparr>r_finalized := True\<rparr>]) xs"
  shows "length (f cs) = length cs" "r_seq (f cs ! j) = r_seq (cs ! j)"
    "r_finalized (cs ! j) \<Longrightarrow> r_finalized (f cs ! j)"
proof -
  have "length (f cs) = length cs \<and> r_seq (f cs ! j) = r_seq (cs ! j) \<and> (r_finalized (cs ! j) \<longrightarrow> r_finalized (f cs ! j))"
    unfolding f_def
  proof (induction xs arbitrary: cs)
    case (Cons x xs)
    have "cs[x := (cs ! x)\<lparr>r_finalized := True\<rparr>] ! j = (if j = x \<and> x < length cs then (cs ! x)\<lparr>r_finalized := True\<rparr> else cs ! j)"
      by (cases "x < length cs") (auto simp: nth_list_update list_update_beyond)
    then show ?case using Cons [of "cs[x := (cs ! x)\<lparr>r_finalized := True\<rparr>]"] by auto
  qed simp
  then show "length (f cs) = length cs" "r_seq (f cs ! j) = r_seq (cs ! j)"
    "r_finalized (cs ! j) \<Longrightarrow> r_finalized (f cs ! j)" by simp_all
qed

lemma numbered_discard: "numbered c \<Longrightarrow> numbered (fst (discard_pending_user_messages c))"
  by (erule numbered_release)
    (auto simp: discard_pending_user_messages_def discard_cells owned_def in_flight_def dest: discard_cells(3))

text \<open>Rows leave, or are replaced.\<close>

lemma zip_filter_fst: "sorted_wrt (<) (map fst ps) \<Longrightarrow> sorted_wrt (<) (map fst (filter P ps))"
  by (induction ps) auto

lemma rows_fst: "hist_ok h \<Longrightarrow> map fst (history_rows h) = message_seqs h"
  by (simp add: history_rows_def hist_ok_def)

lemma kept_rows_ok:
  assumes "hist_ok h" "message_seqs h' = map fst (filter P (history_rows h))"
    and "length (h_messages h') = length (message_seqs h')" "next_seq h' = next_seq h" "free_seqs h' \<subseteq> free_seqs h"
  shows "hist_ok h'"
proof -
  have sub: "set (message_seqs h') \<subseteq> set (message_seqs h)"
    using assms(2) rows_fst [OF assms(1)] by (metis filter_is_subset image_mono list.set_map)
  have "sorted_wrt (<) (message_seqs h')"
    using zip_filter_fst [of "history_rows h" P] rows_fst [OF assms(1)] assms(1,2) by (simp add: hist_ok_def)
  then show ?thesis
    using assms(1,3,4,5) sub unfolding hist_ok_def by (auto intro: finite_subset)
qed

lemma numbered_hide: "numbered c \<Longrightarrow> numbered (hide_other_admission_messages jt current cancelled unresolved c)"
  unfolding hide_other_admission_messages_def Let_def
  by (auto intro!: numbered_hist kept_rows_ok [OF numberedD(1)])

lemma numbered_clear: "numbered c \<Longrightarrow> numbered (c\<lparr>c_hist := clear_history (c_hist c)\<rparr>)"
  by (auto intro!: numbered_hist simp: clear_history_def hist_ok_def)

lemma numbered_compact:
  assumes "numbered c"
  shows "numbered (c\<lparr>c_hist := apply_compaction jt summary upto_seq rewritten (c_hist c)\<rparr>)"
proof -
  let ?h = "apply_compaction jt summary upto_seq rewritten (c_hist c)"
  have f: "next_seq ?h = next_seq (c_hist c)" "free_seqs ?h \<subseteq> free_seqs (c_hist c)"
    by (auto simp: apply_compaction_def Let_def split: option.split)
  have "message_seqs ?h = map fst (filter (\<lambda>(seq, m). case upto_seq of None \<Rightarrow> True | Some u \<Rightarrow> seq > u)
      (history_rows (c_hist c)))"
    by (simp add: apply_compaction_def Let_def case_prod_beta comp_def)
  moreover have "length (h_messages ?h) = length (message_seqs ?h)"
    by (simp add: apply_compaction_def Let_def)
  ultimately have "hist_ok ?h" using kept_rows_ok [OF numberedD(1) [OF assms]] f by blast
  then show ?thesis by (rule numbered_hist [OF assms _ f])
qed

lemma numbered_restore:
  assumes "numbered c" "set_option message_seq \<subseteq> c_written c"
  shows "numbered (restore_admission_message jt message_seq stored c)"
proof -
  have "numbered (c\<lparr>c_hist := restore_row jt (c_hist c) s m\<rparr>)" if "s \<in> c_written c" for s m
  proof -
    have "s < next_seq (c_hist c)" "s < U64_MAX" using numberedD(2,3) [OF assms(1)] that by fastforce+
    note r = restore_hist [OF numberedD(1) [OF assms(1)] this]
    show ?thesis by (rule numbered_hist [OF assms(1) r])
  qed
  then show ?thesis using assms by (auto simp: restore_admission_message_def split: option.split)
qed

lemma numbered_submit_end:
  assumes "numbered c" "i \<in> c_submitting c" "c_submitting c \<inter> c_persisting c = {}"
  shows "numbered (submit_end outcome i c)"
proof -
  have i: "i \<in> in_flight c" "in_flight (c\<lparr>c_submitting := c_submitting c - {i}\<rparr>) = in_flight c - {i}"
    using assms(2,3) by (auto simp: in_flight_def)
  let ?c = "c\<lparr>c_submitting := c_submitting c - {i}\<rparr>"
  have "numbered (rollback_user_message ?c i)"
    unfolding rollback_user_message_def
  proof (rule numbered_rollback [OF assms(1) i(1)])
    show "in_flight (?c\<lparr>c_pending := remove1 i (c_pending ?c)\<rparr>) = in_flight c - {i}"
      using i(2) by (simp add: in_flight_def)
  qed (simp_all add: set_remove1_subset)
  moreover have "numbered (?c\<lparr>c_written := insert (r_seq (c_cells ?c ! i)) (c_written ?c),
      c_cells := (c_cells ?c)[i := (c_cells ?c ! i)\<lparr>r_persisted := True\<rparr>]\<rparr>)"
    using i by (intro numbered_written [OF assms(1) i(1)]) (simp_all add: in_flight_def)
  ultimately show ?thesis by (cases outcome) (simp_all add: submit_end_def Let_def)
qed

lemma numbered_persist_end:
  assumes "numbered c" "i \<in> c_persisting c" "c_submitting c \<inter> c_persisting c = {}"
  shows "numbered (persist_end jt ok i c)"
proof -
  have i: "i \<in> in_flight c" "in_flight (c\<lparr>c_persisting := c_persisting c - {i}\<rparr>) = in_flight c - {i}"
    using assms(2,3) by (auto simp: in_flight_def)
  let ?w = "c\<lparr>c_persisting := c_persisting c - {i}, c_written := insert (r_seq (c_cells c ! i)) (c_written c)\<rparr>"
  have "numbered ?w" using i by (intro numbered_written [OF assms(1) i(1)]) (simp_all add: in_flight_def)
  then have "numbered (commit_cell jt i ?w)"
    using numberedD(6) [OF assms(1) i(1)] by (intro numbered_commit) simp_all
  moreover have "numbered (rollback_cell i (c\<lparr>c_persisting := c_persisting c - {i}\<rparr>))"
    using i by (intro numbered_rollback [OF assms(1) i(1)]) simp_all
  ultimately show ?thesis by (simp add: persist_end_def Let_def)
qed

definition chat_ok :: "chat \<Rightarrow> bool" where
  "chat_ok c \<longleftrightarrow> numbered c \<and> c_submitting c \<inter> c_persisting c = {}"

text \<open>Everything but the beginnings and the ends of writes leaves the calls under way alone.\<close>

lemma fold_commit_frame [simp]:
  "c_submitting (fold (commit_cell jt) is c) = c_submitting c"
  "c_persisting (fold (commit_cell jt) is c) = c_persisting c"
  by (induction "is" arbitrary: c) (simp_all add: commit_cell_def case_prod_beta)

lemma chat_frame [simp]:
  "c_submitting (fst (commit_pending_user_messages jt c)) = c_submitting c"
  "c_persisting (fst (commit_pending_user_messages jt c)) = c_persisting c"
  "c_submitting (push_and_append jt ok m c) = c_submitting c"
  "c_persisting (push_and_append jt ok m c) = c_persisting c"
  "c_submitting (fst (discard_pending_user_messages c)) = c_submitting c"
  "c_persisting (fst (discard_pending_user_messages c)) = c_persisting c"
  "c_submitting (hide_other_admission_messages jt cu ca un c) = c_submitting c"
  "c_persisting (hide_other_admission_messages jt cu ca un c) = c_persisting c"
  "c_submitting (restore_admission_message jt s st c) = c_submitting c"
  "c_persisting (restore_admission_message jt s st c) = c_persisting c"
  by (simp_all add: commit_pending_user_messages_def push_and_append_def discard_pending_user_messages_def
      hide_other_admission_messages_def restore_admission_message_def Let_def case_prod_beta split: option.split)

lemma chat_step_ok:
  assumes "chat_ok c" "chat_step jt c c'"
  shows "chat_ok c'"
  using assms(2,1)
proof (cases rule: chat_step.cases)
  case (submit_begin max_seq msg admission)
  have n: "numbered c" "\<forall>i \<in> c_persisting c. i < length (c_cells c)"
    using assms(1) numberedD(6) [of c] by (auto simp: chat_ok_def in_flight_def)
  have "c' = submit_begin None msg admission c"
    using submit_begin sync_same [OF n(1)] by (simp add: submit_begin_def sync_next_def)
  then have c': "c_hist c' = fst (reserve_row (c_hist c) msg)"
    "c_cells c' = c_cells c @ [(snd (reserve_row (c_hist c) msg))\<lparr>r_admission := admission\<rparr>]"
    "c_written c' = c_written c" "c_submitting c' = insert (length (c_cells c)) (c_submitting c)"
    "c_persisting c' = c_persisting c" "c_pending c' = c_pending c @ [length (c_cells c)]"
    by (simp_all add: submit_begin_def sync_next_def reserve_user_message_def Let_def case_prod_beta)
  have "numbered c'"
    by (rule numbered_reserve [OF n(1) submit_begin(2) c'(1,2)]) (auto simp: c' in_flight_def)
  then show ?thesis using assms(1) n(2) c' by (auto simp: chat_ok_def)
next
  case (persist_begin msg)
  have n: "numbered c" "\<forall>i \<in> c_submitting c. i < length (c_cells c)"
    using assms(1) numberedD(6) [of c] by (auto simp: chat_ok_def in_flight_def)
  have c': "c_hist c' = fst (reserve_row (c_hist c) msg)"
    "c_cells c' = c_cells c @ [snd (reserve_row (c_hist c) msg)]"
    "c_written c' = c_written c" "c_persisting c' = insert (length (c_cells c)) (c_persisting c)"
    "c_submitting c' = c_submitting c" "c_pending c' = c_pending c"
    using persist_begin by (simp_all add: persist_begin_def Let_def case_prod_beta)
  have "numbered c'"
    by (rule numbered_reserve [OF n(1) persist_begin(2) c'(1,2)]) (auto simp: c' in_flight_def)
  then show ?thesis using assms(1) n(2) c' by (auto simp: chat_ok_def)
next
  case (submit_end i outcome)
  then show ?thesis using assms(1) numbered_submit_end [of c i outcome]
    by (cases outcome) (auto simp: chat_ok_def submit_end_def rollback_user_message_def rollback_cell_def
        Let_def case_prod_beta)
next
  case (persist_end i ok)
  then show ?thesis using assms(1) numbered_persist_end [of c i jt ok]
    by (auto simp: chat_ok_def persist_end_def rollback_cell_def commit_cell_def Let_def case_prod_beta)
next
  case (outcome ok msg)
  then show ?thesis using assms(1) numbered_push [of "fst (commit_pending_user_messages jt c)"]
    by (simp add: chat_ok_def commit_tool_outcome_def numbered_commit_pending)
next
  case (sync max_seq)
  then show ?thesis using assms(1) sync_same [of c max_seq] by (simp add: chat_ok_def)
qed (simp_all add: chat_ok_def numbered_commit_pending numbered_discard numbered_push numbered_hide
    numbered_restore numbered_clear numbered_compact)

interpretation chats: state_machine new_chat "chat_step jt" chat_ok for jt
proof
  show "chat_ok new_chat"
    by (simp add: chat_ok_def numbered_def new_chat_def empty_history_def hist_ok_def owned_def in_flight_def)
qed (rule chat_step_ok)

text \<open>C14: A row number is used once.  However user messages, tool results, injections, failed
  writes, discards, hidden and restored rows, clears and compactions interleave, the number
  the next message is given belongs to no row of the history, to no row of the store and to no
  reservation that is still open or still being written.\<close>

theorem numbers_not_reused:
  assumes "rtranclp (chat_step jt) new_chat c" "next_seq (c_hist c) < U64_MAX"
  shows "r_seq (snd (reserve_row (c_hist c) m)) \<notin> c_written c \<union> set (message_seqs (c_hist c)) \<union>
           {r_seq (c_cells c ! i) |i. owned c i}"
proof -
  have "numbered c" using chats.reachable_inv [OF assms(1)] by (simp add: chat_ok_def)
  note f = fresh_number [OF this assms(2), where m = m]
  show ?thesis using f(1,2) f(3) [symmetric] by blast
qed

definition sample_chat :: chat where
  "sample_chat = submit_end StoreError 0 (submit_begin None (user_message 0 ''a'') None new_chat)"

lemma numbers_not_reused_witness:
  "r_seq (snd (reserve_row (c_hist sample_chat) (user_message 1 ''b''))) \<notin>
     c_written sample_chat \<union> set (message_seqs (c_hist sample_chat)) \<union>
       {r_seq (c_cells sample_chat ! i) |i. owned sample_chat i}"
proof (rule numbers_not_reused)
  have "chat_step (\<lambda>_. []) new_chat (submit_begin None (user_message 0 ''a'') None new_chat)"
    by (rule chat_step.submit_begin) (simp_all add: new_chat_def empty_history_def U64_MAX_def)
  moreover have "chat_step (\<lambda>_. []) (submit_begin None (user_message 0 ''a'') None new_chat) sample_chat"
    unfolding sample_chat_def
    by (rule chat_step.submit_end)
      (simp add: submit_begin_def sync_next_def reserve_user_message_def new_chat_def Let_def case_prod_beta)
  ultimately show "rtranclp (chat_step (\<lambda>_. [])) new_chat sample_chat" by auto
  show "next_seq (c_hist sample_chat) < U64_MAX"
    by (simp add: sample_chat_def submit_begin_def submit_end_def sync_next_def reserve_user_message_def
        reserve_row_def new_chat_def empty_history_def rollback_user_message_def rollback_cell_def
        rollback_reserved_def binary_search_def sat_add_def U64_MAX_def Let_def)
qed

text \<open>C15: The rows stay well formed: as many messages as numbers, the numbers ascending and
  below the next one, the free numbers disjoint from them.  So inserting by binary search
  and reading rows by position mean what they say in every reachable state.\<close>

theorem rows_well_formed:
  assumes "rtranclp (chat_step jt) new_chat c"
  shows "length (h_messages (c_hist c)) = length (message_seqs (c_hist c)) \<and>
         sorted_wrt (<) (message_seqs (c_hist c)) \<and>
         set (message_seqs (c_hist c)) \<union> free_seqs (c_hist c) \<subseteq> {..< next_seq (c_hist c)} \<and>
         free_seqs (c_hist c) \<inter> set (message_seqs (c_hist c)) = {}"
  using chats.reachable_inv [OF assms] by (auto simp: chat_ok_def numbered_def hist_ok_def)

lemma rows_well_formed_witness:
  "sorted_wrt (<) (message_seqs (c_hist (fst (commit_pending_user_messages (\<lambda>_. []) new_chat))))"
proof -
  have "rtranclp (chat_step (\<lambda>_. [])) new_chat (fst (commit_pending_user_messages (\<lambda>_. []) new_chat))"
    by (rule r_into_rtranclp) (rule chat_step.commit)
  from rows_well_formed [OF this] show ?thesis by blast
qed

section \<open>Where results land\<close>

lemma push_at_end:
  assumes "hist_ok h" "free_seqs h = {}" "next_seq h < U64_MAX"
  shows "h_messages (fst (push_row jt h m)) = h_messages h @ [m]" "free_seqs (fst (push_row jt h m)) = {}"
    "hist_ok (fst (push_row jt h m))" "next_seq (fst (push_row jt h m)) = Suc (next_seq h)"
    "message_seqs (fst (push_row jt h m)) = message_seqs h @ [next_seq h]"
    "h_summary (fst (push_row jt h m)) = h_summary h"
proof -
  note r = reserve_fresh [OF assms(1,3), of m]
  have al: "after_last (message_seqs h) (next_seq h)"
    using assms(1) by (auto simp: after_last_def last_opt_def hist_ok_def)
  show "h_messages (fst (push_row jt h m)) = h_messages h @ [m]" "free_seqs (fst (push_row jt h m)) = {}"
    "next_seq (fst (push_row jt h m)) = Suc (next_seq h)"
    "message_seqs (fst (push_row jt h m)) = message_seqs h @ [next_seq h]"
    "h_summary (fst (push_row jt h m)) = h_summary h"
    using assms(2,3) al by (simp_all add: push_row_def reserve_row_def commit_reserved_def sat_add_def Let_def)
  show "hist_ok (fst (push_row jt h m))"
    using commit_hist_ok [OF r(1), of "snd (reserve_row h m)"] r(2,3) by (simp add: push_split)
qed






lemmas chat_eval = new_message_def tool_result_def user_message_def push_and_append_def push_row_def
  reserve_row_def commit_reserved_def after_last_def last_opt_def new_chat_def empty_history_def
  sat_add_def sat_add32_def message_tokens_def char_len_def estimate_tokens_for_chars_def as_u32_def
  U64_MAX_def U32_MAX_def char_count_def


text \<open>The two ways in which a result loses its place although no turn died.\<close>

text \<open>A message the user types while a tool runs takes the place between the call and its
  result: it is numbered when it is sent, and committed right before the result.  The model
  is then told that the call was interrupted, and gets the result as the text of an unmatched
  one, although the tool ran to its end and its result was recorded.\<close>

theorem typed_during_tool:
  fixes c :: chat and admission :: "string option" and now :: nat and out :: string and u :: message
  assumes "chat_ok c" "c_pending c = []" "free_seqs (c_hist c) = {}" "next_seq (c_hist c) + 1 < U64_MAX"
    and "h_messages (c_hist c) = pre @ [a]" "calls_tools a" "use_ids a = [call]" "m_role u = User"
    and "result_ids u = []" "h_summary (c_hist c) = None"
  defines "t \<equiv> tool_result now call out False"
    and "c' \<equiv> submit_end Appended (length (c_cells c)) (submit_begin None u admission c)"
  shows "h_messages (c_hist (commit_tool_outcome jt ok t c')) = pre @ [a, u, t] \<and>
         for_model now (c_hist (commit_tool_outcome jt ok t c')) =
           fst (sanitize_tool_pairing now pre) @
             [a, tool_result now call INTERRUPTED_TOOL_RESULT True, u,
              new_message now Tool [Text (unmatched_text call out)]]"
proof -
  let ?h = "c_hist c" and ?n = "length (c_cells c)"
  have h: "hist_ok ?h" "next_seq ?h < U64_MAX" using assms(1,4) by (auto simp: chat_ok_def numbered_def)
  let ?r = "snd (reserve_row ?h u)"
  have nsub: "?n \<notin> c_submitting c" using assms(1) numberedD(6) [of c ?n] by (auto simp: chat_ok_def in_flight_def)
  have c': "c_hist c' = fst (reserve_row ?h u)" "c_pending c' = [?n]"
    "c_cells c' = c_cells c @ [?r\<lparr>r_admission := admission, r_persisted := True\<rparr>]"
    using assms(2) by (simp_all add: c'_def submit_begin_def submit_end_def sync_next_def
        reserve_user_message_def Let_def case_prod_beta nth_append)
  have commit: "c_hist (fst (commit_pending_user_messages jt c')) = fst (push_row jt ?h u)"
    by (simp add: commit_pending_user_messages_def commit_cell_def c' nth_append push_split case_prod_beta Let_def
        commit_flags)
  note p1 = push_at_end [OF h(1) assms(3) h(2), of jt u]
  have lt: "next_seq (fst (push_row jt ?h u)) < U64_MAX" using p1(4) assms(4) by simp
  note p2 = push_at_end [OF p1(3,2) lt, of jt t]
  have out: "c_hist (commit_tool_outcome jt ok t c') = fst (push_row jt (fst (push_row jt ?h u)) t)"
    by (simp add: commit_tool_outcome_def push_and_append_def case_prod_beta commit)
  have msgs: "h_messages (c_hist (commit_tool_outcome jt ok t c')) = pre @ [a, u, t]"
    using p1(1) p2(1) assms(5) by (simp add: out)
  have roles: "\<not> is_tool_message a" "\<not> is_tool_message u" "\<not> calls_tools u" "\<not> calls_tools t" "is_tool_message t"
    using assms(6,8) by (simp_all add: calls_tools_def is_tool_message_def t_def tool_result_def new_message_def)
  have su: "sanitize_stray_tool_message u = (u, 0)" using assms(8) by (simp add: sanitize_stray_tool_message_def)
  have st: "sanitize_stray_tool_message t = (new_message now Tool [Text (unmatched_text call out)], 1)"
    by (simp add: sanitize_stray_tool_message_def t_def tool_result_def new_message_def)
  have "fst (sanitize_tool_pairing now [a, u, t]) =
      [a, tool_result now call INTERRUPTED_TOOL_RESULT True, u, new_message now Tool [Text (unmatched_text call out)]]"
    using roles assms(6,7) su st by simp
  then show ?thesis
    using sanitize_append [of "[a, u, t]" now pre] roles(1) msgs p1(6) p2(6) assms(10)
    by (simp add: for_model_def out)
qed

definition calling_chat :: chat where
  "calling_chat =
     push_and_append (\<lambda>_. []) True (new_message 1 Assistant [ToolUse ''x'' ''bash'' JNull]) new_chat"

lemma typed_during_tool_witness:
  "for_model 3 (c_hist (commit_tool_outcome (\<lambda>_. []) True (tool_result 3 ''x'' ''all tests pass'' False)
     (submit_end Appended 0 (submit_begin None (user_message 2 ''thanks'') None calling_chat)))) =
   [new_message 1 Assistant [ToolUse ''x'' ''bash'' JNull], tool_result 3 ''x'' INTERRUPTED_TOOL_RESULT True,
    user_message 2 ''thanks'', new_message 3 Tool [Text (unmatched_text ''x'' ''all tests pass'')]]"
proof -
  let ?a = "new_message 1 Assistant [ToolUse ''x'' ''bash'' JNull]"
  have "chat_ok calling_chat"
    by (auto simp: calling_chat_def chat_eval chat_ok_def numbered_def hist_ok_def owned_def in_flight_def Let_def)
  moreover have "c_pending calling_chat = [] \<and> free_seqs (c_hist calling_chat) = {} \<and>
      next_seq (c_hist calling_chat) + 1 < U64_MAX \<and> h_messages (c_hist calling_chat) = [] @ [?a] \<and>
      h_summary (c_hist calling_chat) = None \<and> c_cells calling_chat = []"
    by (simp add: calling_chat_def chat_eval Let_def)
  moreover have "calls_tools ?a \<and> use_ids ?a = [''x''] \<and> m_role (user_message 2 ''thanks'') = User \<and>
      result_ids (user_message 2 ''thanks'') = []"
    by (simp add: calls_tools_def has_tool_uses_def use_ids_def tool_uses_def new_message_def user_message_def
        result_ids_def)
  ultimately show ?thesis
    using typed_during_tool [of calling_chat "[]" ?a "''x''" "user_message 2 ''thanks''" "\<lambda>_. []" True 3
        "''all tests pass''" None] by simp
qed

text \<open>A number given back is used again, below numbers that were given out later.  When
  the store refuses a user message after the assistant's message was numbered, the next message
  takes the freed number, and the result of a call is placed before the call itself.\<close>

theorem freed_number_reorders:
  "h_messages (c_hist (commit_tool_outcome jt ok t
     (submit_end StoreError 0 (persist_end jt True 1 (persist_begin a (submit_begin None u admission new_chat)))))) =
   [t, a]"
proof -
  define d where "d = persist_end jt True 1 (persist_begin a (submit_begin None u admission new_chat))"
  have c: "c_hist d = empty_history\<lparr>next_seq := 2, message_seqs := [1], h_messages := [a],
        estimated_tokens := sat_add32 0 (message_tokens jt a)\<rparr>"
    "c_pending d = [0]" "c_cells d ! 0 = \<lparr>r_seq = 0, r_message = u, r_persisted = False, r_finalized = False,
       r_admission = admission\<rparr>"
    by (simp_all add: d_def persist_end_def persist_begin_def submit_begin_def sync_next_def reserve_user_message_def
        commit_cell_def commit_reserved_def reserve_row_def new_chat_def empty_history_def sat_add_def U64_MAX_def
        after_last_def last_opt_def Let_def)
  have "c_hist (submit_end StoreError 0 d) = (c_hist d)\<lparr>free_seqs := {0}\<rparr>"
    "c_pending (submit_end StoreError 0 d) = []"
    by (simp_all add: submit_end_def rollback_user_message_def rollback_cell_def rollback_reserved_def c
        binary_search_def empty_history_def Let_def numeral_2_eq_2)
  then show ?thesis
    unfolding d_def [symmetric] by (simp add: commit_tool_outcome_def commit_pending_user_messages_def push_and_append_def
        push_row_def reserve_row_def commit_reserved_def c empty_history_def after_last_def last_opt_def
        binary_search_def insert_at_def Let_def)
qed

end
