(* ===== verification/Compaction.thy ===== *)
theory Compaction
  imports History "HOL-Library.AList"
begin

text \<open>
  Making room in the context: \<^verbatim>\<open>crates/pacode-core/src/compaction.rs\<close> and its parts \<^verbatim>\<open>shake.rs\<close>,
  \<^verbatim>\<open>pinned.rs\<close>, \<^verbatim>\<open>prompt.rs\<close> and \<^verbatim>\<open>pipeline.rs\<close>.  Where the history is cut, what is stubbed, what the
  summary model is sent and by which route, what is pinned to its answer, and what becomes of
  the history.

  The two shares of the window are products of single-precision numbers in the code; here
  their results (\<open>threshold_tokens\<close>, \<open>target_tokens\<close>) are numbers of the configuration.  The
  summary model is an argument, a function from the request to a text or an error.
\<close>

section \<open>Text\<close>

definition take_chars :: "nat \<Rightarrow> string \<Rightarrow> string" where
  "take_chars n s = concat (take n (utf8_chars s))"

definition skip_chars :: "nat \<Rightarrow> string \<Rightarrow> string" where
  "skip_chars n s = concat (drop n (utf8_chars s))"

definition char_total :: "string \<Rightarrow> nat" where
  "char_total s = length (utf8_chars s)"

section \<open>Prompts\<close>

definition SUMMARY_SYSTEM :: string where
  "SUMMARY_SYSTEM =
     ''You are a precise summarizer of a coding-agent session. You never answer or continue '' @
     ''the conversation you are given; you only produce the summary document described '' @
     ''in the final instruction. Preserve identifiers, file paths, command lines and error '' @
     ''strings exactly as written, never paraphrase them.''"

definition SECTIONS :: string where
  "SECTIONS =
     ''Produce a markdown document with EXACTLY these sections, in this order. Write '' @ [BT] @
     ''(none)'' @ [BT] @ '' under a section that has nothing to report; never omit a section.'' @
     [NL] @ [NL] @ ''## Goal & user constraints'' @ [NL] @ ''The user'' @ [SQ] @
     ''s goal, then every instruction, constraint, preference or prohibition the user '' @
     ''gave, as VERBATIM quotes (one bullet per quote). Do not reword user instructions.'' @ [NL] @
     [NL] @ ''## Decisions made & why'' @ [NL] @
     ''Each decision taken (design, library, approach rejected) with the reason it was '' @
     ''taken.'' @ [NL] @ [NL] @ ''## Files touched'' @ [NL] @ ''One bullet per file: '' @ [BT] @
     ''path'' @ [BT] @
     '' - what changed (created / edited / deleted / only read, and the substance of the '' @
     ''change).'' @ [NL] @ [NL] @ ''## Commands run & outcomes'' @ [NL] @
     ''Notable commands (builds, tests, searches) with their exact command line and outcome '' @
     ''(pass / fail, and the exact key error string when it failed).'' @ [NL] @ [NL] @
     ''## Open problems / next steps'' @ [NL] @
     ''Unfinished work, known failures, blockers, and the concrete next step to take.'' @ [NL] @
     [NL] @ ''## Facts learned about the codebase'' @ [NL] @
     ''Durable facts discovered (module layout, conventions, APIs, gotchas) that the agent '' @
     ''would otherwise have to rediscover.'' @ [NL] @ [NL] @
     ''Rules: keep identifiers, paths and error strings byte-for-byte exact. Be dense, '' @
     ''no filler, no preamble, no closing remarks. Output only the document.''"

definition SUMMARY_INITIAL :: string where
  "SUMMARY_INITIAL =
     ''Summarize the conversation inside <conversation> so the work can continue without '' @
     ''it.'' @ [NL] @ [NL]"

definition SUMMARY_UPDATE :: string where
  "SUMMARY_UPDATE =
     ''A summary of the earlier part of the session is in <previous-summary>; the newer '' @
     ''part of the session is in <conversation>. UPDATE the previous summary with the '' @
     ''new span instead of summarising the summary: keep every still-valid detail (especially '' @
     ''verbatim user quotes, paths and error strings), add new information, move finished '' @
     ''items out of '' @ [BT] @ ''Open problems / next steps'' @ [BT] @
     '', and correct anything the new span contradicts. The output replaces the previous '' @
     ''summary entirely.'' @ [NL] @ [NL]"

definition instructions :: "bool \<Rightarrow> string" where
  "instructions has_previous = (if has_previous then SUMMARY_UPDATE else SUMMARY_INITIAL) @ SECTIONS"

section \<open>Where the history is cut\<close>

definition DEFAULT_FALLBACK_CONTEXT_WINDOW :: nat where
  "DEFAULT_FALLBACK_CONTEXT_WINDOW = 128000"

text \<open>\<open>advertised\<close> is the window the provider reports of the model, if it reports the model.\<close>

definition resolve_context_window :: "nat option option \<Rightarrow> nat \<Rightarrow> nat" where
  "resolve_context_window advertised config_default =
     (case Option.bind advertised id of
        Some w \<Rightarrow> if w > 0 then w
                  else if config_default > 0 then config_default else DEFAULT_FALLBACK_CONTEXT_WINDOW
      | None \<Rightarrow> if config_default > 0 then config_default else DEFAULT_FALLBACK_CONTEXT_WINDOW)"

definition MUTATING_TOOLS :: "string list" where
  "MUTATING_TOOLS =
     [''edit'', ''write'', ''multi_edit'', ''bash'', ''bg'', ''cron'', ''monitor'', ''memory_write'']"

text \<open>\<^verbatim>\<open>rposition\<close>.\<close>

definition last_index :: "('a \<Rightarrow> bool) \<Rightarrow> 'a list \<Rightarrow> nat option" where
  "last_index P xs = map_option (\<lambda>i. length xs - 1 - i) (find_index P (rev xs))"

definition newest_user_index :: "message list \<Rightarrow> nat option" where
  "newest_user_index msgs = last_index (\<lambda>m. m_role m = User) msgs"

definition mutating_call_ids :: "message list \<Rightarrow> string list" where
  "mutating_call_ids msgs =
     List.map_filter (\<lambda>(i, n, _). if n \<in> set MUTATING_TOOLS then Some i else None)
       (concat (map tool_uses msgs))"

definition MAX_EXTRA_KEPT_MESSAGES :: nat where
  "MAX_EXTRA_KEPT_MESSAGES = 12"

definition protected_result :: "string list \<Rightarrow> message \<Rightarrow> bool" where
  "protected_result ids m \<longleftrightarrow> m_role m = Tool \<and> list_ex (\<lambda>c. c \<in> set ids) (result_ids m)"

text \<open>The loop of \<^verbatim>\<open>move_cut_past_must_keep\<close>: the first protected result between the floor and
  the cut.\<close>

fun first_protected :: "string list \<Rightarrow> nat \<Rightarrow> nat \<Rightarrow> nat \<Rightarrow> message list \<Rightarrow> nat" where
  "first_protected ids floor c i [] = c"
| "first_protected ids floor c i (m # ms) =
     (if i \<ge> c \<or> i < floor then first_protected ids floor c (Suc i) ms
      else if protected_result ids m then i
      else first_protected ids floor c (Suc i) ms)"

definition move_cut_past_must_keep :: "message list \<Rightarrow> nat \<Rightarrow> nat \<times> message option" where
  "move_cut_past_must_keep msgs c =
     (first_protected (mutating_call_ids msgs) (c - MAX_EXTRA_KEPT_MESSAGES) c 0 msgs,
      case newest_user_index msgs of
        None \<Rightarrow> None
      | Some i \<Rightarrow> if i < c then Some (msgs ! i) else None)"

text \<open>The loop that pulls the cut back to a legal boundary.\<close>

fun pull_back :: "message list \<Rightarrow> nat \<Rightarrow> nat" where
  "pull_back msgs 0 = 0"
| "pull_back msgs (Suc c) =
     (if Suc c < length msgs \<and>
         (m_role (msgs ! Suc c) = Tool \<or> has_tool_uses (msgs ! c) \<and> m_role (msgs ! Suc c) = Tool)
      then pull_back msgs c else Suc c)"

text \<open>The cut and the request the summary has to carry.\<close>

definition cut_of :: "message list \<Rightarrow> nat \<Rightarrow> nat \<times> message option" where
  "cut_of msgs keep_recent =
     (if length msgs \<le> keep_recent then (0, None)
      else
        let (c, active) = move_cut_past_must_keep msgs (length msgs - keep_recent)
        in (pull_back msgs c, active))"

definition split_for_compaction :: "message list \<Rightarrow> nat \<Rightarrow> message list \<times> message list" where
  "split_for_compaction msgs keep_recent =
     (let c = fst (cut_of msgs keep_recent) in (take c msgs, drop c msgs))"

definition active_request :: "message list \<Rightarrow> nat \<Rightarrow> message option" where
  "active_request msgs keep_recent = snd (cut_of msgs keep_recent)"

definition active_request_note :: "message \<Rightarrow> string" where
  "active_request_note request =
     ''[Request currently being executed '' @ [CHR 0xE2, CHR 0x80, CHR 0x94] @
     '' the agent must continue exactly this. Your summary MUST open with it, in full '' @
     ''and unparaphrased, before anything else. This is a requirement of the summary, '' @
     ''not a request to summarise.]'' @ [NL] @
     message_text request"

text \<open>\<^verbatim>\<open>build_summary_request\<close> of \<^verbatim>\<open>compaction.rs\<close>.\<close>

definition build_summary_request ::
  "nat \<Rightarrow> string option \<Rightarrow> message list \<Rightarrow> message option \<Rightarrow> message list" where
  "build_summary_request now previous msgs active =
     [new_message now System [Text (     ''Summarize the conversation so far for continuing the work: goals, decisions, files '' @
     ''touched, open items. Be concise and structured.'')]] @
     (case previous of None \<Rightarrow> []
      | Some prev \<Rightarrow> [user_message now (     ''[Previous conversation summary to incorporate and update]'' @ [NL] @ prev)]) @
     (case active of None \<Rightarrow> [] | Some r \<Rightarrow> [user_message now (active_request_note r)]) @
     fst (sanitize_tool_pairing now msgs) @
     [user_message now (     ''Summarize the conversation so far for continuing the work: goals, decisions, files '' @
     ''touched, open items.'')]"

section \<open>The route of the summary\<close>

definition zdr_violation :: "bool \<Rightarrow> (string \<Rightarrow> bool) \<Rightarrow> string \<Rightarrow> string option" where
  "zdr_violation zdr_active zdr_capable route =
     (if \<not> zdr_active \<or> zdr_capable route then None
      else Some (''zdr_blocked: '' @ route @ '' is not flagged zdr_capable; the conversation summary would '' @
                 ''leave the zero-data-retention boundary''))"

text \<open>A route by its printed name.\<close>

definition pick_summary_route ::
  "string option \<Rightarrow> string \<Rightarrow> bool \<Rightarrow> (string \<Rightarrow> bool) \<Rightarrow> string \<times> string option" where
  "pick_summary_route configured agent_route zdr_active zdr_capable =
     (case configured of
        None \<Rightarrow> (agent_route, zdr_violation zdr_active zdr_capable agent_route)
      | Some c \<Rightarrow>
          (case zdr_violation zdr_active zdr_capable c of
             None \<Rightarrow> (c, None)
           | Some _ \<Rightarrow> (agent_route, zdr_violation zdr_active zdr_capable agent_route)))"

section \<open>Shaking out old results\<close>

definition PINNED_TOOLS :: "string list" where
  "PINNED_TOOLS = [''plan'', ''ask_question'', ''skill'', ''report_status'']"

definition STUB_PREFIX :: string where
  "STUB_PREFIX = ''[shaken tool result:''"

definition EXCERPT_CHARS :: nat where
  "EXCERPT_CHARS = 240"

definition KEY_ARGS :: "string list" where
  "KEY_ARGS = [''path'', ''file_path'', ''command'', ''pattern'', ''url'', ''query'']"

record shake_params =
  sp_keep_recent_turns :: nat
  sp_min_chars :: nat
  sp_target_tokens :: nat
  sp_overhead_tokens :: nat

definition is_turn_start :: "message \<Rightarrow> bool" where
  "is_turn_start m \<longleftrightarrow> m_role m = User \<and> m_kind m = Normal"

text \<open>From the end to the front: the place of the \<open>k\<close>-th turn start.\<close>

fun kth_turn_start :: "nat \<Rightarrow> nat \<Rightarrow> message list \<Rightarrow> nat" where
  "kth_turn_start k seen [] = 0"
| "kth_turn_start k seen (m # ms) =
     (if is_turn_start m then
        if Suc seen = k then length ms else kth_turn_start k (Suc seen) ms
      else kth_turn_start k seen ms)"

definition protected_from :: "message list \<Rightarrow> nat \<Rightarrow> nat" where
  "protected_from msgs keep_recent_turns = kth_turn_start (max keep_recent_turns 1) 0 (rev msgs)"

definition collect_calls :: "message list \<Rightarrow> string \<Rightarrow> (string \<times> json) option" where
  "collect_calls msgs = map_of (rev (concat (map tool_uses msgs)))"

text \<open>\<^verbatim>\<open>keys.iter().find_map(|key| input.get(*key).and_then(Value::as_str))\<close>.\<close>

fun first_string :: "string list \<Rightarrow> json \<Rightarrow> string option" where
  "first_string [] v = None"
| "first_string (k # ks) v =
     (case jstr (jget v k) of Some s \<Rightarrow> Some s | None \<Rightarrow> first_string ks v)"

definition path_of :: "json \<Rightarrow> string option" where
  "path_of v = first_string [''path'', ''file_path''] v"

definition key_arg :: "json \<Rightarrow> string option" where
  "key_arg v =
     map_option (\<lambda>s. truncate_head_tail (map (\<lambda>c. if c = NL then SP else c) s) 160)
       (first_string KEY_ARGS v)"

definition make_stub :: "string \<Rightarrow> string option \<Rightarrow> string \<Rightarrow> bool \<Rightarrow> string" where
  "make_stub name key txt is_error =
     (let chars = char_total txt; lines = length (str_lines txt);
          key = (case key of None \<Rightarrow> [] | Some k \<Rightarrow> [SP, BT] @ k @ [BT]);
          err = (if is_error then '', error'' else []);
          header = STUB_PREFIX @ [SP] @ name @ key @ '' | '' @ show_nat chars @ '' chars, '' @
                   show_nat lines @ '' lines'' @ err @ '']''
      in if chars \<le> EXCERPT_CHARS * 2 then header @ [NL] @ txt
         else header @ [NL] @ take_chars EXCERPT_CHARS txt @ [NL] @ ''[... '' @
                show_nat (chars - EXCERPT_CHARS * 2) @ '' chars omitted ...]'' @ [NL] @
                skip_chars (chars - EXCERPT_CHARS) txt)"

text \<open>The last message with a result for each path; those messages are exempt.\<close>

definition result_paths :: "(string \<Rightarrow> (string \<times> json) option) \<Rightarrow> message \<Rightarrow> string list" where
  "result_paths calls m =
     List.map_filter (\<lambda>c. Option.bind (calls c) (\<lambda>(n, v). path_of v)) (result_ids m)"

fun latest_for_path ::
  "(string \<Rightarrow> (string \<times> json) option) \<Rightarrow> nat \<Rightarrow> message list \<Rightarrow> (string \<times> nat) list \<Rightarrow>
   (string \<times> nat) list" where
  "latest_for_path calls i [] latest = latest"
| "latest_for_path calls i (m # ms) latest =
     latest_for_path calls (Suc i) ms (fold (\<lambda>p al. AList.update p i al) (result_paths calls m) latest)"

definition exempt_messages :: "message list \<Rightarrow> nat list" where
  "exempt_messages msgs = map snd (latest_for_path (collect_calls msgs) 0 msgs [])"

text \<open>One block of an old tool message: kept, replaced or dropped; with whether that changed it.\<close>

fun shake_block ::
  "(string \<Rightarrow> (string \<times> json) option) \<Rightarrow> nat \<Rightarrow> content_block \<Rightarrow> content_block list \<times> bool" where
  "shake_block calls min_chars (ToolResult c txt is_error) =
     (if char_total txt \<ge> min_chars \<and> \<not> starts_with txt STUB_PREFIX then
        let (name, input) = (case calls c of Some (n, v) \<Rightarrow> (n, Some v) | None \<Rightarrow> (''unknown'', None))
        in if name \<in> set PINNED_TOOLS then ([ToolResult c txt is_error], False)
           else ([ToolResult c (make_stub name (Option.bind input key_arg) txt is_error) is_error], True)
      else ([ToolResult c txt is_error], False))"
| "shake_block calls min_chars (Image src) = ([], True)"
| "shake_block calls min_chars b = ([b], False)"

definition shake_content ::
  "(string \<Rightarrow> (string \<times> json) option) \<Rightarrow> nat \<Rightarrow> content_block list \<Rightarrow> content_block list \<times> bool" where
  "shake_content calls min_chars bs =
     (concat (map (fst \<circ> shake_block calls min_chars) bs), list_ex (snd \<circ> shake_block calls min_chars) bs)"

definition shakable :: "nat list \<Rightarrow> nat \<Rightarrow> message \<Rightarrow> bool" where
  "shakable exempt i m \<longleftrightarrow> \<not> (m_role m \<noteq> Tool \<or> m_kind m \<noteq> Normal \<or> i \<in> set exempt)"

text \<open>The loop of \<^verbatim>\<open>shake\<close> over the messages before the cutoff: message by message, until the
  estimate is at the target.\<close>

fun shake_loop ::
  "(json \<Rightarrow> string) \<Rightarrow> (string \<Rightarrow> (string \<times> json) option) \<Rightarrow> nat list \<Rightarrow> shake_params \<Rightarrow> nat \<Rightarrow>
   message list \<Rightarrow> nat \<Rightarrow> nat \<Rightarrow> message list \<times> nat \<times> nat" where
  "shake_loop jt calls exempt p i [] tokens stubbed = ([], tokens, stubbed)"
| "shake_loop jt calls exempt p i (m # ms) tokens stubbed =
     (if tokens \<le> sp_target_tokens p then (m # ms, tokens, stubbed)
      else
        let (bs, changed) = shake_content calls (sp_min_chars p) (m_content m);
            m' = m\<lparr>m_content := bs\<rparr>
        in if shakable exempt i m \<and> changed then
             let (out, r) = shake_loop jt calls exempt p (Suc i) ms
                   (sat_add32 (tokens - message_tokens jt m) (message_tokens jt m')) (Suc stubbed)
             in (m' # out, r)
           else
             let (out, r) = shake_loop jt calls exempt p (Suc i) ms tokens stubbed
             in (m # out, r))"

definition estimate_from :: "(json \<Rightarrow> string) \<Rightarrow> nat \<Rightarrow> message list \<Rightarrow> nat" where
  "estimate_from jt base msgs = fold (\<lambda>m n. sat_add32 n (message_tokens jt m)) msgs base"

text \<open>The messages, how many were changed, and the estimate.\<close>

definition shake :: "(json \<Rightarrow> string) \<Rightarrow> message list \<Rightarrow> shake_params \<Rightarrow> message list \<times> nat \<times> nat" where
  "shake jt msgs p =
     (let cutoff = protected_from msgs (sp_keep_recent_turns p);
          (out, tokens, stubbed) =
            shake_loop jt (collect_calls msgs) (exempt_messages msgs) p 0 (take cutoff msgs)
              (estimate_from jt (sp_overhead_tokens p) msgs) 0
      in (out @ drop cutoff msgs, stubbed, tokens))"

section \<open>What is pinned to a summary\<close>

definition PINNED_MARKER :: string where
  "PINNED_MARKER = [NL, NL] @ ''<!-- pacode:pinned -->'' @ [NL]"

definition split_pinned :: "string \<Rightarrow> string \<times> string option" where
  "split_pinned summary =
     (case split_once_str summary PINNED_MARKER of
        Some (body, pinned) \<Rightarrow> (body, Some pinned)
      | None \<Rightarrow> (summary, None))"

definition attach_pinned :: "string \<Rightarrow> string list \<Rightarrow> string" where
  "attach_pinned body pinned =
     (let bs = filter (\<lambda>b. trim b \<noteq> []) pinned
      in if bs = [] then trim_end body
         else trim_end body @ PINNED_MARKER @ join_with [NL, NL] bs)"

datatype plan_status = Pending | Active | Done | Dropped

record plan_item =
  pi_id :: string
  pi_content :: string
  pi_status :: plan_status
  pi_progress :: "nat option"

fun status_word :: "plan_status \<Rightarrow> string" where
  "status_word Pending = ''pending''"
| "status_word Active = ''active''"
| "status_word Done = ''done''"
| "status_word Dropped = ''cancelled''"

fun plan_mark :: "plan_status \<Rightarrow> string" where
  "plan_mark Pending = ''[ ]''"
| "plan_mark Active = ''[~]''"
| "plan_mark Done = ''[x]''"
| "plan_mark Dropped = ''[-]''"

definition plan_line :: "plan_item \<Rightarrow> string" where
  "plan_line i =
     plan_mark (pi_status i) @ [SP] @ pi_id i @ '' ('' @ status_word (pi_status i) @ ''): '' @ pi_content i @
     (case pi_progress i of None \<Rightarrow> [] | Some p \<Rightarrow> '' ['' @ show_nat p @ ''%]'') @ [NL]"

definition plan_block :: "plan_item list \<Rightarrow> string option" where
  "plan_block items =
     (if items = [] then None
      else Some (trim_end (''## Current plan (verbatim)'' @ [NL] @ concat (map plan_line items))))"

record background_task =
  bt_id :: string
  bt_command :: string
  bt_cwd :: string
  bt_running :: bool
  bt_backgrounded :: bool

definition tasks_block :: "background_task list \<Rightarrow> string option" where
  "tasks_block tasks =
     (let running = filter (\<lambda>t. bt_running t \<and> bt_backgrounded t) tasks
      in if running = [] then None
         else Some (trim_end (''## Active background tasks (verbatim)'' @ [NL] @
           concat (map (\<lambda>t. ''- '' @ bt_id t @ [SP, BT] @ bt_command t @ [BT] @ '' (cwd '' @ bt_cwd t @
             '')'' @ [NL]) running))))"

text \<open>\<open>dirs\<close> are the ancestors of the working directory from the root down.\<close>

definition dir_join :: "string \<Rightarrow> string \<Rightarrow> string" where
  "dir_join dir name = (if ends_with dir ''/'' then dir @ name else dir @ ''/'' @ name)"

definition instruction_pointer_block :: "(string \<Rightarrow> bool) \<Rightarrow> string list \<Rightarrow> string option" where
  "instruction_pointer_block is_file dirs =
     (let found = filter is_file
            (concat (map (\<lambda>d. map (dir_join d) [''AGENTS.md'', ''PACODE.md'', ''CLAUDE.md'']) dirs))
      in if found = [] then None
         else Some (trim_end (
           ''## User rules'' @
           [NL] @
           ''Project instructions stay in your system prompt and apply unchanged; re-read these '' @
           ''files if unsure:'' @
           [NL] @
           concat (map (\<lambda>p. ''- '' @ p @ [NL]) found))))"

definition collect_pinned ::
  "plan_item list \<Rightarrow> background_task list \<Rightarrow> (string \<Rightarrow> bool) \<Rightarrow> string list \<Rightarrow> string option \<Rightarrow>
   string list" where
  "collect_pinned plan tasks is_file dirs ledger_digest =
     List.map_filter (\<lambda>b. b)
       [plan_block plan, tasks_block tasks, instruction_pointer_block is_file dirs, ledger_digest]"

definition DIGEST_MAX_ITEMS :: nat where
  "DIGEST_MAX_ITEMS = 40"

definition push_list :: "string \<Rightarrow> string list \<Rightarrow> string" where
  "push_list title items =
     ''## '' @ title @ [NL] @
     (if items = [] then ''(none)'' @ [NL]
      else
        let skip = length items - DIGEST_MAX_ITEMS
        in (if skip > 0 then ''(... '' @ show_nat skip @ '' earlier entries omitted)'' @ [NL] else []) @
           concat (map (\<lambda>i. ''- '' @ i @ [NL]) (drop skip items)))"

record digest_lists =
  dl_written :: "string list"
  dl_read :: "string list"
  dl_commands :: "string list"

definition add_once :: "'a \<Rightarrow> 'a list \<Rightarrow> 'a list" where
  "add_once x xs = (if x \<in> set xs then xs else xs @ [x])"

fun digest_block ::
  "(string \<Rightarrow> (string \<times> json) option) \<Rightarrow> content_block \<Rightarrow> digest_lists \<Rightarrow> digest_lists" where
  "digest_block calls (ToolResult c txt is_error) d =
     (case calls c of
        None \<Rightarrow> d
      | Some (name, input) \<Rightarrow>
          let key = (case key_arg input of Some k \<Rightarrow> k | None \<Rightarrow> []); entry = name @ [SP] @ key
          in if name \<in> set [''write'', ''edit'', ''multi_edit''] then d\<lparr>dl_written := add_once entry (dl_written d)\<rparr>
             else if name = ''read'' then d\<lparr>dl_read := add_once entry (dl_read d)\<rparr>
             else if name = ''bash'' then
               d\<lparr>dl_commands := dl_commands d @ [[BT] @ key @ [BT] @ '' -> '' @ (if is_error then ''failed'' else ''ok'')]\<rparr>
             else d)"
| "digest_block calls b d = d"

definition compaction_digest :: "message list \<Rightarrow> string" where
  "compaction_digest msgs =
     (let d = fold (digest_block (collect_calls msgs)) (concat (map m_content msgs))
            \<lparr>dl_written = [], dl_read = [], dl_commands = []\<rparr>
      in trim_end (
           ''[Automatic digest: the summary model was unavailable, so older history was reduced '' @
           ''to this list of actions.]'' @
           [NL] @
           push_list ''Files modified'' (dl_written d) @ push_list ''Files read'' (dl_read d) @
           push_list ''Commands run'' (dl_commands d)))"

section \<open>The pipeline\<close>

definition MAX_ROUNDS :: nat where "MAX_ROUNDS = 2"
definition SHAKE_MIN_CHARS :: nat where "SHAKE_MIN_CHARS = 1000"
definition RENDER_RESULT_CAP :: nat where "RENDER_RESULT_CAP = 2000"
definition RENDER_ARGS_CAP :: nat where "RENDER_ARGS_CAP = 600"
definition FALLBACK_BODY_CAP :: nat where "FALLBACK_BODY_CAP = 16000"

datatype compaction_method = Shaken | Summarized

fun method_name :: "compaction_method \<Rightarrow> string" where
  "method_name Shaken = ''shake''"
| "method_name Summarized = ''summary''"

record pipeline_config =
  threshold_tokens :: nat
  target_tokens :: nat
  keep_recent_turns :: nat
  keep_recent_messages :: nat
  overhead_tokens :: nat
  force :: bool

record pipeline_input =
  in_messages :: "message list"
  in_previous_summary :: "string option"
  in_pinned :: "string list"

record pipeline_output =
  out_messages :: "message list"
  out_summary :: "string option"
  out_folded :: nat
  out_method :: "compaction_method option"
  out_tokens_before :: nat
  out_tokens_after :: nat
  out_rounds :: nat
  out_stubbed :: nat
  out_summary_failed :: bool

definition messages_tokens :: "(json \<Rightarrow> string) \<Rightarrow> message list \<Rightarrow> nat" where
  "messages_tokens jt msgs = estimate_from jt 0 msgs"

definition summary_tokens :: "string option \<Rightarrow> nat" where
  "summary_tokens s = (case s of None \<Rightarrow> 0 | Some s \<Rightarrow> estimate_tokens s)"

text \<open>\<^verbatim>\<open>ImageSource::placeholder\<close>.\<close>

fun placeholder :: "image_source \<Rightarrow> string" where
  "placeholder (PathImage p) = ''[image file: '' @ p @ '']''"
| "placeholder (BytesImage mime bytes) = ''[image: '' @ mime @ '', '' @ show_nat (length bytes) @ '' bytes]''"
| "placeholder (StoredImage mime h path w ht) =
     (case path of Some p \<Rightarrow> ''[image file: '' @ p @ '']'' | None \<Rightarrow> ''[image: '' @ mime @ '']'')"

fun role_label :: "role \<Rightarrow> string" where
  "role_label System = ''System''"
| "role_label User = ''User''"
| "role_label Assistant = ''Assistant''"
| "role_label Tool = ''Tool''"

fun render_block :: "(json \<Rightarrow> string) \<Rightarrow> string \<Rightarrow> content_block \<Rightarrow> string" where
  "render_block jt label (Text t) = ''['' @ label @ '']'' @ [NL] @ t @ [NL, NL]"
| "render_block jt label (ToolUse i name input) =
     ''[Tool call] '' @ name @ [SP] @ truncate_head_tail (jt input) RENDER_ARGS_CAP @ [NL, NL]"
| "render_block jt label (ToolResult c txt is_error) =
     ''['' @ (if is_error then ''Tool result (error)'' else ''Tool result'') @ '']'' @ [NL] @
     truncate_head_tail txt RENDER_RESULT_CAP @ [NL, NL]"
| "render_block jt label (Reasoning t sig) = []"
| "render_block jt label (Image src) = ''['' @ label @ ''] '' @ placeholder src @ [NL, NL]"

definition render_transcript :: "(json \<Rightarrow> string) \<Rightarrow> message list \<Rightarrow> string" where
  "render_transcript jt msgs =
     concat (map (\<lambda>m. concat (map (render_block jt (role_label (m_role m))) (m_content m))) msgs)"

definition structured_summary_request ::
  "(json \<Rightarrow> string) \<Rightarrow> nat \<Rightarrow> string option \<Rightarrow> message list \<Rightarrow> message list" where
  "structured_summary_request jt now previous msgs =
     [user_message now (
        (case previous of None \<Rightarrow> []
         | Some prev \<Rightarrow> ''<previous-summary>'' @ [NL] @ prev @ [NL] @ ''</previous-summary>'' @ [NL, NL]) @
        ''<conversation>'' @ [NL] @ render_transcript jt msgs @ ''</conversation>'' @ [NL, NL] @
        instructions (previous \<noteq> None))]"

text \<open>What the summary model is sent in the end: the request in flight in front of the first
  message (\<^verbatim>\<open>ProviderSummarizer::summarize\<close>).\<close>

definition with_active_request :: "nat \<Rightarrow> message option \<Rightarrow> message list \<Rightarrow> message list" where
  "with_active_request now active request =
     (case active of
        None \<Rightarrow> request
      | Some r \<Rightarrow>
          (case request of
             first # rest \<Rightarrow>
               first\<lparr>m_content := Text (active_request_note r @ [NL, NL]) # m_content first\<rparr> # rest
           | [] \<Rightarrow> [user_message now (active_request_note r)]))"

text \<open>Without a route for the summary the model is never called.\<close>

definition summarizer_for ::
  "(string \<Rightarrow> message list \<Rightarrow> string option) \<Rightarrow> nat \<Rightarrow> string \<times> string option \<Rightarrow> message option \<Rightarrow>
   message list \<Rightarrow> string option" where
  "summarizer_for model now route active request =
     (case route of
        (r, Some refusal) \<Rightarrow> None
      | (r, None) \<Rightarrow> model r (with_active_request now active request))"

text \<open>Stages 2 and 3: the older part becomes a summary, the model's or the digest.\<close>

definition fallback_body :: "string option \<Rightarrow> message list \<Rightarrow> string" where
  "fallback_body prev span =
     (let start = (case prev of Some p \<Rightarrow> p | None \<Rightarrow> [])
      in truncate_head_tail ((if start = [] then [] else start @ [NL, NL]) @ compaction_digest span)
           FALLBACK_BODY_CAP)"

definition summary_body ::
  "(message list \<Rightarrow> string option) \<Rightarrow> (json \<Rightarrow> string) \<Rightarrow> nat \<Rightarrow> string option \<Rightarrow> message list \<Rightarrow>
   string \<times> compaction_method \<times> bool" where
  "summary_body summarize jt now prev span =
     (case summarize (structured_summary_request jt now prev span) of
        Some txt \<Rightarrow>
          if trim txt \<noteq> [] then (trim txt, Summarized, False)
          else (fallback_body prev span, Shaken, True)
      | None \<Rightarrow> (fallback_body prev span, Shaken, True))"

definition round_params :: "pipeline_config \<Rightarrow> nat \<Rightarrow> string option \<Rightarrow> shake_params" where
  "round_params cfg k summary =
     \<lparr>sp_keep_recent_turns = k, sp_min_chars = SHAKE_MIN_CHARS, sp_target_tokens = target_tokens cfg,
      sp_overhead_tokens = sat_add32 (overhead_tokens cfg) (summary_tokens summary)\<rparr>"

record progress_state =
  ps_messages :: "message list"
  ps_summary :: "string option"
  ps_folded :: nat
  ps_method :: "compaction_method option"
  ps_tokens :: nat
  ps_stubbed :: nat
  ps_failed :: bool

definition first_shake :: "(json \<Rightarrow> string) \<Rightarrow> pipeline_config \<Rightarrow> pipeline_input \<Rightarrow> progress_state" where
  "first_shake jt cfg input =
     (let (msgs, stubbed, tokens) =
        shake jt (in_messages input)
          (round_params cfg (max (keep_recent_turns cfg) 1) (in_previous_summary input))
      in \<lparr>ps_messages = msgs, ps_summary = in_previous_summary input, ps_folded = 0,
          ps_method = (if stubbed > 0 then Some Shaken else None), ps_tokens = tokens,
          ps_stubbed = stubbed, ps_failed = False\<rparr>)"

definition fold_older ::
  "(message list \<Rightarrow> string option) \<Rightarrow> (json \<Rightarrow> string) \<Rightarrow> nat \<Rightarrow> pipeline_config \<Rightarrow> pipeline_input \<Rightarrow>
   progress_state \<Rightarrow> progress_state" where
  "fold_older summarize jt now cfg input s =
     (let (older, keep) = split_for_compaction (ps_messages s) (keep_recent_messages cfg);
          prev = map_option (fst \<circ> split_pinned) (in_previous_summary input);
          (body, method, failed) = summary_body summarize jt now prev (take (length older) (in_messages input));
          summary = Some (attach_pinned body (in_pinned input))
      in if \<not> (force cfg \<or> ps_tokens s \<ge> threshold_tokens cfg) \<or> older = [] then s
         else s\<lparr>ps_messages := keep, ps_summary := summary, ps_folded := length older,
                ps_method := Some method, ps_failed := failed,
                ps_tokens := sat_add32 (sat_add32 (overhead_tokens cfg) (summary_tokens summary))
                               (messages_tokens jt keep)\<rparr>)"

definition second_shake ::
  "(json \<Rightarrow> string) \<Rightarrow> pipeline_config \<Rightarrow> progress_state \<Rightarrow> progress_state \<times> nat" where
  "second_shake jt cfg s =
     (let k = max (keep_recent_turns cfg) 1
      in if ps_tokens s > target_tokens cfg \<and> 1 < MAX_ROUNDS \<and> k > 1 then
           let (msgs, stubbed, tokens) =
             shake jt (ps_messages s) (round_params cfg (max (k div 2) 1) (ps_summary s))
           in (if stubbed > 0 then
                 s\<lparr>ps_stubbed := ps_stubbed s + stubbed, ps_messages := msgs, ps_tokens := tokens,
                   ps_method := (case ps_method s of None \<Rightarrow> Some Shaken | Some m \<Rightarrow> Some m)\<rparr>
               else s, 2)
         else (s, 1))"

definition run_pipeline ::
  "(message list \<Rightarrow> string option) \<Rightarrow> (json \<Rightarrow> string) \<Rightarrow> nat \<Rightarrow> pipeline_config \<Rightarrow> pipeline_input \<Rightarrow>
   pipeline_output" where
  "run_pipeline summarize jt now cfg input =
     (let before = sat_add32 (sat_add32 (overhead_tokens cfg) (summary_tokens (in_previous_summary input)))
                     (messages_tokens jt (in_messages input))
      in if \<not> force cfg \<and> before < threshold_tokens cfg then
           \<lparr>out_messages = in_messages input, out_summary = in_previous_summary input, out_folded = 0,
            out_method = None, out_tokens_before = before, out_tokens_after = before, out_rounds = 0,
            out_stubbed = 0, out_summary_failed = False\<rparr>
         else
           let (s, rounds) = second_shake jt cfg (fold_older summarize jt now cfg input (first_shake jt cfg input))
           in \<lparr>out_messages = ps_messages s, out_summary = ps_summary s, out_folded = ps_folded s,
               out_method = ps_method s, out_tokens_before = before, out_tokens_after = ps_tokens s,
               out_rounds = rounds, out_stubbed = ps_stubbed s, out_summary_failed = ps_failed s\<rparr>)"

section \<open>A compaction of an agent's history\<close>

text \<open>What a compaction reads of the session.\<close>

record compaction_env =
  ce_config :: pipeline_config
  ce_pinned :: "string list"
  ce_configured_route :: "string option"
  ce_agent_route :: string
  ce_zdr_active :: bool
  ce_zdr_capable :: "string \<Rightarrow> bool"
  ce_model :: "string \<Rightarrow> message list \<Rightarrow> string option"

definition overhead_of :: "(json \<Rightarrow> string) \<Rightarrow> nat option \<Rightarrow> history \<Rightarrow> nat" where
  "overhead_of jt observed h =
     (case observed of None \<Rightarrow> 0
      | Some o' \<Rightarrow> o' - history_tokens jt (h_summary h) (map snd (history_rows h)))"

definition plan_compaction ::
  "(json \<Rightarrow> string) \<Rightarrow> nat \<Rightarrow> compaction_env \<Rightarrow> nat option \<Rightarrow> history \<Rightarrow> pipeline_output" where
  "plan_compaction jt now env observed snapshot =
     (let msgs = map snd (history_rows snapshot);
          route = pick_summary_route (ce_configured_route env) (ce_agent_route env) (ce_zdr_active env)
                    (ce_zdr_capable env);
          active = active_request msgs (keep_recent_messages (ce_config env));
          cfg = (ce_config env)\<lparr>overhead_tokens := overhead_of jt observed snapshot, force := observed = None\<rparr>
      in run_pipeline (summarizer_for (ce_model env) now route active) jt now cfg
           \<lparr>in_messages = msgs, in_previous_summary = h_summary snapshot, in_pinned = ce_pinned env\<rparr>)"

text \<open>Rewriting the history as it is when the pipeline has ended; false when nothing was to do.\<close>

definition folded_upto :: "history \<Rightarrow> pipeline_output \<Rightarrow> nat option" where
  "folded_upto snapshot res =
     (if out_folded res > 0 then Some (fst (history_rows snapshot ! (out_folded res - 1))) else None)"

definition rewritten_rows :: "history \<Rightarrow> pipeline_output \<Rightarrow> nat \<rightharpoonup> message" where
  "rewritten_rows snapshot res =
     map_of (zip (map fst (drop (out_folded res) (history_rows snapshot))) (out_messages res))"

definition run_compaction ::
  "(json \<Rightarrow> string) \<Rightarrow> nat \<Rightarrow> compaction_env \<Rightarrow> nat option \<Rightarrow> history \<Rightarrow> history \<Rightarrow> history \<times> bool" where
  "run_compaction jt now env observed snapshot h =
     (let res = plan_compaction jt now env observed snapshot
      in if out_method res = None then (h, False)
         else (apply_compaction jt (out_summary res) (folded_upto snapshot res) (rewritten_rows snapshot res) h,
               True))"

section \<open>The cut\<close>

lemma paired_split:
  "ys = [] \<or> \<not> is_tool_message (hd ys) \<Longrightarrow> paired (xs @ ys) \<longleftrightarrow> paired xs \<and> paired ys"
proof (induction xs rule: paired.induct)
  case (2 m ms)
  then show ?case
    using takeWhile_append_head [of ys is_tool_message ms]
    by (cases "calls_tools m") (auto simp: Let_def)
qed simp

lemma first_protected_between:
  "first_protected ids lo c i ms \<le> c \<and> (first_protected ids lo c i ms = c \<or> lo \<le> first_protected ids lo c i ms)"
  by (induction ids lo c i ms rule: first_protected.induct) auto

lemma pull_back_le: "pull_back msgs c \<le> c"
  by (induction msgs c rule: pull_back.induct) auto

lemma pull_back_legal:
  "pull_back msgs c = 0 \<or> length msgs \<le> pull_back msgs c \<or> m_role (msgs ! pull_back msgs c) \<noteq> Tool"
  by (induction msgs c rule: pull_back.induct) auto

lemma pull_back_tools: "pull_back msgs c < j \<Longrightarrow> j \<le> c \<Longrightarrow> j < length msgs \<and> m_role (msgs ! j) = Tool"
proof (induction msgs c rule: pull_back.induct)
  case (2 msgs c)
  then show ?case by (cases "j = Suc c") (auto split: if_splits)
qed simp

lemma cut_le: "fst (cut_of msgs k) \<le> length msgs - k"
proof (cases "length msgs \<le> k")
  case False
  let ?c = "fst (move_cut_past_must_keep msgs (length msgs - k))"
  have "fst (cut_of msgs k) = pull_back msgs ?c" using False by (simp add: cut_of_def case_prod_beta)
  also have "\<dots> \<le> ?c" by (rule pull_back_le)
  also have "\<dots> \<le> length msgs - k" using first_protected_between by (simp add: move_cut_past_must_keep_def)
  finally show ?thesis .
qed (simp add: cut_of_def)

lemma cut_legal:
  "fst (cut_of msgs k) = 0 \<or> length msgs \<le> fst (cut_of msgs k) \<or> m_role (msgs ! fst (cut_of msgs k)) \<noteq> Tool"
  using pull_back_legal by (simp add: cut_of_def case_prod_beta)

lemma split_paired:
  assumes "paired msgs"
  shows "paired (fst (split_for_compaction msgs k))" "paired (snd (split_for_compaction msgs k))"
proof -
  let ?c = "fst (cut_of msgs k)"
  have "paired (take ?c msgs @ drop ?c msgs)" using assms by simp
  moreover have "?c = 0 \<or> drop ?c msgs = [] \<or> \<not> is_tool_message (hd (drop ?c msgs))"
    using cut_legal [of msgs k] by (auto simp: is_tool_message_def hd_drop_conv_nth)
  ultimately have "paired (take ?c msgs) \<and> paired (drop ?c msgs)"
    using assms paired_split [of "drop ?c msgs" "take ?c msgs"] by auto
  then show "paired (fst (split_for_compaction msgs k))" "paired (snd (split_for_compaction msgs k))"
    by (simp_all add: split_for_compaction_def Let_def)
qed

text \<open>The cut never separates a call from its result: the two parts are the history in
  order, and if every call of the history is answered right after it, so it is in the part
  that is summarized and in the part that is kept.\<close>

theorem cut_keeps_pairs:
  assumes "paired msgs"
  shows "fst (split_for_compaction msgs k) @ snd (split_for_compaction msgs k) = msgs \<and>
         paired (fst (split_for_compaction msgs k)) \<and> paired (snd (split_for_compaction msgs k))"
  using split_paired [OF assms] by (simp add: split_for_compaction_def Let_def)

lemma cut_keeps_pairs_witness:
  "paired (snd (split_for_compaction [user_message 0 ''go'', new_message 0 Assistant [ToolUse ''a'' ''read'' JNull],
      tool_result 0 ''a'' ''ok'' False, new_message 0 Assistant [Text ''done'']] 2))"
proof -
  have "paired [user_message 0 ''go'', new_message 0 Assistant [ToolUse ''a'' ''read'' JNull],
      tool_result 0 ''a'' ''ok'' False, new_message 0 Assistant [Text ''done'']]"
    by (simp add: new_message_def tool_result_def user_message_def use_ids_def tool_uses_def result_ids_def
        is_tool_message_def calls_tools_def has_tool_uses_def)
  from cut_keeps_pairs [OF this] show ?thesis by blast
qed

definition longest_tool_run :: "message list \<Rightarrow> nat \<Rightarrow> bool" where
  "longest_tool_run msgs n \<longleftrightarrow>
     (\<forall>i < length msgs. i + n < length msgs \<longrightarrow> (\<exists>j \<in> {i..i + n}. m_role (msgs ! j) \<noteq> Tool))"

text \<open>What is kept does not grow with the session: it is at most the messages asked for, the
  twelve that may be kept for recent results, and one run of results in one piece.\<close>

theorem kept_bounded:
  assumes "longest_tool_run msgs n"
  shows "length (snd (split_for_compaction msgs k)) \<le> k + MAX_EXTRA_KEPT_MESSAGES + n"
proof (cases "length msgs \<le> k")
  case True
  then show ?thesis by (simp add: split_for_compaction_def cut_of_def)
next
  case False
  define c where "c = fst (move_cut_past_must_keep msgs (length msgs - k))"
  define d where "d = pull_back msgs c"
  have c: "length msgs - k - MAX_EXTRA_KEPT_MESSAGES \<le> c" "c \<le> length msgs - k"
    using first_protected_between [of "mutating_call_ids msgs"
        "length msgs - k - MAX_EXTRA_KEPT_MESSAGES" "length msgs - k" 0 msgs]
    by (auto simp: c_def move_cut_past_must_keep_def)
  have "c \<le> d + n"
  proof (rule ccontr)
    assume "\<not> c \<le> d + n"
    then have d: "Suc d + n \<le> c" by simp
    have tools: "j < length msgs \<and> m_role (msgs ! j) = Tool" if "j \<in> {Suc d..Suc d + n}" for j
      using pull_back_tools [of msgs c j] that d by (simp add: d_def)
    then have "Suc d + n < length msgs" by simp
    then obtain j where "j \<in> {Suc d..Suc d + n}" "m_role (msgs ! j) \<noteq> Tool"
      using assms [unfolded longest_tool_run_def, rule_format, of "Suc d"] by auto
    with tools show False by blast
  qed
  moreover have "length (snd (split_for_compaction msgs k)) = length msgs - d"
    using False by (simp add: split_for_compaction_def cut_of_def case_prod_beta c_def d_def Let_def)
  ultimately show ?thesis using c by linarith
qed

lemma kept_bounded_witness:
  "length (snd (split_for_compaction (replicate 60 (user_message 0 ''x'')) 6)) \<le> 6 + MAX_EXTRA_KEPT_MESSAGES + 0"
  by (rule kept_bounded) (simp add: longest_tool_run_def user_message_def new_message_def)

text \<open>The request that is carried is the newest message of the user role, and a notice of a
  finished task or agent has that role too.  When one came after the request, it is carried in
  the request's stead, and the request itself goes into the summary.\<close>

theorem notice_hides_request:
  "let request = user_message now asked;
       notice = with_kind (user_message now told) Injected;
       reply = new_message now Assistant [Text said];
       msgs = [request, reply, notice, reply, reply]
   in active_request msgs 1 = Some notice \<and> request \<in> set (fst (split_for_compaction msgs 1)) \<and>
      is_turn_start request \<and> \<not> is_turn_start notice"
  by (simp add: Let_def user_message_def new_message_def with_kind_def active_request_def cut_of_def
      move_cut_past_must_keep_def newest_user_index_def last_index_def split_for_compaction_def
      protected_result_def is_turn_start_def numeral_eq_Suc)

section \<open>What shaking leaves alone\<close>

text \<open>A shaken message is the same message in its place: in a tool message results may be
  replaced by stubs of their text and the images may be gone; nothing else changes, and no
  other message changes.\<close>

fun is_image :: "content_block \<Rightarrow> bool" where
  "is_image (Image _) = True"
| "is_image _ = False"

fun stub_of :: "content_block \<Rightarrow> content_block \<Rightarrow> bool" where
  "stub_of (ToolResult c txt is_error) b \<longleftrightarrow>
     b = ToolResult c txt is_error \<or> (\<exists>rest. b = ToolResult c (STUB_PREFIX @ rest) is_error)"
| "stub_of b b' \<longleftrightarrow> b' = b"

definition same_place :: "message \<Rightarrow> message \<Rightarrow> bool" where
  "same_place m m' \<longleftrightarrow>
     m' = m \<or>
     m_role m = Tool \<and> m' = m\<lparr>m_content := m_content m'\<rparr> \<and>
     list_all2 stub_of (filter (\<lambda>b. \<not> is_image b) (m_content m)) (m_content m')"

lemma stub_of_facts:
  "stub_of a a" "stub_of a b \<Longrightarrow> is_image b = is_image a" "stub_of a b \<Longrightarrow> stub_of b c \<Longrightarrow> stub_of a c"
  "stub_of a b \<Longrightarrow> result_id_of b = result_id_of a" "stub_of a b \<Longrightarrow> tool_use_of b = tool_use_of a"
  by (induction a b rule: stub_of.induct) auto

lemma stubs_filtered: "list_all2 stub_of xs ys \<Longrightarrow> list_all (\<lambda>b. \<not> is_image b) xs \<Longrightarrow> filter (\<lambda>b. \<not> is_image b) ys = ys"
  by (induction rule: list_all2_induct) (auto simp: stub_of_facts(2))

lemma stubs_ids:
  "list_all2 stub_of (filter (\<lambda>b. \<not> is_image b) bs) bs' \<Longrightarrow> List.map_filter result_id_of bs' = List.map_filter result_id_of bs"
  "list_all2 stub_of (filter (\<lambda>b. \<not> is_image b) bs) bs' \<Longrightarrow> List.map_filter tool_use_of bs' = List.map_filter tool_use_of bs"
proof (induction bs arbitrary: bs')
  case (Cons b bs)
  { case 1 then show ?case using Cons by (cases b) (auto simp: list_all2_Cons1 split: option.splits) }
  { case 2 then show ?case using Cons by (cases b) (auto simp: list_all2_Cons1 split: option.splits) }
qed simp_all

lemma same_place_trans: "same_place a b \<Longrightarrow> same_place b c \<Longrightarrow> same_place a c"
proof (cases "b = a \<or> c = b")
  case False
  assume ab: "same_place a b" and bc: "same_place b c"
  then have a: "m_role a = Tool" "b = a\<lparr>m_content := m_content b\<rparr>" "list_all2 stub_of (filter (\<lambda>b. \<not> is_image b) (m_content a)) (m_content b)"
    and b: "c = b\<lparr>m_content := m_content c\<rparr>" "list_all2 stub_of (filter (\<lambda>b. \<not> is_image b) (m_content b)) (m_content c)"
    using False by (auto simp: same_place_def)
  have "filter (\<lambda>b. \<not> is_image b) (m_content b) = m_content b"
    using a(3) by (rule stubs_filtered) (simp add: list_all_iff)
  then have "list_all2 stub_of (m_content b) (m_content c)" using b(2) by simp
  from list_all2_trans [OF _ a(3) this] have "list_all2 stub_of (filter (\<lambda>b. \<not> is_image b) (m_content a)) (m_content c)"
    using stub_of_facts(3) by blast
  moreover have "c = a\<lparr>m_content := m_content c\<rparr>" by (subst b(1), subst a(2)) simp
  ultimately show ?thesis using a(1) by (simp add: same_place_def)
qed auto

lemma shake_block_stubs:
  "list_all2 stub_of (filter (\<lambda>b. \<not> is_image b) [b]) (fst (shake_block calls n b))"
  by (cases b) (auto simp: Let_def make_stub_def split: option.split)

lemma shake_content_stubs:
  "list_all2 stub_of (filter (\<lambda>b. \<not> is_image b) bs) (fst (shake_content calls n bs))"
proof (induction bs)
  case (Cons b bs)
  have "list_all2 stub_of (filter (\<lambda>b. \<not> is_image b) [b] @ filter (\<lambda>b. \<not> is_image b) bs)
      (fst (shake_block calls n b) @ fst (shake_content calls n bs))"
    by (rule list_all2_appendI [OF shake_block_stubs Cons])
  then show ?case by (simp add: shake_content_def split: if_splits)
qed (simp add: shake_content_def)

lemma shake_loop_same:
  assumes "shake_loop jt calls exempt p i ms tokens stubbed = (out, tokens', stubbed')"
  shows "list_all2 same_place ms out \<and> stubbed \<le> stubbed' \<and> (stubbed' = stubbed \<longrightarrow> out = ms) \<and>
         (\<forall>j < length ms. \<not> shakable exempt (i + j) (ms ! j) \<longrightarrow> out ! j = ms ! j)"
  using assms
proof (induction jt calls exempt p i ms tokens stubbed arbitrary: out tokens' stubbed' rule: shake_loop.induct)
  case (2 jt calls exempt p i m ms tokens stubbed)
  obtain bs changed where bs: "shake_content calls (sp_min_chars p) (m_content m) = (bs, changed)" by fastforce
  show ?case
  proof (cases "tokens \<le> sp_target_tokens p")
    case True
    then show ?thesis using 2(3) by (auto simp: list_all2_refl same_place_def)
  next
    case False
    show ?thesis
    proof (cases "shakable exempt i m \<and> changed")
      case True
      obtain out1 where o: "shake_loop jt calls exempt p (Suc i) ms
          (sat_add32 (tokens - message_tokens jt m) (message_tokens jt (m\<lparr>m_content := bs\<rparr>))) (Suc stubbed) =
          (out1, tokens', stubbed')" "out = m\<lparr>m_content := bs\<rparr> # out1"
        using 2(3) False True bs by (auto simp: Let_def split: prod.splits)
      have sp: "same_place m (m\<lparr>m_content := bs\<rparr>)"
        using True shake_content_stubs [of "m_content m" calls "sp_min_chars p"] bs
        by (simp add: same_place_def shakable_def)
      have ih: "list_all2 same_place ms out1 \<and> Suc stubbed \<le> stubbed' \<and>
          (\<forall>j < length ms. \<not> shakable exempt (Suc i + j) (ms ! j) \<longrightarrow> out1 ! j = ms ! j)"
        using 2(1) [OF False bs [symmetric] refl refl True o(1)] by blast
      have "\<forall>j < length (m # ms). \<not> shakable exempt (i + j) ((m # ms) ! j) \<longrightarrow> out ! j = (m # ms) ! j"
        using ih True by (auto simp: o(2) nth_Cons split: nat.split)
      then show ?thesis using ih sp o(2) by simp
    next
      case same: False
      obtain out1 where o: "shake_loop jt calls exempt p (Suc i) ms tokens stubbed = (out1, tokens', stubbed')"
        "out = m # out1"
        using 2(3) False same bs by (auto simp: Let_def split: prod.splits if_splits)
      have ih: "list_all2 same_place ms out1 \<and> stubbed \<le> stubbed' \<and> (stubbed' = stubbed \<longrightarrow> out1 = ms) \<and>
          (\<forall>j < length ms. \<not> shakable exempt (Suc i + j) (ms ! j) \<longrightarrow> out1 ! j = ms ! j)"
        using 2(2) [OF False bs [symmetric] refl refl same o(1)] by blast
      have "\<forall>j < length (m # ms). \<not> shakable exempt (i + j) ((m # ms) ! j) \<longrightarrow> out ! j = (m # ms) ! j"
        using ih by (auto simp: o(2) nth_Cons split: nat.split)
      moreover have "same_place m m" by (simp add: same_place_def)
      ultimately show ?thesis using ih o(2) by simp
    qed
  qed
qed (auto simp: list_all2_refl)

lemma shake_same:
  "list_all2 same_place msgs (fst (shake jt msgs p))" "fst (snd (shake jt msgs p)) = 0 \<Longrightarrow> fst (shake jt msgs p) = msgs"
proof -
  let ?c = "protected_from msgs (sp_keep_recent_turns p)"
  obtain out tokens stubbed where l: "shake_loop jt (collect_calls msgs) (exempt_messages msgs) p 0 (take ?c msgs)
      (estimate_from jt (sp_overhead_tokens p) msgs) 0 = (out, tokens, stubbed)"
    by (metis prod_cases3)
  have s: "shake jt msgs p = (out @ drop ?c msgs, stubbed, tokens)" using l by (simp add: shake_def Let_def)
  note sl = shake_loop_same [OF l]
  have "list_all2 same_place (take ?c msgs @ drop ?c msgs) (out @ drop ?c msgs)"
    using sl by (intro list_all2_appendI list_all2_refl) (simp_all add: same_place_def)
  then show "list_all2 same_place msgs (fst (shake jt msgs p))" by (simp add: s)
  show "fst (snd (shake jt msgs p)) = 0 \<Longrightarrow> fst (shake jt msgs p) = msgs" using sl by (simp add: s)
qed

lemma same_place_facts:
  assumes "same_place m m'"
  shows "m_role m' = m_role m" "result_ids m' = result_ids m" "tool_uses m' = tool_uses m" "m_kind m' = m_kind m"
    "m_role m \<noteq> Tool \<Longrightarrow> m' = m" "calls_tools m' = calls_tools m" "use_ids m' = use_ids m"
    "is_tool_message m' = is_tool_message m"
proof -
  have content: "m' = m \<or> m_role m = Tool \<and> m' = m\<lparr>m_content := m_content m'\<rparr>" using assms by (auto simp: same_place_def)
  then show "m_role m' = m_role m" "m_kind m' = m_kind m" "m_role m \<noteq> Tool \<Longrightarrow> m' = m"
    by (metis message.select_convs(1) message.surjective message.update_convs(2), metis message.select_convs(4) message.surjective message.update_convs(2), blast)
  show "result_ids m' = result_ids m" "tool_uses m' = tool_uses m"
    using assms stubs_ids [of "m_content m" "m_content m'"] by (auto simp: same_place_def result_ids_def tool_uses_def)
  with \<open>m_role m' = m_role m\<close> show "calls_tools m' = calls_tools m" "use_ids m' = use_ids m" "is_tool_message m' = is_tool_message m"
    by (simp_all add: calls_tools_def has_tool_uses_def use_ids_def is_tool_message_def)
qed

lemma same_run:
  "list_all2 same_place ms ms' \<Longrightarrow>
   list_all2 same_place (takeWhile is_tool_message ms) (takeWhile is_tool_message ms') \<and>
   list_all2 same_place (dropWhile is_tool_message ms) (dropWhile is_tool_message ms')"
  by (induction rule: list_all2_induct) (auto simp: same_place_facts)

lemma same_results: "list_all2 same_place ms ms' \<Longrightarrow> map result_ids ms' = map result_ids ms"
  by (induction rule: list_all2_induct) (auto simp: same_place_facts)

lemma same_paired: "list_all2 same_place ms ms' \<Longrightarrow> paired ms' \<longleftrightarrow> paired ms"
proof (induction ms arbitrary: ms' rule: paired.induct)
  case (2 m ms)
  then obtain m1 ms1 where ms': "ms' = m1 # ms1" "same_place m m1" "list_all2 same_place ms ms1"
    by (auto simp: list_all2_Cons1)
  note f = same_place_facts [OF ms'(2)] and r = same_run [OF ms'(3)]
  note ids = same_results [OF conjunct1 [OF r]]
  show ?case
  proof (cases "calls_tools m")
    case True
    then show ?thesis using f r ids 2(1) [OF True refl] by (simp add: ms'(1) Let_def)
  next
    case False
    then show ?thesis using f 2(2) [OF False ms'(3)] by (simp add: ms'(1))
  qed
qed simp

lemma same_nth: "list_all2 same_place ms ms' \<Longrightarrow> i < length ms \<Longrightarrow> same_place (ms ! i) (ms' ! i)"
  by (simp add: list_all2_conv_all_nth)

lemma find_index_same:
  "list_all2 R xs ys \<Longrightarrow> (\<And>x y. R x y \<Longrightarrow> P y = P x) \<Longrightarrow> find_index P ys = find_index P xs"
  by (induction rule: list_all2_induct) auto

lemma last_index_Some: "last_index P xs = Some i \<Longrightarrow> i < length xs \<and> P (xs ! i)"
  using find_index_Some [of P "rev xs"] by (auto simp: last_index_def rev_nth)

lemma first_protected_same:
  "list_all2 same_place ms ms' \<Longrightarrow> first_protected ids lo c i ms' = first_protected ids lo c i ms"
  by (induction arbitrary: i rule: list_all2_induct) (auto simp: protected_result_def same_place_facts)

lemma pull_back_same:
  assumes "list_all2 same_place ms ms'"
  shows "pull_back ms' c = pull_back ms c"
proof (induction c)
  case (Suc c)
  have "length ms' = length ms" using assms by (simp add: list_all2_lengthD)
  moreover have "m_role (ms' ! Suc c) = m_role (ms ! Suc c)" if "Suc c < length ms"
    using same_place_facts(1) [OF same_nth [OF assms that]] .
  ultimately show ?case using Suc by auto
qed simp

lemma cut_same:
  assumes "list_all2 same_place ms ms'"
  shows "cut_of ms' k = cut_of ms k"
proof -
  have len: "length ms' = length ms" using assms by (simp add: list_all2_lengthD)
  have "map tool_uses ms' = map tool_uses ms"
    using assms by (induction rule: list_all2_induct) (auto simp: same_place_facts)
  then have ids: "mutating_call_ids ms' = mutating_call_ids ms" by (simp add: mutating_call_ids_def)
  have "find_index (\<lambda>m. m_role m = User) (rev ms') = find_index (\<lambda>m. m_role m = User) (rev ms)"
    using assms by (intro find_index_same [of same_place]) (auto simp: same_place_facts)
  then have nu: "newest_user_index ms' = newest_user_index ms"
    by (simp add: newest_user_index_def last_index_def len)
  have same: "ms' ! i = ms ! i" if "newest_user_index ms = Some i" for i
    using last_index_Some [OF that [unfolded newest_user_index_def]] same_nth [OF assms, of i]
    by (auto dest: same_place_facts(5))
  show ?thesis
    using same by (simp add: cut_of_def move_cut_past_must_keep_def len ids nu first_protected_same [OF assms]
        pull_back_same [OF assms] split: option.split)
qed

text \<open>Shaking changes texts, not the conversation.  The list keeps its length and its roles,
  every result keeps its call, so pairing is the same; the history is cut at the same place
  as before shaking and the same request is carried - which is why the request that would be
  folded away is known before the pipeline starts.\<close>

theorem shake_keeps_conversation:
  "length (fst (shake jt msgs p)) = length msgs \<and>
   map m_role (fst (shake jt msgs p)) = map m_role msgs \<and>
   map result_ids (fst (shake jt msgs p)) = map result_ids msgs \<and>
   (paired (fst (shake jt msgs p)) \<longleftrightarrow> paired msgs) \<and>
   cut_of (fst (shake jt msgs p)) k = cut_of msgs k"
proof -
  note s = shake_same(1) [of msgs jt p]
  have "map m_role ms' = map m_role ms" if "list_all2 same_place ms ms'" for ms ms'
    using that by (induction rule: list_all2_induct) (auto simp: same_place_facts)
  then show ?thesis
    using s list_all2_lengthD [OF s] same_paired [OF s] same_results [OF s] cut_same [OF s] by simp
qed

lemma latest_is_last:
  assumes "j < length ms" "p \<in> set (result_paths calls (ms ! j))"
    and "\<forall>l. j < l \<and> l < length ms \<longrightarrow> p \<notin> set (result_paths calls (ms ! l))"
  shows "map_of (latest_for_path calls i ms al) p = Some (i + j)"
  using assms
proof (induction ms arbitrary: i j al)
  case (Cons m ms)
  have upd: "map_of (fold (\<lambda>p al. AList.update p n al) ps al) q = (if q \<in> set ps then Some n else map_of al q)"
    for n ps q and al :: "(string \<times> nat) list"
    by (induction ps arbitrary: al) (auto simp: update_conv)
  have keep: "map_of (latest_for_path calls n xs al) p = map_of al p"
    if "\<forall>l < length xs. p \<notin> set (result_paths calls (xs ! l))" for n xs al
    using that
  proof (induction xs arbitrary: n al)
    case (Cons x xs)
    have "p \<notin> set (result_paths calls x)" "\<forall>l < length xs. p \<notin> set (result_paths calls (xs ! l))"
      using Cons.prems by fastforce+
    then show ?case using Cons.IH upd by simp
  qed simp
  show ?case
  proof (cases j)
    case 0
    have "\<forall>l < length ms. p \<notin> set (result_paths calls (ms ! l))" using Cons.prems(3) 0 by fastforce
    then show ?thesis using keep upd Cons.prems(2) 0 by simp
  next
    case (Suc j')
    have "\<forall>l. j' < l \<and> l < length ms \<longrightarrow> p \<notin> set (result_paths calls (ms ! l))"
      using Cons.prems(3) Suc by fastforce
    then show ?thesis using Cons.IH [of j' "Suc i"] Cons.prems(1,2) Suc by simp
  qed
qed simp

text \<open>What shaking must not touch.  Everything from the k-th last turn on, everything that is
  not an ordinary tool message, and the latest result for each file stays exactly as it is.\<close>

theorem shake_spares:
  assumes "j < length msgs"
    and "protected_from msgs (sp_keep_recent_turns p) \<le> j \<or> m_role (msgs ! j) \<noteq> Tool \<or>
         m_kind (msgs ! j) \<noteq> Normal \<or>
         (\<exists>path \<in> set (result_paths (collect_calls msgs) (msgs ! j)).
            \<forall>l. j < l \<and> l < length msgs \<longrightarrow> path \<notin> set (result_paths (collect_calls msgs) (msgs ! l)))"
  shows "fst (shake jt msgs p) ! j = msgs ! j"
proof -
  let ?c = "protected_from msgs (sp_keep_recent_turns p)"
  obtain out tokens stubbed where l: "shake_loop jt (collect_calls msgs) (exempt_messages msgs) p 0 (take ?c msgs)
      (estimate_from jt (sp_overhead_tokens p) msgs) 0 = (out, tokens, stubbed)"
    by (metis prod_cases3)
  have s: "fst (shake jt msgs p) = out @ drop ?c msgs" using l by (simp add: shake_def Let_def)
  note sl = shake_loop_same [OF l]
  have len: "length out = min (length msgs) ?c" using sl by (auto dest: list_all2_lengthD)
  show ?thesis
  proof (cases "j < ?c")
    case False
    then show ?thesis using assms(1) len by (simp add: s nth_append min_def)
  next
    case True
    have "\<not> shakable (exempt_messages msgs) j (msgs ! j)"
    proof (cases "m_role (msgs ! j) \<noteq> Tool \<or> m_kind (msgs ! j) \<noteq> Normal")
      case False
      then obtain path where "path \<in> set (result_paths (collect_calls msgs) (msgs ! j))"
        "\<forall>l. j < l \<and> l < length msgs \<longrightarrow> path \<notin> set (result_paths (collect_calls msgs) (msgs ! l))"
        using assms(2) True by auto
      from latest_is_last [OF assms(1) this, of 0 "[]"]
      have "j \<in> set (exempt_messages msgs)"
        by (force simp: exempt_messages_def dest: map_of_SomeD)
      then show ?thesis by (simp add: shakable_def)
    qed (auto simp: shakable_def)
    then show ?thesis using sl True assms(1) len by (simp add: s nth_append)
  qed
qed

lemma shake_spares_witness:
  "fst (shake (\<lambda>_. []) [tool_result 0 ''x'' ''old'' False, user_message 0 ''go'']
     \<lparr>sp_keep_recent_turns = 1, sp_min_chars = 0, sp_target_tokens = 0, sp_overhead_tokens = 0\<rparr>) ! 1 =
   user_message 0 ''go''"
  by (subst shake_spares) (simp_all add: user_message_def new_message_def)

section \<open>What the pipeline does to the messages\<close>

lemma first_shake_same: "list_all2 same_place (in_messages input) (ps_messages (first_shake jt cfg input))"
  "ps_method (first_shake jt cfg input) = None \<Longrightarrow> ps_messages (first_shake jt cfg input) = in_messages input"
  using shake_same [where msgs = "in_messages input" and jt = jt]
  by (auto simp: first_shake_def Let_def case_prod_beta split: if_splits)

lemma first_shake_frame:
  "ps_summary (first_shake jt cfg input) = in_previous_summary input" "ps_folded (first_shake jt cfg input) = 0"
  by (simp_all add: first_shake_def Let_def case_prod_beta)

lemma fold_older_cases:
  fixes s :: progress_state
  obtains "fold_older summarize jt now cfg input s = s"
  | c where "c = fst (cut_of (ps_messages s) (keep_recent_messages cfg))" "0 < c" "c \<le> length (ps_messages s)"
      "ps_messages (fold_older summarize jt now cfg input s) = drop c (ps_messages s)"
      "ps_folded (fold_older summarize jt now cfg input s) = c"
      "ps_method (fold_older summarize jt now cfg input s) \<noteq> None"
      "ps_summary (fold_older summarize jt now cfg input s) =
         Some (attach_pinned (fst (summary_body summarize jt now
           (map_option (fst \<circ> split_pinned) (in_previous_summary input)) (take c (in_messages input)))) (in_pinned input))"
proof (cases "\<not> (force cfg \<or> ps_tokens s \<ge> threshold_tokens cfg) \<or>
    fst (split_for_compaction (ps_messages s) (keep_recent_messages cfg)) = []")
  case True
  then have "fold_older summarize jt now cfg input s = s"
    by (simp add: fold_older_def Let_def case_prod_beta)
  then show thesis by (rule that(1))
next
  case False
  let ?c = "fst (cut_of (ps_messages s) (keep_recent_messages cfg))"
  have le: "?c \<le> length (ps_messages s)" using cut_le [of "ps_messages s" "keep_recent_messages cfg"] by simp
  have c: "0 < ?c" "length (take ?c (ps_messages s)) = ?c"
    using False le by (auto simp: split_for_compaction_def Let_def)
  show thesis
    using False c by (intro that(2) [OF refl c(1) le])
      (simp_all add: fold_older_def split_for_compaction_def Let_def case_prod_beta)
qed

lemma second_shake_same:
  "list_all2 same_place (ps_messages s) (ps_messages (fst (second_shake jt cfg s)))"
  "ps_folded (fst (second_shake jt cfg s)) = ps_folded s" "ps_summary (fst (second_shake jt cfg s)) = ps_summary s"
  "ps_method (fst (second_shake jt cfg s)) = None \<Longrightarrow> fst (second_shake jt cfg s) = s"
  "ps_method s = None \<or> ps_method (fst (second_shake jt cfg s)) = ps_method s"
  "snd (second_shake jt cfg s) \<in> {1, 2}"
proof -
  have refl: "list_all2 same_place ms ms" for ms by (auto simp: list_all2_refl same_place_def)
  show "list_all2 same_place (ps_messages s) (ps_messages (fst (second_shake jt cfg s)))"
    using refl shake_same(1) by (simp add: second_shake_def Let_def case_prod_beta)
  show "ps_folded (fst (second_shake jt cfg s)) = ps_folded s" "ps_summary (fst (second_shake jt cfg s)) = ps_summary s"
    "ps_method (fst (second_shake jt cfg s)) = None \<Longrightarrow> fst (second_shake jt cfg s) = s"
    "ps_method s = None \<or> ps_method (fst (second_shake jt cfg s)) = ps_method s"
    "snd (second_shake jt cfg s) \<in> {1, 2}"
    by (auto simp: second_shake_def Let_def case_prod_beta split: option.splits if_splits)
qed

lemma pipeline_shape:
  "list_all2 same_place (drop (out_folded (run_pipeline sm jt now cfg input)) (in_messages input))
     (out_messages (run_pipeline sm jt now cfg input))"
  "out_folded (run_pipeline sm jt now cfg input) \<in> {0, fst (cut_of (in_messages input) (keep_recent_messages cfg))}"
  "out_rounds (run_pipeline sm jt now cfg input) \<le> MAX_ROUNDS"
  "out_method (run_pipeline sm jt now cfg input) = None \<Longrightarrow>
     out_messages (run_pipeline sm jt now cfg input) = in_messages input \<and>
     out_summary (run_pipeline sm jt now cfg input) = in_previous_summary input \<and>
     out_folded (run_pipeline sm jt now cfg input) = 0"
proof -
  let ?r = "run_pipeline sm jt now cfg input" and ?f = "first_shake jt cfg input"
  have refl: "list_all2 same_place ms ms" for ms by (auto simp: list_all2_refl same_place_def)
  have trans: "list_all2 same_place xs zs" if "list_all2 same_place xs ys" "list_all2 same_place ys zs" for xs ys zs
    by (rule list_all2_trans [OF _ that]) (rule same_place_trans)
  note f = first_shake_same [where input = input and jt = jt and cfg = cfg]
  have "list_all2 same_place (drop (out_folded ?r) (in_messages input)) (out_messages ?r) \<and>
      out_folded ?r \<in> {0, fst (cut_of (in_messages input) (keep_recent_messages cfg))} \<and> out_rounds ?r \<le> MAX_ROUNDS \<and>
      (out_method ?r = None \<longrightarrow> out_messages ?r = in_messages input \<and>
         out_summary ?r = in_previous_summary input \<and> out_folded ?r = 0)"
  proof (cases "\<not> force cfg \<and> sat_add32 (sat_add32 (overhead_tokens cfg) (summary_tokens (in_previous_summary input)))
      (messages_tokens jt (in_messages input)) < threshold_tokens cfg")
    case True
    then show ?thesis using refl by (simp add: run_pipeline_def Let_def)
  next
    case False
    let ?o = "fold_older sm jt now cfg input ?f"
    note s2 = second_shake_same [where s = ?o and jt = jt and cfg = cfg]
    have r: "out_messages ?r = ps_messages (fst (second_shake jt cfg ?o))" "out_folded ?r = ps_folded ?o"
      "out_summary ?r = ps_summary ?o" "out_method ?r = ps_method (fst (second_shake jt cfg ?o))"
      "out_rounds ?r = snd (second_shake jt cfg ?o)"
      using False s2(2,3) by (auto simp: run_pipeline_def Let_def case_prod_beta)
    have rounds: "out_rounds ?r \<le> MAX_ROUNDS" using s2(6) by (auto simp: r(5) MAX_ROUNDS_def)
    show ?thesis
    proof (cases rule: fold_older_cases [of sm jt now cfg input ?f])
      case 1
      have "out_method ?r = None \<Longrightarrow> out_messages ?r = in_messages input"
        using s2(4) f(2) 1 by (simp add: r)
      then show ?thesis using trans [OF f(1)] s2(1) rounds 1 by (simp add: r first_shake_frame)
    next
      case (2 c)
      have "list_all2 same_place (drop c (in_messages input)) (ps_messages ?o)"
        using f(1) by (simp add: 2(4) list_all2_dropI)
      moreover have "c = fst (cut_of (in_messages input) (keep_recent_messages cfg))"
        by (simp add: 2(1) cut_same [OF f(1)])
      moreover have "out_method ?r \<noteq> None" using s2(5) 2(6) by (auto simp: r)
      ultimately show ?thesis using trans [OF _ s2(1)] rounds 2(5) by (auto simp: r)
    qed
  qed
  then show "list_all2 same_place (drop (out_folded ?r) (in_messages input)) (out_messages ?r)"
    "out_folded ?r \<in> {0, fst (cut_of (in_messages input) (keep_recent_messages cfg))}" "out_rounds ?r \<le> MAX_ROUNDS"
    "out_method ?r = None \<Longrightarrow> out_messages ?r = in_messages input \<and>
       out_summary ?r = in_previous_summary input \<and> out_folded ?r = 0" by blast+
qed

text \<open>C16: The pipeline as a whole, on a paired history.  Whatever the summary model answers, or
  whether it answers at all, what comes out is the input from the cut on, message by message in
  its place: every message that is not a tool message is unchanged, and a tool message is
  unchanged or has some results replaced by stubs and no images left, every result still under
  the id of its call.  What is cut off is nothing or exactly the older part of the split, at most
  two rounds were run, the result is paired again, and when no method is reported nothing was
  changed.\<close>

theorem pipeline_safe:
  assumes "paired (in_messages input)"
  shows "let r = run_pipeline summarize jt now cfg input
   in list_all2 same_place (drop (out_folded r) (in_messages input)) (out_messages r) \<and>
      (\<forall>j < length (out_messages r). m_role (in_messages input ! (out_folded r + j)) = Tool \<or>
         out_messages r ! j = in_messages input ! (out_folded r + j)) \<and>
      (out_folded r = 0 \<or> out_folded r = length (fst (split_for_compaction (in_messages input) (keep_recent_messages cfg)))) \<and>
      out_rounds r \<le> MAX_ROUNDS \<and> paired (out_messages r) \<and>
      (out_method r \<noteq> None \<or>
         out_messages r = in_messages input \<and> out_summary r = in_previous_summary input)"
proof -
  let ?r = "run_pipeline summarize jt now cfg input" and ?k = "keep_recent_messages cfg"
  note p = pipeline_shape [of summarize jt now cfg input]
  have cut: "length (fst (split_for_compaction (in_messages input) ?k)) = fst (cut_of (in_messages input) ?k)"
    using cut_le [of "in_messages input" ?k] by (simp add: split_for_compaction_def Let_def)
  have "paired (drop (out_folded ?r) (in_messages input))"
    using p(2) assms split_paired(2) [OF assms, of ?k] by (auto simp: split_for_compaction_def Let_def)
  then have "paired (out_messages ?r)"
    using same_paired [OF p(1)] by simp
  moreover have "m_role (in_messages input ! (out_folded ?r + j)) = Tool \<or>
      out_messages ?r ! j = in_messages input ! (out_folded ?r + j)" if "j < length (out_messages ?r)" for j
    using p(1) that same_place_facts(5) by (fastforce simp: list_all2_conv_all_nth)
  ultimately show ?thesis using p cut by (auto simp: Let_def)
qed

definition sample_chat :: "message list" where
  "sample_chat =
     [user_message 0 ''go'', new_message 0 Assistant [ToolUse ''a'' ''read'' JNull],
      tool_result 0 ''a'' ''ok'' False, new_message 0 Assistant [Text ''done'']]"

lemma pipeline_safe_witness:
  "let input = \<lparr>in_messages = sample_chat, in_previous_summary = None, in_pinned = []\<rparr>;
       cfg = \<lparr>threshold_tokens = 0, target_tokens = 0, keep_recent_turns = 1, keep_recent_messages = 2,
              overhead_tokens = 0, force = True\<rparr>;
       r = run_pipeline (\<lambda>_. Some ''sum'') (\<lambda>_. []) 0 cfg input
   in paired (out_messages r)"
proof -
  have "paired (in_messages \<lparr>in_messages = sample_chat, in_previous_summary = None, in_pinned = []\<rparr>)"
    by (simp add: sample_chat_def new_message_def tool_result_def user_message_def use_ids_def tool_uses_def
        result_ids_def is_tool_message_def calls_tools_def has_tool_uses_def)
  from pipeline_safe [OF this] show ?thesis by (simp add: Let_def)
qed

section \<open>Pinned data\<close>

text \<open>The marker without its last line feed.\<close>

definition marker_line :: string where
  "marker_line = [NL, NL] @ ''<!-- pacode:pinned -->''"

lemma find_str_at: "find_str s p = Some i \<longleftrightarrow>
  i \<le> length s \<and> starts_with (drop i s) p \<and> (\<forall>j < i. \<not> starts_with (drop j s) p)"
proof (induction s arbitrary: i)
  case Nil
  then show ?case by (auto simp: starts_with_def)
next
  case (Cons x s)
  show ?case
  proof (cases i)
    case 0
    then show ?thesis by simp
  next
    case (Suc k)
    show ?thesis using Cons [of k] by (auto simp: Suc All_less_Suc2)
  qed
qed

lemma str_contains_iff: "str_contains s p \<longleftrightarrow> (\<exists>i \<le> length s. starts_with (drop i s) p)"
proof (induction s)
  case (Cons x s)
  have "(\<exists>i \<le> length (x # s). starts_with (drop i (x # s)) p) \<longleftrightarrow>
      starts_with (x # s) p \<or> (\<exists>i \<le> length s. starts_with (drop i s) p)"
    by (auto simp: Ex_less_Suc2 less_Suc_eq_le [symmetric])
  with Cons show ?case by simp
qed (auto simp: starts_with_def)

lemma marker_eval:
  "PINNED_MARKER = marker_line @ [NL]" "length marker_line = 24" "length PINNED_MARKER = 25"
  by (simp_all add: PINNED_MARKER_def marker_line_def)

lemma marker_no_border: "d < 23 \<Longrightarrow> \<not> (PINNED_MARKER ! Suc d = NL \<and> PINNED_MARKER ! Suc (Suc d) = NL)"
proof -
  have "list_all (\<lambda>d. \<not> (PINNED_MARKER ! Suc d = NL \<and> PINNED_MARKER ! Suc (Suc d) = NL)) [0..<23]"
    by code_simp
  then show "d < 23 \<Longrightarrow> ?thesis" by (simp add: list_all_iff)
qed

lemma marker_found:
  assumes "\<not> str_contains b marker_line"
  shows "find_str (b @ PINNED_MARKER @ r) PINNED_MARKER = Some (length b)"
proof -
  have "\<not> starts_with (drop j (b @ PINNED_MARKER @ r)) PINNED_MARKER" if j: "j < length b" for j
  proof
    let ?s = "b @ PINNED_MARKER @ r"
    assume "starts_with (drop j ?s) PINNED_MARKER"
    then obtain t where t: "drop j ?s = PINNED_MARKER @ t" by (auto simp: starts_with_iff)
    have at: "?s ! (j + i) = PINNED_MARKER ! i" if "i < 25" for i
    proof -
      have "?s ! (j + i) = drop j ?s ! i" using j by (intro nth_drop [symmetric]) simp
      also have "\<dots> = PINNED_MARKER ! i" unfolding t using that by (simp add: nth_append marker_eval(3))
      finally show ?thesis .
    qed
    show False
    proof (cases "j + 24 \<le> length b")
      case True
      have "take 24 (drop j b) = marker_line"
      proof (rule nth_equalityI)
        show "take 24 (drop j b) ! i = marker_line ! i" if "i < length (take 24 (drop j b))" for i
          using at [of i] that True by (simp add: marker_eval(1) nth_append marker_eval(2))
      qed (use True in \<open>simp add: marker_eval\<close>)
      then have "starts_with (drop j b) marker_line" by (simp add: starts_with_def marker_eval)
      with assms j show False by (auto simp: str_contains_iff)
    next
      case False
      define d where "d = length b - j - 1"
      have d: "d < 23" "length b = j + Suc d" using False j by (simp_all add: d_def)
      have "?s ! (j + Suc d) = NL" "?s ! (j + Suc (Suc d)) = NL"
        using d(2) by (simp_all add: nth_append PINNED_MARKER_def)
      with at [of "Suc d"] at [of "Suc (Suc d)"] marker_no_border [OF d(1)] d(1) show False by simp
    qed
  qed
  then show ?thesis by (simp add: find_str_at)
qed

text \<open>The pinned data comes off again: the body a compaction stores is the body the next one
  updates, and the pinned blocks of the first never enter the second summary's request -
  unless the model writes the marker itself.\<close>

theorem pinned_roundtrip:
  assumes "\<not> str_contains (trim_end body) marker_line"
  shows "split_pinned (attach_pinned body pinned) =
    (trim_end body,
     let bs = filter (\<lambda>b. trim b \<noteq> []) pinned in if bs = [] then None else Some (join_with [NL, NL] bs))"
proof (cases "filter (\<lambda>b. trim b \<noteq> []) pinned = []")
  case True
  have "\<not> starts_with (drop i (trim_end body)) PINNED_MARKER" for i
  proof
    assume "starts_with (drop i (trim_end body)) PINNED_MARKER"
    then have "starts_with (drop i (trim_end body)) marker_line"
      by (auto simp: starts_with_iff marker_eval(1))
    moreover from this have "i \<le> length (trim_end body)"
      by (cases "i \<le> length (trim_end body)") (simp_all add: starts_with_iff marker_line_def)
    ultimately show False using assms by (auto simp: str_contains_iff)
  qed
  then have "find_str (trim_end body) PINNED_MARKER = None"
    using find_str_at [of "trim_end body" PINNED_MARKER] by (cases "find_str (trim_end body) PINNED_MARKER") auto
  with True show ?thesis by (simp add: attach_pinned_def split_pinned_def split_once_str_def)
next
  case False
  then show ?thesis using marker_found [OF assms]
    by (simp add: attach_pinned_def split_pinned_def split_once_str_def Let_def)
qed

lemma pinned_roundtrip_witness:
  "split_pinned (attach_pinned ''done so far'' [''plan'', [SP]]) = (''done so far'', Some ''plan'')"
proof -
  have "\<not> str_contains (trim_end ''done so far'') marker_line" "trim_end ''done so far'' = ''done so far''"
    "filter (\<lambda>b. trim b \<noteq> []) [''plan'', [SP]] = [''plan'']"
    by code_simp+
  with pinned_roundtrip [of "''done so far''" "[''plan'', [SP]]"] show ?thesis by simp
qed

section \<open>Where the conversation may go\<close>

lemma route_within:
  assumes "pick_summary_route configured agent_route True cap = (r, None)"
  shows "cap r"
  using assms by (auto simp: pick_summary_route_def zdr_violation_def split: option.splits if_splits)

lemma pipeline_cong:
  assumes "\<And>req. summarize req = summarize' req"
  shows "run_pipeline summarize jt now cfg input = run_pipeline summarize' jt now cfg input"
proof -
  have "summarize = summarize'" using assms by (rule ext)
  then show ?thesis by simp
qed

text \<open>C17: Under zero data retention no other model sees the conversation.  Two families of models
  that agree on the routes flagged \<open>zdr_capable\<close> give the same compaction, whatever summary
  model is configured and whatever route the agent is on: nothing that is sent to, or answered
  by, a route outside the boundary can matter.\<close>

theorem zdr_summary_within_boundary:
  assumes "ce_zdr_active env" "\<forall>r. ce_zdr_capable env r \<longrightarrow> ce_model env r = model r"
  shows "plan_compaction jt now env observed h = plan_compaction jt now (env\<lparr>ce_model := model\<rparr>) observed h"
proof -
  let ?route = "pick_summary_route (ce_configured_route env) (ce_agent_route env) True (ce_zdr_capable env)"
  have same: "summarizer_for (ce_model env) now ?route active = summarizer_for model now ?route active" for active
  proof (cases ?route)
    case (Pair r refusal)
    then show ?thesis
      using assms(2) route_within [of "ce_configured_route env" "ce_agent_route env" "ce_zdr_capable env" r]
      by (cases refusal) (auto simp: summarizer_for_def fun_eq_iff)
  qed
  show ?thesis by (simp add: plan_compaction_def Let_def assms(1) same)
qed

text \<open>A forced compaction folds exactly the older part.\<close>

lemma forced_fold:
  assumes "force cfg"
  shows "out_folded (run_pipeline sm jt now cfg input) = fst (cut_of (in_messages input) (keep_recent_messages cfg))"
proof -
  note f = first_shake_same(1) [of input jt cfg]
  have "length (fst (split_for_compaction (ps_messages (first_shake jt cfg input)) (keep_recent_messages cfg))) =
      fst (cut_of (in_messages input) (keep_recent_messages cfg))"
    using cut_le [of "in_messages input" "keep_recent_messages cfg"] list_all2_lengthD [OF f]
    by (simp add: split_for_compaction_def Let_def cut_same [OF f])
  then have "ps_folded (fold_older sm jt now cfg input (first_shake jt cfg input)) = fst (cut_of (in_messages input) (keep_recent_messages cfg))"
    using assms by (auto simp: fold_older_def Let_def case_prod_beta first_shake_frame)
  then show ?thesis using assms by (simp add: run_pipeline_def Let_def case_prod_beta second_shake_same)
qed

lemma forced_plan_folds:
  "out_folded (plan_compaction jt now env None snapshot) =
   fst (cut_of (map snd (history_rows snapshot)) (keep_recent_messages (ce_config env)))"
  by (simp add: plan_compaction_def Let_def forced_fold)

definition sample_env :: compaction_env where
  "sample_env =
     \<lparr>ce_config = \<lparr>threshold_tokens = 0, target_tokens = 0, keep_recent_turns = 1, keep_recent_messages = 0,
        overhead_tokens = 0, force = False\<rparr>, ce_pinned = [], ce_configured_route = Some ''cheap/model'',
      ce_agent_route = ''safe/model'', ce_zdr_active = True, ce_zdr_capable = (\<lambda>r. r = ''safe/model''),
      ce_model = (\<lambda>r _. Some r)\<rparr>"

definition keep_one :: compaction_env where
  "keep_one = sample_env\<lparr>ce_config := (ce_config sample_env)\<lparr>keep_recent_messages := 1\<rparr>\<rparr>"

lemma zdr_summary_within_boundary_witness:
  "plan_compaction (\<lambda>_. []) 0 sample_env None empty_history =
   plan_compaction (\<lambda>_. []) 0 (sample_env\<lparr>ce_model := (\<lambda>r _. if r = ''safe/model'' then Some r else None)\<rparr>) None
     empty_history"
  by (rule zdr_summary_within_boundary) (simp_all add: sample_env_def)





definition asked_chat :: history where
  "asked_chat = empty_history\<lparr>h_messages := [user_message 0 ''rename the parser'', new_message 0 Assistant [Text ''on it''],
     new_message 0 Assistant [Text ''done'']], message_seqs := [0, 1, 2], next_seq := 3\<rparr>"


section \<open>The history after a compaction\<close>

lemma rows_of_compacted:
  "history_rows (apply_compaction jt summary u rewritten h) =
    map (\<lambda>(s, m). (s, case rewritten s of None \<Rightarrow> m | Some m' \<Rightarrow> m'))
      (filter (\<lambda>(s, m). case u of None \<Rightarrow> True | Some u \<Rightarrow> s > u) (history_rows h))"
  unfolding apply_compaction_def history_rows_def Let_def
  by (simp add: zip_map_fst_snd del: map_map)

text \<open>C18: A compaction runs while messages keep coming.  Every row of the history whose number is
  above all numbers of the copy the pipeline works on - so every row that was given the next new
  number after the copy was taken - is still there afterwards, with its number
  and its content, whether the older rows were folded, shaken or left alone.  A row with a
  lower number has no such promise (\<open>freed_number_dropped\<close>).\<close>

theorem rows_added_meanwhile_stay:
  assumes "hist_ok snapshot" "hist_ok h" "(s, m) \<in> set (history_rows h)"
    and "\<forall>x \<in> set (message_seqs snapshot). x < s"
  shows "(s, m) \<in> set (history_rows (fst (run_compaction jt now env observed snapshot h)))"
proof -
  let ?res = "plan_compaction jt now env observed snapshot"
  have fst_in: "fst x \<in> set (message_seqs snapshot)" if "x \<in> set (history_rows snapshot)" for x
    using that rows_fst [OF assms(1)] by (metis image_eqI list.set_map)
  have "rewritten_rows snapshot ?res s = None"
  proof -
    have "s \<notin> set (map fst (drop (out_folded ?res) (history_rows snapshot)))"
      using fst_in assms(4) by (auto dest!: in_set_dropD)
    then show ?thesis
      by (auto simp: rewritten_rows_def map_of_eq_None_iff dest: set_zip_leftD)
  qed
  moreover have "case folded_upto snapshot ?res of None \<Rightarrow> True | Some u \<Rightarrow> s > u"
  proof (cases "out_folded ?res = 0")
    case False
    have "out_folded ?res \<le> length (history_rows snapshot)"
    proof -
      have "out_folded (run_pipeline sm jt now cfg input) \<le> length (in_messages input)" for sm cfg input
        using pipeline_shape(2) [of sm jt now cfg input] cut_le [of "in_messages input" "keep_recent_messages cfg"] by auto
      then show ?thesis
        by (simp add: plan_compaction_def Let_def) (metis length_map pipeline_input.select_convs(1))
    qed
    then have "history_rows snapshot ! (out_folded ?res - 1) \<in> set (history_rows snapshot)"
      using False by (intro nth_mem) simp
    then show ?thesis using fst_in assms(4) False by (auto simp: folded_upto_def)
  qed (simp add: folded_upto_def)
  ultimately have "(s, m) \<in> set (history_rows (apply_compaction jt (out_summary ?res) (folded_upto snapshot ?res)
      (rewritten_rows snapshot ?res) h))"
    using assms(2,3) by (subst rows_of_compacted) (force simp: hist_ok_def)+
  then show ?thesis using assms(3) by (simp add: run_compaction_def Let_def)
qed

lemma rows_added_meanwhile_stay_witness:
  "(3, user_message 1 ''hi'') \<in>
     set (history_rows (fst (run_compaction (\<lambda>_. []) 2 keep_one None asked_chat
       (fst (push_row (\<lambda>_. []) asked_chat (user_message 1 ''hi''))))))"
proof (rule rows_added_meanwhile_stay)
  show ok: "hist_ok asked_chat" by (simp add: hist_ok_def asked_chat_def empty_history_def)
  have "free_seqs asked_chat = {}" "next_seq asked_chat < U64_MAX"
    by (simp_all add: asked_chat_def empty_history_def U64_MAX_def)
  note p = push_at_end [OF ok this, of "\<lambda>_. []" "user_message 1 ''hi''"]
  show "hist_ok (fst (push_row (\<lambda>_. []) asked_chat (user_message 1 ''hi'')))" by (rule p(3))
  show "(3, user_message 1 ''hi'') \<in> set (history_rows (fst (push_row (\<lambda>_. []) asked_chat (user_message 1 ''hi''))))"
    using p(1,5) by (simp add: history_rows_def asked_chat_def)
qed (simp add: asked_chat_def)

text \<open>A number given back is a way around this: a message sent after the copy was taken can get
  it, lies below the rows that are folded, and is dropped although no summary has seen it.\<close>

lemma freed_number_dropped:
  fixes u m :: message and admission :: "string option" and jt :: "json \<Rightarrow> string"
  defines "a \<equiv> new_message 0 Assistant [Text ''one'']" and "b \<equiv> new_message 0 Assistant [Text ''two'']"
  defines "c \<equiv> submit_end StoreError 0 (persist_end jt True 2 (persist_begin b (persist_end jt True 1 (persist_begin a
      (submit_begin None u admission new_chat)))))"
  shows "let h = fst (push_row jt (c_hist c) m)
    in history_rows h = [(0, m), (1, a), (2, b)] \<and>
       map fst (history_rows (fst (run_compaction jt now keep_one None (c_hist c) h))) = [2]"
proof -
  define d where "d = persist_end jt True 2 (persist_begin b (persist_end jt True 1 (persist_begin a (submit_begin None u admission new_chat))))"
  have d: "message_seqs (c_hist d) = [1, 2]" "h_messages (c_hist d) = [a, b]" "free_seqs (c_hist d) = {}" "next_seq (c_hist d) = 3"
    "c_cells d ! 0 = \<lparr>r_seq = 0, r_message = u, r_persisted = False, r_finalized = False, r_admission = admission\<rparr>"
    by (simp_all add: d_def persist_end_def persist_begin_def submit_begin_def sync_next_def reserve_user_message_def
        commit_cell_def commit_reserved_def reserve_row_def new_chat_def empty_history_def sat_add_def U64_MAX_def
        after_last_def last_opt_def Let_def)
  have c: "c = submit_end StoreError 0 d" by (simp add: c_def d_def)
  have h: "message_seqs (c_hist c) = [1, 2]" "h_messages (c_hist c) = [a, b]" "free_seqs (c_hist c) = {0}"
    unfolding c by (simp_all add: submit_end_def rollback_user_message_def rollback_cell_def rollback_reserved_def d
        binary_search_def Let_def numeral_3_eq_3)
  have rows: "history_rows (c_hist c) = [(1, a), (2, b)]" by (simp add: history_rows_def h)
  have pushed: "history_rows (fst (push_row jt (c_hist c) m)) = [(0, m), (1, a), (2, b)]"
    by (simp add: push_row_def reserve_row_def commit_reserved_def h history_rows_def after_last_def last_opt_def
        binary_search_def insert_at_def Let_def)
  let ?res = "plan_compaction jt now keep_one None (c_hist c)"
  have folded: "out_folded ?res = 1"
    by (simp add: forced_plan_folds rows keep_one_def sample_env_def cut_of_def move_cut_past_must_keep_def protected_result_def
        new_message_def a_def b_def)
  then have "out_method ?res \<noteq> None" using pipeline_shape(4) by (fastforce simp: plan_compaction_def Let_def)
  then show ?thesis
    using folded by (simp add: pushed run_compaction_def Let_def rows_of_compacted folded_upto_def rows)
qed

text \<open>A compaction is one of the steps whose interleavings \<open>chat_step\<close> describes.\<close>

lemma compaction_is_step:
  "fst (run_compaction jt now env observed snapshot (c_hist c)) = c_hist c \<or>
   chat_step jt c (c\<lparr>c_hist := fst (run_compaction jt now env observed snapshot (c_hist c))\<rparr>)"
  by (auto simp: run_compaction_def Let_def intro: chat_step.compact)

end
