(* ===== verification/Locks.thy ===== *)
theory Locks
  imports Paths "HOL-Library.AList" "HOL-Library.List_Lexorder" "HOL-Library.Char_ord"
begin

text \<open>
  Who may write which file: the keys of paths (\<^verbatim>\<open>canonical_key\<close> of
  \<^verbatim>\<open>crates/pacode-core/src/ledger.rs\<close> and \<^verbatim>\<open>canonicalize_best_effort\<close> of
  \<^verbatim>\<open>crates/pacode-tools/src/builtin/helpers.rs\<close>), the session's locks per path
  (\<^verbatim>\<open>ledger/locks.rs\<close>, \<^verbatim>\<open>FileLedger::lock\<close>), the process-wide write locks of
  \<^verbatim>\<open>pacode-tools/src/registry.rs\<close> and the gate of the stat sweeps (\<^verbatim>\<open>ledger/refresh.rs\<close>).
  The asynchronous mutex is the one of the runtime: a guard is handed out only while no
  other guard of that mutex lives.  A future or a guard that keeps an \<^verbatim>\<open>Arc\<close> of a mutex is an
  entry of the table of handles, so that the strong count of the source can be computed.
\<close>

section \<open>Keys\<close>

text \<open>Canonicalisation and existence are questions to the file system: they are arguments.\<close>

type_synonym comps = "component list"

definition comps_parent :: "comps \<Rightarrow> comps option" where
  "comps_parent cs = (if cs = [] \<or> last cs = RootDir then None else Some (butlast cs))"

definition comps_name :: "comps \<Rightarrow> component option" where
  "comps_name cs = (case last_opt cs of Some (Normal s) \<Rightarrow> Some (Normal s) | _ \<Rightarrow> None)"

lemma comps_parent_shorter: "comps_parent cs = Some p \<Longrightarrow> length p < length cs"
  by (auto simp: comps_parent_def split: if_splits)

function key_loop :: "(comps \<Rightarrow> comps option) \<Rightarrow> comps \<Rightarrow> comps \<Rightarrow> comps \<Rightarrow> comps" where
  "key_loop canon path cur tail =
     (case canon cur of Some base \<Rightarrow> base @ tail
      | None \<Rightarrow>
          (case comps_parent cur of None \<Rightarrow> path
           | Some parent \<Rightarrow>
               (case comps_name cur of None \<Rightarrow> path
                | Some name \<Rightarrow> key_loop canon path parent (name # tail))))"
  by pat_completeness auto
termination by (relation "measure (\<lambda>(_, _, cur, _). length cur)") (auto dest: comps_parent_shorter)

definition canonical_key :: "(comps \<Rightarrow> comps option) \<Rightarrow> comps \<Rightarrow> comps" where
  "canonical_key canon path = key_loop canon path path []"

function effort_loop :: "(comps \<Rightarrow> comps option) \<Rightarrow> (comps \<Rightarrow> bool) \<Rightarrow> comps \<Rightarrow> comps \<Rightarrow> comps" where
  "effort_loop canon present cur stack =
     (case if present cur then None else comps_parent cur of
        Some parent \<Rightarrow>
          effort_loop canon present parent
            (case comps_name cur of Some name \<Rightarrow> name # stack | None \<Rightarrow> stack)
      | None \<Rightarrow> (case canon cur of Some base \<Rightarrow> base | None \<Rightarrow> cur) @ stack)"
  by pat_completeness auto
termination
  by (relation "measure (\<lambda>(_, _, cur, _). length cur)") (auto dest: comps_parent_shorter split: if_splits)

definition canonicalize_best_effort ::
    "(comps \<Rightarrow> comps option) \<Rightarrow> (comps \<Rightarrow> bool) \<Rightarrow> comps \<Rightarrow> comps" where
  "canonicalize_best_effort canon present path =
     (case canon path of Some c \<Rightarrow> c | None \<Rightarrow> effort_loop canon present path [])"

definition is_outside_workspace ::
    "(comps \<Rightarrow> comps option) \<Rightarrow> (comps \<Rightarrow> bool) \<Rightarrow> comps \<Rightarrow> comps \<Rightarrow> bool" where
  "is_outside_workspace canon present path cwd =
     (let canonical_cwd = (case canon cwd of Some c \<Rightarrow> c | None \<Rightarrow> cwd)
      in \<not> starts_with (canonicalize_best_effort canon present path) canonical_cwd)"

declare key_loop.simps [simp del] effort_loop.simps [simp del]

subsection \<open>A tree without links\<close>

text \<open>What the operating system answers on a tree whose directories and files are listed by the
  names from the root, without symbolic links: \<^verbatim>\<open>..\<close> of an existing directory is its parent.
  \<^verbatim>\<open>create_dir_all\<close> makes every missing directory on the way, in order.\<close>

type_synonym tree = "string list list"

definition walk_step :: "tree \<Rightarrow> string list option \<Rightarrow> component \<Rightarrow> string list option" where
  "walk_step t at c =
     (case at of None \<Rightarrow> None
      | Some d \<Rightarrow>
          (case c of RootDir \<Rightarrow> Some [] | CurDir \<Rightarrow> Some d | ParentDir \<Rightarrow> Some (butlast d)
           | Normal n \<Rightarrow> if List.member t (d @ [n]) then Some (d @ [n]) else None))"

definition walk_tree :: "tree \<Rightarrow> comps \<Rightarrow> string list option" where
  "walk_tree t cs = foldl (walk_step t) (Some []) cs"

definition tree_canon :: "tree \<Rightarrow> comps \<Rightarrow> comps option" where
  "tree_canon t cs = map_option (\<lambda>d. RootDir # map Normal d) (walk_tree t cs)"

definition tree_present :: "tree \<Rightarrow> comps \<Rightarrow> bool" where
  "tree_present t cs \<longleftrightarrow> walk_tree t cs \<noteq> None"

definition make_step :: "tree \<times> string list \<Rightarrow> component \<Rightarrow> tree \<times> string list" where
  "make_step st c =
     (case st of (t, d) \<Rightarrow>
       (case c of RootDir \<Rightarrow> (t, []) | CurDir \<Rightarrow> (t, d) | ParentDir \<Rightarrow> (t, butlast d)
        | Normal n \<Rightarrow> (if List.member t (d @ [n]) then t else (d @ [n]) # t, d @ [n])))"

definition create_dir_all :: "tree \<Rightarrow> comps \<Rightarrow> tree" where
  "create_dir_all t cs = fst (foldl make_step (t, []) cs)"

text \<open>Where a write through a path lands once its missing directories are there.\<close>

definition lands_at :: "tree \<Rightarrow> comps \<Rightarrow> comps" where
  "lands_at t cs = RootDir # map Normal (snd (foldl make_step (t, []) cs))"

subsection \<open>Keys name the place a write lands at\<close>

lemma walk_step_simps [simp]:
  "walk_step t None c = None"
  "walk_step t (Some d) RootDir = Some []"
  "walk_step t (Some d) CurDir = Some d"
  "walk_step t (Some d) ParentDir = Some (butlast d)"
  "walk_step t (Some d) (Normal n) = (if d @ [n] \<in> set t then Some (d @ [n]) else None)"
  by (simp_all add: walk_step_def List.member_iff)

lemma make_step_simps [simp]:
  "make_step (t, d) RootDir = (t, [])"
  "make_step (t, d) CurDir = (t, d)"
  "make_step (t, d) ParentDir = (t, butlast d)"
  "make_step (t, d) (Normal n) = (if d @ [n] \<in> set t then t else (d @ [n]) # t, d @ [n])"
  by (simp_all add: make_step_def List.member_iff)

lemma walk_none [simp]: "foldl (walk_step t) None cs = None"
  by (induction cs) simp_all

lemma walk_makes:
  "foldl (walk_step t) (Some d0) cs = Some d \<Longrightarrow> foldl make_step (t, d0) cs = (t, d)"
proof (induction cs arbitrary: d0)
  case (Cons c cs)
  then show ?case by (cases c) (auto split: if_splits)
qed simp

lemma walk_mono:
  "set t \<subseteq> set t' \<Longrightarrow> foldl (walk_step t) (Some d0) cs = Some d \<Longrightarrow> foldl (walk_step t') (Some d0) cs = Some d"
proof (induction cs arbitrary: d0)
  case (Cons c cs)
  then show ?case by (cases c) (auto split: if_splits)
qed simp

lemma make_names: "snd (foldl make_step (t, d) (map Normal ns)) = d @ ns"
  by (induction ns arbitrary: t d) simp_all

lemma walk_names:
  "foldl (walk_step t) (Some d) (map Normal ns) = Some e \<Longrightarrow> e = d @ ns"
proof (induction ns arbitrary: d)
  case (Cons n ns)
  then have "foldl (walk_step t) (Some (d @ [n])) (map Normal ns) = Some e" by (simp split: if_splits)
  from Cons.IH [OF this] show ?case by simp
qed simp

lemma lands_at_names:
  "walk_tree t pre = Some d \<Longrightarrow> lands_at t (pre @ map Normal ns) = RootDir # map Normal (d @ ns)"
  using walk_makes [of t "[]" pre d] by (simp add: lands_at_def walk_tree_def make_names)

lemma tree_canon_names:
  assumes "walk_tree t pre = Some d" and "tree_canon t (pre @ map Normal ns) = Some c"
  shows "c = RootDir # map Normal (d @ ns)"
  using assms walk_names [of t d ns] by (auto simp: tree_canon_def walk_tree_def)

lemma names_parent:
  "comps_parent (pre @ map Normal ns @ [Normal n]) = Some (pre @ map Normal ns)"
  "comps_name (pre @ map Normal ns @ [Normal n]) = Some (Normal n)"
  by (simp_all add: comps_parent_def comps_name_def last_opt_def butlast_append)

lemma key_loop_names:
  "walk_tree t pre = Some d \<Longrightarrow>
     key_loop (tree_canon t) path (pre @ map Normal ns) tail = RootDir # map Normal (d @ ns) @ tail"
proof (induction ns arbitrary: tail rule: rev_induct)
  case Nil
  then show ?case by (subst key_loop.simps) (simp add: tree_canon_def)
next
  case (snoc n ns)
  show ?case
  proof (cases "tree_canon t (pre @ map Normal (ns @ [n]))")
    case (Some c)
    then show ?thesis using tree_canon_names [OF snoc.prems Some] by (subst key_loop.simps) simp
  next
    case None
    then show ?thesis
      by (subst key_loop.simps) (simp add: names_parent snoc.IH [OF snoc.prems])
  qed
qed

lemma effort_loop_names:
  "walk_tree t pre = Some d \<Longrightarrow>
     effort_loop (tree_canon t) (tree_present t) (pre @ map Normal ns) tail = RootDir # map Normal (d @ ns) @ tail"
proof (induction ns arbitrary: tail rule: rev_induct)
  case Nil
  then show ?case by (subst effort_loop.simps) (simp add: tree_canon_def tree_present_def)
next
  case (snoc n ns)
  show ?case
  proof (cases "tree_canon t (pre @ map Normal (ns @ [n]))")
    case (Some c)
    then have "tree_present t (pre @ map Normal (ns @ [n]))" by (auto simp: tree_canon_def tree_present_def)
    then show ?thesis using tree_canon_names [OF snoc.prems Some] Some by (subst effort_loop.simps) simp
  next
    case None
    then have "\<not> tree_present t (pre @ map Normal (ns @ [n]))" by (auto simp: tree_canon_def tree_present_def)
    then show ?thesis
      by (subst effort_loop.simps) (simp add: names_parent snoc.IH [OF snoc.prems])
  qed
qed

lemma best_effort_names:
  assumes "walk_tree t pre = Some d"
  shows "canonicalize_best_effort (tree_canon t) (tree_present t) (pre @ map Normal ns) = lands_at t (pre @ map Normal ns)"
  using assms effort_loop_names [OF assms, of ns "[]"] tree_canon_names [OF assms, of ns]
  by (auto simp: canonicalize_best_effort_def lands_at_names split: option.split)

lemma canonical_key_names:
  assumes "walk_tree t pre = Some d"
  shows "canonical_key (tree_canon t) (pre @ map Normal ns) = lands_at t (pre @ map Normal ns)"
  using key_loop_names [OF assms, of _ ns "[]"] by (simp add: canonical_key_def lands_at_names [OF assms])

text \<open>A file keeps its key once it is there.  On a tree without links, a path whose missing
  part holds plain names has the same ledger key before and after any directories or files
  are created, so that the write that creates a file and every later one take the same lock
  and meet in the same ledger entry.\<close>

theorem key_survives_creation:
  assumes "walk_tree t pre = Some d" and "set t \<subseteq> set t'"
  shows "canonical_key (tree_canon t') (pre @ map Normal ns) = canonical_key (tree_canon t) (pre @ map Normal ns)"
proof -
  have "walk_tree t' pre = Some d" using walk_mono [OF assms(2)] assms(1) by (simp add: walk_tree_def)
  then show ?thesis using assms(1) by (simp add: canonical_key_names lands_at_names)
qed

theorem key_survives_creation_witness:
  "canonical_key (tree_canon [[''w''], [''w'', ''a''], [''w'', ''a'', ''f'']])
     ([RootDir, Normal ''w'', CurDir] @ map Normal [''a'', ''f'']) =
   canonical_key (tree_canon [[''w'']]) ([RootDir, Normal ''w'', CurDir] @ map Normal [''a'', ''f''])"
  by (rule key_survives_creation [where d = "[''w'']"])
     (simp_all add: walk_tree_def)

text \<open>The answer whether a write leaves the workspace is the right one for a path whose
  missing part holds plain names: it is asked before the missing directories are created,
  and tells where the write lands after they are.\<close>

theorem workspace_check_exact:
  assumes "walk_tree t pre = Some d" and "tree_canon t cwd = Some root"
  shows "is_outside_workspace (tree_canon t) (tree_present t) (pre @ map Normal ns) cwd \<longleftrightarrow>
    \<not> starts_with (lands_at t (pre @ map Normal ns)) root"
  using assms by (simp add: is_outside_workspace_def best_effort_names)

theorem workspace_check_exact_witness:
  "is_outside_workspace (tree_canon [[''w'']]) (tree_present [[''w'']])
     ([RootDir, Normal ''w'', ParentDir] @ map Normal [''a'', ''f'']) [RootDir, Normal ''w''] \<longleftrightarrow>
   \<not> starts_with (lands_at [[''w'']] ([RootDir, Normal ''w'', ParentDir] @ map Normal [''a'', ''f'']))
       [RootDir, Normal ''w'']"
  by (rule workspace_check_exact [where d = "[]"])
     (simp_all add: walk_tree_def tree_canon_def)

text \<open>Not so with \<^verbatim>\<open>..\<close> behind a directory that is not there yet: the loop drops it, the
  write first creates the directory and then climbs out of it.\<close>

theorem dotdot_hides_outside:
  "\<not> is_outside_workspace (tree_canon [[''w'']]) (tree_present [[''w'']])
       [RootDir, Normal ''w'', Normal ''new'', ParentDir, ParentDir, Normal ''etc'', Normal ''f''] [RootDir, Normal ''w'']
   \<and> lands_at [[''w'']] [RootDir, Normal ''w'', Normal ''new'', ParentDir, ParentDir, Normal ''etc'', Normal ''f'']
       = [RootDir, Normal ''etc'', Normal ''f'']"
  by code_simp

section \<open>Locks of a session\<close>

text \<open>\<^verbatim>\<open>Path\<close> compares by components, a component by its kind and then by its bytes.\<close>

instantiation component :: linorder
begin

definition comp_rank :: "component \<Rightarrow> nat \<times> string" where
  "comp_rank c = (case c of RootDir \<Rightarrow> (0, []) | CurDir \<Rightarrow> (1, []) | ParentDir \<Rightarrow> (2, []) | Normal s \<Rightarrow> (3, s))"

definition less_eq_component :: "component \<Rightarrow> component \<Rightarrow> bool" where
  "c \<le> d \<longleftrightarrow>
     fst (comp_rank c) < fst (comp_rank d) \<or>
     (fst (comp_rank c) = fst (comp_rank d) \<and> snd (comp_rank c) \<le> snd (comp_rank d))"

definition less_component :: "component \<Rightarrow> component \<Rightarrow> bool" where
  "c < d \<longleftrightarrow> c \<le> d \<and> \<not> d \<le> (c :: component)"

instance
proof
  fix c d e :: component
  show "c < d \<longleftrightarrow> c \<le> d \<and> \<not> d \<le> c" by (rule less_component_def)
  show "c \<le> c" by (simp add: less_eq_component_def)
  show "c \<le> d \<Longrightarrow> d \<le> e \<Longrightarrow> c \<le> e" by (auto simp: less_eq_component_def)
  show "c \<le> d \<or> d \<le> c" by (auto simp: less_eq_component_def)
  show "c \<le> d \<Longrightarrow> d \<le> c \<Longrightarrow> c = d"
    by (cases c; cases d) (simp_all add: less_eq_component_def comp_rank_def)
qed

end

definition LOCK_MAP_CAP :: nat where
  "LOCK_MAP_CAP = 256"

type_synonym task = nat
type_synonym mutex = nat

text \<open>A handle is one future or guard: waiting in \<^verbatim>\<open>lock\<close>, about to try, holding the mutex, or
  a guard whose mutex is released and whose entry is still to be looked at.  Only the last
  one keeps no \<^verbatim>\<open>Arc\<close>.\<close>

datatype lock_phase = Waiting | Trying | Held | Leaving

text \<open>A call of \<^verbatim>\<open>FileLedger::lock\<close>: about to ask for the next of its keys, or awaiting one.\<close>

datatype lock_call = Next "comps list" | Await comps "comps list"

record locks =
  k_map :: "(comps \<times> mutex) list"
  k_next :: mutex
  k_futs :: "((task \<times> comps) \<times> lock_phase \<times> mutex) list"
  k_calls :: "(task \<times> lock_call) list"

definition no_locks :: locks where
  "no_locks = \<lparr>k_map = [], k_next = 0, k_futs = [], k_calls = []\<rparr>"

fun has_arc :: "mutex \<Rightarrow> (task \<times> comps) \<times> lock_phase \<times> mutex \<Rightarrow> bool" where
  "has_arc m (_, ph, m') \<longleftrightarrow> m' = m \<and> ph \<noteq> Leaving"

definition strong_count :: "mutex \<Rightarrow> locks \<Rightarrow> nat" where
  "strong_count m s = length (filter (\<lambda>e. snd e = m) (k_map s)) + length (filter (has_arc m) (k_futs s))"

definition prune_idle :: "comps \<Rightarrow> locks \<Rightarrow> locks" where
  "prune_idle key s =
     (if LOCK_MAP_CAP \<le> length (k_map s) \<and> map_of (k_map s) key = None
      then s\<lparr>k_map := filter (\<lambda>e. 1 < strong_count (snd e) s) (k_map s)\<rparr> else s)"

definition lock_entry :: "comps \<Rightarrow> locks \<Rightarrow> mutex \<times> locks" where
  "lock_entry key s =
     (let s = prune_idle key s
      in case map_of (k_map s) key of
           Some m \<Rightarrow> (m, s)
         | None \<Rightarrow> (k_next s, s\<lparr>k_map := k_map s @ [(key, k_next s)], k_next := Suc (k_next s)\<rparr>))"

definition open_handle :: "lock_phase \<Rightarrow> task \<Rightarrow> comps \<Rightarrow> locks \<Rightarrow> locks" where
  "open_handle ph t key s =
     (case lock_entry key s of (m, s') \<Rightarrow> s'\<lparr>k_futs := ((t, key), ph, m) # k_futs s'\<rparr>)"

definition free :: "mutex \<Rightarrow> locks \<Rightarrow> bool" where
  "free m s \<longleftrightarrow> \<not> list_ex (\<lambda>f. snd f = (Held, m)) (k_futs s)"

definition set_phase :: "task \<times> comps \<Rightarrow> lock_phase \<Rightarrow> locks \<Rightarrow> locks" where
  "set_phase h ph s =
     (case map_of (k_futs s) h of Some (_, m) \<Rightarrow> s\<lparr>k_futs := AList.update h (ph, m) (k_futs s)\<rparr> | None \<Rightarrow> s)"

definition close_handle :: "task \<times> comps \<Rightarrow> locks \<Rightarrow> locks" where
  "close_handle h s = s\<lparr>k_futs := AList.delete h (k_futs s)\<rparr>"

text \<open>The second half of dropping a guard: the entry goes unless somebody else keeps its mutex.\<close>

definition forget_entry :: "comps \<Rightarrow> locks \<Rightarrow> locks" where
  "forget_entry key s =
     (case map_of (k_map s) key of
        Some m \<Rightarrow> if strong_count m s = 1 then s\<lparr>k_map := AList.delete key (k_map s)\<rparr> else s
      | None \<Rightarrow> s)"

definition locked_count :: "locks \<Rightarrow> nat" where
  "locked_count s = length (k_map s)"

text \<open>\<^verbatim>\<open>FileLedger::lock\<close>: the keys of the paths, sorted and without repetitions.\<close>

definition lock_order :: "(comps \<Rightarrow> comps option) \<Rightarrow> comps list \<Rightarrow> comps list" where
  "lock_order canon paths = remdups_adj (sort (map (canonical_key canon) paths))"

subsection \<open>Steps\<close>

text \<open>What runs on its own once it is there: a call asks for its next key, is handed the mutex,
  or is over (its guards are then dropped one by one); a try ends; the future of an abandoned
  call is dropped; a guard is dropped in two halves.\<close>

inductive lock_progress :: "locks \<Rightarrow> locks \<Rightarrow> bool" where
  ask: "map_of (k_calls s) t = Some (Next (k # ks)) \<Longrightarrow>
    lock_progress s ((open_handle Waiting t k s)\<lparr>k_calls := AList.update t (Await k ks) (k_calls s)\<rparr>)"
| acquire: "map_of (k_calls s) t = Some (Await k ks) \<Longrightarrow> map_of (k_futs s) (t, k) = Some (Waiting, m) \<Longrightarrow>
    free m s \<Longrightarrow> lock_progress s ((set_phase (t, k) Held s)\<lparr>k_calls := AList.update t (Next ks) (k_calls s)\<rparr>)"
| finish: "map_of (k_calls s) t = Some (Next []) \<Longrightarrow>
    lock_progress s (s\<lparr>k_calls := AList.delete t (k_calls s)\<rparr>)"
| tried: "map_of (k_futs s) (t, k) = Some (Trying, m) \<Longrightarrow>
    lock_progress s (set_phase (t, k) (if free m s then Held else Leaving) s)"
| cancel: "map_of (k_calls s) t = None \<Longrightarrow> map_of (k_futs s) (t, k) = Some (Waiting, m) \<Longrightarrow>
    lock_progress s (close_handle (t, k) s)"
| release: "map_of (k_calls s) t = None \<Longrightarrow> map_of (k_futs s) (t, k) = Some (Held, m) \<Longrightarrow>
    lock_progress s (set_phase (t, k) Leaving s)"
| forget: "map_of (k_futs s) (t, k) = Some (Leaving, m) \<Longrightarrow>
    lock_progress s (forget_entry k (close_handle (t, k) s))"

text \<open>What comes from outside: a writer locks its paths, a sweep tries one, a turn that is
  cancelled drops the call it was in.\<close>

inductive lock_arrive :: "locks \<Rightarrow> locks \<Rightarrow> bool" where
  call: "map_of (k_calls s) t = None \<Longrightarrow> \<forall>k. map_of (k_futs s) (t, k) = None \<Longrightarrow>
    lock_arrive s (s\<lparr>k_calls := (t, Next (lock_order canon paths)) # k_calls s\<rparr>)"
| try_lock: "map_of (k_calls s) t = None \<Longrightarrow> \<forall>k. map_of (k_futs s) (t, k) = None \<Longrightarrow>
    lock_arrive s (open_handle Trying t key s)"

inductive lock_abandon :: "locks \<Rightarrow> locks \<Rightarrow> bool" where
  abandon: "map_of (k_calls s) t = Some c \<Longrightarrow> lock_abandon s (s\<lparr>k_calls := AList.delete t (k_calls s)\<rparr>)"

definition lock_step :: "locks \<Rightarrow> locks \<Rightarrow> bool" where
  "lock_step s s' \<longleftrightarrow> lock_progress s s' \<or> lock_arrive s s' \<or> lock_abandon s s'"

subsection \<open>The tables\<close>

definition tables_ok :: "locks \<Rightarrow> bool" where
  "tables_ok s \<longleftrightarrow> distinct (map fst (k_map s)) \<and> distinct (map snd (k_map s)) \<and> distinct (map fst (k_futs s)) \<and>
     (\<forall>e \<in> set (k_map s). snd e < k_next s)"

definition arcs_ok :: "locks \<Rightarrow> bool" where
  "arcs_ok s \<longleftrightarrow> (\<forall>t k ph m. map_of (k_futs s) (t, k) = Some (ph, m) \<longrightarrow> ph \<noteq> Leaving \<longrightarrow>
     map_of (k_map s) k = Some m)"

definition held_once :: "locks \<Rightarrow> bool" where
  "held_once s \<longleftrightarrow> (\<forall>g h m. map_of (k_futs s) g = Some (Held, m) \<longrightarrow> map_of (k_futs s) h = Some (Held, m) \<longrightarrow> g = h)"

definition core_ok :: "locks \<Rightarrow> bool" where
  "core_ok s \<longleftrightarrow> tables_ok s \<and> arcs_ok s \<and> held_once s"

lemma one_occurrence: "distinct xs \<Longrightarrow> length (filter ((=) m) xs) \<le> 1"
  by (induction xs) (auto simp: filter_empty_conv)

lemma one_entry: "distinct (map snd xs) \<Longrightarrow> length (filter (\<lambda>e. snd e = m) xs) \<le> 1"
  using one_occurrence [of "map snd xs" m] by (simp add: filter_map o_def eq_commute)

lemma entry_at: "distinct (map snd xs) \<Longrightarrow> map_of xs k = Some m \<Longrightarrow> map_of xs k' = Some m \<Longrightarrow> k = k'"
  by (drule map_of_SomeD)+ (metis distinct_map inj_onD prod.inject snd_conv)

lemma strong_count_pos:
  assumes "map_of (k_map s) k = Some m"
  shows "1 \<le> strong_count m s"
proof -
  have "(k, m) \<in> set (filter (\<lambda>e. snd e = m) (k_map s))" using assms by (auto dest: map_of_SomeD)
  from length_pos_if_in_set [OF this] show ?thesis unfolding strong_count_def by linarith
qed

lemma strong_count_arc:
  assumes "map_of (k_map s) k = Some m" and "map_of (k_futs s) h = Some (ph, m)" and "ph \<noteq> Leaving"
  shows "1 < strong_count m s"
proof -
  have "(k, m) \<in> set (filter (\<lambda>e. snd e = m) (k_map s))" using assms(1) by (auto dest: map_of_SomeD)
  from length_pos_if_in_set [OF this] have a: "0 < length (filter (\<lambda>e. snd e = m) (k_map s))" .
  have "(h, ph, m) \<in> set (filter (has_arc m) (k_futs s))"
    using assms(2,3) by (cases h) (auto dest: map_of_SomeD)
  from length_pos_if_in_set [OF this] have "0 < length (filter (has_arc m) (k_futs s))" .
  with a show ?thesis unfolding strong_count_def by linarith
qed

lemma strong_count_one:
  assumes "distinct (map snd (k_map s))" and "map_of (k_map s) k = Some m" and "strong_count m s \<noteq> 1"
  shows "\<exists>t k ph. ((t, k), ph, m) \<in> set (k_futs s) \<and> ph \<noteq> Leaving"
proof -
  have "1 < strong_count m s" using strong_count_pos [OF assms(2)] assms(3) by simp
  then have "filter (has_arc m) (k_futs s) \<noteq> []"
    using one_entry [OF assms(1), of m] by (auto simp: strong_count_def)
  then obtain f where "f \<in> set (k_futs s)" "has_arc m f" by (auto simp: filter_empty_conv)
  moreover obtain t k ph m' where "f = ((t, k), ph, m')" by (metis prod.exhaust)
  ultimately show ?thesis by auto
qed

lemma map_of_kept:
  "distinct (map fst xs) \<Longrightarrow> map_of (filter P xs) k = Some m \<longleftrightarrow> map_of xs k = Some m \<and> P (k, m)"
  by (simp add: map_of_eq_Some_iff distinct_map_filter)

lemma free_iff: "distinct (map fst (k_futs s)) \<Longrightarrow> free m s \<longleftrightarrow> (\<forall>h. map_of (k_futs s) h \<noteq> Some (Held, m))"
  by (auto simp: free_def list_ex_iff map_of_eq_Some_iff)

lemma prune_facts:
  assumes "tables_ok s"
  shows "k_futs (prune_idle k s) = k_futs s" "k_calls (prune_idle k s) = k_calls s"
    "k_next (prune_idle k s) = k_next s" "tables_ok (prune_idle k s)"
    "map_of (k_map (prune_idle k s)) k' = Some m' \<Longrightarrow> map_of (k_map s) k' = Some m'"
    "map_of (k_map s) k' = Some m' \<Longrightarrow> map_of (k_futs s) h = Some (ph, m') \<Longrightarrow> ph \<noteq> Leaving \<Longrightarrow>
       map_of (k_map (prune_idle k s)) k' = Some m'"
  using assms strong_count_arc [where s = s and k = k' and m = m' and h = h and ph = ph]
  by (auto simp: prune_idle_def tables_ok_def distinct_map_filter map_of_kept simp del: map_of_eq_Some_iff
      split: if_split_asm)

lemma lock_entry_facts:
  assumes ok: "tables_ok s" and e: "lock_entry k s = (m, s')"
  shows "k_futs s' = k_futs s" "k_calls s' = k_calls s" "map_of (k_map s') k = Some m" "tables_ok s'"
    "map_of (k_map s') k' = Some m' \<Longrightarrow> map_of (k_map s) k' = Some m' \<or> k' = k"
    "map_of (k_map s) k' = Some m' \<Longrightarrow> map_of (k_futs s) h = Some (ph, m') \<Longrightarrow> ph \<noteq> Leaving \<Longrightarrow>
       map_of (k_map s') k' = Some m'"
proof -
  let ?p = "prune_idle k s"
  note p = prune_facts [OF ok, where k = k]
  have "s' = ?p \<and> map_of (k_map ?p) k = Some m \<or>
      map_of (k_map ?p) k = None \<and> m = k_next s \<and> s' = ?p\<lparr>k_map := k_map ?p @ [(k, m)], k_next := Suc m\<rparr>"
    using e p(3) by (auto simp: lock_entry_def Let_def split: option.splits)
  moreover have "k_next s \<notin> snd ` set (k_map ?p)" "\<forall>e \<in> set (k_map ?p). snd e < Suc (k_next s)"
    using p(3,4) by (auto simp: tables_ok_def intro: less_SucI)
  ultimately show "k_futs s' = k_futs s" "k_calls s' = k_calls s" "map_of (k_map s') k = Some m" "tables_ok s'"
    "map_of (k_map s') k' = Some m' \<Longrightarrow> map_of (k_map s) k' = Some m' \<or> k' = k"
    "map_of (k_map s) k' = Some m' \<Longrightarrow> map_of (k_futs s) h = Some (ph, m') \<Longrightarrow> ph \<noteq> Leaving \<Longrightarrow>
       map_of (k_map s') k' = Some m'"
    using p(1,2,3,4) p(5) [where k' = k' and m' = m'] p(6) [where k' = k' and m' = m' and h = h and ph = ph]
    by (auto simp: tables_ok_def map_add_Some_iff map_of_eq_None_iff split: if_split_asm) fastforce
qed

lemma open_handle_facts:
  assumes ok: "core_ok s" and new: "map_of (k_futs s) (t, k) = None" and ph: "ph \<in> {Waiting, Trying}"
  shows "core_ok (open_handle ph t k s)" "k_calls (open_handle ph t k s) = k_calls s"
    "\<exists>m. map_of (k_futs (open_handle ph t k s)) = (map_of (k_futs s))((t, k) \<mapsto> (ph, m))"
    "map_of (k_map (open_handle ph t k s)) k' = Some m' \<Longrightarrow> map_of (k_map s) k' = Some m' \<or> k' = k"
proof -
  obtain m s1 where e: "lock_entry k s = (m, s1)" by fastforce
  have tables: "tables_ok s" using ok by (simp add: core_ok_def)
  note f = lock_entry_facts [OF tables e]
  have o: "open_handle ph t k s = s1\<lparr>k_futs := ((t, k), ph, m) # k_futs s\<rparr>"
    by (simp add: open_handle_def e f(1))
  show "k_calls (open_handle ph t k s) = k_calls s"
    "\<exists>m. map_of (k_futs (open_handle ph t k s)) = (map_of (k_futs s))((t, k) \<mapsto> (ph, m))"
    "map_of (k_map (open_handle ph t k s)) k' = Some m' \<Longrightarrow> map_of (k_map s) k' = Some m' \<or> k' = k"
    using f(2,5) by (auto simp: o)
  have "tables_ok (open_handle ph t k s)"
    using f(1,4) new by (auto simp: o tables_ok_def map_of_eq_None_iff)
  moreover have "arcs_ok (open_handle ph t k s)"
    using ok f(3,6) by (auto simp: o arcs_ok_def core_ok_def)
  moreover have "held_once (open_handle ph t k s)"
    using ok ph by (auto simp: o held_once_def core_ok_def)
  ultimately show "core_ok (open_handle ph t k s)" by (simp add: core_ok_def)
qed

lemma set_phase_facts:
  assumes ok: "core_ok s" and h: "map_of (k_futs s) (t, k) = Some (ph0, m)"
    and ph: "ph \<noteq> Leaving \<longrightarrow> ph0 \<noteq> Leaving" "ph = Held \<longrightarrow> free m s"
  shows "core_ok (set_phase (t, k) ph s)" "k_calls (set_phase (t, k) ph s) = k_calls s"
    "k_map (set_phase (t, k) ph s) = k_map s"
    "map_of (k_futs (set_phase (t, k) ph s)) = (map_of (k_futs s))((t, k) \<mapsto> (ph, m))"
proof -
  have d: "distinct (map fst (k_futs s))" using ok by (simp add: core_ok_def tables_ok_def)
  show f: "k_calls (set_phase (t, k) ph s) = k_calls s" "k_map (set_phase (t, k) ph s) = k_map s"
    "map_of (k_futs (set_phase (t, k) ph s)) = (map_of (k_futs s))((t, k) \<mapsto> (ph, m))"
    by (simp_all add: set_phase_def h AList.update_conv')
  have "tables_ok (set_phase (t, k) ph s)"
    using ok by (auto simp: core_ok_def tables_ok_def set_phase_def h AList.distinct_update)
  moreover have "arcs_ok (set_phase (t, k) ph s)"
    using ok h ph(1) unfolding core_ok_def arcs_ok_def f by (auto split: if_split_asm)
  moreover have "held_once (set_phase (t, k) ph s)"
    using ok h ph(2) unfolding core_ok_def held_once_def f free_iff [OF d] by (auto split: if_split_asm)
  ultimately show "core_ok (set_phase (t, k) ph s)" by (simp add: core_ok_def)
qed

lemma close_handle_facts:
  assumes ok: "core_ok s"
  shows "core_ok (close_handle h s)" "k_calls (close_handle h s) = k_calls s" "k_map (close_handle h s) = k_map s"
    "map_of (k_futs (close_handle h s)) = (map_of (k_futs s))(h := None)"
proof -
  show f: "k_calls (close_handle h s) = k_calls s" "k_map (close_handle h s) = k_map s"
    "map_of (k_futs (close_handle h s)) = (map_of (k_futs s))(h := None)"
    by (simp_all add: close_handle_def AList.delete_conv')
  have "tables_ok (close_handle h s)"
    using ok by (auto simp: core_ok_def tables_ok_def close_handle_def AList.distinct_delete)
  moreover have "arcs_ok (close_handle h s)"
    using ok unfolding core_ok_def arcs_ok_def f by (auto split: if_split_asm)
  moreover have "held_once (close_handle h s)"
    using ok unfolding core_ok_def held_once_def f by (auto split: if_split_asm)
  ultimately show "core_ok (close_handle h s)" by (simp add: core_ok_def)
qed

lemma forget_entry_facts:
  assumes ok: "core_ok s"
  shows "core_ok (forget_entry k s)" "k_calls (forget_entry k s) = k_calls s" "k_futs (forget_entry k s) = k_futs s"
    "map_of (k_map (forget_entry k s)) k' = Some m' \<Longrightarrow> map_of (k_map s) k' = Some m'"
    "map_of (k_map (forget_entry k s)) k = Some m \<Longrightarrow> \<exists>t k' ph. map_of (k_futs s) (t, k') = Some (ph, m) \<and> ph \<noteq> Leaving"
proof -
  have d: "distinct (map fst (k_map s))" "distinct (map snd (k_map s))" "distinct (map fst (k_futs s))"
    using ok by (simp_all add: core_ok_def tables_ok_def)
  show f: "k_calls (forget_entry k s) = k_calls s" "k_futs (forget_entry k s) = k_futs s"
    by (simp_all add: forget_entry_def split: option.split)
  show "map_of (k_map (forget_entry k s)) k' = Some m' \<Longrightarrow> map_of (k_map s) k' = Some m'" for k' m'
    by (auto simp: forget_entry_def AList.delete_conv' split: option.splits if_split_asm)
  show "map_of (k_map (forget_entry k s)) k = Some m \<Longrightarrow> \<exists>t k' ph. map_of (k_futs s) (t, k') = Some (ph, m) \<and> ph \<noteq> Leaving"
    using strong_count_one [OF d(2), where k = k and m = m]
    by (auto simp: forget_entry_def AList.delete_conv' map_of_eq_Some_iff [OF d(3)] split: option.splits if_split_asm)
  have "map_of (k_map (forget_entry k s)) k' = Some m'"
    if "map_of (k_futs s) (t, k') = Some (ph, m')" "ph \<noteq> Leaving" for t k' ph m'
  proof -
    have at: "map_of (k_map s) k' = Some m'" using ok that by (auto simp: core_ok_def arcs_ok_def)
    with strong_count_arc [OF at that] show ?thesis
      by (auto simp: forget_entry_def AList.delete_conv' split: option.split)
  qed
  moreover have "tables_ok (forget_entry k s)"
    using ok by (auto simp: core_ok_def tables_ok_def forget_entry_def AList.delete_eq distinct_map_filter
        split: option.split)
  ultimately show "core_ok (forget_entry k s)"
    using ok unfolding core_ok_def arcs_ok_def held_once_def f by blast
qed

subsection \<open>Calls\<close>

text \<open>A call holds keys that are smaller than all it still has to take, and waits for at most
  one.\<close>

definition lock_calls_ok :: "locks \<Rightarrow> bool" where
  "lock_calls_ok s \<longleftrightarrow> distinct (map fst (k_calls s)) \<and>
     (\<forall>t ks. map_of (k_calls s) t = Some (Next ks) \<longrightarrow> sorted_wrt (<) ks \<and>
        (\<forall>k ph m. map_of (k_futs s) (t, k) = Some (ph, m) \<longrightarrow> ph = Held \<and> (\<forall>x \<in> set ks. k < x))) \<and>
     (\<forall>t k ks. map_of (k_calls s) t = Some (Await k ks) \<longrightarrow> sorted_wrt (<) (k # ks) \<and>
        (\<exists>m. map_of (k_futs s) (t, k) = Some (Waiting, m)) \<and>
        (\<forall>k' ph m. map_of (k_futs s) (t, k') = Some (ph, m) \<longrightarrow> k' \<noteq> k \<longrightarrow> ph = Held \<and> k' < k))"

lemma lock_calls_okI:
  assumes "distinct (map fst (k_calls s))"
    "\<And>t ks. map_of (k_calls s) t = Some (Next ks) \<Longrightarrow> sorted_wrt (<) ks"
    "\<And>t ks k ph m x. map_of (k_calls s) t = Some (Next ks) \<Longrightarrow> map_of (k_futs s) (t, k) = Some (ph, m) \<Longrightarrow>
       ph = Held \<and> (\<forall>x \<in> set ks. k < x)"
    "\<And>t k ks. map_of (k_calls s) t = Some (Await k ks) \<Longrightarrow> sorted_wrt (<) (k # ks)"
    "\<And>t k ks. map_of (k_calls s) t = Some (Await k ks) \<Longrightarrow> \<exists>m. map_of (k_futs s) (t, k) = Some (Waiting, m)"
    "\<And>t k ks k' ph m. map_of (k_calls s) t = Some (Await k ks) \<Longrightarrow> map_of (k_futs s) (t, k') = Some (ph, m) \<Longrightarrow>
       k' \<noteq> k \<Longrightarrow> ph = Held \<and> k' < k"
  shows "lock_calls_ok s"
  unfolding lock_calls_ok_def using assms by blast

lemma lock_calls_okD:
  assumes "lock_calls_ok s"
  shows "distinct (map fst (k_calls s))"
    "map_of (k_calls s) t = Some (Next ks) \<Longrightarrow> sorted_wrt (<) ks"
    "map_of (k_calls s) t = Some (Next ks) \<Longrightarrow> map_of (k_futs s) (t, k) = Some (ph, m) \<Longrightarrow>
       ph = Held \<and> (\<forall>x \<in> set ks. k < x)"
    "map_of (k_calls s) t = Some (Await k ks) \<Longrightarrow> sorted_wrt (<) (k # ks)"
    "map_of (k_calls s) t = Some (Await k ks) \<Longrightarrow> \<exists>m. map_of (k_futs s) (t, k) = Some (Waiting, m)"
    "map_of (k_calls s) t = Some (Await k ks) \<Longrightarrow> map_of (k_futs s) (t, k') = Some (ph, m) \<Longrightarrow>
       k' \<noteq> k \<Longrightarrow> ph = Held \<and> k' < k"
  using assms unfolding lock_calls_ok_def by blast+

text \<open>The calls survive a change of handles of tasks without a call.\<close>

lemma lock_calls_ok_other:
  assumes ok: "lock_calls_ok s" and c: "k_calls s' = k_calls s"
    and f: "map_of (k_futs s') = (map_of (k_futs s))((t, k) := v)" and t: "map_of (k_calls s) t = None"
  shows "lock_calls_ok s'"
proof (rule lock_calls_okI)
  show "distinct (map fst (k_calls s'))" using lock_calls_okD(1) [OF ok] c by simp
qed (use lock_calls_okD(2-) [OF ok] t in \<open>auto simp: f c split: if_split_asm\<close>)

lemma strict_remdups_adj: "sorted xs \<Longrightarrow> sorted_wrt (<) (remdups_adj xs)"
  by (induction xs rule: remdups_adj.induct) (auto simp: less_le)

lemma lock_order_sorted: "sorted_wrt (<) (lock_order canon paths)"
  by (simp add: lock_order_def strict_remdups_adj)

definition locks_ok :: "locks \<Rightarrow> bool" where
  "locks_ok s \<longleftrightarrow> core_ok s \<and> lock_calls_ok s"

lemma locks_ok_start: "locks_ok no_locks"
  by (simp add: locks_ok_def core_ok_def tables_ok_def arcs_ok_def held_once_def lock_calls_ok_def no_locks_def)

lemma core_ok_calls [simp]: "core_ok (s\<lparr>k_calls := cs\<rparr>) \<longleftrightarrow> core_ok s"
  by (simp add: core_ok_def tables_ok_def arcs_ok_def held_once_def)

lemma lock_calls_ok_ask:
  assumes ok: "lock_calls_ok s" and c: "map_of (k_calls s) t = Some (Next (k # ks))"
    and f: "map_of (k_futs s') = (map_of (k_futs s))((t, k) \<mapsto> (Waiting, m))"
  shows "lock_calls_ok (s'\<lparr>k_calls := AList.update t (Await k ks) (k_calls s)\<rparr>)"
proof (rule lock_calls_okI)
  note d = lock_calls_okD [OF ok]
  show "distinct (map fst (k_calls (s'\<lparr>k_calls := AList.update t (Await k ks) (k_calls s)\<rparr>)))"
    using d(1) by (simp add: AList.distinct_update)
qed (use lock_calls_okD(2,3) [OF ok c] lock_calls_okD(2-) [OF ok] in \<open>auto simp: f AList.update_conv' split: if_split_asm\<close>)

lemma lock_calls_ok_acquire:
  assumes ok: "lock_calls_ok s" and c: "map_of (k_calls s) t = Some (Await k ks)"
    and f: "map_of (k_futs s') = (map_of (k_futs s))((t, k) \<mapsto> (Held, m))"
  shows "lock_calls_ok (s'\<lparr>k_calls := AList.update t (Next ks) (k_calls s)\<rparr>)"
proof -
  note d = lock_calls_okD [OF ok]
  have smaller: "k' < x" if "map_of (k_futs s) (t, k') = Some (ph, m)" "k' \<noteq> k" "x \<in> set ks" for k' ph m x
    using d(6) [OF c that(1,2)] d(4) [OF c] that(3) by (auto intro: less_trans)
  show ?thesis
  proof (rule lock_calls_okI)
    show "distinct (map fst (k_calls (s'\<lparr>k_calls := AList.update t (Next ks) (k_calls s)\<rparr>)))"
      using d(1) by (simp add: AList.distinct_update)
  qed (use smaller lock_calls_okD(4,6) [OF ok c] lock_calls_okD(2-) [OF ok] in
      \<open>auto simp: f AList.update_conv' split: if_split_asm\<close>)
qed

lemma lock_calls_ok_delete:
  assumes "lock_calls_ok s"
  shows "lock_calls_ok (s\<lparr>k_calls := AList.delete t (k_calls s)\<rparr>)"
  using assms by (auto simp: lock_calls_ok_def AList.delete_conv' AList.distinct_delete)

lemma lock_progress_ok: "lock_progress s s' \<Longrightarrow> locks_ok s \<Longrightarrow> locks_ok s'"
proof (induction rule: lock_progress.induct)
  case (ask s t k ks)
  then have ok: "core_ok s" "lock_calls_ok s" by (simp_all add: locks_ok_def)
  have new: "map_of (k_futs s) (t, k) = None"
    using lock_calls_okD(3) [OF ok(2) ask(1), of k] by (cases "map_of (k_futs s) (t, k)") auto
  note f = open_handle_facts [OF ok(1) new, of Waiting]
  from f(3) obtain m where "map_of (k_futs (open_handle Waiting t k s)) = (map_of (k_futs s))((t, k) \<mapsto> (Waiting, m))"
    by blast
  from lock_calls_ok_ask [OF ok(2) ask(1) this] f(1) show ?case by (simp add: locks_ok_def)
next
  case (acquire s t k ks m)
  then have ok: "core_ok s" "lock_calls_ok s" by (simp_all add: locks_ok_def)
  note f = set_phase_facts [OF ok(1) acquire(2), of Held]
  show ?case using f(1) lock_calls_ok_acquire [OF ok(2) acquire(1) f(4)] acquire(3) by (simp add: locks_ok_def)
next
  case (finish s t)
  then show ?case by (simp add: locks_ok_def lock_calls_ok_delete)
next
  case (tried s t k m)
  then have ok: "core_ok s" "lock_calls_ok s" by (simp_all add: locks_ok_def)
  have "map_of (k_calls s) t = None"
  proof (cases "map_of (k_calls s) t")
    case (Some c)
    then show ?thesis using tried(1) lock_calls_okD(3,5,6) [OF ok(2)] by (cases c) fastforce+
  qed simp
  with set_phase_facts [OF ok(1) tried(1), of "if free m s then Held else Leaving"] ok(2)
  show ?case by (auto simp: locks_ok_def intro: lock_calls_ok_other split: if_split_asm)
next
  case (cancel s t k m)
  then have ok: "core_ok s" "lock_calls_ok s" by (simp_all add: locks_ok_def)
  note f = close_handle_facts [OF ok(1), of "(t, k)"]
  show ?case using f(1) lock_calls_ok_other [OF ok(2) f(2,4) cancel(1)] by (simp add: locks_ok_def)
next
  case (release s t k m)
  then have ok: "core_ok s" "lock_calls_ok s" by (simp_all add: locks_ok_def)
  note f = set_phase_facts [OF ok(1) release(2), of Leaving]
  show ?case using f(1) lock_calls_ok_other [OF ok(2) f(2,4) release(1)] by (simp add: locks_ok_def)
next
  case (forget s t k m)
  then have ok: "core_ok s" "lock_calls_ok s" by (simp_all add: locks_ok_def)
  note f = close_handle_facts [OF ok(1), of "(t, k)"]
  note g = forget_entry_facts [OF f(1), of k]
  have "map_of (k_calls s) t = None"
  proof (cases "map_of (k_calls s) t")
    case (Some c)
    then show ?thesis using forget(1) lock_calls_okD(3,5,6) [OF ok(2)] by (cases c) fastforce+
  qed simp
  from lock_calls_ok_other [OF ok(2) _ _ this, of "forget_entry k (close_handle (t, k) s)" k None] f g(1-3)
  show ?case by (simp add: locks_ok_def)
qed

lemma lock_step_ok: "lock_step s s' \<Longrightarrow> locks_ok s \<Longrightarrow> locks_ok s'"
  unfolding lock_step_def
proof (elim disjE)
  assume "lock_arrive s s'" "locks_ok s"
  then show "locks_ok s'"
  proof (induction rule: lock_arrive.induct)
    case (call s t canon paths)
    then have ok: "core_ok s" "lock_calls_ok s" by (simp_all add: locks_ok_def)
    have "lock_calls_ok (s\<lparr>k_calls := (t, Next (lock_order canon paths)) # k_calls s\<rparr>)"
    proof (rule lock_calls_okI)
      show "distinct (map fst (k_calls (s\<lparr>k_calls := (t, Next (lock_order canon paths)) # k_calls s\<rparr>)))"
        using lock_calls_okD(1) [OF ok(2)] call(1) by (simp add: map_of_eq_None_iff)
    qed (use call(2) lock_calls_okD(2-) [OF ok(2)] in \<open>auto simp: lock_order_sorted split: if_split_asm\<close>)
    with ok(1) show ?case by (simp add: locks_ok_def)
  next
    case (try_lock s t key)
    then have ok: "core_ok s" "lock_calls_ok s" by (simp_all add: locks_ok_def)
    have new: "map_of (k_futs s) (t, key) = None" using try_lock(2) by blast
    note f = open_handle_facts [OF ok(1) new, of Trying]
    from f(3) obtain m where "map_of (k_futs (open_handle Trying t key s)) = (map_of (k_futs s))((t, key) \<mapsto> (Trying, m))"
      by blast
    from lock_calls_ok_other [OF ok(2) _ this try_lock(1)] f(1,2) show ?case by (simp add: locks_ok_def)
  qed
next
  assume "lock_abandon s s'" "locks_ok s"
  then show "locks_ok s'"
    by (induction rule: lock_abandon.induct) (simp add: locks_ok_def lock_calls_ok_delete)
qed (rule lock_progress_ok)

interpretation session_locks: state_machine no_locks lock_step locks_ok
  by unfold_locales (auto intro: locks_ok_start lock_step_ok)

definition guards_on :: "comps \<Rightarrow> locks \<Rightarrow> ((task \<times> comps) \<times> lock_phase \<times> mutex) list" where
  "guards_on key s = filter (\<lambda>f. snd (fst f) = key \<and> fst (snd f) = Held) (k_futs s)"

lemma sole_member: "distinct xs \<Longrightarrow> x \<in> set xs \<Longrightarrow> (\<And>y. y \<in> set xs \<Longrightarrow> y = x) \<Longrightarrow> xs = [x]"
proof (cases xs)
  case (Cons y ys)
  assume "distinct xs" and same: "\<And>y. y \<in> set xs \<Longrightarrow> y = x"
  then have "y = x" "z \<notin> set ys" for z using Cons same [of z] same [of y] by auto
  then show ?thesis using Cons by (cases ys) auto
qed simp

text \<open>C9: One writer per path.  However calls, tries and cancellations interleave, a guard that
  holds a path is the only one: entries come and go, and are pruned at the cap, but never while
  a guard or a waiter still keeps their mutex, so nobody is handed a second mutex for a path
  that is held.\<close>

theorem one_writer_per_path:
  assumes "lock_step\<^sup>*\<^sup>* no_locks s" and held: "map_of (k_futs s) (t, key) = Some (Held, m)"
  shows "guards_on key s = [((t, key), Held, m)]"
proof (rule sole_member)
  have ok: "tables_ok s" "arcs_ok s" "held_once s"
    using session_locks.reachable_inv [OF assms(1)] by (simp_all add: locks_ok_def core_ok_def)
  then have d: "distinct (map fst (k_futs s))" by (simp add: tables_ok_def)
  show "distinct (guards_on key s)" unfolding guards_on_def using d by (simp add: distinct_map)
  show "((t, key), Held, m) \<in> set (guards_on key s)" using held by (auto simp: guards_on_def dest: map_of_SomeD)
  fix f
  assume "f \<in> set (guards_on key s)"
  then have "f \<in> set (k_futs s)" "snd (fst f) = key" "fst (snd f) = Held" by (auto simp: guards_on_def)
  then obtain t' m' where f: "f = ((t', key), Held, m')" "map_of (k_futs s) (t', key) = Some (Held, m')"
    using d by (metis map_of_eq_Some_iff prod.collapse)
  have "map_of (k_map s) key = Some m" "map_of (k_map s) key = Some m'"
    using ok(2) f(2) held unfolding arcs_ok_def by blast+
  then have "m' = m" by simp
  then show "f = ((t, key), Held, m)" using ok(3) f held unfolding held_once_def by blast
qed

subsection \<open>Every call comes to an end\<close>

fun fut_load :: "(task \<times> comps) \<times> lock_phase \<times> mutex \<Rightarrow> nat" where
  "fut_load (_, ph, _) = (case ph of Waiting \<Rightarrow> 3 | Trying \<Rightarrow> 3 | Held \<Rightarrow> 2 | Leaving \<Rightarrow> 1)"

fun call_load :: "task \<times> lock_call \<Rightarrow> nat" where
  "call_load (_, Next ks) = 1 + 6 * length ks"
| "call_load (_, Await k ks) = 3 + 6 * length ks"

definition load :: "locks \<Rightarrow> nat" where
  "load s = sum_list (map fut_load (k_futs s)) + sum_list (map call_load (k_calls s))"

definition quiet :: "locks \<Rightarrow> bool" where
  "quiet s \<longleftrightarrow> k_futs s = [] \<and> k_calls s = []"

lemma sum_update:
  "distinct (map fst xs) \<Longrightarrow> map_of xs k = Some v \<Longrightarrow>
     sum_list (map w (AList.update k v' xs)) + w (k, v) = sum_list (map w xs) + (w (k, v') :: nat)"
proof (induction xs)
  case (Cons x xs)
  then show ?case by (cases x) (auto simp: algebra_simps split: if_split_asm)
qed simp

lemma delete_absent: "k \<notin> fst ` set xs \<Longrightarrow> AList.delete k xs = xs"
  by (induction xs) (auto simp: AList.delete_eq)

lemma sum_delete:
  "distinct (map fst xs) \<Longrightarrow> map_of xs k = Some v \<Longrightarrow>
     sum_list (map w (AList.delete k xs)) + (w (k, v) :: nat) = sum_list (map w xs)"
proof (induction xs)
  case (Cons x xs)
  then show ?case by (cases x) (auto simp: delete_absent split: if_split_asm)
qed simp

lemma open_handle_load:
  assumes "tables_ok s"
  shows "sum_list (map fut_load (k_futs (open_handle ph t k s))) = fut_load ((t, k), ph, m) + sum_list (map fut_load (k_futs s))"
proof -
  obtain m s1 where e: "lock_entry k s = (m, s1)" by fastforce
  show ?thesis using lock_entry_facts(1) [OF assms e] by (simp add: open_handle_def e)
qed

lemma set_phase_load:
  assumes "tables_ok s" and "map_of (k_futs s) h = Some (ph0, m)"
  shows "sum_list (map fut_load (k_futs (set_phase h ph s))) + fut_load (h, ph0, m) =
    sum_list (map fut_load (k_futs s)) + fut_load (h, ph, m)"
  using sum_update [of "k_futs s" h "(ph0, m)" fut_load "(ph, m)"] assms
  by (simp add: tables_ok_def set_phase_def)

lemma close_handle_load:
  assumes "tables_ok s" and "map_of (k_futs s) h = Some (ph0, m)"
  shows "sum_list (map fut_load (k_futs (close_handle h s))) + fut_load (h, ph0, m) = sum_list (map fut_load (k_futs s))"
  using sum_delete [of "k_futs s" h "(ph0, m)" fut_load] assms by (simp add: tables_ok_def close_handle_def)

lemma progress_load: "lock_progress s s' \<Longrightarrow> locks_ok s \<Longrightarrow> load s' < load s"
proof (induction rule: lock_progress.induct)
  case (ask s t k ks)
  then have ok: "tables_ok s" "distinct (map fst (k_calls s))" by (auto simp: locks_ok_def core_ok_def lock_calls_ok_def)
  from sum_update [OF ok(2) ask(1), of call_load "Await k ks"] open_handle_load [OF ok(1), of Waiting t k 0]
  show ?case by (simp add: load_def)
next
  case (acquire s t k ks m)
  then have ok: "tables_ok s" "distinct (map fst (k_calls s))" by (auto simp: locks_ok_def core_ok_def lock_calls_ok_def)
  from sum_update [OF ok(2) acquire(1), of call_load "Next ks"] set_phase_load [OF ok(1) acquire(2), of Held]
  show ?case by (simp add: load_def)
next
  case (finish s t)
  then have "distinct (map fst (k_calls s))" by (auto simp: locks_ok_def lock_calls_ok_def)
  from sum_delete [OF this finish(1), of call_load] show ?case by (simp add: load_def)
next
  case (tried s t k m)
  then have "tables_ok s" by (auto simp: locks_ok_def core_ok_def)
  from set_phase_load [OF this tried(1), of "if free m s then Held else Leaving"]
  show ?case using tried(1) by (simp add: load_def set_phase_def split: if_split_asm)
next
  case (cancel s t k m)
  then have "tables_ok s" by (auto simp: locks_ok_def core_ok_def)
  from close_handle_load [OF this cancel(2)] show ?case by (simp add: load_def close_handle_def)
next
  case (release s t k m)
  then have "tables_ok s" by (auto simp: locks_ok_def core_ok_def)
  from set_phase_load [OF this release(2), of Leaving] show ?case using release(2) by (simp add: load_def set_phase_def)
next
  case (forget s t k m)
  then have ok: "core_ok s" "tables_ok s" by (auto simp: locks_ok_def core_ok_def)
  from close_handle_load [OF ok(2) forget(1)]
    forget_entry_facts(2,3) [OF close_handle_facts(1) [OF ok(1), of "(t, k)"], of k]
  show ?case by (simp add: load_def close_handle_def)
qed

text \<open>When nothing can go on, every call waits for a mutex somebody holds; the one that waits for
  the greatest key waits for a task that waits for a greater one.\<close>

lemma no_deadlock:
  assumes ok: "locks_ok s" and stuck: "\<And>s'. \<not> lock_progress s s'"
  shows "quiet s"
proof -
  have c: "core_ok s" "lock_calls_ok s" "tables_ok s" "arcs_ok s" using ok by (simp_all add: locks_ok_def core_ok_def)
  have waits: "\<exists>k ks m. map_of (k_calls s) t = Some (Await k ks) \<and> map_of (k_futs s) (t, k) = Some (Waiting, m) \<and> \<not> free m s"
    if "map_of (k_calls s) t = Some call" for t call
  proof (cases call)
    case (Next ks)
    then show ?thesis using that stuck lock_progress.ask lock_progress.finish by (cases ks) blast+
  next
    case (Await k ks)
    then show ?thesis
      using that stuck lock_progress.acquire lock_calls_okD(5) [OF c(2), of t k ks] by blast
  qed
  have called: "map_of (k_calls s) t \<noteq> None" if "map_of (k_futs s) (t, k) = Some (ph, m)" for t k ph m
    using that stuck lock_progress.tried lock_progress.cancel lock_progress.release lock_progress.forget
    by (cases ph) blast+
  define awaited where "awaited = {k. \<exists>t ks. (t, Await k ks) \<in> set (k_calls s)}"
  have fin: "finite awaited"
    by (rule finite_subset [of _ "(\<lambda>(t, c). case c of Await k ks \<Rightarrow> k | Next ks \<Rightarrow> []) ` set (k_calls s)"])
       (force simp: awaited_def)+
  have "k_calls s = []"
  proof (rule ccontr)
    assume "k_calls s \<noteq> []"
    then obtain t0 where "map_of (k_calls s) t0 \<noteq> None"
      by (metis list.set_intros(1) map_of_eq_None_iff image_eqI neq_Nil_conv)
    with waits have "awaited \<noteq> {}" unfolding awaited_def by (blast dest: map_of_SomeD)
    with fin have top: "Max awaited \<in> awaited" by (rule Max_in)
    then obtain t ks where t: "map_of (k_calls s) t = Some (Await (Max awaited) ks)"
      using lock_calls_okD(1) [OF c(2)] by (auto simp: awaited_def map_of_eq_Some_iff)
    then obtain m where m: "map_of (k_futs s) (t, Max awaited) = Some (Waiting, m)" "\<not> free m s"
      using waits [OF t] by auto
    then obtain t' k' where h: "map_of (k_futs s) (t', k') = Some (Held, m)"
      using c(3) by (auto simp: free_iff tables_ok_def)
    have "map_of (k_map s) k' = Some m" "map_of (k_map s) (Max awaited) = Some m"
      using h m(1) c(4) unfolding arcs_ok_def by (metis lock_phase.distinct)+
    then have "k' = Max awaited" using c(3) by (auto simp: tables_ok_def intro: entry_at [of "k_map s"])
    moreover from called [OF h] waits obtain k2 ks2 m2 where w: "map_of (k_calls s) t' = Some (Await k2 ks2)"
      "map_of (k_futs s) (t', k2) = Some (Waiting, m2)" by blast
    moreover have "k' \<noteq> k2" using h w(2) by auto
    ultimately have "Max awaited < k2" using lock_calls_okD(6) [OF c(2) w(1) h] by simp
    moreover have "k2 \<in> awaited" using w(1) by (auto simp: awaited_def dest: map_of_SomeD)
    ultimately show False using Max_ge [OF fin, of k2] by simp
  qed
  moreover from this have "k_futs s = []"
  proof (cases "k_futs s")
    case (Cons f fs)
    obtain t k ph m where "f = ((t, k), ph, m)" by (metis prod.exhaust)
    then show ?thesis using called [of t k ph m] \<open>k_calls s = []\<close> Cons by simp
  qed
  ultimately show ?thesis by (simp add: quiet_def)
qed

text \<open>C10: Writers of several files neither deadlock nor run for ever.  From every state that can
  be reached, each step that is not a new arrival uses up some of a bound that the state
  fixes, and such a step exists until every call has returned and every guard is dropped:
  the locks of a call are taken in the order of the sorted keys.\<close>

theorem locks_come_free:
  assumes "lock_step\<^sup>*\<^sup>* no_locks s"
  shows "(\<forall>s'. lock_progress s s' \<longrightarrow> load s' < load s) \<and> (quiet s \<or> (\<exists>s'. lock_progress s s'))"
  using session_locks.reachable_inv [OF assms] progress_load no_deadlock by blast

subsection \<open>Entries are forgotten\<close>

text \<open>Without abandoned calls every entry belongs to a handle of its path.\<close>

definition entries_used :: "locks \<Rightarrow> bool" where
  "entries_used s \<longleftrightarrow>
     (\<forall>k m. map_of (k_map s) k = Some m \<longrightarrow> (\<exists>t. map_of (k_futs s) (t, k) \<noteq> None)) \<and>
     (\<forall>t k m. map_of (k_futs s) (t, k) = Some (Waiting, m) \<longrightarrow> (\<exists>ks. map_of (k_calls s) t = Some (Await k ks)))"

definition calm_step :: "locks \<Rightarrow> locks \<Rightarrow> bool" where
  "calm_step s s' \<longleftrightarrow> lock_progress s s' \<or> lock_arrive s s'"

lemma entries_used_open:
  assumes "entries_used s" "core_ok s" "map_of (k_futs s) (t, k) = None" "ph \<in> {Waiting, Trying}"
  shows "\<forall>k' m. map_of (k_map (open_handle ph t k s)) k' = Some m \<longrightarrow>
    (\<exists>t'. map_of (k_futs (open_handle ph t k s)) (t', k') \<noteq> None)"
proof -
  note f = open_handle_facts [OF assms(2,3,4)]
  obtain m where m: "map_of (k_futs (open_handle ph t k s)) = (map_of (k_futs s))((t, k) \<mapsto> (ph, m))"
    using f(3) by blast
  show ?thesis
  proof (intro allI impI)
    fix k' m'
    assume "map_of (k_map (open_handle ph t k s)) k' = Some m'"
    then have "k' = k \<or> (\<exists>t'. map_of (k_futs s) (t', k') \<noteq> None)"
      using f(4) [of k' m'] assms(1) unfolding entries_used_def by blast
    then show "\<exists>t'. map_of (k_futs (open_handle ph t k s)) (t', k') \<noteq> None" unfolding m by (auto simp del: map_upd_Some_unfold)
  qed
qed

lemma entries_used_step: "calm_step s s' \<Longrightarrow> locks_ok s \<Longrightarrow> entries_used s \<Longrightarrow> entries_used s'"
  unfolding calm_step_def
proof (elim disjE)
  assume "lock_progress s s'" "locks_ok s" "entries_used s"
  then show "entries_used s'"
  proof (induction rule: lock_progress.induct)
    case (ask s t k ks)
    then have ok: "core_ok s" "lock_calls_ok s" by (simp_all add: locks_ok_def)
    have new: "map_of (k_futs s) (t, k) = None"
      using lock_calls_okD(3) [OF ok(2) ask(1), of k] by (cases "map_of (k_futs s) (t, k)") auto
    from open_handle_facts(3) [OF ok(1) new, of Waiting] obtain m where
      "map_of (k_futs (open_handle Waiting t k s)) = (map_of (k_futs s))((t, k) \<mapsto> (Waiting, m))" by blast
    then show ?case using entries_used_open [OF ask(3) ok(1) new, of Waiting] ask(1,3)
      by (simp add: entries_used_def AList.update_conv') (metis lock_call.distinct(1) option.inject)
  next
    case (acquire s t k ks m)
    then have ok: "core_ok s" "lock_calls_ok s" by (simp_all add: locks_ok_def)
    note f = set_phase_facts [OF ok(1) acquire(2), of Held]
    have "k' = k" if "map_of (k_futs s) (t, k') = Some (Waiting, m')" for k' m'
      using lock_calls_okD(6) [OF ok(2) acquire(1) that] by auto
    then show ?case using acquire(1,3,5) f(3,4) by (auto simp: entries_used_def AList.update_conv') metis+
  next
    case (finish s t)
    then show ?case by (auto simp: entries_used_def AList.delete_conv') (metis lock_call.distinct(1) option.inject)+
  next
    case (tried s t k m)
    then have ok: "core_ok s" by (simp add: locks_ok_def)
    note f = set_phase_facts [OF ok tried(1), of "if free m s then Held else Leaving"]
    show ?case using tried(3) f(2,3,4) by (auto simp: entries_used_def split: if_split_asm) metis+
  next
    case (cancel s t k m)
    then have False unfolding entries_used_def by (metis option.distinct(1))
    then show ?case ..
  next
    case (release s t k m)
    then have ok: "core_ok s" by (simp add: locks_ok_def)
    note f = set_phase_facts [OF ok release(2), of Leaving]
    show ?case using release(4) f(2,3,4) by (auto simp: entries_used_def) metis+
  next
    case (forget s t k m)
    then have ok: "core_ok s" "arcs_ok s" by (simp_all add: locks_ok_def core_ok_def)
    note f = close_handle_facts [OF ok(1), of "(t, k)"]
    note g = forget_entry_facts [OF f(1), of k]
    let ?s = "forget_entry k (close_handle (t, k) s)"
    have "\<exists>t'. map_of (k_futs ?s) (t', k') \<noteq> None" if at: "map_of (k_map ?s) k' = Some m'" for k' m'
    proof -
      have old: "map_of (k_map s) k' = Some m'" using g(4) [OF at] f(3) by simp
      show ?thesis
      proof (cases "k' = k")
        case True
        from g(5) [of m'] at True obtain t1 k1 ph where
          new: "map_of (k_futs (close_handle (t, k) s)) (t1, k1) = Some (ph, m')" "ph \<noteq> Leaving" by blast
        then have "map_of (k_map s) k1 = Some m'"
          using f(1,3) unfolding core_ok_def arcs_ok_def by auto
        then have "k1 = k'" using old ok(1) by (auto simp: core_ok_def tables_ok_def intro: entry_at [of "k_map s"])
        then show ?thesis using new g(3) by auto
      next
        case False
        then show ?thesis using old forget(3) f(4) g(3) by (auto simp: entries_used_def)
      qed
    qed
    then show ?case using forget(3) f(2,4) g(2,3) by (auto simp: entries_used_def split: if_split_asm)
  qed
next
  assume "lock_arrive s s'" "locks_ok s" "entries_used s"
  then show "entries_used s'"
  proof (induction rule: lock_arrive.induct)
    case (call s t canon paths)
    then show ?case by (auto simp: entries_used_def)
  next
    case (try_lock s t key)
    then have ok: "core_ok s" by (simp add: locks_ok_def)
    have new: "map_of (k_futs s) (t, key) = None" using try_lock(2) by blast
    from open_handle_facts(2,3) [OF ok new, of Trying] obtain m where
      "map_of (k_futs (open_handle Trying t key s)) = (map_of (k_futs s))((t, key) \<mapsto> (Trying, m))" by blast
    then show ?case using entries_used_open [OF try_lock(4) ok new, of Trying] open_handle_facts(2) [OF ok new, of Trying] try_lock(4)
      by (simp add: entries_used_def)
  qed
qed

text \<open>The table does not grow with the paths that were written.  As long as no call was
  abandoned, an entry exists only while some handle of its path does, so that the table is
  empty whenever nothing is locked or awaited.\<close>

theorem entries_forgotten:
  assumes "calm_step\<^sup>*\<^sup>* no_locks s"
  shows "map_of (k_map s) k = None \<or> (\<exists>t ph m. map_of (k_futs s) (t, k) = Some (ph, m))"
proof -
  have "locks_ok s \<and> entries_used s" using assms
  proof (induction rule: rtranclp_induct)
    case base
    show ?case using locks_ok_start by (simp add: entries_used_def no_locks_def)
  next
    case (step s s')
    then show ?case using entries_used_step lock_step_ok by (auto simp: calm_step_def lock_step_def)
  qed
  then show ?thesis unfolding entries_used_def by (metis option.exhaust prod.exhaust)
qed

text \<open>An abandoned waiter can leave an entry behind; the next insert at the cap removes it.\<close>

lemma entry_bound:
  assumes "tables_ok s" "arcs_ok s" "lock_entry k s = (m, s')" "map_of (k_map s) k = None"
  shows "length (k_map s') \<le> max LOCK_MAP_CAP (Suc (length (k_futs s)))"
proof -
  let ?p = "prune_idle k s"
  have none: "map_of (k_map ?p) k = None"
    using prune_facts(5) [OF assms(1), of k k] assms(4) by (cases "map_of (k_map ?p) k") auto
  then have len: "length (k_map s') = Suc (length (k_map ?p))"
    using assms(3) by (auto simp: lock_entry_def Let_def)
  show ?thesis
  proof (cases "LOCK_MAP_CAP \<le> length (k_map s)")
    case True
    have "snd ` set (k_map ?p) \<subseteq> (\<lambda>f. snd (snd f)) ` set (k_futs s)"
    proof
      fix m'
      assume "m' \<in> snd ` set (k_map ?p)"
      then obtain k' where "(k', m') \<in> set (k_map s)" "1 < strong_count m' s"
        using True assms(4) by (auto simp: prune_idle_def)
      then have "map_of (k_map s) k' = Some m'" "strong_count m' s \<noteq> 1"
        using assms(1) by (auto simp: tables_ok_def map_of_eq_Some_iff)
      from strong_count_one [OF _ this] assms(1) show "m' \<in> (\<lambda>f. snd (snd f)) ` set (k_futs s)"
        by (force simp: tables_ok_def)
    qed
    then have "card (snd ` set (k_map ?p)) \<le> length (k_futs s)"
      by (meson card_length card_image_le card_mono finite_imageI finite_set le_trans)
    moreover have "card (snd ` set (k_map ?p)) = length (k_map ?p)"
      using prune_facts(4) [OF assms(1), of k] distinct_card [of "map snd (k_map ?p)"] by (simp add: tables_ok_def)
    ultimately show ?thesis using len by simp
  next
    case False
    then show ?thesis using len by (simp add: prune_idle_def)
  qed
qed

subsection \<open>A run\<close>

text \<open>Two tasks lock one file: the first holds it, the second waits.\<close>

abbreviation the_file :: comps where
  "the_file \<equiv> [RootDir, Normal ''f'']"

definition two_writers :: locks where
  "two_writers =
     \<lparr>k_map = [(the_file, 0)], k_next = 1,
      k_futs = [((8, the_file), Waiting, 0), ((7, the_file), Held, 0)],
      k_calls = [(8, Await the_file []), (7, Next [])]\<rparr>"

lemma two_writers_run: "calm_step\<^sup>*\<^sup>* no_locks two_writers"
proof -
  let ?k = the_file
  have order: "lock_order Some [?k] = [?k]"
    by (simp add: lock_order_def canonical_key_def key_loop.simps)
  note ops = lock_entry_def prune_idle_def open_handle_def set_phase_def no_locks_def LOCK_MAP_CAP_def free_def
  define s1 where "s1 = no_locks\<lparr>k_calls := [(7, Next [?k])]\<rparr>"
  define s2 where "s2 = no_locks\<lparr>k_calls := [(8, Next [?k]), (7, Next [?k])]\<rparr>"
  define s3 where "s3 = \<lparr>k_map = [(?k, 0)], k_next = 1, k_futs = [((7, ?k), Waiting, 0)],
      k_calls = [(8, Next [?k]), (7, Await ?k [])]\<rparr>"
  define s4 where "s4 = \<lparr>k_map = [(?k, 0)], k_next = 1, k_futs = [((7, ?k), Held, 0)],
      k_calls = [(8, Next [?k]), (7, Next [])]\<rparr>"
  have "calm_step no_locks s1"
    using lock_arrive.call [of no_locks 7 Some "[?k]"] by (simp add: calm_step_def s1_def order ops)
  moreover have "calm_step s1 s2"
    using lock_arrive.call [of s1 8 Some "[?k]"] by (simp add: calm_step_def s1_def s2_def order ops)
  moreover have "calm_step s2 s3"
    using lock_progress.ask [of s2 7 ?k "[]"] by (simp add: calm_step_def s2_def s3_def ops)
  moreover have "calm_step s3 s4"
    using lock_progress.acquire [of s3 7 ?k "[]" 0] by (simp add: calm_step_def s3_def s4_def ops)
  moreover have "calm_step s4 two_writers"
    using lock_progress.ask [of s4 8 ?k "[]"] by (simp add: calm_step_def s4_def two_writers_def ops)
  ultimately show ?thesis by (meson converse_rtranclp_into_rtranclp r_into_rtranclp)
qed

lemma two_writers_reachable: "lock_step\<^sup>*\<^sup>* no_locks two_writers"
  using two_writers_run by (rule mono_rtranclp [rule_format, rotated]) (auto simp: calm_step_def lock_step_def)

lemma one_writer_per_path_witness: "guards_on the_file two_writers = [((7, the_file), Held, 0)]"
  by (rule one_writer_per_path [OF two_writers_reachable]) (simp add: two_writers_def)

lemma locks_come_free_witness: "quiet two_writers \<or> (\<exists>s'. lock_progress two_writers s')"
  using locks_come_free [OF two_writers_reachable] by blast

lemma entries_forgotten_witness:
  "map_of (k_map two_writers) the_file = None \<or>
   (\<exists>t ph m. map_of (k_futs two_writers) (t, the_file) = Some (ph, m))"
  by (rule entries_forgotten [OF two_writers_run])

section \<open>Write locks of the process\<close>

text \<open>The tools take a second lock per path, shared by all sessions of the process.  The table
  keeps only weak references, with the number of their insertion; an entry whose mutex nobody
  keeps is removed by the next caller, and the oldest entries go when the table is too big.
  \<open>Entered\<close> is the caller between its insertion and the eviction.\<close>

definition MAX_TRACKED_WRITE_PATHS :: nat where
  "MAX_TRACKED_WRITE_PATHS = 4096"

datatype write_phase = Entered | Queued | Writing

record write_locks =
  w_map :: "(comps \<times> mutex \<times> nat) list"
  w_next :: mutex
  w_seq :: nat
  w_futs :: "((task \<times> comps) \<times> write_phase \<times> mutex) list"

definition no_write_locks :: write_locks where
  "no_write_locks = \<lparr>w_map = [], w_next = 0, w_seq = 0, w_futs = []\<rparr>"

definition kept_by_somebody :: "mutex \<Rightarrow> write_locks \<Rightarrow> bool" where
  "kept_by_somebody m s \<longleftrightarrow> list_ex (\<lambda>f. snd (snd f) = m) (w_futs s)"

definition write_enter :: "task \<Rightarrow> comps \<Rightarrow> write_locks \<Rightarrow> write_locks" where
  "write_enter t key s =
     (let table = filter (\<lambda>e. kept_by_somebody (fst (snd e)) s) (w_map s)
      in case map_of table key of
           Some (m, _) \<Rightarrow> s\<lparr>w_map := table, w_futs := ((t, key), Entered, m) # w_futs s\<rparr>
         | None \<Rightarrow>
             s\<lparr>w_map := table @ [(key, w_next s, w_seq s)], w_next := Suc (w_next s), w_seq := Suc (w_seq s),
               w_futs := ((t, key), Entered, w_next s) # w_futs s\<rparr>)"

definition oldest_seq :: "(comps \<times> mutex \<times> nat) list \<Rightarrow> nat" where
  "oldest_seq table = Min (set (map (\<lambda>e. snd (snd e)) table))"

function evict_oldest_write_path :: "(comps \<times> mutex \<times> nat) list \<Rightarrow> (comps \<times> mutex \<times> nat) list" where
  "evict_oldest_write_path table =
     (if length table \<le> MAX_TRACKED_WRITE_PATHS then table
      else case filter (\<lambda>e. snd (snd e) = oldest_seq table) table of
             [] \<Rightarrow> table
           | e # _ \<Rightarrow> evict_oldest_write_path (remove1 e table))"
  by pat_completeness auto
termination
proof (relation "measure length")
  fix table :: "(comps \<times> mutex \<times> nat) list" and e es
  assume "\<not> length table \<le> MAX_TRACKED_WRITE_PATHS" "filter (\<lambda>e. snd (snd e) = oldest_seq table) table = e # es"
  then have "e \<in> set table" by (metis filter_eq_ConsD in_set_conv_decomp)
  then show "(remove1 e table, table) \<in> measure length" by (auto simp: length_remove1 dest: length_pos_if_in_set)
qed simp

declare evict_oldest_write_path.simps [simp del]

definition write_phase_set :: "task \<times> comps \<Rightarrow> write_phase \<Rightarrow> write_locks \<Rightarrow> write_locks" where
  "write_phase_set h ph s =
     (case map_of (w_futs s) h of Some (_, m) \<Rightarrow> s\<lparr>w_futs := AList.update h (ph, m) (w_futs s)\<rparr> | None \<Rightarrow> s)"

definition write_free :: "mutex \<Rightarrow> write_locks \<Rightarrow> bool" where
  "write_free m s \<longleftrightarrow> \<not> list_ex (\<lambda>f. snd f = (Writing, m)) (w_futs s)"

inductive write_step :: "write_locks \<Rightarrow> write_locks \<Rightarrow> bool" where
  enter: "map_of (w_futs s) (t, key) = None \<Longrightarrow> write_step s (write_enter t key s)"
| evict: "map_of (w_futs s) (t, key) = Some (Entered, m) \<Longrightarrow>
    write_step s ((write_phase_set (t, key) Queued s)\<lparr>w_map := evict_oldest_write_path (w_map s)\<rparr>)"
| acquired: "map_of (w_futs s) (t, key) = Some (Queued, m) \<Longrightarrow> write_free m s \<Longrightarrow>
    write_step s (write_phase_set (t, key) Writing s)"
| dropped: "map_of (w_futs s) (t, key) = Some (ph, m) \<Longrightarrow> ph \<noteq> Entered \<Longrightarrow>
    write_step s (s\<lparr>w_futs := AList.delete (t, key) (w_futs s)\<rparr>)"

definition writers_of :: "comps \<Rightarrow> write_locks \<Rightarrow> task list" where
  "writers_of key s = map (\<lambda>f. fst (fst f)) (filter (\<lambda>f. snd (fst f) = key \<and> fst (snd f) = Writing) (w_futs s))"

definition roomy_step :: "write_locks \<Rightarrow> write_locks \<Rightarrow> bool" where
  "roomy_step s s' \<longleftrightarrow> write_step s s' \<and> length (w_map s') \<le> MAX_TRACKED_WRITE_PATHS"

definition write_tables_ok :: "write_locks \<Rightarrow> bool" where
  "write_tables_ok s \<longleftrightarrow> distinct (map fst (w_map s)) \<and> distinct (map (\<lambda>e. fst (snd e)) (w_map s)) \<and>
     distinct (map fst (w_futs s)) \<and> (\<forall>m \<in> (\<lambda>e. fst (snd e)) ` set (w_map s). m < w_next s)"

definition write_arcs_ok :: "write_locks \<Rightarrow> bool" where
  "write_arcs_ok s \<longleftrightarrow> (\<forall>t k ph m. map_of (w_futs s) (t, k) = Some (ph, m) \<longrightarrow> (\<exists>q. map_of (w_map s) k = Some (m, q)))"

definition written_once :: "write_locks \<Rightarrow> bool" where
  "written_once s \<longleftrightarrow>
     (\<forall>g h m. map_of (w_futs s) g = Some (Writing, m) \<longrightarrow> map_of (w_futs s) h = Some (Writing, m) \<longrightarrow> g = h)"

definition write_ok :: "write_locks \<Rightarrow> bool" where
  "write_ok s \<longleftrightarrow> write_tables_ok s \<and> write_arcs_ok s \<and> written_once s \<and> length (w_map s) \<le> MAX_TRACKED_WRITE_PATHS"

lemma write_free_iff:
  "distinct (map fst (w_futs s)) \<Longrightarrow> write_free m s \<longleftrightarrow> (\<forall>h. map_of (w_futs s) h \<noteq> Some (Writing, m))"
  by (auto simp: write_free_def list_ex_iff map_of_eq_Some_iff)

lemma write_enter_ok:
  assumes ok: "write_tables_ok s" "write_arcs_ok s" "written_once s" and new: "map_of (w_futs s) (t, key) = None"
  shows "write_tables_ok (write_enter t key s) \<and> write_arcs_ok (write_enter t key s) \<and> written_once (write_enter t key s)"
proof -
  let ?table = "filter (\<lambda>e. kept_by_somebody (fst (snd e)) s) (w_map s)"
  have kept: "map_of ?table k = Some (m, q)" if "map_of (w_futs s) (t', k) = Some (ph, m)" "map_of (w_map s) k = Some (m, q)"
    for t' k ph m q
    using that ok(1) by (force simp: write_tables_ok_def map_of_kept kept_by_somebody_def list_ex_iff dest: map_of_SomeD)
  have t: "distinct (map fst ?table)" "distinct (map (\<lambda>e. fst (snd e)) ?table)"
    "\<forall>m \<in> (\<lambda>e. fst (snd e)) ` set ?table. m < w_next s" "w_next s \<notin> (\<lambda>e. fst (snd e)) ` set ?table"
    using ok(1) by (auto simp: write_tables_ok_def distinct_map_filter)
  show ?thesis
  proof (cases "map_of ?table key")
    case None
    have e: "write_enter t key s = s\<lparr>w_map := ?table @ [(key, w_next s, w_seq s)], w_next := Suc (w_next s),
        w_seq := Suc (w_seq s), w_futs := ((t, key), Entered, w_next s) # w_futs s\<rparr>"
      by (simp add: write_enter_def None)
    have "write_tables_ok (write_enter t key s)"
      using ok(1) t None new by (auto simp: e write_tables_ok_def map_of_eq_None_iff intro: less_SucI)
    moreover have "write_arcs_ok (write_enter t key s)"
      unfolding write_arcs_ok_def
    proof (intro allI impI)
      fix t' k ph m'
      assume at: "map_of (w_futs (write_enter t key s)) (t', k) = Some (ph, m')"
      show "\<exists>q. map_of (w_map (write_enter t key s)) k = Some (m', q)"
      proof (cases "(t', k) = (t, key)")
        case True
        then show ?thesis using at None by (auto simp: e map_add_Some_iff simp del: filter_filter)
      next
        case False
        then have old: "map_of (w_futs s) (t', k) = Some (ph, m')" using at by (auto simp: e split: if_split_asm)
        with ok(2) obtain q where "map_of (w_map s) k = Some (m', q)" unfolding write_arcs_ok_def by blast
        from kept [OF old this] None show ?thesis by (auto simp: e map_add_Some_iff simp del: filter_filter)
      qed
    qed
    moreover have "written_once (write_enter t key s)"
      using ok(3) by (auto simp: e written_once_def)
    ultimately show ?thesis by blast
  next
    case (Some mq)
    obtain m q where mq: "mq = (m, q)" by fastforce
    have e: "write_enter t key s = s\<lparr>w_map := ?table, w_futs := ((t, key), Entered, m) # w_futs s\<rparr>"
      by (simp add: write_enter_def Some mq)
    have "write_tables_ok (write_enter t key s)"
      using ok(1) t new by (auto simp: e write_tables_ok_def map_of_eq_None_iff)
    moreover have "write_arcs_ok (write_enter t key s)"
      unfolding write_arcs_ok_def
    proof (intro allI impI)
      fix t' k ph m'
      assume at: "map_of (w_futs (write_enter t key s)) (t', k) = Some (ph, m')"
      show "\<exists>q. map_of (w_map (write_enter t key s)) k = Some (m', q)"
      proof (cases "(t', k) = (t, key)")
        case True
        then show ?thesis using at Some mq by (simp add: e)
      next
        case False
        then have old: "map_of (w_futs s) (t', k) = Some (ph, m')" using at by (auto simp: e split: if_split_asm)
        with ok(2) obtain q where "map_of (w_map s) k = Some (m', q)" unfolding write_arcs_ok_def by blast
        from kept [OF old this] show ?thesis by (simp add: e)
      qed
    qed
    moreover have "written_once (write_enter t key s)"
      using ok(3) by (auto simp: e written_once_def)
    ultimately show ?thesis by blast
  qed
qed

lemma write_phase_set_ok:
  assumes ok: "write_tables_ok s" "write_arcs_ok s" "written_once s" and h: "map_of (w_futs s) (t, k) = Some (ph0, m)"
    and ph: "ph = Writing \<longrightarrow> write_free m s"
  shows "write_tables_ok (write_phase_set (t, k) ph s)" "write_arcs_ok (write_phase_set (t, k) ph s)"
    "written_once (write_phase_set (t, k) ph s)" "w_map (write_phase_set (t, k) ph s) = w_map s"
proof -
  have d: "distinct (map fst (w_futs s))" using ok(1) by (simp add: write_tables_ok_def)
  have f: "map_of (w_futs (write_phase_set (t, k) ph s)) = (map_of (w_futs s))((t, k) \<mapsto> (ph, m))"
    by (simp add: write_phase_set_def h AList.update_conv')
  show m: "w_map (write_phase_set (t, k) ph s) = w_map s" by (simp add: write_phase_set_def h)
  show "write_tables_ok (write_phase_set (t, k) ph s)"
    using ok(1) by (simp add: write_tables_ok_def write_phase_set_def h AList.distinct_update)
  show "write_arcs_ok (write_phase_set (t, k) ph s)"
    using ok(2) h unfolding write_arcs_ok_def f m by (auto split: if_split_asm)
  show "written_once (write_phase_set (t, k) ph s)"
    using ok(3) ph unfolding written_once_def f write_free_iff [OF d] by (auto split: if_split_asm)
qed

lemma roomy_step_ok: "roomy_step s s' \<Longrightarrow> write_ok s \<Longrightarrow> write_ok s'"
proof -
  assume "roomy_step s s'" and "write_ok s"
  then have step: "write_step s s'" and len: "length (w_map s') \<le> MAX_TRACKED_WRITE_PATHS"
    and ok: "write_tables_ok s" "write_arcs_ok s" "written_once s" "length (w_map s) \<le> MAX_TRACKED_WRITE_PATHS"
    by (simp_all add: roomy_step_def write_ok_def)
  from step show ?thesis
  proof cases
    case (enter t key)
    then show ?thesis using write_enter_ok [OF ok(1-3)] len by (simp add: write_ok_def)
  next
    case (evict t key m)
    note p = write_phase_set_ok [OF ok(1-3) evict(2), of Queued]
    have "s' = write_phase_set (t, key) Queued s"
      using evict(1) p(4) ok(4) by (simp add: evict_oldest_write_path.simps [of "w_map s"])
    then show ?thesis using p len by (simp add: write_ok_def)
  next
    case (acquired t key m)
    then show ?thesis using write_phase_set_ok [OF ok(1-3) acquired(2), of Writing] len by (simp add: write_ok_def)
  next
    case (dropped t key ph m)
    then show ?thesis using ok
      by (auto simp: write_ok_def write_tables_ok_def write_arcs_ok_def written_once_def AList.delete_conv'
          AList.distinct_delete)
  qed
qed

lemma write_ok_start: "write_ok no_write_locks"
  by (simp add: write_ok_def write_tables_ok_def write_arcs_ok_def written_once_def no_write_locks_def)

interpretation roomy: state_machine no_write_locks roomy_step write_ok
  by unfold_locales (rule write_ok_start, rule roomy_step_ok)

text \<open>While at most 4096 paths are tracked, one task at a time is between acquiring the
  write lock of a path and dropping it, in whatever order callers enter, wait, are cancelled
  and leave.\<close>

theorem write_lock_exclusive:
  assumes "roomy_step\<^sup>*\<^sup>* no_write_locks s" and held: "map_of (w_futs s) (t, key) = Some (Writing, m)"
  shows "writers_of key s = [t]"
proof -
  have ok: "write_tables_ok s" "write_arcs_ok s" "written_once s"
    using roomy.reachable_inv [OF assms(1)] by (simp_all add: write_ok_def)
  then have d: "distinct (map fst (w_futs s))" by (simp add: write_tables_ok_def)
  let ?fs = "filter (\<lambda>f. snd (fst f) = key \<and> fst (snd f) = Writing) (w_futs s)"
  have "?fs = [((t, key), Writing, m)]"
  proof (rule sole_member)
    show "distinct ?fs" using d by (simp add: distinct_map)
    show "((t, key), Writing, m) \<in> set ?fs" using held by (auto dest: map_of_SomeD)
    fix f
    assume "f \<in> set ?fs"
    then have "f \<in> set (w_futs s)" "snd (fst f) = key" "fst (snd f) = Writing" by auto
    then obtain t' m' where f: "f = ((t', key), Writing, m')" "map_of (w_futs s) (t', key) = Some (Writing, m')"
      using d by (metis map_of_eq_Some_iff prod.collapse)
    obtain q q' where "map_of (w_map s) key = Some (m, q)" "map_of (w_map s) key = Some (m', q')"
      using ok(2) f(2) held unfolding write_arcs_ok_def by blast
    then have "m' = m" by simp
    then show "f = ((t, key), Writing, m)" using ok(3) f held unfolding written_once_def by blast
  qed
  then show ?thesis by (simp add: writers_of_def)
qed

lemma write_lock_exclusive_witness: "writers_of the_file
    \<lparr>w_map = [(the_file, 0, 0)], w_next = 1, w_seq = 1, w_futs = [((5, the_file), Writing, 0)]\<rparr> = [5]"
proof (rule write_lock_exclusive)
  define s0 where "s0 = \<lparr>w_map = [(the_file, 0, 0)], w_next = 1, w_seq = 1, w_futs = [((5, the_file), Entered, 0)]\<rparr>"
  let ?s = "\<lambda>ph. s0\<lparr>w_futs := [((5, the_file), ph, 0)]\<rparr>"
  have "roomy_step no_write_locks s0"
    using write_step.enter [of no_write_locks 5 the_file]
    by (simp add: roomy_step_def write_enter_def no_write_locks_def s0_def MAX_TRACKED_WRITE_PATHS_def)
  moreover have "roomy_step s0 (?s Queued)"
    using write_step.evict [of s0 5 the_file 0]
    by (simp add: roomy_step_def s0_def write_phase_set_def evict_oldest_write_path.simps MAX_TRACKED_WRITE_PATHS_def)
  moreover have "roomy_step (?s Queued) (?s Writing)"
    using write_step.acquired [of "?s Queued" 5 the_file 0]
    by (simp add: roomy_step_def s0_def write_phase_set_def write_free_def MAX_TRACKED_WRITE_PATHS_def)
  ultimately have "roomy_step\<^sup>*\<^sup>* no_write_locks (?s Writing)"
    by (meson converse_rtranclp_into_rtranclp r_into_rtranclp)
  then show "roomy_step\<^sup>*\<^sup>* no_write_locks
      \<lparr>w_map = [(the_file, 0, 0)], w_next = 1, w_seq = 1, w_futs = [((5, the_file), Writing, 0)]\<rparr>"
    by (simp add: s0_def)
qed simp

subsection \<open>Eviction hands out a second lock\<close>

text \<open>One caller that finds no entry for its path, up to its guard.\<close>

lemma write_join:
  assumes new: "map_of (w_futs s) (t, key) = None" "map_of (w_map s) key = None"
    and kept: "\<forall>e \<in> set (w_map s). kept_by_somebody (fst (snd e)) s"
    and fresh: "\<forall>f \<in> set (w_futs s). snd (snd f) < w_next s"
  shows "write_step\<^sup>*\<^sup>* s \<lparr>w_map = evict_oldest_write_path (w_map s @ [(key, w_next s, w_seq s)]),
    w_next = Suc (w_next s), w_seq = Suc (w_seq s), w_futs = ((t, key), Writing, w_next s) # w_futs s\<rparr>"
proof -
  let ?new = "w_map s @ [(key, w_next s, w_seq s)]"
  have "filter (\<lambda>e. kept_by_somebody (fst (snd e)) s) (w_map s) = w_map s" using kept by (simp add: filter_id_conv)
  then have e: "write_enter t key s = \<lparr>w_map = ?new, w_next = Suc (w_next s), w_seq = Suc (w_seq s),
      w_futs = ((t, key), Entered, w_next s) # w_futs s\<rparr>"
    using new(2) by (simp add: write_enter_def)
  let ?s2 = "\<lparr>w_map = evict_oldest_write_path ?new, w_next = Suc (w_next s), w_seq = Suc (w_seq s),
      w_futs = ((t, key), Queued, w_next s) # w_futs s\<rparr>"
  have "write_step s (write_enter t key s)" by (rule write_step.enter [OF new(1)])
  moreover have "write_step (write_enter t key s) ?s2"
    using write_step.evict [of "write_enter t key s" t key "w_next s"] by (simp add: e write_phase_set_def)
  moreover have "write_free (w_next s) ?s2" using fresh by (auto simp: write_free_def list_ex_iff)
  then have "write_step ?s2 (?s2\<lparr>w_futs := ((t, key), Writing, w_next s) # w_futs s\<rparr>)"
    using write_step.acquired [of ?s2 t key "w_next s"] by (simp add: write_phase_set_def)
  ultimately show ?thesis by (simp add: converse_rtranclp_into_rtranclp)
qed

lemma evict_small: "length table \<le> MAX_TRACKED_WRITE_PATHS \<Longrightarrow> evict_oldest_write_path table = table"
  by (simp add: evict_oldest_write_path.simps [of table])

lemma evict_first:
  assumes "length table = MAX_TRACKED_WRITE_PATHS" "\<forall>e' \<in> set table. snd (snd e) < snd (snd e')"
  shows "evict_oldest_write_path (e # table) = table"
proof -
  have "oldest_seq (e # table) = snd (snd e)"
    unfolding oldest_seq_def using assms(2) by (intro Min_eqI) auto
  moreover from this have "filter (\<lambda>e'. snd (snd e') = oldest_seq (e # table)) (e # table) = [e]"
    using assms(2) by (auto simp: filter_empty_conv)
  ultimately show ?thesis
    using assms(1) evict_small [of table] by (subst evict_oldest_write_path.simps) simp
qed

definition nth_path :: "nat \<Rightarrow> comps" where
  "nth_path i = [RootDir, Normal (replicate i (CHR ''a''))]"

lemma nth_path_inj [simp]: "nth_path i = nth_path j \<longleftrightarrow> i = j"
  by (auto simp: nth_path_def dest: arg_cong [of _ _ length])

definition crowd :: "nat \<Rightarrow> write_locks" where
  "crowd n = \<lparr>w_map = map (\<lambda>i. (nth_path i, i, i)) [0..<n], w_next = n, w_seq = n,
     w_futs = rev (map (\<lambda>i. ((i, nth_path i), Writing, i)) [0..<n])\<rparr>"

lemma crowd_absent:
  "map_of (map (\<lambda>i. (nth_path i, i, i)) is) (nth_path n) = None \<longleftrightarrow> n \<notin> set is"
  "map_of (rev (map (\<lambda>i. ((i, nth_path i), ph, i)) is)) (n, nth_path n) = None \<longleftrightarrow> n \<notin> set is"
  by (auto simp: map_of_eq_None_iff image_iff)

lemma crowd_join:
  "write_step\<^sup>*\<^sup>* (crowd n) \<lparr>w_map = evict_oldest_write_path (map (\<lambda>i. (nth_path i, i, i)) [0..<Suc n]), w_next = Suc n,
     w_seq = Suc n, w_futs = rev (map (\<lambda>i. ((i, nth_path i), Writing, i)) [0..<Suc n])\<rparr>"
proof -
  have "map_of (w_futs (crowd n)) (n, nth_path n) = None" "map_of (w_map (crowd n)) (nth_path n) = None"
    unfolding crowd_def by (simp_all only: write_locks.select_convs crowd_absent) simp_all
  moreover have "\<forall>e \<in> set (w_map (crowd n)). kept_by_somebody (fst (snd e)) (crowd n)"
    "\<forall>f \<in> set (w_futs (crowd n)). snd (snd f) < w_next (crowd n)"
    by (auto simp: crowd_def kept_by_somebody_def list_ex_iff)
  ultimately show ?thesis using write_join [of "crowd n" n "nth_path n"] by (simp add: crowd_def)
qed

lemma crowd_reachable: "n \<le> MAX_TRACKED_WRITE_PATHS \<Longrightarrow> write_step\<^sup>*\<^sup>* no_write_locks (crowd n)"
proof (induction n)
  case 0
  show ?case by (simp add: crowd_def no_write_locks_def)
next
  case (Suc n)
  then have "crowd (Suc n) = \<lparr>w_map = evict_oldest_write_path (map (\<lambda>i. (nth_path i, i, i)) [0..<Suc n]), w_next = Suc n,
     w_seq = Suc n, w_futs = rev (map (\<lambda>i. ((i, nth_path i), Writing, i)) [0..<Suc n])\<rparr>"
    by (simp add: crowd_def evict_small del: upt_Suc)
  then show ?case using Suc crowd_join [of n] by (metis Suc_leD rtranclp_trans)
qed

text \<open>C11: With more paths the promise is broken: once 4097 different paths are being written, the
  oldest entry is evicted although its owner still holds the lock, and the next caller for that
  path is handed a new mutex at once.  Two tasks then hold the write lock of one file.\<close>

theorem evicted_lock_shared:
  "\<exists>s. write_step\<^sup>*\<^sup>* no_write_locks s \<and> writers_of (nth_path 0) s = [Suc MAX_TRACKED_WRITE_PATHS, 0]"
proof -
  define n where "n = MAX_TRACKED_WRITE_PATHS"
  let ?e = "\<lambda>i. (nth_path i, i, i)" and ?f = "\<lambda>i. ((i, nth_path i), Writing, i)"
  define s where "s = \<lparr>w_map = map ?e [Suc 0..<Suc n], w_next = Suc n, w_seq = Suc n, w_futs = rev (map ?f [0..<Suc n])\<rparr>"
  have "evict_oldest_write_path (map ?e [0..<Suc n]) = map ?e [Suc 0..<Suc n]"
  proof -
    have "map ?e [0..<Suc n] = ?e 0 # map ?e [Suc 0..<Suc n]" by (simp add: upt_conv_Cons del: upt_Suc)
    moreover have "evict_oldest_write_path (?e 0 # map ?e [Suc 0..<Suc n]) = map ?e [Suc 0..<Suc n]"
      by (rule evict_first) (auto simp: n_def)
    ultimately show ?thesis by (simp only:)
  qed
  then have s: "write_step\<^sup>*\<^sup>* no_write_locks s"
    using rtranclp_trans [OF crowd_reachable crowd_join, of n] by (simp only: s_def n_def order_refl simp_thms)
  have "map_of (w_futs s) (Suc n, nth_path 0) = None"
    by (auto simp: s_def map_of_eq_None_iff simp del: upt_Suc)
  moreover have "map_of (w_map s) (nth_path 0) = None"
    unfolding s_def by (simp only: write_locks.select_convs crowd_absent) simp
  moreover have "\<forall>e \<in> set (w_map s). kept_by_somebody (fst (snd e)) s" "\<forall>f \<in> set (w_futs s). snd (snd f) < w_next s"
    by (auto simp: s_def kept_by_somebody_def list_ex_iff simp del: upt_Suc)
  ultimately have "write_step\<^sup>*\<^sup>* s \<lparr>w_map = evict_oldest_write_path (w_map s @ [(nth_path 0, w_next s, w_seq s)]),
      w_next = Suc (w_next s), w_seq = Suc (w_seq s), w_futs = ((Suc n, nth_path 0), Writing, w_next s) # w_futs s\<rparr>"
    (is "_\<^sup>*\<^sup>* _ ?last") by (rule write_join)
  with s have "write_step\<^sup>*\<^sup>* no_write_locks ?last" by (rule rtranclp_trans)
  moreover have "filter (\<lambda>i. i = 0) [0..<Suc n] = [0]"
    by (simp add: upt_conv_Cons filter_empty_conv del: upt_Suc)
  then have "writers_of (nth_path 0) ?last = [Suc n, 0]"
    by (simp add: writers_of_def s_def rev_map [symmetric] filter_map rev_filter [symmetric] o_def del: upt_Suc)
  ultimately show ?thesis unfolding n_def by blast
qed

section \<open>The gate of the stat sweeps\<close>

text \<open>A refresh after a command takes a number, waits for the running sweep, and returns without
  one of its own when a sweep of the same agent that began after it was registered already ran.
  \<open>g_pending\<close> holds the calls that wait; \<open>g_finished\<close> and \<open>g_back\<close> record the sweeps that came to
  their end, with the number they began at, and the calls that returned.\<close>

definition GATE_AGENT_CAP :: nat where
  "GATE_AGENT_CAP = 256"

record sweep_gate =
  g_next :: nat
  g_covered :: "(string \<times> nat) list"
  g_running :: "(string \<times> nat \<times> nat) option"
  g_pending :: "(nat \<times> string) list"
  g_finished :: "(string \<times> nat) list"
  g_back :: "(nat \<times> string) list"

definition new_gate :: sweep_gate where
  "new_gate = \<lparr>g_next = 0, g_covered = [], g_running = None, g_pending = [], g_finished = [], g_back = []\<rparr>"

definition gate_request :: "string \<Rightarrow> sweep_gate \<Rightarrow> sweep_gate" where
  "gate_request a g = g\<lparr>g_next := Suc (g_next g), g_pending := (Suc (g_next g), a) # g_pending g\<rparr>"

definition gate_enter :: "string \<Rightarrow> nat \<Rightarrow> sweep_gate \<Rightarrow> bool \<times> sweep_gate" where
  "gate_enter a want g =
     (if (case map_of (g_covered g) a of Some c \<Rightarrow> want \<le> c | None \<Rightarrow> False) then (False, g)
      else
        (let known = (if GATE_AGENT_CAP \<le> length (g_covered g) then [] else g_covered g)
         in (True, g\<lparr>g_covered := AList.update a (g_next g) known\<rparr>)))"

inductive gate_calm :: "sweep_gate \<Rightarrow> sweep_gate \<Rightarrow> bool" where
  request: "gate_calm g (gate_request a g)"
| covered: "g_running g = None \<Longrightarrow> (want, a) \<in> set (g_pending g) \<Longrightarrow> gate_enter a want g = (False, g') \<Longrightarrow>
    gate_calm g (g'\<lparr>g_pending := remove1 (want, a) (g_pending g), g_back := (want, a) # g_back g\<rparr>)"
| sweep: "g_running g = None \<Longrightarrow> (want, a) \<in> set (g_pending g) \<Longrightarrow> gate_enter a want g = (True, g') \<Longrightarrow>
    gate_calm g (g'\<lparr>g_pending := remove1 (want, a) (g_pending g), g_running := Some (a, g_next g, want)\<rparr>)"
| finished: "g_running g = Some (a, began, want) \<Longrightarrow>
    gate_calm g (g\<lparr>g_running := None, g_finished := (a, began) # g_finished g, g_back := (want, a) # g_back g\<rparr>)"
| given_up: "gate_calm g (g\<lparr>g_pending := remove1 x (g_pending g)\<rparr>)"

text \<open>A turn that is cancelled drops the future of the running sweep.\<close>

inductive gate_abort :: "sweep_gate \<Rightarrow> sweep_gate \<Rightarrow> bool" where
  abort: "g_running g = Some r \<Longrightarrow> gate_abort g (g\<lparr>g_running := None\<rparr>)"

definition gate_step :: "sweep_gate \<Rightarrow> sweep_gate \<Rightarrow> bool" where
  "gate_step g g' \<longleftrightarrow> gate_calm g g' \<or> gate_abort g g'"

definition gate_ok :: "sweep_gate \<Rightarrow> bool" where
  "gate_ok g \<longleftrightarrow>
     (\<forall>a c. map_of (g_covered g) a = Some c \<longrightarrow> (a, c) \<in> set (g_finished g) \<or> (\<exists>w. g_running g = Some (a, c, w))) \<and>
     (\<forall>a began want. g_running g = Some (a, began, want) \<longrightarrow> want \<le> began) \<and>
     (\<forall>(want, a) \<in> set (g_pending g). want \<le> g_next g) \<and>
     (\<forall>(want, a) \<in> set (g_back g). \<exists>began \<ge> want. (a, began) \<in> set (g_finished g))"

lemma gate_okD:
  assumes "gate_ok g"
  shows "map_of (g_covered g) a = Some c \<Longrightarrow> (a, c) \<in> set (g_finished g) \<or> (\<exists>w. g_running g = Some (a, c, w))"
    "g_running g = Some (a, began, want) \<Longrightarrow> want \<le> began"
    "(want, a) \<in> set (g_pending g) \<Longrightarrow> want \<le> g_next g"
    "(want, a) \<in> set (g_back g) \<Longrightarrow> \<exists>began \<ge> want. (a, began) \<in> set (g_finished g)"
  using assms unfolding gate_ok_def by blast+

lemma gate_enter_facts:
  "gate_enter a want g = (False, g') \<Longrightarrow> g' = g \<and> (\<exists>c \<ge> want. map_of (g_covered g) a = Some c)"
  "gate_enter a want g = (True, g') \<Longrightarrow>
     g' = g\<lparr>g_covered := AList.update a (g_next g) (if GATE_AGENT_CAP \<le> length (g_covered g) then [] else g_covered g)\<rparr>"
  by (auto simp: gate_enter_def Let_def split: if_split_asm option.splits)

lemma gate_calm_ok: "gate_calm g g' \<Longrightarrow> gate_ok g \<Longrightarrow> gate_ok g'"
proof (induction rule: gate_calm.induct)
  case (request g a)
  then show ?case by (fastforce simp: gate_ok_def gate_request_def)
next
  case (covered g want a g')
  then obtain c where c: "g' = g" "want \<le> c" "map_of (g_covered g) a = Some c" using gate_enter_facts(1) by blast
  with covered(1) gate_okD(1) [OF covered(4) c(3)] have "(a, c) \<in> set (g_finished g)" by simp
  with c covered(4) show ?case unfolding gate_ok_def by (auto dest: notin_set_remove1)
next
  case (sweep g want a g')
  note k = gate_enter_facts(2) [OF sweep(3)]
  have "want \<le> g_next g" using sweep(2) gate_okD(3) [OF sweep(4)] by blast
  with sweep(1,4) show ?case unfolding gate_ok_def k by (auto simp: AList.update_conv' dest: notin_set_remove1 split: if_split_asm)
next
  case (finished g a began want)
  have "want \<le> began" using finished(1) gate_okD(2) [OF finished(2)] by blast
  with finished show ?case unfolding gate_ok_def by fastforce
next
  case (given_up g x)
  then show ?case unfolding gate_ok_def by (auto dest: notin_set_remove1)
qed

interpretation sweeps: state_machine new_gate gate_calm gate_ok
  by unfold_locales (simp add: gate_ok_def new_gate_def, rule gate_calm_ok)

text \<open>A refresh that returns is covered: a sweep of the same agent that began after the request
  was registered has come to its end, whether it was its own or another call's, so every
  change its command made was there to be seen.\<close>

theorem refresh_covered:
  assumes "gate_calm\<^sup>*\<^sup>* new_gate g" and "(want, a) \<in> set (g_back g)"
  shows "list_ex (\<lambda>(b, began). b = a \<and> want \<le> began) (g_finished g)"
  using gate_okD(4) [OF sweeps.reachable_inv [OF assms(1)] assms(2)] by (force simp: list_ex_iff)

text \<open>Two requests of one agent; the sweep of the first covers both.\<close>

definition coalesced :: sweep_gate where
  "coalesced = \<lparr>g_next = 2, g_covered = [(''main'', 2)], g_running = None, g_pending = [],
     g_finished = [(''main'', 2)], g_back = [(2, ''main''), (1, ''main'')]\<rparr>"

lemma two_requests:
  defines "g2 \<equiv> gate_request ''main'' (gate_request ''main'' new_gate)"
  defines "g3 \<equiv> \<lparr>g_next = 2, g_covered = [(''main'', 2)], g_running = Some (''main'', 2, 1),
      g_pending = [(2, ''main'')], g_finished = [], g_back = []\<rparr>"
  shows "gate_calm\<^sup>*\<^sup>* new_gate g3"
proof -
  have "gate_calm new_gate (gate_request ''main'' new_gate)" "gate_calm (gate_request ''main'' new_gate) g2"
    unfolding g2_def by (rule gate_calm.request)+
  moreover have "gate_calm g2 g3"
    using gate_calm.sweep [of g2 1 "''main''" "g2\<lparr>g_covered := [(''main'', 2)]\<rparr>"]
    by (simp add: g2_def g3_def gate_request_def new_gate_def gate_enter_def GATE_AGENT_CAP_def numeral_2_eq_2)
  ultimately show ?thesis by (meson converse_rtranclp_into_rtranclp r_into_rtranclp)
qed

lemma coalesced_run: "gate_calm\<^sup>*\<^sup>* new_gate coalesced"
proof -
  define g3 where "g3 = \<lparr>g_next = 2, g_covered = [(''main'', 2)], g_running = Some (''main'', 2, 1),
      g_pending = [(2, ''main'')], g_finished = [], g_back = []\<rparr>"
  define g4 where "g4 = g3\<lparr>g_running := None, g_finished := [(''main'', 2)], g_back := [(1, ''main'')]\<rparr>"
  have "gate_calm g3 g4"
    using gate_calm.finished [of g3 "''main''" 2 1] by (simp add: g3_def g4_def)
  moreover have "gate_calm g4 coalesced"
    using gate_calm.covered [of g4 2 "''main''" g4] by (simp add: g3_def g4_def coalesced_def gate_enter_def)
  ultimately show ?thesis using two_requests unfolding g3_def by (meson rtranclp.rtrancl_into_rtrancl)
qed

lemma refresh_covered_witness:
  "list_ex (\<lambda>(b, began). b = ''main'' \<and> 2 \<le> began) (g_finished coalesced)"
  by (rule refresh_covered [OF coalesced_run]) (simp add: coalesced_def)

text \<open>A sweep counts as run from the moment it begins.  When the turn of its call is cancelled in
  the middle of it, a second refresh of the same agent returns as covered although no sweep came
  to its end.\<close>

theorem aborted_sweep_covers:
  "\<exists>g. gate_step\<^sup>*\<^sup>* new_gate g \<and> g_back g = [(2, ''main'')] \<and> g_finished g = []"
proof -
  define g3 where "g3 = \<lparr>g_next = 2, g_covered = [(''main'', 2)], g_running = Some (''main'', 2, 1),
      g_pending = [(2, ''main'')], g_finished = [], g_back = []\<rparr>"
  define g4 where "g4 = g3\<lparr>g_running := None\<rparr>"
  define g5 where "g5 = g4\<lparr>g_pending := [], g_back := [(2, ''main'')]\<rparr>"
  have "gate_step\<^sup>*\<^sup>* new_gate g3"
    using two_requests unfolding g3_def
    by (rule mono_rtranclp [rule_format, rotated]) (simp add: gate_step_def)
  moreover have "gate_step g3 g4" using gate_abort.abort [of g3] by (simp add: g3_def g4_def gate_step_def)
  moreover have "gate_step g4 g5"
    using gate_calm.covered [of g4 2 "''main''" g4] by (simp add: g3_def g4_def g5_def gate_enter_def gate_step_def)
  ultimately have "gate_step\<^sup>*\<^sup>* new_gate g5" by (meson rtranclp.rtrancl_into_rtrancl)
  then show ?thesis by (intro exI [of _ g5]) (simp add: g3_def g4_def g5_def)
qed

end
