(* ===== verification/Client_Lifecycle.thy ===== *)
theory Client_Lifecycle
  imports Prelude
begin

text \<open>
  What a frontend believes it is connected and attached to: \<^verbatim>\<open>LifecycleState\<close> of
  \<^verbatim>\<open>crates/pacode-client/src/lib.rs\<close> and its uses in \<^verbatim>\<open>connection.rs\<close> and
  \<^verbatim>\<open>connection/reconnect.rs\<close>.  Every method holds the transition lock for its whole body, so it
  is one function of the state; \<open>life_step\<close> interleaves them.  Of a snapshot only its session
  and number matter here; of an event, what the queue and the filters look at.
\<close>

section \<open>Events and contexts\<close>

type_synonym session_id = string

datatype server_event =
    TextDelta string nat string
  | ReasoningDelta string nat string
  | SessionStatus session_id string
  | AuthUpdated string string
  | LoginProgress string string
  | OtherEvent string

fun is_lossy_delta :: "server_event \<Rightarrow> bool" where
  "is_lossy_delta (TextDelta _ _ _) = True"
| "is_lossy_delta (ReasoningDelta _ _ _) = True"
| "is_lossy_delta _ = False"

fun is_global :: "server_event \<Rightarrow> bool" where
  "is_global (LoginProgress _ _) = True"
| "is_global (AuthUpdated _ _) = True"
| "is_global (SessionStatus _ _) = True"
| "is_global _ = False"

record event_context =
  x_connection :: nat
  x_epoch :: nat
  x_session :: "session_id option"

datatype attach_target =
    NewSession string "string option" "string option" "string option"
  | ResumeSession session_id
  | LatestIn string

record attach_attempt =
  at_request :: nat
  at_key :: string
  at_target :: attach_target
  at_epoch :: nat
  at_connection :: nat

record snapshot_head =
  sn_session :: session_id
  sn_seq :: nat

section \<open>The state and its operations\<close>

record lifecycle =
  lf_connection :: nat
  lf_epoch :: nat
  lf_desired :: "attach_attempt option"
  lf_attached :: "session_id option"
  lf_snapshot_seq :: nat
  lf_last_seq :: nat

definition new_lifecycle :: "nat \<Rightarrow> lifecycle" where
  "new_lifecycle connection =
     \<lparr>lf_connection = connection, lf_epoch = 0, lf_desired = None, lf_attached = None, lf_snapshot_seq = 0,
      lf_last_seq = 0\<rparr>"

definition context_of :: "lifecycle \<Rightarrow> event_context" where
  "context_of s = \<lparr>x_connection = lf_connection s, x_epoch = lf_epoch s, x_session = lf_attached s\<rparr>"

definition forget_session :: "lifecycle \<Rightarrow> lifecycle" where
  "forget_session s = s\<lparr>lf_attached := None, lf_snapshot_seq := 0, lf_last_seq := 0\<rparr>"

definition begin_attach :: "attach_target \<Rightarrow> nat \<Rightarrow> string \<Rightarrow> lifecycle \<Rightarrow> attach_attempt \<times> lifecycle" where
  "begin_attach target request key s =
     (let a = \<lparr>at_request = request, at_key = key, at_target = target, at_epoch = lf_epoch s + 1,
               at_connection = lf_connection s\<rparr>
      in (a, forget_session (s\<lparr>lf_epoch := lf_epoch s + 1, lf_desired := Some a\<rparr>)))"

definition begin_detach :: "lifecycle \<Rightarrow> lifecycle" where
  "begin_detach s = forget_session (s\<lparr>lf_epoch := lf_epoch s + 1, lf_desired := None\<rparr>)"

definition retry_attach :: "attach_target \<Rightarrow> nat \<Rightarrow> lifecycle \<Rightarrow> attach_attempt option \<times> lifecycle" where
  "retry_attach target request s =
     (case lf_desired s of None \<Rightarrow> (None, s)
      | Some d \<Rightarrow>
          if at_target d \<noteq> target \<or> lf_attached s \<noteq> None then (None, s)
          else (let a = d\<lparr>at_request := request, at_connection := lf_connection s\<rparr>
                in (Some a, s\<lparr>lf_desired := Some a\<rparr>)))"

definition renew_attach_request_id :: "nat \<Rightarrow> lifecycle \<Rightarrow> attach_attempt option \<times> lifecycle" where
  "renew_attach_request_id request s =
     (case lf_desired s of None \<Rightarrow> (None, s)
      | Some d \<Rightarrow> (let a = d\<lparr>at_request := request, at_connection := lf_connection s\<rparr>
                   in (Some a, s\<lparr>lf_desired := Some a\<rparr>)))"

definition desired_attempt_is_current :: "attach_attempt \<Rightarrow> lifecycle \<Rightarrow> bool" where
  "desired_attempt_is_current a s \<longleftrightarrow> lf_epoch s = at_epoch a \<and>
     (case lf_desired s of None \<Rightarrow> False
      | Some d \<Rightarrow> at_request d = at_request a \<and> at_key d = at_key a \<and> at_target d = at_target a)"

definition outgoing_attach_is_current :: "attach_attempt \<Rightarrow> lifecycle \<Rightarrow> bool" where
  "outgoing_attach_is_current a s \<longleftrightarrow> lf_connection s = at_connection a \<and> desired_attempt_is_current a s"

text \<open>The result tells whether the snapshot is at least as new as the last one.\<close>

definition remember_attached :: "attach_attempt \<Rightarrow> snapshot_head \<Rightarrow> lifecycle \<Rightarrow> bool option \<times> lifecycle" where
  "remember_attached a snap s =
     (if \<not> desired_attempt_is_current a s then (None, s)
      else (Some (lf_snapshot_seq s \<le> sn_seq snap),
            s\<lparr>lf_snapshot_seq := max (lf_snapshot_seq s) (sn_seq snap),
              lf_desired := Some \<lparr>at_request = at_request a, at_key = at_key a,
                at_target = ResumeSession (sn_session snap), at_epoch = at_epoch a, at_connection = lf_connection s\<rparr>,
              lf_attached := Some (sn_session snap),
              lf_last_seq := max (lf_last_seq s) (sn_seq snap)\<rparr>))"

definition remember_if_current :: "attach_attempt \<Rightarrow> snapshot_head \<Rightarrow> lifecycle \<Rightarrow> bool option \<times> lifecycle" where
  "remember_if_current a snap s =
     (if lf_connection s \<noteq> at_connection a then (None, s) else remember_attached a snap s)"

definition remember_reconnect ::
    "attach_attempt \<Rightarrow> nat \<Rightarrow> snapshot_head \<Rightarrow> lifecycle \<Rightarrow> bool option \<times> lifecycle" where
  "remember_reconnect a connection snap s =
     (if lf_connection s \<noteq> connection then (None, s) else remember_attached a snap s)"

definition clear_failed_attach :: "attach_attempt \<Rightarrow> lifecycle \<Rightarrow> event_context option \<times> lifecycle" where
  "clear_failed_attach a s =
     (if lf_connection s \<noteq> at_connection a \<or> \<not> outgoing_attach_is_current a s then (None, s)
      else (let s' = forget_session (s\<lparr>lf_desired := None\<rparr>) in (Some (context_of s'), s')))"

definition is_attach_current :: "attach_attempt \<Rightarrow> session_id \<Rightarrow> lifecycle \<Rightarrow> bool" where
  "is_attach_current a session s \<longleftrightarrow>
     lf_connection s = at_connection a \<and> lf_epoch s = at_epoch a \<and>
     (case lf_desired s of None \<Rightarrow> False | Some d \<Rightarrow> at_request d = at_request a \<and> at_key d = at_key a) \<and>
     lf_attached s = Some session"

definition accepted_event_context :: "nat \<Rightarrow> server_event \<Rightarrow> lifecycle \<Rightarrow> event_context option \<times> lifecycle" where
  "accepted_event_context seq event s =
     (if is_global event then (Some (context_of s), s)
      else if lf_attached s = None \<or> seq \<le> lf_snapshot_seq s \<or> seq \<le> lf_last_seq s then (None, s)
      else (Some (context_of s), s\<lparr>lf_last_seq := seq\<rparr>))"

definition accepted_resync_context :: "nat option \<Rightarrow> lifecycle \<Rightarrow> event_context option" where
  "accepted_resync_context current_seq s =
     (let seq_floor = max (lf_snapshot_seq s) (lf_last_seq s)
      in if lf_attached s = None \<or> (case current_seq of Some seq \<Rightarrow> seq \<le> seq_floor | None \<Rightarrow> False) then None
         else Some (context_of s))"

definition observe_snapshot :: "snapshot_head \<Rightarrow> lifecycle \<Rightarrow> bool option \<times> lifecycle" where
  "observe_snapshot snap s =
     (if lf_attached s \<noteq> Some (sn_session snap) \<or> \<not> lf_snapshot_seq s \<le> sn_seq snap then (None, s)
      else (Some True, s\<lparr>lf_snapshot_seq := max (lf_snapshot_seq s) (sn_seq snap),
                         lf_last_seq := max (lf_last_seq s) (sn_seq snap)\<rparr>))"

definition advance_connection :: "lifecycle \<Rightarrow> nat \<times> lifecycle" where
  "advance_connection s = (lf_connection s + 1, s\<lparr>lf_connection := lf_connection s + 1\<rparr>)"

definition commit_connection :: "attach_attempt option \<Rightarrow> session_id option \<Rightarrow> lifecycle \<Rightarrow> event_context option" where
  "commit_connection attempt session s =
     (if case (attempt, session) of
           (Some a, Some i) \<Rightarrow>
             (case lf_desired s of None \<Rightarrow> False
              | Some d \<Rightarrow> at_request d = at_request a \<and> at_key d = at_key a \<and> at_epoch d = at_epoch a \<and>
                          at_connection d = at_connection a) \<and> lf_attached s = Some i
         | (None, None) \<Rightarrow> lf_desired s = None \<and> lf_attached s = None
         | _ \<Rightarrow> False
      then Some (context_of s) else None)"

text \<open>A request that is dropped before its reply: the attach is wanted again, not done.\<close>

definition clear_unacknowledged_attach_state :: "attach_attempt \<Rightarrow> lifecycle \<Rightarrow> lifecycle" where
  "clear_unacknowledged_attach_state a s =
     (if lf_connection s \<noteq> at_connection a \<or> lf_epoch s \<noteq> at_epoch a then s
      else case lf_desired s of None \<Rightarrow> s
           | Some d \<Rightarrow>
               if at_request d \<noteq> at_request a \<or> at_key d \<noteq> at_key a \<or> at_epoch d \<noteq> at_epoch a \<or>
                  at_connection d \<noteq> at_connection a then s
               else forget_session (s\<lparr>lf_desired := Some (d\<lparr>at_target := at_target a\<rparr>)\<rparr>))"

section \<open>Steps\<close>

text \<open>Beside the state, what was shown of the session since it was attached: the numbers of
  snapshots and of events, in order.\<close>

datatype shown_item = ShownSnapshot nat | ShownEvent nat

fun shown_seq :: "shown_item \<Rightarrow> nat" where
  "shown_seq (ShownSnapshot n) = n"
| "shown_seq (ShownEvent n) = n"

definition after_step :: "lifecycle \<Rightarrow> shown_item list \<Rightarrow> lifecycle \<times> shown_item list" where
  "after_step s log = (s, if lf_attached s = None then [] else log)"

inductive life_step :: "lifecycle \<times> shown_item list \<Rightarrow> lifecycle \<times> shown_item list \<Rightarrow> bool" where
  attach: "life_step (s, log) (after_step (snd (begin_attach target request key s)) log)"
| detach: "life_step (s, log) (after_step (begin_detach s) log)"
| retry: "life_step (s, log) (after_step (snd (retry_attach target request s)) log)"
| renew: "life_step (s, log) (after_step (snd (renew_attach_request_id request s)) log)"
| replied: "remember_if_current a snap s = (Some newer, s') \<Longrightarrow>
    life_step (s, log) (after_step s' (log @ [ShownSnapshot (sn_seq snap)]))"
| reconnected: "remember_reconnect a connection snap s = (Some newer, s') \<Longrightarrow>
    life_step (s, log) (after_step s' (log @ [ShownSnapshot (sn_seq snap)]))"
| failed: "life_step (s, log) (after_step (snd (clear_failed_attach a s)) log)"
| dropped: "life_step (s, log) (after_step (clear_unacknowledged_attach_state a s) log)"
| event: "accepted_event_context seq ev s = (Some c, s') \<Longrightarrow>
    life_step (s, log) (after_step s' (if is_global ev then log else log @ [ShownEvent seq]))"
| refreshed: "observe_snapshot snap s = (Some newer, s') \<Longrightarrow>
    life_step (s, log) (after_step s' (log @ [ShownSnapshot (sn_seq snap)]))"
| advance: "life_step (s, log) (after_step (snd (advance_connection s)) log)"

definition in_order :: "shown_item list \<Rightarrow> bool" where
  "in_order log \<longleftrightarrow> sorted_wrt (\<lambda>x y. case y of ShownEvent n \<Rightarrow> shown_seq x < n | ShownSnapshot _ \<Rightarrow> True) log"

definition life_ok :: "lifecycle \<times> shown_item list \<Rightarrow> bool" where
  "life_ok st \<longleftrightarrow>
     (case st of (s, log) \<Rightarrow>
        (\<forall>d. lf_desired s = Some d \<longrightarrow> at_epoch d = lf_epoch s) \<and>
        (\<forall>i. lf_attached s = Some i \<longrightarrow> (\<exists>d. lf_desired s = Some d \<and> at_target d = ResumeSession i)) \<and>
        lf_snapshot_seq s \<le> lf_last_seq s \<and> in_order log \<and> (\<forall>x \<in> set log. shown_seq x \<le> lf_last_seq s) \<and>
        (lf_attached s = None \<longrightarrow> log = []))"

lemma in_order_Nil [simp]: "in_order []"
  by (simp add: in_order_def)

lemma in_order_snapshot [simp]: "in_order (log @ [ShownSnapshot n]) \<longleftrightarrow> in_order log"
  by (simp add: in_order_def sorted_wrt_append)

lemma in_order_event [simp]:
  "in_order (log @ [ShownEvent n]) \<longleftrightarrow> in_order log \<and> (\<forall>x \<in> set log. shown_seq x < n)"
  by (simp add: in_order_def sorted_wrt_append)

lemmas life_ops =
  begin_attach_def begin_detach_def forget_session_def retry_attach_def renew_attach_request_id_def
  remember_attached_def remember_if_current_def remember_reconnect_def clear_failed_attach_def
  accepted_event_context_def observe_snapshot_def advance_connection_def clear_unacknowledged_attach_state_def
  after_step_def Let_def desired_attempt_is_current_def

lemma remember_attached_ok:
  assumes "remember_attached a snap s = (Some newer, s')" and "life_ok (s, log)"
  shows "life_ok (after_step s' (log @ [ShownSnapshot (sn_seq snap)]))"
proof -
  have "at_epoch a = lf_epoch s" and s': "s' = s\<lparr>lf_snapshot_seq := max (lf_snapshot_seq s) (sn_seq snap),
      lf_desired := Some \<lparr>at_request = at_request a, at_key = at_key a,
        at_target = ResumeSession (sn_session snap), at_epoch = at_epoch a, at_connection = lf_connection s\<rparr>,
      lf_attached := Some (sn_session snap), lf_last_seq := max (lf_last_seq s) (sn_seq snap)\<rparr>"
    using assms(1) by (auto simp: remember_attached_def desired_attempt_is_current_def split: if_split_asm)
  then show ?thesis using assms(2) by (auto simp: life_ok_def after_step_def le_max_iff_disj)
qed

lemma life_step_ok: "life_step st st' \<Longrightarrow> life_ok st \<Longrightarrow> life_ok st'"
proof (induction rule: life_step.induct)
  case (attach s log target request key)
  then show ?case by (simp add: life_ok_def life_ops)
next
  case (detach s log)
  then show ?case by (simp add: life_ok_def life_ops)
next
  case (retry s log target request)
  then show ?case by (auto simp: life_ok_def life_ops split: option.split)
next
  case (renew s log request)
  then show ?case by (auto simp: life_ok_def life_ops split: option.split)
next
  case (replied a snap s newer s' log)
  then show ?case by (auto simp: remember_if_current_def intro: remember_attached_ok split: if_split_asm)
next
  case (reconnected a connection snap s newer s' log)
  then show ?case by (auto simp: remember_reconnect_def intro: remember_attached_ok split: if_split_asm)
next
  case (failed s log a)
  then show ?case by (auto simp: life_ok_def life_ops)
next
  case (dropped s log a)
  have "clear_unacknowledged_attach_state a s = s \<or>
      (\<exists>d. clear_unacknowledged_attach_state a s = forget_session (s\<lparr>lf_desired := Some d\<rparr>) \<and> at_epoch d = lf_epoch s)"
    by (auto simp: clear_unacknowledged_attach_state_def split: option.split)
  then show ?case using dropped by (auto simp: life_ok_def forget_session_def after_step_def)
next
  case (event seq ev s c s' log)
  then show ?case by (fastforce simp: life_ok_def life_ops split: if_split_asm)
next
  case (refreshed snap s newer s' log)
  then show ?case by (auto simp: life_ok_def life_ops le_max_iff_disj split: if_split_asm)
next
  case (advance s log)
  then show ?case by (auto simp: life_ok_def life_ops)
qed

interpretation life: state_machine "(new_lifecycle 1, [])" life_step life_ok
  by unfold_locales (simp add: life_ok_def new_lifecycle_def, rule life_step_ok)

text \<open>C23: Nothing of a session is shown twice or out of order.  Since the session was attached,
  every event of the session that a frontend is given has a greater number than every such event
  and every snapshot given before, through reconnects, repeated attaches, refreshed snapshots and
  dropped requests.  Global events - logins, accounts, the states of sessions - are not among
  them: they pass whatever their number is (\<open>global_events_pass\<close>).\<close>

theorem events_in_order:
  assumes "life_step\<^sup>*\<^sup>* (new_lifecycle 1, []) (s, log)" and "i < j" "j < length log" "log ! j = ShownEvent n"
  shows "shown_seq (log ! i) < n"
proof -
  have "in_order log" using life.reachable_inv [OF assms(1)] by (simp add: life_ok_def)
  then have "case log ! j of ShownEvent n \<Rightarrow> shown_seq (log ! i) < n | ShownSnapshot _ \<Rightarrow> True"
    unfolding in_order_def using assms(2,3) by (rule sorted_wrt_nth_less)
  then show ?thesis using assms(4) by simp
qed

lemma global_events_pass: "is_global ev \<Longrightarrow> accepted_event_context seq ev s = (Some (context_of s), s)"
  by (simp add: accepted_event_context_def)

text \<open>A frontend is attached only to the session it last asked for.  Whatever replies arrive
  late, for attempts that were given up or belong to a lost connection, the session that
  contexts name is the one the newest attach was answered with.\<close>

theorem attached_is_wanted:
  assumes "life_step\<^sup>*\<^sup>* (new_lifecycle 1, []) (s, log)" and "x_session (context_of s) = Some i"
  shows "\<exists>d. lf_desired s = Some d \<and> at_target d = ResumeSession i \<and> at_epoch d = x_epoch (context_of s)"
  using life.reachable_inv [OF assms(1)] assms(2) by (force simp: life_ok_def context_of_def)

text \<open>A reply to an attempt of an earlier session epoch changes nothing.\<close>

lemma stale_attempt_ignored:
  "at_epoch a \<noteq> lf_epoch s \<Longrightarrow> remember_if_current a snap s = (None, s) \<and> remember_reconnect a c snap s = (None, s)"
  by (simp add: remember_if_current_def remember_reconnect_def remember_attached_def desired_attempt_is_current_def)

text \<open>C24: A restarted daemon counts events from zero again, and the client does not notice.  After a
  reconnect whose snapshot has a smaller number than the events seen before, every event of the
  session up to the old number is dropped, and so is every marker that says so.\<close>

theorem restarted_daemon_is_muted:
  assumes "remember_reconnect a connection snap s = (Some newer, s')"
    and "sn_seq snap < lf_last_seq s" "seq \<le> lf_last_seq s" "\<not> is_global ev"
  shows "accepted_event_context seq ev s' = (None, s') \<and> accepted_resync_context (Some seq) s' = None"
proof -
  have "lf_last_seq s' = lf_last_seq s"
    using assms(1,2) by (auto simp: remember_reconnect_def remember_attached_def split: if_split_asm)
  then show ?thesis using assms(3,4) by (simp add: accepted_event_context_def accepted_resync_context_def Let_def le_max_iff_disj)
qed

section \<open>A run\<close>

definition attached_once :: lifecycle where
  "attached_once = snd (remember_if_current (fst (begin_attach (LatestIn ''/w'') 2 ''k'' (new_lifecycle 1)))
     \<lparr>sn_session = ''ses'', sn_seq = 4\<rparr> (snd (begin_attach (LatestIn ''/w'') 2 ''k'' (new_lifecycle 1))))"

definition shown_once :: lifecycle where
  "shown_once = attached_once\<lparr>lf_last_seq := 7\<rparr>"

lemma attached_once_eval:
  "attached_once = \<lparr>lf_connection = 1, lf_epoch = 1,
     lf_desired = Some \<lparr>at_request = 2, at_key = ''k'', at_target = ResumeSession ''ses'', at_epoch = 1, at_connection = 1\<rparr>,
     lf_attached = Some ''ses'', lf_snapshot_seq = 4, lf_last_seq = 4\<rparr>"
  by code_simp

lemma shown_once_run:
  "life_step\<^sup>*\<^sup>* (new_lifecycle 1, []) (shown_once, [ShownSnapshot 4, ShownEvent 7])"
proof -
  let ?s1 = "snd (begin_attach (LatestIn ''/w'') 2 ''k'' (new_lifecycle 1))"
  let ?a = "fst (begin_attach (LatestIn ''/w'') 2 ''k'' (new_lifecycle 1))"
  have "life_step (new_lifecycle 1, []) (?s1, [])"
    using life_step.attach [of "new_lifecycle 1" "[]" "LatestIn ''/w''" 2 "''k''"]
    by (simp add: after_step_def begin_attach_def forget_session_def Let_def)
  moreover have "fst (remember_if_current ?a \<lparr>sn_session = ''ses'', sn_seq = 4\<rparr> ?s1) = Some True" by code_simp
  then have "remember_if_current ?a \<lparr>sn_session = ''ses'', sn_seq = 4\<rparr> ?s1 = (Some True, attached_once)"
    by (simp add: attached_once_def prod_eq_iff)
  then have "life_step (?s1, []) (attached_once, [ShownSnapshot 4])"
    by (auto dest!: life_step.replied [where log = "[]"] simp: after_step_def attached_once_eval)
  moreover have "accepted_event_context 7 (OtherEvent ''e'') attached_once = (Some (context_of attached_once), shown_once)"
    by (simp add: accepted_event_context_def shown_once_def attached_once_eval)
  then have "life_step (attached_once, [ShownSnapshot 4]) (shown_once, [ShownSnapshot 4, ShownEvent 7])"
    by (auto dest!: life_step.event [where log = "[ShownSnapshot 4]"] simp: after_step_def shown_once_def attached_once_eval)
  ultimately show ?thesis by (meson converse_rtranclp_into_rtranclp r_into_rtranclp)
qed

lemma events_in_order_witness: "shown_seq (ShownSnapshot 4) < 7"
  using events_in_order [OF shown_once_run, of 0 1 7] by simp

lemma attached_is_wanted_witness:
  "\<exists>d. lf_desired shown_once = Some d \<and> at_target d = ResumeSession ''ses'' \<and> at_epoch d = x_epoch (context_of shown_once)"
  by (rule attached_is_wanted [OF shown_once_run]) (simp add: context_of_def shown_once_def attached_once_eval)

lemma restarted_daemon_is_muted_witness:
  "accepted_event_context 5 (OtherEvent ''new'') shown_once = (None, shown_once) \<and>
   accepted_resync_context (Some 5) shown_once = None"
  (is "?goal")
proof -
  have "remember_reconnect (the (lf_desired shown_once)) 1 \<lparr>sn_session = ''ses'', sn_seq = 0\<rparr> shown_once = (Some False, shown_once)"
    by code_simp
  from restarted_daemon_is_muted [OF this, of 5 "OtherEvent ''new''"] show ?goal
    by (simp add: shown_once_def attached_once_eval)
qed

end
