(* ===== verification/Client_Queue.thy ===== *)
theory Client_Queue
  imports Client_Lifecycle
begin

text \<open>
  The queue between the reader of a connection and the frontend: \<^verbatim>\<open>EventQueue\<close> and
  \<^verbatim>\<open>EventSink\<close> of \<^verbatim>\<open>crates/pacode-client/src/lib.rs\<close>.  The size of an event is the length of
  its JSON text plus the size of the structures: it is an argument \<open>sz\<close>.  A cancelled token
  makes \<^verbatim>\<open>emit\<close> a no-operation; the model is about a sink that is not cancelled.
\<close>

section \<open>Events of the client\<close>

datatype client_event =
    Connected event_context string nat bool
  | Disconnected event_context string
  | Reconnecting event_context nat
  | AttachFailed event_context attach_target string
  | SnapshotEvent event_context snapshot_head string
  | ResyncNeeded event_context
  | SessionEvent event_context nat server_event

definition EVENT_QUEUE_CAPACITY :: nat where "EVENT_QUEUE_CAPACITY = 1024"
definition EVENT_QUEUE_LIMIT :: nat where "EVENT_QUEUE_LIMIT = EVENT_QUEUE_CAPACITY - 2"
definition EVENT_QUEUE_BYTE_LIMIT :: nat where "EVENT_QUEUE_BYTE_LIMIT = 16 * 1024 * 1024"
definition EVENT_QUEUE_ADMISSION_LIMIT :: nat where "EVENT_QUEUE_ADMISSION_LIMIT = EVENT_QUEUE_BYTE_LIMIT - 64 * 1024"
definition MAX_RESYNC_CONTEXTS :: nat where "MAX_RESYNC_CONTEXTS = 8"

fun client_context :: "client_event \<Rightarrow> event_context" where
  "client_context (Connected c _ _ _) = c"
| "client_context (Disconnected c _) = c"
| "client_context (Reconnecting c _) = c"
| "client_context (AttachFailed c _ _) = c"
| "client_context (SnapshotEvent c _ _) = c"
| "client_context (ResyncNeeded c) = c"
| "client_context (SessionEvent c _ _) = c"

fun is_lossy_client_event :: "client_event \<Rightarrow> bool" where
  "is_lossy_client_event (SessionEvent _ _ ev) = is_lossy_delta ev"
| "is_lossy_client_event _ = False"

fun is_marker :: "client_event \<Rightarrow> bool" where
  "is_marker (ResyncNeeded _) = True"
| "is_marker _ = False"

fun is_connected_event :: "client_event \<Rightarrow> bool" where
  "is_connected_event (Connected _ _ _ _) = True"
| "is_connected_event _ = False"

datatype global_key = StatusKey session_id | AuthKey string | LoginKey string

fun global_event_key :: "server_event \<Rightarrow> global_key option" where
  "global_event_key (SessionStatus session _) = Some (StatusKey session)"
| "global_event_key (AuthUpdated i _) = Some (AuthKey i)"
| "global_event_key (LoginProgress provider _) = Some (LoginKey provider)"
| "global_event_key _ = None"

fun client_event_key :: "client_event \<Rightarrow> global_key option" where
  "client_event_key (SessionEvent _ _ ev) = global_event_key ev"
| "client_event_key _ = None"

fun can_merge_delta :: "client_event \<Rightarrow> client_event \<Rightarrow> bool" where
  "can_merge_delta (SessionEvent c _ (TextDelta a i _)) (SessionEvent c' _ (TextDelta a' i' _)) \<longleftrightarrow> c = c' \<and> a = a' \<and> i = i'"
| "can_merge_delta (SessionEvent c _ (ReasoningDelta a i _)) (SessionEvent c' _ (ReasoningDelta a' i' _)) \<longleftrightarrow>
     c = c' \<and> a = a' \<and> i = i'"
| "can_merge_delta _ _ = False"

fun merge_delta :: "client_event \<Rightarrow> client_event \<Rightarrow> client_event" where
  "merge_delta (SessionEvent c _ (TextDelta a i s)) (SessionEvent _ n (TextDelta _ _ t)) = SessionEvent c n (TextDelta a i (s @ t))"
| "merge_delta (SessionEvent c _ (ReasoningDelta a i s)) (SessionEvent _ n (ReasoningDelta _ _ t)) =
     SessionEvent c n (ReasoningDelta a i (s @ t))"
| "merge_delta p _ = p"

section \<open>The queue\<close>

type_synonym queued = "client_event \<times> nat"

record event_queue =
  q_events :: "queued list"
  q_bytes :: nat
  q_marks :: "(event_context \<times> nat) list"
  q_closed :: bool
  q_terminal :: bool

definition new_queue :: event_queue where
  "new_queue = \<lparr>q_events = [], q_bytes = 0, q_marks = [], q_closed = False, q_terminal = False\<rparr>"

datatype push_result = Accepted | DroppedPush | Overflow | ClosedPush

fun first_index :: "('a \<Rightarrow> bool) \<Rightarrow> 'a list \<Rightarrow> nat option" where
  "first_index P [] = None"
| "first_index P (x # xs) = (if P x then Some 0 else map_option Suc (first_index P xs))"

definition remove_nth :: "nat \<Rightarrow> 'a list \<Rightarrow> 'a list" where
  "remove_nth i xs = take i xs @ drop (Suc i) xs"

definition queue_remove_at :: "nat \<Rightarrow> event_queue \<Rightarrow> event_queue" where
  "queue_remove_at i q =
     (if i < length (q_events q)
      then q\<lparr>q_events := remove_nth i (q_events q), q_bytes := q_bytes q - snd (q_events q ! i)\<rparr> else q)"

definition retain_events :: "(queued \<Rightarrow> bool) \<Rightarrow> event_queue \<Rightarrow> event_queue" where
  "retain_events keep q =
     (let kept = filter keep (q_events q) in q\<lparr>q_events := kept, q_bytes := sum_list (map snd kept)\<rparr>)"

definition push_back :: "client_event \<Rightarrow> nat \<Rightarrow> event_queue \<Rightarrow> event_queue" where
  "push_back ev b q = q\<lparr>q_events := q_events q @ [(ev, b)], q_bytes := q_bytes q + b\<rparr>"

lemma first_index_Some: "first_index P xs = Some i \<longleftrightarrow> i < length xs \<and> P (xs ! i) \<and> (\<forall>j < i. \<not> P (xs ! j))"
proof (induction xs arbitrary: i)
  case (Cons x xs)
  show ?case by (cases i) (auto simp: Cons less_Suc_eq_0_disj)
qed simp

lemma first_index_None: "first_index P xs = None \<longleftrightarrow> (\<forall>x \<in> set xs. \<not> P x)"
  by (induction xs) auto

text \<open>The loop that makes room: the oldest delta goes until the event fits; the result tells whether
  it does.\<close>

definition too_full :: "nat \<Rightarrow> event_queue \<Rightarrow> bool" where
  "too_full b q \<longleftrightarrow> EVENT_QUEUE_CAPACITY \<le> length (q_events q) \<or> EVENT_QUEUE_BYTE_LIMIT < q_bytes q + b"

function make_room :: "nat \<Rightarrow> event_queue \<Rightarrow> bool \<times> event_queue" where
  "make_room b q =
     (if \<not> too_full b q then (True, q)
      else case first_index (\<lambda>e. is_lossy_client_event (fst e)) (q_events q) of
             None \<Rightarrow> (False, q)
           | Some i \<Rightarrow> make_room b (queue_remove_at i q))"
  by pat_completeness auto
termination
  by (relation "measure (\<lambda>(b, q). length (q_events q))")
     (auto simp: queue_remove_at_def remove_nth_def first_index_Some)

declare make_room.simps [simp del]

definition raise_mark :: "event_context \<Rightarrow> nat \<Rightarrow> (event_context \<times> nat) list \<Rightarrow> (event_context \<times> nat) list" where
  "raise_mark c seq marks = map (\<lambda>(c', f). if c' = c then (c', max f seq) else (c', f)) marks"

definition is_marked :: "event_context \<Rightarrow> event_queue \<Rightarrow> bool" where
  "is_marked c q \<longleftrightarrow> c \<in> fst ` set (q_marks q)"

definition mark_resync :: "(client_event \<Rightarrow> nat) \<Rightarrow> event_context \<Rightarrow> nat \<Rightarrow> event_queue \<Rightarrow> bool \<times> event_queue" where
  "mark_resync sz c seq q =
     (if is_marked c q then (True, q\<lparr>q_marks := raise_mark c seq (q_marks q)\<rparr>)
      else if MAX_RESYNC_CONTEXTS \<le> length (q_marks q) then (False, q)
      else case make_room (sz (ResyncNeeded c)) q of
             (False, q) \<Rightarrow> (False, q)
           | (True, q) \<Rightarrow>
               (True, (push_back (ResyncNeeded c) (sz (ResyncNeeded c)) q)\<lparr>q_marks := q_marks q @ [(c, seq)]\<rparr>))"

definition push_delta :: "(client_event \<Rightarrow> nat) \<Rightarrow> client_event \<Rightarrow> event_context \<Rightarrow> nat \<Rightarrow> event_queue \<Rightarrow> push_result \<times> event_queue" where
  "push_delta sz ev c seq q =
     (if is_marked c q then (DroppedPush, q\<lparr>q_marks := raise_mark c seq (q_marks q)\<rparr>)
      else if q_events q \<noteq> [] \<and> can_merge_delta (fst (last (q_events q))) ev \<and>
              q_bytes q + sz ev \<le> EVENT_QUEUE_BYTE_LIMIT
      then (let (p, old) = last (q_events q); m = merge_delta p ev;
                bytes = (if old \<le> sz m then q_bytes q + (sz m - old) else q_bytes q - (old - sz m))
            in (if bytes \<le> EVENT_QUEUE_BYTE_LIMIT then Accepted else Overflow,
                q\<lparr>q_events := butlast (q_events q) @ [(m, sz m)], q_bytes := bytes\<rparr>))
      else if length (q_events q) < EVENT_QUEUE_LIMIT \<and> q_bytes q + sz ev \<le> EVENT_QUEUE_ADMISSION_LIMIT
      then (Accepted, push_back ev (sz ev) q)
      else case mark_resync sz c seq q of
             (True, q) \<Rightarrow> (DroppedPush, q)
           | (False, q) \<Rightarrow> (Overflow, q))"

definition push_control :: "(client_event \<Rightarrow> nat) \<Rightarrow> client_event \<Rightarrow> event_queue \<Rightarrow> push_result \<times> event_queue" where
  "push_control sz ev q =
     (let b = sz ev in
      case (case client_event_key ev of None \<Rightarrow> None
            | Some k \<Rightarrow> first_index (\<lambda>e. client_event_key (fst e) = Some k) (q_events q)) of
        Some i \<Rightarrow>
          if EVENT_QUEUE_BYTE_LIMIT < q_bytes q - snd (q_events q ! i) + b then (Overflow, q)
          else (Accepted, push_back ev b (queue_remove_at i q))
      | None \<Rightarrow>
          if length (q_events q) < EVENT_QUEUE_LIMIT \<and> q_bytes q + b \<le> EVENT_QUEUE_ADMISSION_LIMIT
          then (Accepted, push_back ev b q)
          else (case make_room b q of
                  (False, q) \<Rightarrow> (Overflow, q)
                | (True, q) \<Rightarrow> (Accepted, push_back ev b q)))"

definition queue_push :: "(client_event \<Rightarrow> nat) \<Rightarrow> client_event \<Rightarrow> nat option \<Rightarrow> event_queue \<Rightarrow> push_result \<times> event_queue" where
  "queue_push sz ev resync_seq q =
     (if q_closed q then (ClosedPush, q)
      else
        (let q = (if is_connected_event ev then retain_events (\<lambda>e. \<not> is_marker (fst e)) (q\<lparr>q_marks := []\<rparr>) else q)
         in case ev of
              ResyncNeeded c \<Rightarrow>
                (case mark_resync sz c (case resync_seq of Some n \<Rightarrow> n | None \<Rightarrow> 0) q of
                   (True, q) \<Rightarrow> (Accepted, q)
                 | (False, q) \<Rightarrow> (Overflow, q))
            | SessionEvent c seq e \<Rightarrow>
                if is_lossy_delta e then push_delta sz ev c seq q else push_control sz ev q
            | _ \<Rightarrow> push_control sz ev q))"

text \<open>The last event of a stream takes its place whatever is in the way.  With an empty queue the
  loop of the source would not end on an event above the limit: then the value is None.\<close>

function force_room :: "nat \<Rightarrow> event_queue \<Rightarrow> event_queue option" where
  "force_room b q =
     (if \<not> too_full b q then Some q
      else if q_events q = [] then None
      else force_room b
        (queue_remove_at (case first_index (\<lambda>e. is_lossy_client_event (fst e)) (q_events q) of Some i \<Rightarrow> i | None \<Rightarrow> 0) q))"
  by pat_completeness auto
termination
  by (relation "measure (\<lambda>(b, q). length (q_events q))")
     (auto simp: queue_remove_at_def remove_nth_def first_index_Some split: option.split)

declare force_room.simps [simp del]

definition force_terminal :: "(client_event \<Rightarrow> nat) \<Rightarrow> client_event \<Rightarrow> event_queue \<Rightarrow> event_queue option" where
  "force_terminal sz ev q =
     (if q_terminal q then Some q
      else map_option (\<lambda>q. (push_back ev (sz ev) q)\<lparr>q_terminal := True, q_closed := True\<rparr>) (force_room (sz ev) q))"

definition emit_with_resync ::
    "(client_event \<Rightarrow> nat) \<Rightarrow> client_event \<Rightarrow> nat option \<Rightarrow> event_queue \<Rightarrow> (bool \<times> event_queue) option" where
  "emit_with_resync sz ev resync_seq q =
     (case queue_push sz ev resync_seq q of
        (Overflow, q) \<Rightarrow>
          map_option (Pair False)
            (force_terminal sz (Disconnected (client_context ev) ''client event queue overflow'') q)
      | (ClosedPush, q) \<Rightarrow> Some (False, q)
      | (_, q) \<Rightarrow> Some (True, q))"

definition snapshot_applied :: "session_id \<Rightarrow> nat \<Rightarrow> event_queue \<Rightarrow> event_queue" where
  "snapshot_applied session seq q =
     (let live = map fst (filter (\<lambda>(c, f). x_session c = Some session \<and> seq < f) (q_marks q));
          q = retain_events
            (\<lambda>(ev, _). case ev of
               ResyncNeeded c \<Rightarrow> if x_session c = Some session then c \<in> set live else True
             | SessionEvent c n e \<Rightarrow> is_global e \<or> x_session c \<noteq> Some session \<or> seq < n
             | _ \<Rightarrow> True) q
      in q\<lparr>q_marks := filter (\<lambda>(c, f). x_session c \<noteq> Some session \<or> seq < f) (q_marks q)\<rparr>)"

definition close_queue :: "event_queue \<Rightarrow> event_queue" where
  "close_queue q = q\<lparr>q_closed := True\<rparr>"

definition try_recv :: "event_queue \<Rightarrow> client_event option \<times> event_queue" where
  "try_recv q =
     (case q_events q of [] \<Rightarrow> (None, q)
      | (ev, b) # es \<Rightarrow> (Some ev, q\<lparr>q_events := es, q_bytes := q_bytes q - b\<rparr>))"

section \<open>Bounds\<close>

lemma remove_nth_facts:
  assumes "i < length xs"
  shows "length (remove_nth i xs) = length xs - 1" "set (remove_nth i xs) \<subseteq> set xs"
    "sum_list (map f (remove_nth i xs)) + f (xs ! i) = (sum_list (map f xs) :: nat)"
    "\<not> P (xs ! i) \<Longrightarrow> filter P (remove_nth i xs) = filter P xs"
proof -
  obtain ys zs where xs: "xs = ys @ xs ! i # zs" and r: "remove_nth i xs = ys @ zs"
    using id_take_nth_drop [OF assms] by (auto simp: remove_nth_def)
  show "length (remove_nth i xs) = length xs - 1" using assms by (simp add: remove_nth_def)
  show "set (remove_nth i xs) \<subseteq> set xs" by (auto simp: remove_nth_def dest: in_set_takeD in_set_dropD)
  have "sum_list (map f xs) = sum_list (map f (ys @ xs ! i # zs))" using xs by simp
  then show "sum_list (map f (remove_nth i xs)) + f (xs ! i) = sum_list (map f xs)" by (simp add: r)
  have "filter P xs = filter P (ys @ xs ! i # zs)" using xs by simp
  then show "\<not> P (xs ! i) \<Longrightarrow> filter P (remove_nth i xs) = filter P xs" by (simp add: r)
qed

lemma remove_nth_filter:
  assumes "i < length xs"
  shows "length (filter P (remove_nth i xs)) \<le> length (filter P xs)"
    "P (xs ! i) \<Longrightarrow> Suc (length (filter P (remove_nth i xs))) = length (filter P xs)"
proof -
  obtain ys zs where xs: "xs = ys @ xs ! i # zs" and r: "remove_nth i xs = ys @ zs"
    using id_take_nth_drop [OF assms] by (auto simp: remove_nth_def)
  have "filter P xs = filter P (ys @ xs ! i # zs)" using xs by simp
  then show "length (filter P (remove_nth i xs)) \<le> length (filter P xs)"
    "P (xs ! i) \<Longrightarrow> Suc (length (filter P (remove_nth i xs))) = length (filter P xs)" by (auto simp: r)
qed

text \<open>The size kept for each event is its size, and the total is their sum; \<open>q_ok\<close> adds the caps.\<close>

definition keys_once :: "queued list \<Rightarrow> bool" where
  "keys_once es \<longleftrightarrow> (\<forall>k. length (filter (\<lambda>e. client_event_key (fst e) = Some k) es) \<le> 1)"

lemma keys_once_remove: "keys_once xs \<Longrightarrow> i < length xs \<Longrightarrow> keys_once (remove_nth i xs)"
  unfolding keys_once_def using remove_nth_filter le_trans by blast

lemma keys_once_filter: "keys_once xs \<Longrightarrow> keys_once (filter keep xs)"
proof -
  have "length (filter P (filter keep xs)) \<le> length (filter P xs)" for P :: "queued \<Rightarrow> bool"
    by (induction xs) auto
  then show "keys_once xs \<Longrightarrow> keys_once (filter keep xs)" unfolding keys_once_def using le_trans by blast
qed

lemma keys_once_append:
  "keys_once (xs @ [e]) \<longleftrightarrow> keys_once xs \<and>
     (\<forall>k. client_event_key (fst e) = Some k \<longrightarrow> (\<forall>x \<in> set xs. client_event_key (fst x) \<noteq> Some k))"
  by (auto simp: keys_once_def filter_empty_conv split: if_split_asm)

definition sizes_ok :: "(client_event \<Rightarrow> nat) \<Rightarrow> event_queue \<Rightarrow> bool" where
  "sizes_ok sz q \<longleftrightarrow> q_bytes q = sum_list (map snd (q_events q)) \<and> (\<forall>(ev, b) \<in> set (q_events q). b = sz ev) \<and>
     length (q_events q) \<le> EVENT_QUEUE_CAPACITY \<and> length (q_marks q) \<le> MAX_RESYNC_CONTEXTS \<and>
     distinct (map fst (q_marks q)) \<and> keys_once (q_events q) \<and> (q_terminal q \<longrightarrow> q_closed q)"

definition client_queue_ok :: "(client_event \<Rightarrow> nat) \<Rightarrow> event_queue \<Rightarrow> bool" where
  "client_queue_ok sz q \<longleftrightarrow> sizes_ok sz q \<and> q_bytes q \<le> EVENT_QUEUE_BYTE_LIMIT"

lemma sizes_ok_remove:
  assumes "sizes_ok sz q"
  shows "sizes_ok sz (queue_remove_at i q)" "q_bytes (queue_remove_at i q) \<le> q_bytes q"
proof -
  have "i < length (q_events q) \<Longrightarrow> sum_list (map snd (remove_nth i (q_events q))) = sum_list (map snd (q_events q)) - snd (q_events q ! i)"
    using remove_nth_facts(3) [of i "q_events q" snd] by simp
  then show "sizes_ok sz (queue_remove_at i q)"
    using assms remove_nth_facts(1,2) [of i "q_events q"] keys_once_remove [of "q_events q" i]
    by (auto simp: sizes_ok_def queue_remove_at_def)
  show "q_bytes (queue_remove_at i q) \<le> q_bytes q" by (simp add: queue_remove_at_def)
qed

lemma sizes_ok_push_back:
  "sizes_ok sz q \<Longrightarrow> length (q_events q) < EVENT_QUEUE_CAPACITY \<Longrightarrow>
     (\<And>k x. client_event_key ev = Some k \<Longrightarrow> x \<in> set (q_events q) \<Longrightarrow> client_event_key (fst x) \<noteq> Some k) \<Longrightarrow>
     sizes_ok sz (push_back ev (sz ev) q)"
  by (auto simp: sizes_ok_def push_back_def keys_once_append)

lemma sizes_ok_retain:
  assumes "sizes_ok sz q"
  shows "sizes_ok sz (retain_events keep q)" "q_bytes (retain_events keep q) \<le> q_bytes q"
proof -
  have "sum_list (map snd (filter keep xs)) \<le> sum_list (map snd xs)" for xs :: "queued list"
    by (induction xs) auto
  then show "q_bytes (retain_events keep q) \<le> q_bytes q" using assms by (simp add: sizes_ok_def retain_events_def Let_def)
  have "length (filter keep (q_events q)) \<le> EVENT_QUEUE_CAPACITY"
    using assms length_filter_le [of keep "q_events q"] unfolding sizes_ok_def by linarith
  then show "sizes_ok sz (retain_events keep q)"
    using assms keys_once_filter by (auto simp: sizes_ok_def retain_events_def Let_def)
qed

lemma sizes_ok_marks:
  "sizes_ok sz q \<Longrightarrow> length ms \<le> MAX_RESYNC_CONTEXTS \<Longrightarrow> distinct (map fst ms) \<Longrightarrow> sizes_ok sz (q\<lparr>q_marks := ms\<rparr>)"
  by (simp add: sizes_ok_def)

lemma raise_mark_fst: "map fst (raise_mark c seq ms) = map fst ms"
  by (induction ms) (auto simp: raise_mark_def)

lemma raise_mark_length: "length (raise_mark c seq ms) = length ms"
  by (simp add: raise_mark_def)

abbreviation controls :: "event_queue \<Rightarrow> client_event list" where
  "controls q \<equiv> filter (\<lambda>e. \<not> is_lossy_client_event e \<and> \<not> is_marker e) (map fst (q_events q))"

lemma make_room_facts:
  "make_room b q = (r, q') \<Longrightarrow> sizes_ok sz q \<Longrightarrow>
     sizes_ok sz q' \<and> q_marks q' = q_marks q \<and> q_closed q' = q_closed q \<and> q_terminal q' = q_terminal q \<and>
     q_bytes q' \<le> q_bytes q \<and> (r \<longrightarrow> \<not> too_full b q') \<and> controls q' = controls q"
proof (induction b q rule: make_room.induct)
  case (1 b q)
  show ?case
  proof (cases "first_index (\<lambda>e. is_lossy_client_event (fst e)) (q_events q)")
    case None
    then show ?thesis using 1 by (subst (asm) (2) make_room.simps) (auto split: if_split_asm)
  next
    case (Some i)
    then have i: "i < length (q_events q)" "is_lossy_client_event (fst (q_events q ! i))" by (auto simp: first_index_Some)
    show ?thesis
    proof (cases "too_full b q")
      case True
      then have "make_room b (queue_remove_at i q) = (r, q')" using 1(2) Some by (subst (asm) make_room.simps) simp
      note ih = 1(1) [OF _ Some this sizes_ok_remove(1) [OF 1(3)]]
      have "controls (queue_remove_at i q) = controls q"
        using i remove_nth_facts(4) [OF i(1), of "\<lambda>e. \<not> is_lossy_client_event (fst e) \<and> \<not> is_marker (fst e)"]
        by (simp add: queue_remove_at_def filter_map o_def)
      then show ?thesis using ih True sizes_ok_remove(2) [OF 1(3), of i] by (auto simp: queue_remove_at_def)
    next
      case False
      then show ?thesis using 1(2,3) by (subst (asm) make_room.simps) simp
    qed
  qed
qed

lemma make_room_subset: "make_room b q = (r, q') \<Longrightarrow> set (q_events q') \<subseteq> set (q_events q)"
proof (induction b q rule: make_room.induct)
  case (1 b q)
  have "set (q_events (queue_remove_at i q)) \<subseteq> set (q_events q)" for i
    using remove_nth_facts(2) [of i "q_events q"] by (auto simp: queue_remove_at_def)
  then show ?case using 1 by (subst (asm) (2) make_room.simps) (fastforce split: if_split_asm option.split_asm)
qed

lemma mark_resync_facts:
  assumes "mark_resync sz c seq q = (r, q')" "sizes_ok sz q" "q_bytes q \<le> EVENT_QUEUE_BYTE_LIMIT"
  shows "sizes_ok sz q'" "q_bytes q' \<le> EVENT_QUEUE_BYTE_LIMIT" "q_closed q' = q_closed q" "q_terminal q' = q_terminal q"
    "controls q' = controls q" "r \<Longrightarrow> \<exists>f \<ge> seq. (c, f) \<in> set (q_marks q')"
proof -
  let ?b = "sz (ResyncNeeded c)"
  obtain ok q1 where room: "make_room ?b q = (ok, q1)" by fastforce
  note f = make_room_facts [OF room assms(2)]
  have marked: "\<exists>f \<ge> seq. (c, f) \<in> set (raise_mark c seq (q_marks q))" if m: "is_marked c q"
  proof -
    obtain f where "(c, f) \<in> set (q_marks q)" using m by (force simp: is_marked_def)
    then have "(c, max f seq) \<in> set (raise_mark c seq (q_marks q))" by (force simp: raise_mark_def)
    then show ?thesis using max.cobounded2 by blast
  qed
  consider "is_marked c q" "r" "q' = q\<lparr>q_marks := raise_mark c seq (q_marks q)\<rparr>"
    | "\<not> r" "q' = q"
    | "\<not> r" "q' = q1"
    | "\<not> is_marked c q" "length (q_marks q) < MAX_RESYNC_CONTEXTS" "ok" "r"
      "q' = (push_back (ResyncNeeded c) ?b q1)\<lparr>q_marks := q_marks q1 @ [(c, seq)]\<rparr>"
    using assms(1) room by (auto simp: mark_resync_def split: if_split_asm bool.splits)
  then show "sizes_ok sz q'" "q_bytes q' \<le> EVENT_QUEUE_BYTE_LIMIT" "q_closed q' = q_closed q" "q_terminal q' = q_terminal q"
    "controls q' = controls q" "r \<Longrightarrow> \<exists>f \<ge> seq. (c, f) \<in> set (q_marks q')"
  proof (atomize (full), cases, goal_cases)
    case 1
    then show ?case using marked assms(2,3) by (auto simp: sizes_ok_def raise_mark_fst raise_mark_length)
  next
    case 2
    then show ?case using assms(2,3) by simp
  next
    case 3
    then show ?case using f assms(3) by auto
  next
    case 4
    have "sizes_ok sz (push_back (ResyncNeeded c) ?b q1)"
      using f 4 by (intro sizes_ok_push_back) (auto simp: too_full_def)
    moreover have "q_marks (push_back (ResyncNeeded c) ?b q1) = q_marks q1" by (simp add: push_back_def)
    moreover have "distinct (map fst (q_marks q))" using assms(2) by (simp add: sizes_ok_def)
    ultimately have "sizes_ok sz q'"
      using f 4 by (auto simp: 4(5) is_marked_def intro!: sizes_ok_marks)
    moreover have "q_bytes q' \<le> EVENT_QUEUE_BYTE_LIMIT" using f 4 by (simp add: push_back_def too_full_def)
    ultimately show ?case using f 4 by (auto simp: push_back_def)
  qed
qed

section \<open>Pushing\<close>

abbreviation is_control :: "client_event \<Rightarrow> bool" where
  "is_control ev \<equiv> \<not> is_lossy_client_event ev \<and> \<not> is_marker ev"

text \<open>A control event replaces the queued one of its key.\<close>

definition with_control :: "client_event \<Rightarrow> client_event list \<Rightarrow> client_event list" where
  "with_control ev es = filter (\<lambda>e. client_event_key ev = None \<or> client_event_key e \<noteq> client_event_key ev) es @ [ev]"

lemma is_control_key: "client_event_key ev = Some k \<Longrightarrow> is_control ev"
  by (cases ev) (auto elim!: global_event_key.elims)

lemma controls_push_back: "controls (push_back ev b q) = controls q @ (if is_control ev then [ev] else [])"
  by (simp add: push_back_def)

lemma with_control_fresh:
  "(\<And>k x. client_event_key ev = Some k \<Longrightarrow> x \<in> set es \<Longrightarrow> client_event_key x \<noteq> Some k) \<Longrightarrow>
     with_control ev es = es @ [ev]"
  by (cases "client_event_key ev") (auto simp: with_control_def intro: filter_True)

lemma take_over_facts:
  assumes "first_index (\<lambda>e. client_event_key (fst e) = Some k) (q_events q) = Some i" and "sizes_ok sz q"
  shows "\<forall>x \<in> set (q_events (queue_remove_at i q)). client_event_key (fst x) \<noteq> Some k"
    "controls (queue_remove_at i q) = filter (\<lambda>e. client_event_key e \<noteq> Some k) (controls q)"
    "length (q_events (queue_remove_at i q)) < length (q_events q)" "i < length (q_events q)"
proof -
  let ?es = "q_events q" and ?P = "\<lambda>e. client_event_key (fst e) = Some k"
  have i: "i < length ?es" "?P (?es ! i)" using assms(1) by (auto simp: first_index_Some)
  then show "length (q_events (queue_remove_at i q)) < length ?es" "i < length ?es"
    by (simp_all add: queue_remove_at_def remove_nth_facts(1))
  have "length (filter ?P ?es) \<le> 1" using assms(2) by (simp add: sizes_ok_def keys_once_def)
  then have "filter ?P (remove_nth i ?es) = []" using remove_nth_filter(2) [of i ?es ?P, OF i]
    by (metis Suc_le_mono One_nat_def le_zero_eq length_0_conv)
  then show fresh: "\<forall>x \<in> set (q_events (queue_remove_at i q)). \<not> ?P x"
    using i by (auto simp: queue_remove_at_def filter_empty_conv)
  let ?Q = "\<lambda>e. client_event_key (fst e) \<noteq> Some k \<and> is_control (fst e)"
  have "filter ?Q (remove_nth i ?es) = filter ?Q ?es" using i by (intro remove_nth_facts(4)) auto
  moreover have "filter ?Q (remove_nth i ?es) = filter (\<lambda>e. is_control (fst e)) (remove_nth i ?es)"
    using fresh i by (intro filter_cong) (auto simp: queue_remove_at_def)
  ultimately have "filter (\<lambda>e. is_control (fst e)) (remove_nth i ?es) = filter ?Q ?es" by simp
  then have "map fst (filter (\<lambda>e. is_control (fst e)) (remove_nth i ?es)) = map fst (filter ?Q ?es)" by (rule arg_cong)
  then show "controls (queue_remove_at i q) = filter (\<lambda>e. client_event_key e \<noteq> Some k) (controls q)"
    using i by (simp add: queue_remove_at_def filter_map o_def conj_commute)
qed

lemma push_control_facts:
  assumes "push_control sz ev q = (r, q')" "client_queue_ok sz q" "is_control ev"
  shows "sizes_ok sz q' \<and> q_closed q' = q_closed q \<and> q_terminal q' = q_terminal q \<and> q_bytes q' \<le> EVENT_QUEUE_BYTE_LIMIT \<and>
    q_marks q' = q_marks q \<and> r \<in> {Accepted, Overflow} \<and>
    (r \<noteq> Overflow \<longrightarrow> controls q' = with_control ev (controls q))"
proof -
  let ?find = "case client_event_key ev of None \<Rightarrow> None
      | Some k \<Rightarrow> first_index (\<lambda>e. client_event_key (fst e) = Some k) (q_events q)"
  have ok: "sizes_ok sz q" "q_bytes q \<le> EVENT_QUEUE_BYTE_LIMIT" using assms(2) by (auto simp: client_queue_ok_def)
  show ?thesis
  proof (cases ?find)
    case (Some i)
    then obtain k where k: "client_event_key ev = Some k"
      and i: "first_index (\<lambda>e. client_event_key (fst e) = Some k) (q_events q) = Some i" by (auto split: option.split_asm)
    note t = take_over_facts [OF i ok(1)]
    show ?thesis
    proof (cases "EVENT_QUEUE_BYTE_LIMIT < q_bytes q - snd (q_events q ! i) + sz ev")
      case True
      then have "r = Overflow" "q' = q" using assms(1) Some by (auto simp: push_control_def)
      then show ?thesis using ok by simp
    next
      case False
      then have res: "r = Accepted" "q' = push_back ev (sz ev) (queue_remove_at i q)"
        using assms(1) Some by (auto simp: push_control_def)
      have "sizes_ok sz q'" unfolding res
        using t k ok(1) by (intro sizes_ok_push_back sizes_ok_remove) (auto simp: sizes_ok_def)
      moreover have "q_bytes q' \<le> EVENT_QUEUE_BYTE_LIMIT"
        using False t(4) by (simp add: res push_back_def queue_remove_at_def)
      moreover have "controls q' = with_control ev (controls q)"
        using t(2) k assms(3) by (simp add: res controls_push_back with_control_def)
      ultimately show ?thesis by (simp add: res(1)) (simp add: res push_back_def queue_remove_at_def)
    qed
  next
    case None
    then have fresh: "\<And>k x. client_event_key ev = Some k \<Longrightarrow> x \<in> set (q_events q) \<Longrightarrow> client_event_key (fst x) \<noteq> Some k"
      by (auto simp: first_index_None)
    obtain room q1 where room: "make_room (sz ev) q = (room, q1)" by fastforce
    note f = make_room_facts [OF room ok(1)]
    have sub: "set (q_events q1) \<subseteq> set (q_events q)" using make_room_subset [OF room] .
    have keyed: "x \<in> set (controls q) \<Longrightarrow> client_event_key ev = Some k \<Longrightarrow> client_event_key x \<noteq> Some k" for x k
      using fresh by auto
    have appended: "with_control ev (controls q) = controls q @ [ev]"
      by (rule with_control_fresh) (rule keyed)
    consider "length (q_events q) < EVENT_QUEUE_LIMIT" "q_bytes q + sz ev \<le> EVENT_QUEUE_ADMISSION_LIMIT" "r = Accepted"
        "q' = push_back ev (sz ev) q"
      | "r = Overflow" "q' = q1" | "room" "r = Accepted" "q' = push_back ev (sz ev) q1"
      using assms(1) None room by (auto simp: push_control_def Let_def split: if_split_asm bool.split_asm)
    then show ?thesis
    proof cases
      case 1
      have "sizes_ok sz q'" using 1 ok(1) fresh by (auto intro!: sizes_ok_push_back simp: EVENT_QUEUE_LIMIT_def)
      moreover have "q_bytes q' \<le> EVENT_QUEUE_BYTE_LIMIT" using 1 by (simp add: push_back_def EVENT_QUEUE_ADMISSION_LIMIT_def)
      ultimately show ?thesis
        using assms(3) appended by (simp add: 1 push_back_def)
    next
      case 2
      then show ?thesis using f ok(2) by auto
    next
      case 3
      have "sizes_ok sz q'" using 3 f fresh sub by (auto intro!: sizes_ok_push_back simp: too_full_def)
      moreover have "q_bytes q' \<le> EVENT_QUEUE_BYTE_LIMIT" using 3 f by (simp add: push_back_def too_full_def)
      ultimately show ?thesis
        using assms(3) f appended by (simp add: 3 push_back_def)
    qed
  qed
qed

lemma merge_lossy:
  "can_merge_delta p ev \<Longrightarrow> is_lossy_client_event p \<and> is_lossy_client_event (merge_delta p ev) \<and> is_lossy_client_event ev"
  by (cases "(p, ev)" rule: can_merge_delta.cases) auto

lemma lossy_key: "is_lossy_client_event ev \<Longrightarrow> client_event_key ev = None"
  by (cases ev) (auto elim!: is_lossy_delta.elims)

lemma merged_facts:
  assumes "sizes_ok sz q" "q_events q \<noteq> []" "last (q_events q) = (p, old)" "can_merge_delta p ev"
    and q': "q' = q\<lparr>q_events := butlast (q_events q) @ [(merge_delta p ev, sz (merge_delta p ev))],
                     q_bytes := bytes\<rparr>"
    and bytes: "bytes = (if old \<le> sz (merge_delta p ev) then q_bytes q + (sz (merge_delta p ev) - old)
                         else q_bytes q - (old - sz (merge_delta p ev)))"
  shows "sizes_ok sz q' \<and> controls q' = controls q"
proof -
  obtain es where es: "q_events q = es @ [(p, old)]"
    using assms(2,3) by (metis append_butlast_last_id)
  have lossy: "is_lossy_client_event p" "is_lossy_client_event (merge_delta p ev)" using merge_lossy [OF assms(4)] by auto
  have "keys_once es" using assms(1) by (simp add: sizes_ok_def es keys_once_append)
  then have "keys_once (es @ [(merge_delta p ev, sz (merge_delta p ev))])" using lossy lossy_key by (simp add: keys_once_append)
  then have "sizes_ok sz q'" using assms(1) by (auto simp: sizes_ok_def q' es bytes)
  then show ?thesis using lossy by (simp add: q' es)
qed

lemma push_delta_facts:
  assumes "push_delta sz ev c seq q = (r, q')" "client_queue_ok sz q" "ev = SessionEvent c seq e" "is_lossy_delta e"
  shows "sizes_ok sz q' \<and> q_closed q' = q_closed q \<and> q_terminal q' = q_terminal q \<and>
    r \<in> {Accepted, DroppedPush, Overflow} \<and>
    (r \<noteq> Overflow \<longrightarrow> q_bytes q' \<le> EVENT_QUEUE_BYTE_LIMIT \<and> controls q' = controls q) \<and>
    (r = DroppedPush \<longrightarrow> (\<exists>f \<ge> seq. (c, f) \<in> set (q_marks q'))) \<and>
    (r = Accepted \<longrightarrow> q_events q' \<noteq> [] \<and>
       fst (last (q_events q')) \<in> {ev, merge_delta (fst (last (q_events q))) ev})"
proof -
  have ok: "sizes_ok sz q" "q_bytes q \<le> EVENT_QUEUE_BYTE_LIMIT" using assms(2) by (auto simp: client_queue_ok_def)
  have lossy: "is_lossy_client_event ev" using assms(3,4) by simp
  show ?thesis
  proof (cases "is_marked c q")
    case True
    then have q': "r = DroppedPush" "q' = q\<lparr>q_marks := raise_mark c seq (q_marks q)\<rparr>"
      using assms(1) by (auto simp: push_delta_def)
    have "mark_resync sz c seq q = (True, q')" using True by (simp add: mark_resync_def q')
    from mark_resync_facts [OF this ok] show ?thesis using q'(1) by auto
  next
    case unmarked: False
    obtain p old where last: "last (q_events q) = (p, old)" by fastforce
    show ?thesis
    proof (cases "q_events q \<noteq> [] \<and> can_merge_delta (fst (last (q_events q))) ev \<and>
        q_bytes q + sz ev \<le> EVENT_QUEUE_BYTE_LIMIT")
      case True
      let ?m = "merge_delta p ev"
      define bytes where "bytes = (if old \<le> sz ?m then q_bytes q + (sz ?m - old) else q_bytes q - (old - sz ?m))"
      have q': "q' = q\<lparr>q_events := butlast (q_events q) @ [(?m, sz ?m)], q_bytes := bytes\<rparr>"
        and r: "r = (if bytes \<le> EVENT_QUEUE_BYTE_LIMIT then Accepted else Overflow)"
        using assms(1) True unmarked last by (auto simp: push_delta_def bytes_def Let_def)
      have "sizes_ok sz q' \<and> controls q' = controls q"
        using True last by (intro merged_facts [OF ok(1) _ last _ q' bytes_def]) auto
      then show ?thesis using last by (simp add: r) (simp add: q')
    next
      case unmerged: False
      show ?thesis
      proof (cases "length (q_events q) < EVENT_QUEUE_LIMIT \<and> q_bytes q + sz ev \<le> EVENT_QUEUE_ADMISSION_LIMIT")
        case True
        then have q': "r = Accepted" "q' = push_back ev (sz ev) q"
          using assms(1) unmarked unmerged by (auto simp: push_delta_def)
        have "sizes_ok sz q'" unfolding q' using True lossy_key [OF lossy]
          by (intro sizes_ok_push_back ok(1)) (auto simp: EVENT_QUEUE_LIMIT_def)
        moreover have "q_bytes q' \<le> EVENT_QUEUE_BYTE_LIMIT"
          using True unfolding q' push_back_def EVENT_QUEUE_ADMISSION_LIMIT_def by simp linarith
        ultimately show ?thesis using lossy by (simp add: q') (simp add: push_back_def)
      next
        case False
        obtain marked q1 where m: "mark_resync sz c seq q = (marked, q1)" by fastforce
        then have q': "r = (if marked then DroppedPush else Overflow)" "q' = q1"
          using assms(1) unmarked unmerged False by (auto simp: push_delta_def split: bool.split_asm if_split_asm)
        show ?thesis using mark_resync_facts [OF m ok] by (auto simp: q')
      qed
    qed
  qed
qed

lemma reset_marks_facts:
  assumes "client_queue_ok sz q"
  shows "client_queue_ok sz (retain_events (\<lambda>e. \<not> is_marker (fst e)) (q\<lparr>q_marks := []\<rparr>))"
    "controls (retain_events (\<lambda>e. \<not> is_marker (fst e)) (q\<lparr>q_marks := []\<rparr>)) = controls q"
proof -
  have "sizes_ok sz (q\<lparr>q_marks := []\<rparr>)" using assms by (simp add: client_queue_ok_def sizes_ok_def)
  from sizes_ok_retain [OF this] show "client_queue_ok sz (retain_events (\<lambda>e. \<not> is_marker (fst e)) (q\<lparr>q_marks := []\<rparr>))"
    using assms unfolding client_queue_ok_def by (force intro: order_trans)
  show "controls (retain_events (\<lambda>e. \<not> is_marker (fst e)) (q\<lparr>q_marks := []\<rparr>)) = controls q"
    by (auto simp: retain_events_def Let_def filter_map o_def intro!: arg_cong [where f = "map fst"] filter_cong)
qed

lemma queue_push_facts:
  assumes "queue_push sz ev rs q = (r, q')" "client_queue_ok sz q" "\<not> q_closed q"
  shows "sizes_ok sz q' \<and> q_closed q' = q_closed q \<and> q_terminal q' = q_terminal q \<and> r \<noteq> ClosedPush \<and>
    (r \<noteq> Overflow \<longrightarrow> q_bytes q' \<le> EVENT_QUEUE_BYTE_LIMIT \<and>
       controls q' = (if is_control ev then with_control ev (controls q) else controls q))"
proof -
  have plain: "sizes_ok sz q' \<and> q_closed q' = q_closed q \<and> q_terminal q' = q_terminal q \<and> r \<noteq> ClosedPush \<and>
    (r \<noteq> Overflow \<longrightarrow> q_bytes q' \<le> EVENT_QUEUE_BYTE_LIMIT \<and>
       controls q' = (if is_control ev then with_control ev (controls q) else controls q))"
    if "push_control sz ev q1 = (r, q')" "client_queue_ok sz q1" "is_control ev"
      "q_closed q1 = q_closed q" "q_terminal q1 = q_terminal q" "controls q1 = controls q" for q1
    using push_control_facts [OF that(1-3)] that(3-6) by auto
  show ?thesis
  proof (cases ev)
    case (Connected c i n b)
    let ?q = "retain_events (\<lambda>e. \<not> is_marker (fst e)) (q\<lparr>q_marks := []\<rparr>)"
    have "push_control sz ev ?q = (r, q')" using assms(1,3) by (simp add: queue_push_def Connected Let_def)
    then show ?thesis
      by (rule plain [OF _ reset_marks_facts(1) [OF assms(2)] _ _ _ reset_marks_facts(2) [OF assms(2)]])
         (simp_all add: retain_events_def Let_def Connected)
  next
    case (ResyncNeeded c)
    obtain ok q1 where m: "mark_resync sz c (case rs of Some n \<Rightarrow> n | None \<Rightarrow> 0) q = (ok, q1)" by fastforce
    then have "r = (if ok then Accepted else Overflow)" "q' = q1"
      using assms(1,3) by (auto simp: queue_push_def ResyncNeeded Let_def split: bool.split_asm if_split_asm)
    then show ?thesis using mark_resync_facts [OF m] assms(2) by (auto simp: ResyncNeeded client_queue_ok_def)
  next
    case (SessionEvent c seq e)
    show ?thesis
    proof (cases "is_lossy_delta e")
      case True
      then have "push_delta sz ev c seq q = (r, q')" using assms(1,3) by (simp add: queue_push_def SessionEvent Let_def)
      from push_delta_facts [OF this assms(2) SessionEvent True] show ?thesis using True by (auto simp: SessionEvent)
    next
      case False
      then have "push_control sz ev q = (r, q')" using assms(1,3) by (simp add: queue_push_def SessionEvent Let_def)
      then show ?thesis by (rule plain [OF _ assms(2)]) (use False in \<open>simp_all add: SessionEvent\<close>)
    qed
  qed (rule plain [OF _ assms(2)]; use assms(1,3) in \<open>simp add: queue_push_def Let_def\<close>)+
qed

lemma force_room_facts:
  "force_room b q = Some q' \<Longrightarrow> sizes_ok sz q \<Longrightarrow>
     sizes_ok sz q' \<and> \<not> too_full b q' \<and> q_marks q' = q_marks q \<and> q_closed q' = q_closed q \<and> q_terminal q' = q_terminal q \<and>
     set (q_events q') \<subseteq> set (q_events q)"
proof (induction b q rule: force_room.induct)
  case (1 b q)
  have sub: "set (q_events (queue_remove_at i q)) \<subseteq> set (q_events q)" for i
    using remove_nth_facts(2) [of i "q_events q"] by (auto simp: queue_remove_at_def)
  have frame: "q_marks (queue_remove_at i q) = q_marks q" "q_closed (queue_remove_at i q) = q_closed q"
    "q_terminal (queue_remove_at i q) = q_terminal q" for i by (simp_all add: queue_remove_at_def)
  show ?case
  proof (cases "too_full b q \<and> q_events q \<noteq> []")
    case True
    then show ?thesis using 1(1) 1(2) sizes_ok_remove(1) [OF 1(3)] sub frame
      by (subst (asm) (2) force_room.simps) (force simp del: force_room.simps)
  next
    case False
    then show ?thesis using 1(2,3) by (subst (asm) force_room.simps) (auto split: if_split_asm)
  qed
qed

lemma force_room_total:
  "b \<le> EVENT_QUEUE_BYTE_LIMIT \<Longrightarrow> sizes_ok sz q \<Longrightarrow> force_room b q \<noteq> None"
proof (induction b q rule: force_room.induct)
  case (1 b q)
  have "too_full b q \<Longrightarrow> q_events q \<noteq> []" using 1(2,3) by (auto simp: too_full_def sizes_ok_def EVENT_QUEUE_CAPACITY_def)
  then show ?case using 1(1,2) sizes_ok_remove(1) [OF 1(3)] by (subst force_room.simps) auto
qed

lemma force_terminal_facts:
  assumes "force_terminal sz ev q = Some q'" "sizes_ok sz q" "client_event_key ev = None"
  shows "sizes_ok sz q' \<and> (\<not> q_terminal q \<longrightarrow> q_bytes q' \<le> EVENT_QUEUE_BYTE_LIMIT) \<and> q_terminal q' \<and>
    (\<not> q_terminal q \<longrightarrow> q_closed q' \<and> q_events q' \<noteq> [] \<and> fst (last (q_events q')) = ev) \<and> (q_terminal q \<longrightarrow> q' = q)"
proof (cases "q_terminal q")
  case True
  then show ?thesis using assms by (simp add: force_terminal_def)
next
  case False
  then obtain q1 where q1: "force_room (sz ev) q = Some q1" "q' = (push_back ev (sz ev) q1)\<lparr>q_terminal := True, q_closed := True\<rparr>"
    using assms(1) by (auto simp: force_terminal_def)
  note f = force_room_facts [OF q1(1) assms(2)]
  have "sizes_ok sz (push_back ev (sz ev) q1)" using f assms(3) by (intro sizes_ok_push_back) (auto simp: too_full_def)
  then have "sizes_ok sz q'" by (simp add: q1(2) sizes_ok_def)
  moreover have "q_bytes q' \<le> EVENT_QUEUE_BYTE_LIMIT" using f by (simp add: q1(2) push_back_def too_full_def)
  ultimately show ?thesis using False by (simp add: q1(2) push_back_def)
qed

lemma emit_facts:
  assumes "emit_with_resync sz ev rs q = Some (ok, q')" "client_queue_ok sz q"
  shows "client_queue_ok sz q'" "q_closed q \<Longrightarrow> \<not> ok \<and> q' = q"
    "\<not> q_closed q \<Longrightarrow> ok \<Longrightarrow> \<not> q_closed q' \<and> controls q' = (if is_control ev then with_control ev (controls q) else controls q)"
    "\<not> q_closed q \<Longrightarrow> \<not> ok \<Longrightarrow> q_closed q' \<and> q_events q' \<noteq> [] \<and>
       fst (last (q_events q')) = Disconnected (client_context ev) ''client event queue overflow''"
proof -
  obtain r q1 where push: "queue_push sz ev rs q = (r, q1)" by fastforce
  consider (closed) "q_closed q" "\<not> ok" "q' = q" | (kept) "\<not> q_closed q" "r \<noteq> Overflow" "ok" "q' = q1"
    | (full) "\<not> q_closed q" "r = Overflow" "\<not> ok"
      "force_terminal sz (Disconnected (client_context ev) ''client event queue overflow'') q1 = Some q'"
  proof (cases "q_closed q")
    case True
    then have "queue_push sz ev rs q = (ClosedPush, q)" by (simp add: queue_push_def)
    then have "\<not> ok" "q' = q" using assms(1) by (simp_all add: emit_with_resync_def)
    then show ?thesis using True by (intro closed)
  next
    case False
    then have "r \<noteq> ClosedPush" using queue_push_facts [OF push assms(2)] by simp
    then have "r \<noteq> Overflow \<and> ok \<and> q' = q1 \<or> r = Overflow \<and> \<not> ok \<and>
        force_terminal sz (Disconnected (client_context ev) ''client event queue overflow'') q1 = Some q'"
      using assms(1) push by (cases r) (auto simp: emit_with_resync_def)
    then show ?thesis using False by (elim disjE conjE) (intro kept, assumption+, intro full, assumption+)
  qed
  then show "client_queue_ok sz q'" "q_closed q \<Longrightarrow> \<not> ok \<and> q' = q"
    "\<not> q_closed q \<Longrightarrow> ok \<Longrightarrow> \<not> q_closed q' \<and> controls q' = (if is_control ev then with_control ev (controls q) else controls q)"
    "\<not> q_closed q \<Longrightarrow> \<not> ok \<Longrightarrow> q_closed q' \<and> q_events q' \<noteq> [] \<and>
       fst (last (q_events q')) = Disconnected (client_context ev) ''client event queue overflow''"
  proof (atomize (full), cases, goal_cases)
    case 1
    then show ?case using assms(2) by simp
  next
    case 2
    then show ?case using queue_push_facts [OF push assms(2)] by (auto simp: client_queue_ok_def)
  next
    case 3
    note p = queue_push_facts [OF push assms(2) 3(1)]
    then have "sizes_ok sz q1" by simp
    moreover have "\<not> q_terminal q1" using p 3(1) by (auto simp: sizes_ok_def)
    ultimately show ?case using force_terminal_facts [OF 3(4)] 3(1-3) by (simp add: client_queue_ok_def)
  qed
qed

section \<open>Steps\<close>

inductive queue_step :: "(client_event \<Rightarrow> nat) \<Rightarrow> event_queue \<Rightarrow> event_queue \<Rightarrow> bool" for sz where
  emitted: "emit_with_resync sz ev rs q = Some (ok, q') \<Longrightarrow> queue_step sz q q'"
| terminated: "force_terminal sz (Disconnected c reason) q = Some q' \<Longrightarrow> queue_step sz q q'"
| snapshot: "queue_step sz q (snapshot_applied session seq q)"
| received: "queue_step sz q (snd (try_recv q))"
| closing: "queue_step sz q (close_queue q)"

lemma snapshot_applied_ok:
  assumes "client_queue_ok sz q"
  shows "client_queue_ok sz (snapshot_applied session seq q)"
proof -
  let ?keep = "\<lambda>(c, f). x_session c \<noteq> Some session \<or> seq < f"
  have trim: "sizes_ok sz q' \<Longrightarrow> sizes_ok sz (q'\<lparr>q_marks := filter ?keep (q_marks q')\<rparr>)" for q'
    using order_trans [OF length_filter_le [of ?keep "q_marks q'"]] distinct_map_filter [of fst "q_marks q'" ?keep]
    by (intro sizes_ok_marks) (simp_all add: sizes_ok_def)
  have "q_bytes (retain_events keep q) \<le> EVENT_QUEUE_BYTE_LIMIT" for keep
    using assms sizes_ok_retain(2) [of sz q keep] unfolding client_queue_ok_def by linarith
  then show ?thesis using assms trim [OF sizes_ok_retain(1)]
    by (simp add: client_queue_ok_def snapshot_applied_def Let_def)
qed

lemma try_recv_ok: "client_queue_ok sz q \<Longrightarrow> client_queue_ok sz (snd (try_recv q))"
proof (cases "q_events q")
  case (Cons e es)
  assume "client_queue_ok sz q"
  then have "client_queue_ok sz (queue_remove_at 0 q)"
    using sizes_ok_remove [of sz q 0] by (auto simp: client_queue_ok_def)
  moreover have "snd (try_recv q) = queue_remove_at 0 q"
    by (cases e) (simp add: try_recv_def queue_remove_at_def remove_nth_def Cons)
  ultimately show ?thesis by simp
qed (simp add: try_recv_def)

lemma queue_step_ok: "queue_step sz q q' \<Longrightarrow> client_queue_ok sz q \<Longrightarrow> client_queue_ok sz q'"
proof (induction rule: queue_step.induct)
  case (emitted ev rs q ok q')
  then show ?case by (rule emit_facts(1))
next
  case (terminated c reason q q')
  then show ?case using force_terminal_facts [OF terminated(1)] by (auto simp: client_queue_ok_def)
next
  case (closing q)
  then show ?case by (auto simp: client_queue_ok_def sizes_ok_def close_queue_def)
qed (rule snapshot_applied_ok try_recv_ok; assumption)+

interpretation event_queue: state_machine new_queue "queue_step sz" "client_queue_ok sz" for sz
  by unfold_locales
     (simp add: client_queue_ok_def sizes_ok_def new_queue_def keys_once_def, rule queue_step_ok)

lemma make_room_spares:
  "make_room b q = (r, q') \<Longrightarrow>
     filter (\<lambda>e. \<not> is_lossy_client_event (fst e)) (q_events q') = filter (\<lambda>e. \<not> is_lossy_client_event (fst e)) (q_events q) \<and>
     length (q_events q') \<le> length (q_events q) \<and> q_marks q' = q_marks q \<and> q_closed q' = q_closed q \<and>
     (r \<and> too_full b q \<longrightarrow> length (q_events q') < length (q_events q))"
proof (induction b q rule: make_room.induct)
  case (1 b q)
  show ?case
  proof (cases "first_index (\<lambda>e. is_lossy_client_event (fst e)) (q_events q)")
    case None
    then show ?thesis using 1(2) by (subst (asm) make_room.simps) (auto split: if_split_asm)
  next
    case (Some i)
    show ?thesis
    proof (cases "too_full b q")
      case True
      let ?q = "queue_remove_at i q"
      have i: "i < length (q_events q)" "is_lossy_client_event (fst (q_events q ! i))" using Some by (auto simp: first_index_Some)
      have "make_room b ?q = (r, q')" using 1(2) Some True by (subst (asm) make_room.simps) simp
      note ih = 1(1) [OF _ Some this]
      have "filter (\<lambda>e. \<not> is_lossy_client_event (fst e)) (q_events ?q) = filter (\<lambda>e. \<not> is_lossy_client_event (fst e)) (q_events q)"
        using i by (simp add: queue_remove_at_def remove_nth_facts(4))
      moreover have "length (q_events ?q) < length (q_events q)" using i by (simp add: queue_remove_at_def remove_nth_facts(1))
      moreover have "q_marks ?q = q_marks q" "q_closed ?q = q_closed q" by (simp_all add: queue_remove_at_def)
      ultimately show ?thesis using ih True by simp
    next
      case False
      then show ?thesis using 1(2) by (subst (asm) make_room.simps) simp
    qed
  qed
qed

section \<open>Properties\<close>

abbreviation queue_reachable :: "(client_event \<Rightarrow> nat) \<Rightarrow> event_queue \<Rightarrow> bool" where
  "queue_reachable sz q \<equiv> (queue_step sz)\<^sup>*\<^sup>* new_queue q"

abbreviation lossy_count :: "event_queue \<Rightarrow> nat" where
  "lossy_count q \<equiv> length (filter (\<lambda>e. is_lossy_client_event (fst e)) (q_events q))"

abbreviation markers :: "event_queue \<Rightarrow> client_event list" where
  "markers q \<equiv> filter is_marker (map fst (q_events q))"

text \<open>C25: The queue of a frontend that stops reading stays small.  Whatever is emitted, terminated,
  received or resynchronised, it holds at most 1024 events, at most 16 MiB by the sizes of the
  events it holds, at most eight contexts marked for resynchronisation and one event of each
  global key.\<close>

theorem client_queue_bounded:
  assumes "queue_reachable sz q"
  shows "length (q_events q) \<le> 1024 \<and> (\<Sum>e \<leftarrow> q_events q. sz (fst e)) \<le> 16 * 1024 * 1024 \<and> length (q_marks q) \<le> 8 \<and>
    length (filter (\<lambda>e. client_event_key (fst e) = Some k) (q_events q)) \<le> 1"
proof -
  have ok: "client_queue_ok sz q" using event_queue.reachable_inv [OF assms] .
  then have "map (\<lambda>e. sz (fst e)) (q_events q) = map snd (q_events q)"
    by (auto simp: client_queue_ok_def sizes_ok_def)
  then have "(\<Sum>e \<leftarrow> q_events q. sz (fst e)) = q_bytes q" using ok by (metis client_queue_ok_def sizes_ok_def)
  then show ?thesis
    using ok by (simp add: client_queue_ok_def sizes_ok_def keys_once_def EVENT_QUEUE_CAPACITY_def MAX_RESYNC_CONTEXTS_def
        EVENT_QUEUE_BYTE_LIMIT_def)
qed

text \<open>C26: An event that is not a text delta is queued or the frontend is told.  At a full queue it
  takes the place of deltas and of the older event with its key only; the other control events
  keep their order.  When there is no room the stream is closed and its last event says so.\<close>

theorem control_events_kept:
  assumes "queue_reachable sz q" "\<not> q_closed q" "is_control ev" "emit_with_resync sz ev rs q = Some (ok, q')"
  shows "if ok then controls q' = with_control ev (controls q)
         else q_closed q' \<and> fst (last (q_events q')) = Disconnected (client_context ev) ''client event queue overflow''"
  using emit_facts(3,4) [OF assms(4) event_queue.reachable_inv [OF assms(1)]] assms(2,3) by simp

text \<open>Emitting always returns: the loops that make room, and the one that forces the last event
  in, end with an answer as long as that event itself fits the queue.\<close>

theorem emit_returns:
  assumes "queue_reachable sz q" "sz (Disconnected (client_context ev) ''client event queue overflow'') \<le> EVENT_QUEUE_BYTE_LIMIT"
  shows "\<exists>ok q'. emit_with_resync sz ev rs q = Some (ok, q')"
proof (cases "queue_push sz ev rs q")
  case (Pair r q1)
  have ok: "client_queue_ok sz q" using event_queue.reachable_inv [OF assms(1)] .
  show ?thesis
  proof (cases "r = Overflow")
    case True
    then have "\<not> q_closed q" using Pair by (auto simp: queue_push_def)
    then have "sizes_ok sz q1" using queue_push_facts [OF Pair ok] by simp
    then have "\<exists>q2. force_terminal sz (Disconnected (client_context ev) ''client event queue overflow'') q1 = Some q2"
      using force_room_total [OF assms(2)] by (auto simp: force_terminal_def)
    then show ?thesis using Pair True by (auto simp: emit_with_resync_def)
  qed (use Pair in \<open>cases r; auto simp: emit_with_resync_def\<close>)
qed

text \<open>A delta that is refused for want of room leaves its mark.  An accepted delta is the last
  event of the queue, alone or joined to the one before it; otherwise its context is marked for
  resynchronisation at its number or above.\<close>

theorem refused_delta_marked:
  assumes "queue_reachable sz q" "\<not> q_closed q" "is_lossy_delta e"
    and "emit_with_resync sz (SessionEvent c seq e) rs q = Some (True, q')"
  shows "fst (last (q_events q')) \<in> {SessionEvent c seq e, merge_delta (fst (last (q_events q))) (SessionEvent c seq e)} \<or>
    (\<exists>f \<ge> seq. (c, f) \<in> set (q_marks q'))"
proof -
  obtain r q1 where push: "push_delta sz (SessionEvent c seq e) c seq q = (r, q1)" by fastforce
  then have "queue_push sz (SessionEvent c seq e) rs q = (r, q1)" using assms(2,3) by (simp add: queue_push_def)
  then have "r \<noteq> Overflow" "q' = q1" using assms(4) by (cases r; auto simp: emit_with_resync_def)+
  then show ?thesis using push_delta_facts [OF push event_queue.reachable_inv [OF assms(1)] refl assms(3)] by auto
qed

text \<open>C27: A delta that is evicted leaves none.  A control event that finds the queue full throws queued
  deltas away, and neither a mark nor a marker tells the frontend that text is missing.\<close>

theorem silent_eviction:
  assumes "queue_reachable sz q" "\<not> q_closed q" "is_control ev" "\<not> is_connected_event ev" "client_event_key ev = None"
    and "too_full (sz ev) q" "emit_with_resync sz ev rs q = Some (True, q')"
  shows "lossy_count q' < lossy_count q \<and> markers q' = markers q \<and> q_marks q' = q_marks q"
proof -
  have "queue_push sz ev rs q = push_control sz ev q" using assms(2-4) by (cases ev) (auto simp: queue_push_def)
  moreover obtain room q1 where room: "make_room (sz ev) q = (room, q1)" by fastforce
  moreover have "\<not> (length (q_events q) < EVENT_QUEUE_LIMIT \<and> q_bytes q + sz ev \<le> EVENT_QUEUE_ADMISSION_LIMIT)"
    using assms(6) by (auto simp: too_full_def EVENT_QUEUE_LIMIT_def EVENT_QUEUE_ADMISSION_LIMIT_def)
  ultimately have "room" and q': "q' = push_back ev (sz ev) q1"
    using assms(5,7) by (auto simp: emit_with_resync_def push_control_def split: bool.split_asm if_split_asm)
  note m = make_room_spares [OF room]
  have count: "lossy_count x + length (filter (\<lambda>e. \<not> is_lossy_client_event (fst e)) (q_events x)) = length (q_events x)" for x
    by (rule sum_length_filter_compl)
  have "lossy_count q' < lossy_count q" using m count [of q] count [of q1] assms(3,6) \<open>room\<close> by (simp add: q' push_back_def)
  moreover have "q_marks q' = q_marks q" using m by (simp add: q' push_back_def)
  moreover have nested: "filter is_marker (map fst es) = filter is_marker (map fst (filter (\<lambda>e. \<not> is_lossy_client_event (fst e)) es))" for es :: "queued list"
    by (induction es) (auto elim!: is_marker.elims)
  have "markers q' = markers q" using m assms(3) nested [of "q_events q1"] nested [of "q_events q"] by (simp add: q' push_back_def)
  ultimately show ?thesis by blast
qed

text \<open>C28: A snapshot that is older than a refused delta leaves a gap nobody announces.  When the marker
  was already taken from the queue, the context stays marked after the snapshot: every further
  delta of it is refused with success, and no marker is queued for it.\<close>

theorem gap_without_marker:
  assumes "queue_reachable sz q" "\<not> q_closed q" "(c, f) \<in> set (q_marks q)" "x_session c = Some session" "n < f"
    and "ResyncNeeded c \<notin> fst ` set (q_events q)" "is_lossy_delta e"
  shows "\<exists>q'. emit_with_resync sz (SessionEvent c seq e) rs (snapshot_applied session n q) = Some (True, q') \<and>
    q_events q' = q_events (snapshot_applied session n q) \<and> ResyncNeeded c \<notin> fst ` set (q_events q')"
proof -
  let ?q = "snapshot_applied session n q"
  have "(c, f) \<in> set (q_marks ?q)" using assms(3-5) by (simp add: snapshot_applied_def Let_def retain_events_def)
  then have "is_marked c ?q" by (force simp: is_marked_def)
  moreover have "\<not> q_closed ?q" using assms(2) by (simp add: snapshot_applied_def retain_events_def Let_def)
  ultimately have "emit_with_resync sz (SessionEvent c seq e) rs ?q = Some (True, ?q\<lparr>q_marks := raise_mark c seq (q_marks ?q)\<rparr>)"
    using assms(7) by (simp add: emit_with_resync_def queue_push_def push_delta_def Let_def)
  moreover have "set (q_events ?q) \<subseteq> set (q_events q)" by (auto simp: snapshot_applied_def retain_events_def Let_def)
  ultimately show ?thesis using assms(6) by auto
qed

section \<open>Runs\<close>

definition at_ses :: event_context where
  "at_ses = \<lparr>x_connection = 1, x_epoch = 1, x_session = Some ''ses''\<rparr>"

definition delta_at :: "nat \<Rightarrow> client_event" where
  "delta_at seq = SessionEvent at_ses seq (TextDelta ''main'' 0 ''a'')"

definition done_at :: "nat \<Rightarrow> client_event" where
  "done_at seq = SessionEvent at_ses seq (OtherEvent ''turn ended'')"

definition emitted_to :: "(client_event \<Rightarrow> nat) \<Rightarrow> client_event \<Rightarrow> nat option \<Rightarrow> event_queue \<Rightarrow> event_queue" where
  "emitted_to sz ev rs q = (case emit_with_resync sz ev rs q of Some (_, q') \<Rightarrow> q' | None \<Rightarrow> q)"

lemma reach_emitted:
  assumes "queue_reachable sz q" "emit_with_resync sz ev rs q \<noteq> None"
  shows "queue_reachable sz (emitted_to sz ev rs q)"
proof -
  obtain ok q' where "emit_with_resync sz ev rs q = Some (ok, q')" using assms(2) by auto
  then have "queue_step sz q (emitted_to sz ev rs q)" by (auto simp: emitted_to_def intro: emitted)
  then show ?thesis using assms(1) by (rule rtranclp.rtrancl_into_rtrancl [rotated])
qed

lemmas queue_eval =
  emitted_to_def emit_with_resync_def queue_push_def push_delta_def push_control_def mark_resync_def is_marked_def
  raise_mark_def make_room.simps too_full_def queue_remove_at_def remove_nth_def push_back_def new_queue_def
  try_recv_def Let_def delta_at_def done_at_def EVENT_QUEUE_LIMIT_def EVENT_QUEUE_CAPACITY_def
  EVENT_QUEUE_BYTE_LIMIT_def EVENT_QUEUE_ADMISSION_LIMIT_def MAX_RESYNC_CONTEXTS_def

definition one_delta :: event_queue where "one_delta = emitted_to (\<lambda>_. 9000000) (delta_at 1) None new_queue"

lemma one_delta_eval:
  "one_delta = \<lparr>q_events = [(delta_at 1, 9000000)], q_bytes = 9000000, q_marks = [], q_closed = False, q_terminal = False\<rparr>"
  by (simp add: one_delta_def queue_eval)

lemma one_delta_reachable: "queue_reachable (\<lambda>_. 9000000) one_delta"
  unfolding one_delta_def by (intro reach_emitted rtranclp.rtrancl_refl) (simp add: queue_eval)

lemma one_delta_done:
  "emit_with_resync (\<lambda>_. 9000000) (done_at 2) None one_delta =
     Some (True, \<lparr>q_events = [(done_at 2, 9000000)], q_bytes = 9000000, q_marks = [], q_closed = False, q_terminal = False\<rparr>)"
  by (simp add: one_delta_eval queue_eval)

lemma client_queue_bounded_witness: "length (q_events one_delta) \<le> 1024 \<and> length (q_marks one_delta) \<le> 8"
  using client_queue_bounded [OF one_delta_reachable, of "LoginKey ''x''"] by simp

lemma control_events_kept_witness:
  "[done_at 2] = with_control (done_at 2) (controls one_delta)"
  using control_events_kept [OF one_delta_reachable _ _ one_delta_done] by (simp add: one_delta_eval done_at_def)

lemma emit_returns_witness: "\<exists>ok q'. emit_with_resync (\<lambda>_. 9000000) (done_at 2) None one_delta = Some (ok, q')"
  by (rule emit_returns [OF one_delta_reachable]) (simp add: EVENT_QUEUE_BYTE_LIMIT_def)

lemma one_delta_refused:
  "emit_with_resync (\<lambda>_. 9000000) (SessionEvent at_ses 2 (TextDelta ''sub'' 0 ''b'')) None one_delta =
     Some (True, \<lparr>q_events = [(ResyncNeeded at_ses, 9000000)], q_bytes = 9000000, q_marks = [(at_ses, 2)],
                  q_closed = False, q_terminal = False\<rparr>)"
  by (simp add: one_delta_eval queue_eval)

lemma refused_delta_marked_witness: "\<exists>f. (2::nat) \<le> f \<and> (at_ses, f) \<in> set [(at_ses, 2)]"
  using refused_delta_marked [OF one_delta_reachable _ _ one_delta_refused] by (simp add: one_delta_eval delta_at_def)

lemma silent_eviction_witness:
  "0 < lossy_count one_delta \<and> [] = markers one_delta"
  using silent_eviction [OF one_delta_reachable _ _ _ _ _ one_delta_done]
  by (simp add: one_delta_eval queue_eval)

definition marked_early :: event_queue where
  "marked_early = emitted_to (\<lambda>_. 100) (delta_at 12) None
     (snd (try_recv (emitted_to (\<lambda>_. 100) (ResyncNeeded at_ses) (Some 9) new_queue)))"

lemma marked_early_eval:
  "marked_early = \<lparr>q_events = [], q_bytes = 0, q_marks = [(at_ses, 12)], q_closed = False, q_terminal = False\<rparr>"
  by (simp add: marked_early_def queue_eval)

lemma marked_early_reachable: "queue_reachable (\<lambda>_. 100) marked_early"
proof -
  have "queue_reachable sz (snd (try_recv q))" if "queue_reachable sz q" for sz q
    using that received by (rule rtranclp.rtrancl_into_rtrancl)
  moreover have "queue_reachable (\<lambda>_. 100) (emitted_to (\<lambda>_. 100) (ResyncNeeded at_ses) (Some 9) new_queue)"
    by (intro reach_emitted rtranclp.rtrancl_refl) (simp add: queue_eval)
  ultimately have "queue_reachable (\<lambda>_. 100) (snd (try_recv (emitted_to (\<lambda>_. 100) (ResyncNeeded at_ses) (Some 9) new_queue)))"
    by blast
  then show ?thesis unfolding marked_early_def by (rule reach_emitted) (simp add: queue_eval)
qed

lemma gap_without_marker_witness:
  "\<exists>q'. emit_with_resync (\<lambda>_. 100) (SessionEvent at_ses 13 (TextDelta ''main'' 0 ''b'')) None (snapshot_applied ''ses'' 11 marked_early) =
      Some (True, q') \<and>
    q_events q' = q_events (snapshot_applied ''ses'' 11 marked_early) \<and> ResyncNeeded at_ses \<notin> fst ` set (q_events q')"
  by (rule gap_without_marker [OF marked_early_reachable, of _ 12]) (simp_all add: marked_early_eval at_ses_def)

end
