(* ===== verification/Client_Wire.thy ===== *)
theory Client_Wire
  imports Client_Queue
begin

text \<open>
  The transport of the client, \<^verbatim>\<open>crates/pacode-client/src/connection/reconnect.rs\<close>: lines cut out of
  the chunks of a socket, what arrives while a handshake waits for its reply, the dispatch of a
  message to \<open>Client_Lifecycle\<close> and \<open>Client_Queue\<close>, and the end of a reconnect.  The JSON parser
  and the sizes of events are arguments.
\<close>

section \<open>Lines\<close>

definition MAX_NDJSON_LINE :: nat where "MAX_NDJSON_LINE = 8 * 1024 * 1024"

abbreviation newline :: char where "newline \<equiv> CHR 0x0A"

definition unread :: "string \<Rightarrow> string list \<Rightarrow> string list" where
  "unread rest chunks = (if rest = [] then chunks else rest # chunks)"

text \<open>A chunk is what one \<^verbatim>\<open>fill_buf\<close> shows, an empty one the end.  The value is the line, or None
  for one that is too long, and the chunks that are left.\<close>

fun read_more :: "string \<Rightarrow> string list \<Rightarrow> string option \<times> string list" where
  "read_more line [] = (Some line, [])"
| "read_more line (c # cs) =
     (if c = [] then (Some line, c # cs)
      else case first_index (\<lambda>b. b = newline) c of
             Some i \<Rightarrow>
               if MAX_NDJSON_LINE < length line + i then (None, unread (drop (Suc i) c) cs)
               else (Some (line @ take (Suc i) c), unread (drop (Suc i) c) cs)
           | None \<Rightarrow>
               if MAX_NDJSON_LINE < length line + length c then (None, cs) else read_more (line @ c) cs)"

definition read_ndjson_line :: "string list \<Rightarrow> string option \<times> string list" where
  "read_ndjson_line cs = read_more [] cs"

text \<open>The same on the bytes as a whole.\<close>

definition first_line :: "string \<Rightarrow> string option" where
  "first_line bytes =
     (let body = takeWhile (\<lambda>b. b \<noteq> newline) bytes
      in if MAX_NDJSON_LINE < length body then None else Some (take (Suc (length body)) bytes))"

lemma concat_unread [simp]: "concat (unread rest cs) = rest @ concat cs"
  by (simp add: unread_def)

lemma unread_nonempty [simp]: "[] \<in> set (unread rest cs) \<longleftrightarrow> [] \<in> set cs"
  by (simp add: unread_def)

lemma read_more_rest:
  "read_more line cs = (Some l, cs') \<Longrightarrow> l @ concat cs' = line @ concat cs"
  "read_more line cs = (r, cs') \<Longrightarrow> [] \<notin> set cs \<Longrightarrow> [] \<notin> set cs'"
  by (induction line cs arbitrary: l cs' and cs' rule: read_more.induct)
     (auto split: if_split_asm option.split_asm)

lemma first_newline:
  "first_index (\<lambda>b. b = newline) c = Some i \<Longrightarrow> newline \<notin> set line \<Longrightarrow>
     takeWhile (\<lambda>b. b \<noteq> newline) (line @ c @ rest) = line @ take i c"
proof -
  assume "first_index (\<lambda>b. b = newline) c = Some i" "newline \<notin> set line"
  then have i: "i < length c" "c ! i = newline" "\<And>b. b \<in> set (take i c) \<Longrightarrow> b \<noteq> newline" "\<And>b. b \<in> set line \<Longrightarrow> b \<noteq> newline"
    by (auto simp: first_index_Some in_set_conv_nth)
  have "c = take i c @ newline # drop (Suc i) c" using id_take_nth_drop [OF i(1)] i(2) by simp
  then have "line @ c @ rest = (line @ take i c) @ newline # drop (Suc i) c @ rest" by simp
  then show ?thesis using i(3,4) by (simp only:) (subst takeWhile_append2; auto)
qed

lemma read_more_first_line:
  "[] \<notin> set cs \<Longrightarrow> newline \<notin> set line \<Longrightarrow> length line \<le> MAX_NDJSON_LINE \<Longrightarrow>
     fst (read_more line cs) = first_line (line @ concat cs)"
proof (induction line cs rule: read_more.induct)
  case (1 line)
  then have body: "takeWhile (\<lambda>b. b \<noteq> newline) line = line" by (auto simp: takeWhile_eq_all_conv)
  show ?case using 1 by (simp add: first_line_def Let_def body del: takeWhile_eq_all_conv)
next
  case (2 line c cs)
  show ?case
  proof (cases "first_index (\<lambda>b. b = newline) c")
    case None
    then have "newline \<notin> set (line @ c)" using 2(3) by (auto simp: first_index_None)
    moreover have "MAX_NDJSON_LINE < length line + length c \<Longrightarrow> first_line (line @ c @ concat cs) = None"
    proof -
      have "takeWhile (\<lambda>b. b \<noteq> newline) (line @ c @ concat cs) = line @ c @ takeWhile (\<lambda>b. b \<noteq> newline) (concat cs)"
        using calculation by (subst takeWhile_append2 [of line], force)+ (subst takeWhile_append2; force)
      then show "MAX_NDJSON_LINE < length line + length c \<Longrightarrow> ?thesis" by (simp add: first_line_def)
    qed
    ultimately show ?thesis using 2(1) 2(2) None by auto
  next
    case (Some i)
    note w = first_newline [OF Some 2(3), of "concat cs"]
    have i: "i < length c" using Some by (simp add: first_index_Some)
    moreover have "c \<noteq> []" using i by auto
    ultimately show ?thesis using 2(2) Some by (simp add: first_line_def w)
  qed
qed

lemma read_ndjson_line_facts:
  assumes "[] \<notin> set cs" "read_ndjson_line cs = (r, cs')"
  shows "r = first_line (concat cs)" "[] \<notin> set cs'" "r = Some l \<Longrightarrow> concat cs' = drop (length l) (concat cs)"
proof -
  show "r = first_line (concat cs)" using read_more_first_line [OF assms(1), of "[]"] assms(2) by (simp add: read_ndjson_line_def)
  show "[] \<notin> set cs'" using read_more_rest(2) assms by (simp add: read_ndjson_line_def)
  show "concat cs' = drop (length l) (concat cs)" if "r = Some l"
    using read_more_rest(1) [of "[]" cs l cs'] assms(2) that by (simp add: read_ndjson_line_def) (metis append_eq_conv_conj)
qed

text \<open>All lines of a connection, up to the end or to one that is too long (the last None).\<close>

function read_lines :: "string list \<Rightarrow> string option list" where
  "read_lines cs =
     (case fst (read_ndjson_line cs) of
        None \<Rightarrow> [None]
      | Some l \<Rightarrow> if l = [] then [] else Some l # read_lines (snd (read_ndjson_line cs)))"
  by pat_completeness auto
termination
proof (relation "measure (\<lambda>cs. length (concat cs))")
  fix cs l assume l: "fst (read_ndjson_line cs) = Some l" "l \<noteq> []"
  then have "l @ concat (snd (read_ndjson_line cs)) = concat cs"
    using read_more_rest(1) [of "[]" cs l "snd (read_ndjson_line cs)"] by (simp add: read_ndjson_line_def prod_eq_iff)
  then have "length l + length (concat (snd (read_ndjson_line cs))) = length (concat cs)" by (metis length_append)
  then show "(snd (read_ndjson_line cs), cs) \<in> measure (\<lambda>cs. length (concat cs))" using l(2) by (cases l) auto
qed simp

declare read_lines.simps [simp del]

text \<open>The lines of a connection do not depend on how the socket cut them.  Two sequences of chunks
  with the same bytes give the same lines, and the same verdict on a line that is too long.\<close>

theorem lines_without_chunks:
  "[] \<notin> set cs \<Longrightarrow> [] \<notin> set ds \<Longrightarrow> concat cs = concat ds \<Longrightarrow> read_lines cs = read_lines ds"
proof (induction cs arbitrary: ds rule: read_lines.induct)
  case (1 cs)
  obtain r cs' where c: "read_ndjson_line cs = (r, cs')" by fastforce
  obtain r' ds' where d: "read_ndjson_line ds = (r', ds')" by fastforce
  note fc = read_ndjson_line_facts [OF 1(2) c] and fd = read_ndjson_line_facts [OF 1(3) d]
  have "r' = r" using fc(1) fd(1) 1(4) by simp
  then show ?case
    using 1(1) [of _ ds'] fc(2,3) fd(2,3) 1(4) c d
    by (subst read_lines.simps, subst (2) read_lines.simps) (auto split: option.split)
qed

section \<open>What arrives during a handshake\<close>

definition HANDSHAKE_EVENT_CAPACITY :: nat where "HANDSHAKE_EVENT_CAPACITY = 128"
definition HANDSHAKE_EVENT_BYTE_LIMIT :: nat where "HANDSHAKE_EVENT_BYTE_LIMIT = 16 * 1024 * 1024"

datatype buffered = BufEvent nat server_event | BufResync "nat option"

record buffered_events =
  be_events :: "buffered list"
  be_bytes :: nat
  be_resync :: bool
  be_seq :: "nat option"
  be_overflowed :: bool

definition no_buffered :: buffered_events where
  "no_buffered = \<lparr>be_events = [], be_bytes = 0, be_resync = False, be_seq = None, be_overflowed = False\<rparr>"

fun buffered_global_key :: "buffered \<Rightarrow> global_key option" where
  "buffered_global_key (BufEvent _ ev) = global_event_key ev"
| "buffered_global_key (BufResync _) = None"

fun later_seq :: "nat option \<Rightarrow> nat option \<Rightarrow> nat option" where
  "later_seq _ None = None"
| "later_seq None (Some n) = Some n"
| "later_seq (Some m) (Some n) = Some (max m n)"

definition buffer_mark :: "nat option \<Rightarrow> buffered_events \<Rightarrow> buffered_events" where
  "buffer_mark seq b = b\<lparr>be_resync := True, be_seq := later_seq (be_seq b) seq\<rparr>"

definition buffer_add :: "(buffered \<Rightarrow> nat) \<Rightarrow> buffered \<Rightarrow> buffered_events \<Rightarrow> bool \<times> buffered_events" where
  "buffer_add sz ev b =
     (if HANDSHAKE_EVENT_CAPACITY \<le> length (be_events b) \<or> HANDSHAKE_EVENT_BYTE_LIMIT < be_bytes b + sz ev
      then (False, b\<lparr>be_overflowed := True\<rparr>)
      else (True, b\<lparr>be_events := be_events b @ [ev], be_bytes := be_bytes b + sz ev\<rparr>))"

definition buffer_push :: "(buffered \<Rightarrow> nat) \<Rightarrow> buffered \<Rightarrow> buffered_events \<Rightarrow> bool \<times> buffered_events" where
  "buffer_push sz ev b =
     (case ev of
        BufResync seq \<Rightarrow> (True, buffer_mark seq b)
      | BufEvent _ e \<Rightarrow>
          if \<not> is_global e then (True, buffer_mark None b)
          else case (case buffered_global_key ev of None \<Rightarrow> None
                     | Some k \<Rightarrow> first_index (\<lambda>x. buffered_global_key x = Some k) (be_events b)) of
                 None \<Rightarrow> buffer_add sz ev b
               | Some i \<Rightarrow>
                   let old = sz (be_events b ! i)
                   in if HANDSHAKE_EVENT_BYTE_LIMIT < be_bytes b - old + sz ev then (False, b\<lparr>be_overflowed := True\<rparr>)
                      else buffer_add sz ev (b\<lparr>be_events := remove_nth i (be_events b), be_bytes := be_bytes b - old\<rparr>))"

fun push_while :: "(buffered \<Rightarrow> nat) \<Rightarrow> buffered list \<Rightarrow> buffered_events \<Rightarrow> buffered_events" where
  "push_while sz [] b = b"
| "push_while sz (ev # evs) b = (case buffer_push sz ev b of (True, b) \<Rightarrow> push_while sz evs b | (False, b) \<Rightarrow> b)"

definition buffer_merge :: "(buffered \<Rightarrow> nat) \<Rightarrow> buffered_events \<Rightarrow> buffered_events \<Rightarrow> buffered_events" where
  "buffer_merge sz other b =
     (let b = b\<lparr>be_overflowed := be_overflowed b \<or> be_overflowed other\<rparr>;
          b = (if be_resync other then b\<lparr>be_resync := True, be_seq := later_seq (be_seq b) (be_seq other)\<rparr> else b)
      in push_while sz (be_events other) b)"

definition buffer_ok :: "(buffered \<Rightarrow> nat) \<Rightarrow> buffered_events \<Rightarrow> bool" where
  "buffer_ok sz b \<longleftrightarrow> be_bytes b = (\<Sum>x \<leftarrow> be_events b. sz x) \<and> length (be_events b) \<le> HANDSHAKE_EVENT_CAPACITY \<and>
     be_bytes b \<le> HANDSHAKE_EVENT_BYTE_LIMIT \<and>
     (\<forall>x \<in> set (be_events b). case x of BufEvent _ e \<Rightarrow> is_global e | BufResync _ \<Rightarrow> False)"

lemma buffer_add_ok:
  "buffer_ok sz b \<Longrightarrow> is_global e \<Longrightarrow> buffer_ok sz (snd (buffer_add sz (BufEvent n e) b))"
  by (auto simp: buffer_add_def buffer_ok_def)

lemma buffer_mark_ok [simp]: "buffer_ok sz (buffer_mark seq b) = buffer_ok sz b"
  by (simp add: buffer_mark_def buffer_ok_def)

lemma buffer_push_ok:
  assumes "buffer_ok sz b"
  shows "buffer_ok sz (snd (buffer_push sz ev b))"
proof (cases ev)
  case (BufEvent n e)
  have flagged: "buffer_ok sz (b\<lparr>be_overflowed := True\<rparr>)" using assms by (simp add: buffer_ok_def)
  have removed: "buffer_ok sz (b\<lparr>be_events := remove_nth i (be_events b), be_bytes := be_bytes b - sz (be_events b ! i)\<rparr>)"
    if "i < length (be_events b)" for i
    using assms remove_nth_facts(1,2) [OF that] remove_nth_facts(3) [OF that, where f = sz] by (fastforce simp: buffer_ok_def)
  show ?thesis
    using buffer_add_ok [OF assms] buffer_add_ok [OF removed] flagged assms
    by (auto simp: BufEvent buffer_push_def Let_def first_index_Some split: option.split)
qed (use assms in \<open>simp add: buffer_push_def\<close>)

lemma push_while_ok: "buffer_ok sz b \<Longrightarrow> buffer_ok sz (push_while sz evs b)"
proof (induction evs arbitrary: b)
  case (Cons ev evs)
  obtain r b' where p: "buffer_push sz ev b = (r, b')" by fastforce
  then show ?case using buffer_push_ok [OF Cons(2), of ev] Cons(1) by (cases r) auto
qed simp

lemma buffer_merge_ok: "buffer_ok sz b \<Longrightarrow> buffer_ok sz (buffer_merge sz other b)"
  by (auto simp: buffer_merge_def Let_def buffer_ok_def intro!: push_while_ok [unfolded buffer_ok_def])

section \<open>Waiting for a reply\<close>

datatype reply =
    ReplyOk
  | ReplyError string
  | ReplyHello string nat nat
  | ReplyAttached snapshot_head
  | ReplySnapshot snapshot_head
  | OtherReply string

datatype server_message = ReplyMessage nat reply | EventMessage nat server_event | ResyncMessage "nat option"

datatype handshake_error =
    HandshakeCancelled | HandshakeTimeout | HandshakeClosed | HandshakeIo | HandshakeJson | HandshakeDaemon string
  | HandshakeProtocol nat | EventBufferOverflow | LineOverflow | UnexpectedReply

fun is_terminal_handshake_error :: "handshake_error \<Rightarrow> bool" where
  "is_terminal_handshake_error HandshakeJson = True"
| "is_terminal_handshake_error (HandshakeDaemon _) = True"
| "is_terminal_handshake_error (HandshakeProtocol _) = True"
| "is_terminal_handshake_error EventBufferOverflow = True"
| "is_terminal_handshake_error LineOverflow = True"
| "is_terminal_handshake_error UnexpectedReply = True"
| "is_terminal_handshake_error _ = False"

text \<open>What one turn of the loop sees: a line, a line that is too long, or why there is none.  The
  end of the list is the end of the stream.\<close>

datatype wire_item = GotLine string | LongLine | TimedOut | ReadFailed | GivenUp

definition is_blank :: "string \<Rightarrow> bool" where
  "is_blank l \<longleftrightarrow> (\<forall>b \<in> set l. b \<in> {CHR '' '', CHR 0x09, newline, CHR 0x0C, CHR 0x0D})"

fun read_reply_handshake ::
    "(string \<Rightarrow> server_message option) \<Rightarrow> (buffered \<Rightarrow> nat) \<Rightarrow> nat \<Rightarrow> wire_item list \<Rightarrow> buffered_events \<Rightarrow>
     (handshake_error + reply) \<times> buffered_events \<times> wire_item list" where
  "read_reply_handshake parse sz i [] b = (Inl HandshakeClosed, b, [])"
| "read_reply_handshake parse sz i (GivenUp # items) b = (Inl HandshakeCancelled, b, items)"
| "read_reply_handshake parse sz i (TimedOut # items) b = (Inl HandshakeTimeout, b, items)"
| "read_reply_handshake parse sz i (ReadFailed # items) b = (Inl HandshakeIo, b, items)"
| "read_reply_handshake parse sz i (LongLine # items) b = (Inl LineOverflow, b, items)"
| "read_reply_handshake parse sz i (GotLine l # items) b =
     (if is_blank l then read_reply_handshake parse sz i items b
      else case parse l of
             None \<Rightarrow> (Inl HandshakeJson, b, items)
           | Some (ReplyMessage j reply) \<Rightarrow> if j = i then (Inr reply, b, items) else (Inl UnexpectedReply, b, items)
           | Some (EventMessage seq ev) \<Rightarrow>
               (case buffer_push sz (BufEvent seq ev) b of
                  (True, b) \<Rightarrow> read_reply_handshake parse sz i items b
                | (False, b) \<Rightarrow> (Inl EventBufferOverflow, b, items))
           | Some (ResyncMessage seq) \<Rightarrow> read_reply_handshake parse sz i items (snd (buffer_push sz (BufResync seq) b)))"

lemma buffer_push_keeps:
  "be_resync b \<Longrightarrow> be_resync (snd (buffer_push sz ev b))"
  "buffer_push sz ev b = (True, b') \<Longrightarrow> buffered_global_key x = Some k \<Longrightarrow> x \<in> set (be_events b) \<Longrightarrow>
     \<exists>y \<in> set (be_events b'). buffered_global_key y = Some k"
proof -
  show "be_resync b \<Longrightarrow> be_resync (snd (buffer_push sz ev b))"
    by (auto simp: buffer_push_def buffer_mark_def buffer_add_def Let_def split: buffered.split option.split)
  assume p: "buffer_push sz ev b = (True, b')" and k: "buffered_global_key x = Some k" and x: "x \<in> set (be_events b)"
  have rest: "y \<in> set (remove_nth i xs)"
    if "y \<in> set xs" "buffered_global_key y \<noteq> buffered_global_key (xs ! i)" "i < length xs" for y i and xs :: "buffered list"
    using that id_take_nth_drop [of i xs] by (auto simp: remove_nth_def) (metis Un_iff insert_iff list.simps(15) set_append)
  show "\<exists>y \<in> set (be_events b'). buffered_global_key y = Some k"
  proof (cases ev)
    case (BufResync seq)
    then show ?thesis using p k x by (auto simp: buffer_push_def buffer_mark_def)
  next
    case (BufEvent n e)
    show ?thesis
    proof (cases "buffered_global_key x = global_event_key e \<and> is_global e")
      case True
      then have "ev \<in> set (be_events b')" using p BufEvent
        by (auto simp: buffer_push_def buffer_add_def Let_def split: option.split_asm if_split_asm)
      then show ?thesis using True k BufEvent by (intro bexI [of _ ev]) auto
    next
      case False
      then have "x \<in> set (be_events b')" using p x BufEvent
        by (auto simp: buffer_push_def buffer_mark_def buffer_add_def Let_def first_index_Some
            split: option.split_asm if_split_asm) (metis rest)
      then show ?thesis using k by auto
    qed
  qed
qed

lemma global_has_key: "is_global e \<Longrightarrow> \<exists>k. global_event_key e = Some k"
  by (cases e) auto

lemma handshake_rest:
  "read_reply_handshake parse sz i items b = (r, b', rest) \<Longrightarrow> \<exists>used. items = used @ rest \<and> (items = [] \<or> used \<noteq> [])"
  by (induction parse sz i items b rule: read_reply_handshake.induct)
     (fastforce split: if_split_asm option.split_asm server_message.split_asm prod.split_asm bool.split_asm)+

text \<open>What a line must have left behind: a global event its newest state, any other event or marker
  the wish to resynchronise.\<close>

definition line_accounted :: "(string \<Rightarrow> server_message option) \<Rightarrow> buffered_events \<Rightarrow> string \<Rightarrow> bool" where
  "line_accounted parse b l \<longleftrightarrow> is_blank l \<or>
     (case parse l of
        Some (EventMessage _ ev) \<Rightarrow>
          if is_global ev then \<exists>y \<in> set (be_events b). buffered_global_key y = global_event_key ev else be_resync b
      | Some (ResyncMessage _) \<Rightarrow> be_resync b
      | _ \<Rightarrow> True)"

lemma line_accounted_mono:
  "buffer_push sz ev b = (True, b') \<Longrightarrow> line_accounted parse b l \<Longrightarrow> line_accounted parse b' l"
  using buffer_push_keeps(1) [of b sz ev] buffer_push_keeps(2) [of sz ev b b'] global_has_key
  by (fastforce simp: line_accounted_def split: option.splits server_message.splits if_splits)

lemma pushed_line_accounted:
  "parse l = Some (EventMessage seq ev) \<Longrightarrow> buffer_push sz (BufEvent seq ev) b = (True, b') \<Longrightarrow> line_accounted parse b' l"
  "parse l = Some (ResyncMessage s) \<Longrightarrow> line_accounted parse (snd (buffer_push sz (BufResync s) b)) l"
  by (auto simp: line_accounted_def buffer_push_def buffer_mark_def buffer_add_def Let_def
      split: option.split_asm if_split_asm)

lemma handshake_accounts:
  "read_reply_handshake parse sz i items b = (Inr reply, b', rest) \<Longrightarrow>
     (\<forall>l. line_accounted parse b l \<longrightarrow> line_accounted parse b' l) \<and>
     (\<forall>used l. items = used @ rest \<longrightarrow> GotLine l \<in> set used \<longrightarrow> line_accounted parse b' l)"
proof (induction parse sz i items b rule: read_reply_handshake.induct)
  case (6 parse sz i l items b)
  have unused: "used = GotLine l # tl used \<and> items = tl used @ rest"
    if "GotLine l # items = used @ rest" "items = used1 @ rest" for used used1
    using that by (cases used) auto
  have goal: ?case if more: "read_reply_handshake parse sz i items b1 = (Inr reply, b', rest)"
    and ih: "(\<forall>l. line_accounted parse b1 l \<longrightarrow> line_accounted parse b' l) \<and>
      (\<forall>used l. items = used @ rest \<longrightarrow> GotLine l \<in> set used \<longrightarrow> line_accounted parse b' l)"
    and first: "line_accounted parse b1 l" "\<And>l. line_accounted parse b l \<Longrightarrow> line_accounted parse b1 l" for b1
  proof -
    obtain used1 where "items = used1 @ rest" using handshake_rest [OF more] by auto
    note u = unused [OF _ this]
    show ?thesis
    proof (intro conjI allI impI)
      fix l' assume "line_accounted parse b l'"
      then show "line_accounted parse b' l'" using first(2) ih by blast
    next
      fix used l' assume a: "GotLine l # items = used @ rest" "GotLine l' \<in> set used"
      then have "l' = l \<or> GotLine l' \<in> set (tl used)" using u [OF a(1)] by (metis set_ConsD wire_item.inject)
      then show "line_accounted parse b' l'" using u [OF a(1)] ih first(1) by blast
    qed
  qed
  show ?case
  proof (cases "is_blank l")
    case True
    then have "line_accounted parse b l" by (simp add: line_accounted_def)
    moreover have "read_reply_handshake parse sz i items b = (Inr reply, b', rest)" using 6(4) True by simp
    ultimately show ?thesis using goal [OF _ 6(1) [OF True]] by blast
  next
    case False
    show ?thesis
    proof (cases "parse l")
      case None
      then show ?thesis using 6(4) False by simp
    next
      case (Some m)
      show ?thesis
      proof (cases m)
        case (ReplyMessage j reply')
        then have "b' = b" "rest = items" using 6(4) False Some by (auto split: if_split_asm)
        moreover have "line_accounted parse b l" by (simp add: line_accounted_def Some ReplyMessage)
        moreover have "GotLine l' \<in> set used \<Longrightarrow> l' = l" if "GotLine l # items = used @ items" for used l'
          using that by (cases used) auto
        ultimately show ?thesis by blast
      next
        case (EventMessage seq ev)
        obtain ok b1 where p: "buffer_push sz (BufEvent seq ev) b = (ok, b1)" by fastforce
        then have ok: "ok = True" using 6(4) False Some EventMessage by (cases ok) auto
        then have r: "read_reply_handshake parse sz i items b1 = (Inr reply, b', rest)"
          using 6(4) False Some EventMessage p by simp
        note ih = 6(2) [OF False Some EventMessage p [symmetric] ok r]
        have "line_accounted parse b1 l" using pushed_line_accounted(1) Some EventMessage p ok by blast
        moreover have "line_accounted parse b l' \<Longrightarrow> line_accounted parse b1 l'" for l'
          using line_accounted_mono p ok by blast
        ultimately show ?thesis by (rule goal [OF r ih])
      next
        case (ResyncMessage seq)
        let ?b = "snd (buffer_push sz (BufResync seq) b)"
        have r: "read_reply_handshake parse sz i items ?b = (Inr reply, b', rest)"
          using 6(4) False Some ResyncMessage by simp
        note ih = 6(3) [OF False Some ResyncMessage r]
        have "buffer_push sz (BufResync seq) b = (True, ?b)" by (simp add: buffer_push_def)
        then have "line_accounted parse b l' \<Longrightarrow> line_accounted parse ?b l'" for l' by (rule line_accounted_mono)
        moreover have "line_accounted parse ?b l" using pushed_line_accounted(2) Some ResyncMessage by blast
        ultimately show ?thesis by (rule goal [OF r ih, rotated])
      qed
    qed
  qed
qed simp_all

text \<open>Nothing that arrives while a handshake waits is forgotten.  When the reply has come, the
  newest state of every global event is buffered, and if anything else arrived - an event of the
  session or a marker - the client knows that it has to resynchronise.\<close>

theorem handshake_accounts_all:
  assumes "read_reply_handshake parse sz i (used @ rest) no_buffered = (Inr reply, b, rest)" and "GotLine l \<in> set used"
  shows "line_accounted parse b l"
  using handshake_accounts [OF assms(1)] assms(2) by blast

lemma handshake_buffer_ok:
  "read_reply_handshake parse bsz i items b = (r, b', rest) \<Longrightarrow> buffer_ok bsz b \<Longrightarrow> buffer_ok bsz b'"
proof (induction parse bsz i items b rule: read_reply_handshake.induct)
  case (6 parse sz i l items b)
  have ok: "buffer_ok sz (snd (buffer_push sz ev b))" for ev using buffer_push_ok [OF 6(5)] .
  show ?case
  proof (cases "is_blank l \<or> parse l = None \<or> (\<exists>j reply. parse l = Some (ReplyMessage j reply))")
    case True
    then show ?thesis using 6(1,4,5) by (auto split: if_split_asm)
  next
    case False
    then obtain m where m: "\<not> is_blank l" "parse l = Some m" "\<And>j reply. m \<noteq> ReplyMessage j reply" by auto
    show ?thesis
    proof (cases m)
      case (EventMessage seq ev)
      obtain more b1 where p: "buffer_push sz (BufEvent seq ev) b = (more, b1)" by fastforce
      show ?thesis using 6(2) [OF m(1,2) EventMessage p [symmetric]] 6(4) m(1,2) EventMessage p ok [of "BufEvent seq ev"]
        by (cases more) auto
    next
      case (ResyncMessage seq)
      show ?thesis using 6(3) [OF m(1,2) ResyncMessage] 6(4) m(1,2) ResyncMessage ok by simp
    qed (use m in simp)
  qed
qed auto

section \<open>Messages after the handshake\<close>

record reader_state =
  rd_life :: lifecycle
  rd_queue :: event_queue
  rd_pending :: "nat set"
  rd_attaches :: "nat \<rightharpoonup> attach_attempt"

text \<open>\<open>gone\<close> and \<open>gone_after\<close>: the caller of the request has dropped its end, before and after the
  reply is noted.\<close>

definition on_attached :: "attach_attempt option \<Rightarrow> bool \<Rightarrow> bool \<Rightarrow> bool \<Rightarrow> snapshot_head \<Rightarrow> reader_state \<Rightarrow> reader_state" where
  "on_attached attempt waited gone gone_after snap st =
     (case attempt of
        None \<Rightarrow> st
      | Some a \<Rightarrow>
          if \<not> waited \<or> gone then st
          else case remember_if_current a snap (rd_life st) of
                 (None, s) \<Rightarrow> st\<lparr>rd_life := s\<rparr>
               | (Some monotonic, s) \<Rightarrow>
                   let s = (if gone_after then clear_unacknowledged_attach_state a s else s)
                   in st\<lparr>rd_life := s,
                         rd_queue := (if monotonic \<and> lf_attached s = Some (sn_session snap)
                                      then snapshot_applied (sn_session snap) (sn_seq snap) (rd_queue st) else rd_queue st)\<rparr>)"

definition on_refreshed :: "snapshot_head \<Rightarrow> reader_state \<Rightarrow> reader_state" where
  "on_refreshed snap st =
     (case observe_snapshot snap (rd_life st) of
        (Some True, s) \<Rightarrow>
          st\<lparr>rd_life := s,
             rd_queue := (if lf_attached s = Some (sn_session snap)
                          then snapshot_applied (sn_session snap) (sn_seq snap) (rd_queue st) else rd_queue st)\<rparr>
      | (_, s) \<Rightarrow> st\<lparr>rd_life := s\<rparr>)"

text \<open>The bool tells whether the reader goes on; None is a queue that cannot take its last event.\<close>

definition reader_message ::
    "(client_event \<Rightarrow> nat) \<Rightarrow> bool \<Rightarrow> bool \<Rightarrow> server_message \<Rightarrow> reader_state \<Rightarrow> (bool \<times> reader_state) option" where
  "reader_message sz gone gone_after m st =
     (case m of
        ReplyMessage i reply \<Rightarrow>
          (let attempt = rd_attaches st i; waited = (i \<in> rd_pending st);
               st = st\<lparr>rd_attaches := (rd_attaches st)(i := None), rd_pending := rd_pending st - {i}\<rparr>
           in Some (True, case reply of
                ReplyAttached snap \<Rightarrow> on_attached attempt waited gone gone_after snap st
              | ReplySnapshot snap \<Rightarrow> on_refreshed snap st
              | _ \<Rightarrow> st))
      | EventMessage seq ev \<Rightarrow>
          (case accepted_event_context seq ev (rd_life st) of
             (None, s) \<Rightarrow> Some (True, st\<lparr>rd_life := s\<rparr>)
           | (Some c, s) \<Rightarrow>
               map_option (\<lambda>(ok, q). (ok, st\<lparr>rd_life := s, rd_queue := q\<rparr>))
                 (emit_with_resync sz (SessionEvent c seq ev) None (rd_queue st)))
      | ResyncMessage seq \<Rightarrow>
          (case accepted_resync_context seq (rd_life st) of
             None \<Rightarrow> Some (True, st)
           | Some c \<Rightarrow>
               map_option (\<lambda>(ok, q). (ok, st\<lparr>rd_queue := q\<rparr>))
                 (emit_with_resync sz (ResyncNeeded c) seq (rd_queue st))))"

lemma emit_marker_facts:
  assumes "emit_with_resync sz (ResyncNeeded c) rs q = Some (ok, q')" "client_queue_ok sz q" "\<not> q_closed q'"
  shows "\<exists>f \<ge> (case rs of Some n \<Rightarrow> n | None \<Rightarrow> 0). (c, f) \<in> set (q_marks q')"
    "q_marks q = [] \<Longrightarrow> ResyncNeeded c \<in> fst ` set (q_events q')"
proof -
  let ?n = "case rs of Some n \<Rightarrow> n | None \<Rightarrow> 0"
  obtain marked q1 where m: "mark_resync sz c ?n q = (marked, q1)" by fastforce
  have open_q: "\<not> q_closed q" "ok" using emit_facts(2,4) [OF assms(1,2)] assms(3) by auto
  have push: "queue_push sz (ResyncNeeded c) rs q = (if marked then (Accepted, q1) else (Overflow, q1))"
    using open_q(1) m by (simp add: queue_push_def split: bool.split)
  have marked and q1: "q1 = q'" using assms(1) open_q(2) by (auto simp: emit_with_resync_def push split: if_split_asm)
  then show "\<exists>f \<ge> ?n. (c, f) \<in> set (q_marks q')"
    using mark_resync_facts(6) [OF m] assms(2) by (auto simp: client_queue_ok_def)
  assume "q_marks q = []"
  then show "ResyncNeeded c \<in> fst ` set (q_events q')"
    using m \<open>marked\<close> q1 by (auto simp: mark_resync_def is_marked_def push_back_def split: if_split_asm bool.split_asm prod.split_asm)
qed

text \<open>A loss the daemon reports reaches the frontend.  When the daemon says that events up to a
  number were dropped and that number is beyond what the client has seen, the reader stops with a
  closed queue, or the session's context is marked at that number or above, so that later deltas
  are held back until a snapshot covers them.\<close>

theorem reported_loss_is_marked:
  assumes "queue_reachable sz (rd_queue st)" "lf_attached (rd_life st) = Some session"
    and "max (lf_snapshot_seq (rd_life st)) (lf_last_seq (rd_life st)) < n"
    and "reader_message sz gone gone_after (ResyncMessage (Some n)) st = Some (goes_on, st')" "\<not> q_closed (rd_queue st')"
  shows "\<exists>f \<ge> n. (context_of (rd_life st), f) \<in> set (q_marks (rd_queue st'))"
proof -
  have "accepted_resync_context (Some n) (rd_life st) = Some (context_of (rd_life st))"
    using assms(2,3) by (simp add: accepted_resync_context_def Let_def max_def split: if_split_asm)
  then have "emit_with_resync sz (ResyncNeeded (context_of (rd_life st))) (Some n) (rd_queue st) = Some (goes_on, rd_queue st')"
    using assms(4) by (auto simp: reader_message_def)
  from emit_marker_facts(1) [OF this event_queue.reachable_inv [OF assms(1)] assms(5)] show ?thesis by simp
qed

section \<open>The end of a reconnect\<close>

definition emit_event :: "(client_event \<Rightarrow> nat) \<Rightarrow> client_event \<Rightarrow> event_queue \<Rightarrow> event_queue option" where
  "emit_event sz ev q = map_option snd (emit_with_resync sz ev None q)"

fun emit_buffered ::
    "(client_event \<Rightarrow> nat) \<Rightarrow> buffered list \<Rightarrow> lifecycle \<times> event_queue \<Rightarrow> (lifecycle \<times> event_queue) option" where
  "emit_buffered sz [] st = Some st"
| "emit_buffered sz (BufResync _ # evs) st = emit_buffered sz evs st"
| "emit_buffered sz (BufEvent seq ev # evs) (s, q) =
     (case accepted_event_context seq ev s of
        (None, s) \<Rightarrow> emit_buffered sz evs (s, q)
      | (Some c, s) \<Rightarrow>
          Option.bind (emit_event sz (SessionEvent c seq ev) q) (\<lambda>q. emit_buffered sz evs (s, q)))"

text \<open>The snapshot of an attached client with its rendered rest, and whether it is at least as new
  as the last one.\<close>

definition emit_snapshot ::
    "(client_event \<Rightarrow> nat) \<Rightarrow> event_context \<Rightarrow> (snapshot_head \<times> string \<times> bool) option \<Rightarrow> event_queue \<Rightarrow> event_queue option" where
  "emit_snapshot sz c snapshot q =
     (case snapshot of
        None \<Rightarrow> Some q
      | Some (h, body, monotonic) \<Rightarrow>
          emit_event sz (SnapshotEvent c h body) (if monotonic then snapshot_applied (sn_session h) (sn_seq h) q else q))"

definition finish_reconnect ::
    "(client_event \<Rightarrow> nat) \<Rightarrow> event_context \<Rightarrow> string \<Rightarrow> nat \<Rightarrow> bool \<Rightarrow> (snapshot_head \<times> string \<times> bool) option \<Rightarrow>
     buffered_events \<Rightarrow> lifecycle \<times> event_queue \<Rightarrow> (lifecycle \<times> event_queue) option" where
  "finish_reconnect sz c version pid mismatch snapshot b st =
     Option.bind (emit_event sz (Connected c version pid mismatch) (snd st)) (\<lambda>q.
       if q_closed q then Some (fst st, q)
       else Option.bind (emit_buffered sz (be_events b) (fst st, q)) (\<lambda>(s, q).
         Option.bind (emit_snapshot sz c snapshot q) (\<lambda>q.
           case (if be_resync b then accepted_resync_context (be_seq b) s else None) of
             None \<Rightarrow> Some (s, q)
           | Some c' \<Rightarrow> map_option (\<lambda>(_, q). (s, q)) (emit_with_resync sz (ResyncNeeded c') (be_seq b) q))))"

definition next_backoff :: "nat \<Rightarrow> nat" where
  "next_backoff ms = (if ms = 500 then 1000 else if ms = 1000 then 2000 else if ms = 2000 then 4000 else 8000)"

text \<open>The waits between two attempts grow from half a second to eight and stay there.\<close>

lemma backoff_settles: "4 \<le> n \<Longrightarrow> (next_backoff ^^ n) 500 = 8000"
proof -
  assume "4 \<le> n"
  then obtain k where "n = k + 4" using le_Suc_ex by (metis add.commute)
  moreover have "(next_backoff ^^ k) 8000 = 8000" for k by (induction k) (simp_all add: next_backoff_def)
  moreover have "(next_backoff ^^ 4) 500 = 8000" by (simp add: next_backoff_def numeral_eq_Suc)
  ultimately show ?thesis by (simp add: funpow_add)
qed

text \<open>Emitting a control event to a queue that stays open changes no mark.\<close>

lemma emit_event_facts:
  assumes "emit_event sz ev q = Some q'" "client_queue_ok sz q"
  shows "client_queue_ok sz q'" "q_closed q \<Longrightarrow> q_closed q'"
    "is_control ev \<Longrightarrow> \<not> q_closed q' \<Longrightarrow> q_marks q' = (if is_connected_event ev then [] else q_marks q)"
proof -
  obtain ok where e: "emit_with_resync sz ev None q = Some (ok, q')" using assms(1) by (auto simp: emit_event_def)
  note f = emit_facts [OF e assms(2)]
  show "client_queue_ok sz q'" "q_closed q \<Longrightarrow> q_closed q'" using f(1,2) by auto
  assume control: "is_control ev" and "\<not> q_closed q'"
  then have "\<not> q_closed q" "ok" using f(2,4) by auto
  let ?q = "if is_connected_event ev then retain_events (\<lambda>e. \<not> is_marker (fst e)) (q\<lparr>q_marks := []\<rparr>) else q"
  have ok: "client_queue_ok sz ?q" using reset_marks_facts(1) [OF assms(2)] assms(2) by simp
  have "queue_push sz ev None q = push_control sz ev ?q"
    using \<open>\<not> q_closed q\<close> control by (cases ev) (auto simp: queue_push_def Let_def)
  then obtain r where "push_control sz ev ?q = (r, q')" "r \<noteq> Overflow"
    using e \<open>ok\<close> by (auto simp: emit_with_resync_def split: prod.split_asm push_result.split_asm)
  from push_control_facts [OF this(1) ok control]
  show "q_marks q' = (if is_connected_event ev then [] else q_marks q)" by (simp add: retain_events_def Let_def)
qed

lemma emit_buffered_facts:
  "emit_buffered sz evs (s, q) = Some (s', q') \<Longrightarrow> client_queue_ok sz q \<Longrightarrow>
     \<forall>x \<in> set evs. case x of BufEvent _ e \<Rightarrow> is_global e | BufResync _ \<Rightarrow> False \<Longrightarrow>
     s' = s \<and> client_queue_ok sz q' \<and> (q_closed q \<longrightarrow> q_closed q') \<and> (\<not> q_closed q' \<longrightarrow> q_marks q' = q_marks q)"
proof (induction evs arbitrary: q)
  case (Cons x evs)
  then obtain seq e where x: "x = BufEvent seq e" "is_global e" by (cases x) auto
  then obtain q1 where q1: "emit_event sz (SessionEvent (context_of s) seq e) q = Some q1" "emit_buffered sz evs (s, q1) = Some (s', q')"
    using Cons(2) by (auto simp: accepted_event_context_def bind_eq_Some_conv)
  have "is_control (SessionEvent (context_of s) seq e)" using x(2) by (cases e) auto
  then show ?case using Cons(1) [OF q1(2)] Cons(3,4) emit_event_facts [OF q1(1) Cons(3)] by auto
qed simp

lemma emit_snapshot_facts:
  assumes "emit_snapshot sz c snapshot q = Some q'" "client_queue_ok sz q"
  shows "client_queue_ok sz q'" "q_closed q \<Longrightarrow> q_closed q'" "\<not> q_closed q' \<Longrightarrow> q_marks q = [] \<Longrightarrow> q_marks q' = []"
proof -
  have applied: "q_marks q = [] \<Longrightarrow> q_marks (snapshot_applied session n q) = []"
    "q_closed (snapshot_applied session n q) = q_closed q" for session n
    by (simp_all add: snapshot_applied_def retain_events_def Let_def)
  consider "q' = q" | h body where "emit_event sz (SnapshotEvent c h body) q = Some q'"
    | h body where "emit_event sz (SnapshotEvent c h body) (snapshot_applied (sn_session h) (sn_seq h) q) = Some q'"
  proof (cases snapshot)
    case None
    then show ?thesis using assms(1) that(1) by (simp add: emit_snapshot_def)
  next
    case (Some t)
    obtain h body monotonic where "t = (h, body, monotonic)" by (cases t)
    then show ?thesis using assms(1) that(2,3) Some by (cases monotonic) (simp_all add: emit_snapshot_def)
  qed
  then show "client_queue_ok sz q'" "q_closed q \<Longrightarrow> q_closed q'" "\<not> q_closed q' \<Longrightarrow> q_marks q = [] \<Longrightarrow> q_marks q' = []"
  proof (atomize (full), cases, goal_cases)
    case 1
    then show ?case using assms(2) by simp
  next
    case (2 h body)
    show ?case using emit_event_facts(1,2) [OF 2 assms(2)] emit_event_facts(3) [OF 2 assms(2)] by simp
  next
    case (3 h body)
    note f = emit_event_facts [OF 3 snapshot_applied_ok [OF assms(2)]]
    show ?case using f(1,2) f(3) applied by simp
  qed
qed

text \<open>A buffer that asks for a marker the lifecycle accepts gets it to the frontend.\<close>

lemma accepted_marker_emitted:
  assumes "queue_reachable sz (snd st)" and "buffer_ok bsz b" "be_resync b"
    and "accepted_resync_context (be_seq b) (fst st) = Some c'"
    and "finish_reconnect sz c version pid mismatch snapshot b st = Some (s', q')" "\<not> q_closed q'"
  shows "s' = fst st \<and> ResyncNeeded c' \<in> fst ` set (q_events q') \<and> c' \<in> fst ` set (q_marks q')"
proof -
  have ok: "client_queue_ok sz (snd st)" using event_queue.reachable_inv [OF assms(1)] .
  obtain q1 where q1: "emit_event sz (Connected c version pid mismatch) (snd st) = Some q1"
    using assms(5) by (auto simp: finish_reconnect_def bind_eq_Some_conv)
  then have "\<not> q_closed q1" using assms(5,6) by (auto simp: finish_reconnect_def)
  then have "Option.bind (emit_buffered sz (be_events b) (fst st, q1)) (\<lambda>(s, q). Option.bind (emit_snapshot sz c snapshot q) (\<lambda>q.
      case accepted_resync_context (be_seq b) s of None \<Rightarrow> Some (s, q)
      | Some c' \<Rightarrow> map_option (\<lambda>(_, q). (s, q)) (emit_with_resync sz (ResyncNeeded c') (be_seq b) q))) = Some (s', q')"
    using assms(3,5) q1 by (simp add: finish_reconnect_def)
  then obtain s2 q2 q3 where q2: "emit_buffered sz (be_events b) (fst st, q1) = Some (s2, q2)"
    and q3: "emit_snapshot sz c snapshot q2 = Some q3"
    and last: "(case accepted_resync_context (be_seq b) s2 of None \<Rightarrow> Some (s2, q3)
      | Some c' \<Rightarrow> map_option (\<lambda>(_, q). (s2, q)) (emit_with_resync sz (ResyncNeeded c') (be_seq b) q3)) = Some (s', q')"
    by (auto simp: bind_eq_Some_conv)
  note f1 = emit_event_facts [OF q1 ok]
  have f2: "s2 = fst st" "client_queue_ok sz q2" "q_closed q1 \<longrightarrow> q_closed q2" "\<not> q_closed q2 \<longrightarrow> q_marks q2 = q_marks q1"
    using emit_buffered_facts [OF q2 f1(1)] assms(2) by (auto simp: buffer_ok_def)
  note f3 = emit_snapshot_facts [OF q3 f2(2)]
  obtain ok' where e: "s' = fst st" "emit_with_resync sz (ResyncNeeded c') (be_seq b) q3 = Some (ok', q')"
    using last assms(4) f2(1) by auto
  have "\<not> q_closed q3" using emit_facts(2) [OF e(2) f3(1)] assms(6) by auto
  then have "q_marks q3 = []" using f1(3) f2(3,4) f3(2,3) \<open>\<not> q_closed q1\<close> by auto
  then show ?thesis using emit_marker_facts [OF e(2) f3(1) assms(6)] e(1) by force
qed

text \<open>What is heard while the connection comes back.  Every handshake - hello, subscribe, attach or
  detach, on one connection or on several - starts with an empty buffer, which is merged into
  the pending one whether the handshake succeeded or is tried again.\<close>

type_synonym handshake = "nat \<times> wire_item list"

definition collected :: "(string \<Rightarrow> server_message option) \<Rightarrow> (buffered \<Rightarrow> nat) \<Rightarrow> handshake list \<Rightarrow> buffered_events" where
  "collected parse sz hs =
     foldl (\<lambda>b (i, items). buffer_merge sz (fst (snd (read_reply_handshake parse sz i items no_buffered))) b) no_buffered hs"

definition messages_of :: "(string \<Rightarrow> server_message option) \<Rightarrow> wire_item list \<Rightarrow> server_message list" where
  "messages_of parse items =
     List.map_filter (\<lambda>x. case x of GotLine l \<Rightarrow> if is_blank l then None else parse l | _ \<Rightarrow> None) items"

definition heard :: "(string \<Rightarrow> server_message option) \<Rightarrow> (buffered \<Rightarrow> nat) \<Rightarrow> handshake \<Rightarrow> server_message list" where
  "heard parse sz h =
     (case h of (i, items) \<Rightarrow> case read_reply_handshake parse sz i items no_buffered of
        (_, _, rest) \<Rightarrow> messages_of parse (take (length items - length rest) items))"

text \<open>The number of an event of the session, or of a marker: what a handshake drops.\<close>

fun lost_number :: "server_message \<Rightarrow> nat option" where
  "lost_number (EventMessage n ev) = (if is_global ev then None else Some n)"
| "lost_number (ResyncMessage n) = n"
| "lost_number (ReplyMessage _ _) = None"

definition lost :: "server_message list \<Rightarrow> nat set" where
  "lost ms = {k. \<exists>m \<in> set ms. lost_number m = Some k}"

text \<open>A marker's number is never below that of an event or marker that came before it.\<close>

definition markers_ascend :: "server_message list \<Rightarrow> bool" where
  "markers_ascend ms \<longleftrightarrow>
     sorted_wrt (\<lambda>x y. case (lost_number x, y) of (Some k, ResyncMessage (Some n)) \<Rightarrow> k \<le> n | _ \<Rightarrow> True) ms"

lemma markers_ascendD:
  "markers_ascend (ms @ ns) \<Longrightarrow> markers_ascend ms \<and> markers_ascend ns"
  "markers_ascend (ms @ ns) \<Longrightarrow> k \<in> lost ms \<Longrightarrow> ResyncMessage (Some n) \<in> set ns \<Longrightarrow> k \<le> n"
  by (auto simp: markers_ascend_def sorted_wrt_append lost_def) fastforce

lemma lost_simps [simp]:
  "lost [] = {}" "lost (ms @ ns) = lost ms \<union> lost ns" "lost (m # ms) = set_option (lost_number m) \<union> lost ms"
  by (auto simp: lost_def)

text \<open>What a buffer remembers of the messages it has dropped.\<close>

definition remembers :: "buffered_events \<Rightarrow> server_message list \<Rightarrow> bool" where
  "remembers b ms \<longleftrightarrow> (lost ms \<noteq> {} \<longrightarrow> be_resync b) \<and>
     (\<forall>n. be_seq b = Some n \<longrightarrow> (\<forall>k \<in> lost ms. k \<le> n) \<and> (\<exists>n' \<le> n. ResyncMessage (Some n') \<in> set ms))"

lemma later_seq_Some: "later_seq a b = Some n \<longleftrightarrow> (\<exists>y. b = Some y \<and> n = (case a of None \<Rightarrow> y | Some x \<Rightarrow> max x y))"
  by (cases a; cases b) auto

lemma global_push_frame:
  "is_global e \<Longrightarrow> be_resync (snd (buffer_push sz (BufEvent n e) b)) = be_resync b \<and>
     be_seq (snd (buffer_push sz (BufEvent n e) b)) = be_seq b"
  by (auto simp: buffer_push_def buffer_add_def Let_def split: option.split)

lemma remembers_push:
  assumes "remembers b ms"
  shows "remembers (snd (buffer_push sz (BufEvent n e) b)) (ms @ [EventMessage n e])"
    "markers_ascend (ms @ [ResyncMessage s]) \<Longrightarrow> remembers (snd (buffer_push sz (BufResync s) b)) (ms @ [ResyncMessage s])"
proof -
  show "remembers (snd (buffer_push sz (BufEvent n e) b)) (ms @ [EventMessage n e])"
  proof (cases "is_global e")
    case True
    then show ?thesis using assms global_push_frame [OF True, of sz n b] by (auto simp: remembers_def)
  next
    case False
    then show ?thesis by (simp add: remembers_def buffer_push_def buffer_mark_def)
  qed
  assume asc: "markers_ascend (ms @ [ResyncMessage s])"
  show "remembers (snd (buffer_push sz (BufResync s) b)) (ms @ [ResyncMessage s])"
  proof (cases s)
    case None
    then show ?thesis by (simp add: remembers_def buffer_push_def buffer_mark_def)
  next
    case (Some n)
    have "k \<le> n" if "k \<in> lost ms" for k using markers_ascendD(2) [OF asc that] Some by simp
    then show ?thesis using assms Some
      by (cases "be_seq b") (auto simp: remembers_def buffer_push_def buffer_mark_def le_max_iff_disj)
  qed
qed

lemma messages_of_simps [simp]:
  "messages_of parse [] = []"
  "messages_of parse (xs @ ys) = messages_of parse xs @ messages_of parse ys"
  by (simp_all add: messages_of_def List.map_filter_def)

lemma ended_early:
  "remembers b ms \<Longrightarrow> x \<in> {GivenUp, TimedOut, ReadFailed, LongLine} \<Longrightarrow>
     \<exists>used. x # items = used @ items \<and> (markers_ascend (ms @ messages_of parse used) \<longrightarrow> remembers b (ms @ messages_of parse used))"
  by (intro exI [of _ "[x]"]) (auto simp: messages_of_def List.map_filter_def)

lemma handshake_remembers:
  "read_reply_handshake parse sz i items b = (r, b', rest) \<Longrightarrow> remembers b ms \<Longrightarrow>
     \<exists>used. items = used @ rest \<and> (markers_ascend (ms @ messages_of parse used) \<longrightarrow> remembers b' (ms @ messages_of parse used))"
proof (induction parse sz i items b arbitrary: ms rule: read_reply_handshake.induct)
  case (6 parse sz i l items b)
  have line: "messages_of parse (GotLine l # used) = (if is_blank l then [] else case parse l of None \<Rightarrow> [] | Some m \<Rightarrow> [m]) @ messages_of parse used"
    for used by (simp add: messages_of_def List.map_filter_def split: option.split)
  have again: ?case
    if more: "\<exists>used. items = used @ rest \<and> (markers_ascend ((ms @ heads) @ messages_of parse used) \<longrightarrow>
        remembers b' ((ms @ heads) @ messages_of parse used))"
    and head: "\<And>used. messages_of parse (GotLine l # used) = heads @ messages_of parse used" for heads
  proof -
    from more obtain used where u: "items = used @ rest"
      "markers_ascend (ms @ messages_of parse (GotLine l # used)) \<longrightarrow> remembers b' (ms @ messages_of parse (GotLine l # used))"
      unfolding head by auto
    then show ?thesis by (intro exI [of _ "GotLine l # used"]) simp
  qed
  have last: ?case if "rest = items" "messages_of parse [GotLine l] = heads" "remembers b' (ms @ heads)" for heads
    using that by (intro exI [of _ "[GotLine l]"]) simp
  consider (blank) "is_blank l" | (bad) "\<not> is_blank l" "parse l = None" | (message) m where "\<not> is_blank l" "parse l = Some m" by auto
  then show ?case
  proof cases
    case blank
    have "read_reply_handshake parse sz i items b = (r, b', rest)" using 6(4) blank by simp
    from 6(1) [OF blank this 6(5)] show ?thesis using line blank by (intro again [of "[]"]) simp_all
  next
    case bad
    then show ?thesis using 6(4,5) line [of "[]"] by (intro last [of "[]"]) simp_all
  next
    case message
    have head: "messages_of parse (GotLine l # used) = [m] @ messages_of parse used" for used using line message by simp
    show ?thesis
    proof (cases m)
      case (ReplyMessage j reply)
      then have "b' = b" "rest = items" using 6(4) message by (auto split: if_split_asm)
      then show ?thesis using 6(5) head [of "[]"] ReplyMessage by (intro last [of "[m]"]) (auto simp: remembers_def)
    next
      case (EventMessage seq ev)
      obtain more b1 where p: "buffer_push sz (BufEvent seq ev) b = (more, b1)" by fastforce
      have b1: "remembers b1 (ms @ [m])" using remembers_push(1) [OF 6(5), of sz seq ev] p EventMessage by simp
      show ?thesis
      proof (cases more)
        case True
        then have "read_reply_handshake parse sz i items b1 = (r, b', rest)" using 6(4) message EventMessage p by simp
        from 6(2) [OF message EventMessage p [symmetric] _ this b1] True show ?thesis using head by (intro again [of "[m]"]) simp_all
      next
        case False
        then have "b' = b1" "rest = items" using 6(4) message EventMessage p by auto
        then show ?thesis using b1 head [of "[]"] by (intro last [of "[m]"]) simp_all
      qed
    next
      case (ResyncMessage seq)
      let ?b = "snd (buffer_push sz (BufResync seq) b)"
      have more: "read_reply_handshake parse sz i items ?b = (r, b', rest)" using 6(4) message ResyncMessage by simp
      show ?thesis
      proof (cases "markers_ascend (ms @ [m])")
        case True
        then have "remembers ?b (ms @ [m])" using remembers_push(2) [OF 6(5)] ResyncMessage by simp
        from 6(3) [OF message ResyncMessage more this] show ?thesis using head by (intro again [of "[m]"])
      next
        case False
        obtain used where "items = used @ rest" using handshake_rest [OF more] by blast
        moreover have "\<not> markers_ascend ((ms @ [m]) @ ns)" for ns using False markers_ascendD(1) by blast
        ultimately show ?thesis using head by (intro again [of "[m]"]) blast+
      qed
    qed
  qed
next
  case (1 parse sz i b)
  then show ?case by simp
qed (use ended_early in \<open>fastforce+\<close>)

lemma push_while_frame:
  "\<forall>x \<in> set evs. case x of BufEvent _ e \<Rightarrow> is_global e | BufResync _ \<Rightarrow> False \<Longrightarrow>
     be_resync (push_while sz evs b) = be_resync b \<and> be_seq (push_while sz evs b) = be_seq b"
proof (induction evs arbitrary: b)
  case (Cons x evs)
  then obtain n e where x: "x = BufEvent n e" "is_global e" by (cases x) auto
  obtain more b1 where p: "buffer_push sz x b = (more, b1)" by fastforce
  show ?case using Cons.IH [of b1] Cons.prems global_push_frame [OF x(2), of sz n b] x(1) p by (cases more) auto
qed simp

lemma merge_remembers:
  assumes "remembers b ms" "remembers other ns" "buffer_ok sz other" "markers_ascend (ms @ ns)"
  shows "remembers (buffer_merge sz other b) (ms @ ns)"
proof -
  have fr: "be_resync (buffer_merge sz other b) = (be_resync b \<or> be_resync other)"
    "be_seq (buffer_merge sz other b) = (if be_resync other then later_seq (be_seq b) (be_seq other) else be_seq b)"
    using assms(3) push_while_frame [of "be_events other"] by (simp_all add: buffer_merge_def Let_def buffer_ok_def)
  have below: "k \<le> n" if "be_seq other = Some n" "k \<in> lost ms" for k n
    using assms(2) that markers_ascendD(2) [OF assms(4) that(2)] by (fastforce simp: remembers_def)
  show ?thesis
  proof (cases "be_resync other")
    case True
    then show ?thesis using assms(1,2) below
      by (auto simp: remembers_def fr later_seq_Some split: option.splits) (metis max.coboundedI1 max.coboundedI2)+
  next
    case False
    then show ?thesis using assms(1,2) by (auto simp: remembers_def fr)
  qed
qed

lemma heard_remembers:
  assumes "markers_ascend (heard parse sz h)"
  shows "remembers (fst (snd (read_reply_handshake parse sz (fst h) (snd h) no_buffered))) (heard parse sz h)"
proof -
  obtain r b rest where run: "read_reply_handshake parse sz (fst h) (snd h) no_buffered = (r, b, rest)" by (metis prod_cases3)
  have "remembers no_buffered []" by (simp add: remembers_def no_buffered_def)
  from handshake_remembers [OF run this] obtain used where
    u: "snd h = used @ rest" "markers_ascend (messages_of parse used) \<longrightarrow> remembers b (messages_of parse used)" by auto
  have "heard parse sz h = messages_of parse used" using run u(1) by (simp add: heard_def case_prod_beta)
  then show ?thesis using u(2) assms run by simp
qed

lemma collected_remembers:
  "markers_ascend (concat (map (heard parse sz) hs)) \<Longrightarrow>
     remembers (collected parse sz hs) (concat (map (heard parse sz) hs)) \<and> buffer_ok sz (collected parse sz hs)"
proof (induction hs rule: rev_induct)
  case Nil
  then show ?case by (simp add: collected_def remembers_def no_buffered_def buffer_ok_def)
next
  case (snoc h hs)
  let ?b = "fst (snd (read_reply_handshake parse sz (fst h) (snd h) no_buffered))"
  have asc: "markers_ascend (concat (map (heard parse sz) hs) @ heard parse sz h)" using snoc.prems by simp
  note ih = snoc.IH [OF conjunct1 [OF markers_ascendD(1) [OF asc]]]
  note b = heard_remembers [OF conjunct2 [OF markers_ascendD(1) [OF asc]]]
  have "buffer_ok sz no_buffered" by (simp add: no_buffered_def buffer_ok_def)
  then have bok: "buffer_ok sz ?b" using handshake_buffer_ok by (metis prod.collapse)
  have "collected parse sz (hs @ [h]) = buffer_merge sz ?b (collected parse sz hs)" by (simp add: collected_def case_prod_beta)
  then show ?case using merge_remembers [OF conjunct1 [OF ih] b bok asc] buffer_merge_ok ih by simp
qed

text \<open>C29: What was lost while a client reconnected is announced to it.  Let an event of the session,
  or a marker, be among the messages that the handshakes of a reconnect read, with a number that
  neither the snapshot nor the events given before cover.  Then the frontend finds in its queue,
  behind the new connection's first events, a marker for its session, and its context is marked,
  unless the queue was closed on the way.  The daemon's markers are trusted to ascend: none
  carries a number below that of an event or marker that came before it.  A marker that was
  overtaken by an event hides the loss (\<open>overtaken_marker_hides_loss\<close>).\<close>

theorem reconnect_announces_loss:
  assumes reach: "queue_reachable sz (snd st)" and attached: "lf_attached (fst st) = Some session"
    and ascend: "markers_ascend (concat (map (heard parse bsz) handshakes))"
    and loss: "m \<in> set (concat (map (heard parse bsz) handshakes))" "lost_number m = Some k"
      "max (lf_snapshot_seq (fst st)) (lf_last_seq (fst st)) < k"
    and finish: "finish_reconnect sz c version pid mismatch snapshot (collected parse bsz handshakes) st = Some (s', q')"
    and still_open: "\<not> q_closed q'"
  shows "ResyncNeeded (context_of (fst st)) \<in> fst ` set (q_events q') \<and> context_of (fst st) \<in> fst ` set (q_marks q')"
proof -
  let ?b = "collected parse bsz handshakes"
  have kept: "remembers ?b (concat (map (heard parse bsz) handshakes))" "buffer_ok bsz ?b"
    using collected_remembers [OF ascend] by simp_all
  have "k \<in> lost (concat (map (heard parse bsz) handshakes))" using loss by (auto simp: lost_def)
  then have "be_resync ?b" "\<And>n. be_seq ?b = Some n \<Longrightarrow> k \<le> n" using kept(1) by (auto simp: remembers_def)
  moreover from this(2) have "accepted_resync_context (be_seq ?b) (fst st) = Some (context_of (fst st))"
    using attached loss(3) by (fastforce simp: accepted_resync_context_def Let_def split: option.split)
  ultimately show ?thesis using accepted_marker_emitted [OF reach kept(2) _ _ finish still_open] by blast
qed

section \<open>Runs\<close>

lemma lines_without_chunks_witness:
  "read_lines [''ab'', [newline, CHR ''c'']] = read_lines [''a'', ''b'', [newline], ''c'']"
  by (rule lines_without_chunks) simp_all

definition parse_lines :: "string \<Rightarrow> server_message option" where
  "parse_lines l =
     (if l = ''delta'' then Some (EventMessage 8 (TextDelta ''main'' 0 ''x''))
      else if l = ''auth'' then Some (EventMessage 9 (AuthUpdated ''p'' ''ok''))
      else if l = ''reply'' then Some (ReplyMessage 1 ReplyOk) else None)"

definition buffered_once :: buffered_events where
  "buffered_once = fst (snd (read_reply_handshake parse_lines (\<lambda>_. 100) 1
     [GotLine ''delta'', GotLine ''auth'', GotLine ''reply''] no_buffered))"

lemma buffered_once_eval:
  "read_reply_handshake parse_lines (\<lambda>_. 100) 1 [GotLine ''delta'', GotLine ''auth'', GotLine ''reply''] no_buffered =
     (Inr ReplyOk, buffered_once, [])"
  "buffered_once = \<lparr>be_events = [BufEvent 9 (AuthUpdated ''p'' ''ok'')], be_bytes = 100, be_resync = True, be_seq = None,
     be_overflowed = False\<rparr>"
  by (simp_all add: buffered_once_def is_blank_def parse_lines_def buffer_push_def buffer_add_def buffer_mark_def no_buffered_def
      HANDSHAKE_EVENT_BYTE_LIMIT_def HANDSHAKE_EVENT_CAPACITY_def)

lemma handshake_accounts_all_witness: "line_accounted parse_lines buffered_once ''delta''"
  using handshake_accounts_all [of parse_lines "\<lambda>_. 100" 1 "[GotLine ''delta'', GotLine ''auth'', GotLine ''reply'']" "[]"
      ReplyOk buffered_once "''delta''"] buffered_once_eval(1) by simp

definition attached_life :: lifecycle where
  "attached_life = \<lparr>lf_connection = 1, lf_epoch = 1,
     lf_desired = Some \<lparr>at_request = 2, at_key = ''k'', at_target = ResumeSession ''ses'', at_epoch = 1, at_connection = 1\<rparr>,
     lf_attached = Some ''ses'', lf_snapshot_seq = 4, lf_last_seq = 7\<rparr>"

definition fresh_reader :: reader_state where
  "fresh_reader = \<lparr>rd_life = attached_life, rd_queue = new_queue, rd_pending = {}, rd_attaches = Map.empty\<rparr>"

definition marked_queue :: event_queue where
  "marked_queue = \<lparr>q_events = [(ResyncNeeded (context_of attached_life), 100)], q_bytes = 100,
     q_marks = [(context_of attached_life, 9)], q_closed = False, q_terminal = False\<rparr>"

lemma fresh_reader_run:
  "reader_message (\<lambda>_. 100) False False (ResyncMessage (Some 9)) fresh_reader =
     Some (True, fresh_reader\<lparr>rd_queue := marked_queue\<rparr>)"
  by (simp add: reader_message_def fresh_reader_def accepted_resync_context_def attached_life_def marked_queue_def queue_eval)

lemma reported_loss_is_marked_witness:
  "\<exists>f. 9 \<le> f \<and> (context_of attached_life, f) \<in> set (q_marks marked_queue)"
  using reported_loss_is_marked [OF _ _ _ fresh_reader_run]
  by (simp add: fresh_reader_def attached_life_def marked_queue_def)

lemma reconnected_run:
  "\<exists>q'. finish_reconnect (\<lambda>_. 100) (context_of attached_life) ''1.0'' 77 False
      (Some (\<lparr>sn_session = ''ses'', sn_seq = 7\<rparr>, ''body'', True)) buffered_once (attached_life, new_queue) = Some (attached_life, q') \<and>
    \<not> q_closed q'"
  by (simp add: finish_reconnect_def emit_event_def emit_snapshot_def buffered_once_eval(2) accepted_event_context_def
      accepted_resync_context_def attached_life_def snapshot_applied_def retain_events_def context_of_def queue_eval)

definition handshake_once :: "handshake list" where
  "handshake_once = [(1, [GotLine ''delta'', GotLine ''auth'', GotLine ''reply''])]"

lemma handshake_once_eval:
  "concat (map (heard parse_lines (\<lambda>_. 100)) handshake_once) =
     [EventMessage 8 (TextDelta ''main'' 0 ''x''), EventMessage 9 (AuthUpdated ''p'' ''ok''), ReplyMessage 1 ReplyOk]"
  "collected parse_lines (\<lambda>_. 100) handshake_once = buffered_once"
proof -
  show "concat (map (heard parse_lines (\<lambda>_. 100)) handshake_once) =
     [EventMessage 8 (TextDelta ''main'' 0 ''x''), EventMessage 9 (AuthUpdated ''p'' ''ok''), ReplyMessage 1 ReplyOk]"
  proof -
    have "heard parse_lines (\<lambda>_. 100) (1, [GotLine ''delta'', GotLine ''auth'', GotLine ''reply'']) =
        messages_of parse_lines [GotLine ''delta'', GotLine ''auth'', GotLine ''reply'']"
      by (simp only: heard_def prod.case buffered_once_eval(1)) simp
    then show ?thesis
      by (simp add: handshake_once_def messages_of_def List.map_filter_def is_blank_def parse_lines_def)
  qed
  show "collected parse_lines (\<lambda>_. 100) handshake_once = buffered_once"
  proof -
    have "collected parse_lines (\<lambda>_. 100) handshake_once = buffer_merge (\<lambda>_. 100) buffered_once no_buffered"
      by (simp only: collected_def handshake_once_def foldl.simps prod.case buffered_once_eval(1) fst_conv snd_conv)
    then show ?thesis
      by (simp add: buffered_once_eval(2) buffer_merge_def no_buffered_def buffer_push_def buffer_add_def
          HANDSHAKE_EVENT_BYTE_LIMIT_def HANDSHAKE_EVENT_CAPACITY_def)
  qed
qed

lemma reconnect_announces_loss_witness:
  "\<exists>q'. finish_reconnect (\<lambda>_. 100) (context_of attached_life) ''1.0'' 77 False
      (Some (\<lparr>sn_session = ''ses'', sn_seq = 7\<rparr>, ''body'', True)) (collected parse_lines (\<lambda>_. 100) handshake_once)
      (attached_life, new_queue) = Some (attached_life, q') \<and>
    ResyncNeeded (context_of attached_life) \<in> fst ` set (q_events q')"
proof -
  obtain q' where q': "finish_reconnect (\<lambda>_. 100) (context_of attached_life) ''1.0'' 77 False
      (Some (\<lparr>sn_session = ''ses'', sn_seq = 7\<rparr>, ''body'', True)) (collected parse_lines (\<lambda>_. 100) handshake_once)
      (attached_life, new_queue) = Some (attached_life, q')"
    "\<not> q_closed q'" using reconnected_run unfolding handshake_once_eval(2) by blast
  have reach: "queue_reachable (\<lambda>_. 100) (snd (attached_life, new_queue))" by simp
  have attached: "lf_attached (fst (attached_life, new_queue)) = Some ''ses''" by (simp add: attached_life_def)
  have ascend: "markers_ascend (concat (map (heard parse_lines (\<lambda>_. 100)) handshake_once))"
    by (simp add: handshake_once_eval(1) markers_ascend_def)
  have loss: "EventMessage 8 (TextDelta ''main'' 0 ''x'') \<in> set (concat (map (heard parse_lines (\<lambda>_. 100)) handshake_once))"
    "lost_number (EventMessage 8 (TextDelta ''main'' 0 ''x'')) = Some 8"
    "max (lf_snapshot_seq (fst (attached_life, new_queue))) (lf_last_seq (fst (attached_life, new_queue))) < 8"
    unfolding handshake_once_eval(1) by (simp_all add: attached_life_def)
  from reconnect_announces_loss [OF reach attached ascend loss q'] q'(1) show ?thesis by auto
qed

text \<open>A dropped event makes the number of the wished marker unknown, and a marker with a lower number
  that comes after it makes it known again: the loss of event 8 is then taken for covered by a
  snapshot at 7.\<close>

lemma overtaken_marker_hides_loss:
  "accepted_resync_context (be_seq (buffer_mark (Some 5) (buffer_mark None no_buffered))) attached_life = None \<and>
   accepted_resync_context (be_seq (buffer_mark None no_buffered)) attached_life = Some (context_of attached_life)"
  by (simp add: buffer_mark_def no_buffered_def accepted_resync_context_def attached_life_def)

end
