(* ===== verification/Spec2Isabelle.thy ===== *)
theory Spec2Isabelle
  imports Gate Permissions Admission Edits Schedule Ledger Requests Mailbox Compaction Locks Client_Wire
begin

text \<open>
  A verification development for pacode, a coding agent that runs shell commands and edits
  files on behalf of a language model.  What makes such a program safe is the path every
  tool call takes before it has an effect; this development models that path from the
  bytes of a command line to the user's answer.

  \<^bold>\<open>The parts and how they interact.\<close>
  A shell command arrives as one string.  The crate \<^verbatim>\<open>pacode-risk\<close> lexes and parses it,
  unwraps the programs that run other programs, judges every simple command and combines
  the findings into a level (\<open>Safe\<close>, \<open>Low\<close>, \<open>Confirm\<close>, \<open>Catastrophic\<close>).  The matrix of
  \<^verbatim>\<open>pacode-core/src/permissions.rs\<close> turns mode, kind of tool and level into allow, ask or
  deny; asking registers a prompt in a store shared by all agents of a session, and the
  call waits for the client's answer, an interrupt or the end of its turn.  A command that
  may run takes a slot of the admission queue of \<^verbatim>\<open>pacode-exec\<close>.  A file is shown with an
  anchor per line, and an edit names the lines it changes by anchors, which are resolved
  against the file as it is when the edit runs; the ledger keeps the lines an agent has
  read and stops an edit of lines that another agent changed since.  An orchestrator and
  its subagents exchange messages through mailboxes, which also record who stopped an agent.
  Prompts also come from the session's scheduler, which runs cron jobs and watches
  conditions.  The model answers over HTTP as server-sent events, which \<^verbatim>\<open>pacode-provider\<close>
  turns into the events of one message; a governor per account admits its requests, and a
  request that failed before it had output is sent again.  Every message, call and result
  gets a numbered row in the agent's history, which is repaired on the way to the model and
  compacted when it outgrows the model's window.  A frontend follows a session over a socket;
  \<^verbatim>\<open>pacode-client\<close> reconnects it, filters what it has seen and bounds what it has not read.

  \<^bold>\<open>Theories.\<close>
  \<^item> \<open>Prelude\<close>: the standard library functions the sources use on strings and slices,
    bounded loops (locale \<open>progress\<close>) and state machines (locale \<open>state_machine\<close>).
  \<^item> \<open>Risk_Types\<close> (\<^verbatim>\<open>pacode-risk/src/lib.rs\<close>): levels with their order as an instance of
    \<open>linorder\<close>, findings and assessments.
  \<^item> \<open>Paths\<close> (\<^verbatim>\<open>paths.rs\<close>): normalisation, protected paths, the verdict on one target.  A
    normalised path is canonical, spelling does not change a verdict, and a lenient
    verdict guarantees where the target lies.
  \<^item> \<open>Scan\<close> (\<^verbatim>\<open>tokenize/scan.rs\<close>) and \<open>Tokenize\<close> (\<^verbatim>\<open>tokenize.rs\<close>): the lexer, one definition
    per method, over a state with the position in the line.  It reads every line to its
    end, and its recursion through substitutions always returns.
  \<^item> \<open>Shell\<close> (\<^verbatim>\<open>shell.rs\<close>): the parser into simple commands, and brace expansion.  No
    command inside a substitution is lost; an expansion is complete.
  \<^item> \<open>Wrappers\<close> (\<^verbatim>\<open>wrappers.rs\<close>): option tables and unwrapping.  Parsing options inverts
    spelling them.
  \<^item> \<open>Writers\<close> (\<^verbatim>\<open>git.rs\<close>, \<^verbatim>\<open>sinks.rs\<close>, \<^verbatim>\<open>writers.rs\<close>): what a program writes through its own
    arguments; finding the subcommand of a git call inverts spelling it.
  \<^item> \<open>Readonly\<close> (\<^verbatim>\<open>readonly.rs\<close>, \<^verbatim>\<open>pure.rs\<close>): the checks of Plan mode and of parallel calls.
    The locale \<open>line_check\<close> is what both share; its interpretations \<open>plan\<close> and \<open>beside\<close>
    give the two soundness theorems.
  \<^item> \<open>Assess\<close> (\<^verbatim>\<open>assess.rs\<close>): every judge of a script.  The locale \<open>script_judge\<close> is what
    the judges rely on of the nested call; it is interpreted on \<open>script_findings\<close>.
  \<^item> \<open>Gate\<close> (\<^verbatim>\<open>gate.rs\<close>): the decision.  The gate fails closed, refuses protected targets
    wherever the command stands, and within the limit of brace expansion neither wrappers nor
    substitutions soften it.
  \<^item> \<open>Permissions\<close> (\<^verbatim>\<open>pacode-core/src/permissions.rs\<close>, \<^verbatim>\<open>host/permission.rs\<close>): matrix, store
    and the flow of a call; the step relation \<open>pstep\<close> has one step per lock region.  Only
    the user's answer permits, prompts are bounded, no waiting call is stranded.
  \<^item> \<open>Ranges\<close> (\<^verbatim>\<open>pacode-core/src/ledger/ranges.rs\<close>): line ranges refine a set of lines
    (locale \<open>line_set\<close>).
  \<^item> \<open>Admission\<close> (\<^verbatim>\<open>pacode-exec/src/admission.rs\<close>): slots and tickets as the step relation
    \<open>step\<close>; limits, order and wake-ups.
  \<^item> \<open>Hashline\<close> (\<^verbatim>\<open>pacode-tools/src/hashline\<close>): line hashes on 64-bit words, anchors, the
    annotated display and snippets; a displayed anchor is read back, but for the rows that a
    rejected edit marks.
  \<^item> \<open>Edits\<close> (\<^verbatim>\<open>hashline/apply.rs\<close>): validation, resolution, overlap check and assembly of
    an edit.  Only the named lines change (the end of the file apart), a fresh edit
    applies, and an anchor that no longer matches is reported.
  \<^item> \<open>Snapshots\<close> (\<^verbatim>\<open>ledger/snapshot.rs\<close>, \<^verbatim>\<open>diff_memo.rs\<close>, \<^verbatim>\<open>partial.rs\<close>): snapshots of a file,
    the coarse diff between two of them and its memo table; lines outside the reported
    ranges did not change.
  \<^item> \<open>Ledger\<close> (\<^verbatim>\<open>ledger/types.rs\<close>, \<^verbatim>\<open>entry.rs\<close>, \<^verbatim>\<open>state.rs\<close>, \<^verbatim>\<open>render.rs\<close>): reads, writes and
    acknowledged changes per agent and file; the step relation \<open>lstep\<close> interleaves agents.
    A write touches only lines that its author was shown or that are as in a version it knows,
    where a hash names one version; and one retry suffices.
  \<^item> \<open>Locks\<close> (\<^verbatim>\<open>ledger/locks.rs\<close>, \<^verbatim>\<open>ledger/refresh.rs\<close>, \<^verbatim>\<open>ledger.rs\<close>, \<^verbatim>\<open>pacode-tools/src/registry.rs\<close>,
    \<^verbatim>\<open>builtin/helpers.rs\<close>): keys of paths, locks per path, write locks and the gate of the stat
    sweeps.  A path has one writer, calls for several paths all come to an end, a returned
    refresh is covered by a sweep, and a file keeps its key when it is created.
  \<^item> \<open>Buffers\<close> (\<^verbatim>\<open>pacode-exec/src/buffer.rs\<close>, \<^verbatim>\<open>truncate_head_tail\<close>): bytes as text, the buffer
    of process output and cut texts; the two ends of an output are kept exactly.
  \<^item> \<open>Sse\<close>, \<open>Chunks\<close>, \<open>Event_Stream\<close> (\<^verbatim>\<open>pacode-provider/src/sse.rs\<close>, \<^verbatim>\<open>sse_typed.rs\<close>): the
    incremental parser, which refines cutting the whole response; the two translations of
    a payload and the bookkeeping of tool calls; and the stream, polled by \<open>sstep\<close>, which is
    bounded, yields one message and comes to its end.
  \<^item> \<open>Provider_Errors\<close> (\<^verbatim>\<open>error_body.rs\<close>, \<^verbatim>\<open>post.rs\<close>, \<^verbatim>\<open>retry.rs\<close>): error texts, statuses and pacing
    hints, with JSON values as a datatype.
  \<^item> \<open>Governor\<close> (\<^verbatim>\<open>governor.rs\<close>): slots, waiters, queue room, cooldown and the adaptive limit
    of one account; \<open>gstep\<close> has one step per lock region.  The counters add up, no waiter is
    left behind a free slot, and a limit is halved once per episode.
  \<^item> \<open>Requests\<close> (\<^verbatim>\<open>retry.rs\<close>, \<^verbatim>\<open>post.rs\<close>): one request through both retry loops (\<open>tstep\<close>), and many
    requests on one governor (\<open>cstep\<close>).  The reader gets one message, sending again is bounded
    and ends, and the slots in use are those of the requests that wait for headers or for the
    end of their message.
  \<^item> \<open>Notices\<close> (\<^verbatim>\<open>pacode-core/src/inject.rs\<close>, \<^verbatim>\<open>notice_lock.rs\<close>, \<^verbatim>\<open>turn/drain.rs\<close>): what reaches a
    model between its steps; \<open>nstep\<close> is the lock in use.  Parked notices are bounded and
    accounted for and go out in order, no question vanishes in a drain, and putting a batch
    back reverses it.
  \<^item> \<open>Mailbox\<close> (\<^verbatim>\<open>pacode-core/src/rpc\<close>): messages between an orchestrator and a subagent, stops
    and resumes, interleaved by \<open>mstep\<close>.  A stop of the user needs the user's leave to be
    lifted, a close wins, no question is stranded and no delivered message is lost.
  \<^item> \<open>History\<close> (\<^verbatim>\<open>pacode-types/src/message.rs\<close>, \<^verbatim>\<open>pacode-core/src/agent.rs\<close>, \<^verbatim>\<open>turn.rs\<close>,
    \<^verbatim>\<open>turn/tools.rs\<close>, \<^verbatim>\<open>turn/drain.rs\<close>, \<^verbatim>\<open>session.rs\<close>): messages, rows and reservations; \<open>chat_step\<close>
    interleaves everything that touches them.  Numbers are used once, rows stay in order,
    what is sent pairs every call with one result, given well-built messages, and a turn that
    died is answered for while no number waits to be used again.
  \<^item> \<open>Compaction\<close> (\<^verbatim>\<open>pacode-core/src/compaction\<close>): the cut, shaking, the summary and its route,
    pinned data, the pipeline and the rewriting of the history.  Pairs are not separated,
    only tool messages are rewritten, the newest user message is kept or put to the summary model,
    what is kept is bounded, rows with new numbers stay, and under zero data retention no
    outside model sees the conversation.
  \<^item> \<open>Cron\<close> (\<^verbatim>\<open>pacode-types/src/cron_expr.rs\<close>): cron fields, calendar arithmetic and the
    search; the next run is the first matching minute.
  \<^item> \<open>Schedule\<close> (\<^verbatim>\<open>pacode-types/src/schedule.rs\<close>, \<^verbatim>\<open>pacode-core/src/schedule\<close>): jobs,
    monitors and the scheduler, interleaved by \<open>sched_step\<close>.  Its tables stay bounded, a due
    job fires once, and a wake passes its deadline.

  \<^item> \<open>Client_Lifecycle\<close>, \<open>Client_Queue\<close>, \<open>Client_Wire\<close> (\<^verbatim>\<open>pacode-client/src/lib.rs\<close>,
    \<^verbatim>\<open>connection/reconnect.rs\<close>): what a frontend is attached to (\<open>life_step\<close>), the bounded queue
    of its events (\<open>queue_step\<close>), and the lines, handshakes and messages that feed both.  Nothing
    of a session is shown twice, control events are kept or the stream is closed, and a loss
    during a reconnect is announced while the daemon's markers ascend; other theorems show where
    text is lost without a word.

  \<^bold>\<open>Correspondence.\<close>
  Names follow the sources; a name that clashes with one of HOL or of another module has a
  suffix or prefix.  A Rust string is the list of its UTF-8 bytes; \<^verbatim>\<open>char::is_whitespace\<close>
  and case folding are modelled on ASCII.  \<^verbatim>\<open>usize\<close> positions and counters are natural
  numbers: they are bounded by the length of a line, by the caps of the queues, or
  subtracted under a guard, so nothing wraps.  Where the width matters it is kept: line
  hashes and the stepping loop of a cron field are machine words, saturating \<^verbatim>\<open>u64\<close>
  arithmetic is written out, \<^verbatim>\<open>i64\<close> division truncates.  Mutable structures are records passed and
  returned.  A mutex region is one function, and the interleaving of regions is a step
  relation.  The environment (\<^verbatim>\<open>TMPDIR\<close>, home, working directory), generated ids, clocks
  and the registered tools are arguments.

  \<^bold>\<open>Bounds.\<close>
  A Rust loop is a step function iterated with a bound that is proved to be enough: the
  scanners and the lexer by the remaining length of the line, nested substitutions by
  the length of their bodies, the words of a command by their number plus the brace
  limit, brace expansion by the number of opening braces.  The depth limits of the
  sources (\<^verbatim>\<open>MAX_NESTING\<close>, \<^verbatim>\<open>MAX_DEPTH\<close>) are modelled as they are.

  \<^bold>\<open>Not modelled.\<close>
  Logging, events, transcripts, hooks and status updates of the permission flow; process
  control, files, sockets, HTTP, databases and terminal rendering; tree-sitter and the
  other third-party engines; single-precision arithmetic (the shares of the window a
  compaction aims at are arguments).  The turn loop around the parts above, the daemon,
  the frontends, the attach retries of a client and the coreutils are not modelled.
\<close>

end
